(* ===== verification/Prelude.thy ===== *)
theory Prelude
  imports Main "HOL-Library.Word"
begin

text \<open>
  Shared vocabulary of the development: the fixed-width integers of the kernel, the flat byte
  memory that pointers of the C sources range over, address regions, and the generic facts on
  lists, folds and words that the component theories use.

  A C pointer is a \<open>u64\<close>, with \<open>0\<close> for \<open>NULL\<close>; pointer arithmetic is
  word addition.  Memory is a total function from addresses to bytes: a stray access reads or
  writes whatever lies at that address, as on the machine.  A counting loop
  \<open>for (i = 0; i < n; i++)\<close> is a \<open>fold\<close> over \<open>[0..<n]\<close>.
\<close>

unbundle bit_operations_syntax

type_synonym u8 = "8 word"
type_synonym u16 = "16 word"
type_synonym u32 = "32 word"
type_synonym u64 = "64 word"
type_synonym memory = "u64 \<Rightarrow> u8"

abbreviation (input) NULL :: u64 where
  "NULL \<equiv> 0"

named_theorems mem_simps \<open>loads after stores\<close>
named_theorems word_nat_simps \<open>from word arithmetic to natural numbers\<close>

section \<open>Words\<close>

lemma unat_of_nat_u64 [simp]: "n < 2 ^ 64 \<Longrightarrow> unat (of_nat n :: u64) = n"
  by (simp add: unat_of_nat)

lemma unat_of_nat_u32 [simp]: "n < 2 ^ 32 \<Longrightarrow> unat (of_nat n :: u32) = n"
  by (simp add: unat_of_nat)

lemma of_nat_u64_inject:
  "i < 2 ^ 64 \<Longrightarrow> j < 2 ^ 64 \<Longrightarrow> (of_nat i :: u64) = of_nat j \<longleftrightarrow> i = j"
  by (metis unat_of_nat_u64)

lemma unat_u64_bound: "unat (x :: u64) < 2 ^ 64"
  using unsigned_less [of x] by simp

lemma unat_u32_bound: "unat (x :: u32) < 2 ^ 32"
  using unsigned_less [of x] by simp

lemma unat_u64_bound_num [simp]: "unat (x :: u64) < 18446744073709551616"
  using unat_u64_bound [of x] by simp

lemma unat_u32_bound_num [simp]: "unat (x :: u32) < 4294967296"
  using unat_u32_bound [of x] by simp

lemma le_unat_u64: "j \<le> unat (n :: u64) \<Longrightarrow> j < 2 ^ 64"
  using unat_u64_bound [of n] by linarith

lemma unat_of_nat_le [simp]: "j \<le> unat (n :: u64) \<Longrightarrow> unat (of_nat j :: u64) = j"
  using le_unat_u64 by simp

lemma unat_ucast_u8_u64 [simp]: "unat (ucast (b :: u8) :: u64) = unat b"
proof -
  have "unat b < 2 ^ 64" by (rule order_less_trans [OF unsigned_less]) simp
  then show ?thesis by (simp add: unsigned_ucast_eq take_bit_nat_eq_self_iff)
qed

lemma unat_ucast_u32_u64 [simp]: "unat (ucast (b :: u32) :: u64) = unat b"
proof -
  have "unat b < 2 ^ 64" by (rule order_less_trans [OF unsigned_less]) simp
  then show ?thesis by (simp add: unsigned_ucast_eq take_bit_nat_eq_self_iff)
qed

lemma uint_ucast_u8_u64 [simp]: "uint (ucast (b :: u8) :: u64) = uint b"
  unfolding uint_nat unat_ucast_u8_u64 ..

lemma uint_ucast_u32_u64 [simp]: "uint (ucast (b :: u32) :: u64) = uint b"
  unfolding uint_nat unat_ucast_u32_u64 ..

lemma unat_add_u64:
  "unat x + unat y < 2 ^ 64 \<Longrightarrow> unat (x + y :: u64) = unat x + unat y"
  by (simp add: unat_word_ariths)

lemma unat_add_1_less:
  fixes x y :: u64
  assumes "unat x < unat y"
  shows "unat (x + 1) = Suc (unat x)"
proof -
  have "unat x + unat (1 :: u64) < 2 ^ 64"
    using assms unat_u64_bound [of y] unfolding unat_1 by linarith
  from unat_add_u64 [OF this] show ?thesis by simp
qed

lemma unat_sub_le: "(y :: 'a :: len word) \<le> x \<Longrightarrow> unat (x - y) = unat x - unat y"
  by (simp add: unat_sub)

lemma unat_mult_u64:
  "unat x * unat y < 2 ^ 64 \<Longrightarrow> unat (x * y :: u64) = unat x * unat y"
  by (simp add: unat_word_ariths)

lemma word_offset_inject:
  "i < 2 ^ 64 \<Longrightarrow> j < 2 ^ 64 \<Longrightarrow> (p :: u64) + of_nat i = p + of_nat j \<longleftrightarrow> i = j"
  by (simp add: of_nat_u64_inject)

lemma word_le_unat: "(x :: 'a :: len word) \<le> y \<longleftrightarrow> unat x \<le> unat y"
  by (simp add: word_le_nat_alt)

lemma word_less_unat: "(x :: 'a :: len word) < y \<longleftrightarrow> unat x < unat y"
  by (simp add: word_less_nat_alt)

lemmas [word_nat_simps] = word_le_unat word_less_unat unat_add_u64 unat_sub_le unat_mult_u64
  unat_div unat_mod

subsection \<open>Alignment\<close>

text \<open>Clearing the low \<open>n\<close> bits, the \<open>x & ~(2^n - 1)\<close> idiom.\<close>

lemma and_not_mask_unat:
  "unat (x AND NOT (mask n) :: 'a :: len word) = unat x - unat x mod 2 ^ n"
proof -
  have split: "x = (x AND mask n) + (x AND NOT (mask n))"
    by (subst disjunctive_add) (auto intro: bit_word_eqI simp: bit_simps)
  have low: "unat (x AND mask n) = unat x mod 2 ^ n"
    by (simp add: unsigned_and_eq unsigned_take_bit_eq flip: take_bit_eq_mask take_bit_eq_mod)
  have le: "x AND NOT (mask n) \<le> x"
    by (rule word_and_le2)
  have "x AND NOT (mask n) = x - (x AND mask n)"
    using split by (metis add_diff_cancel_left')
  then have "unat (x AND NOT (mask n)) = unat (x - (x AND mask n))"
    by simp
  also have "\<dots> = unat x - unat (x AND mask n)"
    by (rule unat_sub_le) (rule word_and_le2)
  finally show ?thesis
    by (simp add: low)
qed

lemma and_not_mask_aligned: "2 ^ n dvd unat (x AND NOT (mask n) :: 'a :: len word)"
  by (simp add: and_not_mask_unat)

section \<open>Splitting strings\<close>

lemma length_tl_dropWhile [termination_simp]:
  "p \<noteq> [] \<Longrightarrow> length (dropWhile P p) - Suc 0 < length p"
  using length_dropWhile_le [of P p] by (cases p) (auto simp: less_Suc_eq_le split: if_splits intro: le_trans [OF diff_le_self])

lemma length_tl_dropWhile_dropWhile [termination_simp]:
  "dropWhile Q p \<noteq> [] \<Longrightarrow> length (dropWhile P (dropWhile Q p)) - Suc 0 < length p"
  using length_tl_dropWhile [of "dropWhile Q p" P] length_dropWhile_le [of Q p] by linarith

section \<open>Folds as loops\<close>

lemma fold_upt_Suc:
  "fold f [0..<Suc n] s = f n (fold f [0..<n] s)"
  by simp

text \<open>The loop rule: an invariant established before the loop and kept by each round.\<close>

lemma fold_upt_invariant:
  assumes "P 0 s" and "\<And>i s. i < n \<Longrightarrow> P i s \<Longrightarrow> P (Suc i) (f i s)"
  shows "P n (fold f [0..<n] s)"
  using assms by (induction n) auto

section \<open>Byte memory\<close>

definition region :: "u64 \<Rightarrow> nat \<Rightarrow> u64 set" where
  "region p n = (\<lambda>i. p + of_nat i) ` {..<n}"

lemma region_0 [simp]: "region p 0 = {}"
  by (simp add: region_def)

lemma region_mem [intro]: "i < n \<Longrightarrow> p + of_nat i \<in> region p n"
  by (simp add: region_def)

lemma region_memE:
  assumes "a \<in> region p n"
  obtains i where "i < n" and "a = p + of_nat i"
  using assms by (auto simp: region_def)

lemma region_Suc: "region p (Suc n) = insert (p + of_nat n) (region p n)"
  by (auto simp: region_def lessThan_Suc)

lemma region_mono: "m \<le> n \<Longrightarrow> region p m \<subseteq> region p n"
  by (auto simp: region_def)

lemma region_shift: "region (p + of_nat k) n \<subseteq> region p (k + n)"
proof
  fix a
  assume "a \<in> region (p + of_nat k) n"
  then obtain i where "i < n" "a = p + of_nat k + of_nat i"
    by (rule region_memE)
  then have "a = p + of_nat (k + i)" "k + i < k + n"
    by (simp_all add: add.assoc)
  then show "a \<in> region p (k + n)"
    by (simp only: region_mem)
qed

definition load_bytes :: "memory \<Rightarrow> u64 \<Rightarrow> nat \<Rightarrow> u8 list" where
  "load_bytes m p n = map (\<lambda>i. m (p + of_nat i)) [0..<n]"

lemma length_load_bytes [simp]: "length (load_bytes m p n) = n"
  by (simp add: load_bytes_def)

lemma nth_load_bytes [simp]: "i < n \<Longrightarrow> load_bytes m p n ! i = m (p + of_nat i)"
  by (simp add: load_bytes_def)

lemma load_bytes_cong:
  "(\<And>i. i < n \<Longrightarrow> m (p + of_nat i) = m' (q + of_nat i)) \<Longrightarrow> load_bytes m p n = load_bytes m' q n"
  by (simp add: load_bytes_def)

lemma load_bytes_frame:
  "(\<And>a. a \<in> region p n \<Longrightarrow> m a = m' a) \<Longrightarrow> load_bytes m p n = load_bytes m' p n"
  by (rule load_bytes_cong) auto

lemma load_bytes_Suc: "load_bytes m p (Suc n) = load_bytes m p n @ [m (p + of_nat n)]"
  by (simp add: load_bytes_def)

lemma load_bytes_Cons: "load_bytes m p (Suc n) = m p # load_bytes m (p + 1) n"
  by (rule nth_equalityI) (auto simp: nth_Cons split: nat.split simp: add.assoc)

lemma region_iff:
  assumes "n \<le> 2 ^ 64"
  shows "a \<in> region p n \<longleftrightarrow> unat (a - p) < n"
proof
  assume "a \<in> region p n"
  then obtain i where "i < n" "a = p + of_nat i"
    by (rule region_memE)
  with assms show "unat (a - p) < n" by simp
next
  assume "unat (a - p) < n"
  then have "p + of_nat (unat (a - p)) \<in> region p n" by (rule region_mem)
  then show "a \<in> region p n" by simp
qed

lemma unat_diff_eq_iff: "n < 2 ^ 64 \<Longrightarrow> unat (a - p :: u64) = n \<longleftrightarrow> a = p + of_nat n"
  by auto

text \<open>
  \<open>copied m d s n\<close> is the memory in which the \<open>n\<close> bytes at \<open>d\<close> hold what the
  \<open>n\<close> bytes at \<open>s\<close> held in \<open>m\<close>: the abstract specification of every copying
  routine.
\<close>

definition copied :: "memory \<Rightarrow> u64 \<Rightarrow> u64 \<Rightarrow> nat \<Rightarrow> memory" where
  "copied m d s n = (\<lambda>a. if unat (a - d) < n then m (s + (a - d)) else m a)"

lemma copied_0 [simp]: "copied m d s 0 = m"
  by (simp add: copied_def)

lemma copied_same: "copied m d d n = m"
  by (simp add: copied_def fun_eq_iff)

lemma copied_target [mem_simps]:
  "i < n \<Longrightarrow> n \<le> 2 ^ 64 \<Longrightarrow> copied m d s n (d + of_nat i) = m (s + of_nat i)"
  by (simp add: copied_def)

lemma copied_other [mem_simps]: "a \<notin> region d n \<Longrightarrow> n \<le> 2 ^ 64 \<Longrightarrow> copied m d s n a = m a"
  by (simp add: copied_def region_iff)

lemma copied_append:
  assumes "region d (j + k) \<inter> region s (j + k) = {}" and le: "j + k \<le> 2 ^ 64"
  shows "copied (copied m d s j) (d + of_nat j) (s + of_nat j) k = copied m d s (j + k)"
proof
  fix a
  define i where "i = unat (a - d)"
  have a: "a = d + of_nat i" and i: "i < 2 ^ 64"
    by (simp_all add: i_def)
  have diff: "a - (d + of_nat j) = of_nat i - of_nat j"
    by (simp add: a)
  show "copied (copied m d s j) (d + of_nat j) (s + of_nat j) k a = copied m d s (j + k) a"
  proof (cases "i < j")
    case True
    have "\<not> unat (a - (d + of_nat j)) < k"
    proof
      assume less: "unat (a - (d + of_nat j)) < k"
      define t where "t = unat (a - (d + of_nat j))"
      have "a = d + of_nat (j + t)"
        by (simp add: t_def)
      moreover have "j + t < 2 ^ 64" using less le by (simp add: t_def)
      ultimately show False
        using a i True word_offset_inject [of i "j + t" d] by simp
    qed
    with True show ?thesis
      by (simp add: copied_def i_def)
  next
    case False
    then have ge: "j \<le> i" by simp
    have off: "a - (d + of_nat j) = of_nat (i - j)"
      using ge by (simp add: diff)
    have un: "unat (a - (d + of_nat j)) = i - j"
      using i by (simp add: off)
    show ?thesis
    proof (cases "i < j + k")
      case True
      have "s + of_nat i \<notin> region d (j + k)"
        using assms(1) True region_mem [of i "j + k" s] by blast
      then have "\<not> unat (s + of_nat i - d) < j"
        using le by (simp add: region_iff)
      with True ge un show ?thesis
        by (simp add: copied_def off flip: i_def) (auto simp: a)
    next
      case F: False
      then have "\<not> unat (a - (d + of_nat j)) < k"
        using ge by (simp add: un)
      with F ge show ?thesis
        by (simp add: copied_def flip: i_def)
    qed
  qed
qed

lemma copied_1: "copied m d s (Suc 0) = m(d := m s)"
  by (auto simp: copied_def fun_eq_iff unat_eq_0)

lemma fold_store:
  "n \<le> 2 ^ 64 \<Longrightarrow> fold (\<lambda>i m. m(d + of_nat i := g i)) [0..<n] m =
     (\<lambda>a. if unat (a - d) < n then g (unat (a - d)) else m a)"
  for m :: memory
proof (induction n)
  case 0
  then show ?case by simp
next
  case (Suc n)
  then show ?case
    by (auto simp: fun_eq_iff less_Suc_eq unat_diff_eq_iff)
qed

text \<open>Two blocks of \<open>n\<close> bytes that do not overlap.\<close>

definition disjoint_blocks :: "u64 \<Rightarrow> u64 \<Rightarrow> nat \<Rightarrow> bool" where
  "disjoint_blocks d s n \<longleftrightarrow> region d n \<inter> region s n = {}"

lemma disjoint_blocks_le: "disjoint_blocks d s n \<Longrightarrow> k \<le> n \<Longrightarrow> disjoint_blocks d s k"
  unfolding disjoint_blocks_def by (meson disjoint_iff region_mono subsetD)

lemma disjoint_blocks_shift:
  "disjoint_blocks d s (j + k) \<Longrightarrow> disjoint_blocks (d + of_nat j) (s + of_nat j) k"
  unfolding disjoint_blocks_def by (meson disjoint_iff region_shift subsetD)

lemma disjoint_blocks_sep:
  assumes "unat d + n \<le> unat s" and "unat s + n \<le> 2 ^ 64"
  shows "disjoint_blocks d s n"
proof -
  have at: "unat (p + of_nat i) = unat p + i" if "i < n" "unat p + n \<le> 2 ^ 64" for p :: u64 and i
    using that by (simp add: unat_add_u64)
  have "d + of_nat i \<noteq> s + of_nat j" if "i < n" "j < n" for i j
  proof -
    have "unat (d + of_nat i) < unat (s + of_nat j)"
      using that assms at [of i d] at [of j s] by linarith
    then show ?thesis by auto
  qed
  then show ?thesis
    by (auto simp: disjoint_blocks_def elim!: region_memE)
qed

lemma copied_chain:
  "disjoint_blocks d s (j + k) \<Longrightarrow> j + k \<le> 2 ^ 64 \<Longrightarrow>
     copied (copied m d s j) (d + of_nat j) (s + of_nat j) k = copied m d s (j + k)"
  unfolding disjoint_blocks_def by (rule copied_append)

section \<open>Positional numerals\<close>

text \<open>
  The digits of a number, most significant first: the reference for the formatting routines
  of \<open>cstdlib.c\<close> and \<open>printf.c\<close>.
\<close>

function digits :: "nat \<Rightarrow> nat \<Rightarrow> nat list" where
  "digits b n = (if b < 2 \<or> n < b then [n] else digits b (n div b) @ [n mod b])"
  by pat_completeness auto
termination
  by (relation "measure snd") auto

declare digits.simps [simp del]

definition of_digits :: "nat \<Rightarrow> nat list \<Rightarrow> nat" where
  "of_digits b ds = foldl (\<lambda>v d. v * b + d) 0 ds"

lemma of_digits_snoc [simp]: "of_digits b (ds @ [d]) = of_digits b ds * b + d"
  by (simp add: of_digits_def)

lemma of_digits_digits: "2 \<le> b \<Longrightarrow> of_digits b (digits b n) = n"
proof (induction b n rule: digits.induct)
  case (1 b n)
  show ?case
  proof (cases "n < b")
    case True
    then show ?thesis
      by (simp add: digits.simps [of b n] of_digits_def)
  next
    case False
    with 1 show ?thesis
      by (simp add: digits.simps [of b n] of_digits_snoc)
  qed
qed

lemma digits_less: "2 \<le> b \<Longrightarrow> d \<in> set (digits b n) \<Longrightarrow> d < b"
proof (induction b n rule: digits.induct)
  case (1 b n)
  then show ?case
    by (cases "n < b") (auto simp: digits.simps [of b n])
qed

lemma digits_not_Nil [simp]: "digits b n \<noteq> []"
  by (simp add: digits.simps [of b n])

lemma length_digits_le: "n < b ^ Suc k \<Longrightarrow> 2 \<le> b \<Longrightarrow> length (digits b n) \<le> Suc k"
proof (induction k arbitrary: n)
  case 0
  then show ?case by (simp add: digits.simps [of b n])
next
  case (Suc k)
  show ?case
  proof (cases "n < b")
    case True
    then show ?thesis by (simp add: digits.simps [of b n])
  next
    case False
    have "n div b < b ^ Suc k"
      using Suc.prems by (simp add: less_mult_imp_div_less mult.commute)
    with Suc False show ?thesis
      by (simp add: digits.simps [of b n])
  qed
qed

end
