(* ===== verification/Cmem.thy ===== *)
theory Cmem
  imports Prelude
begin

text \<open>
  \<open>krnl/cstdlib.c\<close>, the byte-block routines: \<open>memcpy\<close>, \<open>memset\<close>, \<open>memcmp\<close>,
  \<open>memmove\<close> and the word-wise \<open>memcpy_fast\<close>, over the flat byte memory.  A routine
  that stores into memory takes the memory and returns the new one beside the C return value.
  Every copying routine is shown to implement \<open>copied\<close>, under the overlap conditions it
  needs.
\<close>

section \<open>Byte blocks\<close>

definition copy_step :: "u64 \<Rightarrow> u64 \<Rightarrow> nat \<Rightarrow> memory \<Rightarrow> memory" where
  "copy_step d s i m = m(d + of_nat i := m (s + of_nat i))"

definition memcpy :: "memory \<Rightarrow> u64 \<Rightarrow> u64 \<Rightarrow> u64 \<Rightarrow> u64 \<times> memory" where
  "memcpy m dest src n = (dest, fold (copy_step dest src) [0..<unat n] m)"

definition memset :: "memory \<Rightarrow> u64 \<Rightarrow> u32 \<Rightarrow> u64 \<Rightarrow> u64 \<times> memory" where
  "memset m dest val n =
     (dest, fold (\<lambda>i m. m(dest + of_nat i := ucast val)) [0..<unat n] m)"

fun memcmp_loop :: "memory \<Rightarrow> u64 \<Rightarrow> u64 \<Rightarrow> nat \<Rightarrow> nat \<Rightarrow> int" where
  "memcmp_loop m p1 p2 i 0 = 0"
| "memcmp_loop m p1 p2 i (Suc k) =
     (if m (p1 + of_nat i) \<noteq> m (p2 + of_nat i)
      then uint (m (p1 + of_nat i)) - uint (m (p2 + of_nat i))
      else memcmp_loop m p1 p2 (Suc i) k)"

definition memcmp :: "memory \<Rightarrow> u64 \<Rightarrow> u64 \<Rightarrow> u64 \<Rightarrow> int" where
  "memcmp m s1 s2 n = memcmp_loop m s1 s2 0 (unat n)"

definition memmove :: "memory \<Rightarrow> u64 \<Rightarrow> u64 \<Rightarrow> u64 \<Rightarrow> u64 \<times> memory" where
  "memmove m dest src n =
     (dest,
      if dest < src then fold (copy_step dest src) [0..<unat n] m
      else if src < dest then fold (copy_step dest src) (rev [0..<unat n]) m
      else m)"

text \<open>
  \<open>memcpy_fast\<close> copies bytes up to an 8-byte boundary of the destination, then 32-byte
  blocks and 8-byte words through \<open>uint64_t\<close> pointers (little-endian loads and stores), then
  the remaining bytes.
\<close>

definition load64 :: "memory \<Rightarrow> u64 \<Rightarrow> u64" where
  "load64 m a = (foldr (OR) (map (\<lambda>i. push_bit (8 * i) (ucast (m (a + of_nat i)))) [0..<8]) 0)"

definition store64 :: "memory \<Rightarrow> u64 \<Rightarrow> u64 \<Rightarrow> memory" where
  "store64 m a v = fold (\<lambda>i m. m(a + of_nat i := ucast (drop_bit (8 * i) v))) [0..<8] m"

function fast_align :: "memory \<Rightarrow> u64 \<Rightarrow> u64 \<Rightarrow> u64 \<Rightarrow> memory \<times> u64 \<times> u64 \<times> u64" where
  "fast_align m d s n =
     (if d AND 7 \<noteq> 0 \<and> 0 < n then fast_align (m(d := m s)) (d + 1) (s + 1) (n - 1)
      else (m, d, s, n))"
  by pat_completeness auto
termination
  by (relation "measure (\<lambda>(m, d, s, n). unat n)") (auto simp: measure_unat)

declare fast_align.simps [simp del]

fun fast_blocks :: "nat \<Rightarrow> memory \<Rightarrow> u64 \<Rightarrow> u64 \<Rightarrow> memory \<times> u64 \<times> u64" where
  "fast_blocks 0 m d s = (m, d, s)"
| "fast_blocks (Suc k) m d s =
     (let m = store64 m d (load64 m s);
          m = store64 m (d + 8) (load64 m (s + 8));
          m = store64 m (d + 16) (load64 m (s + 16));
          m = store64 m (d + 24) (load64 m (s + 24))
      in fast_blocks k m (d + 32) (s + 32))"

fun fast_words :: "nat \<Rightarrow> memory \<Rightarrow> u64 \<Rightarrow> u64 \<Rightarrow> memory \<times> u64 \<times> u64" where
  "fast_words 0 m d s = (m, d, s)"
| "fast_words (Suc k) m d s = fast_words k (store64 m d (load64 m s)) (d + 8) (s + 8)"

fun fast_bytes :: "nat \<Rightarrow> memory \<Rightarrow> u64 \<Rightarrow> u64 \<Rightarrow> memory" where
  "fast_bytes 0 m d s = m"
| "fast_bytes (Suc k) m d s = fast_bytes k (m(d := m s)) (d + 1) (s + 1)"

definition memcpy_fast :: "memory \<Rightarrow> u64 \<Rightarrow> u64 \<Rightarrow> u64 \<Rightarrow> u64 \<times> memory" where
  "memcpy_fast m dest src n =
     (if n < 8 then (dest, fast_bytes (unat n) m dest src)
      else
        let (m, d, s, n) = fast_align m dest src n;
            (m, d, s) = fast_blocks (unat (n div 32)) m d s;
            n = n mod 32;
            (m, d, s) = fast_words (unat (n div 8)) m d s;
            n = n mod 8
        in (dest, fast_bytes (unat n) m d s))"

definition memcpy_sse :: "memory \<Rightarrow> u64 \<Rightarrow> u64 \<Rightarrow> u64 \<Rightarrow> u64 \<times> memory" where
  "memcpy_sse m dest src n = memcpy_fast m dest src n"

subsection \<open>Copying forwards and backwards\<close>

lemma copy_forward:
  assumes "n \<le> 2 ^ 64" and "\<And>i j. j < i \<Longrightarrow> i < n \<Longrightarrow> d + of_nat j \<noteq> s + of_nat i"
  shows "fold (copy_step d s) [0..<n] m = copied m d s n"
  using assms
proof (induction n)
  case 0
  then show ?case by simp
next
  case (Suc n)
  have IH: "fold (copy_step d s) [0..<n] m = copied m d s n"
    by (rule Suc.IH) (use Suc.prems in auto)
  have src: "copied m d s n (s + of_nat n) = m (s + of_nat n)"
  proof (rule copied_other)
    show "s + of_nat n \<notin> region d n"
      using Suc.prems(2) by (metis lessI region_memE)
  qed (use Suc.prems(1) in simp)
  have "(copied m d s n)(d + of_nat n := m (s + of_nat n)) = copied m d s (Suc n)"
    using Suc.prems(1) by (auto simp: copied_def fun_eq_iff less_Suc_eq unat_diff_eq_iff)
  then show ?case
    by (simp add: IH copy_step_def [of d s n] src)
qed

lemma copy_backward:
  assumes "n \<le> 2 ^ 64" and "\<And>i j. i < j \<Longrightarrow> j < n \<Longrightarrow> d + of_nat j \<noteq> s + of_nat i"
  shows "fold (copy_step d s) (rev [0..<n]) m = copied m d s n"
  using assms
proof (induction n arbitrary: m)
  case 0
  then show ?case by simp
next
  case (Suc n)
  define m' where "m' = m(d + of_nat n := m (s + of_nat n))"
  have IH: "fold (copy_step d s) (rev [0..<n]) m' = copied m' d s n"
    by (rule Suc.IH) (use Suc.prems in auto)
  have "copied m' d s n a = copied m d s (Suc n) a" for a
  proof (cases "unat (a - d) < n")
    case True
    have "d + of_nat n \<noteq> s + of_nat (unat (a - d))"
      by (rule Suc.prems(2)) (use True in simp_all)
    with True show ?thesis
      by (auto simp: copied_def m'_def)
  next
    case False
    with Suc.prems(1) show ?thesis
      by (auto simp: copied_def m'_def less_Suc_eq unat_diff_eq_iff)
  qed
  then show ?case
    using IH by (simp add: copy_step_def [of d s n] fun_eq_iff flip: m'_def)
qed

lemma memcpy_copied:
  assumes "disjoint_blocks dest src (unat n)"
  shows "memcpy m dest src n = (dest, copied m dest src (unat n))"
proof -
  have "fold (copy_step dest src) [0..<unat n] m = copied m dest src (unat n)"
  proof (rule copy_forward)
    fix i j
    assume "j < i" and "i < unat n"
    then show "dest + of_nat j \<noteq> src + of_nat i"
      using assms unfolding disjoint_blocks_def
      by (metis disjoint_iff order_less_trans region_mem)
  qed (simp add: order_less_imp_le)
  then show ?thesis by (simp add: memcpy_def)
qed

lemma memmove_copied:
  assumes d: "unat dest + unat n \<le> 2 ^ 64" and s: "unat src + unat n \<le> 2 ^ 64"
  shows "memmove m dest src n = (dest, copied m dest src (unat n))"
proof -
  have n: "unat n \<le> 2 ^ 64" by (simp add: order_less_imp_le)
  have at: "unat (p + of_nat i) = unat p + i" if "i < unat n" "unat p + unat n \<le> 2 ^ 64" for p :: u64 and i
  proof -
    have "unat (of_nat i :: u64) = i"
      using that unat_u64_bound [of n] by simp
    with that show ?thesis by (simp add: unat_add_u64)
  qed
  consider "dest < src" | "src < dest" | "dest = src" by force
  then show ?thesis
  proof cases
    case 1
    have "fold (copy_step dest src) [0..<unat n] m = copied m dest src (unat n)"
    proof (rule copy_forward [OF n])
      fix i j
      assume ji: "j < i" "i < unat n"
      have "unat (dest + of_nat j) \<noteq> unat (src + of_nat i)"
        using 1 ji d s by (simp add: at word_less_unat)
      then show "dest + of_nat j \<noteq> src + of_nat i" by auto
    qed
    with 1 show ?thesis by (simp add: memmove_def)
  next
    case 2
    have "fold (copy_step dest src) (rev [0..<unat n]) m = copied m dest src (unat n)"
    proof (rule copy_backward [OF n])
      fix i j
      assume ij: "i < j" "j < unat n"
      have "unat (dest + of_nat j) \<noteq> unat (src + of_nat i)"
        using 2 ij d s by (simp add: at word_less_unat)
      then show "dest + of_nat j \<noteq> src + of_nat i" by auto
    qed
    moreover have "\<not> dest < src" using 2 by simp
    ultimately show ?thesis using 2 by (simp add: memmove_def)
  next
    case 3
    then show ?thesis by (simp add: memmove_def copied_same)
  qed
qed

subsection \<open>Word-wise copying\<close>

lemma byte_of_load64:
  assumes "i < 8"
  shows "ucast (drop_bit (8 * i) (load64 m a)) = m (a + of_nat i)"
proof (rule bit_word_eqI)
  fix k
  assume k: "k < LENGTH(8)"
  have i: "i = 0 \<or> i = 1 \<or> i = 2 \<or> i = 3 \<or> i = 4 \<or> i = 5 \<or> i = 6 \<or> i = 7"
    using assms by auto
  have high: "\<not> bit (x :: u8) j" if "8 \<le> j" for x j
    using that bit_imp_le_length [of x j] by auto
  show "bit (ucast (drop_bit (8 * i) (load64 m a)) :: u8) k = bit (m (a + of_nat i)) k"
    using i k by (elim disjE) (auto simp: load64_def upt_rec bit_simps high)
qed

lemma store64_load64: "store64 m d (load64 m s) = copied m d s 8"
proof -
  have "store64 m d (load64 m s) =
      (\<lambda>a. if unat (a - d) < 8 then ucast (drop_bit (8 * unat (a - d)) (load64 m s)) else m a)"
    unfolding store64_def by (rule fold_store) simp
  then show ?thesis
    by (simp add: copied_def byte_of_load64 fun_eq_iff)
qed

lemma fast_bytes_copied:
  "disjoint_blocks d s k \<Longrightarrow> k \<le> 2 ^ 64 \<Longrightarrow> fast_bytes k m d s = copied m d s k"
proof (induction k arbitrary: m d s)
  case 0
  then show ?case by simp
next
  case (Suc k)
  have "fast_bytes k (copied m d s 1) (d + 1) (s + 1) = copied (copied m d s 1) (d + 1) (s + 1) k"
    using Suc.IH [of "d + 1" "s + 1"] Suc.prems disjoint_blocks_shift [of d s 1 k] by simp
  also have "\<dots> = copied m d s (Suc k)"
    using copied_chain [of d s 1 k m] Suc.prems by simp
  finally show ?case
    by (simp add: copied_1)
qed

lemma fast_words_copied:
  "disjoint_blocks d s (8 * k) \<Longrightarrow> 8 * k \<le> 2 ^ 64 \<Longrightarrow>
     fast_words k m d s = (copied m d s (8 * k), d + of_nat (8 * k), s + of_nat (8 * k))"
proof (induction k arbitrary: m d s)
  case 0
  then show ?case by simp
next
  case (Suc k)
  have "disjoint_blocks (d + 8) (s + 8) (8 * k)"
    using Suc.prems(1) disjoint_blocks_shift [of d s 8 "8 * k"] by simp
  moreover have "copied (copied m d s 8) (d + 8) (s + 8) (8 * k) = copied m d s (8 * Suc k)"
    using copied_chain [of d s 8 "8 * k" m] Suc.prems by simp
  ultimately show ?case
    using Suc.IH [of "d + 8" "s + 8" "copied m d s 8"] Suc.prems
    by (simp add: store64_load64 algebra_simps)
qed

lemma copied_block32:
  assumes "disjoint_blocks d s 32"
  shows "copied (copied (copied (copied m d s 8) (d + 8) (s + 8) 8) (d + 16) (s + 16) 8)
     (d + 24) (s + 24) 8 = copied m d s 32"
proof -
  have "copied (copied m d s 8) (d + 8) (s + 8) 8 = copied m d s 16"
    using copied_chain [of d s 8 8 m] disjoint_blocks_le [OF assms, of 16] by simp
  moreover have "copied (copied m d s 16) (d + 16) (s + 16) 8 = copied m d s 24"
    using copied_chain [of d s 16 8 m] disjoint_blocks_le [OF assms, of 24] by simp
  moreover have "copied (copied m d s 24) (d + 24) (s + 24) 8 = copied m d s 32"
    using copied_chain [of d s 24 8 m] assms by simp
  ultimately show ?thesis by simp
qed

lemma fast_blocks_copied:
  "disjoint_blocks d s (32 * k) \<Longrightarrow> 32 * k \<le> 2 ^ 64 \<Longrightarrow>
     fast_blocks k m d s = (copied m d s (32 * k), d + of_nat (32 * k), s + of_nat (32 * k))"
proof (induction k arbitrary: m d s)
  case 0
  then show ?case by simp
next
  case (Suc k)
  have "disjoint_blocks (d + 32) (s + 32) (32 * k)"
    using Suc.prems(1) disjoint_blocks_shift [of d s 32 "32 * k"] by simp
  moreover have "copied (copied m d s 32) (d + 32) (s + 32) (32 * k) = copied m d s (32 * Suc k)"
    using copied_chain [of d s 32 "32 * k" m] Suc.prems by simp
  moreover have "disjoint_blocks d s 32"
    by (rule disjoint_blocks_le [OF Suc.prems(1)]) simp
  ultimately show ?case
    using Suc.IH [of "d + 32" "s + 32" "copied m d s 32"] Suc.prems
    by (simp add: store64_load64 copied_block32 Let_def algebra_simps)
qed

lemma fast_align_copied:
  "disjoint_blocks d s (unat n) \<Longrightarrow>
     \<exists>j \<le> unat n. fast_align m d s n = (copied m d s j, d + of_nat j, s + of_nat j, n - of_nat j)"
proof (induction m d s n rule: fast_align.induct)
  case (1 m d s n)
  show ?case
  proof (cases "d AND 7 \<noteq> 0 \<and> 0 < n")
    case False
    then show ?thesis
      by (intro exI [of _ 0]) (auto simp: fast_align.simps [of m d s n])
  next
    case True
    then have "n \<noteq> 0" by auto
    then have n1: "unat n = Suc (unat (n - 1))"
      using unat_minus_one [of n] unat_gt_0 [of n] by simp
    have "disjoint_blocks (d + 1) (s + 1) (unat (n - 1))"
      using "1.prems" disjoint_blocks_shift [of d s 1 "unat (n - 1)"] by (simp add: n1)
    then obtain j where j: "j \<le> unat (n - 1)" and
      eq: "fast_align (m(d := m s)) (d + 1) (s + 1) (n - 1) =
        (copied (m(d := m s)) (d + 1) (s + 1) j, d + 1 + of_nat j, s + 1 + of_nat j, n - 1 - of_nat j)"
      using "1.IH" [OF True] by blast
    have "Suc j \<le> unat n" using j n1 by simp
    then have "disjoint_blocks d s (Suc j)"
      using "1.prems" disjoint_blocks_le by blast
    moreover have "Suc j \<le> 2 ^ 64"
      using le_unat_u64 [OF \<open>Suc j \<le> unat n\<close>] by simp
    ultimately have "copied (m(d := m s)) (d + 1) (s + 1) j = copied m d s (Suc j)"
      using copied_chain [of d s 1 j m] by (simp add: copied_1)
    with True eq \<open>Suc j \<le> unat n\<close> show ?thesis
      by (intro exI [of _ "Suc j"]) (simp add: fast_align.simps [of m d s n] algebra_simps)
  qed
qed

lemma fast_tail_copied:
  fixes n :: u64
  assumes "disjoint_blocks d s (unat n)"
  shows "(let (m, d, s) = fast_blocks (unat (n div 32)) m d s;
              n = n mod 32;
              (m, d, s) = fast_words (unat (n div 8)) m d s;
              n = n mod 8
          in fast_bytes (unat n) m d s) = copied m d s (unat n)"
proof -
  define N where "N = unat n"
  have N: "N < 2 ^ 64" by (simp add: N_def)
  define b w r where "b = N div 32" and "w = N mod 32 div 8" and "r = N mod 32 mod 8"
  have sum: "N = 32 * b + (8 * w + r)"
    by (simp add: b_def w_def r_def)
  have un: "unat (n div 32) = b" "unat (n mod 32 div 8) = w" "unat (n mod 32 mod 8) = r"
    by (simp_all add: b_def w_def r_def N_def unat_div unat_mod)
  have dis: "disjoint_blocks d s (32 * b + (8 * w + r))"
    using assms by (simp add: N_def flip: sum)
  have d1: "disjoint_blocks d s (32 * b)"
    by (rule disjoint_blocks_le [OF dis]) simp
  have d2: "disjoint_blocks (d + of_nat (32 * b)) (s + of_nat (32 * b)) (8 * w + r)"
    by (rule disjoint_blocks_shift [OF dis])
  have d2': "disjoint_blocks (d + of_nat (32 * b)) (s + of_nat (32 * b)) (8 * w)"
    by (rule disjoint_blocks_le [OF d2]) simp
  have d3: "disjoint_blocks (d + of_nat (32 * b) + of_nat (8 * w))
      (s + of_nat (32 * b) + of_nat (8 * w)) r"
    by (rule disjoint_blocks_shift [OF d2])
  have le: "32 * b + (8 * w + r) \<le> 2 ^ 64" using N sum by simp
  have "copied (copied (copied m d s (32 * b)) (d + of_nat (32 * b)) (s + of_nat (32 * b)) (8 * w))
      (d + of_nat (32 * b) + of_nat (8 * w)) (s + of_nat (32 * b) + of_nat (8 * w)) r =
      copied (copied m d s (32 * b)) (d + of_nat (32 * b)) (s + of_nat (32 * b)) (8 * w + r)"
    by (rule copied_chain [OF d2]) (use le in simp)
  also have "\<dots> = copied m d s N"
    using copied_chain [OF dis le] by (simp flip: sum)
  finally show ?thesis
    using le fast_blocks_copied [OF d1, of m] fast_words_copied [OF d2', of "copied m d s (32 * b)"]
      fast_bytes_copied [OF d3]
    by (simp add: un flip: N_def)
qed

lemma memcpy_fast_copied:
  assumes dis: "disjoint_blocks dest src (unat n)"
  shows "memcpy_fast m dest src n = (dest, copied m dest src (unat n))"
proof (cases "n < 8")
  case True
  with dis show ?thesis
    by (simp add: memcpy_fast_def fast_bytes_copied order_less_imp_le)
next
  case False
  obtain j where j: "j \<le> unat n" and align:
    "fast_align m dest src n = (copied m dest src j, dest + of_nat j, src + of_nat j, n - of_nat j)"
    using fast_align_copied [OF dis] by blast
  have un: "unat (n - of_nat j) = unat n - j"
    using j by (subst unat_sub_le) (simp_all add: word_le_unat)
  have split: "j + (unat n - j) = unat n" using j by simp
  have rest: "disjoint_blocks (dest + of_nat j) (src + of_nat j) (unat (n - of_nat j))"
    using disjoint_blocks_shift [of dest src j "unat n - j"] dis by (simp add: un split)
  have "copied (copied m dest src j) (dest + of_nat j) (src + of_nat j) (unat n - j) =
      copied m dest src (unat n)"
    using copied_chain [of dest src j "unat n - j" m] dis by (simp add: split order_less_imp_le)
  then show ?thesis
    using False fast_tail_copied [OF rest, of "copied m dest src j"]
    by (simp add: memcpy_fast_def align un Let_def split_beta)
qed

section \<open>Properties\<close>

text \<open>C36: On blocks that do not overlap, the word-wise \<open>memcpy_fast\<close> (alignment prologue,
  32-byte blocks, 8-byte words, byte tail) computes the same memory and returns the same
  pointer as the byte-wise \<open>memcpy\<close>, for every length and alignment.\<close>

theorem memcpy_fast_eq_memcpy:
  assumes "disjoint_blocks dest src (unat n)"
  shows "memcpy_fast m dest src n = memcpy m dest src n"
  using assms by (simp add: memcpy_fast_copied memcpy_copied)

theorem memcpy_fast_eq_memcpy_witness:
  "memcpy_fast (\<lambda>a. ucast a) 4099 8197 75 = memcpy (\<lambda>a. ucast a) 4099 8197 75"
  by (rule memcpy_fast_eq_memcpy) (rule disjoint_blocks_sep, simp_all)

text \<open>\<open>memmove\<close> is correct for every overlap of the two blocks: as long as neither block
  wraps around the address space, the destination ends up with what the source held before the
  call, every other byte is unchanged and the destination pointer is returned.\<close>

theorem memmove_correct:
  assumes "unat dest + unat n \<le> 2 ^ 64" and "unat src + unat n \<le> 2 ^ 64"
    and "memmove m dest src n = (r, m')"
  shows "r = dest \<and> (\<forall>i < unat n. m' (dest + of_nat i) = m (src + of_nat i)) \<and>
    (\<forall>a. a \<notin> region dest (unat n) \<longrightarrow> m' a = m a)"
  using assms memmove_copied [OF assms(1,2), of m]
  by (auto simp: copied_target copied_other order_less_imp_le)

theorem memmove_correct_witness:
  "fst (memmove (\<lambda>a. ucast a) 4096 4093 8) = 4096 \<and>
   snd (memmove (\<lambda>a. ucast a) 4096 4093 8) (4096 + of_nat 2) = ucast (4093 + of_nat 2 :: u64)"
proof -
  have "unat (4096 :: u64) + unat (8 :: u64) \<le> 2 ^ 64" and
    "unat (4093 :: u64) + unat (8 :: u64) \<le> 2 ^ 64"
    by simp_all
  moreover have "2 < unat (8 :: u64)" by simp
  ultimately show ?thesis
    using memmove_correct [OF _ _ surjective_pairing, of 4096 8 4093 "\<lambda>a. ucast a"] by blast
qed

end
