(* ===== verification/Cstring.thy ===== *)
theory Cstring
  imports Cmem "HOL-Library.Signed_Division"
begin

text \<open>
  \<open>krnl/cstdlib.c\<close>, the C-string routines.  Loops that run to a terminating NUL byte may
  not end; they are partial functions whose value \<open>None\<close> means that the C call does not
  return.  \<open>cstr m p s\<close> says that \<open>p\<close> points to the NUL-terminated string \<open>s\<close>; the
  lemmas relate each routine to the corresponding operation on lists.
\<close>

section \<open>NUL-terminated strings\<close>

text \<open>Character codes the sources write as literals.\<close>

abbreviation (input) chr :: "char \<Rightarrow> u8" where
  "chr c \<equiv> of_nat (of_char c)"

fun cstr :: "memory \<Rightarrow> u64 \<Rightarrow> u8 list \<Rightarrow> bool" where
  "cstr m p [] \<longleftrightarrow> m p = 0"
| "cstr m p (c # cs) \<longleftrightarrow> c \<noteq> 0 \<and> m p = c \<and> cstr m (p + 1) cs"

partial_function (option) strchr :: "memory \<Rightarrow> u64 \<Rightarrow> u32 \<Rightarrow> u64 option" where
  "strchr m str c =
     (if m str \<noteq> 0
      then (if m str = ucast c then Some str else strchr m (str + 1) c)
      else if c = 0 then Some str else Some NULL)"

partial_function (option) strcmp :: "memory \<Rightarrow> u64 \<Rightarrow> u64 \<Rightarrow> int option" where
  "strcmp m s1 s2 =
     (if m s1 \<noteq> 0 \<and> m s1 = m s2 then strcmp m (s1 + 1) (s2 + 1)
      else Some (uint (m s1) - uint (m s2)))"

fun strncmp_loop :: "memory \<Rightarrow> u64 \<Rightarrow> u64 \<Rightarrow> nat \<Rightarrow> nat \<Rightarrow> int" where
  "strncmp_loop m s1 s2 i 0 = 0"
| "strncmp_loop m s1 s2 i (Suc k) =
     (if m (s1 + of_nat i) \<noteq> m (s2 + of_nat i) \<or> m (s1 + of_nat i) = 0 \<or> m (s2 + of_nat i) = 0
      then uint (m (s1 + of_nat i)) - uint (m (s2 + of_nat i))
      else strncmp_loop m s1 s2 (Suc i) k)"

definition strncmp :: "memory \<Rightarrow> u64 \<Rightarrow> u64 \<Rightarrow> u64 \<Rightarrow> int" where
  "strncmp m s1 s2 n = strncmp_loop m s1 s2 0 (unat n)"

text \<open>\<open>strlen\<close> and \<open>strcpy\<close> count in an \<open>int\<close>, which indexes the string sign-extended.\<close>

partial_function (option) strlen_loop :: "memory \<Rightarrow> u64 \<Rightarrow> u32 \<Rightarrow> u32 option" where
  "strlen_loop m str len =
     (if m (str + scast len) \<noteq> 0 then strlen_loop m str (len + 1) else Some len)"

definition strlen :: "memory \<Rightarrow> u64 \<Rightarrow> u32 option" where
  "strlen m str = strlen_loop m str 0"

partial_function (option) strcpy_loop ::
  "memory \<Rightarrow> u64 \<Rightarrow> u64 \<Rightarrow> u32 \<Rightarrow> (u32 \<times> memory) option" where
  "strcpy_loop m dest src i =
     (if m (src + scast i) \<noteq> 0
      then strcpy_loop (m(dest + scast i := m (src + scast i))) dest src (i + 1)
      else Some (i, m(dest + scast i := 0)))"

definition strcpy :: "memory \<Rightarrow> u64 \<Rightarrow> u64 \<Rightarrow> (u32 \<times> memory) option" where
  "strcpy m dest src = strcpy_loop m dest src 0"

fun strncpy_loop :: "memory \<Rightarrow> u64 \<Rightarrow> u64 \<Rightarrow> nat \<Rightarrow> nat \<Rightarrow> memory" where
  "strncpy_loop m dest src i 0 = m"
| "strncpy_loop m dest src i (Suc k) =
     (if m (src + of_nat i) \<noteq> 0
      then strncpy_loop (m(dest + of_nat i := m (src + of_nat i))) dest src (Suc i) k
      else fold (\<lambda>j m. m(dest + of_nat j := 0)) [i..<i + Suc k] m)"

definition strncpy :: "memory \<Rightarrow> u64 \<Rightarrow> u64 \<Rightarrow> u64 \<Rightarrow> u64 \<times> memory" where
  "strncpy m dest src n = (dest, strncpy_loop m dest src 0 (unat n))"

partial_function (option) strcat_loop ::
  "memory \<Rightarrow> u64 \<Rightarrow> u64 \<Rightarrow> u64 \<Rightarrow> u64 \<Rightarrow> memory option" where
  "strcat_loop m dest src dest_len i =
     (if m (src + i) \<noteq> 0
      then strcat_loop (m(dest + (dest_len + i) := m (src + i))) dest src dest_len (i + 1)
      else Some (m(dest + (dest_len + i) := 0)))"

definition strcat :: "memory \<Rightarrow> u64 \<Rightarrow> u64 \<Rightarrow> (u64 \<times> memory) option" where
  "strcat m dest src =
     (case strlen m dest of None \<Rightarrow> None
      | Some dest_len \<Rightarrow> map_option (Pair dest) (strcat_loop m dest src (scast dest_len) 0))"

fun strncat_loop :: "memory \<Rightarrow> u64 \<Rightarrow> u64 \<Rightarrow> u64 \<Rightarrow> nat \<Rightarrow> nat \<Rightarrow> memory" where
  "strncat_loop m dest src dest_len i 0 = m(dest + (dest_len + of_nat i) := 0)"
| "strncat_loop m dest src dest_len i (Suc k) =
     (if m (src + of_nat i) \<noteq> 0
      then strncat_loop (m(dest + (dest_len + of_nat i) := m (src + of_nat i)))
             dest src dest_len (Suc i) k
      else m(dest + (dest_len + of_nat i) := 0))"

definition strncat :: "memory \<Rightarrow> u64 \<Rightarrow> u64 \<Rightarrow> u64 \<Rightarrow> (u64 \<times> memory) option" where
  "strncat m dest src n =
     (case strlen m dest of None \<Rightarrow> None
      | Some dest_len \<Rightarrow> Some (dest, strncat_loop m dest src (scast dest_len) 0 (unat n)))"

text \<open>
  \<open>strtok\<close> keeps its position in the static \<open>next_token\<close>, the last component of argument
  and result; the middle component of the result is the memory with the delimiter overwritten.
\<close>

partial_function (option) strtok_skip :: "memory \<Rightarrow> u64 \<Rightarrow> u64 \<Rightarrow> u64 option" where
  "strtok_skip m delim next_token =
     (if m next_token \<noteq> 0
      then Option.bind (strchr m delim (scast (m next_token)))
             (\<lambda>r. if r \<noteq> NULL then strtok_skip m delim (next_token + 1) else Some next_token)
      else Some next_token)"

partial_function (option) strtok_scan :: "memory \<Rightarrow> u64 \<Rightarrow> u64 \<Rightarrow> u64 option" where
  "strtok_scan m delim next_token =
     (if m next_token \<noteq> 0
      then Option.bind (strchr m delim (scast (m next_token)))
             (\<lambda>r. if r = NULL then strtok_scan m delim (next_token + 1) else Some next_token)
      else Some next_token)"

definition strtok :: "memory \<Rightarrow> u64 \<Rightarrow> u64 \<Rightarrow> u64 \<Rightarrow> (u64 \<times> memory \<times> u64) option" where
  "strtok m next_token str delim =
     (let next_token = (if str \<noteq> NULL then str else next_token)
      in if next_token = NULL then Some (NULL, m, next_token)
         else Option.bind (strtok_skip m delim next_token) (\<lambda>token.
           if m token = 0 then Some (NULL, m, NULL)
           else Option.bind (strtok_scan m delim token) (\<lambda>stop.
             if m stop \<noteq> 0 then Some (token, m(stop := 0), stop + 1)
             else Some (token, m, NULL))))"

text \<open>\<open>reverse_str\<close> swaps the ends of the string until the two \<open>int\<close> indices meet.\<close>

function reverse_loop :: "memory \<Rightarrow> u64 \<Rightarrow> int \<Rightarrow> int \<Rightarrow> memory" where
  "reverse_loop m str start stop =
     (if start < stop
      then reverse_loop (m(str + of_int start := m (str + of_int stop),
                           str + of_int stop := m (str + of_int start))) str (start + 1) (stop - 1)
      else m)"
  by pat_completeness auto
termination
  by (relation "measure (\<lambda>(m, str, s, e). nat (e - s))") auto

declare reverse_loop.simps [simp del]

definition reverse_str :: "memory \<Rightarrow> u64 \<Rightarrow> memory option" where
  "reverse_str m str = map_option (\<lambda>len. reverse_loop m str 0 (sint len - 1)) (strlen m str)"

text \<open>
  Number formatting: digits are written from the least significant one, then the string is
  reversed in place.  A zero base traps in the division: no result.
\<close>

definition digit_char :: "u64 \<Rightarrow> u8" where
  "digit_char remainder =
     ucast (if 9 < remainder then (remainder - 10) + 65 else remainder + 48)"

partial_function (option) uint_to_str_loop ::
  "memory \<Rightarrow> u64 \<Rightarrow> u64 \<Rightarrow> u64 \<Rightarrow> u64 \<Rightarrow> (u64 \<times> memory) option" where
  "uint_to_str_loop m buf base i index =
     (if base = 0 then None
      else let m = m(buf + index := digit_char (i mod base));
               i = i div base
           in if 0 < i then uint_to_str_loop m buf base i (index + 1) else Some (index + 1, m))"

definition tool_uint_to_str :: "memory \<Rightarrow> u64 \<Rightarrow> u8 \<Rightarrow> u64 \<Rightarrow> memory option" where
  "tool_uint_to_str m i base buf =
     Option.bind (uint_to_str_loop m buf (ucast base) i 0)
       (\<lambda>(index, m). reverse_str (m(buf + index := 0)) buf)"

definition wrap_int64 :: "int \<Rightarrow> int" where
  "wrap_int64 i = signed_take_bit 63 i"

partial_function (option) int_to_str_loop ::
  "memory \<Rightarrow> u64 \<Rightarrow> int \<Rightarrow> int \<Rightarrow> u64 \<Rightarrow> (u64 \<times> memory) option" where
  "int_to_str_loop m buf base i index =
     (if base = 0 then None
      else let r = i smod base;
               m = m(buf + index := (if 9 < r then of_int ((r - 10) + 65) else of_int (r + 48)));
               i = i sdiv base
           in if 0 < i then int_to_str_loop m buf base i (index + 1) else Some (index + 1, m))"

definition tool_int_to_str :: "memory \<Rightarrow> int \<Rightarrow> u8 \<Rightarrow> u64 \<Rightarrow> memory option" where
  "tool_int_to_str m i base buf =
     (let negative = i < 0;
          i = (if negative then wrap_int64 (i * -1) else i)
      in Option.bind (int_to_str_loop m buf (uint base) i 0)
           (\<lambda>(index, m).
              let (index, m) = (if negative then (index + 1, m(buf + index := 45)) else (index, m))
              in reverse_str (m(buf + index := 0)) buf))"

subsection \<open>Strings in memory\<close>

lemma scast_of_nat_u32: "k < 2 ^ 31 \<Longrightarrow> (scast (of_nat k :: u32) :: u64) = of_nat k"
  by (simp add: scast_eq signed_of_nat signed_take_bit_int_eq_self)

lemma cstr_nth: "cstr m p s \<longleftrightarrow>
    (\<forall>i < length s. m (p + of_nat i) = s ! i \<and> s ! i \<noteq> 0) \<and> m (p + of_nat (length s)) = 0"
proof (induction s arbitrary: p)
  case Nil
  then show ?case by simp
next
  case (Cons c s)
  show ?case
    by (auto simp: Cons.IH less_Suc_eq_0_disj algebra_simps)
qed

lemma cstr_nonzero: "cstr m p s \<Longrightarrow> 0 \<notin> set s"
  by (induction s arbitrary: p) auto

lemma cstr_unique: "cstr m p s \<Longrightarrow> cstr m p t \<Longrightarrow> s = t"
proof (induction s arbitrary: p t)
  case Nil
  then show ?case by (cases t) auto
next
  case (Cons c s)
  then show ?case by (cases t) auto
qed

lemma cstr_cong:
  assumes "\<And>a. a \<in> region p (Suc (length s)) \<Longrightarrow> m' a = m a"
  shows "cstr m' p s = cstr m p s"
proof -
  have "m' (p + of_nat i) = m (p + of_nat i)" if "i \<le> length s" for i
    using that by (intro assms region_mem) simp
  then show ?thesis by (auto simp: cstr_nth)
qed

lemma strlen_loop_cstr:
  "cstr m (str + of_nat k) s \<Longrightarrow> k + length s < 2 ^ 31 \<Longrightarrow>
     strlen_loop m str (of_nat k) = Some (of_nat (k + length s))"
proof (induction s arbitrary: k)
  case Nil
  then show ?case
    by (simp add: strlen_loop.simps scast_of_nat_u32)
next
  case (Cons c s)
  have "strlen_loop m str (of_nat (Suc k)) = Some (of_nat (Suc k + length s))"
    by (rule Cons.IH) (use Cons.prems in \<open>auto simp: algebra_simps\<close>)
  with Cons.prems show ?case
    by (subst strlen_loop.simps) (simp add: scast_of_nat_u32 algebra_simps)
qed

lemma strlen_cstr:
  "cstr m p s \<Longrightarrow> length s < 2 ^ 31 \<Longrightarrow> strlen m p = Some (of_nat (length s))"
  using strlen_loop_cstr [of m p 0 s] by (simp add: strlen_def)

lemma strcmp_cstr:
  "cstr m p s \<Longrightarrow> cstr m q t \<Longrightarrow>
     \<exists>r. strcmp m p q = Some r \<and> (r = 0 \<longleftrightarrow> s = t) \<and> (r < 0 \<longleftrightarrow> ord_class.lexordp s t)"
proof (induction s arbitrary: p q t)
  case Nil
  then show ?case
    by (cases t) (auto simp: strcmp.simps [of m p q] word_greater_zero_iff uint_0_iff
        order_less_le)
next
  case (Cons c s)
  show ?case
  proof (cases t)
    case Nil
    with Cons.prems show ?thesis
      by (auto simp: strcmp.simps [of m p q] uint_0_iff not_less)
  next
    case (Cons d t')
    show ?thesis
    proof (cases "c = d")
      case True
      with Cons.prems Cons have "cstr m (p + 1) s" "cstr m (q + 1) t'"
        by auto
      from Cons.IH [OF this] True Cons Cons.prems show ?thesis
        by (auto simp: strcmp.simps [of m p q])
    next
      case False
      with Cons Cons.prems show ?thesis
        by (auto simp: strcmp.simps [of m p q] word_less_def word_uint_eq_iff)
    qed
  qed
qed

lemma strncmp_loop_eq_0:
  "strncmp_loop m s1 s2 i k = 0 \<longleftrightarrow>
     (\<forall>j < k. (\<forall>l < j. m (s1 + of_nat (i + l)) \<noteq> 0) \<longrightarrow>
        m (s1 + of_nat (i + j)) = m (s2 + of_nat (i + j)))"
proof (induction k arbitrary: i)
  case 0
  then show ?case by simp
next
  case (Suc k)
  show ?case
  proof (cases "m (s1 + of_nat i) = m (s2 + of_nat i)")
    case False
    then show ?thesis
      by (auto simp: word_uint_eq_iff intro!: exI [of _ 0])
  next
    case True
    show ?thesis
    proof (cases "m (s1 + of_nat i) = 0")
      case z: True
      have "m (s1 + of_nat (i + j)) = m (s2 + of_nat (i + j))"
        if "\<forall>l < j. m (s1 + of_nat (i + l)) \<noteq> 0" for j
        using that True z by (cases j) (auto dest: spec [of _ 0])
      with True z show ?thesis by auto
    next
      case False
      with True show ?thesis
        by (simp add: Suc.IH All_less_Suc2 add_ac)
    qed
  qed
qed

lemma strcpy_loop_cstr:
  "cstr m (src + of_nat k) s \<Longrightarrow> k + length s < 2 ^ 31 \<Longrightarrow>
     region (dest + of_nat k) (Suc (length s)) \<inter> region (src + of_nat k) (Suc (length s)) = {} \<Longrightarrow>
     strcpy_loop m dest src (of_nat k) =
       Some (of_nat (k + length s), copied m (dest + of_nat k) (src + of_nat k) (Suc (length s)))"
proof (induction s arbitrary: k m)
  case Nil
  then show ?case
    by (simp add: strcpy_loop.simps scast_of_nat_u32 copied_1 fun_upd_def)
next
  case (Cons c s)
  let ?d = "dest + of_nat k" and ?s = "src + of_nat k"
  define m' where "m' = m(?d := m ?s)"
  have dis: "disjoint_blocks ?d ?s (1 + Suc (length s))"
    using Cons.prems(3) by (simp add: disjoint_blocks_def)
  have s1: "dest + of_nat (Suc k) = ?d + 1" "src + of_nat (Suc k) = ?s + 1"
    by (simp_all add: algebra_simps)
  have dis1: "disjoint_blocks (?d + 1) (?s + 1) (Suc (length s))"
    using disjoint_blocks_shift [OF dis] by simp
  have "?d \<notin> region (?s + 1) (Suc (length s))"
    using dis region_mem [of 0 "1 + Suc (length s)" ?d] region_shift [of ?s 1 "Suc (length s)"]
    by (auto simp: disjoint_blocks_def)
  then have "cstr m' (?s + 1) s = cstr m (?s + 1) s"
    by (intro cstr_cong) (auto simp: m'_def)
  then have IH: "strcpy_loop m' dest src (of_nat (Suc k)) =
      Some (of_nat (Suc k + length s), copied m' (?d + 1) (?s + 1) (Suc (length s)))"
    using Cons.IH [of m' "Suc k"] Cons.prems dis1 unfolding s1 disjoint_blocks_def by simp
  have "copied m' (?d + 1) (?s + 1) (Suc (length s)) = copied m ?d ?s (1 + Suc (length s))"
    using copied_chain [OF dis, of m] Cons.prems(2) by (simp add: m'_def copied_1)
  with IH Cons.prems show ?case
    by (subst strcpy_loop.simps) (simp add: scast_of_nat_u32 m'_def algebra_simps)
qed

lemma strcpy_cstr:
  assumes "cstr m src s" and "length s < 2 ^ 31"
    and "disjoint_blocks dest src (Suc (length s))"
  shows "strcpy m dest src = Some (of_nat (length s), copied m dest src (Suc (length s)))"
  using strcpy_loop_cstr [of m src 0 s dest] assms by (simp add: strcpy_def disjoint_blocks_def)

lemma cstr_copied:
  assumes "cstr m src s" and "Suc (length s) \<le> 2 ^ 64"
  shows "cstr (copied m dest src (Suc (length s))) dest s"
  using assms by (auto simp: cstr_nth copied_target)

lemma cstr_at: "cstr m p s \<Longrightarrow> i < length s \<Longrightarrow> m (p + of_nat i) = s ! i \<and> s ! i \<noteq> 0"
  by (simp add: cstr_nth)

lemma strcat_loop_cstr:
  assumes "cstr m (src + i) s" and "Suc (length s) \<le> 2 ^ 64"
    and "disjoint_blocks (dest + (dl + i)) (src + i) (Suc (length s))"
  shows "strcat_loop m dest src dl i = Some (copied m (dest + (dl + i)) (src + i) (Suc (length s)))"
  using assms
proof (induction s arbitrary: m i)
  case Nil
  then show ?case
    by (simp add: strcat_loop.simps [of m] copied_1 fun_upd_def)
next
  case (Cons c s)
  let ?d = "dest + (dl + i)" and ?s = "src + i"
  let ?m = "copied m ?d ?s 1"
  have dis: "disjoint_blocks ?d ?s (1 + Suc (length s))" using Cons.prems(3) by simp
  have "?d \<notin> region (src + (i + 1)) (Suc (length s))"
    using dis region_mem [of 0 "1 + Suc (length s)" ?d] region_shift [of ?s 1 "Suc (length s)"]
    by (auto simp: disjoint_blocks_def add.assoc)
  then have "cstr ?m (src + (i + 1)) s = cstr m (src + (i + 1)) s"
    by (intro cstr_cong) (auto simp: copied_1)
  then have "cstr ?m (src + (i + 1)) s"
    using Cons.prems(1) by (simp add: add.assoc)
  moreover have "disjoint_blocks (dest + (dl + (i + 1))) (src + (i + 1)) (Suc (length s))"
    using disjoint_blocks_shift [OF dis] by (simp add: algebra_simps)
  ultimately have "strcat_loop ?m dest src dl (i + 1) =
      Some (copied ?m (dest + (dl + (i + 1))) (src + (i + 1)) (Suc (length s)))"
    using Cons.prems(2) by (intro Cons.IH) simp_all
  also have "copied ?m (dest + (dl + (i + 1))) (src + (i + 1)) (Suc (length s)) =
      copied m ?d ?s (1 + Suc (length s))"
    using copied_chain [OF dis, of m] Cons.prems(2) by (simp add: algebra_simps)
  finally show ?case
    using Cons.prems(1) by (auto simp: strcat_loop.simps [of m] copied_1 fun_upd_def)
qed

text \<open>\<open>strcat\<close> appends, when the bytes it writes overlap neither the source nor the prefix.\<close>

lemma strcat_cstr:
  assumes "cstr m dest d" and "cstr m src s"
    and "length d < 2 ^ 31" and "length d + Suc (length s) \<le> 2 ^ 64"
    and "disjoint_blocks (dest + of_nat (length d)) src (Suc (length s))"
  shows "\<exists>m'. strcat m dest src = Some (dest, m') \<and> cstr m' dest (d @ s)"
proof -
  let ?e = "dest + of_nat (length d)"
  let ?m = "copied m ?e src (Suc (length s))"
  have "strcat m dest src = Some (dest, ?m)"
    using assms strcat_loop_cstr [of m src 0 s dest "of_nat (length d)"]
    by (simp add: strcat_def strlen_cstr scast_of_nat_u32)
  moreover have "cstr ?m dest (d @ s)"
  proof -
    have pre: "?m (dest + of_nat j) = m (dest + of_nat j)" if "j < length d" for j
    proof -
      have "dest + of_nat j \<noteq> ?e + of_nat k" if "k < Suc (length s)" for k
        using that \<open>j < length d\<close> assms(4) word_offset_inject [of j "length d + k" dest]
        by (simp add: add.assoc)
      then have "dest + of_nat j \<notin> region ?e (Suc (length s))"
        by (auto elim!: region_memE)
      then show ?thesis using assms(4) by (simp add: copied_other)
    qed
    have suf: "?m (dest + of_nat (length d + k)) = m (src + of_nat k)" if "k \<le> length s" for k
      using copied_target [of k "Suc (length s)" m ?e src] that assms(4) by (simp add: add.assoc)
    have "?m (dest + of_nat j) = (d @ s) ! j \<and> (d @ s) ! j \<noteq> 0" if "j < length (d @ s)" for j
    proof (cases "j < length d")
      case True
      with pre cstr_at [OF assms(1)] show ?thesis by (simp add: nth_append)
    next
      case False
      then obtain k where "j = length d + k" by (metis le_add_diff_inverse not_less)
      with that suf [of k] cstr_at [OF assms(2), of k] show ?thesis by (simp add: nth_append)
    qed
    moreover have "?m (dest + of_nat (length (d @ s))) = 0"
      using suf [of "length s"] assms(2) by (simp add: cstr_nth)
    ultimately show ?thesis unfolding cstr_nth by blast
  qed
  ultimately show ?thesis by blast
qed

text \<open>
  What \<open>strncpy\<close> leaves in the \<open>n\<close> bytes at \<open>dest\<close>: the source up to its first
  NUL, and NULs from there on.
\<close>

definition strncpy_spec :: "memory \<Rightarrow> u64 \<Rightarrow> u64 \<Rightarrow> nat \<Rightarrow> memory" where
  "strncpy_spec m dest src n = (\<lambda>a.
     if unat (a - dest) < n
     then if \<exists>l \<le> unat (a - dest). m (src + of_nat l) = 0 then 0 else m (src + (a - dest))
     else m a)"

lemma fold_store_range:
  "i \<le> j \<Longrightarrow> j \<le> 2 ^ 64 \<Longrightarrow> fold (\<lambda>j m. m(d + of_nat j := c)) [i..<j] m =
     (\<lambda>a. if i \<le> unat (a - d) \<and> unat (a - d) < j then c else m a)"
  for m :: memory
proof (induction j)
  case 0
  then show ?case by auto
next
  case (Suc j)
  show ?case
  proof (cases "i = Suc j")
    case True
    then show ?thesis by (auto simp: fun_eq_iff)
  next
    case False
    with Suc show ?thesis
      by (auto simp: fun_eq_iff less_Suc_eq unat_diff_eq_iff le_Suc_eq)
  qed
qed

lemma strncpy_loop_spec:
  assumes "disjoint_blocks dest src (i + k)" and "i + k \<le> 2 ^ 64"
    and "\<And>l. l < i \<Longrightarrow> m (src + of_nat l) \<noteq> 0"
  shows "strncpy_loop (copied m dest src i) dest src i k = strncpy_spec m dest src (i + k)"
  using assms
proof (induction k arbitrary: i)
  case 0
  then show ?case
    by (auto simp: copied_def strncpy_spec_def fun_eq_iff)
next
  case (Suc k)
  have "src + of_nat i \<notin> region dest (i + Suc k)"
    using Suc.prems(1) region_mem [of i "i + Suc k" src] by (auto simp: disjoint_blocks_def)
  then have rd: "copied m dest src i (src + of_nat i) = m (src + of_nat i)"
    using Suc.prems(2) by (auto simp: copied_def region_iff)
  show ?case
  proof (cases "m (src + of_nat i) = 0")
    case True
    have "(\<lambda>a. if i \<le> unat (a - dest) \<and> unat (a - dest) < i + Suc k then 0
        else copied m dest src i a) = strncpy_spec m dest src (i + Suc k)"
      using True Suc.prems(3)
      by (auto simp: copied_def strncpy_spec_def fun_eq_iff not_le not_less)
        (use le_less_trans in blast)+
    then show ?thesis
      using True rd Suc.prems(2) by (simp add: fold_store_range del: upt_Suc add_Suc_right)
  next
    case False
    have "(copied m dest src i)(dest + of_nat i := m (src + of_nat i)) = copied m dest src (Suc i)"
      using Suc.prems(2)
      by (auto simp: copied_def fun_eq_iff less_Suc_eq unat_diff_eq_iff)
    moreover have "strncpy_loop (copied m dest src (Suc i)) dest src (Suc i) k =
        strncpy_spec m dest src (Suc i + k)"
    proof (rule Suc.IH)
      fix l
      assume "l < Suc i"
      then show "m (src + of_nat l) \<noteq> 0"
        using Suc.prems(3) False by (auto simp: less_Suc_eq)
    qed (use Suc.prems in simp_all)
    ultimately show ?thesis
      using False by (simp add: rd)
  qed
qed

lemma strncpy_correct:
  assumes "disjoint_blocks dest src (unat n)"
  shows "strncpy m dest src n = (dest, strncpy_spec m dest src (unat n))"
  using strncpy_loop_spec [of dest src 0 "unat n" m] assms
  by (simp add: strncpy_def order_less_imp_le)

lemma strncpy_spec_cstr:
  assumes "cstr m src s" and "j < n" and "n \<le> 2 ^ 64"
  shows "strncpy_spec m dest src n (dest + of_nat j) = (if j < length s then s ! j else 0)"
proof -
  have at: "m (src + of_nat l) = s ! l \<and> s ! l \<noteq> 0" if "l < length s" for l
    using assms(1) that by (simp add: cstr_nth)
  have nul: "m (src + of_nat (length s)) = 0"
    using assms(1) by (simp add: cstr_nth)
  have un: "unat (dest + of_nat j - dest) = j"
    using assms(2,3) by simp
  show ?thesis
  proof (cases "j < length s")
    case True
    then have "\<not> (\<exists>l \<le> j. m (src + of_nat l) = 0)"
      using at by (metis order_le_less_trans)
    with True assms(2) at [OF True] show ?thesis
      unfolding strncpy_spec_def un by simp
  next
    case False
    then have "\<exists>l \<le> j. m (src + of_nat l) = 0"
      using nul by (meson not_less)
    with False assms(2) show ?thesis
      unfolding strncpy_spec_def un by simp
  qed
qed

subsection \<open>Reversing and formatting\<close>

lemma uint_offset: "0 \<le> i \<Longrightarrow> i < 2 ^ 64 \<Longrightarrow> uint (p + of_int i - p :: u64) = i"
  by (simp add: uint_word_of_int)

lemma offset_uint: "p + of_int (uint (a - p)) = (a :: u64)"
  by simp

definition reversed :: "memory \<Rightarrow> u64 \<Rightarrow> int \<Rightarrow> int \<Rightarrow> memory" where
  "reversed m str s e = (\<lambda>a. if s \<le> uint (a - str) \<and> uint (a - str) \<le> e
     then m (str + of_int (s + e - uint (a - str))) else m a)"

lemma reverse_loop_reversed:
  "0 \<le> s \<Longrightarrow> e < 2 ^ 31 \<Longrightarrow> reverse_loop m str s e = reversed m str s e"
proof (induction m str s e rule: reverse_loop.induct)
  case (1 m str s e)
  show ?case
  proof (cases "s < e")
    case False
    have "reversed m str s e a = m a" for a
    proof (cases "s \<le> uint (a - str) \<and> uint (a - str) \<le> e")
      case True
      with False have "s + e - uint (a - str) = uint (a - str)" by simp
      with True show ?thesis
        unfolding reversed_def by (simp only: offset_uint if_True simp_thms)
    qed (simp only: reversed_def if_False)
    with False show ?thesis
      by (simp add: reverse_loop.simps [of m str s e] fun_eq_iff)
  next
    case True
    define m' where "m' = m(str + of_int s := m (str + of_int e), str + of_int e := m (str + of_int s))"
    have IH: "reverse_loop m' str (s + 1) (e - 1) = reversed m' str (s + 1) (e - 1)"
      unfolding m'_def by (rule "1.IH") (use True "1.prems" in auto)
    have "reversed m' str (s + 1) (e - 1) a = reversed m str s e a" for a
    proof -
      define i where "i = uint (a - str)"
      have a: "a = str + of_int i" by (simp add: i_def)
      have i: "0 \<le> i" "i < 2 ^ 64"
        using uint_lt2p [of "a - str"] by (auto simp: i_def)
      have inj: "str + of_int x = str + of_int y \<longleftrightarrow> x = y"
        if "0 \<le> x" "x < 2 ^ 64" "0 \<le> y" "y < 2 ^ 64" for x y
        using that uint_offset by metis
      have eqs: "str + of_int (s + e - i) = str + of_int s \<longleftrightarrow> i = e"
        "str + of_int (s + e - i) = str + of_int e \<longleftrightarrow> i = s"
        if "s \<le> i" "i \<le> e"
        using that "1.prems" inj [of "s + e - i" s] inj [of "s + e - i" e] by auto
      have a_eqs: "a = str + of_int s \<longleftrightarrow> i = s" "a = str + of_int e \<longleftrightarrow> i = e"
        using i "1.prems" True inj [of i s] inj [of i e] by (auto simp: a)
      show ?thesis
        using True eqs a_eqs by (auto simp: reversed_def m'_def simp flip: i_def)
    qed
    with IH True show ?thesis
      by (simp add: reverse_loop.simps [of m str s e] m'_def fun_eq_iff)
  qed
qed

lemma reversed_at:
  assumes "n \<le> 2 ^ 31"
  shows "i < n \<Longrightarrow> reversed m p 0 (int n - 1) (p + of_nat i) = m (p + of_nat (n - Suc i))"
    and "a \<notin> region p n \<Longrightarrow> reversed m p 0 (int n - 1) a = m a"
proof -
  assume i: "i < n"
  have "uint (of_nat i :: u64) = int i"
    using i assms by (simp add: uint_nat)
  then have "uint (p + of_nat i - p) = int i" by simp
  moreover have "0 + (int n - 1) - int i = int (n - Suc i)" using i by simp
  ultimately show "reversed m p 0 (int n - 1) (p + of_nat i) = m (p + of_nat (n - Suc i))"
    using i unfolding reversed_def by (simp only: of_int_of_nat_eq) (simp del: of_nat_diff)
next
  assume "a \<notin> region p n"
  then have "\<not> unat (a - p) < n" using assms by (simp add: region_iff)
  then have "\<not> uint (a - p) \<le> int n - 1" using uint_nat [of "a - p"] by linarith
  then show "reversed m p 0 (int n - 1) a = m a" by (simp only: reversed_def simp_thms if_False)
qed

lemma cstr_reversed:
  assumes "cstr m p s" and "length s < 2 ^ 31"
  shows "cstr (reversed m p 0 (int (length s) - 1)) p (rev s)"
proof -
  let ?m = "reversed m p 0 (int (length s) - 1)"
  have "?m (p + of_nat i) = rev s ! i \<and> rev s ! i \<noteq> 0" if "i < length s" for i
    using cstr_at [OF assms(1), of "length s - Suc i"] that assms(2)
    by (simp only: reversed_at rev_nth) simp
  moreover have "p + of_nat (length s) \<notin> region p (length s)"
    using assms(2) by (simp add: region_iff)
  then have "?m (p + of_nat (length s)) = 0"
    using assms by (simp add: reversed_at(2) cstr_nth)
  ultimately show ?thesis by (simp add: cstr_nth)
qed

lemma reverse_str_cstr:
  assumes "cstr m p s" and "length s < 2 ^ 31"
  shows "\<exists>m'. reverse_str m p = Some m' \<and> cstr m' p (rev s) \<and>
    (\<forall>a. a \<notin> region p (length s) \<longrightarrow> m' a = m a)"
proof -
  have "sint (of_nat (length s) :: u32) = int (length s)"
    using assms(2) by (simp add: signed_of_nat signed_take_bit_int_eq_self)
  then have "reverse_str m p = Some (reversed m p 0 (int (length s) - 1))"
    using assms by (simp add: reverse_str_def strlen_cstr reverse_loop_reversed)
  moreover have "\<forall>a. a \<notin> region p (length s) \<longrightarrow> reversed m p 0 (int (length s) - 1) a = m a"
    using assms(2) by (simp add: reversed_at(2))
  ultimately show ?thesis
    using cstr_reversed [OF assms] by blast
qed

text \<open>The characters of a number in a base: what the formatting routines should produce.\<close>

definition numeral_chars :: "nat \<Rightarrow> nat \<Rightarrow> u8 list" where
  "numeral_chars b n = map (\<lambda>d. digit_char (of_nat d)) (digits b n)"

lemma length_digits_u64: "2 \<le> b \<Longrightarrow> length (digits b (unat (i :: u64))) \<le> 64"
proof -
  assume b: "2 \<le> b"
  have "unat i < 2 ^ Suc 63" using unat_u64_bound [of i] by simp
  also have "\<dots> \<le> b ^ Suc 63" using b by (rule power_mono) simp
  finally show ?thesis
    using length_digits_le [of "unat i" b 63] b by simp
qed

lemma uint_to_str_loop_digits:
  assumes "2 \<le> unat base" and "k + length (digits (unat base) (unat i)) \<le> 2 ^ 64"
  shows "uint_to_str_loop m buf base i (of_nat k) =
    Some (of_nat (k + length (digits (unat base) (unat i))),
      \<lambda>a. if k \<le> unat (a - buf) \<and> unat (a - buf) < k + length (digits (unat base) (unat i))
          then rev (numeral_chars (unat base) (unat i)) ! (unat (a - buf) - k) else m a)"
  using assms
proof (induction "unat i" arbitrary: i k m rule: less_induct)
  case less
  let ?b = "unat base" and ?n = "unat i"
  let ?c = "digit_char (i mod base)"
  have base: "base \<noteq> 0" using less.prems(1) by auto
  have c: "digit_char (of_nat (?n mod ?b)) = ?c"
    by (metis unat_mod word_unat_eq_iff unat_of_nat_le order_refl)
  show ?case
  proof (cases "?n < ?b")
    case True
    then have ds: "digits ?b ?n = [?n]" and z: "i div base = 0" and im: "i mod base = i"
      by (simp_all add: digits.simps [of ?b ?n] unat_eq_0 [symmetric] unat_div
          word_unat_eq_iff unat_mod)
    have k: "k < 2 ^ 64" using less.prems(2) ds by simp
    have "(\<lambda>a. if k \<le> unat (a - buf) \<and> unat (a - buf) < k + length (digits ?b ?n)
          then rev (numeral_chars ?b ?n) ! (unat (a - buf) - k) else m a) = m(buf + of_nat k := ?c)"
      using k im by (auto simp: ds numeral_chars_def fun_eq_iff unat_diff_eq_iff le_less_Suc_eq)
    with base z show ?thesis
      by (simp add: uint_to_str_loop.simps [of m] ds Let_def add.commute)
  next
    case False
    define ds where "ds = digits ?b (?n div ?b)"
    have dsn: "digits ?b ?n = ds @ [?n mod ?b]"
      using False less.prems(1) by (simp add: digits.simps [of ?b ?n] ds_def)
    have un: "unat (i div base) = ?n div ?b" by (rule unat_div)
    have pos: "0 < i div base"
      using False less.prems(1) by (simp add: word_less_unat un div_greater_zero_iff)
    have sm: "unat (i div base) < unat i"
      using False less.prems(1) by (simp add: un)
    have k: "k < 2 ^ 64" and le: "Suc k + length (digits ?b (unat (i div base))) \<le> 2 ^ 64"
      using less.prems(2) by (simp_all add: dsn un flip: ds_def)
    let ?m = "m(buf + of_nat k := ?c)"
    have IH: "uint_to_str_loop ?m buf base (i div base) (of_nat (Suc k)) =
      Some (of_nat (Suc k + length ds),
        \<lambda>a. if Suc k \<le> unat (a - buf) \<and> unat (a - buf) < Suc k + length ds
          then rev (numeral_chars ?b (?n div ?b)) ! (unat (a - buf) - Suc k) else ?m a)"
      using less.hyps [OF sm less.prems(1) le, of ?m] unfolding un by (simp flip: ds_def)
    have nc: "rev (numeral_chars ?b ?n) = ?c # rev (numeral_chars ?b (?n div ?b))"
      by (simp add: numeral_chars_def dsn c flip: ds_def)
    have "(if Suc k \<le> j \<and> j < Suc k + length ds
          then rev (numeral_chars ?b (?n div ?b)) ! (j - Suc k) else ?m a) =
        (if k \<le> j \<and> j < k + length (digits ?b ?n)
          then rev (numeral_chars ?b ?n) ! (j - k) else m a)" if "j = unat (a - buf)" for a j
    proof (cases "j = k")
      case True
      then have "a = buf + of_nat k" using that by auto
      with True show ?thesis by (simp add: nc dsn)
    next
      case False
      then have "a \<noteq> buf + of_nat k" using that k by auto
      with False show ?thesis by (auto simp: nc dsn Suc_diff_Suc [symmetric] nth_Cons_pos)
    qed
    with IH base pos show ?thesis
      by (simp add: uint_to_str_loop.simps [of m] Let_def dsn add.commute fun_eq_iff)
  qed
qed


definition digit_value :: "u8 \<Rightarrow> nat" where
  "digit_value c = (if unat c < 65 then unat c - 48 else unat c - 55)"

lemma unat_ucast_u8: "unat (ucast (x :: u64) :: u8) = unat x mod 256"
  by (simp add: unsigned_ucast_eq take_bit_eq_mod)

lemma digit_char_unat:
  "d < 36 \<Longrightarrow> unat (digit_char (of_nat d)) = (if d > 9 then d + 55 else d + 48)"
proof -
  assume d: "d < 36"
  then have "9 < (of_nat d :: u64) \<longleftrightarrow> 9 < d"
    by (simp add: word_less_unat)
  moreover have "(of_nat d - 10 :: u64) + 65 = of_nat (d + 55)"
    by (simp add: algebra_simps)
  moreover have "(of_nat d :: u64) + 48 = of_nat (d + 48)" by simp
  ultimately have "unat (digit_char (of_nat d)) = take_bit 8 (unat (of_nat (if 9 < d then d + 55 else d + 48) :: u64))"
    by (auto simp only: digit_char_def unsigned_ucast_eq if_True if_False) simp_all
  with d show ?thesis
    by (simp add: take_bit_nat_eq_self)
qed

lemma digit_value_char: "d < 36 \<Longrightarrow> digit_value (digit_char (of_nat d)) = d"
  by (simp add: digit_value_def digit_char_unat)

lemma digit_char_nonzero: "d < 36 \<Longrightarrow> digit_char (of_nat d) \<noteq> 0"
  using digit_char_unat [of d] by (auto split: if_splits)

lemma numeral_chars_value:
  assumes "2 \<le> b" and "b \<le> 36"
  shows "of_digits b (map digit_value (numeral_chars b n)) = n"
proof -
  have "map digit_value (numeral_chars b n) = digits b n"
    using assms digits_less [of b _ n]
    by (fastforce simp: numeral_chars_def intro!: map_idI digit_value_char)
  with assms show ?thesis by (simp add: of_digits_digits)
qed

lemma numeral_chars_nonzero:
  "2 \<le> b \<Longrightarrow> b \<le> 36 \<Longrightarrow> 0 \<notin> set (numeral_chars b n)"
proof
  assume b: "2 \<le> b" "b \<le> 36" and "0 \<in> set (numeral_chars b n)"
  then obtain d where d: "d \<in> set (digits b n)" "digit_char (of_nat d) = 0"
    by (auto simp: numeral_chars_def)
  with b have "d < 36" using digits_less by fastforce
  with d(2) show False by (simp add: digit_char_nonzero)
qed

text \<open>Writing the reversed characters and a NUL, then reversing, leaves the string itself.\<close>

lemma reverse_written:
  assumes n: "length cs < 2 ^ 31" and nz: "0 \<notin> set cs"
    and w: "\<And>j. j < length cs \<Longrightarrow> w (buf + of_nat j) = rev cs ! j"
    and frame: "\<And>a. length cs \<le> unat (a - buf) \<Longrightarrow> w a = m a"
  shows "\<exists>m'. reverse_str (w(buf + of_nat (length cs) := 0)) buf = Some m' \<and> cstr m' buf cs \<and>
    (\<forall>a. a \<notin> region buf (Suc (length cs)) \<longrightarrow> m' a = m a)"
proof -
  let ?w = "w(buf + of_nat (length cs) := 0)"
  have "rev cs ! j \<noteq> 0" if "j < length cs" for j
    using nz nth_mem [of j "rev cs"] that by auto
  then have c: "cstr ?w buf (rev cs)"
    using w n by (auto simp: cstr_nth of_nat_u64_inject)
  from reverse_str_cstr [OF c] n obtain m' where m': "reverse_str ?w buf = Some m'"
    "cstr m' buf cs" "\<And>a. a \<notin> region buf (length cs) \<Longrightarrow> m' a = ?w a"
    by auto
  have "m' a = m a" if "a \<notin> region buf (Suc (length cs))" for a
  proof -
    have "a \<noteq> buf + of_nat (length cs)" "a \<notin> region buf (length cs)"
      using that by (auto simp: region_Suc)
    with n m'(3) [of a] frame [of a] show ?thesis by (simp add: region_iff)
  qed
  with m' show ?thesis by blast
qed

lemma tool_uint_to_str_cstr:
  assumes "2 \<le> unat base" and "unat base \<le> 36"
  shows "\<exists>m'. tool_uint_to_str m i base buf = Some m' \<and>
    cstr m' buf (numeral_chars (unat base) (unat i)) \<and>
    (\<forall>a. a \<notin> region buf 65 \<longrightarrow> m' a = m a)"
proof -
  let ?cs = "numeral_chars (unat base) (unat i)"
  have ub: "unat (ucast base :: u64) = unat base"
    by (rule unat_ucast_u8_u64)
  have len: "length (digits (unat base) (unat i)) = length ?cs" "length ?cs \<le> 64"
    using length_digits_u64 [of "unat base" i] assms by (simp_all add: numeral_chars_def)
  define w where "w = (\<lambda>a. if unat (a - buf) < length ?cs then rev ?cs ! unat (a - buf) else m a)"
  have loop: "uint_to_str_loop m buf (ucast base) i 0 = Some (of_nat (length ?cs), w)"
    using uint_to_str_loop_digits [of "ucast base" 0 i m buf] assms len
    unfolding ub w_def minus_nat.diff_0 by simp
  have "\<exists>m'. reverse_str (w(buf + of_nat (length ?cs) := 0)) buf = Some m' \<and> cstr m' buf ?cs \<and>
    (\<forall>a. a \<notin> region buf (Suc (length ?cs)) \<longrightarrow> m' a = m a)"
    by (rule reverse_written)
      (use len assms in \<open>auto simp: w_def numeral_chars_nonzero order_less_le_trans\<close>)
  moreover have "region buf (Suc (length ?cs)) \<subseteq> region buf 65"
    using len by (intro region_mono) simp
  ultimately show ?thesis
    unfolding tool_uint_to_str_def loop by (simp add: subset_iff) blast
qed



text \<open>On a non-negative argument the signed loop runs like the unsigned one.\<close>

lemma sdiv_smod_uint:
  fixes i b :: u64
  shows "uint i sdiv uint b = uint (i div b)" and "uint i smod uint b = uint (i mod b)"
  unfolding signed_divide_int_def signed_modulo_int_def uint_div uint_mod
  by (cases "uint i = 0"; cases "uint b = 0"; simp add: sgn_if order_less_le)+

lemma ucast_u8_add: "(ucast (x + y :: u64) :: u8) = ucast x + ucast y"
  unfolding word_unat_eq_iff unat_ucast_u8 unat_word_ariths
  by (simp add: mod_mod_cancel mod_simps)

lemma digit_char_int:
  "(if 9 < uint r then of_int ((uint r - 10) + 65) else of_int (uint r + 48)) = digit_char r"
proof -
  have "(r - 10) + 65 = r + 55" by simp
  then show ?thesis
    unfolding digit_char_def by (simp add: ucast_u8_add word_less_def)
qed

lemma int_to_str_loop_uint:
  assumes "2 \<le> unat base" and "unat i < 2 ^ 63"
  shows "int_to_str_loop m buf (uint base) (uint i) index = uint_to_str_loop m buf base i index"
  using assms
proof (induction "unat i" arbitrary: i m index rule: less_induct)
  case less
  have b0: "base \<noteq> 0" "uint base \<noteq> 0" using less.prems(1) by (auto simp: uint_0_iff)
  have IH: "int_to_str_loop m' buf (uint base) (uint (i div base)) index' =
      uint_to_str_loop m' buf base (i div base) index'" if "0 < i div base" for m' index'
  proof (rule less.hyps)
    have "i \<noteq> 0" using that by auto
    then show lt: "unat (i div base) < unat i"
      using less.prems(1) unat_gt_0 [of i] unfolding unat_div by (intro div_less_dividend) simp_all
    show "unat (i div base) < 2 ^ 63" using lt less.prems(2) by linarith
  qed (rule less.prems(1))
  have pos: "0 < uint (i div base) \<longleftrightarrow> 0 < i div base"
    by (simp add: word_less_def)
  show ?case
    unfolding int_to_str_loop.simps [of m] uint_to_str_loop.simps [of m] sdiv_smod_uint
      digit_char_int Let_def pos
    using IH b0 by simp
qed

lemma tool_int_to_str_nonneg:
  assumes "2 \<le> unat base" and "0 \<le> i" and "i < 2 ^ 63"
  shows "tool_int_to_str m i base buf = tool_uint_to_str m (of_int i) base buf"
proof -
  have i: "uint (of_int i :: u64) = i"
    using uint_offset [of i 0] assms by simp
  have un: "unat (of_int i :: u64) < 2 ^ 63"
    unfolding unat_eq_nat_uint i using assms by (simp add: nat_less_iff)
  have "int_to_str_loop m buf (uint base) i 0 = uint_to_str_loop m buf (ucast base) (of_int i) 0"
    using int_to_str_loop_uint [of "ucast base" "of_int i" m buf 0] assms(1) un
    unfolding unat_ucast_u8_u64 uint_ucast_u8_u64 i by blast
  with assms(2) show ?thesis
    by (simp add: tool_int_to_str_def tool_uint_to_str_def)
qed

lemma tool_int_to_str_negative:
  assumes b: "2 \<le> unat base" "unat base \<le> 36" and i: "i < 0" "- (2 ^ 63) < i"
  shows "\<exists>m'. tool_int_to_str m i base buf = Some m' \<and>
    cstr m' buf (45 # numeral_chars (unat base) (nat (- i))) \<and>
    (\<forall>a. a \<notin> region buf 66 \<longrightarrow> m' a = m a)"
proof -
  define u :: u64 where "u = of_int (- i)"
  have u: "uint u = - i"
    using uint_offset [of "- i" 0] i by (simp add: u_def)
  then have un: "unat u = nat (- i)" by (simp only: unat_eq_nat_uint)
  have wrap: "wrap_int64 (i * -1) = uint u"
    unfolding wrap_int64_def u using i by (simp add: signed_take_bit_int_eq_self)
  have u63: "unat u < 2 ^ 63" unfolding un using i by (simp add: nat_less_iff)
  let ?cs = "numeral_chars (unat base) (unat u)"
  have len: "length (digits (unat base) (unat u)) = length ?cs" "length ?cs \<le> 64"
    using length_digits_u64 [of "unat base" u] b by (simp_all add: numeral_chars_def)
  define w where "w = (\<lambda>a. if unat (a - buf) < length ?cs then rev ?cs ! unat (a - buf) else m a)"
  have loop: "int_to_str_loop m buf (uint base) (uint u) 0 = Some (of_nat (length ?cs), w)"
    using uint_to_str_loop_digits [of "ucast base" 0 u m buf] b len
      int_to_str_loop_uint [of "ucast base" u m buf 0] u63
    unfolding unat_ucast_u8_u64 uint_ucast_u8_u64 w_def minus_nat.diff_0 by simp
  let ?w = "w(buf + of_nat (length ?cs) := 45)"
  have ex: "\<exists>m'. reverse_str (?w(buf + of_nat (length (45 # ?cs)) := 0)) buf = Some m' \<and>
    cstr m' buf (45 # ?cs) \<and> (\<forall>a. a \<notin> region buf (Suc (length (45 # ?cs))) \<longrightarrow> m' a = m a)"
  proof (rule reverse_written)
    show "?w (buf + of_nat j) = rev (45 # ?cs) ! j" if "j < length (45 # ?cs)" for j
      using that len by (auto simp: w_def nth_append less_Suc_eq of_nat_u64_inject)
    show "?w a = m a" if "length (45 # ?cs) \<le> unat (a - buf)" for a
      using that len by (auto simp: w_def)
  qed (use len b in \<open>auto simp: numeral_chars_nonzero\<close>)
  have sub: "region buf (Suc (length (45 # ?cs))) \<subseteq> region buf 66"
    using len by (intro region_mono) simp
  have eq: "tool_int_to_str m i base buf =
      reverse_str (?w(buf + of_nat (length (45 # ?cs)) := 0)) buf"
    using i(1) unfolding tool_int_to_str_def Let_def wrap
    by (simp only: loop if_True bind_simps prod.case) (simp add: add.commute)
  from ex obtain m' where "reverse_str (?w(buf + of_nat (length (45 # ?cs)) := 0)) buf = Some m'"
    "cstr m' buf (45 # ?cs)" "\<forall>a. a \<notin> region buf (Suc (length (45 # ?cs))) \<longrightarrow> m' a = m a"
    by (elim exE conjE)
  with sub show ?thesis
    unfolding eq un [symmetric] by (intro exI [of _ m']) (simp only: simp_thms, meson subsetD)
qed

section \<open>Properties\<close>

text \<open>\<open>strncpy\<close> into a block disjoint from the bytes it reads: the \<open>n\<close> bytes at the
  destination hold the source string cut at \<open>n\<close> and padded with NULs, no byte outside them
  changes, and the destination pointer is returned.\<close>

theorem strncpy_cstr:
  assumes "cstr m src s" and "disjoint_blocks dest src (unat n)" and "strncpy m dest src n = (r, m')"
  shows "r = dest \<and>
    (\<forall>j < unat n. m' (dest + of_nat j) = (if j < length s then s ! j else 0)) \<and>
    (\<forall>a. a \<notin> region dest (unat n) \<longrightarrow> m' a = m a)"
proof -
  have n: "unat n \<le> 2 ^ 64" by (simp add: order_less_imp_le)
  have eq: "r = dest" "m' = strncpy_spec m dest src (unat n)"
    using assms(3) strncpy_correct [OF assms(2), of m] by auto
  have "m' a = m a" if "a \<notin> region dest (unat n)" for a
    using that n by (simp add: eq strncpy_spec_def region_iff)
  with strncpy_spec_cstr [OF assms(1) _ n] show ?thesis
    by (simp add: eq)
qed

theorem strncpy_cstr_witness:
  "snd (strncpy (\<lambda>a. if a = 8192 \<or> a = 8193 then 65 else 0) 4096 8192 5) (4096 + of_nat 1) = 65 \<and>
   snd (strncpy (\<lambda>a. if a = 8192 \<or> a = 8193 then 65 else 0) 4096 8192 5) (4096 + of_nat 3) = 0"
proof -
  have "cstr (\<lambda>a. if a = 8192 \<or> a = 8193 then 65 else 0) 8192 [65, 65]" by simp
  moreover have "disjoint_blocks 4096 8192 (unat (5 :: u64))"
    by (rule disjoint_blocks_sep) simp_all
  ultimately have "\<forall>j < unat (5 :: u64).
      snd (strncpy (\<lambda>a. if a = 8192 \<or> a = 8193 then 65 else 0) 4096 8192 5) (4096 + of_nat j) =
      (if j < length [65 :: u8, 65] then [65, 65] ! j else 0)"
    using strncpy_cstr [OF _ _ surjective_pairing] by blast
  from spec [OF this, of 1] spec [OF this, of 3] show ?thesis by simp
qed

text \<open>Formatting a 64-bit number round trips.  For every base between 2 and 36,
  \<open>__tool_uint_to_str\<close> returns, leaves a NUL-terminated string at the buffer whose digits
  read back in that base give the number again, and writes no byte beyond the 65 that 64
  digits and the NUL need.\<close>

theorem tool_uint_to_str_roundtrip:
  assumes "2 \<le> unat base" and "unat base \<le> 36"
  shows "\<exists>m' s. tool_uint_to_str m i base buf = Some m' \<and> cstr m' buf s \<and>
    of_digits (unat base) (map digit_value s) = unat i \<and>
    (\<forall>a. a \<notin> region buf 65 \<longrightarrow> m' a = m a)"
  using tool_uint_to_str_cstr [OF assms, of m i buf] numeral_chars_value [OF assms] by blast

theorem tool_uint_to_str_roundtrip_witness:
  "\<exists>m' s. tool_uint_to_str (\<lambda>_. 0) 48879 16 4096 = Some m' \<and> cstr m' 4096 s \<and>
    of_digits (unat (16 :: u8)) (map digit_value s) = unat (48879 :: u64)"
  using tool_uint_to_str_roundtrip [of 16 "\<lambda>_. 0" 48879 4096] by auto

end
