(* ===== verification/Pmm.thy ===== *)
theory Pmm
  imports Prelude
begin

text \<open>
  \<open>krnl/mem/pmm.c\<close>, the physical page allocator: one bit per page in a bitmap that lives in
  memory, page counters, and a next-fit scan for contiguous runs.  The record \<open>pmm\<close> holds the
  file's static variables; the bitmap bytes are in the memory each operation takes and
  returns.  The Limine responses are arguments of \<open>pmm_init\<close>.  Logging is not modelled.

  The main lemmas: the scan is refined to a scan over page numbers, which finds a run exactly
  when one lies entirely at or above \<open>last_scanned_bit\<close> or entirely below it; allocation marks
  exactly the pages of that run; the free counter is the number of clear bits throughout; and
  \<open>pmm_init\<close> establishes this.
\<close>

section \<open>State and operations\<close>

record pmm =
  bitmap :: u64
  bitmap_size_bytes :: u64
  hhdm_offset :: u64
  free_pages :: u64
  used_pages :: u64
  usable_pages :: u64
  total_pages :: u64
  pmm_initialized :: bool
  last_scanned_bit :: u64

definition PAGE_SIZE :: u64 where
  "PAGE_SIZE = 4096"

definition pmm_boot :: pmm where
  "pmm_boot = \<lparr>bitmap = NULL, bitmap_size_bytes = 0, hhdm_offset = 0, free_pages = 0, used_pages = 0,
     usable_pages = 0, total_pages = 0, pmm_initialized = False, last_scanned_bit = 0\<rparr>"

definition bitmap_set :: "pmm \<Rightarrow> u64 \<Rightarrow> memory \<Rightarrow> memory" where
  "bitmap_set s i m = m(bitmap s + i div 8 := m (bitmap s + i div 8) OR push_bit (unat (i mod 8)) 1)"

definition bitmap_clear :: "pmm \<Rightarrow> u64 \<Rightarrow> memory \<Rightarrow> memory" where
  "bitmap_clear s i m =
     m(bitmap s + i div 8 := m (bitmap s + i div 8) AND NOT (push_bit (unat (i mod 8)) 1))"

definition bitmap_test :: "pmm \<Rightarrow> memory \<Rightarrow> u64 \<Rightarrow> bool" where
  "bitmap_test s m i \<longleftrightarrow> m (bitmap s + i div 8) AND push_bit (unat (i mod 8)) 1 \<noteq> 0"

definition phys_to_virt :: "pmm \<Rightarrow> u64 \<Rightarrow> u64" where
  "phys_to_virt s phys_addr = phys_addr + hhdm_offset s"

text \<open>
  The scan of \<open>pmm_alloc\<close>: \<open>k\<close> rounds are left, \<open>i\<close> is the loop counter.  The result is
  \<open>streak_start\<close> at the round in which the streak reaches \<open>count\<close>.
\<close>

fun pmm_scan :: "pmm \<Rightarrow> memory \<Rightarrow> u64 \<Rightarrow> u64 \<Rightarrow> nat \<Rightarrow> nat \<Rightarrow> u64 \<Rightarrow> u64 \<Rightarrow> u64 option" where
  "pmm_scan s m count start_scan_bit i 0 free_streak streak_start = None"
| "pmm_scan s m count start_scan_bit i (Suc k) free_streak streak_start =
     (let bit_idx = (start_scan_bit + of_nat i) mod total_pages s;
          free_streak = (if bit_idx = 0 \<and> 0 < free_streak then 0 else free_streak)
      in if \<not> bitmap_test s m bit_idx
         then let streak_start = (if free_streak = 0 then bit_idx else streak_start);
                  free_streak = free_streak + 1
              in if free_streak = count then Some streak_start
                 else pmm_scan s m count start_scan_bit (Suc i) k free_streak streak_start
         else pmm_scan s m count start_scan_bit (Suc i) k 0 streak_start)"

definition pmm_alloc :: "pmm \<Rightarrow> memory \<Rightarrow> u64 \<Rightarrow> u64 \<times> pmm \<times> memory" where
  "pmm_alloc s m count =
     (if \<not> pmm_initialized s \<or> count = 0 then (NULL, s, m)
      else case pmm_scan s m count (last_scanned_bit s) 0 (unat (total_pages s)) 0 0 of
        None \<Rightarrow> (NULL, s, m)
      | Some streak_start \<Rightarrow>
          (streak_start * PAGE_SIZE,
           s\<lparr>last_scanned_bit := (streak_start + count) mod total_pages s,
             free_pages := free_pages s - count,
             used_pages := used_pages s + count\<rparr>,
           fold (\<lambda>j. bitmap_set s (streak_start + of_nat j)) [0..<unat count] m))"

definition pmm_free_step :: "u64 \<Rightarrow> nat \<Rightarrow> pmm \<times> memory \<Rightarrow> pmm \<times> memory" where
  "pmm_free_step start_bit i = (\<lambda>(s, m).
     let bit_idx = start_bit + of_nat i
     in if bitmap_test s m bit_idx
        then (s\<lparr>free_pages := free_pages s + 1, used_pages := used_pages s - 1\<rparr>,
              bitmap_clear s bit_idx m)
        else (s, m))"

definition pmm_free :: "pmm \<Rightarrow> memory \<Rightarrow> u64 \<Rightarrow> u64 \<Rightarrow> pmm \<times> memory" where
  "pmm_free s m ptr count =
     (if \<not> pmm_initialized s \<or> ptr = NULL \<or> count = 0 then (s, m)
      else fold (pmm_free_step (ptr div PAGE_SIZE)) [0..<unat count] (s, m))"

text \<open>
  \<open>pmm_init\<close>: the two Limine responses are arguments (\<open>None\<close> for a missing response), the
  memory map as the list of its entries.  \<open>page_loop\<close> is the loop
  \<open>for (j = 0; j < limit; j += PAGE_SIZE)\<close>; it does not end when \<open>j\<close> wraps around.
\<close>

record memmap_entry =
  me_base :: u64
  me_length :: u64
  me_type :: u64

definition LIMINE_MEMMAP_USABLE :: u64 where
  "LIMINE_MEMMAP_USABLE = 0"

partial_function (option) page_loop ::
  "(u64 \<Rightarrow> pmm \<times> memory \<Rightarrow> pmm \<times> memory) \<Rightarrow> u64 \<Rightarrow> u64 \<Rightarrow> pmm \<times> memory \<Rightarrow> (pmm \<times> memory) option" where
  "page_loop f limit j sm =
     (if j < limit then page_loop f limit (j + PAGE_SIZE) (f j sm) else Some sm)"

definition highest_addr :: "memmap_entry list \<Rightarrow> u64" where
  "highest_addr entries =
     fold (\<lambda>e highest. let top = me_base e + me_length e in if highest < top then top else highest)
       entries 0"

definition bitmap_entry :: "u64 \<Rightarrow> memmap_entry list \<Rightarrow> memmap_entry option" where
  "bitmap_entry sz entries =
     List.find (\<lambda>e. me_type e = LIMINE_MEMMAP_USABLE \<and> sz \<le> me_length e) entries"

definition init_clear_page :: "u64 \<Rightarrow> u64 \<Rightarrow> pmm \<times> memory \<Rightarrow> pmm \<times> memory" where
  "init_clear_page base j = (\<lambda>(s, m).
     (s\<lparr>free_pages := free_pages s + 1\<rparr>, bitmap_clear s ((base + j) div PAGE_SIZE) m))"

definition init_set_page :: "u64 \<Rightarrow> u64 \<Rightarrow> pmm \<times> memory \<Rightarrow> pmm \<times> memory" where
  "init_set_page base j = (\<lambda>(s, m).
     (s\<lparr>free_pages := free_pages s - 1\<rparr>, bitmap_set s ((base + j) div PAGE_SIZE) m))"

fun init_clear_entries :: "memmap_entry list \<Rightarrow> pmm \<times> memory \<Rightarrow> (pmm \<times> memory) option" where
  "init_clear_entries [] sm = Some sm"
| "init_clear_entries (e # es) sm =
     (if me_type e = LIMINE_MEMMAP_USABLE
      then Option.bind (page_loop (init_clear_page (me_base e)) (me_length e) 0 sm) (init_clear_entries es)
      else init_clear_entries es sm)"

definition pmm_init ::
  "memmap_entry list option \<Rightarrow> u64 option \<Rightarrow> pmm \<Rightarrow> memory \<Rightarrow> (pmm \<times> memory) option" where
  "pmm_init memmap hhdm s m =
     (case (memmap, hhdm) of
        (Some entries, Some offset) \<Rightarrow>
          let s = s\<lparr>hhdm_offset := offset\<rparr>;
              s = s\<lparr>total_pages := highest_addr entries div PAGE_SIZE\<rparr>;
              s = s\<lparr>bitmap_size_bytes := total_pages s div 8\<rparr>;
              s = (if bitmap_size_bytes s * 8 < total_pages s
                   then s\<lparr>bitmap_size_bytes := bitmap_size_bytes s + 1\<rparr> else s);
              s = (case bitmap_entry (bitmap_size_bytes s) entries of
                     None \<Rightarrow> s
                   | Some e \<Rightarrow> s\<lparr>bitmap := phys_to_virt s (me_base e)\<rparr>)
          in if bitmap s = NULL then Some (s, m)
             else
               let m = fold (\<lambda>i m. m(bitmap s + of_nat i := 255)) [0..<unat (bitmap_size_bytes s)] m
               in Option.bind (init_clear_entries entries (s, m)) (\<lambda>(s, m).
                  Option.bind (page_loop (init_set_page (bitmap s - hhdm_offset s))
                                 (bitmap_size_bytes s) 0 (s, m)) (\<lambda>(s, m).
                    let s = s\<lparr>used_pages := 0, pmm_initialized := True\<rparr>
                    in Some (s\<lparr>usable_pages := free_pages s\<rparr>, m)))
      | _ \<Rightarrow> Some (s, m))"

text \<open>\<open>pmm_stat\<close> copies the counters out; a \<open>NULL\<close> argument is the value \<open>None\<close>.\<close>

record pmm_stats =
  st_free_pages :: u64
  st_used_pages :: u64
  st_usable_pages :: u64
  st_total_pages :: u64
  st_initialized :: bool

definition pmm_stat :: "pmm \<Rightarrow> pmm_stats option \<Rightarrow> pmm_stats option" where
  "pmm_stat s stat = map_option (\<lambda>_. \<lparr>st_free_pages = free_pages s, st_used_pages = used_pages s,
     st_usable_pages = usable_pages s, st_total_pages = total_pages s,
     st_initialized = pmm_initialized s\<rparr>) stat"

section \<open>Bits and pages\<close>

lemma bitmap_test_bit: "bitmap_test s m i \<longleftrightarrow> bit (m (bitmap s + i div 8)) (unat (i mod 8))"
  by (simp add: bitmap_test_def push_bit_eq_mult and_exp_eq_0_iff_not_bit)

lemma mod8_less: "unat (i mod 8 :: u64) < 8"
  by (simp add: unat_mod)

lemma same_bit:
  assumes "i div 8 = j div 8" and "unat (i mod 8) = unat (j mod 8)"
  shows "i = (j :: u64)"
proof -
  have "i mod 8 = j mod 8" using assms(2) by (simp only: word_unat_eq_iff)
  then have "i div 8 * 8 + i mod 8 = j div 8 * 8 + j mod 8" by (simp only: assms(1))
  then show ?thesis by (simp only: div_mult_mod_eq)
qed

lemma bit_or_push: "k < 8 \<Longrightarrow> bit (b OR push_bit n 1 :: u8) k \<longleftrightarrow> k = n \<or> bit b k"
  by (auto simp: bit_simps)

lemma bit_and_not_push: "k < 8 \<Longrightarrow> bit (b AND NOT (push_bit n 1) :: u8) k \<longleftrightarrow> k \<noteq> n \<and> bit b k"
  by (auto simp: bit_simps)

lemma bitmap_test_set [simp]: "bitmap_test s (bitmap_set s i m) j \<longleftrightarrow> j = i \<or> bitmap_test s m j"
proof (cases "j div 8 = i div 8")
  case True
  have "bit (m (bitmap s + i div 8) OR push_bit (unat (i mod 8)) 1) (unat (j mod 8)) \<longleftrightarrow>
      unat (j mod 8) = unat (i mod 8) \<or> bit (m (bitmap s + i div 8)) (unat (j mod 8))"
    by (rule bit_or_push) (rule mod8_less)
  moreover have "unat (j mod 8) = unat (i mod 8) \<longleftrightarrow> j = i"
    using same_bit [OF True] by blast
  ultimately show ?thesis
    unfolding bitmap_test_bit bitmap_set_def True by (simp only: fun_upd_same)
next
  case False
  then have "j \<noteq> i" "bitmap s + j div 8 \<noteq> bitmap s + i div 8" by auto
  then show ?thesis
    unfolding bitmap_test_bit bitmap_set_def by (simp only: fun_upd_other simp_thms)
qed

lemma bitmap_test_clear [simp]:
  "bitmap_test s (bitmap_clear s i m) j \<longleftrightarrow> j \<noteq> i \<and> bitmap_test s m j"
proof (cases "j div 8 = i div 8")
  case True
  have "bit (m (bitmap s + i div 8) AND NOT (push_bit (unat (i mod 8)) 1)) (unat (j mod 8)) \<longleftrightarrow>
      unat (j mod 8) \<noteq> unat (i mod 8) \<and> bit (m (bitmap s + i div 8)) (unat (j mod 8))"
    by (rule bit_and_not_push) (rule mod8_less)
  moreover have "unat (j mod 8) = unat (i mod 8) \<longleftrightarrow> j = i"
    using same_bit [OF True] by blast
  ultimately show ?thesis
    unfolding bitmap_test_bit bitmap_clear_def True by (simp only: fun_upd_same)
next
  case False
  then have "j \<noteq> i" "bitmap s + j div 8 \<noteq> bitmap s + i div 8" by auto
  then show ?thesis
    unfolding bitmap_test_bit bitmap_clear_def by (simp only: fun_upd_other simp_thms)
qed

lemma bitmap_test_cong: "bitmap s' = bitmap s \<Longrightarrow> bitmap_test s' m i = bitmap_test s m i"
  by (simp add: bitmap_test_def)

section \<open>The scan over page numbers\<close>

text \<open>The scan with natural numbers, over the list of pages it visits.\<close>

fun run_scan :: "(nat \<Rightarrow> bool) \<Rightarrow> nat \<Rightarrow> nat list \<Rightarrow> nat \<Rightarrow> nat \<Rightarrow> nat option" where
  "run_scan used c [] k st = None"
| "run_scan used c (p # ps) k st =
     (let k = (if p = 0 then 0 else k)
      in if \<not> used p
         then let st = (if k = 0 then p else st)
              in if Suc k = c then Some st else run_scan used c ps (Suc k) st
         else run_scan used c ps 0 st)"

text \<open>The pages of a run, and the invariant of the scan before page \<open>a\<close>.\<close>

definition free_run :: "(nat \<Rightarrow> bool) \<Rightarrow> nat \<Rightarrow> nat \<Rightarrow> bool" where
  "free_run used p c \<longleftrightarrow> (\<forall>q. p \<le> q \<and> q < p + c \<longrightarrow> \<not> used q)"

definition streak_ok :: "(nat \<Rightarrow> bool) \<Rightarrow> nat \<Rightarrow> nat \<Rightarrow> nat \<Rightarrow> bool" where
  "streak_ok used a k st \<longleftrightarrow> 0 < k \<longrightarrow> st + k = a \<and> free_run used st k"

lemma streak_ok_0 [simp]: "streak_ok used a 0 st"
  by (simp add: streak_ok_def)

lemma streak_ok_Suc:
  "streak_ok used a k st \<Longrightarrow> \<not> used a \<Longrightarrow> streak_ok used (Suc a) (Suc k) (if k = 0 then a else st)"
  by (auto simp: streak_ok_def free_run_def less_Suc_eq)

lemma run_scan_sound:
  assumes "run_scan used c ([a..<b] @ ps) k st = Some p" and "streak_ok used a k st"
    and "0 < c" and "a \<le> b"
  shows "(p + c \<le> b \<and> free_run used p c) \<or> (\<exists>k' st'. run_scan used c ps k' st' = Some p)"
  using assms
proof (induction "b - a" arbitrary: a k st)
  case 0
  then show ?case by auto
next
  case (Suc n)
  let ?k = "if a = 0 then 0 else k"
  have up: "[a..<b] = a # [Suc a..<b]" using Suc.hyps(2) by (simp add: upt_conv_Cons)
  have ok: "streak_ok used a ?k st" using Suc.prems(2) by simp
  have n: "n = b - Suc a" "Suc a \<le> b" using Suc.hyps(2) by simp_all
  show ?case
  proof (cases "used a")
    case True
    then have "run_scan used c ([Suc a..<b] @ ps) 0 st = Some p"
      using Suc.prems(1) by (simp add: up)
    then show ?thesis
      using Suc.hyps(1) [OF n(1) _ _ Suc.prems(3) n(2)] by simp
  next
    case False
    let ?st = "if ?k = 0 then a else st"
    have ok': "streak_ok used (Suc a) (Suc ?k) ?st"
      using streak_ok_Suc [OF ok False] .
    show ?thesis
    proof (cases "Suc ?k = c")
      case True
      then have "p = ?st" using Suc.prems(1) False by (auto simp: up Let_def split: if_splits)
      moreover have "?st + c = Suc a" "free_run used ?st c"
        using ok' True unfolding streak_ok_def by auto
      ultimately have "p + c \<le> b \<and> free_run used p c" using n by simp
      then show ?thesis ..
    next
      case F: False
      then have "run_scan used c ([Suc a..<b] @ ps) (Suc ?k) ?st = Some p"
        using Suc.prems(1) False by (simp add: up Let_def split: if_splits)
      then show ?thesis
        using Suc.hyps(1) [OF n(1) _ ok' Suc.prems(3) n(2)] by blast
    qed
  qed
qed

lemma run_scan_complete:
  assumes "run_scan used c ([a..<b] @ ps) k st = None" and "k < c" and "k \<le> a" and "a \<le> b"
  shows "\<not> (a - k \<le> p \<and> p + c \<le> b \<and> free_run used p c)"
    and "\<exists>k' st'. run_scan used c ps k' st' = None \<and> k' < c"
proof -
  have "(\<forall>p. \<not> (a - k \<le> p \<and> p + c \<le> b \<and> free_run used p c)) \<and>
      (\<exists>k' st'. run_scan used c ps k' st' = None \<and> k' < c)"
    using assms
  proof (induction "b - a" arbitrary: a k st)
    case 0
    then show ?case by auto
  next
    case (Suc n)
    have up: "[a..<b] = a # [Suc a..<b]" using Suc.hyps(2) by (simp add: upt_conv_Cons)
    have n: "n = b - Suc a" "Suc a \<le> b" using Suc.hyps(2) by simp_all
    show ?case
    proof (cases "used a")
      case True
      then have "run_scan used c ([Suc a..<b] @ ps) 0 st = None"
        using Suc.prems(1) by (simp add: up)
      then have IH: "\<forall>p. \<not> (Suc a \<le> p \<and> p + c \<le> b \<and> free_run used p c)"
        "\<exists>k' st'. run_scan used c ps k' st' = None \<and> k' < c"
        using Suc.hyps(1) [OF n(1), of 0 st] Suc.prems(2) n(2) by auto
      have "Suc a \<le> p" if "a - k \<le> p" "free_run used p c" for p
        using that True Suc.prems(2,3) unfolding free_run_def by (metis (full_types) Suc_leI
            add_less_cancel_right le_add_diff_inverse2 le_less_linear less_le_trans
            add.commute add_le_mono1 nat_add_left_cancel_less order_le_less_trans)
      with IH show ?thesis by blast
    next
      case False
      let ?k = "if a = 0 then 0 else k"
      have k: "?k = k" using Suc.prems(3) by simp
      from Suc.prems(1) False have *: "Suc k \<noteq> c"
        "run_scan used c ([Suc a..<b] @ ps) (Suc k) (if k = 0 then a else st) = None"
        unfolding up append_Cons run_scan.simps k Let_def by (simp_all split: if_splits)
      then show ?thesis
        using Suc.hyps(1) [OF n(1) *(2)] Suc.prems(2,3) n(2) by simp
    qed
  qed
  then show "\<not> (a - k \<le> p \<and> p + c \<le> b \<and> free_run used p c)"
    and "\<exists>k' st'. run_scan used c ps k' st' = None \<and> k' < c" by blast+
qed

section \<open>Refinement of the scan\<close>

definition page_used :: "pmm \<Rightarrow> memory \<Rightarrow> nat \<Rightarrow> bool" where
  "page_used s m p = bitmap_test s m (of_nat p)"

lemma page_used_cong: "bitmap s' = bitmap s \<Longrightarrow> page_used s' m p = page_used s m p"
  unfolding page_used_def by (rule bitmap_test_cong)

lemma pmm_scan_run_scan:
  assumes T: "T = unat (total_pages s)" "T \<le> 2 ^ 52" and L: "L = unat start" "L < T"
  shows "i + k \<le> T \<Longrightarrow> unat fs \<le> i \<Longrightarrow>
    pmm_scan s m count start i k fs ss = map_option of_nat
      (run_scan (page_used s m) (unat count) (map (\<lambda>i. (L + i) mod T) [i..<i + k]) (unat fs) (unat ss))"
proof (induction k arbitrary: i fs ss)
  case 0
  then show ?case by simp
next
  case (Suc k)
  let ?w = "(start + of_nat i) mod total_pages s" and ?p = "(L + i) mod T"
  let ?fs = "if ?w = 0 \<and> 0 < fs then 0 else fs"
  have i: "i < T" using Suc.prems by simp
  have "unat (start + of_nat i) = L + i"
    using i T(2) L by (simp add: unat_add_u64)
  then have up: "unat ?w = ?p" by (simp add: unat_mod T(1))
  then have w: "of_nat ?p = ?w" using word_unat_eq_iff [of "of_nat ?p" ?w]
    by (metis unat_of_nat_le order_refl)
  have w0: "?w = 0 \<longleftrightarrow> ?p = 0" using up by (metis unat_0 word_unat_eq_iff)
  have fs: "unat ?fs = (if ?p = 0 then 0 else unat fs)" using w0 by (auto simp: word_less_unat)
  have fsi: "unat ?fs \<le> i" using Suc.prems(2) by simp
  have inc: "unat (?fs + 1) = Suc (unat ?fs)"
    using fsi i T(2) by (simp add: unat_add_u64)
  have cnt: "?fs + 1 = count \<longleftrightarrow> Suc (unat ?fs) = unat count"
    using inc by (metis word_unat_eq_iff)
  have z: "?fs = 0 \<longleftrightarrow> unat ?fs = 0" by (simp add: unat_eq_0)
  have ups: "[i..<i + Suc k] = i # [Suc i..<Suc i + k]" by (simp add: upt_conv_Cons)
  have used: "page_used s m ?p = bitmap_test s m ?w" by (simp add: page_used_def w)
  define ss' where "ss' = (if ?fs = 0 then ?w else ss)"
  have ss': "unat ss' = (if unat ?fs = 0 then ?p else unat ss)" "of_nat (unat ss') = ss'"
    using up z by (simp_all add: ss'_def)
  have IH0: "pmm_scan s m count start (Suc i) k 0 ss = map_option of_nat
      (run_scan (page_used s m) (unat count) (map (\<lambda>i. (L + i) mod T) [Suc i..<Suc i + k]) 0 (unat ss))"
    using Suc.IH [of "Suc i" 0 ss] Suc.prems(1) by simp
  have IH1: "pmm_scan s m count start (Suc i) k (?fs + 1) ss' = map_option of_nat
      (run_scan (page_used s m) (unat count) (map (\<lambda>i. (L + i) mod T) [Suc i..<Suc i + k])
        (Suc (unat ?fs)) (unat ss'))"
    using Suc.IH [of "Suc i" "?fs + 1" ss'] Suc.prems(1) fsi unfolding inc by simp
  show ?case
    unfolding ups list.map pmm_scan.simps run_scan.simps Let_def used
    unfolding fs [symmetric] ss'_def [symmetric] ss'(1) [symmetric] cnt
    using IH0 IH1 ss'(2)
    by (cases "bitmap_test s m ?w"; cases "Suc (unat ?fs) = unat count")
      (simp_all only: option.map if_False if_True simp_thms)
qed

text \<open>The pages in the order of the scan.\<close>

lemma scan_order: "L < T \<Longrightarrow> map (\<lambda>i. (L + i) mod T) [0..<T] = [L..<T] @ [0..<L]"
  by (rule nth_equalityI) (auto simp: nth_append mod_if not_less)

lemma run_scan_reset: "run_scan used c [0..<n] k st = run_scan used c [0..<n] 0 st"
  by (cases n) (simp_all add: upt_conv_Cons del: upt_Suc)

lemma pmm_scan_start:
  assumes "unat (total_pages s) \<le> 2 ^ 52" and "last_scanned_bit s < total_pages s"
  shows "pmm_scan s m count (last_scanned_bit s) 0 (unat (total_pages s)) 0 0 = map_option of_nat
    (run_scan (page_used s m) (unat count)
      ([unat (last_scanned_bit s)..<unat (total_pages s)] @ [0..<unat (last_scanned_bit s)]) 0 0)"
  using pmm_scan_run_scan [OF refl assms(1) refl, of "last_scanned_bit s" 0 "unat (total_pages s)" 0 m count 0]
    assms scan_order by (simp add: word_less_unat)

lemma pmm_scan_Some:
  assumes "unat (total_pages s) \<le> 2 ^ 52" and "last_scanned_bit s < total_pages s" and "count \<noteq> 0"
    and "pmm_scan s m count (last_scanned_bit s) 0 (unat (total_pages s)) 0 0 = Some w"
  shows "unat w + unat count \<le> unat (total_pages s) \<and>
    free_run (page_used s m) (unat w) (unat count)"
proof -
  let ?L = "unat (last_scanned_bit s)" and ?T = "unat (total_pages s)" and ?c = "unat count"
  let ?u = "page_used s m"
  have L: "?L \<le> ?T" using assms(2) by (simp add: word_less_unat)
  have c: "0 < ?c" using assms(3) by (simp add: unat_gt_0)
  obtain p where p: "run_scan ?u ?c ([?L..<?T] @ [0..<?L]) 0 0 = Some p" and w: "w = of_nat p"
    using assms(4) pmm_scan_start [OF assms(1,2), of m count] by auto
  have "p + ?c \<le> ?T \<and> free_run ?u p ?c"
  proof (cases "p + ?c \<le> ?T \<and> free_run ?u p ?c")
    case False
    then obtain k' st' where "run_scan ?u ?c [0..<?L] k' st' = Some p"
      using run_scan_sound [OF p _ c L] by auto
    then have "run_scan ?u ?c ([0..<?L] @ []) 0 st' = Some p"
      using run_scan_reset [of ?u ?c ?L k' st'] by simp
    from run_scan_sound [OF this _ c] have "p + ?c \<le> ?L \<and> free_run ?u p ?c" by simp
    with L show ?thesis by simp
  qed
  then show ?thesis using assms(1) by (simp add: w)
qed

lemma pmm_scan_None:
  assumes "unat (total_pages s) \<le> 2 ^ 52" and "last_scanned_bit s < total_pages s" and "count \<noteq> 0"
    and "pmm_scan s m count (last_scanned_bit s) 0 (unat (total_pages s)) 0 0 = None"
    and "free_run (page_used s m) p (unat count)" and "p + unat count \<le> unat (total_pages s)"
  shows "p < unat (last_scanned_bit s) \<and> unat (last_scanned_bit s) < p + unat count"
proof -
  let ?L = "unat (last_scanned_bit s)" and ?T = "unat (total_pages s)" and ?c = "unat count"
  let ?u = "page_used s m"
  have L: "?L \<le> ?T" using assms(2) by (simp add: word_less_unat)
  have c: "0 < ?c" using assms(3) by (simp add: unat_gt_0)
  have none: "run_scan ?u ?c ([?L..<?T] @ [0..<?L]) 0 0 = None"
    using assms(4) pmm_scan_start [OF assms(1,2), of m count] by simp
  have high: "\<not> (?L \<le> p \<and> p + ?c \<le> ?T \<and> free_run ?u p ?c)"
    using run_scan_complete(1) [OF none c _ L] by simp
  obtain k' st' where "run_scan ?u ?c [0..<?L] k' st' = None"
    using run_scan_complete(2) [OF none c _ L] by auto
  then have "run_scan ?u ?c ([0..<?L] @ []) 0 st' = None"
    using run_scan_reset [of ?u ?c ?L k' st'] by simp
  from run_scan_complete(1) [OF this c] have "\<not> (p + ?c \<le> ?L \<and> free_run ?u p ?c)" by simp
  with high assms(5,6) show ?thesis by auto
qed

section \<open>Invariant\<close>

definition pmm_inv :: "pmm \<Rightarrow> memory \<Rightarrow> bool" where
  "pmm_inv s m \<longleftrightarrow> pmm_initialized s \<and> unat (total_pages s) \<le> 2 ^ 52 \<and>
     unat (total_pages s) \<le> 8 * unat (bitmap_size_bytes s) \<and>
     (total_pages s \<noteq> 0 \<longrightarrow> last_scanned_bit s < total_pages s) \<and>
     free_pages s = of_nat (card {p. p < unat (total_pages s) \<and> \<not> page_used s m p})"

text \<open>Setting the bits of a block of pages.\<close>

lemma bitmap_set_fold:
  "bitmap_test s (fold (\<lambda>j. bitmap_set s (w + of_nat j)) [0..<c] m) i \<longleftrightarrow>
     (\<exists>j < c. i = w + of_nat j) \<or> bitmap_test s m i"
  by (induction c) (auto simp: less_Suc_eq)

lemma page_used_set_fold:
  assumes "unat w + c \<le> T" and "T \<le> 2 ^ 52" and "q < T"
  shows "page_used s (fold (\<lambda>j. bitmap_set s (w + of_nat j)) [0..<c] m) q \<longleftrightarrow>
    (unat w \<le> q \<and> q < unat w + c) \<or> page_used s m q"
proof -
  have "(\<exists>j < c. (of_nat q :: u64) = w + of_nat j) \<longleftrightarrow> unat w \<le> q \<and> q < unat w + c"
  proof
    assume "\<exists>j < c. (of_nat q :: u64) = w + of_nat j"
    then obtain j where j: "j < c" "of_nat q = w + of_nat j" by auto
    have "unat (w + of_nat j) = unat w + j"
      using j(1) assms by (simp add: unat_add_u64)
    moreover have "unat (of_nat q :: u64) = q" using assms by simp
    ultimately show "unat w \<le> q \<and> q < unat w + c" using j by auto
  next
    assume q: "unat w \<le> q \<and> q < unat w + c"
    then have "(of_nat q :: u64) = w + of_nat (q - unat w)" by simp
    with q show "\<exists>j < c. (of_nat q :: u64) = w + of_nat j"
      by (intro exI [of _ "q - unat w"]) auto
  qed
  then show ?thesis
    by (simp add: page_used_def bitmap_set_fold)
qed

lemma bitmap_set_other: "a \<noteq> bitmap s + i div 8 \<Longrightarrow> bitmap_set s i m a = m a"
  by (simp add: bitmap_set_def)

lemma bitmap_byte_region:
  assumes "i < n" and "n \<le> 8 * unat (bitmap_size_bytes s)"
  shows "bitmap s + of_nat (i div 8) \<in> region (bitmap s) (unat (bitmap_size_bytes s))"
  using assms by (intro region_mem) simp

lemma u64_div_8: "i < 2 ^ 64 \<Longrightarrow> (of_nat i :: u64) div 8 = of_nat (i div 8)"
  by (simp add: word_unat_eq_iff unat_div)

lemma of_nat_div_8: "of_nat (unat x div 8) = (x div 8 :: u64)"
proof -
  have "unat x div 8 \<le> unat x" by simp
  then have "unat (of_nat (unat x div 8) :: u64) = unat x div 8" by (rule unat_of_nat_le)
  then show ?thesis by (simp add: word_unat_eq_iff unat_div)
qed

lemma bitmap_set_fold_other:
  assumes "unat w + c \<le> T" and "T \<le> 2 ^ 52" and "T \<le> 8 * unat (bitmap_size_bytes s)"
    and "a \<notin> region (bitmap s) (unat (bitmap_size_bytes s))"
  shows "fold (\<lambda>j. bitmap_set s (w + of_nat j)) [0..<c] m a = m a"
  using assms(1)
proof (induction c)
  case 0
  then show ?case by simp
next
  case (Suc c)
  have "w + of_nat c = of_nat (unat w + c)" by simp
  then have "(w + of_nat c) div 8 = of_nat ((unat w + c) div 8)"
    using u64_div_8 [of "unat w + c"] Suc.prems assms(2) by simp
  then have "a \<noteq> bitmap s + (w + of_nat c) div 8"
    using bitmap_byte_region [of "unat w + c" T s] Suc.prems assms(3,4) by auto
  then show ?case
    using Suc by (simp add: bitmap_set_other)
qed

lemma card_free_remove:
  assumes "p + c \<le> T" and "free_run used p c"
    and "\<And>q. q < T \<Longrightarrow> used' q \<longleftrightarrow> (p \<le> q \<and> q < p + c) \<or> used q"
  shows "card {q. q < T \<and> \<not> used' q} + c = card {q. q < T \<and> \<not> used q}"
proof -
  have eq: "{q. q < T \<and> \<not> used q} = {q. q < T \<and> \<not> used' q} \<union> {p..<p + c}"
    using assms by (auto simp: free_run_def)
  have "{q. q < T \<and> \<not> used' q} \<inter> {p..<p + c} = {}"
    using assms by auto
  then show ?thesis
    unfolding eq by (subst card_Un_disjoint) auto
qed

section \<open>Allocation and release\<close>

lemma pmm_alloc_Some:
  assumes inv: "pmm_inv s m" and c: "count \<noteq> 0"
    and scan: "pmm_scan s m count (last_scanned_bit s) 0 (unat (total_pages s)) 0 0 = Some w"
    and alloc: "pmm_alloc s m count = (r, s', m')"
  shows "r = of_nat (unat w * 4096)" and "unat w + unat count \<le> unat (total_pages s)"
    and "free_run (page_used s m) (unat w) (unat count)"
    and "\<And>q. q < unat (total_pages s) \<Longrightarrow>
      page_used s' m' q \<longleftrightarrow> (unat w \<le> q \<and> q < unat w + unat count) \<or> page_used s m q"
    and "\<And>a. a \<notin> region (bitmap s) (unat (bitmap_size_bytes s)) \<Longrightarrow> m' a = m a"
    and "pmm_inv s' m'" and "free_pages s' = free_pages s - count"
    and "used_pages s' = used_pages s + count"
proof -
  let ?T = "unat (total_pages s)" and ?c = "unat count" and ?p = "unat w"
  have T: "?T \<le> 2 ^ 52" "?T \<le> 8 * unat (bitmap_size_bytes s)" and init: "pmm_initialized s"
    using inv by (simp_all add: pmm_inv_def)
  have T0: "total_pages s \<noteq> 0" using scan by (cases "?T") (auto simp: unat_eq_0)
  have last: "last_scanned_bit s < total_pages s" using inv T0 by (simp add: pmm_inv_def)
  have run: "?p + ?c \<le> ?T" "free_run (page_used s m) ?p ?c"
    using pmm_scan_Some [OF T(1) last c scan] by simp_all
  have eqs: "r = w * PAGE_SIZE" "s' = s\<lparr>last_scanned_bit := (w + count) mod total_pages s,
      free_pages := free_pages s - count, used_pages := used_pages s + count\<rparr>"
    "m' = fold (\<lambda>j. bitmap_set s (w + of_nat j)) [0..<?c] m"
    using alloc init c scan by (simp_all add: pmm_alloc_def)
  show "r = of_nat (?p * 4096)" by (simp add: eqs PAGE_SIZE_def)
  show "?p + ?c \<le> ?T" "free_run (page_used s m) ?p ?c" by (fact run)+
  show used: "page_used s' m' q \<longleftrightarrow> (?p \<le> q \<and> q < ?p + ?c) \<or> page_used s m q" if "q < ?T" for q
    using page_used_set_fold [OF run(1) T(1) that, of s m] page_used_cong [of s' s m' q]
    by (simp add: eqs)
  show "m' a = m a" if "a \<notin> region (bitmap s) (unat (bitmap_size_bytes s))" for a
    using bitmap_set_fold_other [OF run(1) T that] by (simp add: eqs)
  show f: "free_pages s' = free_pages s - count" "used_pages s' = used_pages s + count"
    by (simp_all add: eqs)
  have card: "card {q. q < ?T \<and> \<not> page_used s' m' q} + ?c = card {q. q < ?T \<and> \<not> page_used s m q}"
    by (rule card_free_remove [OF run]) (rule used)
  then have "(of_nat (card {q. q < ?T \<and> \<not> page_used s m q}) :: u64) =
      of_nat (card {q. q < ?T \<and> \<not> page_used s' m' q}) + count"
    by (simp flip: card)
  moreover have "free_pages s = of_nat (card {q. q < ?T \<and> \<not> page_used s m q})"
    using inv by (simp add: pmm_inv_def)
  ultimately have "free_pages s' = of_nat (card {q. q < ?T \<and> \<not> page_used s' m' q})"
    by (simp add: f)
  then show "pmm_inv s' m'"
    using inv T0 unfolding pmm_inv_def by (simp add: eqs word_less_unat unat_mod unat_gt_0)
qed

lemma pmm_alloc_None:
  assumes "count = 0 \<or> \<not> pmm_initialized s \<or>
    pmm_scan s m count (last_scanned_bit s) 0 (unat (total_pages s)) 0 0 = None"
  shows "pmm_alloc s m count = (NULL, s, m)"
  using assms by (auto simp: pmm_alloc_def)

lemma pmm_alloc_params:
  "pmm_alloc s m count = (r, s', m') \<Longrightarrow> total_pages s' = total_pages s \<and> hhdm_offset s' = hhdm_offset s"
  by (auto simp: pmm_alloc_def split: if_splits option.splits)

text \<open>
  What the other allocators rely on: allocation keeps the invariant and the pages in use, and a
  block that is handed out consists of pages that were not in use.
\<close>

locale page_allocator =
  fixes alloc :: "u64 \<Rightarrow> 's \<Rightarrow> u64 \<times> 's" and inv :: "'s \<Rightarrow> bool" and pages :: "'s \<Rightarrow> nat"
    and used :: "'s \<Rightarrow> nat \<Rightarrow> bool"
  assumes alloc_inv: "inv s \<Longrightarrow> alloc n s = (r, s') \<Longrightarrow> inv s' \<and> pages s' = pages s"
    and alloc_mono: "inv s \<Longrightarrow> alloc n s = (r, s') \<Longrightarrow> q < pages s \<Longrightarrow> used s q \<Longrightarrow> used s' q"
    and alloc_block: "inv s \<Longrightarrow> alloc n s = (r, s') \<Longrightarrow> r \<noteq> NULL \<Longrightarrow>
      \<exists>p. r = of_nat (p * 4096) \<and> 0 < p \<and> p + unat n \<le> pages s \<and>
        (\<forall>q. p \<le> q \<and> q < p + unat n \<longrightarrow> \<not> used s q \<and> used s' q)"
begin

lemma alloc_page:
  assumes "inv s" and "alloc 1 s = (r, s')" and "r \<noteq> NULL"
  obtains p where "r = of_nat (p * 4096)" "0 < p" "p < pages s" "\<not> used s p" "used s' p"
proof -
  obtain p where p: "r = of_nat (p * 4096)" "0 < p" "p + unat (1 :: u64) \<le> pages s"
    and new: "\<And>q. p \<le> q \<Longrightarrow> q < p + unat (1 :: u64) \<Longrightarrow> \<not> used s q \<and> used s' q"
    using alloc_block [OF assms] by blast
  show thesis using p new [of p] by (intro that [of p]) auto
qed

text \<open>Blocks of two successive allocations do not overlap.\<close>

lemma alloc_disjoint:
  assumes "inv s" and "alloc n s = (r, s')" and "r \<noteq> NULL" and "alloc k s' = (r', s'')" and "r' \<noteq> NULL"
  shows "\<exists>p p'. r = of_nat (p * 4096) \<and> r' = of_nat (p' * 4096) \<and> {p..<p + unat n} \<inter> {p'..<p' + unat k} = {}"
proof -
  obtain p where p: "r = of_nat (p * 4096)" and new: "\<And>q. p \<le> q \<Longrightarrow> q < p + unat n \<Longrightarrow> used s' q"
    using alloc_block [OF assms(1-3)] by blast
  have "inv s'" using alloc_inv [OF assms(1,2)] by simp
  from alloc_block [OF this assms(4,5)] obtain p' where p': "r' = of_nat (p' * 4096)"
    and old: "\<And>q. p' \<le> q \<Longrightarrow> q < p' + unat k \<Longrightarrow> \<not> used s' q" by blast
  have "{p..<p + unat n} \<inter> {p'..<p' + unat k} = {}" using new old by fastforce
  with p p' show ?thesis by blast
qed

end

lemma pmm_alloc_laws:
  assumes inv: "pmm_inv s m" and alloc: "pmm_alloc s m n = (r, s', m')"
  shows "pmm_inv s' m'" and "q < unat (total_pages s) \<Longrightarrow> page_used s m q \<Longrightarrow> page_used s' m' q"
    and "r \<noteq> NULL \<Longrightarrow> \<exists>p. r = of_nat (p * 4096) \<and> 0 < p \<and> p + unat n \<le> unat (total_pages s) \<and>
        (\<forall>q. p \<le> q \<and> q < p + unat n \<longrightarrow> \<not> page_used s m q \<and> page_used s' m' q)"
proof -
  let ?scan = "pmm_scan s m n (last_scanned_bit s) 0 (unat (total_pages s)) 0 0"
  consider (none) "n = 0 \<or> ?scan = None" | (some) w where "n \<noteq> 0" "?scan = Some w" by (cases ?scan) auto
  then have "pmm_inv s' m' \<and> (q < unat (total_pages s) \<longrightarrow> page_used s m q \<longrightarrow> page_used s' m' q) \<and>
    (r \<noteq> NULL \<longrightarrow> (\<exists>p. r = of_nat (p * 4096) \<and> 0 < p \<and> p + unat n \<le> unat (total_pages s) \<and>
        (\<forall>q. p \<le> q \<and> q < p + unat n \<longrightarrow> \<not> page_used s m q \<and> page_used s' m' q)))"
  proof cases
    case none
    then show ?thesis using alloc inv pmm_alloc_None [of n s m] by auto
  next
    case some
    note f = pmm_alloc_Some [OF inv some alloc]
    have "r \<noteq> NULL \<Longrightarrow> 0 < unat w" using f(1) by (cases "unat w = 0") auto
    moreover have "\<not> page_used s m q \<and> page_used s' m' q" if "unat w \<le> q \<and> q < unat w + unat n" for q
      using f(2-4) that by (auto simp: free_run_def)
    ultimately show ?thesis using f(1,2,4,6) by blast
  qed
  then show "pmm_inv s' m'" and "q < unat (total_pages s) \<Longrightarrow> page_used s m q \<Longrightarrow> page_used s' m' q"
    and "r \<noteq> NULL \<Longrightarrow> \<exists>p. r = of_nat (p * 4096) \<and> 0 < p \<and> p + unat n \<le> unat (total_pages s) \<and>
        (\<forall>q. p \<le> q \<and> q < p + unat n \<longrightarrow> \<not> page_used s m q \<and> page_used s' m' q)" by auto
qed

interpretation pg: page_allocator
  "\<lambda>n (s, m). pmm_alloc s m n" "\<lambda>(s, m). pmm_inv s m" "\<lambda>(s, m). unat (total_pages s)" "\<lambda>(s, m). page_used s m"
proof (unfold_locales, goal_cases)
  case (1 sm n r sm')
  then show ?case using pmm_alloc_laws(1) pmm_alloc_params by (cases sm; cases sm') fastforce
next
  case (2 sm n r sm' q)
  then show ?case using pmm_alloc_laws(2) by (cases sm; cases sm') fastforce
next
  case (3 sm n r sm')
  then show ?case using pmm_alloc_laws(3) by (cases sm; cases sm') fastforce
qed

lemma pmm_alloc_page:
  assumes inv: "pmm_inv s m" and alloc: "pmm_alloc s m 1 = (np, s', m')" and nz: "np \<noteq> NULL"
  obtains w where "np = of_nat (w * 4096)" "w < unat (total_pages s)" "0 < w"
    "\<not> page_used s m w" "page_used s' m' w" "\<And>q. q < unat (total_pages s) \<Longrightarrow> page_used s m q \<Longrightarrow> page_used s' m' q"
    "pmm_inv s' m'" "total_pages s' = total_pages s" "hhdm_offset s' = hhdm_offset s"
proof -
  obtain w where "np = of_nat (w * 4096)" "0 < w" "w < unat (total_pages s)" "\<not> page_used s m w" "page_used s' m' w"
    using pg.alloc_page [of "(s, m)" np "(s', m')"] assms by auto
  then show thesis
    using pmm_alloc_laws(1,2) [OF inv alloc] pmm_alloc_params [OF alloc] by (intro that) auto
qed

lemma pmm_free_step_simps:
  assumes "pmm_free_step b i (s, m) = (s', m')"
  shows "bitmap s' = bitmap s" "total_pages s' = total_pages s"
    "last_scanned_bit s' = last_scanned_bit s" "bitmap_size_bytes s' = bitmap_size_bytes s"
    "pmm_initialized s' = pmm_initialized s"
    "free_pages s' + used_pages s' = free_pages s + used_pages s"
    "bitmap_test s' m' j \<longleftrightarrow> j \<noteq> b + of_nat i \<and> bitmap_test s m j"
  using assms bitmap_test_cong [of s' s m' j]
  by (auto simp: pmm_free_step_def Let_def split: if_splits)

lemma pmm_free_step_inv:
  assumes "pmm_inv s m" and "unat b + i < unat (total_pages s)"
    and step: "pmm_free_step b i (s, m) = (s', m')"
  shows "pmm_inv s' m'"
proof -
  let ?T = "unat (total_pages s)"
  let ?F = "\<lambda>s m. {q. q < ?T \<and> \<not> page_used s m q}"
  note simps = pmm_free_step_simps [OF step]
  let ?p = "unat b + i"
  have bi: "b + of_nat i = of_nat ?p" by simp
  have T: "?T \<le> 2 ^ 52" using assms(1) by (simp add: pmm_inv_def)
  have used: "page_used s' m' q \<longleftrightarrow> q \<noteq> ?p \<and> page_used s m q" if "q < ?T" for q
    unfolding page_used_def simps(7) bi
    using that assms(2) T of_nat_u64_inject [of q ?p] by simp
  have "free_pages s' = of_nat (card (?F s' m'))"
  proof (cases "page_used s m ?p")
    case True
    have "?F s' m' = insert ?p (?F s m)" using used assms(2) by auto
    moreover have "?p \<notin> ?F s m" using True by simp
    ultimately have "card (?F s' m') = Suc (card (?F s m))" by simp
    moreover have "free_pages s' = free_pages s + 1"
      using step True unfolding page_used_def bi [symmetric] by (auto simp: pmm_free_step_def Let_def)
    ultimately show ?thesis using assms(1) by (simp add: pmm_inv_def)
  next
    case False
    then have "?F s' m' = ?F s m" using used by auto
    moreover have "s' = s"
      using step False unfolding page_used_def bi [symmetric] by (auto simp: pmm_free_step_def Let_def)
    ultimately show ?thesis using assms(1) by (simp add: pmm_inv_def)
  qed
  then show ?thesis using assms(1) by (simp add: pmm_inv_def simps)
qed

lemma pmm_free_fold:
  assumes "pmm_inv s m" and "unat b + c \<le> unat (total_pages s)"
    and "fold (pmm_free_step b) [0..<c] (s, m) = (s', m')"
  shows "pmm_inv s' m' \<and> total_pages s' = total_pages s \<and> bitmap s' = bitmap s \<and>
    free_pages s' + used_pages s' = free_pages s + used_pages s \<and>
    (\<forall>i. bitmap_test s' m' i \<longleftrightarrow> (\<forall>j < c. i \<noteq> b + of_nat j) \<and> bitmap_test s m i)"
  using assms(2,3)
proof (induction c arbitrary: s' m')
  case 0
  then show ?case using assms(1) by simp
next
  case (Suc c)
  obtain s1 m1 where one: "fold (pmm_free_step b) [0..<c] (s, m) = (s1, m1)" by fastforce
  from Suc.IH [OF _ one] Suc.prems(1)
  have IH: "pmm_inv s1 m1" "total_pages s1 = total_pages s" "bitmap s1 = bitmap s"
    "free_pages s1 + used_pages s1 = free_pages s + used_pages s"
    "\<And>i. bitmap_test s1 m1 i \<longleftrightarrow> (\<forall>j < c. i \<noteq> b + of_nat j) \<and> bitmap_test s m i"
    by simp_all
  have step: "pmm_free_step b c (s1, m1) = (s', m')"
    using Suc.prems(2) one by simp
  have "pmm_inv s' m'"
    by (rule pmm_free_step_inv [OF IH(1) _ step]) (use Suc.prems(1) IH(2) in simp)
  then show ?case
    using pmm_free_step_simps [OF step] IH(2-5) by (auto simp: less_Suc_eq)
qed

lemma page_range_eq:
  assumes "unat b + c \<le> T" and "T \<le> 2 ^ 52" and "q < T"
  shows "(\<forall>j < c. (of_nat q :: u64) \<noteq> b + of_nat j) \<longleftrightarrow> \<not> (unat b \<le> q \<and> q < unat b + c)"
proof -
  have *: "(of_nat q :: u64) = b + of_nat j \<longleftrightarrow> q = unat b + j" if "j < c" for j
    using that assms of_nat_u64_inject [of q "unat b + j"] by simp
  show ?thesis
  proof
    assume all: "\<forall>j < c. (of_nat q :: u64) \<noteq> b + of_nat j"
    show "\<not> (unat b \<le> q \<and> q < unat b + c)"
    proof
      assume "unat b \<le> q \<and> q < unat b + c"
      then have "q - unat b < c" "q = unat b + (q - unat b)" by auto
      with all * show False by blast
    qed
  qed (use * in auto)
qed

section \<open>Initialisation\<close>

text \<open>The pages of the usable entries, and the shape the boot protocol gives the memory map.\<close>

definition entry_pages :: "memmap_entry \<Rightarrow> nat set" where
  "entry_pages e = {unat (me_base e) div 4096..<(unat (me_base e) + unat (me_length e)) div 4096}"

definition usable_pages_of :: "memmap_entry list \<Rightarrow> nat set" where
  "usable_pages_of es = \<Union> (entry_pages ` {e \<in> set es. me_type e = LIMINE_MEMMAP_USABLE})"

definition entry_ok :: "memmap_entry \<Rightarrow> bool" where
  "entry_ok e \<longleftrightarrow> unat (me_base e) + unat (me_length e) < 2 ^ 64 \<and>
     (me_type e = LIMINE_MEMMAP_USABLE \<longrightarrow> 4096 dvd unat (me_base e) \<and> 4096 dvd unat (me_length e))"

fun memmap_ok :: "memmap_entry list \<Rightarrow> bool" where
  "memmap_ok [] \<longleftrightarrow> True"
| "memmap_ok (e # es) \<longleftrightarrow> entry_ok e \<and> memmap_ok es \<and>
     (me_type e = LIMINE_MEMMAP_USABLE \<longrightarrow>
        (\<forall>e' \<in> set es. me_type e' = LIMINE_MEMMAP_USABLE \<longrightarrow> entry_pages e \<inter> entry_pages e' = {}))"

lemma page_loop_fold:
  assumes "unat limit \<le> 2 ^ 64 - 4096"
  shows "k \<le> (unat limit + 4095) div 4096 \<Longrightarrow> page_loop f limit (of_nat (k * 4096)) sm =
    Some (fold (\<lambda>i. f (of_nat (i * 4096))) [k..<(unat limit + 4095) div 4096] sm)"
proof (induction "(unat limit + 4095) div 4096 - k" arbitrary: k sm)
  case 0
  then have k: "k = (unat limit + 4095) div 4096" by simp
  then have "k * 4096 \<le> unat limit + 4095" "unat limit \<le> k * 4096" by linarith+
  with assms have "unat limit \<le> k * 4096" "k * 4096 < 2 ^ 64" by simp_all
  then have "\<not> of_nat (k * 4096) < limit" unfolding word_less_unat by (simp del: of_nat_mult)
  then have "page_loop f limit (of_nat (k * 4096)) sm = Some sm"
    by (simp only: page_loop.simps [of f limit "of_nat (k * 4096)"] if_False)
  then show ?case by (simp flip: k)
next
  case (Suc n)
  let ?n = "(unat limit + 4095) div 4096"
  have k: "k < ?n" "n = ?n - Suc k" using Suc.hyps(2) by simp_all
  then have "k * 4096 < unat limit" by linarith
  then have less: "of_nat (k * 4096) < limit" using assms unfolding word_less_unat by (simp del: of_nat_mult)
  have next_j: "of_nat (k * 4096) + PAGE_SIZE = (of_nat (Suc k * 4096) :: u64)"
    by (simp add: PAGE_SIZE_def)
  have "page_loop f limit (of_nat (k * 4096)) sm =
      page_loop f limit (of_nat (Suc k * 4096)) (f (of_nat (k * 4096)) sm)"
    using less by (simp only: page_loop.simps [of f limit "of_nat (k * 4096)"] if_True next_j)
  also have "\<dots> = Some (fold (\<lambda>i. f (of_nat (i * 4096))) [Suc k..<?n] (f (of_nat (k * 4096)) sm))"
    using Suc.hyps(1) [OF k(2)] k(1) by simp
  finally show ?case
    using k(1) by (simp only: upt_conv_Cons fold_simps comp_def)
qed

lemma page_loop_aligned:
  assumes "unat limit < 2 ^ 64 - 4096 \<or> 4096 dvd unat limit"
  shows "page_loop f limit 0 sm =
    Some (fold (\<lambda>i. f (of_nat (i * 4096))) [0..<(unat limit + 4095) div 4096] sm)"
proof -
  have "unat limit \<le> 2 ^ 64 - 4096"
  proof (cases "4096 dvd unat limit")
    case True
    then obtain k where "unat limit = 4096 * k" by auto
    moreover have "unat limit < 2 ^ 64" by (rule unat_u64_bound)
    ultimately show ?thesis by simp
  qed (use assms in simp)
  then show ?thesis using page_loop_fold [of limit 0 f sm] by simp
qed

lemma page_index:
  assumes "4096 dvd unat base" and "unat base div 4096 + n < 2 ^ 52"
  shows "(base + of_nat (n * 4096)) div PAGE_SIZE = of_nat (unat base div 4096 + n)"
proof -
  let ?b = "unat base div 4096"
  have "?b * 4096 = unat base" using assms(1) by simp
  then have "of_nat ((?b + n) * 4096) = base + of_nat (n * 4096)"
    by (simp only: distrib_right of_nat_add of_nat_unat ucast_id)
  moreover have "unat (of_nat ((?b + n) * 4096) :: u64) = (?b + n) * 4096"
    using assms(2) by (intro unat_of_nat_u64) simp
  ultimately have "unat (base + of_nat (n * 4096)) = (?b + n) * 4096" by (simp only:)
  then have "unat ((base + of_nat (n * 4096)) div PAGE_SIZE) = ?b + n"
    unfolding unat_div PAGE_SIZE_def by simp
  moreover have "unat (of_nat (?b + n) :: u64) = ?b + n"
    using assms(2) by (intro unat_of_nat_u64) simp
  ultimately show ?thesis by (simp only: word_unat_eq_iff)
qed

lemma init_clear_fold:
  assumes "4096 dvd unat base" and "unat base div 4096 + n \<le> 2 ^ 52"
    and "fold (\<lambda>i. init_clear_page base (of_nat (i * 4096))) [0..<n] (s, m) = (s', m')"
  shows "s' = s\<lparr>free_pages := free_pages s + of_nat n\<rparr> \<and>
    (\<forall>q < 2 ^ 52. page_used s' m' q \<longleftrightarrow>
      page_used s m q \<and> \<not> (unat base div 4096 \<le> q \<and> q < unat base div 4096 + n))"
  using assms(2,3)
proof (induction n arbitrary: s' m')
  case 0
  then show ?case by simp
next
  case (Suc n)
  let ?b = "unat base div 4096"
  obtain s1 m1 where one:
    "fold (\<lambda>i. init_clear_page base (of_nat (i * 4096))) [0..<n] (s, m) = (s1, m1)" by fastforce
  have IH: "s1 = s\<lparr>free_pages := free_pages s + of_nat n\<rparr>"
    "\<And>q. q < 2 ^ 52 \<Longrightarrow> page_used s1 m1 q \<longleftrightarrow> page_used s m q \<and> \<not> (?b \<le> q \<and> q < ?b + n)"
    using Suc.IH [OF _ one] Suc.prems(1) by auto
  have idx: "(base + of_nat (n * 4096)) div PAGE_SIZE = of_nat (?b + n)"
    using Suc.prems(1) by (intro page_index [OF assms(1)]) simp
  have s': "s' = s1\<lparr>free_pages := free_pages s1 + 1\<rparr>" and m': "m' = bitmap_clear s1 (of_nat (?b + n)) m1"
    using Suc.prems(2) one unfolding idx [symmetric] by (simp_all add: init_clear_page_def)
  have "page_used s' m' q \<longleftrightarrow> page_used s1 m1 q \<and> q \<noteq> ?b + n" if "q < 2 ^ 52" for q
    using that Suc.prems(1) of_nat_u64_inject [of q "?b + n"] bitmap_test_cong [of s' s1 m' "of_nat q"]
    unfolding page_used_def m' s' by (simp del: of_nat_add) blast
  with IH show ?case unfolding s' by (auto simp: algebra_simps)
qed

lemma init_set_fold:
  assumes "4096 dvd unat base" and "unat base div 4096 + n \<le> 2 ^ 52"
    and "fold (\<lambda>i. init_set_page base (of_nat (i * 4096))) [0..<n] (s, m) = (s', m')"
  shows "s' = s\<lparr>free_pages := free_pages s - of_nat n\<rparr> \<and>
    (\<forall>q < 2 ^ 52. page_used s' m' q \<longleftrightarrow>
      page_used s m q \<or> (unat base div 4096 \<le> q \<and> q < unat base div 4096 + n))"
  using assms(2,3)
proof (induction n arbitrary: s' m')
  case 0
  then show ?case by auto
next
  case (Suc n)
  let ?b = "unat base div 4096"
  obtain s1 m1 where one:
    "fold (\<lambda>i. init_set_page base (of_nat (i * 4096))) [0..<n] (s, m) = (s1, m1)" by fastforce
  have IH: "s1 = s\<lparr>free_pages := free_pages s - of_nat n\<rparr>"
    "\<And>q. q < 2 ^ 52 \<Longrightarrow> page_used s1 m1 q \<longleftrightarrow> page_used s m q \<or> (?b \<le> q \<and> q < ?b + n)"
    using Suc.IH [OF _ one] Suc.prems(1) by auto
  have idx: "(base + of_nat (n * 4096)) div PAGE_SIZE = of_nat (?b + n)"
    using Suc.prems(1) by (intro page_index [OF assms(1)]) simp
  have s': "s' = s1\<lparr>free_pages := free_pages s1 - 1\<rparr>" and m': "m' = bitmap_set s1 (of_nat (?b + n)) m1"
    using Suc.prems(2) one unfolding idx [symmetric] by (simp_all add: init_set_page_def)
  have "page_used s' m' q \<longleftrightarrow> page_used s1 m1 q \<or> q = ?b + n" if "q < 2 ^ 52" for q
    using that Suc.prems(1) of_nat_u64_inject [of q "?b + n"] bitmap_test_cong [of s' s1 m' "of_nat q"]
    unfolding page_used_def m' s' by (simp del: of_nat_add) blast
  with IH show ?case unfolding s' by (auto simp: algebra_simps)
qed

lemma entry_page_count:
  assumes "entry_ok e" and "me_type e = LIMINE_MEMMAP_USABLE"
  shows "(unat (me_length e) + 4095) div 4096 = unat (me_length e) div 4096"
    and "entry_pages e = {unat (me_base e) div 4096..<unat (me_base e) div 4096 + unat (me_length e) div 4096}"
    and "unat (me_base e) div 4096 + unat (me_length e) div 4096 < 2 ^ 52"
proof -
  obtain k l where kl: "unat (me_base e) = 4096 * k" "unat (me_length e) = 4096 * l"
    using assms by (auto simp: entry_ok_def elim!: dvdE)
  show "(unat (me_length e) + 4095) div 4096 = unat (me_length e) div 4096" by (simp add: kl)
  have "unat (me_base e) + unat (me_length e) = 4096 * (k + l)" by (simp add: kl)
  then show "entry_pages e = {unat (me_base e) div 4096..<unat (me_base e) div 4096 + unat (me_length e) div 4096}"
    by (simp add: entry_pages_def kl)
  show "unat (me_base e) div 4096 + unat (me_length e) div 4096 < 2 ^ 52"
    using assms(1) by (simp add: entry_ok_def kl)
qed

lemma usable_pages_of_Cons: "usable_pages_of (e # es) =
    (if me_type e = LIMINE_MEMMAP_USABLE then entry_pages e else {}) \<union> usable_pages_of es"
  by (auto simp: usable_pages_of_def)

lemma finite_usable_pages [simp]: "finite (usable_pages_of es)"
  by (simp add: usable_pages_of_def entry_pages_def)

lemma init_clear_entries_pages:
  "memmap_ok es \<Longrightarrow> \<exists>m'. init_clear_entries es (s, m) =
      Some (s\<lparr>free_pages := free_pages s + of_nat (card (usable_pages_of es))\<rparr>, m') \<and>
    (\<forall>q < 2 ^ 52. page_used s m' q \<longleftrightarrow> page_used s m q \<and> q \<notin> usable_pages_of es)"
proof (induction es arbitrary: s m)
  case Nil
  then show ?case by (simp add: usable_pages_of_def)
next
  case (Cons e es)
  show ?case
  proof (cases "me_type e = LIMINE_MEMMAP_USABLE")
    case False
    with Cons show ?thesis by (simp add: usable_pages_of_Cons)
  next
    case True
    let ?b = "unat (me_base e) div 4096" and ?n = "unat (me_length e) div 4096"
    have ok: "entry_ok e" "memmap_ok es" using Cons.prems by simp_all
    note count = entry_page_count [OF ok(1) True]
    have al: "4096 dvd unat (me_base e)" "4096 dvd unat (me_length e)"
      using ok(1) True by (simp_all add: entry_ok_def)
    obtain s1 m1 where one: "fold (\<lambda>i. init_clear_page (me_base e) (of_nat (i * 4096))) [0..<?n] (s, m) = (s1, m1)"
      by fastforce
    have loop: "page_loop (init_clear_page (me_base e)) (me_length e) 0 (s, m) = Some (s1, m1)"
      using page_loop_aligned [of "me_length e" "init_clear_page (me_base e)" "(s, m)"] al(2) one
      by (simp add: count(1))
    have step: "s1 = s\<lparr>free_pages := free_pages s + of_nat ?n\<rparr>"
      "\<And>q. q < 2 ^ 52 \<Longrightarrow> page_used s1 m1 q \<longleftrightarrow> page_used s m q \<and> q \<notin> entry_pages e"
      using init_clear_fold [OF al(1) _ one] count(2,3) by auto
    obtain m2 where two: "init_clear_entries es (s1, m1) =
        Some (s1\<lparr>free_pages := free_pages s1 + of_nat (card (usable_pages_of es))\<rparr>, m2)"
      "\<And>q. q < 2 ^ 52 \<Longrightarrow> page_used s1 m2 q \<longleftrightarrow> page_used s1 m1 q \<and> q \<notin> usable_pages_of es"
      using Cons.IH [OF ok(2), of s1 m1] by auto
    have "entry_pages e \<inter> usable_pages_of es = {}"
      using Cons.prems True by (auto simp: usable_pages_of_def)
    then have "card (usable_pages_of (e # es)) = ?n + card (usable_pages_of es)"
      using True by (simp add: usable_pages_of_Cons card_Un_disjoint count(2))
    moreover have "page_used s m2 q = page_used s1 m2 q" for q
      by (rule page_used_cong) (simp add: step(1))
    ultimately show ?thesis
      using True two step by (simp add: loop usable_pages_of_Cons add.assoc)
  qed
qed

lemma highest_addr_le:
  assumes "memmap_ok es" and "e \<in> set es"
  shows "unat (me_base e) + unat (me_length e) \<le> unat (highest_addr es)"
proof -
  let ?f = "\<lambda>e highest. let top = me_base e + me_length e in if highest < top then top else highest"
  have mono: "h \<le> fold ?f es h" for es and h :: u64
  proof (induction es arbitrary: h)
    case (Cons a es)
    have "h \<le> ?f a h" by (simp add: Let_def order_less_imp_le)
    with Cons.IH [of "?f a h"] show ?case by simp
  qed simp
  have "me_base e + me_length e \<le> fold ?f es h" if "e \<in> set es" for h
    using that
  proof (induction es arbitrary: h)
    case (Cons a es)
    show ?case
    proof (cases "e = a")
      case True
      have "me_base e + me_length e \<le> ?f a h" by (auto simp: True Let_def)
      with mono [of "?f a h" es] show ?thesis by simp
    qed (use Cons in simp)
  qed simp
  then have "unat (me_base e + me_length e) \<le> unat (highest_addr es)"
    using assms(2) by (simp add: highest_addr_def flip: word_le_unat)
  moreover have "entry_ok e"
    using assms by (induction es) auto
  ultimately show ?thesis by (simp add: entry_ok_def unat_add_u64)
qed

lemma memmap_ok_entry: "memmap_ok es \<Longrightarrow> e \<in> set es \<Longrightarrow> entry_ok e"
  by (induction es) auto

lemma usable_pages_below:
  "memmap_ok es \<Longrightarrow> usable_pages_of es \<subseteq> {..<unat (highest_addr es) div 4096}"
  by (force simp: usable_pages_of_def entry_pages_def dest: highest_addr_le
      intro: order_less_le_trans div_le_mono)

lemma page_used_filled:
  assumes "n \<le> 2 ^ 61" and "q < 8 * n"
  shows "page_used s (fold (\<lambda>i m. m(bitmap s + of_nat i := 255)) [0..<n] m) q"
proof -
  have "(of_nat q :: u64) div 8 = of_nat (q div 8)" using assms by (intro u64_div_8) simp
  moreover have "fold (\<lambda>i m. m(bitmap s + of_nat i := 255)) [0..<n] m (bitmap s + of_nat (q div 8)) = 255"
    using assms by (subst fold_store) auto
  moreover have "bit (255 :: u8) k" if "k < 8" for k
  proof -
    have "(255 :: u8) = mask 8" by (simp add: mask_eq_exp_minus_1)
    then show ?thesis by (simp only: bit_mask_iff) (use that in simp)
  qed
  ultimately show ?thesis
    unfolding page_used_def bitmap_test_bit using mod8_less by simp
qed

definition bitmap_bytes :: "memmap_entry list \<Rightarrow> u64" where
  "bitmap_bytes es = of_nat ((unat (highest_addr es) div 4096 + 7) div 8)"

definition bitmap_page_count :: "memmap_entry list \<Rightarrow> nat" where
  "bitmap_page_count es = (unat (bitmap_bytes es) + 4095) div 4096"

text \<open>The state \<open>pmm_init\<close> reaches before the bitmap is filled.\<close>

lemma pmm_init_unfold:
  assumes "bitmap_entry (bitmap_bytes es) es = Some e" and "me_base e + off \<noteq> NULL"
    and "s0 = pmm_boot\<lparr>hhdm_offset := off, total_pages := highest_addr es div PAGE_SIZE,
      bitmap_size_bytes := bitmap_bytes es, bitmap := me_base e + off\<rparr>"
  shows "pmm_init (Some es) (Some off) pmm_boot m =
    Option.bind (init_clear_entries es
      (s0, fold (\<lambda>i m. m(bitmap s0 + of_nat i := 255)) [0..<unat (bitmap_bytes es)] m)) (\<lambda>(s, m).
    Option.bind (page_loop (init_set_page (bitmap s - hhdm_offset s)) (bitmap_size_bytes s) 0 (s, m))
      (\<lambda>(s, m). let s = s\<lparr>used_pages := 0, pmm_initialized := True\<rparr>
        in Some (s\<lparr>usable_pages := free_pages s\<rparr>, m)))"
proof -
  let ?T = "highest_addr es div PAGE_SIZE"
  have "unat (highest_addr es) div 4096 < 2 ^ 52"
    by (rule less_mult_imp_div_less) simp
  then have "unat ?T < 2 ^ 52" by (simp add: unat_div PAGE_SIZE_def)
  then have mul: "unat (?T div 8 * 8) = unat ?T div 8 * 8"
    by (subst unat_mult_u64) (simp_all add: unat_div)
  have bb: "bitmap_bytes es = (if ?T div 8 * 8 < ?T then ?T div 8 + 1 else ?T div 8)"
  proof -
    have T: "unat (highest_addr es) div 4096 = unat ?T" by (simp add: unat_div PAGE_SIZE_def)
    have "?T div 8 * 8 < ?T \<longleftrightarrow> unat ?T div 8 * 8 < unat ?T"
      unfolding word_less_unat mul ..
    moreover have "(unat ?T + 7) div 8 = (if unat ?T div 8 * 8 < unat ?T then unat ?T div 8 + 1 else unat ?T div 8)"
      by (simp add: not_less) presburger
    moreover have "of_nat (unat ?T div 8) = ?T div 8"
      by (rule of_nat_div_8)
    ultimately show ?thesis unfolding bitmap_bytes_def T by simp
  qed
  show ?thesis
    using assms(1,2) unfolding pmm_init_def assms(3) bb
    by (cases "?T div 8 * 8 < ?T") (simp_all add: Let_def phys_to_virt_def pmm_boot_def)
qed

lemma bitmap_entry_Some:
  assumes "bitmap_entry n es = Some e"
  shows "e \<in> set es" "me_type e = LIMINE_MEMMAP_USABLE" "unat n \<le> unat (me_length e)"
  using assms by (auto simp: bitmap_entry_def find_Some_iff word_le_unat)

text \<open>The size of the bitmap: its bytes cover all pages, and its pages fit into its entry.\<close>

lemma bitmap_bytes_bounds:
  shows "unat (highest_addr es) div 4096 < 2 ^ 52"
    and "unat (highest_addr es) div 4096 \<le> 8 * unat (bitmap_bytes es)"
    and "unat (bitmap_bytes es) \<le> 2 ^ 61" and "unat (bitmap_bytes es) < 2 ^ 64 - 4096"
proof -
  let ?T = "unat (highest_addr es) div 4096" and ?B = "unat (bitmap_bytes es)"
  show T: "?T < 2 ^ 52" by (rule less_mult_imp_div_less) simp
  have B: "?B = (?T + 7) div 8" unfolding bitmap_bytes_def by (rule unat_of_nat_u64) (use T in simp)
  have "?B \<le> ?T + 7" "?T \<le> 8 * ?B" unfolding B by linarith+
  with T show "?T \<le> 8 * ?B" "?B \<le> 2 ^ 61" "?B < 2 ^ 64 - 4096" by simp_all
qed

lemma bitmap_pages_usable:
  assumes "memmap_ok es" and "bitmap_entry (bitmap_bytes es) es = Some e"
  shows "{unat (me_base e) div 4096..<unat (me_base e) div 4096 + bitmap_page_count es} \<subseteq> usable_pages_of es"
    and "unat (me_base e) div 4096 + bitmap_page_count es \<le> 2 ^ 52"
proof -
  note entry = bitmap_entry_Some [OF assms(2)]
  note pages = entry_page_count [OF memmap_ok_entry [OF assms(1) entry(1)] entry(2)]
  have "bitmap_page_count es \<le> unat (me_length e) div 4096"
    unfolding bitmap_page_count_def
    using entry(3) pages(1) div_le_mono [of "unat (bitmap_bytes es) + 4095" "unat (me_length e) + 4095" 4096]
    by simp
  with pages(2,3) entry(1,2) show
    "{unat (me_base e) div 4096..<unat (me_base e) div 4096 + bitmap_page_count es} \<subseteq> usable_pages_of es"
    "unat (me_base e) div 4096 + bitmap_page_count es \<le> 2 ^ 52"
    unfolding usable_pages_of_def by fastforce+
qed

lemma card_free_init:
  assumes "U \<subseteq> {..<T}" and "{b..<b + n} \<subseteq> U"
    and "\<And>q. q < T \<Longrightarrow> \<not> used q \<longleftrightarrow> q \<in> U \<and> \<not> (b \<le> q \<and> q < b + n)"
  shows "card {q. q < T \<and> \<not> used q} = card U - n" and "n \<le> card U"
proof -
  have fin: "finite U" using assms(1) finite_subset by blast
  have "{q. q < T \<and> \<not> used q} = U - {b..<b + n}" using assms(1,3) by fastforce
  then show "card {q. q < T \<and> \<not> used q} = card U - n"
    using assms(2) by (simp add: card_Diff_subset)
  show "n \<le> card U" using card_mono [OF fin assms(2)] by simp
qed

definition pmm_init_state :: "memmap_entry list \<Rightarrow> memmap_entry \<Rightarrow> u64 \<Rightarrow> pmm" where
  "pmm_init_state es e off = pmm_boot\<lparr>hhdm_offset := off, total_pages := highest_addr es div PAGE_SIZE,
     bitmap_size_bytes := bitmap_bytes es, bitmap := me_base e + off,
     free_pages := of_nat (card (usable_pages_of es)) - of_nat (bitmap_page_count es),
     usable_pages := of_nat (card (usable_pages_of es)) - of_nat (bitmap_page_count es),
     pmm_initialized := True\<rparr>"

lemma pmm_init_run:
  assumes ok: "memmap_ok es" and e: "bitmap_entry (bitmap_bytes es) es = Some e"
    and "me_base e + off \<noteq> NULL"
  shows "\<exists>m'. pmm_init (Some es) (Some off) pmm_boot m = Some (pmm_init_state es e off, m') \<and>
    (\<forall>q < unat (highest_addr es) div 4096. \<not> page_used (pmm_init_state es e off) m' q \<longleftrightarrow>
      q \<in> usable_pages_of es \<and>
      \<not> (unat (me_base e) div 4096 \<le> q \<and> q < unat (me_base e) div 4096 + bitmap_page_count es))"
proof -
  let ?T = "unat (highest_addr es) div 4096" and ?B = "unat (bitmap_bytes es)"
  let ?b = "unat (me_base e) div 4096" and ?n = "bitmap_page_count es"
  let ?U = "usable_pages_of es"
  define s0 where "s0 = pmm_boot\<lparr>hhdm_offset := off, total_pages := highest_addr es div PAGE_SIZE,
      bitmap_size_bytes := bitmap_bytes es, bitmap := me_base e + off\<rparr>"
  define m0 where "m0 = fold (\<lambda>i m. m(bitmap s0 + of_nat i := 255)) [0..<?B] m"
  note entry = bitmap_entry_Some [OF e]
  have al: "4096 dvd unat (me_base e)"
    using memmap_ok_entry [OF ok entry(1)] entry(2) by (simp add: entry_ok_def)
  note T = bitmap_bytes_bounds [of es]
  obtain m1 where one: "init_clear_entries es (s0, m0) =
      Some (s0\<lparr>free_pages := free_pages s0 + of_nat (card ?U)\<rparr>, m1)"
    "\<And>q. q < 2 ^ 52 \<Longrightarrow> page_used s0 m1 q \<longleftrightarrow> page_used s0 m0 q \<and> q \<notin> ?U"
    using init_clear_entries_pages [OF ok, of s0 m0] by auto
  define s1 where "s1 = s0\<lparr>free_pages := free_pages s0 + of_nat (card ?U)\<rparr>"
  obtain s2 m2 where two: "fold (\<lambda>i. init_set_page (me_base e) (of_nat (i * 4096))) [0..<?n] (s1, m1) = (s2, m2)"
    by fastforce
  have loop: "page_loop (init_set_page (me_base e)) (bitmap_bytes es) 0 (s1, m1) = Some (s2, m2)"
    using page_loop_aligned [of "bitmap_bytes es" "init_set_page (me_base e)" "(s1, m1)"] two T(4)
    by (simp add: bitmap_page_count_def)
  have s2: "s2 = s1\<lparr>free_pages := free_pages s1 - of_nat ?n\<rparr>"
    "\<And>q. q < 2 ^ 52 \<Longrightarrow> page_used s2 m2 q \<longleftrightarrow> page_used s1 m1 q \<or> (?b \<le> q \<and> q < ?b + ?n)"
    using init_set_fold [OF al bitmap_pages_usable(2) [OF ok e] two] by auto
  have "bitmap s1 - hhdm_offset s1 = me_base e" "bitmap_size_bytes s1 = bitmap_bytes es"
    by (simp_all add: s1_def s0_def)
  then have res: "pmm_init (Some es) (Some off) pmm_boot m = Some (pmm_init_state es e off, m2)"
    unfolding pmm_init_unfold [OF e assms(3) s0_def] m0_def [symmetric]
    using one(1) loop by (simp add: pmm_init_state_def s2(1) flip: s1_def)
      (simp add: s1_def s0_def pmm_boot_def)
  have "\<not> page_used (pmm_init_state es e off) m2 q \<longleftrightarrow> q \<in> ?U \<and> \<not> (?b \<le> q \<and> q < ?b + ?n)" if "q < ?T" for q
  proof -
    have "page_used (pmm_init_state es e off) m2 q = page_used s2 m2 q" "page_used s1 m1 q = page_used s0 m1 q"
      by (rule page_used_cong, simp add: pmm_init_state_def s2(1) s1_def s0_def)+
    moreover have "page_used s0 m0 q"
      unfolding m0_def by (rule page_used_filled) (use that T in auto)
    ultimately show ?thesis using that T(1) s2(2) [of q] one(2) [of q] by auto
  qed
  with res show ?thesis by blast
qed

lemma pmm_init_inv:
  assumes ok: "memmap_ok es" and e: "bitmap_entry (bitmap_bytes es) es = Some e"
    and used: "\<And>q. q < unat (highest_addr es) div 4096 \<Longrightarrow>
      \<not> page_used (pmm_init_state es e off) m' q \<longleftrightarrow> q \<in> usable_pages_of es \<and>
      \<not> (unat (me_base e) div 4096 \<le> q \<and> q < unat (me_base e) div 4096 + bitmap_page_count es)"
  shows "pmm_inv (pmm_init_state es e off) m'"
proof -
  let ?T = "unat (highest_addr es) div 4096" and ?s = "pmm_init_state es e off"
  have T: "unat (total_pages ?s) = ?T"
    by (simp add: pmm_init_state_def unat_div PAGE_SIZE_def)
  note card = card_free_init [OF usable_pages_below [OF ok] bitmap_pages_usable(1) [OF ok e] used]
  then have "free_pages ?s = of_nat (card {q. q < ?T \<and> \<not> page_used ?s m' q})"
    by (simp add: pmm_init_state_def of_nat_diff)
  with bitmap_bytes_bounds [of es] show ?thesis
    unfolding pmm_inv_def T by (simp add: pmm_init_state_def pmm_boot_def word_gt_0)
qed

section \<open>An example state\<close>

text \<open>Sixteen pages, page 0 in use, the bitmap in the two bytes at 4096.\<close>

definition pmm_example :: pmm where
  "pmm_example = pmm_boot\<lparr>bitmap := 4096, bitmap_size_bytes := 2, free_pages := 15,
     total_pages := 16, pmm_initialized := True, last_scanned_bit := 1\<rparr>"

definition pmm_example_memory :: memory where
  "pmm_example_memory = (\<lambda>a. if a = 4096 then 1 else 0)"

lemma page_used_example: "p < 16 \<Longrightarrow> page_used pmm_example pmm_example_memory p \<longleftrightarrow> p = 0"
proof -
  assume "p < 16"
  then have "p \<in> {0, 1, 2, 3, 4, 5, 6, 7, 8, 9, 10, 11, 12, 13, 14, 15}"
    unfolding insert_iff empty_iff by presburger
  then show ?thesis
    unfolding page_used_def bitmap_test_def pmm_example_def pmm_boot_def pmm_example_memory_def
    by (elim insertE emptyE) simp_all
qed

lemma pmm_example_inv: "pmm_inv pmm_example pmm_example_memory"
proof -
  have "{p. p < 16 \<and> \<not> page_used pmm_example pmm_example_memory p} = {1..<16}"
    using page_used_example by (auto simp: Suc_le_eq)
  then show ?thesis
    by (simp add: pmm_inv_def) (simp add: pmm_example_def pmm_boot_def)
qed

section \<open>Properties\<close>

text \<open>C1: \<open>pmm_alloc\<close> either fails and changes nothing, or hands out a block of \<open>count\<close>
  contiguous pages, all inside the managed range and all free before; exactly these pages are
  marked used, no byte outside the bitmap changes, \<open>free_pages + used_pages\<close> is conserved, and
  the invariant holds again, with \<open>free_pages\<close> the number of clear bits.\<close>

theorem pmm_alloc_correct:
  assumes "pmm_inv s m" and "pmm_alloc s m count = (r, s', m')"
  shows "pmm_inv s' m' \<and> free_pages s' + used_pages s' = free_pages s + used_pages s \<and>
    (r = NULL \<and> s' = s \<and> m' = m \<or>
     (\<exists>p. r = of_nat (p * 4096) \<and> count \<noteq> 0 \<and> p + unat count \<le> unat (total_pages s) \<and>
       (\<forall>q. p \<le> q \<and> q < p + unat count \<longrightarrow> \<not> page_used s m q) \<and>
       (\<forall>q < unat (total_pages s). page_used s' m' q \<longleftrightarrow>
         (p \<le> q \<and> q < p + unat count) \<or> page_used s m q) \<and>
       (\<forall>a. a \<notin> region (bitmap s) (unat (bitmap_size_bytes s)) \<longrightarrow> m' a = m a)))"
proof (cases "count \<noteq> 0 \<and>
    (\<exists>w. pmm_scan s m count (last_scanned_bit s) 0 (unat (total_pages s)) 0 0 = Some w)")
  case True
  then obtain w where c: "count \<noteq> 0" and
    scan: "pmm_scan s m count (last_scanned_bit s) 0 (unat (total_pages s)) 0 0 = Some w" by auto
  note found = pmm_alloc_Some [OF assms(1) c scan assms(2)]
  from found(3) have "\<forall>q. unat w \<le> q \<and> q < unat w + unat count \<longrightarrow> \<not> page_used s m q"
    by (simp add: free_run_def)
  with c found(1,2,4,5) have "\<exists>p. r = of_nat (p * 4096) \<and> count \<noteq> 0 \<and>
       p + unat count \<le> unat (total_pages s) \<and>
       (\<forall>q. p \<le> q \<and> q < p + unat count \<longrightarrow> \<not> page_used s m q) \<and>
       (\<forall>q < unat (total_pages s). page_used s' m' q \<longleftrightarrow>
         (p \<le> q \<and> q < p + unat count) \<or> page_used s m q) \<and>
       (\<forall>a. a \<notin> region (bitmap s) (unat (bitmap_size_bytes s)) \<longrightarrow> m' a = m a)"
    by (intro exI [of _ "unat w"]) simp
  moreover have "free_pages s' + used_pages s' = free_pages s + used_pages s"
    by (simp add: found(7,8))
  ultimately show ?thesis using found(6) by blast
next
  case False
  then have "pmm_alloc s m count = (NULL, s, m)"
    by (intro pmm_alloc_None) auto
  with assms show ?thesis by simp
qed

theorem pmm_alloc_correct_witness:
  "case pmm_alloc pmm_example pmm_example_memory 3 of (r, s', m') \<Rightarrow>
     pmm_inv s' m' \<and> free_pages s' + used_pages s' = 15"
proof -
  have "free_pages pmm_example + used_pages pmm_example = 15"
    by (simp add: pmm_example_def pmm_boot_def)
  then show ?thesis
    using pmm_alloc_correct [OF pmm_example_inv, of 3]
    by (simp split: prod.split)
qed

text \<open>C33: The search of \<open>pmm_alloc\<close> is complete up to the position it starts from: when some run
  of \<open>count\<close> free pages lies entirely at or above \<open>last_scanned_bit\<close>, or entirely below it, the
  allocation succeeds.\<close>

theorem pmm_alloc_complete:
  assumes "pmm_inv s m" and "count \<noteq> 0" and "p + unat count \<le> unat (total_pages s)"
    and "\<And>q. p \<le> q \<Longrightarrow> q < p + unat count \<Longrightarrow> \<not> page_used s m q"
    and "unat (last_scanned_bit s) \<le> p \<or> p + unat count \<le> unat (last_scanned_bit s)"
  shows "\<exists>q s' m'. pmm_alloc s m count = (of_nat (q * 4096), s', m') \<and>
    q + unat count \<le> unat (total_pages s) \<and> page_used s' m' q \<and> \<not> page_used s m q"
proof -
  let ?scan = "pmm_scan s m count (last_scanned_bit s) 0 (unat (total_pages s)) 0 0"
  have T: "unat (total_pages s) \<le> 2 ^ 52" using assms(1) by (simp add: pmm_inv_def)
  have c: "0 < unat count" using assms(2) by (simp add: unat_gt_0)
  have last: "last_scanned_bit s < total_pages s"
    using assms(1,3) c by (cases "total_pages s = 0") (auto simp: pmm_inv_def)
  have "free_run (page_used s m) p (unat count)" using assms(4) by (simp add: free_run_def)
  then obtain w where scan: "?scan = Some w"
    using pmm_scan_None [OF T last assms(2), of m p] assms(3,5) by (cases ?scan) auto
  obtain r s' m' where alloc: "pmm_alloc s m count = (r, s', m')" by (metis prod_cases3)
  note found = pmm_alloc_Some [OF assms(1,2) scan alloc]
  have "page_used s' m' (unat w)" "\<not> page_used s m (unat w)"
    using found(2-4) c by (auto simp: free_run_def)
  with alloc found(1,2) show ?thesis by blast
qed

theorem pmm_alloc_complete_witness:
  "\<exists>q s' m'. pmm_alloc pmm_example pmm_example_memory 15 = (of_nat (q * 4096), s', m') \<and>
    q + unat (15 :: u64) \<le> unat (total_pages pmm_example) \<and> page_used s' m' q \<and>
    \<not> page_used pmm_example pmm_example_memory q"
proof (rule pmm_alloc_complete [OF pmm_example_inv, where p = 1])
  show "\<not> page_used pmm_example pmm_example_memory q" if "1 \<le> q" "q < 1 + unat (15 :: u64)" for q
    using that page_used_example [of q] by simp
qed (simp_all add: pmm_example_def pmm_boot_def)

text \<open>C34: Freeing a block of pages inside the managed range marks exactly these pages free, keeps
  every other page, keeps \<open>free_pages + used_pages\<close> and the invariant; pages already free are
  skipped, so a double free changes no counter.\<close>

theorem pmm_free_correct:
  assumes "pmm_inv s m" and "p \<noteq> 0" and "p + unat count \<le> unat (total_pages s)"
    and "pmm_free s m (of_nat (p * 4096)) count = (s', m')"
  shows "pmm_inv s' m' \<and> free_pages s' + used_pages s' = free_pages s + used_pages s \<and>
    (\<forall>q < unat (total_pages s). page_used s' m' q \<longleftrightarrow>
      page_used s m q \<and> \<not> (p \<le> q \<and> q < p + unat count))"
proof (cases "count = 0")
  case True
  with assms show ?thesis by (simp add: pmm_free_def)
next
  case False
  let ?T = "unat (total_pages s)" and ?ptr = "of_nat (p * 4096) :: u64"
  have T: "?T \<le> 2 ^ 52" using assms(1) by (simp add: pmm_inv_def)
  have c: "0 < unat count" using False by (simp add: unat_gt_0)
  have ptr: "unat ?ptr = p * 4096" using T assms(3) c by (intro unat_of_nat_u64) simp
  have b: "unat (?ptr div PAGE_SIZE) = p" unfolding unat_div ptr PAGE_SIZE_def by simp
  have "?ptr \<noteq> NULL" using ptr assms(2) by (metis mult_is_0 unat_0 zero_neq_numeral)
  then have "fold (pmm_free_step (?ptr div PAGE_SIZE)) [0..<unat count] (s, m) = (s', m')"
    using assms(1,4) False by (simp add: pmm_free_def pmm_inv_def)
  note res = pmm_free_fold [OF assms(1) _ this]
  have "page_used s' m' q \<longleftrightarrow> page_used s m q \<and> \<not> (p \<le> q \<and> q < p + unat count)" if "q < ?T" for q
    unfolding page_used_def
    using res page_range_eq [of "?ptr div PAGE_SIZE" "unat count" ?T q] T that assms(3) b by auto
  with res assms(3) b show ?thesis by simp
qed

theorem pmm_free_correct_witness:
  "case pmm_free pmm_example pmm_example_memory (of_nat (2 * 4096)) 3 of (s', m') \<Rightarrow>
     pmm_inv s' m' \<and> free_pages s' + used_pages s' = 15"
proof -
  have "2 + unat (3 :: u64) \<le> unat (total_pages pmm_example)"
    "free_pages pmm_example + used_pages pmm_example = 15"
    by (simp_all add: pmm_example_def pmm_boot_def)
  then show ?thesis
    using pmm_free_correct [OF pmm_example_inv, of 2 3]
    by (simp split: prod.split)
qed

text \<open>C35: From the zeroed boot state and a memory map as the boot protocol describes it (no entry
  wraps around, usable entries are page aligned and disjoint), with room for the bitmap,
  \<open>pmm_init\<close> ends and establishes the allocator's invariant; the free pages are those of the
  usable entries except the pages of the bitmap, and no page counts as used.\<close>

theorem pmm_init_correct:
  assumes "memmap_ok es" and "bitmap_entry (bitmap_bytes es) es = Some e" and "me_base e + off \<noteq> NULL"
  shows "\<exists>s' m'. pmm_init (Some es) (Some off) pmm_boot m = Some (s', m') \<and> pmm_inv s' m' \<and>
    used_pages s' = 0 \<and> usable_pages s' = free_pages s' \<and>
    unat (total_pages s') = unat (highest_addr es) div 4096 \<and>
    (\<forall>q < unat (total_pages s'). \<not> page_used s' m' q \<longleftrightarrow> q \<in> usable_pages_of es \<and>
      \<not> (unat (me_base e) div 4096 \<le> q \<and> q < unat (me_base e) div 4096 + bitmap_page_count es))"
proof -
  let ?s = "pmm_init_state es e off"
  obtain m' where m': "pmm_init (Some es) (Some off) pmm_boot m = Some (?s, m')"
    "\<And>q. q < unat (highest_addr es) div 4096 \<Longrightarrow> \<not> page_used ?s m' q \<longleftrightarrow> q \<in> usable_pages_of es \<and>
      \<not> (unat (me_base e) div 4096 \<le> q \<and> q < unat (me_base e) div 4096 + bitmap_page_count es)"
    using pmm_init_run [OF assms, of m] by blast
  have T: "unat (total_pages ?s) = unat (highest_addr es) div 4096"
    by (simp add: pmm_init_state_def unat_div PAGE_SIZE_def)
  have "used_pages ?s = 0 \<and> usable_pages ?s = free_pages ?s"
    by (simp add: pmm_init_state_def pmm_boot_def)
  with m' T pmm_init_inv [OF assms(1,2) m'(2)] show ?thesis
    by (intro exI [of _ ?s] exI [of _ m']) simp
qed

definition memmap_example :: "memmap_entry list" where
  "memmap_example = [\<lparr>me_base = 0, me_length = 4096, me_type = 1\<rparr>,
     \<lparr>me_base = 4096, me_length = 61440, me_type = LIMINE_MEMMAP_USABLE\<rparr>]"

theorem pmm_init_correct_witness:
  "\<exists>s' m'. pmm_init (Some memmap_example) (Some 65536) pmm_boot (\<lambda>_. 0) = Some (s', m') \<and> pmm_inv s' m'"
proof -
  have "bitmap_bytes memmap_example = 2"
    by (simp add: bitmap_bytes_def highest_addr_def memmap_example_def)
  then have "bitmap_entry (bitmap_bytes memmap_example) memmap_example =
      Some \<lparr>me_base = 4096, me_length = 61440, me_type = LIMINE_MEMMAP_USABLE\<rparr>"
    by (simp add: bitmap_entry_def memmap_example_def LIMINE_MEMMAP_USABLE_def)
  moreover have "memmap_ok memmap_example"
    by (simp add: memmap_example_def entry_ok_def LIMINE_MEMMAP_USABLE_def)
  ultimately show ?thesis
    using pmm_init_correct [of memmap_example _ 65536 "\<lambda>_. 0"] by fastforce
qed

end
