(* ===== verification/RingBuffer.thy ===== *)
theory RingBuffer
  imports Pmm
begin

text \<open>
  \<open>krnl/util/ring_buffer.c\<close>: a byte queue in a circular buffer of whole pages taken from the
  page allocator; writing into a full buffer overwrites the oldest bytes.  A
  \<open>ring_buffer_t *\<close> argument is an option, \<open>None\<close> for \<open>NULL\<close>; the bytes are in memory.

  The locale \<open>bounded_fifo\<close> states the contract of a bounded queue that drops its oldest
  elements; it is interpreted on the put and get steps of the two loops, and the theorems on
  \<open>ring_buffer_write\<close> and \<open>ring_buffer_read\<close> follow from its lemmas.
\<close>

section \<open>Operations\<close>

record ring_buffer =
  rb_buffer :: u64
  rb_capacity :: u64
  rb_head :: u64
  rb_tail :: u64
  rb_count :: u64

definition ring_buffer_init ::
  "pmm \<Rightarrow> memory \<Rightarrow> ring_buffer option \<Rightarrow> u64 \<Rightarrow> int \<times> ring_buffer option \<times> pmm \<times> memory" where
  "ring_buffer_init p m rb sz =
     (if sz = 0 then (-1, rb, p, m)
      else case rb of
        None \<Rightarrow> (-1, rb, p, m)
      | Some r \<Rightarrow>
          let alloc_size = (sz + 0xFFF) AND NOT 0xFFF;
              (pages, p, m) = pmm_alloc p m (alloc_size div 0x1000);
              r = r\<lparr>rb_buffer := phys_to_virt p pages\<rparr>
          in if rb_buffer r = NULL then (-2, Some r, p, m)
             else (0, Some (r\<lparr>rb_capacity := alloc_size, rb_head := 0, rb_tail := 0, rb_count := 0\<rparr>), p, m))"

text \<open>One round of the writing loop, and one of the reading loop.\<close>

definition rb_put :: "ring_buffer \<times> memory \<Rightarrow> u8 \<Rightarrow> ring_buffer \<times> memory" where
  "rb_put = (\<lambda>(r, m) c.
     let m = m(rb_buffer r + rb_head r := c);
         r = r\<lparr>rb_head := (rb_head r + 1) mod rb_capacity r\<rparr>
     in (if rb_count r < rb_capacity r then r\<lparr>rb_count := rb_count r + 1\<rparr>
         else r\<lparr>rb_tail := (rb_tail r + 1) mod rb_capacity r\<rparr>, m))"

definition rb_get :: "ring_buffer \<times> memory \<Rightarrow> u8 \<times> ring_buffer \<times> memory" where
  "rb_get = (\<lambda>(r, m).
     (m (rb_buffer r + rb_tail r),
      r\<lparr>rb_tail := (rb_tail r + 1) mod rb_capacity r, rb_count := rb_count r - 1\<rparr>, m))"

definition ring_buffer_write ::
  "memory \<Rightarrow> ring_buffer option \<Rightarrow> u64 \<Rightarrow> u64 \<Rightarrow> u64 \<times> ring_buffer option \<times> memory" where
  "ring_buffer_write m rb data len =
     (case rb of
        None \<Rightarrow> (0, rb, m)
      | Some r \<Rightarrow>
          if data = NULL \<or> len = 0 then (0, rb, m)
          else
            let (data, len) = (if rb_capacity r < len then (data + (len - rb_capacity r), rb_capacity r)
                               else (data, len));
                (r, m) = fold (\<lambda>i (r, m). rb_put (r, m) (m (data + of_nat i))) [0..<unat len] (r, m)
            in (len, Some r, m))"

fun rb_read_loop :: "u64 \<Rightarrow> nat \<Rightarrow> nat \<Rightarrow> ring_buffer \<times> memory \<Rightarrow> nat \<times> ring_buffer \<times> memory" where
  "rb_read_loop data i 0 rm = (i, rm)"
| "rb_read_loop data i (Suc k) rm =
     (if 0 < rb_count (fst rm)
      then let (c, r, m) = rb_get rm
           in rb_read_loop data (Suc i) k (r, m(data + of_nat i := c))
      else (i, rm))"

definition ring_buffer_read ::
  "memory \<Rightarrow> ring_buffer option \<Rightarrow> u64 \<Rightarrow> u64 \<Rightarrow> u64 \<times> ring_buffer option \<times> memory" where
  "ring_buffer_read m rb data len =
     (case rb of
        None \<Rightarrow> (0, rb, m)
      | Some r \<Rightarrow>
          if data = NULL \<or> len = 0 \<or> rb_count r = 0 then (0, rb, m)
          else let (read_count, r, m) = rb_read_loop data 0 (unat len) (r, m)
               in (of_nat read_count, Some r, m))"

definition ring_buffer_available :: "ring_buffer option \<Rightarrow> u64" where
  "ring_buffer_available rb = (case rb of None \<Rightarrow> 0 | Some r \<Rightarrow> rb_count r)"

definition ring_buffer_free_space :: "ring_buffer option \<Rightarrow> u64" where
  "ring_buffer_free_space rb = (case rb of None \<Rightarrow> 0 | Some r \<Rightarrow> rb_capacity r - rb_count r)"

definition ring_buffer_clear :: "ring_buffer option \<Rightarrow> ring_buffer option" where
  "ring_buffer_clear rb = map_option (\<lambda>r. r\<lparr>rb_head := 0, rb_tail := 0, rb_count := 0\<rparr>) rb"

section \<open>Bounded queues that overwrite\<close>

text \<open>The last \<open>n\<close> elements of a list.\<close>

definition suffix_of :: "nat \<Rightarrow> 'a list \<Rightarrow> 'a list" where
  "suffix_of n xs = drop (length xs - n) xs"

lemma length_suffix_of [simp]: "length (suffix_of n xs) = min n (length xs)"
  by (simp add: suffix_of_def)

lemma suffix_of_all: "length xs \<le> n \<Longrightarrow> suffix_of n xs = xs"
  by (simp add: suffix_of_def)

lemma suffix_of_append: "suffix_of n (suffix_of n xs @ ys) = suffix_of n (xs @ ys)"
  by (cases "length xs \<le> n") (simp_all add: suffix_of_def drop_append add.commute)

locale bounded_fifo =
  fixes put :: "'q \<Rightarrow> 'a \<Rightarrow> 'q"
    and get :: "'q \<Rightarrow> 'a \<times> 'q"
    and contents :: "'q \<Rightarrow> 'a list"
    and cap :: "'q \<Rightarrow> nat"
    and ok :: "'q \<Rightarrow> bool"
  assumes put_ok: "ok q \<Longrightarrow> ok (put q x)"
    and put_cap: "ok q \<Longrightarrow> cap (put q x) = cap q"
    and put_contents: "ok q \<Longrightarrow> contents (put q x) = suffix_of (cap q) (contents q @ [x])"
    and get_ok: "ok q \<Longrightarrow> contents q \<noteq> [] \<Longrightarrow> ok (snd (get q))"
    and get_fst: "ok q \<Longrightarrow> contents q \<noteq> [] \<Longrightarrow> fst (get q) = hd (contents q)"
    and get_snd: "ok q \<Longrightarrow> contents q \<noteq> [] \<Longrightarrow> contents (snd (get q)) = tl (contents q)"
    and get_cap: "ok q \<Longrightarrow> contents q \<noteq> [] \<Longrightarrow> cap (snd (get q)) = cap q"
    and contents_le: "ok q \<Longrightarrow> length (contents q) \<le> cap q"
begin

lemma put_all:
  assumes "ok q"
  shows "ok (foldl put q xs) \<and> cap (foldl put q xs) = cap q \<and>
    contents (foldl put q xs) = suffix_of (cap q) (contents q @ xs)"
proof (induction xs rule: rev_induct)
  case Nil
  with assms show ?case by (simp add: suffix_of_all contents_le)
next
  case (snoc x xs)
  then show ?case
    using put_ok [of "foldl put q xs" x] put_cap [of "foldl put q xs" x]
      put_contents [of "foldl put q xs" x] suffix_of_append [of "cap q" "contents q @ xs" "[x]"]
    by simp
qed

text \<open>What goes in comes out in order, as long as the queue does not overflow.\<close>

lemma put_get_order:
  assumes "ok q" and "contents q = []" and "length xs \<le> cap q" and "xs \<noteq> []"
  shows "fst (get (foldl put q xs)) = hd xs \<and> contents (snd (get (foldl put q xs))) = tl xs"
proof -
  have "ok (foldl put q xs)" "contents (foldl put q xs) = xs"
    using put_all [OF assms(1), of xs] assms(2,3) by (simp_all add: suffix_of_all)
  with assms(4) show ?thesis using get_fst get_snd by metis
qed

end

section \<open>The ring buffer implements the queue\<close>

definition rb_contents :: "ring_buffer \<times> memory \<Rightarrow> u8 list" where
  "rb_contents = (\<lambda>(r, m). map (\<lambda>i. m (rb_buffer r + of_nat ((unat (rb_tail r) + i) mod unat (rb_capacity r))))
     [0..<unat (rb_count r)])"

definition rb_ok :: "ring_buffer \<Rightarrow> bool" where
  "rb_ok r \<longleftrightarrow> 0 < rb_capacity r \<and> rb_tail r < rb_capacity r \<and> rb_count r \<le> rb_capacity r \<and>
     unat (rb_head r) = (unat (rb_tail r) + unat (rb_count r)) mod unat (rb_capacity r)"

lemma unat_inc_mod:
  fixes h c :: u64
  assumes "h < c"
  shows "unat ((h + 1) mod c) = Suc (unat h) mod unat c"
proof -
  have "unat (h + 1) = Suc (unat h)"
    using assms by (simp only: word_less_unat unat_add_1_less)
  then show ?thesis by (simp add: unat_mod)
qed

lemma ring_index: "t < n \<Longrightarrow> i \<le> n \<Longrightarrow> (t + i) mod n = (if t + i < n then t + i else t + i - n)"
  for n :: nat
  by (auto simp: mod_if)

lemma ring_index_inj:
  "t < n \<Longrightarrow> i < n \<Longrightarrow> j < n \<Longrightarrow> (t + i) mod n = (t + j) mod n \<longleftrightarrow> i = j" for n :: nat
  by (auto simp: ring_index split: if_splits)

lemma rb_contents_nth [simp]: "i < unat (rb_count r) \<Longrightarrow>
    rb_contents (r, m) ! i = m (rb_buffer r + of_nat ((unat (rb_tail r) + i) mod unat (rb_capacity r)))"
  by (simp add: rb_contents_def)

lemma rb_contents_length [simp]: "length (rb_contents (r, m)) = unat (rb_count r)"
  by (simp add: rb_contents_def)

lemma rb_okD:
  assumes "rb_ok r"
  shows "0 < unat (rb_capacity r)" "unat (rb_tail r) < unat (rb_capacity r)"
    "unat (rb_count r) \<le> unat (rb_capacity r)"
    "unat (rb_head r) = (unat (rb_tail r) + unat (rb_count r)) mod unat (rb_capacity r)"
    "unat ((rb_head r + 1) mod rb_capacity r) = Suc (unat (rb_head r)) mod unat (rb_capacity r)"
    "unat ((rb_tail r + 1) mod rb_capacity r) = Suc (unat (rb_tail r)) mod unat (rb_capacity r)"
proof -
  show n: "0 < unat (rb_capacity r)" "unat (rb_tail r) < unat (rb_capacity r)"
    "unat (rb_count r) \<le> unat (rb_capacity r)"
    "unat (rb_head r) = (unat (rb_tail r) + unat (rb_count r)) mod unat (rb_capacity r)"
    using assms by (simp_all add: rb_ok_def word_less_unat word_le_unat)
  then show "unat ((rb_tail r + 1) mod rb_capacity r) = Suc (unat (rb_tail r)) mod unat (rb_capacity r)"
    by (intro unat_inc_mod) (simp add: word_less_unat)
  from n have "unat (rb_head r) < unat (rb_capacity r)" by simp
  then show "unat ((rb_head r + 1) mod rb_capacity r) = Suc (unat (rb_head r)) mod unat (rb_capacity r)"
    by (intro unat_inc_mod) (simp add: word_less_unat)
qed

lemma rb_slot_store:
  assumes "rb_ok r"
  shows "(m(rb_buffer r + rb_head r := c)) (rb_buffer r + of_nat (k mod unat (rb_capacity r))) =
    (if k mod unat (rb_capacity r) = unat (rb_head r) then c
     else m (rb_buffer r + of_nat (k mod unat (rb_capacity r))))"
proof -
  let ?n = "unat (rb_capacity r)"
  have "k mod ?n < ?n" using rb_okD(1) [OF assms] by simp
  then have "k mod ?n < 2 ^ 64" using unat_u64_bound [of "rb_capacity r"] by linarith
  then have "of_nat (k mod ?n) = rb_head r \<longleftrightarrow> k mod ?n = unat (rb_head r)"
    by (metis unat_of_nat_u64 word_unat_eq_iff)
  then show ?thesis by simp
qed

text \<open>Putting a byte into a buffer with room, and into a full one.\<close>

lemma rb_put_room:
  assumes ok: "rb_ok r" and room: "rb_count r < rb_capacity r"
    and r': "r' = r\<lparr>rb_head := (rb_head r + 1) mod rb_capacity r, rb_count := rb_count r + 1\<rparr>"
  shows "rb_put (r, m) c = (r', m(rb_buffer r + rb_head r := c))" and "rb_ok r'"
    and "rb_contents (r', m(rb_buffer r + rb_head r := c)) = rb_contents (r, m) @ [c]"
proof -
  let ?n = "unat (rb_capacity r)" and ?t = "unat (rb_tail r)" and ?k = "unat (rb_count r)"
  note d = rb_okD [OF ok]
  have k: "?k < ?n" using room by (simp add: word_less_unat)
  then have inc: "unat (rb_count r + 1) = Suc ?k" by (rule unat_add_1_less)
  show "rb_put (r, m) c = (r', m(rb_buffer r + rb_head r := c))"
    using room by (simp add: rb_put_def Let_def r')
  show "rb_ok r'"
    using d k inc by (simp add: rb_ok_def r' word_less_unat word_le_unat mod_Suc_eq)
  show "rb_contents (r', m(rb_buffer r + rb_head r := c)) = rb_contents (r, m) @ [c]"
  proof (rule nth_equalityI)
    fix i
    assume "i < length (rb_contents (r', m(rb_buffer r + rb_head r := c)))"
    then have i: "i < Suc ?k" by (simp add: r' inc)
    have "rb_contents (r', m(rb_buffer r + rb_head r := c)) ! i =
        (if (?t + i) mod ?n = unat (rb_head r) then c else m (rb_buffer r + of_nat ((?t + i) mod ?n)))"
      using i rb_slot_store [OF ok, of m c "?t + i"] by (simp add: r' inc del: fun_upd_apply)
    moreover have "(?t + i) mod ?n = unat (rb_head r) \<longleftrightarrow> i = ?k"
      using ring_index_inj [OF d(2), of i ?k] i k by (simp add: d(4))
    ultimately show "rb_contents (r', m(rb_buffer r + rb_head r := c)) ! i = (rb_contents (r, m) @ [c]) ! i"
      using i by (auto simp: nth_append less_Suc_eq)
  qed (simp add: r' inc)
qed

lemma rb_put_full:
  assumes ok: "rb_ok r" and full: "\<not> rb_count r < rb_capacity r"
    and r': "r' = r\<lparr>rb_head := (rb_head r + 1) mod rb_capacity r,
      rb_tail := (rb_tail r + 1) mod rb_capacity r\<rparr>"
  shows "rb_put (r, m) c = (r', m(rb_buffer r + rb_head r := c))" and "rb_ok r'"
    and "rb_contents (r', m(rb_buffer r + rb_head r := c)) = tl (rb_contents (r, m)) @ [c]"
proof -
  let ?n = "unat (rb_capacity r)" and ?t = "unat (rb_tail r)" and ?k = "unat (rb_count r)"
  note d = rb_okD [OF ok]
  have k: "?k = ?n" using full d(3) by (simp add: word_less_unat)
  then have ht: "unat (rb_head r) = ?t" using d by simp
  show "rb_put (r, m) c = (r', m(rb_buffer r + rb_head r := c))"
    using full by (simp add: rb_put_def Let_def r')
  show "rb_ok r'"
    using d k ht ok by (simp add: rb_ok_def r' word_less_unat word_le_unat)
  show "rb_contents (r', m(rb_buffer r + rb_head r := c)) = tl (rb_contents (r, m)) @ [c]"
  proof (rule nth_equalityI)
    fix i
    assume "i < length (rb_contents (r', m(rb_buffer r + rb_head r := c)))"
    then have i: "i < ?n" by (simp add: r' k)
    have "rb_contents (r', m(rb_buffer r + rb_head r := c)) ! i =
        (if (?t + Suc i) mod ?n = unat (rb_head r) then c
         else m (rb_buffer r + of_nat ((?t + Suc i) mod ?n)))"
      using i rb_slot_store [OF ok, of m c "?t + Suc i"]
      by (simp add: r' k d(6) mod_simps del: fun_upd_apply)
    moreover have "(?t + Suc i) mod ?n = unat (rb_head r) \<longleftrightarrow> Suc i = ?n"
      using i d(2) ring_index [OF d(2), of "Suc i"] by (auto simp: ht)
    ultimately show "rb_contents (r', m(rb_buffer r + rb_head r := c)) ! i = (tl (rb_contents (r, m)) @ [c]) ! i"
      using i k by (auto simp: nth_append nth_tl)
  qed (use k d(1) in \<open>simp add: r'\<close>)
qed

lemma rb_put_correct:
  assumes "rb_ok r"
  shows "rb_ok (fst (rb_put (r, m) c))"
    and "rb_capacity (fst (rb_put (r, m) c)) = rb_capacity r"
    and "rb_contents (rb_put (r, m) c) = suffix_of (unat (rb_capacity r)) (rb_contents (r, m) @ [c])"
proof -
  have tl: "suffix_of n (xs @ [x]) = tl xs @ [x]" if "length xs = n" "0 < n" for n xs and x :: u8
    using that by (cases xs) (auto simp: suffix_of_def)
  show "rb_ok (fst (rb_put (r, m) c))"
    using rb_put_room(1,2) [OF assms _ refl] rb_put_full(1,2) [OF assms _ refl]
    by (cases "rb_count r < rb_capacity r") simp_all
  show "rb_contents (rb_put (r, m) c) = suffix_of (unat (rb_capacity r)) (rb_contents (r, m) @ [c])"
  proof (cases "rb_count r < rb_capacity r")
    case True
    then show ?thesis
      using rb_put_room(1,3) [OF assms True refl]
      by (simp add: suffix_of_all word_less_unat)
  next
    case False
    then have "unat (rb_count r) = unat (rb_capacity r)"
      using rb_okD(3) [OF assms] by (simp add: word_less_unat)
    then show ?thesis
      using rb_put_full(1,3) [OF assms False refl] rb_okD(1) [OF assms] by (simp add: tl)
  qed
qed (simp add: rb_put_def Let_def)

lemma rb_get_correct:
  assumes ok: "rb_ok r" and ne: "rb_contents (r, m) \<noteq> []"
  shows "fst (rb_get (r, m)) = hd (rb_contents (r, m))" and "snd (snd (rb_get (r, m))) = m"
    and "rb_ok (fst (snd (rb_get (r, m))))"
    and "rb_capacity (fst (snd (rb_get (r, m)))) = rb_capacity r"
    and "rb_contents (snd (rb_get (r, m))) = tl (rb_contents (r, m))"
proof -
  let ?n = "unat (rb_capacity r)" and ?t = "unat (rb_tail r)" and ?k = "unat (rb_count r)"
  note d = rb_okD [OF ok]
  have k: "0 < ?k" using ne by (metis length_greater_0_conv rb_contents_length)
  have "1 \<le> rb_count r" using k by (simp add: word_le_unat)
  then have dec: "unat (rb_count r - 1) = ?k - 1" by (simp add: unat_sub_le)
  define r' where "r' = r\<lparr>rb_tail := (rb_tail r + 1) mod rb_capacity r, rb_count := rb_count r - 1\<rparr>"
  have get: "rb_get (r, m) = (m (rb_buffer r + rb_tail r), r', m)"
    by (simp add: rb_get_def r'_def)
  have "hd (rb_contents (r, m)) = rb_contents (r, m) ! 0" by (rule hd_conv_nth [OF ne])
  also have "\<dots> = m (rb_buffer r + rb_tail r)" using k d(2) by simp
  finally show "fst (rb_get (r, m)) = hd (rb_contents (r, m))" by (simp add: get)
  show "snd (snd (rb_get (r, m))) = m" "rb_capacity (fst (snd (rb_get (r, m)))) = rb_capacity r"
    by (simp_all add: get r'_def)
  have "Suc ?t + (?k - 1) = ?t + ?k" using k by simp
  then have "(Suc ?t mod ?n + (?k - 1)) mod ?n = (?t + ?k) mod ?n" by (metis mod_add_left_eq)
  then show "rb_ok (fst (snd (rb_get (r, m))))"
    using d k by (simp add: get r'_def rb_ok_def dec word_less_unat word_le_unat)
  have "rb_contents (r', m) ! i = tl (rb_contents (r, m)) ! i" if "i < ?k - 1" for i
    using that by (simp add: nth_tl r'_def dec d(6) mod_simps)
  then show "rb_contents (snd (rb_get (r, m))) = tl (rb_contents (r, m))"
    unfolding get snd_conv by (intro nth_equalityI) (simp_all add: r'_def dec)
qed

interpretation rb: bounded_fifo rb_put "\<lambda>q. (fst (rb_get q), snd (rb_get q))" rb_contents
  "\<lambda>q. unat (rb_capacity (fst q))" "\<lambda>q. rb_ok (fst q)"
proof
  fix q :: "ring_buffer \<times> memory" and x
  obtain r m where q: "q = (r, m)" by fastforce
  assume "rb_ok (fst q)"
  then have ok: "rb_ok r" by (simp add: q)
  show "rb_ok (fst (rb_put q x))" "unat (rb_capacity (fst (rb_put q x))) = unat (rb_capacity (fst q))"
    "rb_contents (rb_put q x) = suffix_of (unat (rb_capacity (fst q))) (rb_contents q @ [x])"
    using rb_put_correct [OF ok] by (simp_all add: q)
  show "length (rb_contents q) \<le> unat (rb_capacity (fst q))"
    using rb_okD(3) [OF ok] by (simp add: q)
  assume "rb_contents q \<noteq> []"
  then show "rb_ok (fst (snd (fst (rb_get q), snd (rb_get q))))"
    "fst (fst (rb_get q), snd (rb_get q)) = hd (rb_contents q)"
    "rb_contents (snd (fst (rb_get q), snd (rb_get q))) = tl (rb_contents q)"
    "unat (rb_capacity (fst (snd (fst (rb_get q), snd (rb_get q))))) = unat (rb_capacity (fst q))"
    using rb_get_correct [OF ok] by (simp_all add: q)
qed

section \<open>Writing and reading\<close>

text \<open>The bytes of the circular buffer.\<close>

definition rb_region :: "ring_buffer \<Rightarrow> u64 set" where
  "rb_region r = region (rb_buffer r) (unat (rb_capacity r))"

lemma rb_put_frame:
  assumes "rb_ok r"
  shows "rb_buffer (fst (rb_put (r, m) c)) = rb_buffer r"
    and "a \<notin> rb_region r \<Longrightarrow> snd (rb_put (r, m) c) a = m a"
proof -
  show "rb_buffer (fst (rb_put (r, m) c)) = rb_buffer r" by (simp add: rb_put_def Let_def)
  have "unat (rb_head r) < unat (rb_capacity r)" using rb_okD [OF assms] by simp
  then have "rb_buffer r + of_nat (unat (rb_head r)) \<in> rb_region r"
    unfolding rb_region_def by (rule region_mem)
  then show "a \<notin> rb_region r \<Longrightarrow> snd (rb_put (r, m) c) a = m a"
    by (auto simp: rb_put_def Let_def)
qed

lemma rb_write_fold:
  assumes "rb_ok r" and "rb_region r \<inter> region data n = {}"
  shows "fold (\<lambda>i (r, m). rb_put (r, m) (m (data + of_nat i))) [0..<n] (r, m) =
    foldl rb_put (r, m) (load_bytes m data n) \<and>
    rb_ok (fst (foldl rb_put (r, m) (load_bytes m data n))) \<and>
    rb_region (fst (foldl rb_put (r, m) (load_bytes m data n))) = rb_region r \<and>
    (\<forall>a. a \<notin> rb_region r \<longrightarrow> snd (foldl rb_put (r, m) (load_bytes m data n)) a = m a)"
  using assms(2)
proof (induction n)
  case 0
  then show ?case using assms(1) by (simp add: load_bytes_def)
next
  case (Suc n)
  obtain r1 m1 where one: "foldl rb_put (r, m) (load_bytes m data n) = (r1, m1)" by fastforce
  have "rb_region r \<inter> region data n = {}" using Suc.prems by (auto simp: region_Suc)
  with Suc.IH one have IH: "fold (\<lambda>i (r, m). rb_put (r, m) (m (data + of_nat i))) [0..<n] (r, m) = (r1, m1)"
    "rb_ok r1" "rb_region r1 = rb_region r" "\<And>a. a \<notin> rb_region r \<Longrightarrow> m1 a = m a"
    by auto
  have "m1 (data + of_nat n) = m (data + of_nat n)"
    using Suc.prems IH(4) by (auto simp: region_Suc)
  moreover have "rb_region (fst (rb_put (r1, m1) c)) = rb_region r" for c
    using rb_put_frame(1) [OF IH(2)] rb_put_correct(2) [OF IH(2)] IH(3) by (simp add: rb_region_def)
  moreover have "snd (rb_put (r1, m1) c) a = m a" if "a \<notin> rb_region r" for a c
    using rb_put_frame(2) [OF IH(2)] IH(3,4) that by simp
  ultimately show ?case
    using IH(1) rb_put_correct(1) [OF IH(2)] one by (simp add: load_bytes_Suc)
qed

lemma suffix_of_suffix: "suffix_of n (xs @ suffix_of n ys) = suffix_of n (xs @ ys)"
  by (cases "length ys \<le> n") (simp_all add: suffix_of_def)

lemma load_bytes_drop:
  "k \<le> n \<Longrightarrow> load_bytes m (p + of_nat k) (n - k) = drop k (load_bytes m p n)"
  by (rule nth_equalityI) (simp_all add: add.assoc)

lemma load_bytes_suffix:
  "c \<le> n \<Longrightarrow> load_bytes m (p + of_nat (n - c)) c = suffix_of c (load_bytes m p n)"
  using load_bytes_drop [of "n - c" n m p] by (simp add: suffix_of_def)

lemma rb_contents_cong:
  assumes "rb_ok r" and "\<And>a. a \<in> rb_region r \<Longrightarrow> m' a = m a"
  shows "rb_contents (r, m') = rb_contents (r, m)"
proof (rule nth_equalityI)
  fix i
  assume "i < length (rb_contents (r, m'))"
  moreover have "rb_buffer r + of_nat (k mod unat (rb_capacity r)) \<in> rb_region r" for k
    unfolding rb_region_def using rb_okD(1) [OF assms(1)] by (intro region_mem) simp
  ultimately show "rb_contents (r, m') ! i = rb_contents (r, m) ! i"
    using assms(2) by simp
qed simp

lemma rb_read_loop_correct:
  assumes "rb_ok r" and "rb_region r \<inter> region data (i + k) = {}" and "i + k \<le> 2 ^ 64"
    and "rb_read_loop data i k (r, m) = (j, r', m')"
  shows "rb_ok r' \<and> rb_region r' = rb_region r \<and> j = i + min k (unat (rb_count r)) \<and>
    rb_contents (r', m') = drop (min k (unat (rb_count r))) (rb_contents (r, m)) \<and>
    (\<forall>l < min k (unat (rb_count r)). m' (data + of_nat (i + l)) = rb_contents (r, m) ! l) \<and>
    (\<forall>a. (\<forall>l. i \<le> l \<and> l < i + k \<longrightarrow> a \<noteq> data + of_nat l) \<longrightarrow> m' a = m a)"
  using assms
proof (induction k arbitrary: i r m)
  case 0
  then show ?case by simp
next
  case (Suc k)
  show ?case
  proof (cases "rb_count r = 0")
    case True
    with Suc.prems show ?thesis by simp
  next
    case False
    let ?xs = "rb_contents (r, m)"
    have ne: "?xs \<noteq> []" using False by (metis length_0_conv rb_contents_length unat_eq_0)
    obtain c r1 where get: "rb_get (r, m) = (c, r1, m)"
      using rb_get_correct(2) [OF Suc.prems(1) ne] by (metis prod.collapse)
    note g = rb_get_correct [OF Suc.prems(1) ne, unfolded get fst_conv snd_conv]
    have reg: "rb_region r1 = rb_region r"
      using get g(4) by (auto simp: rb_region_def rb_get_def)
    define m1 where "m1 = m(data + of_nat i := c)"
    have "data + of_nat i \<in> region data (i + Suc k)" by (rule region_mem) simp
    then have xs: "rb_contents (r1, m1) = tl ?xs"
      using Suc.prems(2) reg g(5) by (subst rb_contents_cong [OF g(3), of _ m]) (auto simp: m1_def)
    have cnt: "unat (rb_count r) = Suc (unat (rb_count r1))"
      using arg_cong [OF g(5), of length] ne by (cases ?xs) (auto dest: arg_cong [of _ _ length])
    have loop: "rb_read_loop data (Suc i) k (r1, m1) = (j, r', m')"
      using Suc.prems(4) False by (simp add: get word_gt_0 m1_def)
    have pre: "rb_region r1 \<inter> region data (Suc i + k) = {}" "Suc i + k \<le> 2 ^ 64"
      using Suc.prems(2,3) reg by simp_all
    note IH0 = Suc.IH [OF g(3) pre loop, unfolded xs reg]
    then have IH: "rb_ok r'" "rb_region r' = rb_region r" "j = Suc i + min k (unat (rb_count r1))"
      "rb_contents (r', m') = drop (min k (unat (rb_count r1))) (tl ?xs)"
      "\<And>l. l < min k (unat (rb_count r1)) \<Longrightarrow> m' (data + of_nat (Suc i + l)) = tl ?xs ! l"
      "\<And>a. (\<forall>l. Suc i \<le> l \<and> l < Suc i + k \<longrightarrow> a \<noteq> data + of_nat l) \<Longrightarrow> m' a = m1 a"
      by blast+
    have first: "m' (data + of_nat i) = c"
      using IH(6) [of "data + of_nat i"] Suc.prems(3) of_nat_u64_inject [of i] by (fastforce simp: m1_def)
    have "m' (data + of_nat (i + l)) = ?xs ! l" if l: "l < min (Suc k) (unat (rb_count r))" for l
    proof (cases l)
      case 0
      with first g(1) ne show ?thesis by (simp add: hd_conv_nth)
    next
      case (Suc l')
      with l cnt have "l' < min k (unat (rb_count r1))" by simp
      from IH(5) [OF this] show ?thesis
        using Suc l cnt by (simp add: nth_tl)
    qed
    moreover have "m' a = m a" if "\<forall>l. i \<le> l \<and> l < i + Suc k \<longrightarrow> a \<noteq> data + of_nat l" for a
      using IH(6) [of a] that by (auto simp: m1_def)
    moreover have "drop (min (Suc k) (unat (rb_count r))) ?xs = drop (min k (unat (rb_count r1))) (tl ?xs)"
      using ne cnt by (cases ?xs) auto
    ultimately show ?thesis using IH(1-4) cnt by simp
  qed
qed

section \<open>Properties\<close>

text \<open>C31: \<open>ring_buffer_write\<close> refines appending to a bounded queue that forgets its oldest bytes:
  afterwards the buffer holds the last \<open>capacity\<close> bytes of its old contents followed by the
  written data, for every length, and no byte outside the buffer changes.\<close>

theorem ring_buffer_write_correct:
  assumes "rb_ok r" and "data \<noteq> NULL" and "rb_region r \<inter> region data (unat len) = {}"
    and "ring_buffer_write m (Some r) data len = (n, rb', m')"
  shows "\<exists>r'. rb' = Some r' \<and> rb_ok r' \<and> n = min len (rb_capacity r) \<and>
    rb_contents (r', m') =
      suffix_of (unat (rb_capacity r)) (rb_contents (r, m) @ load_bytes m data (unat len)) \<and>
    (\<forall>a. a \<notin> rb_region r \<longrightarrow> m' a = m a)"
proof (cases "len = 0")
  case True
  with assms(1,4) rb_okD(3) [OF assms(1)] show ?thesis
    by (auto simp: ring_buffer_write_def load_bytes_def suffix_of_all min_def word_le_unat)
next
  case False
  let ?c = "rb_capacity r"
  define d l where "d = (if ?c < len then data + (len - ?c) else data)"
    and "l = (if ?c < len then ?c else len)"
  have l: "l = min len ?c" by (auto simp: l_def min_def)
  have off: "d = data + of_nat (unat len - unat l)" "unat l \<le> unat len"
    using unat_sub_le [of ?c len] by (auto simp: d_def l_def word_less_unat word_le_unat)
  have "region d (unat l) \<subseteq> region data (unat len)"
    using region_shift [of data "unat len - unat l" "unat l"] off by simp
  then have dis: "rb_region r \<inter> region d (unat l) = {}" using assms(3) by blast
  obtain r' where w: "foldl rb_put (r, m) (load_bytes m d (unat l)) = (r', m')" "rb' = Some r'" "n = l"
    using assms(2,4) False rb_write_fold [OF assms(1) dis, of m]
    by (auto simp: ring_buffer_write_def Let_def d_def l_def split: if_splits prod.splits)
  have "load_bytes m d (unat l) = suffix_of (unat l) (load_bytes m data (unat len))"
    using load_bytes_suffix [OF off(2), of m data] off(1) by simp
  then have "suffix_of (unat ?c) (rb_contents (r, m) @ load_bytes m d (unat l)) =
      suffix_of (unat ?c) (rb_contents (r, m) @ load_bytes m data (unat len))"
    by (cases "?c < len") (simp_all add: l_def suffix_of_suffix suffix_of_all)
  then show ?thesis
    using rb.put_all [of "(r, m)" "load_bytes m d (unat l)"] rb_write_fold [OF assms(1) dis, of m]
      assms(1) w l by auto
qed

definition rb_example :: ring_buffer where
  "rb_example = \<lparr>rb_buffer = 8192, rb_capacity = 4096, rb_head = 1, rb_tail = 4093, rb_count = 4\<rparr>"

lemma rb_example_ok: "rb_ok rb_example"
  by (simp add: rb_ok_def rb_example_def)

lemma rb_example_region: "rb_region rb_example \<inter> region 16384 100 = {}"
  using disjoint_blocks_sep [of 8192 4096 16384] region_mono [of 100 4096 16384]
  by (auto simp: rb_region_def rb_example_def disjoint_blocks_def)

theorem ring_buffer_write_correct_witness:
  "case ring_buffer_write (\<lambda>a. ucast a) (Some rb_example) 16384 100 of (n, rb', m') \<Rightarrow>
     n = 100 \<and> (\<exists>r'. rb' = Some r' \<and> rb_ok r')"
  using ring_buffer_write_correct [OF rb_example_ok, of 16384 100 "\<lambda>a. ucast a"] rb_example_region
  by (force simp: rb_example_def split: prod.split)

text \<open>C32: \<open>ring_buffer_read\<close> refines taking from the front of the queue: it returns the number of
  bytes read, the smaller of the request and the bytes available, delivers exactly the oldest
  ones in order and leaves the rest in the buffer.\<close>

theorem ring_buffer_read_correct:
  assumes "rb_ok r" and "data \<noteq> NULL" and "rb_region r \<inter> region data (unat len) = {}"
    and "ring_buffer_read m (Some r) data len = (n, rb', m')"
  shows "\<exists>r'. rb' = Some r' \<and> rb_ok r' \<and> n = min len (rb_count r) \<and>
    load_bytes m' data (unat n) = take (unat n) (rb_contents (r, m)) \<and>
    rb_contents (r', m') = drop (unat n) (rb_contents (r, m)) \<and>
    (\<forall>a. a \<notin> region data (unat len) \<longrightarrow> m' a = m a)"
proof (cases "len = 0 \<or> rb_count r = 0")
  case True
  with assms(1,4) show ?thesis
    by (auto simp: ring_buffer_read_def load_bytes_def min_def)
next
  case False
  obtain j r' where loop: "rb_read_loop data 0 (unat len) (r, m) = (j, r', m')"
    and res: "n = of_nat j" "rb' = Some r'"
    using assms(2,4) False by (auto simp: ring_buffer_read_def Let_def split: prod.splits)
  have le: "0 + unat len \<le> 2 ^ 64" by (simp add: order_less_imp_le)
  from rb_read_loop_correct [OF assms(1) _ le loop] assms(3)
  have rd: "rb_ok r'" "j = min (unat len) (unat (rb_count r))"
    "rb_contents (r', m') = drop j (rb_contents (r, m))"
    "\<And>l. l < j \<Longrightarrow> m' (data + of_nat l) = rb_contents (r, m) ! l"
    "\<And>a. (\<forall>l. l < unat len \<longrightarrow> a \<noteq> data + of_nat l) \<Longrightarrow> m' a = m a"
    by auto
  have n: "unat n = j" "n = min len (rb_count r)"
    using res(1) rd(2) by (auto simp: min_def word_le_unat split: if_splits)
  have "load_bytes m' data j = take j (rb_contents (r, m))"
    using rd(2,4) by (intro nth_equalityI) simp_all
  moreover have "m' a = m a" if "a \<notin> region data (unat len)" for a
    using rd(5) [of a] that by auto
  ultimately show ?thesis using rd(1,3) n res(2) by simp
qed

theorem ring_buffer_read_correct_witness:
  "case ring_buffer_read (\<lambda>a. ucast a) (Some rb_example) 16384 100 of (n, rb', m') \<Rightarrow>
     n = 4 \<and> load_bytes m' 16384 (unat n) = take (unat n) (rb_contents (rb_example, \<lambda>a. ucast a))"
  using ring_buffer_read_correct [OF rb_example_ok, of 16384 100 "\<lambda>a. ucast a"] rb_example_region
  by (force simp: rb_example_def split: prod.split)

end
