(* ===== verification/Kheap.thy ===== *)
theory Kheap
  imports Pmm Cmem
begin

text \<open>
  \<open>krnl/mem/kheap.c\<close>, the first-fit kernel heap: a doubly linked list of blocks that tile the
  heap area, each a header followed by its payload, with a back pointer to the header in the
  eight bytes before the address handed out.

  Headers are a typed store from addresses to records, back pointers a store of 64-bit cells,
  and payload bytes the byte memory: the three kinds of objects the code accesses through
  different pointer types.  \<open>heap_seg\<close> relates a stretch of the linked list to the list of its
  blocks; \<open>kheap_inv\<close> says that the blocks tile the heap area, that no two neighbours are
  both free, and that the statistics count them.
\<close>

section \<open>State and operations\<close>

record kheap_block =
  kb_magic :: u32
  kb_is_free :: bool
  kb_size :: u64
  kb_next :: u64
  kb_prev :: u64

record kheap =
  heap_start :: u64
  kh_blocks :: "u64 \<Rightarrow> kheap_block"
  kh_backptr :: "u64 \<Rightarrow> u64"
  kh_total_size :: u64
  kh_used_size :: u64
  kh_free_size :: u64
  kh_block_count :: u64
  kh_initialized :: bool

definition HEAP_MAGIC :: u32 where
  "HEAP_MAGIC = 0xC001C0DE"

definition MIN_BLOCK_SIZE :: u64 where
  "MIN_BLOCK_SIZE = 32"

text \<open>\<open>sizeof(kheap_block_t)\<close> and \<open>sizeof(kheap_block_t*)\<close>.\<close>

definition KHB_SIZE :: u64 where
  "KHB_SIZE = 32"

definition KHB_PTR_SIZE :: u64 where
  "KHB_PTR_SIZE = 8"

definition kh_block :: "kheap \<Rightarrow> u64 \<Rightarrow> kheap_block" where
  "kh_block s b = kh_blocks s b"

definition kh_put :: "u64 \<Rightarrow> kheap_block \<Rightarrow> kheap \<Rightarrow> kheap" where
  "kh_put b v s = s\<lparr>kh_blocks := (kh_blocks s)(b := v)\<rparr>"

text \<open>\<open>((kheap_block_t**)ptr)[-1]\<close>.\<close>

definition kh_header :: "kheap \<Rightarrow> u64 \<Rightarrow> u64" where
  "kh_header s ptr = kh_backptr s (ptr - KHB_PTR_SIZE)"

definition kh_set_header :: "u64 \<Rightarrow> u64 \<Rightarrow> kheap \<Rightarrow> kheap" where
  "kh_set_header ptr b s = s\<lparr>kh_backptr := (kh_backptr s)(ptr - KHB_PTR_SIZE := b)\<rparr>"

definition kheap_init :: "pmm \<Rightarrow> memory \<Rightarrow> kheap \<Rightarrow> u64 \<Rightarrow> pmm \<times> memory \<times> kheap" where
  "kheap_init p m s initial_pages =
     (let initial_pages = (if initial_pages = 0 then 4096 else initial_pages);
          (phys_addr, p, m) = pmm_alloc p m initial_pages
      in if phys_addr = NULL then (p, m, s)
         else
           let s = s\<lparr>heap_start := phys_to_virt p phys_addr, kh_total_size := initial_pages * PAGE_SIZE\<rparr>;
               s = kh_put (heap_start s) \<lparr>kb_magic = HEAP_MAGIC, kb_is_free = True,
                     kb_size = kh_total_size s - KHB_SIZE, kb_next = NULL, kb_prev = NULL\<rparr> s
           in (p, m, s\<lparr>kh_free_size := kb_size (kh_block s (heap_start s)), kh_used_size := KHB_SIZE,
                 kh_block_count := 1, kh_initialized := True\<rparr>))"

definition split_block :: "u64 \<Rightarrow> u64 \<Rightarrow> kheap \<Rightarrow> kheap" where
  "split_block block sz s =
     (if kb_size (kh_block s block) \<le> sz + KHB_SIZE + MIN_BLOCK_SIZE then s
      else
        let new_block = block + KHB_SIZE + sz;
            s = kh_put new_block \<lparr>kb_magic = HEAP_MAGIC, kb_is_free = True,
                  kb_size = kb_size (kh_block s block) - sz - KHB_SIZE,
                  kb_next = kb_next (kh_block s block), kb_prev = block\<rparr> s;
            nx = kb_next (kh_block s new_block);
            s = (if nx \<noteq> NULL then kh_put nx ((kh_block s nx)\<lparr>kb_prev := new_block\<rparr>) s else s);
            s = kh_put block ((kh_block s block)\<lparr>kb_next := new_block\<rparr>) s;
            s = kh_put block ((kh_block s block)\<lparr>kb_size := sz\<rparr>) s
        in s\<lparr>kh_block_count := kh_block_count s + 1, kh_used_size := kh_used_size s + KHB_SIZE,
             kh_free_size := kh_free_size s - KHB_SIZE\<rparr>)"

text \<open>The search for the first free block that is large enough; \<open>Some NULL\<close> when the list ends.\<close>

partial_function (option) kh_find :: "kheap \<Rightarrow> u64 \<Rightarrow> u64 \<Rightarrow> u64 option" where
  "kh_find s total_required current =
     (if current = NULL then Some NULL
      else if kb_is_free (kh_block s current) \<and> total_required \<le> kb_size (kh_block s current)
      then Some current
      else kh_find s total_required (kb_next (kh_block s current)))"

definition kh_take :: "u64 \<Rightarrow> u64 \<Rightarrow> kheap \<Rightarrow> u64 \<times> kheap" where
  "kh_take current total_required s =
     (let s = split_block current total_required s;
          s = kh_put current ((kh_block s current)\<lparr>kb_is_free := False\<rparr>) s;
          s = s\<lparr>kh_free_size := kh_free_size s - kb_size (kh_block s current)\<rparr>;
          s = s\<lparr>kh_used_size := kh_used_size s + kb_size (kh_block s current)\<rparr>;
          payload_addr = current + KHB_SIZE;
          payload_addr = payload_addr + KHB_PTR_SIZE
      in (payload_addr, kh_set_header payload_addr current s))"

definition khmalloc :: "kheap \<Rightarrow> u64 \<Rightarrow> (u64 \<times> kheap) option" where
  "khmalloc s sz =
     (if \<not> kh_initialized s \<or> sz = 0 then Some (NULL, s)
      else
        let sz = (sz + 7) AND NOT 7;
            total_required = sz + KHB_PTR_SIZE
        in map_option (\<lambda>current. if current = NULL then (NULL, s) else kh_take current total_required s)
             (kh_find s total_required (heap_start s)))"

definition khaligned_alloc :: "kheap \<Rightarrow> u64 \<Rightarrow> u64 \<Rightarrow> (u64 \<times> kheap) option" where
  "khaligned_alloc s alignment sz =
     (if \<not> kh_initialized s \<or> sz = 0 \<or> alignment = 0 then Some (NULL, s)
      else if alignment AND (alignment - 1) \<noteq> 0 then Some (NULL, s)
      else map_option (\<lambda>(raw_ptr, s).
        if raw_ptr = NULL then (NULL, s)
        else
          let block = kh_header s raw_ptr;
              raw_addr = block + KHB_SIZE + KHB_PTR_SIZE;
              aligned_addr = (raw_addr + alignment - 1) AND NOT (alignment - 1)
          in (aligned_addr, kh_set_header aligned_addr block s))
        (khmalloc s (sz + alignment + KHB_PTR_SIZE)))"

definition khcalloc :: "kheap \<Rightarrow> memory \<Rightarrow> u64 \<Rightarrow> u64 \<Rightarrow> (u64 \<times> kheap \<times> memory) option" where
  "khcalloc s m num sz =
     (let total = num * sz
      in map_option (\<lambda>(ptr, s). (ptr, s, if ptr \<noteq> NULL then snd (memset m ptr 0 total) else m))
           (khmalloc s total))"

text \<open>\<open>khfree\<close>: marking the block free, merging it with a free successor, and merging it into a
  free predecessor.\<close>

definition khfree_mark :: "u64 \<Rightarrow> kheap \<Rightarrow> kheap" where
  "khfree_mark block s =
     (let s = kh_put block ((kh_block s block)\<lparr>kb_is_free := True\<rparr>) s;
          s = s\<lparr>kh_free_size := kh_free_size s + kb_size (kh_block s block)\<rparr>
      in s\<lparr>kh_used_size := kh_used_size s - kb_size (kh_block s block)\<rparr>)"

definition khfree_merge_next :: "u64 \<Rightarrow> kheap \<Rightarrow> kheap" where
  "khfree_merge_next block s =
     (let nx = kb_next (kh_block s block)
      in if nx \<noteq> NULL \<and> kb_is_free (kh_block s nx)
         then
           let s = s\<lparr>kh_block_count := kh_block_count s - 1, kh_free_size := kh_free_size s + KHB_SIZE,
                    kh_used_size := kh_used_size s - KHB_SIZE\<rparr>;
               s = kh_put block ((kh_block s block)
                     \<lparr>kb_size := kb_size (kh_block s block) + (KHB_SIZE + kb_size (kh_block s nx))\<rparr>) s;
               s = kh_put block ((kh_block s block)\<lparr>kb_next := kb_next (kh_block s nx)\<rparr>) s;
               nn = kb_next (kh_block s block)
           in if nn \<noteq> NULL then kh_put nn ((kh_block s nn)\<lparr>kb_prev := block\<rparr>) s else s
         else s)"

definition khfree_merge_prev :: "u64 \<Rightarrow> kheap \<Rightarrow> kheap" where
  "khfree_merge_prev block s =
     (let prev = kb_prev (kh_block s block)
      in if prev \<noteq> NULL \<and> kb_is_free (kh_block s prev)
         then
           let s = s\<lparr>kh_block_count := kh_block_count s - 1, kh_free_size := kh_free_size s + KHB_SIZE,
                    kh_used_size := kh_used_size s - KHB_SIZE\<rparr>;
               s = kh_put prev ((kh_block s prev)
                     \<lparr>kb_size := kb_size (kh_block s prev) + (KHB_SIZE + kb_size (kh_block s block))\<rparr>) s;
               s = kh_put prev ((kh_block s prev)\<lparr>kb_next := kb_next (kh_block s block)\<rparr>) s;
               nn = kb_next (kh_block s block)
           in if nn \<noteq> NULL then kh_put nn ((kh_block s nn)\<lparr>kb_prev := prev\<rparr>) s else s
         else s)"

definition khfree :: "kheap \<Rightarrow> u64 \<Rightarrow> kheap" where
  "khfree s ptr =
     (if ptr = NULL \<or> \<not> kh_initialized s then s
      else
        let block = kh_header s ptr
        in if kb_magic (kh_block s block) \<noteq> HEAP_MAGIC \<or> kb_is_free (kh_block s block) then s
           else khfree_merge_prev block (khfree_merge_next block (khfree_mark block s)))"

definition khrealloc :: "kheap \<Rightarrow> memory \<Rightarrow> u64 \<Rightarrow> u64 \<Rightarrow> (u64 \<times> kheap \<times> memory) option" where
  "khrealloc s m ptr new_size =
     (if ptr = NULL then map_option (\<lambda>(p, s). (p, s, m)) (khmalloc s new_size)
      else if new_size = 0 then Some (NULL, khfree s ptr, m)
      else
        let block = kh_header s ptr
        in if new_size + KHB_PTR_SIZE \<le> kb_size (kh_block s block) then Some (ptr, s, m)
           else map_option (\<lambda>(new_ptr, s).
             if new_ptr \<noteq> NULL
             then (new_ptr, khfree s ptr,
                   snd (memcpy m new_ptr ptr (kb_size (kh_block s block) - KHB_PTR_SIZE)))
             else (new_ptr, s, m)) (khmalloc s new_size))"

definition kheap_is_free :: "kheap \<Rightarrow> u64 \<Rightarrow> bool" where
  "kheap_is_free s ptr =
     (if ptr = NULL \<or> \<not> kh_initialized s then False
      else if kb_magic (kh_block s (kh_header s ptr)) \<noteq> HEAP_MAGIC then False
      else kb_is_free (kh_block s (kh_header s ptr)))"

record kheap_stat =
  khs_total_size :: u64
  khs_used_size :: u64
  khs_free_size :: u64
  khs_block_count :: u64
  khs_initialized :: bool

definition kheap_get_stat :: "kheap \<Rightarrow> kheap_stat" where
  "kheap_get_stat s = \<lparr>khs_total_size = kh_total_size s, khs_used_size = kh_used_size s,
     khs_free_size = kh_free_size s, khs_block_count = kh_block_count s,
     khs_initialized = kh_initialized s\<rparr>"

section \<open>The list of blocks\<close>

text \<open>A block as its address, payload size and free flag.\<close>

type_synonym hblk = "u64 \<times> u64 \<times> bool"

fun hd_addr :: "hblk list \<Rightarrow> u64 \<Rightarrow> u64" where
  "hd_addr [] nx = nx"
| "hd_addr ((b, _, _) # _) nx = b"

fun last_addr :: "hblk list \<Rightarrow> u64 \<Rightarrow> u64" where
  "last_addr [] pr = pr"
| "last_addr ((b, _, _) # xs) pr = last_addr xs b"

text \<open>\<open>heap_seg h pr xs nx\<close>: the headers of \<open>xs\<close> are linked both ways, the first one back to \<open>pr\<close>
  and the last one on to \<open>nx\<close>.\<close>

fun heap_seg :: "(u64 \<Rightarrow> kheap_block) \<Rightarrow> u64 \<Rightarrow> hblk list \<Rightarrow> u64 \<Rightarrow> bool" where
  "heap_seg h pr [] nx \<longleftrightarrow> True"
| "heap_seg h pr ((b, sz, f) # xs) nx \<longleftrightarrow> b \<noteq> NULL \<and>
     h b = \<lparr>kb_magic = HEAP_MAGIC, kb_is_free = f, kb_size = sz, kb_next = hd_addr xs nx, kb_prev = pr\<rparr> \<and>
     heap_seg h b xs nx"

text \<open>\<open>tiled a xs e\<close>: the blocks follow each other without gaps from address \<open>a\<close> to \<open>e\<close>.\<close>

fun tiled :: "nat \<Rightarrow> hblk list \<Rightarrow> nat \<Rightarrow> bool" where
  "tiled a [] e \<longleftrightarrow> a = e"
| "tiled a ((b, sz, f) # xs) e \<longleftrightarrow> unat b = a \<and> tiled (a + 32 + unat sz) xs e"

definition coalesced :: "hblk list \<Rightarrow> bool" where
  "coalesced = successively (\<lambda>x y. \<not> (snd (snd x) \<and> snd (snd y)))"

definition free_bytes :: "hblk list \<Rightarrow> nat" where
  "free_bytes xs = (\<Sum>(b, sz, f) \<leftarrow> xs. if f then unat sz else 0)"

definition used_bytes :: "hblk list \<Rightarrow> nat" where
  "used_bytes xs = (\<Sum>(b, sz, f) \<leftarrow> xs. 32 + (if f then 0 else unat sz))"

abbreviation addrs :: "hblk list \<Rightarrow> u64 set" where
  "addrs xs \<equiv> fst ` set xs"

lemma bytes_simps [simp]:
  "free_bytes [] = 0" "used_bytes [] = 0"
  "free_bytes ((b, sz, f) # xs) = (if f then unat sz else 0) + free_bytes xs"
  "used_bytes ((b, sz, f) # xs) = 32 + (if f then 0 else unat sz) + used_bytes xs"
  "free_bytes (xs @ ys) = free_bytes xs + free_bytes ys"
  "used_bytes (xs @ ys) = used_bytes xs + used_bytes ys"
  by (simp_all add: free_bytes_def used_bytes_def)

lemma hd_addr_append [simp]: "hd_addr (xs @ ys) nx = hd_addr xs (hd_addr ys nx)"
  by (cases xs) auto

lemma heap_seg_append [simp]:
  "heap_seg h pr (xs @ ys) nx \<longleftrightarrow> heap_seg h pr xs (hd_addr ys nx) \<and> heap_seg h (last_addr xs pr) ys nx"
  by (induction xs arbitrary: pr) auto

lemma tiled_append [simp]: "tiled a (xs @ ys) e \<longleftrightarrow> (\<exists>m. tiled a xs m \<and> tiled m ys e)"
  by (induction xs arbitrary: a) auto

lemma heap_seg_frame: "(\<And>x. x \<in> addrs xs \<Longrightarrow> h' x = h x) \<Longrightarrow> heap_seg h' pr xs nx = heap_seg h pr xs nx"
  by (induction xs arbitrary: pr) (auto split: prod.splits)

lemma heap_seg_upd_other [simp]: "b \<notin> addrs xs \<Longrightarrow> heap_seg (h(b := v)) pr xs nx = heap_seg h pr xs nx"
  by (rule heap_seg_frame) auto

lemma heap_seg_nonnull: "heap_seg h pr xs nx \<Longrightarrow> x \<in> addrs xs \<Longrightarrow> x \<noteq> NULL"
  by (induction xs arbitrary: pr) fastforce+

lemma tiled_total: "tiled a xs e \<Longrightarrow> e = a + free_bytes xs + used_bytes xs"
  by (induction a xs e rule: tiled.induct) auto

lemma tiled_le: "tiled a xs e \<Longrightarrow> a \<le> e"
  using tiled_total by fastforce

lemma tiled_addr:
  "tiled a xs e \<Longrightarrow> (b, sz, f) \<in> set xs \<Longrightarrow> a \<le> unat b \<and> unat b + 32 + unat sz \<le> e"
  by (induction xs arbitrary: a) (fastforce dest: tiled_le)+

lemma tiled_addrs: "tiled a xs e \<Longrightarrow> x \<in> addrs xs \<Longrightarrow> a \<le> unat x \<and> unat x + 32 \<le> e"
  using tiled_addr by fastforce

lemma tiled_hd_addr: "tiled a xs e \<Longrightarrow> xs \<noteq> [] \<Longrightarrow> unat (hd_addr xs nx) = a"
  by (cases xs) auto

lemma tiled_disjoint:
  assumes "tiled a xs m" and "tiled m ys e" and "x \<in> addrs xs" and "y \<in> addrs ys"
  shows "x \<noteq> y"
  using tiled_addrs [OF assms(1,3)] tiled_addrs [OF assms(2,4)] by auto

lemma coalesced_append: "coalesced (xs @ ys) \<longleftrightarrow> coalesced xs \<and> coalesced ys \<and>
    (xs = [] \<or> ys = [] \<or> \<not> (snd (snd (last xs)) \<and> snd (snd (hd ys))))"
  by (simp add: coalesced_def successively_append_iff)

lemma coalesced_Cons: "coalesced ((b, sz, f) # xs) \<longleftrightarrow> coalesced xs \<and> (xs = [] \<or> \<not> (f \<and> snd (snd (hd xs))))"
  by (cases xs) (auto simp: coalesced_def)

lemma coalesced_Nil [simp]: "coalesced []"
  by (simp add: coalesced_def)

text \<open>The header of the next block is where the code expects it; the one of the first block may
  get another predecessor.\<close>

lemma heap_seg_set_prev:
  assumes "heap_seg h pr cs nx" and "cs \<noteq> []" and "tiled a cs e"
  shows "heap_seg (h(hd_addr cs nx := (h (hd_addr cs nx))\<lparr>kb_prev := n\<rparr>)) n cs nx"
proof (cases cs)
  case (Cons x xs)
  obtain c t f where x: "x = (c, t, f)" by (cases x)
  have "c \<notin> addrs xs"
    using assms(3) Cons x tiled_addrs [of "a + 32 + unat t" xs e c] by auto
  then have "heap_seg (h(c := (h c)\<lparr>kb_prev := n\<rparr>)) c xs nx = heap_seg h c xs nx"
    by (intro heap_seg_frame) auto
  with assms(1) show ?thesis by (simp add: Cons x)
qed (use assms(2) in simp)

section \<open>Invariant\<close>

definition kheap_rep :: "kheap \<Rightarrow> hblk list \<Rightarrow> bool" where
  "kheap_rep s xs \<longleftrightarrow> kh_initialized s \<and> xs \<noteq> [] \<and> heap_start s = hd_addr xs NULL \<and>
     heap_seg (kh_blocks s) NULL xs NULL \<and>
     tiled (unat (heap_start s)) xs (unat (heap_start s) + unat (kh_total_size s)) \<and>
     unat (heap_start s) + unat (kh_total_size s) \<le> 2 ^ 64 \<and> unat (kh_total_size s) \<le> 2 ^ 63 \<and>
     kh_free_size s = of_nat (free_bytes xs) \<and> kh_used_size s = of_nat (used_bytes xs) \<and>
     kh_block_count s = of_nat (length xs)"

definition kheap_inv :: "kheap \<Rightarrow> hblk list \<Rightarrow> bool" where
  "kheap_inv s xs \<longleftrightarrow> kheap_rep s xs \<and> coalesced xs"

lemma kheap_rep_update:
  assumes rep: "kheap_rep s xs" and "xs' \<noteq> []" and hd: "hd_addr xs' NULL = hd_addr xs NULL"
    and "heap_seg (kh_blocks s') NULL xs' NULL"
    and "tiled (unat (heap_start s)) xs' (unat (heap_start s) + unat (kh_total_size s))"
    and same: "heap_start s' = heap_start s" "kh_total_size s' = kh_total_size s" "kh_initialized s' = kh_initialized s"
    and "kh_free_size s' = of_nat (free_bytes xs')" and "kh_used_size s' = of_nat (used_bytes xs')"
    and "kh_block_count s' = of_nat (length xs')"
  shows "kheap_rep s' xs'"
proof -
  have "kh_initialized s" "heap_start s = hd_addr xs NULL"
    "unat (heap_start s) + unat (kh_total_size s) \<le> 2 ^ 64" "unat (kh_total_size s) \<le> 2 ^ 63"
    using rep unfolding kheap_rep_def by blast+
  with assms(2,4,5,9-) show ?thesis unfolding kheap_rep_def same hd by blast
qed

lemma kheap_repD:
  assumes "kheap_rep s xs"
  shows "heap_seg (kh_blocks s) NULL xs NULL"
    and "tiled (unat (heap_start s)) xs (unat (heap_start s) + unat (kh_total_size s))"
    and "kh_free_size s = of_nat (free_bytes xs)" and "kh_used_size s = of_nat (used_bytes xs)"
    and "kh_block_count s = of_nat (length xs)" and "kh_initialized s"
    and "heap_start s = hd_addr xs NULL" and "unat (heap_start s) + unat (kh_total_size s) \<le> 2 ^ 64"
  using assms unfolding kheap_rep_def by blast+

lemma kheap_rep_total:
  assumes "kheap_rep s xs"
  shows "free_bytes xs + used_bytes xs = unat (kh_total_size s)"
proof -
  have "tiled (unat (heap_start s)) xs (unat (heap_start s) + unat (kh_total_size s))"
    using assms unfolding kheap_rep_def by blast
  from tiled_total [OF this] show ?thesis by simp
qed

text \<open>The bounds of one block in the middle of the list.\<close>

lemma kheap_rep_split:
  assumes "kheap_rep s (as @ (b, t, f) # cs)"
  obtains e where "tiled (unat (heap_start s)) as (unat b)" "tiled (unat b + 32 + unat t) cs e"
    "e \<le> 2 ^ 64" "unat b + 32 + unat t \<le> e" "unat t < 2 ^ 63"
    "e = unat (heap_start s) + unat (kh_total_size s)"
proof -
  let ?e = "unat (heap_start s) + unat (kh_total_size s)"
  obtain t': "tiled (unat (heap_start s)) as (unat b)" "tiled (unat b + 32 + unat t) cs ?e"
    using assms by (auto simp: kheap_rep_def)
  moreover have "?e \<le> 2 ^ 64" "unat (kh_total_size s) \<le> 2 ^ 63"
    using assms unfolding kheap_rep_def by blast+
  moreover have "unat (heap_start s) \<le> unat b" by (rule tiled_le [OF t'(1)])
  moreover have "unat b + 32 + unat t \<le> ?e" by (rule tiled_le [OF t'(2)])
  ultimately show thesis by (intro that [of ?e]) auto
qed

lemma kh_find_list:
  assumes "heap_seg (kh_blocks s) pr xs NULL"
  shows "kh_find s req (hd_addr xs NULL) =
    Some (case List.find (\<lambda>(b, sz, f). f \<and> req \<le> sz) xs of None \<Rightarrow> NULL | Some (b, _, _) \<Rightarrow> b)"
  using assms
proof (induction xs arbitrary: pr)
  case Nil
  then show ?case by (simp add: kh_find.simps)
next
  case (Cons x xs)
  obtain b sz f where x: "x = (b, sz, f)" by (cases x)
  have "kh_find s req (hd_addr xs NULL) =
      Some (case List.find (\<lambda>(b, sz, f). f \<and> req \<le> sz) xs of None \<Rightarrow> NULL | Some (b, _, _) \<Rightarrow> b)"
    by (rule Cons.IH [of b]) (use Cons.prems x in simp)
  with Cons.prems show ?case by (simp add: x kh_find.simps [of s req b] kh_block_def)
qed

section \<open>Splitting\<close>

text \<open>The headers after \<open>split_block\<close> has cut a block.\<close>

lemma split_seg:
  assumes seg: "heap_seg h NULL (as @ (b, t, True) # cs) NULL"
    and tl: "tiled a as (unat b)" and tr: "tiled (unat b + 32 + unat t) cs e"
    and e: "unat b + 32 + unat t \<le> e" "e \<le> 2 ^ 64"
    and n: "unat n = unat b + 32 + unat req" "unat req + 32 \<le> unat t"
    and nb: "h' n = \<lparr>kb_magic = HEAP_MAGIC, kb_is_free = True, kb_size = t', kb_next = hd_addr cs NULL, kb_prev = b\<rparr>"
    and bb: "h' b = \<lparr>kb_magic = HEAP_MAGIC, kb_is_free = g, kb_size = req, kb_next = n, kb_prev = last_addr as NULL\<rparr>"
    and cc: "cs \<noteq> [] \<Longrightarrow> h' (hd_addr cs NULL) = (h (hd_addr cs NULL))\<lparr>kb_prev := n\<rparr>"
    and oth: "\<And>x. x \<noteq> n \<Longrightarrow> x \<noteq> b \<Longrightarrow> x \<noteq> hd_addr cs NULL \<Longrightarrow> h' x = h x"
  shows "heap_seg h' NULL (as @ [(b, req, g), (n, t', True)] @ cs) NULL"
proof -
  have as_lt: "unat x < unat b" if "x \<in> addrs as" for x
    using tiled_addrs [OF tl that] by simp
  have cs_ge: "unat n < unat x" if "x \<in> addrs cs" for x
    using tiled_addrs [OF tr that] n by simp
  have hd_cs: "unat b + 32 + unat t = unat (hd_addr cs NULL)" if "cs \<noteq> []"
    using tiled_hd_addr [OF tr that] by simp
  have hd_lt: "x \<noteq> hd_addr cs NULL" if "0 < unat x" "unat x \<le> unat n" for x
    using that hd_cs n by (cases "cs = []") auto
  have "heap_seg h' NULL as b = heap_seg h NULL as b"
  proof (rule heap_seg_frame)
    fix x
    assume x: "x \<in> addrs as"
    have "x \<noteq> NULL" using seg heap_seg_nonnull [OF _ x] by auto
    then show "h' x = h x"
      using as_lt [OF x] n hd_lt [of x] by (intro oth) (auto simp: unat_gt_0)
  qed
  moreover have "heap_seg h' n cs NULL"
  proof (cases "cs = []")
    case False
    have "heap_seg (h(hd_addr cs NULL := (h (hd_addr cs NULL))\<lparr>kb_prev := n\<rparr>)) n cs NULL"
      by (rule heap_seg_set_prev [where pr = b, OF _ False tr]) (use seg in simp)
    moreover have "heap_seg h' n cs NULL =
        heap_seg (h(hd_addr cs NULL := (h (hd_addr cs NULL))\<lparr>kb_prev := n\<rparr>)) n cs NULL"
    proof (rule heap_seg_frame)
      fix x
      assume x: "x \<in> addrs cs"
      have "x \<noteq> n" "x \<noteq> b" using cs_ge [OF x] n by auto
      then show "h' x = (h(hd_addr cs NULL := (h (hd_addr cs NULL))\<lparr>kb_prev := n\<rparr>)) x"
        using cc [OF False] oth by auto
    qed
    ultimately show ?thesis by simp
  qed simp
  moreover have "n \<noteq> NULL" "b \<noteq> NULL" using n seg by auto
  ultimately show ?thesis using seg nb bb by simp
qed

lemma merge_seg:
  assumes seg: "heap_seg h NULL (as @ (b, t, True) # (c, u, True) # ds) NULL"
    and tl: "tiled a as (unat b)" and tr: "tiled (unat b + 32 + unat t) ((c, u, True) # ds) e"
    and bb: "h' b = \<lparr>kb_magic = HEAP_MAGIC, kb_is_free = True, kb_size = t', kb_next = hd_addr ds NULL,
      kb_prev = last_addr as NULL\<rparr>"
    and dd: "ds \<noteq> [] \<Longrightarrow> h' (hd_addr ds NULL) = (h (hd_addr ds NULL))\<lparr>kb_prev := b\<rparr>"
    and oth: "\<And>x. x \<noteq> NULL \<Longrightarrow> x \<noteq> b \<Longrightarrow> x \<noteq> hd_addr ds NULL \<Longrightarrow> h' x = h x"
  shows "heap_seg h' NULL (as @ (b, t', True) # ds) NULL"
proof -
  have tds: "tiled (unat c + 32 + unat u) ds e" and bc: "unat b < unat c" using tr by auto
  have ds_gt: "unat b < unat x" if "x \<in> addrs ds" for x
    using tiled_addrs [OF tds that] bc by simp
  have "heap_seg h' NULL as b = heap_seg h NULL as b"
  proof (rule heap_seg_frame)
    fix x
    assume x: "x \<in> addrs as"
    have "x \<noteq> NULL" using seg heap_seg_nonnull [OF _ x] by auto
    moreover have "unat x < unat b" using tiled_addrs [OF tl x] by simp
    moreover have "unat b < unat (hd_addr ds NULL)" if "ds \<noteq> []"
      using tiled_hd_addr [OF tds that, of NULL] bc by simp
    ultimately show "h' x = h x"
      by (intro oth) (auto, cases "ds = []", auto)
  qed
  moreover have "heap_seg h' b ds NULL"
  proof (cases "ds = []")
    case False
    have "heap_seg (h(hd_addr ds NULL := (h (hd_addr ds NULL))\<lparr>kb_prev := b\<rparr>)) b ds NULL"
      by (rule heap_seg_set_prev [where pr = c, OF _ False tds]) (use seg in simp)
    moreover have "heap_seg h' b ds NULL =
        heap_seg (h(hd_addr ds NULL := (h (hd_addr ds NULL))\<lparr>kb_prev := b\<rparr>)) b ds NULL"
    proof (rule heap_seg_frame)
      fix x
      assume x: "x \<in> addrs ds"
      have "x \<noteq> b" using ds_gt [OF x] by auto
      moreover have "x \<noteq> NULL" using seg heap_seg_nonnull [OF _ x] by auto
      ultimately show "h' x = (h(hd_addr ds NULL := (h (hd_addr ds NULL))\<lparr>kb_prev := b\<rparr>)) x"
        using dd [OF False] oth by auto
    qed
    ultimately show ?thesis by simp
  qed simp
  ultimately show ?thesis using seg bb by simp
qed

section \<open>Taking a block\<close>

lemmas kh_simps = kh_block_def kh_put_def kh_set_header_def KHB_SIZE_def KHB_PTR_SIZE_def MIN_BLOCK_SIZE_def

lemma split_block_whole: "kb_size (kh_blocks s b) \<le> req + 64 \<Longrightarrow> split_block b req s = s"
  by (simp add: split_block_def kh_simps add.assoc)

lemma split_block_cut:
  assumes "\<not> kb_size (kh_blocks s b) \<le> req + 64"
    and "kh_blocks s b = \<lparr>kb_magic = mg, kb_is_free = True, kb_size = t, kb_next = c, kb_prev = pr\<rparr>"
    and "n = b + 32 + req" and "n \<noteq> b" and "c \<noteq> b" and "c \<noteq> n"
    and "h' = (kh_blocks s)(n := \<lparr>kb_magic = HEAP_MAGIC, kb_is_free = True, kb_size = t - req - 32,
      kb_next = c, kb_prev = b\<rparr>, b := \<lparr>kb_magic = mg, kb_is_free = True, kb_size = req, kb_next = n, kb_prev = pr\<rparr>)"
  shows "split_block b req s = s\<lparr>kh_blocks := (if c \<noteq> NULL then h'(c := (h' c)\<lparr>kb_prev := n\<rparr>) else h'),
    kh_block_count := kh_block_count s + 1, kh_used_size := kh_used_size s + 32,
    kh_free_size := kh_free_size s - 32\<rparr>"
proof -
  have cond: "\<not> kb_size (kh_block s b) \<le> req + KHB_SIZE + MIN_BLOCK_SIZE"
    using assms(1) by (simp add: kh_simps add.assoc)
  show ?thesis
  proof (cases "c = NULL")
    case True
    with assms(2,4-) show ?thesis
      unfolding split_block_def if_not_P [OF cond]
      by (simp add: Let_def kh_simps fun_upd_twist [of n b] flip: assms(3))
  next
    case False
    with assms(2,4-) show ?thesis
      unfolding split_block_def if_not_P [OF cond]
      by (simp add: Let_def kh_simps fun_upd_twist [of c b] flip: assms(3))
  qed
qed

lemma kh_take_whole:
  assumes rep: "kheap_rep s (as @ (b, t, True) # cs)" and "t \<le> req + 64"
    and take: "kh_take b req s = (p, s')"
  shows "kheap_rep s' (as @ (b, t, False) # cs) \<and> p = b + 40 \<and> kh_header s' p = b"
proof -
  let ?h = "kh_blocks s"
  have seg: "heap_seg ?h NULL (as @ (b, t, True) # cs) NULL" using rep by (simp add: kheap_rep_def)
  obtain e where tl: "tiled (unat (heap_start s)) as (unat b)" and tr: "tiled (unat b + 32 + unat t) cs e"
    by (rule kheap_rep_split [OF rep])
  have s': "s' = s\<lparr>kh_blocks := ?h(b := (?h b)\<lparr>kb_is_free := False\<rparr>),
      kh_free_size := kh_free_size s - t, kh_used_size := kh_used_size s + t,
      kh_backptr := (kh_backptr s)(b + 32 := b)\<rparr>" and p: "p = b + 40"
    using take seg split_block_whole [of s b req] assms(2)
    by (auto simp: kh_take_def Let_def kh_simps)
  have "b \<notin> addrs as" using tiled_addrs [OF tl] by fastforce
  moreover have "b \<notin> addrs cs" using tiled_addrs [OF tr] by fastforce
  ultimately have seg': "heap_seg (kh_blocks s') NULL (as @ (b, t, False) # cs) NULL"
    using seg by (simp add: s')
  have "kheap_rep s' (as @ (b, t, False) # cs)"
    by (rule kheap_rep_update [OF rep _ _ seg']) (use kheap_repD(2-5) [OF rep] in \<open>simp_all add: s'\<close>)
  then show ?thesis by (simp add: p kh_header_def s' KHB_PTR_SIZE_def)
qed

lemma kh_take_split:
  assumes rep: "kheap_rep s (as @ (b, t, True) # cs)" and le: "req \<le> t" and big: "\<not> t \<le> req + 64"
    and take: "kh_take b req s = (p, s')"
  shows "kheap_rep s' (as @ [(b, req, False), (b + 32 + req, t - req - 32, True)] @ cs) \<and>
    p = b + 40 \<and> kh_header s' p = b"
proof -
  let ?h = "kh_blocks s" and ?n = "b + 32 + req" and ?c = "hd_addr cs NULL"
  have seg: "heap_seg ?h NULL (as @ (b, t, True) # cs) NULL" using rep by (simp add: kheap_rep_def)
  obtain e where tl: "tiled (unat (heap_start s)) as (unat b)" and tr: "tiled (unat b + 32 + unat t) cs e"
    and e: "e \<le> 2 ^ 64" "unat b + 32 + unat t \<le> e" "unat t < 2 ^ 63"
    "e = unat (heap_start s) + unat (kh_total_size s)"
    by (rule kheap_rep_split [OF rep])
  have req: "unat req \<le> unat t" using le by (simp add: word_le_unat)
  have r64: "unat (req + 64) = unat req + 64"
    using req e(3) by (subst unat_add_u64) simp_all
  with big have rt: "unat req + 64 < unat t" by (simp add: word_le_unat)
  have b32: "unat (b + 32) = unat b + 32" using e rt by (subst unat_add_u64) simp_all
  have n: "unat ?n = unat b + 32 + unat req"
    using e rt by (subst unat_add_u64) (simp_all add: b32)
  have "unat (t - req) = unat t - unat req" using le by (rule unat_sub_le)
  then have t': "unat (t - req - 32) = unat t - unat req - 32"
    using rt by (subst unat_sub_le) (simp_all add: word_le_unat)
  have c: "?c \<noteq> NULL \<longleftrightarrow> cs \<noteq> []" "?c \<noteq> b" "?c \<noteq> ?n"
  proof -
    have "unat ?c = unat b + 32 + unat t" if "cs \<noteq> []" by (rule tiled_hd_addr [OF tr that])
    then show "?c \<noteq> NULL \<longleftrightarrow> cs \<noteq> []" "?c \<noteq> b" "?c \<noteq> ?n" using n rt seg by (cases "cs = []"; auto)+
  qed
  have nb: "?n \<noteq> b"
  proof
    assume "?n = b"
    then have "unat ?n = unat b" by (rule arg_cong)
    with n show False by simp
  qed
  have hb: "?h b = \<lparr>kb_magic = HEAP_MAGIC, kb_is_free = True, kb_size = t, kb_next = ?c, kb_prev = last_addr as NULL\<rparr>"
    using seg by simp
  define h1 where "h1 = ?h(?n := \<lparr>kb_magic = HEAP_MAGIC, kb_is_free = True, kb_size = t - req - 32,
      kb_next = ?c, kb_prev = b\<rparr>, b := \<lparr>kb_magic = HEAP_MAGIC, kb_is_free = True, kb_size = req, kb_next = ?n,
      kb_prev = last_addr as NULL\<rparr>)"
  define h2 where "h2 = (if ?c \<noteq> NULL then h1(?c := (h1 ?c)\<lparr>kb_prev := ?n\<rparr>) else h1)"
  define h' where "h' = h2(b := (h2 b)\<lparr>kb_is_free := False\<rparr>)"
  have split: "split_block b req s = s\<lparr>kh_blocks := h2, kh_block_count := kh_block_count s + 1,
      kh_used_size := kh_used_size s + 32, kh_free_size := kh_free_size s - 32\<rparr>"
    unfolding h2_def by (rule split_block_cut [OF _ hb refl nb c(2,3) h1_def]) (use big hb in simp)
  have h2b: "kb_size (h2 b) = req" using c(2) by (simp add: h2_def h1_def)
  have s': "s' = s\<lparr>kh_blocks := h', kh_block_count := kh_block_count s + 1,
      kh_used_size := kh_used_size s + 32 + req, kh_free_size := kh_free_size s - 32 - req,
      kh_backptr := (kh_backptr s)(b + 32 := b)\<rparr>" and p: "p = b + 40"
    using take h2b unfolding kh_take_def split by (auto simp: Let_def kh_simps h'_def)
  have h': "h' ?n = \<lparr>kb_magic = HEAP_MAGIC, kb_is_free = True, kb_size = t - req - 32, kb_next = ?c, kb_prev = b\<rparr>"
      "h' b = \<lparr>kb_magic = HEAP_MAGIC, kb_is_free = False, kb_size = req, kb_next = ?n, kb_prev = last_addr as NULL\<rparr>"
      "cs \<noteq> [] \<Longrightarrow> h' ?c = (?h ?c)\<lparr>kb_prev := ?n\<rparr>"
      "\<And>x. x \<noteq> ?n \<Longrightarrow> x \<noteq> b \<Longrightarrow> x \<noteq> ?c \<Longrightarrow> h' x = ?h x"
    using nb c by (simp_all add: h'_def h2_def h1_def)
  have "heap_seg h' NULL (as @ [(b, req, False), (?n, t - req - 32, True)] @ cs) NULL"
    by (rule split_seg [OF seg tl tr e(2,1) n _ h']) (use rt in auto)
  then have seg': "heap_seg (kh_blocks s') NULL (as @ [(b, req, False), (?n, t - req - 32, True)] @ cs) NULL"
    by (simp add: s')
  have "unat b + 32 + unat req + 32 + unat (t - req - 32) = unat b + 32 + unat t"
    unfolding t' using rt by simp
  then have "tiled (unat b + 32 + unat req + 32 + unat (t - req - 32)) cs e"
    using tr by (simp only:)
  then have "tiled (unat (heap_start s)) (as @ [(b, req, False), (?n, t - req - 32, True)] @ cs) e"
    using tl n by simp
  then have "kheap_rep s' (as @ [(b, req, False), (?n, t - req - 32, True)] @ cs)"
    using kheap_repD(3-5) [OF rep]
    by (intro kheap_rep_update [OF rep _ _ seg']) (simp_all add: s' e(4))
  then show ?thesis
    by (simp add: p kh_header_def s' KHB_PTR_SIZE_def)
qed

section \<open>Merging\<close>

text \<open>The two merging steps of \<open>khfree\<close> change the headers in the same way.\<close>

definition kh_merge :: "u64 \<Rightarrow> u64 \<Rightarrow> kheap \<Rightarrow> kheap" where
  "kh_merge b c s =
     (let h = kh_blocks s;
          h' = h(b := (h b)\<lparr>kb_size := kb_size (h b) + (32 + kb_size (h c)), kb_next := kb_next (h c)\<rparr>);
          nn = kb_next (h c)
      in s\<lparr>kh_blocks := (if nn \<noteq> NULL then h'(nn := (h' nn)\<lparr>kb_prev := b\<rparr>) else h'),
           kh_block_count := kh_block_count s - 1, kh_free_size := kh_free_size s + 32,
           kh_used_size := kh_used_size s - 32\<rparr>)"

lemma kh_merge_rep:
  assumes rep: "kheap_rep s (as @ (b, t, True) # (c, u, True) # ds)"
  shows "kheap_rep (kh_merge b c s) (as @ (b, t + (32 + u), True) # ds)"
proof -
  let ?h = "kh_blocks s" and ?d = "hd_addr ds NULL"
  have seg: "heap_seg ?h NULL (as @ (b, t, True) # (c, u, True) # ds) NULL"
    using kheap_repD(1) [OF rep] .
  obtain e where tl: "tiled (unat (heap_start s)) as (unat b)"
    and tr: "tiled (unat b + 32 + unat t) ((c, u, True) # ds) e"
    and e: "e \<le> 2 ^ 64" "e = unat (heap_start s) + unat (kh_total_size s)"
    by (rule kheap_rep_split [OF rep])
  have tds: "tiled (unat c + 32 + unat u) ds e" and bc: "unat c = unat b + 32 + unat t" using tr by auto
  have "unat c + 32 + unat u \<le> e" by (rule tiled_le [OF tds])
  then have room: "unat b + 32 + unat t + 32 + unat u \<le> 2 ^ 64" using e bc by simp
  have b0: "0 < unat b" using seg by (simp add: unat_gt_0)
  have "unat (32 + u) = 32 + unat u" using room b0 by (subst unat_add_u64) simp_all
  then have t': "unat (t + (32 + u)) = unat t + 32 + unat u"
    using room b0 by (subst unat_add_u64) simp_all
  have d: "?d \<noteq> NULL \<longleftrightarrow> ds \<noteq> []" "?d \<noteq> b"
  proof -
    have "unat ?d = unat c + 32 + unat u" if "ds \<noteq> []" by (rule tiled_hd_addr [OF tds that])
    then show "?d \<noteq> NULL \<longleftrightarrow> ds \<noteq> []" "?d \<noteq> b" using bc seg by (cases "ds = []"; auto)+
  qed
  have hb: "?h b = \<lparr>kb_magic = HEAP_MAGIC, kb_is_free = True, kb_size = t, kb_next = c, kb_prev = last_addr as NULL\<rparr>"
    "?h c = \<lparr>kb_magic = HEAP_MAGIC, kb_is_free = True, kb_size = u, kb_next = ?d, kb_prev = b\<rparr>"
    using seg by simp_all
  have seg': "heap_seg (kh_blocks (kh_merge b c s)) NULL (as @ (b, t + (32 + u), True) # ds) NULL"
    by (rule merge_seg [OF seg tl tr]) (use d hb in \<open>simp_all add: kh_merge_def Let_def\<close>)
  have "unat c + 32 + unat u = unat b + 32 + unat (t + (32 + u))" unfolding t' bc by simp
  then have "tiled (unat b + 32 + unat (t + (32 + u))) ds e" using tds by (simp only:)
  then have "tiled (unat (heap_start s)) (as @ (b, t + (32 + u), True) # ds) e"
    using tl by simp
  then show ?thesis
    using kheap_repD(3-5) [OF rep]
    by (intro kheap_rep_update [OF rep _ _ seg']) (simp_all add: kh_merge_def Let_def e(2) algebra_simps)
qed

lemma kh_free_mark:
  assumes rep: "kheap_rep s (as @ (b, t, False) # cs)"
    and s': "s' = s\<lparr>kh_blocks := (kh_blocks s)(b := (kh_blocks s b)\<lparr>kb_is_free := True\<rparr>),
      kh_free_size := kh_free_size s + t, kh_used_size := kh_used_size s - t\<rparr>"
  shows "kheap_rep s' (as @ (b, t, True) # cs)"
proof -
  obtain e where tl: "tiled (unat (heap_start s)) as (unat b)" and tr: "tiled (unat b + 32 + unat t) cs e"
    by (rule kheap_rep_split [OF rep])
  have "b \<notin> addrs as" using tiled_addrs [OF tl] by fastforce
  moreover have "b \<notin> addrs cs" using tiled_addrs [OF tr] by fastforce
  ultimately have seg': "heap_seg (kh_blocks s') NULL (as @ (b, t, True) # cs) NULL"
    using kheap_repD(1) [OF rep] by (simp add: s')
  show ?thesis
    by (rule kheap_rep_update [OF rep _ _ seg']) (use kheap_repD(2-5) [OF rep] in \<open>simp_all add: s'\<close>)
qed

lemma khfree_merge_next_eq:
  assumes "kb_next (kh_blocks s b) = c" and "c \<noteq> b"
  shows "khfree_merge_next b s = (if c \<noteq> NULL \<and> kb_is_free (kh_blocks s c) then kh_merge b c s else s)"
  using assms by (simp add: khfree_merge_next_def kh_simps kh_merge_def Let_def)

lemma khfree_merge_prev_eq:
  assumes "kb_prev (kh_blocks s b) = pr" and "pr \<noteq> b"
  shows "khfree_merge_prev b s = (if pr \<noteq> NULL \<and> kb_is_free (kh_blocks s pr) then kh_merge pr b s else s)"
  using assms by (simp add: khfree_merge_prev_def kh_simps kh_merge_def Let_def)

text \<open>The blocks in use, with their sizes.\<close>

definition used :: "hblk list \<Rightarrow> (u64 \<times> u64) set" where
  "used xs = {(b, t). (b, t, False) \<in> set xs}"

lemma used_simps [simp]:
  "used [] = {}" "used ((b, t, True) # xs) = used xs" "used ((b, t, False) # xs) = insert (b, t) (used xs)"
  "used (xs @ ys) = used xs \<union> used ys"
  by (auto simp: used_def)

lemma used_iff: "(b, t) \<in> used xs \<longleftrightarrow> (b, t, False) \<in> set xs"
  by (simp add: used_def)

text \<open>Both merging steps on the list of blocks; their result has no free neighbours where they
  looked.\<close>

lemma khfree_merge_next_rep:
  assumes rep: "kheap_rep s (as @ (b, t, True) # cs)" and "coalesced cs"
  shows "\<exists>t' cs'. kheap_rep (khfree_merge_next b s) (as @ (b, t', True) # cs') \<and>
    coalesced ((b, t', True) # cs') \<and> used cs' = used cs"
proof -
  let ?c = "hd_addr cs NULL"
  have seg: "heap_seg (kh_blocks s) NULL (as @ (b, t, True) # cs) NULL" using kheap_repD(1) [OF rep] .
  obtain e where tr: "tiled (unat b + 32 + unat t) cs e" by (rule kheap_rep_split [OF rep])
  have "?c \<noteq> b" using tiled_hd_addr [OF tr, of NULL] seg by (cases "cs = []") auto
  with seg have eq: "khfree_merge_next b s =
      (if ?c \<noteq> NULL \<and> kb_is_free (kh_blocks s ?c) then kh_merge b ?c s else s)"
    by (intro khfree_merge_next_eq) simp_all
  show ?thesis
  proof (cases cs)
    case Nil
    with rep show ?thesis
      by (intro exI [of _ t] exI [of _ "[]"]) (simp add: eq coalesced_Cons)
  next
    case (Cons x ds)
    obtain c u f where x: "x = (c, u, f)" by (cases x)
    have hc: "?c = c" "c \<noteq> NULL" "kb_is_free (kh_blocks s c) = f" using seg by (simp_all add: Cons x)
    show ?thesis
    proof (cases f)
      case False
      then have "khfree_merge_next b s = s" by (simp add: eq hc)
      with rep assms(2) False show ?thesis
        by (intro exI [of _ t] exI [of _ cs]) (simp add: Cons x coalesced_Cons)
    next
      case True
      have "kheap_rep (kh_merge b c s) (as @ (b, t + (32 + u), True) # ds)"
        by (rule kh_merge_rep) (use rep in \<open>simp add: Cons x True\<close>)
      moreover have "coalesced ((b, t + (32 + u), True) # ds)"
        using assms(2) True by (auto simp: Cons x coalesced_Cons)
      ultimately show ?thesis
        using True by (intro exI [of _ "t + (32 + u)"] exI [of _ ds]) (simp add: eq hc Cons x True)
    qed
  qed
qed

lemma last_addr_snoc [simp]: "last_addr (xs @ [(b, t, f)]) pr = b"
  by (induction xs arbitrary: pr) auto

lemma khfree_merge_prev_rep:
  assumes rep: "kheap_rep s (as @ (b, t, True) # cs)" and "coalesced as" and "coalesced ((b, t, True) # cs)"
  shows "\<exists>xs. kheap_rep (khfree_merge_prev b s) xs \<and> coalesced xs \<and> used xs = used as \<union> used cs"
proof (cases as rule: rev_cases)
  case Nil
  have "kb_prev (kh_blocks s b) = NULL \<and> b \<noteq> NULL" using kheap_repD(1) [OF rep] by (simp add: Nil)
  then have "khfree_merge_prev b s = s" using khfree_merge_prev_eq [of s b NULL] by simp
  with rep assms(3) show ?thesis by (intro exI [of _ "(b, t, True) # cs"]) (simp add: Nil)
next
  case (snoc bs x)
  obtain p u f where x: "x = (p, u, f)" by (cases x)
  have seg: "heap_seg (kh_blocks s) NULL (bs @ (p, u, f) # (b, t, True) # cs) NULL"
    using kheap_repD(1) [OF rep] by (simp add: snoc x)
  have "kheap_rep s (bs @ (p, u, f) # (b, t, True) # cs)" using rep by (simp add: snoc x)
  then obtain e where tr: "tiled (unat p + 32 + unat u) ((b, t, True) # cs) e"
    by (rule kheap_rep_split)
  then have "p \<noteq> b" by auto
  then have eq: "khfree_merge_prev b s = (if p \<noteq> NULL \<and> kb_is_free (kh_blocks s p) then kh_merge p b s else s)"
    by (rule khfree_merge_prev_eq [rotated]) (use seg in simp)
  have hp: "p \<noteq> NULL" "kb_is_free (kh_blocks s p) = f" using seg by simp_all
  show ?thesis
  proof (cases f)
    case False
    then have "khfree_merge_prev b s = s" by (simp add: eq hp)
    with rep assms(2,3) False show ?thesis
      by (intro exI [of _ "as @ (b, t, True) # cs"]) (auto simp: snoc x coalesced_append coalesced_Cons)
  next
    case True
    have "kheap_rep (kh_merge p b s) (bs @ (p, u + (32 + t), True) # cs)"
      by (rule kh_merge_rep) (use rep in \<open>simp add: snoc x True\<close>)
    moreover have "coalesced (bs @ (p, u + (32 + t), True) # cs)"
      using assms(2,3) True by (auto simp: snoc x coalesced_append coalesced_Cons)
    ultimately show ?thesis
      using True by (intro exI [of _ "bs @ (p, u + (32 + t), True) # cs"]) (auto simp: eq hp snoc x)
  qed
qed

lemma khfree_rep:
  assumes rep: "kheap_rep s (as @ (b, t, False) # cs)" and co: "coalesced (as @ (b, t, False) # cs)"
    and "ptr \<noteq> NULL" and "kh_header s ptr = b"
  shows "\<exists>xs. kheap_inv (khfree s ptr) xs \<and> used xs = used as \<union> used cs"
proof -
  have hb: "kh_blocks s b = \<lparr>kb_magic = HEAP_MAGIC, kb_is_free = False, kb_size = t,
      kb_next = hd_addr cs NULL, kb_prev = last_addr as NULL\<rparr>"
    using kheap_repD(1) [OF rep] by simp
  have "khfree_mark b s = s\<lparr>kh_blocks := (kh_blocks s)(b := (kh_blocks s b)\<lparr>kb_is_free := True\<rparr>),
      kh_free_size := kh_free_size s + t, kh_used_size := kh_used_size s - t\<rparr>"
    by (simp add: khfree_mark_def Let_def kh_simps hb)
  then have "kheap_rep (khfree_mark b s) (as @ (b, t, True) # cs)" by (rule kh_free_mark [OF rep])
  then obtain t' cs' where two: "kheap_rep (khfree_merge_next b (khfree_mark b s)) (as @ (b, t', True) # cs')"
    "coalesced ((b, t', True) # cs')" "used cs' = used cs"
    using khfree_merge_next_rep co by (metis coalesced_append coalesced_Cons)
  have "coalesced as" using co by (simp add: coalesced_append)
  with two obtain xs where "kheap_rep (khfree_merge_prev b (khfree_merge_next b (khfree_mark b s))) xs"
    "coalesced xs" "used xs = used as \<union> used cs'"
    using khfree_merge_prev_rep by blast
  moreover have "khfree s ptr = khfree_merge_prev b (khfree_merge_next b (khfree_mark b s))"
    using assms(3,4) kheap_repD(6) [OF rep] by (simp add: khfree_def kh_block_def hb)
  ultimately show ?thesis
    using two(3) unfolding kheap_inv_def by (intro exI [of _ xs]) auto
qed

section \<open>Allocation on the list of blocks\<close>

lemma find_split: "List.find P xs = Some x \<Longrightarrow> \<exists>as cs. xs = as @ x # cs \<and> P x"
  by (metis (mono_tags, lifting) find_Some_iff in_set_conv_decomp nth_mem)

lemma kh_take_inv:
  assumes inv: "kheap_inv s (as @ (b, t, True) # cs)" and le: "req \<le> t" and take: "kh_take b req s = (p, s')"
  shows "\<exists>u ys. kheap_inv s' (as @ (b, u, False) # ys) \<and> req \<le> u \<and> u \<le> t \<and>
    (\<forall>x. \<not> snd (snd x) \<longrightarrow> x \<in> set ys \<longleftrightarrow> x \<in> set cs) \<and> p = b + 40 \<and> kh_header s' p = b"
proof -
  have rep: "kheap_rep s (as @ (b, t, True) # cs)" and co: "coalesced (as @ (b, t, True) # cs)"
    using inv by (simp_all add: kheap_inv_def)
  show ?thesis
  proof (cases "t \<le> req + 64")
    case True
    have "coalesced (as @ (b, t, False) # cs)"
      using co by (auto simp: coalesced_append coalesced_Cons)
    with kh_take_whole [OF rep True take] le show ?thesis
      by (intro exI [of _ t] exI [of _ cs]) (auto simp: kheap_inv_def)
  next
    case False
    let ?n = "(b + 32 + req, t - req - 32, True)"
    have "coalesced (as @ (b, req, False) # ?n # cs)"
      using co by (auto simp: coalesced_append coalesced_Cons)
    with kh_take_split [OF rep le False take] le show ?thesis
      by (intro exI [of _ req] exI [of _ "?n # cs"]) (auto simp: kheap_inv_def)
  qed
qed

lemma khmalloc_cases:
  assumes inv: "kheap_inv s xs" and "sz \<noteq> 0" and req: "req = ((sz + 7) AND NOT 7) + 8"
  obtains (fail) "khmalloc s sz = Some (NULL, s)" "\<forall>(b, t, f) \<in> set xs. f \<longrightarrow> t < req"
  | (take) as b t cs where "xs = as @ (b, t, True) # cs" "req \<le> t"
      "khmalloc s sz = Some (kh_take b req s)"
proof -
  have rep: "kheap_rep s xs" using inv by (simp add: kheap_inv_def)
  let ?find = "List.find (\<lambda>(b, sz, f). f \<and> req \<le> sz) xs"
  have find: "kh_find s req (heap_start s) = Some (case ?find of None \<Rightarrow> NULL | Some (b, _, _) \<Rightarrow> b)"
    using kh_find_list [OF kheap_repD(1) [OF rep]] kheap_repD(7) [OF rep] by simp
  have malloc: "khmalloc s sz = map_option (\<lambda>c. if c = NULL then (NULL, s) else kh_take c req s)
      (kh_find s req (heap_start s))"
    using kheap_repD(6) [OF rep] assms(2) unfolding khmalloc_def Let_def req KHB_PTR_SIZE_def by simp
  show thesis
  proof (cases ?find)
    case None
    then have "\<forall>(b, t, f) \<in> set xs. f \<longrightarrow> t < req"
      by (auto simp: find_None_iff not_le)
    moreover have "khmalloc s sz = Some (NULL, s)" by (simp add: malloc find None)
    ultimately show thesis by (intro fail)
  next
    case (Some x)
    obtain b t f where x: "x = (b, t, f)" by (cases x)
    obtain as cs where "xs = as @ (b, t, f) # cs" "f \<and> req \<le> t"
      using find_split [OF Some] by (auto simp: x)
    moreover from this have "b \<noteq> NULL" using kheap_repD(1) [OF rep] by simp
    ultimately show thesis
      using Some by (intro take [of as b t cs]) (simp_all add: malloc find x)
  qed
qed

text \<open>The rounded request, when the addition does not wrap around.\<close>

lemma round_up_8:
  fixes sz :: u64
  assumes "unat sz < 2 ^ 64 - 16"
  shows "unat sz + 8 \<le> unat (((sz + 7) AND NOT 7) + 8)"
proof -
  have "(7 :: u64) = mask 3" by (simp add: mask_eq_exp_minus_1)
  then have "unat ((sz + 7) AND NOT 7) = unat (sz + 7) - unat (sz + 7) mod 8"
    using and_not_mask_unat [of "sz + 7" 3] by simp
  moreover have "unat (sz + 7) = unat sz + 7" using assms by (subst unat_add_u64) simp_all
  moreover have "(unat sz + 7) mod 8 < 8" by simp
  ultimately have r: "unat sz \<le> unat ((sz + 7) AND NOT 7)" "unat ((sz + 7) AND NOT 7) \<le> unat sz + 7"
    by linarith+
  with assms show ?thesis by (subst unat_add_u64) simp_all
qed

lemma tiled_disjoint_blocks:
  assumes "tiled a xs e" and "(b, t, f) \<in> set xs" and "(c, u, g) \<in> set xs" and "(b, t, f) \<noteq> (c, u, g)"
  shows "unat b + 32 + unat t \<le> unat c \<or> unat c + 32 + unat u \<le> unat b"
  using assms
proof (induction xs arbitrary: a)
  case (Cons x xs)
  obtain d v h where x: "x = (d, v, h)" by (cases x)
  have rest: "tiled (a + 32 + unat v) xs e" "unat d = a" using Cons.prems(1) by (simp_all add: x)
  show ?case
    using Cons.IH [OF rest(1)] Cons.prems(2-4) tiled_addr [OF rest(1), of b t f] tiled_addr [OF rest(1), of c u g] rest(2)
    by (auto simp: x)
qed simp

lemma tiled_distinct:
  assumes "tiled a xs e"
  shows "distinct (map fst xs)"
  using assms
proof (induction xs arbitrary: a)
  case (Cons x xs)
  obtain d v h where x: "x = (d, v, h)" by (cases x)
  have rest: "tiled (a + 32 + unat v) xs e" "unat d = a" using Cons.prems by (simp_all add: x)
  have "d \<noteq> c" if "(c, u, g) \<in> set xs" for c u g using tiled_addr [OF rest(1) that] rest(2) by auto
  then have "d \<notin> fst ` set xs" by force
  then show ?case using Cons.IH [OF rest(1)] by (simp add: x)
qed simp

text \<open>A heap with a free block that is large enough gives memory, and keeps the rest of that block.\<close>

definition kh_room :: "kheap \<Rightarrow> nat \<Rightarrow> bool" where
  "kh_room s r \<longleftrightarrow> (\<exists>xs b t. kheap_inv s xs \<and> (b, t, True) \<in> set xs \<and> r \<le> unat t)"

lemma round_up_8_le:
  fixes sz :: u64
  assumes "unat sz < 2 ^ 64 - 16"
  shows "unat (((sz + 7) AND NOT 7) + 8) \<le> unat sz + 15"
proof -
  have "unat (sz + 7) = unat sz + 7" using assms by (subst unat_add_u64) simp_all
  moreover have "unat ((sz + 7) AND NOT 7) \<le> unat (sz + 7)"
    using word_and_le2 [of "sz + 7" "NOT 7"] by (simp only: word_le_nat_alt)
  ultimately have le: "unat ((sz + 7) AND NOT 7) \<le> unat sz + 7" by simp
  then have "unat ((sz + 7) AND NOT 7) + unat (8 :: u64) < 2 ^ 64" using assms by simp
  then show ?thesis using le by (simp add: unat_add_u64)
qed

lemma kh_take_room:
  assumes inv: "kheap_inv s (as @ (b, t, True) # cs)" and le: "req \<le> t" and take: "kh_take b req s = (p, s')"
    and room: "(c, u, True) \<in> set (as @ (b, t, True) # cs)" "r \<le> unat u" "unat req + 96 < r"
  shows "kh_room s' (r - unat req - 32)"
proof -
  have rep: "kheap_rep s (as @ (b, t, True) # cs)" and co: "coalesced (as @ (b, t, True) # cs)"
    using inv by (simp_all add: kheap_inv_def)
  have req64: "unat (req + 64) = unat req + 64"
    using le_less_trans [OF room(2) unat_u64_bound] room(3) by (subst unat_add_u64) simp_all
  show ?thesis
  proof (cases "t \<le> req + 64")
    case True
    have "coalesced (as @ (b, t, False) # cs)" using co by (auto simp: coalesced_append coalesced_Cons)
    then have "kheap_inv s' (as @ (b, t, False) # cs)" using kh_take_whole [OF rep True take] by (simp add: kheap_inv_def)
    moreover have "u \<noteq> t" using True room(2,3) req64 by (auto simp: word_le_nat_alt)
    ultimately show ?thesis using room unfolding kh_room_def
      by (intro exI [of _ "as @ (b, t, False) # cs"] exI [of _ c] exI [of _ u]) auto
  next
    case False
    let ?xs = "as @ (b, req, False) # (b + 32 + req, t - req - 32, True) # cs"
    have "coalesced ?xs" using co by (auto simp: coalesced_append coalesced_Cons)
    then have inv': "kheap_inv s' ?xs" using kh_take_split [OF rep le False take] by (simp add: kheap_inv_def)
    have tr: "unat (t - req) = unat t - unat req" by (rule unat_sub_le [OF le])
    then have "(32 :: u64) \<le> t - req" using False req64 by (simp add: word_le_nat_alt)
    then have "unat (t - req - 32) = unat t - unat req - 32" by (simp add: unat_sub_le tr)
    then have same: "r - unat req - 32 \<le> unat (t - req - 32)" if "(c, u) = (b, t)" using that room(2) by simp
    have "\<exists>c u. (c, u, True) \<in> set ?xs \<and> r - unat req - 32 \<le> unat u"
    proof (cases "(c, u) = (b, t)")
      case True
      then show ?thesis using same by (intro exI [of _ "b + 32 + req"] exI [of _ "t - req - 32"]) simp
    next
      case False
      then show ?thesis using room by (intro exI [of _ c] exI [of _ u]) auto
    qed
    then show ?thesis using inv' unfolding kh_room_def by blast
  qed
qed

section \<open>An example heap\<close>

text \<open>One page at 65536: a block of 40 bytes in use, the rest free.\<close>

definition kheap_example :: kheap where
  "kheap_example = \<lparr>heap_start = 65536,
     kh_blocks = (\<lambda>a. if a = 65536
       then \<lparr>kb_magic = HEAP_MAGIC, kb_is_free = False, kb_size = 40, kb_next = 65608, kb_prev = 0\<rparr>
       else \<lparr>kb_magic = HEAP_MAGIC, kb_is_free = True, kb_size = 3992, kb_next = 0, kb_prev = 65536\<rparr>),
     kh_backptr = (\<lambda>a. if a = 65568 then 65536 else 0),
     kh_total_size = 4096, kh_used_size = 104, kh_free_size = 3992, kh_block_count = 2,
     kh_initialized = True\<rparr>"

lemma kheap_example_inv: "kheap_inv kheap_example [(65536, 40, False), (65608, 3992, True)]"
  by (simp add: kheap_inv_def kheap_rep_def kheap_example_def coalesced_Cons)

lemma khmalloc_block:
  assumes inv: "kheap_inv s xs" and sz: "sz \<noteq> 0" "unat sz < 2 ^ 64 - 16"
  shows "(khmalloc s sz = Some (NULL, s) \<and> (\<forall>(b, t, f) \<in> set xs. f \<longrightarrow> t < ((sz + 7) AND NOT 7) + 8)) \<or>
    (\<exists>b u s' xs'. khmalloc s sz = Some (b + 40, s') \<and> kheap_inv s' xs' \<and> (b, u, False) \<in> set xs' \<and>
      kh_header s' (b + 40) = b \<and> unat b + 40 + unat sz \<le> unat b + 32 + unat u \<and>
      (\<exists>t. (b, t, True) \<in> set xs) \<and>
      (\<forall>c v. (c, v, False) \<in> set xs \<longrightarrow> (c, v, False) \<in> set xs' \<and>
        (unat b + 32 + unat u \<le> unat c \<or> unat c + 32 + unat v \<le> unat b)) \<and> used xs' = insert (b, u) (used xs))"
proof -
  define req where "req = ((sz + 7) AND NOT 7) + 8"
  have le: "unat sz + 8 \<le> unat req" unfolding req_def by (rule round_up_8 [OF sz(2)])
  from inv sz(1) req_def show ?thesis
  proof (cases rule: khmalloc_cases)
    case fail
    then show ?thesis unfolding req_def by blast
  next
    case (take as b t cs)
    obtain p s' where tk: "kh_take b req s = (p, s')" by fastforce
    obtain u ys where new: "kheap_inv s' (as @ (b, u, False) # ys)" "req \<le> u"
      "\<forall>x. \<not> snd (snd x) \<longrightarrow> x \<in> set ys \<longleftrightarrow> x \<in> set cs" "p = b + 40" "kh_header s' p = b"
      using kh_take_inv [OF inv [unfolded take(1)] take(2) tk] by blast
    let ?ys = "as @ (b, u, False) # ys"
    have old: "(c, v, False) \<in> set ?ys \<and> (c, v, False) \<noteq> (b, u, False)" if "(c, v, False) \<in> set xs" for c v
    proof -
      have "c \<noteq> b"
        using tiled_disjoint_blocks [OF kheap_repD(2), of s xs c v False b t True] inv that take(1)
        by (auto simp: kheap_inv_def)
      with that new(3) show ?thesis by (auto simp: take(1))
    qed
    have sep: "unat b + 32 + unat u \<le> unat c \<or> unat c + 32 + unat v \<le> unat b" if "(c, v, False) \<in> set xs" for c v
      using tiled_disjoint_blocks [OF kheap_repD(2), of s' ?ys b u False c v False] new(1) old [OF that]
      by (auto simp: kheap_inv_def)
    have "unat b + 40 + unat sz \<le> unat b + 32 + unat u"
      using le new(2) by (simp add: word_le_unat)
    moreover have "used ys = used cs" using new(3) by (auto simp: used_def)
    ultimately show ?thesis using take tk new(1,4,5) old sep
      by (intro disjI2 exI [of _ b] exI [of _ u] exI [of _ s'] exI [of _ ?ys]) auto
  qed
qed

lemma kheap_payload_not_NULL:
  assumes "kheap_inv s xs" and "(b, u, f) \<in> set xs" and "8 < unat u"
  shows "b + 40 \<noteq> NULL"
proof -
  have rep: "kheap_rep s xs" using assms(1) by (simp add: kheap_inv_def)
  have "unat b + 40 < 2 ^ 64"
    using tiled_addr [OF kheap_repD(2) [OF rep] assms(2)] kheap_repD(8) [OF rep] assms(3) by linarith
  then have "unat (b + 40) = unat b + 40" by (subst unat_add_u64) simp_all
  then show ?thesis by (metis add_is_0 unat_0 zero_neq_numeral)
qed

lemma khmalloc_room:
  assumes room: "kh_room s r" and "sz \<noteq> 0" and sz: "unat sz + 112 \<le> r"
  shows "\<exists>p s'. khmalloc s sz = Some (p, s') \<and> p \<noteq> NULL \<and> kh_room s' (r - (unat sz + 47))"
proof -
  obtain xs c u where inv: "kheap_inv s xs" and u: "(c, u, True) \<in> set xs" "r \<le> unat u"
    using room by (auto simp: kh_room_def)
  have small: "unat sz < 2 ^ 64 - 16" using sz u(2) unat_u64_bound [of u] by linarith
  define req where "req = ((sz + 7) AND NOT 7) + 8"
  have le: "unat sz + 8 \<le> unat req" "unat req \<le> unat sz + 15"
    unfolding req_def using round_up_8 [OF small] round_up_8_le [OF small] by simp_all
  have ge: "unat req + 96 < r" using le(2) sz by linarith
  from inv assms(2) req_def show ?thesis
  proof (cases rule: khmalloc_cases)
    case fail
    then show ?thesis using u ge by (auto simp: word_less_nat_alt)
  next
    case (take as b t cs)
    obtain p s' where tk: "kh_take b req s = (p, s')" by fastforce
    obtain v ys where new: "kheap_inv s' (as @ (b, v, False) # ys)" "req \<le> v" "p = b + 40"
      using kh_take_inv [OF inv [unfolded take(1)] take(2) tk] by blast
    have "0 < unat sz" using assms(2) by (simp add: unat_gt_0)
    then have "8 < unat v" using new(2) le(1) unfolding word_le_nat_alt by linarith
    then have "b + 40 \<noteq> NULL" by (intro kheap_payload_not_NULL [OF new(1), of b v False]) simp_all
    moreover have "kh_room s' (r - unat req - 32)"
      by (rule kh_take_room [OF inv [unfolded take(1)] take(2) tk u(1) [unfolded take(1)] u(2) ge])
    moreover have "r - (unat sz + 47) \<le> r - unat req - 32" using le(2) by linarith
    ultimately have "kh_room s' (r - (unat sz + 47))" "b + 40 \<noteq> NULL" unfolding kh_room_def by (blast intro: le_trans)+
    then show ?thesis using take(3) tk new(3) by simp
  qed
qed

lemma khfree_block:
  assumes inv: "kheap_inv s xs" and b: "(b, t, False) \<in> set xs" and "ptr \<noteq> NULL" and "kh_header s ptr = b"
  shows "\<exists>xs'. kheap_inv (khfree s ptr) xs' \<and> used xs' = used xs - {(b, t)}"
proof -
  obtain as cs where xs: "xs = as @ (b, t, False) # cs"
    using b by (meson split_list)
  have rep: "kheap_rep s xs" using inv by (simp add: kheap_inv_def)
  have "distinct (map fst xs)" by (rule tiled_distinct [OF kheap_repD(2) [OF rep]])
  then have "(b, t) \<notin> used as \<union> used cs" by (auto simp: xs used_iff image_iff)
  then have "used as \<union> used cs = used xs - {(b, t)}" by (auto simp: xs)
  then show ?thesis using khfree_rep [of s as b t cs ptr] assms by (auto simp: kheap_inv_def xs)
qed

section \<open>The interface of the heap\<close>

text \<open>
  What a client of the heap relies on: a block that is handed out is none of the blocks handed
  out before, and releasing a block keeps the others.  \<open>hrep s A\<close> says that exactly the blocks \<open>A\<close> are in
  use, so that a client that keeps \<open>A\<close> has given back all it took.
\<close>

locale heap_allocator =
  fixes malloc :: "u64 \<Rightarrow> 's \<Rightarrow> (u64 \<times> 's) option" and mfree :: "u64 \<Rightarrow> 's \<Rightarrow> 's"
    and hrep :: "'s \<Rightarrow> u64 set \<Rightarrow> bool"
  assumes malloc_rep: "hrep s A \<Longrightarrow> unat n < 2 ^ 64 - 16 \<Longrightarrow>
      \<exists>p s'. malloc n s = Some (p, s') \<and> (p = NULL \<and> hrep s' A \<or> p \<noteq> NULL \<and> p \<notin> A \<and> hrep s' (insert p A))"
    and mfree_rep: "hrep s A \<Longrightarrow> p \<in> A \<Longrightarrow> hrep (mfree p s) (A - {p})"
begin

lemma malloc_mfree:
  assumes "hrep s A" and "unat n < 2 ^ 64 - 16" and "malloc n s = Some (p, s')" and "p \<noteq> NULL"
  shows "hrep (mfree p s') A"
proof -
  have "p \<notin> A" "hrep s' (insert p A)" using malloc_rep [OF assms(1,2)] assms(3,4) by auto
  then show ?thesis using mfree_rep [of s' "insert p A" p] by simp
qed

end

definition heap_blocks :: "kheap \<Rightarrow> u64 set \<Rightarrow> bool" where
  "heap_blocks s A \<longleftrightarrow> (\<exists>xs. kheap_inv s xs \<and> fst ` used xs = (\<lambda>p. p - 40) ` A \<and> (\<forall>p\<in>A. p \<noteq> NULL \<and> kh_header s p = p - 40))"

lemma kh_put_backptr [simp]: "kh_backptr (kh_put b v s) = kh_backptr s"
  by (simp add: kh_put_def)

lemma merge_backptr:
  "kh_backptr (khfree_mark b s) = kh_backptr s" "kh_backptr (khfree_merge_next b s) = kh_backptr s"
  "kh_backptr (khfree_merge_prev b s) = kh_backptr s"
  by (simp add: khfree_mark_def Let_def, simp add: khfree_merge_next_def Let_def, simp add: khfree_merge_prev_def Let_def)

lemma khfree_backptr: "kh_backptr (khfree s p) = kh_backptr s"
  by (simp add: khfree_def merge_backptr Let_def)

lemma split_block_backptr: "kh_backptr (split_block b n s) = kh_backptr s"
  by (simp add: split_block_def Let_def)

lemma khmalloc_backptr:
  assumes "khmalloc s n = Some (p, s')" and "p \<noteq> NULL"
  shows "\<exists>b. kh_backptr s' = (kh_backptr s)(p - 8 := b)"
  using assms by (auto simp: khmalloc_def kh_take_def kh_set_header_def kh_put_def KHB_PTR_SIZE_def
      split_block_backptr Let_def split: if_splits)

lemma khmalloc_zero: "khmalloc s 0 = Some (NULL, s)"
  by (simp add: khmalloc_def)

lemma khmalloc_heap_blocks:
  assumes A: "heap_blocks s A" and n: "unat n < 2 ^ 64 - 16"
  shows "\<exists>p s'. khmalloc s n = Some (p, s') \<and> (p = NULL \<and> heap_blocks s' A \<or> p \<noteq> NULL \<and> p \<notin> A \<and> heap_blocks s' (insert p A))"
proof (cases "n = 0")
  case True
  then show ?thesis using A by (simp add: khmalloc_zero)
next
  case False
  obtain xs where xs: "kheap_inv s xs" "fst ` used xs = (\<lambda>p. p - 40) ` A" and all: "\<forall>p\<in>A. p \<noteq> NULL \<and> kh_header s p = p - 40"
    using A unfolding heap_blocks_def by (elim exE conjE) (rule that)
  have blk: "p \<noteq> NULL \<and> kh_header s p = p - 40" if "p \<in> A" for p using all that by simp
  from khmalloc_block [OF xs(1) False n] show ?thesis
  proof (elim disjE exE conjE)
    assume "khmalloc s n = Some (NULL, s)"
    then show ?thesis using A by simp
  next
    fix b u s' xs' t
    assume al: "khmalloc s n = Some (b + 40, s')" and inv: "kheap_inv s' xs'" and new: "(b, u, False) \<in> set xs'"
      and hd: "kh_header s' (b + 40) = b" and room: "unat b + 40 + unat n \<le> unat b + 32 + unat u"
      and old: "\<forall>c v. (c, v, False) \<in> set xs \<longrightarrow> (c, v, False) \<in> set xs' \<and>
        (unat b + 32 + unat u \<le> unat c \<or> unat c + 32 + unat v \<le> unat b)" and us: "used xs' = insert (b, u) (used xs)"
    have "0 < unat n" using False by (simp add: unat_gt_0)
    then have nz: "b + 40 \<noteq> NULL" using room by (intro kheap_payload_not_NULL [OF inv new]) linarith
    have "b \<notin> fst ` used xs" using old by (fastforce simp: used_iff)
    then have ne: "p \<noteq> b + 40" if "p \<in> A" for p using that unfolding xs(2) by force
    obtain x where bp: "kh_backptr s' = (kh_backptr s)(b + 40 - 8 := x)" using khmalloc_backptr [OF al nz] by blast
    have "kh_header s' p = p - 40" if "p \<in> A" for p
      using blk [OF that] ne [OF that] by (simp add: kh_header_def bp KHB_PTR_SIZE_def add.commute)
    moreover have "fst ` used xs' = (\<lambda>p. p - 40) ` insert (b + 40) A" by (simp add: us xs(2))
    ultimately have "heap_blocks s' (insert (b + 40) A)"
      unfolding heap_blocks_def using inv hd nz blk by (intro exI [of _ xs']) auto
    then show ?thesis using al nz ne by blast
  qed
qed

lemma khfree_heap_blocks:
  assumes A: "heap_blocks s A" and p: "p \<in> A"
  shows "heap_blocks (khfree s p) (A - {p})"
proof -
  obtain xs where xs: "kheap_inv s xs" "fst ` used xs = (\<lambda>p. p - 40) ` A" and all: "\<forall>p\<in>A. p \<noteq> NULL \<and> kh_header s p = p - 40"
    using A unfolding heap_blocks_def by (elim exE conjE) (rule that)
  have blk: "p \<noteq> NULL \<and> kh_header s p = p - 40" if "p \<in> A" for p using all that by simp
  have "p - 40 \<in> fst ` used xs" using p xs(2) by blast
  then obtain u where u: "(p - 40, u, False) \<in> set xs" by (auto simp: used_iff)
  obtain xs' where inv: "kheap_inv (khfree s p) xs'" and us: "used xs' = used xs - {(p - 40, u)}"
    using khfree_block [OF xs(1) u] blk [OF p] by blast
  have "kheap_rep s xs" using xs(1) by (simp add: kheap_inv_def)
  then have "distinct (map fst xs)" by (rule tiled_distinct [OF kheap_repD(2)])
  then have same: "v = u" if "(p - 40, v) \<in> used xs" for v
    using eq_key_imp_eq_value [of xs "p - 40" "(v, False)" "(u, False)"] that u by (simp add: used_iff)
  have "fst ` (used xs - {(p - 40, u)}) = fst ` used xs - {p - 40}"
  proof (intro equalityI subsetI)
    show "c \<in> fst ` used xs - {p - 40}" if "c \<in> fst ` (used xs - {(p - 40, u)})" for c
      using that same by auto
    show "c \<in> fst ` (used xs - {(p - 40, u)})" if "c \<in> fst ` used xs - {p - 40}" for c
      using that by auto
  qed
  then have "fst ` used xs' = (\<lambda>p. p - 40) ` (A - {p})" unfolding us xs(2) by auto
  moreover have "q \<noteq> NULL \<and> kh_header (khfree s p) q = q - 40" if "q \<in> A - {p}" for q
    using blk [of q] that by (simp add: kh_header_def khfree_backptr)
  ultimately show ?thesis unfolding heap_blocks_def using inv by (intro exI [of _ xs'] conjI ballI) simp_all
qed

interpretation heap: heap_allocator "\<lambda>n s. khmalloc s n" "\<lambda>p s. khfree s p" heap_blocks
  by unfold_locales (fact khmalloc_heap_blocks, fact khfree_heap_blocks)

section \<open>Properties\<close>

text \<open>C3: \<open>khmalloc\<close> on a well-formed heap returns for every request of less than \<open>2 ^ 64 - 16\<close> bytes; for the
  larger ones the rounding of the code wraps around, and they are not covered.  A request for 0 bytes gives
  \<open>NULL\<close> and changes nothing.  Another one fails, changing nothing, only when no free block holds the
  size rounded up to eight and the back pointer; otherwise it returns the payload of a block
  that was part of a free one, whose bytes hold the request and overlap no other allocated
  block, whose back pointer leads to its header, and the heap is well-formed again (tiled,
  linked both ways, without free neighbours, statistics exact) with exactly this block
  allocated in addition.\<close>

theorem khmalloc_correct:
  assumes inv: "kheap_inv s xs" and sz: "unat sz < 2 ^ 64 - 16"
  shows "(khmalloc s sz = Some (NULL, s) \<and> (sz = 0 \<or> (\<forall>(b, t, f) \<in> set xs. f \<longrightarrow> t < ((sz + 7) AND NOT 7) + 8))) \<or>
    (\<exists>b u s' xs'. sz \<noteq> 0 \<and> khmalloc s sz = Some (b + 40, s') \<and> kheap_inv s' xs' \<and> (b, u, False) \<in> set xs' \<and>
      kh_header s' (b + 40) = b \<and> unat b + 40 + unat sz \<le> unat b + 32 + unat u \<and>
      (\<exists>t. (b, t, True) \<in> set xs) \<and>
      (\<forall>c v. (c, v, False) \<in> set xs \<longrightarrow> (c, v, False) \<in> set xs' \<and>
        (unat b + 32 + unat u \<le> unat c \<or> unat c + 32 + unat v \<le> unat b)) \<and> used xs' = insert (b, u) (used xs))"
proof (cases "sz = 0")
  case True
  then show ?thesis by (simp add: khmalloc_zero)
next
  case False
  from khmalloc_block [OF inv this sz] False show ?thesis by (simp only: simp_thms)
qed

theorem khmalloc_correct_witness:
  "\<exists>b u s' xs'. khmalloc kheap_example 100 = Some (b + 40, s') \<and> kheap_inv s' xs' \<and>
     (b, u, False) \<in> set xs' \<and> unat b + 40 + unat (100 :: u64) \<le> unat b + 32 + unat u"
proof -
  have "\<not> (3992 :: u64) < ((100 + 7) AND NOT 7) + 8" "(100 :: u64) \<noteq> 0" by simp_all
  then show ?thesis
    using khmalloc_correct [OF kheap_example_inv, of 100] by fastforce
qed

text \<open>C24: \<open>khfree\<close> of a block allocated before makes exactly this block free: the blocks in use afterwards are
  those in use before without it, each with its address and size.  The heap stays well-formed:
  tiled by its blocks, linked both ways, with exact statistics, and without two free neighbours,
  so the freed block has been merged with the free ones on both sides.\<close>

theorem khfree_correct:
  assumes "kheap_inv s xs" and "(b, t, False) \<in> set xs" and "ptr \<noteq> NULL" and "kh_header s ptr = b"
  shows "\<exists>xs'. kheap_inv (khfree s ptr) xs' \<and> used xs' = used xs - {(b, t)} \<and> coalesced xs'"
  using khfree_block [OF assms] by (auto simp: kheap_inv_def)

theorem khfree_correct_witness: "\<exists>xs'. kheap_inv (khfree kheap_example 65576) xs' \<and> used xs' = {}"
proof -
  have "kh_header kheap_example 65576 = 65536"
    by (simp add: kh_header_def kheap_example_def KHB_PTR_SIZE_def)
  then show ?thesis
    using khfree_correct [OF kheap_example_inv, of 65536 40 65576] by auto
qed

text \<open>\<open>kheap_init\<close> sets up a well-formed heap: when the page allocator delivers the pages and
  their virtual addresses are valid, the heap is one free block that fills the area.\<close>

theorem kheap_init_correct:
  assumes "pmm_alloc p m pages = (phys, p', m')" and "phys \<noteq> NULL" and "pages \<noteq> 0"
    and "start = phys_to_virt p' phys" and "start \<noteq> NULL"
    and "unat pages \<le> 2 ^ 50" and "unat start + 4096 * unat pages \<le> 2 ^ 64"
  shows "\<exists>s'. kheap_init p m s pages = (p', m', s') \<and>
    kheap_inv s' [(start, pages * 4096 - 32, True)] \<and> kh_total_size s' = pages * 4096"
proof -
  have tot: "unat (pages * 4096) = unat pages * 4096"
    using assms(6) by (subst unat_mult_u64) simp_all
  have "0 < unat pages" using assms(3) by (simp add: unat_gt_0)
  then have sub: "unat (pages * 4096 - 32) = unat pages * 4096 - 32"
    by (subst unat_sub_le) (simp_all add: word_le_unat tot)
  define s' where "s' = s\<lparr>heap_start := start, kh_total_size := pages * 4096,
    kh_blocks := (kh_blocks s)(start := \<lparr>kb_magic = HEAP_MAGIC, kb_is_free = True,
      kb_size = pages * 4096 - 32, kb_next = NULL, kb_prev = NULL\<rparr>),
    kh_free_size := pages * 4096 - 32, kh_used_size := 32, kh_block_count := 1, kh_initialized := True\<rparr>"
  have "kheap_init p m s pages = (p', m', s')"
    using assms(1-4) by (simp add: kheap_init_def Let_def kh_simps PAGE_SIZE_def s'_def)
  moreover have "unat start + 32 + unat (pages * 4096 - 32) = unat start + unat (pages * 4096)"
    using sub tot \<open>0 < unat pages\<close> by linarith
  then have "kheap_rep s' [(start, pages * 4096 - 32, True)]"
    using assms(5-7) tot unfolding kheap_rep_def s'_def by simp
  then have "kheap_inv s' [(start, pages * 4096 - 32, True)]"
    by (simp add: kheap_inv_def coalesced_Cons)
  moreover have "kh_total_size s' = pages * 4096" by (simp add: s'_def)
  ultimately show ?thesis by blast
qed

theorem kheap_init_correct_witness:
  "\<exists>s'. fst (pmm_alloc pmm_example pmm_example_memory 2) = 4096 \<and>
    snd (snd (kheap_init pmm_example pmm_example_memory kheap_example 2)) = s' \<and>
    kheap_inv s' [(4096, 2 * 4096 - 32, True)]"
proof -
  have phys: "fst (pmm_alloc pmm_example pmm_example_memory 2) = 4096" by code_simp
  have off: "hhdm_offset (fst (snd (pmm_alloc pmm_example pmm_example_memory 2))) = 0" by code_simp
  have "(4096 :: u64) = phys_to_virt (fst (snd (pmm_alloc pmm_example pmm_example_memory 2))) 4096"
    by (simp add: phys_to_virt_def off)
  then show ?thesis
    using kheap_init_correct [of pmm_example pmm_example_memory 2 4096 _ _ 4096 kheap_example] phys
    by (cases "pmm_alloc pmm_example pmm_example_memory 2") auto
qed

end
