(* ===== verification/Vmm.thy ===== *)
theory Vmm
  imports Pmm Cmem
begin

text \<open>
  \<open>krnl/mem/vmm.c\<close>: four-level page tables.  A table is the address of its 512 entries; the
  entries are a store of 64-bit cells indexed by address, beside the byte memory of the pages.
  The state also has the page allocator, the \<open>CR3\<close> register and the current context.  The
  general allocator that context structures come from is an argument (\<open>kmalloc\<close>, \<open>kfree\<close> over
  a state of its own).

  \<open>table_at\<close> follows a path of indices from the root; \<open>vmm_ok\<close> says that the tables reached from
  a root form a tree of distinct, page-aligned pages that the page allocator holds as used.
  Mapping and unmapping keep it, and change the translation of exactly one page.
\<close>

section \<open>State and operations\<close>

record vmm_context =
  pml4_phys :: u64
  pml4_virt :: u64

record vmm =
  v_pmm :: pmm
  v_mem :: memory
  v_tab :: "u64 \<Rightarrow> u64"
  v_cr3 :: u64
  v_kernel_context :: vmm_context
  v_current_context :: "vmm_context option"

definition VMM_FLAG_PRESENT :: u64 where "VMM_FLAG_PRESENT = push_bit 0 1"
definition VMM_FLAG_WRITE :: u64 where "VMM_FLAG_WRITE = push_bit 1 1"
definition VMM_FLAG_USER :: u64 where "VMM_FLAG_USER = push_bit 2 1"
definition VMM_FLAG_HUGE :: u64 where "VMM_FLAG_HUGE = push_bit 7 1"
definition VMM_FLAG_NO_FREE :: u64 where "VMM_FLAG_NO_FREE = push_bit 9 1"
definition VMM_PHYS_MASK :: u64 where "VMM_PHYS_MASK = 0x000FFFFFFFFFF000"

text \<open>\<open>table->entries[i]\<close>.\<close>

definition pt_slot :: "u64 \<Rightarrow> u64 \<Rightarrow> u64" where
  "pt_slot t i = t + 8 * i"

definition pt_entry :: "vmm \<Rightarrow> u64 \<Rightarrow> u64 \<Rightarrow> u64" where
  "pt_entry v t i = v_tab v (pt_slot t i)"

definition pt_set :: "u64 \<Rightarrow> u64 \<Rightarrow> u64 \<Rightarrow> vmm \<Rightarrow> vmm" where
  "pt_set t i e v = v\<lparr>v_tab := (v_tab v)(pt_slot t i := e)\<rparr>"

definition v_virt :: "vmm \<Rightarrow> u64 \<Rightarrow> u64" where
  "v_virt v phys = phys_to_virt (v_pmm v) phys"

definition vmm_pmm_alloc :: "u64 \<Rightarrow> vmm \<Rightarrow> u64 \<times> vmm" where
  "vmm_pmm_alloc n v = (let (p, s, m) = pmm_alloc (v_pmm v) (v_mem v) n in (p, v\<lparr>v_pmm := s, v_mem := m\<rparr>))"

definition vmm_pmm_free :: "u64 \<Rightarrow> u64 \<Rightarrow> vmm \<Rightarrow> vmm" where
  "vmm_pmm_free p n v = (let (s, m) = pmm_free (v_pmm v) (v_mem v) p n in v\<lparr>v_pmm := s, v_mem := m\<rparr>)"

definition vmm_get_active_context :: "vmm \<Rightarrow> vmm_context" where
  "vmm_get_active_context v =
     (let phys = v_cr3 v AND VMM_PHYS_MASK in \<lparr>pml4_phys = phys, pml4_virt = v_virt v phys\<rparr>)"

definition zero_table :: "u64 \<Rightarrow> vmm \<Rightarrow> vmm" where
  "zero_table t v = fold (\<lambda>i. pt_set t (of_nat i) 0) [0..<512] v"

definition get_next_level :: "u64 \<Rightarrow> u64 \<Rightarrow> bool \<Rightarrow> vmm \<Rightarrow> u64 \<times> vmm" where
  "get_next_level current_level index allocate v =
     (if pt_entry v current_level index AND VMM_FLAG_PRESENT \<noteq> 0
      then (v_virt v (pt_entry v current_level index AND VMM_PHYS_MASK), v)
      else if \<not> allocate then (NULL, v)
      else
        let (new_page, v) = vmm_pmm_alloc 1 v
        in if new_page = NULL then (NULL, v)
           else
             let virt = v_virt v new_page;
                 v = zero_table virt v
             in (virt, pt_set current_level index
                   (new_page OR VMM_FLAG_PRESENT OR VMM_FLAG_WRITE OR VMM_FLAG_USER) v))"

definition pml4_index :: "u64 \<Rightarrow> u64" where "pml4_index virt = drop_bit 39 virt AND 0x1FF"
definition pdpt_index :: "u64 \<Rightarrow> u64" where "pdpt_index virt = drop_bit 30 virt AND 0x1FF"
definition pd_index :: "u64 \<Rightarrow> u64" where "pd_index virt = drop_bit 21 virt AND 0x1FF"
definition pt_index :: "u64 \<Rightarrow> u64" where "pt_index virt = drop_bit 12 virt AND 0x1FF"

text \<open>The effect of \<open>invlpg\<close> on the translation cache is not modelled.\<close>

definition vmm_map :: "vmm_context \<Rightarrow> u64 \<Rightarrow> u64 \<Rightarrow> u64 \<Rightarrow> vmm \<Rightarrow> bool \<times> vmm" where
  "vmm_map ctx virt phys flags v =
     (let (pdpt, v) = get_next_level (pml4_virt ctx) (pml4_index virt) True v
      in if pdpt = NULL then (False, v)
         else let (pd, v) = get_next_level pdpt (pdpt_index virt) True v
         in if pd = NULL then (False, v)
            else let (pt, v) = get_next_level pd (pd_index virt) True v
            in if pt = NULL then (False, v)
               else (True, pt_set pt (pt_index virt) ((phys AND VMM_PHYS_MASK) OR flags OR VMM_FLAG_PRESENT) v))"

definition vmm_unmap :: "vmm_context \<Rightarrow> u64 \<Rightarrow> vmm \<Rightarrow> bool \<times> vmm" where
  "vmm_unmap ctx virt v =
     (let (pdpt, v) = get_next_level (pml4_virt ctx) (pml4_index virt) False v
      in if pdpt = NULL then (False, v)
         else let (pd, v) = get_next_level pdpt (pdpt_index virt) False v
         in if pd = NULL then (False, v)
            else let (pt, v) = get_next_level pd (pd_index virt) False v
            in if pt = NULL then (False, v)
               else (True, pt_set pt (pt_index virt) 0 v))"

definition vmm_virt_to_phys :: "vmm_context \<Rightarrow> u64 \<Rightarrow> vmm \<Rightarrow> u64" where
  "vmm_virt_to_phys ctx virt v =
     (let pml4 = pml4_virt ctx;
          (pdpt, v) = get_next_level pml4 (pml4_index virt) False v
      in if pdpt = NULL then 0
         else if pt_entry v pml4 (pml4_index virt) AND VMM_FLAG_HUGE \<noteq> 0
         then (pt_entry v pml4 (pml4_index virt) AND VMM_PHYS_MASK) + (virt AND 0x7FFFFFFFFF)
         else let (pd, v) = get_next_level pdpt (pdpt_index virt) False v
         in if pd = NULL then 0
            else if pt_entry v pdpt (pdpt_index virt) AND VMM_FLAG_HUGE \<noteq> 0
            then (pt_entry v pdpt (pdpt_index virt) AND 0x000FFFFFC0000000) + (virt AND 0x3FFFFFFF)
            else let (pt, v) = get_next_level pd (pd_index virt) False v
            in if pt = NULL then 0
               else if pt_entry v pd (pd_index virt) AND VMM_FLAG_HUGE \<noteq> 0
               then (pt_entry v pd (pd_index virt) AND 0x000FFFFFFFE00000) + (virt AND 0x1FFFFF)
               else if pt_entry v pt (pt_index virt) AND VMM_FLAG_PRESENT \<noteq> 0
               then (pt_entry v pt (pt_index virt) AND VMM_PHYS_MASK) + (virt AND 0xFFF)
               else 0)"

definition vmm_switch_context :: "vmm_context \<Rightarrow> vmm \<Rightarrow> vmm" where
  "vmm_switch_context ctx v = v\<lparr>v_cr3 := pml4_phys ctx, v_current_context := Some ctx\<rparr>"

definition VMM_CONTEXT_SIZE :: u64 where
  "VMM_CONTEXT_SIZE = 16"

text \<open>\<open>vmm_create_context\<close> returns the address of the new structure with its contents.  The context
  structures come from \<open>kmalloc\<close>, which may itself take pages: the allocator, an argument with its
  own state \<open>'h\<close>, also works on the machine state.\<close>

type_synonym 'h vmm_kmalloc = "u64 \<Rightarrow> 'h \<Rightarrow> vmm \<Rightarrow> u64 \<times> 'h \<times> vmm"
type_synonym 'h vmm_kfree = "u64 \<Rightarrow> 'h \<Rightarrow> vmm \<Rightarrow> 'h \<times> vmm"

definition vmm_create_context ::
  "'h vmm_kmalloc \<Rightarrow> 'h vmm_kfree \<Rightarrow> 'h \<Rightarrow> vmm \<Rightarrow> (u64 \<times> vmm_context) option \<times> 'h \<times> vmm" where
  "vmm_create_context kmalloc kfree h v =
     (let (ctx, h, v) = kmalloc VMM_CONTEXT_SIZE h v
      in if ctx = NULL then (None, h, v)
         else
           let (new_pml4_phys, v) = vmm_pmm_alloc 1 v
           in if new_pml4_phys = NULL then (None, kfree ctx h v)
              else
                let c = \<lparr>pml4_phys = new_pml4_phys, pml4_virt = v_virt v new_pml4_phys\<rparr>;
                    v = zero_table (pml4_virt c) v;
                    k = pml4_virt (v_kernel_context v);
                    v = (if k \<noteq> NULL
                         then fold (\<lambda>i v. pt_set (pml4_virt c) (of_nat i) (pt_entry v k (of_nat i)) v) [256..<512] v
                         else v)
                in (Some (ctx, c), h, v))"

text \<open>\<open>free_pagetable_hierarchy\<close>: \<open>d\<close> is the distance of the level to the last one, 4.\<close>

fun free_pagetable_hierarchy :: "nat \<Rightarrow> u64 \<Rightarrow> vmm \<Rightarrow> vmm" where
  "free_pagetable_hierarchy d pt v =
     fold (\<lambda>i v.
       let e = pt_entry v pt (of_nat i);
           level = 4 - d
       in if level = 1 \<and> 256 \<le> i then v
          else if e AND VMM_FLAG_PRESENT \<noteq> 0
          then
            let phys = e AND VMM_PHYS_MASK
            in case d of
                 Suc d' \<Rightarrow>
                   if e AND VMM_FLAG_HUGE = 0
                   then vmm_pmm_free phys 1 (free_pagetable_hierarchy d' (v_virt v phys) v)
                   else if e AND VMM_FLAG_NO_FREE = 0
                   then vmm_pmm_free phys (if level = 3 then 512 else 512 * 512) v
                   else v
               | 0 \<Rightarrow> if e AND VMM_FLAG_NO_FREE = 0 then vmm_pmm_free phys 1 v else v
          else v) [0..<512] v"

declare free_pagetable_hierarchy.simps [simp del]

definition vmm_destroy_context ::
  "'h vmm_kfree \<Rightarrow> (u64 \<times> vmm_context) option \<Rightarrow> 'h \<Rightarrow> vmm \<Rightarrow> 'h \<times> vmm" where
  "vmm_destroy_context kfree ctx h v =
     (case ctx of
        None \<Rightarrow> (h, v)
      | Some (p, c) \<Rightarrow>
          kfree p h (vmm_pmm_free (pml4_phys c) 1 (free_pagetable_hierarchy 3 (pml4_virt c) v)))"

definition vmm_free_cr3 :: "u64 \<Rightarrow> vmm \<Rightarrow> vmm" where
  "vmm_free_cr3 cr3 v =
     (if cr3 = 0 then v
      else vmm_pmm_free cr3 1 (free_pagetable_hierarchy 3 (cr3 + 0xFFFF800000000000) v))"

definition vmm_init :: "vmm \<Rightarrow> vmm" where
  "vmm_init v =
     (let phys = v_cr3 v AND VMM_PHYS_MASK;
          k = \<lparr>pml4_phys = phys, pml4_virt = v_virt v phys\<rparr>
      in v\<lparr>v_kernel_context := k, v_current_context := Some k\<rparr>)"

text \<open>The loops of \<open>vmm_clone_context\<close>; a round that fails (\<open>goto fail\<close>) stops them.\<close>

fun try_each :: "(nat \<Rightarrow> 's \<Rightarrow> bool \<times> 's) \<Rightarrow> nat list \<Rightarrow> 's \<Rightarrow> bool \<times> 's" where
  "try_each f [] s = (True, s)"
| "try_each f (i # is) s = (let (ok, s) = f i s in if ok then try_each f is s else (False, s))"

definition clone_page :: "u64 \<Rightarrow> u64 \<Rightarrow> nat \<Rightarrow> vmm \<Rightarrow> bool \<times> vmm" where
  "clone_page pt_parent pt_child i v =
     (let e = pt_entry v pt_parent (of_nat i)
      in if e AND VMM_FLAG_PRESENT = 0 then (True, v)
         else
           let (new_page, v) = vmm_pmm_alloc 1 v
           in if new_page = NULL then (False, v)
              else
                let old_phys = pt_entry v pt_parent (of_nat i) AND VMM_PHYS_MASK;
                    v = v\<lparr>v_mem := snd (memcpy (v_mem v) (v_virt v new_page) (v_virt v old_phys) 4096)\<rparr>
                in (True, pt_set pt_child (of_nat i)
                      (new_page OR (pt_entry v pt_parent (of_nat i) AND 0xFFF)) v))"

text \<open>One level of the clone: for each present entry, the child's table and the rounds below.\<close>

definition clone_level ::
  "(u64 \<Rightarrow> u64 \<Rightarrow> nat \<Rightarrow> vmm \<Rightarrow> bool \<times> vmm) \<Rightarrow> u64 \<Rightarrow> u64 \<Rightarrow> nat \<Rightarrow> vmm \<Rightarrow> bool \<times> vmm" where
  "clone_level below t_parent t_child i v =
     (if pt_entry v t_parent (of_nat i) AND VMM_FLAG_PRESENT = 0 then (True, v)
      else
        let next_parent = v_virt v (pt_entry v t_parent (of_nat i) AND VMM_PHYS_MASK);
            (next_child, v) = get_next_level t_child (of_nat i) True v
        in if next_child = NULL then (False, v)
           else try_each (below next_parent next_child) [0..<512] v)"

definition vmm_clone_context ::
  "'h vmm_kmalloc \<Rightarrow> 'h vmm_kfree \<Rightarrow> vmm_context option \<Rightarrow> 'h \<Rightarrow> vmm
     \<Rightarrow> (u64 \<times> vmm_context) option \<times> 'h \<times> vmm" where
  "vmm_clone_context kmalloc kfree parent h v =
     (case parent of
        None \<Rightarrow> (None, h, v)
      | Some pctx \<Rightarrow>
          let (child, h, v) = vmm_create_context kmalloc kfree h v
          in case child of
               None \<Rightarrow> (None, h, v)
             | Some (p, c) \<Rightarrow>
                 let (ok, v) = try_each
                       (clone_level (clone_level (clone_level clone_page)) (pml4_virt pctx) (pml4_virt c))
                       [0..<256] v
                 in if ok then (Some (p, c), h, v)
                    else let (h, v) = vmm_destroy_context kfree (Some (p, c)) h v in (None, h, v))"

definition vmm_get_kernel_context :: "vmm \<Rightarrow> vmm_context" where
  "vmm_get_kernel_context v = v_kernel_context v"

section \<open>Tables and paths\<close>

fun table_at :: "vmm \<Rightarrow> u64 \<Rightarrow> u64 list \<Rightarrow> u64 option" where
  "table_at v t [] = Some t"
| "table_at v t (i # is) =
     (if pt_entry v t i AND VMM_FLAG_PRESENT \<noteq> 0
      then table_at v (v_virt v (pt_entry v t i AND VMM_PHYS_MASK)) is else None)"

definition path_ok :: "u64 list \<Rightarrow> bool" where
  "path_ok p \<longleftrightarrow> length p \<le> 3 \<and> (\<forall>i \<in> set p. i < 512)"

definition table_page :: "vmm \<Rightarrow> u64 \<Rightarrow> nat" where
  "table_page v t = unat (t - hhdm_offset (v_pmm v)) div 4096"

definition table_ok :: "vmm \<Rightarrow> u64 \<Rightarrow> bool" where
  "table_ok v t \<longleftrightarrow> t \<noteq> NULL \<and> 4096 dvd unat t \<and> table_page v t < unat (total_pages (v_pmm v)) \<and>
     page_used (v_pmm v) (v_mem v) (table_page v t)"

text \<open>The tables below a root are a tree of distinct pages without huge entries.\<close>

definition vmm_ok :: "vmm \<Rightarrow> u64 \<Rightarrow> bool" where
  "vmm_ok v root \<longleftrightarrow> pmm_inv (v_pmm v) (v_mem v) \<and> unat (total_pages (v_pmm v)) \<le> 2 ^ 40 \<and>
     4096 dvd unat (hhdm_offset (v_pmm v)) \<and>
     unat (hhdm_offset (v_pmm v)) + unat (total_pages (v_pmm v)) * 4096 \<le> 2 ^ 64 \<and>
     (\<forall>p t. path_ok p \<longrightarrow> table_at v root p = Some t \<longrightarrow> table_ok v t) \<and>
     (\<forall>p q t. path_ok p \<longrightarrow> path_ok q \<longrightarrow> table_at v root p = Some t \<longrightarrow> table_at v root q = Some t \<longrightarrow> p = q) \<and>
     (\<forall>p t i. path_ok (p @ [i]) \<longrightarrow> table_at v root p = Some t \<longrightarrow>
        pt_entry v t i AND VMM_FLAG_PRESENT \<noteq> 0 \<longrightarrow> pt_entry v t i AND VMM_FLAG_HUGE = 0)"

lemma vmm_okD:
  assumes "vmm_ok v root"
  shows "pmm_inv (v_pmm v) (v_mem v)" and "unat (total_pages (v_pmm v)) \<le> 2 ^ 40"
    and "4096 dvd unat (hhdm_offset (v_pmm v))"
    and "\<And>p t. path_ok p \<Longrightarrow> table_at v root p = Some t \<Longrightarrow> table_ok v t"
    and "\<And>p q t. path_ok p \<Longrightarrow> path_ok q \<Longrightarrow> table_at v root p = Some t \<Longrightarrow> table_at v root q = Some t \<Longrightarrow> p = q"
    and "\<And>p t i. path_ok (p @ [i]) \<Longrightarrow> table_at v root p = Some t \<Longrightarrow>
      pt_entry v t i AND VMM_FLAG_PRESENT \<noteq> 0 \<Longrightarrow> pt_entry v t i AND VMM_FLAG_HUGE = 0"
    and "unat (hhdm_offset (v_pmm v)) + unat (total_pages (v_pmm v)) * 4096 \<le> 2 ^ 64"
  using assms unfolding vmm_ok_def by blast+

lemma table_at_append: "table_at v t (p @ q) = Option.bind (table_at v t p) (\<lambda>t'. table_at v t' q)"
  by (induction p arbitrary: t) auto

lemma path_ok_append: "path_ok (p @ q) \<Longrightarrow> path_ok p"
  by (simp add: path_ok_def)

lemma path_ok_snoc: "path_ok p \<Longrightarrow> length p < 3 \<Longrightarrow> i < 512 \<Longrightarrow> path_ok (p @ [i])"
  by (auto simp: path_ok_def)

lemma slot_unat:
  assumes "4096 dvd unat t" and "i < 512"
  shows "unat (pt_slot t i) = unat t + 8 * unat i"
proof -
  have i: "unat i < 512" using assms(2) by (simp add: word_less_unat)
  then have m: "unat (8 * i) = 8 * unat i" by (subst unat_mult_u64) simp_all
  obtain k where k: "unat t = 4096 * k" using assms(1) by auto
  then have "4096 * k < 2 ^ 64" by (metis unat_u64_bound)
  then have "unat t + unat (8 * i) < 2 ^ 64" using i unfolding k m by simp
  then show ?thesis unfolding pt_slot_def by (simp add: unat_add_u64 m)
qed

lemma slot_inject:
  assumes "4096 dvd unat t" "4096 dvd unat t'" "i < 512" "i' < 512"
  shows "pt_slot t i = pt_slot t' i' \<longleftrightarrow> t = t' \<and> i = i'"
proof
  assume eq: "pt_slot t i = pt_slot t' i'"
  obtain k where k1: "unat t = 4096 * k" using assms(1) by (rule dvdE)
  obtain k' where k2: "unat t' = 4096 * k'" using assms(2) by (rule dvdE)
  note k = k1 k2
  have "unat t + 8 * unat i = unat t' + 8 * unat i'"
    using eq slot_unat [OF assms(1,3)] slot_unat [OF assms(2,4)] by simp
  then have sum: "4096 * k + 8 * unat i = 4096 * k' + 8 * unat i'" by (simp only: k)
  have "unat i < 512" "unat i' < 512" using assms(3,4) by (simp_all add: word_less_unat)
  then have "(4096 * k + 8 * unat i) div 4096 = k" "(4096 * k' + 8 * unat i') div 4096 = k'" by simp_all
  with sum have "k = k'" by (simp only:)
  with sum k have "unat t = unat t'" "unat i = unat i'" by simp_all
  then show "t = t' \<and> i = i'" by (simp only: word_unat_eq_iff)
qed simp

lemma table_at_cong:
  assumes "\<And>q i t. q @ [i] \<noteq> [] \<Longrightarrow> (\<exists>r. p = q @ i # r) \<Longrightarrow> table_at v root q = Some t \<Longrightarrow> pt_entry v' t i = pt_entry v t i"
    and "hhdm_offset (v_pmm v') = hhdm_offset (v_pmm v)"
  shows "table_at v' root p = table_at v root p"
  using assms(1)
proof (induction p rule: rev_induct)
  case (snoc i p)
  have "table_at v' root p = table_at v root p"
  proof (rule snoc.IH)
    fix q j t
    assume "\<exists>r. p = q @ j # r" and "table_at v root q = Some t"
    then show "pt_entry v' t j = pt_entry v t j" by (intro snoc.prems) auto
  qed
  moreover have "pt_entry v' t i = pt_entry v t i" if "table_at v root p = Some t" for t
    by (rule snoc.prems [OF _ _ that]) auto
  ultimately show ?case
    by (cases "table_at v root p") (simp_all add: table_at_append v_virt_def phys_to_virt_def assms(2))
qed simp

lemma pt_entry_set:
  assumes "4096 dvd unat t" "4096 dvd unat t'" "i < 512" "i' < 512"
  shows "pt_entry (pt_set t i e v) t' i' = (if t' = t \<and> i' = i then e else pt_entry v t' i')"
  using slot_inject [OF assms(2,1,4,3)] by (simp add: pt_entry_def pt_set_def)

lemma pt_set_fields [simp]:
  "v_pmm (pt_set t i e v) = v_pmm v" "v_mem (pt_set t i e v) = v_mem v"
  by (simp_all add: pt_set_def)

lemma zero_table_entry:
  assumes "4096 dvd unat t" "4096 dvd unat t'" "i' < 512"
  shows "pt_entry (zero_table t v) t' i' = (if t' = t then 0 else pt_entry v t' i')"
    and "v_pmm (zero_table t v) = v_pmm v" and "v_mem (zero_table t v) = v_mem v"
proof -
  have "n \<le> 512 \<Longrightarrow> pt_entry (fold (\<lambda>i. pt_set t (of_nat i) 0) [0..<n] v) t' i' =
      (if t' = t \<and> unat i' < n then 0 else pt_entry v t' i') \<and>
      v_pmm (fold (\<lambda>i. pt_set t (of_nat i) 0) [0..<n] v) = v_pmm v \<and>
      v_mem (fold (\<lambda>i. pt_set t (of_nat i) 0) [0..<n] v) = v_mem v" for n
  proof (induction n)
    case (Suc n)
    have n: "(of_nat n :: u64) < 512" using Suc.prems by (simp add: word_less_unat)
    have "i' = of_nat n \<longleftrightarrow> unat i' = n" using Suc.prems by (auto simp: word_unat_eq_iff)
    then show ?case
      using Suc pt_entry_set [OF assms(1,2) n assms(3)] by (auto simp: less_Suc_eq)
  qed simp
  from this [of 512] show "pt_entry (zero_table t v) t' i' = (if t' = t then 0 else pt_entry v t' i')"
    "v_pmm (zero_table t v) = v_pmm v" "v_mem (zero_table t v) = v_mem v"
    using assms(3) by (simp_all add: zero_table_def word_less_unat)
qed

section \<open>New tables\<close>

lemma flag_bits:
  "bit VMM_FLAG_PRESENT k \<longleftrightarrow> k = 0" "bit VMM_FLAG_WRITE k \<longleftrightarrow> k = 1"
  "bit VMM_FLAG_USER k \<longleftrightarrow> k = 2" "bit VMM_FLAG_HUGE k \<longleftrightarrow> k = 7"
  unfolding VMM_FLAG_PRESENT_def VMM_FLAG_WRITE_def VMM_FLAG_USER_def VMM_FLAG_HUGE_def
  by (simp_all only: bit_push_bit_iff bit_1_iff) auto

lemma phys_mask_entry:
  assumes "w < 2 ^ 40" and "np = of_nat (w * 4096)"
  shows "(np OR VMM_FLAG_PRESENT OR VMM_FLAG_WRITE OR VMM_FLAG_USER) AND VMM_PHYS_MASK = np"
    and "(np OR VMM_FLAG_PRESENT OR VMM_FLAG_WRITE OR VMM_FLAG_USER) AND VMM_FLAG_PRESENT \<noteq> 0"
    and "(np OR VMM_FLAG_PRESENT OR VMM_FLAG_WRITE OR VMM_FLAG_USER) AND VMM_FLAG_HUGE = 0"
proof -
  have np: "np = push_bit 12 (of_nat w)" using assms(2) by (simp add: push_bit_eq_mult mult.commute)
  have w: "bit w j \<longleftrightarrow> j < 40 \<and> bit w j" for j
    using assms(1) bit_take_bit_iff [of 40 w j] by (simp add: take_bit_nat_eq_self)
  have bits: "bit np k \<longleftrightarrow> 12 \<le> k \<and> k < 52 \<and> bit w (k - 12)" for k
    unfolding np using w [of "k - 12"] by (auto simp: bit_simps)
  have mask: "VMM_PHYS_MASK = push_bit 12 (mask 40)"
    by (simp add: VMM_PHYS_MASK_def push_bit_eq_mult mask_eq_exp_minus_1)
  show "(np OR VMM_FLAG_PRESENT OR VMM_FLAG_WRITE OR VMM_FLAG_USER) AND VMM_PHYS_MASK = np"
    unfolding mask by (rule bit_word_eqI) (auto simp: bit_and_iff bit_or_iff flag_bits bits bit_push_bit_iff bit_mask_iff)
  have "bit ((np OR VMM_FLAG_PRESENT OR VMM_FLAG_WRITE OR VMM_FLAG_USER) AND VMM_FLAG_PRESENT) 0"
    by (simp add: bit_and_iff bit_or_iff flag_bits)
  then show "(np OR VMM_FLAG_PRESENT OR VMM_FLAG_WRITE OR VMM_FLAG_USER) AND VMM_FLAG_PRESENT \<noteq> 0" by auto
  show "(np OR VMM_FLAG_PRESENT OR VMM_FLAG_WRITE OR VMM_FLAG_USER) AND VMM_FLAG_HUGE = 0"
    by (rule bit_word_eqI) (auto simp: bit_and_iff bit_or_iff flag_bits bits)
qed

lemma vmm_alloc_page:
  assumes inv: "pmm_inv (v_pmm v) (v_mem v)" and T: "unat (total_pages (v_pmm v)) \<le> 2 ^ 40"
    and al: "4096 dvd unat (hhdm_offset (v_pmm v))"
    and win: "unat (hhdm_offset (v_pmm v)) + unat (total_pages (v_pmm v)) * 4096 \<le> 2 ^ 64"
    and alloc: "vmm_pmm_alloc 1 v = (np, v')" and nz: "np \<noteq> NULL" and t: "t = v_virt v' np"
  shows "table_ok v' t" and "\<not> page_used (v_pmm v) (v_mem v) (table_page v t)"
    and "\<And>t'. table_ok v t' \<Longrightarrow> table_ok v' t' \<and> t' \<noteq> t"
    and "pmm_inv (v_pmm v') (v_mem v')" and "total_pages (v_pmm v') = total_pages (v_pmm v)"
    and "hhdm_offset (v_pmm v') = hhdm_offset (v_pmm v)" and "v_tab v' = v_tab v"
    and "\<exists>w < 2 ^ 40. np = of_nat (w * 4096)"
proof -
  obtain s' m' where a: "pmm_alloc (v_pmm v) (v_mem v) 1 = (np, s', m')" and v': "v' = v\<lparr>v_pmm := s', v_mem := m'\<rparr>"
    using alloc by (auto simp: vmm_pmm_alloc_def split: prod.splits)
  obtain w where w: "np = of_nat (w * 4096)" "w < unat (total_pages (v_pmm v))" "0 < w"
    "\<not> page_used (v_pmm v) (v_mem v) w" "page_used s' m' w"
    "\<And>q. q < unat (total_pages (v_pmm v)) \<Longrightarrow> page_used (v_pmm v) (v_mem v) q \<Longrightarrow> page_used s' m' q"
    "pmm_inv s' m'" "total_pages s' = total_pages (v_pmm v)" "hhdm_offset s' = hhdm_offset (v_pmm v)"
    by (rule pmm_alloc_page [OF inv a nz], rule that; assumption)
  let ?h = "hhdm_offset (v_pmm v)"
  have un: "unat np = w * 4096" using w(2) T unfolding w(1) by (intro unat_of_nat_u64) simp
  have t': "t = np + ?h" using t by (simp add: v' v_virt_def phys_to_virt_def w(9))
  have tp: "table_page v t = w" "table_page v' t = w"
    using un by (simp_all add: table_page_def t' v' w(9))
  have ut: "unat t = w * 4096 + unat ?h"
    unfolding t' using un win w(2) by (subst unat_add_u64) simp_all
  then have "4096 dvd unat t" "t \<noteq> NULL" using al w(3) by (auto simp: dvd_add)
  then show "table_ok v' t" using w by (simp add: table_ok_def tp) (simp add: v')
  show np: "\<not> page_used (v_pmm v) (v_mem v) (table_page v t)" using w(4) by (simp add: tp)
  show "table_ok v' t' \<and> t' \<noteq> t" if "table_ok v t'" for t'
    using that np w(6,8,9) by (auto simp: table_ok_def table_page_def v')
  show "pmm_inv (v_pmm v') (v_mem v')" "total_pages (v_pmm v') = total_pages (v_pmm v)"
    "hhdm_offset (v_pmm v') = hhdm_offset (v_pmm v)" "v_tab v' = v_tab v"
    using w by (simp_all add: v')
  show "\<exists>w < 2 ^ 40. np = of_nat (w * 4096)" using w(1,2) T by (intro exI [of _ w]) simp
qed

section \<open>Walking down one level\<close>

text \<open>The entry at the end of a path, zero where a table is missing.\<close>

definition leaf_entry :: "vmm \<Rightarrow> u64 \<Rightarrow> u64 list \<Rightarrow> u64 \<Rightarrow> u64" where
  "leaf_entry v root q j = (case table_at v root q of None \<Rightarrow> 0 | Some t \<Rightarrow> pt_entry v t j)"

text \<open>A new table under a slot that was not present.\<close>

lemma vmm_extend:
  assumes ok: "vmm_ok v root" and p: "path_ok (p @ [i])" "table_at v root p = Some t"
    and np: "pt_entry v t i AND VMM_FLAG_PRESENT = 0"
    and alloc: "vmm_pmm_alloc 1 v = (page, v1)" "page \<noteq> NULL"
    and n: "n = v_virt v1 page"
    and v': "v' = pt_set t i (page OR VMM_FLAG_PRESENT OR VMM_FLAG_WRITE OR VMM_FLAG_USER) (zero_table n v1)"
  shows "\<And>s j. table_ok v s \<Longrightarrow> j < 512 \<Longrightarrow> pt_entry v' s j =
      (if s = t \<and> j = i then page OR VMM_FLAG_PRESENT OR VMM_FLAG_WRITE OR VMM_FLAG_USER else pt_entry v s j)"
    and "\<And>j. j < 512 \<Longrightarrow> pt_entry v' n j = 0"
    and "v_virt v' (pt_entry v' t i AND VMM_PHYS_MASK) = n"
    and "pt_entry v' t i AND VMM_FLAG_PRESENT \<noteq> 0" and "pt_entry v' t i AND VMM_FLAG_HUGE = 0"
    and "table_ok v' n" and "\<And>s. table_ok v s \<Longrightarrow> table_ok v' s \<and> s \<noteq> n"
    and "hhdm_offset (v_pmm v') = hhdm_offset (v_pmm v)" and "total_pages (v_pmm v') = total_pages (v_pmm v)"
    and "pmm_inv (v_pmm v') (v_mem v')"
proof -
  note d = vmm_okD [OF ok]
  note a = vmm_alloc_page [OF d(1-3,7) alloc n]
  have t: "table_ok v t" by (rule d(4) [OF path_ok_append [OF p(1)] p(2)])
  have i: "i < 512" using p(1) by (simp add: path_ok_def)
  have al: "4096 dvd unat n" "4096 dvd unat t" using a(1) t by (simp_all add: table_ok_def)
  have tn: "t \<noteq> n" using a(3) [OF t] by simp
  have z: "v_pmm (zero_table n v1) = v_pmm v1" "v_mem (zero_table n v1) = v_mem v1"
    using zero_table_entry(2,3) [OF al(1,1) i] by simp_all
  have fields: "v_pmm v' = v_pmm v1" "v_mem v' = v_mem v1" by (simp_all add: v' z)
  have v1: "pt_entry v1 s j = pt_entry v s j" for s j by (simp add: pt_entry_def a(7))
  show ent: "pt_entry v' s j =
      (if s = t \<and> j = i then page OR VMM_FLAG_PRESENT OR VMM_FLAG_WRITE OR VMM_FLAG_USER else pt_entry v s j)"
    if "table_ok v s" "j < 512" for s j
  proof -
    have "4096 dvd unat s" "s \<noteq> n" using that(1) a(3) [OF that(1)] by (simp_all add: table_ok_def)
    then show ?thesis
      using pt_entry_set [OF al(2) _ i that(2)] zero_table_entry(1) [OF al(1) _ that(2)]
      by (simp add: v' v1)
  qed
  show "pt_entry v' n j = 0" if "j < 512" for j
    using pt_entry_set [OF al(2,1) i that] zero_table_entry(1) [OF al(1,1) that] tn by (simp add: v')
  obtain w where w: "w < 2 ^ 40" "page = of_nat (w * 4096)" using a(8) by auto
  have e: "pt_entry v' t i = page OR VMM_FLAG_PRESENT OR VMM_FLAG_WRITE OR VMM_FLAG_USER"
    using ent [OF t i] by simp
  show "v_virt v' (pt_entry v' t i AND VMM_PHYS_MASK) = n"
    unfolding e phys_mask_entry(1) [OF w] n by (simp add: v_virt_def fields)
  show "pt_entry v' t i AND VMM_FLAG_PRESENT \<noteq> 0" "pt_entry v' t i AND VMM_FLAG_HUGE = 0"
    unfolding e using phys_mask_entry(2,3) [OF w] by simp_all
  have tk: "table_ok v' s = table_ok v1 s" for s by (simp add: table_ok_def table_page_def fields)
  show "table_ok v' n" "\<And>s. table_ok v s \<Longrightarrow> table_ok v' s \<and> s \<noteq> n" using a(1,3) by (simp_all add: tk)
  show "hhdm_offset (v_pmm v') = hhdm_offset (v_pmm v)" "total_pages (v_pmm v') = total_pages (v_pmm v)"
    "pmm_inv (v_pmm v') (v_mem v')" using a(4-6) by (simp_all add: fields)
qed

lemma table_at_snoc: "table_at v root (q @ [j]) = (case table_at v root q of None \<Rightarrow> None
    | Some s \<Rightarrow> if pt_entry v s j AND VMM_FLAG_PRESENT \<noteq> 0
        then Some (v_virt v (pt_entry v s j AND VMM_PHYS_MASK)) else None)"
  by (cases "table_at v root q") (simp_all add: table_at_append)

lemma vmm_extend_tables:
  assumes ok: "vmm_ok v root" and p: "path_ok (p @ [i])" "table_at v root p = Some t"
    and np: "pt_entry v t i AND VMM_FLAG_PRESENT = 0"
    and alloc: "vmm_pmm_alloc 1 v = (page, v1)" "page \<noteq> NULL"
    and n: "n = v_virt v1 page"
    and v': "v' = pt_set t i (page OR VMM_FLAG_PRESENT OR VMM_FLAG_WRITE OR VMM_FLAG_USER) (zero_table n v1)"
  shows "path_ok q \<Longrightarrow> table_at v' root q =
    (if q = p @ [i] then Some n else if \<exists>r. r \<noteq> [] \<and> q = p @ [i] @ r then None else table_at v root q)"
proof (induction q rule: rev_induct)
  case (snoc j q)
  note e = vmm_extend [OF assms]
  have q: "path_ok q" and j: "j < 512" using snoc.prems by (auto simp: path_ok_def)
  note IH = snoc.IH [OF q]
  consider (new) "q = p @ [i]" | (below) r where "r \<noteq> []" "q = p @ [i] @ r"
    | (old) "q \<noteq> p @ [i]" "\<nexists>r. r \<noteq> [] \<and> q = p @ [i] @ r" by blast
  then show ?case
  proof cases
    case new
    then have "table_at v' root q = Some n" using IH by simp
    then have "table_at v' root (q @ [j]) = None" using e(2) [OF j] by (simp only: table_at_snoc) simp
    moreover have "\<exists>r. r \<noteq> [] \<and> q @ [j] = p @ [i] @ r" "q @ [j] \<noteq> p @ [i]" using new by auto
    ultimately show ?thesis by (simp only: if_True if_False)
  next
    case below
    then have "table_at v' root q = None" using IH by auto
    then have "table_at v' root (q @ [j]) = None" by (simp only: table_at_snoc) simp
    moreover have "\<exists>r. r \<noteq> [] \<and> q @ [j] = p @ [i] @ r" "q @ [j] \<noteq> p @ [i]" using below by auto
    ultimately show ?thesis by (simp only: if_True if_False)
  next
    case old
    then have same: "table_at v' root q = table_at v root q" using IH by auto
    have nb: "\<nexists>r. r \<noteq> [] \<and> q @ [j] = p @ [i] @ r"
    proof
      assume "\<exists>r. r \<noteq> [] \<and> q @ [j] = p @ [i] @ r"
      then obtain r where "r \<noteq> []" "q @ [j] = p @ [i] @ r" by blast
      then have "q = p @ [i] @ butlast r" by (metis append_assoc butlast_append butlast_snoc)
      with old show False by (cases "butlast r = []") auto
    qed
    show ?thesis
    proof (cases "table_at v root q")
      case None
      then have "q @ [j] \<noteq> p @ [i]" using p(2) by auto
      with None nb same show ?thesis by (simp add: table_at_snoc)
    next
      case (Some s)
      have s: "table_ok v s" by (rule vmm_okD(4) [OF ok q Some])
      have iff: "s = t \<and> j = i \<longleftrightarrow> q @ [j] = p @ [i]"
        using vmm_okD(5) [OF ok q path_ok_append [OF p(1)] _ p(2)] Some p(2) by auto
      show ?thesis
      proof (cases "q @ [j] = p @ [i]")
        case True
        with iff have "s = t" "j = i" by auto
        with same Some True e(3,4) show ?thesis by (simp add: table_at_snoc)
      next
        case False
        with iff have "pt_entry v' s j = pt_entry v s j" using e(1) [OF s j] by auto
        moreover have "v_virt v' x = v_virt v x" for x by (simp add: v_virt_def phys_to_virt_def e(8))
        ultimately have "table_at v' root (q @ [j]) = table_at v root (q @ [j])"
          by (simp only: table_at_snoc same Some option.case)
        with False nb show ?thesis by (simp only: if_False)
      qed
    qed
  qed
qed simp

lemma vmm_extend_ok:
  assumes ok: "vmm_ok v root" and p: "path_ok (p @ [i])" "table_at v root p = Some t"
    and np: "pt_entry v t i AND VMM_FLAG_PRESENT = 0"
    and alloc: "vmm_pmm_alloc 1 v = (page, v1)" "page \<noteq> NULL"
    and n: "n = v_virt v1 page"
    and v': "v' = pt_set t i (page OR VMM_FLAG_PRESENT OR VMM_FLAG_WRITE OR VMM_FLAG_USER) (zero_table n v1)"
  shows "vmm_ok v' root" and "\<And>q j. path_ok q \<Longrightarrow> length q = 3 \<Longrightarrow> j < 512 \<Longrightarrow> leaf_entry v' root q j = leaf_entry v root q j"
proof -
  note e = vmm_extend [OF assms] and tab = vmm_extend_tables [OF assms] and d = vmm_okD [OF ok]
  have none: "table_at v root (p @ [i]) = None" using p(2) np by (simp add: table_at_snoc)
  have cases': "q = p @ [i] \<and> s = n \<or> table_at v root q = Some s" if "path_ok q" "table_at v' root q = Some s" for q s
    using tab [OF that(1)] that(2) by (auto split: if_splits)
  have tok: "table_ok v' s" if "path_ok q" "table_at v' root q = Some s" for q s
    using cases' [OF that] e(6,7) d(4) [OF that(1)] by blast
  have inj: "q = q'" if "path_ok q" "path_ok q'" "table_at v' root q = Some s" "table_at v' root q' = Some s" for q q' s
    using cases' [OF that(1,3)] cases' [OF that(2,4)] d(5) [OF that(1,2)] e(7) d(4) that(1,2) by blast
  have huge: "pt_entry v' s j AND VMM_FLAG_HUGE = 0"
    if "path_ok (q @ [j])" "table_at v' root q = Some s" "pt_entry v' s j AND VMM_FLAG_PRESENT \<noteq> 0" for q s j
  proof -
    have j: "j < 512" and q: "path_ok q" using that(1) by (auto simp: path_ok_def)
    from cases' [OF q that(2)] show ?thesis
    proof
      assume "q = p @ [i] \<and> s = n"
      with e(2) [OF j] that(3) show ?thesis by simp
    next
      assume old: "table_at v root q = Some s"
      with e(1) [OF d(4) [OF q old] j] e(4,5) that(3) d(6) [OF that(1) old] show ?thesis
        by (auto split: if_splits)
    qed
  qed
  show "vmm_ok v' root"
    unfolding vmm_ok_def using e(8-10) d(2,3,7) tok inj huge by (metis (no_types, lifting))
  show "leaf_entry v' root q j = leaf_entry v root q j" if q: "path_ok q" "length q = 3" and j: "j < 512" for q j
  proof (cases "table_at v root q")
    case None
    then have "table_at v' root q = None \<or> table_at v' root q = Some n" using tab [OF q(1)] by auto
    then show ?thesis using None e(2) [OF j] by (auto simp: leaf_entry_def)
  next
    case (Some s)
    moreover have "table_at v root (p @ [i] @ r) = None" for r
      using none table_at_append [of v root "p @ [i]" r] by simp
    ultimately have "q \<noteq> p @ [i]" "\<nexists>r. r \<noteq> [] \<and> q = p @ [i] @ r" using none by force+
    then have "table_at v' root q = Some s" using tab [OF q(1)] Some by auto
    moreover have "\<not> (s = t \<and> j = i)"
      using d(5) [OF q(1) path_ok_append [OF p(1)] _ p(2)] Some q(2) p(1) by (auto simp: path_ok_def)
    ultimately show ?thesis using Some e(1) [OF d(4) [OF q(1) Some] j] by (auto simp: leaf_entry_def)
  qed
qed

lemma get_next_level_correct:
  assumes ok: "vmm_ok v root" and p: "path_ok (p @ [i])" "table_at v root p = Some t"
    and get: "get_next_level t i True v = (n, v')" and n: "n \<noteq> NULL"
  shows "vmm_ok v' root" and "table_at v' root (p @ [i]) = Some n"
    and "\<And>q j. path_ok q \<Longrightarrow> length q = 3 \<Longrightarrow> j < 512 \<Longrightarrow> leaf_entry v' root q j = leaf_entry v root q j"
proof -
  have "vmm_ok v' root \<and> table_at v' root (p @ [i]) = Some n \<and>
      (\<forall>q j. path_ok q \<longrightarrow> length q = 3 \<longrightarrow> j < 512 \<longrightarrow> leaf_entry v' root q j = leaf_entry v root q j)"
  proof (cases "pt_entry v t i AND VMM_FLAG_PRESENT = 0")
    case False
    with get ok p(2) show ?thesis by (auto simp: get_next_level_def table_at_snoc)
  next
    case True
    obtain page v1 where alloc: "vmm_pmm_alloc 1 v = (page, v1)" by fastforce
    have page: "page \<noteq> NULL" and nn: "n = v_virt v1 page"
      and v': "v' = pt_set t i (page OR VMM_FLAG_PRESENT OR VMM_FLAG_WRITE OR VMM_FLAG_USER) (zero_table n v1)"
      using get n True alloc by (auto simp: get_next_level_def Let_def split: if_splits)
    note ext = vmm_extend_ok [OF ok p True alloc page nn v']
    have "table_at v' root (p @ [i]) = Some n"
      using vmm_extend_tables [OF ok p True alloc page nn v' p(1)] by simp
    with ext show ?thesis by blast
  qed
  then show "vmm_ok v' root" "table_at v' root (p @ [i]) = Some n"
    "\<And>q j. path_ok q \<Longrightarrow> length q = 3 \<Longrightarrow> j < 512 \<Longrightarrow> leaf_entry v' root q j = leaf_entry v root q j" by blast+
qed

section \<open>Translation\<close>

definition page_path :: "u64 \<Rightarrow> u64 list" where
  "page_path virt = [pml4_index virt, pdpt_index virt, pd_index virt]"

lemma index_less: "pml4_index virt < 512" "pdpt_index virt < 512" "pd_index virt < 512" "pt_index virt < 512"
proof -
  have "x AND 0x1FF < (512 :: u64)" for x :: u64
    using word_and_le1 [of x "0x1FF"] by (simp add: word_le_less_eq order_le_less_trans [of _ "0x1FF"])
  then show "pml4_index virt < 512" "pdpt_index virt < 512" "pd_index virt < 512" "pt_index virt < 512"
    by (simp_all add: pml4_index_def pdpt_index_def pd_index_def pt_index_def)
qed

lemma page_path_ok: "path_ok (page_path virt)" "length (page_path virt) = 3"
  by (simp_all add: page_path_def path_ok_def index_less)

lemma get_no_alloc: "get_next_level t i False v =
    (if pt_entry v t i AND VMM_FLAG_PRESENT \<noteq> 0 then v_virt v (pt_entry v t i AND VMM_PHYS_MASK) else NULL, v)"
  by (simp add: get_next_level_def)

lemma virt_to_phys_leaf:
  assumes ok: "vmm_ok v (pml4_virt ctx)"
  shows "vmm_virt_to_phys ctx virt v =
    (let e = leaf_entry v (pml4_virt ctx) (page_path virt) (pt_index virt)
     in if e AND VMM_FLAG_PRESENT \<noteq> 0 then (e AND VMM_PHYS_MASK) + (virt AND 0xFFF) else 0)"
proof -
  let ?r = "pml4_virt ctx" and ?i = "pml4_index virt" and ?j = "pdpt_index virt" and ?k = "pd_index virt"
  note d = vmm_okD [OF ok]
  have path: "path_ok ([] @ [?i])" "path_ok ([?i] @ [?j])" "path_ok ([?i, ?j] @ [?k])"
    using index_less by (auto simp: path_ok_def)
  have nz: "t \<noteq> NULL" if "path_ok p" "table_at v ?r p = Some t" for p t
    using d(4) [OF that] by (simp add: table_ok_def)
  note get = get_no_alloc
  show ?thesis
  proof (cases "table_at v ?r [?i]")
    case None
    then show ?thesis
      by (simp add: vmm_virt_to_phys_def get leaf_entry_def page_path_def split: if_splits)
  next
    case (Some pdpt)
    then have 1: "pt_entry v ?r ?i AND VMM_FLAG_PRESENT \<noteq> 0" "pdpt = v_virt v (pt_entry v ?r ?i AND VMM_PHYS_MASK)"
      by (simp_all split: if_splits)
    have h1: "pt_entry v ?r ?i AND VMM_FLAG_HUGE = 0" by (rule d(6) [OF path(1) _ 1(1)]) simp
    have n1: "pdpt \<noteq> NULL" using nz [OF _ Some] path(1) by simp
    show ?thesis
    proof (cases "table_at v ?r [?i, ?j]")
      case None
      then show ?thesis
        using 1 h1 n1 by (simp add: vmm_virt_to_phys_def get leaf_entry_def page_path_def split: if_splits)
    next
      case (Some pd)
      then have 2: "pt_entry v pdpt ?j AND VMM_FLAG_PRESENT \<noteq> 0" "pd = v_virt v (pt_entry v pdpt ?j AND VMM_PHYS_MASK)"
        using 1 by (simp_all split: if_splits)
      have h2: "pt_entry v pdpt ?j AND VMM_FLAG_HUGE = 0"
        by (rule d(6) [OF path(2) _ 2(1)]) (use 1 in simp)
      have n2: "pd \<noteq> NULL" using nz [OF _ Some] path(2) by simp
      show ?thesis
      proof (cases "table_at v ?r [?i, ?j, ?k]")
        case None
        then show ?thesis
          using 1 h1 n1 2 h2 n2
          by (simp add: vmm_virt_to_phys_def get leaf_entry_def page_path_def split: if_splits)
      next
        case (Some pt)
        then have 3: "pt_entry v pd ?k AND VMM_FLAG_PRESENT \<noteq> 0" "pt = v_virt v (pt_entry v pd ?k AND VMM_PHYS_MASK)"
          using 1 2 by (simp_all split: if_splits)
        have h3: "pt_entry v pd ?k AND VMM_FLAG_HUGE = 0"
          by (rule d(6) [OF path(3) _ 3(1)]) (use 1 2 in simp)
        have n3: "pt \<noteq> NULL" using nz [OF _ Some] path(3) by simp
        show ?thesis
          using 1 h1 n1 2 h2 n2 3 h3 n3
          by (simp add: vmm_virt_to_phys_def get leaf_entry_def page_path_def Let_def)
      qed
    qed
  qed
qed

text \<open>Writing an entry of a last-level table.\<close>

lemma pt_set_leaf:
  assumes ok: "vmm_ok v root" and p: "path_ok p" "length p = 3" "table_at v root p = Some t" and i: "i < 512"
  shows "vmm_ok (pt_set t i e v) root"
    and "\<And>q j. path_ok q \<Longrightarrow> length q = 3 \<Longrightarrow> j < 512 \<Longrightarrow>
      leaf_entry (pt_set t i e v) root q j = (if q = p \<and> j = i then e else leaf_entry v root q j)"
proof -
  note d = vmm_okD [OF ok]
  let ?v = "pt_set t i e v"
  have t: "table_ok v t" by (rule d(4) [OF p(1,3)])
  have ent: "pt_entry ?v s j = (if s = t \<and> j = i then e else pt_entry v s j)" if "table_ok v s" "j < 512" for s j
    using pt_entry_set [OF _ _ i that(2), of t s e v] t that(1) by (simp add: table_ok_def)
  have tab: "table_at ?v root q = table_at v root q" if "path_ok q" for q
  proof (rule table_at_cong)
    fix q' j s
    assume "\<exists>r. q = q' @ j # r" and s: "table_at v root q' = Some s"
    then obtain r where r: "q = q' @ j # r" by blast
    have q': "path_ok q'" "j < 512" "length q' < 3" using that by (auto simp: path_ok_def r)
    have "s \<noteq> t" using d(5) [OF q'(1) p(1) _ p(3)] s q'(3) p(2) by auto
    then show "pt_entry ?v s j = pt_entry v s j" using ent [OF d(4) [OF q'(1) s] q'(2)] by simp
  qed simp
  have huge: "pt_entry ?v s j = pt_entry v s j" if "path_ok (q @ [j])" "table_at v root q = Some s" for q s j
  proof -
    have q: "path_ok q" "j < 512" "length q < 3" using that(1) by (auto simp: path_ok_def)
    have "s \<noteq> t" using d(5) [OF q(1) p(1) _ p(3)] that(2) q(3) p(2) by auto
    then show ?thesis using ent [OF d(4) [OF q(1) that(2)] q(2)] by simp
  qed
  have tk: "table_ok ?v s = table_ok v s" for s by (simp add: table_ok_def table_page_def)
  show "vmm_ok ?v root"
    unfolding vmm_ok_def pt_set_fields tk using d tab huge path_ok_append by (metis (no_types, lifting))
  show "leaf_entry ?v root q j = (if q = p \<and> j = i then e else leaf_entry v root q j)"
    if q: "path_ok q" "length q = 3" and j: "j < 512" for q j
  proof (cases "table_at v root q")
    case None
    then have "q \<noteq> p" using p(3) by auto
    with None tab [OF q(1)] show ?thesis by (simp add: leaf_entry_def)
  next
    case (Some s)
    have "s = t \<longleftrightarrow> q = p" using d(5) [OF q(1) p(1) Some] Some p(3) by auto
    with Some tab [OF q(1)] ent [OF d(4) [OF q(1) Some] j] show ?thesis by (simp add: leaf_entry_def)
  qed
qed

text \<open>The page a virtual address lies in: its bits 12 to 47.\<close>

definition virt_page :: "u64 \<Rightarrow> u64" where
  "virt_page virt = take_bit 36 (drop_bit 12 virt)"

lemma index_bits: "bit (x AND 0x1FF :: u64) k \<longleftrightarrow> k < 9 \<and> bit x k"
proof -
  have "(0x1FF :: u64) = mask 9" by (simp add: mask_eq_exp_minus_1)
  then show ?thesis by (simp only: bit_and_iff bit_mask_iff) auto
qed

lemma page_path_eq:
  "page_path x = page_path y \<and> pt_index x = pt_index y \<longleftrightarrow> virt_page x = virt_page y"
proof
  assume eq: "page_path x = page_path y \<and> pt_index x = pt_index y"
  have b: "bit x k = bit y k" if "12 \<le> k" "k < 48" for k
  proof -
    consider "k < 21" | "21 \<le> k" "k < 30" | "30 \<le> k" "k < 39" | "39 \<le> k" by linarith
    then show ?thesis
    proof cases
      case 1
      with eq have "bit (pt_index x) (k - 12) = bit (pt_index y) (k - 12)" by simp
      moreover have "k - 12 < 9" using 1 that by simp
      ultimately show ?thesis using 1 that by (simp add: pt_index_def index_bits bit_drop_bit_eq)
    next
      case 2
      with eq have "bit (pd_index x) (k - 21) = bit (pd_index y) (k - 21)" by (simp add: page_path_def)
      moreover have "k - 21 < 9" using 2 that by simp
      ultimately show ?thesis using 2 that by (simp add: pd_index_def index_bits bit_drop_bit_eq)
    next
      case 3
      with eq have "bit (pdpt_index x) (k - 30) = bit (pdpt_index y) (k - 30)" by (simp add: page_path_def)
      moreover have "k - 30 < 9" using 3 that by simp
      ultimately show ?thesis using 3 that by (simp add: pdpt_index_def index_bits bit_drop_bit_eq)
    next
      case 4
      with eq have "bit (pml4_index x) (k - 39) = bit (pml4_index y) (k - 39)" by (simp add: page_path_def)
      moreover have "k - 39 < 9" using 4 that by simp
      ultimately show ?thesis using 4 that by (simp add: pml4_index_def index_bits bit_drop_bit_eq)
    qed
  qed
  show "virt_page x = virt_page y"
    unfolding virt_page_def by (rule bit_word_eqI) (auto simp: bit_take_bit_iff bit_drop_bit_eq b)
next
  assume "virt_page x = virt_page y"
  then have b: "bit x (12 + k) = bit y (12 + k)" if "k < 36" for k
    using that bit_take_bit_iff [of 36 "drop_bit 12 x" k] bit_take_bit_iff [of 36 "drop_bit 12 y" k]
    by (simp add: virt_page_def bit_drop_bit_eq)
  have idx: "drop_bit n x AND 0x1FF = drop_bit n y AND 0x1FF" if "n = 12 + m" "m + 9 \<le> 36" for n m
    by (rule bit_word_eqI) (use that b [of "m + _"] in \<open>auto simp: index_bits bit_drop_bit_eq add.assoc\<close>)
  show "page_path x = page_path y \<and> pt_index x = pt_index y"
    using idx [of 12 0] idx [of 21 9] idx [of 30 18] idx [of 39 27]
    by (simp add: page_path_def pml4_index_def pdpt_index_def pd_index_def pt_index_def)
qed

lemma map_entry:
  assumes "flags AND VMM_PHYS_MASK = 0"
  shows "((phys AND VMM_PHYS_MASK) OR flags OR VMM_FLAG_PRESENT) AND VMM_PHYS_MASK = phys AND VMM_PHYS_MASK"
    and "((phys AND VMM_PHYS_MASK) OR flags OR VMM_FLAG_PRESENT) AND VMM_FLAG_PRESENT \<noteq> 0"
proof -
  have "VMM_FLAG_PRESENT AND VMM_PHYS_MASK = 0"
    by (simp add: VMM_FLAG_PRESENT_def VMM_PHYS_MASK_def)
  then show "((phys AND VMM_PHYS_MASK) OR flags OR VMM_FLAG_PRESENT) AND VMM_PHYS_MASK = phys AND VMM_PHYS_MASK"
    using assms by (simp add: bit.conj_disj_distrib2 and.assoc)
  have "bit (((phys AND VMM_PHYS_MASK) OR flags OR VMM_FLAG_PRESENT) AND VMM_FLAG_PRESENT) 0"
    by (simp add: bit_and_iff bit_or_iff flag_bits)
  then show "((phys AND VMM_PHYS_MASK) OR flags OR VMM_FLAG_PRESENT) AND VMM_FLAG_PRESENT \<noteq> 0" by auto
qed

lemma vmm_map_leaf:
  assumes ok: "vmm_ok v (pml4_virt ctx)" and map: "vmm_map ctx virt phys flags v = (True, v')"
  shows "vmm_ok v' (pml4_virt ctx)" and "\<And>q j. path_ok q \<Longrightarrow> length q = 3 \<Longrightarrow> j < 512 \<Longrightarrow>
    leaf_entry v' (pml4_virt ctx) q j = (if q = page_path virt \<and> j = pt_index virt
      then (phys AND VMM_PHYS_MASK) OR flags OR VMM_FLAG_PRESENT else leaf_entry v (pml4_virt ctx) q j)"
proof -
  let ?r = "pml4_virt ctx" and ?i = "pml4_index virt" and ?j = "pdpt_index virt" and ?k = "pd_index virt"
  have path: "path_ok ([] @ [?i])" "path_ok ([?i] @ [?j])" "path_ok ([?i, ?j] @ [?k])"
    using index_less by (auto simp: path_ok_def)
  obtain pdpt v1 where g1: "get_next_level ?r ?i True v = (pdpt, v1)" by fastforce
  obtain pd v2 where g2: "get_next_level pdpt ?j True v1 = (pd, v2)" by fastforce
  obtain pt v3 where g3: "get_next_level pd ?k True v2 = (pt, v3)" by fastforce
  have nz: "pdpt \<noteq> NULL" "pd \<noteq> NULL" "pt \<noteq> NULL"
    and v': "v' = pt_set pt (pt_index virt) ((phys AND VMM_PHYS_MASK) OR flags OR VMM_FLAG_PRESENT) v3"
    using map g1 g2 g3 by (auto simp: vmm_map_def split: if_splits)
  note l1 = get_next_level_correct [OF ok path(1) table_at.simps(1) g1 nz(1)]
  have t1: "table_at v1 ?r [?i] = Some pdpt" using l1(2) by simp
  note l2 = get_next_level_correct [OF l1(1) path(2) t1 g2 nz(2)]
  have t2: "table_at v2 ?r [?i, ?j] = Some pd" using l2(2) by simp
  note l3 = get_next_level_correct [OF l2(1) path(3) t2 g3 nz(3)]
  have t3: "table_at v3 ?r (page_path virt) = Some pt" using l3(2) by (simp add: page_path_def)
  note ok3 = l3(1)
  note leaf = pt_set_leaf [OF ok3 page_path_ok t3 index_less(4)]
  show "vmm_ok v' ?r" unfolding v' by (rule leaf(1))
  show "leaf_entry v' ?r q j = (if q = page_path virt \<and> j = pt_index virt
      then (phys AND VMM_PHYS_MASK) OR flags OR VMM_FLAG_PRESENT else leaf_entry v ?r q j)"
    if "path_ok q" "length q = 3" "j < 512" for q j
    using leaf(2) [OF that] l1(3) [OF that] l2(3) [OF that] l3(3) [OF that] by (simp add: v')
qed

lemma vmm_unmap_leaf:
  assumes ok: "vmm_ok v (pml4_virt ctx)" and un: "vmm_unmap ctx virt v = (True, v')"
  shows "vmm_ok v' (pml4_virt ctx)" and "\<And>q j. path_ok q \<Longrightarrow> length q = 3 \<Longrightarrow> j < 512 \<Longrightarrow>
    leaf_entry v' (pml4_virt ctx) q j = (if q = page_path virt \<and> j = pt_index virt then 0
      else leaf_entry v (pml4_virt ctx) q j)"
proof -
  let ?r = "pml4_virt ctx"
  obtain pt where t: "table_at v ?r (page_path virt) = Some pt" and v': "v' = pt_set pt (pt_index virt) 0 v"
    using un by (auto simp: vmm_unmap_def get_no_alloc page_path_def Let_def split: if_splits)
  note leaf = pt_set_leaf [OF ok page_path_ok t index_less(4)]
  show "vmm_ok v' ?r" unfolding v' by (rule leaf(1))
  show "leaf_entry v' ?r q j = (if q = page_path virt \<and> j = pt_index virt then 0 else leaf_entry v ?r q j)"
    if "path_ok q" "length q = 3" "j < 512" for q j
    using leaf(2) [OF that] by (simp add: v')
qed

section \<open>An example\<close>

text \<open>Sixteen pages with an identity window, the bitmap in page 0, and the tables on the way to
  address 0x400000 in pages 1 to 4.\<close>

definition vmm_example :: vmm where
  "vmm_example = pt_set 4096 0 0x2007 (pt_set 8192 0 0x3007 (pt_set 12288 2 0x4007
     \<lparr>v_pmm = pmm_example\<lparr>bitmap := 0, free_pages := 11\<rparr>,
      v_mem = (\<lambda>a. if a = 0 then 31 else 0), v_tab = (\<lambda>_. 0), v_cr3 = 4096,
      v_kernel_context = \<lparr>pml4_phys = 4096, pml4_virt = 4096\<rparr>, v_current_context = None\<rparr>))"

definition ctx_example :: vmm_context where
  "ctx_example = \<lparr>pml4_phys = 4096, pml4_virt = 4096\<rparr>"

lemma vmm_example_entry:
  assumes "t = 4096 \<or> t = 8192 \<or> t = 12288 \<or> t = 16384" and "i < 512"
  shows "pt_entry vmm_example t i = (if t = 4096 \<and> i = 0 then 0x2007 else if t = 8192 \<and> i = 0 then 0x3007
    else if t = 12288 \<and> i = 2 then 0x4007 else 0)"
proof -
  have "4096 dvd unat t" using assms(1) by auto
  then show ?thesis
    unfolding vmm_example_def using assms(2) by (simp add: pt_entry_set) (simp add: pt_entry_def)
qed

lemma vmm_example_pmm:
  shows "\<And>p. p < 16 \<Longrightarrow> page_used (v_pmm vmm_example) (v_mem vmm_example) p \<longleftrightarrow> p < 5"
    and "unat (total_pages (v_pmm vmm_example)) = 16" and "hhdm_offset (v_pmm vmm_example) = 0"
    and "pmm_inv (v_pmm vmm_example) (v_mem vmm_example)"
proof -
  let ?s = "v_pmm vmm_example" and ?m = "v_mem vmm_example"
  have used: "page_used ?s ?m p \<longleftrightarrow> p < 5" if "p < 16" for p
  proof -
    have "p \<in> {0, 1, 2, 3, 4, 5, 6, 7, 8, 9, 10, 11, 12, 13, 14, 15}"
      using that unfolding insert_iff empty_iff by presburger
    then show ?thesis
      unfolding page_used_def bitmap_test_def vmm_example_def pmm_example_def pmm_boot_def
      by (elim insertE emptyE) (simp_all add: pt_set_def)
  qed
  then show "\<And>p. p < 16 \<Longrightarrow> page_used ?s ?m p \<longleftrightarrow> p < 5" .
  show T: "unat (total_pages ?s) = 16" "hhdm_offset ?s = 0"
    by (simp_all add: vmm_example_def pmm_example_def pmm_boot_def)
  have "{p. p < 16 \<and> \<not> page_used ?s ?m p} = {5..<16}" using used by auto
  then show "pmm_inv ?s ?m"
    unfolding pmm_inv_def T by (simp add: vmm_example_def pmm_example_def pmm_boot_def)
qed

lemma vmm_example_tables:
  assumes "path_ok p"
  shows "table_at vmm_example 4096 p = (if p = [] then Some 4096 else if p = [0] then Some 8192
    else if p = [0, 0] then Some 12288 else if p = [0, 0, 2] then Some 16384 else None)"
proof -
  have v: "v_virt vmm_example x = x" for x by (simp add: v_virt_def phys_to_virt_def vmm_example_pmm(3))
  have nil: "table_at vmm_example 16384 q = None" if "q \<noteq> []" "\<forall>i \<in> set q. i < 512" for q
    using that by (cases q) (simp_all add: vmm_example_entry)
  have pd: "table_at vmm_example 12288 q = (if q = [] then Some 12288 else if q = [2] then Some 16384 else None)"
    if "\<forall>i \<in> set q. i < 512" for q
    using that nil by (cases q) (simp_all add: vmm_example_entry v VMM_FLAG_PRESENT_def VMM_PHYS_MASK_def)
  have pdpt: "table_at vmm_example 8192 q = (if q = [] then Some 8192 else if q = [0] then Some 12288
      else if q = [0, 2] then Some 16384 else None)" if "\<forall>i \<in> set q. i < 512" for q
    using that pd by (cases q) (simp_all add: vmm_example_entry v VMM_FLAG_PRESENT_def VMM_PHYS_MASK_def)
  show ?thesis
    using assms pdpt unfolding path_ok_def
    by (cases p) (simp_all add: vmm_example_entry v VMM_FLAG_PRESENT_def VMM_PHYS_MASK_def)
qed

lemma vmm_example_ok: "vmm_ok vmm_example (pml4_virt ctx_example)"
proof -
  have ok: "table_ok vmm_example t" if "t = 4096 \<or> t = 8192 \<or> t = 12288 \<or> t = 16384" for t
    using that vmm_example_pmm(1) by (auto simp: table_ok_def table_page_def vmm_example_pmm(2,3))
  have huge: "pt_entry vmm_example t i AND VMM_FLAG_HUGE = 0"
    if "path_ok (p @ [i])" "table_at vmm_example 4096 p = Some t" for p t i
  proof -
    have "i < 512" "t = 4096 \<or> t = 8192 \<or> t = 12288 \<or> t = 16384"
      using that vmm_example_tables [OF path_ok_append [OF that(1)]]
      by (auto simp: path_ok_def split: if_splits)
    then show ?thesis by (simp add: vmm_example_entry VMM_FLAG_HUGE_def)
  qed
  have tok: "table_ok vmm_example t" if "path_ok p" "table_at vmm_example 4096 p = Some t" for p t
    using vmm_example_tables [OF that(1)] that(2) by (intro ok) (auto split: if_splits)
  have inj: "p = q" if "path_ok p" "path_ok q" "table_at vmm_example 4096 p = Some t" "table_at vmm_example 4096 q = Some t" for p q t
    using vmm_example_tables [OF that(1)] vmm_example_tables [OF that(2)] that(3,4)
    by (auto split: if_splits)
  have "pml4_virt ctx_example = 4096" by (simp add: ctx_example_def)
  then show ?thesis
    unfolding vmm_ok_def using vmm_example_pmm(2-4) tok inj huge by simp
qed

lemma vmm_map_example: "fst (vmm_map ctx_example 0x400000 0x7000 VMM_FLAG_WRITE vmm_example)"
proof -
  have v: "v_virt vmm_example x = x" for x by (simp add: v_virt_def phys_to_virt_def vmm_example_pmm(3))
  show ?thesis
    by (simp add: vmm_map_def get_next_level_def ctx_example_def pml4_index_def pdpt_index_def pd_index_def
        vmm_example_entry v VMM_FLAG_PRESENT_def VMM_PHYS_MASK_def)
qed

section \<open>Properties\<close>

text \<open>C4: Mapping a page.  When \<open>vmm_map\<close> succeeds, translating any address of that page gives the
  mapped frame plus the offset, the translation of every address outside the page is what it
  was, and the page tables are well-formed again, also when tables had to be allocated on the
  way.\<close>

theorem vmm_map_correct:
  assumes "vmm_ok v (pml4_virt ctx)" and "flags AND VMM_PHYS_MASK = 0"
    and "vmm_map ctx virt phys flags v = (True, v')"
  shows "vmm_ok v' (pml4_virt ctx) \<and> (\<forall>x. vmm_virt_to_phys ctx x v' =
    (if virt_page x = virt_page virt then (phys AND VMM_PHYS_MASK) + (x AND 0xFFF)
     else vmm_virt_to_phys ctx x v))"
proof -
  note leaf = vmm_map_leaf [OF assms(1,3)]
  have "vmm_virt_to_phys ctx x v' = (if virt_page x = virt_page virt
      then (phys AND VMM_PHYS_MASK) + (x AND 0xFFF) else vmm_virt_to_phys ctx x v)" for x
    using leaf(2) [OF page_path_ok index_less(4), of x x] map_entry [OF assms(2), of phys]
    by (simp add: virt_to_phys_leaf [OF leaf(1)] virt_to_phys_leaf [OF assms(1)] Let_def
        flip: page_path_eq [of x virt])
  with leaf(1) show ?thesis by blast
qed

theorem vmm_map_correct_witness:
  "case vmm_map ctx_example 0x400000 0x7000 VMM_FLAG_WRITE vmm_example of (ok, v') \<Rightarrow>
     ok \<and> vmm_virt_to_phys ctx_example 0x400123 v' = 0x7123"
proof -
  obtain v' where map: "vmm_map ctx_example 0x400000 0x7000 VMM_FLAG_WRITE vmm_example = (True, v')"
    using prod.collapse [of "vmm_map ctx_example 0x400000 0x7000 VMM_FLAG_WRITE vmm_example"]
      vmm_map_example by metis
  have "VMM_FLAG_WRITE AND VMM_PHYS_MASK = 0" by (simp add: VMM_FLAG_WRITE_def VMM_PHYS_MASK_def)
  from vmm_map_correct [OF vmm_example_ok this map]
  have "vmm_virt_to_phys ctx_example 0x400123 v' = (0x7000 AND VMM_PHYS_MASK) + (0x400123 AND 0xFFF)"
    by (simp add: virt_page_def)
  with map show ?thesis by (simp add: VMM_PHYS_MASK_def)
qed

text \<open>Unmapping a page.  After \<open>vmm_unmap\<close> succeeds no address of the page translates, every
  other translation is what it was and the tables stay well-formed; when it fails nothing
  changes.\<close>

theorem vmm_unmap_correct:
  assumes "vmm_ok v (pml4_virt ctx)" and "vmm_unmap ctx virt v = (r, v')"
  shows "if r then vmm_ok v' (pml4_virt ctx) \<and>
      (\<forall>x. vmm_virt_to_phys ctx x v' = (if virt_page x = virt_page virt then 0 else vmm_virt_to_phys ctx x v))
    else v' = v"
proof (cases r)
  case True
  then have un: "vmm_unmap ctx virt v = (True, v')" using assms(2) by simp
  note leaf = vmm_unmap_leaf [OF assms(1) un]
  have "vmm_virt_to_phys ctx x v' = (if virt_page x = virt_page virt then 0 else vmm_virt_to_phys ctx x v)" for x
    using leaf(2) [OF page_path_ok index_less(4), of x x]
    by (simp add: virt_to_phys_leaf [OF leaf(1)] virt_to_phys_leaf [OF assms(1)] Let_def
        flip: page_path_eq [of x virt])
  with leaf(1) True show ?thesis by simp
next
  case False
  with assms(2) show ?thesis
    by (simp add: vmm_unmap_def get_no_alloc split: if_splits)
qed

theorem vmm_unmap_correct_witness:
  "vmm_virt_to_phys ctx_example 0x400123 (snd (vmm_unmap ctx_example 0x400000 vmm_example)) = 0"
proof -
  have v: "v_virt vmm_example x = x" for x by (simp add: v_virt_def phys_to_virt_def vmm_example_pmm(3))
  have "fst (vmm_unmap ctx_example 0x400000 vmm_example)"
    by (simp add: vmm_unmap_def get_no_alloc ctx_example_def pml4_index_def pdpt_index_def pd_index_def
        vmm_example_entry v VMM_FLAG_PRESENT_def VMM_PHYS_MASK_def)
  moreover have "virt_page 0x400123 = virt_page 0x400000" by (simp add: virt_page_def)
  moreover have "vmm_unmap ctx_example 0x400000 vmm_example =
      (fst (vmm_unmap ctx_example 0x400000 vmm_example), snd (vmm_unmap ctx_example 0x400000 vmm_example))"
    by (rule surjective_pairing)
  from vmm_unmap_correct [OF vmm_example_ok this] calculation show ?thesis by (simp only: if_True) simp
qed

end
