(* ===== verification/Sha256.thy ===== *)
theory Sha256
  imports Cmem
begin

text \<open>
  \<open>krnl/util/sha256.c\<close>.  Local arrays are lists, the message is read from memory.  The
  streaming computation (full blocks from the message, then a padding buffer of one or two
  blocks) is shown equal to hashing the padded message block by block, as the standard
  defines it; distinct digests have distinct hexadecimal forms.
\<close>

section \<open>Compression\<close>

definition ROTR :: "u32 \<Rightarrow> nat \<Rightarrow> u32" where "ROTR x n = drop_bit n x OR push_bit (32 - n) x"
definition SHR :: "u32 \<Rightarrow> nat \<Rightarrow> u32" where "SHR x n = drop_bit n x"
definition CH :: "u32 \<Rightarrow> u32 \<Rightarrow> u32 \<Rightarrow> u32" where "CH x y z = (x AND y) XOR (NOT x AND z)"
definition MAJ :: "u32 \<Rightarrow> u32 \<Rightarrow> u32 \<Rightarrow> u32" where "MAJ x y z = (x AND y) XOR (x AND z) XOR (y AND z)"
definition S0 :: "u32 \<Rightarrow> u32" where "S0 x = ROTR x 2 XOR ROTR x 13 XOR ROTR x 22"
definition S1 :: "u32 \<Rightarrow> u32" where "S1 x = ROTR x 6 XOR ROTR x 11 XOR ROTR x 25"
definition G0 :: "u32 \<Rightarrow> u32" where "G0 x = ROTR x 7 XOR ROTR x 18 XOR SHR x 3"
definition G1 :: "u32 \<Rightarrow> u32" where "G1 x = ROTR x 17 XOR ROTR x 19 XOR SHR x 10"

definition K :: "u32 list" where
  "K = concat [
    [0x428a2f98, 0x71374491, 0xb5c0fbcf, 0xe9b5dba5], [0x3956c25b, 0x59f111f1, 0x923f82a4, 0xab1c5ed5],
    [0xd807aa98, 0x12835b01, 0x243185be, 0x550c7dc3], [0x72be5d74, 0x80deb1fe, 0x9bdc06a7, 0xc19bf174],
    [0xe49b69c1, 0xefbe4786, 0x0fc19dc6, 0x240ca1cc], [0x2de92c6f, 0x4a7484aa, 0x5cb0a9dc, 0x76f988da],
    [0x983e5152, 0xa831c66d, 0xb00327c8, 0xbf597fc7], [0xc6e00bf3, 0xd5a79147, 0x06ca6351, 0x14292967],
    [0x27b70a85, 0x2e1b2138, 0x4d2c6dfc, 0x53380d13], [0x650a7354, 0x766a0abb, 0x81c2c92e, 0x92722c85],
    [0xa2bfe8a1, 0xa81a664b, 0xc24b8b70, 0xc76c51a3], [0xd192e819, 0xd6990624, 0xf40e3585, 0x106aa070],
    [0x19a4c116, 0x1e376c08, 0x2748774c, 0x34b0bcb5], [0x391c0cb3, 0x4ed8aa4a, 0x5b9cca4f, 0x682e6ff3],
    [0x748f82ee, 0x78a5636f, 0x84c87814, 0x8cc70208], [0x90befffa, 0xa4506ceb, 0xbef9a3f7, 0xc67178f2]]"

definition block_word :: "u8 list \<Rightarrow> nat \<Rightarrow> u32" where
  "block_word block i = push_bit 24 (ucast (block ! (i * 4 + 0))) OR push_bit 16 (ucast (block ! (i * 4 + 1)))
     OR push_bit 8 (ucast (block ! (i * 4 + 2))) OR ucast (block ! (i * 4 + 3))"

definition schedule :: "u8 list \<Rightarrow> u32 list" where
  "schedule block =
     fold (\<lambda>i w. w @ [G1 (w ! (i - 2)) + w ! (i - 7) + G0 (w ! (i - 15)) + w ! (i - 16)]) [16..<64]
       (map (block_word block) [0..<16])"

type_synonym hash_state = "u32 \<times> u32 \<times> u32 \<times> u32 \<times> u32 \<times> u32 \<times> u32 \<times> u32"

definition sha_round :: "u32 list \<Rightarrow> nat \<Rightarrow> hash_state \<Rightarrow> hash_state" where
  "sha_round w i = (\<lambda>(a, b, c, d, e, f, g, hh).
     let t1 = hh + S1 e + CH e f g + K ! i + w ! i;
         t2 = S0 a + MAJ a b c
     in (t1 + t2, a, b, c, d + t1, e, f, g))"

definition process_block :: "u8 list \<Rightarrow> hash_state \<Rightarrow> hash_state" where
  "process_block block h =
     (let w = schedule block;
          (a, b, c, d, e, f, g, hh) = fold (sha_round w) [0..<64] h;
          (h0, h1, h2, h3, h4, h5, h6, h7) = h
      in (h0 + a, h1 + b, h2 + c, h3 + d, h4 + e, h5 + f, h6 + g, h7 + hh))"

definition sha256_init :: hash_state where
  "sha256_init = (0x6a09e667, 0xbb67ae85, 0x3c6ef372, 0xa54ff53a,
     0x510e527f, 0x9b05688c, 0x1f83d9ab, 0x5be0cd19)"

section \<open>The hash of a message in memory\<close>

text \<open>The padding buffer of 128 bytes, from the message bytes after the last full block.\<close>

definition pad_buffer :: "u8 list \<Rightarrow> u64 \<Rightarrow> nat \<Rightarrow> u8 list" where
  "pad_buffer rest len pad_blocks =
     (let pad = replicate 128 0;
          pad = rest @ drop (length rest) pad;
          pad = pad[length rest := 0x80];
          bit_len = len * 8
      in fold (\<lambda>k pad. pad[pad_blocks * 64 - 8 + k := ucast (drop_bit (56 - 8 * k) bit_len)]) [0..<8] pad)"

definition word_bytes :: "u32 \<Rightarrow> u8 list" where
  "word_bytes x = [ucast (drop_bit 24 x), ucast (drop_bit 16 x), ucast (drop_bit 8 x), ucast x]"

definition digest_bytes :: "hash_state \<Rightarrow> u8 list" where
  "digest_bytes = (\<lambda>(a, b, c, d, e, f, g, h). concat (map word_bytes [a, b, c, d, e, f, g, h]))"

definition sha256 :: "memory \<Rightarrow> u64 \<Rightarrow> u64 \<Rightarrow> u8 list" where
  "sha256 m data len =
     (let full = len div 64;
          partial = len mod 64;
          h = fold (\<lambda>i. process_block (load_bytes m (data + of_nat i * 64) 64)) [0..<unat full] sha256_init;
          pad_blocks = (if partial < 56 then 1 else 2);
          pad = pad_buffer (load_bytes m (data + full * 64) (unat partial)) len pad_blocks;
          h = fold (\<lambda>i. process_block (take 64 (drop (i * 64) pad))) [0..<pad_blocks] h
      in digest_bytes h)"

definition hex_digits :: "u8 list" where
  "hex_digits = map (\<lambda>c. of_nat (of_char c)) ''0123456789abcdef''"

text \<open>\<open>sha256_to_hex\<close> writes 64 characters and a NUL.\<close>

definition sha256_to_hex :: "u8 list \<Rightarrow> u8 list" where
  "sha256_to_hex digest =
     concat (map (\<lambda>i. [hex_digits ! unat (drop_bit 4 (digest ! i)), hex_digits ! unat (digest ! i AND 0xf)]) [0..<32]) @ [0]"

definition sha256_compare :: "u8 list \<Rightarrow> u8 list \<Rightarrow> int" where
  "sha256_compare a b =
     (case dropWhile (\<lambda>i. a ! i = b ! i) [0..<32] of [] \<Rightarrow> 0 | i # _ \<Rightarrow> int (unat (a ! i)) - int (unat (b ! i)))"

definition sha256_oneshot :: "memory \<Rightarrow> u64 \<Rightarrow> u64 \<Rightarrow> u8 list" where
  "sha256_oneshot m data len = sha256_to_hex (sha256 m data len)"

section \<open>The padded message\<close>

definition be64 :: "u64 \<Rightarrow> u8 list" where
  "be64 x = map (\<lambda>k. ucast (drop_bit (56 - 8 * k) x)) [0..<8]"

text \<open>The standard's padding: a one bit, zeros up to 56 modulo 64 bytes, the length in bits.\<close>

definition padded :: "u8 list \<Rightarrow> u8 list" where
  "padded msg = msg @ [0x80] @ replicate ((119 - length msg mod 64) mod 64) 0 @ be64 (of_nat (8 * length msg))"

definition blocks64 :: "u8 list \<Rightarrow> u8 list list" where
  "blocks64 xs = map (\<lambda>i. take 64 (drop (i * 64) xs)) [0..<length xs div 64]"

definition sha256_spec :: "u8 list \<Rightarrow> u8 list" where
  "sha256_spec msg = digest_bytes (fold process_block (blocks64 (padded msg)) sha256_init)"

lemma length_be64 [simp]: "length (be64 x) = 8"
  by (simp add: be64_def)

lemma fold_list_update:
  "n + length ys \<le> length xs \<Longrightarrow> fold (\<lambda>k xs. xs[n + k := ys ! k]) [0..<length ys] xs =
     take n xs @ ys @ drop (n + length ys) xs"
proof (induction ys rule: rev_induct)
  case (snoc y ys)
  have "fold (\<lambda>k xs. xs[n + k := (ys @ [y]) ! k]) [0..<length ys] xs =
      fold (\<lambda>k xs. xs[n + k := ys ! k]) [0..<length ys] xs"
    by (rule fold_cong) (auto simp: nth_append)
  moreover have "drop (n + length ys) xs = xs ! (n + length ys) # drop (Suc (n + length ys)) xs"
    using snoc.prems by (simp add: Cons_nth_drop_Suc)
  ultimately show ?case
    using snoc by (simp add: list_update_append)
qed simp

lemma pad_zeros: "r < 64 \<Longrightarrow> (119 - r) mod 64 = (if r < 56 then 55 - r else 119 - r :: nat)"
  by (auto simp: mod_if)

lemma pad_buffer_eq:
  assumes "length rest < 64" and "pad_blocks = (if length rest < 56 then 1 else 2)"
  shows "take (64 * pad_blocks) (pad_buffer rest len pad_blocks) =
    rest @ [0x80] @ replicate ((119 - length rest) mod 64) 0 @ be64 (len * 8)"
proof -
  let ?r = "length rest" and ?n = "64 * pad_blocks"
  let ?pad = "(rest @ drop ?r (replicate 128 0))[?r := 0x80 :: u8]"
  have "128 - ?r = Suc (127 - ?r)" using assms(1) by simp
  then have pad: "?pad = rest @ [0x80] @ replicate (127 - ?r) 0"
    by (simp add: list_update_append)
  have "pad_buffer rest len pad_blocks = fold (\<lambda>k pad. pad[(?n - 8) + k := be64 (len * 8) ! k]) [0..<8] ?pad"
    unfolding pad_buffer_def Let_def by (rule fold_cong) (simp_all add: be64_def mult.commute)
  also have "\<dots> = take (?n - 8) ?pad @ be64 (len * 8) @ drop ?n ?pad"
    using fold_list_update [of "?n - 8" "be64 (len * 8)" ?pad] assms by (simp add: pad)
  finally have "take ?n (pad_buffer rest len pad_blocks) = take (?n - 8) ?pad @ be64 (len * 8)"
    using assms by (simp add: pad)
  moreover have "take (?n - 8) ?pad = rest @ [0x80] @ replicate (?n - 8 - Suc ?r) 0"
    using assms unfolding pad by (auto simp: take_Cons' min_def)
  moreover have "?n - 8 - Suc ?r = (119 - ?r) mod 64"
    using pad_zeros [OF assms(1)] assms(2) by auto
  ultimately show ?thesis by simp
qed

lemma blocks64_append:
  assumes "64 dvd length xs"
  shows "blocks64 (xs @ ys) = blocks64 xs @ blocks64 ys"
proof -
  obtain k where k: "length xs = 64 * k" using assms by auto
  have "blocks64 (xs @ ys) = map (\<lambda>i. take 64 (drop (i * 64) (xs @ ys))) ([0..<k] @ [k..<k + length ys div 64])"
    using k by (simp add: blocks64_def upt_add_eq_append [of 0 k])
  also have "\<dots> = blocks64 xs @ map (\<lambda>i. take 64 (drop (i * 64) (xs @ ys))) [k..<k + length ys div 64]"
    using k by (simp add: blocks64_def)
  also have "map (\<lambda>i. take 64 (drop (i * 64) (xs @ ys))) [k..<k + length ys div 64] = blocks64 ys"
    using k by (auto simp: blocks64_def intro!: nth_equalityI simp: algebra_simps)
  finally show ?thesis .
qed

lemma load_bytes_take_drop:
  "i + n \<le> len \<Longrightarrow> load_bytes m (data + of_nat i) n = take n (drop i (load_bytes m data len))"
  by (rule nth_equalityI) (simp_all add: add.assoc)

lemma load_bytes_block:
  assumes "i < len div 64"
  shows "load_bytes m (data + of_nat i * 64) 64 = take 64 (drop (i * 64) (load_bytes m data len))"
proof -
  have "i * 64 + 64 \<le> len" using assms by linarith
  then have "load_bytes m (data + of_nat (i * 64)) 64 = take 64 (drop (i * 64) (load_bytes m data len))"
    by (rule load_bytes_take_drop)
  then show ?thesis by (simp only: of_nat_mult of_nat_numeral)
qed

lemma blocks64_take:
  assumes "64 * k \<le> length xs"
  shows "blocks64 (take (64 * k) xs) = map (\<lambda>i. take 64 (drop (i * 64) xs)) [0..<k]"
proof -
  have "take 64 (drop (i * 64) (take (64 * k) xs)) = take 64 (drop (i * 64) xs)" if "i < k" for i
  proof -
    have "64 \<le> 64 * k - i * 64" using that by simp
    then show ?thesis by (simp add: drop_take min_def)
  qed
  then show ?thesis using assms by (simp add: blocks64_def)
qed

lemma fold_map_blocks: "fold (\<lambda>i. process_block (f i)) is h = fold process_block (map f is) h"
  by (induction "is" arbitrary: h) auto

section \<open>The hexadecimal form\<close>

lemma concat_map_inj:
  "concat (map f xs) = concat (map g xs) \<Longrightarrow> (\<And>x. length (f x) = length (g x)) \<Longrightarrow> map f xs = map g xs"
  by (induction xs) auto

lemma hex_digits_inj:
  assumes "hex_digits ! i = hex_digits ! j" and "i < 16" and "j < 16"
  shows "i = j"
proof -
  have "distinct hex_digits" and "length hex_digits = 16" by (code_simp, code_simp)
  then show ?thesis using assms by (simp add: nth_eq_iff_index_eq)
qed

lemma byte_nibbles:
  assumes "drop_bit 4 x = drop_bit 4 y" and "x AND 0xf = y AND (0xf :: u8)"
  shows "x = y"
proof -
  have mask: "z AND 0xf = take_bit 4 z" for z :: u8
    using take_bit_eq_mask [of 4 z] by (simp add: mask_eq_exp_minus_1)
  have "push_bit 4 (drop_bit 4 x) + take_bit 4 x = push_bit 4 (drop_bit 4 y) + take_bit 4 y"
    using assms by (simp add: mask)
  then show ?thesis by (simp add: bits_ident)
qed

lemma unat_nibbles: "unat (drop_bit 4 x) < 16" "unat (x AND 0xf) < 16" for x :: u8
proof -
  show "unat (drop_bit 4 x) < 16"
    using unsigned_less [of x, where 'a = nat] by (simp add: drop_bit_eq_div unat_div)
  have "x AND 0xf = take_bit 4 x" using take_bit_eq_mask [of 4 x] by (simp add: mask_eq_exp_minus_1)
  then show "unat (x AND 0xf) < 16" by (simp add: take_bit_eq_mod unat_mod)
qed

text \<open>Distinct digests have distinct hexadecimal forms.\<close>

lemma sha256_to_hex_inj:
  assumes "sha256_to_hex d = sha256_to_hex e" and "length d = 32" and "length e = 32"
  shows "d = e"
proof (rule nth_equalityI)
  let ?f = "\<lambda>d i. [hex_digits ! unat (drop_bit 4 (d ! i)), hex_digits ! unat (d ! i AND 0xf)]"
  define ix where "ix = [0..<32 :: nat]"
  have "concat (map (?f d) ix) = concat (map (?f e) ix)"
    using assms(1) unfolding sha256_to_hex_def append_same_eq ix_def .
  then have eq: "map (?f d) ix = map (?f e) ix"
    by (rule concat_map_inj) simp_all
  fix i
  assume "i < length d"
  with assms(2) have i: "i \<in> set ix" by (simp add: ix_def)
  have "?f d i = ?f e i" using eq i unfolding map_eq_conv by (rule bspec)
  then have hi: "hex_digits ! unat (drop_bit 4 (d ! i)) = hex_digits ! unat (drop_bit 4 (e ! i))"
    and lo: "hex_digits ! unat (d ! i AND 0xf) = hex_digits ! unat (e ! i AND 0xf)"
    by (simp_all only: list.inject)
  show "d ! i = e ! i"
    by (rule byte_nibbles; rule word_unat_eq_iff [THEN iffD2])
      (rule hex_digits_inj [OF hi unat_nibbles(1) unat_nibbles(1)], rule hex_digits_inj [OF lo unat_nibbles(2) unat_nibbles(2)])
qed (simp add: assms)

section \<open>Properties\<close>

text \<open>C37: \<open>sha256\<close> computes the hash the standard defines: for every message in memory, the block
  loop, the padding buffer and its one or two final blocks amount to processing the message
  padded with a one bit, zeros and its bit length, block by block.\<close>

theorem sha256_correct: "sha256 m data len = sha256_spec (load_bytes m data (unat len))"
proof -
  let ?n = "unat len" and ?msg = "load_bytes m data (unat len)"
  let ?f = "?n div 64" and ?r = "?n mod 64"
  define pb where "pb = (if ?r < 56 then 1 else 2 :: nat)"
  define rest where "rest = drop (64 * ?f) ?msg"
  have rest: "length rest = ?r" "rest = load_bytes m (data + len div 64 * 64) ?r"
  proof -
    show "length rest = ?r" by (simp add: rest_def minus_mult_div_eq_mod)
    have "unat (len div 64) = ?f" by (simp add: unat_div)
    then have "of_nat ?f = len div 64" by (simp flip: \<open>unat (len div 64) = ?f\<close>)
    then have "len div 64 * 64 = of_nat (64 * ?f)" by (simp add: mult.commute)
    then show "rest = load_bytes m (data + len div 64 * 64) ?r"
      using load_bytes_take_drop [of "64 * ?f" ?r ?n m data] \<open>length rest = ?r\<close>
      by (simp add: rest_def)
  qed
  define tail where "tail = rest @ [0x80] @ replicate ((119 - ?r) mod 64) 0 @ be64 (len * 8)"
  have tail: "take (64 * pb) (pad_buffer rest len pb) = tail"
    using pad_buffer_eq [of rest pb len] by (simp add: rest tail_def pb_def)
  have "?r < 64" by simp
  then have len_tail: "length tail = 64 * pb"
    unfolding tail_def pb_def length_append rest(1) length_replicate length_be64 pad_zeros [OF \<open>?r < 64\<close>]
    using \<open>?r < 64\<close> by simp
  have "(of_nat (8 * ?n) :: u64) = len * 8" by (simp add: mult.commute)
  then have "padded ?msg = take (64 * ?f) ?msg @ tail"
    by (simp add: padded_def tail_def rest_def mult.commute [of 8 len] flip: append_assoc)
  then have blocks: "blocks64 (padded ?msg) = blocks64 (take (64 * ?f) ?msg) @ blocks64 tail"
    by (simp add: blocks64_append)
  have "blocks64 (take (64 * ?f) ?msg) = map (\<lambda>i. load_bytes m (data + of_nat i * 64) 64) [0..<?f]"
    by (subst blocks64_take) (auto intro!: map_cong load_bytes_block [symmetric])
  moreover have "64 * pb \<le> length (pad_buffer rest len pb)"
    using len_tail unfolding tail [symmetric] by simp
  then have "blocks64 tail = map (\<lambda>i. take 64 (drop (i * 64) (pad_buffer rest len pb))) [0..<pb]"
    using blocks64_take [of pb "pad_buffer rest len pb"] unfolding tail by simp
  moreover have pb: "(if len mod 64 < 56 then 1 else 2 :: nat) = pb"
    unfolding pb_def word_less_nat_alt unat_mod by simp
  have div_mod: "unat (len div 64) = ?f" "unat (len mod 64) = ?r"
    by (simp_all add: unat_mod unat_div)
  have "sha256 m data len = digest_bytes (fold process_block (map (\<lambda>i. take 64 (drop (i * 64) (pad_buffer rest len pb))) [0..<pb])
      (fold process_block (map (\<lambda>i. load_bytes m (data + of_nat i * 64) 64) [0..<?f]) sha256_init))"
    unfolding sha256_def Let_def pb div_mod rest(2) [symmetric]
    unfolding fold_map_blocks [of "\<lambda>i. take 64 (drop (i * 64) (pad_buffer rest len pb))"]
      fold_map_blocks [of "\<lambda>i. load_bytes m (data + of_nat i * 64) 64"] by (rule refl)
  ultimately show ?thesis
    unfolding sha256_spec_def blocks fold_append comp_def by (simp only:)
qed

end
