(* ===== verification/Dll.thy ===== *)
theory Dll
  imports Prelude
begin

text \<open>
  Doubly linked lists threaded through objects by two pointer fields.  The fields are kept as
  one function per field (the heap of \<open>next\<close> pointers and the heap of \<open>prev\<close> pointers), so an
  assignment \<open>p->next = q\<close> is one function update.  \<open>dseg k l xs r\<close> says that the objects \<open>xs\<close>
  form a chain whose left neighbour is \<open>l\<close> and right neighbour is \<open>r\<close>.  The slab allocator,
  the buddy allocator and the list component thread their objects this way; the lemmas
  here are stated for the insertion and the removal steps they share.
\<close>

record links =
  lk_next :: "u64 \<Rightarrow> u64"
  lk_prev :: "u64 \<Rightarrow> u64"

definition set_next :: "u64 \<Rightarrow> u64 \<Rightarrow> links \<Rightarrow> links" where
  "set_next p v k = k\<lparr>lk_next := (lk_next k)(p := v)\<rparr>"

definition set_prev :: "u64 \<Rightarrow> u64 \<Rightarrow> links \<Rightarrow> links" where
  "set_prev p v k = k\<lparr>lk_prev := (lk_prev k)(p := v)\<rparr>"

named_theorems link_simps \<open>pointer fields after assignments\<close>

lemma lk_set [simp, link_simps]:
  "lk_next (set_next p v k) = (lk_next k)(p := v)" "lk_prev (set_next p v k) = lk_prev k"
  "lk_prev (set_prev p v k) = (lk_prev k)(p := v)" "lk_next (set_prev p v k) = lk_next k"
  by (simp_all add: set_next_def set_prev_def)

section \<open>Chains\<close>

definition head_of :: "u64 list \<Rightarrow> u64 \<Rightarrow> u64" where
  "head_of xs r = (case xs of [] \<Rightarrow> r | y # _ \<Rightarrow> y)"

definition last_of :: "u64 \<Rightarrow> u64 list \<Rightarrow> u64" where
  "last_of l xs = (if xs = [] then l else last xs)"

lemma head_of_simps [simp]: "head_of [] r = r" "head_of (x # xs) r = x"
  by (simp_all add: head_of_def)

lemma head_of_append [simp]: "head_of (xs @ ys) r = head_of xs (head_of ys r)"
  by (cases xs) simp_all

lemma last_of_simps [simp]: "last_of l [] = l" "last_of l (x # xs) = last_of x xs"
  by (simp_all add: last_of_def)

lemma last_of_append [simp]: "last_of l (xs @ ys) = last_of (last_of l xs) ys"
  by (induction xs arbitrary: l) simp_all

lemma head_of_in: "head_of xs r \<in> insert r (set xs)"
  by (cases xs) simp_all

lemma last_of_in: "last_of l xs \<in> insert l (set xs)"
  by (simp add: last_of_def)

fun dseg :: "links \<Rightarrow> u64 \<Rightarrow> u64 list \<Rightarrow> u64 \<Rightarrow> bool" where
  "dseg k l [] r \<longleftrightarrow> True"
| "dseg k l (x # xs) r \<longleftrightarrow> x \<noteq> NULL \<and> lk_prev k x = l \<and> lk_next k x = head_of xs r \<and> dseg k x xs r"

abbreviation dll :: "links \<Rightarrow> u64 list \<Rightarrow> bool" where
  "dll k xs \<equiv> dseg k NULL xs NULL \<and> distinct xs"

lemma dseg_append [simp]:
  "dseg k l (xs @ ys) r \<longleftrightarrow> dseg k l xs (head_of ys r) \<and> dseg k (last_of l xs) ys r"
  by (induction xs arbitrary: l) auto

lemma dseg_not_NULL: "dseg k l xs r \<Longrightarrow> x \<in> set xs \<Longrightarrow> x \<noteq> NULL"
  by (induction xs arbitrary: l) auto

lemma dseg_head_NULL: "dseg k l xs NULL \<Longrightarrow> head_of xs NULL = NULL \<longleftrightarrow> xs = []"
  by (cases xs) auto

lemma dseg_last_NULL: "dseg k NULL xs r \<Longrightarrow> last_of NULL xs = NULL \<longleftrightarrow> xs = []"
  using dseg_not_NULL [of k NULL xs r "last xs"] by (auto simp: last_of_def)

lemma dseg_cong:
  assumes "\<And>x. x \<in> set xs \<Longrightarrow> lk_next k' x = lk_next k x" and "\<And>x. x \<in> set xs \<Longrightarrow> lk_prev k' x = lk_prev k x"
  shows "dseg k' l xs r \<longleftrightarrow> dseg k l xs r"
  using assms by (induction xs arbitrary: l) auto

lemma dseg_set_other [simp, link_simps]:
  "x \<notin> set xs \<Longrightarrow> dseg (set_next x v k) l xs r \<longleftrightarrow> dseg k l xs r"
  "x \<notin> set xs \<Longrightarrow> dseg (set_prev x v k) l xs r \<longleftrightarrow> dseg k l xs r"
  by (rule dseg_cong; auto)+

lemma dseg_set_right:
  assumes "dseg k l xs r" and "xs \<noteq> []" and "distinct xs"
  shows "dseg (set_next (last xs) r' k) l xs r'"
  using assms
proof (induction xs arbitrary: l)
  case (Cons x xs)
  then show ?case by (cases xs) (auto simp: last_in_set)
qed simp

lemma dseg_set_left:
  "dseg k l xs r \<Longrightarrow> distinct xs \<Longrightarrow> xs \<noteq> [] \<Longrightarrow> dseg (set_prev (hd xs) l' k) l' xs r"
  by (cases xs) auto

lemma dseg_next: "dseg k l (xs @ x # ys) r \<Longrightarrow> lk_next k x = head_of ys r"
  by simp

lemma dseg_prev: "dseg k l (xs @ x # ys) r \<Longrightarrow> lk_prev k x = last_of l xs"
  by simp

section \<open>Linking and unlinking\<close>

text \<open>The neighbours' half of an insertion or a removal: the left neighbour, if there is one, points
  to \<open>q\<close>, the right neighbour, if there is one, back to \<open>p\<close>.\<close>

definition join_links :: "u64 \<Rightarrow> u64 \<Rightarrow> u64 \<Rightarrow> u64 \<Rightarrow> links \<Rightarrow> links" where
  "join_links left q right p k =
     (let k = (if left \<noteq> NULL then set_next left q k else k)
      in if right \<noteq> NULL then set_prev right p k else k)"

lemma join_links_other [simp]:
  "x \<noteq> left \<Longrightarrow> lk_next (join_links left q right p k) x = lk_next k x"
  "x \<noteq> right \<Longrightarrow> lk_prev (join_links left q right p k) x = lk_prev k x"
  by (auto simp: join_links_def Let_def)

lemma dseg_join_left:
  assumes "dseg k NULL xs r" and "distinct xs" and "left = last_of NULL xs" and "right \<notin> set xs" 
  shows "dseg (join_links left q right p k) NULL xs q"
proof (cases "xs = []")
  case False
  with assms have left: "left = last xs" "left \<noteq> NULL"
    using dseg_not_NULL [of k NULL xs r "last xs"] by (auto simp: last_of_def)
  have "dseg (set_next (last xs) q k) NULL xs q"
    using dseg_set_right [OF assms(1) False assms(2)] .
  then show ?thesis using left assms(4) by (simp add: join_links_def Let_def)
qed simp

lemma dseg_join_right:
  assumes "dseg k l ys NULL" and "distinct ys" and "right = head_of ys NULL" and "left \<notin> set ys"
  shows "dseg (join_links left q right p k) p ys NULL"
proof (cases ys)
  case (Cons y ys')
  with assms have "dseg (set_prev y p k) p ys NULL" using dseg_set_left [of k l ys NULL p] by simp
  then show ?thesis using Cons assms
    by (auto simp: join_links_def intro: dseg_cong [THEN iffD1, rotated -1])
qed simp

lemma dll_unlink:
  assumes "dll k (xs @ x # ys)"
  shows "dll (join_links (lk_prev k x) (lk_next k x) (lk_next k x) (lk_prev k x) k) (xs @ ys)"
proof -
  let ?k = "join_links (lk_prev k x) (lk_next k x) (lk_next k x) (lk_prev k x) k"
  have x: "lk_prev k x = last_of NULL xs" "lk_next k x = head_of ys NULL" using assms by auto
  have disj: "head_of ys NULL \<notin> set xs" "last_of NULL xs \<notin> set ys"
    using assms head_of_in [of ys NULL] last_of_in [of NULL xs] dseg_not_NULL [of k NULL xs x NULL]
      dseg_not_NULL [of k x ys NULL NULL] by auto
  have "dseg ?k NULL xs (head_of ys NULL)"
    using dseg_join_left [of k xs x _ _ "head_of ys NULL"] assms x disj by auto
  moreover have "dseg ?k (last_of NULL xs) ys NULL"
    using dseg_join_right [of k x ys _ _ "head_of ys NULL" "last_of NULL xs"] assms x disj by auto
  ultimately show ?thesis using assms by auto
qed

lemma dll_link:
  assumes "dll k (xs @ ys)" and "n \<noteq> NULL" and "n \<notin> set xs \<union> set ys"
  shows "dll (join_links (last_of NULL xs) n (head_of ys NULL) n (set_next n (head_of ys NULL) (set_prev n (last_of NULL xs) k)))
    (xs @ n # ys)"
proof -
  let ?kn = "set_next n (head_of ys NULL) (set_prev n (last_of NULL xs) k)"
  let ?k = "join_links (last_of NULL xs) n (head_of ys NULL) n ?kn"
  have ne: "n \<noteq> last_of NULL xs" "n \<noteq> head_of ys NULL"
    using assms last_of_in [of NULL xs] head_of_in [of ys NULL] by auto
  have disj: "head_of ys NULL \<notin> set xs" "last_of NULL xs \<notin> set ys"
    using assms head_of_in [of ys NULL] last_of_in [of NULL xs] dseg_not_NULL [of k NULL xs _ NULL]
      dseg_not_NULL [of k _ ys NULL NULL] by auto
  have k0: "dseg ?kn NULL xs (head_of ys NULL)" "dseg ?kn (last_of NULL xs) ys NULL" using assms by auto
  have "dseg ?k NULL xs n"
    using dseg_join_left [OF k0(1)] assms disj by auto
  moreover have "dseg ?k n ys NULL"
    using dseg_join_right [OF k0(2)] assms disj by auto
  moreover have "lk_prev ?k n = last_of NULL xs" "lk_next ?k n = head_of ys NULL"
    using ne by auto
  ultimately show ?thesis using assms by auto
qed

text \<open>A chain that contains neither the node nor its neighbours is not changed.\<close>

lemma dseg_join_other [simp]:
  "left \<notin> set xs \<Longrightarrow> right \<notin> set xs \<Longrightarrow> dseg (join_links left q right p k) l xs r \<longleftrightarrow> dseg k l xs r"
  by (rule dseg_cong) (auto simp: join_links_def Let_def)

section \<open>Head insertion and removal\<close>

text \<open>\<open>list_add\<close> and \<open>list_remove\<close> as the two allocators have them: the head pointer is passed by
  reference, so its new value is part of the result.\<close>

definition ilist_remove :: "u64 \<Rightarrow> u64 \<Rightarrow> links \<Rightarrow> u64 \<times> links" where
  "ilist_remove list_head x k =
     (let k = (if lk_prev k x \<noteq> NULL then set_next (lk_prev k x) (lk_next k x) k else k);
          k = (if lk_next k x \<noteq> NULL then set_prev (lk_next k x) (lk_prev k x) k else k);
          list_head = (if list_head = x then lk_next k x else list_head);
          k = set_prev x NULL k;
          k = set_next x NULL k
      in (list_head, k))"

definition ilist_add :: "u64 \<Rightarrow> u64 \<Rightarrow> links \<Rightarrow> u64 \<times> links" where
  "ilist_add list_head x k =
     (let k = set_next x list_head k;
          k = set_prev x NULL k;
          k = (if list_head \<noteq> NULL then set_prev list_head x k else k)
      in (x, k))"

lemma ilist_add_dll:
  assumes "dll k xs" and "x \<noteq> NULL" and "x \<notin> set xs"
  shows "\<exists>k'. ilist_add (head_of xs NULL) x k = (x, k') \<and> dll k' (x # xs) \<and>
    (\<forall>y. y \<notin> insert x (set xs) \<longrightarrow> lk_next k' y = lk_next k y \<and> lk_prev k' y = lk_prev k y)"
proof -
  let ?k = "join_links NULL x (head_of xs NULL) x (set_next x (head_of xs NULL) (set_prev x NULL k))"
  have dll: "dll ?k (x # xs)" using dll_link [of k "[]" xs x] assms by simp
  have "ilist_add (head_of xs NULL) x k = (x, ?k)"
    by (simp add: ilist_add_def join_links_def Let_def set_next_def set_prev_def)
  moreover have "y \<notin> insert x (set xs) \<longrightarrow> lk_next ?k y = lk_next k y \<and> lk_prev ?k y = lk_prev k y" for y
  proof (cases xs)
    case Nil
    then show ?thesis by (simp add: join_links_def)
  next
    case (Cons a list)
    then show ?thesis using assms by (auto simp: join_links_def)
  qed
  ultimately show ?thesis using dll by blast
qed

lemma ilist_remove_dll:
  assumes "dll k (xs @ x # ys)"
  shows "\<exists>k'. ilist_remove (head_of (xs @ x # ys) NULL) x k = (head_of (xs @ ys) NULL, k') \<and> dll k' (xs @ ys) \<and>
    (\<forall>y. y \<notin> set (xs @ x # ys) \<longrightarrow> lk_next k' y = lk_next k y \<and> lk_prev k' y = lk_prev k y)"
proof -
  let ?j = "join_links (lk_prev k x) (lk_next k x) (lk_next k x) (lk_prev k x) k"
  let ?k = "set_next x NULL (set_prev x NULL ?j)"
  have x: "lk_prev k x = last_of NULL xs" "lk_next k x = head_of ys NULL" using assms by auto
  have ne: "x \<noteq> NULL" "lk_prev k x \<noteq> x" "lk_next k x \<noteq> x"
    using assms x last_of_in [of NULL xs] head_of_in [of ys NULL] by auto
  have "dll ?j (xs @ ys)" using dll_unlink [OF assms] .
  then have dll: "dll ?k (xs @ ys)" using assms by auto
  have "head_of xs x = x \<longleftrightarrow> xs = []" using assms by (cases xs) auto
  then have "ilist_remove (head_of (xs @ x # ys) NULL) x k = (head_of (xs @ ys) NULL, ?k)"
    using ne x by (cases xs) (auto simp: ilist_remove_def join_links_def Let_def)
  moreover have "y \<notin> set (xs @ x # ys) \<longrightarrow> lk_next ?k y = lk_next k y \<and> lk_prev ?k y = lk_prev k y" for y
    using last_of_in [of NULL xs] head_of_in [of ys NULL] x by (auto simp: join_links_def Let_def)
  ultimately show ?thesis using dll by blast
qed

section \<open>Families of lists\<close>

text \<open>Several disjoint lists threaded through the same fields, one for every index: the slab lists of
  all caches, the free lists of all orders.\<close>

definition dlls :: "links \<Rightarrow> ('i \<Rightarrow> u64 list) \<Rightarrow> bool" where
  "dlls k H \<longleftrightarrow> (\<forall>i. dll k (H i)) \<and> (\<forall>i j. i \<noteq> j \<longrightarrow> set (H i) \<inter> set (H j) = {})"

lemma dllsD: "dlls k H \<Longrightarrow> dll k (H i)" "dlls k H \<Longrightarrow> i \<noteq> j \<Longrightarrow> set (H i) \<inter> set (H j) = {}"
  by (simp_all add: dlls_def)

lemma dlls_not_NULL: "dlls k H \<Longrightarrow> x \<in> set (H i) \<Longrightarrow> x \<noteq> NULL"
  using dllsD(1) [of k H i] dseg_not_NULL by blast

lemma dlls_upd:
  assumes "dlls k H" and "dll k' xs" and "\<And>j. j \<noteq> i \<Longrightarrow> set xs \<inter> set (H j) = {}"
    and "\<And>j y. j \<noteq> i \<Longrightarrow> y \<in> set (H j) \<Longrightarrow> lk_next k' y = lk_next k y \<and> lk_prev k' y = lk_prev k y"
  shows "dlls k' (H(i := xs))"
proof -
  have "dll k' (H j)" if "j \<noteq> i" for j
    using dllsD(1) [OF assms(1), of j] dseg_cong [of "H j" k' k] assms(4) [OF that] by simp
  then show ?thesis
    using assms(1,2,3) by (auto simp: dlls_def)
qed

lemma ilist_add_dlls:
  assumes "dlls k H" and "x \<noteq> NULL" and "\<And>j. x \<notin> set (H j)"
  shows "\<exists>k'. ilist_add (head_of (H i) NULL) x k = (x, k') \<and> dlls k' (H(i := x # H i))"
proof -
  obtain k' where k': "ilist_add (head_of (H i) NULL) x k = (x, k')" "dll k' (x # H i)"
    and frame: "\<forall>y. y \<notin> insert x (set (H i)) \<longrightarrow> lk_next k' y = lk_next k y \<and> lk_prev k' y = lk_prev k y"
    using ilist_add_dll [OF dllsD(1) [OF assms(1)] assms(2,3)] by blast
  have "dlls k' (H(i := x # H i))"
  proof (rule dlls_upd [OF assms(1) k'(2)])
    fix j y
    assume "j \<noteq> i" and "y \<in> set (H j)"
    then have "y \<notin> insert x (set (H i))" using assms(3) dllsD(2) [OF assms(1), of i j] by blast
    then show "lk_next k' y = lk_next k y \<and> lk_prev k' y = lk_prev k y" using frame by blast
  qed (use assms(3) dllsD(2) [OF assms(1), of i] in auto)
  with k'(1) show ?thesis by blast
qed

lemma ilist_remove_dlls:
  assumes "dlls k H" and "H i = xs @ x # ys"
  shows "\<exists>k'. ilist_remove (head_of (H i) NULL) x k = (head_of (xs @ ys) NULL, k') \<and> dlls k' (H(i := xs @ ys))"
proof -
  obtain k' where k': "ilist_remove (head_of (H i) NULL) x k = (head_of (xs @ ys) NULL, k')" "dll k' (xs @ ys)"
    and frame: "\<forall>y. y \<notin> set (H i) \<longrightarrow> lk_next k' y = lk_next k y \<and> lk_prev k' y = lk_prev k y"
    using ilist_remove_dll [of k xs x ys] dllsD(1) [OF assms(1), of i] unfolding assms(2) by blast
  have "dlls k' (H(i := xs @ ys))"
  proof (rule dlls_upd [OF assms(1) k'(2)])
    fix j y
    assume "j \<noteq> i" and "y \<in> set (H j)"
    then have "y \<notin> set (H i)" using dllsD(2) [OF assms(1), of i j] by blast
    then show "lk_next k' y = lk_next k y \<and> lk_prev k' y = lk_prev k y" using frame by blast
  qed (use dllsD(2) [OF assms(1), of i] assms(2) in auto)
  with k'(1) show ?thesis by blast
qed

text \<open>Insertion at any place of one list of a family, and removal.\<close>

lemma dlls_link:
  assumes "dlls k H" and "H i = xs @ ys" and "n \<noteq> NULL" and "\<And>j. n \<notin> set (H j)"
  shows "dlls (join_links (last_of NULL xs) n (head_of ys NULL) n (set_next n (head_of ys NULL) (set_prev n (last_of NULL xs) k)))
    (H(i := xs @ n # ys))"
proof (rule dlls_upd [OF assms(1)])
  show "dll (join_links (last_of NULL xs) n (head_of ys NULL) n (set_next n (head_of ys NULL) (set_prev n (last_of NULL xs) k)))
    (xs @ n # ys)"
    using dll_link [of k xs ys n] dllsD(1) [OF assms(1), of i] assms(2,3) assms(4) [of i] by simp
  fix j y
  assume "j \<noteq> i"
  have disj: "set (xs @ ys) \<inter> set (H j) = {}" using dllsD(2) [OF assms(1), of i j] \<open>j \<noteq> i\<close> assms(2) by simp
  then show "set (xs @ n # ys) \<inter> set (H j) = {}" using assms(4) [of j] by auto
  assume "y \<in> set (H j)"
  then have "y \<noteq> NULL" "y \<noteq> n" "y \<notin> set xs" "y \<notin> set ys" using disj assms(4) [of j] dlls_not_NULL [OF assms(1)] by auto
  moreover have "y \<noteq> last_of NULL xs" "y \<noteq> head_of ys NULL"
    using calculation last_of_in [of NULL xs] head_of_in [of ys NULL] by auto
  ultimately show "lk_next (join_links (last_of NULL xs) n (head_of ys NULL) n (set_next n (head_of ys NULL) (set_prev n (last_of NULL xs) k))) y =
      lk_next k y \<and> lk_prev (join_links (last_of NULL xs) n (head_of ys NULL) n (set_next n (head_of ys NULL) (set_prev n (last_of NULL xs) k))) y =
      lk_prev k y"
    by simp
qed

lemma dlls_unlink:
  assumes "dlls k H" and "H i = xs @ x # ys"
  shows "dlls (join_links (lk_prev k x) (lk_next k x) (lk_next k x) (lk_prev k x) k) (H(i := xs @ ys))"
proof (rule dlls_upd [OF assms(1)])
  have dl: "dll k (xs @ x # ys)" using dllsD(1) [OF assms(1), of i] assms(2) by simp
  then show "dll (join_links (lk_prev k x) (lk_next k x) (lk_next k x) (lk_prev k x) k) (xs @ ys)" by (rule dll_unlink)
  have nb: "lk_prev k x = last_of NULL xs" "lk_next k x = head_of ys NULL" using dl by auto
  fix j y
  assume "j \<noteq> i"
  have disj: "set (xs @ x # ys) \<inter> set (H j) = {}" using dllsD(2) [OF assms(1), of i j] \<open>j \<noteq> i\<close> assms(2) by simp
  then show "set (xs @ ys) \<inter> set (H j) = {}" by auto
  assume "y \<in> set (H j)"
  then have "y \<noteq> NULL" "y \<notin> set xs" "y \<notin> set ys" using disj dlls_not_NULL [OF assms(1)] by auto
  then have "y \<noteq> last_of NULL xs" "y \<noteq> head_of ys NULL"
    using last_of_in [of NULL xs] head_of_in [of ys NULL] by auto
  then show "lk_next (join_links (lk_prev k x) (lk_next k x) (lk_next k x) (lk_prev k x) k) y = lk_next k y \<and>
      lk_prev (join_links (lk_prev k x) (lk_next k x) (lk_next k x) (lk_prev k x) k) y = lk_prev k y"
    unfolding nb by simp
qed

lemma dlls_set_other:
  assumes "dlls k H" and "\<And>j. x \<notin> set (H j)"
  shows "dlls (set_next x v k) H" "dlls (set_prev x v k) H"
  using assms by (auto simp: dlls_def)

text \<open>Following \<open>next\<close> and \<open>prev\<close> pointers.\<close>

lemma dseg_nth_next:
  "dseg k l xs r \<Longrightarrow> i < length xs \<Longrightarrow> (lk_next k ^^ i) (head_of xs r) = xs ! i"
proof (induction xs arbitrary: l i)
  case (Cons x xs)
  show ?case
  proof (cases i)
    case (Suc j)
    then have "(lk_next k ^^ j) (head_of xs r) = xs ! j" using Cons by auto
    then show ?thesis using Cons.prems Suc by (simp add: funpow_swap1)
  qed simp
qed simp

lemma dseg_nth_prev:
  "dseg k l xs r \<Longrightarrow> i < length xs \<Longrightarrow> (lk_prev k ^^ (length xs - 1 - i)) (last_of l xs) = xs ! i"
proof (induction xs arbitrary: r i rule: rev_induct)
  case (snoc x xs)
  show ?case
  proof (cases "i = length xs")
    case False
    then have i: "i < length xs" using snoc.prems(2) by simp
    then have "(lk_prev k ^^ (length xs - 1 - i)) (last_of l xs) = xs ! i" using snoc by auto
    moreover have "length (xs @ [x]) - 1 - i = Suc (length xs - 1 - i)" using i by simp
    ultimately show ?thesis using snoc.prems(1) i by (simp add: funpow_Suc_right nth_append del: funpow.simps)
  qed (simp add: nth_append)
qed simp

end
