(* ===== verification/Kslab.thy ===== *)
theory Kslab
  imports Kheap Dll
begin

text \<open>
  \<open>krnl/mem/kslab.c\<close>, the slab allocator.  A cache hands out objects of one size; its objects
  live in slabs, pages from the page allocator that start with a header and continue with the
  objects.  The free objects of a slab form a chain through their first word.  Every slab is on
  one of the three lists of its cache, by the number of its free objects.

  Cache structures are a store of records; the header fields of slabs, and the first words of
  free objects, are one store per field.  \<open>kslab_inv s L\<close> relates the allocator to the set
  \<open>L c\<close> of objects each cache \<open>c\<close> has handed out.
\<close>

section \<open>State and operations\<close>

record kmem_cache =
  kc_name :: u64
  kc_object_size :: u64
  kc_objects_per_slab :: u64
  kc_pages_per_slab :: u64
  slabs_partial :: u64
  slabs_full :: u64
  slabs_free :: u64
  next_cache :: u64

record kslab =
  ks_caches :: "u64 \<Rightarrow> kmem_cache"
  sl_free_list :: "u64 \<Rightarrow> u64"
  sl_free_count :: "u64 \<Rightarrow> u64"
  sl_cache :: "u64 \<Rightarrow> u64"
  sl_links :: links
  sl_magic :: "u64 \<Rightarrow> u32"
  ks_obj_next :: "u64 \<Rightarrow> u64"
  cache_chain :: u64
  ks_heap :: kheap
  ks_pmm :: pmm
  ks_mem :: memory

definition SLAB_MAGIC :: u32 where
  "SLAB_MAGIC = 0xABADC0DE"

text \<open>\<open>sizeof(slab_t)\<close> is 48 and \<open>sizeof(kmem_cache_t)\<close> is 64.\<close>

definition SLAB_T_SIZE :: u64 where
  "SLAB_T_SIZE = 48"

definition KMEM_CACHE_T_SIZE :: u64 where
  "KMEM_CACHE_T_SIZE = 64"

datatype slab_list = Partial | Full | Free

fun slab_head :: "slab_list \<Rightarrow> kmem_cache \<Rightarrow> u64" where
  "slab_head Partial c = slabs_partial c"
| "slab_head Full c = slabs_full c"
| "slab_head Free c = slabs_free c"

fun set_slab_head :: "slab_list \<Rightarrow> u64 \<Rightarrow> kmem_cache \<Rightarrow> kmem_cache" where
  "set_slab_head Partial h c = c\<lparr>slabs_partial := h\<rparr>"
| "set_slab_head Full h c = c\<lparr>slabs_full := h\<rparr>"
| "set_slab_head Free h c = c\<lparr>slabs_free := h\<rparr>"

definition slab_list_remove :: "u64 \<Rightarrow> slab_list \<Rightarrow> u64 \<Rightarrow> kslab \<Rightarrow> kslab" where
  "slab_list_remove cache l slab s =
     (let (h, k) = ilist_remove (slab_head l (ks_caches s cache)) slab (sl_links s)
      in s\<lparr>sl_links := k, ks_caches := (ks_caches s)(cache := set_slab_head l h (ks_caches s cache))\<rparr>)"

definition slab_list_add :: "u64 \<Rightarrow> slab_list \<Rightarrow> u64 \<Rightarrow> kslab \<Rightarrow> kslab" where
  "slab_list_add cache l slab s =
     (let (h, k) = ilist_add (slab_head l (ks_caches s cache)) slab (sl_links s)
      in s\<lparr>sl_links := k, ks_caches := (ks_caches s)(cache := set_slab_head l h (ks_caches s cache))\<rparr>)"

text \<open>\<open>count_slabs\<close>: the number of slabs of a list and of their free objects.\<close>

partial_function (option) count_slabs_loop :: "kslab \<Rightarrow> u64 \<Rightarrow> u64 \<Rightarrow> u64 \<Rightarrow> (u64 \<times> u64) option" where
  "count_slabs_loop s cur slab_count free_objs =
     (if cur = NULL then Some (slab_count, free_objs)
      else count_slabs_loop s (lk_next (sl_links s) cur) (slab_count + 1) (free_objs + sl_free_count s cur))"

definition count_slabs :: "kslab \<Rightarrow> u64 \<Rightarrow> (u64 \<times> u64) option" where
  "count_slabs s list = count_slabs_loop s list 0 0"

text \<open>A row of the table \<open>kmem_cache_dump_info\<close> prints.\<close>

record cache_info =
  ci_name :: u64
  ci_active_objs :: u64
  ci_total_objs :: u64
  ci_object_size :: u64
  ci_full_slabs :: u64
  ci_part_slabs :: u64
  ci_free_slabs :: u64

definition cache_row :: "kslab \<Rightarrow> u64 \<Rightarrow> cache_info option" where
  "cache_row s cur =
     (let c = ks_caches s cur
      in case (count_slabs s (slabs_full c), count_slabs s (slabs_partial c), count_slabs s (slabs_free c)) of
        (Some (full_slabs, full_free), Some (part_slabs, part_free), Some (free_slabs, empty_free)) \<Rightarrow>
          let total_slabs = full_slabs + part_slabs + free_slabs;
              total_objs = total_slabs * kc_objects_per_slab c;
              total_free_objs = part_free + empty_free;
              active_objs = total_objs - total_free_objs
          in Some \<lparr>ci_name = kc_name c, ci_active_objs = active_objs, ci_total_objs = total_objs,
                   ci_object_size = kc_object_size c, ci_full_slabs = full_slabs,
                   ci_part_slabs = part_slabs, ci_free_slabs = free_slabs\<rparr>
      | _ \<Rightarrow> None)"

partial_function (option) dump_info_loop :: "kslab \<Rightarrow> u64 \<Rightarrow> cache_info list option" where
  "dump_info_loop s cur =
     (if cur = NULL then Some []
      else Option.bind (cache_row s cur) (\<lambda>row.
        Option.bind (dump_info_loop s (next_cache (ks_caches s cur))) (\<lambda>rows. Some (row # rows))))"

definition kmem_cache_dump_info :: "kslab \<Rightarrow> cache_info list option" where
  "kmem_cache_dump_info s = dump_info_loop s (cache_chain s)"

text \<open>
  The loop that doubles the pages of a slab until an object fits; the first argument bounds the
  rounds, and four doublings reach the loop's own bound of 16 pages.
\<close>

definition header_size :: u64 where
  "header_size = (SLAB_T_SIZE + 7) AND NOT 7"

fun grow_pages :: "nat \<Rightarrow> u64 \<Rightarrow> u64 \<Rightarrow> u64" where
  "grow_pages 0 sz pages = pages"
| "grow_pages (Suc n) sz pages =
     (if (pages * PAGE_SIZE - header_size) div sz = 0 \<and> pages < 16 then grow_pages n sz (pages * 2) else pages)"

definition kmem_cache_init :: "u64 \<Rightarrow> u64 \<Rightarrow> u64 \<Rightarrow> kslab \<Rightarrow> bool \<times> kslab" where
  "kmem_cache_init cache nm sz s =
     (let c = (ks_caches s cache)\<lparr>kc_name := nm, kc_object_size := sz\<rparr>;
          pages = grow_pages 4 sz 1;
          c = c\<lparr>kc_pages_per_slab := pages\<rparr>;
          available_space = pages * PAGE_SIZE - header_size;
          c = c\<lparr>kc_objects_per_slab := available_space div sz\<rparr>;
          s = s\<lparr>ks_caches := (ks_caches s)(cache := c)\<rparr>
      in if kc_objects_per_slab c = 0 then (False, s\<lparr>ks_heap := khfree (ks_heap s) cache\<rparr>)
         else
           let c = c\<lparr>slabs_partial := NULL, slabs_full := NULL, slabs_free := NULL, next_cache := cache_chain s\<rparr>
           in (True, s\<lparr>ks_caches := (ks_caches s)(cache := c), cache_chain := cache\<rparr>))"

text \<open>\<open>None\<close>: the heap's search does not end, or the object size wraps to 0 and the division
  traps.\<close>

definition kmem_cache_create :: "u64 \<Rightarrow> u64 \<Rightarrow> kslab \<Rightarrow> (u64 \<times> kslab) option" where
  "kmem_cache_create nm sz s =
     (let sz = (if sz < 8 then 8 else sz);
          sz = (sz + 7) AND NOT 7
      in case khmalloc (ks_heap s) KMEM_CACHE_T_SIZE of
           None \<Rightarrow> None
         | Some (cache, h) \<Rightarrow>
             let s = s\<lparr>ks_heap := h\<rparr>
             in if cache = NULL then Some (NULL, s)
                else if sz = 0 then None
                else let (_, s) = kmem_cache_init cache nm sz s in Some (cache, s))"

text \<open>Threading the objects of a new slab into its free chain.\<close>

definition thread_objects :: "u64 \<Rightarrow> u64 \<Rightarrow> u64 \<Rightarrow> (u64 \<Rightarrow> u64) \<Rightarrow> u64 \<Rightarrow> u64" where
  "thread_objects obj_start sz n f =
     (let f = fold (\<lambda>i f. f(obj_start + of_nat i * sz := obj_start + (of_nat i + 1) * sz)) [0..<unat (n - 1)] f
      in f(obj_start + (n - 1) * sz := NULL))"

definition allocate_slab_page :: "u64 \<Rightarrow> kslab \<Rightarrow> u64 \<times> kslab" where
  "allocate_slab_page cache s =
     (let c = ks_caches s cache;
          (phys_addr, p, m) = pmm_alloc (ks_pmm s) (ks_mem s) (kc_pages_per_slab c);
          s = s\<lparr>ks_pmm := p, ks_mem := m\<rparr>
      in if phys_addr = NULL then (NULL, s)
         else
           let slab = phys_to_virt p phys_addr;
               s = s\<lparr>sl_magic := (sl_magic s)(slab := SLAB_MAGIC),
                     sl_cache := (sl_cache s)(slab := cache),
                     sl_free_count := (sl_free_count s)(slab := kc_objects_per_slab c),
                     sl_links := set_prev slab NULL (set_next slab NULL (sl_links s))\<rparr>;
               obj_start = slab + header_size;
               s = s\<lparr>sl_free_list := (sl_free_list s)(slab := obj_start)\<rparr>
           in (slab, s\<lparr>ks_obj_next :=
                 thread_objects obj_start (kc_object_size c) (kc_objects_per_slab c) (ks_obj_next s)\<rparr>))"

text \<open>The slab \<open>kmem_cache_alloc\<close> takes the object from, at the head of the partial list.\<close>

definition slab_for_alloc :: "u64 \<Rightarrow> kslab \<Rightarrow> u64 \<times> kslab" where
  "slab_for_alloc cache s =
     (let slab = slabs_partial (ks_caches s cache);
          (slab, s) =
            (if slab = NULL
             then
               let slab = slabs_free (ks_caches s cache)
               in if slab \<noteq> NULL then (slab, slab_list_add cache Partial slab (slab_list_remove cache Free slab s))
                  else (slab, s)
             else (slab, s))
      in if slab = NULL
         then
           let (slab, s) = allocate_slab_page cache s
           in if slab = NULL then (NULL, s) else (slab, slab_list_add cache Partial slab s)
         else (slab, s))"

definition kmem_cache_alloc :: "u64 \<Rightarrow> kslab \<Rightarrow> u64 \<times> kslab" where
  "kmem_cache_alloc cache s =
     (if cache = NULL then (NULL, s)
      else
        let (slab, s) = slab_for_alloc cache s
        in if slab = NULL then (NULL, s)
           else
             let obj = sl_free_list s slab;
                 s = s\<lparr>sl_free_list := (sl_free_list s)(slab := ks_obj_next s obj)\<rparr>;
                 s = s\<lparr>sl_free_count := (sl_free_count s)(slab := sl_free_count s slab - 1)\<rparr>;
                 s = (if sl_free_count s slab = 0
                      then slab_list_add cache Full slab (slab_list_remove cache Partial slab s) else s)
             in (obj, s))"

definition slab_of :: "u64 \<Rightarrow> u64 \<Rightarrow> u64" where
  "slab_of pages obj = obj AND NOT (pages * PAGE_SIZE - 1)"

definition kmem_cache_free :: "u64 \<Rightarrow> u64 \<Rightarrow> kslab \<Rightarrow> kslab" where
  "kmem_cache_free cache obj s =
     (if cache = NULL \<or> obj = NULL then s
      else
        let slab = slab_of (kc_pages_per_slab (ks_caches s cache)) obj;
            s = s\<lparr>ks_obj_next := (ks_obj_next s)(obj := sl_free_list s slab)\<rparr>;
            s = s\<lparr>sl_free_list := (sl_free_list s)(slab := obj)\<rparr>;
            s = s\<lparr>sl_free_count := (sl_free_count s)(slab := sl_free_count s slab + 1)\<rparr>
        in if sl_free_count s slab = 1
           then slab_list_add cache Partial slab (slab_list_remove cache Full slab s)
           else if sl_free_count s slab = kc_objects_per_slab (ks_caches s cache)
           then slab_list_add cache Free slab (slab_list_remove cache Partial slab s)
           else s)"

section \<open>Invariant\<close>

text \<open>The chain of free objects of a slab.\<close>

fun ochain :: "(u64 \<Rightarrow> u64) \<Rightarrow> u64 \<Rightarrow> u64 list \<Rightarrow> bool" where
  "ochain f p [] \<longleftrightarrow> p = NULL"
| "ochain f p (x # xs) \<longleftrightarrow> p = x \<and> x \<noteq> NULL \<and> ochain f (f x) xs"

definition slab_obj :: "kmem_cache \<Rightarrow> u64 \<Rightarrow> nat \<Rightarrow> u64" where
  "slab_obj c a i = a + header_size + of_nat i * kc_object_size c"

definition slab_objs :: "kmem_cache \<Rightarrow> u64 \<Rightarrow> u64 set" where
  "slab_objs c a = slab_obj c a ` {..<unat (kc_objects_per_slab c)}"

definition cache_ok :: "kmem_cache \<Rightarrow> bool" where
  "cache_ok c \<longleftrightarrow> kc_pages_per_slab c = 1 \<and> 8 \<le> unat (kc_object_size c) \<and> 0 < unat (kc_objects_per_slab c) \<and>
     unat (kc_objects_per_slab c) * unat (kc_object_size c) \<le> 4048"

definition slab_page :: "kslab \<Rightarrow> u64 \<Rightarrow> nat \<Rightarrow> bool" where
  "slab_page s a p \<longleftrightarrow> p < unat (total_pages (ks_pmm s)) \<and> page_used (ks_pmm s) (ks_mem s) p \<and>
     a = phys_to_virt (ks_pmm s) (of_nat (p * 4096))"

definition slab_ok :: "kslab \<Rightarrow> u64 \<Rightarrow> u64 \<Rightarrow> u64 list \<Rightarrow> bool" where
  "slab_ok s c a fs \<longleftrightarrow> sl_magic s a = SLAB_MAGIC \<and> sl_cache s a = c \<and> (\<exists>p. slab_page s a p) \<and>
     ochain (ks_obj_next s) (sl_free_list s a) fs \<and> distinct fs \<and> set fs \<subseteq> slab_objs (ks_caches s c) a \<and>
     unat (sl_free_count s a) = length fs"

text \<open>How many free objects a slab has, by the list it is on.  A slab on the way from the free to the full list is
  on the partial list with all objects free for a moment, so this bound is refined below.\<close>

fun count_ok :: "slab_list \<Rightarrow> nat \<Rightarrow> nat \<Rightarrow> bool" where
  "count_ok Partial n k \<longleftrightarrow> 0 < k \<and> k \<le> n"
| "count_ok Full n k \<longleftrightarrow> k = 0"
| "count_ok Free n k \<longleftrightarrow> k = n"

definition slab_lists :: "kslab \<Rightarrow> u64 set \<Rightarrow> (u64 \<times> slab_list \<Rightarrow> u64 list) \<Rightarrow> bool" where
  "slab_lists s C H \<longleftrightarrow> NULL \<notin> C \<and> dlls (sl_links s) H \<and> (\<forall>c l. c \<notin> C \<longrightarrow> H (c, l) = []) \<and>
     (\<forall>c\<in>C. \<forall>l. slab_head l (ks_caches s c) = head_of (H (c, l)) NULL)"

definition slabs_ok :: "kslab \<Rightarrow> u64 set \<Rightarrow> (u64 \<times> slab_list \<Rightarrow> u64 list) \<Rightarrow> (u64 \<Rightarrow> u64 list) \<Rightarrow> bool" where
  "slabs_ok s C H F \<longleftrightarrow> (\<forall>c\<in>C. cache_ok (ks_caches s c) \<and> (\<forall>l. \<forall>a\<in>set (H (c, l)).
     slab_ok s c a (F a) \<and> count_ok l (unat (kc_objects_per_slab (ks_caches s c))) (length (F a))))"

definition pages_ok :: "kslab \<Rightarrow> bool" where
  "pages_ok s \<longleftrightarrow> pmm_inv (ks_pmm s) (ks_mem s) \<and> unat (hhdm_offset (ks_pmm s)) mod 4096 = 0 \<and>
     unat (hhdm_offset (ks_pmm s)) + unat (total_pages (ks_pmm s)) * 4096 \<le> 2 ^ 64"

definition cache_slabs :: "(u64 \<times> slab_list \<Rightarrow> u64 list) \<Rightarrow> u64 \<Rightarrow> u64 set" where
  "cache_slabs H c = (\<Union>l. set (H (c, l)))"

lemma UN_slab_list: "(\<Union>l. f l) = f Partial \<union> f Full \<union> f Free"
  by (auto, metis slab_list.exhaust)

lemma cache_slabs_eq: "cache_slabs H c = set (H (c, Partial)) \<union> set (H (c, Full)) \<union> set (H (c, Free))"
  unfolding cache_slabs_def UN_slab_list ..

definition live_objs :: "kmem_cache \<Rightarrow> u64 set \<Rightarrow> (u64 \<Rightarrow> u64 list) \<Rightarrow> u64 set" where
  "live_objs c A F = (\<Union>a\<in>A. slab_objs c a - set (F a))"

text \<open>Between two operations no slab with all objects free is on the partial list, except when a slab has one object only:
  the code then tests for the first free object before it tests for the last.\<close>

definition settled :: "kslab \<Rightarrow> u64 set \<Rightarrow> (u64 \<times> slab_list \<Rightarrow> u64 list) \<Rightarrow> (u64 \<Rightarrow> u64 list) \<Rightarrow> bool" where
  "settled s C H F \<longleftrightarrow> (\<forall>c\<in>C. \<forall>a\<in>set (H (c, Partial)).
     length (F a) < unat (kc_objects_per_slab (ks_caches s c)) \<or> unat (kc_objects_per_slab (ks_caches s c)) = 1)"

definition kslab_inv :: "kslab \<Rightarrow> (u64 \<rightharpoonup> u64 set) \<Rightarrow> bool" where
  "kslab_inv s L \<longleftrightarrow> pages_ok s \<and> (\<exists>H F. slab_lists s (dom L) H \<and> slabs_ok s (dom L) H F \<and> settled s (dom L) H F \<and>
     (\<forall>c\<in>dom L. L c = Some (live_objs (ks_caches s c) (cache_slabs H c) F)))"

section \<open>Addresses of slabs and objects\<close>

lemma header_size_48 [simp]: "header_size = 48"
  by (simp add: header_size_def SLAB_T_SIZE_def)

lemma unat_page_virt:
  assumes "pages_ok s" and "p < unat (total_pages (ks_pmm s))"
  shows "unat (phys_to_virt (ks_pmm s) (of_nat (p * 4096))) = p * 4096 + unat (hhdm_offset (ks_pmm s))"
    and "unat (phys_to_virt (ks_pmm s) (of_nat (p * 4096))) + 4096 \<le> 2 ^ 64"
proof -
  have le: "p * 4096 + 4096 + unat (hhdm_offset (ks_pmm s)) \<le> 2 ^ 64"
    using assms unfolding pages_ok_def by linarith
  then have "p * 4096 < 2 ^ 64" by linarith
  then have "unat (of_nat (p * 4096) :: u64) = p * 4096" by (rule unat_of_nat_u64)
  with le show "unat (phys_to_virt (ks_pmm s) (of_nat (p * 4096))) = p * 4096 + unat (hhdm_offset (ks_pmm s))"
    unfolding phys_to_virt_def by (subst unat_add_u64) linarith+
  with le show "unat (phys_to_virt (ks_pmm s) (of_nat (p * 4096))) + 4096 \<le> 2 ^ 64" by linarith
qed

lemma slab_page_aligned:
  assumes "pages_ok s" and "slab_page s a p"
  shows "unat a mod 4096 = 0" and "unat a + 4096 \<le> 2 ^ 64"
proof -
  have p: "p < unat (total_pages (ks_pmm s))" "a = phys_to_virt (ks_pmm s) (of_nat (p * 4096))"
    using assms(2) by (auto simp: slab_page_def)
  have "unat (hhdm_offset (ks_pmm s)) mod 4096 = 0" using assms(1) by (simp add: pages_ok_def)
  then show "unat a mod 4096 = 0"
    unfolding p(2) unat_page_virt(1) [OF assms(1) p(1)] by (simp add: mod_mult_self3)
  show "unat a + 4096 \<le> 2 ^ 64" unfolding p(2) by (rule unat_page_virt(2) [OF assms(1) p(1)])
qed

lemma unat_slab_obj:
  assumes "cache_ok c" and "unat a + 4096 \<le> 2 ^ 64" and "i < unat (kc_objects_per_slab c)"
  shows "unat (slab_obj c a i) = unat a + 48 + i * unat (kc_object_size c)"
    and "i * unat (kc_object_size c) + unat (kc_object_size c) \<le> 4048"
proof -
  have "Suc i * unat (kc_object_size c) \<le> unat (kc_objects_per_slab c) * unat (kc_object_size c)"
    using assms(3) by (intro mult_le_mono1) simp
  then show le: "i * unat (kc_object_size c) + unat (kc_object_size c) \<le> 4048"
    using assms(1) unfolding cache_ok_def by simp
  then have i: "i < 2 ^ 64" using unat_u64_bound [of "kc_objects_per_slab c"] assms(3) by linarith
  have "i * unat (kc_object_size c) < 2 ^ 64" by (rule le_less_trans [OF add_leD1 [OF le]]) simp
  then have io: "unat (of_nat i * kc_object_size c) = i * unat (kc_object_size c)"
    using i by (subst unat_mult_u64) simp_all
  have "slab_obj c a i = a + (48 + of_nat i * kc_object_size c)" by (simp add: slab_obj_def)
  moreover have "unat (48 + of_nat i * kc_object_size c) = 48 + i * unat (kc_object_size c)"
    using le by (subst unat_add_u64) (simp_all add: io)
  moreover define t where "t = i * unat (kc_object_size c)"
  moreover have "unat a + (48 + t) < 2 ^ 64" 
    using le assms(1,2) unfolding t_def [symmetric] cache_ok_def by linarith
  ultimately show "unat (slab_obj c a i) = unat a + 48 + i * unat (kc_object_size c)"
    by (simp add: unat_add_u64)
qed

lemma slab_of_obj:
  assumes "cache_ok c" and "unat a mod 4096 = 0" and "unat a + 4096 \<le> 2 ^ 64" and "x \<in> slab_objs c a"
  shows "slab_of 1 x = a" and "x \<noteq> NULL"
proof -
  obtain i where i: "i < unat (kc_objects_per_slab c)" "x = slab_obj c a i"
    using assms(4) by (auto simp: slab_objs_def)
  note x = unat_slab_obj [OF assms(1,3) i(1), folded i(2)]
  have "unat x \<noteq> 0" using x(1) by simp
  then show "x \<noteq> NULL" by auto
  have "PAGE_SIZE - 1 = (mask 12 :: u64)" by (simp add: PAGE_SIZE_def mask_eq_exp_minus_1)
  then have "unat (slab_of 1 x) = unat x - unat x mod 2 ^ 12"
    unfolding slab_of_def by (simp add: and_not_mask_unat)
  also obtain q where "unat a = 4096 * q" using assms(2) by blast
  then have "unat x mod 2 ^ 12 = (4096 * q + (48 + i * unat (kc_object_size c))) mod 4096"
    by (simp add: x(1) add.assoc)
  also have "\<dots> = (48 + i * unat (kc_object_size c)) mod 4096" by (rule mod_mult_self4)
  also have "\<dots> = 48 + i * unat (kc_object_size c)"
    using assms(1) x(2) unfolding cache_ok_def by (intro mod_less) linarith
  finally show "slab_of 1 x = a" using x(1) by (simp add: word_unat_eq_iff)
qed

lemma slab_obj_inj:
  assumes "cache_ok c" and "unat a + 4096 \<le> 2 ^ 64"
  shows "inj_on (slab_obj c a) {..<unat (kc_objects_per_slab c)}"
proof (rule inj_onI)
  fix i j
  assume ij: "i \<in> {..<unat (kc_objects_per_slab c)}" "j \<in> {..<unat (kc_objects_per_slab c)}"
    and "slab_obj c a i = slab_obj c a j"
  then have "unat (slab_obj c a i) = unat (slab_obj c a j)" by simp
  then have "i * unat (kc_object_size c) = j * unat (kc_object_size c)"
    using ij unat_slab_obj(1) [OF assms] by simp
  then show "i = j" using assms(1) by (simp add: cache_ok_def)
qed

section \<open>Moving slabs between lists\<close>

text \<open>Two states that differ in the list links and heads only.\<close>

definition lists_only :: "kslab \<Rightarrow> kslab \<Rightarrow> bool" where
  "lists_only s s' \<longleftrightarrow> ks_pmm s' = ks_pmm s \<and> ks_mem s' = ks_mem s \<and> sl_magic s' = sl_magic s \<and>
     sl_cache s' = sl_cache s \<and> ks_obj_next s' = ks_obj_next s \<and> sl_free_list s' = sl_free_list s \<and>
     sl_free_count s' = sl_free_count s \<and>
     (\<forall>c. kc_pages_per_slab (ks_caches s' c) = kc_pages_per_slab (ks_caches s c) \<and>
       kc_object_size (ks_caches s' c) = kc_object_size (ks_caches s c) \<and>
       kc_objects_per_slab (ks_caches s' c) = kc_objects_per_slab (ks_caches s c))"

lemma lists_only_trans: "lists_only s s' \<Longrightarrow> lists_only s' s'' \<Longrightarrow> lists_only s s''"
  by (simp add: lists_only_def)

lemma slab_obj_cong: "kc_object_size c' = kc_object_size c \<Longrightarrow> slab_obj c' = slab_obj c"
  by (intro ext) (simp add: slab_obj_def)

lemma slab_objs_cong:
  "kc_object_size c' = kc_object_size c \<Longrightarrow> kc_objects_per_slab c' = kc_objects_per_slab c \<Longrightarrow> slab_objs c' = slab_objs c"
  using slab_obj_cong [of c' c] by (intro ext) (simp add: slab_objs_def)

lemma lists_only_sel:
  assumes "lists_only s s'"
  shows "ks_pmm s' = ks_pmm s" "ks_mem s' = ks_mem s" "sl_magic s' = sl_magic s" "sl_cache s' = sl_cache s"
    "ks_obj_next s' = ks_obj_next s" "sl_free_list s' = sl_free_list s" "sl_free_count s' = sl_free_count s"
    "kc_pages_per_slab (ks_caches s' c) = kc_pages_per_slab (ks_caches s c)"
    "kc_object_size (ks_caches s' c) = kc_object_size (ks_caches s c)"
    "kc_objects_per_slab (ks_caches s' c) = kc_objects_per_slab (ks_caches s c)"
  using assms by (simp_all add: lists_only_def)

lemma lists_only_eq:
  assumes "lists_only s s'"
  shows "pages_ok s' = pages_ok s" "slab_ok s' = slab_ok s" "cache_ok (ks_caches s' c) = cache_ok (ks_caches s c)"
    "slab_objs (ks_caches s' c) = slab_objs (ks_caches s c)" "live_objs (ks_caches s' c) = live_objs (ks_caches s c)"
proof -
  note eq = lists_only_sel [OF assms]
  show objs: "slab_objs (ks_caches s' c) = slab_objs (ks_caches s c)" for c by (rule slab_objs_cong) (rule eq)+
  show "pages_ok s' = pages_ok s" unfolding pages_ok_def eq ..
  show "slab_ok s' = slab_ok s" by (intro ext) (simp only: slab_ok_def slab_page_def eq objs)
  show "cache_ok (ks_caches s' c) = cache_ok (ks_caches s c)" unfolding cache_ok_def eq ..
  show "live_objs (ks_caches s' c) = live_objs (ks_caches s c)" by (intro ext) (simp only: live_objs_def objs)
qed

lemma slab_head_set [simp]: "slab_head l (set_slab_head l' h c) = (if l = l' then h else slab_head l c)"
  by (cases l; cases l') simp_all

lemma set_slab_head_dims [simp]:
  "kc_pages_per_slab (set_slab_head l h c) = kc_pages_per_slab c"
  "kc_object_size (set_slab_head l h c) = kc_object_size c"
  "kc_objects_per_slab (set_slab_head l h c) = kc_objects_per_slab c"
  by (cases l; simp)+

lemma slab_list_remove_lists:
  assumes "slab_lists s C H" and "c \<in> C" and "H (c, l) = xs @ a # ys"
  shows "slab_lists (slab_list_remove c l a s) C (H((c, l) := xs @ ys))"
    and "lists_only s (slab_list_remove c l a s)"
proof -
  have head: "slab_head l (ks_caches s c) = head_of (H (c, l)) NULL" using assms(1,2) by (simp add: slab_lists_def)
  have "dlls (sl_links s) H" using assms(1) by (simp add: slab_lists_def)
  from ilist_remove_dlls [OF this assms(3)] obtain k'
    where k': "ilist_remove (head_of (H (c, l)) NULL) a (sl_links s) = (head_of (xs @ ys) NULL, k')"
      "dlls k' (H((c, l) := xs @ ys))" by blast
  show "slab_lists (slab_list_remove c l a s) C (H((c, l) := xs @ ys))"
    using assms(1,2) k'(2) unfolding slab_lists_def slab_list_remove_def head k'(1) by auto
  show "lists_only s (slab_list_remove c l a s)"
    unfolding lists_only_def slab_list_remove_def head k'(1) by simp
qed

lemma slab_list_add_lists:
  assumes "slab_lists s C H" and "c \<in> C" and "a \<noteq> NULL" and "\<And>j. a \<notin> set (H j)"
  shows "slab_lists (slab_list_add c l a s) C (H((c, l) := a # H (c, l)))"
    and "lists_only s (slab_list_add c l a s)"
proof -
  have head: "slab_head l (ks_caches s c) = head_of (H (c, l)) NULL" using assms(1,2) by (simp add: slab_lists_def)
  have "dlls (sl_links s) H" using assms(1) by (simp add: slab_lists_def)
  from ilist_add_dlls [OF this assms(3,4), of "(c, l)"] obtain k'
    where k': "ilist_add (head_of (H (c, l)) NULL) a (sl_links s) = (a, k')"
      "dlls k' (H((c, l) := a # H (c, l)))" by blast
  show "slab_lists (slab_list_add c l a s) C (H((c, l) := a # H (c, l)))"
    using assms(1,2) k'(2) unfolding slab_lists_def slab_list_add_def head k'(1) by auto
  show "lists_only s (slab_list_add c l a s)"
    unfolding lists_only_def slab_list_add_def head k'(1) by simp
qed

text \<open>The pair of calls that moves a slab from one list of its cache to another.\<close>

definition move_slab :: "u64 \<Rightarrow> slab_list \<Rightarrow> slab_list \<Rightarrow> u64 \<Rightarrow> kslab \<Rightarrow> kslab" where
  "move_slab c l l' a s = slab_list_add c l' a (slab_list_remove c l a s)"

lemma move_slab_lists:
  assumes "slab_lists s C H" and "c \<in> C" and "a \<in> set (H (c, l))" and "l \<noteq> l'"
  obtains H' where "slab_lists (move_slab c l l' a s) C H'" "lists_only s (move_slab c l l' a s)"
    "a \<in> set (H' (c, l'))" "cache_slabs H' = cache_slabs H"
    "\<And>c' k b. b \<in> set (H' (c', k)) \<Longrightarrow> b \<noteq> a \<Longrightarrow> b \<in> set (H (c', k))"
    "\<And>c' k. a \<in> set (H' (c', k)) \<Longrightarrow> c' = c \<and> k = l'"
proof -
  obtain xs ys where xs: "H (c, l) = xs @ a # ys" using split_list [OF assms(3)] by blast
  have dlls: "dlls (sl_links s) H" using assms(1) by (simp add: slab_lists_def)
  have only: "\<And>j. a \<in> set (H j) \<Longrightarrow> j = (c, l)"
    using dllsD(2) [OF dlls, of "(c, l)"] assms(3) by (metis disjoint_iff)
  have dist: "distinct (xs @ a # ys)" using dllsD(1) [OF dlls, of "(c, l)"] unfolding xs by simp
  have "a \<noteq> NULL" by (rule dlls_not_NULL [OF dlls assms(3)])
  let ?H = "H((c, l) := xs @ ys)"
  note rm = slab_list_remove_lists [OF assms(1,2) xs]
  have notin: "a \<notin> set (?H j)" for j using only [of j] dist by auto
  note add = slab_list_add_lists [OF rm(1) assms(2) \<open>a \<noteq> NULL\<close> notin, of l']
  show thesis
  proof (rule that [of "?H((c, l') := a # ?H (c, l'))"])
    show "slab_lists (move_slab c l l' a s) C (?H((c, l') := a # ?H (c, l')))"
      unfolding move_slab_def by (rule add(1))
    show "lists_only s (move_slab c l l' a s)"
      unfolding move_slab_def by (rule lists_only_trans [OF rm(2) add(2)])
    show "cache_slabs (?H((c, l') := a # ?H (c, l'))) = cache_slabs H"
      using assms(4) xs by (intro ext, cases l; cases l') (auto simp: cache_slabs_eq)
    fix c' k
    show "a \<in> set ((?H((c, l') := a # ?H (c, l'))) (c', k)) \<Longrightarrow> c' = c \<and> k = l'"
      using notin [of "(c', k)"] by (auto split: if_splits)
  qed (use assms(4) xs in \<open>auto split: if_splits\<close>)
qed

section \<open>Free chains\<close>

lemma ochain_cong: "(\<And>x. x \<in> set xs \<Longrightarrow> f' x = f x) \<Longrightarrow> ochain f' p xs \<longleftrightarrow> ochain f p xs"
  by (induction xs arbitrary: p) auto

lemma ochain_upt:
  assumes "i < n" and "\<And>j. i \<le> j \<Longrightarrow> j < n - 1 \<Longrightarrow> f (g j) = g (Suc j)" and "f (g (n - 1)) = NULL"
    and "\<And>j. i \<le> j \<Longrightarrow> j < n \<Longrightarrow> g j \<noteq> NULL"
  shows "ochain f (g i) (map g [i..<n])"
  using assms
proof (induction "n - i" arbitrary: i)
  case (Suc k)
  show ?case
  proof (cases "Suc i = n")
    case True
    then have "n - 1 = i" by simp
    then show ?thesis using Suc.prems True by (simp add: upt_conv_Cons)
  next
    case False
    then have "Suc i < n" using Suc.prems(1) by simp
    then have "ochain f (g (Suc i)) (map g [Suc i..<n])" using Suc by (intro Suc.hyps(1)) auto
    moreover have "f (g i) = g (Suc i)" using Suc.prems(2) [of i] \<open>Suc i < n\<close> by simp
    ultimately show ?thesis using Suc.prems(1,4) by (simp add: upt_conv_Cons)
  qed
qed simp

lemma fold_thread:
  assumes "inj_on g {..<n}" and "m \<le> n"
  shows "(\<forall>i<m. fold (\<lambda>i f. f(g i := h i)) [0..<m] f (g i) = h i) \<and>
    (\<forall>x. x \<notin> g ` {..<m} \<longrightarrow> fold (\<lambda>i f. f(g i := h i)) [0..<m] f x = f x)"
  using assms(2)
proof (induction m)
  case (Suc m)
  then have "g i \<noteq> g m" if "i < m" for i using inj_onD [OF assms(1), of i m] that by auto
  then show ?case using Suc by (auto simp: less_Suc_eq lessThan_Suc)
qed simp

lemma thread_objects_chain:
  fixes f :: "u64 \<Rightarrow> u64"
  assumes "cache_ok c" and "unat a + 4096 \<le> 2 ^ 64"
  defines "f' \<equiv> thread_objects (a + header_size) (kc_object_size c) (kc_objects_per_slab c) f"
  shows "ochain f' (a + header_size) (map (slab_obj c a) [0..<unat (kc_objects_per_slab c)])"
    and "x \<notin> slab_objs c a \<Longrightarrow> f' x = f x"
proof -
  let ?n = "unat (kc_objects_per_slab c)"
  let ?f = "fold (\<lambda>i f. f(slab_obj c a i := slab_obj c a (Suc i))) [0..<?n - 1] f"
  have n: "0 < ?n" using assms(1) by (simp add: cache_ok_def)
  then have "unat (1 :: u64) \<le> ?n" by simp
  then have n1: "unat (kc_objects_per_slab c - 1) = ?n - 1"
    by (simp add: unat_sub word_le_nat_alt)
  then have last: "a + header_size + (kc_objects_per_slab c - 1) * kc_object_size c = slab_obj c a (?n - 1)"
    unfolding slab_obj_def n1 [symmetric] by simp
  have f': "f' = ?f(slab_obj c a (?n - 1) := NULL)"
    unfolding f'_def thread_objects_def Let_def n1 last
    by (simp add: slab_obj_def add.commute)
  note inj = slab_obj_inj [OF assms(1,2)]
  note thr = fold_thread [OF inj, of "?n - 1" "\<lambda>i. slab_obj c a (Suc i)" f]
  have nz: "slab_obj c a j \<noteq> NULL" if "j < ?n" for j
  proof -
    have "unat (slab_obj c a j) \<noteq> 0" using unat_slab_obj(1) [OF assms(1,2) that] by simp
    then show ?thesis by auto
  qed
  have "f' (slab_obj c a j) = slab_obj c a (Suc j)" if "j < ?n - 1" for j
  proof -
    have "j < ?n" using that by linarith
    then have "slab_obj c a j \<noteq> slab_obj c a (?n - 1)" using inj_onD [OF inj, of j "?n - 1"] that by auto
    then show ?thesis using that thr by (simp add: f')
  qed
  then have "ochain f' (slab_obj c a 0) (map (slab_obj c a) [0..<?n])"
    using n nz by (intro ochain_upt) (auto simp: f')
  then show "ochain f' (a + header_size) (map (slab_obj c a) [0..<?n])" by (simp add: slab_obj_def)
  show "f' x = f x" if "x \<notin> slab_objs c a"
  proof -
    have "x \<notin> slab_obj c a ` {..<?n - 1}" "x \<noteq> slab_obj c a (?n - 1)"
      using that n by (auto simp: slab_objs_def)
    then show ?thesis using thr by (simp add: f')
  qed
qed

section \<open>Slabs of a well-formed allocator\<close>

lemma slabs_okD:
  assumes "slabs_ok s C H F" and "c \<in> C" and "a \<in> set (H (c, l))"
  shows "cache_ok (ks_caches s c)" "slab_ok s c a (F a)"
    "count_ok l (unat (kc_objects_per_slab (ks_caches s c))) (length (F a))"
  using assms by (auto simp: slabs_ok_def)

lemma slabs_ok_cache: "slabs_ok s C H F \<Longrightarrow> c \<in> C \<Longrightarrow> cache_ok (ks_caches s c)"
  by (simp add: slabs_ok_def)

lemma slab_ok_aligned:
  assumes "pages_ok s" and "slab_ok s c a fs"
  shows "unat a mod 4096 = 0" "unat a + 4096 \<le> 2 ^ 64"
  using assms(2) slab_page_aligned [OF assms(1)] by (auto simp: slab_ok_def)

text \<open>An object determines its slab.\<close>

lemma slab_of_slab_obj:
  assumes "pages_ok s" and "slab_ok s c a fs" and "cache_ok (ks_caches s c)" and "x \<in> slab_objs (ks_caches s c) a"
  shows "slab_of 1 x = a" "x \<noteq> NULL"
  using slab_of_obj [OF assms(3) slab_ok_aligned [OF assms(1,2)] assms(4)] by auto

text \<open>A slab lies on one list.\<close>

lemma slab_lists_unique:
  assumes "slab_lists s C H" and "a \<in> set (H (c, l))" and "a \<in> set (H (c', l'))"
  shows "c' = c \<and> l' = l"
proof -
  have "dlls (sl_links s) H" using assms(1) by (simp add: slab_lists_def)
  from dllsD(2) [OF this, of "(c, l)" "(c', l')"] assms(2,3) show ?thesis by auto
qed

lemma slab_lists_cache: "slab_lists s C H \<Longrightarrow> a \<in> set (H (c, l)) \<Longrightarrow> c \<in> C"
  by (auto simp: slab_lists_def)

lemma cache_slabs_mem: "a \<in> cache_slabs H c \<longleftrightarrow> (\<exists>l. a \<in> set (H (c, l)))"
  by (simp add: cache_slabs_def)

text \<open>One slab changes: the others, and the caches' dimensions, stay as they are.\<close>

lemma slabs_ok_upd:
  assumes ok: "slabs_ok s C H F"
    and others: "\<And>c' l b. c' \<in> C \<Longrightarrow> b \<in> set (H (c', l)) \<Longrightarrow> b \<noteq> a \<Longrightarrow> slab_ok s' c' b (F b)"
    and dims: "\<And>c'. c' \<in> C \<Longrightarrow> cache_ok (ks_caches s' c') \<and> kc_objects_per_slab (ks_caches s' c') = kc_objects_per_slab (ks_caches s c')"
    and mem: "\<And>c' l b. b \<in> set (H' (c', l)) \<Longrightarrow> b \<noteq> a \<Longrightarrow> b \<in> set (H (c', l))"
    and only: "\<And>c' l. a \<in> set (H' (c', l)) \<Longrightarrow> c' = c \<and> l = l'"
    and new: "slab_ok s' c a fs" "count_ok l' (unat (kc_objects_per_slab (ks_caches s c))) (length fs)"
  shows "slabs_ok s' C H' (F(a := fs))"
  unfolding slabs_ok_def
proof (intro ballI conjI allI)
  fix c' assume c': "c' \<in> C"
  show "cache_ok (ks_caches s' c')" using dims [OF c'] by simp
  fix l b assume b: "b \<in> set (H' (c', l))"
  have "slab_ok s' c' b ((F(a := fs)) b) \<and> count_ok l (unat (kc_objects_per_slab (ks_caches s' c'))) (length ((F(a := fs)) b))"
  proof (cases "b = a")
    case True
    then show ?thesis using only [of c' l] b new dims [OF c'] by auto
  next
    case False
    then show ?thesis
      using mem [OF b False] others [OF c' mem [OF b False] False] slabs_okD(3) [OF ok c' mem [OF b False]] dims [OF c'] by simp
  qed
  then show "slab_ok s' c' b ((F(a := fs)) b)" "count_ok l (unat (kc_objects_per_slab (ks_caches s' c'))) (length ((F(a := fs)) b))"
    by auto
qed

lemma live_objs_other: "a \<notin> A \<Longrightarrow> live_objs c A (F(a := fs)) = live_objs c A F"
  unfolding live_objs_def by (rule SUP_cong) auto

lemma live_objs_insert: "live_objs c (insert a A) F = slab_objs c a - set (F a) \<union> live_objs c A F"
  by (auto simp: live_objs_def)

lemma live_objs_split: "a \<in> A \<Longrightarrow> live_objs c A F = slab_objs c a - set (F a) \<union> live_objs c (A - {a}) F"
  by (auto simp: live_objs_def)

section \<open>Allocation\<close>

lemma slab_ok_cong:
  assumes "slab_ok s c b fs" and "\<And>p. slab_page s b p \<Longrightarrow> slab_page s' b p"
    and "sl_magic s' b = sl_magic s b" "sl_cache s' b = sl_cache s b" "sl_free_list s' b = sl_free_list s b"
      "sl_free_count s' b = sl_free_count s b" "slab_objs (ks_caches s' c) b = slab_objs (ks_caches s c) b"
    and "\<And>x. x \<in> slab_objs (ks_caches s c) b \<Longrightarrow> ks_obj_next s' x = ks_obj_next s x"
  shows "slab_ok s' c b fs"
proof -
  have "set fs \<subseteq> slab_objs (ks_caches s c) b" using assms(1) by (simp add: slab_ok_def)
  then have "ochain (ks_obj_next s') p fs = ochain (ks_obj_next s) p fs" for p
    using assms(8) by (intro ochain_cong) blast
  with assms show ?thesis unfolding slab_ok_def by auto
qed

lemma length_free_le:
  assumes "slab_ok s c a fs"
  shows "length fs \<le> unat (kc_objects_per_slab (ks_caches s c))"
proof -
  have "length fs = card (set fs)" using assms by (simp add: slab_ok_def distinct_card)
  also have "\<dots> \<le> card (slab_objs (ks_caches s c) a)"
    using assms by (intro card_mono) (auto simp: slab_ok_def slab_objs_def)
  also have "\<dots> \<le> unat (kc_objects_per_slab (ks_caches s c))"
    unfolding slab_objs_def by (rule order_trans [OF card_image_le]) simp_all
  finally show ?thesis .
qed

text \<open>A new slab: fresh, with all its objects free; no other slab is touched.\<close>

lemma allocate_slab_page_ok:
  assumes pg: "pages_ok s" and lists: "slab_lists s C H" and ok: "slabs_ok s C H F" and c: "c \<in> C"
    and alloc: "allocate_slab_page c s = (a, s')"
  shows "pages_ok s'" and "ks_caches s' = ks_caches s"
    and "\<And>c' l b. c' \<in> C \<Longrightarrow> b \<in> set (H (c', l)) \<Longrightarrow> slab_ok s' c' b (F b)"
    and "slab_lists s' C H"
    and "a \<noteq> NULL \<Longrightarrow> a \<notin> set (H j)"
    and "a \<noteq> NULL \<Longrightarrow> slab_ok s' c a (map (slab_obj (ks_caches s c) a) [0..<unat (kc_objects_per_slab (ks_caches s c))])"
proof -
  let ?c = "ks_caches s c"
  have cok: "cache_ok ?c" using ok c by (simp add: slabs_ok_def)
  then have one: "kc_pages_per_slab ?c = 1" by (simp add: cache_ok_def)
  obtain phys p m where pa: "pmm_alloc (ks_pmm s) (ks_mem s) 1 = (phys, p, m)" by (metis prod_cases3)
  have pinv: "pmm_inv (ks_pmm s) (ks_mem s)" using pg by (simp add: pages_ok_def)
  note laws = pmm_alloc_laws [OF pinv pa] and par = pmm_alloc_params [OF pa]
  let ?s = "s\<lparr>ks_pmm := p, ks_mem := m\<rparr>"
  have page: "slab_page t b q" if "slab_page s b q" "ks_pmm t = p" "ks_mem t = m" for b q t
    using that laws(2) [of q] par by (auto simp: slab_page_def phys_to_virt_def)
  have pages: "pages_ok t" if "ks_pmm t = p" "ks_mem t = m" for t
    using pg laws(1) par that by (simp add: pages_ok_def)
  show "pages_ok s'" "ks_caches s' = ks_caches s"
    using alloc by (auto simp: allocate_slab_page_def one pa Let_def split: if_splits intro: pages)
  have "(\<forall>c' l b. c' \<in> C \<longrightarrow> b \<in> set (H (c', l)) \<longrightarrow> slab_ok s' c' b (F b)) \<and> slab_lists s' C H \<and>
    (a \<noteq> NULL \<longrightarrow> a \<notin> set (H j) \<and> slab_ok s' c a (map (slab_obj ?c a) [0..<unat (kc_objects_per_slab ?c)]))"
  proof (cases "phys = NULL")
    case True
    then have "a = NULL" "s' = ?s" using alloc by (auto simp: allocate_slab_page_def one pa Let_def)
    moreover have "slab_ok ?s c' b (F b)" if "c' \<in> C" "b \<in> set (H (c', l))" for c' l b
      by (rule slab_ok_cong [OF slabs_okD(2) [OF ok that]]) (auto intro: page)
    ultimately show ?thesis using lists by (auto simp: slab_lists_def)
  next
    case False
    then have a: "a = phys_to_virt p phys" and s': "s' = ?s\<lparr>sl_magic := (sl_magic s)(a := SLAB_MAGIC),
        sl_cache := (sl_cache s)(a := c), sl_free_count := (sl_free_count s)(a := kc_objects_per_slab ?c),
        sl_links := set_prev a NULL (set_next a NULL (sl_links s)),
        sl_free_list := (sl_free_list s)(a := a + header_size),
        ks_obj_next := thread_objects (a + header_size) (kc_object_size ?c) (kc_objects_per_slab ?c) (ks_obj_next s)\<rparr>"
      using alloc by (auto simp: allocate_slab_page_def one pa Let_def)
    obtain q where q: "phys = of_nat (q * 4096)" "q < unat (total_pages (ks_pmm s))"
      "\<not> page_used (ks_pmm s) (ks_mem s) q" "page_used p m q"
      by (rule pmm_alloc_page [OF pinv pa False], rule that; assumption)
    have apage: "slab_page s' a q" using q par by (simp add: slab_page_def s' a)
    have al: "unat a mod 4096 = 0" "unat a + 4096 \<le> 2 ^ 64"
      using slab_page_aligned [OF pages apage] by (simp_all add: s')
    have fresh: "b \<noteq> a" if "slab_ok s c' b fs" for c' b fs
    proof
      assume "b = a"
      with that obtain r where r: "slab_page s a r" by (auto simp: slab_ok_def)
      then have rt: "r < unat (total_pages (ks_pmm s))" and ru: "page_used (ks_pmm s) (ks_mem s) r"
        and ar: "a = phys_to_virt (ks_pmm s) (of_nat (r * 4096))" by (auto simp: slab_page_def)
      have "a = phys_to_virt (ks_pmm s) (of_nat (q * 4096))" unfolding a q(1) phys_to_virt_def using par by simp
      then have "unat a = q * 4096 + unat (hhdm_offset (ks_pmm s))" using unat_page_virt(1) [OF pg q(2)] by (simp only:)
      moreover have "unat a = r * 4096 + unat (hhdm_offset (ks_pmm s))" unfolding ar by (rule unat_page_virt(1) [OF pg rt])
      ultimately have "r = q" by simp
      then show False using q(3) ru by simp
    qed
    have notin: "a \<notin> set (H j)" for j
    proof
      assume "a \<in> set (H j)"
      then have "a \<in> set (H (fst j, snd j))" by simp
      from slabs_okD(2) [OF ok slab_lists_cache [OF lists this] this] show False using fresh by blast
    qed
    have "slab_ok s' c' b (F b)" if b: "c' \<in> C" "b \<in> set (H (c', l))" for c' l b
    proof (rule slab_ok_cong [OF slabs_okD(2) [OF ok b]])
      note bok = slabs_okD [OF ok b]
      have "b \<noteq> a" by (rule fresh [OF bok(2)])
      then show "sl_magic s' b = sl_magic s b" "sl_cache s' b = sl_cache s b" "sl_free_list s' b = sl_free_list s b"
        "sl_free_count s' b = sl_free_count s b" by (simp_all add: s')
      fix x assume "x \<in> slab_objs (ks_caches s c') b"
      then have "slab_of 1 x = b" by (rule slab_of_slab_obj(1) [OF pg bok(2,1)])
      then have "x \<notin> slab_objs ?c a" using slab_of_obj(1) [OF cok al] \<open>b \<noteq> a\<close> by blast
      then show "ks_obj_next s' x = ks_obj_next s x" using thread_objects_chain(2) [OF cok al(2)] by (simp add: s')
    qed (simp_all add: s' page)
    moreover have "slab_lists s' C H"
      using lists notin unfolding slab_lists_def dlls_def by (simp add: s')
    moreover have "slab_ok s' c a (map (slab_obj ?c a) [0..<unat (kc_objects_per_slab ?c)])"
      using thread_objects_chain(1) [OF cok al(2)] slab_obj_inj [OF cok al(2)] apage
      unfolding slab_ok_def by (auto simp: s' distinct_map slab_objs_def lessThan_atLeast0)
    ultimately show ?thesis using notin by blast
  qed
  then show "\<And>c' l b. c' \<in> C \<Longrightarrow> b \<in> set (H (c', l)) \<Longrightarrow> slab_ok s' c' b (F b)" "slab_lists s' C H"
    "a \<noteq> NULL \<Longrightarrow> a \<notin> set (H j)"
    "a \<noteq> NULL \<Longrightarrow> slab_ok s' c a (map (slab_obj (ks_caches s c) a) [0..<unat (kc_objects_per_slab (ks_caches s c))])"
    by blast+
qed

lemma slab_head_in:
  assumes "slab_lists s C H" and "c \<in> C" and "slab_head l (ks_caches s c) \<noteq> NULL"
  shows "slab_head l (ks_caches s c) \<in> set (H (c, l))"
proof -
  have "slab_head l (ks_caches s c) = head_of (H (c, l)) NULL" using assms(1,2) by (simp add: slab_lists_def)
  with assms(3) show ?thesis by (cases "H (c, l)") auto
qed

text \<open>A slab moves between two lists of its cache while the objects stay as they are.\<close>

lemma move_slab_ok:
  assumes lists: "slab_lists s C H" and ok: "slabs_ok s C H F" and c: "c \<in> C" and a: "a \<in> set (H (c, l))"
    and ne: "l \<noteq> l'" and cnt: "count_ok l' (unat (kc_objects_per_slab (ks_caches s c))) (length fs)"
    and t: "lists_only t t'" "t' = move_slab c l l' a t" "slab_lists t C H"
    and others: "\<And>c' l b. c' \<in> C \<Longrightarrow> b \<in> set (H (c', l)) \<Longrightarrow> b \<noteq> a \<Longrightarrow> slab_ok t c' b (F b)"
    and this_ok: "slab_ok t c a fs" and dims: "ks_caches t = ks_caches s"
  obtains H' where "slab_lists t' C H'" "slabs_ok t' C H' (F(a := fs))" "cache_slabs H' = cache_slabs H" "a \<in> set (H' (c, l'))"
    "\<And>c' k b. b \<in> set (H' (c', k)) \<Longrightarrow> b \<noteq> a \<Longrightarrow> b \<in> set (H (c', k))" "\<And>c' k. a \<in> set (H' (c', k)) \<Longrightarrow> c' = c \<and> k = l'"
    "\<And>c'. kc_objects_per_slab (ks_caches t' c') = kc_objects_per_slab (ks_caches s c')"
proof -
  obtain H' where H': "slab_lists (move_slab c l l' a t) C H'" "lists_only t (move_slab c l l' a t)"
    "a \<in> set (H' (c, l'))" "cache_slabs H' = cache_slabs H"
    "\<And>c' k b. b \<in> set (H' (c', k)) \<Longrightarrow> b \<noteq> a \<Longrightarrow> b \<in> set (H (c', k))"
    "\<And>c' k. a \<in> set (H' (c', k)) \<Longrightarrow> c' = c \<and> k = l'"
    by (rule move_slab_lists [OF t(3) c a ne], rule that; assumption)
  note H' = H' [folded t(2)]
  note eq = lists_only_eq [OF H'(2)] lists_only_sel [OF H'(2)]
  have "slabs_ok t' C H' (F(a := fs))"
  proof (rule slabs_ok_upd [OF ok, where c = c and l' = l'])
    show "slab_ok t' c' b (F b)" if "c' \<in> C" "b \<in> set (H (c', l))" "b \<noteq> a" for c' l b
      using others [OF that] unfolding eq(2) .
    show "cache_ok (ks_caches t' c') \<and> kc_objects_per_slab (ks_caches t' c') = kc_objects_per_slab (ks_caches s c')" if "c' \<in> C" for c'
      using slabs_ok_cache [OF ok that] unfolding eq(3) lists_only_sel(10) [OF H'(2)] dims by simp
    show "slab_ok t' c a fs" using this_ok unfolding eq(2) .
    show "c' = c \<and> l = l'" if "a \<in> set (H' (c', l))" for c' l using H'(6) [OF that] .
  qed (use H'(5) cnt in auto)
  then show thesis
    by (rule that [OF H'(1) _ H'(4,3,5,6)]) (use lists_only_sel(10) [OF H'(2)] in \<open>simp_all add: dims\<close>)
qed

lemma move_slab_only:
  assumes "slab_lists t C H" and "c \<in> C" and "a \<in> set (H (c, l))" and "l \<noteq> l'"
  shows "lists_only t (move_slab c l l' a t)"
  by (rule move_slab_lists [OF assms])

lemma slab_for_alloc_eq:
  "slab_for_alloc c s =
     (if slabs_partial (ks_caches s c) \<noteq> NULL then (slabs_partial (ks_caches s c), s)
      else if slabs_free (ks_caches s c) \<noteq> NULL
      then (slabs_free (ks_caches s c), move_slab c Free Partial (slabs_free (ks_caches s c)) s)
      else case allocate_slab_page c s of (b, t) \<Rightarrow>
        if b = NULL then (NULL, t) else (b, slab_list_add c Partial b t))"
  by (simp add: slab_for_alloc_def move_slab_def Let_def split: prod.split)

lemma slab_for_alloc_ok:
  assumes pg: "pages_ok s" and lists: "slab_lists s C H" and ok: "slabs_ok s C H F" and c: "c \<in> C"
    and get: "slab_for_alloc c s = (a, s')"
  obtains H' F' where "pages_ok s'" "slab_lists s' C H'" "slabs_ok s' C H' F'" "a \<noteq> NULL \<Longrightarrow> a \<in> set (H' (c, Partial))"
    "\<And>c'. c' \<in> C \<Longrightarrow> live_objs (ks_caches s' c') (cache_slabs H' c') F' = live_objs (ks_caches s c') (cache_slabs H c') F"
    "\<And>c' b. b \<in> set (H' (c', Partial)) \<Longrightarrow> b \<noteq> a \<Longrightarrow> b \<in> set (H (c', Partial)) \<and> F' b = F b"
    "\<And>c'. kc_objects_per_slab (ks_caches s' c') = kc_objects_per_slab (ks_caches s c')"
proof -
  let ?c = "ks_caches s c"
  have cok: "cache_ok ?c" using ok c by (simp add: slabs_ok_def)
  consider (partial) "slabs_partial ?c \<noteq> NULL" "a = slabs_partial ?c" "s' = s"
    | (free) "slabs_free ?c \<noteq> NULL" "a = slabs_free ?c" "s' = move_slab c Free Partial a s"
    | (none) "a = NULL" "allocate_slab_page c s = (NULL, s')"
    | (new) t where "a \<noteq> NULL" "allocate_slab_page c s = (a, t)" "s' = slab_list_add c Partial a t"
  proof (cases "slabs_partial ?c = NULL")
    case False
    then have "(a, s') = (slabs_partial ?c, s)" using get [symmetric] unfolding slab_for_alloc_eq by (simp only: if_True simp_thms)
    with False show thesis by (intro partial) simp_all
  next
    case part: True
    show thesis
    proof (cases "slabs_free ?c = NULL")
      case False
      then have "(a, s') = (slabs_free ?c, move_slab c Free Partial (slabs_free ?c) s)"
        using get [symmetric] part unfolding slab_for_alloc_eq by (simp only: if_True if_False simp_thms)
      with False show thesis by (intro free) simp_all
    next
      case True
      obtain b t where b: "allocate_slab_page c s = (b, t)" by fastforce
      have "(a, s') = (if b = NULL then (NULL, t) else (b, slab_list_add c Partial b t))"
        using get unfolding slab_for_alloc_eq by (simp add: part True b)
      then show thesis using b none new by (cases "b = NULL") simp_all
    qed
  qed
  then show thesis
  proof cases
    case partial
    then have "a \<in> set (H (c, Partial))" using slab_head_in [OF lists c, of Partial] by simp
    then show thesis using that [of H F] pg lists ok partial by simp
  next
    case free
    then have a: "a \<in> set (H (c, Free))" using slab_head_in [OF lists c, of Free] by simp
    have only: "lists_only s s'" unfolding free(3) by (rule move_slab_only [OF lists c a]) simp
    have cnt: "count_ok Partial (unat (kc_objects_per_slab ?c)) (length (F a))"
      using slabs_okD(3) [OF ok c a] cok by (simp add: cache_ok_def)
    obtain H' where H': "slab_lists s' C H'" "slabs_ok s' C H' (F(a := F a))" "cache_slabs H' = cache_slabs H" "a \<in> set (H' (c, Partial))"
        "\<And>c' k b. b \<in> set (H' (c', k)) \<Longrightarrow> b \<noteq> a \<Longrightarrow> b \<in> set (H (c', k))" "\<And>c' k. a \<in> set (H' (c', k)) \<Longrightarrow> c' = c \<and> k = Partial"
        "\<And>c'. kc_objects_per_slab (ks_caches s' c') = kc_objects_per_slab (ks_caches s c')"
      by (rule move_slab_ok [OF lists ok c a _ cnt only free(3) lists slabs_okD(2) [OF ok] slabs_okD(2) [OF ok c a] refl], simp,
          assumption, assumption, rule that; assumption)
    show thesis
    proof (rule that [of H' F])
      show "pages_ok s'" using pg lists_only_eq(1) [OF only] by simp
      show "slabs_ok s' C H' F" using H'(2) by simp
      show "live_objs (ks_caches s' c') (cache_slabs H' c') F = live_objs (ks_caches s c') (cache_slabs H c') F" for c'
        by (simp only: H'(3) lists_only_eq(5) [OF only])
      show "b \<in> set (H (c', Partial)) \<and> F b = F b" if "b \<in> set (H' (c', Partial))" "b \<noteq> a" for c' b
        using H'(5) [OF that] by simp
    qed (rule H')+
  next
    case none
    note al = allocate_slab_page_ok [OF pg lists ok c none(2)]
    have "slabs_ok s' C H F" using ok al(2,3) by (simp add: slabs_ok_def)
    then show thesis using that [of H F] al none by simp
  next
    case new
    note al = allocate_slab_page_ok [OF pg lists ok c new(2)]
    let ?fs = "map (slab_obj ?c a) [0..<unat (kc_objects_per_slab ?c)]"
    note add = slab_list_add_lists [OF al(4) c new(1) al(5) [OF new(1)], where l = Partial, folded new(3)]
    note eq = lists_only_eq [OF add(2)] lists_only_sel [OF add(2)]
    let ?H = "H((c, Partial) := a # H (c, Partial))"
    have notin: "a \<notin> set (H j)" for j by (rule al(5) [OF new(1)])
    have "slabs_ok s' C ?H (F(a := ?fs))"
    proof (rule slabs_ok_upd [OF ok, where c = c and l' = Partial])
      show "slab_ok s' c' b (F b)" if "c' \<in> C" "b \<in> set (H (c', l))" "b \<noteq> a" for c' l b
        using al(3) [OF that(1,2)] unfolding eq(2) .
      show "cache_ok (ks_caches s' c') \<and> kc_objects_per_slab (ks_caches s' c') = kc_objects_per_slab (ks_caches s c')" if "c' \<in> C" for c'
        using slabs_ok_cache [OF ok that] unfolding eq(3) lists_only_sel(10) [OF add(2)] al(2) by simp
      show "slab_ok s' c a ?fs" using al(6) [OF new(1)] unfolding eq(2) .
      show "c' = c \<and> l = Partial" if "a \<in> set (?H (c', l))" for c' l
        using that notin [of "(c', l)"] by (auto split: if_splits)
      show "count_ok Partial (unat (kc_objects_per_slab ?c)) (length ?fs)" using cok by (simp add: cache_ok_def)
    qed (auto split: if_splits)
    moreover have "live_objs (ks_caches s' c') (cache_slabs ?H c') (F(a := ?fs)) = live_objs (ks_caches s c') (cache_slabs H c') F" for c'
    proof -
      have sl: "cache_slabs ?H c' = (if c' = c then insert a (cache_slabs H c') else cache_slabs H c')"
        by (auto simp: cache_slabs_eq)
      have "a \<notin> cache_slabs H c'" using notin by (auto simp: cache_slabs_def)
      moreover have "slab_objs ?c a - set ?fs = {}" by (auto simp: slab_objs_def)
      ultimately show ?thesis unfolding eq(5) al(2) sl by (cases "c' = c") (auto simp: live_objs_insert live_objs_other)
    qed
    moreover have "b \<in> set (H (c', Partial)) \<and> (F(a := ?fs)) b = F b" if "b \<in> set (?H (c', Partial))" "b \<noteq> a" for c' b
      using that by (auto split: if_splits)
    moreover have "kc_objects_per_slab (ks_caches s' c') = kc_objects_per_slab (ks_caches s c')" for c'
      using lists_only_sel(10) [OF add(2), of c'] al(2) by simp
    moreover have "pages_ok s'" using al(1) eq(1) by simp
    moreover have "a \<in> set (?H (c, Partial))" by simp
    ultimately show thesis by (intro that [of ?H "F(a := ?fs)"] add(1))
  qed
qed


text \<open>Taking the first free object of a slab on the partial list.\<close>

definition pop_object :: "u64 \<Rightarrow> kslab \<Rightarrow> kslab" where
  "pop_object a s = s\<lparr>sl_free_list := (sl_free_list s)(a := ks_obj_next s (sl_free_list s a)),
     sl_free_count := (sl_free_count s)(a := sl_free_count s a - 1)\<rparr>"

lemma kmem_cache_alloc_eq:
  assumes "c \<noteq> NULL" and "slab_for_alloc c s = (a, t)"
  shows "kmem_cache_alloc c s =
    (if a = NULL then (NULL, t)
     else (sl_free_list t a, if sl_free_count t a = 1 then move_slab c Partial Full a (pop_object a t) else pop_object a t))"
  using assms by (simp add: kmem_cache_alloc_def pop_object_def move_slab_def Let_def)

lemma pop_object_ok:
  assumes "slab_ok s c a (x # fs)"
  shows "slab_ok (pop_object a s) c a fs"
proof -
  have "unat (sl_free_count s a) = Suc (length fs)" using assms by (simp add: slab_ok_def)
  then have "unat (sl_free_count s a - 1) = length fs" by (subst unat_sub) (auto simp: word_le_nat_alt)
  then show ?thesis using assms by (auto simp: slab_ok_def slab_page_def pop_object_def)
qed

lemma slab_ok_pop_other: "b \<noteq> a \<Longrightarrow> slab_ok (pop_object a s) c b fs \<longleftrightarrow> slab_ok s c b fs"
  by (simp add: slab_ok_def slab_page_def pop_object_def)

text \<open>The live objects of a cache lie in its slabs, so an object determines its cache.\<close>

lemma live_objs_slab:
  assumes pg: "pages_ok s" and lists: "slab_lists s C H" and ok: "slabs_ok s C H F" and c: "c \<in> C"
    and x: "x \<in> live_objs (ks_caches s c) (cache_slabs H c) F"
  obtains a l where "a \<in> set (H (c, l))" "x \<in> slab_objs (ks_caches s c) a" "x \<notin> set (F a)" "slab_of 1 x = a" "x \<noteq> NULL"
proof -
  obtain a l where a: "a \<in> set (H (c, l))" "x \<in> slab_objs (ks_caches s c) a" "x \<notin> set (F a)"
    using x by (auto simp: live_objs_def cache_slabs_mem)
  show thesis
    using that [OF a] slab_of_slab_obj [OF pg slabs_okD(2,1) [OF ok c a(1)] a(2)] by blast
qed

lemma free_obj_not_live:
  assumes pg: "pages_ok s" and lists: "slab_lists s C H" and ok: "slabs_ok s C H F" and c: "c \<in> C"
    and a: "a \<in> set (H (c, l))" and x: "x \<in> set (F a)" and c': "c' \<in> C"
  shows "x \<notin> live_objs (ks_caches s c') (cache_slabs H c') F"
proof
  assume "x \<in> live_objs (ks_caches s c') (cache_slabs H c') F"
  then obtain b k where b: "b \<in> set (H (c', k))" "x \<notin> set (F b)" "slab_of 1 x = b"
    by (rule live_objs_slab [OF pg lists ok c'])
  have "x \<in> slab_objs (ks_caches s c) a" using slabs_okD(2) [OF ok c a] x by (auto simp: slab_ok_def)
  then have "slab_of 1 x = a" by (rule slab_of_slab_obj(1) [OF pg slabs_okD(2,1) [OF ok c a]])
  then show False using b x by simp
qed

lemma settled_upd:
  assumes "settled s C H F"
    and "\<And>c' b. b \<in> set (H' (c', Partial)) \<Longrightarrow> b \<noteq> a \<Longrightarrow> b \<in> set (H (c', Partial)) \<and> F' b = F b"
    and "\<And>c'. kc_objects_per_slab (ks_caches s' c') = kc_objects_per_slab (ks_caches s c')"
    and "\<And>c'. a \<in> set (H' (c', Partial)) \<Longrightarrow> length (F' a) < unat (kc_objects_per_slab (ks_caches s c')) \<or> unat (kc_objects_per_slab (ks_caches s c')) = 1"
  shows "settled s' C H' F'"
  unfolding settled_def
proof (intro ballI)
  fix c' b
  assume "c' \<in> C" "b \<in> set (H' (c', Partial))"
  then show "length (F' b) < unat (kc_objects_per_slab (ks_caches s' c')) \<or> unat (kc_objects_per_slab (ks_caches s' c')) = 1"
    using assms(1) assms(2) [of b c'] assms(4) [of c'] unfolding settled_def assms(3) by (cases "b = a") auto
qed

lemma kmem_cache_alloc_inv:
  assumes inv: "kslab_inv s L" and L: "L c = Some X" and alloc: "kmem_cache_alloc c s = (x, s')"
  shows "x = NULL \<and> kslab_inv s' L \<or>
    x \<noteq> NULL \<and> (\<forall>c' X'. L c' = Some X' \<longrightarrow> x \<notin> X') \<and> kslab_inv s' (L(c \<mapsto> insert x X))"
proof -
  obtain H F where pg: "pages_ok s" and lists: "slab_lists s (dom L) H" and ok: "slabs_ok s (dom L) H F"
    and st: "settled s (dom L) H F" and live: "\<And>c. c \<in> dom L \<Longrightarrow> L c = Some (live_objs (ks_caches s c) (cache_slabs H c) F)"
    using inv unfolding kslab_inv_def by blast
  have c: "c \<in> dom L" using L by blast
  then have "c \<noteq> NULL" using lists by (auto simp: slab_lists_def)
  obtain a t where get: "slab_for_alloc c s = (a, t)" by fastforce
  obtain H1 F1 where t: "pages_ok t" "slab_lists t (dom L) H1" "slabs_ok t (dom L) H1 F1"
    and keep: "\<And>c' b. b \<in> set (H1 (c', Partial)) \<Longrightarrow> b \<noteq> a \<Longrightarrow> b \<in> set (H (c', Partial)) \<and> F1 b = F b"
    and n1: "\<And>c'. kc_objects_per_slab (ks_caches t c') = kc_objects_per_slab (ks_caches s c')"
    and a: "a \<noteq> NULL \<Longrightarrow> a \<in> set (H1 (c, Partial))"
    and lv: "\<And>c'. c' \<in> dom L \<Longrightarrow> live_objs (ks_caches t c') (cache_slabs H1 c') F1 = live_objs (ks_caches s c') (cache_slabs H c') F"
    by (rule slab_for_alloc_ok [OF pg lists ok c get], rule that; assumption)
  note al = alloc [unfolded kmem_cache_alloc_eq [OF \<open>c \<noteq> NULL\<close> get]]
  show ?thesis
  proof (cases "a = NULL")
    case True
    then have "x = NULL" "s' = t" using al by auto
    moreover have "a \<notin> set (H1 (c', Partial))" for c' using dlls_not_NULL [of "sl_links t" H1] t(2) True by (auto simp: slab_lists_def)
    then have "settled t (dom L) H1 F1" using keep by (intro settled_upd [OF st, of H1 a]) (use n1 in auto)
    then have "kslab_inv t L" unfolding kslab_inv_def using t lv live by metis
    ultimately show ?thesis by simp
  next
    case False
    note a = a [OF False]
    note aok = slabs_okD [OF t(3) c a]
    obtain y fs where fs: "F1 a = y # fs" using aok(3) by (cases "F1 a") auto
    have x: "x = sl_free_list t a" "x = y" "x \<noteq> NULL" using al False aok(2) fs by (auto simp: slab_ok_def)
    define p where "p = pop_object a t"
    have p_sel: "ks_caches p = ks_caches t" "sl_links p = sl_links t" "pages_ok p = pages_ok t"
      by (simp_all add: p_def pop_object_def pages_ok_def)
    have pl: "slab_lists p (dom L) H1" using t(2) unfolding slab_lists_def p_sel .
    have pok: "slab_ok p c a fs" unfolding p_def using aok(2) fs by (intro pop_object_ok) simp
    have oth: "slab_ok p c' b (F1 b)" if "c' \<in> dom L" "b \<in> set (H1 (c', l))" "b \<noteq> a" for c' l b
      using slabs_okD(2) [OF t(3) that(1,2)] that(3) by (simp add: p_def slab_ok_pop_other)
    have count: "unat (sl_free_count t a) = Suc (length fs)" using aok(2) fs by (simp add: slab_ok_def)
    have "\<exists>H'. pages_ok s' \<and> slab_lists s' (dom L) H' \<and> slabs_ok s' (dom L) H' (F1(a := fs)) \<and> cache_slabs H' = cache_slabs H1 \<and>
      (\<forall>c' b. b \<in> set (H' (c', Partial)) \<longrightarrow> b \<noteq> a \<longrightarrow> b \<in> set (H1 (c', Partial))) \<and>
      (\<forall>c'. a \<in> set (H' (c', Partial)) \<longrightarrow> c' = c) \<and>
      (\<forall>c'. kc_objects_per_slab (ks_caches s' c') = kc_objects_per_slab (ks_caches t c')) \<and> (\<forall>c. live_objs (ks_caches s' c) = live_objs (ks_caches t c))"
    proof (cases "fs = []")
      case True
      then have "sl_free_count t a = 1" using count by (simp add: word_unat_eq_iff)
      then have s': "s' = move_slab c Partial Full a p" using al False by (simp add: p_def)
      have only: "lists_only p s'" unfolding s' by (rule move_slab_only [OF pl c a]) simp
      obtain H' where "slab_lists s' (dom L) H'" "slabs_ok s' (dom L) H' (F1(a := fs))" "cache_slabs H' = cache_slabs H1"
          "\<And>c' k b. b \<in> set (H' (c', k)) \<Longrightarrow> b \<noteq> a \<Longrightarrow> b \<in> set (H1 (c', k))" "\<And>c' k. a \<in> set (H' (c', k)) \<Longrightarrow> c' = c \<and> k = Full"
          "\<And>c'. kc_objects_per_slab (ks_caches s' c') = kc_objects_per_slab (ks_caches t c')"
        by (rule move_slab_ok [OF t(2,3) c a _ _ only s' pl oth pok p_sel(1)], simp, simp add: True, assumption, assumption, assumption,
            rule that; assumption)
      then show ?thesis using lists_only_eq(1,5) [OF only] p_sel t(1) by (intro exI [of _ H']) auto
    next
      case nonempty: False
      then have "unat (sl_free_count t a) \<noteq> 1" using count by simp
      then have "sl_free_count t a \<noteq> 1" by auto
      then have s': "s' = p" using al False by (simp add: p_def)
      have "slabs_ok p (dom L) H1 (F1(a := fs))"
      proof (rule slabs_ok_upd [OF t(3) oth, where c = c and l' = Partial])
        show "c' = c \<and> l = Partial" if "a \<in> set (H1 (c', l))" for c' l by (rule slab_lists_unique [OF t(2) a that])
        show "count_ok Partial (unat (kc_objects_per_slab (ks_caches t c))) (length fs)"
          using nonempty aok(3) fs by simp
      qed (use pok slabs_ok_cache [OF t(3)] p_sel in auto)
      then show ?thesis using s' pl p_sel t(1) slab_lists_unique [OF t(2) a] by (intro exI [of _ H1]) auto
    qed
    then obtain H' where H': "pages_ok s'" "slab_lists s' (dom L) H'" "slabs_ok s' (dom L) H' (F1(a := fs))"
      "cache_slabs H' = cache_slabs H1" "\<And>c. live_objs (ks_caches s' c) = live_objs (ks_caches t c)"
      "\<And>c' b. b \<in> set (H' (c', Partial)) \<Longrightarrow> b \<noteq> a \<Longrightarrow> b \<in> set (H1 (c', Partial))" "\<And>c'. a \<in> set (H' (c', Partial)) \<Longrightarrow> c' = c"
      "\<And>c'. kc_objects_per_slab (ks_caches s' c') = kc_objects_per_slab (ks_caches t c')" by blast
    have "length fs < unat (kc_objects_per_slab (ks_caches s c))" using length_free_le [OF aok(2)] fs n1 by simp
    then have st': "settled s' (dom L) H' (F1(a := fs))"
      using keep H'(6-8) n1 by (intro settled_upd [OF st, of H' a]) auto
    have fresh: "x \<notin> X'" if "L c' = Some X'" for c' X'
    proof -
      have "c' \<in> dom L" using that by blast
      then show ?thesis
        using free_obj_not_live [OF t c a _ \<open>c' \<in> dom L\<close>, of x] fs x(2) lv [OF \<open>c' \<in> dom L\<close>] live [OF \<open>c' \<in> dom L\<close>] that by simp
    qed
    have mem: "a \<in> cache_slabs H1 c" using a by (auto simp: cache_slabs_mem)
    have "live_objs (ks_caches t c) (cache_slabs H1 c) (F1(a := fs)) = insert x X"
    proof -
      have "X = live_objs (ks_caches t c) (cache_slabs H1 c) F1" using L live [OF c] lv [OF c] by simp
      moreover have "y \<in> slab_objs (ks_caches t c) a" "y \<notin> set fs" using aok(2) fs by (auto simp: slab_ok_def)
      ultimately show ?thesis using x(2) fs by (auto simp: live_objs_split [OF mem] live_objs_other)
    qed
    moreover have "live_objs (ks_caches t c') (cache_slabs H1 c') (F1(a := fs)) = live_objs (ks_caches t c') (cache_slabs H1 c') F1"
      if "c' \<noteq> c" for c'
      using slab_lists_unique [OF t(2) a, of c'] that by (intro live_objs_other) (auto simp: cache_slabs_mem)
    ultimately have "(L(c \<mapsto> insert x X)) c' = Some (live_objs (ks_caches s' c') (cache_slabs H' c') (F1(a := fs)))" if "c' \<in> dom L" for c'
      using H'(4,5) lv [OF that] live [OF that] by auto
    moreover have "dom (L(c \<mapsto> insert x X)) = dom L" using c by auto
    ultimately have "kslab_inv s' (L(c \<mapsto> insert x X))" unfolding kslab_inv_def using H'(1-3) st' by metis
    then show ?thesis using x(3) fresh by blast
  qed
qed

section \<open>Release\<close>

definition push_object :: "u64 \<Rightarrow> u64 \<Rightarrow> kslab \<Rightarrow> kslab" where
  "push_object x a s = s\<lparr>ks_obj_next := (ks_obj_next s)(x := sl_free_list s a),
     sl_free_list := (sl_free_list s)(a := x), sl_free_count := (sl_free_count s)(a := sl_free_count s a + 1)\<rparr>"

lemma kmem_cache_free_eq:
  assumes "c \<noteq> NULL" and "x \<noteq> NULL" and "slab_of (kc_pages_per_slab (ks_caches s c)) x = a"
  shows "kmem_cache_free c x s =
    (if sl_free_count s a + 1 = 1 then move_slab c Full Partial a (push_object x a s)
     else if sl_free_count s a + 1 = kc_objects_per_slab (ks_caches s c) then move_slab c Partial Free a (push_object x a s)
     else push_object x a s)"
  using assms by (simp add: kmem_cache_free_def push_object_def move_slab_def Let_def)

lemma push_object_ok:
  assumes "slab_ok s c a fs" and "x \<in> slab_objs (ks_caches s c) a" and "x \<notin> set fs" and "x \<noteq> NULL"
  shows "slab_ok (push_object x a s) c a (x # fs)"
proof -
  have "length (x # fs) = card (set (x # fs))" using assms by (simp add: slab_ok_def distinct_card)
  also have "\<dots> \<le> card (slab_objs (ks_caches s c) a)"
    using assms by (intro card_mono) (auto simp: slab_ok_def slab_objs_def)
  also have "\<dots> \<le> unat (kc_objects_per_slab (ks_caches s c))"
    unfolding slab_objs_def by (rule order_trans [OF card_image_le]) simp_all
  finally have "length fs < unat (kc_objects_per_slab (ks_caches s c))" by simp
  moreover have "unat (sl_free_count s a) = length fs" using assms(1) by (simp add: slab_ok_def)
  ultimately have "unat (sl_free_count s a + 1) = Suc (length fs)"
    using unat_add_1_less [of "sl_free_count s a" "kc_objects_per_slab (ks_caches s c)"] by simp
  moreover have "ochain ((ks_obj_next s)(x := sl_free_list s a)) p fs = ochain (ks_obj_next s) p fs" for p
    using assms(3) by (intro ochain_cong) auto
  ultimately show ?thesis using assms by (auto simp: slab_ok_def slab_page_def push_object_def)
qed

lemma slab_ok_push_other:
  assumes "slab_ok s c b fs" and "b \<noteq> a" and "x \<notin> slab_objs (ks_caches s c) b"
  shows "slab_ok (push_object x a s) c b fs"
  by (rule slab_ok_cong [OF assms(1)]) (use assms in \<open>auto simp: slab_page_def push_object_def\<close>)

lemma kmem_cache_free_inv:
  assumes inv: "kslab_inv s L" and L: "L c = Some X" and x: "x \<in> X"
  shows "kslab_inv (kmem_cache_free c x s) (L(c \<mapsto> X - {x}))"
proof -
  obtain H F where pg: "pages_ok s" and lists: "slab_lists s (dom L) H" and ok: "slabs_ok s (dom L) H F"
    and st: "settled s (dom L) H F" and live: "\<And>c. c \<in> dom L \<Longrightarrow> L c = Some (live_objs (ks_caches s c) (cache_slabs H c) F)"
    using inv unfolding kslab_inv_def by blast
  have c: "c \<in> dom L" using L by blast
  then have "c \<noteq> NULL" using lists by (auto simp: slab_lists_def)
  have X: "X = live_objs (ks_caches s c) (cache_slabs H c) F" using L live [OF c] by simp
  obtain a l where a: "a \<in> set (H (c, l))" and xa: "x \<in> slab_objs (ks_caches s c) a" "x \<notin> set (F a)" "slab_of 1 x = a" "x \<noteq> NULL"
    using x unfolding X by (rule live_objs_slab [OF pg lists ok c])
  note aok = slabs_okD [OF ok c a]
  define p where "p = push_object x a s"
  have p_sel: "ks_caches p = ks_caches s" "sl_links p = sl_links s" "pages_ok p = pages_ok s"
    by (simp_all add: p_def push_object_def pages_ok_def)
  have pl: "slab_lists p (dom L) H" using lists unfolding slab_lists_def p_sel .
  have pok: "slab_ok p c a (x # F a)" unfolding p_def by (rule push_object_ok [OF aok(2) xa(1,2,4)])
  have oth: "slab_ok p c' b (F b)" if "c' \<in> dom L" "b \<in> set (H (c', l))" "b \<noteq> a" for c' l b
    unfolding p_def
  proof (rule slab_ok_push_other [OF slabs_okD(2) [OF ok that(1,2)] that(3)])
    show "x \<notin> slab_objs (ks_caches s c') b"
      using slab_of_slab_obj(1) [OF pg slabs_okD(2,1) [OF ok that(1,2)]] xa(3) that(3) by blast
  qed
  let ?n = "unat (kc_objects_per_slab (ks_caches s c))"
  have n: "Suc (length (F a)) \<le> ?n" using length_free_le [OF pok] by (simp add: p_sel)
  have k: "unat (sl_free_count s a) = length (F a)" using aok(2) by (simp add: slab_ok_def)
  then have k1: "unat (sl_free_count s a + 1) = Suc (length (F a))"
    using unat_add_1_less [of "sl_free_count s a" "kc_objects_per_slab (ks_caches s c)"] n by simp
  have full: "l = Full \<longleftrightarrow> F a = []" using aok(3) n by (cases l) auto
  have nofree: "l \<noteq> Free" using aok(3) n by auto
  have one: "sl_free_count s a + 1 = 1 \<longleftrightarrow> F a = []" using k1 unfolding word_unat_eq_iff [of _ 1] by simp
  have all: "sl_free_count s a + 1 = kc_objects_per_slab (ks_caches s c) \<longleftrightarrow> Suc (length (F a)) = ?n"
    using k1 unfolding word_unat_eq_iff [of "sl_free_count s a + 1"] by simp
  have "kc_pages_per_slab (ks_caches s c) = 1" using aok(1) by (simp add: cache_ok_def)
  then have "slab_of (kc_pages_per_slab (ks_caches s c)) x = a" using xa(3) by simp
  note fr = kmem_cache_free_eq [OF \<open>c \<noteq> NULL\<close> xa(4) this, folded p_def, unfolded one all]
  define s' where "s' = kmem_cache_free c x s"
  have moved: "\<exists>H'. pages_ok s' \<and> slab_lists s' (dom L) H' \<and> slabs_ok s' (dom L) H' (F(a := x # F a)) \<and> cache_slabs H' = cache_slabs H \<and>
      settled s' (dom L) H' (F(a := x # F a)) \<and> (\<forall>c. live_objs (ks_caches s' c) = live_objs (ks_caches s c))"
    if l': "s' = move_slab c l l' a p" "l \<noteq> l'" "count_ok l' ?n (length (x # F a))" "l' = Partial \<Longrightarrow> Suc (length (F a)) < ?n \<or> ?n = 1" for l'
  proof -
    have only: "lists_only p s'" unfolding l'(1) by (rule move_slab_only [OF pl c a l'(2)])
    obtain H' where H': "slab_lists s' (dom L) H'" "slabs_ok s' (dom L) H' (F(a := x # F a))" "cache_slabs H' = cache_slabs H"
        "\<And>c' k b. b \<in> set (H' (c', k)) \<Longrightarrow> b \<noteq> a \<Longrightarrow> b \<in> set (H (c', k))" "\<And>c' k. a \<in> set (H' (c', k)) \<Longrightarrow> c' = c \<and> k = l'"
        "\<And>c'. kc_objects_per_slab (ks_caches s' c') = kc_objects_per_slab (ks_caches s c')"
      by (rule move_slab_ok [OF lists ok c a l'(2,3) only l'(1) pl oth pok p_sel(1)], assumption, assumption, assumption, rule that; assumption)
    have "settled s' (dom L) H' (F(a := x # F a))"
      using H'(4-6) l'(4) by (intro settled_upd [OF st, of H' a]) auto
    then show ?thesis using H'(1-3) lists_only_eq(1,5) [OF only] p_sel pg by metis
  qed
  consider (empty) "F a = []" | (all) "F a \<noteq> []" "Suc (length (F a)) = ?n" | (some) "F a \<noteq> []" "Suc (length (F a)) \<noteq> ?n" by blast
  then have "\<exists>H'. pages_ok s' \<and> slab_lists s' (dom L) H' \<and> slabs_ok s' (dom L) H' (F(a := x # F a)) \<and> cache_slabs H' = cache_slabs H \<and>
      settled s' (dom L) H' (F(a := x # F a)) \<and> (\<forall>c. live_objs (ks_caches s' c) = live_objs (ks_caches s c))"
  proof cases
    case empty
    then show ?thesis using full n by (intro moved [of Partial]) (auto simp: s'_def fr)
  next
    case all
    then show ?thesis using full nofree by (intro moved [of Free]) (cases l; auto simp: s'_def fr)+
  next
    case some
    then have l: "l = Partial" using full nofree by (cases l) auto
    have s': "s' = p" using some by (simp add: s'_def fr)
    have "slabs_ok p (dom L) H (F(a := x # F a))"
    proof (rule slabs_ok_upd [OF ok oth, where c = c and l' = Partial])
      show "c' = c \<and> k = Partial" if "a \<in> set (H (c', k))" for c' k using slab_lists_unique [OF lists a that] l by simp
    qed (use pok slabs_ok_cache [OF ok] p_sel n in auto)
    moreover have "settled p (dom L) H (F(a := x # F a))"
      using some n slab_lists_unique [OF lists a] p_sel by (intro settled_upd [OF st, of H a]) auto
    ultimately show ?thesis using s' pl p_sel pg by auto
  qed
  then obtain H' where H': "pages_ok s'" "slab_lists s' (dom L) H'" "slabs_ok s' (dom L) H' (F(a := x # F a))"
    "cache_slabs H' = cache_slabs H" "settled s' (dom L) H' (F(a := x # F a))" "\<And>c. live_objs (ks_caches s' c) = live_objs (ks_caches s c)" by blast
  have mem: "a \<in> cache_slabs H c" using a by (auto simp: cache_slabs_mem)
  have "x \<notin> slab_objs (ks_caches s c) b" if "b \<in> cache_slabs H c" "b \<noteq> a" for b
  proof -
    obtain k where "b \<in> set (H (c, k))" using \<open>b \<in> cache_slabs H c\<close> by (auto simp: cache_slabs_mem)
    from slab_of_slab_obj(1) [OF pg slabs_okD(2,1) [OF ok c this]] show ?thesis using xa(3) that(2) by blast
  qed
  then have "x \<notin> live_objs (ks_caches s c) (cache_slabs H c - {a}) F" by (auto simp: live_objs_def)
  then have "live_objs (ks_caches s c) (cache_slabs H c) (F(a := x # F a)) = X - {x}"
    by (auto simp: X live_objs_split [OF mem] live_objs_other)
  moreover have "live_objs (ks_caches s c') (cache_slabs H c') (F(a := x # F a)) = live_objs (ks_caches s c') (cache_slabs H c') F"
    if "c' \<noteq> c" for c'
    using slab_lists_unique [OF lists a, of c'] that by (intro live_objs_other) (auto simp: cache_slabs_mem)
  ultimately have "(L(c \<mapsto> X - {x})) c' = Some (live_objs (ks_caches s' c') (cache_slabs H' c') (F(a := x # F a)))" if "c' \<in> dom L" for c'
    using H'(4,6) live [OF that] by auto
  moreover have "dom (L(c \<mapsto> X - {x})) = dom L" using c by auto
  ultimately show ?thesis unfolding kslab_inv_def s'_def [symmetric] using H'(1-3,5) by metis
qed

section \<open>Creating caches\<close>

definition cache_payloads :: "(u64 \<rightharpoonup> u64 set) \<Rightarrow> hblk list \<Rightarrow> bool" where
  "cache_payloads L xs \<longleftrightarrow> (\<forall>c\<in>dom L. \<exists>b u. c = b + 40 \<and> (b, u, False) \<in> set xs)"

lemma round_up_object:
  fixes sz :: u64
  assumes "unat sz \<le> 4048"
  defines "r \<equiv> ((if sz < 8 then 8 else sz) + 7) AND NOT 7"
  shows "8 \<le> unat r" "unat r \<le> 4048"
proof -
  let ?m = "if sz < 8 then 8 else sz"
  have m: "8 \<le> unat ?m" "unat ?m \<le> 4048" using assms(1) by (auto simp: word_less_nat_alt)
  have "unat (?m + 7) = unat ?m + 7" using m by (subst unat_add_u64) simp_all
  moreover have "(7 :: u64) = mask 3" by (simp add: mask_eq_exp_minus_1)
  ultimately have r: "unat r = unat ?m + 7 - (unat ?m + 7) mod 8"
    unfolding r_def using and_not_mask_unat [of "?m + 7" 3] by simp
  have lt: "(unat ?m + 7) mod 8 < 8" by simp
  show "8 \<le> unat r" using r m(1) lt by linarith
  have dvd: "8 dvd unat r" unfolding r by (simp add: minus_mod_eq_mult_div)
  have "unat r \<le> 4055" using r m(2) by linarith
  with dvd show "unat r \<le> 4048" by presburger
qed

lemma grow_pages_one:
  assumes "8 \<le> unat sz" and "unat sz \<le> 4048"
  shows "grow_pages 4 sz 1 = 1" and "unat ((1 * PAGE_SIZE - header_size) div sz) = 4048 div unat sz"
    and "0 < 4048 div unat sz"
proof -
  have pg: "1 * PAGE_SIZE - header_size = 4048" by (simp add: PAGE_SIZE_def)
  show eq: "unat ((1 * PAGE_SIZE - header_size) div sz) = 4048 div unat sz" unfolding pg by (simp add: unat_div)
  show pos: "0 < 4048 div unat sz" using assms by (simp add: div_greater_zero_iff)
  have "(1 * PAGE_SIZE - header_size) div sz \<noteq> 0" using eq pos by (metis less_irrefl unat_0)
  then show "grow_pages 4 sz 1 = 1" by (simp add: numeral_eq_Suc)
qed

lemma kmem_cache_init_inv:
  assumes inv: "kslab_inv s L" and c: "c \<noteq> NULL" "c \<notin> dom L" and sz: "8 \<le> unat sz" "unat sz \<le> 4048"
    and init: "kmem_cache_init c nm sz s = (r, s')"
  shows "r" and "kslab_inv s' (L(c \<mapsto> {}))" and "ks_heap s' = ks_heap s" and "cache_chain s' = c"
    and "next_cache (ks_caches s' c) = cache_chain s"
proof -
  note g = grow_pages_one [OF sz]
  define C where "C = (ks_caches s c)\<lparr>kc_name := nm, kc_object_size := sz, kc_pages_per_slab := 1,
    kc_objects_per_slab := (1 * PAGE_SIZE - header_size) div sz, slabs_partial := NULL, slabs_full := NULL,
    slabs_free := NULL, next_cache := cache_chain s\<rparr>"
  have "(1 * PAGE_SIZE - header_size) div sz \<noteq> 0" using g(2,3) by (metis less_irrefl unat_0)
  then have r: "r" and s': "s' = s\<lparr>ks_caches := (ks_caches s)(c := C), cache_chain := c\<rparr>"
    using init unfolding kmem_cache_init_def Let_def g(1) by (auto simp: C_def)
  show "r" "ks_heap s' = ks_heap s" "cache_chain s' = c" "next_cache (ks_caches s' c) = cache_chain s"
    using r by (simp_all add: s' C_def)
  obtain H F where pg: "pages_ok s" and lists: "slab_lists s (dom L) H" and ok: "slabs_ok s (dom L) H F"
    and st: "settled s (dom L) H F" and live: "\<And>c. c \<in> dom L \<Longrightarrow> L c = Some (live_objs (ks_caches s c) (cache_slabs H c) F)"
    using inv unfolding kslab_inv_def by blast
  have nil: "H (c, l) = []" for l using lists c by (simp add: slab_lists_def)
  have "cache_ok C" unfolding cache_ok_def C_def using sz g by (simp add: div_times_less_eq_dividend)
  have "slab_head l C = NULL" for l by (cases l) (simp_all add: C_def)
  then have "slab_lists s' (insert c (dom L)) H"
    using lists c nil unfolding slab_lists_def by (auto simp: s')
  moreover have same: "slab_ok s' c' a fs = slab_ok s c' a fs" if "c' \<noteq> c" for c' a fs
    using that by (simp add: slab_ok_def slab_page_def s')
  then have "slabs_ok s' (insert c (dom L)) H F"
    using ok c nil \<open>cache_ok C\<close> unfolding slabs_ok_def by (auto simp: s')
  moreover have "settled s' (insert c (dom L)) H F" using st nil by (auto simp: settled_def s')
  moreover have "pages_ok s'" using pg by (simp add: pages_ok_def s')
  moreover have "(L(c \<mapsto> {})) c' = Some (live_objs (ks_caches s' c') (cache_slabs H c') F)" if "c' \<in> insert c (dom L)" for c'
  proof (cases "c' = c")
    case True
    have "cache_slabs H c = {}" using nil by (simp add: cache_slabs_def)
    then show ?thesis using True by (simp add: live_objs_def)
  next
    case False
    then show ?thesis using that live [of c'] by (simp add: s')
  qed
  ultimately show "kslab_inv s' (L(c \<mapsto> {}))" unfolding kslab_inv_def by (simp add: exI [of _ H] exI [of _ F])
qed

section \<open>The interface of object caches\<close>

text \<open>
  What a client of a cache relies on: an object that is handed out is distinct from every live
  object of every cache, and releasing a live object makes exactly it available again.  The
  relation \<open>rep s L\<close> gives the live objects of every cache.
\<close>

locale object_cache =
  fixes alloc :: "u64 \<Rightarrow> 's \<Rightarrow> u64 \<times> 's" and free :: "u64 \<Rightarrow> u64 \<Rightarrow> 's \<Rightarrow> 's"
    and rep :: "'s \<Rightarrow> (u64 \<rightharpoonup> u64 set) \<Rightarrow> bool"
  assumes alloc_rep: "rep s L \<Longrightarrow> L c = Some X \<Longrightarrow> alloc c s = (x, s') \<Longrightarrow>
      x = NULL \<and> rep s' L \<or> x \<noteq> NULL \<and> (\<forall>c' X'. L c' = Some X' \<longrightarrow> x \<notin> X') \<and> rep s' (L(c \<mapsto> insert x X))"
    and free_rep: "rep s L \<Longrightarrow> L c = Some X \<Longrightarrow> x \<in> X \<Longrightarrow> rep (free c x s) (L(c \<mapsto> X - {x}))"
begin

text \<open>An allocation followed by the release of the object leaves the live objects as they were.\<close>

lemma alloc_free:
  assumes "rep s L" and "L c = Some X" and "alloc c s = (x, s')" and "x \<noteq> NULL"
  shows "rep (free c x s') L"
proof -
  have new: "x \<notin> X" "rep s' (L(c \<mapsto> insert x X))" using alloc_rep [OF assms(1-3)] assms(2,4) by auto
  have "rep (free c x s') (L(c \<mapsto> insert x X, c \<mapsto> insert x X - {x}))"
    by (rule free_rep [OF new(2)]) simp_all
  moreover have "L(c \<mapsto> insert x X, c \<mapsto> insert x X - {x}) = L" using new(1) assms(2) by auto
  ultimately show ?thesis by simp
qed

text \<open>Releasing a list of objects of one cache.\<close>

lemma fold_free_rep:
  "rep s L \<Longrightarrow> L c = Some X \<Longrightarrow> distinct xs \<Longrightarrow> set xs \<subseteq> X \<Longrightarrow> rep (fold (free c) xs s) (L(c \<mapsto> X - set xs))"
proof (induction xs arbitrary: s L X)
  case Nil
  then show ?case by (simp add: map_upd_triv)
next
  case (Cons x xs)
  have "rep (free c x s) (L(c \<mapsto> X - {x}))" using Cons.prems by (intro free_rep) auto
  then have "rep (fold (free c) xs (free c x s)) (L(c \<mapsto> X - {x}, c \<mapsto> X - {x} - set xs))"
    by (rule Cons.IH) (use Cons.prems in auto)
  moreover have "X - {x} - set xs = X - set (x # xs)" by auto
  ultimately show ?case by (simp only: fun_upd_upd fold_simps)
qed

end

interpretation slab: object_cache kmem_cache_alloc kmem_cache_free kslab_inv
  by unfold_locales (fact kmem_cache_alloc_inv, fact kmem_cache_free_inv)

text \<open>Clients that use caches and the heap side by side: the two do not interfere.\<close>

locale kernel_alloc = object_cache alloc free rep + heap_allocator malloc mfree hrep
  for alloc :: "u64 \<Rightarrow> 's \<Rightarrow> u64 \<times> 's" and free rep
    and malloc :: "u64 \<Rightarrow> 's \<Rightarrow> (u64 \<times> 's) option" and mfree hrep +
  assumes malloc_cache: "rep s L \<Longrightarrow> malloc n s = Some (p, s') \<Longrightarrow> rep s' L"
    and mfree_cache: "rep s L \<Longrightarrow> rep (mfree p s) L"
    and alloc_heap: "hrep s A \<Longrightarrow> alloc c s = (x, s') \<Longrightarrow> hrep s' A"
    and free_heap: "hrep s A \<Longrightarrow> hrep (free c x s) A"

definition slab_malloc :: "u64 \<Rightarrow> kslab \<Rightarrow> (u64 \<times> kslab) option" where
  "slab_malloc n s = map_option (\<lambda>(p, h). (p, s\<lparr>ks_heap := h\<rparr>)) (khmalloc (ks_heap s) n)"

definition slab_mfree :: "u64 \<Rightarrow> kslab \<Rightarrow> kslab" where
  "slab_mfree p s = s\<lparr>ks_heap := khfree (ks_heap s) p\<rparr>"

lemma kslab_inv_heap [simp]: "kslab_inv (s\<lparr>ks_heap := h\<rparr>) L \<longleftrightarrow> kslab_inv s L"
proof -
  have "slab_ok (s\<lparr>ks_heap := h\<rparr>) = slab_ok s" by (intro ext) (simp add: slab_ok_def slab_page_def)
  then show ?thesis by (simp add: kslab_inv_def pages_ok_def slab_lists_def slabs_ok_def settled_def)
qed

lemma slab_list_heap [simp]: "ks_heap (slab_list_add c l a s) = ks_heap s" "ks_heap (slab_list_remove c l a s) = ks_heap s"
  by (simp_all add: slab_list_add_def slab_list_remove_def split: prod.split)

lemma allocate_slab_page_heap: "ks_heap (snd (allocate_slab_page c s)) = ks_heap s"
  by (simp add: allocate_slab_page_def Let_def split: prod.split)

lemma slab_for_alloc_heap: "ks_heap (snd (slab_for_alloc c s)) = ks_heap s"
  using allocate_slab_page_heap [of c s] by (auto simp: slab_for_alloc_eq move_slab_def split: prod.split)

lemma kmem_cache_alloc_heap: "ks_heap (snd (kmem_cache_alloc c s)) = ks_heap s"
  using slab_for_alloc_heap [of c s] by (auto simp: kmem_cache_alloc_def Let_def split: prod.split)

lemma kmem_cache_free_heap: "ks_heap (kmem_cache_free c x s) = ks_heap s"
  by (simp add: kmem_cache_free_def Let_def)

interpretation kern: kernel_alloc kmem_cache_alloc kmem_cache_free kslab_inv slab_malloc slab_mfree "\<lambda>s. heap_blocks (ks_heap s)"
proof (unfold_locales, goal_cases)
  case (1 s A n)
  then show ?case using heap.malloc_rep [of "ks_heap s" A n] by (auto simp: slab_malloc_def)
next
  case (2 s A p)
  then show ?case using heap.mfree_rep [of "ks_heap s" A p] by (simp add: slab_mfree_def)
next
  case (3 s L n p s')
  then show ?case by (auto simp: slab_malloc_def)
next
  case (4 s L p)
  then show ?case by (simp add: slab_mfree_def)
next
  case (5 s A c x s')
  then show ?case using kmem_cache_alloc_heap [of c s] by simp
next
  case (6 s A c x)
  then show ?case by (simp add: kmem_cache_free_heap)
qed

section \<open>A concrete allocator\<close>

text \<open>A machine with one cache of 64-byte objects and no slab yet.\<close>

definition kslab_example :: kslab where
  "kslab_example = \<lparr>ks_caches = (\<lambda>_. \<lparr>kc_name = 0, kc_object_size = 64, kc_objects_per_slab = 63,
       kc_pages_per_slab = 1, slabs_partial = 0, slabs_full = 0, slabs_free = 0, next_cache = 0\<rparr>),
     sl_free_list = (\<lambda>_. 0), sl_free_count = (\<lambda>_. 0), sl_cache = (\<lambda>_. 0),
     sl_links = \<lparr>lk_next = (\<lambda>_. 0), lk_prev = (\<lambda>_. 0)\<rparr>, sl_magic = (\<lambda>_. 0), ks_obj_next = (\<lambda>_. 0),
     cache_chain = 65576, ks_heap = kheap_example, ks_pmm = pmm_example, ks_mem = pmm_example_memory\<rparr>"

lemma kslab_example_inv:
  assumes "NULL \<notin> dom L" and "\<And>c X. L c = Some X \<Longrightarrow> X = {}"
  shows "kslab_inv kslab_example L"
proof -
  have "pages_ok kslab_example"
    using pmm_example_inv by (simp add: pages_ok_def kslab_example_def pmm_example_def pmm_boot_def)
  moreover have "slab_lists kslab_example (dom L) (\<lambda>_. [])"
  proof -
    have "slab_head l (ks_caches kslab_example c) = NULL" for l c
      by (cases l) (simp_all add: kslab_example_def)
    then show ?thesis using assms(1) by (simp add: slab_lists_def dlls_def)
  qed
  moreover have "slabs_ok kslab_example (dom L) (\<lambda>_. []) (\<lambda>_. [])"
    by (simp add: slabs_ok_def cache_ok_def kslab_example_def)
  moreover have "settled kslab_example (dom L) (\<lambda>_. []) (\<lambda>_. [])" by (simp add: settled_def)
  moreover have "live_objs C (cache_slabs (\<lambda>_. []) c) F = {}" for C c F
    by (simp add: live_objs_def cache_slabs_def)
  ultimately show ?thesis
    using assms(2) unfolding kslab_inv_def by (intro conjI exI [of _ "\<lambda>_. []"]) auto
qed

lemma kslab_example_one: "kslab_inv kslab_example [65576 \<mapsto> {}]"
  by (rule kslab_example_inv) (auto split: if_splits)

lemma kslab_example_alloc: "fst (kmem_cache_alloc 65576 kslab_example) \<noteq> NULL"
  by code_simp

section \<open>Properties\<close>

text \<open>C25: \<open>kmem_cache_alloc\<close> on a well-formed slab allocator either returns \<open>NULL\<close> with every live
  object kept, or an object that is live in no cache and becomes live in this one; in both
  cases the allocator is well-formed again: slabs on the list that their number of free objects
  demands, free chains inside their slabs, pages owned by the allocator.\<close>

theorem kmem_cache_alloc_correct:
  assumes "kslab_inv s L" and "L c = Some X" and "kmem_cache_alloc c s = (x, s')"
  shows "x = NULL \<and> kslab_inv s' L \<or>
    x \<noteq> NULL \<and> (\<forall>c' X'. L c' = Some X' \<longrightarrow> x \<notin> X') \<and> kslab_inv s' (L(c \<mapsto> insert x X))"
  using assms by (rule slab.alloc_rep)

theorem kmem_cache_alloc_correct_witness:
  "\<exists>x s'. kmem_cache_alloc 65576 kslab_example = (x, s') \<and> x \<noteq> NULL \<and> kslab_inv s' [65576 \<mapsto> {x}]"
proof -
  obtain x s' where x: "kmem_cache_alloc 65576 kslab_example = (x, s')" by fastforce
  then have "x \<noteq> NULL" using kslab_example_alloc by simp
  then show ?thesis using kmem_cache_alloc_correct [OF kslab_example_one _ x, of "{}"] x by auto
qed



text \<open>\<open>kmem_cache_create\<close> for objects of up to 4048 bytes always returns; it fails only when the
  heap has no room for the cache structure, and otherwise gives a new cache without live
  objects, with every live object of the other caches kept.\<close>

theorem kmem_cache_create_correct:
  assumes inv: "kslab_inv s L" and heap: "kheap_inv (ks_heap s) xs" "cache_payloads L xs" and sz: "unat sz \<le> 4048"
  shows "\<exists>c s'. kmem_cache_create nm sz s = Some (c, s') \<and>
    (c = NULL \<and> kslab_inv s' L \<or>
     c \<noteq> NULL \<and> c \<notin> dom L \<and> cache_chain s' = c \<and> next_cache (ks_caches s' c) = cache_chain s \<and>
     kslab_inv s' (L(c \<mapsto> {})) \<and> (\<exists>xs'. kheap_inv (ks_heap s') xs' \<and> cache_payloads (L(c \<mapsto> {})) xs'))"
proof -
  let ?sz = "((if sz < 8 then 8 else sz) + 7) AND NOT 7"
  note r = round_up_object [OF sz]
  have "?sz \<noteq> 0" using r(1) by (metis not_numeral_le_zero unat_0)
  have keep: "kslab_inv (s\<lparr>ks_heap := h\<rparr>) L" for h using inv by (simp add: kslab_inv_heap)
  have nz: "(64 :: u64) \<noteq> 0" "unat (64 :: u64) < 2 ^ 64 - 16" by simp_all
  consider (fail) "khmalloc (ks_heap s) 64 = Some (NULL, ks_heap s)"
    | (ok) b u h xs' where "khmalloc (ks_heap s) 64 = Some (b + 40, h)" "kheap_inv h xs'" "(b, u, False) \<in> set xs'"
      "unat b + 40 + unat (64 :: u64) \<le> unat b + 32 + unat u" "\<exists>t. (b, t, True) \<in> set xs"
      "\<forall>c v. (c, v, False) \<in> set xs \<longrightarrow> (c, v, False) \<in> set xs' \<and> (unat b + 32 + unat u \<le> unat c \<or> unat c + 32 + unat v \<le> unat b)"
    using khmalloc_block [OF heap(1), of 64, OF nz] by blast
  then show ?thesis
  proof cases
    case fail
    then show ?thesis using keep [of "ks_heap s"] by (simp add: kmem_cache_create_def KMEM_CACHE_T_SIZE_def)
  next
    case ok
    have "b + 40 \<noteq> NULL" using ok(4) by (intro kheap_payload_not_NULL [OF ok(2,3)]) simp
    have "b + 40 \<notin> dom L"
    proof
      assume "b + 40 \<in> dom L"
      then obtain c v where "b + 40 = c + 40" "(c, v, False) \<in> set xs" using heap(2) unfolding cache_payloads_def by blast
      then show False using ok(6) by fastforce
    qed
    obtain q t where init: "kmem_cache_init (b + 40) nm ?sz (s\<lparr>ks_heap := h\<rparr>) = (q, t)" by fastforce
    note t = kmem_cache_init_inv [OF keep \<open>b + 40 \<noteq> NULL\<close> \<open>b + 40 \<notin> dom L\<close> r init]
    have "kmem_cache_create nm sz s = Some (b + 40, t)"
      using ok(1) \<open>b + 40 \<noteq> NULL\<close> \<open>?sz \<noteq> 0\<close> init by (simp add: kmem_cache_create_def KMEM_CACHE_T_SIZE_def Let_def)
    moreover have "cache_payloads (L(b + 40 \<mapsto> {})) xs'"
      using heap(2) ok(3,6) unfolding cache_payloads_def by auto blast
    ultimately show ?thesis using t(2-5) ok(2) \<open>b + 40 \<noteq> NULL\<close> \<open>b + 40 \<notin> dom L\<close> by auto
  qed
qed

theorem kmem_cache_create_correct_witness:
  "\<exists>c s'. kmem_cache_create 0 100 kslab_example = Some (c, s') \<and>
    (c = NULL \<and> kslab_inv s' [65576 \<mapsto> {}] \<or> c \<noteq> NULL \<and> kslab_inv s' [65576 \<mapsto> {}, c \<mapsto> {}])"
proof -
  have heap: "kheap_inv (ks_heap kslab_example) [(65536, 40, False), (65608, 3992, True)]"
    using kheap_example_inv by (simp add: kslab_example_def)
  have pay: "cache_payloads [65576 \<mapsto> {}] [(65536, 40, False), (65608, 3992, True)]"
    unfolding cache_payloads_def by (auto intro!: exI [of _ 65536])
  show ?thesis using kmem_cache_create_correct [OF kslab_example_one heap pay, of 100 0] by auto
qed

end
