(* ===== verification/Klist.thy ===== *)
theory Klist
  imports Kslab
begin

text \<open>
  \<open>krnl/util/list.c\<close>, the doubly linked list of the kernel.  Nodes and list objects come from two
  object caches; the cache operations are arguments of the definitions (\<open>ca\<close> is
  \<open>kmem_cache_alloc\<close>, \<open>cf\<close> is \<open>kmem_cache_free\<close>, \<open>cc\<close> is \<open>kmem_cache_create\<close>), and what the proofs
  need of them is the locale \<open>object_cache\<close>.  \<open>lists_inv\<close> relates the state to the sequence of
  nodes of every list; with it each operation is the one on sequences that its name promises.
\<close>

section \<open>State and operations\<close>

record list_t =
  l_head :: u64
  l_tail :: u64
  l_size :: u32

record 'c lists =
  ls_links :: links
  ls_value :: "u64 \<Rightarrow> u64"
  ls_lists :: "u64 \<Rightarrow> list_t"
  list_mem_node_cache :: u64
  list_mem_cache :: u64
  ls_slab :: 'c

type_synonym 'c cache_alloc = "u64 \<Rightarrow> 'c \<Rightarrow> u64 \<times> 'c"
type_synonym 'c cache_free = "u64 \<Rightarrow> u64 \<Rightarrow> 'c \<Rightarrow> 'c"
type_synonym 'c cache_create = "string \<Rightarrow> u64 \<Rightarrow> 'c \<Rightarrow> (u64 \<times> 'c) option"

definition node_alloc :: "'c cache_alloc \<Rightarrow> u64 \<Rightarrow> 'c lists \<Rightarrow> u64 \<times> 'c lists" where
  "node_alloc ca val s =
     (let (n, c) = ca (list_mem_node_cache s) (ls_slab s);
          s = s\<lparr>ls_slab := c\<rparr>
      in if n = NULL then (NULL, s)
         else (n, s\<lparr>ls_links := set_next n NULL (set_prev n NULL (ls_links s)),
                     ls_value := (ls_value s)(n := val)\<rparr>))"

definition node_free :: "'c cache_free \<Rightarrow> u64 \<Rightarrow> 'c lists \<Rightarrow> 'c lists" where
  "node_free cf n s = s\<lparr>ls_slab := cf (list_mem_node_cache s) n (ls_slab s)\<rparr>"

definition upd_list :: "u64 \<Rightarrow> (list_t \<Rightarrow> list_t) \<Rightarrow> 'c lists \<Rightarrow> 'c lists" where
  "upd_list l f s = s\<lparr>ls_lists := (ls_lists s)(l := f (ls_lists s l))\<rparr>"

definition node_link :: "u64 \<Rightarrow> u64 \<Rightarrow> u64 \<Rightarrow> u64 \<Rightarrow> 'c lists \<Rightarrow> 'c lists" where
  "node_link list prev node nx s =
     (let s = s\<lparr>ls_links := set_next node nx (set_prev node prev (ls_links s))\<rparr>;
          s = (if prev \<noteq> NULL then s\<lparr>ls_links := set_next prev node (ls_links s)\<rparr>
               else upd_list list (\<lambda>t. t\<lparr>l_head := node\<rparr>) s);
          s = (if nx \<noteq> NULL then s\<lparr>ls_links := set_prev nx node (ls_links s)\<rparr>
               else upd_list list (\<lambda>t. t\<lparr>l_tail := node\<rparr>) s)
      in upd_list list (\<lambda>t. t\<lparr>l_size := l_size t + 1\<rparr>) s)"

definition node_unlink :: "u64 \<Rightarrow> u64 \<Rightarrow> 'c lists \<Rightarrow> 'c lists" where
  "node_unlink list node s =
     (let prev = lk_prev (ls_links s) node;
          nx = lk_next (ls_links s) node;
          s = (if prev \<noteq> NULL then s\<lparr>ls_links := set_next prev nx (ls_links s)\<rparr>
               else upd_list list (\<lambda>t. t\<lparr>l_head := nx\<rparr>) s);
          nx = lk_next (ls_links s) node;
          prev = lk_prev (ls_links s) node;
          s = (if nx \<noteq> NULL then s\<lparr>ls_links := set_prev nx prev (ls_links s)\<rparr>
               else upd_list list (\<lambda>t. t\<lparr>l_tail := prev\<rparr>) s);
          s = s\<lparr>ls_links := set_next node NULL (set_prev node NULL (ls_links s))\<rparr>
      in upd_list list (\<lambda>t. t\<lparr>l_size := l_size t - 1\<rparr>) s)"

text \<open>\<open>sizeof(list_node_t)\<close> and \<open>sizeof(list_t)\<close>.\<close>

definition LIST_NODE_SIZE :: u64 where "LIST_NODE_SIZE = 24"
definition LIST_T_SIZE :: u64 where "LIST_T_SIZE = 24"

definition list_create :: "'c cache_create \<Rightarrow> 'c cache_alloc \<Rightarrow> 'c lists \<Rightarrow> (u64 \<times> 'c lists) option" where
  "list_create cc ca s =
     Option.bind
       (if list_mem_node_cache s = NULL
        then map_option (\<lambda>(k, c). s\<lparr>list_mem_node_cache := k, ls_slab := c\<rparr>) (cc ''list_node_cache'' LIST_NODE_SIZE (ls_slab s))
        else Some s) (\<lambda>s.
     if list_mem_node_cache s = NULL then Some (NULL, s)
     else Option.bind
       (if list_mem_cache s = NULL
        then map_option (\<lambda>(k, c). s\<lparr>list_mem_cache := k, ls_slab := c\<rparr>) (cc ''list_cache'' LIST_T_SIZE (ls_slab s))
        else Some s) (\<lambda>s.
     if list_mem_cache s = NULL then Some (NULL, s)
     else
       let (list, c) = ca (list_mem_cache s) (ls_slab s);
           s = s\<lparr>ls_slab := c\<rparr>
       in if list = NULL then Some (NULL, s)
          else Some (list, upd_list list (\<lambda>t. t\<lparr>l_head := NULL, l_tail := NULL, l_size := 0\<rparr>) s)))"

partial_function (option) clear_loop :: "'c cache_free \<Rightarrow> u64 \<Rightarrow> 'c lists \<Rightarrow> 'c lists option" where
  "clear_loop cf cur s =
     (if cur = NULL then Some s
      else clear_loop cf (lk_next (ls_links s) cur) (node_free cf cur s))"

definition list_clear :: "'c cache_free \<Rightarrow> u64 \<Rightarrow> 'c lists \<Rightarrow> 'c lists option" where
  "list_clear cf list s =
     map_option (upd_list list (\<lambda>t. t\<lparr>l_head := NULL, l_tail := NULL, l_size := 0\<rparr>))
       (clear_loop cf (l_head (ls_lists s list)) s)"

definition list_destroy :: "'c cache_free \<Rightarrow> u64 \<Rightarrow> 'c lists \<Rightarrow> 'c lists option" where
  "list_destroy cf list s =
     map_option (\<lambda>s. s\<lparr>ls_slab := cf (list_mem_cache s) list (ls_slab s)\<rparr>) (list_clear cf list s)"

definition list_push_front :: "'c cache_alloc \<Rightarrow> u64 \<Rightarrow> u64 \<Rightarrow> 'c lists \<Rightarrow> u64 \<times> 'c lists" where
  "list_push_front ca list val s =
     (let (n, s) = node_alloc ca val s
      in if n = NULL then (NULL, s) else (n, node_link list NULL n (l_head (ls_lists s list)) s))"

definition list_push_back :: "'c cache_alloc \<Rightarrow> u64 \<Rightarrow> u64 \<Rightarrow> 'c lists \<Rightarrow> u64 \<times> 'c lists" where
  "list_push_back ca list val s =
     (let (n, s) = node_alloc ca val s
      in if n = NULL then (NULL, s) else (n, node_link list (l_tail (ls_lists s list)) n NULL s))"

definition list_insert_before :: "'c cache_alloc \<Rightarrow> u64 \<Rightarrow> u64 \<Rightarrow> u64 \<Rightarrow> 'c lists \<Rightarrow> u64 \<times> 'c lists" where
  "list_insert_before ca list anchor val s =
     (if anchor = NULL then list_push_back ca list val s
      else
        let (n, s) = node_alloc ca val s
        in if n = NULL then (NULL, s) else (n, node_link list (lk_prev (ls_links s) anchor) n anchor s))"

definition list_insert_after :: "'c cache_alloc \<Rightarrow> u64 \<Rightarrow> u64 \<Rightarrow> u64 \<Rightarrow> 'c lists \<Rightarrow> u64 \<times> 'c lists" where
  "list_insert_after ca list anchor val s =
     (if anchor = NULL then list_push_front ca list val s
      else
        let (n, s) = node_alloc ca val s
        in if n = NULL then (NULL, s) else (n, node_link list anchor n (lk_next (ls_links s) anchor) s))"

definition list_pop_front :: "'c cache_free \<Rightarrow> u64 \<Rightarrow> 'c lists \<Rightarrow> u64 \<times> 'c lists" where
  "list_pop_front cf list s =
     (let n = l_head (ls_lists s list)
      in if n = NULL then (NULL, s)
         else (ls_value s n, node_free cf n (node_unlink list n s)))"

definition list_pop_back :: "'c cache_free \<Rightarrow> u64 \<Rightarrow> 'c lists \<Rightarrow> u64 \<times> 'c lists" where
  "list_pop_back cf list s =
     (let n = l_tail (ls_lists s list)
      in if n = NULL then (NULL, s)
         else (ls_value s n, node_free cf n (node_unlink list n s)))"

definition list_remove :: "'c cache_free \<Rightarrow> u64 \<Rightarrow> u64 \<Rightarrow> 'c lists \<Rightarrow> 'c lists" where
  "list_remove cf list node s = node_free cf node (node_unlink list node s)"

text \<open>The predicates passed to the search and removal operations look at a value only.\<close>

partial_function (option) remove_if_loop ::
  "'c cache_free \<Rightarrow> (u64 \<Rightarrow> bool) \<Rightarrow> u64 \<Rightarrow> u64 \<Rightarrow> 'c lists \<Rightarrow> (u64 \<times> 'c lists) option" where
  "remove_if_loop cf pr list cur s =
     (if cur = NULL then Some (NULL, s)
      else
        let nx = lk_next (ls_links s) cur
        in if pr (ls_value s cur) then Some (ls_value s cur, node_free cf cur (node_unlink list cur s))
           else remove_if_loop cf pr list nx s)"

definition list_remove_if :: "'c cache_free \<Rightarrow> u64 \<Rightarrow> (u64 \<Rightarrow> bool) \<Rightarrow> 'c lists \<Rightarrow> (u64 \<times> 'c lists) option" where
  "list_remove_if cf list pr s = remove_if_loop cf pr list (l_head (ls_lists s list)) s"

partial_function (option) remove_all_loop ::
  "'c cache_free \<Rightarrow> (u64 \<Rightarrow> bool) \<Rightarrow> u64 \<Rightarrow> u64 \<Rightarrow> u32 \<Rightarrow> 'c lists \<Rightarrow> (u32 \<times> 'c lists) option" where
  "remove_all_loop cf pr list cur cnt s =
     (if cur = NULL then Some (cnt, s)
      else
        let nx = lk_next (ls_links s) cur
        in if pr (ls_value s cur) then remove_all_loop cf pr list nx (cnt + 1) (node_free cf cur (node_unlink list cur s))
           else remove_all_loop cf pr list nx cnt s)"

definition list_remove_all :: "'c cache_free \<Rightarrow> u64 \<Rightarrow> (u64 \<Rightarrow> bool) \<Rightarrow> 'c lists \<Rightarrow> (u32 \<times> 'c lists) option" where
  "list_remove_all cf list pr s = remove_all_loop cf pr list (l_head (ls_lists s list)) 0 s"

definition list_front :: "u64 \<Rightarrow> 'c lists \<Rightarrow> u64" where "list_front list s = l_head (ls_lists s list)"
definition list_back :: "u64 \<Rightarrow> 'c lists \<Rightarrow> u64" where "list_back list s = l_tail (ls_lists s list)"

definition list_at :: "u64 \<Rightarrow> u32 \<Rightarrow> 'c lists \<Rightarrow> u64" where
  "list_at list index s =
     (let sz = l_size (ls_lists s list)
      in if sz \<le> index then NULL
         else if index < sz div 2 then (lk_next (ls_links s) ^^ unat index) (l_head (ls_lists s list))
         else (lk_prev (ls_links s) ^^ (unat (sz - 1) - unat index)) (l_tail (ls_lists s list)))"

partial_function (option) find_loop :: "(u64 \<Rightarrow> bool) \<Rightarrow> u64 \<Rightarrow> 'c lists \<Rightarrow> u64 option" where
  "find_loop pr cur s =
     (if cur = NULL then Some NULL
      else if pr (ls_value s cur) then Some cur
      else find_loop pr (lk_next (ls_links s) cur) s)"

definition list_find :: "u64 \<Rightarrow> (u64 \<Rightarrow> bool) \<Rightarrow> 'c lists \<Rightarrow> u64 option" where
  "list_find list pr s = find_loop pr (l_head (ls_lists s list)) s"

definition list_empty :: "u64 \<Rightarrow> 'c lists \<Rightarrow> bool" where "list_empty list s \<longleftrightarrow> l_size (ls_lists s list) = 0"
definition list_size :: "u64 \<Rightarrow> 'c lists \<Rightarrow> u32" where "list_size list s = l_size (ls_lists s list)"

text \<open>The callback gets the node and may change the state; a result of true stops the traversal.\<close>

partial_function (option) foreach_loop ::
  "(links \<Rightarrow> u64 \<Rightarrow> u64) \<Rightarrow> (u64 \<Rightarrow> 'c lists \<Rightarrow> bool \<times> 'c lists) \<Rightarrow> u64 \<Rightarrow> 'c lists \<Rightarrow> 'c lists option" where
  "foreach_loop step fn cur s =
     (if cur = NULL then Some s
      else
        let nx = step (ls_links s) cur;
            (stop, s) = fn cur s
        in if stop then Some s else foreach_loop step fn nx s)"

definition list_foreach_cb :: "u64 \<Rightarrow> (u64 \<Rightarrow> 'c lists \<Rightarrow> bool \<times> 'c lists) \<Rightarrow> 'c lists \<Rightarrow> 'c lists option" where
  "list_foreach_cb list fn s = foreach_loop lk_next fn (l_head (ls_lists s list)) s"

definition list_foreach_rev_cb :: "u64 \<Rightarrow> (u64 \<Rightarrow> 'c lists \<Rightarrow> bool \<times> 'c lists) \<Rightarrow> 'c lists \<Rightarrow> 'c lists option" where
  "list_foreach_rev_cb list fn s = foreach_loop lk_prev fn (l_tail (ls_lists s list)) s"

definition list_splice_back :: "u64 \<Rightarrow> u64 \<Rightarrow> 'c lists \<Rightarrow> 'c lists" where
  "list_splice_back dst src s =
     (if l_head (ls_lists s src) = NULL then s
      else
        let s = (if l_tail (ls_lists s dst) = NULL
                 then upd_list dst (\<lambda>t. t\<lparr>l_head := l_head (ls_lists s src), l_tail := l_tail (ls_lists s src)\<rparr>) s
                 else
                   let s = s\<lparr>ls_links := set_next (l_tail (ls_lists s dst)) (l_head (ls_lists s src)) (ls_links s)\<rparr>;
                       s = s\<lparr>ls_links := set_prev (l_head (ls_lists s src)) (l_tail (ls_lists s dst)) (ls_links s)\<rparr>
                   in upd_list dst (\<lambda>t. t\<lparr>l_tail := l_tail (ls_lists s src)\<rparr>) s);
            s = upd_list dst (\<lambda>t. t\<lparr>l_size := l_size t + l_size (ls_lists s src)\<rparr>) s
        in upd_list src (\<lambda>t. t\<lparr>l_head := NULL, l_tail := NULL, l_size := 0\<rparr>) s)"

partial_function (option) reverse_links :: "u64 \<Rightarrow> links \<Rightarrow> links option" where
  "reverse_links cur k =
     (if cur = NULL then Some k
      else
        let tmp = lk_next k cur;
            k = set_next cur (lk_prev k cur) k;
            k = set_prev cur tmp k
        in reverse_links tmp k)"

definition list_reverse :: "u64 \<Rightarrow> 'c lists \<Rightarrow> 'c lists option" where
  "list_reverse list s =
     map_option (\<lambda>k. let s = s\<lparr>ls_links := k\<rparr>; tmp = l_head (ls_lists s list)
        in upd_list list (\<lambda>t. t\<lparr>l_head := l_tail t, l_tail := tmp\<rparr>) s)
       (reverse_links (l_head (ls_lists s list)) (ls_links s))"

section \<open>Lists as sequences of nodes\<close>

definition nodes :: "(u64 \<rightharpoonup> u64 list) \<Rightarrow> u64 \<Rightarrow> u64 list" where
  "nodes H l = (case H l of None \<Rightarrow> [] | Some xs \<Rightarrow> xs)"

definition all_nodes :: "(u64 \<rightharpoonup> u64 list) \<Rightarrow> u64 set" where
  "all_nodes H = (\<Union>l. set (nodes H l))"

definition list_ok :: "list_t \<Rightarrow> u64 list \<Rightarrow> bool" where
  "list_ok t xs \<longleftrightarrow> l_head t = head_of xs NULL \<and> l_tail t = last_of NULL xs \<and> l_size t = of_nat (length xs)"

definition lists_rep :: "'c lists \<Rightarrow> (u64 \<rightharpoonup> u64 list) \<Rightarrow> bool" where
  "lists_rep s H \<longleftrightarrow> dlls (ls_links s) (nodes H) \<and> (\<forall>l xs. H l = Some xs \<longrightarrow> list_ok (ls_lists s l) xs)"

text \<open>The live objects of the node cache are the nodes of the lists, those of the list cache the
  lists themselves.\<close>

definition lists_inv :: "('c \<Rightarrow> (u64 \<rightharpoonup> u64 set) \<Rightarrow> bool) \<Rightarrow> 'c lists \<Rightarrow> (u64 \<rightharpoonup> u64 list) \<Rightarrow> (u64 \<rightharpoonup> u64 set) \<Rightarrow> bool" where
  "lists_inv rep s H L \<longleftrightarrow> rep (ls_slab s) L \<and> lists_rep s H \<and> list_mem_node_cache s \<noteq> list_mem_cache s \<and>
     L (list_mem_node_cache s) = Some (all_nodes H) \<and> L (list_mem_cache s) = Some (dom H)"

lemma nodes_upd [simp]: "nodes (H(l \<mapsto> xs)) = (nodes H)(l := xs)"
  by (intro ext) (simp add: nodes_def)

lemma nodes_Some: "H l = Some xs \<Longrightarrow> nodes H l = xs"
  by (simp add: nodes_def)

lemma all_nodes_notin: "n \<notin> all_nodes H \<Longrightarrow> n \<notin> set (nodes H l)"
  by (auto simp: all_nodes_def)

lemma nodes_subset: "H l = Some xs \<Longrightarrow> set xs \<subseteq> all_nodes H"
  using nodes_Some [of H l xs] by (auto simp: all_nodes_def)

lemma all_nodes_upd:
  assumes "dlls k (nodes H)" and "H l = Some xs"
  shows "all_nodes (H(l \<mapsto> ys)) = all_nodes H - set xs \<union> set ys"
proof -
  have "set xs \<inter> set (nodes H j) = {}" if "j \<noteq> l" for j
    using dllsD(2) [OF assms(1) that] nodes_Some [of H l, OF assms(2)] by auto
  then have "x \<notin> set (nodes H j)" if "j \<noteq> l" "x \<in> set xs" for j x using that by blast
  then show ?thesis
    using nodes_Some [of H l, OF assms(2)] unfolding all_nodes_def nodes_upd
    by (intro set_eqI) (simp split: if_splits, metis)
qed

lemma lists_repD:
  assumes "lists_rep s H" and "H l = Some xs"
  shows "dll (ls_links s) xs" "l_head (ls_lists s l) = head_of xs NULL" "l_tail (ls_lists s l) = last_of NULL xs"
    "l_size (ls_lists s l) = of_nat (length xs)" "l_head (ls_lists s l) = NULL \<longleftrightarrow> xs = []" "l_tail (ls_lists s l) = NULL \<longleftrightarrow> xs = []"
proof -
  have k: "dlls (ls_links s) (nodes H)" and ok: "list_ok (ls_lists s l) xs" using assms by (auto simp: lists_rep_def)
  show dl: "dll (ls_links s) xs" using dllsD(1) [OF k, of l] nodes_Some [of H l, OF assms(2)] by simp
  show h: "l_head (ls_lists s l) = head_of xs NULL" "l_tail (ls_lists s l) = last_of NULL xs"
    "l_size (ls_lists s l) = of_nat (length xs)" using ok by (simp_all add: list_ok_def)
  show "l_head (ls_lists s l) = NULL \<longleftrightarrow> xs = []" "l_tail (ls_lists s l) = NULL \<longleftrightarrow> xs = []"
    unfolding h using dl dseg_head_NULL dseg_last_NULL by auto
qed

lemma lists_rep_upd:
  assumes "lists_rep s H" and "dlls k' ((nodes H)(l := ys))" and "ls_links s' = k'"
    and "ls_lists s' = (ls_lists s)(l := t)" and "list_ok t ys"
  shows "lists_rep s' (H(l \<mapsto> ys))"
  using assms by (auto simp: lists_rep_def)

lemma node_link_eq:
  "node_link l p n q s = s\<lparr>ls_links := join_links p n q n (set_next n q (set_prev n p (ls_links s))),
     ls_lists := (ls_lists s)(l := (ls_lists s l)\<lparr>l_head := (if p = NULL then n else l_head (ls_lists s l)),
       l_tail := (if q = NULL then n else l_tail (ls_lists s l)), l_size := l_size (ls_lists s l) + 1\<rparr>)\<rparr>"
  by (simp add: node_link_def join_links_def upd_list_def Let_def)

lemma node_unlink_eq:
  assumes "lk_prev (ls_links s) x \<noteq> x" and "lk_next (ls_links s) x \<noteq> x"
  shows "node_unlink l x s = (let p = lk_prev (ls_links s) x; q = lk_next (ls_links s) x in
    s\<lparr>ls_links := set_next x NULL (set_prev x NULL (join_links p q q p (ls_links s))),
      ls_lists := (ls_lists s)(l := (ls_lists s l)\<lparr>l_head := (if p = NULL then q else l_head (ls_lists s l)),
        l_tail := (if q = NULL then p else l_tail (ls_lists s l)), l_size := l_size (ls_lists s l) - 1\<rparr>)\<rparr>)"
  using assms by (simp add: node_unlink_def join_links_def upd_list_def Let_def)

lemma node_link_rep:
  assumes rep: "lists_rep s H" and H: "H l = Some (xs @ ys)" and n: "n \<noteq> NULL" "n \<notin> all_nodes H"
  shows "lists_rep (node_link l (last_of NULL xs) n (head_of ys NULL) s) (H(l \<mapsto> xs @ n # ys))"
proof (rule lists_rep_upd [OF rep])
  have k: "dlls (ls_links s) (nodes H)" using rep by (simp add: lists_rep_def)
  show "dlls (join_links (last_of NULL xs) n (head_of ys NULL) n (set_next n (head_of ys NULL) (set_prev n (last_of NULL xs) (ls_links s))))
      ((nodes H)(l := xs @ n # ys))"
    by (rule dlls_link [OF k nodes_Some [of H l, OF H] n(1) all_nodes_notin [OF n(2)]])
  note d = lists_repD [OF rep H]
  have "last_of NULL xs = NULL \<longleftrightarrow> xs = []" "head_of ys NULL = NULL \<longleftrightarrow> ys = []"
    using d(1) dseg_last_NULL [of "ls_links s" xs] dseg_head_NULL [of "ls_links s" _ ys] by auto
  then show "list_ok ((ls_lists s l)\<lparr>l_head := (if last_of NULL xs = NULL then n else l_head (ls_lists s l)),
       l_tail := (if head_of ys NULL = NULL then n else l_tail (ls_lists s l)), l_size := l_size (ls_lists s l) + 1\<rparr>) (xs @ n # ys)"
    using d by (cases xs; cases ys) (auto simp: list_ok_def)
qed (simp_all add: node_link_eq)

lemma node_unlink_rep:
  assumes rep: "lists_rep s H" and H: "H l = Some (xs @ x # ys)"
  shows "lists_rep (node_unlink l x s) (H(l \<mapsto> xs @ ys))"
    and "ls_slab (node_unlink l x s) = ls_slab s" "list_mem_node_cache (node_unlink l x s) = list_mem_node_cache s"
      "list_mem_cache (node_unlink l x s) = list_mem_cache s" "ls_value (node_unlink l x s) = ls_value s"
proof -
  let ?k = "ls_links s"
  have k: "dlls ?k (nodes H)" using rep by (simp add: lists_rep_def)
  note d = lists_repD [OF rep H]
  have nb: "lk_prev ?k x = last_of NULL xs" "lk_next ?k x = head_of ys NULL" using d(1) by auto
  have ne: "lk_prev ?k x \<noteq> x" "lk_next ?k x \<noteq> x"
    unfolding nb using d(1) last_of_in [of NULL xs] head_of_in [of ys NULL] by auto
  note eq = node_unlink_eq [OF ne, of l, unfolded Let_def nb]
  show "lists_rep (node_unlink l x s) (H(l \<mapsto> xs @ ys))"
  proof (rule lists_rep_upd [OF rep])
    let ?j = "join_links (last_of NULL xs) (head_of ys NULL) (head_of ys NULL) (last_of NULL xs) ?k"
    have "dlls ?j ((nodes H)(l := xs @ ys))" using dlls_unlink [OF k nodes_Some [of H l, OF H]] unfolding nb .
    moreover have "x \<notin> set (((nodes H)(l := xs @ ys)) j)" for j
      using dllsD(2) [OF k, of l j] d(1) nodes_Some [of H l, OF H] by auto
    ultimately show "dlls (set_next x NULL (set_prev x NULL ?j)) ((nodes H)(l := xs @ ys))"
      by (intro dlls_set_other)
    have "last_of NULL xs = NULL \<longleftrightarrow> xs = []" "head_of ys NULL = NULL \<longleftrightarrow> ys = []"
      using d(1) dseg_last_NULL [of ?k xs] dseg_head_NULL [of ?k _ ys] by auto
    then show "list_ok ((ls_lists s l)\<lparr>l_head := (if last_of NULL xs = NULL then head_of ys NULL else l_head (ls_lists s l)),
        l_tail := (if head_of ys NULL = NULL then last_of NULL xs else l_tail (ls_lists s l)), l_size := l_size (ls_lists s l) - 1\<rparr>) (xs @ ys)"
      using d by (cases xs; cases ys) (auto simp: list_ok_def)
  qed (simp_all add: eq)
qed (simp_all add: node_unlink_def upd_list_def Let_def)

section \<open>Operations over any object cache\<close>

context object_cache
begin

lemma node_alloc_inv:
  assumes inv: "lists_inv rep s H L" and al: "node_alloc alloc v s = (n, s')"
  shows "n = NULL \<and> lists_inv rep s' H L \<and> ls_value s' = ls_value s \<or>
    n \<noteq> NULL \<and> n \<notin> all_nodes H \<and> lists_rep s' H \<and> rep (ls_slab s') (L(list_mem_node_cache s \<mapsto> insert n (all_nodes H))) \<and>
    list_mem_node_cache s' = list_mem_node_cache s \<and> list_mem_cache s' = list_mem_cache s \<and>
    ls_lists s' = ls_lists s \<and> ls_value s' = (ls_value s)(n := v) \<and> (\<forall>x. x \<noteq> n \<longrightarrow>
      lk_next (ls_links s') x = lk_next (ls_links s) x \<and> lk_prev (ls_links s') x = lk_prev (ls_links s) x)"
proof -
  obtain m c where mc: "alloc (list_mem_node_cache s) (ls_slab s) = (m, c)" by fastforce
  have rs: "rep (ls_slab s) L" "L (list_mem_node_cache s) = Some (all_nodes H)" using inv by (simp_all add: lists_inv_def)
  show ?thesis
  proof (cases "m = NULL")
    case True
    then have "n = NULL" "s' = s\<lparr>ls_slab := c\<rparr>" using al mc by (simp_all add: node_alloc_def)
    moreover have "rep c L" using alloc_rep [OF rs mc] True by simp
    ultimately show ?thesis using inv by (simp add: lists_inv_def lists_rep_def)
  next
    case False
    then have n: "n = m" and s': "s' = s\<lparr>ls_slab := c, ls_links := set_next m NULL (set_prev m NULL (ls_links s)),
        ls_value := (ls_value s)(m := v)\<rparr>" using al mc by (auto simp: node_alloc_def)
    have new: "m \<notin> all_nodes H" "rep c (L(list_mem_node_cache s \<mapsto> insert m (all_nodes H)))"
      using alloc_rep [OF rs mc] False rs(2) by auto
    have "lists_rep s' H"
      using inv dlls_set_other [of _ "nodes H" m] all_nodes_notin [OF new(1)]
      by (simp add: lists_inv_def lists_rep_def s')
    then show ?thesis using new False by (simp add: n s')
  qed
qed

text \<open>A node that was allocated is linked into a list.\<close>

lemma insert_inv:
  assumes inv: "lists_inv rep s H L" and H: "H l = Some (xs @ ys)" and al: "node_alloc alloc v s = (n, t)" and n: "n \<noteq> NULL"
    and s': "s' = node_link l (last_of NULL xs) n (head_of ys NULL) t"
  shows "lists_inv rep s' (H(l \<mapsto> xs @ n # ys)) (L(list_mem_node_cache s \<mapsto> all_nodes (H(l \<mapsto> xs @ n # ys))))"
    and "ls_value s' = (ls_value s)(n := v)" and "n \<notin> all_nodes H"
proof -
  have t: "n \<notin> all_nodes H" "lists_rep t H" "rep (ls_slab t) (L(list_mem_node_cache s \<mapsto> insert n (all_nodes H)))"
    "list_mem_node_cache t = list_mem_node_cache s" "list_mem_cache t = list_mem_cache s" "ls_value t = (ls_value s)(n := v)"
    using node_alloc_inv [OF inv al] n by auto
  have k: "dlls (ls_links s) (nodes H)" using inv by (simp add: lists_inv_def lists_rep_def)
  have "lists_rep s' (H(l \<mapsto> xs @ n # ys))" unfolding s' by (rule node_link_rep [OF t(2) H n t(1)])
  moreover have "all_nodes (H(l \<mapsto> xs @ n # ys)) = insert n (all_nodes H)"
    using all_nodes_upd [OF k H, of "xs @ n # ys"] nodes_subset [of H l, OF H] by auto
  moreover have "dom (H(l \<mapsto> xs @ n # ys)) = dom H" using H by auto
  ultimately show "lists_inv rep s' (H(l \<mapsto> xs @ n # ys)) (L(list_mem_node_cache s \<mapsto> all_nodes (H(l \<mapsto> xs @ n # ys))))"
    using inv t unfolding lists_inv_def by (auto simp: s' node_link_eq)
  show "ls_value s' = (ls_value s)(n := v)" "n \<notin> all_nodes H" using t by (simp_all add: s' node_link_eq)
qed

lemma remove_inv:
  assumes inv: "lists_inv rep s H L" and H: "H l = Some (xs @ x # ys)"
  shows "lists_inv rep (node_free free x (node_unlink l x s)) (H(l \<mapsto> xs @ ys)) (L(list_mem_node_cache s \<mapsto> all_nodes (H(l \<mapsto> xs @ ys))))"
    and "list_mem_node_cache (node_free free x (node_unlink l x s)) = list_mem_node_cache s" and "ls_value (node_free free x (node_unlink l x s)) = ls_value s"
proof -
  have rp: "lists_rep s H" and rs: "rep (ls_slab s) L" "L (list_mem_node_cache s) = Some (all_nodes H)"
    using inv by (simp_all add: lists_inv_def)
  note u = node_unlink_rep [OF rp H]
  have k: "dlls (ls_links s) (nodes H)" using rp by (simp add: lists_rep_def)
  have x: "x \<in> all_nodes H" using nodes_subset [of H l, OF H] by simp
  have "rep (free (list_mem_node_cache s) x (ls_slab s)) (L(list_mem_node_cache s \<mapsto> all_nodes H - {x}))"
    by (rule free_rep [OF rs x])
  moreover have "all_nodes (H(l \<mapsto> xs @ ys)) = all_nodes H - {x}"
    using all_nodes_upd [OF k H, of "xs @ ys"] nodes_subset [of H l, OF H] lists_repD(1) [OF rp H] by auto
  moreover have "dom (H(l \<mapsto> xs @ ys)) = dom H" using H by auto
  moreover have "lists_rep (node_free free x (node_unlink l x s)) (H(l \<mapsto> xs @ ys))"
    using u(1) by (simp add: lists_rep_def node_free_def)
  ultimately show "lists_inv rep (node_free free x (node_unlink l x s)) (H(l \<mapsto> xs @ ys))
      (L(list_mem_node_cache s \<mapsto> all_nodes (H(l \<mapsto> xs @ ys))))"
    using inv unfolding lists_inv_def by (auto simp: node_free_def u)
  show "list_mem_node_cache (node_free free x (node_unlink l x s)) = list_mem_node_cache s"
    "ls_value (node_free free x (node_unlink l x s)) = ls_value s" by (simp_all add: node_free_def u)
qed

lemma lists_invD: "lists_inv rep s H L \<Longrightarrow> lists_rep s H"
  by (simp add: lists_inv_def)

text \<open>Insertion before an anchor; with no anchor the list is extended at its end.\<close>

lemma list_insert_before_inv:
  assumes inv: "lists_inv rep s H L" and H: "H l = Some (xs @ ys)" and anchor: "anchor = head_of ys NULL"
    and op: "list_insert_before alloc l anchor v s = (n, s')"
  shows "n = NULL \<and> lists_inv rep s' H L \<and> ls_value s' = ls_value s \<or>
    n \<noteq> NULL \<and> n \<notin> all_nodes H \<and> ls_value s' = (ls_value s)(n := v) \<and>
    lists_inv rep s' (H(l \<mapsto> xs @ n # ys)) (L(list_mem_node_cache s \<mapsto> all_nodes (H(l \<mapsto> xs @ n # ys))))"
proof -
  obtain m t where al: "node_alloc alloc v s = (m, t)" by fastforce
  note d = lists_repD [OF lists_invD [OF inv] H] and na = node_alloc_inv [OF inv al]
  have nil: "head_of ys NULL = NULL \<longleftrightarrow> ys = []" using d(1) dseg_head_NULL [of "ls_links s" _ ys] by auto
  show ?thesis
  proof (cases "m = NULL")
    case True
    then have "n = NULL" "s' = t"
      using op al by (auto simp: list_insert_before_def list_push_back_def split: if_splits)
    then show ?thesis using na True by simp
  next
    case False
    have "s' = node_link l (last_of NULL xs) m (head_of ys NULL) t \<and> n = m"
    proof (cases ys)
      case Nil
      then show ?thesis
        using op al False na d(3) anchor by (auto simp: list_insert_before_def list_push_back_def)
    next
      case (Cons y ys')
      have "m \<noteq> y" using na False nodes_subset [of H l, OF H] Cons by auto
      then have "lk_prev (ls_links t) y = last_of NULL xs" using na False d(1) Cons by auto
      then show ?thesis
        using op al False anchor nil Cons by (auto simp: list_insert_before_def)
    qed
    then show ?thesis using insert_inv [OF inv H al False] False by auto
  qed
qed

lemma list_insert_after_inv:
  assumes inv: "lists_inv rep s H L" and H: "H l = Some (xs @ ys)" and anchor: "anchor = last_of NULL xs"
    and op: "list_insert_after alloc l anchor v s = (n, s')"
  shows "n = NULL \<and> lists_inv rep s' H L \<and> ls_value s' = ls_value s \<or>
    n \<noteq> NULL \<and> n \<notin> all_nodes H \<and> ls_value s' = (ls_value s)(n := v) \<and>
    lists_inv rep s' (H(l \<mapsto> xs @ n # ys)) (L(list_mem_node_cache s \<mapsto> all_nodes (H(l \<mapsto> xs @ n # ys))))"
proof -
  obtain m t where al: "node_alloc alloc v s = (m, t)" by fastforce
  note d = lists_repD [OF lists_invD [OF inv] H] and na = node_alloc_inv [OF inv al]
  have nil: "last_of NULL xs = NULL \<longleftrightarrow> xs = []" using d(1) dseg_last_NULL [of "ls_links s" xs] by auto
  show ?thesis
  proof (cases "m = NULL")
    case True
    then have "n = NULL" "s' = t"
      using op al by (auto simp: list_insert_after_def list_push_front_def split: if_splits)
    then show ?thesis using na True by simp
  next
    case False
    have "s' = node_link l (last_of NULL xs) m (head_of ys NULL) t \<and> n = m"
    proof (cases xs rule: rev_cases)
      case Nil
      then show ?thesis
        using op al False na d(2) anchor by (auto simp: list_insert_after_def list_push_front_def)
    next
      case (snoc xs' x)
      have "m \<noteq> x" using na False nodes_subset [of H l, OF H] snoc by auto
      then have "lk_next (ls_links t) x = head_of ys NULL" using na False d(1) snoc by auto
      then show ?thesis
        using op al False anchor nil snoc by (auto simp: list_insert_after_def)
    qed
    then show ?thesis using insert_inv [OF inv H al False] False by auto
  qed
qed

lemma list_pop_front_inv:
  assumes inv: "lists_inv rep s H L" and H: "H l = Some (x # xs)" and op: "list_pop_front free l s = (v, s')"
  shows "v = ls_value s x \<and> ls_value s' = ls_value s \<and> lists_inv rep s' (H(l \<mapsto> xs)) (L(list_mem_node_cache s \<mapsto> all_nodes (H(l \<mapsto> xs))))"
proof -
  have "l_head (ls_lists s l) = x" "x \<noteq> NULL" using lists_repD(1,2) [OF lists_invD [OF inv] H] by auto
  then show ?thesis using remove_inv [OF inv, of l "[]" x xs] H op by (auto simp: list_pop_front_def)
qed

lemma list_pop_back_inv:
  assumes inv: "lists_inv rep s H L" and H: "H l = Some (xs @ [x])" and op: "list_pop_back free l s = (v, s')"
  shows "v = ls_value s x \<and> ls_value s' = ls_value s \<and> lists_inv rep s' (H(l \<mapsto> xs)) (L(list_mem_node_cache s \<mapsto> all_nodes (H(l \<mapsto> xs))))"
proof -
  have "l_tail (ls_lists s l) = x" "x \<noteq> NULL" using lists_repD(1,3) [OF lists_invD [OF inv] H] by auto
  then show ?thesis using remove_inv [OF inv, of l xs x "[]"] H op by (auto simp: list_pop_back_def)
qed

text \<open>The loop of \<open>list_remove_all\<close>, with the nodes it has already passed in \<open>ps\<close>.\<close>

lemma remove_all_loop_inv:
  assumes "lists_inv rep s H L" and "H l = Some (ps @ ys)"
  shows "\<exists>s'. remove_all_loop free pr l (head_of ys NULL) cnt s = Some (cnt + of_nat (length (filter (pr \<circ> ls_value s) ys)), s') \<and>
    ls_value s' = ls_value s \<and>
    lists_inv rep s' (H(l \<mapsto> ps @ filter (Not \<circ> pr \<circ> ls_value s) ys))
      (L(list_mem_node_cache s \<mapsto> all_nodes (H(l \<mapsto> ps @ filter (Not \<circ> pr \<circ> ls_value s) ys))))"
  using assms
proof (induction ys arbitrary: ps s H L cnt)
  case Nil
  have "H(l \<mapsto> ps) = H" using Nil(2) by auto
  moreover have "L(list_mem_node_cache s \<mapsto> all_nodes H) = L" using Nil(1) by (auto simp: lists_inv_def)
  ultimately show ?case using Nil by (simp add: remove_all_loop.simps)
next
  case (Cons y ys)
  have y: "y \<noteq> NULL" "lk_next (ls_links s) y = head_of ys NULL"
    using lists_repD(1) [OF lists_invD [OF Cons.prems(1)] Cons.prems(2)] by auto
  show ?case
  proof (cases "pr (ls_value s y)")
    case True
    define t where "t = node_free free y (node_unlink l y s)"
    note rm = remove_inv [OF Cons.prems, folded t_def]
    have "(H(l \<mapsto> ps @ ys)) l = Some (ps @ ys)" by simp
    note ih = Cons.IH [OF rm(1) this, of "cnt + 1", unfolded fun_upd_upd rm(2,3)]
    have step: "remove_all_loop free pr l (head_of (y # ys) NULL) cnt s = remove_all_loop free pr l (head_of ys NULL) (cnt + 1) t"
      using y True by (simp add: remove_all_loop.simps [of _ _ _ y] t_def Let_def)
    have len: "cnt + of_nat (length (filter (pr \<circ> ls_value s) (y # ys))) = cnt + 1 + of_nat (length (filter (pr \<circ> ls_value s) ys))"
      and rest: "filter (Not \<circ> pr \<circ> ls_value s) (y # ys) = filter (Not \<circ> pr \<circ> ls_value s) ys" using True by simp_all
    show ?thesis unfolding step len rest by (rule ih)
  next
    case False
    have "H l = Some ((ps @ [y]) @ ys)" using Cons.prems(2) by simp
    from Cons.IH [OF Cons.prems(1) this, of cnt] show ?thesis
      using y False by (simp add: remove_all_loop.simps [of _ _ _ y] Let_def)
  qed
qed

text \<open>\<open>list_clear\<close> returns all nodes of the list to the cache.\<close>

lemma clear_loop_eq:
  "dseg (ls_links s) p ys NULL \<Longrightarrow>
    clear_loop free (head_of ys NULL) s = Some (s\<lparr>ls_slab := fold (free (list_mem_node_cache s)) ys (ls_slab s)\<rparr>)"
proof (induction ys arbitrary: p s)
  case Nil
  then show ?case by (simp add: clear_loop.simps)
next
  case (Cons y ys)
  then show ?case using Cons.IH [of "node_free free y s" y] by (simp add: clear_loop.simps [of _ y] node_free_def)
qed

lemma list_clear_inv:
  assumes inv: "lists_inv rep s H L" and H: "H l = Some xs"
  shows "\<exists>s'. list_clear free l s = Some s' \<and> lists_inv rep s' (H(l \<mapsto> [])) (L(list_mem_node_cache s \<mapsto> all_nodes (H(l \<mapsto> []))))"
proof -
  note d = lists_repD [OF lists_invD [OF inv] H]
  have k: "dlls (ls_links s) (nodes H)" using inv by (simp add: lists_inv_def lists_rep_def)
  let ?c = "fold (free (list_mem_node_cache s)) xs (ls_slab s)"
  let ?s = "upd_list l (\<lambda>t. t\<lparr>l_head := NULL, l_tail := NULL, l_size := 0\<rparr>) (s\<lparr>ls_slab := ?c\<rparr>)"
  have "list_clear free l s = Some ?s" using clear_loop_eq [of s NULL xs] d by (simp add: list_clear_def)
  moreover have "all_nodes (H(l \<mapsto> [])) = all_nodes H - set xs" using all_nodes_upd [OF k H] by simp
  moreover have "rep ?c (L(list_mem_node_cache s \<mapsto> all_nodes H - set xs))"
    using inv d(1) nodes_subset [of H l, OF H] by (intro fold_free_rep) (auto simp: lists_inv_def)
  moreover have "lists_rep ?s (H(l \<mapsto> []))"
    by (rule lists_rep_upd [OF lists_invD [OF inv], of "ls_links s"])
      (use dlls_upd [OF k, of "ls_links s" "[]" l] in \<open>auto simp: upd_list_def list_ok_def\<close>)
  moreover have "dom (H(l \<mapsto> [])) = dom H" using H by auto
  ultimately show ?thesis using inv by (auto simp: lists_inv_def upd_list_def)
qed

end

section \<open>Searching, reversing, splicing\<close>

lemma list_at_nth:
  assumes rep: "lists_rep s H" and H: "H l = Some xs" and len: "length xs < 2 ^ 32"
  shows "list_at l i s = (if unat i < length xs then xs ! unat i else NULL)"
proof -
  note d = lists_repD [OF rep H]
  have sz: "unat (l_size (ls_lists s l)) = length xs" using d(4) len by simp
  have le: "l_size (ls_lists s l) \<le> i \<longleftrightarrow> length xs \<le> unat i" by (simp add: word_le_nat_alt sz)
  show ?thesis
  proof (cases "unat i < length xs")
    case True
    then have "0 < unat (l_size (ls_lists s l))" using sz by linarith
    then have "unat (1 :: u32) \<le> unat (l_size (ls_lists s l))" by simp
    then have m1: "unat (l_size (ls_lists s l) - 1) = length xs - 1"
      using sz by (simp add: unat_sub word_le_nat_alt)
    show ?thesis
      using True dseg_nth_next [of "ls_links s" NULL xs NULL "unat i"] dseg_nth_prev [of "ls_links s" NULL xs NULL "unat i"] d
      unfolding list_at_def Let_def le m1 by simp
  next
    case False
    then show ?thesis unfolding list_at_def Let_def le by simp
  qed
qed

lemma find_loop_find:
  "dseg (ls_links s) p ys NULL \<Longrightarrow>
    find_loop pr (head_of ys NULL) s = Some (case List.find (pr \<circ> ls_value s) ys of None \<Rightarrow> NULL | Some y \<Rightarrow> y)"
proof (induction ys arbitrary: p)
  case Nil
  then show ?case by (simp add: find_loop.simps)
next
  case (Cons y ys)
  then show ?case using Cons.IH [of y] by (simp add: find_loop.simps [of pr y])
qed

definition swap_links :: "u64 set \<Rightarrow> links \<Rightarrow> links" where
  "swap_links A k = \<lparr>lk_next = (\<lambda>x. if x \<in> A then lk_prev k x else lk_next k x),
     lk_prev = (\<lambda>x. if x \<in> A then lk_next k x else lk_prev k x)\<rparr>"

lemma reverse_links_swap:
  "dseg k l xs NULL \<Longrightarrow> distinct xs \<Longrightarrow> reverse_links (head_of xs NULL) k = Some (swap_links (set xs) k)"
proof (induction xs arbitrary: k l)
  case Nil
  then show ?case by (simp add: reverse_links.simps swap_links_def)
next
  case (Cons x xs)
  let ?k = "set_prev x (lk_next k x) (set_next x (lk_prev k x) k)"
  have "reverse_links (head_of xs NULL) ?k = Some (swap_links (set xs) ?k)"
    using Cons.prems by (intro Cons.IH [of _ x]) auto
  moreover have "swap_links (set xs) ?k = swap_links (set (x # xs)) k"
    using Cons.prems by (auto simp: swap_links_def)
  ultimately show ?case using Cons.prems by (simp add: reverse_links.simps [of x] Let_def)
qed

lemma dseg_swap: "dseg k l xs r \<Longrightarrow> set xs \<subseteq> A \<Longrightarrow> dseg (swap_links A k) r (rev xs) l"
proof (induction xs arbitrary: l)
  case (Cons x xs)
  have "head_of (rev xs) l = last_of l (rev (rev xs))" for l by (cases xs rule: rev_cases) auto
  moreover have "last_of r (rev xs) = head_of xs r" by (cases xs) auto
  ultimately show ?case using Cons by (auto simp: swap_links_def)
qed simp

lemma list_reverse_rep:
  assumes rep: "lists_rep s H" and H: "H l = Some xs"
  shows "\<exists>s'. list_reverse l s = Some s' \<and> lists_rep s' (H(l \<mapsto> rev xs)) \<and> ls_value s' = ls_value s \<and>
    ls_slab s' = ls_slab s \<and> list_mem_node_cache s' = list_mem_node_cache s \<and> list_mem_cache s' = list_mem_cache s"
proof -
  note d = lists_repD [OF rep H]
  have k: "dlls (ls_links s) (nodes H)" using rep by (simp add: lists_rep_def)
  let ?k = "swap_links (set xs) (ls_links s)"
  let ?s = "upd_list l (\<lambda>t. t\<lparr>l_head := l_tail t, l_tail := l_head (ls_lists s l)\<rparr>) (s\<lparr>ls_links := ?k\<rparr>)"
  have "list_reverse l s = Some ?s"
    using reverse_links_swap [of "ls_links s" NULL xs] d by (simp add: list_reverse_def Let_def)
  moreover have "lists_rep ?s (H(l \<mapsto> rev xs))"
  proof (rule lists_rep_upd [OF rep])
    show "dlls ?k ((nodes H)(l := rev xs))"
    proof (rule dlls_upd [OF k])
      show "dll ?k (rev xs)" using dseg_swap [of "ls_links s" NULL xs NULL "set xs"] d(1) by simp
      fix j y
      assume "j \<noteq> l"
      then have disj: "set xs \<inter> set (nodes H j) = {}" using dllsD(2) [OF k, of l j] nodes_Some [of H l, OF H] by auto
      then show "set (rev xs) \<inter> set (nodes H j) = {}" by simp
      assume "y \<in> set (nodes H j)"
      then have "y \<notin> set xs" using disj by blast
      then show "lk_next ?k y = lk_next (ls_links s) y \<and> lk_prev ?k y = lk_prev (ls_links s) y" by (simp add: swap_links_def)
    qed
    have "head_of (rev xs) NULL = last_of NULL xs" "last_of NULL (rev xs) = head_of xs NULL"
      by (cases xs rule: rev_cases; simp) (cases xs; simp)
    then show "list_ok ((ls_lists s l)\<lparr>l_head := l_tail (ls_lists s l), l_tail := l_head (ls_lists s l)\<rparr>) (rev xs)"
      using d by (simp add: list_ok_def)
  qed (simp_all add: upd_list_def)
  ultimately show ?thesis by (auto simp: upd_list_def)
qed

lemma list_splice_back_rep:
  assumes rep: "lists_rep s H" and H: "H dst = Some xs" "H src = Some ys" and ne: "dst \<noteq> src"
  shows "lists_rep (list_splice_back dst src s) (H(dst \<mapsto> xs @ ys, src \<mapsto> []))"
    and "all_nodes (H(dst \<mapsto> xs @ ys, src \<mapsto> [])) = all_nodes H"
proof -
  note dx = lists_repD [OF rep H(1)] and dy = lists_repD [OF rep H(2)]
  have k: "dlls (ls_links s) (nodes H)" using rep by (simp add: lists_rep_def)
  have nd: "nodes H dst = xs" "nodes H src = ys" using H by (simp_all add: nodes_def)
  have disj: "set xs \<inter> set ys = {}" using dllsD(2) [OF k ne] nd by simp
  have nodes': "nodes (H(dst \<mapsto> xs @ ys, src \<mapsto> [])) = (nodes H)(dst := xs @ ys, src := [])" by simp
  show "all_nodes (H(dst \<mapsto> xs @ ys, src \<mapsto> [])) = all_nodes H"
  proof -
    have "all_nodes (H(src \<mapsto> [])) = all_nodes H - set ys" using all_nodes_upd [OF k H(2), of "[]"] by simp
    moreover have "dlls (ls_links s) (nodes (H(src \<mapsto> [])))" using dlls_upd [OF k, of "ls_links s" "[]" src] by simp
    from all_nodes_upd [OF this, of dst xs "xs @ ys"] have
      "all_nodes (H(src \<mapsto> [], dst \<mapsto> xs @ ys)) = all_nodes (H(src \<mapsto> [])) - set xs \<union> set (xs @ ys)" using H ne by simp
    moreover have "H(dst \<mapsto> xs @ ys, src \<mapsto> []) = H(src \<mapsto> [], dst \<mapsto> xs @ ys)" using ne by (simp add: fun_upd_twist)
    ultimately show ?thesis using nodes_subset [of H dst, OF H(1)] nodes_subset [of H src, OF H(2)] by auto
  qed
  show "lists_rep (list_splice_back dst src s) (H(dst \<mapsto> xs @ ys, src \<mapsto> []))"
  proof (cases "ys = []")
    case True
    then have "H(dst \<mapsto> xs @ ys, src \<mapsto> []) = H" using H by auto
    then show ?thesis using rep True dy by (simp add: list_splice_back_def)
  next
    case False
    define k' where "k' = (if xs = [] then ls_links s
      else set_prev (head_of ys NULL) (last_of NULL xs) (set_next (last_of NULL xs) (head_of ys NULL) (ls_links s)))"
    obtain y ys' where y: "ys = y # ys'" using False by (cases ys) auto
    have dll': "dll k' (xs @ ys)"
    proof (cases "xs = []")
      case True
      then show ?thesis using dy by (simp add: k'_def)
    next
      case xs: False
      have lx: "last_of NULL xs = last xs" "last xs \<in> set xs" using xs by (simp_all add: last_of_def)
      have "dseg (set_next (last xs) y (ls_links s)) NULL xs y"
        by (rule dseg_set_right [OF conjunct1 [OF dx(1)] xs conjunct2 [OF dx(1)]])
      moreover have "last xs \<notin> set ys" using lx(2) disj by blast
      ultimately show ?thesis using xs lx y dx(1) dy(1) disj by (auto simp: k'_def last_of_def)
    qed
    have frame: "lk_next k' z = lk_next (ls_links s) z \<and> lk_prev k' z = lk_prev (ls_links s) z" if "z \<notin> set xs" "z \<notin> set ys" for z
      using that last_of_in [of NULL xs] by (auto simp: k'_def y last_of_def)
    have dlls': "dlls k' ((nodes H)(dst := xs @ ys, src := []))"
    proof -
      have empty: "dlls (ls_links s) ((nodes H)(src := []))" using dlls_upd [OF k, of "ls_links s" "[]" src] by simp
      have other: "set (xs @ ys) \<inter> set (((nodes H)(src := [])) j) = {}" if "j \<noteq> dst" for j
        using dllsD(2) [OF k, of dst j] dllsD(2) [OF k, of src j] that nd by (cases "j = src") auto
      have "dlls k' (((nodes H)(src := []))(dst := xs @ ys))"
      proof (rule dlls_upd [OF empty dll' other])
        fix j z
        assume "j \<noteq> dst" "z \<in> set (((nodes H)(src := [])) j)"
        then show "lk_next k' z = lk_next (ls_links s) z \<and> lk_prev k' z = lk_prev (ls_links s) z"
          using other [of j] by (intro frame) auto
      qed
      then show ?thesis using ne by (simp add: fun_upd_twist)
    qed
    let ?s = "list_splice_back dst src s"
    have eq: "ls_links ?s = k' \<and> ls_lists ?s = (ls_lists s)(dst := (ls_lists s dst)\<lparr>l_head := head_of (xs @ ys) NULL,
        l_tail := last_of NULL (xs @ ys), l_size := of_nat (length (xs @ ys))\<rparr>, src := (ls_lists s src)\<lparr>l_head := NULL, l_tail := NULL, l_size := 0\<rparr>)"
    proof (cases "xs = []")
      case True
      then show ?thesis using False ne dx dy by (auto simp: list_splice_back_def upd_list_def Let_def k'_def y)
    next
      case xs: False
      have "ls_lists s dst = \<lparr>l_head = l_head (ls_lists s dst), l_tail = l_tail (ls_lists s dst), l_size = l_size (ls_lists s dst)\<rparr>" by simp
      then show ?thesis using False xs ne dx dy y
        by (cases xs) (auto simp: list_splice_back_def upd_list_def Let_def k'_def intro!: ext)
    qed
    have others: "list_ok (ls_lists s l) zs" if "H l = Some zs" for l zs using rep that by (simp add: lists_rep_def)
    show ?thesis
      unfolding lists_rep_def nodes' using dlls' eq others ne
      by (auto simp: list_ok_def split: if_splits)
  qed
qed

section \<open>The lists of the kernel\<close>

text \<open>The list component runs on the slab allocator.\<close>

abbreviation klists_inv :: "kslab lists \<Rightarrow> (u64 \<rightharpoonup> u64 list) \<Rightarrow> (u64 \<rightharpoonup> u64 set) \<Rightarrow> bool" where
  "klists_inv \<equiv> lists_inv kslab_inv"

text \<open>A state with one empty list.\<close>

definition list_example_addr :: u64 where
  "list_example_addr = fst (kmem_cache_alloc 65576 kslab_example)"

definition list_example :: "kslab lists" where
  "list_example = \<lparr>ls_links = \<lparr>lk_next = (\<lambda>_. 0), lk_prev = (\<lambda>_. 0)\<rparr>, ls_value = (\<lambda>_. 0),
     ls_lists = (\<lambda>_. \<lparr>l_head = 0, l_tail = 0, l_size = 0\<rparr>), list_mem_node_cache = 70000,
     list_mem_cache = 65576, ls_slab = snd (kmem_cache_alloc 65576 kslab_example)\<rparr>"

lemma list_example_inv: "klists_inv list_example [list_example_addr \<mapsto> []] [70000 \<mapsto> {}, 65576 \<mapsto> {list_example_addr}]"
proof -
  have "kslab_inv kslab_example [70000 \<mapsto> {}, 65576 \<mapsto> {}]" by (rule kslab_example_inv) (auto split: if_splits)
  from slab.alloc_rep [OF this, of 65576 "{}" list_example_addr "ls_slab list_example"]
  have "kslab_inv (ls_slab list_example) [70000 \<mapsto> {}, 65576 \<mapsto> {list_example_addr}]"
    using kslab_example_alloc by (simp add: list_example_def list_example_addr_def)
  moreover have "nodes [list_example_addr \<mapsto> []] = (\<lambda>_. [])" by (intro ext) (simp add: nodes_def)
  ultimately show ?thesis
    by (simp add: lists_inv_def lists_rep_def dlls_def list_ok_def all_nodes_def) (simp add: list_example_def)
qed

section \<open>Properties\<close>

text \<open>\<open>list_insert_before\<close> puts a new node with the value at the place of the anchor in the
  sequence of the list (at its end for a null anchor), or fails without changing any list; the
  new node was in no list, all other values and lists stay, links, head, tail and size agree
  with the new sequence, and the node cache's live objects are exactly the nodes.\<close>

theorem list_insert_before_correct:
  assumes "klists_inv s H L" and "H l = Some (xs @ ys)" and "anchor = head_of ys NULL"
    and "list_insert_before kmem_cache_alloc l anchor v s = (n, s')"
  shows "n = NULL \<and> klists_inv s' H L \<and> ls_value s' = ls_value s \<or>
    n \<noteq> NULL \<and> n \<notin> all_nodes H \<and> ls_value s' = (ls_value s)(n := v) \<and>
    klists_inv s' (H(l \<mapsto> xs @ n # ys)) (L(list_mem_node_cache s \<mapsto> all_nodes (H(l \<mapsto> xs @ n # ys))))"
  using assms by (rule slab.list_insert_before_inv)

theorem list_insert_before_correct_witness:
  "\<exists>n s'. list_insert_before kmem_cache_alloc list_example_addr NULL 7 list_example = (n, s') \<and>
     (n = NULL \<or> ls_value s' n = 7 \<and> (\<exists>L. klists_inv s' [list_example_addr \<mapsto> [n]] L))"
proof -
  obtain n s' where op: "list_insert_before kmem_cache_alloc list_example_addr NULL 7 list_example = (n, s')" by fastforce
  show ?thesis
    using list_insert_before_correct [OF list_example_inv _ _ op, of "[]" "[]"] op by auto
qed

text \<open>\<open>list_remove_all\<close> always returns: it removes exactly the nodes whose value satisfies the
  predicate, keeps the order of the others, returns how many it removed, and gives the removed
  nodes, and no others, back to the cache.\<close>

theorem list_remove_all_correct:
  assumes "klists_inv s H L" and "H l = Some xs"
  shows "\<exists>s'. list_remove_all kmem_cache_free l pr s = Some (of_nat (length (filter (pr \<circ> ls_value s) xs)), s') \<and>
    ls_value s' = ls_value s \<and>
    klists_inv s' (H(l \<mapsto> filter (Not \<circ> pr \<circ> ls_value s) xs))
      (L(list_mem_node_cache s \<mapsto> all_nodes (H(l \<mapsto> filter (Not \<circ> pr \<circ> ls_value s) xs))))"
  using slab.remove_all_loop_inv [OF assms(1), of l "[]" xs pr 0] assms lists_repD(2) [of s H l xs]
  by (simp add: list_remove_all_def lists_inv_def)

theorem list_remove_all_correct_witness:
  "\<exists>s' L. list_remove_all kmem_cache_free list_example_addr (\<lambda>v. v = 7) list_example = Some (0, s') \<and>
     klists_inv s' [list_example_addr \<mapsto> []] L"
  using list_remove_all_correct [OF list_example_inv, of list_example_addr "[]" "\<lambda>v. v = 7"] by auto

text \<open>\<open>list_reverse\<close> always returns and reverses the sequence of nodes of the list, with every
  node's value and every other list as it was.\<close>

theorem list_reverse_correct:
  assumes "klists_inv s H L" and "H l = Some xs"
  shows "\<exists>s'. list_reverse l s = Some s' \<and> klists_inv s' (H(l \<mapsto> rev xs)) L \<and> ls_value s' = ls_value s"
proof -
  have rep: "lists_rep s H" using assms(1) by (simp add: lists_inv_def)
  have k: "dlls (ls_links s) (nodes H)" using rep by (simp add: lists_rep_def)
  have "all_nodes (H(l \<mapsto> rev xs)) = all_nodes H"
    using all_nodes_upd [OF k assms(2), of "rev xs"] nodes_subset [of H l, OF assms(2)] by auto
  moreover have "dom (H(l \<mapsto> rev xs)) = dom H" using assms(2) by auto
  ultimately show ?thesis
    using list_reverse_rep [OF rep assms(2)] assms(1) by (fastforce simp: lists_inv_def)
qed

theorem list_reverse_correct_witness:
  "\<exists>s'. list_reverse list_example_addr list_example = Some s' \<and>
     klists_inv s' [list_example_addr \<mapsto> []] [70000 \<mapsto> {}, 65576 \<mapsto> {list_example_addr}]"
  using list_reverse_correct [OF list_example_inv, of list_example_addr "[]"] by auto

end
