(* ===== verification/Hashmap.thy ===== *)
theory Hashmap
  imports Kslab Cstring
begin

text \<open>
  \<open>krnl/util/hashmap.c\<close>: a hash table with chaining, keyed by C strings that stay the caller's.
  Entry fields are one store per field, a bucket array is a function from indices at the
  address it was allocated at.  The cache and heap operations are arguments (\<open>ca\<close>, \<open>cf\<close> for
  the object caches, \<open>mal\<close>, \<open>fre\<close> for \<open>khmalloc\<close> and \<open>khfree\<close>); the proofs use the locale
  \<open>kernel_alloc\<close>.  \<open>hashmap_rep\<close> relates a table to a finite map from byte strings to
  values, and each operation is shown to be the operation on that map.
\<close>

section \<open>State and operations\<close>

record hashmap_t =
  hm_buckets :: u64
  hm_capacity :: u32
  hm_size :: u32

record 'c hashmaps =
  he_key :: "u64 \<Rightarrow> u64"
  he_value :: "u64 \<Rightarrow> u64"
  he_hash :: "u64 \<Rightarrow> u32"
  he_next :: "u64 \<Rightarrow> u64"
  hb_cells :: "u64 \<Rightarrow> u32 \<Rightarrow> u64"
  hm_maps :: "u64 \<Rightarrow> hashmap_t"
  entry_cache :: u64
  map_cache :: u64
  hm_alloc :: 'c

type_synonym 'c cc_alloc = "u64 \<Rightarrow> 'c \<Rightarrow> u64 \<times> 'c"
type_synonym 'c cc_free = "u64 \<Rightarrow> u64 \<Rightarrow> 'c \<Rightarrow> 'c"
type_synonym 'c cc_create = "string \<Rightarrow> u64 \<Rightarrow> 'c \<Rightarrow> (u64 \<times> 'c) option"
type_synonym 'c cc_malloc = "u64 \<Rightarrow> 'c \<Rightarrow> (u64 \<times> 'c) option"
type_synonym 'c cc_mfree = "u64 \<Rightarrow> 'c \<Rightarrow> 'c"

definition HASHMAP_DEFAULT_CAPACITY :: u32 where "HASHMAP_DEFAULT_CAPACITY = 16"
definition HASHMAP_LOAD_FACTOR_NUM :: u32 where "HASHMAP_LOAD_FACTOR_NUM = 3"
definition HASHMAP_LOAD_FACTOR_DEN :: u32 where "HASHMAP_LOAD_FACTOR_DEN = 4"

text \<open>\<open>sizeof(hashmap_entry_t)\<close> is 32, \<open>sizeof(hashmap_t)\<close> is 16.\<close>

definition caches_init :: "'c cc_create \<Rightarrow> 'c hashmaps \<Rightarrow> 'c hashmaps option" where
  "caches_init cc s =
     Option.bind
       (if entry_cache s = NULL
        then map_option (\<lambda>(k, c). s\<lparr>entry_cache := k, hm_alloc := c\<rparr>) (cc ''khashmap_entry_cache'' 32 (hm_alloc s))
        else Some s) (\<lambda>s.
       if map_cache s = NULL
       then map_option (\<lambda>(k, c). s\<lparr>map_cache := k, hm_alloc := c\<rparr>) (cc ''khashmap_cache'' 16 (hm_alloc s))
       else Some s)"

partial_function (option) hash_str_loop :: "memory \<Rightarrow> u64 \<Rightarrow> u32 \<Rightarrow> u32 option" where
  "hash_str_loop m key h =
     (if m key \<noteq> 0 then hash_str_loop m (key + 1) ((h XOR ucast (m key)) * 16777619) else Some h)"

definition hash_str :: "memory \<Rightarrow> u64 \<Rightarrow> u32 option" where
  "hash_str m key = hash_str_loop m key 2166136261"

definition entry_alloc :: "'c cc_alloc \<Rightarrow> u64 \<Rightarrow> u64 \<Rightarrow> u32 \<Rightarrow> 'c hashmaps \<Rightarrow> u64 \<times> 'c hashmaps" where
  "entry_alloc ca key val hash s =
     (let (e, c) = ca (entry_cache s) (hm_alloc s);
          s = s\<lparr>hm_alloc := c\<rparr>
      in if e = NULL then (NULL, s)
         else (e, s\<lparr>he_key := (he_key s)(e := key), he_value := (he_value s)(e := val),
                     he_hash := (he_hash s)(e := hash), he_next := (he_next s)(e := NULL)\<rparr>))"

definition entry_free :: "'c cc_free \<Rightarrow> u64 \<Rightarrow> 'c hashmaps \<Rightarrow> 'c hashmaps" where
  "entry_free cf e s = s\<lparr>hm_alloc := cf (entry_cache s) e (hm_alloc s)\<rparr>"

definition bucket :: "'c hashmaps \<Rightarrow> u64 \<Rightarrow> u32 \<Rightarrow> u64" where
  "bucket s buckets i = hb_cells s buckets i"

definition set_bucket :: "u64 \<Rightarrow> u32 \<Rightarrow> u64 \<Rightarrow> 'c hashmaps \<Rightarrow> 'c hashmaps" where
  "set_bucket buckets i e s = s\<lparr>hb_cells := (hb_cells s)(buckets := (hb_cells s buckets)(i := e))\<rparr>"

text \<open>\<open>memset(buckets, 0, n * sizeof(hashmap_entry_t*))\<close>.\<close>

definition zero_buckets :: "u64 \<Rightarrow> u32 \<Rightarrow> 'c hashmaps \<Rightarrow> 'c hashmaps" where
  "zero_buckets buckets n s =
     s\<lparr>hb_cells := (hb_cells s)(buckets := (\<lambda>i. if i < n then NULL else hb_cells s buckets i))\<rparr>"

definition upd_map :: "u64 \<Rightarrow> (hashmap_t \<Rightarrow> hashmap_t) \<Rightarrow> 'c hashmaps \<Rightarrow> 'c hashmaps" where
  "upd_map hm f s = s\<lparr>hm_maps := (hm_maps s)(hm := f (hm_maps s hm))\<rparr>"

partial_function (option) rehash_chain :: "u64 \<Rightarrow> u32 \<Rightarrow> u64 \<Rightarrow> 'c hashmaps \<Rightarrow> 'c hashmaps option" where
  "rehash_chain new_buckets new_cap e s =
     (if e = NULL then Some s
      else
        let nx = he_next s e;
            idx = he_hash s e mod new_cap;
            s = s\<lparr>he_next := (he_next s)(e := bucket s new_buckets idx)\<rparr>;
            s = set_bucket new_buckets idx e s
        in rehash_chain new_buckets new_cap nx s)"

fun for_buckets :: "(u32 \<Rightarrow> 's \<Rightarrow> 's option) \<Rightarrow> nat list \<Rightarrow> 's \<Rightarrow> 's option" where
  "for_buckets f [] s = Some s"
| "for_buckets f (i # is) s = Option.bind (f (of_nat i) s) (for_buckets f is)"

definition rehash :: "'c cc_malloc \<Rightarrow> 'c cc_mfree \<Rightarrow> u64 \<Rightarrow> u32 \<Rightarrow> 'c hashmaps \<Rightarrow> (bool \<times> 'c hashmaps) option" where
  "rehash mal fre hm new_cap s =
     Option.bind (mal (ucast new_cap * 8) (hm_alloc s)) (\<lambda>(new_buckets, c).
       let s = s\<lparr>hm_alloc := c\<rparr>
       in if new_buckets = NULL then Some (False, s)
          else
            let s = zero_buckets new_buckets new_cap s;
                t = hm_maps s hm
            in map_option
                 (\<lambda>s. let s = s\<lparr>hm_alloc := fre (hm_buckets t) (hm_alloc s)\<rparr>
                      in (True, upd_map hm (\<lambda>t. t\<lparr>hm_buckets := new_buckets, hm_capacity := new_cap\<rparr>) s))
                 (for_buckets (\<lambda>i s. rehash_chain new_buckets new_cap (bucket s (hm_buckets t) i) s)
                    [0..<unat (hm_capacity t)] s))"

definition hashmap_create ::
  "'c cc_create \<Rightarrow> 'c cc_alloc \<Rightarrow> 'c cc_free \<Rightarrow> 'c cc_malloc \<Rightarrow> u32 \<Rightarrow> 'c hashmaps \<Rightarrow> (u64 \<times> 'c hashmaps) option" where
  "hashmap_create cc ca cf mal capacity s =
     Option.bind (caches_init cc s) (\<lambda>s.
       if entry_cache s = NULL \<or> map_cache s = NULL then Some (NULL, s)
       else
         let capacity = (if capacity = 0 then HASHMAP_DEFAULT_CAPACITY else capacity);
             (hm, c) = ca (map_cache s) (hm_alloc s);
             s = s\<lparr>hm_alloc := c\<rparr>
         in if hm = NULL then Some (NULL, s)
            else Option.bind (mal (ucast capacity * 8) (hm_alloc s)) (\<lambda>(b, c).
              let s = upd_map hm (\<lambda>t. t\<lparr>hm_buckets := b\<rparr>) (s\<lparr>hm_alloc := c\<rparr>)
              in if b = NULL then Some (NULL, s\<lparr>hm_alloc := cf (map_cache s) hm (hm_alloc s)\<rparr>)
                 else
                   let s = zero_buckets b capacity s
                   in Some (hm, upd_map hm (\<lambda>t. t\<lparr>hm_capacity := capacity, hm_size := 0\<rparr>) s)))"

partial_function (option) clear_chain :: "'c cc_free \<Rightarrow> u64 \<Rightarrow> 'c hashmaps \<Rightarrow> 'c hashmaps option" where
  "clear_chain cf e s =
     (if e = NULL then Some s
      else let nx = he_next s e in clear_chain cf nx (entry_free cf e s))"

definition hashmap_clear :: "'c cc_free \<Rightarrow> u64 \<Rightarrow> 'c hashmaps \<Rightarrow> 'c hashmaps option" where
  "hashmap_clear cf hm s =
     (let t = hm_maps s hm
      in map_option (upd_map hm (\<lambda>t. t\<lparr>hm_size := 0\<rparr>))
           (for_buckets (\<lambda>i s. map_option (set_bucket (hm_buckets t) i NULL)
                (clear_chain cf (bucket s (hm_buckets t) i) s))
              [0..<unat (hm_capacity t)] s))"

definition hashmap_destroy :: "'c cc_free \<Rightarrow> 'c cc_mfree \<Rightarrow> u64 \<Rightarrow> 'c hashmaps \<Rightarrow> 'c hashmaps option" where
  "hashmap_destroy cf fre hm s =
     map_option (\<lambda>s. s\<lparr>hm_alloc := cf (map_cache s) hm (fre (hm_buckets (hm_maps s hm)) (hm_alloc s))\<rparr>)
       (hashmap_clear cf hm s)"

text \<open>The search of a chain for a key: the entry, or \<open>NULL\<close>.\<close>

partial_function (option) find_entry :: "memory \<Rightarrow> u32 \<Rightarrow> u64 \<Rightarrow> u64 \<Rightarrow> 'c hashmaps \<Rightarrow> u64 option" where
  "find_entry m h key e s =
     (if e = NULL then Some NULL
      else if he_hash s e = h
      then Option.bind (strcmp m (he_key s e) key) (\<lambda>r.
        if r = 0 then Some e else find_entry m h key (he_next s e) s)
      else find_entry m h key (he_next s e) s)"

definition hashmap_set ::
  "memory \<Rightarrow> 'c cc_alloc \<Rightarrow> 'c cc_malloc \<Rightarrow> 'c cc_mfree \<Rightarrow> u64 \<Rightarrow> u64 \<Rightarrow> u64 \<Rightarrow> 'c hashmaps \<Rightarrow> (bool \<times> 'c hashmaps) option" where
  "hashmap_set m ca mal fre hm key val s =
     Option.bind
       (if hm_capacity (hm_maps s hm) * HASHMAP_LOAD_FACTOR_NUM div HASHMAP_LOAD_FACTOR_DEN \<le> hm_size (hm_maps s hm)
        then map_option snd (rehash mal fre hm (hm_capacity (hm_maps s hm) * 2) s)
        else Some s) (\<lambda>s.
     Option.bind (hash_str m key) (\<lambda>h.
       let t = hm_maps s hm;
           idx = h mod hm_capacity t
       in Option.bind (find_entry m h key (bucket s (hm_buckets t) idx) s) (\<lambda>e.
            if e \<noteq> NULL then Some (True, s\<lparr>he_value := (he_value s)(e := val)\<rparr>)
            else
              let (e, s) = entry_alloc ca key val h s
              in if e = NULL then Some (False, s)
                 else
                   let s = s\<lparr>he_next := (he_next s)(e := bucket s (hm_buckets t) idx)\<rparr>;
                       s = set_bucket (hm_buckets t) idx e s
                   in Some (True, upd_map hm (\<lambda>t. t\<lparr>hm_size := hm_size t + 1\<rparr>) s))))"

definition hashmap_get :: "memory \<Rightarrow> u64 \<Rightarrow> u64 \<Rightarrow> 'c hashmaps \<Rightarrow> u64 option" where
  "hashmap_get m hm key s =
     Option.bind (hash_str m key) (\<lambda>h.
       let t = hm_maps s hm; idx = h mod hm_capacity t
       in map_option (\<lambda>e. if e = NULL then NULL else he_value s e) (find_entry m h key (bucket s (hm_buckets t) idx) s))"

definition hashmap_has :: "memory \<Rightarrow> u64 \<Rightarrow> u64 \<Rightarrow> 'c hashmaps \<Rightarrow> bool option" where
  "hashmap_has m hm key s =
     Option.bind (hash_str m key) (\<lambda>h.
       let t = hm_maps s hm; idx = h mod hm_capacity t
       in map_option (\<lambda>e. e \<noteq> NULL) (find_entry m h key (bucket s (hm_buckets t) idx) s))"

text \<open>The pointer \<open>pp\<close> of \<open>hashmap_remove\<close> points to a bucket or to the \<open>next\<close> field of an entry.\<close>

datatype link_place = Bucket u64 u32 | Next u64

fun read_place :: "link_place \<Rightarrow> 'c hashmaps \<Rightarrow> u64" where
  "read_place (Bucket b i) s = bucket s b i"
| "read_place (Next e) s = he_next s e"

fun write_place :: "link_place \<Rightarrow> u64 \<Rightarrow> 'c hashmaps \<Rightarrow> 'c hashmaps" where
  "write_place (Bucket b i) v s = set_bucket b i v s"
| "write_place (Next e) v s = s\<lparr>he_next := (he_next s)(e := v)\<rparr>"

partial_function (option) remove_loop ::
  "memory \<Rightarrow> 'c cc_free \<Rightarrow> u64 \<Rightarrow> u32 \<Rightarrow> u64 \<Rightarrow> link_place \<Rightarrow> 'c hashmaps \<Rightarrow> (u64 \<times> 'c hashmaps) option" where
  "remove_loop m cf hm h key pp s =
     (let e = read_place pp s
      in if e = NULL then Some (NULL, s)
         else Option.bind (if he_hash s e = h then map_option (\<lambda>r. r = 0) (strcmp m (he_key s e) key) else Some False) (\<lambda>found.
           if found
           then
             let s = write_place pp (he_next s e) s;
                 val = he_value s e;
                 s = entry_free cf e s
             in Some (val, upd_map hm (\<lambda>t. t\<lparr>hm_size := hm_size t - 1\<rparr>) s)
           else remove_loop m cf hm h key (Next e) s))"

definition hashmap_remove :: "memory \<Rightarrow> 'c cc_free \<Rightarrow> u64 \<Rightarrow> u64 \<Rightarrow> 'c hashmaps \<Rightarrow> (u64 \<times> 'c hashmaps) option" where
  "hashmap_remove m cf hm key s =
     Option.bind (hash_str m key) (\<lambda>h.
       let t = hm_maps s hm; idx = h mod hm_capacity t
       in remove_loop m cf hm h key (Bucket (hm_buckets t) idx) s)"

definition hashmap_size :: "u64 \<Rightarrow> 'c hashmaps \<Rightarrow> u32" where
  "hashmap_size hm s = hm_size (hm_maps s hm)"

text \<open>\<open>hashmap_foreach\<close>: the callback gets key and value and may change the state; a result of true
  ends the iteration, which the flag in the result records.\<close>

partial_function (option) foreach_chain ::
  "(u64 \<Rightarrow> u64 \<Rightarrow> 'c hashmaps \<Rightarrow> bool \<times> 'c hashmaps) \<Rightarrow> u64 \<Rightarrow> 'c hashmaps \<Rightarrow> (bool \<times> 'c hashmaps) option" where
  "foreach_chain fn e s =
     (if e = NULL then Some (False, s)
      else
        let nx = he_next s e;
            (stop, s) = fn (he_key s e) (he_value s e) s
        in if stop then Some (True, s) else foreach_chain fn nx s)"

partial_function (option) foreach_buckets ::
  "u64 \<Rightarrow> (u64 \<Rightarrow> u64 \<Rightarrow> 'c hashmaps \<Rightarrow> bool \<times> 'c hashmaps) \<Rightarrow> u32 \<Rightarrow> 'c hashmaps \<Rightarrow> 'c hashmaps option" where
  "foreach_buckets hm fn i s =
     (if i < hm_capacity (hm_maps s hm)
      then Option.bind (foreach_chain fn (bucket s (hm_buckets (hm_maps s hm)) i) s) (\<lambda>(stop, s).
        if stop then Some s else foreach_buckets hm fn (i + 1) s)
      else Some s)"

definition hashmap_foreach ::
  "u64 \<Rightarrow> (u64 \<Rightarrow> u64 \<Rightarrow> 'c hashmaps \<Rightarrow> bool \<times> 'c hashmaps) \<Rightarrow> 'c hashmaps \<Rightarrow> 'c hashmaps option" where
  "hashmap_foreach hm fn s = foreach_buckets hm fn 0 s"

section \<open>Chains and tables\<close>

definition fnv :: "u8 list \<Rightarrow> u32" where
  "fnv k = fold (\<lambda>c h. (h XOR ucast c) * 16777619) k 2166136261"

lemma hash_str_loop_fold: "cstr m key k \<Longrightarrow> hash_str_loop m key h = Some (fold (\<lambda>c h. (h XOR ucast c) * 16777619) k h)"
proof (induction k arbitrary: key h)
  case Nil
  then show ?case by (simp add: hash_str_loop.simps)
next
  case (Cons c k)
  then show ?case by (simp add: hash_str_loop.simps [of m key])
qed

lemma hash_str_fnv: "cstr m key k \<Longrightarrow> hash_str m key = Some (fnv k)"
  by (simp add: hash_str_def hash_str_loop_fold fnv_def)

lemma ochain_append: "ochain f p (xs @ ys) \<Longrightarrow> \<exists>q. ochain f q ys"
  by (induction xs arbitrary: p) auto

lemma ochain_not_NULL: "ochain f p xs \<Longrightarrow> x \<in> set xs \<Longrightarrow> x \<noteq> NULL"
  by (induction xs arbitrary: p) auto

lemma ochain_unlink:
  assumes "ochain f p (ps @ e # ys)" and "distinct (ps @ e # ys)" and "ps \<noteq> []"
  shows "ochain (f(last ps := f e)) p (ps @ ys)"
  using assms
proof (induction ps arbitrary: p)
  case (Cons x ps)
  show ?case
  proof (cases "ps = []")
    case True
    then have "ochain f (f e) ys" "x \<notin> set ys" using Cons.prems by auto
    then have "ochain (f(x := f e)) (f e) ys" by (subst ochain_cong [of _ _ f]) auto
    then show ?thesis using True Cons.prems by (auto simp: fun_upd_def)
  next
    case False
    then have "last ps \<noteq> x" using Cons.prems(2) by auto
    then show ?thesis using False Cons by auto
  qed
qed simp

text \<open>A bucket array of \<open>cap\<close> buckets whose chains are \<open>N\<close>; an entry lies in the bucket its hash
  selects.\<close>

definition table :: "'c hashmaps \<Rightarrow> u64 \<Rightarrow> u32 \<Rightarrow> (u32 \<Rightarrow> u64 list) \<Rightarrow> bool" where
  "table s b cap N \<longleftrightarrow> (\<forall>i. i < cap \<longrightarrow> ochain (he_next s) (bucket s b i) (N i)) \<and>
     (\<forall>i e. e \<in> set (N i) \<longrightarrow> i < cap \<and> he_hash s e mod cap = i) \<and> (\<forall>i. distinct (N i))"

definition entries :: "(u32 \<Rightarrow> u64 list) \<Rightarrow> u64 set" where
  "entries N = (\<Union>i. set (N i))"

lemma entries_mem: "e \<in> entries N \<longleftrightarrow> (\<exists>i. e \<in> set (N i))"
  by (auto simp: entries_def)

lemma tableD:
  assumes "table s b cap N"
  shows "i < cap \<Longrightarrow> ochain (he_next s) (bucket s b i) (N i)" and "e \<in> set (N i) \<Longrightarrow> i < cap \<and> he_hash s e mod cap = i"
    and "distinct (N i)" and "e \<in> set (N i) \<Longrightarrow> e \<in> set (N j) \<Longrightarrow> i = j" and "e \<in> entries N \<Longrightarrow> e \<in> set (N (he_hash s e mod cap))"
  using assms by (auto simp: table_def entries_def) metis

lemma entries_upd: "entries (N(i := x # N i)) = insert x (entries N)"
  by (auto simp: entries_def split: if_splits)

text \<open>Putting an entry in front of the chain its hash selects.\<close>

lemma table_push:
  assumes tab: "table s b cap N" and e: "e \<notin> entries N" "e \<noteq> NULL" and idx: "idx = he_hash s e mod cap" "idx < cap"
    and s': "he_next s' = (he_next s)(e := bucket s b idx)" "hb_cells s' b = (hb_cells s b)(idx := e)" "he_hash s' = he_hash s"
  shows "table s' b cap (N(idx := e # N idx))"
proof -
  have "ochain (he_next s') (bucket s' b i) ((N(idx := e # N idx)) i)" if "i < cap" for i
  proof -
    have notin: "e \<notin> set (N i)" using e by (auto simp: entries_mem)
    have "ochain (he_next s') p (N i) = ochain (he_next s) p (N i)" for p
      using notin by (intro ochain_cong) (auto simp: s')
    then show ?thesis using tableD(1) [OF tab that] e(2) by (auto simp: bucket_def s')
  qed
  moreover have "i < cap \<and> he_hash s' x mod cap = i" if "x \<in> set ((N(idx := e # N idx)) i)" for x i
    using that tableD(2) [OF tab, of x i] idx by (auto simp: s' split: if_splits)
  moreover have "distinct ((N(idx := e # N idx)) i)" for i
    using tableD(3) [OF tab] e by (auto simp: entries_mem)
  ultimately show ?thesis unfolding table_def by blast
qed

text \<open>What rehashing keeps.\<close>

definition same_entries :: "'c hashmaps \<Rightarrow> 'c hashmaps \<Rightarrow> bool" where
  "same_entries s s' \<longleftrightarrow> he_key s' = he_key s \<and> he_value s' = he_value s \<and> he_hash s' = he_hash s \<and> hm_maps s' = hm_maps s \<and>
     entry_cache s' = entry_cache s \<and> map_cache s' = map_cache s \<and> hm_alloc s' = hm_alloc s"

lemma same_entries_refl: "same_entries s s"
  and same_entries_trans: "same_entries s s' \<Longrightarrow> same_entries s' s'' \<Longrightarrow> same_entries s s''"
  by (simp_all add: same_entries_def)

lemma rehash_chain_table:
  assumes "table s nb cap N" and "ochain (he_next s) e xs" and "distinct xs" and "set xs \<inter> entries N = {}" and "cap \<noteq> 0"
  shows "\<exists>s' N'. rehash_chain nb cap e s = Some s' \<and> table s' nb cap N' \<and> entries N' = entries N \<union> set xs \<and> same_entries s s' \<and>
    (\<forall>y. y \<notin> set xs \<longrightarrow> he_next s' y = he_next s y) \<and> (\<forall>b. b \<noteq> nb \<longrightarrow> hb_cells s' b = hb_cells s b)"
  using assms
proof (induction xs arbitrary: e s N)
  case Nil
  then show ?case by (intro exI [of _ s] exI [of _ N]) (simp add: rehash_chain.simps same_entries_refl)
next
  case (Cons x xs)
  then have x: "e = x" "x \<noteq> NULL" "ochain (he_next s) (he_next s x) xs" "x \<notin> set xs" "x \<notin> entries N" by auto
  define idx where "idx = he_hash s x mod cap"
  define t where "t = set_bucket nb idx x (s\<lparr>he_next := (he_next s)(x := bucket s nb idx)\<rparr>)"
  have idx: "idx < cap" unfolding idx_def using Cons.prems(5) by (simp add: word_mod_less_divisor word_gt_0)
  have step: "rehash_chain nb cap e s = rehash_chain nb cap (he_next s x) t"
    using x by (simp add: rehash_chain.simps [of nb cap x] t_def idx_def Let_def)
  have tab: "table t nb cap (N(idx := x # N idx))"
    by (rule table_push [OF Cons.prems(1) x(5,2) idx_def idx]) (simp_all add: t_def set_bucket_def)
  have ch: "ochain (he_next t) (he_next s x) xs"
    using x(3,4) by (subst ochain_cong [of _ _ "he_next s"]) (auto simp: t_def set_bucket_def)
  have "set xs \<inter> entries (N(idx := x # N idx)) = {}" using Cons.prems(4) x(4) by (auto simp: entries_upd)
  then obtain s' N' where s': "rehash_chain nb cap (he_next s x) t = Some s'" "table s' nb cap N'"
    "entries N' = entries (N(idx := x # N idx)) \<union> set xs" "same_entries t s'"
    "\<forall>y. y \<notin> set xs \<longrightarrow> he_next s' y = he_next t y" "\<forall>b. b \<noteq> nb \<longrightarrow> hb_cells s' b = hb_cells t b"
    using Cons.IH [OF tab ch _ _ Cons.prems(5)] Cons.prems(3) unfolding distinct.simps by blast
  have "same_entries s t" by (simp add: same_entries_def t_def set_bucket_def)
  then show ?case
    using s' same_entries_trans [of s t s'] by (intro exI [of _ s'] exI [of _ N']) (auto simp: step entries_upd t_def set_bucket_def)
qed

lemma for_buckets_rehash:
  assumes "table s nb cap N" and "cap \<noteq> 0" and "nb \<noteq> ob"
    and "\<And>i. i \<in> set is \<Longrightarrow> ochain (he_next s) (bucket s ob (of_nat i)) (B i) \<and> distinct (B i)"
    and "\<And>i. i \<in> set is \<Longrightarrow> set (B i) \<inter> entries N = {}"
    and "\<And>i j. i \<in> set is \<Longrightarrow> j \<in> set is \<Longrightarrow> i \<noteq> j \<Longrightarrow> set (B i) \<inter> set (B j) = {}" and "distinct is"
  shows "\<exists>s' N'. for_buckets (\<lambda>i s. rehash_chain nb cap (bucket s ob i) s) is s = Some s' \<and> table s' nb cap N' \<and>
    entries N' = entries N \<union> (\<Union>i\<in>set is. set (B i)) \<and> same_entries s s'"
  using assms
proof (induction "is" arbitrary: s N)
  case Nil
  then show ?case by (intro exI [of _ s] exI [of _ N]) (simp add: same_entries_refl)
next
  case (Cons i "is")
  have i: "ochain (he_next s) (bucket s ob (of_nat i)) (B i)" "distinct (B i)" "set (B i) \<inter> entries N = {}"
    using Cons.prems(4,5) [of i] by auto
  obtain t N1 where t: "rehash_chain nb cap (bucket s ob (of_nat i)) s = Some t" "table t nb cap N1"
    "entries N1 = entries N \<union> set (B i)" "same_entries s t" "\<forall>y. y \<notin> set (B i) \<longrightarrow> he_next t y = he_next s y"
    "\<forall>b. b \<noteq> nb \<longrightarrow> hb_cells t b = hb_cells s b"
    using rehash_chain_table [OF Cons.prems(1) i(1,2) i(3) Cons.prems(2)] by blast
  have rest: "ochain (he_next t) (bucket t ob (of_nat j)) (B j) \<and> distinct (B j)" if "j \<in> set is" for j
  proof -
    have "set (B i) \<inter> set (B j) = {}" using Cons.prems(6) [of i j] Cons.prems(7) that by auto
    then have "ochain (he_next t) p (B j) = ochain (he_next s) p (B j)" for p
      using t(5) by (intro ochain_cong) auto
    moreover have "bucket t ob (of_nat j) = bucket s ob (of_nat j)" using t(6) Cons.prems(3) by (simp add: bucket_def)
    ultimately show ?thesis using Cons.prems(4) [of j] that by simp
  qed
  have "set (B j) \<inter> entries N1 = {}" if "j \<in> set is" for j
    using Cons.prems(5) [of j] Cons.prems(6) [of i j] Cons.prems(7) that t(3) by auto
  then obtain s' N' where "for_buckets (\<lambda>i s. rehash_chain nb cap (bucket s ob i) s) is t = Some s'" "table s' nb cap N'"
    "entries N' = entries N1 \<union> (\<Union>i\<in>set is. set (B i))" "same_entries t s'"
    using Cons.IH [OF t(2) Cons.prems(2,3) rest] Cons.prems(6,7) by auto
  then show ?case using t same_entries_trans [of s t s'] by (intro exI [of _ s'] exI [of _ N']) auto
qed

section \<open>Tables as maps\<close>

definition keys_ok :: "memory \<Rightarrow> 'c hashmaps \<Rightarrow> u64 set \<Rightarrow> (u64 \<Rightarrow> u8 list) \<Rightarrow> bool" where
  "keys_ok m s E K \<longleftrightarrow> (\<forall>e\<in>E. cstr m (he_key s e) (K e) \<and> he_hash s e = fnv (K e)) \<and> inj_on K E"

definition maps_to :: "'c hashmaps \<Rightarrow> u64 set \<Rightarrow> (u64 \<Rightarrow> u8 list) \<Rightarrow> (u8 list \<rightharpoonup> u64) \<Rightarrow> bool" where
  "maps_to s E K M \<longleftrightarrow> (\<forall>k v. M k = Some v \<longleftrightarrow> (\<exists>e\<in>E. K e = k \<and> he_value s e = v))"

definition hashmap_rep ::
  "memory \<Rightarrow> 'c hashmaps \<Rightarrow> u64 \<Rightarrow> (u32 \<Rightarrow> u64 list) \<Rightarrow> (u64 \<Rightarrow> u8 list) \<Rightarrow> (u8 list \<rightharpoonup> u64) \<Rightarrow> bool" where
  "hashmap_rep m s hm N K M \<longleftrightarrow> table s (hm_buckets (hm_maps s hm)) (hm_capacity (hm_maps s hm)) N \<and>
     hm_capacity (hm_maps s hm) \<noteq> 0 \<and> hm_size (hm_maps s hm) = of_nat (card (entries N)) \<and>
     keys_ok m s (entries N) K \<and> maps_to s (entries N) K M"

text \<open>The table, with its entries live in the entry cache and its bucket array in use on the heap.\<close>

definition hashmap_inv ::
  "('c \<Rightarrow> (u64 \<rightharpoonup> u64 set) \<Rightarrow> bool) \<Rightarrow> ('c \<Rightarrow> u64 set \<Rightarrow> bool) \<Rightarrow> memory \<Rightarrow> 'c hashmaps \<Rightarrow> u64 \<Rightarrow> (u8 list \<rightharpoonup> u64) \<Rightarrow> bool" where
  "hashmap_inv rep hrep m s hm M \<longleftrightarrow> (\<exists>N K L X A. hashmap_rep m s hm N K M \<and> rep (hm_alloc s) L \<and>
     L (entry_cache s) = Some X \<and> entries N \<subseteq> X \<and> hrep (hm_alloc s) A \<and> hm_buckets (hm_maps s hm) \<in> A)"

lemma finite_entries [simp]: "finite (entries N)"
  by (simp add: entries_def)

lemma maps_to_None: "maps_to s E K M \<Longrightarrow> M k = None \<longleftrightarrow> (\<forall>e\<in>E. K e \<noteq> k)"
  unfolding maps_to_def by (metis not_None_eq)

lemma keys_okD: "keys_ok m s E K \<Longrightarrow> e \<in> E \<Longrightarrow> cstr m (he_key s e) (K e) \<and> he_hash s e = fnv (K e)"
  by (simp add: keys_ok_def)

lemma find_entry_find:
  assumes "ochain (he_next s) e xs" and "\<And>x. x \<in> set xs \<Longrightarrow> cstr m (he_key s x) (K x) \<and> he_hash s x = fnv (K x)"
    and "cstr m key k"
  shows "find_entry m (fnv k) key e s = Some (case List.find (\<lambda>x. K x = k) xs of None \<Rightarrow> NULL | Some x \<Rightarrow> x)"
  using assms(1,2)
proof (induction xs arbitrary: e)
  case Nil
  then show ?case by (simp add: find_entry.simps)
next
  case (Cons x xs)
  have x: "e = x" "x \<noteq> NULL" "ochain (he_next s) (he_next s x) xs" "cstr m (he_key s x) (K x)" "he_hash s x = fnv (K x)"
    using Cons.prems by auto
  obtain r where r: "strcmp m (he_key s x) key = Some r" "r = 0 \<longleftrightarrow> K x = k" using strcmp_cstr [OF x(4) assms(3)] by blast
  have ih: "find_entry m (fnv k) key (he_next s x) s = Some (case List.find (\<lambda>x. K x = k) xs of None \<Rightarrow> NULL | Some x \<Rightarrow> x)"
    using Cons.IH [OF x(3)] Cons.prems(2) by simp
  show ?case
    using x r ih by (cases "K x = k"; cases "fnv (K x) = fnv k") (simp_all add: find_entry.simps [of m "fnv k" key x])
qed

text \<open>Looking up a key in the bucket its hash selects.\<close>

lemma bucket_find:
  assumes rep: "hashmap_rep m s hm N K M" and key: "cstr m key k"
  defines "cap \<equiv> hm_capacity (hm_maps s hm)"
  obtains (absent) "M k = None" "find_entry m (fnv k) key (bucket s (hm_buckets (hm_maps s hm)) (fnv k mod cap)) s = Some NULL"
    | (present) e where "e \<in> set (N (fnv k mod cap))" "K e = k" "M k = Some (he_value s e)" "e \<noteq> NULL"
      "find_entry m (fnv k) key (bucket s (hm_buckets (hm_maps s hm)) (fnv k mod cap)) s = Some e"
proof -
  let ?b = "hm_buckets (hm_maps s hm)" and ?i = "fnv k mod cap"
  have tab: "table s ?b cap N" and cap: "cap \<noteq> 0" and ks: "keys_ok m s (entries N) K" and mt: "maps_to s (entries N) K M"
    using rep by (auto simp: hashmap_rep_def cap_def)
  have i: "?i < cap" using cap by (simp add: word_mod_less_divisor word_gt_0)
  have ch: "ochain (he_next s) (bucket s ?b ?i) (N ?i)" by (rule tableD(1) [OF tab i])
  have fe: "find_entry m (fnv k) key (bucket s ?b ?i) s = Some (case List.find (\<lambda>x. K x = k) (N ?i) of None \<Rightarrow> NULL | Some x \<Rightarrow> x)"
    using ks by (intro find_entry_find [OF ch _ key]) (auto simp: keys_ok_def entries_mem)
  show thesis
  proof (cases "List.find (\<lambda>x. K x = k) (N ?i)")
    case None
    have "K e \<noteq> k" if "e \<in> entries N" for e
    proof
      assume "K e = k"
      then have "e \<in> set (N ?i)" using tableD(5) [OF tab that] keys_okD [OF ks that] by simp
      then show False using None \<open>K e = k\<close> by (auto simp: find_None_iff)
    qed
    then show thesis using absent fe None maps_to_None [OF mt] by simp
  next
    case (Some e)
    then have e: "e \<in> set (N ?i)" "K e = k" by (auto simp: find_Some_iff)
    then have "e \<in> entries N" by (auto simp: entries_mem)
    then have "M k = Some (he_value s e)" using mt e(2) unfolding maps_to_def by blast
    then show thesis using present e fe Some ochain_not_NULL [OF ch e(1)] by simp
  qed
qed

lemma hashmap_get_rep:
  assumes "hashmap_rep m s hm N K M" and "cstr m key k"
  shows "hashmap_get m hm key s = Some (case M k of None \<Rightarrow> NULL | Some v \<Rightarrow> v)" and "hashmap_has m hm key s = Some (k \<in> dom M)"
  using assms(2) by (cases rule: bucket_find [OF assms]; simp add: hashmap_get_def hashmap_has_def hash_str_fnv Let_def dom_def)+

lemma hashmap_rep_cong:
  assumes "hashmap_rep m s hm N K M" and "he_key s' = he_key s" "he_value s' = he_value s" "he_hash s' = he_hash s"
    and "table s' (hm_buckets (hm_maps s' hm)) (hm_capacity (hm_maps s' hm)) N'" "entries N' = entries N"
    and "hm_capacity (hm_maps s' hm) \<noteq> 0" "hm_size (hm_maps s' hm) = hm_size (hm_maps s hm)"
  shows "hashmap_rep m s' hm N' K M"
  using assms by (simp add: hashmap_rep_def keys_ok_def maps_to_def)

context kernel_alloc
begin

text \<open>Growing the table keeps the map; a failed allocation keeps the table.\<close>

lemma rehash_inv:
  assumes rep: "hashmap_rep m s hm N K M" and cache: "rep (hm_alloc s) L" and heap: "hrep (hm_alloc s) A" "hm_buckets (hm_maps s hm) \<in> A"
    and cap: "new_cap \<noteq> 0"
  shows "\<exists>r s' N' A'. rehash malloc mfree hm new_cap s = Some (r, s') \<and> hashmap_rep m s' hm N' K M \<and> entries N' = entries N \<and>
    rep (hm_alloc s') L \<and> hrep (hm_alloc s') A' \<and> hm_buckets (hm_maps s' hm) \<in> A' \<and> entry_cache s' = entry_cache s \<and>
    map_cache s' = map_cache s \<and> hm_capacity (hm_maps s' hm) \<in> {new_cap, hm_capacity (hm_maps s hm)}"
proof -
  let ?t = "hm_maps s hm"
  have "unat (ucast new_cap * 8 :: u64) < 2 ^ 64 - 16"
  proof -
    have "unat new_cap * 8 < 4294967296 * 8" using unat_u32_bound_num [of new_cap] by (intro mult_strict_right_mono) simp_all
    then have "unat new_cap * 8 < 2 ^ 64 - 16" by (rule less_trans) simp
    then show ?thesis by (subst unat_mult_u64) (simp_all add: less_trans [of "unat new_cap * 8"])
  qed
  from malloc_rep [OF heap(1) this] obtain nb c
    where al: "malloc (ucast new_cap * 8) (hm_alloc s) = Some (nb, c)"
      and nb: "nb = NULL \<and> hrep c A \<or> nb \<noteq> NULL \<and> nb \<notin> A \<and> hrep c (insert nb A)" by blast
  have cL: "rep c L" by (rule malloc_cache [OF cache al])
  show ?thesis
  proof (cases "nb = NULL")
    case True
    have "hashmap_rep m (s\<lparr>hm_alloc := c\<rparr>) hm N K M"
      using rep by (simp add: hashmap_rep_def keys_ok_def maps_to_def table_def bucket_def)
    then show ?thesis using al nb True cL heap(2)
      by (intro exI [of _ False] exI [of _ "s\<lparr>hm_alloc := c\<rparr>"] exI [of _ N] exI [of _ A]) (simp add: rehash_def)
  next
    case False
    let ?b = "hm_buckets ?t"
    define t where "t = zero_buckets nb new_cap (s\<lparr>hm_alloc := c\<rparr>)"
    have ne: "nb \<noteq> ?b" using nb False heap(2) by auto
    have tab: "table s ?b (hm_capacity ?t) N" using rep by (simp add: hashmap_rep_def)
    have ids: "unat (of_nat i :: u32) = i" if "i < unat (hm_capacity ?t)" for i
      using that unat_u32_bound [of "hm_capacity ?t"] by (intro unat_of_nat_u32) linarith
    have "table t nb new_cap (\<lambda>_. [])" by (simp add: table_def t_def zero_buckets_def bucket_def)
    moreover have "ochain (he_next t) (bucket t ?b (of_nat i)) (N (of_nat i)) \<and> distinct (N (of_nat i))"
      if "i \<in> set [0..<unat (hm_capacity ?t)]" for i
    proof -
      have "of_nat i < hm_capacity ?t" using that ids [of i] by (simp add: word_less_nat_alt)
      then show ?thesis using tableD(1,3) [OF tab] ne by (simp add: t_def zero_buckets_def bucket_def)
    qed
    moreover have "set (N (of_nat i)) \<inter> set (N (of_nat j)) = {}"
      if "i \<in> set [0..<unat (hm_capacity ?t)]" "j \<in> set [0..<unat (hm_capacity ?t)]" "i \<noteq> j" for i j
    proof -
      have "(of_nat i :: u32) \<noteq> of_nat j" using ids [of i] ids [of j] that by (metis atLeastLessThan_iff set_upt)
      then show ?thesis using tableD(4) [OF tab] by blast
    qed
    ultimately obtain u N' where u: "for_buckets (\<lambda>i s. rehash_chain nb new_cap (bucket s ?b i) s) [0..<unat (hm_capacity ?t)] t = Some u"
      "table u nb new_cap N'" "entries N' = entries (\<lambda>_. []) \<union> (\<Union>i\<in>set [0..<unat (hm_capacity ?t)]. set (N (of_nat i)))" "same_entries t u"
      using for_buckets_rehash [of t nb new_cap "\<lambda>_. []" ?b "[0..<unat (hm_capacity ?t)]" "\<lambda>i. N (of_nat i)"] cap ne
      by (auto simp: entries_def)
    have all: "entries N' = entries N"
    proof -
      have "\<exists>i\<in>set [0..<unat (hm_capacity ?t)]. e \<in> set (N (of_nat i))" if "e \<in> set (N j)" for e j
        using tableD(2) [OF tab that] that by (intro bexI [of _ "unat j"]) (auto simp: word_less_nat_alt)
      then show ?thesis unfolding u(3) by (auto simp: entries_def)
    qed
    define s' where "s' = upd_map hm (\<lambda>t. t\<lparr>hm_buckets := nb, hm_capacity := new_cap\<rparr>) (u\<lparr>hm_alloc := mfree ?b (hm_alloc u)\<rparr>)"
    have run: "rehash malloc mfree hm new_cap s = Some (True, s')"
      using al False u(1) by (simp add: rehash_def t_def [symmetric] s'_def Let_def) (simp add: t_def zero_buckets_def)
    have same: "he_key u = he_key s" "he_value u = he_value s" "he_hash u = he_hash s" "hm_maps u = hm_maps s"
      "entry_cache u = entry_cache s" "map_cache u = map_cache s" "hm_alloc u = c"
      using u(4) by (simp_all add: same_entries_def t_def zero_buckets_def)
    have "table s' nb new_cap N'" using u(2) by (simp add: table_def s'_def upd_map_def bucket_def)
    then have "hashmap_rep m s' hm N' K M"
      by (intro hashmap_rep_cong [OF rep _ _ _ _ all]) (simp_all add: s'_def upd_map_def same cap)
    moreover have "hrep (mfree ?b c) (insert nb A - {?b})" using nb False heap(2) by (intro mfree_rep) auto
    moreover have "rep (mfree ?b c) L" by (rule mfree_cache [OF cL])
    ultimately show ?thesis
      using run all ne by (intro exI [of _ True] exI [of _ s'] exI [of _ N'] exI [of _ "insert nb A - {?b}"]) (auto simp: s'_def upd_map_def same)
  qed
qed

lemma set_value_rep:
  assumes rep: "hashmap_rep m s hm N K M" and e: "e \<in> entries N" "K e = k"
  shows "hashmap_rep m (s\<lparr>he_value := (he_value s)(e := v)\<rparr>) hm N K (M(k \<mapsto> v))"
proof -
  have inj: "inj_on K (entries N)" and mt: "maps_to s (entries N) K M"
    using rep by (auto simp: hashmap_rep_def keys_ok_def)
  have only: "x = e" if "x \<in> entries N" "K x = k" for x using inj_onD [OF inj] that e by metis
  have "maps_to (s\<lparr>he_value := (he_value s)(e := v)\<rparr>) (entries N) K (M(k \<mapsto> v))"
    unfolding maps_to_def
  proof (intro allI)
    fix k' v'
    show "(M(k \<mapsto> v)) k' = Some v' \<longleftrightarrow>
        (\<exists>x\<in>entries N. K x = k' \<and> he_value (s\<lparr>he_value := (he_value s)(e := v)\<rparr>) x = v')"
    proof (cases "k' = k")
      case True
      have "(\<exists>x\<in>entries N. K x = k \<and> ((he_value s)(e := v)) x = v') \<longleftrightarrow> v = v'"
        using e only by (metis fun_upd_same)
      then show ?thesis using True by simp
    next
      case False
      then have "M k' = Some v' \<longleftrightarrow> (\<exists>x\<in>entries N. K x = k' \<and> he_value s x = v')" using mt by (simp add: maps_to_def)
      moreover have "x \<noteq> e" if "K x = k'" for x using that False e(2) by auto
      ultimately show ?thesis using False by auto
    qed
  qed
  then show ?thesis using rep by (simp add: hashmap_rep_def keys_ok_def table_def bucket_def)
qed

lemma insert_rep:
  assumes rep: "hashmap_rep m s hm N K M" and e: "e \<notin> entries N" "e \<noteq> NULL" and key: "cstr m key k" and M: "M k = None"
    and s': "he_key s' = (he_key s)(e := key)" "he_value s' = (he_value s)(e := v)" "he_hash s' = (he_hash s)(e := fnv k)"
      "he_next s' = (he_next s)(e := bucket s (hm_buckets (hm_maps s hm)) idx)"
      "hb_cells s' (hm_buckets (hm_maps s hm)) = (hb_cells s (hm_buckets (hm_maps s hm)))(idx := e)"
      "hm_maps s' hm = (hm_maps s hm)\<lparr>hm_size := hm_size (hm_maps s hm) + 1\<rparr>"
    and idx: "idx = fnv k mod hm_capacity (hm_maps s hm)"
  shows "hashmap_rep m s' hm (N(idx := e # N idx)) (K(e := k)) (M(k \<mapsto> v))"
proof -
  let ?cap = "hm_capacity (hm_maps s hm)" and ?b = "hm_buckets (hm_maps s hm)" and ?E = "entries N"
  have tab: "table s ?b ?cap N" and cap: "?cap \<noteq> 0" and ks: "keys_ok m s ?E K" and mt: "maps_to s ?E K M"
    using rep by (auto simp: hashmap_rep_def)
  have i: "idx < ?cap" using cap by (simp add: idx word_mod_less_divisor word_gt_0)
  define t where "t = s\<lparr>he_hash := (he_hash s)(e := fnv k)\<rparr>"
  have tt: "table t ?b ?cap N" using tab e(1) unfolding table_def t_def by (auto simp: bucket_def entries_mem)
  have "table s' ?b ?cap (N(idx := e # N idx))"
    by (rule table_push [OF tt e]) (use i in \<open>auto simp: t_def s' idx bucket_def\<close>)
  moreover have absent: "K x \<noteq> k" if "x \<in> ?E" for x using maps_to_None [OF mt, of k] M that by blast
  have "keys_ok m s' (insert e ?E) (K(e := k))"
    using ks e(1) key absent unfolding keys_ok_def by (auto simp: s' inj_on_def)
  moreover have "maps_to s' (insert e ?E) (K(e := k)) (M(k \<mapsto> v))"
    unfolding maps_to_def
  proof (intro allI)
    fix k' v'
    have Mk: "M k' = Some v' \<longleftrightarrow> (\<exists>x\<in>?E. K x = k' \<and> he_value s x = v')" using mt by (simp add: maps_to_def)
    have old: "(\<exists>x\<in>?E. (K(e := k)) x = k' \<and> he_value s' x = v') \<longleftrightarrow> (\<exists>x\<in>?E. K x = k' \<and> he_value s x = v')"
      using e(1) by (intro bex_cong) (auto simp: s')
    have "(\<exists>x\<in>insert e ?E. (K(e := k)) x = k' \<and> he_value s' x = v') \<longleftrightarrow> k = k' \<and> v = v' \<or> M k' = Some v'"
      unfolding bex_simps(5) old Mk by (simp add: s')
    then show "(M(k \<mapsto> v)) k' = Some v' \<longleftrightarrow> (\<exists>x\<in>insert e ?E. (K(e := k)) x = k' \<and> he_value s' x = v')"
      using M by (cases "k' = k") simp_all
  qed
  moreover have "card (insert e ?E) = Suc (card ?E)" using e(1) by simp
  ultimately show ?thesis using rep unfolding hashmap_rep_def entries_upd by (auto simp: s')
qed

lemma hashmap_set_inv:
  assumes inv: "hashmap_inv rep hrep m s hm M" and key: "cstr m key k" and cap: "unat (hm_capacity (hm_maps s hm)) < 2 ^ 31"
  shows "\<exists>r s'. hashmap_set m alloc malloc mfree hm key v s = Some (r, s') \<and>
    hashmap_inv rep hrep m s' hm (if r then M(k \<mapsto> v) else M) \<and> (\<not> r \<longrightarrow> M k = None)"
proof -
  obtain N0 K L X A0 where rep0: "hashmap_rep m s hm N0 K M" and c0: "rep (hm_alloc s) L" and LX: "L (entry_cache s) = Some X"
    and sub: "entries N0 \<subseteq> X" and h0: "hrep (hm_alloc s) A0" "hm_buckets (hm_maps s hm) \<in> A0"
    using inv unfolding hashmap_inv_def by blast
  have "hm_capacity (hm_maps s hm) \<noteq> 0" using rep0 by (simp add: hashmap_rep_def)
  then have "0 < unat (hm_capacity (hm_maps s hm))" by (simp add: unat_gt_0)
  moreover have "unat (hm_capacity (hm_maps s hm) * 2) = unat (hm_capacity (hm_maps s hm)) * 2"
    using cap by (simp add: unat_word_ariths)
  ultimately have nz: "hm_capacity (hm_maps s hm) * 2 \<noteq> 0" by (metis less_irrefl mult_pos_pos unat_0 zero_less_numeral)
  define grow where "grow = (if hm_capacity (hm_maps s hm) * HASHMAP_LOAD_FACTOR_NUM div HASHMAP_LOAD_FACTOR_DEN \<le> hm_size (hm_maps s hm)
        then map_option snd (rehash malloc mfree hm (hm_capacity (hm_maps s hm) * 2) s) else Some s)"
  obtain t N A where grow: "grow = Some t" and rep: "hashmap_rep m t hm N K M" and E: "entries N = entries N0"
    and c: "rep (hm_alloc t) L" and h: "hrep (hm_alloc t) A" "hm_buckets (hm_maps t hm) \<in> A" and ec: "entry_cache t = entry_cache s"
  proof (cases "hm_capacity (hm_maps s hm) * HASHMAP_LOAD_FACTOR_NUM div HASHMAP_LOAD_FACTOR_DEN \<le> hm_size (hm_maps s hm)")
    case True
    then show thesis using rehash_inv [OF rep0 c0 h0 nz] that unfolding grow_def by auto
  next
    case False
    then show thesis using rep0 c0 h0 by (intro that [of s N0 A0]) (auto simp: grow_def)
  qed
  let ?tt = "hm_maps t hm" and ?i = "fnv k mod hm_capacity (hm_maps t hm)"
  have set_eq: "hashmap_set m alloc malloc mfree hm key v s = Option.bind (find_entry m (fnv k) key (bucket t (hm_buckets ?tt) ?i) t) (\<lambda>e.
      if e \<noteq> NULL then Some (True, t\<lparr>he_value := (he_value t)(e := v)\<rparr>)
      else let (e, s) = entry_alloc alloc key v (fnv k) t
           in if e = NULL then Some (False, s)
              else let s = s\<lparr>he_next := (he_next s)(e := bucket s (hm_buckets ?tt) ?i)\<rparr>; s = set_bucket (hm_buckets ?tt) ?i e s
                   in Some (True, upd_map hm (\<lambda>t. t\<lparr>hm_size := hm_size t + 1\<rparr>) s))"
    using grow by (simp add: hashmap_set_def grow_def [symmetric] hash_str_fnv [OF key] Let_def)
  show ?thesis
  proof (cases rule: bucket_find [OF rep key])
    case (2 e)
    then have "e \<in> entries N" by (auto simp: entries_mem)
    from set_value_rep [OF rep this 2(2), of v]
    have "hashmap_inv rep hrep m (t\<lparr>he_value := (he_value t)(e := v)\<rparr>) hm (M(k \<mapsto> v))"
      unfolding hashmap_inv_def using c LX sub h E ec by (intro exI) auto
    then show ?thesis using 2 by (auto simp: set_eq)
  next
    case 1
    obtain e d where al: "alloc (entry_cache t) (hm_alloc t) = (e, d)" by fastforce
    have LX': "L (entry_cache t) = Some X" using LX ec by simp
    note ar = alloc_rep [OF c LX' al] and ah = alloc_heap [OF h(1) al]
    show ?thesis
    proof (cases "e = NULL")
      case True
      have "hashmap_rep m (t\<lparr>hm_alloc := d\<rparr>) hm N K M"
        using rep by (simp add: hashmap_rep_def keys_ok_def maps_to_def table_def bucket_def)
      then have "hashmap_inv rep hrep m (t\<lparr>hm_alloc := d\<rparr>) hm M"
        unfolding hashmap_inv_def using ar True ah LX' sub E h(2) by (intro exI) auto
      then show ?thesis using 1 al True by (auto simp: set_eq entry_alloc_def)
    next
      case False
      have "e \<notin> X" "rep d (L(entry_cache t \<mapsto> insert e X))" using ar False LX' by auto
      then have e: "e \<notin> entries N" using sub E by auto
      define u where "u = upd_map hm (\<lambda>t. t\<lparr>hm_size := hm_size t + 1\<rparr>) (set_bucket (hm_buckets ?tt) ?i e
        (t\<lparr>hm_alloc := d, he_key := (he_key t)(e := key), he_value := (he_value t)(e := v), he_hash := (he_hash t)(e := fnv k),
           he_next := (he_next t)(e := bucket t (hm_buckets ?tt) ?i)\<rparr>))"
      have run: "hashmap_set m alloc malloc mfree hm key v s = Some (True, u)"
        using 1 al False by (simp add: set_eq entry_alloc_def u_def bucket_def)
      have "hashmap_rep m u hm (N(?i := e # N ?i)) (K(e := k)) (M(k \<mapsto> v))"
        by (rule insert_rep [OF rep e False key 1(1)]) (simp_all add: u_def upd_map_def set_bucket_def)
      then have "hashmap_inv rep hrep m u hm (M(k \<mapsto> v))"
        unfolding hashmap_inv_def
        using \<open>rep d (L(entry_cache t \<mapsto> insert e X))\<close> sub E ah h(2)
        by (intro exI [of _ "N(?i := e # N ?i)"] exI [of _ "K(e := k)"] exI [of _ "L(entry_cache t \<mapsto> insert e X)"] exI [of _ "insert e X"] exI [of _ A])
          (auto simp: entries_upd u_def upd_map_def set_bucket_def)
      then show ?thesis using run by auto
    qed
  qed
qed

end

section \<open>Removal\<close>

definition place_of :: "u64 \<Rightarrow> u32 \<Rightarrow> u64 list \<Rightarrow> link_place" where
  "place_of b i ps = (if ps = [] then Bucket b i else Next (last ps))"

lemma ochain_place:
  "ochain f p (ps @ xs) \<Longrightarrow> (if ps = [] then p else f (last ps)) = head_of xs NULL"
proof (induction ps arbitrary: p)
  case Nil
  then show ?case by (cases xs) auto
next
  case (Cons x ps)
  then show ?case using Cons.IH [of "f x"] by auto
qed

lemma read_place_head:
  assumes "ochain (he_next s) (bucket s b i) (ps @ xs)"
  shows "read_place (place_of b i ps) s = head_of xs NULL"
  using ochain_place [OF assms] by (cases "ps = []") (simp_all add: place_of_def)

definition unlinked :: "'c cc_free \<Rightarrow> u64 \<Rightarrow> u64 \<Rightarrow> u32 \<Rightarrow> u64 list \<Rightarrow> u64 \<Rightarrow> 'c hashmaps \<Rightarrow> 'c hashmaps" where
  "unlinked cf hm b i ps e s =
     upd_map hm (\<lambda>t. t\<lparr>hm_size := hm_size t - 1\<rparr>) (entry_free cf e (write_place (place_of b i ps) (he_next s e) s))"

lemma write_place_value: "he_value (write_place p v s) = he_value s"
  by (cases p) (simp_all add: set_bucket_def)

lemma remove_loop_eq:
  assumes "ochain (he_next s) (bucket s b i) (ps @ xs)"
    and "\<And>x. x \<in> set xs \<Longrightarrow> cstr m (he_key s x) (K x) \<and> he_hash s x = fnv (K x)" and "cstr m key k"
  shows "remove_loop m cf hm (fnv k) key (place_of b i ps) s =
    Some (case List.find (\<lambda>x. K x = k) xs of None \<Rightarrow> (NULL, s)
      | Some e \<Rightarrow> (he_value s e, unlinked cf hm b i (ps @ takeWhile (\<lambda>x. K x \<noteq> k) xs) e s))"
  using assms(1,2)
proof (induction xs arbitrary: ps)
  case Nil
  then show ?case using read_place_head [OF Nil(1)] by (simp add: remove_loop.simps)
next
  case (Cons x xs)
  have x: "x \<noteq> NULL" using ochain_not_NULL [OF Cons.prems(1)] by simp
  have kx: "cstr m (he_key s x) (K x)" "he_hash s x = fnv (K x)" using Cons.prems(2) by auto
  obtain r where r: "strcmp m (he_key s x) key = Some r" "r = 0 \<longleftrightarrow> K x = k" using strcmp_cstr [OF kx(1) assms(3)] by blast
  have "ochain (he_next s) (bucket s b i) ((ps @ [x]) @ xs)" using Cons.prems(1) by simp
  from Cons.IH [OF this] Cons.prems(2)
  have ih: "remove_loop m cf hm (fnv k) key (Next x) s = Some (case List.find (\<lambda>x. K x = k) xs of None \<Rightarrow> (NULL, s)
      | Some e \<Rightarrow> (he_value s e, unlinked cf hm b i ((ps @ [x]) @ takeWhile (\<lambda>x. K x \<noteq> k) xs) e s))"
    by (simp add: place_of_def)
  have rd: "read_place (place_of b i ps) s = x" using read_place_head [OF Cons.prems(1)] by simp
  show ?case
    using x kx r ih rd
    by (cases "K x = k"; cases "fnv (K x) = fnv k")
      (auto simp: remove_loop.simps [of m cf hm "fnv k" key "place_of b i ps"] Let_def unlinked_def write_place_value split: option.split)
qed

lemma unlink_table:
  assumes tab: "table s b cap N" and N: "N i = ps @ e # ys"
  defines "s' \<equiv> write_place (place_of b i ps) (he_next s e) s"
  shows "table s' b cap (N(i := ps @ ys))" and "entries (N(i := ps @ ys)) = entries N - {e}"
    and "he_key s' = he_key s" "he_value s' = he_value s" "he_hash s' = he_hash s" "hm_maps s' = hm_maps s" "hm_alloc s' = hm_alloc s"
      "entry_cache s' = entry_cache s"
proof -
  show same: "he_key s' = he_key s" "he_value s' = he_value s" "he_hash s' = he_hash s" "hm_maps s' = hm_maps s" "hm_alloc s' = hm_alloc s"
      "entry_cache s' = entry_cache s"
    unfolding s'_def place_of_def by (simp_all add: set_bucket_def)
  have d: "distinct (ps @ e # ys)" using tableD(3) [OF tab, of i] N by simp
  have i: "i < cap" using tableD(2) [OF tab, of e i] N by simp
  have ch: "ochain (he_next s) (bucket s b i) (ps @ e # ys)" using tableD(1) [OF tab i] N by simp
  have eN: "e \<in> set (N j) \<Longrightarrow> j = i" for j using tableD(4) [OF tab, of e j i] N by simp
  show "entries (N(i := ps @ ys)) = entries N - {e}"
  proof (rule set_eqI)
    fix x
    show "x \<in> entries (N(i := ps @ ys)) \<longleftrightarrow> x \<in> entries N - {e}"
    proof (cases "x = e")
      case True
      then show ?thesis using d eN by (auto simp: entries_mem split: if_splits)
    next
      case False
      have "x \<in> set ((N(i := ps @ ys)) j) \<longleftrightarrow> x \<in> set (N j)" for j using False N by auto
      then show ?thesis using False by (simp add: entries_mem)
    qed
  qed
  have "ochain (he_next s') (bucket s' b j) ((N(i := ps @ ys)) j)" if "j < cap" for j
  proof (cases "ps = []")
    case True
    then show ?thesis using ch tableD(1) [OF tab that] by (auto simp: s'_def place_of_def set_bucket_def bucket_def)
  next
    case False
    show ?thesis
    proof (cases "j = i")
      case True
      have "ochain ((he_next s)(last ps := he_next s e)) (bucket s b i) (ps @ ys)" by (rule ochain_unlink [OF ch d False])
      then show ?thesis using True False by (simp add: s'_def place_of_def bucket_def fun_upd_def)
    next
      case ne: False
      have "last ps \<notin> set (N j)" using False ne tableD(4) [OF tab, of "last ps" i j] N by auto
      then have "ochain ((he_next s)(last ps := he_next s e)) p (N j) = ochain (he_next s) p (N j)" for p
        by (intro ochain_cong) auto
      then show ?thesis using tableD(1) [OF tab that] ne False by (simp add: s'_def place_of_def bucket_def fun_upd_def)
    qed
  qed
  moreover have "j < cap \<and> he_hash s' x mod cap = j" if "x \<in> set ((N(i := ps @ ys)) j)" for x j
    using that tableD(2) [OF tab, of x j] N by (auto simp: same split: if_splits)
  moreover have "distinct ((N(i := ps @ ys)) j)" for j using tableD(3) [OF tab, of j] d by auto
  ultimately show "table s' b cap (N(i := ps @ ys))" unfolding table_def by blast
qed

lemma find_takeWhile: "List.find P xs = Some e \<Longrightarrow> \<exists>ys. xs = takeWhile (Not \<circ> P) xs @ e # ys \<and> P e"
  by (induction xs) (auto split: if_splits)

context kernel_alloc
begin

lemma hashmap_remove_inv:
  assumes inv: "hashmap_inv rep hrep m s hm M" and key: "cstr m key k"
  shows "\<exists>s'. hashmap_remove m free hm key s = Some (case M k of None \<Rightarrow> NULL | Some v \<Rightarrow> v, s') \<and>
    hashmap_inv rep hrep m s' hm (M(k := None))"
proof -
  obtain N K L X A where rep: "hashmap_rep m s hm N K M" and c: "rep (hm_alloc s) L" and LX: "L (entry_cache s) = Some X"
    and sub: "entries N \<subseteq> X" and h: "hrep (hm_alloc s) A" "hm_buckets (hm_maps s hm) \<in> A"
    using inv unfolding hashmap_inv_def by blast
  let ?b = "hm_buckets (hm_maps s hm)" and ?cap = "hm_capacity (hm_maps s hm)"
  define i where "i = fnv k mod ?cap"
  have tab: "table s ?b ?cap N" and cap: "?cap \<noteq> 0" and ks: "keys_ok m s (entries N) K" and mt: "maps_to s (entries N) K M"
    and sz: "hm_size (hm_maps s hm) = of_nat (card (entries N))"
    using rep by (auto simp: hashmap_rep_def)
  have i: "i < ?cap" using cap by (simp add: i_def word_mod_less_divisor word_gt_0)
  have ch: "ochain (he_next s) (bucket s ?b i) ([] @ N i)" using tableD(1) [OF tab i] by simp
  have run: "hashmap_remove m free hm key s = Some (case List.find (\<lambda>x. K x = k) (N i) of None \<Rightarrow> (NULL, s)
      | Some e \<Rightarrow> (he_value s e, unlinked free hm ?b i (takeWhile (\<lambda>x. K x \<noteq> k) (N i)) e s))"
  proof -
    have "cstr m (he_key s x) (K x) \<and> he_hash s x = fnv (K x)" if "x \<in> set (N i)" for x
      using keys_okD [OF ks] that by (auto simp: entries_mem)
    from remove_loop_eq [OF ch this key, where cf = free and hm = hm] show ?thesis
      by (simp only: hashmap_remove_def hash_str_fnv [OF key] Let_def i_def [symmetric] place_of_def append_Nil simp_thms if_True Option.bind.bind_lunit)
  qed
  show ?thesis
  proof (cases "List.find (\<lambda>x. K x = k) (N i)")
    case None
    have "K e \<noteq> k" if "e \<in> entries N" for e
    proof
      assume "K e = k"
      then have "e \<in> set (N i)" using tableD(5) [OF tab that] keys_okD [OF ks that] by (simp add: i_def)
      then show False using None \<open>K e = k\<close> by (auto simp: find_None_iff)
    qed
    then have "M k = None" using maps_to_None [OF mt] by simp
    then have "M(k := None) = M" by auto
    with \<open>M k = None\<close> show ?thesis using run None inv by simp
  next
    case (Some e)
    obtain ys where ys: "N i = takeWhile (\<lambda>x. K x \<noteq> k) (N i) @ e # ys" and ek: "K e = k"
      using find_takeWhile [OF Some] by (auto simp: comp_def)
    define ps where "ps = takeWhile (\<lambda>x. K x \<noteq> k) (N i)"
    note un = unlink_table [OF tab ys [folded ps_def]]
    have eE: "e \<in> entries N" using ys by (metis entries_mem in_set_conv_decomp)
    have Mk: "M k = Some (he_value s e)" using mt ek eE unfolding maps_to_def by blast
    define s' where "s' = unlinked free hm ?b i ps e s"
    have sel: "he_key s' = he_key s" "he_value s' = he_value s" "he_hash s' = he_hash s"
      "hm_maps s' = (hm_maps s)(hm := (hm_maps s hm)\<lparr>hm_size := hm_size (hm_maps s hm) - 1\<rparr>)"
      "hm_alloc s' = free (entry_cache s) e (hm_alloc s)" "entry_cache s' = entry_cache s"
      by (simp_all add: s'_def unlinked_def upd_map_def entry_free_def un)
    have tab': "table s' ?b ?cap (N(i := ps @ ys))"
      using un(1) by (simp add: s'_def unlinked_def upd_map_def entry_free_def table_def bucket_def)
    have inj: "inj_on K (entries N)" using ks by (simp add: keys_ok_def)
    have only: "x = e" if "x \<in> entries N" "K x = k" for x using inj_onD [OF inj] that ek eE by metis
    have "maps_to s' (entries N - {e}) K (M(k := None))"
      unfolding maps_to_def
    proof (intro allI)
      fix k' v'
      show "(M(k := None)) k' = Some v' \<longleftrightarrow> (\<exists>x\<in>entries N - {e}. K x = k' \<and> he_value s' x = v')"
      proof (cases "k' = k")
        case True
        then show ?thesis using only by auto
      next
        case False
        then have "M k' = Some v' \<longleftrightarrow> (\<exists>x\<in>entries N. K x = k' \<and> he_value s x = v')" using mt by (simp add: maps_to_def)
        then show ?thesis using False ek by (auto simp: sel)
      qed
    qed
    moreover have "keys_ok m s' (entries N - {e}) K" using ks unfolding keys_ok_def by (auto simp: sel intro: inj_on_subset)
    moreover have "card (entries N) = Suc (card (entries N - {e}))" 
      by (rule card_Suc_Diff1 [OF finite_entries eE, symmetric])
    ultimately have new: "hashmap_rep m s' hm (N(i := ps @ ys)) K (M(k := None))"
      using tab' cap sz unfolding hashmap_rep_def un(2) by (simp add: sel)
    have crep: "rep (hm_alloc s') (L(entry_cache s \<mapsto> X - {e}))" unfolding sel using eE sub by (intro free_rep [OF c LX]) auto
    have hr: "hrep (hm_alloc s') A" unfolding sel by (rule free_heap [OF h(1)])
    have sub': "entries (N(i := ps @ ys)) \<subseteq> X - {e}" using sub unfolding un(2) by blast
    have bk: "hm_buckets (hm_maps s' hm) \<in> A" using h(2) by (simp add: sel(4))
    have lx: "(L(entry_cache s \<mapsto> X - {e})) (entry_cache s') = Some (X - {e})" by (simp add: sel(6))
    have "hashmap_inv rep hrep m s' hm (M(k := None))"
      unfolding hashmap_inv_def by (intro exI conjI) (rule new, rule crep, rule lx, rule sub', rule hr, rule bk)
    then show ?thesis using run Some Mk by (simp add: s'_def ps_def)
  qed
qed

end

section \<open>The kernel's tables\<close>

abbreviation khashmap_inv :: "memory \<Rightarrow> kslab hashmaps \<Rightarrow> u64 \<Rightarrow> (u8 list \<rightharpoonup> u64) \<Rightarrow> bool" where
  "khashmap_inv \<equiv> hashmap_inv kslab_inv (\<lambda>s. heap_blocks (ks_heap s))"

text \<open>An empty table of four buckets and a memory with the key \<open>''a''\<close> at address 100.\<close>

definition hashmap_example :: "kslab hashmaps" where
  "hashmap_example = \<lparr>he_key = (\<lambda>_. 0), he_value = (\<lambda>_. 0), he_hash = (\<lambda>_. 0), he_next = (\<lambda>_. 0), hb_cells = (\<lambda>_ _. 0),
     hm_maps = (\<lambda>_. \<lparr>hm_buckets = 65576, hm_capacity = 4, hm_size = 0\<rparr>), entry_cache = 70000, map_cache = 80000, hm_alloc = kslab_example\<rparr>"

definition key_memory :: memory where
  "key_memory = (\<lambda>_. 0)(100 := 97)"

lemma key_memory_cstr: "cstr key_memory 100 [97]"
  by (simp add: key_memory_def)

lemma hashmap_example_inv: "khashmap_inv key_memory hashmap_example 1 Map.empty"
proof -
  have "heap_blocks kheap_example {65576}"
    unfolding heap_blocks_def
    by (intro exI [of _ "[(65536, 40, False), (65608, 3992, True)]"] conjI kheap_example_inv)
      (auto simp: kh_header_def kheap_example_def KHB_PTR_SIZE_def)
  moreover have "kslab_inv kslab_example [70000 \<mapsto> {}]" by (rule kslab_example_inv) (auto split: if_splits)
  moreover have "hashmap_rep key_memory hashmap_example 1 (\<lambda>_. []) (\<lambda>_. []) Map.empty"
    by (simp add: hashmap_rep_def table_def bucket_def entries_def keys_ok_def maps_to_def hashmap_example_def)
  ultimately show ?thesis
    unfolding hashmap_inv_def
    by (intro exI [of _ "\<lambda>_. []"] exI [of _ "[70000 \<mapsto> {}]"] exI [of _ "{}"] exI [of _ "{65576}"])
      (simp add: entries_def, simp add: hashmap_example_def kslab_example_def)
qed

section \<open>Properties\<close>

text \<open>C27: \<open>hashmap_set\<close> on a table that represents a map always returns; when it reports success the
  table represents the map updated at the key, and when it reports failure the key was absent
  and the map is unchanged.  Growing the table, when the load factor is reached, is invisible,
  whether or not the new bucket array can be allocated.\<close>

theorem hashmap_set_correct:
  assumes "khashmap_inv m s hm M" and "cstr m key k" and "unat (hm_capacity (hm_maps s hm)) < 2 ^ 31"
  shows "\<exists>r s'. hashmap_set m kmem_cache_alloc slab_malloc slab_mfree hm key v s = Some (r, s') \<and>
    khashmap_inv m s' hm (if r then M(k \<mapsto> v) else M) \<and> (\<not> r \<longrightarrow> M k = None)"
  using assms by (rule kern.hashmap_set_inv)

theorem hashmap_set_correct_witness:
  "\<exists>r s'. hashmap_set key_memory kmem_cache_alloc slab_malloc slab_mfree 1 100 7 hashmap_example = Some (r, s') \<and>
     khashmap_inv key_memory s' 1 (if r then [[97] \<mapsto> 7] else Map.empty)"
proof -
  have "unat (hm_capacity (hm_maps hashmap_example 1)) < 2 ^ 31" by (simp add: hashmap_example_def)
  from hashmap_set_correct [OF hashmap_example_inv key_memory_cstr this, of 7] show ?thesis by blast
qed

text \<open>\<open>hashmap_get\<close> and \<open>hashmap_has\<close> always return and answer what the represented map says.\<close>

theorem hashmap_get_correct:
  assumes "khashmap_inv m s hm M" and "cstr m key k"
  shows "hashmap_get m hm key s = Some (case M k of None \<Rightarrow> NULL | Some v \<Rightarrow> v) \<and> hashmap_has m hm key s = Some (k \<in> dom M)"
  using assms hashmap_get_rep unfolding hashmap_inv_def by blast

theorem hashmap_get_correct_witness: "hashmap_get key_memory 1 100 hashmap_example = Some NULL"
  using hashmap_get_correct [OF hashmap_example_inv key_memory_cstr] by simp

text \<open>C9: \<open>hashmap_remove\<close> always returns the value of the key, or \<open>NULL\<close> when it is absent, and leaves
  a table that represents the map without the key; the entry goes back to its cache.\<close>

theorem hashmap_remove_correct:
  assumes "khashmap_inv m s hm M" and "cstr m key k"
  shows "\<exists>s'. hashmap_remove m kmem_cache_free hm key s = Some (case M k of None \<Rightarrow> NULL | Some v \<Rightarrow> v, s') \<and>
    khashmap_inv m s' hm (M(k := None))"
  using assms by (rule kern.hashmap_remove_inv)

theorem hashmap_remove_correct_witness:
  "\<exists>s'. hashmap_remove key_memory kmem_cache_free 1 100 hashmap_example = Some (NULL, s') \<and>
     khashmap_inv key_memory s' 1 Map.empty"
  using hashmap_remove_correct [OF hashmap_example_inv key_memory_cstr] by simp

end
