(* ===== verification/Kbuddy.thy ===== *)
theory Kbuddy
  imports Dll
begin

text \<open>
  \<open>krnl/mem/kbuddy.c\<close>, the buddy allocator: a pool cut into blocks of \<open>2 ^ (6 + order)\<close> bytes, each
  with a header at its start, and one doubly linked list of free blocks for every order.
  Allocation splits a larger block into halves; release joins a block with its buddy, the other
  half of the block both came from, for as long as the buddy is free.

  The header fields are one store per field, addressed by the block.  \<open>buddy_rep s T F H\<close> relates
  the allocator to the cut \<open>T\<close> of the pool (offset of a block to its order), the set \<open>F\<close> of free
  blocks and the free lists \<open>H\<close>.
\<close>

section \<open>State and operations\<close>

record kbuddy =
  pool_start :: u64
  pool_size :: u64
  free_lists :: "nat \<Rightarrow> u64"
  bb_magic :: "u64 \<Rightarrow> u32"
  bb_is_free :: "u64 \<Rightarrow> bool"
  bb_order :: "u64 \<Rightarrow> nat"
  bb_links :: links

definition BUDDY_MAGIC :: u32 where "BUDDY_MAGIC = 0x80D180D1"
definition BUDDY_MIN_SHIFT :: nat where "BUDDY_MIN_SHIFT = 6"
definition BUDDY_MAX_ORDER :: nat where "BUDDY_MAX_ORDER = 18"

text \<open>\<open>sizeof(kmem_buddy_block_t)\<close> is 24.\<close>

definition BUDDY_BLOCK_SIZE :: u64 where "BUDDY_BLOCK_SIZE = 24"

definition block_bytes :: "nat \<Rightarrow> u64" where
  "block_bytes order = push_bit (BUDDY_MIN_SHIFT + order) 1"

definition buddy_list_add :: "nat \<Rightarrow> u64 \<Rightarrow> kbuddy \<Rightarrow> kbuddy" where
  "buddy_list_add order block s =
     (let (h, k) = ilist_add (free_lists s order) block (bb_links s)
      in s\<lparr>free_lists := (free_lists s)(order := h), bb_links := k\<rparr>)"

definition buddy_list_remove :: "nat \<Rightarrow> u64 \<Rightarrow> kbuddy \<Rightarrow> kbuddy" where
  "buddy_list_remove order block s =
     (let (h, k) = ilist_remove (free_lists s order) block (bb_links s)
      in s\<lparr>free_lists := (free_lists s)(order := h), bb_links := k\<rparr>)"

text \<open>Writing the header of a new free block.\<close>

definition put_free_header :: "u64 \<Rightarrow> nat \<Rightarrow> kbuddy \<Rightarrow> kbuddy" where
  "put_free_header block order s =
     s\<lparr>bb_magic := (bb_magic s)(block := BUDDY_MAGIC), bb_is_free := (bb_is_free s)(block := True),
       bb_order := (bb_order s)(block := order)\<rparr>"

definition set_order :: "u64 \<Rightarrow> nat \<Rightarrow> kbuddy \<Rightarrow> kbuddy" where
  "set_order block order s = s\<lparr>bb_order := (bb_order s)(block := order)\<rparr>"

definition set_free :: "u64 \<Rightarrow> bool \<Rightarrow> kbuddy \<Rightarrow> kbuddy" where
  "set_free block f s = s\<lparr>bb_is_free := (bb_is_free s)(block := f)\<rparr>"

fun init_order :: "u64 \<Rightarrow> u64 \<Rightarrow> nat \<Rightarrow> nat" where
  "init_order addr remaining 0 = 0"
| "init_order addr remaining (Suc order) =
     (if block_bytes (Suc order) \<le> remaining \<and> addr AND (block_bytes (Suc order) - 1) = 0 then Suc order
      else init_order addr remaining order)"

partial_function (option) buddy_init_loop :: "u64 \<Rightarrow> u64 \<Rightarrow> kbuddy \<Rightarrow> kbuddy option" where
  "buddy_init_loop current_addr remaining s =
     (if block_bytes 0 \<le> remaining
      then
        let order = init_order current_addr remaining BUDDY_MAX_ORDER;
            s = put_free_header current_addr order s;
            s = buddy_list_add order current_addr s
        in buddy_init_loop (current_addr + block_bytes order) (remaining - block_bytes order) s
      else Some s)"

definition kmem_buddy_init :: "u64 \<Rightarrow> u64 \<Rightarrow> kbuddy \<Rightarrow> kbuddy option" where
  "kmem_buddy_init start sz s =
     buddy_init_loop start sz
       (s\<lparr>pool_start := start, pool_size := sz,
          free_lists := (\<lambda>i. if i \<le> BUDDY_MAX_ORDER then NULL else free_lists s i)\<rparr>)"

function order_for :: "u64 \<Rightarrow> nat \<Rightarrow> nat" where
  "order_for total_size order =
     (if block_bytes order < total_size \<and> order \<le> BUDDY_MAX_ORDER then order_for total_size (order + 1) else order)"
  by pat_completeness auto
termination by (relation "measure (\<lambda>(_, order). Suc BUDDY_MAX_ORDER - order)") auto

function order_with_block :: "kbuddy \<Rightarrow> nat \<Rightarrow> nat" where
  "order_with_block s order =
     (if order \<le> BUDDY_MAX_ORDER \<and> free_lists s order = NULL then order_with_block s (order + 1) else order)"
  by pat_completeness auto
termination by (relation "measure (\<lambda>(_, order). Suc BUDDY_MAX_ORDER - order)") auto

declare order_for.simps [simp del] order_with_block.simps [simp del]

fun split_down :: "u64 \<Rightarrow> nat \<Rightarrow> nat \<Rightarrow> kbuddy \<Rightarrow> kbuddy" where
  "split_down block target_order 0 s = s"
| "split_down block target_order (Suc order) s =
     (if target_order < Suc order
      then
        let buddy = block + block_bytes order;
            s = put_free_header buddy order s;
            s = buddy_list_add order buddy s;
            s = set_order block order s
        in split_down block target_order order s
      else s)"

definition kmem_buddy_alloc :: "u64 \<Rightarrow> kbuddy \<Rightarrow> u64 \<times> kbuddy" where
  "kmem_buddy_alloc sz s =
     (if sz = 0 then (NULL, s)
      else
        let total_size = sz + BUDDY_BLOCK_SIZE;
            target_order = order_for total_size 0
        in if BUDDY_MAX_ORDER < target_order then (NULL, s)
           else
             let order = order_with_block s target_order
             in if BUDDY_MAX_ORDER < order then (NULL, s)
                else
                  let block = free_lists s order;
                      s = buddy_list_remove order block s;
                      s = split_down block target_order order s;
                      s = set_free block False s
                  in (block + BUDDY_BLOCK_SIZE, s))"

function coalesce :: "u64 \<Rightarrow> nat \<Rightarrow> kbuddy \<Rightarrow> u64 \<times> nat \<times> kbuddy" where
  "coalesce block order s =
     (if order < BUDDY_MAX_ORDER
      then
        let rel_addr = block - pool_start s;
            buddy_rel = rel_addr XOR block_bytes order;
            buddy = pool_start s + buddy_rel
        in if pool_start s + pool_size s \<le> buddy then (block, order, s)
           else if bb_magic s buddy \<noteq> BUDDY_MAGIC \<or> \<not> bb_is_free s buddy \<or> bb_order s buddy \<noteq> order then (block, order, s)
           else
             let s = buddy_list_remove order buddy s;
                 block = (if buddy < block then buddy else block);
                 s = set_order block (order + 1) s
             in coalesce block (order + 1) s
      else (block, order, s))"
  by pat_completeness auto
termination by (relation "measure (\<lambda>(_, order, _). BUDDY_MAX_ORDER - order)") auto

declare coalesce.simps [simp del]

definition kmem_buddy_free :: "u64 \<Rightarrow> kbuddy \<Rightarrow> kbuddy" where
  "kmem_buddy_free p s =
     (if p = NULL then s
      else
        let block = p - BUDDY_BLOCK_SIZE
        in if bb_magic s block \<noteq> BUDDY_MAGIC \<or> bb_is_free s block then s
           else
             let (block, order, s) = coalesce block (bb_order s block) s;
                 s = set_free block True s
             in buddy_list_add order block s)"

section \<open>Cuts of the pool\<close>

text \<open>\<open>T\<close> cuts \<open>N\<close> bytes into blocks: aligned, disjoint, without a gap.\<close>

definition blk :: "nat \<Rightarrow> nat" where
  "blk order = 2 ^ (6 + order)"

definition tiling :: "nat \<Rightarrow> (nat \<rightharpoonup> nat) \<Rightarrow> bool" where
  "tiling N T \<longleftrightarrow>
     (\<forall>r order. T r = Some order \<longrightarrow> order \<le> 18 \<and> blk order dvd r \<and> r + blk order \<le> N) \<and>
     (\<forall>x<N. \<exists>r order. T r = Some order \<and> r \<le> x \<and> x < r + blk order) \<and>
     (\<forall>r order r' order'. T r = Some order \<longrightarrow> T r' = Some order' \<longrightarrow> r < r' \<longrightarrow> r + blk order \<le> r')"

text \<open>The other half of the block that a block of this order comes from.\<close>

definition buddy_of :: "nat \<Rightarrow> nat \<Rightarrow> nat" where
  "buddy_of order r = (if odd (r div blk order) then r - blk order else r + blk order)"

lemma tilingD:
  assumes "tiling N T"
  shows "T r = Some order \<Longrightarrow> order \<le> 18 \<and> blk order dvd r \<and> r + blk order \<le> N"
    and "x < N \<Longrightarrow> \<exists>r order. T r = Some order \<and> r \<le> x \<and> x < r + blk order"
    and "T r = Some order \<Longrightarrow> T r' = Some order' \<Longrightarrow> r < r' \<Longrightarrow> r + blk order \<le> r'"
  using assms unfolding tiling_def by blast+

lemma tiling_overlap:
  assumes "tiling N T" and "T r = Some order" and "T r' = Some order'" and "r \<le> x" "x < r + blk order" "r' \<le> x" "x < r' + blk order'"
  shows "r = r'"
  using tilingD(3) [OF assms(1,2,3)] tilingD(3) [OF assms(1,3,2)] assms(4-7) by (cases r r' rule: linorder_cases) auto

lemma dvd_interval: "(m :: nat) dvd a \<Longrightarrow> m dvd b \<Longrightarrow> a \<le> b \<Longrightarrow> b < a + m \<Longrightarrow> a = b"
  by (metis add_left_imp_eq dvd_diff_nat le_add_diff_inverse less_diff_conv2 nat_dvd_not_less add.commute add_0_right bot_nat_0.not_eq_extremum)

lemma blk_dvd: "order \<le> order' \<Longrightarrow> blk order dvd blk order'"
  by (simp add: blk_def le_imp_power_dvd)

lemma blk_Suc: "blk (Suc order) = 2 * blk order"
  by (simp add: blk_def power_add)

lemma blk_pos [simp]: "0 < blk order" "blk order \<noteq> 0"
  by (simp_all add: blk_def)

lemma buddy_of_facts:
  assumes "blk order dvd r"
  shows "blk order dvd buddy_of order r" "buddy_of order r \<noteq> r" "blk (Suc order) dvd min r (buddy_of order r)"
    "max r (buddy_of order r) = min r (buddy_of order r) + blk order"
proof -
  define B :: nat where "B = blk order"
  obtain q where q: "r = B * q" using assms unfolding B_def by (elim dvdE)
  have B: "0 < B" "blk (Suc order) = 2 * B" by (simp_all add: B_def blk_Suc)
  have qd: "r div B = q" using q B by simp
  show "blk order dvd buddy_of order r" "buddy_of order r \<noteq> r" "blk (Suc order) dvd min r (buddy_of order r)"
    "max r (buddy_of order r) = min r (buddy_of order r) + blk order"
    unfolding buddy_of_def B_def [symmetric] qd B(2)
  proof -
    show "B dvd (if odd q then r - B else r + B)" unfolding q by (auto simp: dvd_diff_nat)
    have pos: "odd q \<Longrightarrow> B \<le> r" unfolding q using B by (cases q) auto
    then show "(if odd q then r - B else r + B) \<noteq> r" using B by auto
    show "max r (if odd q then r - B else r + B) = min r (if odd q then r - B else r + B) + B" using pos B by auto
    show "2 * B dvd min r (if odd q then r - B else r + B)"
    proof (cases "odd q")
      case True
      then obtain k where k: "q = 2 * k + 1" by (elim oddE)
      have "r - B = 2 * B * k" unfolding q k by (simp add: algebra_simps)
      moreover have "min r (r - B) = r - B" by simp
      ultimately show ?thesis using True by (simp del: min_diff)
    next
      case False
      then show ?thesis unfolding q by (auto simp: min_def)
    qed
  qed
qed

lemma buddy_of_half:
  assumes "blk (Suc order) dvd r"
  shows "buddy_of order r = r + blk order"
proof -
  obtain k where "r = blk order * (2 * k)" using assms unfolding blk_Suc by (metis dvdE mult.assoc mult.commute)
  then show ?thesis by (simp add: buddy_of_def)
qed

lemma buddy_of_involution:
  assumes "blk order dvd r"
  shows "buddy_of order (buddy_of order r) = r"
proof -
  define p where "p = min r (buddy_of order r)"
  note f = buddy_of_facts [OF assms, folded p_def]
  have up: "buddy_of order p = p + blk order" by (rule buddy_of_half [OF f(3)])
  obtain k where k: "p = blk order * (2 * k)" using f(3) unfolding blk_Suc by (metis dvdE mult.assoc mult.commute)
  have "p + blk order = blk order * (2 * k + 1)" by (simp add: k)
  then have "(p + blk order) div blk order = 2 * k + 1" by simp
  then have "buddy_of order (p + blk order) = p" by (simp add: buddy_of_def)
  then show ?thesis using up f(4) unfolding p_def by (auto simp: min_def max_def split: if_splits)
qed

text \<open>No free block has a buddy that is free and of the same order; the blocks of the largest order are not joined.\<close>

definition merged :: "(nat \<rightharpoonup> nat) \<Rightarrow> nat set \<Rightarrow> bool" where
  "merged T F \<longleftrightarrow> (\<forall>r\<in>F. \<forall>i<18. T r = Some i \<longrightarrow> \<not> (buddy_of i r \<in> F \<and> T (buddy_of i r) = Some i))"

lemma merged_mono:
  assumes "merged T F" and "F' \<subseteq> F" and "\<And>r. r \<in> F' \<Longrightarrow> T' r = T r"
  shows "merged T' F'"
  unfolding merged_def
proof (intro ballI allI impI notI, elim conjE)
  fix r i
  assume "r \<in> F'" "i < 18" "T' r = Some i" "buddy_of i r \<in> F'" "T' (buddy_of i r) = Some i"
  then show False using assms unfolding merged_def by (metis subsetD)
qed

lemma merged_insert:
  assumes m: "merged T F" and t: "tiling N T" and r: "T r = Some i"
    and alone: "i < 18 \<Longrightarrow> buddy_of i r \<in> F \<Longrightarrow> T (buddy_of i r) \<noteq> Some i"
  shows "merged T (insert r F)"
  unfolding merged_def
proof (intro ballI allI impI notI, elim conjE)
  fix x j
  assume x: "x \<in> insert r F" "j < 18" "T x = Some j" and y: "buddy_of j x \<in> insert r F" "T (buddy_of j x) = Some j"
  have al: "blk j dvd x" using tilingD(1) [OF t x(3)] by simp
  note f = buddy_of_facts(2) [OF al] buddy_of_involution [OF al]
  show False
  proof (cases "x = r")
    case True
    then show ?thesis using x y f(1) r alone by auto
  next
    case False
    show ?thesis
    proof (cases "buddy_of j x = r")
      case True
      then have "j = i" "buddy_of i r = x" using y(2) r f(2) by auto
      then show ?thesis using x False alone by auto
    qed (use x y False m in \<open>auto simp: merged_def\<close>)
  qed
qed

text \<open>What starts where the buddy of a block would start is a block, of this order or a smaller one.\<close>

lemma tiling_buddy:
  assumes t: "tiling N T" and r: "T r = Some order" and "buddy_of order r < N"
  shows "\<exists>order'. T (buddy_of order r) = Some order' \<and> order' \<le> order"
proof -
  let ?b = "buddy_of order r" and ?p = "min r (buddy_of order r)"
  have al: "blk order dvd r" using tilingD(1) [OF t r] by simp
  note f = buddy_of_facts [OF al]
  obtain c order' where c: "T c = Some order'" "c \<le> ?b" "?b < c + blk order'" using tilingD(2) [OF t assms(3)] by blast
  have cal: "blk order' dvd c" using tilingD(1) [OF t c(1)] by simp
  show ?thesis
  proof (cases "order' \<le> order")
    case True
    have "blk order' dvd ?b" using dvd_trans [OF blk_dvd [OF True] f(1)] .
    then have "c = ?b" using dvd_interval [OF cal _ c(2,3)] by simp
    then show ?thesis using c(1) True by blast
  next
    case False
    then have "blk (Suc order) dvd blk order'" by (intro blk_dvd) simp
    then obtain k where k: "blk order' = blk (Suc order) * k" by (elim dvdE)
    obtain j where j: "c = blk order' * j" using cal by (elim dvdE)
    obtain i where i: "?p = blk (Suc order) * i" using f(3) by (elim dvdE)
    have "?b < ?p + blk (Suc order)" "?p \<le> ?b" "r < ?p + blk (Suc order)" "?p \<le> r"
      using f(4) unfolding blk_Suc by (auto simp: min_def max_def split: if_splits)
    moreover have "c \<le> ?p"
    proof -
      have "blk (Suc order) * (k * j) < blk (Suc order) * Suc i"
        using c(2) calculation(1) unfolding j k i by (simp add: mult.assoc)
      then have "k * j \<le> i" by (metis less_Suc_eq_le mult_less_cancel1)
      then show ?thesis unfolding i j k by (simp add: mult.assoc)
    qed
    moreover have "?p + blk (Suc order) \<le> c + blk order'"
    proof -
      have "blk (Suc order) * i < blk (Suc order) * (k * j + k)"
        using c(3) calculation(2) unfolding i j k by (simp add: algebra_simps)
      then have "Suc i \<le> k * j + k" by (metis Suc_le_eq mult_less_cancel1)
      then have "blk (Suc order) * Suc i \<le> blk (Suc order) * (k * j + k)" by (rule mult_le_mono2)
      then show ?thesis unfolding i j k by (simp add: algebra_simps)
    qed
    ultimately have "c \<le> r" "r < c + blk order'" by linarith+
    then have "c = r" using tiling_overlap [OF t c(1) r, of r] by simp
    then show ?thesis using c(1) r False by simp
  qed
qed

lemma tiling_split:
  assumes t: "tiling N T" and r: "T r = Some (Suc order)"
  shows "tiling N (T(r \<mapsto> order, r + blk order \<mapsto> order))" and "T (r + blk order) = None"
proof -
  have in_r: "Suc order \<le> 18" "blk (Suc order) dvd r" "r + blk (Suc order) \<le> N" using tilingD(1) [OF t r] by auto
  show none: "T (r + blk order) = None"
  proof (rule ccontr)
    assume "T (r + blk order) \<noteq> None"
    then obtain o' where "T (r + blk order) = Some o'" by blast
    then show False using tiling_overlap [OF t r, of "r + blk order" o' "r + blk order"] by (simp add: blk_Suc)
  qed
  let ?T = "T(r \<mapsto> order, r + blk order \<mapsto> order)"
  have sel: "?T x = Some v \<longleftrightarrow> (x = r \<or> x = r + blk order) \<and> v = order \<or> x \<noteq> r \<and> x \<noteq> r + blk order \<and> T x = Some v" for x v
    by auto
  have al: "blk order dvd r" using in_r(2) by (auto simp: blk_Suc intro: dvd_mult_right)
  show "tiling N ?T"
    unfolding tiling_def sel
  proof (intro conjI allI impI, goal_cases)
    case (1 x v)
    then show ?case using in_r(1) tilingD(1) [OF t] by auto
  next
    case (2 x v)
    then show ?case using al tilingD(1) [OF t] by auto
  next
    case (3 x v)
    then show ?case using in_r(3) tilingD(1) [OF t] by (auto simp: blk_Suc)
  next
    case (4 x)
    then obtain c v where c: "T c = Some v" "c \<le> x" "x < c + blk v" using tilingD(2) [OF t] by blast
    show ?case
    proof (cases "c = r")
      case True
      then show ?thesis using c r by (cases "x < r + blk order") (auto simp: blk_Suc intro: exI [of _ r] exI [of _ "r + blk order"])
    next
      case False
      then show ?thesis using c none by (intro exI [of _ c] exI [of _ v]) auto
    qed
  next
    case (5 x v x' v')
    have out: "c + blk w \<le> r \<or> r + 2 * blk order \<le> c" if "T c = Some w" "c \<noteq> r" for c w
      using tilingD(3) [OF t r that(1)] tilingD(3) [OF t that(1) r] that(2) by (cases c r rule: linorder_cases) (auto simp: blk_Suc)
    have x: "(x = r \<or> x = r + blk order) \<and> v = order \<or> T x = Some v \<and> (x + blk v \<le> r \<or> r + 2 * blk order \<le> x)"
      using 5(1) out by blast
    have x': "x' = r \<or> x' = r + blk order \<or> T x' = Some v' \<and> (x' + blk v' \<le> r \<or> r + 2 * blk order \<le> x')"
      using 5(2) out by blast
    have both: "x + blk v \<le> x'" if "T x = Some v" "T x' = Some v'" using tilingD(3) [OF t that 5(3)] .
    show ?case using x x' both 5(3) blk_pos(1) [of order] blk_pos(1) [of v'] by (elim disjE conjE) auto
  qed
qed

text \<open>A block and its buddy, put together.\<close>

lemma tiling_merge:
  assumes t: "tiling N T" and r: "T r = Some order" and b: "T (buddy_of order r) = Some order" and o: "order < 18"
  shows "tiling N (T(max r (buddy_of order r) := None, min r (buddy_of order r) \<mapsto> Suc order))"
proof -
  define p q where "p = min r (buddy_of order r)" and "q = max r (buddy_of order r)"
  have "blk order dvd r" using tilingD(1) [OF t r] by simp
  then have al: "blk (Suc order) dvd p" and q: "q = p + blk order"
    using buddy_of_facts [of order r] unfolding p_def q_def by auto
  have pq: "T p = Some order" "T q = Some order" using r b unfolding p_def q_def by (auto simp: min_def max_def)
  let ?T = "T(q := None, p \<mapsto> Suc order)"
  have sel: "?T x = Some v \<longleftrightarrow> x = p \<and> v = Suc order \<or> x \<noteq> p \<and> x \<noteq> q \<and> T x = Some v" for x v
    by auto
  have fin: "p + blk (Suc order) \<le> N" using tilingD(1) [OF t pq(2)] by (simp add: q blk_Suc)
  have "tiling N ?T"
    unfolding tiling_def sel
  proof (intro conjI allI impI, goal_cases)
    case (1 x v)
    then show ?case using o tilingD(1) [OF t] by auto
  next
    case (2 x v)
    then show ?case using al tilingD(1) [OF t] by auto
  next
    case (3 x v)
    then show ?case using fin tilingD(1) [OF t] by auto
  next
    case (4 x)
    then obtain c v where c: "T c = Some v" "c \<le> x" "x < c + blk v" using tilingD(2) [OF t] by blast
    show ?case
    proof (cases "c = p \<or> c = q")
      case True
      then show ?thesis using c pq by (intro exI [of _ p] exI [of _ "Suc order"]) (auto simp: blk_Suc q)
    next
      case False
      then show ?thesis using c by (intro exI [of _ c] exI [of _ v]) auto
    qed
  next
    case (5 x v x' v')
    have "c + blk w \<le> p \<or> p + blk (Suc order) \<le> c" if "T c = Some w" "c \<noteq> p" "c \<noteq> q" for c w
    proof (cases c p rule: linorder_cases)
      case less
      then show ?thesis using tilingD(3) [OF t that(1) pq(1)] by simp
    next
      case greater
      then have "p + blk order \<le> c" using tilingD(3) [OF t pq(1) that(1)] by simp
      then have "q < c" using that(3) q by simp
      then show ?thesis using tilingD(3) [OF t pq(2) that(1)] q by (simp add: blk_Suc)
    qed (use that in simp)
    note out = this
    have x: "x = p \<and> v = Suc order \<or> T x = Some v \<and> (x + blk v \<le> p \<or> p + blk (Suc order) \<le> x)" using 5(1) out by blast
    have x': "x' = p \<or> T x' = Some v' \<and> (x' + blk v' \<le> p \<or> p + blk (Suc order) \<le> x')" using 5(2) out by blast
    have both: "x + blk v \<le> x'" if "T x = Some v" "T x' = Some v'" using tilingD(3) [OF t that 5(3)] .
    show ?case using x x' both 5(3) blk_pos(1) [of "Suc order"] blk_pos(1) [of v'] by (elim disjE conjE) auto
  qed
  then show ?thesis by (simp add: p_def q_def)
qed

section \<open>The representation of a cut\<close>

definition at :: "kbuddy \<Rightarrow> nat \<Rightarrow> u64" where
  "at s r = pool_start s + of_nat r"

definition pool_ok :: "kbuddy \<Rightarrow> bool" where
  "pool_ok s \<longleftrightarrow> 0 < unat (pool_start s) \<and> unat (pool_start s) + unat (pool_size s) + 2 ^ 24 \<le> 2 ^ 64"

text \<open>\<open>X\<close> holds the block in hand, whose \<open>is_free\<close> field is not yet up to date.\<close>

definition headers_ok :: "kbuddy \<Rightarrow> (nat \<rightharpoonup> nat) \<Rightarrow> nat set \<Rightarrow> nat set \<Rightarrow> bool" where
  "headers_ok s T F X \<longleftrightarrow>
     (\<forall>r order. T r = Some order \<longrightarrow> bb_magic s (at s r) = BUDDY_MAGIC \<and> bb_order s (at s r) = order \<and>
        (r \<notin> X \<longrightarrow> bb_is_free s (at s r) = (r \<in> F)))"

definition free_lists_ok :: "kbuddy \<Rightarrow> (nat \<rightharpoonup> nat) \<Rightarrow> nat set \<Rightarrow> (nat \<Rightarrow> u64 list) \<Rightarrow> bool" where
  "free_lists_ok s T F H \<longleftrightarrow> dlls (bb_links s) H \<and> (\<forall>i\<le>18. free_lists s i = head_of (H i) NULL) \<and>
     (\<forall>i. set (H i) = at s ` {r \<in> F. T r = Some i})"

definition buddy_rep :: "kbuddy \<Rightarrow> (nat \<rightharpoonup> nat) \<Rightarrow> nat set \<Rightarrow> (nat \<Rightarrow> u64 list) \<Rightarrow> nat set \<Rightarrow> bool" where
  "buddy_rep s T F H X \<longleftrightarrow> pool_ok s \<and> tiling (unat (pool_size s)) T \<and> F \<subseteq> dom T \<and> headers_ok s T F X \<and> free_lists_ok s T F H"

lemma blk_le: "order \<le> 18 \<Longrightarrow> blk order \<le> 2 ^ 24"
  unfolding blk_def by (rule power_increasing) simp_all

lemma unat_at: "pool_ok s \<Longrightarrow> r \<le> unat (pool_size s) + 2 ^ 24 - 1 \<Longrightarrow> unat (at s r) = unat (pool_start s) + r"
  unfolding at_def pool_ok_def by (subst unat_add_u64; subst unat_of_nat_u64) (use unat_u64_bound [of "pool_start s"] in auto)

lemma at_inject: "pool_ok s \<Longrightarrow> r \<le> unat (pool_size s) \<Longrightarrow> r' \<le> unat (pool_size s) \<Longrightarrow> at s r = at s r' \<longleftrightarrow> r = r'"
proof -
  assume "pool_ok s" "r \<le> unat (pool_size s)" "r' \<le> unat (pool_size s)"
  then have "unat (at s r) = unat (pool_start s) + r" "unat (at s r') = unat (pool_start s) + r'"
    by (intro unat_at; simp)+
  then show "at s r = at s r' \<longleftrightarrow> r = r'" by (metis add_left_cancel)
qed

lemma at_not_NULL: "pool_ok s \<Longrightarrow> r \<le> unat (pool_size s) \<Longrightarrow> at s r \<noteq> NULL"
proof -
  assume ok: "pool_ok s" and "r \<le> unat (pool_size s)"
  then have "unat (at s r) = unat (pool_start s) + r" by (intro unat_at) simp_all
  then show "at s r \<noteq> NULL" using ok unfolding pool_ok_def by (metis add_is_0 less_irrefl unat_0)
qed

lemma buddy_rep_in: "buddy_rep s T F H X \<Longrightarrow> T r = Some order \<Longrightarrow> r + blk order \<le> unat (pool_size s) \<and> order \<le> 18"
  unfolding buddy_rep_def using tilingD(1) by blast

lemma block_bytes_blk: "order \<le> 18 \<Longrightarrow> block_bytes order = of_nat (blk order) \<and> unat (block_bytes order) = blk order"
proof -
  assume "order \<le> 18"
  then have "blk order < 2 ^ 64" by (intro le_less_trans [OF blk_le]) simp_all
  moreover have "block_bytes order = of_nat (blk order)"
    by (simp add: block_bytes_def blk_def push_bit_eq_mult BUDDY_MIN_SHIFT_def)
  ultimately show ?thesis by simp
qed

text \<open>The word arithmetic of \<open>kmem_buddy_free\<close> finds the buddy.\<close>

lemma buddy_word:
  assumes ok: "pool_ok s" and "r + blk order \<le> unat (pool_size s)" and "blk order dvd r" and "order \<le> 18"
  shows "pool_start s + ((at s r - pool_start s) XOR block_bytes order) = at s (buddy_of order r)"
proof -
  have r: "unat (of_nat r :: u64) = r"
    using assms(2) unat_u64_bound [of "pool_size s"] by (intro unat_of_nat_u64) linarith
  have "(of_nat r :: u64) XOR block_bytes order = flip_bit (6 + order) (of_nat r)"
    by (simp add: block_bytes_def BUDDY_MIN_SHIFT_def flip_bit_eq_xor push_bit_eq_mult)
  also have "\<dots> = (if bit (of_nat r :: u64) (6 + order) then of_nat r - 2 ^ (6 + order) else of_nat r + 2 ^ (6 + order))"
    by (simp add: flip_bit_eq_if unset_bit_eq set_bit_eq)
  also have "bit (of_nat r :: u64) (6 + order) \<longleftrightarrow> odd (r div blk order)"
    using bit_unsigned_iff [of "of_nat r :: u64" "6 + order", where 'a = nat] r assms(4) by (simp add: blk_def bit_iff_odd [of r])
  also have "(if odd (r div blk order) then of_nat r - 2 ^ (6 + order) else of_nat r + 2 ^ (6 + order)) = (of_nat (buddy_of order r) :: u64)"
  proof (cases "odd (r div blk order)")
    case True
    then have "blk order \<le> r" by (metis div_less even_zero linorder_not_le)
    then show ?thesis using True by (simp add: buddy_of_def of_nat_diff blk_def)
  qed (simp add: buddy_of_def blk_def)
  finally show ?thesis by (simp add: at_def)
qed

section \<open>The operations on the representation\<close>

lemma list_ops_frame [simp]:
  "pool_start (buddy_list_add i b s) = pool_start s" "pool_size (buddy_list_add i b s) = pool_size s"
  "bb_magic (buddy_list_add i b s) = bb_magic s" "bb_is_free (buddy_list_add i b s) = bb_is_free s" "bb_order (buddy_list_add i b s) = bb_order s"
  "pool_start (buddy_list_remove i b s) = pool_start s" "pool_size (buddy_list_remove i b s) = pool_size s"
  "bb_magic (buddy_list_remove i b s) = bb_magic s" "bb_is_free (buddy_list_remove i b s) = bb_is_free s" "bb_order (buddy_list_remove i b s) = bb_order s"
  by (simp_all add: buddy_list_add_def buddy_list_remove_def split: prod.split)

lemma header_ops_frame [simp]:
  "pool_start (put_free_header b i s) = pool_start s" "pool_size (put_free_header b i s) = pool_size s"
  "pool_start (set_order b i s) = pool_start s" "pool_size (set_order b i s) = pool_size s"
  "pool_start (set_free b f s) = pool_start s" "pool_size (set_free b f s) = pool_size s"
  by (simp_all add: put_free_header_def set_order_def set_free_def)

lemma at_cong: "pool_start s' = pool_start s \<Longrightarrow> at s' = at s"
  by (simp add: at_def fun_eq_iff)

lemma pool_ok_cong: "pool_start s' = pool_start s \<Longrightarrow> pool_size s' = pool_size s \<Longrightarrow> pool_ok s' \<longleftrightarrow> pool_ok s"
  by (simp add: pool_ok_def)

lemma buddy_rep_at_inject:
  assumes "buddy_rep s T F H X" and "T r = Some i" and "T r' = Some j"
  shows "at s r = at s r' \<longleftrightarrow> r = r'"
proof (rule at_inject)
  show "r \<le> unat (pool_size s)" "r' \<le> unat (pool_size s)" using buddy_rep_in [OF assms(1,2)] buddy_rep_in [OF assms(1,3)] by linarith+
qed (use assms(1) in \<open>simp add: buddy_rep_def\<close>)

lemma free_blocks_inject:
  assumes "buddy_rep s T F H X" and "T r = Some i" and "r' \<in> F"
  shows "at s r = at s r' \<longleftrightarrow> r = r'"
proof -
  obtain j where "T r' = Some j" using assms(1,3) unfolding buddy_rep_def by blast
  then show ?thesis using buddy_rep_at_inject [OF assms(1,2)] by blast
qed

lemma buddy_list_remove_rep:
  assumes rep: "buddy_rep s T F H X" and r: "r \<in> F" "T r = Some i"
  shows "\<exists>H'. buddy_rep (buddy_list_remove i (at s r) s) T (F - {r}) H' (insert r X)"
proof -
  let ?s = "buddy_list_remove i (at s r) s"
  have i: "i \<le> 18" using buddy_rep_in [OF rep r(2)] by simp
  have fl: "dlls (bb_links s) H" "\<And>i. i \<le> 18 \<Longrightarrow> free_lists s i = head_of (H i) NULL" "\<And>i. set (H i) = at s ` {r \<in> F. T r = Some i}"
    using rep by (auto simp: buddy_rep_def free_lists_ok_def)
  have "at s r \<in> set (H i)" using fl(3) r by blast
  then obtain xs ys where H: "H i = xs @ at s r # ys" by (meson split_list)
  obtain k where k: "ilist_remove (head_of (H i) NULL) (at s r) (bb_links s) = (head_of (xs @ ys) NULL, k)" "dlls k (H(i := xs @ ys))"
    using ilist_remove_dlls [OF fl(1) H] by blast
  have "distinct (xs @ at s r # ys)" using dllsD(1) [OF fl(1), of i] H by simp
  then have "set (xs @ ys) = set (H i) - {at s r}" using H by auto
  also have "\<dots> = at s ` {x \<in> F - {r}. T x = Some i}"
    using fl(3) free_blocks_inject [OF rep r(2)] by (auto, metis)
  finally have seti: "set (xs @ ys) = at s ` {x \<in> F - {r}. T x = Some i}" .
  have setj: "set (H j) = at s ` {x \<in> F - {r}. T x = Some j}" if "j \<noteq> i" for j
    using fl(3) [of j] r that by auto
  have "free_lists_ok ?s T (F - {r}) (H(i := xs @ ys))"
    unfolding free_lists_ok_def at_cong [OF list_ops_frame(6)]
    using k fl(2) i seti setj by (auto simp: buddy_list_remove_def)
  moreover have "headers_ok ?s T (F - {r}) (insert r X)"
    using rep unfolding buddy_rep_def headers_ok_def at_cong [OF list_ops_frame(6)] by auto
  ultimately show ?thesis using rep unfolding buddy_rep_def by (intro exI [of _ "H(i := xs @ ys)"]) (auto simp: pool_ok_def)
qed

lemma buddy_list_add_rep:
  assumes rep: "buddy_rep s T F H X" and r: "r \<notin> F" "T r = Some i" and "bb_is_free s (at s r)"
  shows "\<exists>H'. buddy_rep (buddy_list_add i (at s r) s) T (insert r F) H' (X - {r})"
proof -
  let ?s = "buddy_list_add i (at s r) s"
  have i: "i \<le> 18" "r \<le> unat (pool_size s)" using buddy_rep_in [OF rep r(2)] by auto
  have fl: "dlls (bb_links s) H" "\<And>i. i \<le> 18 \<Longrightarrow> free_lists s i = head_of (H i) NULL" "\<And>i. set (H i) = at s ` {r \<in> F. T r = Some i}"
    using rep by (auto simp: buddy_rep_def free_lists_ok_def)
  have nz: "at s r \<noteq> NULL" by (rule at_not_NULL [OF _ i(2)]) (use rep in \<open>simp add: buddy_rep_def\<close>)
  have new: "at s r \<notin> set (H j)" for j using fl(3) r(1) free_blocks_inject [OF rep r(2)] by auto
  obtain k where k: "ilist_add (head_of (H i) NULL) (at s r) (bb_links s) = (at s r, k)" "dlls k (H(i := at s r # H i))"
    using ilist_add_dlls [OF fl(1) nz new] by blast
  have "set (H j) = at s ` {x \<in> insert r F. T x = Some j}" if "j \<noteq> i" for j
    using fl(3) [of j] r that by auto
  moreover have "insert (at s r) (set (H i)) = at s ` {x \<in> insert r F. T x = Some i}" using fl(3) r by auto
  ultimately have "free_lists_ok ?s T (insert r F) (H(i := at s r # H i))"
    unfolding free_lists_ok_def at_cong [OF list_ops_frame(1)]
    using k fl(2) i by (auto simp: buddy_list_add_def)
  moreover have "headers_ok ?s T (insert r F) (X - {r})"
    using rep r assms(4) unfolding buddy_rep_def headers_ok_def at_cong [OF list_ops_frame(1)] by auto
  ultimately show ?thesis using rep r unfolding buddy_rep_def by (intro exI [of _ "H(i := at s r # H i)"]) (auto simp: pool_ok_def)
qed

text \<open>The live blocks: those that are not free.\<close>

definition live :: "(nat \<rightharpoonup> nat) \<Rightarrow> nat set \<Rightarrow> (nat \<rightharpoonup> nat)" where
  "live T F = T |` (- F)"

lemma live_Some: "live T F r = Some order \<longleftrightarrow> T r = Some order \<and> r \<notin> F"
  by (auto simp: live_def restrict_map_def)

lemma split_header_rep:
  assumes rep: "buddy_rep s T F H {r}" and r: "T r = Some (Suc i)" "r \<notin> F"
  shows "buddy_rep (set_order (at s r) i (put_free_header (at s (r + blk i)) i s))
    (T(r \<mapsto> i, r + blk i \<mapsto> i)) F H {r, r + blk i}" and "r + blk i \<notin> F"
proof -
  let ?s = "set_order (at s r) i (put_free_header (at s (r + blk i)) i s)" and ?T = "T(r \<mapsto> i, r + blk i \<mapsto> i)"
  have ok: "pool_ok s" "tiling (unat (pool_size s)) T" "F \<subseteq> dom T" using rep by (simp_all add: buddy_rep_def)
  have inside: "r + 2 * blk i \<le> unat (pool_size s)" using buddy_rep_in [OF rep r(1)] by (simp add: blk_Suc)
  note sp = tiling_split [OF ok(2) r(1)]
  show nf: "r + blk i \<notin> F" using sp(2) ok(3) by auto
  have at: "at ?s = at s" by (intro at_cong) simp
  have inj: "at s x \<noteq> at s r" "at s x \<noteq> at s (r + blk i)" if "T x = Some j" "x \<noteq> r" "x \<noteq> r + blk i" for x j
    using that buddy_rep_in [OF rep that(1)] inside at_inject [OF ok(1), of x r] at_inject [OF ok(1), of x "r + blk i"] by auto
  have rr: "at s r \<noteq> at s (r + blk i)" using at_inject [OF ok(1), of r "r + blk i"] inside by auto
  have "headers_ok ?s ?T F {r, r + blk i}"
    using rep r(1) inj rr unfolding headers_ok_def buddy_rep_def at by (auto simp: set_order_def put_free_header_def)
  moreover have "{x \<in> F. T x = Some j} = {x \<in> F. ?T x = Some j}" for j using r(2) nf by auto
  then have "free_lists_ok ?s ?T F H"
    using rep unfolding buddy_rep_def free_lists_ok_def at by (simp add: set_order_def put_free_header_def)
  ultimately show "buddy_rep ?s ?T F H {r, r + blk i}"
    using ok sp(1) by (auto simp: buddy_rep_def pool_ok_def)
qed

lemma split_step_eq:
  "set_order b i (buddy_list_add i c s) = buddy_list_add i c (set_order b i s)"
  by (simp add: set_order_def buddy_list_add_def split: prod.split)

lemma split_down_rep:
  assumes "buddy_rep s T F H {r}" and "T r = Some order" and "r \<notin> F" and "target \<le> order" and "merged T F"
  shows "\<exists>T' F' H'. buddy_rep (split_down (at s r) target order s) T' F' H' {r} \<and> merged T' F' \<and>
    live T' F' = (live T F)(r \<mapsto> target) \<and> pool_start (split_down (at s r) target order s) = pool_start s \<and>
    pool_size (split_down (at s r) target order s) = pool_size s"
  using assms
proof (induction order arbitrary: s T F H)
  case 0
  then have "live T F = (live T F)(r \<mapsto> target)" by (auto simp: live_def fun_eq_iff restrict_map_def)
  then show ?case using 0 by auto
next
  case (Suc i)
  show ?case
  proof (cases "target < Suc i")
    case True
    define s1 where "s1 = set_order (at s r) i (put_free_header (at s (r + blk i)) i s)"
    define s2 where "s2 = buddy_list_add i (at s (r + blk i)) s1"
    let ?T = "T(r \<mapsto> i, r + blk i \<mapsto> i)"
    have i: "i \<le> 18" using buddy_rep_in [OF Suc.prems(1,2)] by simp
    note h = split_header_rep [OF Suc.prems(1-3)]
    have at1: "at s1 = at s" unfolding s1_def by (intro at_cong) simp
    have at2: "at s2 = at s" unfolding s2_def using at1 by (metis at_cong list_ops_frame(1))
    have "bb_is_free s1 (at s1 (r + blk i))" by (simp add: at1) (simp add: s1_def set_order_def put_free_header_def)
    then obtain H' where H': "buddy_rep s2 ?T (insert (r + blk i) F) H' ({r, r + blk i} - {r + blk i})"
      using buddy_list_add_rep [OF h(1) [folded s1_def] h(2), of i] unfolding s2_def at1 by auto
    have X: "{r, r + blk i} - {r + blk i} = {r}" by auto
    have step: "split_down (at s r) target (Suc i) s = split_down (at s2 r) target i s2"
    proof -
      have "at s r + block_bytes i = at s (r + blk i)" using block_bytes_blk [OF i] by (simp add: at_def)
      then show ?thesis using True unfolding at2 by (simp add: Let_def s2_def s1_def split_step_eq)
    qed
    have mg: "merged ?T (insert (r + blk i) F)"
    proof (rule merged_insert)
      have "blk (Suc i) dvd r" "blk i dvd r"
        using Suc.prems(1,2) tilingD(1) [of _ T r "Suc i"] by (auto simp: buddy_rep_def blk_Suc intro: dvd_mult_right)
      then have "buddy_of i (r + blk i) = r" using buddy_of_half [of i r] buddy_of_involution [of i r] by simp
      then show "?T (buddy_of i (r + blk i)) \<noteq> Some i" if "buddy_of i (r + blk i) \<in> F" using that Suc.prems(3) by simp
      show "merged ?T F" using Suc.prems(3) h(2) by (intro merged_mono [OF Suc.prems(5)]) auto
      show "tiling (unat (pool_size s2)) ?T" using H' by (simp add: buddy_rep_def)
    qed simp
    have pre: "?T r = Some i" "r \<notin> insert (r + blk i) F" "target \<le> i" using True Suc.prems(3) by auto
    obtain T' F' H'' where IH: "buddy_rep (split_down (at s2 r) target i s2) T' F' H'' {r}"
      "live T' F' = (live ?T (insert (r + blk i) F))(r \<mapsto> target)"
      "pool_start (split_down (at s2 r) target i s2) = pool_start s2" "pool_size (split_down (at s2 r) target i s2) = pool_size s2"
      "merged T' F'"
      using Suc.IH [OF H' [unfolded X] pre mg] by blast
    have "T (r + blk i) = None" using tiling_split(2) Suc.prems(1,2) by (auto simp: buddy_rep_def)
    then have "(live ?T (insert (r + blk i) F))(r \<mapsto> target) = (live T F)(r \<mapsto> target)"
      by (auto simp: live_def restrict_map_def fun_eq_iff)
    note eq = IH(2) [unfolded this]
    have "pool_start s2 = pool_start s" "pool_size s2 = pool_size s" by (simp_all add: s2_def s1_def)
    then show ?thesis unfolding step
      by (intro exI [of _ T'] exI [of _ F'] exI [of _ H''] conjI IH(1,5) eq) (simp_all add: IH(3,4))
  next
    case False
    then have "target = Suc i" using Suc.prems(4) by simp
    then have "live T F = (live T F)(r \<mapsto> target)" using Suc.prems(2,3) by (auto simp: live_def fun_eq_iff restrict_map_def)
    then show ?thesis using Suc.prems False by auto
  qed
qed

text \<open>One round of the release loop: the free buddy is unlinked and joined with the block in hand.\<close>

lemma merge_step_rep:
  assumes rep: "buddy_rep s T F H {r}" and r: "T r = Some i" "r \<notin> F" and b: "T (buddy_of i r) = Some i" "buddy_of i r \<in> F" and i: "i < 18"
  shows "\<exists>H'. buddy_rep (set_order (at s (min r (buddy_of i r))) (Suc i) (buddy_list_remove i (at s (buddy_of i r)) s))
    (T(max r (buddy_of i r) := None, min r (buddy_of i r) \<mapsto> Suc i)) (F - {buddy_of i r}) H' {min r (buddy_of i r)}"
proof -
  define c p q where "c = buddy_of i r" and "p = min r c" and "q = max r c"
  have "blk i dvd r" using rep r(1) tilingD(1) by (auto simp: buddy_rep_def)
  then have "c \<noteq> r" using buddy_of_facts(2) by (simp add: c_def)
  then have pq: "p \<noteq> q" "T p = Some i" "T q = Some i" "{p, q} = {r, c}" "p \<notin> F - {c}" "q \<notin> F - {c}"
    using r b by (auto simp: p_def q_def c_def min_def max_def)
  define s1 where "s1 = buddy_list_remove i (at s c) s"
  obtain H' where H': "buddy_rep s1 T (F - {c}) H' (insert c {r})"
    using buddy_list_remove_rep [OF rep, of c i] b unfolding c_def s1_def by blast
  let ?s = "set_order (at s p) (Suc i) s1" and ?T = "T(q := None, p \<mapsto> Suc i)"
  have at: "at ?s = at s" "at s1 = at s" by (intro at_cong; simp add: s1_def)+
  have ok: "pool_ok s" "tiling (unat (pool_size s)) T" "F \<subseteq> dom T" using rep by (simp_all add: buddy_rep_def)
  have "tiling (unat (pool_size s)) ?T"
    using tiling_merge [OF ok(2) r(1) b(1) i] by (simp add: p_def q_def c_def)
  moreover have inj: "at s x \<noteq> at s p" if "T x = Some j" "x \<noteq> p" for x j
    using buddy_rep_at_inject [OF rep that(1) pq(2)] that(2) by simp
  have "headers_ok ?s ?T (F - {c}) {p}"
    unfolding headers_ok_def at
  proof (intro allI impI)
    fix x j
    assume x: "?T x = Some j"
    have old: "bb_magic s1 (at s y) = BUDDY_MAGIC \<and> bb_order s1 (at s y) = j \<and> (y \<notin> insert c {r} \<longrightarrow> bb_is_free s1 (at s y) = (y \<in> F - {c}))"
      if "T y = Some j" for y j
      using H' that unfolding buddy_rep_def headers_ok_def at by blast
    show "bb_magic ?s (at s x) = BUDDY_MAGIC \<and> bb_order ?s (at s x) = j \<and> (x \<notin> {p} \<longrightarrow> bb_is_free ?s (at s x) = (x \<in> F - {c}))"
    proof (cases "x = p")
      case True
      then show ?thesis using x old [OF pq(2)] by (simp add: set_order_def)
    next
      case False
      then have T: "T x = Some j" "x \<noteq> q" using x by (auto split: if_splits)
      then have "x \<notin> insert c {r}" using False pq(4) by blast
      then show ?thesis using old [OF T(1)] inj [OF T(1) False] by (simp add: set_order_def)
    qed
  qed
  moreover have "{x \<in> F - {c}. T x = Some j} = {x \<in> F - {c}. ?T x = Some j}" for j using pq(5,6) by auto
  then have "free_lists_ok ?s ?T (F - {c}) H'"
    using H' unfolding buddy_rep_def free_lists_ok_def at by (simp add: set_order_def)
  moreover have "F - {c} \<subseteq> dom ?T" using ok(3) pq(5,6) by auto
  ultimately have "buddy_rep ?s ?T (F - {c}) H' {p}" using ok(1) by (simp add: buddy_rep_def s1_def pool_ok_def)
  then show ?thesis unfolding s1_def c_def p_def q_def by blast
qed

lemma coalesce_rep:
  assumes "buddy_rep s T F H {r}" and "T r = Some order" and "r \<notin> F" and "merged T F"
  shows "\<exists>r' order' s' T' F' H'. coalesce (at s r) order s = (at s r', order', s') \<and> buddy_rep s' T' F' H' {r'} \<and>
    T' r' = Some order' \<and> r' \<notin> F' \<and> merged T' (insert r' F') \<and> (live T' F')(r' := None) = (live T F)(r := None) \<and>
    pool_start s' = pool_start s \<and> pool_size s' = pool_size s"
  using assms
proof (induction "18 - order" arbitrary: order s T F H r)
  case 0
  then have "\<not> order < BUDDY_MAX_ORDER" by (simp add: BUDDY_MAX_ORDER_def)
  then have "coalesce (at s r) order s = (at s r, order, s)" by (subst coalesce.simps) simp
  moreover have "merged T (insert r F)"
    using 0 by (intro merged_insert [OF 0(5), of "unat (pool_size s)" r order]) (auto simp: buddy_rep_def)
  ultimately show ?case using 0 by blast
next
  case (Suc n)
  have i: "order < 18" using Suc.hyps(2) by simp
  have ok: "pool_ok s" "tiling (unat (pool_size s)) T" using Suc.prems(1) by (simp_all add: buddy_rep_def)
  have in_r: "r + blk order \<le> unat (pool_size s)" "blk order dvd r" using tilingD(1) [OF ok(2) Suc.prems(2)] by auto
  define b where "b = buddy_of order r"
  have bN: "b \<le> unat (pool_size s)" using in_r(1) unfolding b_def buddy_of_def by (auto split: if_splits)
  have ub: "unat (at s b) = unat (pool_start s) + b" "unat (at s r) = unat (pool_start s) + r"
    using bN in_r(1) by (intro unat_at [OF ok(1)]; simp)+
  have ue: "unat (pool_start s + pool_size s) = unat (pool_start s) + unat (pool_size s)"
    using ok(1) unfolding pool_ok_def by (intro unat_add_u64) (auto elim: less_le_trans [rotated])
  have word: "pool_start s + ((at s r - pool_start s) XOR block_bytes order) = at s b"
    unfolding b_def using i by (intro buddy_word [OF ok(1) in_r]) simp
  have outside: "pool_start s + pool_size s \<le> at s b \<longleftrightarrow> unat (pool_size s) \<le> b" by (simp add: word_le_nat_alt ub ue)
  define stop where "stop \<longleftrightarrow> unat (pool_size s) \<le> b \<or> bb_magic s (at s b) \<noteq> BUDDY_MAGIC \<or> \<not> bb_is_free s (at s b) \<or> bb_order s (at s b) \<noteq> order"
  show ?case
  proof (cases stop)
    case True
    then have "coalesce (at s r) order s = (at s r, order, s)"
      by (subst coalesce.simps) (auto simp: word outside stop_def Let_def)
    moreover have "merged T (insert r F)"
    proof (rule merged_insert [OF Suc.prems(4) ok(2) Suc.prems(2)])
      assume bf: "buddy_of order r \<in> F"
      show "T (buddy_of order r) \<noteq> Some order"
      proof
        assume T: "T (buddy_of order r) = Some order"
        have "b < unat (pool_size s)" using tilingD(1) [OF ok(2) T] blk_pos(1) [of order] unfolding b_def by linarith
        moreover have "b \<noteq> r" unfolding b_def by (rule buddy_of_facts(2) [OF in_r(2)])
        ultimately show False using True T bf Suc.prems(1) unfolding stop_def buddy_rep_def headers_ok_def b_def by auto
      qed
    qed
    ultimately show ?thesis using Suc.prems by blast
  next
    case False
    then obtain j where "T b = Some j"
      using tiling_buddy [OF ok(2) Suc.prems(2)] unfolding stop_def b_def by auto
    moreover have "b \<noteq> r" unfolding b_def by (rule buddy_of_facts(2) [OF in_r(2)])
    ultimately have b: "T b = Some order" "b \<in> F"
      using Suc.prems(1) False unfolding stop_def buddy_rep_def headers_ok_def by auto
    define s2 where "s2 = set_order (at s (min r b)) (Suc order) (buddy_list_remove order (at s b) s)"
    define T2 where "T2 = T(max r b := None, min r b \<mapsto> Suc order)"
    obtain H2 where H2: "buddy_rep s2 T2 (F - {b}) H2 {min r b}"
      using merge_step_rep [OF Suc.prems(1-3)] b i unfolding b_def s2_def T2_def by blast
    have less: "at s b < at s r \<longleftrightarrow> b < r" by (simp add: word_less_nat_alt ub)
    have at2: "at s2 = at s" unfolding s2_def by (intro at_cong) simp
    have step: "coalesce (at s r) order s = coalesce (at s2 (min r b)) (Suc order) s2"
      using False i unfolding at2
      by (subst coalesce.simps) (auto simp: word outside less stop_def BUDDY_MAX_ORDER_def Let_def s2_def min_def)
    have T2: "T2 (min r b) = Some (Suc order)" "min r b \<notin> F - {b}" using Suc.prems(3) by (auto simp: T2_def min_def)
    have "(live T2 (F - {b}))(min r b := None) = (live T F)(r := None)"
      using b \<open>b \<noteq> r\<close> unfolding live_def T2_def restrict_map_def fun_eq_iff by (auto simp: min_def max_def)
    moreover have "n = 18 - Suc order" using Suc.hyps(2) by simp
    moreover have "merged T2 (F - {b})"
      using Suc.prems(3) b unfolding T2_def by (intro merged_mono [OF Suc.prems(4)]) (auto simp: min_def max_def split: if_splits)
    note Suc.hyps(1) [OF \<open>n = 18 - Suc order\<close> H2 T2 this]
    moreover have "pool_start s2 = pool_start s" "pool_size s2 = pool_size s" by (simp_all add: s2_def)
    ultimately show ?thesis unfolding step at2 by simp
  qed
qed

section \<open>Allocation and release\<close>

definition buddy_inv :: "kbuddy \<Rightarrow> (nat \<rightharpoonup> nat) \<Rightarrow> nat set \<Rightarrow> bool" where
  "buddy_inv s T F \<longleftrightarrow> merged T F \<and> (\<exists>H. buddy_rep s T F H {})"

lemma order_for_spec:
  "(order_for n k \<le> 18 \<longrightarrow> n \<le> block_bytes (order_for n k)) \<and> k \<le> order_for n k \<and> (\<forall>i. k \<le> i \<and> i < order_for n k \<longrightarrow> block_bytes i < n)"
proof (induction n k rule: order_for.induct)
  case (1 n k)
  show ?case
  proof (cases "block_bytes k < n \<and> k \<le> BUDDY_MAX_ORDER")
    case True
    have eq: "order_for n k = order_for n (k + 1)" using True by (subst order_for.simps) simp
    show ?thesis using 1 [OF True] True unfolding eq by (metis Suc_eq_plus1 Suc_leD le_eq_less_or_eq less_eq_Suc_le)
  next
    case False
    then have "order_for n k = k" by (subst order_for.simps) auto
    then show ?thesis using False by (auto simp: BUDDY_MAX_ORDER_def)
  qed
qed

lemma order_with_block_spec:
  "(order_with_block s k \<le> 18 \<longrightarrow> free_lists s (order_with_block s k) \<noteq> NULL) \<and> k \<le> order_with_block s k \<and>
   (\<forall>i. k \<le> i \<and> i < order_with_block s k \<longrightarrow> free_lists s i = NULL)"
proof (induction s k rule: order_with_block.induct)
  case (1 s k)
  show ?case
  proof (cases "k \<le> BUDDY_MAX_ORDER \<and> free_lists s k = NULL")
    case True
    have eq: "order_with_block s k = order_with_block s (k + 1)" using True by (subst order_with_block.simps) simp
    show ?thesis using 1 [OF True] True unfolding eq by (metis Suc_eq_plus1 Suc_leD le_eq_less_or_eq less_eq_Suc_le)
  next
    case False
    then have "order_with_block s k = k" by (subst order_with_block.simps) auto
    then show ?thesis using False by (auto simp: BUDDY_MAX_ORDER_def)
  qed
qed

lemma set_free_rep:
  assumes rep: "buddy_rep s T F H {r}" and "T r = Some i" and "f = (r \<in> F)"
  shows "buddy_rep (set_free (at s r) f s) T F H {}"
proof -
  have at: "at (set_free (at s r) f s) = at s" by (intro at_cong) simp
  have "headers_ok (set_free (at s r) f s) T F {}"
    using rep assms(2,3) buddy_rep_at_inject [OF rep _ assms(2)]
    unfolding headers_ok_def buddy_rep_def at by (auto simp: set_free_def)
  then show ?thesis using rep unfolding buddy_rep_def free_lists_ok_def at by (simp add: pool_ok_def) (simp add: set_free_def)
qed

lemma payload_not_NULL:
  assumes rep: "buddy_rep s T F H X" and "T r = Some i"
  shows "at s r + 24 \<noteq> NULL"
proof -
  have "r + blk i \<le> unat (pool_size s)" "pool_ok s" using buddy_rep_in [OF assms] rep by (simp_all add: buddy_rep_def)
  moreover have "64 \<le> blk i" by (simp add: blk_def power_add)
  ultimately have "unat (at s r) + unat (24 :: u64) < 2 ^ 64" using unat_at [of s r] unfolding pool_ok_def by simp
  from unat_add_u64 [OF this] have "unat (at s r + 24) = unat (at s r) + 24" by simp
  then show ?thesis by (metis add_is_0 unat_0 zero_neq_numeral)
qed

lemma buddy_alloc_any:
  assumes inv: "buddy_inv s T F" and alloc: "kmem_buddy_alloc sz s = (p, s')"
  shows "p = NULL \<and> s' = s \<and> (sz = 0 \<or> (\<forall>r order. r \<in> F \<longrightarrow> T r = Some order \<longrightarrow> blk order < unat (sz + 24))) \<or>
    (\<exists>r order T' F'. sz \<noteq> 0 \<and> p = at s r + 24 \<and> p \<noteq> NULL \<and> buddy_inv s' T' F' \<and> live T F r = None \<and> live T' F' = (live T F)(r \<mapsto> order) \<and>
      order \<le> 18 \<and> unat (sz + 24) \<le> blk order \<and> (\<forall>i<order. blk i < unat (sz + 24)) \<and>
      pool_start s' = pool_start s \<and> pool_size s' = pool_size s)"
proof (cases "sz = 0")
  case True
  then show ?thesis using alloc by (simp add: kmem_buddy_alloc_def)
next
  case sz: False
  obtain H where rep: "buddy_rep s T F H {}" and mg: "merged T F" using inv by (auto simp: buddy_inv_def)
  define n where "n = sz + 24"
  define t where "t = order_for n 0"
  define i where "i = order_with_block s t"
  have t: "t \<le> 18 \<Longrightarrow> unat n \<le> blk t" "\<And>j. j < t \<Longrightarrow> j \<le> 18 \<Longrightarrow> blk j < unat n"
    using order_for_spec [of n 0] conjunct2 [OF block_bytes_blk] unfolding t_def word_le_nat_alt word_less_nat_alt by (metis le0)+
  have i: "i \<le> 18 \<Longrightarrow> free_lists s i \<noteq> NULL" "t \<le> i" "\<And>j. t \<le> j \<Longrightarrow> j < i \<Longrightarrow> free_lists s j = NULL"
    using order_with_block_spec [of s t] unfolding i_def by auto
  have fl: "\<And>i. i \<le> 18 \<Longrightarrow> free_lists s i = head_of (H i) NULL" "\<And>i. set (H i) = at s ` {r \<in> F. T r = Some i}"
    "dlls (bb_links s) H" using rep by (auto simp: buddy_rep_def free_lists_ok_def)
  show ?thesis
  proof (cases "t \<le> 18 \<and> i \<le> 18")
    case False
    have "p = NULL \<and> s' = s"
      using alloc sz False by (auto simp: kmem_buddy_alloc_def Let_def BUDDY_BLOCK_SIZE_def BUDDY_MAX_ORDER_def n_def [symmetric] t_def [symmetric] i_def [symmetric] split: if_splits)
    moreover have "blk order < unat n" if "r \<in> F" "T r = Some order" for r order
    proof -
      have o: "order \<le> 18" using buddy_rep_in [OF rep that(2)] by simp
      have "order < t"
      proof (rule ccontr)
        assume "\<not> order < t"
        then have "free_lists s order = NULL" using False o i(3) [of order] by linarith
        moreover have "at s r \<in> set (H order)" using fl(2) that by blast
        moreover have "\<forall>x\<in>set (H order). x \<noteq> NULL" using dlls_not_NULL [OF fl(3)] by blast
        ultimately show False using fl(1) [OF o] by (cases "H order") auto
      qed
      then show ?thesis using t(2) [OF _ o] by simp
    qed
    ultimately show ?thesis unfolding n_def by blast
  next
    case True
    have "H i \<noteq> []" using i(1) fl(1) [of i] True by auto
    then obtain r where r: "r \<in> F" "T r = Some i" "free_lists s i = at s r"
      using fl(1) [of i] fl(2) [of i] True by (cases "H i") auto
    define s1 where "s1 = buddy_list_remove i (at s r) s"
    define s2 where "s2 = split_down (at s r) t i s1"
    obtain H1 where H1: "buddy_rep s1 T (F - {r}) H1 {r}" using buddy_list_remove_rep [OF rep r(1,2)] unfolding s1_def by auto
    have at1: "at s1 = at s" unfolding s1_def by (intro at_cong) simp
    obtain T2 F2 H2 where s2: "buddy_rep s2 T2 F2 H2 {r}" "live T2 F2 = (live T (F - {r}))(r \<mapsto> t)"
      "pool_start s2 = pool_start s1" "pool_size s2 = pool_size s1" "merged T2 F2"
      using split_down_rep [OF H1 r(2) _ i(2) merged_mono [OF mg]] unfolding s2_def at1 by blast
    have at2: "at s2 = at s" using s2(3) at1 by (metis at_cong)
    have T2: "T2 r = Some t" "r \<notin> F2" using s2(2) live_Some [of T2 F2 r t] by auto
    have res: "kmem_buddy_alloc sz s = (at s r + 24, set_free (at s r) False s2)"
      using sz True r(3) by (simp add: kmem_buddy_alloc_def Let_def BUDDY_BLOCK_SIZE_def BUDDY_MAX_ORDER_def n_def [symmetric] t_def [symmetric] i_def [symmetric] s1_def s2_def)
    have "buddy_rep s' T2 F2 H2 {}"
      using set_free_rep [OF s2(1) T2(1), of False] T2(2) res alloc unfolding at2 by simp
    moreover have "live T F r = None" "live T2 F2 = (live T F)(r \<mapsto> t)"
      using s2(2) r(1) by (auto simp: live_def restrict_map_def fun_eq_iff)
    moreover have "at s r + 24 \<noteq> NULL" by (rule payload_not_NULL [OF rep r(2)])
    ultimately show ?thesis
      using res alloc t True sz s2(3-5) unfolding buddy_inv_def n_def [symmetric]
      by (intro disjI2 exI [of _ r] exI [of _ t] exI [of _ T2] exI [of _ F2]) (auto simp: s1_def)
  qed
qed

lemma total_size: "unat sz + 24 < 2 ^ 64 \<Longrightarrow> unat (sz + 24 :: u64) = unat sz + 24"
  by (subst unat_add_u64) simp_all

lemma buddy_alloc_inv:
  assumes inv: "buddy_inv s T F" and sz: "sz \<noteq> 0" "unat sz + 24 < 2 ^ 64" and alloc: "kmem_buddy_alloc sz s = (p, s')"
  shows "p = NULL \<and> s' = s \<and> (\<forall>r order. r \<in> F \<longrightarrow> T r = Some order \<longrightarrow> blk order < unat sz + 24) \<or>
    (\<exists>r order T' F'. p = at s r + 24 \<and> p \<noteq> NULL \<and> buddy_inv s' T' F' \<and> live T F r = None \<and> live T' F' = (live T F)(r \<mapsto> order) \<and>
      order \<le> 18 \<and> unat sz + 24 \<le> blk order \<and> pool_start s' = pool_start s \<and> pool_size s' = pool_size s)"
proof -
  show ?thesis using buddy_alloc_any [OF inv alloc] sz(1) total_size [OF sz(2)] by metis
qed

lemma buddy_free_inv:
  assumes inv: "buddy_inv s T F" and r: "live T F r = Some order"
  shows "\<exists>T' F'. buddy_inv (kmem_buddy_free (at s r + 24) s) T' F' \<and> live T' F' = (live T F)(r := None)"
proof -
  obtain H where rep: "buddy_rep s T F H {}" and mg: "merged T F" using inv by (auto simp: buddy_inv_def)
  have T: "T r = Some order" "r \<notin> F" using r by (simp_all add: live_Some)
  have hd: "bb_magic s (at s r) = BUDDY_MAGIC" "\<not> bb_is_free s (at s r)" "bb_order s (at s r) = order"
    using rep T by (auto simp: buddy_rep_def headers_ok_def)
  have "buddy_rep s T F H {r}" using rep by (auto simp: buddy_rep_def headers_ok_def)
  from coalesce_rep [OF this T mg] obtain q i s1 T1 F1 H1 where c: "coalesce (at s r) order s = (at s q, i, s1)"
    "buddy_rep s1 T1 F1 H1 {q}" "T1 q = Some i" "q \<notin> F1" "(live T1 F1)(q := None) = (live T F)(r := None)" "pool_start s1 = pool_start s" "merged T1 (insert q F1)"
    by blast
  define s2 where "s2 = set_free (at s q) True s1"
  have at: "at s1 = at s" "at s2 = at s" using c(6) by (auto simp: s2_def intro: at_cong)
  have rep2: "buddy_rep s2 T1 F1 H1 {q}"
    using c(2) buddy_rep_at_inject [OF c(2) _ c(3)] unfolding buddy_rep_def headers_ok_def free_lists_ok_def pool_ok_def at
    by (auto simp: s2_def set_free_def)
  have "bb_is_free s2 (at s2 q)" unfolding at by (simp add: s2_def set_free_def)
  from buddy_list_add_rep [OF rep2 c(4,3) this] obtain H3 where "buddy_rep (buddy_list_add i (at s q) s2) T1 (insert q F1) H3 {}"
    unfolding at by auto
  moreover have "at s r + 24 \<noteq> NULL \<Longrightarrow> kmem_buddy_free (at s r + 24) s = buddy_list_add i (at s q) s2"
    using hd c(1) by (simp add: kmem_buddy_free_def BUDDY_BLOCK_SIZE_def s2_def)
  moreover have "at s r + 24 \<noteq> NULL" by (rule payload_not_NULL [OF rep T(1)])
  moreover have "live T1 (insert q F1) = (live T F)(r := None)"
    unfolding c(5) [symmetric] by (auto simp: live_def restrict_map_def fun_eq_iff)
  ultimately show ?thesis using c(7) unfolding buddy_inv_def by auto
qed

section \<open>Initialisation\<close>

lemma tiling_extend:
  assumes t: "tiling n T" and "blk i dvd n" and "i \<le> 18"
  shows "tiling (n + blk i) (T(n \<mapsto> i))"
proof -
  have lt: "r + blk j \<le> n" if "T r = Some j" for r j using tilingD(1) [OF t that] by simp
  show ?thesis unfolding tiling_def
  proof (intro conjI allI impI, goal_cases)
    case (1 r j)
    then show ?case using tilingD(1) [OF t] assms(3) by (auto split: if_splits)
  next
    case (2 r j)
    then show ?case using tilingD(1) [OF t] assms(2) by (auto split: if_splits)
  next
    case (3 r j)
    then show ?case using lt [of r j] by (auto split: if_splits)
  next
    case (4 x)
    show ?case
    proof (cases "x < n")
      case True
      then obtain r j where r: "T r = Some j" "r \<le> x" "x < r + blk j" using tilingD(2) [OF t] by blast
      then have "r \<noteq> n" using True by simp
      then show ?thesis using r by (intro exI [of _ r] exI [of _ j]) simp
    qed (use 4 in \<open>intro exI [of _ n] exI [of _ i], simp\<close>)
  next
    case (5 r j r' j')
    then show ?case using lt [of r j] lt [of r' j'] tilingD(3) [OF t, of r j r' j'] by (auto split: if_splits)
  qed
qed

lemma extend_rep:
  assumes rep: "buddy_rep (s\<lparr>pool_size := of_nat n\<rparr>) T F H {}" and ok: "pool_ok s"
    and n: "n + blk i \<le> unat (pool_size s)" "blk i dvd n" "i \<le> 18"
  shows "\<exists>H'. buddy_rep (buddy_list_add i (at s n) (put_free_header (at s n) i s)\<lparr>pool_size := of_nat (n + blk i)\<rparr>)
    (T(n \<mapsto> i)) (insert n F) H' {}"
proof -
  let ?s = "(put_free_header (at s n) i s)\<lparr>pool_size := of_nat (n + blk i)\<rparr>"
  have un: "unat (of_nat m :: u64) = m" if "m \<le> unat (pool_size s)" for m using that unat_of_nat_le by blast
  have at: "at ?s = at s" "at (s\<lparr>pool_size := of_nat n\<rparr>) = at s" by (intro at_cong; simp)+
  have t: "tiling n T" "F \<subseteq> dom T" using rep un [of n] n(1) by (simp_all add: buddy_rep_def)
  have lt: "r + blk j \<le> n" if "T r = Some j" for r j using tilingD(1) [OF t(1) that] by simp
  have ne: "at s r \<noteq> at s n" if "T r = Some j" for r j
    using at_inject [OF ok, of r n] lt [OF that] n(1) blk_pos(1) [of j] by auto
  have nF: "n \<notin> F" using t(2) lt by fastforce
  have "headers_ok ?s (T(n \<mapsto> i)) F {n}"
    using rep ne unfolding buddy_rep_def headers_ok_def at by (auto simp: put_free_header_def)
  moreover have "{r \<in> F. T r = Some j} = {r \<in> F. (T(n \<mapsto> i)) r = Some j}" for j using nF by auto
  then have "free_lists_ok ?s (T(n \<mapsto> i)) F H"
    using rep unfolding buddy_rep_def free_lists_ok_def at by (simp add: put_free_header_def)
  moreover have "tiling (unat (pool_size ?s)) (T(n \<mapsto> i))" using tiling_extend [OF t(1) n(2,3)] un [OF n(1)] by simp
  moreover have "pool_ok ?s" using ok n(1) un [OF n(1)] unfolding pool_ok_def by simp
  ultimately have "buddy_rep ?s (T(n \<mapsto> i)) F H {n}" using t(2) by (auto simp: buddy_rep_def)
  moreover have "bb_is_free ?s (at ?s n)" unfolding at by (simp add: put_free_header_def)
  ultimately obtain H' where "buddy_rep (buddy_list_add i (at ?s n) ?s) (T(n \<mapsto> i)) (insert n F) H' {}"
    using buddy_list_add_rep [of ?s "T(n \<mapsto> i)" F H "{n}" n i] nF by auto
  moreover have "buddy_list_add i (at ?s n) ?s = buddy_list_add i (at s n) (put_free_header (at s n) i s)\<lparr>pool_size := of_nat (n + blk i)\<rparr>"
    unfolding at by (simp add: buddy_list_add_def split: prod.split)
  ultimately show ?thesis by auto
qed

lemma aligned_iff: "i \<le> 18 \<Longrightarrow> addr AND (block_bytes i - 1) = 0 \<longleftrightarrow> blk i dvd unat addr"
proof -
  assume "i \<le> 18"
  have "addr AND (block_bytes i - 1) = take_bit (6 + i) addr"
    by (simp add: take_bit_eq_mask mask_eq_exp_minus_1 block_bytes_def BUDDY_MIN_SHIFT_def push_bit_eq_mult)
  moreover have "unat (take_bit (6 + i) addr) = unat addr mod blk i"
    by (simp only: unsigned_take_bit_eq) (simp only: take_bit_eq_mod blk_def)
  ultimately show ?thesis by (metis dvd_eq_mod_eq_0 unat_eq_0)
qed

lemma init_order_spec:
  "k \<le> 18 \<Longrightarrow> block_bytes 0 \<le> remaining \<Longrightarrow> blk 0 dvd unat addr \<Longrightarrow>
   init_order addr remaining k \<le> k \<and> blk (init_order addr remaining k) \<le> unat remaining \<and> blk (init_order addr remaining k) dvd unat addr \<and>
   (\<forall>j. init_order addr remaining k < j \<and> j \<le> k \<longrightarrow> \<not> (blk j \<le> unat remaining \<and> blk j dvd unat addr))"
proof (induction k)
  case 0
  then show ?case using block_bytes_blk [of 0] by (auto simp: word_le_nat_alt)
next
  case (Suc k)
  then show ?case using block_bytes_blk [of "Suc k"] aligned_iff [of "Suc k" addr] by (auto simp: word_le_nat_alt le_SucI le_Suc_eq)
qed

text \<open>Every block is the largest one that fits where it starts, so no two of them are buddies of one order.\<close>

definition greedy :: "nat \<Rightarrow> (nat \<rightharpoonup> nat) \<Rightarrow> bool" where
  "greedy N T \<longleftrightarrow> (\<forall>r i. T r = Some i \<longrightarrow> i < 18 \<longrightarrow> \<not> (blk (Suc i) dvd r \<and> r + blk (Suc i) \<le> N))"

lemma greedy_merged:
  assumes t: "tiling N T" and g: "greedy N T"
  shows "merged T (dom T)"
  unfolding merged_def
proof (intro ballI allI impI notI, elim conjE)
  fix r i
  assume r: "i < 18" "T r = Some i" and b: "T (buddy_of i r) = Some i"
  define p where "p = min r (buddy_of i r)"
  have al: "blk i dvd r" using tilingD(1) [OF t r(2)] by simp
  note f = buddy_of_facts [OF al, folded p_def]
  have "T p = Some i" using r b by (simp add: p_def min_def)
  moreover have "p + blk (Suc i) \<le> N"
    using tilingD(1) [OF t r(2)] tilingD(1) [OF t b] f(4) unfolding blk_Suc by (simp add: max_def split: if_splits)
  ultimately show False using g f(3) r(1) unfolding greedy_def by blast
qed

lemma buddy_init_loop_rep:
  assumes "buddy_rep (s\<lparr>pool_size := of_nat n\<rparr>) T (dom T) H {}" and "pool_ok s" and "n + unat remaining = unat (pool_size s)"
    and "64 dvd n" and "64 dvd unat remaining" and "2 ^ k dvd unat (pool_start s)" and "unat (pool_size s) \<le> 2 ^ k"
    and "greedy (unat (pool_size s)) T"
  shows "\<exists>s' T' H'. buddy_init_loop (at s n) remaining s = Some s' \<and> buddy_rep s' T' (dom T') H' {} \<and> greedy (unat (pool_size s)) T' \<and>
    pool_start s' = pool_start s \<and> pool_size s' = pool_size s"
  using assms
proof (induction "unat remaining" arbitrary: n remaining s T H rule: less_induct)
  case less
  have b0: "blk 0 = 64" "unat (block_bytes 0) = 64" using block_bytes_blk [of 0] by (simp_all add: blk_def)
  have atn: "unat (at s n) = unat (pool_start s) + n" by (rule unat_at [OF less.prems(2)]) (use less.prems(3) in simp)
  show ?case
  proof (cases "block_bytes 0 \<le> remaining")
    case False
    then have "unat remaining < 64" by (simp add: word_le_nat_alt b0)
    then have "unat remaining = 0" using less.prems(5) by (auto simp: dvd_def)
    then have "of_nat n = pool_size s" using less.prems(3) by simp
    then have "s\<lparr>pool_size := of_nat n\<rparr> = s" by simp
    then show ?thesis using less.prems(1,8) False buddy_init_loop.simps [of "at s n" remaining s] by auto
  next
    case True
    define i where "i = init_order (at s n) remaining 18"
    have ge: "64 \<le> unat remaining" using True by (simp add: word_le_nat_alt b0)
    have pow: "blk j dvd unat (pool_start s)" if "blk j \<le> unat remaining" for j
    proof -
      have "blk j \<le> 2 ^ k" using that less.prems(3,7) by linarith
      then have "6 + j \<le> k" unfolding blk_def by (metis power_le_imp_le_exp one_less_numeral_iff semiring_norm(76))
      then show ?thesis using less.prems(6) unfolding blk_def by (metis dvd_trans le_imp_power_dvd)
    qed
    have "blk 0 dvd unat (at s n)" unfolding atn using pow [of 0] ge less.prems(4) b0 by (intro dvd_add) simp_all
    then have i: "i \<le> 18" "blk i \<le> unat remaining" "blk i dvd unat (at s n)"
        "\<And>j. i < j \<Longrightarrow> j \<le> 18 \<Longrightarrow> \<not> (blk j \<le> unat remaining \<and> blk j dvd unat (at s n))"
      using init_order_spec [of 18 remaining "at s n"] True unfolding i_def by auto
    have "\<not> (blk (Suc i) dvd n \<and> n + blk (Suc i) \<le> unat (pool_size s))" if "i < 18"
      using i(4) [of "Suc i"] pow [of "Suc i"] that less.prems(3) unfolding atn by (auto simp: dvd_add_right_iff)
    then have g: "greedy (unat (pool_size s)) (T(n \<mapsto> i))" using less.prems(8) by (auto simp: greedy_def)
    have "blk i dvd n" using i(3) pow [OF i(2)] unfolding atn by (simp add: dvd_add_right_iff)
    define s2 where "s2 = buddy_list_add i (at s n) (put_free_header (at s n) i s)"
    obtain H' where H': "buddy_rep (s2\<lparr>pool_size := of_nat (n + blk i)\<rparr>) (T(n \<mapsto> i)) (insert n (dom T)) H' {}"
      using extend_rep [OF less.prems(1,2) _ \<open>blk i dvd n\<close> i(1)] i(2) less.prems(3) unfolding s2_def by auto
    have ub: "unat (block_bytes i) = blk i" "block_bytes i = of_nat (blk i)" using block_bytes_blk [OF i(1)] by blast+
    have same: "pool_start s2 = pool_start s" "pool_size s2 = pool_size s" by (simp_all add: s2_def)
    have at2: "at s2 (n + blk i) = at s n + block_bytes i" using same(1) by (simp add: at_def ub(2))
    have rem: "unat (remaining - block_bytes i) = unat remaining - blk i"
      using i(2) ub(1) by (subst unat_sub_le) (simp_all add: word_le_nat_alt)
    have d64: "64 dvd blk i" using blk_dvd [of 0 i] b0(1) by simp
    have loop: "buddy_init_loop (at s n) remaining s = buddy_init_loop (at s2 (n + blk i)) (remaining - block_bytes i) s2"
      using True unfolding at2 by (subst buddy_init_loop.simps) (simp add: Let_def i_def [symmetric] s2_def BUDDY_MAX_ORDER_def)
    have "\<exists>s' T' H'. buddy_init_loop (at s2 (n + blk i)) (remaining - block_bytes i) s2 = Some s' \<and> buddy_rep s' T' (dom T') H' {} \<and>
        greedy (unat (pool_size s2)) T' \<and> pool_start s' = pool_start s2 \<and> pool_size s' = pool_size s2"
    proof (rule less.hyps)
      show "unat (remaining - block_bytes i) < unat remaining" unfolding rem using i(2) blk_pos(1) [of i] by linarith
      show "buddy_rep (s2\<lparr>pool_size := of_nat (n + blk i)\<rparr>) (T(n \<mapsto> i)) (dom (T(n \<mapsto> i))) H' {}" using H' by simp
      show "pool_ok s2" using less.prems(2) same by (simp add: pool_ok_def)
      show "n + blk i + unat (remaining - block_bytes i) = unat (pool_size s2)" using less.prems(3) i(2) same rem by simp
      show "64 dvd n + blk i" using less.prems(4) d64 by (rule dvd_add)
      show "64 dvd unat (remaining - block_bytes i)" unfolding rem using less.prems(5) d64 by (rule dvd_diff_nat)
    qed (use less.prems(6,7) same g in simp_all)
    then show ?thesis unfolding loop same .
  qed
qed

lemma buddy_init_inv:
  assumes "0 < unat start" and "unat start + unat sz + 2 ^ 24 \<le> 2 ^ 64" and "64 dvd unat sz" and "2 ^ k dvd unat start" and "unat sz \<le> 2 ^ k"
  shows "\<exists>s' T. kmem_buddy_init start sz s = Some s' \<and> buddy_inv s' T (dom T) \<and> pool_start s' = start \<and> pool_size s' = sz"
proof -
  let ?s = "s\<lparr>pool_start := start, pool_size := sz, free_lists := (\<lambda>i. if i \<le> BUDDY_MAX_ORDER then NULL else free_lists s i)\<rparr>"
  have "buddy_rep (?s\<lparr>pool_size := of_nat 0\<rparr>) Map.empty (dom Map.empty) (\<lambda>_. []) {}"
    using assms(1,2) by (simp add: buddy_rep_def pool_ok_def tiling_def headers_ok_def free_lists_ok_def dlls_def BUDDY_MAX_ORDER_def)
  then have "\<exists>s' T' H'. buddy_init_loop (at ?s 0) sz ?s = Some s' \<and> buddy_rep s' T' (dom T') H' {} \<and> greedy (unat (pool_size ?s)) T' \<and>
      pool_start s' = pool_start ?s \<and> pool_size s' = pool_size ?s"
    by (rule buddy_init_loop_rep [where k = k]) (use assms in \<open>simp_all add: pool_ok_def greedy_def\<close>)
  then obtain s' T' H' where s': "buddy_init_loop (at ?s 0) sz ?s = Some s'" "buddy_rep s' T' (dom T') H' {}" "greedy (unat sz) T'"
      "pool_start s' = start" "pool_size s' = sz" by auto
  then have "merged T' (dom T')" by (intro greedy_merged [of "unat sz"]) (simp_all add: buddy_rep_def)
  moreover have "at ?s 0 = start" by (simp add: at_def)
  ultimately show ?thesis using s' unfolding buddy_inv_def kmem_buddy_init_def by auto
qed

section \<open>A concrete pool\<close>

text \<open>One page at 65536, as \<open>kmem_buddy_init\<close> leaves it.\<close>

definition kbuddy_boot :: kbuddy where
  "kbuddy_boot = \<lparr>pool_start = 0, pool_size = 0, free_lists = (\<lambda>_. 0), bb_magic = (\<lambda>_. 0), bb_is_free = (\<lambda>_. False),
     bb_order = (\<lambda>_. 0), bb_links = \<lparr>lk_next = (\<lambda>_. 0), lk_prev = (\<lambda>_. 0)\<rparr>\<rparr>"

definition kbuddy_example :: kbuddy where
  "kbuddy_example = (buddy_list_add 6 65536 (put_free_header 65536 6 (kbuddy_boot\<lparr>pool_start := 65536, pool_size := 4096\<rparr>)))"

lemma kbuddy_example_inv: "buddy_inv kbuddy_example [0 \<mapsto> 6] {0}"
proof -
  have "tiling 4096 [0 \<mapsto> 6]" "merged [0 \<mapsto> 6] {0}" by (auto simp: tiling_def blk_def merged_def buddy_of_def)
  then show ?thesis unfolding buddy_inv_def
    by (intro conjI exI [of _ "\<lambda>i. if i = 6 then [65536] else []"])
      (auto simp: buddy_rep_def pool_ok_def headers_ok_def free_lists_ok_def kbuddy_example_def kbuddy_boot_def put_free_header_def
        buddy_list_add_def ilist_add_def dlls_def at_def Let_def set_next_def set_prev_def)
qed

lemma kbuddy_example_live: "live [0 \<mapsto> 6] {0} = Map.empty"
  by (auto simp: live_def fun_eq_iff restrict_map_def)

lemma kbuddy_example_room: "\<not> (\<forall>r order. r \<in> {0} \<longrightarrow> [0 \<mapsto> 6] r = Some order \<longrightarrow> blk order < unat (100 :: u64) + 24)"
  by (simp add: blk_def)

section \<open>Properties\<close>

text \<open>C26: \<open>kmem_buddy_alloc\<close> on a well-formed pool, for every size.  It returns \<open>NULL\<close> and changes nothing when the size is 0
  or no free block holds the request and its header of 24 bytes.  Otherwise it returns the payload of a
  block that was not live, of the smallest order that holds both; the block becomes live, every
  other live block stays as it is, and the pool is again cut into aligned, disjoint blocks
  without a gap, with the free ones on the lists of their orders and no two free buddies.  The
  sum of the size and the header is the one of the code, in 64 bits: it is the true one below
  \<open>2 ^ 64 - 24\<close>, and for the 24 larger sizes it wraps and the block is too small.\<close>

theorem kmem_buddy_alloc_correct:
  assumes "buddy_inv s T F" and "kmem_buddy_alloc sz s = (p, s')"
  shows "p = NULL \<and> s' = s \<and> (sz = 0 \<or> (\<forall>r order. r \<in> F \<longrightarrow> T r = Some order \<longrightarrow> blk order < unat (sz + 24))) \<or>
    (\<exists>r order T' F'. sz \<noteq> 0 \<and> p = at s r + 24 \<and> p \<noteq> NULL \<and> buddy_inv s' T' F' \<and> live T F r = None \<and> live T' F' = (live T F)(r \<mapsto> order) \<and>
      order \<le> 18 \<and> unat (sz + 24) \<le> blk order \<and> (\<forall>i<order. blk i < unat (sz + 24)) \<and>
      (unat sz + 24 < 2 ^ 64 \<longrightarrow> unat (sz + 24) = unat sz + 24) \<and> pool_start s' = pool_start s \<and> pool_size s' = pool_size s)"
  using buddy_alloc_any [OF assms] total_size [of sz] by blast

theorem kmem_buddy_alloc_correct_witness:
  "\<exists>p s' r order T' F'. kmem_buddy_alloc 100 kbuddy_example = (p, s') \<and> p \<noteq> NULL \<and> buddy_inv s' T' F' \<and>
     live T' F' = [r \<mapsto> order] \<and> 124 \<le> blk order"
proof -
  obtain p s' where p: "kmem_buddy_alloc 100 kbuddy_example = (p, s')" by fastforce
  from kmem_buddy_alloc_correct [OF kbuddy_example_inv p] kbuddy_example_room
  obtain r order T' F' where "p \<noteq> NULL" "buddy_inv s' T' F'" "live T' F' = [r \<mapsto> order]" "unat (100 + 24 :: u64) \<le> blk order"
    unfolding kbuddy_example_live by auto
  moreover from this(4) have "124 \<le> blk order" by simp
  ultimately show ?thesis using p by blast
qed

text \<open>C5: \<open>kmem_buddy_free\<close> of the payload of a live block makes exactly this block free: every other live block stays
  as it is, and the pool is well-formed, cut without a gap into aligned blocks with the free
  ones on the lists of their orders.  It is joined with its buddies all the way up: afterwards no
  free block below the largest order has a buddy that is free and of the same order.\<close>

theorem kmem_buddy_free_correct:
  assumes "buddy_inv s T F" and "live T F r = Some order"
  shows "\<exists>T' F'. buddy_inv (kmem_buddy_free (at s r + 24) s) T' F' \<and> live T' F' = (live T F)(r := None) \<and>
    (\<forall>x i. x \<in> F' \<longrightarrow> T' x = Some i \<longrightarrow> i < 18 \<longrightarrow> buddy_of i x \<in> F' \<longrightarrow> T' (buddy_of i x) \<noteq> Some i)"
  using buddy_free_inv [OF assms] unfolding buddy_inv_def merged_def by blast

theorem kmem_buddy_free_correct_witness:
  "\<exists>p s' T' F'. kmem_buddy_alloc 100 kbuddy_example = (p, s') \<and> buddy_inv (kmem_buddy_free p s') T' F' \<and> live T' F' = Map.empty"
proof -
  obtain p s' where p: "kmem_buddy_alloc 100 kbuddy_example = (p, s')" by fastforce
  have sz: "(100 :: u64) \<noteq> 0" "unat (100 :: u64) + 24 < 2 ^ 64" by simp_all
  from buddy_alloc_inv [OF kbuddy_example_inv sz p] kbuddy_example_room
  obtain r order T' F' where r: "p = at kbuddy_example r + 24" "buddy_inv s' T' F'" "live T' F' = [r \<mapsto> order]" "pool_start s' = pool_start kbuddy_example"
    unfolding kbuddy_example_live by blast
  have at: "at s' = at kbuddy_example" by (rule at_cong [OF r(4)])
  have "live T' F' r = Some order" "(live T' F')(r := None) = Map.empty" using r(3) by simp_all
  then show ?thesis using kmem_buddy_free_correct [OF r(2)] p unfolding r(1) at [symmetric] by metis
qed

text \<open>\<open>kmem_buddy_init\<close> ends and gives a well-formed pool with every byte in a free block, provided
  the pool starts at a multiple of a power of two that is at least its size.\<close>

theorem kmem_buddy_init_correct:
  assumes "0 < unat start" and "unat start + unat sz + 2 ^ 24 \<le> 2 ^ 64" and "64 dvd unat sz" and "2 ^ k dvd unat start" and "unat sz \<le> 2 ^ k"
  shows "\<exists>s' T. kmem_buddy_init start sz s = Some s' \<and> buddy_inv s' T (dom T) \<and> pool_start s' = start \<and> pool_size s' = sz"
  using assms by (rule buddy_init_inv)

theorem kmem_buddy_init_correct_witness:
  "\<exists>s' T. kmem_buddy_init 0x100000 0x100000 kbuddy_boot = Some s' \<and> buddy_inv s' T (dom T)"
  using kmem_buddy_init_correct [of "0x100000" "0x100000" 20 kbuddy_boot] by auto

end
