(* ===== verification/Mm.thy ===== *)
theory Mm
  imports Kslab Kbuddy "HOL-Library.Monad_Syntax"
begin

text \<open>
  \<open>krnl/mem/mm.c\<close>, the general allocator \<open>kmalloc\<close> of the kernel: requests of up to 2048 bytes go to
  the slab cache of their size class, larger ones to the buddy allocator; \<open>kfree\<close> tells the two
  apart by the magic numbers in front of the object and at the start of its page.
\<close>

section \<open>State and operations\<close>

record mm =
  mm_slab :: kslab
  mm_buddy :: kbuddy
  kmallocs :: "nat \<Rightarrow> u64"

text \<open>The size classes \<open>KMALLOC_32\<close> to \<open>KMALLOC_2048\<close>, by their index.\<close>

definition class_sizes :: "u64 list" where
  "class_sizes = [32, 64, 96, 128, 196, 256, 512, 1024, 2048]"

definition slab_kmalloc :: "nat \<Rightarrow> mm \<Rightarrow> u64 \<times> mm" where
  "slab_kmalloc i s = (let (p, k) = kmem_cache_alloc (kmallocs s i) (mm_slab s) in (p, s\<lparr>mm_slab := k\<rparr>))"

definition kmalloc :: "u64 \<Rightarrow> mm \<Rightarrow> u64 \<times> mm" where
  "kmalloc sz s =
     (if sz = 0 then (NULL, s)
      else if sz \<le> 32 then slab_kmalloc 0 s
      else if sz \<le> 64 then slab_kmalloc 1 s
      else if sz \<le> 96 then slab_kmalloc 2 s
      else if sz \<le> 128 then slab_kmalloc 3 s
      else if sz \<le> 196 then slab_kmalloc 4 s
      else if sz \<le> 256 then slab_kmalloc 5 s
      else if sz \<le> 512 then slab_kmalloc 6 s
      else if sz \<le> 1024 then slab_kmalloc 7 s
      else if sz \<le> 2048 then slab_kmalloc 8 s
      else let (p, b) = kmem_buddy_alloc sz (mm_buddy s) in (p, s\<lparr>mm_buddy := b\<rparr>))"

definition mm_mem :: "mm \<Rightarrow> memory" where
  "mm_mem s = ks_mem (mm_slab s)"

definition mm_store :: "u64 \<Rightarrow> u8 \<Rightarrow> mm \<Rightarrow> mm" where
  "mm_store a v s = s\<lparr>mm_slab := (mm_slab s)\<lparr>ks_mem := (ks_mem (mm_slab s))(a := v)\<rparr>\<rparr>"

definition kcalloc :: "u64 \<Rightarrow> u64 \<Rightarrow> mm \<Rightarrow> u64 \<times> mm" where
  "kcalloc count sz s =
     (let total_size = count * sz;
          (p, s) = kmalloc total_size s
      in (p, if p \<noteq> NULL then fold (\<lambda>i s. mm_store (p + of_nat i) 0 s) [0..<unat total_size] s else s))"

text \<open>The search of \<open>kfree\<close> for the slab of the object, over the alignments 4, 8 and 16 KiB.\<close>

fun kfree_slab :: "u64 list \<Rightarrow> u64 \<Rightarrow> mm \<Rightarrow> mm" where
  "kfree_slab [] p s = s"
| "kfree_slab (align # aligns) p s =
     (let maybe_slab = p AND NOT (align - 1)
      in if sl_magic (mm_slab s) maybe_slab = SLAB_MAGIC
         then s\<lparr>mm_slab := kmem_cache_free (sl_cache (mm_slab s) maybe_slab) p (mm_slab s)\<rparr>
         else kfree_slab aligns p s)"

text \<open>The test for a buddy block reads the store of the buddy headers at an address that is one only if the pointer
  comes from the pool.  For another pointer the bytes there are those of whatever lies in front of it, and
  the value of the store is left open: theorems that need a value state it.\<close>

definition kfree :: "u64 \<Rightarrow> mm \<Rightarrow> mm" where
  "kfree p s =
     (if p = NULL then s
      else if bb_magic (mm_buddy s) (p - BUDDY_BLOCK_SIZE) = BUDDY_MAGIC
      then s\<lparr>mm_buddy := kmem_buddy_free p (mm_buddy s)\<rparr>
      else kfree_slab [0x1000, 0x2000, 0x4000] p s)"

definition krealloc :: "u64 \<Rightarrow> u64 \<Rightarrow> mm \<Rightarrow> u64 \<times> mm" where
  "krealloc p new_size s =
     (if p = NULL then kmalloc new_size s
      else if new_size = 0 then (NULL, kfree p s)
      else
        let (new_ptr, s) = kmalloc new_size s
        in (new_ptr,
            if new_ptr \<noteq> NULL
            then kfree p (fold (\<lambda>i s. mm_store (new_ptr + of_nat i) (mm_mem s (p + of_nat i)) s) [0..<unat new_size] s)
            else s))"

definition kcfree :: "u64 \<Rightarrow> u64 \<Rightarrow> u64 \<Rightarrow> mm \<Rightarrow> mm" where
  "kcfree p count sz s =
     (if p \<noteq> NULL
      then
        let total_size = count * sz;
            s = s\<lparr>mm_slab := (mm_slab s)\<lparr>ks_mem := snd (memset (ks_mem (mm_slab s)) p 0 total_size)\<rparr>\<rparr>
        in kfree p s
      else s)"

definition mm_test :: "mm \<Rightarrow> mm" where
  "mm_test s =
     (let (ptr1, s) = kmalloc 25 s;
          (ptr2, s) = kmalloc 100 s;
          (ptr3, s) = kmalloc 4096 s;
          (ptr4, s) = kmalloc 9000 s;
          s = (if ptr1 \<noteq> NULL then mm_store ptr1 65 s else s);
          s = (if ptr3 \<noteq> NULL then mm_store ptr3 66 s else s)
      in kfree ptr4 (kfree ptr3 (kfree ptr2 (kfree ptr1 s))))"

text \<open>One \<open>kmem_cache_create\<close> per size class; \<open>names\<close> are the addresses of the name literals.\<close>

fun create_caches :: "(nat \<Rightarrow> u64) \<Rightarrow> nat \<Rightarrow> u64 list \<Rightarrow> mm \<Rightarrow> mm option" where
  "create_caches names i [] s = Some s"
| "create_caches names i (sz # szs) s = do {
     (c, k) \<leftarrow> kmem_cache_create (names i) sz (mm_slab s);
     create_caches names (Suc i) szs (s\<lparr>mm_slab := k, kmallocs := (kmallocs s)(i := c)\<rparr>)
   }"

definition BUDDY_POOL_PAGES :: u64 where "BUDDY_POOL_PAGES = 256"

definition mm_init ::
  "memmap_entry list option \<Rightarrow> u64 option \<Rightarrow> (nat \<Rightarrow> u64) \<Rightarrow> mm \<Rightarrow> (int \<times> mm) option" where
  "mm_init memmap hhdm names s = do {
     (p, m) \<leftarrow> pmm_init memmap hhdm (ks_pmm (mm_slab s)) (ks_mem (mm_slab s));
     let (p, m, h) = kheap_init p m (ks_heap (mm_slab s)) 64;
     s \<leftarrow> create_caches names 0 class_sizes (s\<lparr>mm_slab := (mm_slab s)\<lparr>ks_pmm := p, ks_mem := m, ks_heap := h\<rparr>\<rparr>);
     let (buddy_phys, p, m) = pmm_alloc (ks_pmm (mm_slab s)) (ks_mem (mm_slab s)) BUDDY_POOL_PAGES;
     let s = s\<lparr>mm_slab := (mm_slab s)\<lparr>ks_pmm := p, ks_mem := m\<rparr>\<rparr>;
     if buddy_phys = NULL then Some (- 1, s)
     else do {
       b \<leftarrow> kmem_buddy_init (phys_to_virt p buddy_phys) (BUDDY_POOL_PAGES * 4096) (mm_buddy s);
       Some (0, mm_test (s\<lparr>mm_buddy := b\<rparr>))
     }
   }"

section \<open>Invariant\<close>

text \<open>\<open>L\<close> are the live objects of the caches, \<open>T\<close> and \<open>F\<close> the cut of the buddy pool and its free blocks.\<close>

definition mm_inv :: "mm \<Rightarrow> (u64 \<rightharpoonup> u64 set) \<Rightarrow> (nat \<rightharpoonup> nat) \<Rightarrow> nat set \<Rightarrow> bool" where
  "mm_inv s L T F \<longleftrightarrow> kslab_inv (mm_slab s) L \<and> buddy_inv (mm_buddy s) T F \<and>
     (\<forall>i<9. kmallocs s i \<in> dom L \<and> class_sizes ! i \<le> kc_object_size (ks_caches (mm_slab s) (kmallocs s i)))"

lemma list_ops_object_size:
  "kc_object_size (ks_caches (slab_list_add c l a s) d) = kc_object_size (ks_caches s d)"
  "kc_object_size (ks_caches (slab_list_remove c l a s) d) = kc_object_size (ks_caches s d)"
  by (simp_all add: slab_list_add_def slab_list_remove_def split: prod.split)

lemma kmem_cache_object_size:
  "kc_object_size (ks_caches (snd (kmem_cache_alloc c s)) d) = kc_object_size (ks_caches s d)"
  "kc_object_size (ks_caches (kmem_cache_free c x s) d) = kc_object_size (ks_caches s d)"
proof -
  have page: "kc_object_size (ks_caches (snd (allocate_slab_page c s)) d) = kc_object_size (ks_caches s d)"
    by (simp add: allocate_slab_page_def Let_def split: prod.split)
  then have "kc_object_size (ks_caches (snd (slab_for_alloc c s)) d) = kc_object_size (ks_caches s d)"
    by (cases "allocate_slab_page c s") (simp add: slab_for_alloc_def Let_def list_ops_object_size)
  then show "kc_object_size (ks_caches (snd (kmem_cache_alloc c s)) d) = kc_object_size (ks_caches s d)"
    by (cases "slab_for_alloc c s") (simp add: kmem_cache_alloc_def Let_def list_ops_object_size)
  show "kc_object_size (ks_caches (kmem_cache_free c x s) d) = kc_object_size (ks_caches s d)"
    by (simp add: kmem_cache_free_def Let_def list_ops_object_size)
qed

text \<open>The size class a request falls into.\<close>

definition size_class :: "u64 \<Rightarrow> nat" where
  "size_class sz =
     (if sz \<le> 32 then 0 else if sz \<le> 64 then 1 else if sz \<le> 96 then 2 else if sz \<le> 128 then 3 else if sz \<le> 196 then 4
      else if sz \<le> 256 then 5 else if sz \<le> 512 then 6 else if sz \<le> 1024 then 7 else 8)"

lemma kmalloc_small:
  assumes "sz \<noteq> 0" and "sz \<le> 2048"
  shows "size_class sz < 9 \<and> sz \<le> class_sizes ! size_class sz \<and> kmalloc sz s = slab_kmalloc (size_class sz) s"
  using assms by (simp add: kmalloc_def size_class_def class_sizes_def)

lemma slab_kmalloc_inv:
  assumes inv: "mm_inv s L T F" and i: "i < 9" and alloc: "slab_kmalloc i s = (p, s')"
  shows "p = NULL \<and> mm_inv s' L T F \<or>
    (\<exists>X. L (kmallocs s i) = Some X \<and> p \<noteq> NULL \<and> (\<forall>c' X'. L c' = Some X' \<longrightarrow> p \<notin> X') \<and> mm_inv s' (L(kmallocs s i \<mapsto> insert p X)) T F)"
proof -
  obtain X where X: "L (kmallocs s i) = Some X" using inv i by (auto simp: mm_inv_def)
  obtain k where k: "kmem_cache_alloc (kmallocs s i) (mm_slab s) = (p, k)" "s' = s\<lparr>mm_slab := k\<rparr>"
    using alloc by (auto simp: slab_kmalloc_def split: prod.splits)
  have "kc_object_size (ks_caches k d) = kc_object_size (ks_caches (mm_slab s) d)" for d
    using kmem_cache_object_size(1) [of "kmallocs s i" "mm_slab s" d] k(1) by simp
  then have rest: "mm_inv s' L' T F" if "kslab_inv k L'" "dom L \<subseteq> dom L'" for L'
    using inv that k(2) by (simp add: mm_inv_def) blast
  have "p = NULL \<and> kslab_inv k L \<or>
      p \<noteq> NULL \<and> (\<forall>c' X'. L c' = Some X' \<longrightarrow> p \<notin> X') \<and> kslab_inv k (L(kmallocs s i \<mapsto> insert p X))"
    using inv X k(1) by (intro slab.alloc_rep) (auto simp: mm_inv_def)
  then show ?thesis using X rest [of L] rest [of "L(kmallocs s i \<mapsto> insert p X)"] by auto
qed

text \<open>A live object finds its slab at the start of its page.\<close>

lemma live_object_slab:
  assumes "kslab_inv s L" and "L c = Some X" and "x \<in> X"
  shows "sl_magic s (x AND NOT (0x1000 - 1)) = SLAB_MAGIC \<and> sl_cache s (x AND NOT (0x1000 - 1)) = c"
proof -
  obtain H F where hf: "pages_ok s" "slab_lists s (dom L) H" "slabs_ok s (dom L) H F"
    and X: "X = live_objs (ks_caches s c) (cache_slabs H c) F"
    using assms(1,2) unfolding kslab_inv_def by (metis domI option.inject)
  then obtain a l where a: "a \<in> set (H (c, l))" "x \<in> slab_objs (ks_caches s c) a"
    using assms(3) by (auto simp: live_objs_def cache_slabs_mem)
  have ok: "slab_ok s c a (F a)" "cache_ok (ks_caches s c)"
    using hf(3) assms(2) a(1) by (auto simp: slabs_ok_def)
  have "x AND NOT (0x1000 - 1) = a"
    using slab_of_slab_obj(1) [OF hf(1) ok a(2)] by (simp add: slab_of_def PAGE_SIZE_def)
  then show ?thesis using ok(1) by (simp add: slab_ok_def)
qed

lemma live_object_not_NULL:
  assumes "kslab_inv s L" and "L c = Some X" and "x \<in> X"
  shows "x \<noteq> NULL"
proof -
  obtain H F where hf: "pages_ok s" "slabs_ok s (dom L) H F" and X: "X = live_objs (ks_caches s c) (cache_slabs H c) F"
    using assms(1,2) unfolding kslab_inv_def by (metis domI option.inject)
  then obtain a l where a: "a \<in> set (H (c, l))" "x \<in> slab_objs (ks_caches s c) a"
    using assms(3) by (auto simp: live_objs_def cache_slabs_mem)
  have "slab_ok s c a (F a)" "cache_ok (ks_caches s c)" using hf(2) assms(2) a(1) by (auto simp: slabs_ok_def)
  then show ?thesis using slab_of_slab_obj(2) [OF hf(1) _ _ a(2)] by blast
qed

lemma kfree_slab_object:
  assumes inv: "mm_inv s L T F" and x: "L c = Some X" "x \<in> X" and "bb_magic (mm_buddy s) (x - 24) \<noteq> BUDDY_MAGIC"
  shows "mm_inv (kfree x s) (L(c \<mapsto> X - {x})) T F \<and> mm_buddy (kfree x s) = mm_buddy s"
proof -
  have k: "kslab_inv (mm_slab s) L" using inv by (simp add: mm_inv_def)
  note slab = live_object_slab [OF k x]
  have "kfree x s = s\<lparr>mm_slab := kmem_cache_free c x (mm_slab s)\<rparr>"
    using live_object_not_NULL [OF k x] assms(4) slab by (simp add: kfree_def BUDDY_BLOCK_SIZE_def)
  moreover have "kslab_inv (kmem_cache_free c x (mm_slab s)) (L(c \<mapsto> X - {x}))" by (rule slab.free_rep [OF k x])
  ultimately show ?thesis using inv x(1) by (auto simp: mm_inv_def kmem_cache_object_size)
qed

lemma kfree_misled:
  assumes "mm_inv s L T F" and "L c = Some X" and "x \<in> X" and "bb_magic (mm_buddy s) (x - 24) = BUDDY_MAGIC"
  shows "kfree x s = s\<lparr>mm_buddy := kmem_buddy_free x (mm_buddy s)\<rparr>"
proof -
  have k: "kslab_inv (mm_slab s) L" using assms(1) by (simp add: mm_inv_def)
  show ?thesis using live_object_not_NULL [OF k assms(2,3)] assms(4) by (simp add: kfree_def BUDDY_BLOCK_SIZE_def)
qed

lemma kfree_buddy_block:
  assumes inv: "mm_inv s L T F" and r: "live T F r = Some order"
  shows "\<exists>T' F'. mm_inv (kfree (at (mm_buddy s) r + 24) s) L T' F' \<and> live T' F' = (live T F)(r := None) \<and>
    mm_slab (kfree (at (mm_buddy s) r + 24) s) = mm_slab s"
proof -
  have b: "buddy_inv (mm_buddy s) T F" using inv by (simp add: mm_inv_def)
  then obtain H where rep: "buddy_rep (mm_buddy s) T F H {}" by (auto simp: buddy_inv_def)
  have T: "T r = Some order" using r by (simp add: live_Some)
  then have "bb_magic (mm_buddy s) (at (mm_buddy s) r) = BUDDY_MAGIC" using rep by (auto simp: buddy_rep_def headers_ok_def)
  then have "kfree (at (mm_buddy s) r + 24) s = s\<lparr>mm_buddy := kmem_buddy_free (at (mm_buddy s) r + 24) (mm_buddy s)\<rparr>"
    using payload_not_NULL [OF rep T] by (simp add: kfree_def BUDDY_BLOCK_SIZE_def)
  moreover obtain T' F' where "buddy_inv (kmem_buddy_free (at (mm_buddy s) r + 24) (mm_buddy s)) T' F'" "live T' F' = (live T F)(r := None)"
    using buddy_free_inv [OF b r] by blast
  ultimately show ?thesis using inv by (intro exI [of _ T'] exI [of _ F']) (auto simp: mm_inv_def)
qed

lemma kmalloc_inv:
  assumes inv: "mm_inv s L T F" and alloc: "kmalloc sz s = (p, s')"
  shows "p = NULL \<and> mm_inv s' L T F \<or>
    p \<noteq> NULL \<and> sz \<le> 2048 \<and> (\<exists>c X. L c = Some X \<and> (\<forall>c' X'. L c' = Some X' \<longrightarrow> p \<notin> X') \<and>
      sz \<le> kc_object_size (ks_caches (mm_slab s) c) \<and> mm_inv s' (L(c \<mapsto> insert p X)) T F) \<or>
    p \<noteq> NULL \<and> 2048 < sz \<and> (\<exists>r order T' F'. p = at (mm_buddy s) r + 24 \<and> live T F r = None \<and> unat (sz + 24) \<le> blk order \<and>
      (unat sz + 24 < 2 ^ 64 \<longrightarrow> unat sz + 24 \<le> blk order) \<and> live T' F' = (live T F)(r \<mapsto> order) \<and> mm_inv s' L T' F')"
proof (cases "sz = 0")
  case True
  then show ?thesis using inv alloc by (simp add: kmalloc_def)
next
  case sz: False
  show ?thesis
  proof (cases "sz \<le> 2048")
    case True
    let ?i = "size_class sz"
    note small = kmalloc_small [OF sz True, of s]
    have fits: "sz \<le> kc_object_size (ks_caches (mm_slab s) (kmallocs s ?i))"
      using small inv unfolding mm_inv_def by (meson order_trans)
    have "slab_kmalloc ?i s = (p, s')" using small alloc by simp
    from slab_kmalloc_inv [OF inv _ this] small fits True show ?thesis by blast
  next
    case False
    obtain b where b: "kmem_buddy_alloc sz (mm_buddy s) = (p, b)" "s' = s\<lparr>mm_buddy := b\<rparr>"
    proof -
      have le: "\<not> sz \<le> c" if "c \<le> 2048" for c using False that order_trans by blast
      show ?thesis using alloc sz le by (intro that [of "snd (kmem_buddy_alloc sz (mm_buddy s))"])
        (simp_all add: kmalloc_def split: prod.splits)
    qed
    have binv: "buddy_inv (mm_buddy s) T F" using inv by (simp add: mm_inv_def)
    have keep: "mm_inv s' L T' F'" if "buddy_inv b T' F'" for T' F' using inv that b(2) by (simp add: mm_inv_def)
    from buddy_alloc_any [OF binv b(1)] consider (no) "p = NULL" "b = mm_buddy s"
      | (yes) r order T' F' where "p = at (mm_buddy s) r + 24" "p \<noteq> NULL" "buddy_inv b T' F'" "live T F r = None"
        "live T' F' = (live T F)(r \<mapsto> order)" "unat (sz + 24) \<le> blk order"
      by blast
    then show ?thesis
    proof cases
      case no
      then show ?thesis using keep binv by simp
    next
      case yes
      have "2048 < sz" using False by simp
      then show ?thesis using yes keep [OF yes(3)] total_size [of sz] by metis
    qed
  qed
qed

section \<open>A concrete allocator\<close>

text \<open>The slab allocator of \<open>Kslab\<close>, with one cache of 2048-byte objects for all classes, and the pool of \<open>Kbuddy\<close>.\<close>

definition mm_example :: mm where
  "mm_example = \<lparr>mm_slab = kslab_example\<lparr>ks_caches := (\<lambda>_. \<lparr>kc_name = 0, kc_object_size = 2048, kc_objects_per_slab = 1,
       kc_pages_per_slab = 1, slabs_partial = 0, slabs_full = 0, slabs_free = 0, next_cache = 0\<rparr>)\<rparr>,
     mm_buddy = kbuddy_example, kmallocs = (\<lambda>_. 65576)\<rparr>"

lemma mm_example_inv: "mm_inv mm_example [65576 \<mapsto> {}] [0 \<mapsto> 6] {0}"
proof -
  let ?s = "mm_slab mm_example"
  have "pages_ok ?s"
    using pmm_example_inv by (simp add: pages_ok_def mm_example_def kslab_example_def pmm_example_def pmm_boot_def)
  moreover have "slab_lists ?s (dom [65576 \<mapsto> {}]) (\<lambda>_. [])"
  proof -
    have "slab_head l (ks_caches ?s c) = NULL" for l c by (cases l) (simp_all add: mm_example_def)
    then show ?thesis by (simp add: slab_lists_def dlls_def)
  qed
  moreover have "slabs_ok ?s (dom [65576 \<mapsto> {}]) (\<lambda>_. []) (\<lambda>_. [])"
    by (simp add: slabs_ok_def cache_ok_def mm_example_def)
  moreover have "settled ?s (dom [65576 \<mapsto> {}]) (\<lambda>_. []) (\<lambda>_. [])" by (simp add: settled_def)
  moreover have "live_objs C (cache_slabs (\<lambda>_. []) c) F = {}" for C c F
    by (simp add: live_objs_def cache_slabs_def)
  ultimately have "kslab_inv ?s [65576 \<mapsto> {}]"
    unfolding kslab_inv_def by (intro conjI exI [of _ "\<lambda>_. []"]) auto
  moreover have "class_sizes ! i \<le> 2048" if "i < 9" for i
  proof -
    have "\<forall>c\<in>set class_sizes. c \<le> 2048" by (simp add: class_sizes_def)
    moreover have "class_sizes ! i \<in> set class_sizes" using that by (intro nth_mem) (simp add: class_sizes_def)
    ultimately show ?thesis by blast
  qed
  ultimately show ?thesis using kbuddy_example_inv by (simp add: mm_inv_def mm_example_def)
qed

lemma mm_example_alloc: "fst (kmalloc 3000 mm_example) \<noteq> NULL"
  by code_simp

lemma mm_example_pool: "pool_start (mm_buddy (snd (kmalloc 3000 mm_example))) = pool_start (mm_buddy mm_example)"
  by code_simp

section \<open>Properties\<close>

text \<open>C8: \<open>kmalloc\<close> on a well-formed allocator, for every size, either returns \<open>NULL\<close>, with everything live as before, or a
  pointer to memory that was not live: an object of a slab cache whose objects are at least as
  large as the request, for 1 to 2048 bytes, and the payload of a buddy block with room for the
  request and the header beyond.  The room is that of the sum in 64 bits, as the code computes
  it: for the 24 largest sizes it wraps and the block is smaller than the request.  The allocator
  is well-formed again, with exactly this memory live in addition.\<close>

theorem kmalloc_correct:
  assumes inv: "mm_inv s L T F" and alloc: "kmalloc sz s = (p, s')"
  shows "p = NULL \<and> mm_inv s' L T F \<or>
    p \<noteq> NULL \<and> sz \<le> 2048 \<and> (\<exists>c X. L c = Some X \<and> (\<forall>c' X'. L c' = Some X' \<longrightarrow> p \<notin> X') \<and>
      sz \<le> kc_object_size (ks_caches (mm_slab s) c) \<and> mm_inv s' (L(c \<mapsto> insert p X)) T F) \<or>
    p \<noteq> NULL \<and> 2048 < sz \<and> (\<exists>r order T' F'. p = at (mm_buddy s) r + 24 \<and> live T F r = None \<and> unat (sz + 24) \<le> blk order \<and>
      (unat sz + 24 < 2 ^ 64 \<longrightarrow> unat sz + 24 \<le> blk order) \<and> live T' F' = (live T F)(r \<mapsto> order) \<and> mm_inv s' L T' F')"
  using assms by (rule kmalloc_inv)

theorem kmalloc_correct_witness:
  "\<exists>p s' r order T' F'. kmalloc 3000 mm_example = (p, s') \<and> p \<noteq> NULL \<and> live T' F' = [r \<mapsto> order] \<and> 3024 \<le> blk order \<and>
     mm_inv s' [65576 \<mapsto> {}] T' F'"
proof -
  obtain p s' where p: "kmalloc 3000 mm_example = (p, s')" by fastforce
  have sz: "\<not> (3000 :: u64) \<le> 2048" "unat (3000 + 24 :: u64) = 3024" by simp_all
  have "p \<noteq> NULL" using mm_example_alloc p by simp
  then show ?thesis using kmalloc_correct [OF mm_example_inv p] p sz unfolding kbuddy_example_live by metis
qed

text \<open>C38: \<open>kfree\<close> of live memory.  The payload of a live block of the buddy pool is given back to the pool: exactly this
  block becomes free and everything else stays live.  An object of a slab cache is given back to
  its cache, exactly it, if the word 24 bytes in front of it is not the magic number of the
  buddy allocator.  That word is not a header but whatever lies there, such as the contents of
  the object before: if it happens to be the magic number, \<open>kfree\<close> hands the object to the buddy
  allocator instead, and no cache changes.\<close>

theorem kfree_correct:
  assumes "mm_inv s L T F"
  shows "(\<forall>c X x. L c = Some X \<and> x \<in> X \<longrightarrow>
      (if bb_magic (mm_buddy s) (x - 24) \<noteq> BUDDY_MAGIC
       then mm_inv (kfree x s) (L(c \<mapsto> X - {x})) T F \<and> mm_buddy (kfree x s) = mm_buddy s
       else kfree x s = s\<lparr>mm_buddy := kmem_buddy_free x (mm_buddy s)\<rparr>)) \<and>
    (\<forall>r order. live T F r = Some order \<longrightarrow>
      (\<exists>T' F'. mm_inv (kfree (at (mm_buddy s) r + 24) s) L T' F' \<and> live T' F' = (live T F)(r := None) \<and>
        mm_slab (kfree (at (mm_buddy s) r + 24) s) = mm_slab s))"
proof (intro conjI allI impI; (elim conjE)?)
  fix c X x
  assume x: "L c = Some X" "x \<in> X"
  show "if bb_magic (mm_buddy s) (x - 24) \<noteq> BUDDY_MAGIC
      then mm_inv (kfree x s) (L(c \<mapsto> X - {x})) T F \<and> mm_buddy (kfree x s) = mm_buddy s
      else kfree x s = s\<lparr>mm_buddy := kmem_buddy_free x (mm_buddy s)\<rparr>"
    using kfree_slab_object [OF assms x] kfree_misled [OF assms x] by (simp only: split: if_split) blast
qed (rule kfree_buddy_block [OF assms])

theorem kfree_correct_witness:
  "\<exists>p s' T' F'. kmalloc 3000 mm_example = (p, s') \<and> p \<noteq> NULL \<and> mm_inv (kfree p s') [65576 \<mapsto> {}] T' F' \<and> live T' F' = Map.empty"
proof -
  obtain p s' where p: "kmalloc 3000 mm_example = (p, s')" by fastforce
  have sz: "\<not> (3000 :: u64) \<le> 2048" by simp
  have nz: "p \<noteq> NULL" using mm_example_alloc p by simp
  obtain r order T F where r: "p = at (mm_buddy mm_example) r + 24" "live T F = [r \<mapsto> order]" "mm_inv s' [65576 \<mapsto> {}] T F"
    using kmalloc_inv [OF mm_example_inv p] nz sz unfolding kbuddy_example_live by blast
  have "at (mm_buddy s') = at (mm_buddy mm_example)"
    using mm_example_pool p by (intro at_cong) simp
  moreover have "live T F r = Some order" "(live T F)(r := None) = Map.empty" using r(2) by simp_all
  ultimately show ?thesis using kfree_correct [OF r(3)] p nz r(1) by metis
qed

end
