(* ===== verification/Vfs.thy ===== *)
theory Vfs
  imports Kslab "HOL-Library.Monad_Syntax"
begin

text \<open>
  \<open>krnl/fs/vfs.c\<close>, the virtual file system: the table of file system drivers, mounting, path
  resolution, the dispatch of node operations to the driver of the node, and the open
  functions with their permission checks.

  Nodes are a store of records.  A node's \<open>ops\<close> pointer and a driver's \<open>mount\<close> pointer are
  addresses of code; what is at these addresses is the argument \<open>C\<close> of the functions that call
  through them, a record of functions on the state.  The state is an extensible record, so that
  drivers and the rest of the kernel add their own fields.  A path is the list of its
  characters before the terminating zero.  An operation that does not return, because a loop
  does not end or because it dereferences a null pointer, has the result \<open>None\<close>.
\<close>

section \<open>State and operations\<close>

datatype vfs_node_type =
  VFS_UNKNOWN | VFS_FILE | VFS_DIRECTORY | VFS_CHAR_DEVICE | VFS_BLOCK_DEVICE | VFS_PIPE | VFS_SYMLINK | VFS_MOUNTPOINT

record dirent =
  d_name :: string
  d_ino :: u32

record stat =
  st_ino :: u64
  st_mode :: u32
  st_nlink :: u32
  st_uid :: u32
  st_gid :: u32
  st_size :: u64
  st_blksize :: u64
  st_blocks :: u64
  st_atime :: u64
  st_mtime :: u64
  st_ctime :: u64

text \<open>The driver's functions; \<open>None\<close> is a null function pointer.\<close>

record 's vfs_operations =
  op_read :: "(u64 \<Rightarrow> u32 \<Rightarrow> u32 \<Rightarrow> u64 \<Rightarrow> 's \<Rightarrow> (u32 \<times> 's) option) option"
  op_write :: "(u64 \<Rightarrow> u32 \<Rightarrow> u32 \<Rightarrow> u64 \<Rightarrow> 's \<Rightarrow> (u32 \<times> 's) option) option"
  op_open :: "(u64 \<Rightarrow> 's \<Rightarrow> 's option) option"
  op_close :: "(u64 \<Rightarrow> 's \<Rightarrow> 's option) option"
  op_readdir :: "(u64 \<Rightarrow> u32 \<Rightarrow> 's \<Rightarrow> (dirent option \<times> 's) option) option"
  op_finddir :: "(u64 \<Rightarrow> string \<Rightarrow> 's \<Rightarrow> (u64 \<times> 's) option) option"
  op_create :: "(u64 \<Rightarrow> string \<Rightarrow> u16 \<Rightarrow> 's \<Rightarrow> (int \<times> 's) option) option"
  op_mkdir :: "(u64 \<Rightarrow> string \<Rightarrow> u16 \<Rightarrow> 's \<Rightarrow> (int \<times> 's) option) option"
  op_rmdir :: "(u64 \<Rightarrow> string \<Rightarrow> 's \<Rightarrow> (int \<times> 's) option) option"
  op_unlink :: "(u64 \<Rightarrow> string \<Rightarrow> 's \<Rightarrow> (int \<times> 's) option) option"
  op_rename :: "(u64 \<Rightarrow> string \<Rightarrow> string \<Rightarrow> 's \<Rightarrow> (int \<times> 's) option) option"
  op_stat :: "(u64 \<Rightarrow> stat \<Rightarrow> 's \<Rightarrow> (stat \<times> 's) option) option"
  op_ioctl :: "(u64 \<Rightarrow> u32 \<Rightarrow> u64 \<Rightarrow> 's \<Rightarrow> (int \<times> 's) option) option"

record vfs_node =
  vn_name :: string
  inode :: u32
  vn_mask :: u32
  vn_uid :: u32
  vn_gid :: u32
  vn_flags :: u32
  vn_size :: u32
  vn_type :: vfs_node_type
  vn_ops :: u64
  device :: u64
  blksize :: u64
  vn_blocks :: u64
  vn_atime :: u64
  vn_mtime :: u64
  vn_ctime :: u64

definition zero_node :: vfs_node where
  "zero_node = \<lparr>vn_name = [], inode = 0, vn_mask = 0, vn_uid = 0, vn_gid = 0, vn_flags = 0, vn_size = 0,
     vn_type = VFS_UNKNOWN, vn_ops = NULL, device = NULL, blksize = 0, vn_blocks = 0,
     vn_atime = 0, vn_mtime = 0, vn_ctime = 0\<rparr>"

record vfs_filesystem =
  fs_name :: string
  fs_flags :: u32
  fs_mount :: u64

text \<open>\<open>filesystems\<close> is the chain of registered drivers, in the order of its \<open>next\<close> pointers, each
  with the address of its structure.\<close>

record vfs_state =
  vs_slab :: kslab
  vs_nodes :: "u64 \<Rightarrow> vfs_node"
  vfs_node_cache :: u64
  fs_root :: u64
  filesystems :: "(u64 \<times> vfs_filesystem) list"

record 's driver_code =
  ops_at :: "u64 \<Rightarrow> 's vfs_operations"
  mount_at :: "u64 \<Rightarrow> string option \<Rightarrow> string \<Rightarrow> u64 \<Rightarrow> 's \<Rightarrow> (u64 \<times> 's) option"

record cred =
  cr_uid :: u32
  cr_gid :: u32
  cr_euid :: u32
  cr_egid :: u32

definition vs_malloc :: "u64 \<Rightarrow> 'a vfs_state_scheme \<Rightarrow> (u64 \<times> 'a vfs_state_scheme) option" where
  "vs_malloc n s = map_option (\<lambda>(p, k). (p, s\<lparr>vs_slab := k\<rparr>)) (slab_malloc n (vs_slab s))"

definition vs_mfree :: "u64 \<Rightarrow> 'a vfs_state_scheme \<Rightarrow> 'a vfs_state_scheme" where
  "vs_mfree p s = s\<lparr>vs_slab := slab_mfree p (vs_slab s)\<rparr>"

definition upd_node :: "u64 \<Rightarrow> (vfs_node \<Rightarrow> vfs_node) \<Rightarrow> 'a vfs_state_scheme \<Rightarrow> 'a vfs_state_scheme" where
  "upd_node n f s = s\<lparr>vs_nodes := (vs_nodes s)(n := f (vs_nodes s n))\<rparr>"

text \<open>The test \<open>node && node->ops && node->ops->f\<close> of the dispatch functions.\<close>

definition node_op ::
  "'a vfs_state_scheme driver_code \<Rightarrow> ('a vfs_state_scheme vfs_operations \<Rightarrow> 'f option) \<Rightarrow> u64
     \<Rightarrow> 'a vfs_state_scheme \<Rightarrow> 'f option" where
  "node_op C sel n s =
     (if n = NULL \<or> vn_ops (vs_nodes s n) = NULL then None else sel (ops_at C (vn_ops (vs_nodes s n))))"

subsection \<open>Registration, nodes\<close>

text \<open>\<open>sizeof(vfs_filesystem_t)\<close> is 56, \<open>sizeof(vfs_node_t)\<close> is 344.\<close>

definition VFS_FILESYSTEM_SIZE :: u64 where "VFS_FILESYSTEM_SIZE = 56"
definition VFS_NODE_SIZE :: u64 where "VFS_NODE_SIZE = 344"

definition vfs_register_fs :: "string \<Rightarrow> u32 \<Rightarrow> u64 \<Rightarrow> 'a vfs_state_scheme \<Rightarrow> 'a vfs_state_scheme option" where
  "vfs_register_fs fsname flags mount_func s = do {
     (fs, s) \<leftarrow> vs_malloc VFS_FILESYSTEM_SIZE s;
     if fs = NULL then Some s
     else Some (s\<lparr>filesystems := (fs, \<lparr>fs_name = take 31 fsname, fs_flags = flags, fs_mount = mount_func\<rparr>) # filesystems s\<rparr>)
   }"

definition vfs_init :: "u64 \<Rightarrow> 'a vfs_state_scheme \<Rightarrow> 'a vfs_state_scheme option" where
  "vfs_init cache_name s = do {
     (c, k) \<leftarrow> kmem_cache_create cache_name VFS_NODE_SIZE (vs_slab s);
     Some (s\<lparr>vs_slab := k, vfs_node_cache := c\<rparr>)
   }"

definition vfs_alloc_node :: "'a vfs_state_scheme \<Rightarrow> u64 \<times> 'a vfs_state_scheme" where
  "vfs_alloc_node s =
     (if vfs_node_cache s = NULL then (NULL, s)
      else
        let (node, k) = kmem_cache_alloc (vfs_node_cache s) (vs_slab s);
            s = s\<lparr>vs_slab := k\<rparr>
        in (node, if node \<noteq> NULL then upd_node node (\<lambda>_. zero_node) s else s))"

definition vfs_free_node :: "u64 \<Rightarrow> 'a vfs_state_scheme \<Rightarrow> 'a vfs_state_scheme" where
  "vfs_free_node node s =
     (if vfs_node_cache s \<noteq> NULL \<and> node \<noteq> NULL
      then s\<lparr>vs_slab := kmem_cache_free (vfs_node_cache s) node (vs_slab s)\<rparr> else s)"

definition vfs_get_root :: "'a vfs_state_scheme \<Rightarrow> u64" where
  "vfs_get_root s = fs_root s"

definition vfs_set_root :: "u64 \<Rightarrow> 'a vfs_state_scheme \<Rightarrow> 'a vfs_state_scheme" where
  "vfs_set_root root s = s\<lparr>fs_root := root\<rparr>"

subsection \<open>Path resolution\<close>

text \<open>The three string buffers of \<open>vfs_resolve_path\<close> have 1024 bytes and are zeroed, so copying at
  most 1023 characters keeps the first 1023; no intermediate string is longer, so
  \<open>1023 - strlen(s)\<close> does not wrap.\<close>

definition strncat_buf :: "string \<Rightarrow> string \<Rightarrow> string" where
  "strncat_buf s t = s @ take (1023 - length s) t"

definition resolve_input :: "string option \<Rightarrow> string \<Rightarrow> string" where
  "resolve_input pwd path =
     (if path \<noteq> [] \<and> hd path = CHR ''/'' then take 1023 path
      else
        let resolved = (case pwd of Some w \<Rightarrow> take 1023 w | None \<Rightarrow> ''/'');
            len = length resolved;
            resolved = (if 0 < len \<and> resolved ! (len - 1) \<noteq> CHR ''/'' \<and> len < 1023
                        then resolved @ ''/'' else resolved)
        in strncat_buf resolved path)"

text \<open>The token loop: the token array holds pointers into \<open>temp\<close>; here, the tokens themselves.\<close>

fun resolve_tokens :: "string \<Rightarrow> string list \<Rightarrow> string list" where
  "resolve_tokens p tokens =
     (let p = dropWhile (\<lambda>c. c = CHR ''/'') p
      in if p = [] then tokens
         else
           let token = takeWhile (\<lambda>c. c \<noteq> CHR ''/'') p;
               p = tl (dropWhile (\<lambda>c. c \<noteq> CHR ''/'') p)
           in resolve_tokens p
                (if token = ''.'' then tokens
                 else if token = ''..'' then (if 0 < length tokens then butlast tokens else tokens)
                 else if length tokens < 128 then tokens @ [token] else tokens))"

declare resolve_tokens.simps [simp del]

definition append_token :: "string list \<Rightarrow> nat \<Rightarrow> string \<Rightarrow> string" where
  "append_token tokens i normalized =
     (let normalized = strncat_buf normalized (tokens ! i)
      in if i < length tokens - 1 then strncat_buf normalized ''/'' else normalized)"

definition resolve_string :: "string option \<Rightarrow> string \<Rightarrow> string" where
  "resolve_string pwd path =
     (let resolved = resolve_input pwd path;
          temp = take 1023 resolved;
          tokens = resolve_tokens temp [];
          normalized = fold (append_token tokens) [0..<length tokens] ''/''
      in if length normalized = 0 then ''/'' else normalized)"

text \<open>The result is the address of the new string, with the string.\<close>

definition vfs_resolve_path ::
  "string option \<Rightarrow> string option \<Rightarrow> 'a vfs_state_scheme \<Rightarrow> ((u64 \<times> string) option \<times> 'a vfs_state_scheme) option" where
  "vfs_resolve_path pwd path s =
     (case path of
        None \<Rightarrow> Some (None, s)
      | Some path \<Rightarrow> do {
          (resolved, s) \<leftarrow> vs_malloc 1024 s;
          (normalized, s) \<leftarrow> vs_malloc 1024 s;
          (temp, s) \<leftarrow> vs_malloc 1024 s;
          (tokens, s) \<leftarrow> vs_malloc (128 * 8) s;
          if resolved = NULL \<or> normalized = NULL \<or> temp = NULL \<or> tokens = NULL
          then
            let s = (if resolved \<noteq> NULL then vs_mfree resolved s else s);
                s = (if normalized \<noteq> NULL then vs_mfree normalized s else s);
                s = (if temp \<noteq> NULL then vs_mfree temp s else s);
                s = (if tokens \<noteq> NULL then vs_mfree tokens s else s)
            in Some (None, s)
          else do {
            let str = resolve_string pwd path;
            (final_path, s) \<leftarrow> vs_malloc (of_nat (length str) + 1) s;
            let s = vs_mfree tokens (vs_mfree temp (vs_mfree normalized (vs_mfree resolved s)));
            Some (if final_path = NULL then None else Some (final_path, str), s)
          }
        })"

subsection \<open>Dispatch\<close>

definition vfs_read :: "'a vfs_state_scheme driver_code \<Rightarrow> u64 \<Rightarrow> u32 \<Rightarrow> u32 \<Rightarrow> u64 \<Rightarrow> 'a vfs_state_scheme \<Rightarrow> (u32 \<times> 'a vfs_state_scheme) option" where
  "vfs_read C node offset sz buffer s =
     (case node_op C op_read node s of Some f \<Rightarrow> f node offset sz buffer s | None \<Rightarrow> Some (0, s))"

definition vfs_write :: "'a vfs_state_scheme driver_code \<Rightarrow> u64 \<Rightarrow> u32 \<Rightarrow> u32 \<Rightarrow> u64 \<Rightarrow> 'a vfs_state_scheme \<Rightarrow> (u32 \<times> 'a vfs_state_scheme) option" where
  "vfs_write C node offset sz buffer s =
     (case node_op C op_write node s of Some f \<Rightarrow> f node offset sz buffer s | None \<Rightarrow> Some (0, s))"

definition vfs_open :: "'a vfs_state_scheme driver_code \<Rightarrow> u64 \<Rightarrow> 'a vfs_state_scheme \<Rightarrow> 'a vfs_state_scheme option" where
  "vfs_open C node s = (case node_op C op_open node s of Some f \<Rightarrow> f node s | None \<Rightarrow> Some s)"

definition vfs_close :: "'a vfs_state_scheme driver_code \<Rightarrow> u64 \<Rightarrow> 'a vfs_state_scheme \<Rightarrow> 'a vfs_state_scheme option" where
  "vfs_close C node s = (case node_op C op_close node s of Some f \<Rightarrow> f node s | None \<Rightarrow> Some s)"

definition vfs_readdir :: "'a vfs_state_scheme driver_code \<Rightarrow> u64 \<Rightarrow> u32 \<Rightarrow> 'a vfs_state_scheme \<Rightarrow> (dirent option \<times> 'a vfs_state_scheme) option" where
  "vfs_readdir C node index s = (case node_op C op_readdir node s of Some f \<Rightarrow> f node index s | None \<Rightarrow> Some (None, s))"

definition vfs_finddir :: "'a vfs_state_scheme driver_code \<Rightarrow> u64 \<Rightarrow> string \<Rightarrow> 'a vfs_state_scheme \<Rightarrow> (u64 \<times> 'a vfs_state_scheme) option" where
  "vfs_finddir C node nm s = (case node_op C op_finddir node s of Some f \<Rightarrow> f node nm s | None \<Rightarrow> Some (NULL, s))"

definition vfs_create :: "'a vfs_state_scheme driver_code \<Rightarrow> u64 \<Rightarrow> string \<Rightarrow> u16 \<Rightarrow> 'a vfs_state_scheme \<Rightarrow> (int \<times> 'a vfs_state_scheme) option" where
  "vfs_create C node nm perm s = (case node_op C op_create node s of Some f \<Rightarrow> f node nm perm s | None \<Rightarrow> Some (- 1, s))"

definition vfs_mkdir :: "'a vfs_state_scheme driver_code \<Rightarrow> u64 \<Rightarrow> string \<Rightarrow> u16 \<Rightarrow> 'a vfs_state_scheme \<Rightarrow> (int \<times> 'a vfs_state_scheme) option" where
  "vfs_mkdir C node nm perm s = (case node_op C op_mkdir node s of Some f \<Rightarrow> f node nm perm s | None \<Rightarrow> Some (- 1, s))"

definition vfs_rmdir :: "'a vfs_state_scheme driver_code \<Rightarrow> u64 \<Rightarrow> string \<Rightarrow> 'a vfs_state_scheme \<Rightarrow> (int \<times> 'a vfs_state_scheme) option" where
  "vfs_rmdir C node nm s = (case node_op C op_rmdir node s of Some f \<Rightarrow> f node nm s | None \<Rightarrow> Some (- 1, s))"

definition vfs_rename :: "'a vfs_state_scheme driver_code \<Rightarrow> u64 \<Rightarrow> string \<Rightarrow> string \<Rightarrow> 'a vfs_state_scheme \<Rightarrow> (int \<times> 'a vfs_state_scheme) option" where
  "vfs_rename C node old_name new_name s =
     (case node_op C op_rename node s of Some f \<Rightarrow> f node old_name new_name s | None \<Rightarrow> Some (- 1, s))"

definition kcreate :: "'a vfs_state_scheme driver_code \<Rightarrow> u64 \<Rightarrow> string \<Rightarrow> u16 \<Rightarrow> 'a vfs_state_scheme \<Rightarrow> (int \<times> 'a vfs_state_scheme) option" where
  "kcreate C node nm perm s = (case node_op C op_create node s of Some f \<Rightarrow> f node nm perm s | None \<Rightarrow> Some (- 1, s))"

definition kmkdir :: "'a vfs_state_scheme driver_code \<Rightarrow> u64 \<Rightarrow> string \<Rightarrow> u16 \<Rightarrow> 'a vfs_state_scheme \<Rightarrow> (int \<times> 'a vfs_state_scheme) option" where
  "kmkdir C node nm perm s = (case node_op C op_mkdir node s of Some f \<Rightarrow> f node nm perm s | None \<Rightarrow> Some (- 1, s))"

definition krmdir :: "'a vfs_state_scheme driver_code \<Rightarrow> u64 \<Rightarrow> string \<Rightarrow> 'a vfs_state_scheme \<Rightarrow> (int \<times> 'a vfs_state_scheme) option" where
  "krmdir C node nm s = (case node_op C op_rmdir node s of Some f \<Rightarrow> f node nm s | None \<Rightarrow> Some (- 1, s))"

definition kremove :: "'a vfs_state_scheme driver_code \<Rightarrow> u64 \<Rightarrow> string \<Rightarrow> 'a vfs_state_scheme \<Rightarrow> (int \<times> 'a vfs_state_scheme) option" where
  "kremove C node nm s = (case node_op C op_unlink node s of Some f \<Rightarrow> f node nm s | None \<Rightarrow> Some (- 1, s))"

definition kstat :: "'a vfs_state_scheme driver_code \<Rightarrow> u64 \<Rightarrow> stat \<Rightarrow> 'a vfs_state_scheme \<Rightarrow> (stat \<times> 'a vfs_state_scheme) option" where
  "kstat C node b s =
     (if node = NULL \<or> vn_ops (vs_nodes s node) = NULL then Some (b, s)
      else
        case node_op C op_stat node s of
          Some f \<Rightarrow> f node b s
        | None \<Rightarrow>
            let n = vs_nodes s node
            in Some (b\<lparr>st_ino := ucast (inode n), st_mode := vn_mask n, st_uid := vn_uid n, st_gid := vn_gid n,
                 st_size := ucast (vn_size n), st_blocks := vn_blocks n, st_blksize := blksize n,
                 st_atime := vn_atime n, st_mtime := vn_mtime n, st_ctime := vn_ctime n\<rparr>, s))"

definition kclose :: "'a vfs_state_scheme driver_code \<Rightarrow> u64 \<Rightarrow> 'a vfs_state_scheme \<Rightarrow> 'a vfs_state_scheme option" where
  "kclose C node s =
     (if node = NULL then Some s
      else do {
        s \<leftarrow> vfs_close C node s;
        Some (if node_op C op_close node s \<noteq> None \<and> device (vs_nodes s node) = NULL then vfs_free_node node s else s)
      })"

subsection \<open>Permissions and opening\<close>

definition has_permission :: "vfs_node \<Rightarrow> u32 \<Rightarrow> u32 \<Rightarrow> u16 \<Rightarrow> bool" where
  "has_permission node uid gid perm =
     (if uid = 0 then True
      else if uid = vn_uid node then vn_mask node AND push_bit 6 (ucast perm) \<noteq> 0
      else if gid = vn_gid node then vn_mask node AND push_bit 3 (ucast perm) \<noteq> 0
      else vn_mask node AND ucast perm \<noteq> 0)"

text \<open>The walk of \<open>kopen\<close> over the resolved path; the code cuts the buffer at each slash.\<close>

fun kopen_walk :: "'a vfs_state_scheme driver_code \<Rightarrow> string \<Rightarrow> u64 \<Rightarrow> 'a vfs_state_scheme \<Rightarrow> (u64 \<times> 'a vfs_state_scheme) option" where
  "kopen_walk C p node s =
     (if p = [] \<or> node = NULL then Some (node, s)
      else
        case vfs_finddir C node (takeWhile (\<lambda>c. c \<noteq> CHR ''/'') p) s of
          None \<Rightarrow> None
        | Some (node', s') \<Rightarrow>
            if CHR ''/'' \<in> set p then kopen_walk C (tl (dropWhile (\<lambda>c. c \<noteq> CHR ''/'') p)) node' s'
            else Some (node', s'))"

declare kopen_walk.simps [simp del]

text \<open>\<open>if (*p == '/') p++\<close>.\<close>

definition skip_slash :: "string \<Rightarrow> string" where
  "skip_slash p = (if p \<noteq> [] \<and> hd p = CHR ''/'' then tl p else p)"

text \<open>\<open>thread\<close> is what the code reads of \<open>sched_get_current_thread()\<close>: its credentials.\<close>

definition kopen :: "'a vfs_state_scheme driver_code \<Rightarrow> cred option \<Rightarrow> string option \<Rightarrow> 'a vfs_state_scheme \<Rightarrow> (u64 \<times> 'a vfs_state_scheme) option" where
  "kopen C thread path s =
     (if path = None then Some (NULL, s)
      else do {
        (r, s) \<leftarrow> vfs_resolve_path (Some ''/'') path s;
        case r of
          None \<Rightarrow> Some (NULL, s)
        | Some (resolved, str) \<Rightarrow> do {
            (node, s) \<leftarrow> kopen_walk C (skip_slash str) (fs_root s) s;
            let s = vs_mfree resolved s;
            if node = NULL then Some (node, s)
            else
              case thread of
                None \<Rightarrow> Some (node, s)
              | Some t \<Rightarrow>
                  if has_permission (vs_nodes s node) (cr_euid t) (cr_egid t) 4 then Some (node, s)
                  else do { s \<leftarrow> kclose C node s; Some (NULL, s) }
          }
      })"

definition O_WRONLY :: u32 where "O_WRONLY = 1"
definition O_RDWR :: u32 where "O_RDWR = 2"

definition open_perm :: "u32 \<Rightarrow> u16" where
  "open_perm mode =
     (let perm = 4;
          perm = (if mode AND O_WRONLY \<noteq> 0 then perm OR 2 else perm);
          perm = (if mode AND O_RDWR \<noteq> 0 then perm OR 6 else perm)
      in perm)"

definition uopen :: "'a vfs_state_scheme driver_code \<Rightarrow> cred option \<Rightarrow> string option \<Rightarrow> u32 \<Rightarrow> 'a vfs_state_scheme \<Rightarrow> (u64 \<times> 'a vfs_state_scheme) option" where
  "uopen C thread path mode s = do {
     (node, s) \<leftarrow> kopen C thread path s;
     if node = NULL then Some (node, s)
     else
       case thread of
         None \<Rightarrow> Some (node, s)
       | Some t \<Rightarrow>
           if has_permission (vs_nodes s node) (cr_euid t) (cr_egid t) (open_perm mode) then Some (node, s)
           else do { s \<leftarrow> kclose C node s; Some (NULL, s) }
   }"

definition uopendir :: "'a vfs_state_scheme driver_code \<Rightarrow> cred option \<Rightarrow> string option \<Rightarrow> 'a vfs_state_scheme \<Rightarrow> (u64 \<times> 'a vfs_state_scheme) option" where
  "uopendir C thread path s = do {
     (node, s) \<leftarrow> kopen C thread path s;
     if node = NULL then Some (node, s)
     else
       case thread of
         None \<Rightarrow> Some (node, s)
       | Some t \<Rightarrow>
           if \<not> has_permission (vs_nodes s node) (cr_euid t) (cr_egid t) 4 \<or> vn_type (vs_nodes s node) \<noteq> VFS_DIRECTORY
           then do { s \<leftarrow> kclose C node s; Some (NULL, s) }
           else Some (node, s)
   }"

subsection \<open>Mounting\<close>

fun mount_walk :: "'a vfs_state_scheme driver_code \<Rightarrow> string \<Rightarrow> u64 \<Rightarrow> 'a vfs_state_scheme \<Rightarrow> (u64 \<times> 'a vfs_state_scheme) option" where
  "mount_walk C p node s =
     (if p = [] then Some (node, s)
      else
        case vfs_finddir C node (takeWhile (\<lambda>c. c \<noteq> CHR ''/'') p) s of
          None \<Rightarrow> None
        | Some (node', s') \<Rightarrow>
            if node' = NULL then Some (node', s')
            else if CHR ''/'' \<in> set p then mount_walk C (tl (dropWhile (\<lambda>c. c \<noteq> CHR ''/'') p)) node' s'
            else Some (node', s'))"

declare mount_walk.simps [simp del]

text \<open>Grafting the mounted node \<open>node\<close> onto the directory \<open>dir\<close>.\<close>

definition graft :: "'a vfs_state_scheme driver_code \<Rightarrow> u64 \<Rightarrow> u64 \<Rightarrow> 'a vfs_state_scheme \<Rightarrow> 'a vfs_state_scheme" where
  "graft C dir node s =
     (let s = upd_node dir (\<lambda>d. d\<lparr>vn_ops := vn_ops (vs_nodes s node)\<rparr>) s;
          s = upd_node dir (\<lambda>d. d\<lparr>device := device (vs_nodes s node)\<rparr>) s;
          s = upd_node dir (\<lambda>d. d\<lparr>vn_type := vn_type (vs_nodes s node)\<rparr>) s;
          s = upd_node dir (\<lambda>d. d\<lparr>vn_size := vn_size (vs_nodes s node)\<rparr>) s;
          s = upd_node dir (\<lambda>d. d\<lparr>inode := inode (vs_nodes s node)\<rparr>) s
      in if node_op C op_close node s \<noteq> None
         then vfs_free_node node (upd_node node (\<lambda>n. n\<lparr>device := NULL\<rparr>) s) else s)"

fun find_fs :: "string \<Rightarrow> (u64 \<times> vfs_filesystem) list \<Rightarrow> vfs_filesystem option" where
  "find_fs fsname [] = None"
| "find_fs fsname ((_, fs) # rest) = (if fs_name fs = fsname then Some fs else find_fs fsname rest)"

definition vfs_mount ::
  "'a vfs_state_scheme driver_code \<Rightarrow> string option \<Rightarrow> string \<Rightarrow> string \<Rightarrow> u64 \<Rightarrow> 'a vfs_state_scheme
     \<Rightarrow> (int \<times> 'a vfs_state_scheme) option" where
  "vfs_mount C source target fsname data s =
     (case find_fs fsname (filesystems s) of
        None \<Rightarrow> Some (- 1, s)
      | Some fs \<Rightarrow> do {
          (node, s) \<leftarrow> mount_at C (fs_mount fs) source target data s;
          if node = NULL then Some (- 1, s)
          else if target = ''/'' then Some (0, s\<lparr>fs_root := node\<rparr>)
          else if fs_root s = NULL then Some (- 1, s)
          else do {
            (r, s) \<leftarrow> vfs_resolve_path (Some ''/'') (Some target) s;
            case r of
              None \<Rightarrow> None
            | Some (target_path, str) \<Rightarrow> do {
                (dir, s) \<leftarrow> mount_walk C (skip_slash str) (fs_root s) s;
                let s = (if dir \<noteq> NULL then graft C dir node s else s);
                let s = vs_mfree target_path s;
                Some (if dir \<noteq> NULL then 0 else - 1, s)
              }
          }
        })"

section \<open>Paths as lists of components\<close>

text \<open>The specification of path resolution: the components of a path, the effect of each on the
  directory reached so far, and the path of a list of components.\<close>

fun split_at :: "string \<Rightarrow> string \<Rightarrow> string list" where
  "split_at w [] = (if w = [] then [] else [w])"
| "split_at w (c # cs) =
     (if c = CHR ''/'' then (if w = [] then [] else [w]) @ split_at [] cs else split_at (w @ [c]) cs)"

definition path_components :: "string \<Rightarrow> string list" where
  "path_components p = split_at [] p"

definition enter :: "string list \<Rightarrow> string \<Rightarrow> string list" where
  "enter dir c = (if c = ''.'' then dir else if c = ''..'' then butlast dir else dir @ [c])"

definition absolute :: "string \<Rightarrow> bool" where
  "absolute p \<longleftrightarrow> p \<noteq> [] \<and> hd p = CHR ''/''"

definition canonical :: "string option \<Rightarrow> string \<Rightarrow> string list" where
  "canonical pwd path =
     foldl enter [] ((if absolute path then [] else case pwd of Some w \<Rightarrow> path_components w | None \<Rightarrow> [])
       @ path_components path)"

definition render :: "string list \<Rightarrow> string" where
  "render ts = (if ts = [] then ''/'' else concat (map (\<lambda>t. CHR ''/'' # t) ts))"

definition plain :: "string \<Rightarrow> bool" where
  "plain t \<longleftrightarrow> t \<noteq> [] \<and> CHR ''/'' \<notin> set t \<and> t \<noteq> ''.'' \<and> t \<noteq> ''..''"

lemma split_at_append: "CHR ''/'' \<notin> set u \<Longrightarrow> split_at w (u @ p) = split_at (w @ u) p"
  by (induction u arbitrary: w) auto

lemma split_at_slash: "split_at w (p @ CHR ''/'' # q) = split_at w p @ split_at [] q"
  by (induction p arbitrary: w) auto

lemma path_components_slash: "path_components (p @ CHR ''/'' # q) = path_components p @ path_components q"
  by (simp add: path_components_def split_at_slash)

lemma path_components_Nil [simp]: "path_components [] = []"
  by (simp add: path_components_def)

lemma path_components_Cons_slash [simp]: "path_components (CHR ''/'' # p) = path_components p"
  by (simp add: path_components_def)

lemma path_components_append_slashes:
  "path_components (dropWhile (\<lambda>c. c = CHR ''/'') p) = path_components p"
  by (induction p) auto

lemma path_components_word:
  assumes "p \<noteq> []" and "hd p \<noteq> CHR ''/''"
  shows "path_components p = takeWhile (\<lambda>c. c \<noteq> CHR ''/'') p # path_components (tl (dropWhile (\<lambda>c. c \<noteq> CHR ''/'') p))"
proof -
  let ?u = "takeWhile (\<lambda>c. c \<noteq> CHR ''/'') p" and ?r = "dropWhile (\<lambda>c. c \<noteq> CHR ''/'') p"
  have u: "?u \<noteq> []" "CHR ''/'' \<notin> set ?u" using assms by (cases p; auto dest: set_takeWhileD)+
  have "path_components p = split_at ?u ?r"
    unfolding path_components_def using split_at_append [OF u(2), of "[]" ?r] by simp
  also have "\<dots> = ?u # path_components (tl ?r)"
  proof (cases ?r)
    case Nil
    then show ?thesis unfolding Nil using u by simp
  next
    case (Cons c cs)
    then have "c = CHR ''/''" using hd_dropWhile [of "\<lambda>c. c \<noteq> CHR ''/''" p] by simp
    then show ?thesis using Cons u by (simp add: path_components_def)
  qed
  finally show ?thesis .
qed

lemma split_at_words:
  "CHR ''/'' \<notin> set w \<Longrightarrow> t \<in> set (split_at w p) \<Longrightarrow> t \<noteq> [] \<and> CHR ''/'' \<notin> set t"
proof (induction p arbitrary: w)
  case (Cons c p)
  show ?case
  proof (cases "c = CHR ''/''")
    case True
    then have "t = w \<and> w \<noteq> [] \<or> t \<in> set (split_at [] p)" using Cons.prems(2) by (auto split: if_splits)
    then show ?thesis using Cons.IH [of "[]"] Cons.prems(1) by auto
  next
    case False
    then show ?thesis using Cons.IH [of "w @ [c]"] Cons.prems by simp
  qed
qed (auto split: if_splits)

lemma path_components_words: "t \<in> set (path_components p) \<Longrightarrow> t \<noteq> [] \<and> CHR ''/'' \<notin> set t"
  unfolding path_components_def by (rule split_at_words) auto

text \<open>The lengths of the components, one slash for each.\<close>

definition weight :: "string list \<Rightarrow> nat" where
  "weight ts = sum_list (map (\<lambda>t. Suc (length t)) ts)"

lemma weight_simps [simp]: "weight [] = 0" "weight (t # ts) = Suc (length t) + weight ts" "weight (ts @ us) = weight ts + weight us"
  by (simp_all add: weight_def)

lemma weight_split_at: "weight (split_at w p) \<le> Suc (length w + length p)"
proof (induction p arbitrary: w)
  case (Cons c p)
  show ?case using Cons.IH [of "[]"] Cons.IH [of "w @ [c]"] by simp
qed simp

lemma weight_path_components: "absolute p \<Longrightarrow> weight (path_components p) \<le> length p"
  using weight_split_at [of "[]" "tl p"] by (cases p) (auto simp: absolute_def path_components_def)

lemma weight_path_components_le: "weight (path_components p) \<le> Suc (length p)"
  using weight_split_at [of "[]" p] by (simp add: path_components_def)

lemma length_render: "ts \<noteq> [] \<Longrightarrow> length (render ts) = weight ts"
  by (simp add: render_def weight_def length_concat comp_def)

lemma path_components_render: "(\<And>t. t \<in> set ts \<Longrightarrow> t \<noteq> [] \<and> CHR ''/'' \<notin> set t) \<Longrightarrow> path_components (render ts) = ts"
proof (induction ts)
  case (Cons t ts)
  have t: "t \<noteq> []" "CHR ''/'' \<notin> set t" using Cons.prems by auto
  have "path_components (t @ concat (map (\<lambda>t. CHR ''/'' # t) ts)) = t # ts"
  proof (cases ts)
    case Nil
    then show ?thesis using split_at_append [OF t(2), of "[]" "[]"] t(1) by (simp add: path_components_def)
  next
    case (Cons u us)
    then have "path_components (concat (map (\<lambda>t. CHR ''/'' # t) ts)) = ts" using Cons.IH Cons.prems by (simp add: render_def)
    then show ?thesis
      using Cons split_at_append [OF t(2), of "[]" "concat (map (\<lambda>t. CHR ''/'' # t) ts)"] t(1) by (simp add: path_components_def)
  qed
  then show ?case by (simp add: render_def)
qed (simp add: render_def)

lemma absolute_render [simp]: "absolute (render ts)"
  by (cases ts) (auto simp: render_def absolute_def)

section \<open>The resolver computes the canonical path\<close>

text \<open>The effect of a component with the bound of 128 on the token array.\<close>

definition enter_bounded :: "string list \<Rightarrow> string \<Rightarrow> string list" where
  "enter_bounded dir c =
     (if c = ''.'' then dir else if c = ''..'' then butlast dir else if length dir < 128 then dir @ [c] else dir)"

lemma resolve_tokens_eq: "resolve_tokens p ts = foldl enter_bounded ts (path_components p)"
proof (induction p ts rule: resolve_tokens.induct)
  case (1 p ts)
  let ?p = "dropWhile (\<lambda>c. c = CHR ''/'') p"
  have *: "path_components p = path_components ?p" by (simp add: path_components_append_slashes)
  show ?case
  proof (cases "?p = []")
    case True
    then show ?thesis unfolding * True by (subst resolve_tokens.simps) (unfold Let_def True, simp)
  next
    case False
    then have "hd ?p \<noteq> CHR ''/''" by (rule hd_dropWhile)
    note words = path_components_word [OF False this]
    show ?thesis
      unfolding * words
      by (subst resolve_tokens.simps, unfold Let_def, subst 1 [OF refl False refl refl])
        (use False in \<open>auto simp: enter_bounded_def\<close>)
  qed
qed

lemma foldl_enter_bounded:
  "length ts \<le> 128 \<Longrightarrow> (\<And>t. t \<in> set ts \<Longrightarrow> plain t) \<Longrightarrow> (\<And>c. c \<in> set cs \<Longrightarrow> c \<noteq> [] \<and> CHR ''/'' \<notin> set c) \<Longrightarrow>
   length (foldl enter_bounded ts cs) \<le> 128 \<and> (\<forall>t \<in> set (foldl enter_bounded ts cs). plain t) \<and>
   weight (foldl enter_bounded ts cs) \<le> weight ts + weight cs"
proof (induction cs arbitrary: ts)
  case (Cons c cs)
  have "weight (butlast ts) \<le> weight ts" by (cases ts rule: rev_cases) auto
  then have w: "weight (enter_bounded ts c) \<le> weight ts + Suc (length c)" by (auto simp: enter_bounded_def)
  have "length (foldl enter_bounded (enter_bounded ts c) cs) \<le> 128 \<and>
      (\<forall>t \<in> set (foldl enter_bounded (enter_bounded ts c) cs). plain t) \<and>
      weight (foldl enter_bounded (enter_bounded ts c) cs) \<le> weight (enter_bounded ts c) + weight cs"
    by (rule Cons.IH) (use Cons.prems in \<open>auto simp: enter_bounded_def plain_def split: if_splits dest: in_set_butlastD\<close>)
  with w show ?case by auto
qed simp

lemma foldl_enter_unbounded:
  "length ts + length cs \<le> 128 \<Longrightarrow> foldl enter_bounded ts cs = foldl enter ts cs"
proof (induction cs arbitrary: ts)
  case (Cons c cs)
  have "enter_bounded ts c = enter ts c" "length (enter ts c) \<le> Suc (length ts)"
    using Cons.prems by (auto simp: enter_bounded_def enter_def)
  then show ?case using Cons.IH [of "enter ts c"] Cons.prems by simp
qed simp

text \<open>Joining the tokens in the 1024-byte buffer, which they fit into.\<close>

lemma fold_append_token:
  "weight ts \<le> 1023 \<Longrightarrow> k < length ts \<Longrightarrow>
   fold (append_token ts) [0..<k] ''/'' = CHR ''/'' # concat (map (\<lambda>t. t @ ''/'') (take k ts))"
proof (induction k)
  case (Suc k)
  let ?s = "CHR ''/'' # concat (map (\<lambda>t. t @ ''/'') (take k ts))"
  have len: "length ?s = Suc (weight (take k ts))"
    by (simp add: weight_def length_concat comp_def)
  have "weight ts = weight (take k ts) + Suc (length (ts ! k)) + weight (drop (Suc k) ts)"
    using id_take_nth_drop [of k ts] Suc.prems by (metis Suc_lessD add.assoc weight_simps(2,3))
  moreover have "0 < weight (drop (Suc k) ts)" using Suc.prems(2) by (cases "drop (Suc k) ts") auto
  ultimately have "length ?s + length (ts ! k) < 1023" using Suc.prems(1) len by linarith
  moreover have "k < length ts - 1" using Suc.prems(2) by simp
  ultimately have "append_token ts k ?s = ?s @ ts ! k @ ''/''" by (simp add: append_token_def strncat_buf_def Let_def)
  then show ?case using Suc by (simp add: take_Suc_conv_app_nth)
qed simp

lemma render_snoc: "render (ts @ [t]) = CHR ''/'' # concat (map (\<lambda>t. t @ ''/'') ts) @ t"
  by (induction ts) (auto simp: render_def)

lemma fold_append_token_render:
  assumes "weight ts \<le> 1023"
  shows "fold (append_token ts) [0..<length ts] ''/'' = render ts"
proof (cases ts rule: rev_cases)
  case (snoc us t)
  let ?s = "CHR ''/'' # concat (map (\<lambda>t. t @ ''/'') us)"
  have "fold (append_token ts) [0..<length us] ''/'' = ?s" using fold_append_token [OF assms, of "length us"] snoc by simp
  moreover have "append_token ts (length us) ?s = ?s @ t"
  proof -
    have "length ?s = Suc (weight us)" by (simp add: weight_def length_concat comp_def)
    then show ?thesis using assms snoc by (simp add: append_token_def strncat_buf_def)
  qed
  ultimately show ?thesis using snoc by (simp add: render_snoc)
qed (simp add: render_def)

lemma resolve_string_tokens:
  assumes "weight (resolve_tokens (take 1023 (resolve_input pwd path)) []) \<le> 1023"
  shows "resolve_string pwd path = render (resolve_tokens (take 1023 (resolve_input pwd path)) [])"
  using fold_append_token_render [OF assms] absolute_render [of "resolve_tokens (take 1023 (resolve_input pwd path)) []"]
  by (auto simp: resolve_string_def Let_def absolute_def)

lemma absolute_resolve_input:
  assumes "absolute path \<or> pwd = None \<or> (\<exists>w. pwd = Some w \<and> absolute w)"
  shows "absolute (take 1023 (resolve_input pwd path))"
  using assms by (auto simp: resolve_input_def absolute_def strncat_buf_def Let_def split: option.splits)

lemma resolve_string_render:
  assumes "absolute path \<or> pwd = None \<or> (\<exists>w. pwd = Some w \<and> absolute w)"
  shows "\<exists>ts. resolve_string pwd path = render ts \<and> (\<forall>t \<in> set ts. plain t) \<and> length ts \<le> 128 \<and> weight ts \<le> 1023"
proof -
  let ?p = "take 1023 (resolve_input pwd path)"
  have "weight (path_components ?p) \<le> 1023"
    using weight_path_components [OF absolute_resolve_input [OF assms]] by simp
  then have *: "length (resolve_tokens ?p []) \<le> 128 \<and> (\<forall>t \<in> set (resolve_tokens ?p []). plain t) \<and> weight (resolve_tokens ?p []) \<le> 1023"
    unfolding resolve_tokens_eq using foldl_enter_bounded [of "[]" "path_components ?p"] path_components_words by fastforce
  then show ?thesis using resolve_string_tokens by blast
qed

lemma resolve_input_short:
  assumes "(case pwd of Some w \<Rightarrow> length w | None \<Rightarrow> 0) + length path \<le> 1021"
  shows "path_components (take 1023 (resolve_input pwd path)) =
    (if absolute path then [] else case pwd of Some w \<Rightarrow> path_components w | None \<Rightarrow> []) @ path_components path"
    "length (resolve_input pwd path) \<le> 1022"
proof -
  define w where "w = (case pwd of Some w \<Rightarrow> w | None \<Rightarrow> ''/'')"
  have rel: "path_components (resolve_input pwd path) = path_components w @ path_components path \<and> length (resolve_input pwd path) \<le> 1022"
    if "\<not> absolute path"
  proof (cases "w = [] \<or> last w = CHR ''/''")
    case True
    have "resolve_input pwd path = w @ path"
    proof (cases pwd)
      case None
      then show ?thesis using that assms by (auto simp: resolve_input_def absolute_def strncat_buf_def w_def)
    next
      case (Some v)
      then have "v = [] \<or> v ! (length v - 1) = CHR ''/''" using True by (cases "v = []") (simp_all add: w_def last_conv_nth)
      then show ?thesis using Some that assms by (auto simp: resolve_input_def absolute_def strncat_buf_def w_def)
    qed
    moreover have "path_components (w @ path) = path_components w @ path_components path"
    proof (cases w rule: rev_cases)
      case (snoc v c)
      then have "w = v @ [CHR ''/'']" using True by simp
      then show ?thesis using path_components_slash [of v path] path_components_slash [of v "[]"] by simp
    qed simp
    moreover have "length (w @ path) \<le> 1022" using assms by (auto simp: w_def split: option.splits)
    ultimately show ?thesis by simp
  next
    case False
    then have "pwd = Some w" by (auto simp: w_def split: option.splits)
    then have "resolve_input pwd path = w @ CHR ''/'' # path"
      using that False assms by (auto simp: resolve_input_def absolute_def strncat_buf_def last_conv_nth)
    then show ?thesis using path_components_slash \<open>pwd = Some w\<close> assms by simp
  qed
  have abs: "resolve_input pwd path = path" "length path \<le> 1022" if "absolute path"
    using that assms by (auto simp: resolve_input_def absolute_def)
  have w: "path_components w = (case pwd of Some w \<Rightarrow> path_components w | None \<Rightarrow> [])"
    by (simp add: w_def split: option.splits)
  show len: "length (resolve_input pwd path) \<le> 1022" using rel abs by (cases "absolute path") auto
  show "path_components (take 1023 (resolve_input pwd path)) =
    (if absolute path then [] else case pwd of Some w \<Rightarrow> path_components w | None \<Rightarrow> []) @ path_components path"
    using len rel abs w by simp
qed

lemma resolve_string_canonical:
  assumes "(case pwd of Some w \<Rightarrow> length w | None \<Rightarrow> 0) + length path \<le> 1021"
    and "length (path_components (resolve_input pwd path)) \<le> 128"
  shows "resolve_string pwd path = render (canonical pwd path)"
proof -
  note in_short = resolve_input_short [OF assms(1)]
  have take: "take 1023 (resolve_input pwd path) = resolve_input pwd path" using in_short(2) by simp
  have "resolve_tokens (take 1023 (resolve_input pwd path)) [] = canonical pwd path"
    unfolding resolve_tokens_eq take foldl_enter_unbounded [of "[]", simplified, OF assms(2)]
    using in_short(1) by (simp only: take canonical_def)
  moreover have "weight (path_components (take 1023 (resolve_input pwd path))) \<le> 1023"
    using weight_path_components_le [of "resolve_input pwd path"] in_short(2) unfolding take by linarith
  then have "weight (resolve_tokens (take 1023 (resolve_input pwd path)) []) \<le> 1023"
    unfolding resolve_tokens_eq
    using foldl_enter_bounded [of "[]" "path_components (take 1023 (resolve_input pwd path))"] path_components_words by fastforce
  ultimately show ?thesis using resolve_string_tokens by metis
qed

section \<open>The heap across path resolution\<close>

text \<open>An allocation that may fail adds one block or none; \<open>got p\<close> is the set of blocks it added.\<close>

definition got :: "u64 \<Rightarrow> u64 set" where
  "got p = {p} - {NULL}"

context heap_allocator
begin

lemma malloc_got:
  assumes "hrep s A" and "unat n < 2 ^ 64 - 16"
  obtains p s' where "malloc n s = Some (p, s')" and "hrep s' (A \<union> got p)" and "A \<inter> got p = {}"
proof -
  obtain p s' where *: "malloc n s = Some (p, s')" "p = NULL \<and> hrep s' A \<or> p \<noteq> NULL \<and> p \<notin> A \<and> hrep s' (insert p A)"
    using malloc_rep [OF assms] by blast
  show ?thesis by (rule that [OF *(1)]) (use *(2) in \<open>auto simp: got_def\<close>)
qed

lemma mfree_got:
  assumes "hrep s (A \<union> got p)" and "A \<inter> got p = {}"
  shows "hrep (if p \<noteq> NULL then mfree p s else s) A"
proof (cases "p = NULL")
  case False
  then have "A \<union> got p - {p} = A" using assms(2) by (auto simp: got_def)
  then show ?thesis using mfree_rep [OF assms(1), of p] False by (simp add: got_def)
qed (use assms in \<open>simp add: got_def\<close>)

text \<open>Four buffers released in the order of their allocation.\<close>

lemma mfree_four:
  assumes "hrep s (A \<union> got a \<union> got b \<union> got c \<union> got d)"
    and "A \<inter> got a = {}" and "(A \<union> got a) \<inter> got b = {}" and "(A \<union> got a \<union> got b) \<inter> got c = {}"
    and "(A \<union> got a \<union> got b \<union> got c) \<inter> got d = {}"
  shows "hrep (let s = (if a \<noteq> NULL then mfree a s else s);
                   s = (if b \<noteq> NULL then mfree b s else s);
                   s = (if c \<noteq> NULL then mfree c s else s)
               in if d \<noteq> NULL then mfree d s else s) A"
proof -
  define sa where "sa = (if a \<noteq> NULL then mfree a s else s)"
  define sb where "sb = (if b \<noteq> NULL then mfree b sa else sa)"
  define sc where "sc = (if c \<noteq> NULL then mfree c sb else sb)"
  have "hrep sa (A \<union> got b \<union> got c \<union> got d)"
    unfolding sa_def by (rule mfree_got) (use assms in \<open>auto simp: ac_simps\<close>)
  then have "hrep sb (A \<union> got c \<union> got d)"
    unfolding sb_def by (intro mfree_got) (use assms in \<open>auto simp: ac_simps\<close>)
  then have "hrep sc (A \<union> got d)"
    unfolding sc_def by (intro mfree_got) (use assms in \<open>auto simp: ac_simps\<close>)
  then have "hrep (if d \<noteq> NULL then mfree d sc else sc) A"
    by (rule mfree_got) (use assms in auto)
  then show ?thesis by (simp only: Let_def sa_def sb_def sc_def)
qed

end

text \<open>The blocks of the heap that are in use, all of them.\<close>

definition vs_blocks :: "'a vfs_state_scheme \<Rightarrow> u64 set \<Rightarrow> bool" where
  "vs_blocks s A \<longleftrightarrow> heap_blocks (ks_heap (vs_slab s)) A"

interpretation vsh: heap_allocator vs_malloc vs_mfree vs_blocks
proof (unfold_locales, goal_cases)
  case (1 s A n)
  then show ?case using kern.malloc_rep [of "vs_slab s" A n] by (auto simp: vs_blocks_def vs_malloc_def)
next
  case (2 s A p)
  then show ?case using kern.mfree_rep [of "vs_slab s" A p] by (simp add: vs_blocks_def vs_mfree_def)
qed

text \<open>Path resolution changes nothing but the heap.\<close>

definition heap_only :: "'a vfs_state_scheme \<Rightarrow> 'a vfs_state_scheme \<Rightarrow> bool" where
  "heap_only s s' \<longleftrightarrow> (\<exists>k. s' = s\<lparr>vs_slab := k\<rparr>)"

lemma heap_only_trans: "heap_only s s' \<Longrightarrow> heap_only s' s'' \<Longrightarrow> heap_only s s''"
  by (auto simp: heap_only_def)

lemma heap_only_malloc: "vs_malloc n s = Some (p, s') \<Longrightarrow> heap_only s s'"
  by (auto simp: vs_malloc_def heap_only_def)

lemma heap_only_mfree: "heap_only s s' \<Longrightarrow> heap_only s (vs_mfree p s')"
  by (auto simp: vs_mfree_def heap_only_def)

lemma heap_only_sel: "heap_only s s' \<Longrightarrow> vs_nodes s' = vs_nodes s \<and> fs_root s' = fs_root s"
  by (auto simp: heap_only_def)

lemma length_resolve_string: "length (resolve_string pwd path) \<le> 1023"
proof -
  have "length (fold (append_token ts) is s) \<le> 1023" if "length s \<le> 1023" for ts s and "is" :: "nat list"
    using that by (induction "is" arbitrary: s) (auto simp: append_token_def strncat_buf_def Let_def)
  from this [of "''/''"] show ?thesis by (simp add: resolve_string_def Let_def)
qed

lemma vfs_resolve_path_heap:
  assumes "vs_blocks s A"
  shows "\<exists>r s'. vfs_resolve_path pwd (Some path) s = Some (r, s') \<and> heap_only s s' \<and>
    (r = None \<and> vs_blocks s' A \<or>
     (\<exists>a. r = Some (a, resolve_string pwd path) \<and> a \<noteq> NULL \<and> a \<notin> A \<and> vs_blocks s' (insert a A)))"
proof -
  have small: "unat (1024 :: u64) < 2 ^ 64 - 16" "unat (128 * 8 :: u64) < 2 ^ 64 - 16" by simp_all
  obtain a s1 where a: "vs_malloc 1024 s = Some (a, s1)" "vs_blocks s1 (A \<union> got a)" "A \<inter> got a = {}"
    by (rule vsh.malloc_got [OF assms small(1)])
  obtain b s2 where b: "vs_malloc 1024 s1 = Some (b, s2)" "vs_blocks s2 (A \<union> got a \<union> got b)" "(A \<union> got a) \<inter> got b = {}"
    by (rule vsh.malloc_got [OF a(2) small(1)])
  obtain c s3 where c: "vs_malloc 1024 s2 = Some (c, s3)" "vs_blocks s3 (A \<union> got a \<union> got b \<union> got c)" "(A \<union> got a \<union> got b) \<inter> got c = {}"
    by (rule vsh.malloc_got [OF b(2) small(1)])
  obtain d s4 where d: "vs_malloc (128 * 8) s3 = Some (d, s4)" "vs_blocks s4 (A \<union> got a \<union> got b \<union> got c \<union> got d)"
    "(A \<union> got a \<union> got b \<union> got c) \<inter> got d = {}"
    by (rule vsh.malloc_got [OF c(2) small(2)])
  have fr: "heap_only s s4"
    using a(1) b(1) c(1) d(1) by (blast intro: heap_only_trans heap_only_malloc)
  show ?thesis
  proof (cases "a = NULL \<or> b = NULL \<or> c = NULL \<or> d = NULL")
    case True
    define s' where "s' = (let s = (if a \<noteq> NULL then vs_mfree a s4 else s4);
                   s = (if b \<noteq> NULL then vs_mfree b s else s);
                   s = (if c \<noteq> NULL then vs_mfree c s else s)
               in if d \<noteq> NULL then vs_mfree d s else s)"
    have "vs_blocks s' A"
      unfolding s'_def by (rule vsh.mfree_four [OF d(2) a(3) b(3) c(3) d(3)])
    moreover have "vfs_resolve_path pwd (Some path) s = Some (None, s')"
      using a(1) b(1) c(1) d(1) True by (simp add: vfs_resolve_path_def s'_def Let_def)
    moreover have "heap_only s s'"
      using fr by (auto simp: s'_def Let_def intro: heap_only_mfree)
    ultimately show ?thesis by blast
  next
    case False
    obtain str where str: "str = resolve_string pwd path" by blast
    have "Suc (length str) \<le> 1024" using length_resolve_string [of pwd path] str by simp
    then have "unat (of_nat (length str) + 1 :: u64) < 2 ^ 64 - 16"
      using unat_of_nat_u64 [of "Suc (length str)"] by (simp add: add.commute)
    from vsh.malloc_got [OF d(2) this] obtain e s5 where e: "vs_malloc (of_nat (length str) + 1) s4 = Some (e, s5)"
      "vs_blocks s5 (A \<union> got a \<union> got b \<union> got c \<union> got d \<union> got e)" "(A \<union> got a \<union> got b \<union> got c \<union> got d) \<inter> got e = {}" .
    define s' where "s' = vs_mfree d (vs_mfree c (vs_mfree b (vs_mfree a s5)))"
    have "vs_blocks (let s = (if a \<noteq> NULL then vs_mfree a s5 else s5);
                   s = (if b \<noteq> NULL then vs_mfree b s else s);
                   s = (if c \<noteq> NULL then vs_mfree c s else s)
               in if d \<noteq> NULL then vs_mfree d s else s) (A \<union> got e)"
      by (rule vsh.mfree_four) (use a(3) b(3) c(3) d(3) e(2,3) in \<open>auto simp: ac_simps\<close>)
    then have "vs_blocks s' (A \<union> got e)" using False by (simp add: s'_def)
    moreover have "vfs_resolve_path pwd (Some path) s = Some (if e = NULL then None else Some (e, str), s')"
      using a(1) b(1) c(1) d(1) e(1) False str by (simp add: vfs_resolve_path_def s'_def Let_def)
    moreover have "heap_only s s'"
      unfolding s'_def by (intro heap_only_mfree) (rule heap_only_trans [OF fr heap_only_malloc [OF e(1)]])
    moreover have "e \<noteq> NULL \<Longrightarrow> e \<notin> A" "got e = (if e = NULL then {} else {e})" using e(3) by (auto simp: got_def)
    ultimately show ?thesis using str by (cases "e = NULL") simp_all
  qed
qed

definition vs_room :: "nat \<Rightarrow> 'a vfs_state_scheme \<Rightarrow> bool" where
  "vs_room r s \<longleftrightarrow> kh_room (ks_heap (vs_slab s)) r"

lemma vs_malloc_room:
  assumes "vs_room r s" and "n \<noteq> 0" and "unat n + 112 \<le> r"
  shows "\<exists>p s'. vs_malloc n s = Some (p, s') \<and> p \<noteq> NULL \<and> vs_room (r - (unat n + 47)) s'"
  using khmalloc_room [of "ks_heap (vs_slab s)" r n] assms by (auto simp: vs_room_def vs_malloc_def slab_malloc_def)

text \<open>A heap with a free block of 8 KiB is enough for the buffers and the result.\<close>

lemma vfs_resolve_path_room:
  assumes "vs_room 8192 s"
  shows "\<exists>a s'. vfs_resolve_path pwd (Some path) s = Some (Some (a, resolve_string pwd path), s')"
proof -
  obtain a s1 where a: "vs_malloc 1024 s = Some (a, s1)" "a \<noteq> NULL" "vs_room 7121 s1"
    using vs_malloc_room [OF assms, of 1024] by auto
  obtain b s2 where b: "vs_malloc 1024 s1 = Some (b, s2)" "b \<noteq> NULL" "vs_room 6050 s2"
    using vs_malloc_room [OF a(3), of 1024] by auto
  obtain c s3 where c: "vs_malloc 1024 s2 = Some (c, s3)" "c \<noteq> NULL" "vs_room 4979 s3"
    using vs_malloc_room [OF b(3), of 1024] by auto
  obtain d s4 where d: "vs_malloc (128 * 8) s3 = Some (d, s4)" "d \<noteq> NULL" "vs_room 3908 s4"
    using vs_malloc_room [OF c(3), of "128 * 8"] by auto
  let ?n = "of_nat (length (resolve_string pwd path)) + 1 :: u64"
  have "unat ?n = Suc (length (resolve_string pwd path))"
    using length_resolve_string [of pwd path] unat_of_nat_u64 [of "Suc (length (resolve_string pwd path))"]
    by (simp add: add.commute)
  then have "?n \<noteq> 0" "unat ?n + 112 \<le> 3908" using length_resolve_string [of pwd path] by (auto simp flip: unat_eq_0)
  then obtain e s5 where e: "vs_malloc ?n s4 = Some (e, s5)" "e \<noteq> NULL" using vs_malloc_room [OF d(3)] by blast
  show ?thesis using a b c d e by (simp add: vfs_resolve_path_def Let_def)
qed

section \<open>Walking the directory tree\<close>

fun lookup :: "'a vfs_state_scheme driver_code \<Rightarrow> string list \<Rightarrow> u64 \<Rightarrow> 'a vfs_state_scheme \<Rightarrow> (u64 \<times> 'a vfs_state_scheme) option" where
  "lookup C [] node s = Some (node, s)"
| "lookup C (t # ts) node s =
     (if node = NULL then Some (NULL, s)
      else case vfs_finddir C node t s of None \<Rightarrow> None | Some (node', s') \<Rightarrow> lookup C ts node' s')"

lemma lookup_NULL [simp]: "lookup C ts NULL s = Some (NULL, s)"
  by (cases ts) auto

lemma takeWhile_word: "CHR ''/'' \<notin> set t \<Longrightarrow> takeWhile (\<lambda>c. c \<noteq> CHR ''/'') (t @ CHR ''/'' # p) = t"
  by (induction t) auto

lemma dropWhile_word: "CHR ''/'' \<notin> set t \<Longrightarrow> dropWhile (\<lambda>c. c \<noteq> CHR ''/'') (t @ CHR ''/'' # p) = CHR ''/'' # p"
  by (induction t) auto

lemma skip_slash_render: "skip_slash (render (t # ts)) = (if ts = [] then t else t @ render ts)" "skip_slash (render []) = []"
  by (auto simp: skip_slash_def render_def)

lemma render_Cons: "ts \<noteq> [] \<Longrightarrow> render ts = CHR ''/'' # skip_slash (render ts)"
  by (cases ts) (auto simp: skip_slash_def render_def)

lemma kopen_walk_NULL [simp]: "kopen_walk C p NULL s = Some (NULL, s)"
  by (subst kopen_walk.simps) simp

lemma kopen_walk_render:
  "(\<And>t. t \<in> set ts \<Longrightarrow> t \<noteq> [] \<and> CHR ''/'' \<notin> set t) \<Longrightarrow> kopen_walk C (skip_slash (render ts)) node s = lookup C ts node s"
proof (induction ts arbitrary: node s)
  case Nil
  then show ?case by (subst kopen_walk.simps) (simp add: skip_slash_render)
next
  case (Cons t ts)
  have t: "t \<noteq> []" "CHR ''/'' \<notin> set t" using Cons.prems by auto
  have IH: "kopen_walk C (skip_slash (render ts)) node s = lookup C ts node s" for node s
    using Cons.IH Cons.prems by simp
  show ?case
  proof (cases "ts = []")
    case True
    have "takeWhile (\<lambda>c. c \<noteq> CHR ''/'') t = t" using t(2) by (induction t) auto
    then show ?thesis unfolding True skip_slash_render using t
      by (subst kopen_walk.simps) (simp add: skip_slash_render del: takeWhile_eq_all_conv split: option.split)
  next
    case False
    let ?p = "t @ CHR ''/'' # skip_slash (render ts)"
    have "skip_slash (render (t # ts)) = ?p" using False skip_slash_render(1) [of t ts] render_Cons [OF False] by simp
    moreover have "kopen_walk C ?p node s = lookup C (t # ts) node s"
      by (subst kopen_walk.simps) (simp add: takeWhile_word [OF t(2)] dropWhile_word [OF t(2)] IH split: option.split)
    ultimately show ?thesis by simp
  qed
qed

lemma mount_walk_eq: "node \<noteq> NULL \<Longrightarrow> mount_walk C p node s = kopen_walk C p node s"
proof (induction C p node s rule: mount_walk.induct)
  case (1 C p node s)
  show ?case
    by (subst mount_walk.simps, subst kopen_walk.simps) (use 1 in \<open>auto split: option.split prod.split\<close>)
qed

text \<open>What \<open>kopen\<close> does once it has the node: refuse a node the caller may not read.\<close>

definition check_read :: "'a vfs_state_scheme driver_code \<Rightarrow> cred option \<Rightarrow> u64 \<Rightarrow> 'a vfs_state_scheme \<Rightarrow> (u64 \<times> 'a vfs_state_scheme) option" where
  "check_read C thread node s =
     (if node = NULL then Some (NULL, s)
      else
        case thread of
          None \<Rightarrow> Some (node, s)
        | Some t \<Rightarrow>
            if has_permission (vs_nodes s node) (cr_euid t) (cr_egid t) 4 then Some (node, s)
            else do { s \<leftarrow> kclose C node s; Some (NULL, s) })"

text \<open>The permission bit that decides: owner, group or others.\<close>

definition read_bit :: "vfs_node \<Rightarrow> u32 \<Rightarrow> u32 \<Rightarrow> nat" where
  "read_bit node uid gid = (if uid = vn_uid node then 8 else if gid = vn_gid node then 5 else 2)"

lemma and_power_bit:
  assumes "m = n + 2"
  shows "x AND push_bit n 4 \<noteq> 0 \<longleftrightarrow> bit (x :: u32) m"
proof -
  have "push_bit n (4 :: u32) = 2 ^ m" using assms by (simp add: push_bit_eq_mult power_add)
  then show ?thesis by (simp only: and_exp_eq_0_iff_not_bit) simp
qed

lemma has_permission_read:
  "has_permission node uid gid 4 \<longleftrightarrow> uid = 0 \<or> bit (vn_mask node) (read_bit node uid gid)"
  using and_power_bit [of 8 6 "vn_mask node"] and_power_bit [of 5 3 "vn_mask node"] and_power_bit [of 2 0 "vn_mask node"]
  by (simp add: has_permission_def read_bit_def)

lemma kopen_permission:
  assumes "kopen C (Some t) path s = Some (node, s')" and "node \<noteq> NULL"
  shows "has_permission (vs_nodes s' node) (cr_euid t) (cr_egid t) 4"
  using assms by (auto simp: kopen_def Let_def split: if_splits option.splits bind_splits)

text \<open>The second check of \<open>uopen\<close> asks for any one of the wanted bits, and the read bit is one of
  them: it never refuses what \<open>kopen\<close> gave, so write access is not checked.\<close>

lemma has_permission_open:
  assumes "has_permission node uid gid 4"
  shows "has_permission node uid gid (open_perm mode)"
proof -
  have mono: "x AND b \<noteq> 0 \<Longrightarrow> x AND (b OR c) \<noteq> 0" for x b c :: u32
    by (auto simp: bit.conj_disj_distrib or_eq_0_iff)
  have "open_perm mode = 4 \<or> open_perm mode = 6" by (simp add: open_perm_def)
  then show ?thesis
    using assms mono [of "vn_mask node" 256 128] mono [of "vn_mask node" 32 16] mono [of "vn_mask node" 4 2]
    by (auto simp: has_permission_def)
qed

lemma uopen_eq_kopen: "uopen C (Some t) path mode s = kopen C (Some t) path s"
proof -
  have "has_permission (vs_nodes s' node) (cr_euid t) (cr_egid t) (open_perm mode)"
    if "kopen C (Some t) path s = Some (node, s')" "node \<noteq> NULL" for node s'
    using has_permission_open [OF kopen_permission [OF that]] .
  then show ?thesis by (cases "kopen C (Some t) path s") (auto simp: uopen_def)
qed

lemma foldl_enter_plain:
  "(\<And>t. t \<in> set us \<Longrightarrow> plain t) \<Longrightarrow> length ts + length us \<le> 128 \<Longrightarrow> foldl enter_bounded ts us = ts @ us"
  by (induction us arbitrary: ts) (auto simp: enter_bounded_def plain_def)

lemma resolve_string_of_render:
  assumes "\<forall>t \<in> set ts. plain t" and "length ts \<le> 128" and "weight ts \<le> 1023"
  shows "resolve_string pwd (render ts) = render ts"
proof -
  have "length (render ts) \<le> 1023" using assms(3) length_render [of ts] by (cases "ts = []") (auto simp: render_def)
  then have "take 1023 (resolve_input pwd (render ts)) = render ts"
    using absolute_render [of ts] by (simp add: resolve_input_def absolute_def)
  moreover have "path_components (render ts) = ts" by (rule path_components_render) (use assms(1) in \<open>auto simp: plain_def\<close>)
  ultimately have "resolve_tokens (take 1023 (resolve_input pwd (render ts))) [] = ts"
    using foldl_enter_plain [of ts "[]"] assms(1,2) by (simp add: resolve_tokens_eq)
  then show ?thesis using resolve_string_tokens [of pwd "render ts"] assms(3) by simp
qed

lemma foldl_enter_words:
  "(\<And>t. t \<in> set ts \<Longrightarrow> plain t) \<Longrightarrow> (\<And>c. c \<in> set cs \<Longrightarrow> c \<noteq> [] \<and> CHR ''/'' \<notin> set c) \<Longrightarrow>
   t \<in> set (foldl enter ts cs) \<Longrightarrow> plain t"
proof (induction cs arbitrary: ts)
  case (Cons c cs)
  have "plain u" if "u \<in> set (enter ts c)" for u
    using that Cons.prems(1,2) by (auto simp: enter_def plain_def dest: in_set_butlastD split: if_splits)
  then show ?case using Cons.IH [of "enter ts c"] Cons.prems(2,3) by simp
qed simp

lemma canonical_plain: "t \<in> set (canonical pwd path) \<Longrightarrow> plain t"
  unfolding canonical_def
  by (rule foldl_enter_words [where ts = "[]"], simp) (auto dest: path_components_words simp del: foldl_append split: option.splits if_splits)

lemma kopen_lookup:
  assumes "vs_blocks s A" and "length path \<le> 1020" and "length (path_components path) \<le> 128"
  shows "(\<not> vs_room 8192 s \<and> (\<exists>s'. kopen C thread (Some path) s = Some (NULL, s') \<and> heap_only s s' \<and> vs_blocks s' A)) \<or>
    (\<exists>a s1. heap_only s s1 \<and> a \<noteq> NULL \<and> a \<notin> A \<and> vs_blocks s1 (insert a A) \<and>
      kopen C thread (Some path) s =
        do { (node, s2) \<leftarrow> lookup C (canonical (Some ''/'') path) (fs_root s) s1;
             check_read C thread node (vs_mfree a s2) })"
proof -
  have len: "(case Some ''/'' of Some w \<Rightarrow> length w | None \<Rightarrow> 0) + length path \<le> 1021" using assms(2) by simp
  have "length (path_components (resolve_input (Some ''/'') path)) \<le> 128"
    using resolve_input_short [OF len] assms(3) by (simp split: if_splits)
  note str = resolve_string_canonical [OF len this]
  have walk: "kopen_walk C (skip_slash (render (canonical (Some ''/'') path))) node s = lookup C (canonical (Some ''/'') path) node s" for node s
    by (rule kopen_walk_render) (use canonical_plain in \<open>auto simp: plain_def\<close>)
  obtain r s1 where r: "vfs_resolve_path (Some ''/'') (Some path) s = Some (r, s1)" "heap_only s s1"
    "r = None \<and> vs_blocks s1 A \<or> (\<exists>a. r = Some (a, render (canonical (Some ''/'') path)) \<and> a \<noteq> NULL \<and> a \<notin> A \<and> vs_blocks s1 (insert a A))"
    using vfs_resolve_path_heap [OF assms(1), of "Some ''/''" path] unfolding str by blast
  show ?thesis
  proof (cases r)
    case None
    then have "kopen C thread (Some path) s = Some (NULL, s1)" using r(1) by (simp add: kopen_def)
    moreover have "\<not> vs_room 8192 s" using vfs_resolve_path_room [of s "Some ''/''" path] r(1) None by auto
    ultimately show ?thesis using r None by blast
  next
    case (Some x)
    then obtain a where a: "r = Some (a, render (canonical (Some ''/'') path))" "a \<noteq> NULL" "a \<notin> A" "vs_blocks s1 (insert a A)"
      using r(3) by auto
    have "kopen C thread (Some path) s =
        do { (node, s2) \<leftarrow> lookup C (canonical (Some ''/'') path) (fs_root s) s1; check_read C thread node (vs_mfree a s2) }"
      using r(1) a(1) walk heap_only_sel [OF r(2)] by (simp add: kopen_def check_read_def Let_def cong: option.case_cong if_cong)
    then show ?thesis using r(2) a(2-4) by blast
  qed
qed

section \<open>A small file system\<close>

text \<open>A machine with a 64 KiB heap, and a tree with the directory \<open>/etc\<close> and its file \<open>hosts\<close>, which
  belongs to user 5 and is readable for its owner only.\<close>

definition vfs_example_heap :: kheap where
  "vfs_example_heap = \<lparr>heap_start = 65536,
     kh_blocks = (\<lambda>a. \<lparr>kb_magic = HEAP_MAGIC, kb_is_free = True, kb_size = 65504, kb_next = 0, kb_prev = 0\<rparr>),
     kh_backptr = (\<lambda>a. 0), kh_total_size = 65536, kh_used_size = 32, kh_free_size = 65504, kh_block_count = 1,
     kh_initialized = True\<rparr>"

definition vfs_example :: vfs_state where
  "vfs_example = \<lparr>vs_slab = kslab_example\<lparr>ks_heap := vfs_example_heap\<rparr>,
     vs_nodes = (\<lambda>a. zero_node\<lparr>vn_type := (if a = 0x3000 then VFS_FILE else VFS_DIRECTORY), vn_ops := 0x100,
        vn_uid := 5, vn_mask := (if a = 0x3000 then 0x100 else 0x1FF)\<rparr>),
     vfs_node_cache = NULL, fs_root = 0x1000, filesystems = []\<rparr>"

definition code_example :: "vfs_state driver_code" where
  "code_example = \<lparr>ops_at = (\<lambda>_. \<lparr>op_read = None, op_write = None, op_open = None, op_close = None, op_readdir = None,
       op_finddir = Some (\<lambda>n nm s. Some (if n = 0x1000 \<and> nm = ''etc'' then 0x2000
          else if n = 0x2000 \<and> nm = ''hosts'' then 0x3000 else NULL, s)),
       op_create = None, op_mkdir = None, op_rmdir = None, op_unlink = None, op_rename = None, op_stat = None, op_ioctl = None\<rparr>),
     mount_at = (\<lambda>_ _ _ _ s. Some (NULL, s))\<rparr>"

lemma vfs_example_blocks: "vs_blocks vfs_example {}"
proof -
  have "kheap_inv vfs_example_heap [(65536, 65504, True)]"
    by (simp add: kheap_inv_def kheap_rep_def vfs_example_heap_def coalesced_Cons)
  then show ?thesis by (auto simp: vs_blocks_def heap_blocks_def vfs_example_def)
qed

definition user_example :: cred where
  "user_example = \<lparr>cr_uid = 5, cr_gid = 5, cr_euid = 5, cr_egid = 5\<rparr>"

lemma vfs_example_room: "vs_room 8192 vfs_example"
proof -
  have "kheap_inv vfs_example_heap [(65536, 65504, True)]"
    by (simp add: kheap_inv_def kheap_rep_def vfs_example_heap_def coalesced_Cons)
  then show ?thesis unfolding vs_room_def kh_room_def
    by (intro exI [of _ "[(65536, 65504, True)]"] exI [of _ 65536] exI [of _ 65504]) (simp add: vfs_example_def)
qed

lemma kopen_example: "\<exists>s'. kopen code_example (Some user_example) (Some ''/etc/hosts'') vfs_example = Some (0x3000, s') \<and>
  vs_nodes s' = vs_nodes vfs_example"
proof -
  have c: "canonical (Some ''/'') ''/etc/hosts'' = [''etc'', ''hosts'']" by code_simp
  have "length (path_components ''/etc/hosts'') \<le> 128" by code_simp
  then obtain a s1 where s1: "heap_only vfs_example s1"
    "kopen code_example (Some user_example) (Some ''/etc/hosts'') vfs_example =
       do { (node, s2) \<leftarrow> lookup code_example [''etc'', ''hosts''] (fs_root vfs_example) s1;
            check_read code_example (Some user_example) node (vs_mfree a s2) }"
    using kopen_lookup [OF vfs_example_blocks, of "''/etc/hosts''" code_example "Some user_example"] vfs_example_room
    unfolding c by auto
  have nodes: "vs_nodes s1 = vs_nodes vfs_example" using heap_only_sel [OF s1(1)] by simp
  have "vs_nodes (vs_mfree a s1) = vs_nodes vfs_example" by (simp add: nodes vs_mfree_def)
  then show ?thesis
    unfolding s1(2) by (simp add: vfs_finddir_def node_op_def nodes check_read_def has_permission_def code_example_def user_example_def)
      (simp add: vfs_example_def zero_node_def)
qed

section \<open>Properties\<close>

text \<open>C7: For a path that fits the buffers (together with the working directory at most 1021
  characters and 128 components), \<open>vfs_resolve_path\<close> always returns.  It returns \<open>NULL\<close> only when the heap has no
  free block of 8 KiB, and then exactly the blocks that were in use before are in use: all its
  buffers are released.  Otherwise its result is one new heap block, the only one in use in
  addition, holding the canonical absolute path: the components of the working directory (for a
  relative path) and of the path, with dots dropped, each \<open>..\<close> taking one directory away and
  none above the root, and single slashes between them.\<close>

theorem vfs_resolve_path_correct:
  assumes "vs_blocks s A"
    and "(case pwd of Some w \<Rightarrow> length w | None \<Rightarrow> 0) + length path \<le> 1021"
    and "length (path_components (resolve_input pwd path)) \<le> 128"
  shows "\<exists>r s'. vfs_resolve_path pwd (Some path) s = Some (r, s') \<and> heap_only s s' \<and> (vs_room 8192 s \<longrightarrow> r \<noteq> None) \<and>
    (r = None \<and> vs_blocks s' A \<or>
     (\<exists>a. r = Some (a, render (canonical pwd path)) \<and> a \<noteq> NULL \<and> a \<notin> A \<and> vs_blocks s' (insert a A)))"
  using vfs_resolve_path_heap [OF assms(1), of pwd path] vfs_resolve_path_room [of s pwd path]
  unfolding resolve_string_canonical [OF assms(2,3)] by auto

theorem vfs_resolve_path_correct_witness:
  "\<exists>a s'. vfs_resolve_path (Some ''/home/user'') (Some ''./../../etc//hosts'') vfs_example = Some (Some (a, ''/etc/hosts''), s') \<and>
     vs_blocks s' {a}"
proof -
  have "canonical (Some ''/home/user'') ''./../../etc//hosts'' = [''etc'', ''hosts'']" by code_simp
  moreover have "length (path_components (resolve_input (Some ''/home/user'') ''./../../etc//hosts'')) \<le> 128" by code_simp
  ultimately show ?thesis
    using vfs_example_room vfs_resolve_path_correct [OF vfs_example_blocks, of "Some ''/home/user''" "''./../../etc//hosts''"]
    by (auto simp: render_def)
qed

text \<open>Whatever the path, even one too long for the buffers, resolving it against an absolute
  working directory gives an absolute path of at most 128 components, none of them empty,
  \<open>.\<close> or \<open>..\<close>, and resolving that path again, against any directory, gives the same path.\<close>

theorem resolve_string_normal_form:
  assumes "absolute path \<or> pwd = None \<or> (\<exists>w. pwd = Some w \<and> absolute w)"
  shows "\<exists>ts. resolve_string pwd path = render ts \<and> (\<forall>t. t \<in> set ts \<longrightarrow> plain t) \<and> length ts \<le> 128 \<and>
    path_components (resolve_string pwd path) = ts \<and> resolve_string pwd' (resolve_string pwd path) = resolve_string pwd path"
proof -
  obtain ts where ts: "resolve_string pwd path = render ts" "\<forall>t \<in> set ts. plain t" "length ts \<le> 128" "weight ts \<le> 1023"
    using resolve_string_render [OF assms] by blast
  moreover have "path_components (render ts) = ts" by (rule path_components_render) (use ts(2) in \<open>auto simp: plain_def\<close>)
  ultimately show ?thesis using resolve_string_of_render [OF ts(2-4), of pwd'] by auto
qed

theorem resolve_string_normal_form_witness:
  "resolve_string (Some ''/tmp'') (resolve_string (Some ''/home'') ''../a/./b/'') = ''/a/b''"
proof -
  have "absolute ''/home''" by (simp add: absolute_def)
  then have "resolve_string (Some ''/tmp'') (resolve_string (Some ''/home'') ''../a/./b/'') = resolve_string (Some ''/home'') ''../a/./b/''"
    using resolve_string_normal_form [of "''../a/./b/''" "Some ''/home''" "Some ''/tmp''"] by auto
  also have "\<dots> = ''/a/b''" by code_simp
  finally show ?thesis .
qed

text \<open>C28: \<open>kopen\<close> of a path of at most 1020 characters and 128 components, the ones that fit the buffers of path
  resolution (the code cuts longer ones off and opens another file): it either fails for lack
  of memory, without changing anything but the heap, or looks up the components of the
  canonical path one after the other from the root, each in the directory found before, stops
  at the first that is missing, releases the path, and refuses a node the thread may not read.\<close>

theorem kopen_correct:
  assumes "vs_blocks s A" and "length path \<le> 1020" and "length (path_components path) \<le> 128"
  shows "(\<not> vs_room 8192 s \<and> (\<exists>s'. kopen C thread (Some path) s = Some (NULL, s') \<and> heap_only s s' \<and> vs_blocks s' A)) \<or>
    (\<exists>a s1. heap_only s s1 \<and> a \<noteq> NULL \<and> a \<notin> A \<and> vs_blocks s1 (insert a A) \<and>
      kopen C thread (Some path) s =
        do { (node, s2) \<leftarrow> lookup C (canonical (Some ''/'') path) (fs_root s) s1;
             check_read C thread node (vs_mfree a s2) })"
  using kopen_lookup [OF assms] .

theorem kopen_correct_witness:
  "\<exists>a s1. vs_blocks s1 {a} \<and> kopen code_example (Some user_example) (Some ''/etc/../etc/hosts'') vfs_example =
     do { (node, s2) \<leftarrow> lookup code_example [''etc'', ''hosts''] 0x1000 s1; check_read code_example (Some user_example) node (vs_mfree a s2) }"
proof -
  have c: "canonical (Some ''/'') ''/etc/../etc/hosts'' = [''etc'', ''hosts'']" by code_simp
  have "length (path_components ''/etc/../etc/hosts'') \<le> 128" by code_simp
  moreover have "fs_root vfs_example = 0x1000" by (simp add: vfs_example_def)
  ultimately show ?thesis using vfs_example_room
    using kopen_correct [OF vfs_example_blocks, of "''/etc/../etc/hosts''" code_example "Some user_example"] c by auto
qed

text \<open>C29: A thread gets a node from \<open>uopen\<close> or \<open>uopendir\<close> only if its effective user is root or the
  read bit of the node's mask is set for the class the thread falls into (owner, group or
  others); and \<open>uopendir\<close> gives directories only.\<close>

theorem uopen_permitted:
  assumes "node \<noteq> NULL"
    and "uopen C (Some t) path mode s = Some (node, s') \<or> uopendir C (Some t) path s = Some (node, s')"
  shows "(cr_euid t = 0 \<or> bit (vn_mask (vs_nodes s' node)) (read_bit (vs_nodes s' node) (cr_euid t) (cr_egid t))) \<and>
    (uopendir C (Some t) path s = Some (node, s') \<longrightarrow> vn_type (vs_nodes s' node) = VFS_DIRECTORY)"
proof -
  have kopen: "kopen C (Some t) path s = Some (node, s')"
    using assms by (auto simp: uopen_def uopendir_def split: bind_splits if_splits)
  have "uopendir C (Some t) path s = Some (node, s') \<longrightarrow> vn_type (vs_nodes s' node) = VFS_DIRECTORY"
    using assms(1) by (auto simp: uopendir_def split: bind_splits if_splits)
  then show ?thesis using kopen_permission [OF kopen assms(1)] has_permission_read by blast
qed

theorem uopen_permitted_witness:
  "\<exists>s'. uopen code_example (Some user_example) (Some ''/etc/hosts'') 0 vfs_example = Some (0x3000, s') \<and>
     bit (vn_mask (vs_nodes s' 0x3000)) (read_bit (vs_nodes s' 0x3000) 5 5)"
proof -
  obtain s' where k: "kopen code_example (Some user_example) (Some ''/etc/hosts'') vfs_example = Some (0x3000, s')"
    "vs_nodes s' = vs_nodes vfs_example"
    using kopen_example by blast
  then have s': "uopen code_example (Some user_example) (Some ''/etc/hosts'') 0 vfs_example = Some (0x3000, s')"
    by (simp add: uopen_def user_example_def open_perm_def has_permission_def) (simp add: vfs_example_def zero_node_def)
  then show ?thesis using uopen_permitted [OF _ disjI1 [OF s']]
    by (simp add: user_example_def)
qed


text \<open>C30: The mode a thread opens a file with makes no difference: \<open>uopen\<close> gives the node to every thread
  that \<open>kopen\<close>, which asks for the right to read, gives it to, also when the mode asks for
  writing and no write bit is set.\<close>

theorem uopen_ignores_mode: "uopen C (Some t) path mode s = kopen C (Some t) path s"
  by (rule uopen_eq_kopen)

end
