(* ===== verification/Rtc.thy ===== *)
theory Rtc
  imports Prelude
begin

text \<open>
  \<open>krnl/hw/rtc.c\<close>: the conversion of the real-time clock to seconds since 1970.  The clock is the
  function \<open>cmos\<close> from register numbers to register contents, read while no update is in progress.
\<close>

section \<open>Operations\<close>

definition bcd_to_binary :: "u8 \<Rightarrow> u8" where
  "bcd_to_binary v = (v div 16) * 10 + (v AND 0x0F)"

definition leap :: "nat \<Rightarrow> bool" where
  "leap y \<longleftrightarrow> y mod 4 = 0 \<and> y mod 100 \<noteq> 0 \<or> y mod 400 = 0"

definition days_in_month :: "nat \<Rightarrow> nat list" where
  "days_in_month year = [31, if leap year then 29 else 28, 31, 30, 31, 30, 31, 31, 30, 31, 30, 31]"

text \<open>The registers of one reading, after the conversion from BCD and from the 12-hour format.\<close>

record rtc_time =
  rt_second :: u8
  rt_minute :: u8
  rt_hour :: u8
  rt_day :: u8
  rt_month :: u8
  rt_year :: u16

definition rtc_read :: "(u8 \<Rightarrow> u8) \<Rightarrow> rtc_time" where
  "rtc_read cmos =
     (let second = cmos 0x00; minute = cmos 0x02; hour = cmos 0x04; day = cmos 0x07; month = cmos 0x08;
          year = cmos 0x09; registerB = cmos 0x0B;
          bcd = registerB AND 0x04 = 0;
          second = (if bcd then bcd_to_binary second else second);
          minute = (if bcd then bcd_to_binary minute else minute);
          hour = (if bcd then bcd_to_binary (hour AND 0x7F) OR (hour AND 0x80) else hour);
          day = (if bcd then bcd_to_binary day else day);
          month = (if bcd then bcd_to_binary month else month);
          year = (if bcd then bcd_to_binary year else year);
          hour = (if registerB AND 0x02 = 0 \<and> hour AND 0x80 \<noteq> 0 then ((hour AND 0x7F) + 12) mod 24 else hour)
      in \<lparr>rt_second = second, rt_minute = minute, rt_hour = hour, rt_day = day, rt_month = month,
          rt_year = ucast year + (if year < 70 then 2000 else 1900)\<rparr>)"

text \<open>The sum over the months before \<open>month\<close> reads past the array when the clock reports a month
  beyond 13; the result is then \<open>None\<close>.  The arithmetic is that of \<open>uint64_t\<close>.\<close>

definition rtc_seconds :: "rtc_time \<Rightarrow> u64 option" where
  "rtc_seconds t =
     (if unat (rt_month t) > 13 then None
      else
        let year = unat (rt_year t);
            days = fold (\<lambda>y d. d + (if leap y then 366 else 365)) [1970..<year] (0 :: u64);
            days = fold (\<lambda>m d. d + of_nat (days_in_month year ! m)) [0..<unat (rt_month t) - 1] days;
            days = days + (ucast (rt_day t) - 1)
        in Some (days * 86400 + ucast (rt_hour t) * 3600 + ucast (rt_minute t) * 60 + ucast (rt_second t)))"

definition rtc_get_unix_time :: "(u8 \<Rightarrow> u8) \<Rightarrow> u64 option" where
  "rtc_get_unix_time cmos = rtc_seconds (rtc_read cmos)"

section \<open>The calendar\<close>

text \<open>The days before a year and before a month of a year, in closed form.\<close>

definition year_days :: "nat \<Rightarrow> nat" where
  "year_days y = 365 * (y - 1970) + ((y - 1) div 4 + (y - 1) div 400) - ((y - 1) div 100 + 477)"

definition month_days :: "nat \<Rightarrow> nat \<Rightarrow> nat" where
  "month_days y m = (if m \<le> 2 then 31 * (m - 1) else (153 * (m - 3) + 2) div 5 + 59 + (if leap y then 1 else 0))"

definition civil_seconds :: "nat \<Rightarrow> nat \<Rightarrow> nat \<Rightarrow> nat \<Rightarrow> nat \<Rightarrow> nat \<Rightarrow> nat" where
  "civil_seconds y m d hr mi se = (year_days y + month_days y m + (d - 1)) * 86400 + hr * 3600 + mi * 60 + se"

lemma leap_arith:
  fixes a b c n :: nat
  assumes "b + 477 \<le> a + c" and "P400 \<longrightarrow> P100" and "P100 \<longrightarrow> P4"
  shows "365 * Suc n + ((a + (if P4 then 1 else 0)) + (c + (if P400 then 1 else 0))) - ((b + (if P100 then 1 else 0)) + 477) =
    365 * n + (a + c) - (b + 477) + (if P4 \<and> \<not> P100 \<or> P400 then 366 else 365)"
  using assms by (cases P4; cases P100; cases P400) auto

lemma year_days_Suc:
  assumes "1970 \<le> y"
  shows "year_days (Suc y) = year_days y + (if leap y then 366 else 365)"
proof -
  have d: "y div k = (y - 1) div k + (if y mod k = 0 then 1 else 0)" if "1 < k" for k :: nat
  proof -
    obtain x where x: "y = Suc x" using assms by (cases y) auto
    show ?thesis using div_Suc [of x k] that by (auto simp: x)
  qed
  define a b c where "a = (y - 1) div 4" and "b = (y - 1) div 100" and "c = (y - 1) div 400"
  have "492 \<le> a" "4 \<le> c" unfolding a_def c_def using assms div_le_mono [of 1969 "y - 1" 4] div_le_mono [of 1969 "y - 1" 400] by simp_all
  moreover have "b = a div 25" unfolding a_def b_def by (simp flip: div_mult2_eq)
  then have "25 * b \<le> a" by simp
  ultimately have big: "b + 477 \<le> a + c" by linarith
  have lp: "y mod 400 = 0 \<Longrightarrow> y mod 100 = 0" "y mod 100 = 0 \<Longrightarrow> y mod 4 = 0" by presburger+
  have now: "year_days y = 365 * (y - 1970) + (a + c) - (b + 477)" by (simp add: year_days_def a_def b_def c_def)
  have later: "year_days (Suc y) = 365 * Suc (y - 1970) + (y div 4 + y div 400) - (y div 100 + 477)"
  proof -
    have "Suc y - 1970 = Suc (y - 1970)" using assms by simp
    then show ?thesis by (simp only: year_days_def diff_Suc_1)
  qed
  have divs: "y div 4 = a + (if y mod 4 = 0 then 1 else 0)" "y div 100 = b + (if y mod 100 = 0 then 1 else 0)"
      "y div 400 = c + (if y mod 400 = 0 then 1 else 0)"
    using d [of 4] d [of 100] d [of 400] by (simp_all add: a_def b_def c_def)
  show ?thesis unfolding now later divs leap_def by (rule leap_arith [OF big]) (use lp in blast)+
qed

lemma fold_years:
  assumes "1970 \<le> y"
  shows "fold (\<lambda>y d. d + (if leap y then 366 else 365)) [1970..<y] (0 :: u64) = of_nat (year_days y)"
  using assms
proof (induction y rule: dec_induct)
  case base
  then show ?case by (simp add: year_days_def)
next
  case (step y)
  then show ?case by (simp add: year_days_Suc)
qed

lemma fold_months:
  assumes "1 \<le> m" and "m \<le> 12"
  shows "fold (\<lambda>m d. d + of_nat (days_in_month y ! m)) [0..<m - 1] (d :: u64) = d + of_nat (month_days y m)"
proof -
  have "m = 1 \<or> m = 2 \<or> m = 3 \<or> m = 4 \<or> m = 5 \<or> m = 6 \<or> m = 7 \<or> m = 8 \<or> m = 9 \<or> m = 10 \<or> m = 11 \<or> m = 12"
    using assms by presburger
  then show ?thesis by (elim disjE) (simp_all add: days_in_month_def month_days_def upt_rec)
qed

section \<open>Registers\<close>

text \<open>A register value in the format that bit 2 of register B selects.\<close>

definition enc :: "bool \<Rightarrow> nat \<Rightarrow> u8" where
  "enc binary n = (if binary then of_nat n else of_nat (n div 10 * 16 + n mod 10))"

lemma bcd_roundtrip: "n < 100 \<Longrightarrow> bcd_to_binary (enc False n) = of_nat n"
proof -
  have "list_all (\<lambda>n. bcd_to_binary (enc False n) = of_nat n) [0..<100]" by code_simp
  then show "n < 100 \<Longrightarrow> bcd_to_binary (enc False n) = of_nat n" by (simp add: list_all_iff)
qed

lemma hour_roundtrip:
  "n < 24 \<Longrightarrow> bcd_to_binary (enc False n AND 0x7F) OR (enc False n AND 0x80) = of_nat n \<and> (of_nat n :: u8) AND 0x80 = 0"
proof -
  have "list_all (\<lambda>n. bcd_to_binary (enc False n AND 0x7F) OR (enc False n AND 0x80) = of_nat n \<and> (of_nat n :: u8) AND 0x80 = 0) [0..<24]"
    by code_simp
  then show "n < 24 \<Longrightarrow> bcd_to_binary (enc False n AND 0x7F) OR (enc False n AND 0x80) = of_nat n \<and> (of_nat n :: u8) AND 0x80 = 0"
    by (simp add: list_all_iff)
qed

text \<open>A clock in 24-hour mode that shows the given date and time.\<close>

definition shows_time :: "(u8 \<Rightarrow> u8) \<Rightarrow> nat \<Rightarrow> nat \<Rightarrow> nat \<Rightarrow> nat \<Rightarrow> nat \<Rightarrow> nat \<Rightarrow> bool" where
  "shows_time cmos y m d hr mi se \<longleftrightarrow>
     (let f = enc (cmos 0x0B AND 0x04 \<noteq> 0)
      in cmos 0x0B AND 0x02 \<noteq> 0 \<and> cmos 0x00 = f se \<and> cmos 0x02 = f mi \<and> cmos 0x04 = f hr \<and> cmos 0x07 = f d \<and>
         cmos 0x08 = f m \<and> cmos 0x09 = f (y mod 100))"

definition time_ok :: "nat \<Rightarrow> nat \<Rightarrow> nat \<Rightarrow> nat \<Rightarrow> nat \<Rightarrow> nat \<Rightarrow> bool" where
  "time_ok y m d hr mi se \<longleftrightarrow> 1970 \<le> y \<and> y < 2070 \<and> 1 \<le> m \<and> m \<le> 12 \<and> 1 \<le> d \<and> d \<le> 31 \<and> hr < 24 \<and> mi < 60 \<and> se < 60"

lemma rtc_read_shows:
  assumes "shows_time cmos y m d hr mi se" and "time_ok y m d hr mi se"
  shows "rtc_read cmos = \<lparr>rt_second = of_nat se, rt_minute = of_nat mi, rt_hour = of_nat hr, rt_day = of_nat d,
    rt_month = of_nat m, rt_year = of_nat y\<rparr>"
proof -
  have y: "(ucast (of_nat (y mod 100) :: u8) :: u16) + (if (of_nat (y mod 100) :: u8) < 70 then 2000 else 1900) = of_nat y"
  proof -
    have "(ucast (of_nat (y mod 100) :: u8) :: u16) = of_nat (y mod 100)" by (simp add: unsigned_of_nat take_bit_nat_eq_self)
    moreover have "(of_nat (y mod 100) :: u8) < 70 \<longleftrightarrow> y mod 100 < 70" by (simp add: word_less_nat_alt unat_of_nat)
    moreover have "y mod 100 + (if y mod 100 < 70 then 2000 else 1900) = y"
    proof (cases "y < 2000")
      case True
      then have "y mod 100 = y - 1900" using assms(2) by (intro mod_nat_eqI) (auto simp: time_ok_def)
      then show ?thesis using True assms(2) by (auto simp: time_ok_def)
    next
      case False
      then have "y mod 100 = y - 2000" using assms(2) by (intro mod_nat_eqI) (auto simp: time_ok_def)
      then show ?thesis using False assms(2) by (auto simp: time_ok_def)
    qed
    then have "(of_nat (y mod 100 + (if y mod 100 < 70 then 2000 else 1900)) :: u16) = of_nat y" by (rule arg_cong)
    then have "(of_nat (y mod 100) :: u16) + (if y mod 100 < 70 then 2000 else 1900) = of_nat y"
      unfolding of_nat_add by (simp only: if_distrib [of of_nat] of_nat_numeral)
    ultimately show ?thesis by simp
  qed
  have le: "se < 100" "mi < 100" "d < 100" "m < 100" "y mod 100 < 100" "hr < 24" using assms(2) by (auto simp: time_ok_def)
  show ?thesis
  proof (cases "cmos 0x0B AND 0x04 = 0")
    case True
    then show ?thesis using assms(1) le y bcd_roundtrip hour_roundtrip by (simp add: shows_time_def rtc_read_def Let_def)
  next
    case False
    then show ?thesis using assms(1) le y hour_roundtrip by (simp add: shows_time_def rtc_read_def Let_def enc_def)
  qed
qed

text \<open>In 12-hour mode twelve noon reads as hour 0 and twelve midnight as hour 12.\<close>

lemma rtc_twelve_hour_mode:
  "rt_hour (rtc_read (\<lambda>r. if r = 4 then 0x92 else 0)) = 0" "rt_hour (rtc_read (\<lambda>r. if r = 4 then 0x12 else 0)) = 12"
  by code_simp+

lemma rtc_unix_time:
  assumes "shows_time cmos y m d hr mi se" and "time_ok y m d hr mi se"
  shows "rtc_get_unix_time cmos = Some (of_nat (civil_seconds y m d hr mi se))"
proof -
  have r: "1970 \<le> y" "y < 2070" "1 \<le> m" "m \<le> 12" "1 \<le> d" "d \<le> 31" "hr < 24" "mi < 60" "se < 60" using assms(2) by (auto simp: time_ok_def)
  have u: "unat (of_nat m :: u8) = m" "unat (of_nat y :: u16) = y" using r by (simp_all add: unat_of_nat)
  have c: "(ucast (of_nat n :: u8) :: u64) = of_nat n" if "n < 256" for n using that by (simp add: unsigned_of_nat take_bit_nat_eq_self)
  have d: "(ucast (of_nat d :: u8) :: u64) - 1 = of_nat (d - 1)" using r(5,6) c [of d] by (simp add: of_nat_diff)
  show ?thesis
    unfolding rtc_get_unix_time_def rtc_read_shows [OF assms] rtc_seconds_def civil_seconds_def
    using r u d c [of hr] c [of mi] c [of se] by (simp add: fold_years fold_months [OF r(3,4), simplified] algebra_simps)
qed

section \<open>Properties\<close>

text \<open>C39: For a clock in 24-hour mode, with its registers in BCD or in binary, that shows a date from
  1970 to 2069, \<open>rtc_get_unix_time\<close> is the number of seconds from the beginning of 1970 to that
  date, computed with the closed formula for the leap years.\<close>

theorem rtc_get_unix_time_correct:
  assumes "shows_time cmos y m d hr mi se" and "time_ok y m d hr mi se"
  shows "rtc_get_unix_time cmos = Some (of_nat (civil_seconds y m d hr mi se))"
  using assms by (rule rtc_unix_time)

theorem rtc_get_unix_time_correct_witness:
  "rtc_get_unix_time (\<lambda>r. if r = 0x09 then 0x24 else if r = 0x08 then 0x02 else if r = 0x07 then 0x29 else
     if r = 0x04 then 0x12 else if r = 0x0B then 0x02 else 0) = Some 1709208000"
proof -
  have "rtc_get_unix_time (\<lambda>r. if r = 0x09 then 0x24 else if r = 0x08 then 0x02 else if r = 0x07 then 0x29 else
     if r = 0x04 then 0x12 else if r = 0x0B then 0x02 else 0) = Some (of_nat (civil_seconds 2024 2 29 12 0 0))"
    by (rule rtc_get_unix_time_correct) (simp_all add: shows_time_def time_ok_def enc_def Let_def)
  moreover have "civil_seconds 2024 2 29 12 0 0 = 1709208000"
    by (simp add: civil_seconds_def year_days_def month_days_def leap_def)
  ultimately show ?thesis by simp
qed

end
