(* ===== verification/Sched.thy ===== *)
theory Sched
  imports Vfs Mm Vmm Rtc
begin

text \<open>
  \<open>krnl/task/sched.c\<close> and \<open>sched.h\<close>: threads in one circular list, the timer tick that switches to
  the next running thread, creation, fork, exit, kill and reaping of threads.

  The record \<open>kernel\<close> is the state of the machine above the drivers: the file system layer with the
  slab allocator, the heap and the page allocator inside it, the buddy pool, the page tables and
  the control register, and the thread structures, a store of records.  \<open>mm_of\<close> and \<open>vmm_of\<close> give
  the parts the general allocator and the virtual memory code work on.

  \<open>queue_ok s ts\<close> says that the circular list holds exactly the threads \<open>ts\<close>, from
  \<open>thread_queue\<close> on.
\<close>

section \<open>State\<close>

definition MAX_FDS :: nat where "MAX_FDS = 32"

record file_descriptor =
  fd_node :: u64
  fd_offset :: u32
  fd_flags :: u32

datatype thread_state = THREAD_RUNNING | THREAD_WAITING | THREAD_ZOMBIE | THREAD_DEAD

record thread =
  th_id :: u64
  th_parent_id :: u64
  th_name :: string
  th_rsp :: u64
  th_cr3 :: u64
  th_start_time :: u64
  th_stack_bottom :: u64
  th_stack_size :: u64
  th_heap_start :: u64
  th_heap_end :: u64
  th_mmap_next :: u64
  th_state :: thread_state
  th_exit_code :: u32
  th_cwd :: u64
  th_fds :: "nat \<Rightarrow> file_descriptor"
  th_cred :: cred
  th_cap :: u64
  th_next :: u64

definition zero_thread :: thread where
  "zero_thread = \<lparr>th_id = 0, th_parent_id = 0, th_name = [], th_rsp = 0, th_cr3 = 0, th_start_time = 0, th_stack_bottom = NULL,
     th_stack_size = 0, th_heap_start = 0, th_heap_end = 0, th_mmap_next = 0, th_state = THREAD_RUNNING, th_exit_code = 0,
     th_cwd = NULL, th_fds = (\<lambda>_. \<lparr>fd_node = NULL, fd_offset = 0, fd_flags = 0\<rparr>),
     th_cred = \<lparr>cr_uid = 0, cr_gid = 0, cr_euid = 0, cr_egid = 0\<rparr>, th_cap = 0, th_next = NULL\<rparr>"

record kernel = vfs_state +
  k_buddy :: kbuddy
  k_mallocs :: "nat \<Rightarrow> u64"
  k_tab :: "u64 \<Rightarrow> u64"
  k_cr3 :: u64
  k_kernel_context :: vmm_context
  k_current_context :: "vmm_context option"
  threads :: "u64 \<Rightarrow> thread"
  current_thread :: u64
  thread_queue :: u64
  next_tid :: u64

definition mm_of :: "'a kernel_scheme \<Rightarrow> mm" where
  "mm_of s = \<lparr>mm_slab = vs_slab s, mm_buddy = k_buddy s, kmallocs = k_mallocs s\<rparr>"

definition put_mm :: "mm \<Rightarrow> 'a kernel_scheme \<Rightarrow> 'a kernel_scheme" where
  "put_mm m s = s\<lparr>vs_slab := mm_slab m, k_buddy := mm_buddy m, k_mallocs := kmallocs m\<rparr>"

definition vmm_of :: "'a kernel_scheme \<Rightarrow> vmm" where
  "vmm_of s = \<lparr>v_pmm = ks_pmm (vs_slab s), v_mem = ks_mem (vs_slab s), v_tab = k_tab s, v_cr3 = k_cr3 s,
     v_kernel_context = k_kernel_context s, v_current_context = k_current_context s\<rparr>"

definition put_vmm :: "vmm \<Rightarrow> 'a kernel_scheme \<Rightarrow> 'a kernel_scheme" where
  "put_vmm v s = s\<lparr>vs_slab := (vs_slab s)\<lparr>ks_pmm := v_pmm v, ks_mem := v_mem v\<rparr>, k_tab := v_tab v, k_cr3 := v_cr3 v,
     k_kernel_context := v_kernel_context v, k_current_context := v_current_context v\<rparr>"

definition k_mem :: "'a kernel_scheme \<Rightarrow> memory" where
  "k_mem s = ks_mem (vs_slab s)"

definition set_mem :: "memory \<Rightarrow> 'a kernel_scheme \<Rightarrow> 'a kernel_scheme" where
  "set_mem m s = s\<lparr>vs_slab := (vs_slab s)\<lparr>ks_mem := m\<rparr>\<rparr>"

definition k_kmalloc :: "u64 \<Rightarrow> 'a kernel_scheme \<Rightarrow> u64 \<times> 'a kernel_scheme" where
  "k_kmalloc n s = (let (p, m) = kmalloc n (mm_of s) in (p, put_mm m s))"

definition k_kfree :: "u64 \<Rightarrow> 'a kernel_scheme \<Rightarrow> 'a kernel_scheme" where
  "k_kfree p s = put_mm (kfree p (mm_of s)) s"

text \<open>The allocator as the virtual memory code calls it: it works on the machine state of \<open>vmm\<close>.\<close>

definition ctx_kmalloc :: "'a kernel_scheme vmm_kmalloc" where
  "ctx_kmalloc n s v = (let (p, s) = k_kmalloc n (put_vmm v s) in (p, s, vmm_of s))"

definition ctx_kfree :: "'a kernel_scheme vmm_kfree" where
  "ctx_kfree p s v = (let s = k_kfree p (put_vmm v s) in (s, vmm_of s))"

definition upd_thread :: "u64 \<Rightarrow> (thread \<Rightarrow> thread) \<Rightarrow> 'a kernel_scheme \<Rightarrow> 'a kernel_scheme" where
  "upd_thread t f s = s\<lparr>threads := (threads s)(t := f (threads s t))\<rparr>"

section \<open>Operations\<close>

definition sched_get_current_thread :: "'a kernel_scheme \<Rightarrow> u64" where
  "sched_get_current_thread s = current_thread s"

text \<open>\<open>*(--stack) = v\<close>.\<close>

definition push64 :: "u64 \<Rightarrow> u64 \<times> memory \<Rightarrow> u64 \<times> memory" where
  "push64 v = (\<lambda>(sp, m). (sp - 8, store64 m (sp - 8) v))"

text \<open>The interrupt frame and the fifteen registers a new thread starts from.\<close>

definition initial_frame :: "u64 \<Rightarrow> u64 \<Rightarrow> u64 \<Rightarrow> u64 list" where
  "initial_frame bottom sz entry = [0x30, bottom + sz, 0x202, 0x28, entry] @ replicate 15 0"

partial_function (option) find_tail :: "'a kernel_scheme \<Rightarrow> u64 \<Rightarrow> u64 option" where
  "find_tail s tail =
     (if th_next (threads s tail) \<noteq> thread_queue s then find_tail s (th_next (threads s tail)) else Some tail)"

definition enqueue :: "u64 \<Rightarrow> 'a kernel_scheme \<Rightarrow> 'a kernel_scheme option" where
  "enqueue t s =
     (if thread_queue s = NULL then Some ((upd_thread t (\<lambda>r. r\<lparr>th_next := t\<rparr>) s)\<lparr>thread_queue := t\<rparr>)
      else do {
        tail \<leftarrow> find_tail s (thread_queue s);
        let s = upd_thread tail (\<lambda>r. r\<lparr>th_next := t\<rparr>) s;
        Some (upd_thread t (\<lambda>r. r\<lparr>th_next := thread_queue s\<rparr>) s)
      })"

text \<open>\<open>cmos\<close> is the clock that \<open>rtc_get_unix_time\<close> reads.  The thread structure is zeroed by writing a
  page; the fields follow in the order of the code.\<close>

definition sched_add_thread ::
  "(u8 \<Rightarrow> u8) \<Rightarrow> string option \<Rightarrow> u64 \<Rightarrow> u64 \<Rightarrow> u64 \<Rightarrow> u64 \<Rightarrow> 'a kernel_scheme \<Rightarrow> (u64 \<times> 'a kernel_scheme) option" where
  "sched_add_thread cmos name entry_point bottom sz cr3 s = do {
     let (t, s) = k_kmalloc 4096 s;
     let s = upd_thread t (\<lambda>_. zero_thread) s;
     let s = upd_thread t (\<lambda>r. r\<lparr>th_id := next_tid s\<rparr>) s;
     let s = s\<lparr>next_tid := next_tid s + 1\<rparr>;
     now \<leftarrow> rtc_get_unix_time cmos;
     let c = current_thread s;
     let (sp, m) = fold push64 (initial_frame bottom sz entry_point) (bottom + sz, k_mem s);
     let s = upd_thread t (\<lambda>r. r\<lparr>th_cr3 := cr3, th_stack_bottom := bottom, th_stack_size := sz, th_state := THREAD_RUNNING,
         th_exit_code := 0, th_parent_id := (if c \<noteq> NULL then th_id (threads s c) else 0),
         th_cwd := (if c \<noteq> NULL then th_cwd (threads s c) else NULL), th_start_time := now,
         th_name := (case name of Some nm \<Rightarrow> take 255 nm | None \<Rightarrow> ''unnamed''), th_rsp := sp,
         th_cred := \<lparr>cr_uid = 0, cr_gid = 0, cr_euid = 0, cr_egid = 0\<rparr>, th_cap := 0\<rparr>) (set_mem m s);
     s \<leftarrow> enqueue t s;
     Some (t, s)
   }"

definition sched_kthread ::
  "(u8 \<Rightarrow> u8) \<Rightarrow> string option \<Rightarrow> u64 \<Rightarrow> u64 \<Rightarrow> u32 \<Rightarrow> u32 \<Rightarrow> 'a kernel_scheme \<Rightarrow> (u64 \<times> 'a kernel_scheme) option" where
  "sched_kthread cmos name entry_point cap uid gid s = do {
     let stack_size = 4096 * 4;
     let (stack, s) = k_kmalloc stack_size s;
     let cr3 = k_cr3 s;
     (t, s) \<leftarrow> sched_add_thread cmos name entry_point stack stack_size cr3 s;
     if t \<noteq> NULL
     then Some (th_id (threads s t), upd_thread t (\<lambda>r. r\<lparr>th_cap := cap,
            th_cred := \<lparr>cr_uid = uid, cr_gid = gid, cr_euid = uid, cr_egid = gid\<rparr>\<rparr>) s)
     else Some (- 1, s)
   }"

text \<open>The search of \<open>sched_tick\<close> for a running thread, once around the list.\<close>

partial_function (option) tick_loop :: "'a kernel_scheme \<Rightarrow> u64 \<Rightarrow> u64 \<Rightarrow> u64 option" where
  "tick_loop s start_t next_t =
     (if th_state (threads s next_t) \<noteq> THREAD_RUNNING
      then let next_t = th_next (threads s next_t) in if next_t = start_t then Some next_t else tick_loop s start_t next_t
      else Some next_t)"

definition tick_switch :: "u64 \<Rightarrow> 'a kernel_scheme \<Rightarrow> (u64 \<times> 'a kernel_scheme) option" where
  "tick_switch rsp s = do {
     let s = upd_thread (current_thread s) (\<lambda>r. r\<lparr>th_rsp := rsp\<rparr>) s;
     let start_t = th_next (threads s (current_thread s));
     next_t \<leftarrow> tick_loop s start_t start_t;
     let s = s\<lparr>current_thread := next_t, k_cr3 := th_cr3 (threads s next_t)\<rparr>;
     Some (th_rsp (threads s next_t), s)
   }"

definition sched_tick :: "u64 \<Rightarrow> 'a kernel_scheme \<Rightarrow> (u64 \<times> 'a kernel_scheme) option" where
  "sched_tick rsp s =
     (if current_thread s = NULL \<and> thread_queue s = NULL then Some (rsp, s)
      else if current_thread s = NULL
      then
        let s = s\<lparr>current_thread := thread_queue s\<rparr>
        in if th_state (threads s (current_thread s)) = THREAD_RUNNING then Some (th_rsp (threads s (current_thread s)), s)
           else tick_switch rsp s
      else tick_switch rsp s)"

text \<open>\<open>sched_exit\<close> up to the loop in which the thread waits to be reaped.\<close>

definition sched_exit :: "u32 \<Rightarrow> 'a kernel_scheme \<Rightarrow> 'a kernel_scheme" where
  "sched_exit status s =
     (if current_thread s = NULL then s
      else upd_thread (current_thread s) (\<lambda>r. r\<lparr>th_state := THREAD_ZOMBIE, th_exit_code := status,
             th_fds := (\<lambda>i. if i < MAX_FDS \<and> fd_node (th_fds r i) \<noteq> NULL then (th_fds r i)\<lparr>fd_node := NULL\<rparr> else th_fds r i)\<rparr>) s)"

text \<open>The search through the list, from \<open>t\<close> until the queue head comes round again; \<open>NULL\<close> when there is none.\<close>

partial_function (option) find_thread :: "(thread \<Rightarrow> bool) \<Rightarrow> 'a kernel_scheme \<Rightarrow> u64 \<Rightarrow> u64 option" where
  "find_thread P s t =
     (if P (threads s t) then Some t
      else let t = th_next (threads s t) in if t = thread_queue s then Some NULL else find_thread P s t)"

partial_function (option) find_prev :: "'a kernel_scheme \<Rightarrow> u64 \<Rightarrow> u64 \<Rightarrow> u64 option" where
  "find_prev s target prev =
     (if th_next (threads s prev) \<noteq> target then find_prev s target (th_next (threads s prev)) else Some prev)"

definition dequeue :: "u64 \<Rightarrow> 'a kernel_scheme \<Rightarrow> 'a kernel_scheme option" where
  "dequeue target s = do {
     prev \<leftarrow> find_prev s target (thread_queue s);
     if prev = target then Some (s\<lparr>thread_queue := NULL\<rparr>)
     else do {
       let s = upd_thread prev (\<lambda>r. r\<lparr>th_next := th_next (threads s target)\<rparr>) s;
       Some (if thread_queue s = target then s\<lparr>thread_queue := th_next (threads s target)\<rparr> else s)
     }
   }"

text \<open>One round of \<open>sched_waitpid\<close>: it fails, reaps the child, or yields with \<open>int $0xEF\<close> and tries again.  The id is
  returned as an \<open>int\<close>, its low 32 bits, with the exit code for the status.\<close>

datatype wait_result = WaitFail | WaitReaped u32 u32 | WaitAgain

definition reap :: "u64 \<Rightarrow> 'a kernel_scheme \<Rightarrow> 'a kernel_scheme option" where
  "reap target s = do {
     let s = upd_thread target (\<lambda>r. r\<lparr>th_state := THREAD_DEAD\<rparr>) s;
     s \<leftarrow> dequeue target s;
     let s = (if th_cr3 (threads s target) \<noteq> pml4_phys (vmm_get_kernel_context (vmm_of s))
              then put_vmm (vmm_free_cr3 (th_cr3 (threads s target)) (vmm_of s)) s else s);
     let s = k_kfree (th_stack_bottom (threads s target)) s;
     Some (k_kfree target s)
   }"

definition sched_waitpid :: "u64 \<Rightarrow> 'a kernel_scheme \<Rightarrow> (wait_result \<times> 'a kernel_scheme) option" where
  "sched_waitpid pid s =
     (if current_thread s = NULL then Some (WaitFail, s)
      else do {
        target \<leftarrow> (if thread_queue s = NULL then Some NULL
                   else find_thread (\<lambda>t. th_id t = pid \<and> th_parent_id t = th_id (threads s (current_thread s))) s (thread_queue s));
        if target = NULL then Some (WaitFail, s)
        else if th_state (threads s target) = THREAD_ZOMBIE
        then do { s' \<leftarrow> reap target s; Some (WaitReaped (ucast pid) (th_exit_code (threads s target)), s') }
        else Some (WaitAgain, s)
      })"

definition sched_kill :: "u64 \<Rightarrow> u32 \<Rightarrow> 'a kernel_scheme \<Rightarrow> (int \<times> 'a kernel_scheme) option" where
  "sched_kill pid sig s =
     (if thread_queue s = NULL then Some (- 1, s)
      else do {
        target \<leftarrow> find_thread (\<lambda>t. th_id t = pid) s (thread_queue s);
        if target = NULL then Some (- 1, s)
        else
          Some (0, if th_state (threads s target) \<noteq> THREAD_ZOMBIE \<and> th_state (threads s target) \<noteq> THREAD_DEAD
                   then upd_thread target (\<lambda>r. r\<lparr>th_state := THREAD_ZOMBIE, th_exit_code := 128 + sig\<rparr>) s else s)
      })"

text \<open>The relocation of the pointers into the parent's stack, one word of the child's stack at a time.\<close>

definition relocate_word :: "u64 \<Rightarrow> u64 \<Rightarrow> u64 \<Rightarrow> u64 \<Rightarrow> memory \<Rightarrow> memory" where
  "relocate_word parent_start parent_end child_start p m =
     (let v = load64 m p
      in if parent_start \<le> v \<and> v < parent_end then store64 m p (v - parent_start + child_start) else m)"

partial_function (option) relocate_stack :: "u64 \<Rightarrow> u64 \<Rightarrow> u64 \<Rightarrow> u64 \<Rightarrow> u64 \<Rightarrow> memory \<Rightarrow> memory option" where
  "relocate_stack parent_start parent_end child_start sz i m =
     (if i < sz - 7 then relocate_stack parent_start parent_end child_start sz (i + 8) (relocate_word parent_start parent_end child_start (child_start + i) m)
      else Some m)"

text \<open>\<open>strncat(name, "_f", 31 - strlen(name))\<close>: for a name of more than 31 characters the length wraps.\<close>

definition fork_name :: "string \<Rightarrow> string" where
  "fork_name nm = (if length nm \<le> 31 then nm @ take (31 - length nm) ''_f'' else nm @ ''_f'')"

definition sched_fork_internal :: "(u8 \<Rightarrow> u8) \<Rightarrow> u64 \<Rightarrow> 'a kernel_scheme \<Rightarrow> (u64 \<times> 'a kernel_scheme) option" where
  "sched_fork_internal cmos rsp_val s =
     (if current_thread s = NULL then Some (- 1, s)
      else if th_stack_bottom (threads s (current_thread s)) = NULL \<or> th_stack_size (threads s (current_thread s)) = 0
      then Some (- 1, s)
      else
        let (child, s) = k_kmalloc 4096 s
        in if child = NULL then Some (- 1, s)
           else
             let s = upd_thread child (\<lambda>_. zero_thread) s;
                 s = upd_thread child (\<lambda>r. r\<lparr>th_id := next_tid s\<rparr>) s;
                 s = s\<lparr>next_tid := next_tid s + 1\<rparr>;
                 par = threads s (current_thread s);
                 s = upd_thread child (\<lambda>r. r\<lparr>th_parent_id := th_id par\<rparr>) s;
                 ctx = \<lparr>pml4_phys = th_cr3 par, pml4_virt = th_cr3 par + 0xFFFF800000000000\<rparr>;
                 (cloned, s, v) = vmm_clone_context ctx_kmalloc ctx_kfree (Some ctx) s (vmm_of s);
                 s = put_vmm v s
             in case cloned of
                  None \<Rightarrow> Some (- 1, k_kfree child s)
                | Some (cp, cc) \<Rightarrow>
                    let s = upd_thread child (\<lambda>r. r\<lparr>th_cr3 := pml4_phys cc\<rparr>) s;
                        s = k_kfree cp s;
                        s = upd_thread child (\<lambda>r. r\<lparr>th_state := THREAD_RUNNING, th_exit_code := 0, th_cwd := th_cwd par,
                              th_heap_start := th_heap_start par, th_heap_end := th_heap_end par,
                              th_mmap_next := th_mmap_next par, th_stack_size := th_stack_size par\<rparr>) s;
                        (stack, s) = k_kmalloc (th_stack_size par) s;
                        s = upd_thread child (\<lambda>r. r\<lparr>th_stack_bottom := stack\<rparr>) s
                    in if stack = NULL then Some (- 1, k_kfree child s)
                       else do {
                         now \<leftarrow> rtc_get_unix_time cmos;
                         let s = upd_thread child (\<lambda>r. r\<lparr>th_start_time := now, th_name := fork_name (th_name par),
                               th_fds := (\<lambda>i. if i < MAX_FDS \<and> fd_node (th_fds par i) \<noteq> NULL then th_fds par i else th_fds r i)\<rparr>) s;
                         let m = snd (memcpy (k_mem s) stack (th_stack_bottom par) (th_stack_size par));
                         let sp = stack + (rsp_val - th_stack_bottom par);
                         let s = upd_thread child (\<lambda>r. r\<lparr>th_rsp := sp\<rparr>) s;
                         let m = store64 m sp 0;
                         m \<leftarrow> relocate_stack (th_stack_bottom par) (th_stack_bottom par + th_stack_size par) stack (th_stack_size par) 0 m;
                         s \<leftarrow> enqueue child (set_mem m s);
                         Some (th_id (threads s child), s)
                       })"

subsection \<open>Capabilities and credentials\<close>

definition CAP_KERNEL :: u64 where "CAP_KERNEL = 0x8000000000000000"
definition CAP_SETUID :: u64 where "CAP_SETUID = 0x1"
definition CAP_SETGID :: u64 where "CAP_SETGID = 0x2"
definition CAP_SETEUID :: u64 where "CAP_SETEUID = 0x4"
definition CAP_SETEGID :: u64 where "CAP_SETEGID = 0x8"
definition CAP_KILL :: u64 where "CAP_KILL = 0x8000"
definition UID_ROOT :: u32 where "UID_ROOT = 0"

definition CAP_CHECK :: "u64 \<Rightarrow> u64 \<Rightarrow> bool" where
  "CAP_CHECK cap flag \<longleftrightarrow> cap AND flag = flag"

definition set_capabilities :: "u64 \<Rightarrow> bool \<Rightarrow> 'a kernel_scheme \<Rightarrow> 'a kernel_scheme" where
  "set_capabilities cap on s =
     (if current_thread s = NULL then s
      else upd_thread (current_thread s) (\<lambda>t. t\<lparr>th_cap := (if on then th_cap t OR cap else th_cap t AND NOT cap)\<rparr>) s)"

text \<open>The four setters: the current thread's field changes if the thread has the capability.\<close>

definition with_cap :: "u64 \<Rightarrow> (cred \<Rightarrow> cred) \<Rightarrow> 'a kernel_scheme \<Rightarrow> 'a kernel_scheme" where
  "with_cap cap f s =
     (if current_thread s \<noteq> NULL \<and> CAP_CHECK (th_cap (threads s (current_thread s))) cap
      then upd_thread (current_thread s) (\<lambda>t. t\<lparr>th_cred := f (th_cred t)\<rparr>) s else s)"

definition setuid :: "u32 \<Rightarrow> 'a kernel_scheme \<Rightarrow> 'a kernel_scheme" where
  "setuid uid = with_cap CAP_SETUID (\<lambda>c. c\<lparr>cr_uid := uid\<rparr>)"

definition setgid :: "u32 \<Rightarrow> 'a kernel_scheme \<Rightarrow> 'a kernel_scheme" where
  "setgid gid = with_cap CAP_SETGID (\<lambda>c. c\<lparr>cr_gid := gid\<rparr>)"

definition seteuid :: "u32 \<Rightarrow> 'a kernel_scheme \<Rightarrow> 'a kernel_scheme" where
  "seteuid euid = with_cap CAP_SETEUID (\<lambda>c. c\<lparr>cr_euid := euid\<rparr>)"

definition setegid :: "u32 \<Rightarrow> 'a kernel_scheme \<Rightarrow> 'a kernel_scheme" where
  "setegid egid = with_cap CAP_SETEGID (\<lambda>c. c\<lparr>cr_egid := egid\<rparr>)"

definition kill :: "u64 \<Rightarrow> 'a kernel_scheme \<Rightarrow> 'a kernel_scheme option" where
  "kill pid s =
     (let t = threads s (current_thread s)
      in if current_thread s \<noteq> NULL \<and> (cr_uid (th_cred t) = UID_ROOT \<or> cr_euid (th_cred t) = UID_ROOT \<or>
              CAP_CHECK (th_cap t) CAP_KILL \<or> CAP_CHECK (th_cap t) CAP_KERNEL)
         then map_option snd (sched_kill pid 9 s) else Some s)"


section \<open>Circular lists\<close>

text \<open>\<open>chain nx xs e\<close>: every element of \<open>xs\<close> points to the one after it, the last one to \<open>e\<close>.\<close>

fun chain :: "(u64 \<Rightarrow> u64) \<Rightarrow> u64 list \<Rightarrow> u64 \<Rightarrow> bool" where
  "chain nx [] e \<longleftrightarrow> True"
| "chain nx (x # xs) e \<longleftrightarrow> nx x = hd (xs @ [e]) \<and> chain nx xs e"

definition ring :: "(u64 \<Rightarrow> u64) \<Rightarrow> u64 list \<Rightarrow> bool" where
  "ring nx xs \<longleftrightarrow> distinct xs \<and> NULL \<notin> set xs \<and> chain nx xs (hd xs)"

abbreviation next_of :: "'a kernel_scheme \<Rightarrow> u64 \<Rightarrow> u64" where
  "next_of s t \<equiv> th_next (threads s t)"

definition queue_ok :: "'a kernel_scheme \<Rightarrow> u64 list \<Rightarrow> bool" where
  "queue_ok s ts \<longleftrightarrow> ring (next_of s) ts \<and> thread_queue s = (if ts = [] then NULL else hd ts)"

lemma chain_append: "chain nx (xs @ ys) e \<longleftrightarrow> chain nx xs (hd (ys @ [e])) \<and> chain nx ys e"
proof (induction xs)
  case (Cons x xs)
  then show ?case by (cases xs) auto
qed simp

lemma chain_cong: "(\<And>x. x \<in> set xs \<Longrightarrow> nx x = nx' x) \<Longrightarrow> chain nx xs e \<longleftrightarrow> chain nx' xs e"
  by (induction xs) auto

lemma ring_cong: "(\<And>x. x \<in> set xs \<Longrightarrow> nx x = nx' x) \<Longrightarrow> ring nx xs \<longleftrightarrow> ring nx' xs"
  unfolding ring_def using chain_cong [of xs nx nx' "hd xs"] by simp

lemma ring_rotate: "ring nx (xs @ ys) \<longleftrightarrow> ring nx (ys @ xs)"
proof (cases "xs = [] \<or> ys = []")
  case False
  then show ?thesis by (auto simp: ring_def chain_append)
qed auto

text \<open>Redirecting the last element.\<close>

lemma chain_redirect: "distinct (xs @ [y]) \<Longrightarrow> chain nx xs y \<Longrightarrow> chain (nx(y := e)) (xs @ [y]) e"
  by (simp add: chain_append) (subst chain_cong [of xs _ nx], auto)

lemma ring_snoc:
  assumes ring: "ring nx ts" and t: "t \<notin> set ts" "t \<noteq> NULL" and ne: "ts \<noteq> []"
  shows "ring (nx(last ts := t, t := hd ts)) (ts @ [t])"
proof -
  obtain us y where ts: "ts = us @ [y]" using ne by (metis append_butlast_last_id)
  then have "chain nx us y" "distinct (us @ [y])" using ring by (simp_all add: ring_def chain_append)
  then have "chain (nx(y := t)) (us @ [y]) t" by (simp add: chain_redirect)
  then have "chain (nx(y := t, t := hd ts)) ts t"
    unfolding ts using t(1) ts by (subst chain_cong [of _ _ "nx(y := t)"]) auto
  then show ?thesis using ring t ne by (auto simp: ring_def chain_append ts hd_append)
qed

lemma ring_remove:
  assumes ring: "ring nx (us @ y # x # zs)"
  shows "ring (nx(y := nx x)) (us @ y # zs)"
proof -
  have "ring nx (x # zs @ us @ [y])"
    using ring ring_rotate [of nx "us @ [y]" "x # zs"] by simp
  then have x: "nx x = hd (zs @ us @ [y])" and d: "distinct ((zs @ us) @ [y])" and "chain nx ((zs @ us) @ [y]) x" "NULL \<notin> set ((zs @ us) @ [y])"
    by (simp_all add: ring_def hd_append)
  then have "chain nx (zs @ us) y" by (simp only: chain_append) simp
  from chain_redirect [OF d this, of "nx x"] have "ring (nx(y := nx x)) ((zs @ us) @ [y])"
    using d x \<open>NULL \<notin> _\<close> by (simp add: ring_def)
  then show ?thesis using ring_rotate [of "nx(y := nx x)" zs "us @ [y]"] by simp
qed

section \<open>Walks through the list\<close>

lemma find_prev_chain:
  "chain (next_of s) (x # ys) t \<Longrightarrow> t \<notin> set ys \<Longrightarrow> find_prev s t x = Some (last (x # ys))"
proof (induction ys arbitrary: x)
  case Nil
  then show ?case by (subst find_prev.simps) simp
next
  case (Cons y ys)
  then show ?case by (subst find_prev.simps) auto
qed

lemma find_tail_eq: "chain (next_of s) (x # ys) (thread_queue s) \<Longrightarrow> thread_queue s \<notin> set ys \<Longrightarrow> find_tail s x = Some (last (x # ys))"
proof (induction ys arbitrary: x)
  case Nil
  then show ?case by (subst find_tail.simps) simp
next
  case (Cons y ys)
  then show ?case by (subst find_tail.simps) auto
qed

definition first :: "('b \<Rightarrow> bool) \<Rightarrow> 'b list \<Rightarrow> 'b \<Rightarrow> 'b" where
  "first P xs d = (case filter P xs of [] \<Rightarrow> d | x # _ \<Rightarrow> x)"

lemma first_simps [simp]:
  "first P [] d = d"
  "first P (x # xs) d = (if P x then x else first P xs d)"
  by (simp_all add: first_def)

lemma first_cases:
  assumes "\<not> (\<exists>x\<in>set xs. P x) \<Longrightarrow> first P xs d = d \<Longrightarrow> thesis"
    and "\<And>us x vs. xs = us @ x # vs \<Longrightarrow> P x \<Longrightarrow> \<forall>u\<in>set us. \<not> P u \<Longrightarrow> first P xs d = x \<Longrightarrow> thesis"
  shows thesis
proof (cases "\<exists>x\<in>set xs. P x")
  case True
  then obtain us x vs where "xs = us @ x # vs" "P x" "\<forall>u\<in>set us. \<not> P u"
    using split_list_first_prop [OF True] by blast
  moreover from this have "first P xs d = x" by (simp add: first_def)
  ultimately show thesis by (rule assms(2))
next
  case False
  then have "filter P xs = []" by (simp add: filter_empty_conv)
  then show thesis using False by (intro assms(1)) (simp_all add: first_def)
qed

lemma tick_loop_chain:
  "chain (next_of s) (x # ys) start_t \<Longrightarrow> start_t \<notin> set ys \<Longrightarrow>
     tick_loop s start_t x = Some (first (\<lambda>t. th_state (threads s t) = THREAD_RUNNING) (x # ys) start_t)"
proof (induction ys arbitrary: x)
  case Nil
  then show ?case by (subst tick_loop.simps) simp
next
  case (Cons y ys)
  then show ?case by (subst tick_loop.simps) auto
qed

lemma find_thread_chain:
  "chain (next_of s) (x # ys) (thread_queue s) \<Longrightarrow> thread_queue s \<notin> set ys \<Longrightarrow>
     find_thread P s x = Some (first (\<lambda>t. P (threads s t)) (x # ys) NULL)"
proof (induction ys arbitrary: x)
  case Nil
  then show ?case by (subst find_thread.simps) simp
next
  case (Cons y ys)
  then show ?case by (subst find_thread.simps) auto
qed

lemma find_thread_queue:
  assumes "queue_ok s ts" and "ts \<noteq> []"
  shows "find_thread P s (thread_queue s) = Some (first (\<lambda>t. P (threads s t)) ts NULL)"
proof -
  obtain x ys where ts: "ts = x # ys" using assms(2) by (cases ts) auto
  then have "chain (next_of s) (x # ys) (thread_queue s)" "thread_queue s \<notin> set ys" "thread_queue s = x"
    using assms(1) by (simp_all add: queue_ok_def ring_def)
  then show ?thesis using find_thread_chain ts by metis
qed


section \<open>The queue\<close>

lemma upd_thread_simps [simp]:
  "threads (upd_thread t f s) = (threads s)(t := f (threads s t))"
  "thread_queue (upd_thread t f s) = thread_queue s" "current_thread (upd_thread t f s) = current_thread s"
  "next_tid (upd_thread t f s) = next_tid s" "mm_of (upd_thread t f s) = mm_of s" "vmm_of (upd_thread t f s) = vmm_of s"
  "vs_slab (upd_thread t f s) = vs_slab s"
  by (simp_all add: upd_thread_def mm_of_def vmm_of_def)

lemma put_simps [simp]:
  "threads (put_mm m s) = threads s" "thread_queue (put_mm m s) = thread_queue s" "current_thread (put_mm m s) = current_thread s"
  "next_tid (put_mm m s) = next_tid s" "mm_of (put_mm m s) = m"
  "threads (put_vmm v s) = threads s" "thread_queue (put_vmm v s) = thread_queue s" "current_thread (put_vmm v s) = current_thread s"
  "next_tid (put_vmm v s) = next_tid s" "vmm_of (put_vmm v s) = v"
  "threads (set_mem b s) = threads s" "thread_queue (set_mem b s) = thread_queue s" "current_thread (set_mem b s) = current_thread s"
  "next_tid (set_mem b s) = next_tid s"
  by (simp_all add: put_mm_def put_vmm_def set_mem_def mm_of_def vmm_of_def)

text \<open>Only the links between the threads and the head of the queue differ.\<close>

definition relinked :: "'a kernel_scheme \<Rightarrow> 'a kernel_scheme \<Rightarrow> bool" where
  "relinked s s' \<longleftrightarrow> (\<forall>u. threads s' u = (threads s u)\<lparr>th_next := next_of s' u\<rparr>) \<and>
     s' = s\<lparr>threads := threads s', thread_queue := thread_queue s'\<rparr>"

lemma relinked_field:
  assumes "relinked s s'"
  shows "th_id (threads s' u) = th_id (threads s u)" "th_parent_id (threads s' u) = th_parent_id (threads s u)"
    "th_state (threads s' u) = th_state (threads s u)" "th_exit_code (threads s' u) = th_exit_code (threads s u)"
    "th_cr3 (threads s' u) = th_cr3 (threads s u)" "th_stack_bottom (threads s' u) = th_stack_bottom (threads s u)"
    "th_fds (threads s' u) = th_fds (threads s u)"
    "current_thread s' = current_thread s" "next_tid s' = next_tid s" "mm_of s' = mm_of s" "vmm_of s' = vmm_of s"
    "k_cr3 s' = k_cr3 s" "k_kernel_context s' = k_kernel_context s"
proof -
  have u: "threads s' u = (threads s u)\<lparr>th_next := next_of s' u\<rparr>" using assms by (simp add: relinked_def)
  show "th_id (threads s' u) = th_id (threads s u)" "th_parent_id (threads s' u) = th_parent_id (threads s u)"
    "th_state (threads s' u) = th_state (threads s u)" "th_exit_code (threads s' u) = th_exit_code (threads s u)"
    "th_cr3 (threads s' u) = th_cr3 (threads s u)" "th_stack_bottom (threads s' u) = th_stack_bottom (threads s u)"
    "th_fds (threads s' u) = th_fds (threads s u)"
    by (subst u, simp)+
  have s: "s' = s\<lparr>threads := threads s', thread_queue := thread_queue s'\<rparr>" using assms by (simp add: relinked_def)
  show "current_thread s' = current_thread s" "next_tid s' = next_tid s" "mm_of s' = mm_of s" "vmm_of s' = vmm_of s"
    "k_cr3 s' = k_cr3 s" "k_kernel_context s' = k_kernel_context s"
    by (subst s, simp add: mm_of_def vmm_of_def)+
qed

lemma queue_okD:
  assumes "queue_ok s ts"
  shows "ring (next_of s) ts" "distinct ts" "NULL \<notin> set ts" "ts \<noteq> [] \<Longrightarrow> thread_queue s = hd ts" "thread_queue s = NULL \<longleftrightarrow> ts = []"
  using assms by (cases ts; auto simp: queue_ok_def ring_def)+

lemma queue_ok_cong:
  "thread_queue s' = thread_queue s \<Longrightarrow> (\<And>t. t \<in> set ts \<Longrightarrow> next_of s' t = next_of s t) \<Longrightarrow> queue_ok s' ts \<longleftrightarrow> queue_ok s ts"
  unfolding queue_ok_def using ring_cong [of ts "next_of s'" "next_of s"] by simp

lemma enqueue_ok:
  assumes q: "queue_ok s ts" and t: "t \<notin> set ts" "t \<noteq> NULL"
  shows "\<exists>s'. enqueue t s = Some s' \<and> queue_ok s' (ts @ [t]) \<and> relinked s s'"
proof (cases ts)
  case Nil
  let ?s = "(upd_thread t (\<lambda>r. r\<lparr>th_next := t\<rparr>) s)\<lparr>thread_queue := t\<rparr>"
  have "enqueue t s = Some ?s" using q Nil by (simp add: enqueue_def queue_ok_def)
  moreover have "queue_ok ?s (ts @ [t])" using Nil t by (simp add: queue_ok_def ring_def)
  moreover have "relinked s ?s" by (simp add: relinked_def upd_thread_def)
  ultimately show ?thesis by blast
next
  case (Cons x ys)
  let ?s = "upd_thread t (\<lambda>r. r\<lparr>th_next := thread_queue s\<rparr>) (upd_thread (last ts) (\<lambda>r. r\<lparr>th_next := t\<rparr>) s)"
  have hd: "thread_queue s = x" "thread_queue s \<noteq> NULL" using q Cons by (auto simp: queue_ok_def ring_def)
  have "find_tail s x = Some (last ts)"
    using q hd Cons find_tail_eq [of s x ys] by (simp add: queue_ok_def ring_def)
  then have "enqueue t s = Some ?s" using hd by (simp add: enqueue_def)
  moreover have "last ts \<noteq> t" using t Cons by (metis last_in_set list.distinct(1))
  then have "next_of ?s = (next_of s)(last ts := t, t := hd ts)" using hd Cons by (auto simp: fun_eq_iff)
  then have "queue_ok ?s (ts @ [t])"
    using ring_snoc [OF queue_okD(1) [OF q] t] hd Cons by (simp add: queue_ok_def)
  moreover have "relinked s ?s" by (simp add: relinked_def upd_thread_def)
  ultimately show ?thesis by blast
qed

lemma dequeue_ok:
  assumes q: "queue_ok s ts" and t: "t \<in> set ts"
  shows "\<exists>s'. dequeue t s = Some s' \<and> queue_ok s' (remove1 t ts) \<and> relinked s s'"
proof -
  note d = queue_okD [OF q]
  have link: "\<exists>s'. dequeue t s = Some s' \<and> queue_ok s' (remove1 t ts) \<and> relinked s s'"
    if prev: "find_prev s t (thread_queue s) = Some y" "y \<noteq> t" and rm: "ring ((next_of s)(y := next_of s t)) (remove1 t ts)"
      and hd: "hd (remove1 t ts) = (if thread_queue s = t then next_of s t else thread_queue s)" "remove1 t ts \<noteq> []" for y
  proof -
    let ?s = "upd_thread y (\<lambda>r. r\<lparr>th_next := next_of s t\<rparr>) s"
    let ?s' = "if thread_queue s = t then ?s\<lparr>thread_queue := next_of s t\<rparr> else ?s"
    have "dequeue t s = Some ?s'" using prev by (simp add: dequeue_def)
    moreover have "next_of ?s' = (next_of s)(y := next_of s t)" by (auto simp: fun_eq_iff)
    then have "queue_ok ?s' (remove1 t ts)" using rm hd by (simp add: queue_ok_def)
    moreover have "relinked s ?s'" by (simp add: relinked_def upd_thread_def)
    ultimately show ?thesis by blast
  qed
  obtain us zs where ts: "ts = us @ t # zs" using t by (meson split_list)
  consider (single) "ts = [t]" | (head) vs y where "ts = t # vs @ [y]" | (inner) vs y where "ts = vs @ y # t # zs"
    using ts by (cases us rule: rev_cases; cases zs rule: rev_cases) auto
  then show ?thesis
  proof cases
    case single
    then have "thread_queue s = t" "find_prev s t t = Some t"
      using q find_prev_chain [of s t "[]" t] by (simp_all add: queue_ok_def ring_def)
    then show ?thesis using single by (simp add: dequeue_def queue_ok_def ring_def relinked_def)
  next
    case head
    have hd: "thread_queue s = t" using d(4) head by simp
    have c: "chain (next_of s) (t # vs @ [y]) t" "t \<notin> set (vs @ [y])" using d(1) head by (simp_all add: ring_def)
    have "ring (next_of s) (vs @ y # t # [])" using d(1) head ring_rotate [of "next_of s" "[t]" "vs @ [y]"] by simp
    from ring_remove [OF this] c show ?thesis
      using find_prev_chain [OF c] hd head by (intro link [of y]) (auto simp: hd_append)
  next
    case inner
    have c: "chain (next_of s) (vs @ [y]) t" "t \<notin> set (vs @ [y])"
      using d(1) inner chain_append [of "next_of s" "vs @ [y]" "t # zs"] by (auto simp: ring_def)
    obtain w ws where w: "vs @ [y] = w # ws" by (cases "vs @ [y]") auto
    have hd: "thread_queue s = w" using d(4) inner w by (metis append.assoc append_Cons append_Nil list.sel(1) list.distinct(1) hd_append2)
    have "find_prev s t w = Some (last (w # ws))" using c w by (intro find_prev_chain) auto
    then have prev: "find_prev s t w = Some y" using w by (metis last_snoc)
    have rm: "remove1 t ts = vs @ y # zs" using inner c(2) by (simp add: remove1_append)
    then have "hd (remove1 t ts) = w" using w by (metis append.assoc append_Cons append_Nil hd_append2 list.sel(1) list.distinct(1))
    moreover have "w \<noteq> t" using c(2) w by auto
    ultimately show ?thesis
      using ring_remove [OF d(1) [unfolded inner]] prev hd rm c(2) by (intro link [of y]) auto
  qed
qed


section \<open>The timer tick\<close>

abbreviation running :: "'a kernel_scheme \<Rightarrow> u64 \<Rightarrow> bool" where
  "running s t \<equiv> th_state (threads s t) = THREAD_RUNNING"

text \<open>With the list read from the thread after the current one, the tick goes to the first running
  thread, and to the one after the current if none is running.\<close>

lemma tick_switch_ring:
  assumes ring: "ring (next_of s) zs" and ne: "zs \<noteq> []" and cur: "current_thread s = last zs"
  shows "tick_switch rsp s = Some (let n = first (running s) zs (hd zs); r = (threads s)(last zs := (threads s (last zs))\<lparr>th_rsp := rsp\<rparr>)
    in (th_rsp (r n), s\<lparr>threads := r, current_thread := n, k_cr3 := th_cr3 (threads s n)\<rparr>))"
proof -
  let ?s = "upd_thread (last zs) (\<lambda>r. r\<lparr>th_rsp := rsp\<rparr>) s"
  obtain x ys where zs: "zs = x # ys" using ne by (cases zs) auto
  have nx: "next_of ?s = next_of s" by (auto simp: fun_eq_iff)
  have run: "running ?s = running s" by (auto simp: fun_eq_iff)
  have start: "next_of s (last zs) = x"
  proof -
    obtain us y where "zs = us @ [y]" using ne by (metis append_butlast_last_id)
    then show ?thesis using ring zs by (simp add: ring_def chain_append) (metis list.sel(1))
  qed
  have "tick_loop ?s x x = Some (first (running s) zs x)"
    using tick_loop_chain [of ?s x ys x] ring zs nx run by (simp add: ring_def)
  then show ?thesis using cur start zs by (simp add: tick_switch_def Let_def upd_thread_def)
qed

fun ticks :: "u64 list \<Rightarrow> 'a kernel_scheme \<Rightarrow> 'a kernel_scheme option" where
  "ticks [] s = Some s"
| "ticks (rsp # rsps) s = Option.bind (sched_tick rsp s) (\<lambda>(_, s). ticks rsps s)"

lemma sched_tick_ring:
  assumes ring: "ring (next_of s) zs" and ne: "zs \<noteq> []" and cur: "current_thread s = last zs"
  shows "\<exists>rsp' s'. sched_tick rsp s = Some (rsp', s') \<and> current_thread s' = first (running s) zs (hd zs) \<and>
    running s' = running s \<and> next_of s' = next_of s"
proof -
  have "current_thread s \<noteq> NULL" using ring ne cur by (metis last_in_set ring_def)
  then have "sched_tick rsp s = tick_switch rsp s" by (simp add: sched_tick_def)
  then show ?thesis by (simp add: tick_switch_ring [OF assms] Let_def fun_eq_iff)
qed

text \<open>The number of threads before \<open>t\<close>, read from the one after the current, goes down with every tick.\<close>

lemma ticks_reach:
  assumes "ring (next_of s) zs" and "zs \<noteq> []" and "current_thread s = last zs" and "zs = us @ t # vs" and "running s t"
    and "length rsps = Suc (length us)"
  shows "\<exists>k s'. k < length rsps \<and> ticks (take (Suc k) rsps) s = Some s' \<and> current_thread s' = t"
  using assms
proof (induction "length us" arbitrary: s zs us vs rsps rule: less_induct)
  case less
  obtain rsp rest where rsps: "rsps = rsp # rest" using less.prems(6) by (cases rsps) auto
  obtain rsp' s' where s': "sched_tick rsp s = Some (rsp', s')" "current_thread s' = first (running s) zs (hd zs)"
      "running s' = running s" "next_of s' = next_of s"
    using sched_tick_ring [OF less.prems(1-3)] by blast
  show ?case
  proof (cases "\<exists>u\<in>set us. running s u")
    case False
    then have "first (running s) zs (hd zs) = t" using less.prems(4,5) by (simp add: first_def filter_empty_conv [THEN iffD2])
    then show ?thesis using rsps s' by (intro exI [of _ 0]) simp
  next
    case True
    then obtain us1 u us2 where us: "us = us1 @ u # us2" "running s u" "\<forall>w\<in>set us1. \<not> running s w"
      using split_list_first_prop [OF True] by blast
    have u: "first (running s) zs (hd zs) = u" using less.prems(4) us by (simp add: first_def filter_empty_conv [THEN iffD2])
    let ?zs = "us2 @ t # vs @ us1 @ [u]"
    have "ring (next_of s') ?zs"
      using less.prems(1,4) us(1) s'(4) ring_rotate [of "next_of s" "us1 @ [u]" "us2 @ t # vs"] by simp
    moreover have "running s' t" using less.prems(5) s'(3) by meson
    moreover have "length us2 < length us" using us(1) by simp
    moreover have "length (take (Suc (length us2)) rest) = Suc (length us2)" using less.prems(6) rsps us(1) by simp
    ultimately obtain k s2 where k: "k < Suc (length us2)" "ticks (take (Suc k) (take (Suc (length us2)) rest)) s' = Some s2" "current_thread s2 = t"
      using less.hyps [of us2 s' ?zs "vs @ us1 @ [u]" "take (Suc (length us2)) rest"] s'(2) u by auto
    have "take (Suc k) (take (Suc (length us2)) rest) = take (Suc k) rest" using k(1) by (simp add: min_def)
    then have "ticks (take (Suc (Suc k)) rsps) s = Some s2" using k(2) s'(1) rsps by simp
    moreover have "Suc k < length rsps" using k(1) less.prems(6) us(1) by simp
    ultimately show ?thesis using k(3) by blast
  qed
qed

lemma round_robin:
  assumes q: "queue_ok s ts" and c: "current_thread s \<in> set ts" and t: "t \<in> set ts" "running s t"
    and len: "length rsps = length ts"
  shows "\<exists>k s'. k < length ts \<and> ticks (take (Suc k) rsps) s = Some s' \<and> current_thread s' = t"
proof -
  obtain as bs where ts: "ts = (as @ [current_thread s]) @ bs" using c by (metis append.assoc append_Cons append_Nil split_list)
  let ?zs = "bs @ as @ [current_thread s]"
  have ring: "ring (next_of s) ?zs" using queue_okD(1) [OF q] ts ring_rotate by metis
  obtain us vs where us: "?zs = us @ t # vs" using t(1) ts by (metis set_append Un_commute split_list)
  have "length us < length ?zs" unfolding us by simp
  then have le: "Suc (length us) \<le> length ts" unfolding ts by simp
  then have "length (take (Suc (length us)) rsps) = Suc (length us)" using len by simp
  with ticks_reach [OF ring _ _ us t(2)] obtain k s' where k: "k < Suc (length us)" "ticks (take (Suc k) (take (Suc (length us)) rsps)) s = Some s'" "current_thread s' = t"
    by fastforce
  moreover have "take (Suc k) (take (Suc (length us)) rsps) = take (Suc k) rsps" using k(1) by (simp add: min_def)
  ultimately show ?thesis using le by (metis less_le_trans)
qed


section \<open>Threads and the memory they own\<close>

lemma coalesce_pool:
  "pool_start (snd (snd (coalesce b order s))) = pool_start s \<and> pool_size (snd (snd (coalesce b order s))) = pool_size s"
proof (induction b order s rule: coalesce.induct)
  case (1 block order s)
  show ?case by (subst (1 2) coalesce.simps) (use 1 in \<open>simp add: Let_def\<close>)
qed

lemma kmem_buddy_free_pool:
  "pool_start (kmem_buddy_free p s) = pool_start s" "pool_size (kmem_buddy_free p s) = pool_size s"
  using coalesce_pool [of "p - BUDDY_BLOCK_SIZE" "bb_order s (p - BUDDY_BLOCK_SIZE)" s]
  by (auto simp: kmem_buddy_free_def Let_def split: prod.split)

definition same_pool :: "kbuddy \<Rightarrow> kbuddy \<Rightarrow> bool" where
  "same_pool b b' \<longleftrightarrow> pool_start b' = pool_start b \<and> pool_size b' = pool_size b"

lemma put_mm_buddy: "put_mm ((mm_of s)\<lparr>mm_buddy := b\<rparr>) s = s\<lparr>k_buddy := b\<rparr>"
  by (simp add: put_mm_def mm_of_def)

lemma mm_of_buddy: "mm_of (s\<lparr>k_buddy := b\<rparr>) = (mm_of s)\<lparr>mm_buddy := b\<rparr>"
  by (simp add: mm_of_def)

lemma mm_inv_buddy: "mm_inv m L T F \<Longrightarrow> buddy_inv b T' F' \<Longrightarrow> mm_inv (m\<lparr>mm_buddy := b\<rparr>) L T' F'"
  by (simp add: mm_inv_def)

lemma k_kmalloc_block:
  assumes inv: "mm_inv (mm_of s) L T F" and sz: "2048 < sz" "unat sz + 24 < 2 ^ 64" and alloc: "k_kmalloc sz s = (p, s')" and p: "p \<noteq> NULL"
  shows "\<exists>r order T' F' b. s' = s\<lparr>k_buddy := b\<rparr> \<and> same_pool (k_buddy s) b \<and> p = at (k_buddy s) r + 24 \<and> live T F r = None \<and>
    live T' F' = (live T F)(r \<mapsto> order) \<and> unat sz + 24 \<le> blk order \<and> mm_inv (mm_of s') L T' F'"
proof -
  have le: "\<not> sz \<le> c" if "c \<le> 2048" for c using sz(1) that by (meson not_le order_trans)
  have nz: "sz \<noteq> 0" using sz(1) by auto
  obtain b where b: "kmem_buddy_alloc sz (k_buddy s) = (p, b)" "s' = put_mm ((mm_of s)\<lparr>mm_buddy := b\<rparr>) s"
    using alloc nz le by (simp add: k_kmalloc_def kmalloc_def mm_of_def split: prod.splits)
  have "buddy_inv (k_buddy s) T F" using inv by (simp add: mm_inv_def mm_of_def)
  from buddy_alloc_inv [OF this nz sz(2) b(1)] p
  obtain r order T' F' where r: "p = at (k_buddy s) r + 24" "buddy_inv b T' F'" "live T F r = None" "live T' F' = (live T F)(r \<mapsto> order)"
      "unat sz + 24 \<le> blk order" "same_pool (k_buddy s) b"
    unfolding same_pool_def by blast
  moreover have "s' = s\<lparr>k_buddy := b\<rparr>" using b(2) by (simp only: put_mm_buddy)
  moreover from this have "mm_inv (mm_of s') L T' F'" using mm_inv_buddy [OF inv r(2)] by (simp only: mm_of_buddy)
  ultimately show ?thesis by blast
qed

lemma k_kfree_block:
  assumes inv: "mm_inv (mm_of s) L T F" and r: "live T F r = Some order"
  shows "\<exists>T' F' b. k_kfree (at (k_buddy s) r + 24) s = s\<lparr>k_buddy := b\<rparr> \<and> same_pool (k_buddy s) b \<and>
    live T' F' = (live T F)(r := None) \<and> mm_inv (mm_of (s\<lparr>k_buddy := b\<rparr>)) L T' F'"
proof -
  let ?p = "at (k_buddy s) r + 24"
  let ?b = "kmem_buddy_free ?p (k_buddy s)"
  have b: "buddy_inv (k_buddy s) T F" using inv by (simp add: mm_inv_def mm_of_def)
  then obtain H where rep: "buddy_rep (k_buddy s) T F H {}" by (auto simp: buddy_inv_def)
  have T: "T r = Some order" using r by (simp add: live_Some)
  then have "bb_magic (k_buddy s) (at (k_buddy s) r) = BUDDY_MAGIC" using rep by (auto simp: buddy_rep_def headers_ok_def)
  then have "kfree ?p (mm_of s) = (mm_of s)\<lparr>mm_buddy := ?b\<rparr>"
    using payload_not_NULL [OF rep T] by (simp add: kfree_def BUDDY_BLOCK_SIZE_def mm_of_def)
  then have free: "k_kfree ?p s = s\<lparr>k_buddy := ?b\<rparr>" by (simp only: k_kfree_def put_mm_buddy)
  obtain T' F' where f: "buddy_inv ?b T' F'" "live T' F' = (live T F)(r := None)" using buddy_free_inv [OF b r] by blast
  moreover have "same_pool (k_buddy s) ?b" by (simp add: same_pool_def kmem_buddy_free_pool)
  moreover have "mm_inv (mm_of (s\<lparr>k_buddy := ?b\<rparr>)) L T' F'" using mm_inv_buddy [OF inv f(1)] by (simp only: mm_of_buddy)
  ultimately show ?thesis using free by blast
qed

lemma mm_inv_set_mem:
  assumes inv: "mm_inv (mm_of s) L T F"
    and used: "\<And>p. p < unat (total_pages (ks_pmm (vs_slab s))) \<Longrightarrow> page_used (ks_pmm (vs_slab s)) m p = page_used (ks_pmm (vs_slab s)) (k_mem s) p"
  shows "mm_inv (mm_of (set_mem m s)) L T F"
proof -
  let ?k = "vs_slab s" and ?k' = "(vs_slab s)\<lparr>ks_mem := m\<rparr>"
  have k: "kslab_inv ?k L" using inv by (simp add: mm_inv_def mm_of_def)
  have eq: "p < unat (total_pages (ks_pmm ?k)) \<and> page_used (ks_pmm ?k) m p \<longleftrightarrow> p < unat (total_pages (ks_pmm ?k)) \<and> page_used (ks_pmm ?k) (ks_mem ?k) p" for p
    using used [of p] by (auto simp: k_mem_def)
  have eq': "p < unat (total_pages (ks_pmm ?k)) \<and> \<not> page_used (ks_pmm ?k) m p \<longleftrightarrow> p < unat (total_pages (ks_pmm ?k)) \<and> \<not> page_used (ks_pmm ?k) (ks_mem ?k) p" for p
    using used [of p] by (auto simp: k_mem_def)
  have pages: "pages_ok ?k' = pages_ok ?k" by (simp add: pages_ok_def pmm_inv_def eq')
  have "slab_page ?k' = slab_page ?k" using eq by (auto simp: slab_page_def fun_eq_iff)
  then have slab: "slab_ok ?k' c a fs = slab_ok ?k c a fs" for c a fs by (simp add: slab_ok_def)
  have "kslab_inv ?k' L" using k unfolding kslab_inv_def pages by (simp add: slab_lists_def slabs_ok_def settled_def slab)
  then show ?thesis using inv by (simp add: mm_inv_def mm_of_def set_mem_def)
qed

text \<open>Pushing onto a stack writes just below its pointer.\<close>

lemma store64_other: "\<not> unat (a - d) < 8 \<Longrightarrow> store64 m d v a = m a"
  unfolding store64_def by (subst fold_store) simp_all

lemma push_fold:
  "fst (fold push64 vs (sp, m)) = sp - of_nat (8 * length vs)"
  "(\<And>j. j < 8 * length vs \<Longrightarrow> a \<noteq> sp - of_nat (Suc j)) \<Longrightarrow> snd (fold push64 vs (sp, m)) a = m a"
proof (induction vs arbitrary: sp m)
  case (Cons v vs)
  { case 1
    show ?case using Cons(1) [of "sp - 8"] by (simp add: push64_def algebra_simps)
  next
    case 2
    have "a \<noteq> sp - 8 - of_nat (Suc j)" if "j < 8 * length vs" for j
      using 2 [of "8 + j"] that by (simp add: algebra_simps)
    moreover have "\<not> unat (a - (sp - 8)) < 8"
    proof
      assume less: "unat (a - (sp - 8)) < 8"
      define k where "k = unat (a - (sp - 8))"
      have "a - (sp - 8) = of_nat k" by (simp add: k_def)
      then have "a = sp - 8 + of_nat k" by (simp add: algebra_simps)
      also have "\<dots> = sp - of_nat (Suc (7 - k))"
      proof -
        have "of_nat (Suc (7 - k)) + of_nat k = (8 :: u64)" using less unfolding k_def [symmetric] of_nat_add [symmetric] by simp
        then show ?thesis by (simp add: algebra_simps)
      qed
      finally have "a = sp - of_nat (Suc (7 - k))" .
      moreover have "7 - k < 8 * length (v # vs)" by (rule le_less_trans [of _ 7]) simp_all
      ultimately show False using 2 by blast
    qed
    ultimately show ?case using Cons(2) [of "sp - 8"] by (simp add: push64_def store64_other)
  }
qed simp_all


text \<open>Every thread owns two blocks of the pool, its structure and its stack.\<close>

definition owned :: "'a kernel_scheme \<Rightarrow> u64 list \<Rightarrow> u64 list" where
  "owned s ts = concat (map (\<lambda>t. [t, th_stack_bottom (threads s t)]) ts)"

definition blocks_owned :: "'a kernel_scheme \<Rightarrow> u64 list \<Rightarrow> (nat \<rightharpoonup> nat) \<Rightarrow> bool" where
  "blocks_owned s ps M \<longleftrightarrow> distinct ps \<and> (\<forall>p\<in>set ps. \<exists>r. M r \<noteq> None \<and> p = at (k_buddy s) r + 24)"

definition ids_ok :: "'a kernel_scheme \<Rightarrow> u64 list \<Rightarrow> bool" where
  "ids_ok s ts \<longleftrightarrow> distinct (map (\<lambda>t. th_id (threads s t)) ts) \<and>
     (\<forall>t\<in>set ts. th_parent_id (threads s t) < th_id (threads s t) \<and> th_id (threads s t) < next_tid s) \<and> 0 < next_tid s"

text \<open>The bitmap of the page allocator is outside the pool, so stacks can be written.\<close>

definition bitmap_apart :: "'a kernel_scheme \<Rightarrow> bool" where
  "bitmap_apart s \<longleftrightarrow> (\<forall>p<unat (total_pages (ks_pmm (vs_slab s))). \<forall>j<unat (pool_size (k_buddy s)).
     bitmap (ks_pmm (vs_slab s)) + of_nat p div 8 \<noteq> pool_start (k_buddy s) + of_nat j)"

text \<open>The invariant of a system of kernel threads: they share the kernel's page tables.\<close>

definition sched_inv ::
  "'a kernel_scheme \<Rightarrow> u64 list \<Rightarrow> (u64 \<rightharpoonup> u64 set) \<Rightarrow> (nat \<rightharpoonup> nat) \<Rightarrow> nat set \<Rightarrow> bool" where
  "sched_inv s ts L T F \<longleftrightarrow> queue_ok s ts \<and> (current_thread s = NULL \<or> current_thread s \<in> set ts) \<and> ids_ok s ts \<and>
     mm_inv (mm_of s) L T F \<and> blocks_owned s (owned s ts) (live T F) \<and> bitmap_apart s \<and>
     (\<forall>t\<in>set ts. th_cr3 (threads s t) = pml4_phys (k_kernel_context s)) \<and> k_cr3 s = pml4_phys (k_kernel_context s)"

lemma owned_simps [simp]:
  "owned s [] = []" "owned s (t # ts) = t # th_stack_bottom (threads s t) # owned s ts" "owned s (ts @ us) = owned s ts @ owned s us"
  by (simp_all add: owned_def)

lemma owned_cong: "(\<And>t. t \<in> set ts \<Longrightarrow> th_stack_bottom (threads s' t) = th_stack_bottom (threads s t)) \<Longrightarrow> owned s' ts = owned s ts"
  by (induction ts) simp_all

lemma owned_mem: "t \<in> set ts \<Longrightarrow> t \<in> set (owned s ts) \<and> th_stack_bottom (threads s t) \<in> set (owned s ts)"
  by (auto simp: owned_def)

lemma mm_of_fields: "mm_of s' = mm_of s \<Longrightarrow> vs_slab s' = vs_slab s \<and> k_buddy s' = k_buddy s"
  by (simp add: mm_of_def)

lemma sched_inv_update:
  assumes inv: "sched_inv s ts L T F"
    and same: "\<And>t. t \<in> set ts \<Longrightarrow> next_of s' t = next_of s t \<and> th_id (threads s' t) = th_id (threads s t) \<and>
      th_parent_id (threads s' t) = th_parent_id (threads s t) \<and> th_stack_bottom (threads s' t) = th_stack_bottom (threads s t) \<and>
      th_cr3 (threads s' t) = th_cr3 (threads s t)"
    and rest: "thread_queue s' = thread_queue s" "next_tid s' = next_tid s" "mm_of s' = mm_of s"
      "k_kernel_context s' = k_kernel_context s" "k_cr3 s' = k_cr3 s"
    and cur: "current_thread s' = NULL \<or> current_thread s' \<in> set ts"
  shows "sched_inv s' ts L T F"
proof -
  note f = mm_of_fields [OF rest(3)]
  have "queue_ok s' ts = queue_ok s ts" using same rest by (intro queue_ok_cong) simp_all
  moreover have "ids_ok s' ts = ids_ok s ts" using same rest(2) by (simp add: ids_ok_def cong: map_cong)
  moreover have "owned s' ts = owned s ts" using same by (intro owned_cong) simp
  moreover have "bitmap_apart s' = bitmap_apart s" using f by (simp add: bitmap_apart_def)
  ultimately show ?thesis using inv same rest cur f unfolding sched_inv_def blocks_owned_def by simp
qed

lemma sched_exit_inv:
  assumes "sched_inv s ts L T F"
  shows "sched_inv (sched_exit status s) ts L T F"
  using assms by (intro sched_inv_update [OF assms]) (auto simp: sched_exit_def upd_thread_def sched_inv_def mm_of_def)

lemma sched_kill_eq:
  assumes q: "queue_ok s ts"
  shows "sched_kill pid sig s = Some (case filter (\<lambda>t. th_id (threads s t) = pid) ts of [] \<Rightarrow> (- 1, s)
    | t # _ \<Rightarrow> (0, if th_state (threads s t) \<noteq> THREAD_ZOMBIE \<and> th_state (threads s t) \<noteq> THREAD_DEAD
        then upd_thread t (\<lambda>r. r\<lparr>th_state := THREAD_ZOMBIE, th_exit_code := 128 + sig\<rparr>) s else s))"
proof (cases "ts = []")
  case True
  then show ?thesis using queue_okD(5) [OF q] by (simp add: sched_kill_def)
next
  case False
  have "t \<noteq> NULL" if "filter P ts = t # us" for P t us
  proof -
    have "t \<in> set (filter P ts)" using that by simp
    then show ?thesis using queue_okD(3) [OF q] by auto
  qed
  then show ?thesis using queue_okD(5) [OF q] False find_thread_queue [OF q False]
    by (simp add: sched_kill_def first_def split: list.split)
qed

lemma sched_kill_inv:
  assumes inv: "sched_inv s ts L T F"
  shows "\<exists>x s'. sched_kill pid sig s = Some (x, s') \<and> sched_inv s' ts L T F"
proof -
  have q: "queue_ok s ts" using inv by (simp add: sched_inv_def)
  have "sched_inv (upd_thread t (\<lambda>r. r\<lparr>th_state := st, th_exit_code := e\<rparr>) s) ts L T F" for t st e
    using inv by (intro sched_inv_update [OF inv]) (auto simp: upd_thread_def sched_inv_def mm_of_def)
  then show ?thesis using inv by (simp add: sched_kill_eq [OF q] split: list.split)
qed

lemma ring_at:
  assumes q: "queue_ok s ts" and c: "t \<in> set ts"
  shows "\<exists>zs. ring (next_of s) zs \<and> zs \<noteq> [] \<and> last zs = t \<and> set zs = set ts"
proof -
  obtain as bs where ts: "ts = (as @ [t]) @ bs" using c by (metis append.assoc append_Cons append_Nil split_list)
  then have "ring (next_of s) (bs @ as @ [t])" using queue_okD(1) [OF q] ring_rotate by metis
  then show ?thesis using ts by (intro exI [of _ "bs @ as @ [t]"]) auto
qed

lemma tick_switch_inv:
  assumes inv: "sched_inv s ts L T F" and c: "current_thread s \<in> set ts"
  shows "\<exists>r s'. tick_switch rsp s = Some (r, s') \<and> sched_inv s' ts L T F \<and> current_thread s' \<noteq> NULL"
proof -
  have q: "queue_ok s ts" using inv by (simp add: sched_inv_def)
  obtain zs where zs: "ring (next_of s) zs" "zs \<noteq> []" "last zs = current_thread s" "set zs = set ts" using ring_at [OF q c] by blast
  have n: "first (running s) zs (hd zs) \<in> set ts"
    using zs(2,4) by (rule_tac first_cases [of zs "running s" "hd zs"]) auto
  then have "first (running s) zs (hd zs) \<noteq> NULL" using queue_okD(3) [OF q] by metis
  moreover have "th_cr3 (threads s (first (running s) zs (hd zs))) = k_cr3 s" using inv n by (simp add: sched_inv_def)
  ultimately show ?thesis using n
    by (simp add: tick_switch_ring [OF zs(1,2) zs(3) [symmetric]] Let_def)
       (intro sched_inv_update [OF inv]; simp add: mm_of_def)
qed

lemma sched_tick_inv:
  assumes inv: "sched_inv s ts L T F"
  shows "\<exists>r s'. sched_tick rsp s = Some (r, s') \<and> sched_inv s' ts L T F"
proof (cases "current_thread s = NULL")
  case False
  then show ?thesis using tick_switch_inv [OF inv] inv by (simp add: sched_tick_def sched_inv_def) metis
next
  case True
  have q: "queue_ok s ts" using inv by (simp add: sched_inv_def)
  show ?thesis
  proof (cases "ts = []")
    case False
    let ?s = "s\<lparr>current_thread := thread_queue s\<rparr>"
    have "current_thread ?s \<in> set ts" using queue_okD(4) [OF q] False by simp
    moreover from this have i: "sched_inv ?s ts L T F" by (intro sched_inv_update [OF inv]) (simp_all add: mm_of_def)
    ultimately obtain r s' where "tick_switch rsp ?s = Some (r, s')" "sched_inv s' ts L T F" using tick_switch_inv by blast
    then show ?thesis using True i queue_okD(5) [OF q] False by (simp add: sched_tick_def Let_def)
  qed (use True inv queue_okD(5) [OF q] in \<open>simp add: sched_tick_def\<close>)
qed


lemma live_block:
  assumes inv: "mm_inv (mm_of s) L T F" and r: "live T F r = Some order"
  shows "pool_ok (k_buddy s)" "r + blk order \<le> unat (pool_size (k_buddy s))"
proof -
  have "buddy_inv (k_buddy s) T F" using inv by (simp add: mm_inv_def mm_of_def)
  then obtain H where rep: "buddy_rep (k_buddy s) T F H {}" by (auto simp: buddy_inv_def)
  then show "pool_ok (k_buddy s)" by (simp add: buddy_rep_def)
  show "r + blk order \<le> unat (pool_size (k_buddy s))" using buddy_rep_in [OF rep] r by (simp add: live_Some)
qed

lemma payload_inject:
  assumes inv: "mm_inv (mm_of s) L T F" and r: "live T F r = Some i" "live T F q = Some j"
  shows "at (k_buddy s) r + 24 = at (k_buddy s) q + 24 \<longleftrightarrow> r = q"
  using live_block [OF inv r(1)] live_block [OF inv r(2)] at_inject [of "k_buddy s" r q] by simp

lemma payload_not_NULL':
  assumes inv: "mm_inv (mm_of s) L T F" and r: "live T F r = Some i"
  shows "at (k_buddy s) r + 24 \<noteq> NULL"
proof -
  have "buddy_inv (k_buddy s) T F" using inv by (simp add: mm_inv_def mm_of_def)
  then show ?thesis using payload_not_NULL r by (auto simp: buddy_inv_def live_Some)
qed

text \<open>An allocation and a release, as the owners of the blocks see them.\<close>

lemma alloc_owned:
  assumes inv: "mm_inv (mm_of s) L T F" and own: "blocks_owned s ps (live T F)" and sz: "2048 < sz" "unat sz + 24 < 2 ^ 64"
    and alloc: "k_kmalloc sz s = (p, s')" "p \<noteq> NULL"
  shows "\<exists>T' F' b r order. s' = s\<lparr>k_buddy := b\<rparr> \<and> same_pool (k_buddy s) b \<and> mm_inv (mm_of s') L T' F' \<and>
    blocks_owned s' (p # ps) (live T' F') \<and> p = at (k_buddy s) r + 24 \<and> r + unat sz + 24 \<le> unat (pool_size (k_buddy s))"
proof -
  obtain r order T' F' b where b: "s' = s\<lparr>k_buddy := b\<rparr>" "same_pool (k_buddy s) b" "p = at (k_buddy s) r + 24" "live T F r = None"
      "live T' F' = (live T F)(r \<mapsto> order)" "unat sz + 24 \<le> blk order" "mm_inv (mm_of s') L T' F'"
    using k_kmalloc_block [OF inv sz alloc] by blast
  have at: "at (k_buddy s') = at (k_buddy s)" using b(1,2) by (intro at_cong) (simp add: same_pool_def)
  have r: "live T' F' r = Some order" using b(5) by simp
  have "p \<notin> set ps"
  proof
    assume "p \<in> set ps"
    then obtain q i where q: "live T F q = Some i" "p = at (k_buddy s) q + 24" using own by (auto simp: blocks_owned_def)
    then have "live T' F' q = Some i" "q \<noteq> r" using b(4,5) by auto
    then show False using payload_inject [OF b(7) r] q(2) b(3) at by metis
  qed
  moreover have "\<exists>q. live T' F' q \<noteq> None \<and> x = at (k_buddy s') q + 24" if x: "x \<in> set (p # ps)" for x
  proof (cases "x = p")
    case True
    then show ?thesis using b(3) r at by (intro exI [of _ r]) simp
  next
    case False
    then obtain q i where "live T F q = Some i" "x = at (k_buddy s) q + 24" using own x by (auto simp: blocks_owned_def)
    then show ?thesis using b(4,5) at by (intro exI [of _ q]) auto
  qed
  ultimately have "blocks_owned s' (p # ps) (live T' F')" using own by (simp add: blocks_owned_def)
  moreover have "r + unat sz + 24 \<le> unat (pool_size (k_buddy s))"
    using live_block(2) [OF b(7) r] b(1,2,6) by (simp add: same_pool_def)
  ultimately show ?thesis using b by blast
qed

lemma free_owned:
  assumes inv: "mm_inv (mm_of s) L T F" and own: "blocks_owned s (p # ps) (live T F)"
  shows "\<exists>T' F' b r. k_kfree p s = s\<lparr>k_buddy := b\<rparr> \<and> same_pool (k_buddy s) b \<and> mm_inv (mm_of (s\<lparr>k_buddy := b\<rparr>)) L T' F' \<and>
    blocks_owned (s\<lparr>k_buddy := b\<rparr>) ps (live T' F') \<and> p = at (k_buddy s) r + 24 \<and> live T F r \<noteq> None \<and> live T' F' = (live T F)(r := None)"
proof -
  obtain r i where r: "p = at (k_buddy s) r + 24" "live T F r = Some i" using own by (auto simp: blocks_owned_def)
  obtain T' F' b where b: "k_kfree p s = s\<lparr>k_buddy := b\<rparr>" "same_pool (k_buddy s) b" "live T' F' = (live T F)(r := None)"
      "mm_inv (mm_of (s\<lparr>k_buddy := b\<rparr>)) L T' F'"
    using k_kfree_block [OF inv r(2)] r(1) by blast
  have at: "at b = at (k_buddy s)" using b(2) by (intro at_cong) (simp add: same_pool_def)
  have "\<exists>q. live T' F' q \<noteq> None \<and> x = at b q + 24" if x: "x \<in> set ps" for x
  proof -
    obtain q where "live T F q \<noteq> None" "x = at (k_buddy s) q + 24" using own x by (auto simp: blocks_owned_def)
    moreover have "x \<noteq> p" using own x by (auto simp: blocks_owned_def)
    ultimately show ?thesis using r(1) b(3) at by (intro exI [of _ q]) auto
  qed
  then have "blocks_owned (s\<lparr>k_buddy := b\<rparr>) ps (live T' F')" using own by (simp add: blocks_owned_def)
  then show ?thesis using b r by blast
qed

lemma blocks_owned_not_NULL:
  assumes "mm_inv (mm_of s) L T F" and "blocks_owned s ps (live T F)"
  shows "NULL \<notin> set ps"
  using assms payload_not_NULL' by (fastforce simp: blocks_owned_def)

lemma blocks_owned_subset: "blocks_owned s ps M \<Longrightarrow> set qs \<subseteq> set ps \<Longrightarrow> distinct qs \<Longrightarrow> blocks_owned s qs M"
  unfolding blocks_owned_def by blast

lemma bitmap_apart_pool: "same_pool (k_buddy s) b \<Longrightarrow> bitmap_apart (s\<lparr>k_buddy := b\<rparr>) = bitmap_apart s"
  by (simp add: bitmap_apart_def same_pool_def)

text \<open>The initial frame lies in the stack, and the stack in the pool.\<close>

lemma frame_inv:
  assumes inv: "mm_inv (mm_of s) L T F" and ap: "bitmap_apart s" and p: "p = at (k_buddy s) r + 24"
    and room: "r + unat sz + 24 \<le> unat (pool_size (k_buddy s))" and len: "8 * length vs \<le> unat sz"
  shows "mm_inv (mm_of (set_mem (snd (fold push64 vs (p + sz, k_mem s))) s)) L T F"
proof (rule mm_inv_set_mem [OF inv])
  let ?pmm = "ks_pmm (vs_slab s)"
  fix i
  assume i: "i < unat (total_pages ?pmm)"
  have "bitmap ?pmm + of_nat i div 8 \<noteq> p + sz - of_nat (Suc j)" if "j < 8 * length vs" for j
  proof -
    have le: "Suc j \<le> unat sz" using that len by simp
    have "of_nat (r + 24 + (unat sz - Suc j)) + of_nat (Suc j) = (of_nat (r + 24 + unat sz) :: u64)"
      unfolding of_nat_add [symmetric] using le by simp
    then have "p + sz - of_nat (Suc j) = pool_start (k_buddy s) + of_nat (r + 24 + (unat sz - Suc j))"
      by (simp add: p at_def algebra_simps)
    moreover have "r + 24 + (unat sz - Suc j) < unat (pool_size (k_buddy s))" using room le by linarith
    ultimately show ?thesis using ap i unfolding bitmap_apart_def by metis
  qed
  then show "page_used ?pmm (snd (fold push64 vs (p + sz, k_mem s))) i = page_used ?pmm (k_mem s) i"
    unfolding page_used_def bitmap_test_def by (subst push_fold(2)) auto
qed


section \<open>Creating and reaping threads\<close>

definition new_thread :: "u64 \<Rightarrow> string option \<Rightarrow> u64 \<Rightarrow> u64 \<Rightarrow> u64 \<Rightarrow> u64 \<Rightarrow> u64 \<Rightarrow> 'a kernel_scheme \<Rightarrow> thread" where
  "new_thread now name bottom sz cr3 sp c s = zero_thread\<lparr>th_id := next_tid s, th_cr3 := cr3, th_stack_bottom := bottom, th_stack_size := sz,
     th_state := THREAD_RUNNING, th_exit_code := 0, th_parent_id := (if c = NULL then 0 else th_id (threads s c)),
     th_cwd := (if c = NULL then NULL else th_cwd (threads s c)), th_start_time := now,
     th_name := (case name of Some nm \<Rightarrow> take 255 nm | None \<Rightarrow> ''unnamed''), th_rsp := sp,
     th_cred := \<lparr>cr_uid = 0, cr_gid = 0, cr_euid = 0, cr_egid = 0\<rparr>, th_cap := 0\<rparr>"

lemma sched_add_thread_eq:
  assumes "k_kmalloc 4096 s = (t, s2)" and "rtc_get_unix_time cmos = Some now" and "current_thread s2 \<noteq> t"
    and "fold push64 (initial_frame bottom sz entry) (bottom + sz, k_mem s2) = (sp, m)"
  shows "sched_add_thread cmos name entry bottom sz cr3 s = map_option (Pair t)
    (enqueue t ((set_mem m s2)\<lparr>threads := (threads s2)(t := new_thread now name bottom sz cr3 sp (current_thread s2) s2), next_tid := next_tid s2 + 1\<rparr>))"
proof -
  have "Option.bind x (\<lambda>s. Some (t, s)) = map_option (Pair t) x" for x :: "'a kernel_scheme option" by (cases x) simp_all
  then show ?thesis using assms
    by (cases s2) (simp add: sched_add_thread_def Let_def upd_thread_def new_thread_def set_mem_def k_mem_def)
qed

lemma word_less_Suc: "(x :: u64) \<noteq> - 1 \<Longrightarrow> x < x + 1"
proof -
  assume "x \<noteq> - 1"
  then have "unat x \<noteq> unat (- 1 :: u64)" unfolding word_unat_eq_iff .
  moreover have "unat (- 1 :: u64) = 2 ^ 64 - 1" by (simp add: unsigned_minus_1_eq_mask mask_eq_exp_minus_1)
  ultimately have "unat x \<noteq> 2 ^ 64 - 1" by metis
  with unat_u64_bound [of x] have "unat x + 1 < 2 ^ 64" by linarith
  then have "unat x + unat (1 :: u64) < 2 ^ 64" by simp
  from unat_add_u64 [OF this] show "x < x + 1" by (simp add: word_less_nat_alt)
qed

lemma ids_ok_snoc:
  assumes ids: "ids_ok s ts" and tid: "next_tid s \<noteq> - 1" and s': "next_tid s' = next_tid s + 1"
    "\<And>u. u \<in> set ts \<Longrightarrow> th_id (threads s' u) = th_id (threads s u) \<and> th_parent_id (threads s' u) = th_parent_id (threads s u)"
    and t: "th_id (threads s' t) = next_tid s" "th_parent_id (threads s' t) < next_tid s"
  shows "ids_ok s' (ts @ [t])"
proof -
  have "map (\<lambda>t. th_id (threads s' t)) (ts @ [t]) = map (\<lambda>t. th_id (threads s t)) ts @ [next_tid s]" using s'(2) t(1) by simp
  moreover have "distinct (map (\<lambda>t. th_id (threads s t)) ts @ [next_tid s])" using ids by (auto simp: ids_ok_def)
  ultimately have "distinct (map (\<lambda>t. th_id (threads s' t)) (ts @ [t]))" by metis
  moreover have "th_id (threads s u) < next_tid s + 1" if "u \<in> set ts" for u
    using ids that word_less_Suc [OF tid] by (auto simp: ids_ok_def)
  moreover have "0 < next_tid s + 1" using word_less_Suc [OF tid] ids by (auto simp: ids_ok_def)
  moreover have "th_parent_id (threads s u) < th_id (threads s u)" if "u \<in> set ts" for u using ids that by (simp add: ids_ok_def)
  ultimately show ?thesis using s' t word_less_Suc [OF tid] unfolding ids_ok_def by (simp only: set_append ball_Un) simp
qed

lemma sched_kthread_inv:
  assumes inv: "sched_inv s ts L T F" and stack: "k_kmalloc 16384 s = (stk, s1)" "stk \<noteq> NULL" and th: "k_kmalloc 4096 s1 = (t, s2)" "t \<noteq> NULL"
    and tid: "next_tid s \<noteq> - 1" and now: "rtc_get_unix_time cmos = Some now"
  shows "\<exists>s' T' F'. sched_kthread cmos name entry cap uid gid s = Some (next_tid s, s') \<and> sched_inv s' (ts @ [t]) L T' F' \<and>
    next_tid s' = next_tid s + 1 \<and> th_id (threads s' t) = next_tid s \<and> running s' t \<and> th_cap (threads s' t) = cap \<and>
    th_cred (threads s' t) = \<lparr>cr_uid = uid, cr_gid = gid, cr_euid = uid, cr_egid = gid\<rparr> \<and>
    th_parent_id (threads s' t) = (if current_thread s = NULL then 0 else th_id (threads s (current_thread s))) \<and>
    (\<forall>u\<in>set ts. threads s' u = (threads s u)\<lparr>th_next := next_of s' u\<rparr>) \<and>
    current_thread s' = current_thread s \<and> k_buddy s' = k_buddy s2"
proof -
  have i: "queue_ok s ts" "mm_inv (mm_of s) L T F" "blocks_owned s (owned s ts) (live T F)" "bitmap_apart s" "ids_ok s ts"
    "k_cr3 s = pml4_phys (k_kernel_context s)" using inv by (simp_all add: sched_inv_def)
  obtain T1 F1 b1 r1 where s1: "s1 = s\<lparr>k_buddy := b1\<rparr>" "same_pool (k_buddy s) b1" "mm_inv (mm_of s1) L T1 F1"
      "blocks_owned s1 (stk # owned s ts) (live T1 F1)" "stk = at (k_buddy s) r1 + 24" "r1 + 16384 + 24 \<le> unat (pool_size (k_buddy s))"
    using alloc_owned [OF i(2,3) _ _ stack] by auto
  obtain T2 F2 b2 where s2: "s2 = s1\<lparr>k_buddy := b2\<rparr>" "same_pool (k_buddy s1) b2" "mm_inv (mm_of s2) L T2 F2"
      "blocks_owned s2 (t # stk # owned s ts) (live T2 F2)"
    using alloc_owned [OF s1(3,4) _ _ th] by auto
  have s2': "s2 = s\<lparr>k_buddy := b2\<rparr>" "same_pool (k_buddy s) b2" using s1(1,2) s2(1,2) by (simp_all add: same_pool_def)
  have at2: "at b2 = at (k_buddy s)" using s2'(2) by (intro at_cong) (simp add: same_pool_def)
  let ?fr = "initial_frame stk 16384 entry"
  obtain sp m where fr: "fold push64 ?fr (stk + 16384, k_mem s2) = (sp, m)" by fastforce
  have mem: "mm_inv (mm_of (set_mem m s2)) L T2 F2"
    using frame_inv [OF s2(3) _ _ _ , of stk r1 16384 ?fr] fr i(4) s2' s1(5,6) at2
    by (simp add: bitmap_apart_pool same_pool_def initial_frame_def)
  let ?c = "current_thread s"
  define rec where "rec = new_thread now name stk 16384 (k_cr3 s) sp ?c s2"
  define s3 where "s3 = (set_mem m s2)\<lparr>threads := (threads s2)(t := rec), next_tid := next_tid s2 + 1\<rparr>"
  have t: "t \<notin> set ts" "t \<noteq> stk" using s2(4) owned_mem [of t ts s] by (auto simp: blocks_owned_def)
  have cur: "?c \<noteq> t" using inv t(1) th(2) by (auto simp: sched_inv_def)
  have q3: "queue_ok s3 ts" using i(1) t(1) by (subst queue_ok_cong [of _ s]) (auto simp: s3_def s2' set_mem_def)
  obtain s4 where s4: "enqueue t s3 = Some s4" "queue_ok s4 (ts @ [t])" "relinked s3 s4"
    using enqueue_ok [OF q3 t(1) th(2)] by blast
  note r4 = relinked_field [OF s4(3)]
  have f3: "threads s3 = (threads s)(t := rec)" "next_tid s3 = next_tid s + 1" "mm_of s3 = mm_of (set_mem m s2)"
      "current_thread s3 = ?c" "k_cr3 s3 = k_cr3 s" "k_kernel_context s3 = k_kernel_context s"
    by (simp_all add: s3_def mm_of_def set_mem_def s2')
  let ?s' = "upd_thread t (\<lambda>r. r\<lparr>th_cap := cap, th_cred := \<lparr>cr_uid = uid, cr_gid = gid, cr_euid = uid, cr_egid = gid\<rparr>\<rparr>) s4"
  have "sched_add_thread cmos name entry stk 16384 (k_cr3 s1) s1 = Some (t, s4)"
    using sched_add_thread_eq [OF th(1) now _ fr] cur s4(1) by (simp add: s2' s1(1) s3_def rec_def)
  then have run: "sched_kthread cmos name entry cap uid gid s = Some (next_tid s, ?s')"
    using stack(1) th(2) r4(1) [of t] f3(1) by (simp add: sched_kthread_def Let_def rec_def new_thread_def s2')
  have old: "threads ?s' u = (threads s u)\<lparr>th_next := next_of ?s' u\<rparr>" if "u \<in> set ts" for u
  proof -
    have "u \<noteq> t" using that t(1) by blast
    moreover have "threads s4 u = (threads s3 u)\<lparr>th_next := next_of s4 u\<rparr>" using s4(3) unfolding relinked_def by blast
    ultimately show ?thesis using f3(1) by simp
  qed
  have new: "th_id (threads ?s' t) = next_tid s" "th_parent_id (threads ?s' t) = (if ?c = NULL then 0 else th_id (threads s ?c))"
      "running ?s' t" "th_stack_bottom (threads ?s' t) = stk" "th_cr3 (threads ?s' t) = k_cr3 s"
    using r4(1-7) [of t] f3(1) by (simp_all add: rec_def new_thread_def s2')
  have eq: "mm_of ?s' = mm_of (set_mem m s2)" using r4(10) f3(3) by simp
  then have kb: "k_buddy ?s' = b2" "ks_pmm (vs_slab ?s') = ks_pmm (vs_slab s)" using mm_of_fields [OF eq] by (simp_all add: set_mem_def s2')
  have "queue_ok ?s' (ts @ [t])" using s4(2) by (subst queue_ok_cong [of _ s4]) simp_all
  moreover have "current_thread ?s' = NULL \<or> current_thread ?s' \<in> set (ts @ [t])" using inv r4(8) f3(4) by (auto simp: sched_inv_def)
  moreover have "ids_ok ?s' (ts @ [t])"
  proof (rule ids_ok_snoc [OF i(5) tid])
    show "th_parent_id (threads ?s' t) < next_tid s"
      using new(2) inv i(5) by (auto simp: sched_inv_def ids_ok_def)
    show "th_id (threads ?s' u) = th_id (threads s u) \<and> th_parent_id (threads ?s' u) = th_parent_id (threads s u)" if "u \<in> set ts" for u
      by (subst (1 2) old [OF that]) simp
  qed (use r4(9) f3(2) new(1) in simp_all)
  moreover have "owned ?s' ts = owned s ts" by (rule owned_cong) (subst old, simp_all)
  then have "blocks_owned ?s' (owned ?s' (ts @ [t])) (live T2 F2)"
    using s2(4) new(4) t(2) kb(1) s2'(1) by (auto simp: blocks_owned_def)
  moreover have "bitmap_apart ?s'" using i(4) kb s2'(2) by (simp add: bitmap_apart_def same_pool_def)
  moreover have "k_cr3 ?s' = k_cr3 s" "k_kernel_context ?s' = k_kernel_context s"
    using r4(12,13) f3(5,6) by (simp_all add: upd_thread_def)
  moreover have "th_cr3 (threads ?s' u) = pml4_phys (k_kernel_context s)" if "u \<in> set (ts @ [t])" for u
  proof (cases "u = t")
    case False
    then have u: "u \<in> set ts" using that by simp
    show ?thesis by (subst old [OF u]) (use inv u in \<open>simp add: sched_inv_def\<close>)
  qed (use new(5) i(6) in simp)
  ultimately have "sched_inv ?s' (ts @ [t]) L T2 F2" using mem eq i(6) unfolding sched_inv_def by metis
  then show ?thesis using run new old r4(8,9) f3(2,4) kb(1) s2'(1) by (intro exI [of _ ?s'] exI [of _ T2] exI [of _ F2]) simp
qed


lemma owned_remove1:
  assumes "distinct (owned s ts)" and "t \<in> set ts"
  shows "distinct (t # th_stack_bottom (threads s t) # owned s (remove1 t ts))"
    "set (t # th_stack_bottom (threads s t) # owned s (remove1 t ts)) = set (owned s ts)"
proof -
  obtain as bs where ts: "ts = as @ t # bs" "t \<notin> set as" using split_list_first [OF assms(2)] by blast
  then have "remove1 t ts = as @ bs" by (simp add: remove1_append)
  then show "distinct (t # th_stack_bottom (threads s t) # owned s (remove1 t ts))"
    "set (t # th_stack_bottom (threads s t) # owned s (remove1 t ts)) = set (owned s ts)"
    using assms(1) ts(1) by auto
qed

lemma ids_ok_subset:
  assumes "ids_ok s ts" and "distinct us" and "set us \<subseteq> set ts" and "next_tid s' = next_tid s"
    and "\<And>u. u \<in> set us \<Longrightarrow> th_id (threads s' u) = th_id (threads s u) \<and> th_parent_id (threads s' u) = th_parent_id (threads s u)"
  shows "ids_ok s' us"
proof -
  have "inj_on (\<lambda>t. th_id (threads s t)) (set us)"
    using assms(1,3) unfolding ids_ok_def distinct_map by (meson inj_on_subset)
  then have "inj_on (\<lambda>t. th_id (threads s' t)) (set us)" using assms(5) by (simp add: inj_on_def)
  then show ?thesis using assms by (auto simp: ids_ok_def distinct_map)
qed

text \<open>Reaping a kernel thread gives its two blocks back.\<close>

lemma reap_inv:
  assumes inv: "sched_inv s ts L T F" and t: "t \<in> set ts" "t \<noteq> current_thread s"
  shows "\<exists>s' T' F' r q. reap t s = Some s' \<and> sched_inv s' (remove1 t ts) L T' F' \<and>
    t = at (k_buddy s) r + 24 \<and> th_stack_bottom (threads s t) = at (k_buddy s) q + 24 \<and> r \<noteq> q \<and> {r, q} \<subseteq> dom (live T F) \<and>
    live T' F' = (live T F)(q := None, r := None) \<and>
    current_thread s' = current_thread s \<and> (\<forall>u\<in>set (remove1 t ts). threads s' u = (threads s u)\<lparr>th_next := next_of s' u\<rparr>)"
proof -
  have i: "queue_ok s ts" "mm_inv (mm_of s) L T F" "blocks_owned s (owned s ts) (live T F)" "bitmap_apart s" "ids_ok s ts"
    using inv by (simp_all add: sched_inv_def)
  let ?s1 = "upd_thread t (\<lambda>r. r\<lparr>th_state := THREAD_DEAD\<rparr>) s"
  have "queue_ok ?s1 ts" using i(1) by (subst queue_ok_cong [of _ s]) auto
  then obtain s2 where s2: "dequeue t ?s1 = Some s2" "queue_ok s2 (remove1 t ts)" "relinked ?s1 s2"
    using dequeue_ok t(1) by blast
  note r2 = relinked_field [OF s2(3)]
  let ?stk = "th_stack_bottom (threads s t)" and ?ts = "remove1 t ts"
  have d: "distinct (owned s ts)" "distinct ts" using i(1,3) queue_okD(2) by (auto simp: blocks_owned_def)
  note own = owned_remove1 [OF d(1) t(1)]
  have u: "u \<in> set ts" "u \<noteq> t" if "u \<in> set ?ts" for u using that d(2) by (simp_all add: set_remove1_eq)
  have m2: "mm_of s2 = mm_of s" using r2(10) by simp
  then have k2: "k_buddy s2 = k_buddy s" "vs_slab s2 = vs_slab s" using mm_of_fields by blast+
  have "blocks_owned s (?stk # t # owned s ?ts) (live T F)"
    by (rule blocks_owned_subset [OF i(3)]) (use own in auto)
  then have "blocks_owned s2 (?stk # t # owned s ?ts) (live T F)" using k2(1) by (simp add: blocks_owned_def)
  from free_owned [OF _ this] i(2) m2 obtain T3 F3 b3 q where f3: "k_kfree ?stk s2 = s2\<lparr>k_buddy := b3\<rparr>" "same_pool (k_buddy s2) b3"
      "mm_inv (mm_of (s2\<lparr>k_buddy := b3\<rparr>)) L T3 F3" "blocks_owned (s2\<lparr>k_buddy := b3\<rparr>) (t # owned s ?ts) (live T3 F3)"
      "?stk = at (k_buddy s2) q + 24" "live T F q \<noteq> None" "live T3 F3 = (live T F)(q := None)"
    by metis
  from free_owned [OF f3(3,4)] obtain T4 F4 b4 r where f4: "k_kfree t (s2\<lparr>k_buddy := b3\<rparr>) = s2\<lparr>k_buddy := b4\<rparr>" "same_pool b3 b4"
      "mm_inv (mm_of (s2\<lparr>k_buddy := b4\<rparr>)) L T4 F4" "blocks_owned (s2\<lparr>k_buddy := b4\<rparr>) (owned s ?ts) (live T4 F4)"
      "t = at b3 r + 24" "live T3 F3 r \<noteq> None" "live T4 F4 = (live T3 F3)(r := None)"
    by auto
  let ?s' = "s2\<lparr>k_buddy := b4\<rparr>"
  have cr3: "th_cr3 (threads s2 t) = pml4_phys (vmm_get_kernel_context (vmm_of s2))"
    using inv t(1) r2(5) [of t] r2(13) by (simp add: sched_inv_def vmm_get_kernel_context_def vmm_of_def upd_thread_def)
  have reap: "reap t s = Some ?s'"
    using s2(1) cr3 r2(6) [of t] f3(1) f4(1) by (simp add: reap_def Let_def)
  have at: "at b3 = at (k_buddy s)" using f3(2) k2 by (intro at_cong) (simp add: same_pool_def)
  have old: "threads ?s' w = (threads s w)\<lparr>th_next := next_of ?s' w\<rparr>" if "w \<in> set ?ts" for w
  proof -
    have "threads s2 w = (threads ?s1 w)\<lparr>th_next := next_of s2 w\<rparr>" using s2(3) unfolding relinked_def by blast
    then show ?thesis using u(2) [OF that] by simp
  qed
  have "queue_ok ?s' ?ts" using s2(2) by (subst queue_ok_cong [of _ s2]) simp_all
  moreover have "current_thread ?s' = current_thread s" using r2(8) by simp
  moreover have "current_thread s = NULL \<or> current_thread s \<in> set ?ts" using inv t(2) by (auto simp: sched_inv_def)
  moreover have "ids_ok ?s' ?ts"
  proof (rule ids_ok_subset [OF i(5)])
    show "th_id (threads ?s' w) = th_id (threads s w) \<and> th_parent_id (threads ?s' w) = th_parent_id (threads s w)" if "w \<in> set ?ts" for w
      by (subst (1 2) old [OF that]) simp
  qed (use u d(2) r2(9) in \<open>auto intro: distinct_remove1\<close>)
  moreover have "owned ?s' ?ts = owned s ?ts" by (rule owned_cong) (subst old, simp_all)
  moreover have "bitmap_apart ?s'" using i(4) k2 f3(2) f4(2) by (simp add: bitmap_apart_def same_pool_def)
  moreover have "k_kernel_context ?s' = k_kernel_context s" "k_cr3 ?s' = k_cr3 s" using r2(12,13) by (simp_all add: upd_thread_def)
  moreover have "th_cr3 (threads ?s' w) = pml4_phys (k_kernel_context s)" if "w \<in> set ?ts" for w
    by (subst old [OF that]) (use inv u(1) [OF that] in \<open>simp add: sched_inv_def\<close>)
  moreover have "k_cr3 s = pml4_phys (k_kernel_context s)" using inv by (simp add: sched_inv_def)
  ultimately have "sched_inv ?s' ?ts L T4 F4" using f4(3,4) unfolding sched_inv_def by metis
  moreover have "r \<noteq> q" "{r, q} \<subseteq> dom (live T F)" "live T4 F4 = (live T F)(q := None, r := None)"
    using f3(6,7) f4(6,7) by (auto split: if_splits)
  ultimately show ?thesis using reap old f3(5) f4(5) at k2 \<open>current_thread ?s' = _\<close> by metis
qed


lemma sched_waitpid_eq:
  assumes q: "queue_ok s ts" and c: "current_thread s \<noteq> NULL"
  shows "sched_waitpid pid s =
    (case filter (\<lambda>t. th_id (threads s t) = pid \<and> th_parent_id (threads s t) = th_id (threads s (current_thread s))) ts of
       [] \<Rightarrow> Some (WaitFail, s)
     | t # _ \<Rightarrow> if th_state (threads s t) = THREAD_ZOMBIE
         then map_option (Pair (WaitReaped (ucast pid) (th_exit_code (threads s t)))) (reap t s) else Some (WaitAgain, s))"
proof (cases "ts = []")
  case True
  then show ?thesis using queue_okD(5) [OF q] c by (simp add: sched_waitpid_def)
next
  case False
  have "t \<noteq> NULL" if "filter P ts = t # us" for P t us
  proof -
    have "t \<in> set (filter P ts)" using that by simp
    then show ?thesis using queue_okD(3) [OF q] by auto
  qed
  then show ?thesis using queue_okD(5) [OF q] c False find_thread_queue [OF q False]
    by (simp add: sched_waitpid_def first_def map_option_case split: list.split option.split)
qed

text \<open>The thread that the current one waits for.\<close>

definition waits_for :: "'a kernel_scheme \<Rightarrow> u64 list \<Rightarrow> u64 \<Rightarrow> u64 \<Rightarrow> bool" where
  "waits_for s ts pid t \<longleftrightarrow> t \<in> set ts \<and> th_id (threads s t) = pid \<and> th_parent_id (threads s t) = th_id (threads s (current_thread s))"

lemma waitpid_none:
  assumes inv: "sched_inv s ts L T F" and c: "current_thread s \<noteq> NULL" and "\<nexists>t. waits_for s ts pid t"
  shows "sched_waitpid pid s = Some (WaitFail, s)"
proof -
  have q: "queue_ok s ts" using inv by (simp add: sched_inv_def)
  have "filter (\<lambda>t. th_id (threads s t) = pid \<and> th_parent_id (threads s t) = th_id (threads s (current_thread s))) ts = []"
    using assms(3) by (auto simp: filter_empty_conv waits_for_def)
  then show ?thesis by (simp add: sched_waitpid_eq [OF q c])
qed

lemma waitpid_child:
  assumes inv: "sched_inv s ts L T F" and w: "waits_for s ts pid t" and c: "current_thread s \<noteq> NULL"
  shows "sched_waitpid pid s =
      (if th_state (threads s t) = THREAD_ZOMBIE then map_option (Pair (WaitReaped (ucast pid) (th_exit_code (threads s t)))) (reap t s)
       else Some (WaitAgain, s)) \<and> t \<noteq> current_thread s"
proof -
  let ?P = "\<lambda>t. th_id (threads s t) = pid \<and> th_parent_id (threads s t) = th_id (threads s (current_thread s))"
  have t: "t \<in> set ts" "?P t" using w by (simp_all add: waits_for_def)
  have q: "queue_ok s ts" and ids: "ids_ok s ts" using inv by (simp_all add: sched_inv_def)
  obtain as bs where ts: "ts = as @ t # bs" using t(1) by (meson split_list)
  then have "filter ?P as = []" using ids t(2) by (auto simp: ids_ok_def filter_empty_conv image_iff)
  then have "filter ?P ts = t # filter ?P bs" using ts t(2) by simp
  moreover have "th_parent_id (threads s t) < th_id (threads s t)" using ids t(1) by (simp add: ids_ok_def)
  then have "t \<noteq> current_thread s" using t(2) by auto
  ultimately show ?thesis by (simp add: sched_waitpid_eq [OF q c])
qed

lemma waitpid_zombie:
  assumes inv: "sched_inv s ts L T F" and w: "waits_for s ts pid t" and c: "current_thread s \<noteq> NULL" and z: "th_state (threads s t) = THREAD_ZOMBIE"
  shows "\<exists>s' T' F' r q. sched_waitpid pid s = Some (WaitReaped (ucast pid) (th_exit_code (threads s t)), s') \<and> sched_inv s' (remove1 t ts) L T' F' \<and>
        t = at (k_buddy s) r + 24 \<and> th_stack_bottom (threads s t) = at (k_buddy s) q + 24 \<and> r \<noteq> q \<and> {r, q} \<subseteq> dom (live T F) \<and>
        live T' F' = (live T F)(q := None, r := None) \<and> current_thread s' = current_thread s \<and>
        (\<forall>u\<in>set (remove1 t ts). threads s' u = (threads s u)\<lparr>th_next := next_of s' u\<rparr>)"
proof -
  note wc = waitpid_child [OF inv w c]
  have "t \<in> set ts" using w by (simp add: waits_for_def)
  with reap_inv [OF inv this] wc z show ?thesis by auto
qed

lemma sched_waitpid_inv:
  assumes inv: "sched_inv s ts L T F"
  shows "\<exists>w s' ts' T' F'. sched_waitpid pid s = Some (w, s') \<and> sched_inv s' ts' L T' F'"
proof (cases "current_thread s = NULL")
  case True
  then show ?thesis using inv by (simp add: sched_waitpid_def) blast
next
  case False
  let ?P = "\<lambda>t. th_id (threads s t) = pid \<and> th_parent_id (threads s t) = th_id (threads s (current_thread s))"
  have q: "queue_ok s ts" using inv by (simp add: sched_inv_def)
  show ?thesis
  proof (cases "filter ?P ts")
    case Nil
    then show ?thesis using inv by (simp add: sched_waitpid_eq [OF q False]) blast
  next
    case (Cons t us)
    then have "t \<in> set (filter ?P ts)" by simp
    then have w: "waits_for s ts pid t" by (simp add: waits_for_def)
    show ?thesis
    proof (cases "th_state (threads s t) = THREAD_ZOMBIE")
      case True
      then show ?thesis using waitpid_zombie [OF inv w False] by blast
    next
      case zombie: False
      then show ?thesis using waitpid_child [OF inv w False] inv by auto
    qed
  qed
qed

section \<open>The scheduler as a transition system\<close>

inductive sched_step :: "(u8 \<Rightarrow> u8) \<Rightarrow> 'a kernel_scheme \<Rightarrow> 'a kernel_scheme \<Rightarrow> bool" for cmos where
  step_tick: "sched_tick rsp s = Some (r, s') \<Longrightarrow> sched_step cmos s s'"
| step_exit: "sched_step cmos s (sched_exit status s)"
| step_kill: "sched_kill pid sig s = Some (x, s') \<Longrightarrow> sched_step cmos s s'"
| step_waitpid: "sched_waitpid pid s = Some (w, s') \<Longrightarrow> sched_step cmos s s'"
| step_kthread: "sched_kthread cmos name entry cap uid gid s = Some (tid, s') \<Longrightarrow>
    sched_step cmos s s'"

text \<open>A thread is created without room when there is no memory for its stack or its structure, or the ids are used up.  The
  code does not check for this, and the invariant is lost.  The steps with room are all others.\<close>

definition no_room :: "'a kernel_scheme \<Rightarrow> bool" where
  "no_room s \<longleftrightarrow> (let (stack, s1) = k_kmalloc 16384 s in stack = NULL \<or> fst (k_kmalloc 4096 s1) = NULL) \<or> next_tid s = - 1"

definition created :: "(u8 \<Rightarrow> u8) \<Rightarrow> 'a kernel_scheme \<Rightarrow> 'a kernel_scheme \<Rightarrow> bool" where
  "created cmos s s' \<longleftrightarrow> (\<exists>name entry cap uid gid tid. sched_kthread cmos name entry cap uid gid s = Some (tid, s'))"

definition room_step :: "(u8 \<Rightarrow> u8) \<Rightarrow> 'a kernel_scheme \<Rightarrow> 'a kernel_scheme \<Rightarrow> bool" where
  "room_step cmos s s' \<longleftrightarrow> sched_step cmos s s' \<and> (created cmos s s' \<longrightarrow> \<not> no_room s)"

lemma room_step_inv:
  assumes step: "room_step cmos s s'" and inv: "sched_inv s ts L T F"
  shows "\<exists>ts' T' F'. sched_inv s' ts' L T' F'"
proof -
  have "sched_step cmos s s'" using step by (simp add: room_step_def)
  then show ?thesis
  proof cases
    case (step_tick rsp r)
    then show ?thesis using sched_tick_inv [OF inv, of rsp] by auto
  next
    case (step_exit status)
    then show ?thesis using sched_exit_inv [OF inv] by blast
  next
    case (step_kill pid sig x)
    then show ?thesis using sched_kill_inv [OF inv, of pid sig] by auto
  next
    case (step_waitpid pid w)
    then show ?thesis using sched_waitpid_inv [OF inv, of pid] by auto
  next
    case (step_kthread name entry cap uid gid tid)
    obtain stk s1 where stk: "k_kmalloc 16384 s = (stk, s1)" by fastforce
    obtain t s2 where t: "k_kmalloc 4096 s1 = (t, s2)" by fastforce
    have "\<not> no_room s" using step step_kthread unfolding room_step_def created_def by blast
    then have nn: "stk \<noteq> NULL" "t \<noteq> NULL" "next_tid s \<noteq> - 1" using stk t by (simp_all add: no_room_def)
    obtain now where now: "rtc_get_unix_time cmos = Some now"
      using step_kthread by (auto simp: sched_kthread_def sched_add_thread_def Let_def split: prod.splits Option.bind_splits)
    show ?thesis using sched_kthread_inv [OF inv stk nn(1) t nn(2,3) now, of name entry cap uid gid] step_kthread by auto
  qed
qed

lemma room_reach_inv:
  assumes "(room_step cmos)\<^sup>*\<^sup>* s s'" and "sched_inv s ts L T F"
  shows "\<exists>ts' T' F'. sched_inv s' ts' L T' F'"
  using assms by (induction rule: rtranclp_induct) (blast dest: room_step_inv)+


section \<open>A concrete system\<close>

declare buddy_init_loop.simps [code]

definition pool_example :: kbuddy where
  "pool_example = the (kmem_buddy_init 131072 131072 kbuddy_boot)"

definition kernel_example :: kernel where
  "kernel_example = \<lparr>vs_slab = mm_slab mm_example, vs_nodes = vs_nodes vfs_example, vfs_node_cache = vfs_node_cache vfs_example,
     fs_root = fs_root vfs_example, filesystems = [], k_buddy = pool_example, k_mallocs = kmallocs mm_example, k_tab = (\<lambda>_. 0),
     k_cr3 = 0x1000, k_kernel_context = \<lparr>pml4_phys = 0x1000, pml4_virt = 0x1000\<rparr>, k_current_context = None,
     threads = (\<lambda>_. zero_thread), current_thread = NULL, thread_queue = NULL, next_tid = 1\<rparr>"

definition clock_example :: "u8 \<Rightarrow> u8" where
  "clock_example = (\<lambda>r. if r = 0x09 then 0x24 else if r = 0x08 then 0x02 else if r = 0x07 then 0x29 else
     if r = 0x04 then 0x12 else if r = 0x0B then 0x02 else 0)"

lemma pool_example_inv:
  "\<exists>T. buddy_inv pool_example T (dom T)" "pool_start pool_example = 131072" "pool_size pool_example = 131072"
proof -
  have "\<exists>s' T. kmem_buddy_init 131072 131072 kbuddy_boot = Some s' \<and> buddy_inv s' T (dom T) \<and> pool_start s' = 131072 \<and> pool_size s' = 131072"
    by (rule buddy_init_inv [where k = 17]) simp_all
  then show "\<exists>T. buddy_inv pool_example T (dom T)" "pool_start pool_example = 131072" "pool_size pool_example = 131072"
    by (auto simp: pool_example_def)
qed

lemma pool_example_allocs:
  "let (p1, b) = kmem_buddy_alloc 16384 pool_example; (p2, b) = kmem_buddy_alloc 4096 b; (p3, b) = kmem_buddy_alloc 16384 b;
       (p4, b) = kmem_buddy_alloc 4096 b
   in p1 \<noteq> NULL \<and> p2 \<noteq> NULL \<and> p3 \<noteq> NULL \<and> p4 \<noteq> NULL"
  by code_simp

lemma clock_example_time: "\<exists>now. rtc_get_unix_time clock_example = Some now"
proof -
  have "rtc_get_unix_time clock_example = Some (of_nat (civil_seconds 2024 2 29 12 0 0))"
    unfolding clock_example_def by (rule rtc_unix_time) (simp_all add: shows_time_def time_ok_def enc_def Let_def)
  then show ?thesis by blast
qed


lemma kernel_example_inv: "\<exists>T F. sched_inv kernel_example [] [65576 \<mapsto> {}] T F"
proof -
  obtain T where T: "buddy_inv pool_example T (dom T)" using pool_example_inv(1) by blast
  have "mm_of kernel_example = mm_example\<lparr>mm_buddy := pool_example\<rparr>" by (simp add: mm_of_def kernel_example_def)
  then have "mm_inv (mm_of kernel_example) [65576 \<mapsto> {}] T (dom T)" using mm_inv_buddy [OF mm_example_inv T] by simp
  moreover have "bitmap_apart kernel_example"
  proof -
    have "(4096 :: u64) + of_nat p div 8 \<noteq> 131072 + of_nat j" if p: "p < 16" and j: "j < 131072" for p j
    proof -
      have "unat (131072 + of_nat j :: u64) = 131072 + j" using j by (subst unat_add_u64) (simp_all add: unat_of_nat)
      moreover have "unat (4096 + of_nat p div 8 :: u64) \<le> 4096 + p div 8"
        using p by (subst unat_add_u64) (simp_all add: unat_of_nat unat_div)
      moreover have "p div 8 < 2" using p by simp
      ultimately have "unat (4096 + of_nat p div 8 :: u64) < unat (131072 + of_nat j :: u64)" by linarith
      then show ?thesis by (metis less_irrefl)
    qed
    then show ?thesis by (simp add: bitmap_apart_def kernel_example_def pool_example_inv mm_example_def kslab_example_def pmm_example_def pmm_boot_def)
  qed
  ultimately have "sched_inv kernel_example [] [65576 \<mapsto> {}] T (dom T)"
    by (simp add: sched_inv_def queue_ok_def ring_def ids_ok_def blocks_owned_def) (simp add: kernel_example_def)
  then show ?thesis by blast
qed


lemma k_kmalloc_big:
  "2048 < sz \<Longrightarrow> k_kmalloc sz s = (let (p, b) = kmem_buddy_alloc sz (k_buddy s) in (p, s\<lparr>k_buddy := b\<rparr>))"
proof -
  assume "2048 < sz"
  then have "\<not> sz \<le> c" if "c \<le> 2048" for c using that by (meson not_le order_trans)
  then show ?thesis using \<open>2048 < sz\<close> by (auto simp: k_kmalloc_def kmalloc_def mm_of_def put_mm_def Let_def split: prod.split)
qed

lemma first_thread_example:
  "\<exists>t s T F. sched_kthread clock_example None 0x100000 0 0 0 kernel_example = Some (1, s) \<and> sched_inv s [t] [65576 \<mapsto> {}] T F \<and>
     next_tid s = 2 \<and> th_id (threads s t) = 1 \<and> running s t \<and> current_thread s = NULL \<and>
     (let (p3, b) = kmem_buddy_alloc 16384 (k_buddy s); (p4, b) = kmem_buddy_alloc 4096 b in p3 \<noteq> NULL \<and> p4 \<noteq> NULL)"
proof -
  obtain T F where inv: "sched_inv kernel_example [] [65576 \<mapsto> {}] T F" using kernel_example_inv by blast
  obtain now where now: "rtc_get_unix_time clock_example = Some now" using clock_example_time by blast
  obtain p1 b1 where b1: "kmem_buddy_alloc 16384 pool_example = (p1, b1)" by fastforce
  obtain p2 b2 where b2: "kmem_buddy_alloc 4096 b1 = (p2, b2)" by fastforce
  let ?s1 = "kernel_example\<lparr>k_buddy := b1\<rparr>" and ?s2 = "kernel_example\<lparr>k_buddy := b2\<rparr>"
  have a: "k_kmalloc 16384 kernel_example = (p1, ?s1)" using b1 by (simp add: k_kmalloc_big kernel_example_def)
  have b: "k_kmalloc 4096 ?s1 = (p2, ?s2)" using b2 by (simp add: k_kmalloc_big)
  have nn: "p1 \<noteq> NULL" "p2 \<noteq> NULL" "let (p3, b) = kmem_buddy_alloc 16384 b2; (p4, b) = kmem_buddy_alloc 4096 b in p3 \<noteq> NULL \<and> p4 \<noteq> NULL"
    using pool_example_allocs b1 b2 by (auto split: prod.splits)
  have tid: "next_tid kernel_example \<noteq> - 1" "next_tid kernel_example = 1" "current_thread kernel_example = NULL" by (simp_all add: kernel_example_def)
  from sched_kthread_inv [OF inv a nn(1) b nn(2) tid(1) now, of None "0x100000" 0 0 0] tid(2,3)
  obtain s T' F' where "sched_kthread clock_example None 0x100000 0 0 0 kernel_example = Some (1, s)" "sched_inv s [p2] [65576 \<mapsto> {}] T' F'"
      "next_tid s = 2" "th_id (threads s p2) = 1" "running s p2" "current_thread s = NULL" "k_buddy s = b2"
    by auto
  then show ?thesis using nn(3) by blast
qed

text \<open>A thread and its child, which has been killed.\<close>

lemma zombie_example:
  "\<exists>s t u T F. sched_inv (s :: kernel) [t, u] [65576 \<mapsto> {}] T F \<and> current_thread s = t \<and> running s t \<and> t \<noteq> NULL \<and> th_id (threads s u) = 2 \<and>
     th_parent_id (threads s u) = th_id (threads s t) \<and> th_state (threads s u) = THREAD_ZOMBIE \<and> th_exit_code (threads s u) = 137"
proof -
  obtain t s T F where s: "sched_inv (s :: kernel) [t] [65576 \<mapsto> {}] T F" "next_tid s = 2" "th_id (threads s t) = 1" "running s t" "current_thread s = NULL"
     "let (p3, b) = kmem_buddy_alloc 16384 (k_buddy s); (p4, b) = kmem_buddy_alloc 4096 b in p3 \<noteq> NULL \<and> p4 \<noteq> NULL"
    using first_thread_example by blast
  obtain now where now: "rtc_get_unix_time clock_example = Some now" using clock_example_time by blast
  let ?s = "s\<lparr>current_thread := t\<rparr>"
  have inv: "sched_inv ?s [t] [65576 \<mapsto> {}] T F" by (rule sched_inv_update [OF s(1)]) (simp_all add: mm_of_def)
  obtain p3 b3 where b3: "kmem_buddy_alloc 16384 (k_buddy s) = (p3, b3)" by fastforce
  obtain u b4 where b4: "kmem_buddy_alloc 4096 b3 = (u, b4)" by fastforce
  have a: "k_kmalloc 16384 ?s = (p3, ?s\<lparr>k_buddy := b3\<rparr>)" using b3 by (simp add: k_kmalloc_big)
  have b: "k_kmalloc 4096 (?s\<lparr>k_buddy := b3\<rparr>) = (u, ?s\<lparr>k_buddy := b4\<rparr>)" using b4 by (simp add: k_kmalloc_big)
  have nn: "p3 \<noteq> NULL" "u \<noteq> NULL" using s(6) b3 b4 by simp_all
  have t: "t \<noteq> NULL" using s(1) by (simp add: sched_inv_def queue_ok_def ring_def)
  have tid: "next_tid ?s \<noteq> - 1" using s(2) by simp
  from sched_kthread_inv [OF inv a nn(1) b nn(2) tid now, of None "0x100000" 0 0 0] s(2,3) t
  obtain s' T' F' where s': "sched_inv (s' :: kernel) [t, u] [65576 \<mapsto> {}] T' F'" "th_id (threads s' u) = 2" "running s' u" "th_parent_id (threads s' u) = 1"
      "threads s' t = (threads s t)\<lparr>th_next := next_of s' t\<rparr>" "current_thread s' = t"
    by auto
  have st: "th_id (threads s' t) = 1" "running s' t" using s(3,4) by (subst s'(5), simp)+
  have q: "queue_ok s' [t, u]" using s'(1) by (simp add: sched_inv_def)
  let ?z = "upd_thread u (\<lambda>r. r\<lparr>th_state := THREAD_ZOMBIE, th_exit_code := 128 + 9\<rparr>) s'"
  have "sched_kill 2 9 s' = Some (0, ?z)" using s'(2,3) st(1) by (simp add: sched_kill_eq [OF q])
  then have "sched_inv ?z [t, u] [65576 \<mapsto> {}] T' F'" using sched_kill_inv [OF s'(1), of 2 9] by auto
  moreover have "u \<noteq> t" using st(1) s'(2) by auto
  ultimately show ?thesis using s' st t by (intro exI [of _ ?z] exI [of _ t] exI [of _ u] exI [of _ T'] exI [of _ F']) simp
qed


section \<open>Properties\<close>

text \<open>C2: In a system of kernel threads, all on the page tables of the kernel, whatever sequence of timer ticks, exits,
  kills, waits and thread creations happens, as long as every thread is created with room: with
  memory for its stack and its structure and an id left, which the code does not check.  (Forks
  and new programs, which make address spaces, are not among the steps.)  The threads form one
  circular list from \<open>thread_queue\<close> on, with the current thread on it; their ids are distinct,
  smaller than \<open>next_tid\<close> and larger than their parents'; each owns its two live blocks of the
  buddy pool, its structure and its stack; and the allocators are well-formed.  In every state
  that is reached, the tick, the kill and the wait come to an end: none of their loops over the
  list runs forever.\<close>

theorem sched_reachable:
  assumes "(room_step cmos)\<^sup>*\<^sup>* s s'" and "sched_inv s ts L T F"
  shows "\<exists>ts' T' F'. sched_inv s' ts' L T' F' \<and> (\<forall>rsp. sched_tick rsp s' \<noteq> None) \<and> (\<forall>pid sig. sched_kill pid sig s' \<noteq> None) \<and>
    (\<forall>pid. sched_waitpid pid s' \<noteq> None)"
proof -
  obtain ts' T' F' where inv: "sched_inv s' ts' L T' F'" using room_reach_inv [OF assms] by blast
  moreover have "sched_tick rsp s' \<noteq> None" for rsp using sched_tick_inv [OF inv, of rsp] by auto
  moreover have "sched_kill pid sig s' \<noteq> None" for pid sig using sched_kill_inv [OF inv, of pid sig] by auto
  moreover have "sched_waitpid pid s' \<noteq> None" for pid using sched_waitpid_inv [OF inv, of pid] by auto
  ultimately show ?thesis by blast
qed

theorem sched_reachable_witness:
  "\<exists>s ts T F. sched_kthread clock_example None 0x100000 0 0 0 kernel_example = Some (1, s) \<and> sched_inv s ts [65576 \<mapsto> {}] T F"
proof -
  obtain T F where inv: "sched_inv kernel_example [] [65576 \<mapsto> {}] T F" using kernel_example_inv by blast
  obtain s where s: "sched_kthread clock_example None 0x100000 0 0 0 kernel_example = Some (1, s)" using first_thread_example by blast
  have "\<not> no_room kernel_example"
    using pool_example_allocs by (auto simp: no_room_def k_kmalloc_big kernel_example_def split: prod.splits)
  then have "room_step clock_example kernel_example s" using step_kthread [OF s] by (simp add: room_step_def)
  then show ?thesis using s sched_reachable [OF r_into_rtranclp inv] by blast
qed

text \<open>C23: The scheduler is a round robin: with \<open>n\<close> threads on the list, a running thread becomes the
  current one after at most \<open>n\<close> ticks, from whatever thread on the list is current now.\<close>

theorem sched_tick_round_robin:
  assumes "queue_ok s ts" and "current_thread s \<in> set ts" and "t \<in> set ts" and "running s t" and "length rsps = length ts"
  shows "\<exists>k s'. k < length ts \<and> ticks (take (Suc k) rsps) s = Some s' \<and> current_thread s' = t"
  using assms by (rule round_robin)

theorem sched_tick_round_robin_witness:
  "\<exists>k s'. k < 3 \<and> ticks (take (Suc k) [7, 8, 9]) (kernel_example\<lparr>threads := (\<lambda>_. zero_thread)(16 := zero_thread\<lparr>th_next := 32\<rparr>,
     32 := zero_thread\<lparr>th_next := 48, th_state := THREAD_ZOMBIE\<rparr>, 48 := zero_thread\<lparr>th_next := 16\<rparr>),
     thread_queue := 16, current_thread := 48\<rparr>) = Some s' \<and> current_thread s' = 16"
proof -
  let ?s = "kernel_example\<lparr>threads := (\<lambda>_. zero_thread)(16 := zero_thread\<lparr>th_next := 32\<rparr>,
     32 := zero_thread\<lparr>th_next := 48, th_state := THREAD_ZOMBIE\<rparr>, 48 := zero_thread\<lparr>th_next := 16\<rparr>),
     thread_queue := 16, current_thread := 48\<rparr>"
  have q: "queue_ok ?s [16, 32, 48]" by (simp add: queue_ok_def ring_def)
  have "\<exists>k s'. k < length [16, 32, 48 :: u64] \<and> ticks (take (Suc k) [7, 8, 9]) ?s = Some s' \<and> current_thread s' = 16"
    by (rule sched_tick_round_robin [OF q]) (simp_all add: zero_thread_def)
  moreover have "length [16, 32, 48 :: u64] = 3" by simp
  ultimately show ?thesis by metis
qed

text \<open>C22: \<open>sched_waitpid\<close> in the current thread of a system of kernel threads, which all use the page tables of the kernel
  (a child with an address space of its own, whose tables and pages \<open>sched_waitpid\<close> frees as well,
  is not covered).  It fails, changing nothing, when no thread on the list has this id and is a
  child of the current thread; it goes on waiting when the child is still there and no zombie; it
  returns the id (its low 32 bits) with the child's exit code when the child is a zombie, and
  then the child is off the list, the other threads keep everything but their links, exactly the
  two blocks of the child are free in addition, and the system is well-formed again.\<close>

theorem sched_waitpid_correct:
  assumes inv: "sched_inv s ts L T F" and c: "current_thread s \<noteq> NULL"
  shows "((\<nexists>t. waits_for s ts pid t) \<longrightarrow> sched_waitpid pid s = Some (WaitFail, s)) \<and>
    (\<forall>t. waits_for s ts pid t \<and> th_state (threads s t) \<noteq> THREAD_ZOMBIE \<longrightarrow> sched_waitpid pid s = Some (WaitAgain, s)) \<and>
    (\<forall>t. waits_for s ts pid t \<and> th_state (threads s t) = THREAD_ZOMBIE \<longrightarrow>
      (\<exists>s' T' F' r q. sched_waitpid pid s = Some (WaitReaped (ucast pid) (th_exit_code (threads s t)), s') \<and> sched_inv s' (remove1 t ts) L T' F' \<and>
        t = at (k_buddy s) r + 24 \<and> th_stack_bottom (threads s t) = at (k_buddy s) q + 24 \<and> r \<noteq> q \<and> {r, q} \<subseteq> dom (live T F) \<and>
        live T' F' = (live T F)(q := None, r := None) \<and> current_thread s' = current_thread s \<and>
        (\<forall>u\<in>set (remove1 t ts). threads s' u = (threads s u)\<lparr>th_next := next_of s' u\<rparr>)))"
proof (intro conjI impI allI; (elim conjE)?)
  show "sched_waitpid pid s = Some (WaitFail, s)" if "\<nexists>t. waits_for s ts pid t" using that by (rule waitpid_none [OF inv c])
  show "sched_waitpid pid s = Some (WaitAgain, s)" if "waits_for s ts pid t" "th_state (threads s t) \<noteq> THREAD_ZOMBIE" for t
    using waitpid_child [OF inv that(1) c] that(2) by simp
qed (rule waitpid_zombie [OF inv _ c])

theorem sched_waitpid_correct_witness:
  "\<exists>s s' t T F. current_thread (s :: kernel) = t \<and> sched_waitpid 2 s = Some (WaitReaped 2 137, s') \<and> sched_inv s' [t] [65576 \<mapsto> {}] T F"
proof -
  obtain s t u T F where s: "sched_inv (s :: kernel) [t, u] [65576 \<mapsto> {}] T F" "current_thread s = t" "t \<noteq> NULL" "th_id (threads s u) = 2"
     "th_parent_id (threads s u) = th_id (threads s t)" "th_state (threads s u) = THREAD_ZOMBIE" "th_exit_code (threads s u) = 137"
    using zombie_example by blast
  have c: "current_thread s \<noteq> NULL" "waits_for s [t, u] 2 u" using s by (simp_all add: waits_for_def)
  have "distinct [t, u]" using s(1) queue_okD(2) by (metis sched_inv_def)
  then have rm: "remove1 u [t, u] = [t]" by auto
  from sched_waitpid_correct [OF s(1) c(1), of 2] c(2) s(6) obtain s' T' F' where
    s': "sched_waitpid 2 s = Some (WaitReaped (ucast (2 :: u64)) (th_exit_code (threads s u)), s')" "sched_inv s' (remove1 u [t, u]) [65576 \<mapsto> {}] T' F'"
    by blast
  have "(ucast (2 :: u64) :: u32) = 2" by simp
  then show ?thesis using s' s(2,7) unfolding rm by auto
qed

end
