(* ===== verification/Socket.thy ===== *)
theory Socket
  imports Sched RingBuffer
begin

text \<open>
  \<open>krnl/net/socket.c\<close>: Unix stream sockets inside the kernel.  A socket is a structure of the general
  allocator with a ring buffer for the bytes it receives and a node of the file system layer;
  bound sockets stand in a table of 64; a listening socket keeps the clients that wait to be
  accepted in a circular array of 16.

  Where the code waits in a loop around \<open>sched_yield\<close>, the model has one round of the loop as a
  definition: \<open>Yield\<close> says that the thread yields and runs the round again in the state it
  finds then.
\<close>

section \<open>State\<close>

datatype socket_state =
  SOCKET_STATE_UNBOUND | SOCKET_STATE_BOUND | SOCKET_STATE_LISTENING | SOCKET_STATE_CONNECTED | SOCKET_STATE_CLOSED

record unix_socket =
  sk_path :: string
  sk_state :: socket_state
  rx_buffer :: ring_buffer
  sk_peer :: u64
  accept_queue :: "nat \<Rightarrow> u64"
  accept_head :: nat
  accept_tail :: nat
  sk_node :: u64

definition zero_socket :: unix_socket where
  "zero_socket = \<lparr>sk_path = [], sk_state = SOCKET_STATE_UNBOUND,
     rx_buffer = \<lparr>rb_buffer = NULL, rb_capacity = 0, rb_head = 0, rb_tail = 0, rb_count = 0\<rparr>,
     sk_peer = NULL, accept_queue = (\<lambda>_. NULL), accept_head = 0, accept_tail = 0, sk_node = NULL\<rparr>"

record sockaddr_un =
  sun_family :: u16
  sun_path :: string

text \<open>\<open>um_sockaddr\<close> and \<open>um_size\<close> hold the address structures and the lengths in user memory.\<close>

record net = kernel +
  socks :: "u64 \<Rightarrow> unix_socket"
  bound_sockets :: "nat \<Rightarrow> u64"
  um_sockaddr :: "u64 \<Rightarrow> sockaddr_un"
  um_size :: "u64 \<Rightarrow> u64"

definition MAX_SOCKETS :: nat where "MAX_SOCKETS = 64"
definition AF_UNIX :: u32 where "AF_UNIX = 1"
definition SOCK_STREAM :: u32 where "SOCK_STREAM = 1"

text \<open>\<open>sizeof(unix_socket_t)\<close> and \<open>sizeof(struct sockaddr_un)\<close>.\<close>

definition UNIX_SOCKET_SIZE :: u64 where "UNIX_SOCKET_SIZE = 304"
definition SOCKADDR_UN_SIZE :: u64 where "SOCKADDR_UN_SIZE = 110"

datatype 'r io = Done 'r | Yield

definition upd_sock :: "u64 \<Rightarrow> (unix_socket \<Rightarrow> unix_socket) \<Rightarrow> 'a net_scheme \<Rightarrow> 'a net_scheme" where
  "upd_sock k f s = s\<lparr>socks := (socks s)(k := f (socks s k))\<rparr>"

subsection \<open>File descriptors\<close>

text \<open>The file descriptor of an \<open>int\<close> argument, if it is in range, and the first free one.\<close>

definition fd_ok :: "u32 \<Rightarrow> bool" where
  "fd_ok fd \<longleftrightarrow> \<not> (sint fd < 0 \<or> int MAX_FDS \<le> sint fd)"

definition fd_of :: "'a kernel_scheme \<Rightarrow> u32 \<Rightarrow> file_descriptor" where
  "fd_of s fd = th_fds (threads s (current_thread s)) (nat (sint fd))"

text \<open>The guard of the calls that take a descriptor.\<close>

definition open_fd :: "'a kernel_scheme \<Rightarrow> u32 \<Rightarrow> bool" where
  "open_fd s fd \<longleftrightarrow> fd_ok fd \<and> current_thread s \<noteq> NULL \<and> fd_node (fd_of s fd) \<noteq> NULL"

definition free_fd :: "thread \<Rightarrow> nat option" where
  "free_fd t = find (\<lambda>i. fd_node (th_fds t i) = NULL) [0..<MAX_FDS]"

definition upd_fd :: "u64 \<Rightarrow> nat \<Rightarrow> (file_descriptor \<Rightarrow> file_descriptor) \<Rightarrow> 'a kernel_scheme \<Rightarrow> 'a kernel_scheme" where
  "upd_fd t i f s = upd_thread t (\<lambda>r. r\<lparr>th_fds := (th_fds r)(i := f (th_fds r i))\<rparr>) s"

section \<open>Operations\<close>

definition socket_read_round :: "u64 \<Rightarrow> u32 \<Rightarrow> u64 \<Rightarrow> 'a net_scheme \<Rightarrow> u32 io \<times> 'a net_scheme" where
  "socket_read_round sock sz buffer s =
     (let avail = ring_buffer_available (Some (rx_buffer (socks s sock)))
      in if avail = 0
         then if sk_peer (socks s sock) = NULL \<or> sk_state (socks s (sk_peer (socks s sock))) = SOCKET_STATE_CLOSED
              then (Done 0, s) else (Yield, s)
         else
           let to_read = (if ucast sz < avail then ucast sz else avail);
               (n, rb, m) = ring_buffer_read (k_mem s) (Some (rx_buffer (socks s sock))) buffer to_read
           in (Done (ucast n), upd_sock sock (\<lambda>k. k\<lparr>rx_buffer := the rb\<rparr>) (set_mem m s)))"

definition socket_read :: "u64 \<Rightarrow> u32 \<Rightarrow> u32 \<Rightarrow> u64 \<Rightarrow> 'a net_scheme \<Rightarrow> u32 io \<times> 'a net_scheme" where
  "socket_read node offset sz buffer s =
     (let sock = device (vs_nodes s node)
      in if sock = NULL \<or> sk_state (socks s sock) \<noteq> SOCKET_STATE_CONNECTED then (Done 0, s)
         else socket_read_round sock sz buffer s)"

text \<open>The writing loop up to its end or to the next yield, with the bytes written so far.\<close>

partial_function (option) socket_write_loop ::
  "u64 \<Rightarrow> u32 \<Rightarrow> u64 \<Rightarrow> u64 \<Rightarrow> 'a net_scheme \<Rightarrow> (u64 \<times> u32 io \<times> 'a net_scheme) option" where
  "socket_write_loop sock sz buffer written s =
     (if written < ucast sz
      then
        let peer = sk_peer (socks s sock)
        in if sk_state (socks s peer) = SOCKET_STATE_CLOSED then Some (written, Done (ucast written), s)
           else
             let free_sp = ring_buffer_free_space (Some (rx_buffer (socks s peer)))
             in if 0 < free_sp
                then
                  let w = (if ucast sz - written < free_sp then ucast sz - written else free_sp);
                      (w, rb, m) = ring_buffer_write (k_mem s) (Some (rx_buffer (socks s peer))) (buffer + written) w
                  in socket_write_loop sock sz buffer (written + w) (upd_sock peer (\<lambda>k. k\<lparr>rx_buffer := the rb\<rparr>) (set_mem m s))
                else Some (written, Yield, s)
      else Some (written, Done (ucast written), s))"

definition socket_write :: "u64 \<Rightarrow> u32 \<Rightarrow> u32 \<Rightarrow> u64 \<Rightarrow> 'a net_scheme \<Rightarrow> (u64 \<times> u32 io \<times> 'a net_scheme) option" where
  "socket_write node offset sz buffer s =
     (let sock = device (vs_nodes s node)
      in if sock = NULL \<or> sk_state (socks s sock) \<noteq> SOCKET_STATE_CONNECTED \<or> sk_peer (socks s sock) = NULL then Some (0, Done 0, s)
         else socket_write_loop sock sz buffer 0 s)"

definition socket_close :: "u64 \<Rightarrow> 'a net_scheme \<Rightarrow> 'a net_scheme" where
  "socket_close node s =
     (let sock = device (vs_nodes s node)
      in if sock = NULL then s
         else
           let s = upd_sock sock (\<lambda>k. k\<lparr>sk_state := SOCKET_STATE_CLOSED\<rparr>) s;
               s = (if sk_peer (socks s sock) \<noteq> NULL then upd_sock (sk_peer (socks s sock)) (\<lambda>k. k\<lparr>sk_peer := NULL\<rparr>) s else s);
               s = k_kfree (rb_buffer (rx_buffer (socks s sock))) s;
               s = s\<lparr>bound_sockets := (\<lambda>i. if i < MAX_SOCKETS \<and> bound_sockets s i = sock then NULL else bound_sockets s i)\<rparr>
           in k_kfree sock s)"

text \<open>\<open>ops\<close> is the address of the table \<open>socket_ops\<close>.\<close>

definition create_socket_obj :: "u64 \<Rightarrow> 'a net_scheme \<Rightarrow> u64 \<times> 'a net_scheme" where
  "create_socket_obj ops s =
     (let (sock, s) = k_kmalloc UNIX_SOCKET_SIZE s
      in if sock = NULL then (NULL, s)
         else
           let s = upd_sock sock (\<lambda>_. zero_socket) s;
               (_, rb, p, m) = ring_buffer_init (ks_pmm (vs_slab s)) (k_mem s) (Some (rx_buffer (socks s sock))) 4096;
               s = s\<lparr>vs_slab := (vs_slab s)\<lparr>ks_pmm := p, ks_mem := m\<rparr>\<rparr>;
               s = upd_sock sock (\<lambda>k. k\<lparr>rx_buffer := the rb, sk_state := SOCKET_STATE_UNBOUND\<rparr>) s;
               (node, s) = vfs_alloc_node s;
               s = upd_sock sock (\<lambda>k. k\<lparr>sk_node := node\<rparr>) s
           in if node = NULL then (NULL, k_kfree sock (k_kfree (rb_buffer (rx_buffer (socks s sock))) s))
              else (sock, upd_node node (\<lambda>n. n\<lparr>vn_type := VFS_PIPE, vn_ops := ops, device := sock\<rparr>) s))"

definition sys_socket :: "u64 \<Rightarrow> u32 \<Rightarrow> u32 \<Rightarrow> u32 \<Rightarrow> 'a net_scheme \<Rightarrow> int \<times> 'a net_scheme" where
  "sys_socket ops domain type protocol s =
     (if domain \<noteq> AF_UNIX \<or> type \<noteq> SOCK_STREAM then (- 1, s)
      else if current_thread s = NULL then (- 1, s)
      else
        case free_fd (threads s (current_thread s)) of
          None \<Rightarrow> (- 1, s)
        | Some fd \<Rightarrow>
            let t = current_thread s;
                (sock, s) = create_socket_obj ops s
            in if sock = NULL then (- 1, s)
               else (int fd, upd_fd t fd (\<lambda>_. \<lparr>fd_node = sk_node (socks s sock), fd_offset = 0, fd_flags = 0\<rparr>) s))"

definition sock_of :: "'a net_scheme \<Rightarrow> u32 \<Rightarrow> u64" where
  "sock_of s fd = device (vs_nodes s (fd_node (fd_of s fd)))"

text \<open>The first slot of the table with a socket of this path.\<close>

definition find_bound :: "string \<Rightarrow> 'a net_scheme \<Rightarrow> nat option" where
  "find_bound path s = find (\<lambda>i. bound_sockets s i \<noteq> NULL \<and> sk_path (socks s (bound_sockets s i)) = path) [0..<MAX_SOCKETS]"

definition sys_bind :: "u32 \<Rightarrow> u64 \<Rightarrow> u64 \<Rightarrow> 'a net_scheme \<Rightarrow> int \<times> 'a net_scheme" where
  "sys_bind fd addr addrlen s =
     (if \<not> open_fd s fd then (- 1, s)
      else
        let sock = sock_of s fd
        in if sock = NULL \<or> sk_state (socks s sock) \<noteq> SOCKET_STATE_UNBOUND then (- 1, s)
           else if find_bound (sun_path (um_sockaddr s addr)) s \<noteq> None then (- 1, s)
           else
             case find (\<lambda>i. bound_sockets s i = NULL) [0..<MAX_SOCKETS] of
               Some i \<Rightarrow> (0, upd_sock sock (\<lambda>k. k\<lparr>sk_path := sun_path (um_sockaddr s addr), sk_state := SOCKET_STATE_BOUND\<rparr>)
                             (s\<lparr>bound_sockets := (bound_sockets s)(i := sock)\<rparr>))
             | None \<Rightarrow> (- 1, s))"

definition sys_listen :: "u32 \<Rightarrow> u32 \<Rightarrow> 'a net_scheme \<Rightarrow> int \<times> 'a net_scheme" where
  "sys_listen fd backlog s =
     (if \<not> open_fd s fd then (- 1, s)
      else
        let sock = sock_of s fd
        in if sock = NULL \<or> sk_state (socks s sock) \<noteq> SOCKET_STATE_BOUND then (- 1, s)
           else (0, upd_sock sock (\<lambda>k. k\<lparr>sk_state := SOCKET_STATE_LISTENING\<rparr>) s))"

text \<open>\<open>sys_connect\<close> up to its waiting loop, and the loop's test.\<close>

definition connect_wait :: "u64 \<Rightarrow> 'a net_scheme \<Rightarrow> int io" where
  "connect_wait sock s = (if sk_state (socks s sock) = SOCKET_STATE_UNBOUND then Yield else Done 0)"

definition sys_connect :: "u32 \<Rightarrow> u64 \<Rightarrow> u64 \<Rightarrow> 'a net_scheme \<Rightarrow> int io \<times> 'a net_scheme" where
  "sys_connect fd addr addrlen s =
     (if \<not> open_fd s fd then (Done (- 1), s)
      else
        let sock = sock_of s fd
        in if sock = NULL \<or> sk_state (socks s sock) \<noteq> SOCKET_STATE_UNBOUND then (Done (- 1), s)
           else
             case find_bound (sun_path (um_sockaddr s addr)) s of
               None \<Rightarrow> (Done (- 1), s)
             | Some i \<Rightarrow>
                 let target = bound_sockets s i
                 in if sk_state (socks s target) \<noteq> SOCKET_STATE_LISTENING then (Done (- 1), s)
                    else
                      let next_tail = (accept_tail (socks s target) + 1) mod 16
                      in if next_tail = accept_head (socks s target) then (Done (- 1), s)
                         else
                           let s = upd_sock target (\<lambda>k. k\<lparr>accept_queue := (accept_queue k)(accept_tail k := sock)\<rparr>) s;
                               s = upd_sock target (\<lambda>k. k\<lparr>accept_tail := next_tail\<rparr>) s
                           in (connect_wait sock s, s))"

text \<open>\<open>sys_accept\<close> once the queue of the listening socket is not empty.\<close>

definition accept_round :: "u64 \<Rightarrow> u64 \<Rightarrow> u64 \<Rightarrow> u64 \<Rightarrow> 'a net_scheme \<Rightarrow> int io \<times> 'a net_scheme" where
  "accept_round ops server_sock addr addrlen s =
     (if accept_head (socks s server_sock) = accept_tail (socks s server_sock) then (Yield, s)
      else
        let t = current_thread s;
            client_sock = accept_queue (socks s server_sock) (accept_head (socks s server_sock));
            s = upd_sock server_sock (\<lambda>k. k\<lparr>accept_head := (accept_head k + 1) mod 16\<rparr>) s;
            (accepted_sock, s) = create_socket_obj ops s
        in if accepted_sock = NULL then (Done (- 1), s)
           else
             case free_fd (threads s t) of
               None \<Rightarrow>
                 let s = k_kfree (rb_buffer (rx_buffer (socks s accepted_sock))) s;
                     s = k_kfree (sk_node (socks s accepted_sock)) s
                 in (Done (- 1), k_kfree accepted_sock s)
             | Some new_fd \<Rightarrow>
                 let s = upd_fd t new_fd (\<lambda>_. \<lparr>fd_node = sk_node (socks s accepted_sock), fd_offset = 0, fd_flags = 0\<rparr>) s;
                     s = upd_sock accepted_sock (\<lambda>k. k\<lparr>sk_state := SOCKET_STATE_CONNECTED\<rparr>) s;
                     s = upd_sock client_sock (\<lambda>k. k\<lparr>sk_state := SOCKET_STATE_CONNECTED\<rparr>) s;
                     s = upd_sock accepted_sock (\<lambda>k. k\<lparr>sk_peer := client_sock\<rparr>) s;
                     s = upd_sock client_sock (\<lambda>k. k\<lparr>sk_peer := accepted_sock\<rparr>) s;
                     s = (if addr \<noteq> NULL \<and> addrlen \<noteq> NULL
                          then s\<lparr>um_sockaddr := (um_sockaddr s)(addr := \<lparr>sun_family = ucast AF_UNIX, sun_path = sk_path (socks s server_sock)\<rparr>),
                                 um_size := (um_size s)(addrlen := SOCKADDR_UN_SIZE)\<rparr>
                          else s)
                 in (Done (int new_fd), s))"

definition sys_accept :: "u64 \<Rightarrow> u32 \<Rightarrow> u64 \<Rightarrow> u64 \<Rightarrow> 'a net_scheme \<Rightarrow> int io \<times> 'a net_scheme" where
  "sys_accept ops fd addr addrlen s =
     (if \<not> open_fd s fd then (Done (- 1), s)
      else
        let server_sock = sock_of s fd
        in if server_sock = NULL \<or> sk_state (socks s server_sock) \<noteq> SOCKET_STATE_LISTENING then (Done (- 1), s)
           else accept_round ops server_sock addr addrlen s)"


section \<open>The clients that wait\<close>

text \<open>The circular array of a listening socket, read as a list from \<open>accept_head\<close> on.\<close>

definition pending :: "unix_socket \<Rightarrow> u64 list" where
  "pending k = map (\<lambda>i. accept_queue k ((accept_head k + i) mod 16)) [0..<(accept_tail k + 16 - accept_head k) mod 16]"

definition listen_ok :: "unix_socket \<Rightarrow> bool" where
  "listen_ok k \<longleftrightarrow> accept_head k < 16 \<and> accept_tail k < 16"

lemma pending_length: "length (pending k) < 16"
  by (simp add: pending_def)

lemma mod16_cases: "h < 16 \<Longrightarrow> t < 16 \<Longrightarrow> (t + 16 - h) mod 16 = (if h \<le> t then t - h else t + 16 - h)" for h t :: nat
  by (auto simp: mod_if)

lemma mod16_less: "a < 32 \<Longrightarrow> a mod 16 = (if a < 16 then a else a - 16)" for a :: nat
  by (simp add: mod_if)

lemma pending_full:
  assumes "listen_ok k"
  shows "(accept_tail k + 1) mod 16 = accept_head k \<longleftrightarrow> length (pending k) = 15"
  using assms unfolding listen_ok_def pending_def length_map length_upt
  by (subst mod16_cases) (auto simp: mod_if)

lemma pending_empty:
  assumes "listen_ok k"
  shows "accept_head k = accept_tail k \<longleftrightarrow> pending k = []"
  using assms unfolding listen_ok_def pending_def by (subst mod16_cases) auto

lemma pending_push:
  assumes ok: "listen_ok k" and room: "length (pending k) \<noteq> 15"
    and k'_def: "k' = k\<lparr>accept_queue := (accept_queue k)(accept_tail k := x), accept_tail := (accept_tail k + 1) mod 16\<rparr>"
  shows "pending k' = pending k @ [x] \<and> listen_ok k'"
proof -
  let ?h = "accept_head k" and ?t = "accept_tail k"
  let ?n = "(?t + 16 - ?h) mod 16"
  have b: "?h < 16" "?t < 16" using ok by (simp_all add: listen_ok_def)
  have n15: "?n \<noteq> 15" using room by (simp add: pending_def)
  have len: "((?t + 1) mod 16 + 16 - ?h) mod 16 = Suc ?n" 
  proof -
    have t: "(?t + 1) mod 16 = (if ?t = 15 then 0 else ?t + 1)" using b by (subst mod16_less) auto
    show ?thesis using b n15 unfolding t mod16_cases [OF b] by (subst mod16_cases) (auto split: if_splits)
  qed
  have n: "?n = (if ?h \<le> ?t then ?t - ?h else ?t + 16 - ?h)" using b by (rule mod16_cases)
  have n16: "?n < 16" by simp
  have last: "(?h + ?n) mod 16 = ?t" using b n n16 by (subst mod16_less) (auto split: if_splits)
  have other: "(?h + i) mod 16 \<noteq> ?t" if "i < ?n" for i
    using b n n16 that by (subst mod16_less) (linarith, auto split: if_splits)
  have "pending k' = map (\<lambda>i. ((accept_queue k)(?t := x)) ((?h + i) mod 16)) ([0..<?n] @ [?n])"
    unfolding pending_def k'_def using len by simp
  also have "\<dots> = pending k @ [x]" using last other by (auto simp: pending_def)
  finally show ?thesis using ok by (simp add: listen_ok_def k'_def)
qed

lemma pending_pop:
  assumes ok: "listen_ok k" and ne: "pending k = c # rest"
  shows "accept_queue k (accept_head k) = c \<and> pending (k\<lparr>accept_head := (accept_head k + 1) mod 16\<rparr>) = rest \<and>
    listen_ok (k\<lparr>accept_head := (accept_head k + 1) mod 16\<rparr>)"
proof -
  let ?h = "accept_head k" and ?t = "accept_tail k"
  let ?n = "(?t + 16 - ?h) mod 16"
  have b: "?h < 16" "?t < 16" using ok by (simp_all add: listen_ok_def)
  have "length (pending k) \<noteq> 0" using ne by simp
  then have "?n \<noteq> 0" unfolding pending_def by simp
  then obtain m where m: "?n = Suc m" by (cases ?n) simp
  have len: "(?t + 16 - (?h + 1) mod 16) mod 16 = m"
  proof -
    have h: "(?h + 1) mod 16 = (if ?h = 15 then 0 else ?h + 1)" using b by (subst mod16_less) auto
    show ?thesis using b m unfolding h mod16_cases [OF b] by (subst mod16_cases) (auto split: if_splits)
  qed
  have "pending k = accept_queue k (?h mod 16) # map (\<lambda>i. accept_queue k ((?h + Suc i) mod 16)) [0..<m]"
    unfolding pending_def m by (simp only: upt_conv_Cons [OF zero_less_Suc] list.map map_Suc_upt [symmetric] map_map) (simp add: o_def)
  then have "accept_queue k ?h = c" "rest = map (\<lambda>i. accept_queue k ((?h + Suc i) mod 16)) [0..<m]" using ne b by simp_all
  moreover have "pending (k\<lparr>accept_head := (?h + 1) mod 16\<rparr>) = map (\<lambda>i. accept_queue k (((?h + 1) mod 16 + i) mod 16)) [0..<m]"
    unfolding pending_def using len by simp
  ultimately show ?thesis using ok by (simp add: listen_ok_def mod_simps)
qed

section \<open>New sockets\<close>

lemma k_kmalloc_frame [simp]:
  "socks (snd (k_kmalloc n s)) = socks s" "threads (snd (k_kmalloc n s)) = threads s" "current_thread (snd (k_kmalloc n s)) = current_thread s"
  by (simp_all add: k_kmalloc_def put_mm_def split: prod.split)

lemma k_kfree_frame [simp]: "socks (k_kfree p s) = socks s" "threads (k_kfree p s) = threads s"
  by (simp_all add: k_kfree_def put_mm_def)

lemma vfs_alloc_node_frame [simp]:
  "socks (snd (vfs_alloc_node s)) = socks s" "threads (snd (vfs_alloc_node s)) = threads s"
  by (simp_all add: vfs_alloc_node_def upd_node_def Let_def split: prod.split)

lemma create_socket_obj_frame:
  assumes "create_socket_obj ops s = (k, s')"
  shows "threads s' = threads s \<and> (\<forall>x. x \<noteq> fst (k_kmalloc UNIX_SOCKET_SIZE s) \<longrightarrow> socks s' x = socks s x) \<and>
    (k \<noteq> NULL \<longrightarrow> k = fst (k_kmalloc UNIX_SOCKET_SIZE s) \<and> sk_node (socks s' k) \<noteq> NULL \<and> device (vs_nodes s' (sk_node (socks s' k))) = k)"
proof -
  obtain k0 s0 where k0: "k_kmalloc UNIX_SOCKET_SIZE s = (k0, s0)" by fastforce
  then have f0: "socks s0 = socks s" "threads s0 = threads s" using k_kmalloc_frame [of UNIX_SOCKET_SIZE s] by simp_all
  obtain r rb p m where rb: "ring_buffer_init (ks_pmm (vs_slab s0)) (k_mem s0) (Some (rx_buffer zero_socket)) 4096 = (r, rb, p, m)"
    by (metis prod_cases4)
  define s1 where "s1 = upd_sock k0 (\<lambda>k. zero_socket\<lparr>rx_buffer := the rb, sk_state := SOCKET_STATE_UNBOUND\<rparr>)
    (s0\<lparr>vs_slab := (vs_slab s0)\<lparr>ks_pmm := p, ks_mem := m\<rparr>\<rparr>)"
  obtain node s2 where node: "vfs_alloc_node s1 = (node, s2)" by fastforce
  then have f2: "socks s2 = socks s1" "threads s2 = threads s1" using vfs_alloc_node_frame [of s1] by simp_all
  let ?s3 = "upd_sock k0 (\<lambda>k. k\<lparr>sk_node := node\<rparr>) s2"
  have "create_socket_obj ops s = (if k0 = NULL then (NULL, s0)
      else if node = NULL then (NULL, k_kfree k0 (k_kfree (rb_buffer (rx_buffer (socks ?s3 k0))) ?s3))
      else (k0, upd_node node (\<lambda>n. n\<lparr>vn_type := VFS_PIPE, vn_ops := ops, device := k0\<rparr>) ?s3))"
    using k0 rb node by (simp add: create_socket_obj_def Let_def upd_sock_def k_mem_def s1_def)
  then show ?thesis using assms k0 f0 f2 by (auto simp: upd_sock_def upd_node_def s1_def split: if_splits)
qed


definition slab_live :: "(u64 \<rightharpoonup> u64 set) \<Rightarrow> u64 \<Rightarrow> bool" where
  "slab_live L x \<longleftrightarrow> (\<exists>c X. L c = Some X \<and> x \<in> X)"

lemma new_socket_fresh:
  assumes inv: "mm_inv (mm_of s) L T F" and k: "create_socket_obj ops s = (k, s')"
  shows "fst (k_kmalloc UNIX_SOCKET_SIZE s) = NULL \<or> \<not> slab_live L (fst (k_kmalloc UNIX_SOCKET_SIZE s))"
proof -
  obtain p m where p: "kmalloc UNIX_SOCKET_SIZE (mm_of s) = (p, m)" by fastforce
  then have "fst (k_kmalloc UNIX_SOCKET_SIZE s) = p" by (simp add: k_kmalloc_def)
  moreover have "UNIX_SOCKET_SIZE \<noteq> 0" "unat UNIX_SOCKET_SIZE + 24 < 2 ^ 64" "\<not> 2048 < UNIX_SOCKET_SIZE" by (simp_all add: UNIX_SOCKET_SIZE_def)
  ultimately show ?thesis using kmalloc_inv [OF inv p] unfolding slab_live_def by blast
qed

text \<open>A successful round of \<open>sys_accept\<close>: what it does to the sockets.\<close>

lemma accept_round_pop:
  assumes inv: "mm_inv (mm_of s) L T F" and k: "slab_live L k" "k \<noteq> NULL" "listen_ok (socks s k)"
    and pend: "pending (socks s k) = c # rest" and c: "slab_live L c" "c \<noteq> NULL" "c \<noteq> k"
  shows "\<exists>r s'. accept_round ops k addr addrlen s = (Done r, s') \<and> pending (socks s' k) = rest \<and> listen_ok (socks s' k) \<and>
    (r = - 1 \<or> (\<exists>a fd. r = int fd \<and> free_fd (threads s (current_thread s)) = Some fd \<and> a \<noteq> NULL \<and> \<not> slab_live L a \<and>
       fd_node (th_fds (threads s' (current_thread s)) fd) = sk_node (socks s' a) \<and> device (vs_nodes s' (sk_node (socks s' a))) = a \<and>
       sk_state (socks s' a) = SOCKET_STATE_CONNECTED \<and> sk_peer (socks s' a) = c \<and>
       sk_state (socks s' c) = SOCKET_STATE_CONNECTED \<and> sk_peer (socks s' c) = a \<and> connect_wait c s' = Done 0 \<and>
       (\<forall>x. x \<notin> {a, c, k} \<longrightarrow> socks s' x = socks s x)))"
proof -
  let ?t = "current_thread s"
  define s1 where "s1 = upd_sock k (\<lambda>k. k\<lparr>accept_head := (accept_head k + 1) mod 16\<rparr>) s"
  have f1: "socks s1 = (socks s)(k := (socks s k)\<lparr>accept_head := (accept_head (socks s k) + 1) mod 16\<rparr>)" "threads s1 = threads s" "mm_of s1 = mm_of s"
    by (simp_all add: s1_def upd_sock_def mm_of_def)
  note pop = pending_pop [OF k(3) pend]
  have ne: "accept_head (socks s k) \<noteq> accept_tail (socks s k)" using pending_empty [OF k(3)] pend by simp
  obtain a s2 where a: "create_socket_obj ops s1 = (a, s2)" by fastforce
  note fr = create_socket_obj_frame [OF a]
  have fresh: "fst (k_kmalloc UNIX_SOCKET_SIZE s1) = NULL \<or> \<not> slab_live L (fst (k_kmalloc UNIX_SOCKET_SIZE s1))"
    by (rule new_socket_fresh [OF _ a]) (use inv f1(3) in simp)
  then have diff: "k \<noteq> fst (k_kmalloc UNIX_SOCKET_SIZE s1)" "c \<noteq> fst (k_kmalloc UNIX_SOCKET_SIZE s1)" using k(1,2) c(1,2) by auto
  have s2: "socks s2 k = (socks s k)\<lparr>accept_head := (accept_head (socks s k) + 1) mod 16\<rparr>" "socks s2 c = socks s c" "threads s2 = threads s"
    using fr diff c(3) f1 by auto
  show ?thesis
  proof (cases "a = NULL \<or> free_fd (threads s2 ?t) = None")
    case True
    obtain s' where "accept_round ops k addr addrlen s = (Done (- 1), s')" "socks s' = socks s2"
      using True a ne pop by (cases "a = NULL") (auto simp: accept_round_def Let_def s1_def)
    then show ?thesis using s2(1) pop by auto
  next
    case False
    then obtain fd where fd: "free_fd (threads s ?t) = Some fd" and a0: "a \<noteq> NULL" using s2(3) by auto
    have a1: "a = fst (k_kmalloc UNIX_SOCKET_SIZE s1)" "sk_node (socks s2 a) \<noteq> NULL" "device (vs_nodes s2 (sk_node (socks s2 a))) = a"
      using fr a0 by auto
    have ak: "a \<noteq> k" "a \<noteq> c" "\<not> slab_live L a" using a1(1) diff fresh a0 by auto
    let ?s3 = "upd_fd ?t fd (\<lambda>_. \<lparr>fd_node = sk_node (socks s2 a), fd_offset = 0, fd_flags = 0\<rparr>) s2"
    define s4 where "s4 = upd_sock c (\<lambda>k. k\<lparr>sk_peer := a\<rparr>) (upd_sock a (\<lambda>k. k\<lparr>sk_peer := c\<rparr>)
      (upd_sock c (\<lambda>k. k\<lparr>sk_state := SOCKET_STATE_CONNECTED\<rparr>) (upd_sock a (\<lambda>k. k\<lparr>sk_state := SOCKET_STATE_CONNECTED\<rparr>) ?s3)))"
    obtain s' where s': "accept_round ops k addr addrlen s = (Done (int fd), s')" "socks s' = socks s4" "threads s' = threads s4" "vs_nodes s' = vs_nodes s4"
      using a a0 ne pop fd s2(3) by (auto simp: accept_round_def Let_def s1_def s4_def)
    have f4: "socks s4 = (socks s2)(a := (socks s2 a)\<lparr>sk_state := SOCKET_STATE_CONNECTED, sk_peer := c\<rparr>,
        c := (socks s2 c)\<lparr>sk_state := SOCKET_STATE_CONNECTED, sk_peer := a\<rparr>)" "threads s4 = threads ?s3" "vs_nodes s4 = vs_nodes s2"
      using ak by (auto simp: s4_def upd_sock_def upd_fd_def upd_thread_def fun_eq_iff)
    have "socks s2 x = socks s x" if "x \<noteq> a" "x \<noteq> k" for x using fr that a1(1) f1(1) by simp
    then show ?thesis using s' f4 ak a0 a1 s2 pop fd c(3)
      by (intro exI [of _ "int fd"] exI [of _ s'] conjI disjI2 exI [of _ a] exI [of _ fd])
        (simp_all add: connect_wait_def upd_fd_def)
  qed
qed

section \<open>Properties\<close>

text \<open>A client that calls \<open>sys_connect\<close> with an unbound socket and the path of a listening one is put
  behind the clients that wait already and waits itself, and no other socket changes; with 15
  clients waiting the call fails and nothing changes.\<close>

theorem sys_connect_correct:
  assumes "open_fd s fd" and "sock_of s fd \<noteq> NULL" and "sk_state (socks s (sock_of s fd)) = SOCKET_STATE_UNBOUND"
    and "find_bound (sun_path (um_sockaddr s addr)) s = Some i" and "sk_state (socks s (bound_sockets s i)) = SOCKET_STATE_LISTENING"
    and ok: "listen_ok (socks s (bound_sockets s i))"
  shows "let srv = bound_sockets s i; q = pending (socks s srv) in
    if length q = 15 then sys_connect fd addr addrlen s = (Done (- 1), s)
    else \<exists>k'. sys_connect fd addr addrlen s = (Yield, s\<lparr>socks := (socks s)(srv := k')\<rparr>) \<and>
      pending k' = q @ [sock_of s fd] \<and> listen_ok k' \<and> sk_state k' = SOCKET_STATE_LISTENING"
proof -
  let ?srv = "bound_sockets s i" and ?sock = "sock_of s fd"
  let ?k = "socks s ?srv"
  let ?k' = "?k\<lparr>accept_queue := (accept_queue ?k)(accept_tail ?k := ?sock), accept_tail := (accept_tail ?k + 1) mod 16\<rparr>"
  have ne: "?sock \<noteq> ?srv" using assms(3,5) by auto
  show ?thesis
  proof (cases "length (pending ?k) = 15")
    case True
    then show ?thesis using assms pending_full [OF ok] by (simp add: sys_connect_def Let_def)
  next
    case False
    have "sys_connect fd addr addrlen s = (Yield, s\<lparr>socks := (socks s)(?srv := ?k')\<rparr>)"
      using assms pending_full [OF ok] False ne by (simp add: sys_connect_def Let_def upd_sock_def connect_wait_def)
    moreover have "pending ?k' = pending ?k @ [?sock] \<and> listen_ok ?k'" by (rule pending_push [OF ok False refl])
    ultimately show ?thesis unfolding Let_def if_not_P [OF False] using assms(5) by (intro exI [of _ ?k']) simp
  qed
qed


text \<open>Thread 16 has a client socket in descriptor 0 and a listening server socket in descriptor 1.\<close>

definition net_example :: "kernel \<Rightarrow> u64 \<Rightarrow> u64 \<Rightarrow> u64 list \<Rightarrow> net" where
  "net_example s cl srv q = kernel.extend
     (s\<lparr>threads := (\<lambda>_. zero_thread)(16 := zero_thread\<lparr>th_next := 16,
          th_fds := (\<lambda>_. \<lparr>fd_node = NULL, fd_offset = 0, fd_flags = 0\<rparr>)(0 := \<lparr>fd_node = 0x100, fd_offset = 0, fd_flags = 0\<rparr>,
            1 := \<lparr>fd_node = 0x200, fd_offset = 0, fd_flags = 0\<rparr>)\<rparr>),
        current_thread := 16, thread_queue := 16,
        vs_nodes := (\<lambda>_. zero_node)(0x100 := zero_node\<lparr>device := cl\<rparr>, 0x200 := zero_node\<lparr>device := srv\<rparr>)\<rparr>)
     (net.fields
       ((\<lambda>_. zero_socket)(srv := zero_socket\<lparr>sk_path := ''/run/x'', sk_state := SOCKET_STATE_LISTENING,
          accept_queue := (\<lambda>i. q ! i), accept_tail := length q\<rparr>))
       ((\<lambda>_. NULL)(0 := srv)) (\<lambda>_. \<lparr>sun_family = 1, sun_path = ''/run/x''\<rparr>) (\<lambda>_. 0))"

theorem sys_connect_correct_witness:
  "\<exists>k'. sys_connect 0 0x300 110 (net_example kernel_example 0x5000 0x6000 []) =
     (Yield, (net_example kernel_example 0x5000 0x6000 [])\<lparr>socks := (socks (net_example kernel_example 0x5000 0x6000 []))(0x6000 := k')\<rparr>) \<and>
     pending k' = [0x5000]"
proof -
  let ?s = "net_example kernel_example 0x5000 0x6000 []"
  have f: "open_fd ?s 0" "sock_of ?s 0 = 0x5000" "socks ?s 0x5000 = zero_socket" "sun_path (um_sockaddr ?s 0x300) = ''/run/x''"
      "bound_sockets ?s 0 = 0x6000" "sk_path (socks ?s 0x6000) = ''/run/x''" "sk_state (socks ?s 0x6000) = SOCKET_STATE_LISTENING"
      "pending (socks ?s 0x6000) = []" "listen_ok (socks ?s 0x6000)"
    by (simp_all add: net_example_def kernel.defs net.defs open_fd_def fd_ok_def fd_of_def sock_of_def MAX_FDS_def zero_socket_def pending_def listen_ok_def)
  have "find_bound (sun_path (um_sockaddr ?s 0x300)) ?s = Some 0"
    using f(4,5,6) by (simp add: find_bound_def MAX_SOCKETS_def upt_conv_Cons)
  then show ?thesis using sys_connect_correct [of ?s 0 "0x300" 0 110] f by (simp add: zero_socket_def) blast
qed

text \<open>C11: \<open>sys_accept\<close> on a listening socket waits while no client does.  Otherwise it takes the client
  that has waited longest off the queue, and then it fails, or returns the first free descriptor
  of the thread, which now refers to a new socket: memory that was not in use, connected with the
  client as the client is with it, so that the waiting \<open>sys_connect\<close> of the client returns 0; no
  other socket changes.\<close>

theorem sys_accept_correct:
  assumes "open_fd s fd" and k: "sock_of s fd = k" "k \<noteq> NULL" "sk_state (socks s k) = SOCKET_STATE_LISTENING" "listen_ok (socks s k)"
    and inv: "mm_inv (mm_of s) L T F" and live: "slab_live L k" "\<forall>c\<in>set (pending (socks s k)). slab_live L c \<and> c \<noteq> NULL \<and> c \<noteq> k"
  shows "case pending (socks s k) of [] \<Rightarrow> sys_accept ops fd addr addrlen s = (Yield, s)
    | c # rest \<Rightarrow> \<exists>r s'. sys_accept ops fd addr addrlen s = (Done r, s') \<and> pending (socks s' k) = rest \<and> listen_ok (socks s' k) \<and>
        (r = - 1 \<or> (\<exists>a fd. r = int fd \<and> free_fd (threads s (current_thread s)) = Some fd \<and> a \<noteq> NULL \<and> \<not> slab_live L a \<and>
           fd_node (th_fds (threads s' (current_thread s)) fd) = sk_node (socks s' a) \<and> device (vs_nodes s' (sk_node (socks s' a))) = a \<and>
           sk_state (socks s' a) = SOCKET_STATE_CONNECTED \<and> sk_peer (socks s' a) = c \<and>
           sk_state (socks s' c) = SOCKET_STATE_CONNECTED \<and> sk_peer (socks s' c) = a \<and> connect_wait c s' = Done 0 \<and>
           (\<forall>x. x \<notin> {a, c, k} \<longrightarrow> socks s' x = socks s x)))"
proof -
  have eq: "sys_accept ops fd addr addrlen s = accept_round ops k addr addrlen s" using assms(1) k by (simp add: sys_accept_def)
  show ?thesis
  proof (cases "pending (socks s k)")
    case Nil
    then show ?thesis using pending_empty [OF k(4)] eq by (simp add: accept_round_def)
  next
    case (Cons c rest)
    then show ?thesis unfolding eq using accept_round_pop [OF inv live(1) k(2,4) Cons] live(2) by simp
  qed
qed


lemma mm_example_two:
  "fst (kmalloc 304 mm_example) \<noteq> NULL" "fst (kmalloc 304 (snd (kmalloc 304 mm_example))) \<noteq> NULL"
  by code_simp+

lemma two_sockets_example:
  "\<exists>m L T F k c. mm_inv m L T F \<and> slab_live L k \<and> k \<noteq> NULL \<and> slab_live L c \<and> c \<noteq> NULL \<and> c \<noteq> k"
proof -
  have sz: "(304 :: u64) \<noteq> 0" "unat (304 :: u64) + 24 < 2 ^ 64" "\<not> 2048 < (304 :: u64)" by simp_all
  obtain k m1 where k: "kmalloc 304 mm_example = (k, m1)" by fastforce
  obtain c m2 where c: "kmalloc 304 m1 = (c, m2)" by fastforce
  have nn: "k \<noteq> NULL" "c \<noteq> NULL" using mm_example_two k c by simp_all
  obtain d X where L1: "mm_inv m1 ([65576 \<mapsto> {}](d \<mapsto> insert k X)) [0 \<mapsto> 6] {0}"
    using kmalloc_inv [OF mm_example_inv k] nn(1) sz(3) by blast
  let ?L = "[65576 \<mapsto> {}](d \<mapsto> insert k X)"
  obtain e Y where L2: "?L e = Some Y" "\<forall>c' X'. ?L c' = Some X' \<longrightarrow> c \<notin> X'" "mm_inv m2 (?L(e \<mapsto> insert c Y)) [0 \<mapsto> 6] {0}"
    using kmalloc_inv [OF L1 c] nn(2) sz(3) by blast
  have "c \<noteq> k" using L2(2) [rule_format, of d "insert k X"] by auto
  moreover have "slab_live (?L(e \<mapsto> insert c Y)) c" by (auto simp: slab_live_def)
  moreover have "slab_live (?L(e \<mapsto> insert c Y)) k"
  proof (cases "e = d")
    case True
    then show ?thesis using L2(1) by (intro slab_live_def [THEN iffD2] exI [of _ d] exI [of _ "insert c Y"]) auto
  next
    case False
    then show ?thesis by (intro slab_live_def [THEN iffD2] exI [of _ d] exI [of _ "insert k X"]) auto
  qed
  ultimately show ?thesis using L2(3) nn by blast
qed

theorem sys_accept_correct_witness:
  "\<exists>s k c r s'. pending (socks s k) = [c] \<and> sys_accept 0x700 1 NULL NULL (s :: net) = (Done r, s') \<and> pending (socks s' k) = []"
proof -
  obtain m L T F k c where m: "mm_inv m L T F" "slab_live L k" "k \<noteq> NULL" "slab_live L c" "c \<noteq> NULL" "c \<noteq> k"
    using two_sockets_example by blast
  let ?s = "net_example (put_mm m kernel_example) c k [c]"
  have f: "open_fd ?s 1" "sock_of ?s 1 = k" "sk_state (socks ?s k) = SOCKET_STATE_LISTENING"
      "pending (socks ?s k) = [c]" "listen_ok (socks ?s k)"
    by (simp_all add: net_example_def kernel.defs net.defs open_fd_def fd_ok_def fd_of_def sock_of_def MAX_FDS_def zero_socket_def pending_def listen_ok_def)
  have inv: "mm_inv (mm_of ?s) L T F" using m(1) by (simp add: net_example_def kernel.defs net.defs mm_of_def put_mm_def mm_inv_def)
  have "\<forall>x\<in>set (pending (socks ?s k)). slab_live L x \<and> x \<noteq> NULL \<and> x \<noteq> k" unfolding f(4) using m by simp
  from sys_accept_correct [OF f(1,2) m(3) f(3,5) inv m(2) this, of "0x700" NULL NULL]
  show ?thesis unfolding f(4) list.case using f(4) by blast
qed

end
