(* ===== verification/Umem.thy ===== *)
theory Umem
  imports Sched
begin

text \<open>
  Access to memory through the page tables that are active: what the processor does when the
  kernel reads and writes a user's address.  Addresses of the upper half are the kernel's own and
  are used directly; below, the address is translated.  \<open>None\<close> is a page fault, which the kernel does
  not survive.

  The lemmas relate a sequence of writes to the bytes that are read afterwards, over a set of
  addresses that the tables map without sharing.
\<close>

section \<open>Definitions\<close>

definition HHDM :: u64 where "HHDM = 0xFFFF800000000000"

definition virt_addr :: "'a kernel_scheme \<Rightarrow> u64 \<Rightarrow> u64 option" where
  "virt_addr s a =
     (if HHDM \<le> a then Some a
      else
        let phys = vmm_virt_to_phys (vmm_get_active_context (vmm_of s)) a (vmm_of s)
        in if phys = 0 then None else Some (v_virt (vmm_of s) phys))"

definition vload :: "'a kernel_scheme \<Rightarrow> u64 \<Rightarrow> u8 option" where
  "vload s a = map_option (k_mem s) (virt_addr s a)"

definition vstore :: "u64 \<Rightarrow> u8 \<Rightarrow> 'a kernel_scheme \<Rightarrow> 'a kernel_scheme option" where
  "vstore a b s = map_option (\<lambda>p. set_mem ((k_mem s)(p := b)) s) (virt_addr s a)"

fun vread :: "'a kernel_scheme \<Rightarrow> u64 \<Rightarrow> nat \<Rightarrow> u8 list option" where
  "vread s a 0 = Some []"
| "vread s a (Suc n) = do { b \<leftarrow> vload s a; bs \<leftarrow> vread s (a + 1) n; Some (b # bs) }"

fun vwrite :: "u64 \<Rightarrow> u8 list \<Rightarrow> 'a kernel_scheme \<Rightarrow> 'a kernel_scheme option" where
  "vwrite a [] s = Some s"
| "vwrite a (b # bs) s = do { s \<leftarrow> vstore a b s; vwrite (a + 1) bs s }"

text \<open>The copy of \<open>memcpy\<close> and the fill of \<open>memset\<close>, byte by byte.\<close>

fun vcopy :: "nat \<Rightarrow> u64 \<Rightarrow> u64 \<Rightarrow> 'a kernel_scheme \<Rightarrow> 'a kernel_scheme option" where
  "vcopy 0 d a s = Some s"
| "vcopy (Suc n) d a s = do { b \<leftarrow> vload s a; s \<leftarrow> vstore d b s; vcopy n (d + 1) (a + 1) s }"

fun vfill :: "nat \<Rightarrow> u64 \<Rightarrow> u8 \<Rightarrow> 'a kernel_scheme \<Rightarrow> 'a kernel_scheme option" where
  "vfill 0 a b s = Some s"
| "vfill (Suc n) a b s = do { s \<leftarrow> vstore a b s; vfill n (a + 1) b s }"

text \<open>Little-endian words.\<close>

definition le_bytes :: "nat \<Rightarrow> 'w::len word \<Rightarrow> u8 list" where
  "le_bytes n v = map (\<lambda>i. ucast (drop_bit (8 * i) v)) [0..<n]"

fun le_word :: "u8 list \<Rightarrow> 'w::len word" where
  "le_word [] = 0"
| "le_word (b # bs) = ucast b OR push_bit 8 (le_word bs)"

definition vload64 :: "'a kernel_scheme \<Rightarrow> u64 \<Rightarrow> u64 option" where
  "vload64 s a = map_option le_word (vread s a 8)"

definition vstore64 :: "u64 \<Rightarrow> u64 \<Rightarrow> 'a kernel_scheme \<Rightarrow> 'a kernel_scheme option" where
  "vstore64 a v s = vwrite a (le_bytes 8 v) s"

text \<open>A string argument: the characters up to the next zero byte.\<close>

partial_function (option) read_cstr :: "'a kernel_scheme \<Rightarrow> u64 \<Rightarrow> string option" where
  "read_cstr s a = do {
     b \<leftarrow> vload s a;
     if b = 0 then Some [] else do { cs \<leftarrow> read_cstr s (a + 1); Some (char_of (unat b) # cs) }
   }"

section \<open>Reading what was written\<close>

lemma virt_to_phys_mem: "vmm_virt_to_phys ctx a (v\<lparr>v_mem := m\<rparr>) = vmm_virt_to_phys ctx a v"
proof -
  have e: "pt_entry (v\<lparr>v_mem := m\<rparr>) t i = pt_entry v t i" "v_virt (v\<lparr>v_mem := m\<rparr>) p = v_virt v p" for t i p
    by (simp_all add: pt_entry_def v_virt_def)
  show ?thesis unfolding vmm_virt_to_phys_def get_no_alloc Let_def prod.case e ..
qed

lemma virt_addr_set_mem [simp]: "virt_addr (set_mem m s) = virt_addr s"
proof
  fix a
  have e: "vmm_of (set_mem m s) = (vmm_of s)\<lparr>v_mem := m\<rparr>" unfolding vmm_of_def set_mem_def by simp
  have e': "vmm_get_active_context ((vmm_of s)\<lparr>v_mem := m\<rparr>) = vmm_get_active_context (vmm_of s)"
    unfolding vmm_get_active_context_def v_virt_def by simp
  have e'': "v_virt ((vmm_of s)\<lparr>v_mem := m\<rparr>) p = v_virt (vmm_of s) p" for p unfolding v_virt_def by simp
  show "virt_addr (set_mem m s) a = virt_addr s a"
    unfolding virt_addr_def Let_def e e' e'' virt_to_phys_mem ..
qed

lemma k_mem_set_mem [simp]: "k_mem (set_mem m s) = m"
  by (simp add: k_mem_def set_mem_def)

text \<open>\<open>G\<close> is mapped, and no two of its addresses share a byte.\<close>

definition mapped :: "'a kernel_scheme \<Rightarrow> u64 set \<Rightarrow> bool" where
  "mapped s G \<longleftrightarrow> inj_on (virt_addr s) G \<and> (\<forall>a\<in>G. virt_addr s a \<noteq> None)"

lemma mapped_cong: "virt_addr s' = virt_addr s \<Longrightarrow> mapped s' G = mapped s G"
  by (simp add: mapped_def)

lemma vstore_mapped:
  assumes "mapped s G" and "a \<in> G"
  shows "\<exists>s'. vstore a b s = Some s' \<and> virt_addr s' = virt_addr s \<and> (\<forall>x\<in>G. vload s' x = (if x = a then Some b else vload s x))"
proof -
  obtain p where p: "virt_addr s a = Some p" using assms by (auto simp: mapped_def)
  have other: "virt_addr s x \<noteq> Some p" if "x \<in> G" "x \<noteq> a" for x
    using assms that p by (metis mapped_def inj_onD)
  have "vload (set_mem ((k_mem s)(p := b)) s) x = (if x = a then Some b else vload s x)" if "x \<in> G" for x
  proof (cases "x = a")
    case True
    then show ?thesis using p by (simp add: vload_def)
  next
    case False
    then show ?thesis using other [OF that False] by (cases "virt_addr s x") (simp_all add: vload_def)
  qed
  then show ?thesis using p by (intro exI [of _ "set_mem ((k_mem s)(p := b)) s"]) (simp add: vstore_def)
qed

lemma region_Cons: "region a (Suc n) = insert a (region (a + 1) n)"
  unfolding region_def lessThan_Suc_eq_insert_0 by (auto simp: image_image algebra_simps)

lemma vwrite_mapped:
  assumes "mapped s G" and "region a (length bs) \<subseteq> G" and "length bs \<le> 2 ^ 64"
  shows "\<exists>s'. vwrite a bs s = Some s' \<and> virt_addr s' = virt_addr s \<and>
    (\<forall>x\<in>G. vload s' x = (if unat (x - a) < length bs then Some (bs ! unat (x - a)) else vload s x))"
  using assms
proof (induction bs arbitrary: a s)
  case (Cons b bs)
  have "a \<in> G" "region (a + 1) (length bs) \<subseteq> G" using Cons.prems(2) by (simp_all add: region_Cons)
  then obtain s1 where s1: "vstore a b s = Some s1" "virt_addr s1 = virt_addr s" "\<forall>x\<in>G. vload s1 x = (if x = a then Some b else vload s x)"
    using vstore_mapped [OF Cons.prems(1), of a b] by blast
  have "mapped s1 G" using Cons.prems(1) mapped_cong [OF s1(2)] by simp
  then obtain s2 where s2: "vwrite (a + 1) bs s1 = Some s2" "virt_addr s2 = virt_addr s1"
      "\<forall>x\<in>G. vload s2 x = (if unat (x - (a + 1)) < length bs then Some (bs ! unat (x - (a + 1))) else vload s1 x)"
    using Cons.IH [of s1 "a + 1"] \<open>region (a + 1) _ \<subseteq> G\<close> Cons.prems(3) by auto
  have step: "unat (x - a) = Suc (unat (x - (a + 1)))" if "x \<noteq> a" for x
  proof -
    have "x - a \<noteq> 0" using that by simp
    then show ?thesis by (metis Suc_pred' diff_diff_eq unat_gt_0 unat_minus_one)
  qed
  have last: "\<not> unat (a - (a + 1)) < length bs"
  proof -
    have "a - (a + 1) = (- 1 :: u64)" by simp
    then have "unat (a - (a + 1)) = 2 ^ 64 - 1" by (simp add: unsigned_minus_1_eq_mask mask_eq_exp_minus_1)
    then show ?thesis using Cons.prems(3) by simp
  qed
  have "vload s2 x = (if unat (x - a) < length (b # bs) then Some ((b # bs) ! unat (x - a)) else vload s x)" if x: "x \<in> G" for x
  proof (cases "x = a")
    case True
    then show ?thesis using s2(3) s1(3) x last by simp
  next
    case False
    then show ?thesis using s2(3) s1(3) x step [OF False] by simp
  qed
  then show ?case using s1 s2 by auto
qed simp


section \<open>Strings and words\<close>

lemma vread_nth:
  "(\<And>i. i < n \<Longrightarrow> vload s (a + of_nat i) = Some (f i)) \<Longrightarrow> vread s a n = Some (map f [0..<n])"
proof (induction n arbitrary: a f)
  case (Suc n)
  have "vload s (a + 1 + of_nat i) = Some (f (Suc i))" if "i < n" for i using Suc.prems [of "Suc i"] that by (simp add: algebra_simps)
  then have "vread s (a + 1) n = Some (map (\<lambda>i. f (Suc i)) [0..<n])" by (rule Suc.IH)
  moreover have "vload s a = Some (f 0)" using Suc.prems [of 0] by simp
  moreover have "map f [0..<Suc n] = f 0 # map (\<lambda>i. f (Suc i)) [0..<n]"
    by (simp only: upt_conv_Cons [OF zero_less_Suc] list.map map_Suc_upt [symmetric] map_map) (simp add: o_def)
  ultimately show ?case by simp
qed simp

lemma bit_le_word:
  "bit (le_word bs :: 'w::len word) k \<longleftrightarrow> k < LENGTH('w) \<and> k div 8 < length bs \<and> bit (bs ! (k div 8)) (k mod 8)"
proof (induction bs arbitrary: k)
  case (Cons b bs)
  show ?case
  proof (cases "k < 8")
    case True
    then show ?thesis by (simp add: bit_simps)
  next
    case False
    then have "k div 8 = Suc ((k - 8) div 8)" "k mod 8 = (k - 8) mod 8" by (simp_all add: le_div_geq le_mod_geq)
    moreover have "\<not> bit (b :: u8) k" using False by (simp add: bit_word.rep_eq)
    ultimately show ?thesis using False Cons.IH [of "k - 8"] by (auto simp: bit_simps)
  qed
qed simp


lemma le_word_bytes: "LENGTH('w) \<le> 8 * n \<Longrightarrow> le_word (le_bytes n v) = (v :: 'w::len word)"
proof (rule bit_word_eqI)
  fix k
  assume n: "LENGTH('w) \<le> 8 * n" and k: "k < LENGTH('w)"
  then have "k div 8 < n" by linarith
  then have "le_bytes n v ! (k div 8) = (ucast (drop_bit (8 * (k div 8)) v) :: u8)" "k div 8 < length (le_bytes n v)"
    by (simp_all add: le_bytes_def)
  moreover have "8 * (k div 8) + k mod 8 = k" by simp
  ultimately show "bit (le_word (le_bytes n v) :: 'w word) k = bit v k"
    using k by (simp add: bit_le_word bit_simps)
qed

lemma vload64_at:
  assumes "\<And>i. i < 8 \<Longrightarrow> vload s (a + of_nat i) = Some (le_bytes 8 v ! i)"
  shows "vload64 s a = Some v"
proof -
  have "vread s a 8 = Some (map (\<lambda>i. le_bytes 8 v ! i) [0..<8])" using assms by (rule vread_nth)
  moreover have "map (\<lambda>i. le_bytes 8 v ! i) [0..<8] = le_bytes 8 v" by (simp add: le_bytes_def)
  ultimately show ?thesis using le_word_bytes [of 8 v] by (simp add: vload64_def)
qed

text \<open>A string in memory, with its terminating zero.\<close>

definition str_bytes :: "string \<Rightarrow> u8 list" where
  "str_bytes str = map (\<lambda>c. of_nat (of_char c)) str @ [0]"

definition str_at :: "'a kernel_scheme \<Rightarrow> u64 \<Rightarrow> string \<Rightarrow> bool" where
  "str_at s a str \<longleftrightarrow> CHR 0x00 \<notin> set str \<and> (\<forall>i<Suc (length str). vload s (a + of_nat i) = Some (str_bytes str ! i))"

lemma length_str_bytes [simp]: "length (str_bytes str) = Suc (length str)"
  by (simp add: str_bytes_def)

lemma str_at_Cons: "str_at s a (c # cs) \<longleftrightarrow> c \<noteq> CHR 0x00 \<and> vload s a = Some (of_nat (of_char c)) \<and> str_at s (a + 1) cs"
proof -
  have "str_at s a (c # cs) \<longleftrightarrow> CHR 0x00 \<notin> set (c # cs) \<and> vload s (a + of_nat 0) = Some (str_bytes (c # cs) ! 0) \<and>
      (\<forall>i<Suc (length cs). vload s (a + of_nat (Suc i)) = Some (str_bytes (c # cs) ! Suc i))"
    unfolding str_at_def list.size add_0_right add_Suc_right All_less_Suc2 by simp
  then show ?thesis by (auto simp: str_at_def str_bytes_def algebra_simps)
qed

lemma read_cstr_str_at: "str_at s a str \<Longrightarrow> read_cstr s a = Some str"
proof (induction str arbitrary: a)
  case Nil
  then show ?case by (subst read_cstr.simps) (simp add: str_at_def str_bytes_def)
next
  case (Cons c cs)
  have less: "of_char c < (256 :: nat)" by (metis of_char_def of_char_mod_256 mod_less_divisor zero_less_numeral)
  then have "unat (of_nat (of_char c) :: u8) = of_char c" by (simp add: unat_of_nat)
  moreover have "of_char c \<noteq> (0 :: nat)" 
  proof
    assume "of_char c = (0 :: nat)"
    moreover have "of_char (CHR 0x00) = (0 :: nat)" by simp
    ultimately have "c = CHR 0x00" by (metis of_char_eq_iff)
    then show False using Cons.prems by (simp add: str_at_Cons)
  qed
  ultimately have "(of_nat (of_char c) :: u8) \<noteq> 0" "char_of (unat (of_nat (of_char c) :: u8)) = c" by (metis unat_0, simp)
  then show ?case using Cons by (subst read_cstr.simps) (simp add: str_at_Cons)
qed


section \<open>Windows of the address space\<close>

definition win :: "nat \<Rightarrow> nat \<Rightarrow> u64 set" where
  "win lo hi = {x. lo \<le> unat x \<and> unat x < hi}"

lemma region_win:
  assumes "unat a + n \<le> 2 ^ 64"
  shows "region a n = win (unat a) (unat a + n)"
proof
  show "region a n \<subseteq> win (unat a) (unat a + n)"
  proof
    fix x
    assume "x \<in> region a n"
    then obtain i where i: "i < n" "x = a + of_nat i" by (auto simp: region_def)
    have "i < 2 ^ 64" using i(1) assms by linarith
    then have "unat (of_nat i :: u64) = i" by (rule unat_of_nat_u64)
    moreover from this have "unat a + unat (of_nat i :: u64) < 2 ^ 64" using i(1) assms by linarith
    ultimately have "unat x = unat a + i" using unat_add_u64 i(2) by metis
    then show "x \<in> win (unat a) (unat a + n)" using i(1) by (simp add: win_def)
  qed
  show "win (unat a) (unat a + n) \<subseteq> region a n"
  proof
    fix x
    assume "x \<in> win (unat a) (unat a + n)"
    then have "unat a \<le> unat x" "unat x < unat a + n" by (auto simp: win_def)
    then have "unat (x - a) < n" by (simp add: unat_sub_if' )
    then show "x \<in> region a n" unfolding region_def by (intro image_eqI [of _ _ "unat (x - a)"]) simp_all
  qed
qed

lemma win_mono: "lo \<le> lo' \<Longrightarrow> hi' \<le> hi \<Longrightarrow> win lo' hi' \<subseteq> win lo hi"
  by (auto simp: win_def)

lemma win_disjoint: "hi \<le> lo' \<Longrightarrow> win lo hi \<inter> win lo' hi' = {}"
  by (auto simp: win_def)

text \<open>What is outside a set of addresses stays as it was.\<close>

definition keeps :: "'a kernel_scheme \<Rightarrow> 'a kernel_scheme \<Rightarrow> u64 set \<Rightarrow> u64 set \<Rightarrow> bool" where
  "keeps s s' G W \<longleftrightarrow> virt_addr s' = virt_addr s \<and> (\<forall>x\<in>G. x \<notin> W \<longrightarrow> vload s' x = vload s x)"

lemma keeps_trans: "keeps s s1 G W \<Longrightarrow> keeps s1 s2 G W' \<Longrightarrow> keeps s s2 G (W \<union> W')"
  by (simp add: keeps_def)

lemma keeps_mono: "keeps s s' G W \<Longrightarrow> W \<subseteq> W' \<Longrightarrow> keeps s s' G W'"
  by (auto simp: keeps_def)

lemma keeps_str_at:
  assumes "keeps s s' G W" and "str_at s a str" and "region a (Suc (length str)) \<subseteq> G" and "region a (Suc (length str)) \<inter> W = {}"
  shows "str_at s' a str"
proof -
  have "vload s' (a + of_nat i) = vload s (a + of_nat i)" if "i < Suc (length str)" for i
  proof -
    have "a + of_nat i \<in> region a (Suc (length str))" using that by (auto simp: region_def)
    then show ?thesis using assms by (auto simp: keeps_def)
  qed
  then show ?thesis using assms(2) by (simp add: str_at_def)
qed

lemma vread_cong: "(\<And>x. x \<in> region a n \<Longrightarrow> vload s' x = vload s x) \<Longrightarrow> vread s' a n = vread s a n"
  by (induction n arbitrary: a) (simp_all add: region_Cons)

lemma keeps_vload64:
  assumes "keeps s s' G W" and "region a 8 \<subseteq> G" and "region a 8 \<inter> W = {}"
  shows "vload64 s' a = vload64 s a"
proof -
  have "vread s' a 8 = vread s a 8" using assms by (intro vread_cong) (auto simp: keeps_def)
  then show ?thesis by (simp add: vload64_def)
qed

lemma vwrite_keeps:
  assumes m: "mapped s G" and sp: "region a (length bs) \<subseteq> G" and le: "length bs \<le> 2 ^ 64"
  shows "\<exists>s'. vwrite a bs s = Some s' \<and> keeps s s' G (region a (length bs)) \<and> (\<forall>i<length bs. vload s' (a + of_nat i) = Some (bs ! i))"
proof -
  obtain s' where s': "vwrite a bs s = Some s'" "virt_addr s' = virt_addr s"
      "\<forall>x\<in>G. vload s' x = (if unat (x - a) < length bs then Some (bs ! unat (x - a)) else vload s x)"
    using vwrite_mapped [OF assms] by blast
  have "vload s' (a + of_nat i) = Some (bs ! i)" if "i < length bs" for i
  proof -
    have "a + of_nat i \<in> G" using sp that by (auto simp: region_def)
    moreover have "i < 2 ^ 64" using that le by linarith
    then have "unat (a + of_nat i - a) = i" by (simp add: unat_of_nat_u64)
    ultimately show ?thesis using s'(3) that by simp
  qed
  then show ?thesis using s' region_iff [OF le] by (auto simp: keeps_def)
qed

lemma vcopy_vwrite:
  assumes "mapped s G" and "region d n \<subseteq> G" and "region a n \<subseteq> G" and "region a n \<inter> region d n = {}" and "length bs = n"
    and "\<And>i. i < n \<Longrightarrow> vload s (a + of_nat i) = Some (bs ! i)"
  shows "vcopy n d a s = vwrite d bs s"
  using assms
proof (induction n arbitrary: d a s bs)
  case (Suc n)
  obtain b bs' where bs: "bs = b # bs'" using Suc.prems(5) by (cases bs) auto
  have b: "vload s a = Some b" using Suc.prems(6) [of 0] bs by simp
  have d: "d \<in> G" using Suc.prems(2) by (simp add: region_Cons)
  obtain s1 where s1: "vstore d b s = Some s1" "virt_addr s1 = virt_addr s" "\<forall>x\<in>G. vload s1 x = (if x = d then Some b else vload s x)"
    using vstore_mapped [OF Suc.prems(1) d] by blast
  have "mapped s1 G" using Suc.prems(1) mapped_cong [OF s1(2)] by simp
  moreover have "vload s1 (a + 1 + of_nat i) = Some (bs' ! i)" if "i < n" for i
  proof -
    have eq: "a + 1 + of_nat i = a + of_nat (Suc i)" by (simp add: algebra_simps)
    have "a + of_nat (Suc i) \<in> region a (Suc n)"
      unfolding region_def by (rule image_eqI [of _ _ "Suc i"]) (use that in simp_all)
    then have "a + of_nat (Suc i) \<in> G" "a + of_nat (Suc i) \<noteq> d" using Suc.prems(3,4) by (auto simp: region_Cons)
    then show ?thesis using s1(3) Suc.prems(6) [of "Suc i"] that bs unfolding eq by simp
  qed
  moreover have "region (d + 1) n \<subseteq> G" "region (a + 1) n \<subseteq> G" "region (a + 1) n \<inter> region (d + 1) n = {}"
    using Suc.prems(2-4) by (auto simp: region_Cons)
  ultimately have "vcopy n (d + 1) (a + 1) s1 = vwrite (d + 1) bs' s1"
    using Suc.prems(5) bs by (intro Suc.IH) simp_all
  then show ?case using b s1(1) bs by simp
qed simp

end
