(* ===== verification/Exec.thy ===== *)
theory Exec
  imports Socket Umem
begin

text \<open>
  \<open>krnl/task/elf.c\<close> and \<open>krnl/task/exec.c\<close>: loading an ELF image into a new address space, and the call that
  replaces the image of the current thread.

  \<open>sys_execve\<close> returns \<open>ExecFail\<close> (the code's \<open>-1\<close>) or leaves the kernel with \<open>ExecJump\<close> and the registers
  the new program starts with.  Memory is accessed through the page tables that are active at that
  point, as in the theory \<open>Umem\<close>; \<open>None\<close> is a page fault, or a write beyond the end of the array
  \<open>str_addrs\<close>.
\<close>

section \<open>The ELF image\<close>

definition ELF_MAGIC :: u32 where "ELF_MAGIC = 0x464C457F"
definition ELF_CLASS64 :: u8 where "ELF_CLASS64 = 2"
definition ELF_DATA2LSB :: u8 where "ELF_DATA2LSB = 1"
definition ELF_MACH_X86_64 :: u16 where "ELF_MACH_X86_64 = 0x3E"
definition ELF_PT_LOAD :: u32 where "ELF_PT_LOAD = 1"

record elf64_ehdr =
  eh_magic :: u32
  eh_elf_class :: u8
  eh_data_encoding :: u8
  eh_version :: u8
  eh_os_abi :: u8
  eh_abi_version :: u8
  eh_pad :: "u8 list"
  eh_type :: u16
  eh_machine :: u16
  eh_elf_version :: u32
  eh_entry :: u64
  eh_phoff :: u64
  eh_shoff :: u64
  eh_flags :: u32
  eh_ehsize :: u16
  eh_phentsize :: u16
  eh_phnum :: u16
  eh_shentsize :: u16
  eh_shnum :: u16
  eh_shstrndx :: u16

record elf64_phdr =
  ph_type :: u32
  ph_flags :: u32
  ph_offset :: u64
  ph_vaddr :: u64
  ph_paddr :: u64
  ph_filesz :: u64
  ph_memsz :: u64
  ph_align :: u64

text \<open>The packed structures as they lie in memory; the sizes are 64 and 56 bytes.\<close>

definition ELF_EHDR_SIZE :: nat where "ELF_EHDR_SIZE = 64"
definition ELF_PHDR_SIZE :: nat where "ELF_PHDR_SIZE = 56"

definition field :: "u8 list \<Rightarrow> nat \<Rightarrow> nat \<Rightarrow> 'w::len word" where
  "field bs off n = le_word (take n (drop off bs))"

definition ehdr_of :: "u8 list \<Rightarrow> elf64_ehdr" where
  "ehdr_of bs = \<lparr>eh_magic = field bs 0 4, eh_elf_class = field bs 4 1, eh_data_encoding = field bs 5 1, eh_version = field bs 6 1,
     eh_os_abi = field bs 7 1, eh_abi_version = field bs 8 1, eh_pad = take 7 (drop 9 bs), eh_type = field bs 16 2,
     eh_machine = field bs 18 2, eh_elf_version = field bs 20 4, eh_entry = field bs 24 8, eh_phoff = field bs 32 8,
     eh_shoff = field bs 40 8, eh_flags = field bs 48 4, eh_ehsize = field bs 52 2, eh_phentsize = field bs 54 2,
     eh_phnum = field bs 56 2, eh_shentsize = field bs 58 2, eh_shnum = field bs 60 2, eh_shstrndx = field bs 62 2\<rparr>"

definition phdr_of :: "u8 list \<Rightarrow> elf64_phdr" where
  "phdr_of bs = \<lparr>ph_type = field bs 0 4, ph_flags = field bs 4 4, ph_offset = field bs 8 8, ph_vaddr = field bs 16 8,
     ph_paddr = field bs 24 8, ph_filesz = field bs 32 8, ph_memsz = field bs 40 8, ph_align = field bs 48 8\<rparr>"

definition USER_PAGE :: u64 where
  "USER_PAGE = VMM_FLAG_PRESENT OR VMM_FLAG_WRITE OR VMM_FLAG_USER"

definition k_pmm_alloc :: "u64 \<Rightarrow> 'a kernel_scheme \<Rightarrow> u64 \<times> 'a kernel_scheme" where
  "k_pmm_alloc n s =
     (let (phys, pm, m) = pmm_alloc (ks_pmm (vs_slab s)) (k_mem s) n
      in (phys, s\<lparr>vs_slab := (vs_slab s)\<lparr>ks_pmm := pm, ks_mem := m\<rparr>\<rparr>))"

definition k_vmm_map :: "vmm_context \<Rightarrow> u64 \<Rightarrow> u64 \<Rightarrow> u64 \<Rightarrow> 'a kernel_scheme \<Rightarrow> 'a kernel_scheme" where
  "k_vmm_map ctx virt phys flags s = put_vmm (snd (vmm_map ctx virt phys flags (vmm_of s))) s"

text \<open>The pages of a segment; neither \<open>pmm_alloc\<close> nor \<open>vmm_map\<close> is checked for failure.\<close>

fun elf_map_pages :: "vmm_context \<Rightarrow> u64 \<Rightarrow> nat \<Rightarrow> u64 \<Rightarrow> 'a kernel_scheme \<Rightarrow> 'a kernel_scheme" where
  "elf_map_pages ctx aligned_vaddr 0 j s = s"
| "elf_map_pages ctx aligned_vaddr (Suc n) j s =
     (let target_vaddr = aligned_vaddr + j * 0x1000;
          s = (if vmm_virt_to_phys ctx target_vaddr (vmm_of s) = 0
               then
                 let (paddr, s) = k_pmm_alloc 1 s;
                     s = set_mem (snd (memset (k_mem s) (paddr + 0xFFFF800000000000) 0 0x1000)) s
                 in k_vmm_map ctx target_vaddr paddr USER_PAGE s
               else s)
      in elf_map_pages ctx aligned_vaddr n (j + 1) s)"

text \<open>One program header.  The arguments of \<open>vfs_read\<close> are 32 bits wide.\<close>

definition elf_segment ::
  "'a kernel_scheme driver_code \<Rightarrow> u64 \<Rightarrow> vmm_context \<Rightarrow> elf64_phdr \<Rightarrow> 'a kernel_scheme \<Rightarrow> 'a kernel_scheme option" where
  "elf_segment C node ctx ph s = do {
     let memsz = ph_memsz ph;
     let filesz = ph_filesz ph;
     let vaddr = ph_vaddr ph;
     let offset = ph_offset ph;
     let aligned_vaddr = vaddr AND NOT 0xFFF;
     let diff = vaddr - aligned_vaddr;
     let pages = (memsz + diff + 0xFFF) div 0x1000;
     let s = elf_map_pages ctx aligned_vaddr (unat pages) 0 s;
     (temp_buf, s) \<leftarrow> vs_malloc filesz s;
     if temp_buf = NULL then Some s
     else do {
       (n, s) \<leftarrow> vfs_read C node (ucast offset) (ucast filesz) temp_buf s;
       s \<leftarrow> (if ucast n = filesz
             then do {
               let old_cr3 = k_cr3 s;
               let s = put_vmm (vmm_switch_context ctx (vmm_of s)) s;
               s \<leftarrow> vcopy (unat filesz) vaddr temp_buf s;
               s \<leftarrow> vfill (unat (memsz - filesz)) (vaddr + filesz) 0 s;
               Some (s\<lparr>k_cr3 := old_cr3\<rparr>)
             }
             else Some s);
       Some (vs_mfree temp_buf s)
     }
   }"

text \<open>The loop over the \<open>n\<close> program headers from the \<open>i\<close>-th on.\<close>

fun elf_segments ::
  "'a kernel_scheme driver_code \<Rightarrow> u64 \<Rightarrow> vmm_context \<Rightarrow> u64 \<Rightarrow> nat \<Rightarrow> nat \<Rightarrow> 'a kernel_scheme \<Rightarrow> 'a kernel_scheme option" where
  "elf_segments C node ctx phdrs i 0 s = Some s"
| "elf_segments C node ctx phdrs i (Suc n) s = do {
     bs \<leftarrow> vread s (phdrs + of_nat (i * ELF_PHDR_SIZE)) ELF_PHDR_SIZE;
     s \<leftarrow> (if ph_type (phdr_of bs) = ELF_PT_LOAD then elf_segment C node ctx (phdr_of bs) s else Some s);
     elf_segments C node ctx phdrs (Suc i) n s
   }"

definition ehdr_ok :: "elf64_ehdr \<Rightarrow> bool" where
  "ehdr_ok eh \<longleftrightarrow>
     \<not> (eh_magic eh \<noteq> ELF_MAGIC \<or> eh_elf_class eh \<noteq> ELF_CLASS64 \<or> eh_data_encoding eh \<noteq> ELF_DATA2LSB \<or> eh_machine eh \<noteq> ELF_MACH_X86_64) \<and>
     \<not> unat (eh_ehsize eh) < ELF_EHDR_SIZE"

text \<open>\<open>ehdr\<close> is the address of the local header structure.\<close>

definition elf_load ::
  "'a kernel_scheme driver_code \<Rightarrow> u64 \<Rightarrow> u64 \<Rightarrow> vmm_context \<Rightarrow> 'a kernel_scheme \<Rightarrow> (u64 \<times> 'a kernel_scheme) option" where
  "elf_load C ehdr node ctx s =
     (if node = NULL then Some (0, s)
      else do {
        (n, s) \<leftarrow> vfs_read C node 0 (of_nat ELF_EHDR_SIZE) ehdr s;
        if unat n \<noteq> ELF_EHDR_SIZE then Some (0, s)
        else do {
          bs \<leftarrow> vread s ehdr ELF_EHDR_SIZE;
          let eh = ehdr_of bs;
          if \<not> ehdr_ok eh then Some (0, s)
          else do {
            let len = ucast (eh_phnum eh) * of_nat ELF_PHDR_SIZE;
            (phdrs, s) \<leftarrow> vs_malloc len s;
            if phdrs = NULL then Some (0, s)
            else do {
              (n, s) \<leftarrow> vfs_read C node (ucast (eh_phoff eh)) (ucast len) phdrs s;
              if ucast n \<noteq> len then Some (0, vs_mfree phdrs s)
              else do {
                s \<leftarrow> elf_segments C node ctx phdrs 0 (unat (eh_phnum eh)) s;
                Some (eh_entry eh, vs_mfree phdrs s)
              }
            }
          }
        }
      })"

section \<open>The arguments on the new stack\<close>

definition STACK_SIZE :: u64 where "STACK_SIZE = 4096 * 4"
definition STACK_BASE :: u64 where "STACK_BASE = 0x700000000000"

partial_function (option) count_args :: "'a kernel_scheme \<Rightarrow> u64 \<Rightarrow> nat \<Rightarrow> nat option" where
  "count_args s argv argc = do {
     p \<leftarrow> vload64 s (argv + 8 * of_nat argc);
     if p \<noteq> 0 then count_args s argv (Suc argc) else Some argc
   }"

text \<open>The strings, from the last to the first; the addresses are those of \<open>str_addrs\<close>, in order.\<close>

fun push_strings :: "u64 \<Rightarrow> nat \<Rightarrow> u64 \<Rightarrow> u64 list \<Rightarrow> 'a kernel_scheme \<Rightarrow> (u64 \<times> u64 list \<times> 'a kernel_scheme) option" where
  "push_strings argv 0 sp as s = Some (sp, as, s)"
| "push_strings argv (Suc i) sp as s = do {
     p \<leftarrow> vload64 s (argv + 8 * of_nat i);
     str \<leftarrow> read_cstr s p;
     let len = length str + 1;
     let sp = sp - of_nat len;
     s \<leftarrow> vcopy len sp p s;
     push_strings argv i sp (sp # as) s
   }"

fun push_words :: "u64 list \<Rightarrow> u64 \<Rightarrow> 'a kernel_scheme \<Rightarrow> (u64 \<times> 'a kernel_scheme) option" where
  "push_words [] sp s = Some (sp, s)"
| "push_words (w # ws) sp s = do { let sp = sp - 8; s \<leftarrow> vstore64 sp w s; push_words ws sp s }"

text \<open>The part of \<open>sys_execve\<close> that builds the stack: the stack pointer, \<open>argc\<close>, and the address of the vector.\<close>

definition exec_stack :: "u64 \<Rightarrow> 'a kernel_scheme \<Rightarrow> (u64 \<times> nat \<times> u64 \<times> 'a kernel_scheme) option" where
  "exec_stack argv s = do {
     argc \<leftarrow> (if argv \<noteq> NULL then count_args s argv 0 else Some 0);
     if 256 < argc then None
     else do {
       (sp, str_addrs, s) \<leftarrow> push_strings argv argc (STACK_BASE + STACK_SIZE) [] s;
       let sp = sp AND NOT 0xF;
       (sp, s) \<leftarrow> push_words [0] sp s;
       (argv_user, s) \<leftarrow> push_words (rev str_addrs) sp s;
       Some (argv_user AND NOT 0xF, argc, argv_user, s)
     }
   }"

section \<open>The call\<close>

record entry_regs =
  r_rip :: u64
  r_cs :: u64
  r_rflags :: u64
  r_rsp :: u64
  r_ss :: u64
  r_rdi :: u64
  r_rsi :: u64

datatype exec_result = ExecFail | ExecJump entry_regs

text \<open>The frame is pushed on the new stack, and \<open>iretq\<close> pops it from there.\<close>

definition sched_execve_noreturn ::
  "u64 \<Rightarrow> u64 \<Rightarrow> u64 \<Rightarrow> u64 \<Rightarrow> 'a kernel_scheme \<Rightarrow> (entry_regs \<times> 'a kernel_scheme) option" where
  "sched_execve_noreturn entry stack_top argc argv_ptr s = do {
     (sp, s) \<leftarrow> push_words [0x30, stack_top, 0x202, 0x28, entry] stack_top s;
     rip \<leftarrow> vload64 s sp;
     cs \<leftarrow> vload64 s (sp + 8);
     rflags \<leftarrow> vload64 s (sp + 16);
     rsp \<leftarrow> vload64 s (sp + 24);
     ss \<leftarrow> vload64 s (sp + 32);
     Some (\<lparr>r_rip = rip, r_cs = cs, r_rflags = rflags, r_rsp = rsp, r_ss = ss, r_rdi = argc, r_rsi = argv_ptr\<rparr>, s)
   }"

text \<open>The end of \<open>sys_execve\<close>: the stack, and the jump.\<close>

definition exec_start :: "u64 \<Rightarrow> u64 \<Rightarrow> 'a kernel_scheme \<Rightarrow> (entry_regs \<times> 'a kernel_scheme) option" where
  "exec_start entry argv s = do {
     (sp, argc, argv_user, s) \<leftarrow> exec_stack argv s;
     sched_execve_noreturn entry sp (of_nat argc) argv_user s
   }"

definition thread_cred :: "'a kernel_scheme \<Rightarrow> cred option" where
  "thread_cred s = (if current_thread s = NULL then None else Some (th_cred (threads s (current_thread s))))"

definition O_RDONLY :: u32 where "O_RDONLY = 0"

fun exec_map_stack :: "vmm_context \<Rightarrow> nat \<Rightarrow> nat \<Rightarrow> 'a kernel_scheme \<Rightarrow> 'a kernel_scheme" where
  "exec_map_stack ctx i 0 s = s"
| "exec_map_stack ctx i (Suc n) s =
     (let (paddr, s) = k_pmm_alloc 1 s
      in exec_map_stack ctx (Suc i) n (k_vmm_map ctx (STACK_BASE + of_nat (i * 4096)) paddr USER_PAGE s))"

text \<open>\<open>if (!thread->fds[i].node) thread->fds[i].node = kopen("/dev/tty")\<close>.\<close>

definition exec_open_tty :: "'a kernel_scheme driver_code \<Rightarrow> u64 \<Rightarrow> nat \<Rightarrow> 'a kernel_scheme \<Rightarrow> 'a kernel_scheme option" where
  "exec_open_tty C t i s =
     (if fd_node (th_fds (threads s t) i) = NULL
      then do { (node, s) \<leftarrow> kopen C (thread_cred s) (Some ''/dev/tty'') s; Some (upd_fd t i (\<lambda>d. d\<lparr>fd_node := node\<rparr>) s) }
      else Some s)"

definition exec_reset_flags :: "u64 \<Rightarrow> nat \<Rightarrow> 'a kernel_scheme \<Rightarrow> 'a kernel_scheme" where
  "exec_reset_flags t i s = (if fd_node (th_fds (threads s t) i) \<noteq> NULL then upd_fd t i (\<lambda>d. d\<lparr>fd_flags := 0\<rparr>) s else s)"

text \<open>From the new image on the call cannot fail any more.\<close>

definition exec_enter ::
  "'a kernel_scheme driver_code \<Rightarrow> string \<Rightarrow> u64 \<Rightarrow> u64 \<Rightarrow> u64 \<Rightarrow> vmm_context \<Rightarrow> 'a kernel_scheme \<Rightarrow> (entry_regs \<times> 'a kernel_scheme) option" where
  "exec_enter C path argv entry new_ctx ctx s = do {
     let s = exec_map_stack ctx 0 4 s;
     let t = sched_get_current_thread s;
     if t = NULL then None
     else do {
       let old_cr3 = th_cr3 (threads s t);
       let s = upd_thread t (\<lambda>r. r\<lparr>th_cr3 := pml4_phys ctx\<rparr>) s;
       let s = (if old_cr3 \<noteq> pml4_phys (vmm_get_kernel_context (vmm_of s)) then put_vmm (vmm_free_cr3 old_cr3 (vmm_of s)) s else s);
       let s = upd_thread t (\<lambda>r. r\<lparr>th_heap_start := 0x40000000, th_heap_end := 0x40000000, th_mmap_next := 0x8000000000,
             th_name := take 255 path\<rparr>) s;
       s \<leftarrow> exec_open_tty C t 0 s;
       s \<leftarrow> exec_open_tty C t 1 s;
       s \<leftarrow> exec_open_tty C t 2 s;
       let s = exec_reset_flags t 2 (exec_reset_flags t 1 (exec_reset_flags t 0 s));
       let s = put_vmm (vmm_switch_context ctx (vmm_of s)) s;
       let s = k_kfree new_ctx s;
       exec_start entry argv s
     }
   }"

definition sys_execve ::
  "'a kernel_scheme driver_code \<Rightarrow> u64 \<Rightarrow> string option \<Rightarrow> u64 \<Rightarrow> 'a kernel_scheme \<Rightarrow> (exec_result \<times> 'a kernel_scheme) option" where
  "sys_execve C ehdr path argv s = do {
     (node, s) \<leftarrow> uopen C (thread_cred s) path O_RDONLY s;
     if node = NULL then Some (ExecFail, s)
     else
       let (new_ctx, s, v) = vmm_create_context ctx_kmalloc ctx_kfree s (vmm_of s);
           s = put_vmm v s
       in case new_ctx of
            None \<Rightarrow> do { s \<leftarrow> kclose C node s; Some (ExecFail, s) }
          | Some (p, ctx) \<Rightarrow> do {
              (entry, s) \<leftarrow> elf_load C ehdr node ctx s;
              s \<leftarrow> kclose C node s;
              if entry = 0 then Some (ExecFail, s)
              else do { (r, s) \<leftarrow> exec_enter C (the path) argv entry p ctx s; Some (ExecJump r, s) }
            }
   }"

section \<open>The argument vector\<close>

text \<open>\<open>args_at s K argv ps strs\<close>: a null-terminated vector at \<open>argv\<close> of pointers \<open>ps\<close> to the strings \<open>strs\<close>, all of it
  in \<open>K\<close>.\<close>

definition args_at :: "'a kernel_scheme \<Rightarrow> u64 set \<Rightarrow> u64 \<Rightarrow> u64 list \<Rightarrow> string list \<Rightarrow> bool" where
  "args_at s K argv ps strs \<longleftrightarrow>
     argv \<noteq> NULL \<and> length ps = length strs \<and>
     (\<forall>i<length strs. vload64 s (argv + 8 * of_nat i) = Some (ps ! i) \<and> ps ! i \<noteq> 0 \<and> str_at s (ps ! i) (strs ! i) \<and>
        region (ps ! i) (Suc (length (strs ! i))) \<subseteq> K) \<and>
     (\<forall>i\<le>length strs. region (argv + 8 * of_nat i) 8 \<subseteq> K) \<and>
     vload64 s (argv + 8 * of_nat (length strs)) = Some 0"

definition strs_size :: "string list \<Rightarrow> nat" where
  "strs_size strs = sum_list (map (\<lambda>str. length str + 1) strs)"

lemma args_at_keeps:
  assumes a: "args_at s K argv ps strs" and k: "keeps s s' G W" and "K \<subseteq> G" and "K \<inter> W = {}"
  shows "args_at s' K argv ps strs"
proof -
  have "vload64 s' (argv + 8 * of_nat i) = vload64 s (argv + 8 * of_nat i)" if "i \<le> length strs" for i
  proof -
    have "region (argv + 8 * of_nat i) 8 \<subseteq> K" using a that by (simp add: args_at_def)
    then show ?thesis using assms(3,4) by (intro keeps_vload64 [OF k]) blast+
  qed
  moreover have "str_at s' (ps ! i) (strs ! i)" if "i < length strs" for i
  proof -
    have "region (ps ! i) (Suc (length (strs ! i))) \<subseteq> K" "str_at s (ps ! i) (strs ! i)" using a that by (simp_all add: args_at_def)
    then show ?thesis using assms(3,4) by (intro keeps_str_at [OF k]) blast+
  qed
  ultimately show ?thesis using a by (simp add: args_at_def)
qed

lemma count_args_eq:
  assumes "args_at s K argv ps strs"
  shows "i \<le> length strs \<Longrightarrow> count_args s argv i = Some (length strs)"
proof (induction "length strs - i" arbitrary: i)
  case 0
  then show ?case using assms by (subst count_args.simps) (simp add: args_at_def)
next
  case (Suc n)
  then have "vload64 s (argv + 8 * of_nat i) = Some (ps ! i)" "ps ! i \<noteq> 0" using assms by (simp_all add: args_at_def)
  moreover have "count_args s argv (Suc i) = Some (length strs)" using Suc.hyps(2) by (intro Suc.hyps(1)) simp_all
  ultimately show ?case by (subst count_args.simps) simp
qed

text \<open>A stack that grows down inside the window \<open>win lo hi\<close>.\<close>

lemma region_below:
  assumes "n \<le> unat (sp :: u64)"
  shows "unat (sp - of_nat n) = unat sp - n" "region (sp - of_nat n) n = win (unat sp - n) (unat sp)"
proof -
  have n: "unat (of_nat n :: u64) = n" using assms unat_u64_bound [of sp] by (intro unat_of_nat_u64) linarith
  then show e: "unat (sp - of_nat n) = unat sp - n" using assms unat_sub_le [of "of_nat n" sp] by (simp add: word_le_unat)
  have "unat (sp - of_nat n) + n \<le> 2 ^ 64" unfolding e using assms unat_u64_bound [of sp] by linarith
  from region_win [OF this] show "region (sp - of_nat n) n = win (unat sp - n) (unat sp)" using assms by (simp add: e)
qed

lemma push_words_correct:
  assumes "mapped s G" and "win lo (unat sp) \<subseteq> G" and "lo + 8 * length ws \<le> unat sp"
  shows "\<exists>s'. push_words ws sp s = Some (sp - of_nat (8 * length ws), s') \<and> keeps s s' G (win (unat sp - 8 * length ws) (unat sp)) \<and>
    (\<forall>i<length ws. vload64 s' (sp - of_nat (8 * Suc i)) = Some (ws ! i))"
  using assms
proof (induction ws arbitrary: sp s)
  case Nil
  then show ?case by (simp add: keeps_def win_def)
next
  case (Cons w ws)
  define sp1 where "sp1 = sp - of_nat 8"
  have 8: "8 \<le> unat sp" using Cons.prems(3) by simp
  have sp1: "unat sp1 = unat sp - 8" and reg: "region sp1 8 = win (unat sp - 8) (unat sp)"
    using region_below [OF 8] by (simp_all add: sp1_def)
  have top: "win (unat sp - 8) (unat sp) \<subseteq> G"
    by (rule subset_trans [OF win_mono Cons.prems(2)]) (use Cons.prems(3) in simp_all)
  then have "region sp1 (length (le_bytes 8 w)) \<subseteq> G" by (simp add: le_bytes_def reg)
  from vwrite_keeps [OF Cons.prems(1) this] obtain s1 where s1: "vstore64 sp1 w s = Some s1"
      "keeps s s1 G (win (unat sp - 8) (unat sp))" and b: "\<forall>i<8. vload s1 (sp1 + of_nat i) = Some (le_bytes 8 w ! i)"
    by (auto simp: vstore64_def le_bytes_def reg)
  have w: "vload64 s1 sp1 = Some w" using b by (intro vload64_at) simp
  have "mapped s1 G" using Cons.prems(1) mapped_cong s1(2) by (auto simp: keeps_def)
  moreover have "win lo (unat sp1) \<subseteq> G" using Cons.prems(2) win_mono [of lo lo "unat sp1" "unat sp"] by (auto simp: sp1)
  moreover have "lo + 8 * length ws \<le> unat sp1" using Cons.prems(3) by (simp add: sp1)
  ultimately obtain s2 where s2: "push_words ws sp1 s1 = Some (sp1 - of_nat (8 * length ws), s2)"
      "keeps s1 s2 G (win (unat sp1 - 8 * length ws) (unat sp1))" "\<forall>i<length ws. vload64 s2 (sp1 - of_nat (8 * Suc i)) = Some (ws ! i)"
    using Cons.IH by blast
  have "vload64 s2 sp1 = Some w"
  proof -
    have "win (unat sp - 8) (unat sp) \<inter> win (unat sp1 - 8 * length ws) (unat sp1) = {}"
      by (auto simp: win_def sp1)
    then show ?thesis using w keeps_vload64 [OF s2(2), of sp1] top reg by simp
  qed
  then have "\<forall>i<length (w # ws). vload64 s2 (sp - of_nat (8 * Suc i)) = Some ((w # ws) ! i)"
    using s2(3) by (auto simp: less_Suc_eq_0_disj sp1_def algebra_simps)
  moreover have "keeps s s2 G (win (unat sp - 8 * length (w # ws)) (unat sp))"
    by (rule keeps_mono [OF keeps_trans [OF s1(2) s2(2)]]) (auto simp: win_def sp1)
  moreover have "push_words (w # ws) sp s = Some (sp - of_nat (8 * length (w # ws)), s2)"
    using s1(1) s2(1) by (simp add: sp1_def algebra_simps)
  ultimately show ?case by blast
qed


lemma push_strings_correct:
  assumes "mapped s G" and "args_at s K argv ps strs" and "K \<union> win lo (unat sp) \<subseteq> G" and "K \<inter> win lo (unat sp) = {}"
    and "lo + strs_size (take n strs) \<le> unat sp" and "n \<le> length strs"
  shows "\<exists>as' s'. push_strings argv n sp as s = Some (sp - of_nat (strs_size (take n strs)), as' @ as, s') \<and> length as' = n \<and>
    keeps s s' G (win (unat sp - strs_size (take n strs)) (unat sp)) \<and>
    (\<forall>i<n. str_at s' (as' ! i) (strs ! i) \<and>
       region (as' ! i) (Suc (length (strs ! i))) \<subseteq> win (unat sp - strs_size (take n strs)) (unat sp))"
  using assms
proof (induction n arbitrary: sp s as)
  case 0
  then show ?case by (simp add: keeps_def strs_size_def)
next
  case (Suc n)
  define str p len where "str = strs ! n" and "p = ps ! n" and "len = Suc (length str)"
  define sp1 where "sp1 = sp - of_nat len"
  have size: "strs_size (take (Suc n) strs) = strs_size (take n strs) + len"
    using Suc.prems(6) by (simp add: strs_size_def take_Suc_conv_app_nth len_def str_def)
  have p: "vload64 s (argv + 8 * of_nat n) = Some p" "str_at s p str" "region p len \<subseteq> K"
    using Suc.prems(2,6) by (simp_all add: args_at_def p_def str_def len_def)
  have le: "len \<le> unat sp" using Suc.prems(5) size by simp
  have sp1: "unat sp1 = unat sp - len" and reg: "region sp1 len = win (unat sp - len) (unat sp)"
    using region_below [OF le] by (simp_all add: sp1_def)
  have top: "win (unat sp - len) (unat sp) \<subseteq> win lo (unat sp)"
    by (rule win_mono) (use Suc.prems(5) size in simp_all)
  have inG: "region sp1 len \<subseteq> G" "region p len \<subseteq> G" "region p len \<inter> region sp1 len = {}"
    unfolding reg using top p(3) Suc.prems(3,4) by blast+
  have "vcopy len sp1 p s = vwrite sp1 (str_bytes str) s"
    by (rule vcopy_vwrite [OF Suc.prems(1) inG]) (use p(2) in \<open>simp_all add: len_def str_at_def\<close>)
  moreover have "length (str_bytes str) \<le> 2 ^ 64" using le unat_u64_bound [of sp] unfolding length_str_bytes len_def by linarith
  ultimately obtain s1 where s1: "vcopy len sp1 p s = Some s1" "keeps s s1 G (win (unat sp - len) (unat sp))"
      "\<forall>i<len. vload s1 (sp1 + of_nat i) = Some (str_bytes str ! i)"
    using vwrite_keeps [OF Suc.prems(1), of sp1 "str_bytes str"] inG(1) by (auto simp: len_def reg [unfolded len_def])
  have str1: "str_at s1 sp1 str" using p(2) s1(3) by (simp add: str_at_def len_def)
  have m1: "mapped s1 G" using Suc.prems(1) mapped_cong s1(2) by (auto simp: keeps_def)
  have "K \<inter> win (unat sp - len) (unat sp) = {}" using top Suc.prems(4) by blast
  then have a1: "args_at s1 K argv ps strs" using args_at_keeps [OF Suc.prems(2) s1(2)] Suc.prems(3) by blast
  have low: "win lo (unat sp1) \<subseteq> win lo (unat sp)" by (rule win_mono) (simp_all add: sp1)
  obtain as' s2 where s2: "push_strings argv n sp1 (sp1 # as) s1 = Some (sp1 - of_nat (strs_size (take n strs)), as' @ sp1 # as, s2)"
      "length as' = n" "keeps s1 s2 G (win (unat sp1 - strs_size (take n strs)) (unat sp1))"
      "\<forall>i<n. str_at s2 (as' ! i) (strs ! i) \<and> region (as' ! i) (Suc (length (strs ! i))) \<subseteq> win (unat sp1 - strs_size (take n strs)) (unat sp1)"
  proof -
    have "K \<union> win lo (unat sp1) \<subseteq> G" "K \<inter> win lo (unat sp1) = {}" using low Suc.prems(3,4) by blast+
    moreover have "lo + strs_size (take n strs) \<le> unat sp1" "n \<le> length strs" using Suc.prems(5,6) size sp1 by simp_all
    ultimately show thesis using Suc.IH [OF m1 a1, of sp1 "sp1 # as"] that by blast
  qed
  have mono: "win (unat sp1 - strs_size (take n strs)) (unat sp1) \<subseteq> win (unat sp - strs_size (take (Suc n) strs)) (unat sp)"
    by (rule win_mono) (use size sp1 in simp_all)
  have "win (unat sp1 - strs_size (take n strs)) (unat sp1) \<inter> win (unat sp - len) (unat sp) = {}"
    by (rule win_disjoint) (simp add: sp1)
  then have "str_at s2 sp1 str"
    using keeps_str_at [OF s2(3) str1] inG(1) reg unfolding len_def by (simp add: Int_commute)
  moreover have "region sp1 len \<subseteq> win (unat sp - strs_size (take (Suc n) strs)) (unat sp)"
    unfolding reg by (rule win_mono) (use size in simp_all)
  ultimately have "\<forall>i<Suc n. str_at s2 ((as' @ [sp1]) ! i) (strs ! i) \<and>
      region ((as' @ [sp1]) ! i) (Suc (length (strs ! i))) \<subseteq> win (unat sp - strs_size (take (Suc n) strs)) (unat sp)"
    using s2(2,4) mono by (auto simp: less_Suc_eq nth_append str_def len_def)
  moreover have "keeps s s2 G (win (unat sp - strs_size (take (Suc n) strs)) (unat sp))"
    by (rule keeps_mono [OF keeps_trans [OF s1(2) s2(3)]]) (auto simp: win_def sp1 size)
  moreover have "push_strings argv (Suc n) sp as s = Some (sp - of_nat (strs_size (take (Suc n) strs)), (as' @ [sp1]) @ as, s2)"
  proof -
    have "push_strings argv (Suc n) sp as s = push_strings argv n sp1 (sp1 # as) s1"
      using p(1) read_cstr_str_at [OF p(2)] s1(1) by (simp add: Let_def sp1_def len_def del: vcopy.simps)
    then show ?thesis using s2(1) by (simp add: size sp1_def algebra_simps)
  qed
  ultimately show ?case using s2(2) by (intro exI [of _ "as' @ [sp1]"] exI [of _ s2]) simp
qed


lemma align16: "unat (x AND NOT 0xF :: u64) = unat x - unat x mod 16"
  using and_not_mask_unat [of x 4] by (simp add: mask_eq_exp_minus_1)

text \<open>The vector itself: the addresses and a null word, from \<open>av\<close> up to the old stack pointer.\<close>

lemma push_vector:
  assumes m: "mapped s G" and G: "win lo (unat sp) \<subseteq> G" and fit: "lo + 8 * Suc (length as) \<le> unat sp"
  shows "\<exists>av s'. push_words (0 # rev as) sp s = Some (av, s') \<and> unat av = unat sp - 8 * Suc (length as) \<and>
    keeps s s' G (win (unat av) (unat sp)) \<and>
    (\<forall>i\<le>length as. vload64 s' (av + 8 * of_nat i) = Some (if i = length as then 0 else as ! i) \<and>
       region (av + 8 * of_nat i) 8 \<subseteq> win (unat av) (unat sp))"
proof -
  let ?n = "length as" and ?ws = "0 # rev as"
  obtain s' where s': "push_words ?ws sp s = Some (sp - of_nat (8 * Suc ?n), s')"
      "keeps s s' G (win (unat sp - 8 * Suc ?n) (unat sp))" "\<forall>i<Suc ?n. vload64 s' (sp - of_nat (8 * Suc i)) = Some (?ws ! i)"
    using push_words_correct [OF m G, of ?ws] fit by auto
  define av where "av = sp - of_nat (8 * Suc ?n)"
  have av: "unat av = unat sp - 8 * Suc ?n" unfolding av_def using fit by (intro region_below(1)) simp
  have "vload64 s' (av + 8 * of_nat i) = Some (if i = ?n then 0 else as ! i) \<and> region (av + 8 * of_nat i) 8 \<subseteq> win (unat av) (unat sp)"
    if i: "i \<le> ?n" for i
  proof -
    have "8 * Suc ?n = 8 * Suc (?n - i) + 8 * i" using i by simp
    then have "of_nat (8 * Suc ?n) = (of_nat (8 * Suc (?n - i)) + of_nat (8 * i) :: u64)" by (simp only: of_nat_add)
    then have e: "av + 8 * of_nat i = sp - of_nat (8 * Suc (?n - i))" by (simp add: av_def del: mult_Suc_right)
    have le: "8 * Suc (?n - i) \<le> unat sp" using fit by simp
    then have u: "unat (av + 8 * of_nat i) = unat sp - 8 * Suc (?n - i)" unfolding e by (rule region_below(1))
    then have top: "unat (av + 8 * of_nat i) + 8 \<le> unat sp" using le by simp
    then have "unat (av + 8 * of_nat i) + 8 \<le> 2 ^ 64" using unat_u64_bound [of sp] by linarith
    moreover have "unat av \<le> unat (av + 8 * of_nat i)" unfolding u av by simp
    ultimately have "region (av + 8 * of_nat i) 8 \<subseteq> win (unat av) (unat sp)" using region_win win_mono top by metis
    moreover have "vload64 s' (av + 8 * of_nat i) = Some (if i = ?n then 0 else as ! i)"
      using s'(3) [rule_format, of "?n - i"] i unfolding e by (auto simp: nth_Cons' rev_nth)
    ultimately show ?thesis by blast
  qed
  then show ?thesis using s'(1,2) av by (intro exI [of _ av] exI [of _ s']) (simp add: av_def)
qed

abbreviation exec_stack_win :: "u64 set" where
  "exec_stack_win \<equiv> win (unat STACK_BASE) (unat (STACK_BASE + STACK_SIZE))"

lemma exec_stack_correct:
  assumes m: "mapped s (K \<union> exec_stack_win)" and d: "K \<inter> exec_stack_win = {}" and a: "args_at s K argv ps strs"
    and n: "length strs \<le> 256" and room: "strs_size strs + 8 * length strs + 80 \<le> 16384"
  shows "\<exists>sp argv_user as s'. exec_stack argv s = Some (sp, length strs, argv_user, s') \<and>
    16 dvd unat sp \<and> unat STACK_BASE + 40 \<le> unat sp \<and> unat sp \<le> unat argv_user \<and> length as = length strs \<and>
    keeps s s' (K \<union> exec_stack_win) exec_stack_win \<and>
    (\<forall>i<length strs. vload64 s' (argv_user + 8 * of_nat i) = Some (as ! i) \<and>
       region (argv_user + 8 * of_nat i) 8 \<subseteq> win (unat argv_user) (unat (STACK_BASE + STACK_SIZE)) \<and>
       str_at s' (as ! i) (strs ! i) \<and>
       region (as ! i) (Suc (length (strs ! i))) \<subseteq> win (unat argv_user) (unat (STACK_BASE + STACK_SIZE))) \<and>
    vload64 s' (argv_user + 8 * of_nat (length strs)) = Some 0 \<and>
    region (argv_user + 8 * of_nat (length strs)) 8 \<subseteq> win (unat argv_user) (unat (STACK_BASE + STACK_SIZE))"
proof -
  let ?G = "K \<union> exec_stack_win" and ?lo = "unat STACK_BASE" and ?hi = "unat (STACK_BASE + STACK_SIZE)" and ?n = "length strs"
  define top where "top = STACK_BASE + STACK_SIZE"
  have hi: "?hi = ?lo + 16384" by (simp add: STACK_BASE_def STACK_SIZE_def)
  have cnt: "count_args s argv 0 = Some ?n" "argv \<noteq> NULL" using count_args_eq [OF a, of 0] a by (simp_all add: args_at_def)
  obtain as s1 where s1: "push_strings argv ?n top [] s = Some (top - of_nat (strs_size strs), as, s1)" "length as = ?n"
      "keeps s s1 ?G (win (?hi - strs_size strs) ?hi)"
      "\<forall>i<?n. str_at s1 (as ! i) (strs ! i) \<and> region (as ! i) (Suc (length (strs ! i))) \<subseteq> win (?hi - strs_size strs) ?hi"
    using push_strings_correct [OF m a, of ?lo top ?n "[]"] d room hi by (auto simp: top_def)
  define sp1 where "sp1 = top - of_nat (strs_size strs)"
  define sp2 where "sp2 = sp1 AND NOT 0xF"
  have "strs_size strs \<le> unat top" using room hi by (simp add: top_def)
  then have sp1: "unat sp1 = ?hi - strs_size strs" unfolding sp1_def using region_below(1) by (simp add: top_def)
  have sp2: "unat sp2 = unat sp1 - unat sp1 mod 16" unfolding sp2_def by (rule align16)
  have sp2': "16 dvd unat sp2" "unat sp2 \<le> unat sp1" "unat sp1 < unat sp2 + 16" unfolding sp2 by (auto simp: dvd_minus_mod)
  have m1: "mapped s1 ?G" using m mapped_cong s1(3) by (auto simp: keeps_def)
  have low: "win ?lo (unat sp2) \<subseteq> ?G"
  proof (rule le_supI2)
    show "win ?lo (unat sp2) \<subseteq> exec_stack_win" by (rule win_mono) (use sp2'(2) sp1 in simp_all)
  qed
  have fit: "?lo + 56 + 8 * Suc ?n \<le> unat sp2" using sp2'(3) sp1 hi room by simp
  then obtain av s2 where s2: "push_words (0 # rev as) sp2 s1 = Some (av, s2)" "keeps s1 s2 ?G (win (unat av) (unat sp2))"
      and av: "unat av = unat sp2 - 8 * Suc ?n"
      and word: "\<forall>i\<le>?n. vload64 s2 (av + 8 * of_nat i) = Some (if i = ?n then 0 else as ! i) \<and>
        region (av + 8 * of_nat i) 8 \<subseteq> win (unat av) (unat sp2)"
    using push_vector [OF m1 low, of as] s1(2) by auto
  have slot: "region (av + 8 * of_nat i) 8 \<subseteq> win (unat av) ?hi" if "i \<le> ?n" for i
  proof -
    have "win (unat av) (unat sp2) \<subseteq> win (unat av) ?hi" by (rule win_mono) (use sp2'(2) sp1 in simp_all)
    then show ?thesis using word that by blast
  qed
  have below: "win (?hi - strs_size strs) ?hi \<inter> win (unat av) (unat sp2) = {}"
    using sp2'(2) sp1 by (auto simp: win_def)
  have strs: "str_at s2 (as ! i) (strs ! i)" "region (as ! i) (Suc (length (strs ! i))) \<subseteq> win (unat av) ?hi" if "i < ?n" for i
  proof -
    have r: "region (as ! i) (Suc (length (strs ! i))) \<subseteq> win (?hi - strs_size strs) ?hi" "str_at s1 (as ! i) (strs ! i)"
      using s1(4) that by blast+
    have "win (?hi - strs_size strs) ?hi \<subseteq> exec_stack_win" by (rule win_mono) (use hi room in simp_all)
    then show "str_at s2 (as ! i) (strs ! i)" using r below by (intro keeps_str_at [OF s2(2) r(2)]) blast+
    have "win (?hi - strs_size strs) ?hi \<subseteq> win (unat av) ?hi" by (rule win_mono) (use av sp2'(2) sp1 in simp_all)
    then show "region (as ! i) (Suc (length (strs ! i))) \<subseteq> win (unat av) ?hi" using r(1) by blast
  qed
  have keep: "keeps s s2 ?G exec_stack_win"
    by (rule keeps_mono [OF keeps_trans [OF s1(3) s2(2)]]) (use hi room fit av sp2'(2) sp1 in \<open>auto simp: win_def\<close>)
  define sp where "sp = av AND NOT 0xF"
  have sp: "unat sp = unat av - unat av mod 16" unfolding sp_def by (rule align16)
  have "unat av mod 16 \<le> 15" using pos_mod_bound [of 16] by (simp add: less_Suc_eq_le flip: numeral_eq_Suc)
  moreover have "?lo + 56 \<le> unat av" using av fit by simp
  ultimately have sp': "unat sp \<le> unat av" "?lo + 40 \<le> unat sp" unfolding sp by linarith+
  have al: "16 dvd unat sp" unfolding sp by (rule dvd_minus_mod)
  have run: "exec_stack argv s = Some (sp, ?n, av, s2)"
    using cnt n s1(1) s2(1) unfolding sp_def sp2_def sp1_def top_def by (auto simp: exec_stack_def Let_def bind_eq_Some_conv)
  show ?thesis
    by (intro exI conjI allI impI, rule run, rule al, rule sp', rule sp', rule s1(2), rule keep)
      (use word slot strs in auto)
qed

lemma execve_noreturn_regs:
  assumes "mapped s G" and "win lo (unat sp) \<subseteq> G" and "lo + 40 \<le> unat sp"
  shows "\<exists>s'. sched_execve_noreturn entry sp argc av s =
      Some (\<lparr>r_rip = entry, r_cs = 0x28, r_rflags = 0x202, r_rsp = sp, r_ss = 0x30, r_rdi = argc, r_rsi = av\<rparr>, s') \<and>
    keeps s s' G (win (unat sp - 40) (unat sp))"
proof -
  let ?ws = "[0x30, sp, 0x202, 0x28, entry]"
  from push_words_correct [OF assms(1,2), of ?ws] obtain s' where s': "push_words ?ws sp s = Some (sp - 40, s')"
      "keeps s s' G (win (unat sp - 40) (unat sp))" "\<forall>i<5. vload64 s' (sp - of_nat (8 * Suc i)) = Some (?ws ! i)"
    using assms(3) by auto
  have "vload64 s' (sp - 40) = Some entry" "vload64 s' (sp - 40 + 8) = Some 0x28" "vload64 s' (sp - 40 + 16) = Some 0x202"
      "vload64 s' (sp - 40 + 24) = Some sp" "vload64 s' (sp - 40 + 32) = Some 0x30"
    using s'(3) [rule_format, of 4] s'(3) [rule_format, of 3] s'(3) [rule_format, of 2] s'(3) [rule_format, of 1] s'(3) [rule_format, of 0]
    by simp_all
  then show ?thesis using s'(1,2) by (simp add: sched_execve_noreturn_def)
qed

text \<open>C12: The arguments of a new program.  Let the vector at \<open>argv\<close> hold the strings \<open>strs\<close> (at most 256) in memory \<open>K\<close> that
  is mapped and apart from the four pages of the new stack, and let the strings, the vector and the frame fit
  into the stack.  Then the call enters the program at its entry point with kernel segments, interrupts enabled, a
  stack pointer that is a multiple of 16, the number of the arguments in \<open>rdi\<close>, and in \<open>rsi\<close> a null-terminated vector of
  addresses at which the strings can be read again; \<open>K\<close> is unchanged.\<close>

theorem exec_start_args:
  assumes "mapped s (K \<union> exec_stack_win)" and "K \<inter> exec_stack_win = {}" and "args_at s K argv ps strs"
    and "length strs \<le> 256" and "strs_size strs + 8 * length strs + 80 \<le> 16384"
  shows "\<exists>r as s'. exec_start entry argv s = Some (r, s') \<and>
    r_rip r = entry \<and> r_cs r = 0x28 \<and> r_ss r = 0x30 \<and> r_rflags r = 0x202 \<and> 16 dvd unat (r_rsp r) \<and>
    r_rdi r = of_nat (length strs) \<and> length as = length strs \<and>
    (\<forall>i<length strs. vload64 s' (r_rsi r + 8 * of_nat i) = Some (as ! i) \<and> read_cstr s' (as ! i) = Some (strs ! i)) \<and>
    vload64 s' (r_rsi r + 8 * of_nat (length strs)) = Some 0 \<and> (\<forall>x\<in>K. vload s' x = vload s x)"
proof -
  let ?G = "K \<union> exec_stack_win" and ?lo = "unat STACK_BASE" and ?hi = "unat (STACK_BASE + STACK_SIZE)" and ?n = "length strs"
  obtain sp av as s1 where s1: "exec_stack argv s = Some (sp, ?n, av, s1)" "16 dvd unat sp" "?lo + 40 \<le> unat sp" "unat sp \<le> unat av"
      "length as = ?n" "keeps s s1 ?G exec_stack_win"
      "\<forall>i<?n. vload64 s1 (av + 8 * of_nat i) = Some (as ! i) \<and> region (av + 8 * of_nat i) 8 \<subseteq> win (unat av) ?hi \<and>
         str_at s1 (as ! i) (strs ! i) \<and> region (as ! i) (Suc (length (strs ! i))) \<subseteq> win (unat av) ?hi"
      "vload64 s1 (av + 8 * of_nat ?n) = Some 0" "region (av + 8 * of_nat ?n) 8 \<subseteq> win (unat av) ?hi"
    using exec_stack_correct [OF assms] by blast
  have "av + 8 * of_nat ?n + of_nat 0 \<in> region (av + 8 * of_nat ?n) 8" by (rule region_mem) simp
  then have "unat av < ?hi" using s1(9) by (auto simp: win_def)
  then have low: "win ?lo (unat sp) \<subseteq> ?G" using s1(4) by (auto simp: win_def)
  have "mapped s1 ?G" using assms(1) mapped_cong s1(6) by (auto simp: keeps_def)
  from execve_noreturn_regs [OF this low s1(3), of entry "of_nat ?n" av] obtain s2 where
    run: "sched_execve_noreturn entry sp (of_nat ?n) av s1 =
      Some (\<lparr>r_rip = entry, r_cs = 0x28, r_rflags = 0x202, r_rsp = sp, r_ss = 0x30, r_rdi = of_nat ?n, r_rsi = av\<rparr>, s2)"
    and s2: "keeps s1 s2 ?G (win (unat sp - 40) (unat sp))" by blast
  have apart: "X \<subseteq> ?G" "X \<inter> win (unat sp - 40) (unat sp) = {}" if "X \<subseteq> win (unat av) ?hi" for X
    using that s1(3,4) by (auto simp: win_def)
  have args: "vload64 s2 (av + 8 * of_nat i) = Some (as ! i)" "read_cstr s2 (as ! i) = Some (strs ! i)" if "i < ?n" for i
  proof -
    note i = s1(7) [rule_format, OF that]
    show "vload64 s2 (av + 8 * of_nat i) = Some (as ! i)"
      using i apart [of "region (av + 8 * of_nat i) 8"] keeps_vload64 [OF s2, of "av + 8 * of_nat i"] by simp
    have "str_at s2 (as ! i) (strs ! i)" by (rule keeps_str_at [OF s2]) (use i apart in blast)+
    then show "read_cstr s2 (as ! i) = Some (strs ! i)" by (rule read_cstr_str_at)
  qed
  have last: "vload64 s2 (av + 8 * of_nat ?n) = Some 0" using keeps_vload64 [OF s2] apart [OF s1(9)] s1(8) by simp
  have "keeps s s2 ?G exec_stack_win"
    by (rule keeps_mono [OF keeps_trans [OF s1(6) s2]]) (use s1(3,4) \<open>unat av < ?hi\<close> in \<open>auto simp: win_def\<close>)
  then have K: "\<forall>x\<in>K. vload s2 x = vload s x" using assms(2) by (auto simp: keeps_def)
  have "exec_start entry argv s = sched_execve_noreturn entry sp (of_nat ?n) av s1" by (simp add: exec_start_def s1(1))
  then show ?thesis unfolding run
    by (intro exI conjI) (assumption, (use args last K s1(2,5) in auto))
qed

text \<open>An address space with one page of 512 GB at 0x200000 under every address, and a vector with one argument in
  kernel memory.\<close>

definition exec_example :: kernel where
  "exec_example = kernel_example\<lparr>k_tab := (\<lambda>_. 0x200083),
     vs_slab := (vs_slab kernel_example)\<lparr>ks_mem := (\<lambda>a. if a = 0xFFFFFFFF90000000 then 0 else if a = 0xFFFFFFFF90000001 then 1
       else if a = 0xFFFFFFFF90000002 then 0 else if a = 0xFFFFFFFF90000003 then 0x90
       else if a = 0xFFFFFFFF90000004 then 0xFF else if a = 0xFFFFFFFF90000005 then 0xFF
       else if a = 0xFFFFFFFF90000006 then 0xFF else if a = 0xFFFFFFFF90000007 then 0xFF
       else if a = 0xFFFFFFFF90000100 then 0x6C else if a = 0xFFFFFFFF90000101 then 0x73 else 0)\<rparr>\<rparr>"

abbreviation exec_example_args :: "u64 set" where
  "exec_example_args \<equiv> win 0xFFFFFFFF90000000 0xFFFFFFFF90000200"

lemma exec_example_low: "unat (0x200000 + (a AND 0x7FFFFFFFFF) :: u64) = 0x200000 + unat a mod 2 ^ 39"
proof -
  have "unat (a AND 0x7FFFFFFFFF) = unat a mod 2 ^ 39"
  proof -
    have "a AND 0x7FFFFFFFFF = take_bit 39 a" by (simp add: take_bit_eq_mask mask_eq_exp_minus_1)
    then have "unat (a AND 0x7FFFFFFFFF) = take_bit 39 (unat a)" by (simp only: unsigned_take_bit_eq)
    then show ?thesis by (simp only: take_bit_eq_mod)
  qed
  moreover have "unat a mod 2 ^ 39 < 2 ^ 39" by simp
  ultimately have "unat (0x200000 :: u64) + unat (a AND 0x7FFFFFFFFF) < 2 ^ 64" by simp
  from unat_add_u64 [OF this] show ?thesis using \<open>unat (a AND _) = _\<close> by simp
qed

lemma exec_example_addr: "virt_addr exec_example a = Some (if HHDM \<le> a then a else 0x200000 + (a AND 0x7FFFFFFFFF))"
proof -
  have "unat (0x200000 + (a AND 0x7FFFFFFFFF) :: u64) \<noteq> 0" unfolding exec_example_low by simp
  then have "0x200000 + (a AND 0x7FFFFFFFFF) \<noteq> 0" by (metis unat_0)
  moreover have "hhdm_offset (ks_pmm (vs_slab exec_example)) = 0" by code_simp
  ultimately show ?thesis
    by (simp add: virt_addr_def vmm_virt_to_phys_def get_next_level_def pt_entry_def vmm_of_def v_virt_def phys_to_virt_def
      exec_example_def VMM_FLAG_PRESENT_def VMM_FLAG_HUGE_def VMM_PHYS_MASK_def)
qed

lemma exec_example_mapped: "mapped exec_example (exec_example_args \<union> exec_stack_win)"
proof -
  have stack: "unat STACK_BASE = 224 * 2 ^ 39" "unat (STACK_BASE + STACK_SIZE) = 224 * 2 ^ 39 + 16384" "unat HHDM = 0xFFFF800000000000"
    by (simp_all add: STACK_BASE_def STACK_SIZE_def HHDM_def)
  have low: "\<not> HHDM \<le> a \<and> unat (0x200000 + (a AND 0x7FFFFFFFFF)) = 0x200000 + (unat a - 224 * 2 ^ 39)" if "a \<in> exec_stack_win" for a
  proof -
    have "224 * 2 ^ 39 \<le> unat a" "unat a < 224 * 2 ^ 39 + 16384" using that by (simp_all add: win_def stack)
    then have "unat a = (unat a - 224 * 2 ^ 39) + 224 * 2 ^ 39" "unat a - 224 * 2 ^ 39 < 2 ^ 39" by simp_all
    then have "unat a mod 2 ^ 39 = unat a - 224 * 2 ^ 39" by (metis mod_less mod_mult_self1)
    then show ?thesis unfolding exec_example_low using \<open>unat a < _\<close> by (simp add: word_le_unat stack)
  qed
  have high: "HHDM \<le> a" "0xFFFFFFFF90000000 \<le> unat a" if "a \<in> exec_example_args" for a
    using that by (simp_all add: win_def word_le_unat stack)
  show ?thesis unfolding mapped_def
  proof (intro conjI inj_onI ballI)
    fix x y
    assume "x \<in> exec_example_args \<union> exec_stack_win" "y \<in> exec_example_args \<union> exec_stack_win"
      and eq: "virt_addr exec_example x = virt_addr exec_example y"
    then consider "x \<in> exec_example_args" "y \<in> exec_example_args" | "x \<in> exec_example_args" "y \<in> exec_stack_win"
      | "x \<in> exec_stack_win" "y \<in> exec_example_args" | "x \<in> exec_stack_win" "y \<in> exec_stack_win" by blast
    then show "x = y"
    proof cases
      case 1 then show ?thesis using eq high by (simp add: exec_example_addr)
    next
      case 2
      then have "x = 0x200000 + (y AND 0x7FFFFFFFFF)" using eq high low by (simp add: exec_example_addr)
      then have "unat x = 0x200000 + (unat y - 224 * 2 ^ 39)" using low [OF 2(2)] by simp
      then show ?thesis using high(2) [OF 2(1)] 2(2) unfolding win_def stack mem_Collect_eq by linarith
    next
      case 3
      then have "y = 0x200000 + (x AND 0x7FFFFFFFFF)" using eq high low by (simp add: exec_example_addr)
      then have "unat y = 0x200000 + (unat x - 224 * 2 ^ 39)" using low [OF 3(1)] by simp
      then show ?thesis using high(2) [OF 3(2)] 3(1) unfolding win_def stack mem_Collect_eq by linarith
    next
      case 4
      then have "0x200000 + (x AND 0x7FFFFFFFFF) = 0x200000 + (y AND 0x7FFFFFFFFF)" using eq low by (simp add: exec_example_addr)
      then have "unat x - 224 * 2 ^ 39 = unat y - 224 * 2 ^ 39" using low 4 by (metis add_left_cancel)
      then have "unat x = unat y" using 4 unfolding win_def stack mem_Collect_eq by linarith
      then show ?thesis by (simp add: word_unat_eq_iff)
    qed
  qed (simp add: exec_example_addr)
qed

theorem exec_start_args_witness:
  "\<exists>r a s'. exec_start 0x401000 0xFFFFFFFF90000000 exec_example = Some (r, s') \<and> r_rip r = 0x401000 \<and> 16 dvd unat (r_rsp r) \<and>
     r_rdi r = 1 \<and> vload64 s' (r_rsi r) = Some a \<and> read_cstr s' a = Some ''ls'' \<and> vload64 s' (r_rsi r + 8) = Some 0"
proof -
  let ?argv = "0xFFFFFFFF90000000 :: u64" and ?p = "0xFFFFFFFF90000100 :: u64"
  have "vload64 exec_example ?argv = Some ?p" "vload64 exec_example (?argv + 8) = Some 0" by code_simp+
  moreover have "str_at exec_example ?p ''ls''" by code_simp
  moreover have "region ?p (Suc (Suc (Suc 0))) \<subseteq> exec_example_args" "region ?argv 8 \<subseteq> exec_example_args" "region (?argv + 8) 8 \<subseteq> exec_example_args"
    by (subst region_win; simp add: win_mono)+
  ultimately have "args_at exec_example exec_example_args ?argv [?p] [''ls'']" by (auto simp: args_at_def le_Suc_eq)
  moreover have "exec_example_args \<inter> exec_stack_win = {}" by (auto simp: win_def STACK_BASE_def STACK_SIZE_def)
  ultimately show ?thesis
    using exec_start_args [OF exec_example_mapped, of ?argv "[?p]" "[''ls'']" "0x401000"] by (auto simp: strs_size_def)
qed

end
