(* ===== verification/Syscall.thy ===== *)
theory Syscall
  imports Exec
begin

text \<open>
  \<open>krnl/api/syscall.c\<close>: the system calls and the dispatcher behind interrupt 0x80.  The calls work on
  the current thread: its file descriptors, its break and its mappings.  \<open>int\<close> arguments are
  32-bit words read as signed numbers; results of type \<open>int\<close> are numbers, extended with their
  sign to the 64-bit result of the dispatcher.

  The drivers' code is the argument \<open>C\<close> of the file system layer.  Structures in user memory
  are in typed stores of the state; strings and buffers are bytes.
\<close>

section \<open>State\<close>

record user = net +
  um_stat :: "u64 \<Rightarrow> stat"
  um_dirent :: "u64 \<Rightarrow> dirent"

definition cur :: "'a kernel_scheme \<Rightarrow> thread" where
  "cur s = threads s (current_thread s)"

section \<open>Files\<close>

definition sys_open :: "'a kernel_scheme driver_code \<Rightarrow> string option \<Rightarrow> u32 \<Rightarrow> 'a kernel_scheme \<Rightarrow> (int \<times> 'a kernel_scheme) option" where
  "sys_open C path flags s =
     (if path = None then Some (- 1, s)
      else if current_thread s = NULL then Some (- 1, s)
      else
        case free_fd (cur s) of
          None \<Rightarrow> Some (- 1, s)
        | Some fd \<Rightarrow> do {
            let t = current_thread s;
            (node, s) \<leftarrow> uopen C (thread_cred s) path flags s;
            if node = NULL then Some (- 1, s)
            else Some (int fd, upd_fd t fd (\<lambda>_. \<lparr>fd_node = node, fd_offset = 0, fd_flags = flags\<rparr>) s)
          })"

definition sys_read :: "'a kernel_scheme driver_code \<Rightarrow> u32 \<Rightarrow> u64 \<Rightarrow> u64 \<Rightarrow> 'a kernel_scheme \<Rightarrow> (int \<times> 'a kernel_scheme) option" where
  "sys_read C fd buffer sz s =
     (if buffer = NULL \<or> \<not> open_fd s fd then Some (- 1, s)
      else do {
        let t = current_thread s;
        (bytes_read, s) \<leftarrow> vfs_read C (fd_node (fd_of s fd)) (fd_offset (fd_of s fd)) (ucast sz) buffer s;
        Some (sint bytes_read, upd_fd t (nat (sint fd)) (\<lambda>d. d\<lparr>fd_offset := fd_offset d + bytes_read\<rparr>) s)
      })"

definition sys_write :: "'a kernel_scheme driver_code \<Rightarrow> u32 \<Rightarrow> u64 \<Rightarrow> u64 \<Rightarrow> 'a kernel_scheme \<Rightarrow> (int \<times> 'a kernel_scheme) option" where
  "sys_write C fd buffer sz s =
     (if buffer = NULL \<or> \<not> open_fd s fd then Some (- 1, s)
      else do {
        let t = current_thread s;
        (bytes_written, s) \<leftarrow> vfs_write C (fd_node (fd_of s fd)) (fd_offset (fd_of s fd)) (ucast sz) buffer s;
        Some (sint bytes_written, upd_fd t (nat (sint fd)) (\<lambda>d. d\<lparr>fd_offset := fd_offset d + bytes_written\<rparr>) s)
      })"

definition put_stat :: "u64 \<Rightarrow> stat \<Rightarrow> 'a user_scheme \<Rightarrow> 'a user_scheme" where
  "put_stat a b s = s\<lparr>um_stat := (um_stat s)(a := b)\<rparr>"

definition sys_stat :: "'a user_scheme driver_code \<Rightarrow> string option \<Rightarrow> u64 \<Rightarrow> 'a user_scheme \<Rightarrow> (int \<times> 'a user_scheme) option" where
  "sys_stat C path statbuf s =
     (if path = None \<or> statbuf = NULL then Some (- 1, s)
      else do {
        (node, s) \<leftarrow> uopen C (thread_cred s) path O_RDONLY s;
        if node = NULL then Some (- 1, s)
        else do {
          (b, s) \<leftarrow> kstat C node (um_stat s statbuf) s;
          s \<leftarrow> kclose C node (put_stat statbuf b s);
          Some (0, s)
        }
      })"

definition sys_fstat :: "'a user_scheme driver_code \<Rightarrow> u32 \<Rightarrow> u64 \<Rightarrow> 'a user_scheme \<Rightarrow> (int \<times> 'a user_scheme) option" where
  "sys_fstat C fd statbuf s =
     (if statbuf = NULL \<or> \<not> open_fd s fd then Some (- 1, s)
      else do {
        (b, s) \<leftarrow> kstat C (fd_node (fd_of s fd)) (um_stat s statbuf) s;
        Some (0, put_stat statbuf b s)
      })"

definition SEEK_SET :: u32 where "SEEK_SET = 0"
definition SEEK_CUR :: u32 where "SEEK_CUR = 1"
definition SEEK_END :: u32 where "SEEK_END = 2"

definition sys_lseek :: "u32 \<Rightarrow> u32 \<Rightarrow> u32 \<Rightarrow> 'a kernel_scheme \<Rightarrow> int \<times> 'a kernel_scheme" where
  "sys_lseek fd offset whence s =
     (if \<not> open_fd s fd then (- 1, s)
      else
        let d = fd_of s fd;
            new = (if whence = SEEK_SET then offset
                   else if whence = SEEK_CUR then fd_offset d + offset
                   else if whence = SEEK_END then vn_size (vs_nodes s (fd_node d)) + offset
                   else fd_offset d)
        in (sint new, upd_fd (current_thread s) (nat (sint fd)) (\<lambda>d. d\<lparr>fd_offset := new\<rparr>) s))"

definition sys_close :: "'a kernel_scheme driver_code \<Rightarrow> u32 \<Rightarrow> 'a kernel_scheme \<Rightarrow> (int \<times> 'a kernel_scheme) option" where
  "sys_close C fd s =
     (if \<not> open_fd s fd then Some (- 1, s)
      else do {
        let t = current_thread s;
        s \<leftarrow> kclose C (fd_node (fd_of s fd)) s;
        Some (0, upd_fd t (nat (sint fd)) (\<lambda>_. \<lparr>fd_node = NULL, fd_offset = 0, fd_flags = 0\<rparr>) s)
      })"

definition sys_readdir :: "'a user_scheme driver_code \<Rightarrow> u32 \<Rightarrow> u64 \<Rightarrow> u32 \<Rightarrow> 'a user_scheme \<Rightarrow> (int \<times> 'a user_scheme) option" where
  "sys_readdir C fd dirent index s =
     (if dirent = NULL \<or> \<not> open_fd s fd then Some (- 1, s)
      else do {
        (res, s) \<leftarrow> vfs_readdir C (fd_node (fd_of s fd)) index s;
        case res of
          Some d \<Rightarrow> Some (1, s\<lparr>um_dirent := (um_dirent s)(dirent := d)\<rparr>)
        | None \<Rightarrow> Some (0, s)
      })"

definition sys_chdir :: "'a kernel_scheme driver_code \<Rightarrow> string option \<Rightarrow> 'a kernel_scheme \<Rightarrow> (int \<times> 'a kernel_scheme) option" where
  "sys_chdir C path s =
     (if path = None then Some (- 1, s)
      else do {
        (node, s) \<leftarrow> uopen C (thread_cred s) path O_RDONLY s;
        if node = NULL then Some (- 1, s)
        else if vn_type (vs_nodes s node) \<noteq> VFS_DIRECTORY \<and> vn_type (vs_nodes s node) \<noteq> VFS_MOUNTPOINT
        then do { s \<leftarrow> kclose C node s; Some (- 1, s) }
        else do {
          let t = current_thread s;
          s \<leftarrow> (if th_cwd (threads s t) \<noteq> NULL then kclose C (th_cwd (threads s t)) s else Some s);
          Some (0, upd_thread t (\<lambda>r. r\<lparr>th_cwd := node\<rparr>) s)
        }
      })"

definition sys_ioctl :: "'a kernel_scheme driver_code \<Rightarrow> u32 \<Rightarrow> u32 \<Rightarrow> u64 \<Rightarrow> 'a kernel_scheme \<Rightarrow> (int \<times> 'a kernel_scheme) option" where
  "sys_ioctl C fd request arg s =
     (if \<not> open_fd s fd then Some (- 1, s)
      else
        case node_op C op_ioctl (fd_node (fd_of s fd)) s of
          Some f \<Rightarrow> f (fd_node (fd_of s fd)) request arg s
        | None \<Rightarrow> Some (- 1, s))"

definition sys_time :: "(u8 \<Rightarrow> u8) \<Rightarrow> u64 \<Rightarrow> 'a kernel_scheme \<Rightarrow> (u64 \<times> 'a kernel_scheme) option" where
  "sys_time cmos tloc s = do {
     current_time \<leftarrow> rtc_get_unix_time cmos;
     s \<leftarrow> (if tloc \<noteq> NULL then vstore64 tloc current_time s else Some s);
     Some (current_time, s)
   }"

section \<open>Memory\<close>

definition thread_ctx :: "thread \<Rightarrow> vmm_context" where
  "thread_ctx t = \<lparr>pml4_phys = th_cr3 t, pml4_virt = th_cr3 t + HHDM\<rparr>"

definition page_up :: "u64 \<Rightarrow> u64" where
  "page_up a = (a + 0xFFF) AND NOT 0xFFF"

text \<open>A new zeroed page mapped at \<open>p\<close>; \<open>False\<close> when there is none.\<close>

definition map_zeroed :: "vmm_context \<Rightarrow> u64 \<Rightarrow> 'a kernel_scheme \<Rightarrow> bool \<times> 'a kernel_scheme" where
  "map_zeroed ctx p s =
     (let (phys, s) = k_pmm_alloc 1 s
      in if phys = NULL then (False, s)
         else
           let s = set_mem (snd (memset (k_mem s) (phys + HHDM) 0 0x1000)) s
           in (True, k_vmm_map ctx p phys USER_PAGE s))"

partial_function (option) brk_loop :: "vmm_context \<Rightarrow> u64 \<Rightarrow> u64 \<Rightarrow> 'a kernel_scheme \<Rightarrow> (bool \<times> 'a kernel_scheme) option" where
  "brk_loop ctx p new_aligned s =
     (if p < new_aligned
      then let (ok, s) = map_zeroed ctx p s in if ok then brk_loop ctx (p + 0x1000) new_aligned s else Some (False, s)
      else Some (True, s))"

definition sys_brk :: "u64 \<Rightarrow> 'a kernel_scheme \<Rightarrow> (u64 \<times> 'a kernel_scheme) option" where
  "sys_brk addr s =
     (if current_thread s = NULL then Some (0, s)
      else if addr = 0 \<or> addr < th_heap_start (cur s) then Some (th_heap_end (cur s), s)
      else do {
        let t = current_thread s;
        let current_aligned = page_up (th_heap_end (cur s));
        let new_aligned = page_up addr;
        (ok, s) \<leftarrow> (if current_aligned < new_aligned then brk_loop (thread_ctx (cur s)) current_aligned new_aligned s else Some (True, s));
        if \<not> ok then Some (th_heap_end (threads s t), s)
        else Some (addr, upd_thread t (\<lambda>r. r\<lparr>th_heap_end := addr\<rparr>) s)
      })"

partial_function (option) mmap_loop :: "vmm_context \<Rightarrow> u64 \<Rightarrow> u64 \<Rightarrow> 'a kernel_scheme \<Rightarrow> (bool \<times> 'a kernel_scheme) option" where
  "mmap_loop ctx p stop s =
     (if p < stop
      then
        let (ok, s) = (if vmm_virt_to_phys ctx p (vmm_of s) = 0 then map_zeroed ctx p s else (True, s))
        in if ok then mmap_loop ctx (p + 0x1000) stop s else Some (False, s)
      else Some (True, s))"

text \<open>The start of a mapping: the next free address of the thread, or the given one rounded up.\<close>

definition mmap_start :: "u64 \<Rightarrow> u64 \<Rightarrow> u64 \<Rightarrow> 'a kernel_scheme \<Rightarrow> u64 \<times> 'a kernel_scheme" where
  "mmap_start t addr len s =
     (if addr = 0
      then
        let s = (if th_mmap_next (threads s t) = 0 then upd_thread t (\<lambda>r. r\<lparr>th_mmap_next := 0x8000000000\<rparr>) s else s)
        in (th_mmap_next (threads s t), upd_thread t (\<lambda>r. r\<lparr>th_mmap_next := th_mmap_next r + len\<rparr>) s)
      else (page_up addr, s))"

definition sys_mmap :: "u64 \<Rightarrow> u64 \<Rightarrow> u32 \<Rightarrow> u32 \<Rightarrow> u32 \<Rightarrow> u32 \<Rightarrow> 'a kernel_scheme \<Rightarrow> (u64 \<times> 'a kernel_scheme) option" where
  "sys_mmap addr len prot flags fd offset s =
     (if len = 0 then Some (- 1, s)
      else if current_thread s = NULL then Some (- 1, s)
      else do {
        let len = page_up len;
        let t = current_thread s;
        let (vaddr, s) = mmap_start t addr len s;
        (ok, s) \<leftarrow> mmap_loop (thread_ctx (threads s t)) vaddr (vaddr + len) s;
        Some (if ok then vaddr else - 1, s)
      })"

partial_function (option) munmap_loop :: "vmm_context \<Rightarrow> u64 \<Rightarrow> u64 \<Rightarrow> 'a kernel_scheme \<Rightarrow> 'a kernel_scheme option" where
  "munmap_loop ctx p stop s =
     (if p < stop
      then
        let phys = vmm_virt_to_phys ctx p (vmm_of s);
            s = (if phys = 0 then s
                 else
                   let (pm, m) = pmm_free (ks_pmm (vs_slab s)) (k_mem s) phys 1;
                       s = s\<lparr>vs_slab := (vs_slab s)\<lparr>ks_pmm := pm, ks_mem := m\<rparr>\<rparr>
                   in put_vmm (snd (vmm_unmap ctx p (vmm_of s))) s)
        in munmap_loop ctx (p + 0x1000) stop s
      else Some s)"

definition sys_munmap :: "u64 \<Rightarrow> u64 \<Rightarrow> 'a kernel_scheme \<Rightarrow> (int \<times> 'a kernel_scheme) option" where
  "sys_munmap addr len s =
     (if addr = NULL \<or> len = 0 then Some (- 1, s)
      else if current_thread s = NULL then Some (- 1, s)
      else do {
        let len = page_up len;
        let t = current_thread s;
        s \<leftarrow> munmap_loop (thread_ctx (cur s)) addr (addr + len) s;
        Some (0, s\<lparr>k_cr3 := th_cr3 (threads s t)\<rparr>)
      })"


section \<open>Ids and names\<close>

text \<open>\<open>pid_t\<close> is a signed, \<open>uid_t\<close> and \<open>gid_t\<close> are unsigned 32-bit types.\<close>

definition sys_getpid :: "'a kernel_scheme \<Rightarrow> int" where
  "sys_getpid s = (if current_thread s = NULL then - 1 else sint (ucast (th_id (cur s)) :: u32))"

definition sys_getuid :: "'a kernel_scheme \<Rightarrow> u32" where
  "sys_getuid s = (if current_thread s = NULL then - 1 else cr_euid (th_cred (cur s)))"

definition sys_getgid :: "'a kernel_scheme \<Rightarrow> u32" where
  "sys_getgid s = (if current_thread s = NULL then - 1 else cr_egid (th_cred (cur s)))"

definition sys_setuid :: "u32 \<Rightarrow> 'a kernel_scheme \<Rightarrow> 'a kernel_scheme" where
  "sys_setuid uid s =
     (if current_thread s = NULL then s else upd_thread (current_thread s) (\<lambda>t. t\<lparr>th_cred := (th_cred t)\<lparr>cr_euid := uid\<rparr>\<rparr>) s)"

definition sys_setgid :: "u32 \<Rightarrow> 'a kernel_scheme \<Rightarrow> 'a kernel_scheme" where
  "sys_setgid gid s =
     (if current_thread s = NULL then s else upd_thread (current_thread s) (\<lambda>t. t\<lparr>th_cred := (th_cred t)\<lparr>cr_egid := gid\<rparr>\<rparr>) s)"

definition sys_create :: "'a kernel_scheme driver_code \<Rightarrow> string option \<Rightarrow> u32 \<Rightarrow> 'a kernel_scheme \<Rightarrow> (int \<times> 'a kernel_scheme) option" where
  "sys_create C path flags s = (case path of None \<Rightarrow> Some (- 1, s) | Some p \<Rightarrow> kcreate C (th_cwd (cur s)) p (ucast flags) s)"

definition sys_remove :: "'a kernel_scheme driver_code \<Rightarrow> string option \<Rightarrow> 'a kernel_scheme \<Rightarrow> (int \<times> 'a kernel_scheme) option" where
  "sys_remove C path s = (case path of None \<Rightarrow> Some (- 1, s) | Some p \<Rightarrow> kremove C (th_cwd (cur s)) p s)"

definition sys_rename :: "'a kernel_scheme driver_code \<Rightarrow> string option \<Rightarrow> string option \<Rightarrow> 'a kernel_scheme \<Rightarrow> (int \<times> 'a kernel_scheme) option" where
  "sys_rename C oldname newname s =
     (case (oldname, newname) of
        (Some a, Some b) \<Rightarrow> vfs_rename C (th_cwd (cur s)) a b s
      | _ \<Rightarrow> Some (- 1, s))"

definition sys_mkdir :: "'a kernel_scheme driver_code \<Rightarrow> string option \<Rightarrow> u32 \<Rightarrow> 'a kernel_scheme \<Rightarrow> (int \<times> 'a kernel_scheme) option" where
  "sys_mkdir C path flags s = (case path of None \<Rightarrow> Some (- 1, s) | Some p \<Rightarrow> kmkdir C (th_cwd (cur s)) p (ucast flags) s)"

definition sys_rmdir :: "'a kernel_scheme driver_code \<Rightarrow> string option \<Rightarrow> 'a kernel_scheme \<Rightarrow> (int \<times> 'a kernel_scheme) option" where
  "sys_rmdir C path s = (case path of None \<Rightarrow> Some (- 1, s) | Some p \<Rightarrow> krmdir C (th_cwd (cur s)) p s)"

text \<open>The calls open and close the node and change nothing else: the change itself is commented out.\<close>

definition sys_chmod :: "'a kernel_scheme driver_code \<Rightarrow> string option \<Rightarrow> u32 \<Rightarrow> 'a kernel_scheme \<Rightarrow> (int \<times> 'a kernel_scheme) option" where
  "sys_chmod C path mode s =
     (if path = None then Some (- 1, s)
      else do {
        (node, s) \<leftarrow> uopen C (thread_cred s) path O_RDONLY s;
        if node = NULL then Some (- 1, s) else do { s \<leftarrow> kclose C node s; Some (0, s) }
      })"

definition sys_chown :: "'a kernel_scheme driver_code \<Rightarrow> string option \<Rightarrow> u32 \<Rightarrow> u32 \<Rightarrow> 'a kernel_scheme \<Rightarrow> (int \<times> 'a kernel_scheme) option" where
  "sys_chown C path owner grp s =
     (if path = None then Some (- 1, s)
      else do {
        (node, s) \<leftarrow> uopen C (thread_cred s) path O_RDONLY s;
        if node = NULL then Some (- 1, s) else do { s \<leftarrow> kclose C node s; Some (0, s) }
      })"

section \<open>The dispatcher\<close>

definition path_arg :: "'a kernel_scheme \<Rightarrow> u64 \<Rightarrow> string option option" where
  "path_arg s p = (if p = NULL then Some None else map_option Some (read_cstr s p))"

text \<open>The code outside of \<open>syscall.c\<close> and the machine state that the dispatcher uses: the drivers, the
  clock, the table of socket operations, the address of the local header of \<open>elf_load\<close>, and the stack
  pointer that \<open>sched_fork\<close> passes on after saving the registers.\<close>

record 's call_env =
  e_code :: "'s driver_code"
  e_cmos :: "u8 \<Rightarrow> u8"
  e_socket_ops :: u64
  e_ehdr :: u64
  e_rsp :: u64

text \<open>A call returns a value, waits and is tried again, or enters a new program.\<close>

datatype call_result = Return u64 | Wait | Enter entry_regs

definition ret :: "(int \<times> 's) option \<Rightarrow> (call_result \<times> 's) option" where
  "ret r = map_option (\<lambda>(n, s). (Return (of_int n), s)) r"

definition ret_io :: "int io \<times> 's \<Rightarrow> (call_result \<times> 's) option" where
  "ret_io = (\<lambda>(r, s). Some (case r of Done n \<Rightarrow> Return (of_int n) | Yield \<Rightarrow> Wait, s))"

definition ret64 :: "(u64 \<times> 's) option \<Rightarrow> (call_result \<times> 's) option" where
  "ret64 r = map_option (\<lambda>(n, s). (Return n, s)) r"

definition waitpid_call :: "u64 \<Rightarrow> u64 \<Rightarrow> 'a user_scheme \<Rightarrow> (call_result \<times> 'a user_scheme) option" where
  "waitpid_call pid status s = do {
     (w, s) \<leftarrow> sched_waitpid pid s;
     case w of
       WaitFail \<Rightarrow> Some (Return (- 1), s)
     | WaitAgain \<Rightarrow> Some (Wait, s)
     | WaitReaped p code \<Rightarrow> do {
         s \<leftarrow> (if status \<noteq> NULL then vwrite status (le_bytes 4 code) s else Some s);
         Some (Return (scast p), s)
       }
   }"

definition execve_call ::
  "'a user_scheme driver_code \<Rightarrow> u64 \<Rightarrow> string option \<Rightarrow> u64 \<Rightarrow> 'a user_scheme \<Rightarrow> (call_result \<times> 'a user_scheme) option" where
  "execve_call C ehdr path argv s = do {
     (r, s) \<leftarrow> sys_execve C ehdr path argv s;
     Some (case r of ExecFail \<Rightarrow> Return (- 1) | ExecJump regs \<Rightarrow> Enter regs, s)
   }"

datatype sysnum =
  SYS_READ | SYS_WRITE | SYS_OPEN | SYS_CLOSE | SYS_FORK | SYS_EXECVE | SYS_EXIT | SYS_WAITPID | SYS_READDIR | SYS_CHDIR
| SYS_IOCTL | SYS_BRK | SYS_KILL | SYS_LSEEK | SYS_MMAP | SYS_MUNMAP | SYS_GETPID | SYS_GETUID | SYS_GETGID | SYS_SETUID
| SYS_SETGID | SYS_CREATE | SYS_REMOVE | SYS_RENAME | SYS_MKDIR | SYS_RMDIR | SYS_CHMOD | SYS_CHOWN | SYS_STAT | SYS_FSTAT
| SYS_SOCKET | SYS_CONNECT | SYS_ACCEPT | SYS_BIND | SYS_LISTEN

definition sysnums :: "(u64 \<times> sysnum) list" where
  "sysnums = zip (map of_nat ([0..<30] @ [41, 42, 43, 46, 47]))
     [SYS_READ, SYS_WRITE, SYS_OPEN, SYS_CLOSE, SYS_FORK, SYS_EXECVE, SYS_EXIT, SYS_WAITPID, SYS_READDIR, SYS_CHDIR,
      SYS_IOCTL, SYS_BRK, SYS_KILL, SYS_LSEEK, SYS_MMAP, SYS_MUNMAP, SYS_GETPID, SYS_GETUID, SYS_GETGID, SYS_SETUID,
      SYS_SETGID, SYS_CREATE, SYS_REMOVE, SYS_RENAME, SYS_MKDIR, SYS_RMDIR, SYS_CHMOD, SYS_CHOWN, SYS_STAT, SYS_FSTAT,
      SYS_SOCKET, SYS_CONNECT, SYS_ACCEPT, SYS_BIND, SYS_LISTEN]"

text \<open>The strings are read when their call is made; \<open>None\<close> is a string without an end.\<close>

definition dispatch ::
  "'a user_scheme call_env \<Rightarrow> sysnum \<Rightarrow> u64 \<Rightarrow> u64 \<Rightarrow> u64 \<Rightarrow> u64 \<Rightarrow> u64 \<Rightarrow> 'a user_scheme \<Rightarrow> (call_result \<times> 'a user_scheme) option" where
  "dispatch E num arg1 arg2 arg3 arg4 arg5 s =
     (let C = e_code E
      in case num of
        SYS_READ \<Rightarrow> ret (sys_read C (ucast arg1) arg2 arg3 s)
      | SYS_WRITE \<Rightarrow> ret (sys_write C (ucast arg1) arg2 arg3 s)
      | SYS_OPEN \<Rightarrow> do { p \<leftarrow> path_arg s arg1; ret (sys_open C p (ucast arg2) s) }
      | SYS_CLOSE \<Rightarrow> ret (sys_close C (ucast arg1) s)
      | SYS_FORK \<Rightarrow> ret64 (sched_fork_internal (e_cmos E) (e_rsp E) s)
      | SYS_EXECVE \<Rightarrow> do { p \<leftarrow> path_arg s arg1; execve_call C (e_ehdr E) p arg2 s }
      | SYS_EXIT \<Rightarrow> Some (if current_thread s = NULL then Return 0 else Wait, sched_exit (ucast arg1) s)
      | SYS_WAITPID \<Rightarrow> waitpid_call arg1 arg2 s
      | SYS_READDIR \<Rightarrow> ret (sys_readdir C (ucast arg1) arg2 (ucast arg3) s)
      | SYS_CHDIR \<Rightarrow> do { p \<leftarrow> path_arg s arg1; ret (sys_chdir C p s) }
      | SYS_IOCTL \<Rightarrow> ret (sys_ioctl C (ucast arg1) (ucast arg2) arg3 s)
      | SYS_BRK \<Rightarrow> ret64 (sys_brk arg1 s)
      | SYS_KILL \<Rightarrow> ret (sched_kill arg1 (ucast arg2) s)
      | SYS_LSEEK \<Rightarrow> ret (Some (sys_lseek (ucast arg1) (ucast arg2) (ucast arg3) s))
      | SYS_MMAP \<Rightarrow> ret64 (sys_mmap arg1 arg2 (ucast arg3) (ucast arg4) (ucast arg5) 0 s)
      | SYS_MUNMAP \<Rightarrow> ret (sys_munmap arg1 arg2 s)
      | SYS_GETPID \<Rightarrow> ret (Some (sys_getpid s, s))
      | SYS_GETUID \<Rightarrow> Some (Return (ucast (sys_getuid s)), s)
      | SYS_GETGID \<Rightarrow> Some (Return (ucast (sys_getgid s)), s)
      | SYS_SETUID \<Rightarrow> Some (Return 0, sys_setuid (ucast arg1) s)
      | SYS_SETGID \<Rightarrow> Some (Return 0, sys_setgid (ucast arg1) s)
      | SYS_CREATE \<Rightarrow> do { p \<leftarrow> path_arg s arg1; ret (sys_create C p (ucast arg2) s) }
      | SYS_REMOVE \<Rightarrow> do { p \<leftarrow> path_arg s arg1; ret (sys_remove C p s) }
      | SYS_RENAME \<Rightarrow> do { p \<leftarrow> path_arg s arg1; q \<leftarrow> path_arg s arg2; ret (sys_rename C p q s) }
      | SYS_MKDIR \<Rightarrow> do { p \<leftarrow> path_arg s arg1; ret (sys_mkdir C p (ucast arg2) s) }
      | SYS_RMDIR \<Rightarrow> do { p \<leftarrow> path_arg s arg1; ret (sys_rmdir C p s) }
      | SYS_CHMOD \<Rightarrow> do { p \<leftarrow> path_arg s arg1; ret (sys_chmod C p (ucast arg2) s) }
      | SYS_CHOWN \<Rightarrow> do { p \<leftarrow> path_arg s arg1; ret (sys_chown C p (ucast arg2) (ucast arg3) s) }
      | SYS_STAT \<Rightarrow> do { p \<leftarrow> path_arg s arg1; ret (sys_stat C p arg2 s) }
      | SYS_FSTAT \<Rightarrow> ret (sys_fstat C (ucast arg1) arg2 s)
      | SYS_SOCKET \<Rightarrow> ret (Some (sys_socket (e_socket_ops E) (ucast arg1) (ucast arg2) (ucast arg3) s))
      | SYS_BIND \<Rightarrow> ret (Some (sys_bind (ucast arg1) arg2 arg3 s))
      | SYS_LISTEN \<Rightarrow> ret (Some (sys_listen (ucast arg1) (ucast arg2) s))
      | SYS_ACCEPT \<Rightarrow> ret_io (sys_accept (e_socket_ops E) (ucast arg1) arg2 arg3 s)
      | SYS_CONNECT \<Rightarrow> ret_io (sys_connect (ucast arg1) arg2 arg3 s))"

definition syscall_handler ::
  "'a user_scheme call_env \<Rightarrow> u64 \<Rightarrow> u64 \<Rightarrow> u64 \<Rightarrow> u64 \<Rightarrow> u64 \<Rightarrow> u64 \<Rightarrow> 'a user_scheme \<Rightarrow> (call_result \<times> 'a user_scheme) option" where
  "syscall_handler E num arg1 arg2 arg3 arg4 arg5 s =
     (case map_of sysnums num of
        Some n \<Rightarrow> dispatch E n arg1 arg2 arg3 arg4 arg5 s
      | None \<Rightarrow> Some (Return (- 1), s))"


section \<open>The loops over pages\<close>

lemma page_up_aligned: "4096 dvd unat (page_up a)"
  using and_not_mask_aligned [of 12 "a + 0xFFF"] by (simp add: page_up_def mask_eq_exp_minus_1)

text \<open>A loop in steps of a page over an interval of whole pages does not wrap around.\<close>

lemma page_step:
  assumes "p < (stop :: u64)" and "4096 dvd unat stop - unat p"
  shows "unat (p + 0x1000) = unat p + 4096" "unat p + 4096 \<le> unat stop" "4096 dvd unat stop - unat (p + 0x1000)"
proof -
  have less: "unat p < unat stop" using assms(1) by (simp add: word_less_nat_alt)
  with assms(2) have le: "4096 \<le> unat stop - unat p" by (intro dvd_imp_le) simp_all
  then show "unat p + 4096 \<le> unat stop" using less by linarith
  then have "unat p + 4096 < 2 ^ 64" using unat_u64_bound [of stop] by (rule le_less_trans)
  then have "unat p + unat (0x1000 :: u64) < 2 ^ 64" by simp
  from unat_add_u64 [OF this] show eq: "unat (p + 0x1000) = unat p + 4096" by simp
  show "4096 dvd unat stop - unat (p + 0x1000)"
    using dvd_diff_nat [OF assms(2) dvd_refl] by (simp add: eq)
qed


lemma page_interval: "addr \<le> addr + len \<Longrightarrow> 4096 dvd unat len \<Longrightarrow> 4096 dvd unat (addr + len :: u64) - unat addr"
proof -
  assume "addr \<le> addr + len" and d: "4096 dvd unat len"
  then have "unat (addr + len) = unat addr + unat len" by (simp add: unat_plus_simple)
  then show ?thesis using d by simp
qed

lemma map_zeroed_frame:
  "threads (snd (map_zeroed ctx p s)) = threads s" "current_thread (snd (map_zeroed ctx p s)) = current_thread s"
  by (auto simp: map_zeroed_def k_pmm_alloc_def k_vmm_map_def Let_def split: prod.split)

lemma brk_loop_returns:
  "4096 dvd unat stop - unat p \<Longrightarrow> \<exists>ok s'. brk_loop ctx p stop s = Some (ok, s') \<and> threads s' = threads s \<and> current_thread s' = current_thread s"
proof (induction "unat stop - unat p" arbitrary: p s rule: less_induct)
  case less
  obtain ok s1 where s1: "map_zeroed ctx p s = (ok, s1)" by fastforce
  then have f: "threads s1 = threads s" "current_thread s1 = current_thread s" using map_zeroed_frame [of ctx p s] by simp_all
  show ?case
  proof (cases "p < stop \<and> ok")
    case True
    note st = page_step [OF conjunct1 [OF True] less.prems]
    have "unat stop - unat (p + 0x1000) < unat stop - unat p" using st(1,2) by simp
    from less.hyps [OF this st(3), of s1] show ?thesis using s1 True f by (subst brk_loop.simps) simp
  qed (use s1 f in \<open>subst brk_loop.simps, auto\<close>)
qed

lemma mmap_loop_returns:
  "4096 dvd unat stop - unat p \<Longrightarrow> \<exists>ok s'. mmap_loop ctx p stop s = Some (ok, s') \<and> threads s' = threads s \<and> current_thread s' = current_thread s"
proof (induction "unat stop - unat p" arbitrary: p s rule: less_induct)
  case less
  obtain ok s1 where s1: "(if vmm_virt_to_phys ctx p (vmm_of s) = 0 then map_zeroed ctx p s else (True, s)) = (ok, s1)" by fastforce
  then have f: "threads s1 = threads s" "current_thread s1 = current_thread s"
    using map_zeroed_frame [of ctx p s] by (auto split: if_splits)
  show ?case
  proof (cases "p < stop \<and> ok")
    case True
    note st = page_step [OF conjunct1 [OF True] less.prems]
    have "unat stop - unat (p + 0x1000) < unat stop - unat p" using st(1,2) by simp
    from less.hyps [OF this st(3), of s1] show ?thesis using s1 True f by (subst mmap_loop.simps) simp
  qed (use s1 f in \<open>subst mmap_loop.simps, auto\<close>)
qed

lemma munmap_loop_returns:
  "4096 dvd unat stop - unat p \<Longrightarrow> \<exists>s'. munmap_loop ctx p stop s = Some s' \<and> threads s' = threads s \<and> current_thread s' = current_thread s"
proof (induction "unat stop - unat p" arbitrary: p s rule: less_induct)
  case less
  define s1 where "s1 = (let phys = vmm_virt_to_phys ctx p (vmm_of s) in if phys = 0 then s
     else let (pm, m) = pmm_free (ks_pmm (vs_slab s)) (k_mem s) phys 1;
              s = s\<lparr>vs_slab := (vs_slab s)\<lparr>ks_pmm := pm, ks_mem := m\<rparr>\<rparr>
          in put_vmm (snd (vmm_unmap ctx p (vmm_of s))) s)"
  have f: "threads s1 = threads s" "current_thread s1 = current_thread s"
    by (simp_all add: s1_def Let_def split: prod.split)
  have step: "munmap_loop ctx p stop s = (if p < stop then munmap_loop ctx (p + 0x1000) stop s1 else Some s)"
    by (subst munmap_loop.simps) (simp add: s1_def Let_def)
  show ?case
  proof (cases "p < stop")
    case True
    note st = page_step [OF True less.prems]
    have "unat stop - unat (p + 0x1000) < unat stop - unat p" using st(1,2) by simp
    from less.hyps [OF this st(3), of s1] show ?thesis using step True f by simp
  qed (use step in simp)
qed

lemma interval_or_empty:
  "4096 dvd unat len \<Longrightarrow> 4096 dvd unat (addr + len :: u64) - unat addr \<or> \<not> addr < addr + len"
  using page_interval [of addr len] by (meson less_imp_le)

lemma mmap_loop_empty: "\<not> p < stop \<Longrightarrow> mmap_loop ctx p stop s = Some (True, s)"
  by (subst mmap_loop.simps) simp

lemma munmap_loop_empty: "\<not> p < stop \<Longrightarrow> munmap_loop ctx p stop s = Some s"
  by (subst munmap_loop.simps) simp

section \<open>Properties\<close>

text \<open>C40: \<open>sys_brk\<close>, \<open>sys_mmap\<close> and \<open>sys_munmap\<close> come to an end for every argument and in every state: the
  page loops do not wrap around the end of the address space.  \<open>sys_brk\<close> returns the break that
  the thread has afterwards: the requested one, or the old one when the request is below the
  start of the heap or memory runs out; nothing else of any thread changes.\<close>

theorem sys_memory_calls_return:
  "(\<exists>brk s'. sys_brk addr s = Some (brk, s') \<and> current_thread s' = current_thread s \<and>
     (if current_thread s = NULL then brk = 0 \<and> s' = s
      else (brk = addr \<or> brk = th_heap_end (cur s)) \<and>
        threads s' = (threads s)(current_thread s := (cur s)\<lparr>th_heap_end := brk\<rparr>) \<and>
        (addr \<noteq> 0 \<and> th_heap_start (cur s) \<le> addr \<and> page_up addr \<le> page_up (th_heap_end (cur s)) \<longrightarrow> brk = addr))) \<and>
   (\<exists>r s'. sys_mmap addr len prot flags fd offset s = Some (r, s')) \<and>
   (\<exists>r s'. sys_munmap addr len s = Some (r, s'))"
proof (intro conjI)
  let ?t = "current_thread s"
  show "\<exists>brk s'. sys_brk addr s = Some (brk, s') \<and> current_thread s' = ?t \<and>
     (if ?t = NULL then brk = 0 \<and> s' = s
      else (brk = addr \<or> brk = th_heap_end (cur s)) \<and> threads s' = (threads s)(?t := (cur s)\<lparr>th_heap_end := brk\<rparr>) \<and>
        (addr \<noteq> 0 \<and> th_heap_start (cur s) \<le> addr \<and> page_up addr \<le> page_up (th_heap_end (cur s)) \<longrightarrow> brk = addr))"
  proof (cases "?t = NULL \<or> addr = 0 \<or> addr < th_heap_start (cur s)")
    case True
    then show ?thesis by (auto simp: sys_brk_def cur_def)
  next
    case False
    let ?a = "page_up (th_heap_end (cur s))" and ?b = "page_up addr"
    have "4096 dvd unat ?b - unat ?a" by (intro dvd_diff_nat page_up_aligned)
    from brk_loop_returns [OF this, of "thread_ctx (cur s)" s] obtain ok s1 where
      "brk_loop (thread_ctx (cur s)) ?a ?b s = Some (ok, s1)" "threads s1 = threads s" "current_thread s1 = ?t" by blast
    then show ?thesis using False by (auto simp: sys_brk_def cur_def Let_def not_less)
  qed
  have al: "4096 dvd unat (page_up len)" by (rule page_up_aligned)
  show "\<exists>r s'. sys_mmap addr len prot flags fd offset s = Some (r, s')"
  proof (cases "len = 0 \<or> ?t = NULL")
    case False
    obtain vaddr s1 where s1: "mmap_start ?t addr (page_up len) s = (vaddr, s1)" by fastforce
    have "\<exists>ok s'. mmap_loop ctx vaddr (vaddr + page_up len) s1 = Some (ok, s')" for ctx
      using interval_or_empty [OF al, of vaddr] mmap_loop_returns mmap_loop_empty by metis
    then obtain ok s' where "mmap_loop (thread_ctx (threads s1 ?t)) vaddr (vaddr + page_up len) s1 = Some (ok, s')" by blast
    then show ?thesis using False s1 by (simp add: sys_mmap_def Let_def)
  qed (auto simp: sys_mmap_def)
  show "\<exists>r s'. sys_munmap addr len s = Some (r, s')"
  proof (cases "addr = NULL \<or> len = 0 \<or> ?t = NULL")
    case False
    have "\<exists>s'. munmap_loop ctx addr (addr + page_up len) s = Some s'" for ctx
      using interval_or_empty [OF al, of addr] munmap_loop_returns munmap_loop_empty by metis
    then obtain s' where "munmap_loop (thread_ctx (cur s)) addr (addr + page_up len) s = Some s'" by blast
    then show ?thesis using False by (simp add: sys_munmap_def Let_def)
  qed (auto simp: sys_munmap_def)
qed


theorem sys_memory_calls_return_witness:
  "\<exists>s'. sys_brk 0x40000800 (kernel_example\<lparr>threads := (\<lambda>_. zero_thread)(16 := zero_thread\<lparr>th_heap_start := 0x40000000,
      th_heap_end := 0x40000100\<rparr>), current_thread := 16\<rparr>) = Some (0x40000800, s') \<and> th_heap_end (threads s' 16) = 0x40000800"
proof -
  let ?s = "kernel_example\<lparr>threads := (\<lambda>_. zero_thread)(16 := zero_thread\<lparr>th_heap_start := 0x40000000,
      th_heap_end := 0x40000100\<rparr>), current_thread := 16\<rparr>"
  have f: "current_thread ?s \<noteq> NULL" "th_heap_start (cur ?s) \<le> 0x40000800" "page_up 0x40000800 \<le> page_up (th_heap_end (cur ?s))"
    by (simp_all add: cur_def page_up_def)
  from sys_memory_calls_return [of "0x40000800" ?s 0 0 0 0 0] obtain brk s' where
    s': "sys_brk 0x40000800 ?s = Some (brk, s')" "threads s' = (threads ?s)(current_thread ?s := (cur ?s)\<lparr>th_heap_end := brk\<rparr>)"
      "(0x40000800 :: u64) \<noteq> 0 \<and> th_heap_start (cur ?s) \<le> 0x40000800 \<and> page_up 0x40000800 \<le> page_up (th_heap_end (cur ?s)) \<longrightarrow> brk = 0x40000800"
    unfolding if_not_P [OF f(1)] by metis
  have "brk = 0x40000800" using s'(3) f(2,3) by simp
  then show ?thesis using s'(1,2) by simp
qed

text \<open>C10: Every system call that takes a file descriptor (read, write, close, readdir, ioctl, lseek, fstat,
  connect, accept, bind and listen) returns -1 and changes nothing when the descriptor is
  negative, is 32 or more, is not open, or when there is no current thread; and so does a call with
  a number that is not in the table.\<close>

theorem syscall_bad_descriptor:
  assumes "num \<in> {0, 1, 3, 8, 10, 13, 29, 42, 43, 46, 47} \<and>
      (sint (ucast arg1 :: u32) < 0 \<or> 32 \<le> sint (ucast arg1 :: u32) \<or> current_thread s = NULL \<or>
       fd_node (th_fds (threads s (current_thread s)) (nat (sint (ucast arg1 :: u32)))) = NULL) \<or>
    (29 < num \<and> num < 41 \<or> num = 44 \<or> num = 45 \<or> 47 < num)"
  shows "syscall_handler E num arg1 arg2 arg3 arg4 arg5 s = Some (Return (- 1), s)"
  using assms
proof (elim disjE conjE)
  have nums: "map_of sysnums 0 = Some SYS_READ" "map_of sysnums 1 = Some SYS_WRITE" "map_of sysnums 3 = Some SYS_CLOSE"
    "map_of sysnums 8 = Some SYS_READDIR" "map_of sysnums 10 = Some SYS_IOCTL" "map_of sysnums 13 = Some SYS_LSEEK"
    "map_of sysnums 29 = Some SYS_FSTAT" "map_of sysnums 42 = Some SYS_CONNECT" "map_of sysnums 43 = Some SYS_ACCEPT"
    "map_of sysnums 46 = Some SYS_BIND" "map_of sysnums 47 = Some SYS_LISTEN"
    by code_simp+
  have call: ?thesis if "num \<in> {0, 1, 3, 8, 10, 13, 29, 42, 43, 46, 47}" "\<not> open_fd s (ucast arg1)"
    using that by (elim insertE emptyE)
      (simp_all add: syscall_handler_def dispatch_def nums ret_def ret_io_def sys_read_def sys_write_def sys_close_def sys_readdir_def
        sys_ioctl_def sys_lseek_def sys_fstat_def sys_connect_def sys_accept_def sys_bind_def sys_listen_def)
  show ?thesis if "num \<in> {0, 1, 3, 8, 10, 13, 29, 42, 43, 46, 47}" "sint (ucast arg1 :: u32) < 0"
    using that by (intro call) (auto simp: open_fd_def fd_ok_def)
  show ?thesis if "num \<in> {0, 1, 3, 8, 10, 13, 29, 42, 43, 46, 47}" "32 \<le> sint (ucast arg1 :: u32)"
    using that by (intro call) (auto simp: open_fd_def fd_ok_def MAX_FDS_def)
  show ?thesis if "num \<in> {0, 1, 3, 8, 10, 13, 29, 42, 43, 46, 47}" "current_thread s = NULL"
    using that by (intro call) (auto simp: open_fd_def)
  show ?thesis if "num \<in> {0, 1, 3, 8, 10, 13, 29, 42, 43, 46, 47}"
      "fd_node (th_fds (threads s (current_thread s)) (nat (sint (ucast arg1 :: u32)))) = NULL"
    using that by (intro call) (auto simp: open_fd_def fd_of_def)
  have unknown: ?thesis if "num \<notin> fst ` set sysnums"
    using that by (simp add: syscall_handler_def map_of_eq_None_iff [THEN iffD2])
  have keys: "fst ` set sysnums = of_nat ` ({0..<30} \<union> {41, 42, 43, 46, 47})"
  proof -
    have "map fst sysnums = map of_nat ([0..<30] @ [41, 42, 43, 46, 47])" unfolding sysnums_def by (rule map_fst_zip) simp
    then have "set (map fst sysnums) = set (map of_nat ([0..<30] @ [41, 42, 43, 46, 47]))" by (rule arg_cong)
    then show ?thesis unfolding set_map set_append set_upt list.set .
  qed
  have small: "\<exists>n. x = of_nat n \<and> n = unat x \<and> (n < 30 \<or> n \<in> {41, 42, 43, 46, 47})" if "x \<in> fst ` set sysnums" for x
    using that unfolding keys by (auto simp: unat_of_nat)
  show ?thesis if "29 < num" "num < 41" using small [of num] that by (intro unknown) (auto simp: word_less_nat_alt)
  show ?thesis if "num = 44" using small [of num] that by (intro unknown) auto
  show ?thesis if "num = 45" using small [of num] that by (intro unknown) auto
  show ?thesis if "47 < num" using small [of num] that by (intro unknown) (auto simp: word_less_nat_alt)
qed


definition user_example :: user where
  "user_example = net.extend (net_example kernel_example 0x5000 0x6000 [])
     (user.fields (\<lambda>_. \<lparr>st_ino = 0, st_mode = 0, st_nlink = 0, st_uid = 0, st_gid = 0, st_size = 0, st_blksize = 0, st_blocks = 0, st_atime = 0,
        st_mtime = 0, st_ctime = 0\<rparr>) (\<lambda>_. \<lparr>d_name = [], d_ino = 0\<rparr>))"

theorem syscall_bad_descriptor_witness:
  "\<forall>E. syscall_handler E 0 5 0x8000 100 0 0 user_example = Some (Return (- 1), user_example) \<and>
     syscall_handler E 13 32 0 0 0 0 user_example = Some (Return (- 1), user_example) \<and>
     syscall_handler E 1 0xFFFFFFFF 0x8000 100 0 0 user_example = Some (Return (- 1), user_example) \<and>
     syscall_handler E 120 0 0 0 0 0 user_example = Some (Return (- 1), user_example)"
proof (intro allI conjI)
  fix E
  have "fd_node (th_fds (threads user_example (current_thread user_example)) 5) = NULL"
    by (simp add: user_example_def net_example_def kernel.defs net.defs user.defs)
  then show "syscall_handler E 0 5 0x8000 100 0 0 user_example = Some (Return (- 1), user_example)"
    by (intro syscall_bad_descriptor) simp
qed (rule syscall_bad_descriptor; simp)+

end
