(* ===== verification/Ext2fmt.thy ===== *)
theory Ext2fmt
  imports Umem
begin

text \<open>
  The structures of \<open>krnl/fs/ext2.h\<close> as they lie on the disk, and the loops of \<open>krnl/fs/ext2.c\<close> over the bytes of
  one block: bitmaps, tables of block numbers and directories.

  A buffer is the list of its bytes.  \<open>None\<close> is an access outside of it.  The size of a block is
  \<open>1024u << s_log_block_size\<close>, a power of two of at most 2 to the 31 or zero, so that positions in a block, which
  the code keeps in 32 bits, do not wrap; they are natural numbers here.

  A directory block is represented by the list of its entries, which fill it without a gap.
\<close>

section \<open>Fields of packed structures\<close>

definition le_at :: "nat \<Rightarrow> nat \<Rightarrow> u8 list \<Rightarrow> 'w::len word" where
  "le_at n i bs = le_word (take n (drop i bs))"

definition overlay :: "nat \<Rightarrow> u8 list \<Rightarrow> u8 list \<Rightarrow> u8 list" where
  "overlay i vs bs = take i bs @ vs @ drop (i + length vs) bs"

text \<open>Writing inside the buffer only.\<close>

definition put_at :: "nat \<Rightarrow> u8 list \<Rightarrow> u8 list \<Rightarrow> u8 list option" where
  "put_at i vs bs = (if i + length vs \<le> length bs then Some (overlay i vs bs) else None)"

section \<open>Superblock, group descriptors, inodes\<close>

definition EXT2_SUPER_MAGIC :: u16 where "EXT2_SUPER_MAGIC = 0xEF53"
definition EXT2_SUPERBLOCK_OFFSET :: u64 where "EXT2_SUPERBLOCK_OFFSET = 1024"
definition EXT2_SUPERBLOCK_SIZE :: u32 where "EXT2_SUPERBLOCK_SIZE = 1024"
definition EXT2_S_IFREG :: u16 where "EXT2_S_IFREG = 0x8000"
definition EXT2_S_IFDIR :: u16 where "EXT2_S_IFDIR = 0x4000"
definition EXT2_S_IFLNK :: u16 where "EXT2_S_IFLNK = 0xA000"
definition EXT2_S_IFBLK :: u16 where "EXT2_S_IFBLK = 0x6000"
definition EXT2_S_IFCHR :: u16 where "EXT2_S_IFCHR = 0x2000"
definition EXT2_NDIR_BLOCKS :: u32 where "EXT2_NDIR_BLOCKS = 12"
definition EXT2_IND_BLOCK :: nat where "EXT2_IND_BLOCK = 12"
definition EXT2_DIND_BLOCK :: nat where "EXT2_DIND_BLOCK = 13"
definition EXT2_TIND_BLOCK :: nat where "EXT2_TIND_BLOCK = 14"
definition EXT2_FT_REG_FILE :: u8 where "EXT2_FT_REG_FILE = 1"
definition EXT2_FT_DIR :: u8 where "EXT2_FT_DIR = 2"
definition EXT2_ROOT_INO :: u32 where "EXT2_ROOT_INO = 2"

text \<open>The superblock stays a list of 1024 bytes, of which the code reads and changes these fields.\<close>

definition s_inodes_count :: "u8 list \<Rightarrow> u32" where "s_inodes_count sb = le_at 4 0 sb"
definition s_blocks_count :: "u8 list \<Rightarrow> u32" where "s_blocks_count sb = le_at 4 4 sb"
definition s_free_blocks_count :: "u8 list \<Rightarrow> u32" where "s_free_blocks_count sb = le_at 4 12 sb"
definition s_free_inodes_count :: "u8 list \<Rightarrow> u32" where "s_free_inodes_count sb = le_at 4 16 sb"
definition s_first_data_block :: "u8 list \<Rightarrow> u32" where "s_first_data_block sb = le_at 4 20 sb"
definition s_log_block_size :: "u8 list \<Rightarrow> u32" where "s_log_block_size sb = le_at 4 24 sb"
definition s_blocks_per_group :: "u8 list \<Rightarrow> u32" where "s_blocks_per_group sb = le_at 4 32 sb"
definition s_inodes_per_group :: "u8 list \<Rightarrow> u32" where "s_inodes_per_group sb = le_at 4 40 sb"
definition s_magic :: "u8 list \<Rightarrow> u16" where "s_magic sb = le_at 2 56 sb"
definition s_rev_level :: "u8 list \<Rightarrow> u32" where "s_rev_level sb = le_at 4 76 sb"
definition s_inode_size :: "u8 list \<Rightarrow> u16" where "s_inode_size sb = le_at 2 88 sb"

definition set_free_blocks :: "u32 \<Rightarrow> u8 list \<Rightarrow> u8 list" where
  "set_free_blocks n sb = overlay 12 (le_bytes 4 n) sb"

definition set_free_inodes :: "u32 \<Rightarrow> u8 list \<Rightarrow> u8 list" where
  "set_free_inodes n sb = overlay 16 (le_bytes 4 n) sb"

record ext2_group_desc =
  bg_block_bitmap :: u32
  bg_inode_bitmap :: u32
  bg_inode_table :: u32
  bg_free_blocks_count :: u16
  bg_free_inodes_count :: u16
  bg_used_dirs_count :: u16
  bg_rest :: "u8 list"

definition GROUP_DESC_SIZE :: u32 where "GROUP_DESC_SIZE = 32"

definition gd_of :: "u8 list \<Rightarrow> ext2_group_desc" where
  "gd_of bs = \<lparr>bg_block_bitmap = le_at 4 0 bs, bg_inode_bitmap = le_at 4 4 bs, bg_inode_table = le_at 4 8 bs,
     bg_free_blocks_count = le_at 2 12 bs, bg_free_inodes_count = le_at 2 14 bs, bg_used_dirs_count = le_at 2 16 bs,
     bg_rest = take 14 (drop 18 bs)\<rparr>"

definition gd_bytes :: "ext2_group_desc \<Rightarrow> u8 list" where
  "gd_bytes gd = le_bytes 4 (bg_block_bitmap gd) @ le_bytes 4 (bg_inode_bitmap gd) @ le_bytes 4 (bg_inode_table gd) @
     le_bytes 2 (bg_free_blocks_count gd) @ le_bytes 2 (bg_free_inodes_count gd) @ le_bytes 2 (bg_used_dirs_count gd) @ bg_rest gd"

text \<open>The fields behind \<open>i_block\<close> are kept as bytes.\<close>

record ext2_inode =
  i_mode :: u16
  i_uid :: u16
  i_size :: u32
  i_atime :: u32
  i_ctime :: u32
  i_mtime :: u32
  i_dtime :: u32
  i_gid :: u16
  i_links_count :: u16
  i_blocks :: u32
  i_flags :: u32
  i_osd1 :: u32
  i_block :: "u32 list"
  i_rest :: "u8 list"

definition INODE_SIZE :: u32 where "INODE_SIZE = 128"

definition inode_of :: "u8 list \<Rightarrow> ext2_inode" where
  "inode_of bs = \<lparr>i_mode = le_at 2 0 bs, i_uid = le_at 2 2 bs, i_size = le_at 4 4 bs, i_atime = le_at 4 8 bs,
     i_ctime = le_at 4 12 bs, i_mtime = le_at 4 16 bs, i_dtime = le_at 4 20 bs, i_gid = le_at 2 24 bs,
     i_links_count = le_at 2 26 bs, i_blocks = le_at 4 28 bs, i_flags = le_at 4 32 bs, i_osd1 = le_at 4 36 bs,
     i_block = map (\<lambda>k. le_at 4 (40 + 4 * k) bs) [0..<15], i_rest = take 28 (drop 100 bs)\<rparr>"

definition inode_bytes :: "ext2_inode \<Rightarrow> u8 list" where
  "inode_bytes n = le_bytes 2 (i_mode n) @ le_bytes 2 (i_uid n) @ le_bytes 4 (i_size n) @ le_bytes 4 (i_atime n) @
     le_bytes 4 (i_ctime n) @ le_bytes 4 (i_mtime n) @ le_bytes 4 (i_dtime n) @ le_bytes 2 (i_gid n) @
     le_bytes 2 (i_links_count n) @ le_bytes 4 (i_blocks n) @ le_bytes 4 (i_flags n) @ le_bytes 4 (i_osd1 n) @
     concat (map (le_bytes 4) (i_block n)) @ i_rest n"

definition zero_inode :: ext2_inode where
  "zero_inode = inode_of (replicate 128 0)"

section \<open>Bitmaps and tables\<close>

text \<open>The first clear bit among the first \<open>n\<close>, from \<open>i\<close> on: \<open>None\<close> is an access behind the buffer, \<open>Some n\<close> none.\<close>

function find_clear :: "u8 list \<Rightarrow> nat \<Rightarrow> nat \<Rightarrow> nat option" where
  "find_clear bm n i =
     (if n \<le> i then Some n
      else if length bm \<le> i div 8 then None
      else if bit (bm ! (i div 8)) (i mod 8) then find_clear bm n (Suc i)
      else Some i)"
  by auto
termination by (relation "measure (\<lambda>(bm, n, i). n - i)") auto

declare find_clear.simps [simp del]

definition set_bit_at :: "nat \<Rightarrow> u8 list \<Rightarrow> u8 list option" where
  "set_bit_at i bm = (if i div 8 < length bm then Some (bm[i div 8 := set_bit (i mod 8) (bm ! (i div 8))]) else None)"

definition clear_bit_at :: "nat \<Rightarrow> u8 list \<Rightarrow> u8 list option" where
  "clear_bit_at i bm = (if i div 8 < length bm then Some (bm[i div 8 := unset_bit (i mod 8) (bm ! (i div 8))]) else None)"

text \<open>\<open>((uint32_t*)buf)[i]\<close>.\<close>

definition tab_get :: "u8 list \<Rightarrow> nat \<Rightarrow> u32 option" where
  "tab_get bs i = (if 4 * i + 4 \<le> length bs then Some (le_at 4 (4 * i) bs) else None)"

definition tab_set :: "nat \<Rightarrow> u32 \<Rightarrow> u8 list \<Rightarrow> u8 list option" where
  "tab_set i v bs = put_at (4 * i) (le_bytes 4 v) bs"

section \<open>Directory blocks\<close>

record ext2_dirent =
  de_inode :: u32
  rec_len :: u16
  name_len :: u8
  file_type :: u8

definition dirent_at :: "u8 list \<Rightarrow> nat \<Rightarrow> ext2_dirent option" where
  "dirent_at dblk i =
     (if i + 8 \<le> length dblk
      then Some \<lparr>de_inode = le_at 4 i dblk, rec_len = le_at 2 (i + 4) dblk, name_len = le_at 1 (i + 6) dblk, file_type = le_at 1 (i + 7) dblk\<rparr>
      else None)"

definition dirent_bytes :: "ext2_dirent \<Rightarrow> u8 list" where
  "dirent_bytes de = le_bytes 4 (de_inode de) @ le_bytes 2 (rec_len de) @ [name_len de, file_type de]"

definition name_bytes :: "string \<Rightarrow> u8 list" where
  "name_bytes nm = map (\<lambda>c. of_nat (of_char c)) nm"

text \<open>\<open>8 + ((name_len + 3) & ~3u)\<close>.\<close>

definition entry_size :: "u8 \<Rightarrow> u16" where
  "entry_size nl = 8 + ((ucast nl + 3) AND NOT 3)"

text \<open>\<open>memcmp(de->name, name, n) == 0\<close>, which stops at the first difference.\<close>

fun name_matches :: "u8 list \<Rightarrow> u8 list \<Rightarrow> bool option" where
  "name_matches [] bs = Some True"
| "name_matches (c # cs) [] = None"
| "name_matches (c # cs) (b # bs) = (if c = b then name_matches cs bs else Some False)"

text \<open>An entry with its name; \<open>memcpy\<close> takes as many bytes of the name as its length, in 8 bits, says.\<close>

definition put_entry :: "nat \<Rightarrow> ext2_dirent \<Rightarrow> u8 list \<Rightarrow> u8 list \<Rightarrow> u8 list option" where
  "put_entry i de nm dblk = put_at i (dirent_bytes de @ take (unat (name_len de)) nm) dblk"

text \<open>The loops over the entries of a block end at an entry of length zero; every other one moves on.\<close>

lemma scan_step: "\<not> length bs \<le> i \<Longrightarrow> (r :: u16) \<noteq> 0 \<Longrightarrow> length bs - (i + unat r) < length bs - i"
  using unat_gt_0 [of r] by linarith

text \<open>The loop of \<open>dir_append_entry\<close> over one block: \<open>Some None\<close> when there is no room in it.\<close>

function append_scan :: "u32 \<Rightarrow> u8 list \<Rightarrow> u8 \<Rightarrow> u8 list \<Rightarrow> nat \<Rightarrow> u8 list option option" where
  "append_scan ino nm ft dblk i =
     (if length dblk \<le> i then Some None
      else
        case dirent_at dblk i of
          None \<Rightarrow> None
        | Some de \<Rightarrow>
            if rec_len de = 0 then Some None
            else
              let nl = of_nat (length nm) :: u8;
                  needed = entry_size nl;
                  real = entry_size (name_len de);
                  slack = rec_len de - real
              in if de_inode de = 0
                 then
                   if needed \<le> rec_len de
                   then map_option Some (put_entry i (de\<lparr>de_inode := ino, name_len := nl, file_type := ft\<rparr>) nm dblk)
                   else append_scan ino nm ft dblk (i + unat (rec_len de))
                 else if needed \<le> slack
                 then
                   map_option Some
                     (Option.bind (put_at i (dirent_bytes (de\<lparr>rec_len := real\<rparr>)) dblk)
                       (put_entry (i + unat real) \<lparr>de_inode = ino, rec_len = slack, name_len = nl, file_type = ft\<rparr> nm))
                 else append_scan ino nm ft dblk (i + unat (rec_len de)))"
  by auto
termination by (relation "measure (\<lambda>(ino, nm, ft, dblk, i). length dblk - i)") (auto intro: scan_step)

declare append_scan.simps [simp del]

text \<open>The loop of \<open>dir_remove_entry\<close>: the inode of the entry, and the block without it.\<close>

function remove_scan :: "u8 list \<Rightarrow> u8 list \<Rightarrow> nat option \<Rightarrow> nat \<Rightarrow> (u32 \<times> u8 list) option option" where
  "remove_scan nm dblk prev i =
     (if length dblk \<le> i then Some None
      else
        case dirent_at dblk i of
          None \<Rightarrow> None
        | Some de \<Rightarrow>
            if rec_len de = 0 then Some None
            else
              let nlen = of_nat (length nm) :: u8
              in case (if de_inode de \<noteq> 0 \<and> name_len de = nlen then name_matches (take (unat nlen) nm) (drop (i + 8) dblk)
                       else Some False) of
                   None \<Rightarrow> None
                 | Some True \<Rightarrow>
                     map_option (\<lambda>dblk. Some (de_inode de, dblk))
                       (case prev of
                          Some p \<Rightarrow> Option.bind (dirent_at dblk p) (\<lambda>pe. put_at p (dirent_bytes (pe\<lparr>rec_len := rec_len pe + rec_len de\<rparr>)) dblk)
                        | None \<Rightarrow> put_at i (dirent_bytes (de\<lparr>de_inode := 0\<rparr>)) dblk)
                 | Some False \<Rightarrow> remove_scan nm dblk (Some i) (i + unat (rec_len de)))"
  by auto
termination by (relation "measure (\<lambda>(nm, dblk, prev, i). length dblk - i)") (auto intro: scan_step)

declare remove_scan.simps [simp del]

text \<open>The loop of \<open>dir_is_empty\<close>: is there only the directory itself and its parent?\<close>

definition dot_entry :: "ext2_dirent \<Rightarrow> u8 list \<Rightarrow> bool option" where
  "dot_entry de bs =
     (if name_len de = 1 then name_matches [46] bs
      else if name_len de = 2 then name_matches [46, 46] bs
      else Some False)"

function empty_scan :: "u8 list \<Rightarrow> nat \<Rightarrow> bool option" where
  "empty_scan dblk i =
     (if length dblk \<le> i then Some True
      else
        case dirent_at dblk i of
          None \<Rightarrow> None
        | Some de \<Rightarrow>
            if rec_len de = 0 then Some True
            else
              case (if de_inode de \<noteq> 0 then dot_entry de (drop (i + 8) dblk) else Some True) of
                None \<Rightarrow> None
              | Some d \<Rightarrow> if d then empty_scan dblk (i + unat (rec_len de)) else Some False)"
  by auto
termination by (relation "measure (\<lambda>(dblk, i). length dblk - i)") (auto intro: scan_step)

declare empty_scan.simps [simp del]

text \<open>The inner loop of \<open>foreach_dirent\<close>: the callback gets the entry and the bytes from its name on; it stops the
  loop when it says so.\<close>

function dirent_scan ::
  "(ext2_dirent \<Rightarrow> u8 list \<Rightarrow> 'c \<Rightarrow> (bool \<times> 'c) option) \<Rightarrow> u8 list \<Rightarrow> u32 \<Rightarrow> u32 \<Rightarrow> nat \<Rightarrow> 'c \<Rightarrow> (bool \<times> 'c) option" where
  "dirent_scan cb dblk visited tot i ctx =
     (if length dblk \<le> i \<or> tot \<le> visited + of_nat i then Some (False, ctx)
      else
        case dirent_at dblk i of
          None \<Rightarrow> None
        | Some de \<Rightarrow>
            if rec_len de = 0 then Some (False, ctx)
            else
              case (if de_inode de \<noteq> 0 then cb de (drop (i + 8) dblk) ctx else Some (False, ctx)) of
                None \<Rightarrow> None
              | Some (stop, ctx) \<Rightarrow> if stop then Some (True, ctx) else dirent_scan cb dblk visited tot (i + unat (rec_len de)) ctx)"
  by auto
termination by (relation "measure (\<lambda>(cb, dblk, visited, tot, i, ctx). length dblk - i)") (auto intro: scan_step)

declare dirent_scan.simps [simp del]

text \<open>The callbacks.\<close>

record readdir_ctx =
  target_index :: u32
  rc_current :: u32
  rc_result :: "(u8 list \<times> u32) option"

definition readdir_cb :: "ext2_dirent \<Rightarrow> u8 list \<Rightarrow> readdir_ctx \<Rightarrow> (bool \<times> readdir_ctx) option" where
  "readdir_cb de bs rc =
     (if rc_current rc = target_index rc
      then
        let len = unat (name_len de)
        in if len \<le> length bs then Some (True, rc\<lparr>rc_result := Some (take len bs, de_inode de)\<rparr>) else None
      else Some (False, rc\<lparr>rc_current := rc_current rc + 1\<rparr>))"

record finddir_ctx =
  fc_name :: "u8 list"
  fc_found :: "(u32 \<times> u8) option"

definition finddir_cb :: "ext2_dirent \<Rightarrow> u8 list \<Rightarrow> finddir_ctx \<Rightarrow> (bool \<times> finddir_ctx) option" where
  "finddir_cb de bs fc =
     (if unat (name_len de) = length (fc_name fc)
      then
        map_option (\<lambda>m. if m then (True, fc\<lparr>fc_found := Some (de_inode de, file_type de)\<rparr>) else (False, fc))
          (name_matches (fc_name fc) bs)
      else Some (False, fc))"


section \<open>Entries of a block\<close>

text \<open>\<open>dents bs ds\<close>: the bytes are the entries \<open>ds\<close>, one behind the other, each with room for its name.\<close>

fun dents :: "u8 list \<Rightarrow> (ext2_dirent \<times> u8 list) list \<Rightarrow> bool" where
  "dents bs [] \<longleftrightarrow> bs = []"
| "dents bs ((de, nm) # ds) \<longleftrightarrow>
     dirent_at bs 0 = Some de \<and> nm = take (unat (name_len de)) (drop 8 bs) \<and> entry_size (name_len de) \<le> rec_len de \<and>
     unat (rec_len de) \<le> length bs \<and> dents (drop (unat (rec_len de)) bs) ds"

text \<open>The entries in use, with inode, name and type.\<close>

definition in_use :: "(ext2_dirent \<times> u8 list) list \<Rightarrow> (u32 \<times> u8 list \<times> u8) list" where
  "in_use ds = map (\<lambda>(de, nm). (de_inode de, nm, file_type de)) (filter (\<lambda>(de, nm). de_inode de \<noteq> 0) ds)"

lemma in_use_simps [simp]:
  "in_use [] = []"
  "in_use ((de, nm) # ds) = (if de_inode de \<noteq> 0 then (de_inode de, nm, file_type de) # in_use ds else in_use ds)"
  by (simp_all add: in_use_def)

text \<open>The room an entry has for another one.\<close>

definition room :: "ext2_dirent \<Rightarrow> u16" where
  "room de = (if de_inode de = 0 then rec_len de else rec_len de - entry_size (name_len de))"

lemma length_le_bytes [simp]: "length (le_bytes n v) = n"
  by (simp add: le_bytes_def)

lemma length_dirent_bytes [simp]: "length (dirent_bytes de) = 8"
  by (simp add: dirent_bytes_def)

lemma unat_entry_size: "unat (entry_size nl) = 8 + (unat nl + 3) div 4 * 4"
proof -
  have nl: "unat nl < 256"
    using unsigned_less [of nl] by simp
  then have sum: "unat (ucast nl + 3 :: u16) = unat nl + 3"
    by (simp add: unat_word_ariths unsigned_ucast_eq take_bit_nat_eq_self)
  have "(3 :: u16) = mask 2"
    by (simp add: mask_eq_exp_minus_1)
  then have "unat ((ucast nl + 3 :: u16) AND NOT 3) = (unat nl + 3) div 4 * 4"
    using sum by (simp only: and_not_mask_unat) (simp add: minus_mod_eq_div_mult)
  then show ?thesis
    using nl by (simp add: entry_size_def unat_word_ariths)
qed

lemma entry_size_name: "8 + unat nl \<le> unat (entry_size nl)"
  by (simp add: unat_entry_size)

lemma le_at_drop: "le_at n (i + k) bs = le_at n k (drop i bs)"
  by (simp add: le_at_def add.commute)

lemma le_at_take: "k + m \<le> n \<Longrightarrow> le_at m k (take n bs) = le_at m k bs"
  by (simp add: le_at_def drop_take)

lemma dirent_at_drop: "dirent_at bs i = dirent_at (drop i bs) 0"
  using le_at_drop [of _ i 0 bs] by (auto simp: dirent_at_def le_at_drop)

lemma dirent_at_take: "8 \<le> n \<Longrightarrow> dirent_at (take n bs) 0 = dirent_at bs 0"
  by (auto simp: dirent_at_def le_at_take)

lemma le_at_bytes: "le_at n 0 (le_bytes n v @ bs) = (le_word (le_bytes n v) :: 'w::len word)"
  by (simp add: le_at_def)

lemma dirent_at_bytes: "dirent_at (dirent_bytes de @ bs) 0 = Some de"
proof -
  let ?bs = "dirent_bytes de @ bs"
  have "le_at 4 0 ?bs = de_inode de"
    by (simp add: dirent_bytes_def le_at_def le_word_bytes)
  moreover have "le_at 2 4 ?bs = rec_len de"
    by (simp add: dirent_bytes_def le_at_def le_word_bytes)
  moreover have "le_at 1 6 ?bs = name_len de" "le_at 1 7 ?bs = file_type de"
    by (simp_all add: dirent_bytes_def le_at_def)
  ultimately show ?thesis
    by (simp add: dirent_at_def)
qed

text \<open>An entry at the front keeps its meaning when the bytes behind it change, and a header and what follows it make
  an entry.\<close>

lemma dents_Cons_keep:
  assumes "dents bs ((de, nm) # ds)" "take (unat (rec_len de)) bs' = take (unat (rec_len de)) bs"
    "dents (drop (unat (rec_len de)) bs') ds'" "length bs' = length bs"
  shows "dents bs' ((de, nm) # ds')"
proof -
  have n: "8 + unat (name_len de) \<le> unat (rec_len de)"
    using assms(1) entry_size_name [of "name_len de"] by (simp add: word_le_nat_alt)
  have "dirent_at bs' 0 = dirent_at bs 0"
    using dirent_at_take [of "unat (rec_len de)"] assms(2) n by (metis add_leD1)
  moreover have "take (unat (name_len de)) (drop 8 bs') = take (unat (name_len de)) (drop 8 bs)"
    using arg_cong [OF assms(2), of "\<lambda>b. take (unat (name_len de)) (drop 8 b)"] n by (simp add: drop_take)
  ultimately show ?thesis
    using assms by simp
qed

lemma dents_entry:
  assumes "entry_size (name_len de) \<le> rec_len de" "unat (rec_len de) \<le> 8 + length vs"
    "dents (drop (unat (rec_len de) - 8) vs) ds"
  shows "dents (dirent_bytes de @ vs) ((de, take (unat (name_len de)) vs) # ds)"
proof -
  have "8 \<le> unat (rec_len de)"
    using assms(1) entry_size_name [of "name_len de"] by (simp add: word_le_nat_alt)
  then show ?thesis
    using assms by (simp add: dirent_at_bytes)
qed

text \<open>The facts on the entry at a position that every loop uses.\<close>

lemma dents_at:
  assumes "dents (drop i dblk) ((de, nm) # ds)"
  shows "dirent_at dblk i = Some de" "8 + unat (name_len de) \<le> unat (rec_len de)" "rec_len de \<noteq> 0"
    "i + unat (rec_len de) \<le> length dblk" "dents (drop (i + unat (rec_len de)) dblk) ds"
    "nm = take (unat (name_len de)) (drop (i + 8) dblk)" "length nm = unat (name_len de)" "\<not> length dblk \<le> i"
proof -
  show n: "8 + unat (name_len de) \<le> unat (rec_len de)"
    using assms entry_size_name [of "name_len de"] by (simp add: word_le_nat_alt)
  show "dirent_at dblk i = Some de"
    using assms dirent_at_drop [of dblk i] by simp
  show "rec_len de \<noteq> 0"
    using n by auto
  have len: "unat (rec_len de) \<le> length dblk - i"
    using assms by simp
  then show "i + unat (rec_len de) \<le> length dblk" "\<not> length dblk \<le> i"
    using n by linarith+
  show "dents (drop (i + unat (rec_len de)) dblk) ds"
    using assms by (simp add: add.commute)
  show nm: "nm = take (unat (name_len de)) (drop (i + 8) dblk)"
    using assms by (simp add: add.commute)
  show "length nm = unat (name_len de)"
    using nm n len by simp
qed

lemma overlay_simps:
  assumes "i \<le> length bs"
  shows "take i (overlay i vs bs) = take i bs" "drop i (overlay i vs bs) = vs @ drop (i + length vs) bs"
  using assms by (simp_all add: overlay_def)

lemma length_overlay: "i + length vs \<le> length bs \<Longrightarrow> length (overlay i vs bs) = length bs"
  by (simp add: overlay_def)

text \<open>A change behind a position that stays in the entries from a later position on.\<close>

lemma dents_later:
  assumes "dents (drop i dblk) ((de, nm) # ds)" "take (i + unat (rec_len de)) dblk' = take (i + unat (rec_len de)) dblk"
    "dents (drop (i + unat (rec_len de)) dblk') ds'" "length dblk' = length dblk"
  shows "dents (drop i dblk') ((de, nm) # ds')" "take i dblk' = take i dblk"
proof -
  show "take i dblk' = take i dblk"
    using arg_cong [OF assms(2), of "take i"] by simp
  show "dents (drop i dblk') ((de, nm) # ds')"
  proof (rule dents_Cons_keep [OF assms(1)])
    show "take (unat (rec_len de)) (drop i dblk') = take (unat (rec_len de)) (drop i dblk)"
      using arg_cong [OF assms(2), of "drop i"] by (simp add: drop_take)
  qed (use assms in \<open>simp_all add: add.commute\<close>)
qed

section \<open>Adding an entry\<close>

lemma append_reuse:
  assumes "dents (drop i dblk) ((de, dn) # ds)" "de_inode de = 0" "entry_size (of_nat (length nm)) \<le> rec_len de" "length nm < 256"
    and de': "de' = de\<lparr>de_inode := ino, name_len := of_nat (length nm), file_type := ft\<rparr>"
  shows "\<exists>dblk'. put_entry i de' nm dblk = Some dblk' \<and> length dblk' = length dblk \<and> take i dblk' = take i dblk \<and>
    dents (drop i dblk') ((de', nm) # ds)"
proof -
  note at = dents_at [OF assms(1)]
  have nl: "unat (of_nat (length nm) :: u8) = length nm"
    using assms(4) by (simp add: unat_of_nat)
  have fits: "8 + length nm \<le> unat (rec_len de)"
    using assms(3) entry_size_name [of "of_nat (length nm)"] nl by (simp add: word_le_nat_alt)
  let ?d = "overlay i (dirent_bytes de' @ nm) dblk"
  have "put_entry i de' nm dblk = Some ?d"
    using fits at(4) nl by (simp add: put_entry_def put_at_def de')
  moreover have "length ?d = length dblk"
    using fits at(4) by (intro length_overlay) simp
  moreover have "take i ?d = take i dblk"
    using at(8) by (simp add: overlay_simps)
  moreover have "dents (drop i ?d) ((de', nm) # ds)"
  proof -
    have "drop i ?d = dirent_bytes de' @ nm @ drop (i + 8 + length nm) dblk"
      using at(8) by (simp add: overlay_simps add.assoc)
    moreover have "dents (dirent_bytes de' @ nm @ drop (i + 8 + length nm) dblk)
        ((de', take (unat (name_len de')) (nm @ drop (i + 8 + length nm) dblk)) # ds)"
    proof (rule dents_entry)
      have "drop (unat (rec_len de') - 8) (nm @ drop (i + 8 + length nm) dblk) = drop (i + unat (rec_len de)) dblk"
        using fits by (simp add: de' add.commute)
      then show "dents (drop (unat (rec_len de') - 8) (nm @ drop (i + 8 + length nm) dblk)) ds"
        using at(5) by simp
    qed (use assms(3) fits at(4) in \<open>simp_all add: de'\<close>)
    ultimately show ?thesis
      using nl by (simp add: de')
  qed
  ultimately show ?thesis
    by blast
qed

lemma append_split:
  assumes "dents (drop i dblk) ((de, dn) # ds)" "entry_size (of_nat (length nm)) \<le> rec_len de - entry_size (name_len de)" "length nm < 256"
    and ne: "ne = \<lparr>de_inode = ino, rec_len = rec_len de - entry_size (name_len de), name_len = of_nat (length nm), file_type = ft\<rparr>"
    and de': "de' = de\<lparr>rec_len := entry_size (name_len de)\<rparr>"
  shows "\<exists>dblk'. Option.bind (put_at i (dirent_bytes de') dblk) (put_entry (i + unat (entry_size (name_len de))) ne nm) = Some dblk' \<and>
    length dblk' = length dblk \<and> take i dblk' = take i dblk \<and> dents (drop i dblk') ((de', dn) # (ne, nm) # ds)"
proof -
  note at = dents_at [OF assms(1)]
  define r where "r = unat (entry_size (name_len de))"
  have real: "entry_size (name_len de) \<le> rec_len de"
    using assms(1) by simp
  have nl: "unat (of_nat (length nm) :: u8) = length nm"
    using assms(3) by (simp add: unat_of_nat)
  have slack: "unat (rec_len de - entry_size (name_len de)) = unat (rec_len de) - r"
    using real by (simp add: unat_sub_le r_def)
  have r: "8 + unat (name_len de) \<le> r"
    using entry_size_name by (simp add: r_def)
  have fits: "8 + length nm \<le> unat (rec_len de) - r" "r \<le> unat (rec_len de)"
    using assms(2) entry_size_name [of "of_nat (length nm)"] nl slack real by (auto simp: word_le_nat_alt r_def)
  let ?e = "overlay i (dirent_bytes de') dblk"
  let ?d = "overlay (i + r) (dirent_bytes ne @ nm) ?e"
  have l0: "length ?e = length dblk"
    using at(2,4) by (intro length_overlay) simp
  have l: "length ?d = length dblk"
    using fits at(4) l0 length_overlay [of "i + r" "dirent_bytes ne @ nm" ?e] by simp
  have puts: "Option.bind (put_at i (dirent_bytes de') dblk) (put_entry (i + unat (entry_size (name_len de))) ne nm) = Some ?d"
    using fits at(2,4) nl l0 by (simp add: put_at_def put_entry_def ne r_def)
  have d0: "drop i ?e = dirent_bytes de' @ drop (i + 8) dblk" "take i ?e = take i dblk"
    using at(8) by (simp_all add: overlay_simps)
  have d0': "drop (i + r + (8 + length nm)) ?e = drop (i + r + (8 + length nm)) dblk"
    using r arg_cong [OF d0(1), of "drop (r + (8 + length nm))"] by (simp add: ac_simps)
  have dr: "drop (i + r) ?d = dirent_bytes ne @ nm @ drop (i + r + (8 + length nm)) dblk"
    using fits at(4) l0 d0' by (simp add: overlay_simps)
  have new: "dents (drop (i + r) ?d) ((ne, nm) # ds)"
  proof -
    have "dents (dirent_bytes ne @ nm @ drop (i + r + (8 + length nm)) dblk)
        ((ne, take (unat (name_len ne)) (nm @ drop (i + r + (8 + length nm)) dblk)) # ds)"
    proof (rule dents_entry)
      have "drop (unat (rec_len ne) - 8) (nm @ drop (i + r + (8 + length nm)) dblk) = drop (i + unat (rec_len de)) dblk"
        using fits slack by (simp add: ne add.commute)
      then show "dents (drop (unat (rec_len ne) - 8) (nm @ drop (i + r + (8 + length nm)) dblk)) ds"
        using at(5) by simp
    qed (use assms(2) fits at(4) slack in \<open>simp_all add: ne\<close>)
    then show ?thesis
      using nl dr by (simp add: ne)
  qed
  let ?vs = "take (r - 8) (drop (i + 8) dblk) @ drop (i + r) ?d"
  have di: "drop i ?d = dirent_bytes de' @ ?vs"
  proof -
    have "take (i + r) ?d = take (i + r) ?e"
      using fits at(4) l0 by (simp add: overlay_simps)
    then have "drop i (take (i + r) ?d) = take r (drop i ?e)"
      by (simp add: drop_take)
    also have "\<dots> = dirent_bytes de' @ take (r - 8) (drop (i + 8) dblk)"
      using r by (simp add: d0)
    finally show ?thesis
      using append_take_drop_id [of r "drop i ?d"] by (simp add: drop_take add.commute)
  qed
  have lv: "length (take (r - 8) (drop (i + 8) dblk)) = r - 8"
    using fits at(4) by simp
  have "dents (dirent_bytes de' @ ?vs) ((de', take (unat (name_len de')) ?vs) # (ne, nm) # ds)"
  proof (rule dents_entry)
    show "dents (drop (unat (rec_len de') - 8) ?vs) ((ne, nm) # ds)"
      using new lv by (simp add: de' r_def)
  qed (use lv r in \<open>simp_all add: de' r_def\<close>)
  moreover have "take (unat (name_len de')) ?vs = dn"
    using at(6) lv r by (simp add: de')
  ultimately have "dents (drop i ?d) ((de', dn) # (ne, nm) # ds)"
    using di by simp
  moreover have "take i ?d = take i dblk"
    using fits at(4) l0 d0(2) by (simp add: overlay_def)
  ultimately show ?thesis
    using puts l by blast
qed

lemma append_scan_dents:
  assumes "dents (drop i dblk) ds" "i \<le> length dblk" "ino \<noteq> 0" "length nm < 256"
  shows "\<exists>r. append_scan ino nm ft dblk i = Some r \<and>
    (r = None \<longleftrightarrow> (\<forall>(de, _)\<in>set ds. room de < entry_size (of_nat (length nm)))) \<and>
    (\<forall>dblk'. r = Some dblk' \<longrightarrow> length dblk' = length dblk \<and> take i dblk' = take i dblk \<and>
       (\<exists>ds' xs ys. dents (drop i dblk') ds' \<and> in_use ds = xs @ ys \<and> in_use ds' = xs @ (ino, nm, ft) # ys))"
  using assms(1,2)
proof (induction ds arbitrary: i)
  case Nil
  then show ?case
    by (subst append_scan.simps) simp
next
  case (Cons e ds)
  obtain de dn where e: "e = (de, dn)"
    by (cases e)
  have d: "dents (drop i dblk) ((de, dn) # ds)"
    using Cons.prems(1) e by simp
  note at = dents_at [OF d]
  show ?case
  proof (cases "entry_size (of_nat (length nm)) \<le> room de")
    case False
    then have "append_scan ino nm ft dblk i = append_scan ino nm ft dblk (i + unat (rec_len de))"
      using at(1,3,8) by (subst append_scan.simps) (simp add: room_def Let_def split: if_splits)
    then obtain r where r: "append_scan ino nm ft dblk i = Some r"
        "r = None \<longleftrightarrow> (\<forall>(de, _)\<in>set ds. room de < entry_size (of_nat (length nm)))"
        "\<And>dblk'. r = Some dblk' \<Longrightarrow> length dblk' = length dblk \<and>
           take (i + unat (rec_len de)) dblk' = take (i + unat (rec_len de)) dblk \<and>
           (\<exists>ds' xs ys. dents (drop (i + unat (rec_len de)) dblk') ds' \<and> in_use ds = xs @ ys \<and> in_use ds' = xs @ (ino, nm, ft) # ys)"
      using Cons.IH [OF at(5,4)] by auto
    have later: "length dblk' = length dblk \<and> take i dblk' = take i dblk \<and>
       (\<exists>ds' xs ys. dents (drop i dblk') ds' \<and> in_use (e # ds) = xs @ ys \<and> in_use ds' = xs @ (ino, nm, ft) # ys)"
      if res: "r = Some dblk'" for dblk'
    proof -
      obtain ds' xs ys where *: "length dblk' = length dblk" "take (i + unat (rec_len de)) dblk' = take (i + unat (rec_len de)) dblk"
          "dents (drop (i + unat (rec_len de)) dblk') ds'" "in_use ds = xs @ ys" "in_use ds' = xs @ (ino, nm, ft) # ys"
        using r(3) [OF res] by blast
      have "in_use (e # ds) = in_use [e] @ xs @ ys" "in_use (e # ds') = (in_use [e] @ xs) @ (ino, nm, ft) # ys"
        using * e by simp_all
      then show ?thesis
        using dents_later [OF d *(2,3,1)] *(1) e by (metis append_assoc)
    qed
    show ?thesis
      using r(1,2) later False e by (auto simp: not_le)
  next
    case True
    have "\<exists>dblk' ds' xs ys. append_scan ino nm ft dblk i = Some (Some dblk') \<and> length dblk' = length dblk \<and>
        take i dblk' = take i dblk \<and> dents (drop i dblk') ds' \<and> in_use (e # ds) = xs @ ys \<and> in_use ds' = xs @ (ino, nm, ft) # ys"
    proof (cases "de_inode de = 0")
      case reuse: True
      have fits: "entry_size (of_nat (length nm)) \<le> rec_len de"
        using True reuse by (simp add: room_def)
      obtain dblk' where put: "put_entry i (de\<lparr>de_inode := ino, name_len := of_nat (length nm), file_type := ft\<rparr>) nm dblk = Some dblk'"
          and *: "length dblk' = length dblk" "take i dblk' = take i dblk"
          "dents (drop i dblk') ((de\<lparr>de_inode := ino, name_len := of_nat (length nm), file_type := ft\<rparr>, nm) # ds)"
        using append_reuse [OF d reuse fits assms(4) refl] by blast
      have scan: "append_scan ino nm ft dblk i = Some (Some dblk')"
        using at(1,3,8) put True reuse by (subst append_scan.simps) (simp add: room_def Let_def)
      have "in_use (e # ds) = [] @ in_use ds"
          "in_use ((de\<lparr>de_inode := ino, name_len := of_nat (length nm), file_type := ft\<rparr>, nm) # ds) = [] @ (ino, nm, ft) # in_use ds"
        using reuse assms(3) e by simp_all
      with scan * show ?thesis
        by blast
    next
      case split: False
      have fits: "entry_size (of_nat (length nm)) \<le> rec_len de - entry_size (name_len de)"
        using True split by (simp add: room_def)
      obtain dblk' where put: "Option.bind (put_at i (dirent_bytes (de\<lparr>rec_len := entry_size (name_len de)\<rparr>)) dblk)
            (put_entry (i + unat (entry_size (name_len de)))
              \<lparr>de_inode = ino, rec_len = rec_len de - entry_size (name_len de), name_len = of_nat (length nm), file_type = ft\<rparr> nm) = Some dblk'"
          and *: "length dblk' = length dblk" "take i dblk' = take i dblk"
          "dents (drop i dblk') ((de\<lparr>rec_len := entry_size (name_len de)\<rparr>, dn) #
             (\<lparr>de_inode = ino, rec_len = rec_len de - entry_size (name_len de), name_len = of_nat (length nm), file_type = ft\<rparr>, nm) # ds)"
        using append_split [OF d fits assms(4) refl refl] by blast
      have scan: "append_scan ino nm ft dblk i = Some (Some dblk')"
        using at(1,3,8) put True split by (subst append_scan.simps) (simp add: room_def Let_def)
      have "in_use (e # ds) = in_use [e] @ in_use ds"
          "in_use ((de\<lparr>rec_len := entry_size (name_len de)\<rparr>, dn) #
             (\<lparr>de_inode = ino, rec_len = rec_len de - entry_size (name_len de), name_len = of_nat (length nm), file_type = ft\<rparr>, nm) # ds) =
           in_use [e] @ (ino, nm, ft) # in_use ds"
        using split assms(3) e by simp_all
      with scan * show ?thesis
        by blast
    qed
    moreover have "\<not> (\<forall>(de, _)\<in>set (e # ds). room de < entry_size (of_nat (length nm)))"
      using True e by auto
    ultimately show ?thesis
      by blast
  qed
qed

section \<open>Removing an entry\<close>

lemma name_matches_take: "length nm \<le> length bs \<Longrightarrow> name_matches nm bs = Some (take (length nm) bs = nm)"
proof (induction nm arbitrary: bs)
  case (Cons c nm)
  then show ?case
    by (cases bs) auto
qed simp

text \<open>The test of an entry in the loops.\<close>

lemma entry_matches:
  assumes "dents (drop i dblk) ((de, dn) # ds)" "length nm < 256"
  shows "(if de_inode de \<noteq> 0 \<and> name_len de = of_nat (length nm)
      then name_matches (take (unat (of_nat (length nm) :: u8)) nm) (drop (i + 8) dblk) else Some False) =
    Some (de_inode de \<noteq> 0 \<and> dn = nm)"
proof -
  note at = dents_at [OF assms(1)]
  have nl: "unat (of_nat (length nm) :: u8) = length nm"
    using assms(2) by (simp add: unat_of_nat)
  have iff: "name_len de = of_nat (length nm) \<longleftrightarrow> length dn = length nm"
    using nl at(7) by (metis word_unat_eq_iff)
  show ?thesis
  proof (cases "length dn = length nm")
    case True
    then have "length nm \<le> length (drop (i + 8) dblk)" "take (length nm) (drop (i + 8) dblk) = dn"
      using at(2,4,6,7) by simp_all
    then show ?thesis
      using True iff nl by (simp add: name_matches_take)
  next
    case False
    then show ?thesis
      using iff by auto
  qed
qed

text \<open>With a preceding entry, which takes over the room of the one that is removed.\<close>

lemma remove_merge:
  assumes "dents (drop p dblk) ((pe, pn) # (de, dn) # ds)" "length dblk < 2 ^ 16"
    and pe': "pe' = pe\<lparr>rec_len := rec_len pe + rec_len de\<rparr>"
  shows "\<exists>dblk'. put_at p (dirent_bytes pe') dblk = Some dblk' \<and> length dblk' = length dblk \<and> take p dblk' = take p dblk \<and>
    dents (drop p dblk') ((pe', pn) # ds)"
proof -
  note at = dents_at [OF assms(1)]
  note at' = dents_at [OF at(5)]
  have sum: "unat (rec_len pe + rec_len de) = unat (rec_len pe) + unat (rec_len de)"
    using at'(4) assms(2) by (simp add: unat_word_ariths)
  let ?d = "overlay p (dirent_bytes pe') dblk"
  have "put_at p (dirent_bytes pe') dblk = Some ?d"
    using at(2,4) by (simp add: put_at_def)
  moreover have "length ?d = length dblk"
    using at(2,4) by (intro length_overlay) simp
  moreover have "take p ?d = take p dblk"
    using at(8) by (simp add: overlay_simps)
  moreover have "dents (drop p ?d) ((pe', pn) # ds)"
  proof -
    have dp: "drop p ?d = dirent_bytes pe' @ drop (p + 8) dblk"
      using at(8) by (simp add: overlay_simps)
    have "dents (dirent_bytes pe' @ drop (p + 8) dblk) ((pe', take (unat (name_len pe')) (drop (p + 8) dblk)) # ds)"
    proof (rule dents_entry)
      have "drop (unat (rec_len pe') - 8) (drop (p + 8) dblk) = drop (p + unat (rec_len pe) + unat (rec_len de)) dblk"
        using at(2) sum by (simp add: pe' ac_simps)
      then show "dents (drop (unat (rec_len pe') - 8) (drop (p + 8) dblk)) ds"
        using at'(5) by simp
      have "unat (entry_size (name_len pe)) \<le> unat (rec_len pe)"
        using assms(1) by (simp add: word_le_nat_alt)
      then show "entry_size (name_len pe') \<le> rec_len pe'"
        using sum by (simp add: pe' word_le_nat_alt)
    qed (use at'(4) sum in \<open>simp add: pe'\<close>)
    then show ?thesis
      using at(6) dp by (simp add: pe')
  qed
  ultimately show ?thesis
    by blast
qed

lemma remove_scan_prev:
  assumes "dents (drop p dblk) ((pe, pn) # ds)" "length dblk < 2 ^ 16" "length nm < 256"
  shows "\<exists>r. remove_scan nm dblk (Some p) (p + unat (rec_len pe)) = Some r \<and>
    (r = None \<longleftrightarrow> nm \<notin> (fst \<circ> snd) ` set (in_use ds)) \<and>
    (\<forall>ino dblk'. r = Some (ino, dblk') \<longrightarrow> length dblk' = length dblk \<and> take p dblk' = take p dblk \<and>
       (\<exists>pe' ds' xs ft ys. dents (drop p dblk') ((pe', pn) # ds') \<and> de_inode pe' = de_inode pe \<and> file_type pe' = file_type pe \<and>
          in_use ds = xs @ (ino, nm, ft) # ys \<and> in_use ds' = xs @ ys \<and> nm \<notin> (fst \<circ> snd) ` set xs))"
  using assms(1)
proof (induction ds arbitrary: p pe pn)
  case Nil
  then have "length dblk \<le> p + unat (rec_len pe)"
    using dents_at(5) [OF Nil] by simp
  then show ?case
    by (subst remove_scan.simps) simp
next
  case (Cons e ds)
  obtain de dn where e: "e = (de, dn)"
    by (cases e)
  have d: "dents (drop p dblk) ((pe, pn) # (de, dn) # ds)"
    using Cons.prems e by simp
  define i where "i = p + unat (rec_len pe)"
  note at = dents_at [OF d]
  have di: "dents (drop i dblk) ((de, dn) # ds)"
    using at(5) by (simp add: i_def)
  note ati = dents_at [OF di]
  note test = entry_matches [OF di assms(3)]
  show ?case
  proof (cases "de_inode de \<noteq> 0 \<and> dn = nm")
    case True
    obtain dblk' where put: "put_at p (dirent_bytes (pe\<lparr>rec_len := rec_len pe + rec_len de\<rparr>)) dblk = Some dblk'"
        and *: "length dblk' = length dblk" "take p dblk' = take p dblk"
        "dents (drop p dblk') ((pe\<lparr>rec_len := rec_len pe + rec_len de\<rparr>, pn) # ds)"
      using remove_merge [OF d assms(2) refl] by blast
    have "remove_scan nm dblk (Some p) i = Some (Some (de_inode de, dblk'))"
      using ati(1,3,8) at(1) put test True by (subst remove_scan.simps) (simp add: Let_def)
    moreover have "in_use (e # ds) = [] @ (de_inode de, nm, file_type de) # in_use ds"
      using True e by simp
    ultimately show ?thesis
      using * by (fastforce simp: i_def)
  next
    case False
    have "remove_scan nm dblk (Some p) i = remove_scan nm dblk (Some i) (i + unat (rec_len de))"
      using ati(1,3,8) test False by (subst remove_scan.simps) (simp add: Let_def)
    then obtain r where r: "remove_scan nm dblk (Some p) i = Some r" "r = None \<longleftrightarrow> nm \<notin> (fst \<circ> snd) ` set (in_use ds)"
        "\<And>ino dblk'. r = Some (ino, dblk') \<Longrightarrow> length dblk' = length dblk \<and> take i dblk' = take i dblk \<and>
         (\<exists>pe' ds' xs ft ys. dents (drop i dblk') ((pe', dn) # ds') \<and> de_inode pe' = de_inode de \<and> file_type pe' = file_type de \<and>
            in_use ds = xs @ (ino, nm, ft) # ys \<and> in_use ds' = xs @ ys \<and> nm \<notin> (fst \<circ> snd) ` set xs)"
      using Cons.IH [OF di] by auto
    have later: "length dblk' = length dblk \<and> take p dblk' = take p dblk \<and>
       (\<exists>pe' ds' xs ft ys. dents (drop p dblk') ((pe', pn) # ds') \<and> de_inode pe' = de_inode pe \<and> file_type pe' = file_type pe \<and>
          in_use (e # ds) = xs @ (ino, nm, ft) # ys \<and> in_use ds' = xs @ ys \<and> nm \<notin> (fst \<circ> snd) ` set xs)"
      if res: "r = Some (ino, dblk')" for ino dblk'
    proof -
      obtain de' ds' xs ft ys where *: "length dblk' = length dblk" "take i dblk' = take i dblk"
          "dents (drop i dblk') ((de', dn) # ds')" "de_inode de' = de_inode de" "file_type de' = file_type de"
          "in_use ds = xs @ (ino, nm, ft) # ys" "in_use ds' = xs @ ys" "nm \<notin> (fst \<circ> snd) ` set xs"
        using r(3) [OF res] by blast
      have "dents (drop p dblk') ((pe, pn) # (de', dn) # ds')" "take p dblk' = take p dblk"
        using dents_later [OF d _ _ *(1)] *(2,3) by (simp_all only: i_def)
      moreover have "in_use (e # ds) = (in_use [e] @ xs) @ (ino, nm, ft) # ys" "in_use ((de', dn) # ds') = (in_use [e] @ xs) @ ys"
        using * e by simp_all
      moreover have "nm \<notin> (fst \<circ> snd) ` set (in_use [e] @ xs)"
        using * False e by auto
      ultimately show ?thesis
        using *(1) by blast
    qed
    have "(r = None) = (nm \<notin> (fst \<circ> snd) ` set (in_use (e # ds)))"
      using r(2) False e by auto
    then show ?thesis
      using r(1) later by (auto simp: i_def)
  qed
qed

text \<open>The whole block: the first entry has none before it and is marked unused.\<close>

lemma remove_scan_dents:
  assumes "dents dblk ds" "length dblk < 2 ^ 16" "length nm < 256"
  shows "\<exists>r. remove_scan nm dblk None 0 = Some r \<and> (r = None \<longleftrightarrow> nm \<notin> (fst \<circ> snd) ` set (in_use ds)) \<and>
    (\<forall>ino dblk'. r = Some (ino, dblk') \<longrightarrow> length dblk' = length dblk \<and>
       (\<exists>ds' xs ft ys. dents dblk' ds' \<and> in_use ds = xs @ (ino, nm, ft) # ys \<and> in_use ds' = xs @ ys \<and> nm \<notin> (fst \<circ> snd) ` set xs))"
proof (cases ds)
  case Nil
  then show ?thesis
    using assms(1) by (subst remove_scan.simps) simp
next
  case (Cons e tl)
  obtain de dn where e: "e = (de, dn)"
    by (cases e)
  have d: "dents (drop 0 dblk) ((de, dn) # tl)"
    using assms(1) Cons e by simp
  note at = dents_at [OF d]
  note test = entry_matches [OF d assms(3)]
  show ?thesis
  proof (cases "de_inode de \<noteq> 0 \<and> dn = nm")
    case True
    let ?d = "overlay 0 (dirent_bytes (de\<lparr>de_inode := 0\<rparr>)) dblk"
    have put: "put_at 0 (dirent_bytes (de\<lparr>de_inode := 0\<rparr>)) dblk = Some ?d" and len: "length ?d = length dblk"
      using at(2,4) by (simp_all add: put_at_def length_overlay)
    have scan: "remove_scan nm dblk None 0 = Some (Some (de_inode de, ?d))"
      using at(1,3,8) put test True by (subst remove_scan.simps) (simp add: Let_def)
    have "dents (dirent_bytes (de\<lparr>de_inode := 0\<rparr>) @ drop 8 dblk) ((de\<lparr>de_inode := 0\<rparr>, take (unat (name_len (de\<lparr>de_inode := 0\<rparr>))) (drop 8 dblk)) # tl)"
    proof (rule dents_entry)
      show "dents (drop (unat (rec_len (de\<lparr>de_inode := 0\<rparr>)) - 8) (drop 8 dblk)) tl"
        using at(2,5) by simp
    qed (use d at(4) in simp_all)
    then have "dents ?d ((de\<lparr>de_inode := 0\<rparr>, dn) # tl)"
      using at(6) by (simp add: overlay_def)
    moreover have "in_use ds = [] @ (de_inode de, nm, file_type de) # in_use tl" "in_use ((de\<lparr>de_inode := 0\<rparr>, dn) # tl) = [] @ in_use tl"
      using True Cons e by simp_all
    ultimately have "\<exists>ds' xs ft ys. dents ?d ds' \<and> in_use ds = xs @ (de_inode de, nm, ft) # ys \<and> in_use ds' = xs @ ys \<and>
        nm \<notin> (fst \<circ> snd) ` set xs"
      by (metis list.set(1) image_empty empty_iff)
    moreover have "nm \<in> (fst \<circ> snd) ` set (in_use ds)"
      using True Cons e by force
    ultimately show ?thesis
      using scan len by blast
  next
    case False
    have scan: "remove_scan nm dblk None 0 = remove_scan nm dblk (Some 0) (0 + unat (rec_len de))"
      using at(1,3,8) test False by (subst remove_scan.simps) (simp add: Let_def)
    obtain r where r: "remove_scan nm dblk None 0 = Some r" "r = None \<longleftrightarrow> nm \<notin> (fst \<circ> snd) ` set (in_use tl)"
        "\<And>ino dblk'. r = Some (ino, dblk') \<Longrightarrow> length dblk' = length dblk \<and>
         (\<exists>pe' ds' xs ft ys. dents dblk' ((pe', dn) # ds') \<and> de_inode pe' = de_inode de \<and> file_type pe' = file_type de \<and>
            in_use tl = xs @ (ino, nm, ft) # ys \<and> in_use ds' = xs @ ys \<and> nm \<notin> (fst \<circ> snd) ` set xs)"
      using remove_scan_prev [OF d assms(2,3)] scan by auto
    have "length dblk' = length dblk \<and>
       (\<exists>ds' xs ft ys. dents dblk' ds' \<and> in_use ds = xs @ (ino, nm, ft) # ys \<and> in_use ds' = xs @ ys \<and> nm \<notin> (fst \<circ> snd) ` set xs)"
      if res: "r = Some (ino, dblk')" for ino dblk'
    proof -
      obtain pe' ds' xs ft ys where *: "length dblk' = length dblk" "dents dblk' ((pe', dn) # ds')" "de_inode pe' = de_inode de"
          "file_type pe' = file_type de" "in_use tl = xs @ (ino, nm, ft) # ys" "in_use ds' = xs @ ys" "nm \<notin> (fst \<circ> snd) ` set xs"
        using r(3) [OF res] by blast
      have "in_use ds = (in_use [e] @ xs) @ (ino, nm, ft) # ys" "in_use ((pe', dn) # ds') = (in_use [e] @ xs) @ ys"
        using * Cons e by simp_all
      moreover have "nm \<notin> (fst \<circ> snd) ` set (in_use [e] @ xs)"
        using * False e by auto
      ultimately show ?thesis
        using *(1,2) by blast
    qed
    moreover have "(r = None) = (nm \<notin> (fst \<circ> snd) ` set (in_use ds))"
      using r(2) False Cons e by auto
    ultimately show ?thesis
      using r(1) by blast
  qed
qed

section \<open>Looking for entries\<close>

text \<open>The block lies within the size of the directory.\<close>

lemma finddir_scan_dents:
  assumes "dents (drop i dblk) ds" "i \<le> length dblk" "unat visited + length dblk \<le> unat tot"
  shows "dirent_scan finddir_cb dblk visited tot i fc =
    Some (case find (\<lambda>(ino, nm, ft). nm = fc_name fc) (in_use ds) of
        None \<Rightarrow> (False, fc)
      | Some (ino, nm, ft) \<Rightarrow> (True, fc\<lparr>fc_found := Some (ino, ft)\<rparr>))"
  using assms(1,2)
proof (induction ds arbitrary: i)
  case Nil
  then show ?case
    by (subst dirent_scan.simps) simp
next
  case (Cons e ds)
  obtain de dn where e: "e = (de, dn)"
    by (cases e)
  have d: "dents (drop i dblk) ((de, dn) # ds)"
    using Cons.prems(1) e by simp
  note at = dents_at [OF d]
  have small: "unat visited + i < 2 ^ 32" "i < 2 ^ 32" "unat visited + i < unat tot"
    using at(8) assms(3) unat_u32_bound [of tot] by linarith+
  then have lim: "\<not> tot \<le> visited + of_nat i"
    by (simp add: word_le_nat_alt unat_word_ariths)
  have cb: "finddir_cb de (drop (i + 8) dblk) fc =
      Some (if dn = fc_name fc then (True, fc\<lparr>fc_found := Some (de_inode de, file_type de)\<rparr>) else (False, fc))"
  proof (cases "unat (name_len de) = length (fc_name fc)")
    case True
    then have "length (fc_name fc) \<le> length (drop (i + 8) dblk)" "take (length (fc_name fc)) (drop (i + 8) dblk) = dn"
      using at(2,4,6) by simp_all
    then show ?thesis
      using True by (simp add: finddir_cb_def name_matches_take)
  next
    case False
    then show ?thesis
      using at(7) by (auto simp: finddir_cb_def)
  qed
  show ?case
    using at(1,3,8) lim cb Cons.IH [OF at(5,4)] e by (subst dirent_scan.simps) simp
qed

text \<open>A directory is empty when no entry in use has another name than \<open>.\<close> and \<open>..\<close>.\<close>

lemma empty_scan_dents:
  assumes "dents (drop i dblk) ds" "i \<le> length dblk"
  shows "empty_scan dblk i = Some (\<forall>(ino, nm, ft)\<in>set (in_use ds). nm = name_bytes ''.'' \<or> nm = name_bytes ''..'')"
  using assms
proof (induction ds arbitrary: i)
  case Nil
  then show ?case
    by (subst empty_scan.simps) simp
next
  case (Cons e ds)
  obtain de dn where e: "e = (de, dn)"
    by (cases e)
  have d: "dents (drop i dblk) ((de, dn) # ds)"
    using Cons.prems(1) e by simp
  note at = dents_at [OF d]
  have dots: "name_bytes ''.'' = [46]" "name_bytes ''..'' = [46, 46]"
    by (simp_all add: name_bytes_def)
  have len: "name_len de = 1 \<longleftrightarrow> length dn = 1" "name_len de = 2 \<longleftrightarrow> length dn = 2"
    using at(7) by (auto simp: word_unat_eq_iff)
  have "dot_entry de (drop (i + 8) dblk) = Some (dn = [46] \<or> dn = [46, 46])"
  proof -
    have "name_matches [46] (drop (i + 8) dblk) = Some (dn = [46])" if "length dn = 1"
      using that at(2,4,6,7) by (subst name_matches_take) simp_all
    moreover have "name_matches [46, 46] (drop (i + 8) dblk) = Some (dn = [46, 46])" if "length dn = 2"
      using that at(2,4,6,7) by (subst name_matches_take) (simp_all add: numeral_2_eq_2)
    ultimately show ?thesis
      using len by (auto simp: dot_entry_def)
  qed
  then show ?case
    using at(1,3,8) Cons.IH [OF at(5,4)] e dots by (subst empty_scan.simps) simp
qed

section \<open>A directory block as a map from names\<close>

text \<open>What a search for a name in the block finds: the inode and the type of the entry.\<close>

definition dir_lookup :: "u8 list \<Rightarrow> u32 \<Rightarrow> u8 list \<Rightarrow> (u32 \<times> u8) option option" where
  "dir_lookup dblk tot nm = map_option (fc_found \<circ> snd) (dirent_scan finddir_cb dblk 0 tot 0 \<lparr>fc_name = nm, fc_found = None\<rparr>)"

definition dir_names :: "(ext2_dirent \<times> u8 list) list \<Rightarrow> u8 list list" where
  "dir_names ds = map (fst \<circ> snd) (in_use ds)"

lemma dir_lookup_in_use:
  assumes "dents dblk ds" "length dblk \<le> unat tot"
  shows "dir_lookup dblk tot nm = Some (map_option (\<lambda>(ino, _, ft). (ino, ft)) (find (\<lambda>(_, n, _). n = nm) (in_use ds)))"
proof -
  have "dirent_scan finddir_cb dblk 0 tot 0 \<lparr>fc_name = nm, fc_found = None\<rparr> =
      Some (case find (\<lambda>(_, n, _). n = nm) (in_use ds) of None \<Rightarrow> (False, \<lparr>fc_name = nm, fc_found = None\<rparr>)
        | Some (ino, n, ft) \<Rightarrow> (True, \<lparr>fc_name = nm, fc_found = Some (ino, ft)\<rparr>))"
    using finddir_scan_dents [of 0 dblk ds 0 tot "\<lparr>fc_name = nm, fc_found = None\<rparr>"] assms by (auto split: option.splits)
  then show ?thesis
    by (auto simp: dir_lookup_def split: option.splits)
qed

lemma find_append: "find P (xs @ ys) = (case find P xs of None \<Rightarrow> find P ys | Some x \<Rightarrow> Some x)"
  by (induction xs) simp_all

lemma find_name_None: "find (\<lambda>(_, n, _). n = nm) es = None \<longleftrightarrow> nm \<notin> (fst \<circ> snd) ` set es"
  by (induction es) auto

lemma find_insert:
  assumes "nm \<notin> (fst \<circ> snd) ` set xs"
  shows "find (\<lambda>(_, n, _). n = x) (xs @ (ino, nm, ft) # ys) =
    (if x = nm then Some (ino, nm, ft) else find (\<lambda>(_, n, _). n = x) (xs @ ys))"
  using find_name_None [of nm xs] assms by (simp add: find_append split: option.split)

text \<open>C14: adding an entry to a directory block.  When an entry has room, the new one is found under its name and every
  other name leads to the entry it led to; the block keeps its size and stays filled with entries,
  those in use in their order with the new one between them.  Without room the block is left as it is.
  No access is outside the block.\<close>

theorem append_scan_correct:
  assumes "dents dblk ds" "ino \<noteq> 0" "length nm < 256" "length dblk \<le> unat tot" "nm \<notin> set (dir_names ds)"
  shows "((\<forall>e\<in>set ds. room (fst e) < entry_size (of_nat (length nm))) \<longrightarrow> append_scan ino nm ft dblk 0 = Some None) \<and>
    ((\<exists>e\<in>set ds. entry_size (of_nat (length nm)) \<le> room (fst e)) \<longrightarrow>
      (\<exists>dblk' ds' xs ys. append_scan ino nm ft dblk 0 = Some (Some dblk') \<and> length dblk' = length dblk \<and> dents dblk' ds' \<and>
         in_use ds = xs @ ys \<and> in_use ds' = xs @ (ino, nm, ft) # ys \<and>
         (\<forall>x. dir_lookup dblk' tot x = (if x = nm then Some (Some (ino, ft)) else dir_lookup dblk tot x))))"
proof -
  obtain r where r: "append_scan ino nm ft dblk 0 = Some r"
      "r = None \<longleftrightarrow> (\<forall>(de, _)\<in>set ds. room de < entry_size (of_nat (length nm)))"
      "\<And>dblk'. r = Some dblk' \<Longrightarrow> length dblk' = length dblk \<and>
         (\<exists>ds' xs ys. dents dblk' ds' \<and> in_use ds = xs @ ys \<and> in_use ds' = xs @ (ino, nm, ft) # ys)"
    using append_scan_dents [of 0 dblk ds ino nm ft] assms by auto
  have none: "(\<forall>e\<in>set ds. room (fst e) < entry_size (of_nat (length nm))) \<longrightarrow> append_scan ino nm ft dblk 0 = Some None"
    using r(1,2) by auto
  have some: "(\<exists>e\<in>set ds. entry_size (of_nat (length nm)) \<le> room (fst e)) \<longrightarrow>
      (\<exists>dblk' ds' xs ys. append_scan ino nm ft dblk 0 = Some (Some dblk') \<and> length dblk' = length dblk \<and> dents dblk' ds' \<and>
         in_use ds = xs @ ys \<and> in_use ds' = xs @ (ino, nm, ft) # ys \<and>
         (\<forall>x. dir_lookup dblk' tot x = (if x = nm then Some (Some (ino, ft)) else dir_lookup dblk tot x)))"
  proof
    assume "\<exists>e\<in>set ds. entry_size (of_nat (length nm)) \<le> room (fst e)"
    then have "r \<noteq> None"
      using r(2) by (fastforce simp: not_less)
    then obtain dblk' where res: "r = Some dblk'"
      by blast
    obtain ds' xs ys where *: "length dblk' = length dblk" "dents dblk' ds'" "in_use ds = xs @ ys" "in_use ds' = xs @ (ino, nm, ft) # ys"
      using r(3) [OF res] by blast
    have xs: "nm \<notin> (fst \<circ> snd) ` set xs"
      using assms(5) *(3) by (auto simp: dir_names_def)
    have "dir_lookup dblk' tot x = (if x = nm then Some (Some (ino, ft)) else dir_lookup dblk tot x)" for x
      using dir_lookup_in_use [OF assms(1,4), of x] dir_lookup_in_use [OF *(2), of tot x] assms(4) *(1,3,4) find_insert [OF xs, of x ino ft ys]
      by simp
    then show "\<exists>dblk' ds' xs ys. append_scan ino nm ft dblk 0 = Some (Some dblk') \<and> length dblk' = length dblk \<and> dents dblk' ds' \<and>
         in_use ds = xs @ ys \<and> in_use ds' = xs @ (ino, nm, ft) # ys \<and>
         (\<forall>x. dir_lookup dblk' tot x = (if x = nm then Some (Some (ino, ft)) else dir_lookup dblk tot x))"
      using r(1) res * by blast
  qed
  show ?thesis
    using none some by (rule conjI)
qed

text \<open>C15: removing an entry from a directory block smaller than 64 KiB whose names are distinct.  A name that is not there
  changes nothing; otherwise the result is the inode the name led to, the name leads nowhere afterwards and
  every other name to the same entry as before; the block stays filled with entries.\<close>

theorem remove_scan_correct:
  assumes "dents dblk ds" "length dblk < 2 ^ 16" "length nm < 256" "length dblk \<le> unat tot" "distinct (dir_names ds)"
  shows "(nm \<notin> set (dir_names ds) \<longrightarrow> remove_scan nm dblk None 0 = Some None) \<and>
    (nm \<in> set (dir_names ds) \<longrightarrow>
      (\<exists>ino ft dblk' ds'. remove_scan nm dblk None 0 = Some (Some (ino, dblk')) \<and> dir_lookup dblk tot nm = Some (Some (ino, ft)) \<and>
         length dblk' = length dblk \<and> dents dblk' ds' \<and> distinct (dir_names ds') \<and>
         (\<forall>x. dir_lookup dblk' tot x = (if x = nm then Some None else dir_lookup dblk tot x))))"
proof -
  obtain r where r: "remove_scan nm dblk None 0 = Some r" "r = None \<longleftrightarrow> nm \<notin> (fst \<circ> snd) ` set (in_use ds)"
      "\<And>ino dblk'. r = Some (ino, dblk') \<Longrightarrow> length dblk' = length dblk \<and>
         (\<exists>ds' xs ft ys. dents dblk' ds' \<and> in_use ds = xs @ (ino, nm, ft) # ys \<and> in_use ds' = xs @ ys \<and> nm \<notin> (fst \<circ> snd) ` set xs)"
    using remove_scan_dents [OF assms(1-3)] by auto
  have none: "nm \<notin> set (dir_names ds) \<longrightarrow> remove_scan nm dblk None 0 = Some None"
    using r(1,2) by (simp add: dir_names_def)
  have some: "nm \<in> set (dir_names ds) \<longrightarrow>
      (\<exists>ino ft dblk' ds'. remove_scan nm dblk None 0 = Some (Some (ino, dblk')) \<and> dir_lookup dblk tot nm = Some (Some (ino, ft)) \<and>
         length dblk' = length dblk \<and> dents dblk' ds' \<and> distinct (dir_names ds') \<and>
         (\<forall>x. dir_lookup dblk' tot x = (if x = nm then Some None else dir_lookup dblk tot x)))"
  proof
    assume "nm \<in> set (dir_names ds)"
    then obtain ino dblk' where res: "r = Some (ino, dblk')"
      using r(2) by (cases r) (auto simp: dir_names_def)
    obtain ds' xs ft ys where *: "length dblk' = length dblk" "dents dblk' ds'" "in_use ds = xs @ (ino, nm, ft) # ys"
        "in_use ds' = xs @ ys" "nm \<notin> (fst \<circ> snd) ` set xs"
      using r(3) [OF res] by blast
    have "distinct (dir_names ds')" and ys: "nm \<notin> (fst \<circ> snd) ` set (xs @ ys)"
      using assms(5) *(3,4,5) by (auto simp: dir_names_def)
    moreover have "dir_lookup dblk' tot x = (if x = nm then Some None else dir_lookup dblk tot x)" for x
      using dir_lookup_in_use [OF assms(1,4), of x] dir_lookup_in_use [OF *(2), of tot x] assms(4) *(1,3,4)
        find_insert [OF *(5), of x ino ft ys] find_name_None [of nm "xs @ ys"] ys
      by simp
    moreover have "dir_lookup dblk tot nm = Some (Some (ino, ft))"
      using dir_lookup_in_use [OF assms(1,4), of nm] *(3) find_insert [OF *(5), of nm ino ft ys] by simp
    ultimately show "\<exists>ino ft dblk' ds'. remove_scan nm dblk None 0 = Some (Some (ino, dblk')) \<and> dir_lookup dblk tot nm = Some (Some (ino, ft)) \<and>
         length dblk' = length dblk \<and> dents dblk' ds' \<and> distinct (dir_names ds') \<and>
         (\<forall>x. dir_lookup dblk' tot x = (if x = nm then Some None else dir_lookup dblk tot x))"
      using r(1) res *(1,2) by blast
  qed
  show ?thesis
    using none some by (rule conjI)
qed

text \<open>A block with the entries of an empty directory, the second one with room for another.\<close>

definition dir_example :: "u8 list" where
  "dir_example = dirent_bytes \<lparr>de_inode = 5, rec_len = 12, name_len = 1, file_type = 2\<rparr> @ [46, 0, 0, 0] @
     dirent_bytes \<lparr>de_inode = 2, rec_len = 24, name_len = 2, file_type = 2\<rparr> @ [46, 46] @ replicate 14 0"

definition dents_example :: "(ext2_dirent \<times> u8 list) list" where
  "dents_example = [(\<lparr>de_inode = 5, rec_len = 12, name_len = 1, file_type = 2\<rparr>, [46]),
     (\<lparr>de_inode = 2, rec_len = 24, name_len = 2, file_type = 2\<rparr>, [46, 46])]"

lemma dents_example: "dents dir_example dents_example"
  by code_simp

lemma length_dir_example: "length dir_example = 36"
  by (simp add: dir_example_def)

lemma dir_names_example: "dir_names dents_example = [[46], [46, 46]]"
  by (simp add: dir_names_def dents_example_def)

theorem append_scan_correct_witness:
  "\<exists>dblk'. append_scan 7 [97] 1 dir_example 0 = Some (Some dblk') \<and> dir_lookup dblk' 36 [97] = Some (Some (7, 1))"
proof -
  have "\<exists>e\<in>set dents_example. entry_size (of_nat (length [97 :: u8])) \<le> room (fst e)"
    by (simp add: dents_example_def room_def entry_size_def)
  then show ?thesis
    using append_scan_correct [OF dents_example, of 7 "[97]" 36 1]
    by (auto simp: length_dir_example dir_names_example)
qed

theorem remove_scan_correct_witness:
  "\<exists>ino dblk'. remove_scan [46, 46] dir_example None 0 = Some (Some (ino, dblk')) \<and> dir_lookup dblk' 36 [46, 46] = Some None"
  using remove_scan_correct [OF dents_example, of "[46, 46]" 36]
  by (auto simp: length_dir_example dir_names_example)

end
