(* ===== verification/Video.thy ===== *)
theory Video
  imports Sched
begin

text \<open>
  \<open>krnl/hw/video.c\<close> and \<open>krnl/font/psf.c\<close>: drawing into the frame buffer, and the header of a PSF font.

  A frame buffer is a record; \<open>None\<close> is a null pointer to it.  The pixels are words of four bytes in
  memory.  The built-in font is a function from its index to the byte.  Drawing writes into the area of
  the frame buffer only.
\<close>

section \<open>Fonts\<close>

record psf_font =
  pf_version :: int
  pf_width :: u32
  pf_height :: u32
  pf_bytesperglyph :: u32
  pf_numglyph :: u32
  pf_glyphs :: u64

definition PSF1_MODE512 :: u8 where "PSF1_MODE512 = 0x01"

definition read32 :: "memory \<Rightarrow> u64 \<Rightarrow> u32" where
  "read32 m a = foldr (OR) (map (\<lambda>i. push_bit (8 * i) (ucast (m (a + of_nat i)))) [0..<4]) 0"

text \<open>\<open>font\<close> is the structure that is filled; the result is \<open>-1\<close> when the memory holds no font.\<close>

definition psf_init_font :: "psf_font option \<Rightarrow> u64 \<Rightarrow> memory \<Rightarrow> int \<times> psf_font option" where
  "psf_init_font font mem m =
     (case font of
        None \<Rightarrow> (- 1, None)
      | Some f \<Rightarrow>
          if mem = NULL then (- 1, Some f)
          else if m mem = 0x36 \<and> m (mem + 1) = 0x04
          then (0, Some (f\<lparr>pf_version := 1, pf_width := 8, pf_height := ucast (m (mem + 3)), pf_bytesperglyph := ucast (m (mem + 3)),
                 pf_numglyph := (if m (mem + 2) AND PSF1_MODE512 \<noteq> 0 then 512 else 256), pf_glyphs := mem + 4\<rparr>))
          else if m mem = 0x72 \<and> m (mem + 1) = 0xb5 \<and> m (mem + 2) = 0x4a \<and> m (mem + 3) = 0x86
          then (0, Some (f\<lparr>pf_version := 2, pf_width := read32 m (mem + 28), pf_height := read32 m (mem + 24),
                 pf_bytesperglyph := read32 m (mem + 20), pf_numglyph := read32 m (mem + 16), pf_glyphs := mem + ucast (read32 m (mem + 8))\<rparr>))
          else (- 1, Some f))"

section \<open>The frame buffer\<close>

record framebuffer =
  fb_width :: u64
  fb_height :: u64
  fb_pitch :: u64
  fb_bpp :: u32
  fb_buffer :: u64
  fb_swap :: u64

record limine_framebuffer =
  lf_address :: u64
  lf_width :: u64
  lf_height :: u64
  lf_pitch :: u64
  lf_bpp :: u16

definition vid_fb_init :: "framebuffer option \<Rightarrow> limine_framebuffer \<Rightarrow> int \<times> framebuffer option" where
  "vid_fb_init fb lf =
     (if fb = None then (- 1, fb)
      else (0, Some \<lparr>fb_width = lf_width lf, fb_height = lf_height lf, fb_pitch = lf_pitch lf, fb_bpp = ucast (lf_bpp lf),
              fb_buffer = lf_address lf, fb_swap = NULL\<rparr>))"

text \<open>\<open>fb->buffer[i] = color\<close>.\<close>

definition put32 :: "u64 \<Rightarrow> u32 \<Rightarrow> memory \<Rightarrow> memory" where
  "put32 a v m = fold (\<lambda>i m. m(a + of_nat i := ucast (drop_bit (8 * i) v))) [0..<4] m"

definition put_pixel :: "framebuffer \<Rightarrow> u64 \<Rightarrow> u64 \<Rightarrow> u32 \<Rightarrow> memory \<Rightarrow> memory" where
  "put_pixel f x y color m = put32 (fb_buffer f + 4 * (y * (fb_pitch f div 4) + x)) color m"

definition no_buffer :: "framebuffer option \<Rightarrow> bool" where
  "no_buffer fb \<longleftrightarrow> fb = None \<or> fb_buffer (the fb) = NULL"

text \<open>The rows from \<open>y0\<close> on in one colour.\<close>

definition clear_rows :: "framebuffer \<Rightarrow> nat \<Rightarrow> u32 \<Rightarrow> memory \<Rightarrow> memory" where
  "clear_rows f y0 color m =
     fold (\<lambda>y. fold (\<lambda>x. put_pixel f (of_nat x) (of_nat y) color) [0..<unat (fb_width f)]) [y0..<unat (fb_height f)] m"

definition vid_fb_clear :: "framebuffer option \<Rightarrow> u32 \<Rightarrow> memory \<Rightarrow> int \<times> memory" where
  "vid_fb_clear fb color m = (if no_buffer fb then (- 1, m) else (0, clear_rows (the fb) 0 color m))"

definition fb_bytes :: "framebuffer \<Rightarrow> u64" where
  "fb_bytes f = fb_height f * fb_width f * ucast (fb_bpp f div 8)"

definition vid_fb_enable_swap :: "framebuffer option \<Rightarrow> 'a kernel_scheme \<Rightarrow> int \<times> framebuffer option \<times> 'a kernel_scheme" where
  "vid_fb_enable_swap fb s =
     (case fb of
        None \<Rightarrow> (- 1, fb, s)
      | Some f \<Rightarrow>
          if fb_swap f \<noteq> NULL then (0, fb, s)
          else if fb_buffer f = NULL then (- 1, fb, s)
          else
            let f = f\<lparr>fb_swap := fb_buffer f\<rparr>;
                (buf, s) = k_kmalloc (fb_bytes f) s;
                f = f\<lparr>fb_buffer := buf\<rparr>
            in if buf = NULL then (- 1, Some f, s)
               else (0, Some f, set_mem (snd (vid_fb_clear (Some f) 0 (k_mem s))) s))"

definition vid_fb_swap :: "framebuffer option \<Rightarrow> memory \<Rightarrow> int \<times> memory" where
  "vid_fb_swap fb m =
     (if no_buffer fb \<or> fb_swap (the fb) = NULL then (- 1, m)
      else (0, snd (memcpy_fast m (fb_swap (the fb)) (fb_buffer (the fb)) (fb_bytes (the fb)))))"

definition vid_fb_putpixel :: "framebuffer option \<Rightarrow> u64 \<Rightarrow> u64 \<Rightarrow> u32 \<Rightarrow> memory \<Rightarrow> int \<times> memory" where
  "vid_fb_putpixel fb x y color m =
     (if no_buffer fb then (- 1, m)
      else if fb_width (the fb) \<le> x \<or> fb_height (the fb) \<le> y then (- 1, m)
      else (0, put_pixel (the fb) x y color m))"

text \<open>A rectangle of \<open>w\<close> times \<open>h\<close> pixels, each lit or not.\<close>

definition draw_glyph :: "framebuffer option \<Rightarrow> u64 \<Rightarrow> u64 \<Rightarrow> nat \<Rightarrow> nat \<Rightarrow> (memory \<Rightarrow> nat \<Rightarrow> nat \<Rightarrow> bool) \<Rightarrow> u32 \<Rightarrow> u32 \<Rightarrow> memory \<Rightarrow> memory" where
  "draw_glyph fb x y w h lit fg bg m =
     fold (\<lambda>row. fold (\<lambda>col m.
         snd (vid_fb_putpixel fb (x + of_nat col) (y + of_nat row) (if lit m row col then fg else bg) m)) [0..<w]) [0..<h] m"

definition FONT_START_CHAR :: int where "FONT_START_CHAR = 32"
definition FONT_LENGTH :: int where "FONT_LENGTH = 224"
definition FONT_CHAR_WIDTH :: nat where "FONT_CHAR_WIDTH = 6"
definition FONT_CHAR_HEIGHT :: nat where "FONT_CHAR_HEIGHT = 8"

text \<open>A character is a signed byte.\<close>

definition vid_fb_drawchar ::
  "(nat \<Rightarrow> u8) \<Rightarrow> framebuffer option \<Rightarrow> u64 \<Rightarrow> u64 \<Rightarrow> u8 \<Rightarrow> u32 \<Rightarrow> u32 \<Rightarrow> memory \<Rightarrow> int \<times> memory" where
  "vid_fb_drawchar font fb x y c fg bg m =
     (if no_buffer fb then (- 1, m)
      else if sint c < FONT_START_CHAR \<or> FONT_START_CHAR + FONT_LENGTH \<le> sint c then (- 1, m)
      else (0, draw_glyph fb x y FONT_CHAR_WIDTH FONT_CHAR_HEIGHT
                 (\<lambda>_ row col. bit (font (nat (sint c - FONT_START_CHAR) * FONT_CHAR_HEIGHT + row)) col) fg bg m))"

definition psf_lit :: "psf_font \<Rightarrow> u32 \<Rightarrow> memory \<Rightarrow> nat \<Rightarrow> nat \<Rightarrow> bool" where
  "psf_lit f index m row col =
     (let glyph = pf_glyphs f + ucast (index * pf_bytesperglyph f);
          bytes_per_line = (pf_width f + 7) div 8
      in bit (m (glyph + ucast (of_nat row * bytes_per_line + of_nat (col div 8)))) (7 - col mod 8))"

definition vid_fb_drawchar_psf ::
  "framebuffer option \<Rightarrow> psf_font option \<Rightarrow> u64 \<Rightarrow> u64 \<Rightarrow> u32 \<Rightarrow> u32 \<Rightarrow> u32 \<Rightarrow> memory \<Rightarrow> int \<times> memory" where
  "vid_fb_drawchar_psf fb font x y c fg bg m =
     (if no_buffer fb then (- 1, m)
      else
        case font of
          None \<Rightarrow> (- 1, m)
        | Some f \<Rightarrow>
            let index = ucast (ucast c :: u8);
                index = (if pf_numglyph f \<le> index then 0x3F else index)
            in (0, draw_glyph fb x y (unat (pf_width f)) (unat (pf_height f)) (psf_lit f index) fg bg m))"

section \<open>Drawing stays inside\<close>

definition fb_area :: "framebuffer \<Rightarrow> u64 set" where
  "fb_area f = region (fb_buffer f) (unat (fb_height f) * unat (fb_pitch f))"

text \<open>The rows fit into the pitch and the buffer into the address space.\<close>

definition fb_ok :: "framebuffer \<Rightarrow> bool" where
  "fb_ok f \<longleftrightarrow> 4 * unat (fb_width f) \<le> unat (fb_pitch f) \<and> unat (fb_height f) * unat (fb_pitch f) < 2 ^ 64"

definition only_area :: "framebuffer \<Rightarrow> (memory \<Rightarrow> memory) \<Rightarrow> bool" where
  "only_area f g \<longleftrightarrow> (\<forall>m a. a \<notin> fb_area f \<longrightarrow> g m a = m a)"

lemma only_area_fold: "(\<And>x. x \<in> set xs \<Longrightarrow> only_area f (g x)) \<Longrightarrow> only_area f (fold g xs)"
proof (induction xs)
  case (Cons x xs)
  then have "only_area f (fold g xs)" "only_area f (g x)" by auto
  then show ?case by (simp add: only_area_def)
qed (simp add: only_area_def)

lemma put32_frame: "a \<notin> region p 4 \<Longrightarrow> put32 p v m a = m a"
  by (auto simp: put32_def eval_nat_numeral region_def lessThan_Suc)

lemma pixel_offset:
  assumes ok: "fb_ok f" and x: "x < fb_width f" and y: "y < fb_height f"
  shows "unat (4 * (y * (fb_pitch f div 4) + x)) + 4 \<le> unat (fb_height f) * unat (fb_pitch f)"
proof -
  let ?q = "unat (fb_pitch f) div 4"
  have q: "unat (fb_pitch f div 4) = ?q" by (simp add: unat_div)
  have xq: "unat x < ?q" using x ok unfolding word_less_unat fb_ok_def by linarith
  have yh: "Suc (unat y) \<le> unat (fb_height f)" using y by (simp add: word_less_unat)
  have "4 * (unat y * ?q + unat x) + 4 \<le> 4 * (Suc (unat y) * ?q)" using xq by simp
  also have "\<dots> \<le> 4 * (unat (fb_height f) * ?q)" by (intro mult_le_mono le_refl yh)
  also have "\<dots> = unat (fb_height f) * (4 * ?q)" by simp
  also have "\<dots> \<le> unat (fb_height f) * unat (fb_pitch f)" by (intro mult_le_mono le_refl) simp
  finally have le: "4 * (unat y * ?q + unat x) + 4 \<le> unat (fb_height f) * unat (fb_pitch f)" .
  then have lt: "4 * (unat y * ?q + unat x) < 2 ^ 64" using ok by (simp add: fb_ok_def)
  have "4 * (y * (fb_pitch f div 4) + x) = of_nat (4 * (unat y * ?q + unat x))"
    by (simp add: q flip: q)
  then have "unat (4 * (y * (fb_pitch f div 4) + x)) = 4 * (unat y * ?q + unat x)" using unat_of_nat_u64 [OF lt] by simp
  then show ?thesis using le by simp
qed

lemma put_pixel_area:
  assumes "fb_ok f" and "x < fb_width f" and "y < fb_height f"
  shows "only_area f (put_pixel f x y c)"
proof -
  let ?o = "4 * (y * (fb_pitch f div 4) + x)"
  have "region (fb_buffer f + ?o) 4 \<subseteq> fb_area f"
  proof -
    have "region (fb_buffer f + of_nat (unat ?o)) 4 \<subseteq> region (fb_buffer f) (unat ?o + 4)" by (rule region_shift)
    also have "\<dots> \<subseteq> fb_area f" unfolding fb_area_def by (rule region_mono) (rule pixel_offset [OF assms])
    finally show ?thesis by simp
  qed
  then show ?thesis using put32_frame unfolding only_area_def put_pixel_def by blast
qed

lemma clear_rows_area: "fb_ok f \<Longrightarrow> only_area f (clear_rows f y0 color)"
proof -
  assume ok: "fb_ok f"
  have "only_area f (put_pixel f (of_nat x) (of_nat y) color)" if "x < unat (fb_width f)" "y < unat (fb_height f)" for x y
  proof (rule put_pixel_area [OF ok])
    show "of_nat x < fb_width f" "of_nat y < fb_height f"
      using that le_less_trans [OF less_imp_le unat_u64_bound] by (simp_all add: word_less_unat unat_of_nat_u64)
  qed
  then have "only_area f (fold (\<lambda>y. fold (\<lambda>x. put_pixel f (of_nat x) (of_nat y) color) [0..<unat (fb_width f)]) [y0..<unat (fb_height f)])"
    by (intro only_area_fold) auto
  then show ?thesis by (simp add: only_area_def clear_rows_def)
qed

lemma putpixel_area: "fb_ok f \<Longrightarrow> only_area f (\<lambda>m. snd (vid_fb_putpixel (Some f) x y (c m) m))"
proof -
  assume ok: "fb_ok f"
  have "put_pixel f x y (c m) m a = m a" if "x < fb_width f" "y < fb_height f" "a \<notin> fb_area f" for m a
    using put_pixel_area [OF ok that(1,2)] that(3) by (simp add: only_area_def)
  then show ?thesis by (auto simp: only_area_def vid_fb_putpixel_def not_le)
qed

lemma draw_glyph_area: "fb_ok f \<Longrightarrow> only_area f (draw_glyph (Some f) x y w h lit fg bg)"
proof -
  assume ok: "fb_ok f"
  have "draw_glyph (Some f) x y w h lit fg bg = fold (\<lambda>row. fold (\<lambda>col m.
      snd (vid_fb_putpixel (Some f) (x + of_nat col) (y + of_nat row) (if lit m row col then fg else bg) m)) [0..<w]) [0..<h]"
    by (simp add: draw_glyph_def fun_eq_iff)
  then show ?thesis using putpixel_area [OF ok] by (simp add: only_area_fold)
qed

lemmas drawing_area = draw_glyph_area clear_rows_area

end
