(* ===== verification/Fsdir.thy ===== *)
theory Fsdir
  imports Vfs
begin

text \<open>
  Directories in memory, as \<open>krnl/fs/devfs.c\<close> and \<open>krnl/fs/tarfs.c\<close> both keep them: a directory has a
  singly linked list of entries, each with the address of a node.  The two files have the same
  loops over such lists; they are written once here, with the fields they read as arguments.
  \<open>elist nx e es\<close> says that the list from \<open>e\<close> on consists of the entries \<open>es\<close>.
\<close>

section \<open>Loops\<close>

text \<open>The node of the first entry with the name, or \<open>NULL\<close>.\<close>

partial_function (option) dir_find :: "(u64 \<Rightarrow> u64) \<Rightarrow> (u64 \<Rightarrow> u64) \<Rightarrow> (u64 \<Rightarrow> string) \<Rightarrow> string \<Rightarrow> u64 \<Rightarrow> u64 option" where
  "dir_find nx nd name_of nm e =
     (if e = NULL then Some NULL
      else if name_of (nd e) = nm then Some (nd e)
      else dir_find nx nd name_of nm (nx e))"

text \<open>\<open>while (entry && i < index)\<close> for the rest of the count.\<close>

fun dir_skip :: "(u64 \<Rightarrow> u64) \<Rightarrow> nat \<Rightarrow> u64 \<Rightarrow> u64" where
  "dir_skip nx 0 e = e"
| "dir_skip nx (Suc n) e = (if e = NULL then NULL else dir_skip nx n (nx e))"

section \<open>Lists of entries\<close>

fun elist :: "(u64 \<Rightarrow> u64) \<Rightarrow> u64 \<Rightarrow> u64 list \<Rightarrow> bool" where
  "elist nx e [] \<longleftrightarrow> e = NULL"
| "elist nx e (x # xs) \<longleftrightarrow> e = x \<and> x \<noteq> NULL \<and> elist nx (nx x) xs"

lemma elist_cong: "(\<And>x. x \<in> set es \<Longrightarrow> nx x = nx' x) \<Longrightarrow> elist nx e es \<longleftrightarrow> elist nx' e es"
  by (induction es arbitrary: e) auto

lemma elist_NULL: "elist nx e es \<Longrightarrow> NULL \<notin> set es"
  by (induction es arbitrary: e) auto

lemma dir_find_elist:
  "elist nx e es \<Longrightarrow>
    dir_find nx nd name_of nm e = Some (case find (\<lambda>x. name_of (nd x) = nm) es of None \<Rightarrow> NULL | Some x \<Rightarrow> nd x)"
  by (induction es arbitrary: e) (subst dir_find.simps, simp)+

lemma dir_skip_NULL [simp]: "dir_skip nx n NULL = NULL"
  by (cases n) simp_all

lemma dir_skip_elist: "elist nx e es \<Longrightarrow> dir_skip nx n e = (if n < length es then es ! n else NULL)"
proof (induction es arbitrary: e n)
  case (Cons x es)
  then show ?case by (cases n) simp_all
qed simp

text \<open>A new entry in front; the other entries keep their successors.\<close>

lemma elist_push:
  assumes "elist nx e es" and "x \<noteq> NULL" and "x \<notin> set es"
  shows "elist (nx(x := e)) x (x # es)"
proof -
  have "elist (nx(x := e)) e es \<longleftrightarrow> elist nx e es" by (rule elist_cong) (use assms(3) in auto)
  then show ?thesis using assms(1,2) by simp
qed

end
