(* ===== verification/Devfs.thy ===== *)
theory Devfs
  imports Syscall Fsdir
begin

text \<open>
  \<open>krnl/fs/devfs.c\<close>: the file system of devices, a tree of directories in memory in which drivers
  register their nodes under a path.

  Entries and directory data are typed stores.  \<open>ops\<close> is the address of the table \<open>devfs_dir_ops\<close>.  A write
  through a null pointer has the result \<open>None\<close>.
\<close>

section \<open>State\<close>

record devfs_entry =
  de_next :: u64
  de_node :: u64

record devfs_dir_data =
  dd_node :: u64
  dd_children :: u64

record devfs = user +
  df_entries :: "u64 \<Rightarrow> devfs_entry"
  df_dirs :: "u64 \<Rightarrow> devfs_dir_data"
  devfs_root_node :: u64
  devfs_inode_counter :: u32

definition DEVFS_ENTRY_SIZE :: u64 where "DEVFS_ENTRY_SIZE = 16"
definition DEVFS_DIR_DATA_SIZE :: u64 where "DEVFS_DIR_DATA_SIZE = 16"

section \<open>Operations\<close>

text \<open>\<open>node->type != VFS_DIRECTORY || !node->device\<close>.\<close>

definition not_dir :: "'a vfs_state_scheme \<Rightarrow> u64 \<Rightarrow> bool" where
  "not_dir s node \<longleftrightarrow> vn_type (vs_nodes s node) \<noteq> VFS_DIRECTORY \<or> device (vs_nodes s node) = NULL"

definition df_next :: "'a devfs_scheme \<Rightarrow> u64 \<Rightarrow> u64" where
  "df_next s e = de_next (df_entries s e)"

definition df_child :: "'a devfs_scheme \<Rightarrow> u64 \<Rightarrow> u64" where
  "df_child s e = de_node (df_entries s e)"

definition df_first :: "'a devfs_scheme \<Rightarrow> u64 \<Rightarrow> u64" where
  "df_first s node = dd_children (df_dirs s (device (vs_nodes s node)))"

definition devfs_finddir :: "u64 \<Rightarrow> string \<Rightarrow> 'a devfs_scheme \<Rightarrow> (u64 \<times> 'a devfs_scheme) option" where
  "devfs_finddir node nm s =
     (if not_dir s node then Some (NULL, s)
      else map_option (\<lambda>n. (n, s)) (dir_find (df_next s) (df_child s) (\<lambda>n. vn_name (vs_nodes s n)) nm (df_first s node)))"

definition devfs_readdir :: "u64 \<Rightarrow> u32 \<Rightarrow> 'a devfs_scheme \<Rightarrow> (dirent option \<times> 'a devfs_scheme) option" where
  "devfs_readdir node index s =
     (if not_dir s node then Some (None, s)
      else
        let entry = dir_skip (df_next s) (unat index) (df_first s node)
        in Some (if entry = NULL then None
                 else Some \<lparr>d_name = take 255 (vn_name (vs_nodes s (df_child s entry))), d_ino = inode (vs_nodes s (df_child s entry))\<rparr>, s))"

text \<open>\<open>entry->node = child; entry->next = dir_data->children; dir_data->children = entry\<close>.\<close>

definition df_link :: "u64 \<Rightarrow> u64 \<Rightarrow> u64 \<Rightarrow> 'a devfs_scheme \<Rightarrow> 'a devfs_scheme" where
  "df_link dir_data entry child s =
     s\<lparr>df_entries := (df_entries s)(entry := \<lparr>de_next = dd_children (df_dirs s dir_data), de_node = child\<rparr>),
       df_dirs := (df_dirs s)(dir_data := (df_dirs s dir_data)\<lparr>dd_children := entry\<rparr>)\<rparr>"

definition next_inode :: "'a devfs_scheme \<Rightarrow> u32 \<times> 'a devfs_scheme" where
  "next_inode s = (devfs_inode_counter s, s\<lparr>devfs_inode_counter := devfs_inode_counter s + 1\<rparr>)"

text \<open>A new directory node with its empty data.\<close>

definition devfs_mkdir :: "u64 \<Rightarrow> u64 \<Rightarrow> string \<Rightarrow> u16 \<Rightarrow> 'a devfs_scheme \<Rightarrow> (int \<times> 'a devfs_scheme) option" where
  "devfs_mkdir ops node nm permission s =
     (if not_dir s node then Some (- 1, s)
      else do {
        (found, s) \<leftarrow> devfs_finddir node nm s;
        if found \<noteq> NULL then Some (- 1, s)
        else do {
          let dir_data = device (vs_nodes s node);
          let (new_dir, s) = vfs_alloc_node s;
          if new_dir = NULL then Some (- 1, s)
          else do {
            let (ino, s) = next_inode s;
            let s = upd_node new_dir (\<lambda>n. n\<lparr>vn_name := take 255 nm, inode := ino, vn_type := VFS_DIRECTORY, vn_ops := ops\<rparr>) s;
            (new_dir_data, s) \<leftarrow> vs_malloc DEVFS_DIR_DATA_SIZE s;
            if new_dir_data = NULL then Some (- 1, vfs_free_node new_dir s)
            else do {
              let s = s\<lparr>df_dirs := (df_dirs s)(new_dir_data := \<lparr>dd_node = new_dir, dd_children = NULL\<rparr>)\<rparr>;
              let s = upd_node new_dir (\<lambda>n. n\<lparr>device := new_dir_data\<rparr>) s;
              (entry, s) \<leftarrow> vs_malloc DEVFS_ENTRY_SIZE s;
              if entry = NULL then Some (- 1, s) else Some (0, df_link dir_data entry new_dir s)
            }
          }
        }
      })"

definition devfs_dir_ops :: "u64 \<Rightarrow> 'a devfs_scheme vfs_operations" where
  "devfs_dir_ops ops = \<lparr>op_read = None, op_write = None, op_open = None, op_close = None, op_readdir = Some devfs_readdir,
     op_finddir = Some devfs_finddir, op_create = None, op_mkdir = Some (devfs_mkdir ops), op_rmdir = None, op_unlink = None,
     op_rename = None, op_stat = None, op_ioctl = None\<rparr>"

definition devfs_mount :: "u64 \<Rightarrow> string option \<Rightarrow> string \<Rightarrow> u64 \<Rightarrow> 'a devfs_scheme \<Rightarrow> (u64 \<times> 'a devfs_scheme) option" where
  "devfs_mount ops source target data s =
     (if devfs_root_node s \<noteq> NULL then Some (devfs_root_node s, s)
      else do {
        let (root, s) = vfs_alloc_node s;
        if root = NULL then Some (NULL, s)
        else do {
          let (ino, s) = next_inode s;
          let s = upd_node root (\<lambda>n. n\<lparr>vn_name := ''dev'', inode := ino, vn_type := VFS_DIRECTORY, vn_ops := ops\<rparr>) s;
          (root_data, s) \<leftarrow> vs_malloc DEVFS_DIR_DATA_SIZE s;
          if root_data = NULL then None
          else
            let s = s\<lparr>df_dirs := (df_dirs s)(root_data := \<lparr>dd_node = root, dd_children = NULL\<rparr>)\<rparr>;
                s = upd_node root (\<lambda>n. n\<lparr>device := root_data\<rparr>) s
            in Some (root, s\<lparr>devfs_root_node := root\<rparr>)
        }
      })"

text \<open>The tokens that the calls of \<open>strtok\<close> return one after the other.\<close>

fun slash_tokens :: "string \<Rightarrow> string list" where
  "slash_tokens p =
     (let p = dropWhile (\<lambda>c. c = CHR ''/'') p
      in if p = [] then []
         else takeWhile (\<lambda>c. c \<noteq> CHR ''/'') p # slash_tokens (tl (dropWhile (\<lambda>c. c \<noteq> CHR ''/'') p)))"

declare slash_tokens.simps [simp del]

text \<open>The loop of \<open>devfs_register_device\<close>: \<open>prev\<close> is the token before the remaining ones.\<close>

fun devfs_register_loop :: "u64 \<Rightarrow> u64 \<Rightarrow> string \<Rightarrow> string list \<Rightarrow> u64 \<Rightarrow> 'a devfs_scheme \<Rightarrow> 'a devfs_scheme option" where
  "devfs_register_loop ops current prev [] device_node s = do {
     let (ino, s) = next_inode s;
     let s = upd_node device_node (\<lambda>n. n\<lparr>vn_name := take 255 prev, inode := ino\<rparr>) s;
     let dir_data = device (vs_nodes s current);
     (entry, s) \<leftarrow> vs_malloc DEVFS_ENTRY_SIZE s;
     if entry = NULL then None else Some (df_link dir_data entry device_node s)
   }"
| "devfs_register_loop ops current prev (t # ts) device_node s = do {
     (next_dir, s) \<leftarrow> devfs_finddir current prev s;
     (next_dir, s) \<leftarrow> (if next_dir = NULL
                       then do { (_, s) \<leftarrow> devfs_mkdir ops current prev 0 s; devfs_finddir current prev s }
                       else Some (next_dir, s));
     if next_dir \<noteq> NULL \<and> vn_type (vs_nodes s next_dir) = VFS_DIRECTORY
     then devfs_register_loop ops next_dir t ts device_node s
     else Some s
   }"

definition devfs_register_device :: "u64 \<Rightarrow> string \<Rightarrow> u64 \<Rightarrow> 'a devfs_scheme \<Rightarrow> 'a devfs_scheme option" where
  "devfs_register_device ops path device_node s = do {
     s \<leftarrow> (if devfs_root_node s = NULL then map_option snd (devfs_mount ops None [] NULL s) else Some s);
     if devfs_root_node s = NULL \<or> device_node = NULL then Some s
     else
       case slash_tokens (take 255 path) of
         [] \<Rightarrow> Some s
       | prev # ts \<Rightarrow> devfs_register_loop ops (devfs_root_node s) prev ts device_node s
   }"

text \<open>\<open>mount\<close> is the address of \<open>devfs_mount\<close>.\<close>

definition devfs_init :: "u64 \<Rightarrow> 'a devfs_scheme \<Rightarrow> 'a devfs_scheme option" where
  "devfs_init mount s = vfs_register_fs ''devfs'' 0 mount s"

section \<open>Invariant\<close>

text \<open>\<open>D\<close> are the directories, \<open>es n\<close> the entries of directory \<open>n\<close>, and a directory has a smaller rank than those below it.\<close>

definition devfs_tree :: "'a devfs_scheme \<Rightarrow> u64 set \<Rightarrow> (u64 \<Rightarrow> u64 list) \<Rightarrow> (u64 \<Rightarrow> nat) \<Rightarrow> bool" where
  "devfs_tree s D es rk \<longleftrightarrow>
     (\<forall>n\<in>D. n \<noteq> NULL \<and> \<not> not_dir s n \<and> elist (df_next s) (df_first s n) (es n)) \<and>
     inj_on (\<lambda>n. device (vs_nodes s n)) D \<and>
     (\<forall>n\<in>D. \<forall>m\<in>D. n \<noteq> m \<longrightarrow> set (es n) \<inter> set (es m) = {}) \<and>
     (\<forall>n\<in>D. \<forall>e\<in>set (es n). df_child s e \<noteq> NULL \<and>
        (vn_type (vs_nodes s (df_child s e)) = VFS_DIRECTORY \<longrightarrow> df_child s e \<in> D \<and> rk n < rk (df_child s e)))"

text \<open>\<open>X\<close> are the live nodes: those of the tree are among them, and entries and directory data are blocks of
  the heap.\<close>

definition devfs_mem :: "'a devfs_scheme \<Rightarrow> u64 set \<Rightarrow> (u64 \<Rightarrow> u64 list) \<Rightarrow> u64 set \<Rightarrow> bool" where
  "devfs_mem s D es X \<longleftrightarrow>
     (\<exists>A L. kslab_inv (vs_slab s) L \<and> L (vfs_node_cache s) = Some X \<and> vfs_node_cache s \<noteq> NULL \<and> vs_blocks s A \<and>
        (\<forall>n\<in>D. n \<in> X \<and> device (vs_nodes s n) \<in> A \<and> set (es n) \<subseteq> A \<and> df_child s ` set (es n) \<subseteq> X))"

definition devfs_inv :: "'a devfs_scheme \<Rightarrow> u64 set \<Rightarrow> (u64 \<Rightarrow> u64 list) \<Rightarrow> (u64 \<Rightarrow> nat) \<Rightarrow> u64 set \<Rightarrow> bool" where
  "devfs_inv s D es rk X \<longleftrightarrow> devfs_tree s D es rk \<and> devfs_mem s D es X"

text \<open>The child with a name, \<open>NULL\<close> when there is none.\<close>

definition df_lookup :: "'a devfs_scheme \<Rightarrow> u64 list \<Rightarrow> string \<Rightarrow> u64" where
  "df_lookup s xs nm = (case find (\<lambda>e. vn_name (vs_nodes s (df_child s e)) = nm) xs of None \<Rightarrow> NULL | Some e \<Rightarrow> df_child s e)"

lemma devfs_finddir_lookup:
  "devfs_tree s D es rk \<Longrightarrow> n \<in> D \<Longrightarrow> devfs_finddir n nm s = Some (df_lookup s (es n) nm, s)"
  using dir_find_elist [of "df_next s" "df_first s n" "es n"] by (simp add: devfs_tree_def devfs_finddir_def df_lookup_def)

lemma df_lookup_child:
  "df_lookup s xs nm \<noteq> NULL \<Longrightarrow> \<exists>e\<in>set xs. df_lookup s xs nm = df_child s e"
proof (induction xs)
  case (Cons e xs)
  then show ?case by (cases "vn_name (vs_nodes s (df_child s e)) = nm") (simp_all add: df_lookup_def)
qed (simp add: df_lookup_def)

lemma df_lookup_dir:
  assumes "devfs_tree s D es rk" and "n \<in> D" and "df_lookup s (es n) nm \<noteq> NULL"
    and "vn_type (vs_nodes s (df_lookup s (es n) nm)) = VFS_DIRECTORY"
  shows "df_lookup s (es n) nm \<in> D" "rk n < rk (df_lookup s (es n) nm)"
  using assms df_lookup_child [OF assms(3)] unfolding devfs_tree_def by metis+

text \<open>States that agree on the entries, on the nodes \<open>X\<close>, up to their names and numbers, and on the data of the
  directories \<open>D\<close>.\<close>

definition df_same :: "'a devfs_scheme \<Rightarrow> 'a devfs_scheme \<Rightarrow> u64 set \<Rightarrow> u64 set \<Rightarrow> bool" where
  "df_same s s' D X \<longleftrightarrow> df_entries s' = df_entries s \<and> (\<forall>n\<in>D. df_first s' n = df_first s n) \<and>
     (\<forall>x\<in>X. vn_type (vs_nodes s' x) = vn_type (vs_nodes s x) \<and> device (vs_nodes s' x) = device (vs_nodes s x))"

lemma df_lookup_cong:
  assumes "\<And>e. e \<in> set xs \<Longrightarrow> df_child s' e = df_child s e \<and> vn_name (vs_nodes s' (df_child s e)) = vn_name (vs_nodes s (df_child s e))"
  shows "df_lookup s' xs nm = df_lookup s xs nm"
  using assms by (induction xs) (simp_all add: df_lookup_def)

lemma devfs_tree_same:
  assumes "devfs_tree s D es rk" and "df_same s s' D X" and "D \<subseteq> X" and "\<And>n. n \<in> D \<Longrightarrow> df_child s ` set (es n) \<subseteq> X"
  shows "devfs_tree s' D es rk"
proof -
  have st: "df_next s' = df_next s" "df_child s' = df_child s" using assms(2) by (auto simp: df_same_def df_next_def df_child_def)
  have nd: "device (vs_nodes s' n) = device (vs_nodes s n)" "vn_type (vs_nodes s' n) = vn_type (vs_nodes s n)" if "n \<in> X" for n
    using assms(2) that by (simp_all add: df_same_def)
  have fi: "df_first s' n = df_first s n" if "n \<in> D" for n using assms(2) that by (simp add: df_same_def)
  have inj: "inj_on (\<lambda>n. device (vs_nodes s' n)) D \<longleftrightarrow> inj_on (\<lambda>n. device (vs_nodes s n)) D"
    by (rule inj_on_cong) (use nd(1) assms(3) in auto)
  show ?thesis unfolding devfs_tree_def st inj
  proof (intro conjI ballI impI)
    show "inj_on (\<lambda>n. device (vs_nodes s n)) D" using assms(1) by (simp add: devfs_tree_def)
  next
    fix n assume n: "n \<in> D"
    then have "n \<in> X" using assms(3) by blast
    then show "n \<noteq> NULL" "\<not> not_dir s' n" "elist (df_next s) (df_first s' n) (es n)"
      using assms(1) n nd fi by (simp_all add: devfs_tree_def not_dir_def)
    show "set (es n) \<inter> set (es m) = {}" if "m \<in> D" "n \<noteq> m" for m using assms(1) n that by (simp add: devfs_tree_def)
    fix e assume e: "e \<in> set (es n)"
    show "df_child s e \<noteq> NULL" using assms(1) n e by (simp add: devfs_tree_def)
    assume "vn_type (vs_nodes s' (df_child s e)) = VFS_DIRECTORY"
    moreover have "df_child s e \<in> X" using assms(4) [OF n] e by blast
    ultimately have "vn_type (vs_nodes s (df_child s e)) = VFS_DIRECTORY" using nd(2) by simp
    then show "df_child s e \<in> D" "rk n < rk (df_child s e)" using assms(1) n e by (simp_all add: devfs_tree_def)
  qed
qed

text \<open>A new directory that no entry leads to yet.\<close>

lemma devfs_tree_insert:
  assumes t: "devfs_tree s D es rk" and d: "d \<noteq> NULL" "d \<notin> D" "\<not> not_dir s d" "df_first s d = NULL"
    and new: "\<And>n. n \<in> D \<Longrightarrow> device (vs_nodes s n) \<noteq> device (vs_nodes s d) \<and> d \<notin> df_child s ` set (es n)"
  shows "devfs_tree s (insert d D) (es(d := [])) (rk(d := k))"
proof -
  have "device (vs_nodes s d) \<notin> (\<lambda>n. device (vs_nodes s n)) ` D" using new by (metis (no_types, lifting) imageE)
  then have "inj_on (\<lambda>n. device (vs_nodes s n)) (insert d D)" using t d(2) by (simp add: devfs_tree_def)
  moreover have "rk n < (rk(d := k)) (df_child s e)" if "n \<in> D" "e \<in> set (es n)" "vn_type (vs_nodes s (df_child s e)) = VFS_DIRECTORY" for n e
    using t new [OF that(1)] that by (auto simp: devfs_tree_def)
  ultimately show ?thesis using t d by (auto simp: devfs_tree_def)
qed

text \<open>A new entry in front of the entries of directory \<open>n\<close>.\<close>

lemma devfs_tree_link:
  assumes t: "devfs_tree s D es rk" and n: "n \<in> D" and e: "e \<noteq> NULL" "\<And>m. m \<in> D \<Longrightarrow> e \<notin> set (es m)"
    and c: "c \<noteq> NULL" "vn_type (vs_nodes s c) = VFS_DIRECTORY \<Longrightarrow> c \<in> D \<and> rk n < rk c"
  shows "devfs_tree (df_link (device (vs_nodes s n)) e c s) D (es(n := e # es n)) rk"
proof -
  let ?s = "df_link (device (vs_nodes s n)) e c s"
  have nx: "df_next ?s = (df_next s)(e := df_first s n)" "df_child ?s = (df_child s)(e := c)" "vs_nodes ?s = vs_nodes s"
    by (auto simp: df_link_def df_next_def df_child_def df_first_def)
  have first: "df_first ?s m = (if m = n then e else df_first s m)" if "m \<in> D" for m
    using t n that inj_onD [of "\<lambda>n. device (vs_nodes s n)" D m n] by (auto simp: devfs_tree_def df_link_def df_first_def)
  have ch: "elist (df_next ?s) (df_first ?s m) ((es(n := e # es n)) m)" if m: "m \<in> D" for m
  proof (cases "m = n")
    case True
    then show ?thesis using elist_push [of "df_next s" "df_first s n" "es n" e] t n e first [OF n] by (simp add: nx devfs_tree_def)
  next
    case False
    have "elist (df_next ?s) (df_first s m) (es m) \<longleftrightarrow> elist (df_next s) (df_first s m) (es m)"
      by (rule elist_cong) (use e(2) [OF m] in \<open>auto simp: nx\<close>)
    then show ?thesis using False t m first [OF m] by (simp add: devfs_tree_def)
  qed
  have "df_child ?s x \<noteq> NULL \<and> (vn_type (vs_nodes s (df_child ?s x)) = VFS_DIRECTORY \<longrightarrow> df_child ?s x \<in> D \<and> rk m < rk (df_child ?s x))"
    if "m \<in> D" "x \<in> set ((es(n := e # es n)) m)" for m x
  proof (cases "x = e")
    case True
    then have "m = n" using e(2) [OF that(1)] that(2) by (auto split: if_splits)
    then show ?thesis using True c by (simp add: nx)
  next
    case False
    then have "x \<in> set (es m)" using that(2) by (auto split: if_splits)
    then show ?thesis using False t that(1) by (simp add: nx devfs_tree_def)
  qed
  then show ?thesis using t ch e(2) n by (auto simp: devfs_tree_def nx not_dir_def)
qed


section \<open>Allocation\<close>

lemma vfs_alloc_node_cases:
  assumes "kslab_inv (vs_slab s) L" and "L (vfs_node_cache s) = Some X" and "vfs_node_cache s \<noteq> NULL"
  shows "\<exists>d k. ks_heap k = ks_heap (vs_slab s) \<and>
    (vfs_alloc_node s = (NULL, s\<lparr>vs_slab := k\<rparr>) \<and> kslab_inv k L \<or>
     vfs_alloc_node s = (d, s\<lparr>vs_slab := k, vs_nodes := (vs_nodes s)(d := zero_node)\<rparr>) \<and> d \<noteq> NULL \<and> d \<notin> X \<and>
       kslab_inv k (L(vfs_node_cache s \<mapsto> insert d X)))"
proof -
  obtain d k where dk: "kmem_cache_alloc (vfs_node_cache s) (vs_slab s) = (d, k)" by fastforce
  have "ks_heap k = ks_heap (vs_slab s)" using kmem_cache_alloc_heap [of "vfs_node_cache s" "vs_slab s"] dk by simp
  moreover from slab.alloc_rep [OF assms(1,2) dk]
  have "d = NULL \<and> kslab_inv k L \<or> d \<noteq> NULL \<and> d \<notin> X \<and> kslab_inv k (L(vfs_node_cache s \<mapsto> insert d X))"
    using assms(2) by blast
  ultimately show ?thesis using dk assms(3) by (intro exI [of _ d] exI [of _ k]) (auto simp: vfs_alloc_node_def upd_node_def)
qed

lemma vs_malloc_16:
  assumes "vs_blocks s A" and "vs_room r s" and "128 \<le> r" and "kslab_inv (vs_slab s) L"
  shows "\<exists>p k. vs_malloc 16 s = Some (p, s\<lparr>vs_slab := k\<rparr>) \<and> p \<noteq> NULL \<and> p \<notin> A \<and> heap_blocks (ks_heap k) (insert p A) \<and>
    kh_room (ks_heap k) (r - 63) \<and> kslab_inv k L"
proof -
  obtain p s' where p: "vs_malloc 16 s = Some (p, s')" "p \<noteq> NULL" "vs_room (r - 63) s'"
    using vs_malloc_room [OF assms(2), of 16] assms(3) by auto
  then obtain k where k: "slab_malloc 16 (vs_slab s) = Some (p, k)" "s' = s\<lparr>vs_slab := k\<rparr>" by (auto simp: vs_malloc_def)
  have "kslab_inv k L" by (rule kern.malloc_cache [OF assms(4) k(1)])
  moreover have "p \<notin> A" "vs_blocks s' (insert p A)" using vsh.malloc_rep [OF assms(1), of 16] p(1,2) by auto
  ultimately show ?thesis using p k(2) by (auto simp: vs_blocks_def vs_room_def)
qed


text \<open>A new directory linked in front of the entries of \<open>n\<close>, with fresh blocks \<open>dd\<close> and \<open>e\<close> and the fresh node \<open>d\<close>.\<close>

lemma devfs_tree_new_dir:
  fixes s s' :: "'a devfs_scheme"
  assumes t: "devfs_tree s D es rk" and n: "n \<in> D" and DX: "D \<subseteq> X" and ch: "\<And>m. m \<in> D \<Longrightarrow> df_child s ` set (es m) \<subseteq> X"
    and d: "d \<noteq> NULL" "d \<notin> X" and dd: "dd \<noteq> NULL" "\<And>m. m \<in> D \<Longrightarrow> device (vs_nodes s m) \<noteq> dd"
    and e: "e \<noteq> NULL" "\<And>m. m \<in> D \<Longrightarrow> e \<notin> set (es m)"
    and s': "df_entries s' = df_entries s" "df_dirs s' = (df_dirs s)(dd := \<lparr>dd_node = d, dd_children = NULL\<rparr>)"
      "vs_nodes s' = (vs_nodes s)(d := nd)" "vn_type nd = VFS_DIRECTORY" "device nd = dd"
  shows "devfs_tree (df_link (device (vs_nodes s n)) e d s') (insert d D) (es(d := [], n := e # es n)) (rk(d := Suc (rk n)))"
proof -
  have x: "vs_nodes s' x = vs_nodes s x" if "x \<in> X" for x using that d(2) s'(3) by auto
  have "d \<notin> D" using d(2) DX by blast
  then have "df_same s s' D X" using s' x dd(2) by (auto simp: df_same_def df_first_def)
  from devfs_tree_same [OF t this DX ch] have t': "devfs_tree s' D es rk" .
  have child: "df_child s' = df_child s" using s'(1) by (auto simp: df_child_def)
  have dn: "device (vs_nodes s' m) = device (vs_nodes s m)" if "m \<in> D" for m using x DX that by auto
  have "devfs_tree s' (insert d D) (es(d := [])) (rk(d := Suc (rk n)))"
  proof (rule devfs_tree_insert [OF t' d(1)])
    show "d \<notin> D" using d(2) DX by blast
    show "\<not> not_dir s' d" "df_first s' d = NULL" using s' dd(1) by (simp_all add: not_dir_def df_first_def)
    show "device (vs_nodes s' m) \<noteq> device (vs_nodes s' d) \<and> d \<notin> df_child s' ` set (es m)" if "m \<in> D" for m
      using dn [OF that] dd(2) [OF that] ch [OF that] d(2) s'(3,5) unfolding child by auto
  qed
  moreover have nd: "n \<noteq> d" using n DX d(2) by blast
  ultimately have "devfs_tree (df_link (device (vs_nodes s' n)) e d s') (insert d D) ((es(d := []))(n := e # (es(d := [])) n)) (rk(d := Suc (rk n)))"
    by (intro devfs_tree_link) (use n e d(1) in auto)
  then show ?thesis using nd dn [OF n] by simp
qed

lemma devfs_mkdir_new:
  assumes t: "devfs_tree s D es rk" and n: "n \<in> D" and no: "df_lookup s (es n) nm = NULL" and len: "length nm \<le> 255"
    and room: "vs_room r s" "256 \<le> r"
    and L: "L (vfs_node_cache s) = Some X" "vfs_node_cache s \<noteq> NULL" and A: "vs_blocks s A"
    and mem: "\<forall>n\<in>D. n \<in> X \<and> device (vs_nodes s n) \<in> A \<and> set (es n) \<subseteq> A \<and> df_child s ` set (es n) \<subseteq> X"
    and heap: "ks_heap k = ks_heap (vs_slab s)"
    and al: "vfs_alloc_node s = (d, s\<lparr>vs_slab := k, vs_nodes := (vs_nodes s)(d := zero_node)\<rparr>)"
    and d: "d \<noteq> NULL" "d \<notin> X" and k: "kslab_inv k (L(vfs_node_cache s \<mapsto> insert d X))"
  shows "\<exists>s' e. devfs_mkdir ops n nm perm s = Some (0, s') \<and> devfs_root_node s' = devfs_root_node s \<and>
       devfs_inv s' (insert d D) (es(d := [], n := e # es n)) (rk(d := Suc (rk n))) (insert d X) \<and>
       vs_nodes s' = (vs_nodes s)(d := vs_nodes s' d) \<and> df_child s' = (df_child s)(e := d) \<and> (\<forall>m\<in>D. e \<notin> set (es m)) \<and>
       vn_name (vs_nodes s' d) = nm \<and> vs_room (r - 126) s'"
proof -
  let ?L = "L(vfs_node_cache s \<mapsto> insert d X)"
  define nd where "nd = zero_node\<lparr>vn_name := nm, inode := devfs_inode_counter s, vn_type := VFS_DIRECTORY, vn_ops := ops\<rparr>"
  define s1 where "s1 = s\<lparr>vs_slab := k, devfs_inode_counter := devfs_inode_counter s + 1, vs_nodes := (vs_nodes s)(d := nd)\<rparr>"
  have "vs_blocks s1 A" "vs_room r s1" "kslab_inv (vs_slab s1) ?L" using A room(1) heap k by (simp_all add: s1_def vs_blocks_def vs_room_def)
  from vs_malloc_16 [OF this(1,2) _ this(3)] room(2) obtain dd k1 where dd: "vs_malloc 16 s1 = Some (dd, s1\<lparr>vs_slab := k1\<rparr>)"
      "dd \<noteq> NULL" "dd \<notin> A" "heap_blocks (ks_heap k1) (insert dd A)" "kh_room (ks_heap k1) (r - 63)" "kslab_inv k1 ?L" by auto
  define s2 where "s2 = s1\<lparr>vs_slab := k1, df_dirs := (df_dirs s)(dd := \<lparr>dd_node = d, dd_children = NULL\<rparr>),
      vs_nodes := (vs_nodes s)(d := nd\<lparr>device := dd\<rparr>)\<rparr>"
  have "vs_blocks s2 (insert dd A)" "vs_room (r - 63) s2" "kslab_inv (vs_slab s2) ?L"
    using dd by (simp_all add: s2_def vs_blocks_def vs_room_def)
  moreover have "128 \<le> r - 63" using room(2) by simp
  ultimately obtain e k2 where e: "vs_malloc 16 s2 = Some (e, s2\<lparr>vs_slab := k2\<rparr>)"
      "e \<noteq> NULL" "e \<notin> insert dd A" "heap_blocks (ks_heap k2) (insert e (insert dd A))" "kh_room (ks_heap k2) (r - 126)" "kslab_inv k2 ?L"
    using vs_malloc_16 [of s2 "insert dd A" "r - 63" ?L] by auto
  define s' where "s' = df_link (device (vs_nodes s n)) e d (s2\<lparr>vs_slab := k2\<rparr>)"
  have nX: "n \<noteq> d" using n mem d(2) by blast
  have fresh: "e \<notin> set (es m)" "device (vs_nodes s m) \<noteq> dd" if "m \<in> D" for m using mem that e(3) dd(3) by blast+
  have st: "vs_nodes s' = (vs_nodes s)(d := nd\<lparr>device := dd\<rparr>)" "df_child s' = (df_child s)(e := d)" "vs_slab s' = k2"
      "vfs_node_cache s' = vfs_node_cache s" "devfs_root_node s' = devfs_root_node s"
    by (auto simp: s'_def s2_def s1_def df_link_def df_child_def)
  have "devfs_tree s' (insert d D) (es(d := [], n := e # es n)) (rk(d := Suc (rk n)))" unfolding s'_def
    by (rule devfs_tree_new_dir [OF t n, of X _ dd _ _ "nd\<lparr>device := dd\<rparr>"]) (use mem d dd(2) e(2) fresh in \<open>auto simp: s2_def s1_def nd_def\<close>)
  moreover have "devfs_mem s' (insert d D) (es(d := [], n := e # es n)) (insert d X)" unfolding devfs_mem_def
  proof (rule exI [of _ "insert e (insert dd A)"], rule exI [of _ ?L], intro conjI ballI)
    fix m assume m: "m \<in> insert d D"
    have in_X: "df_child s x \<in> X" if "m \<in> D" "x \<in> set (es m)" for m x using mem that by blast
    show "m \<in> insert d X" "device (vs_nodes s' m) \<in> insert e (insert dd A)" "set ((es(d := [], n := e # es n)) m) \<subseteq> insert e (insert dd A)"
      "df_child s' ` set ((es(d := [], n := e # es n)) m) \<subseteq> insert d X"
      using m mem n nX in_X by (auto simp: st nd_def)
  qed (use e L in \<open>simp_all add: st vs_blocks_def\<close>)
  moreover have "devfs_mkdir ops n nm perm s = Some (0, s')"
  proof -
    have "\<not> not_dir s n" using t n by (simp add: devfs_tree_def)
    moreover have "upd_node d (\<lambda>n. n\<lparr>vn_name := take 255 nm, inode := devfs_inode_counter s, vn_type := VFS_DIRECTORY, vn_ops := ops\<rparr>)
        (s\<lparr>vs_slab := k, vs_nodes := (vs_nodes s)(d := zero_node), devfs_inode_counter := devfs_inode_counter s + 1\<rparr>) = s1"
      using len by (simp add: upd_node_def s1_def nd_def)
    moreover have "upd_node d (\<lambda>n. n\<lparr>device := dd\<rparr>)
        (s1\<lparr>vs_slab := k1, df_dirs := (df_dirs s1)(dd := \<lparr>dd_node = d, dd_children = NULL\<rparr>)\<rparr>) = s2"
      by (simp add: upd_node_def s2_def s1_def)
    ultimately show ?thesis
      using no al devfs_finddir_lookup [OF t n] d(1) dd(1,2) e(1,2)
      by (simp add: devfs_mkdir_def next_inode_def DEVFS_DIR_DATA_SIZE_def DEVFS_ENTRY_SIZE_def s'_def)
  qed
  ultimately show ?thesis using fresh(1) e(5) by (intro exI [of _ s'] exI [of _ e]) (simp add: devfs_inv_def st vs_room_def nd_def)
qed

text \<open>\<open>devfs_mkdir\<close> of a new name, with room on the heap: it fails when there is no node left, and nothing is
  different; or the new directory is the first entry.\<close>

lemma devfs_mkdir_inv:
  assumes inv: "devfs_inv s D es rk X" and n: "n \<in> D" and no: "df_lookup s (es n) nm = NULL" and len: "length nm \<le> 255"
    and room: "vs_room r s" "256 \<le> r"
  shows "(\<exists>k. devfs_mkdir ops n nm perm s = Some (- 1, s\<lparr>vs_slab := k\<rparr>) \<and> devfs_inv (s\<lparr>vs_slab := k\<rparr>) D es rk X) \<or>
    (\<exists>s' d e. devfs_mkdir ops n nm perm s = Some (0, s') \<and> d \<notin> X \<and> devfs_root_node s' = devfs_root_node s \<and>
       devfs_inv s' (insert d D) (es(d := [], n := e # es n)) (rk(d := Suc (rk n))) (insert d X) \<and>
       vs_nodes s' = (vs_nodes s)(d := vs_nodes s' d) \<and> df_child s' = (df_child s)(e := d) \<and> (\<forall>m\<in>D. e \<notin> set (es m)) \<and>
       vn_name (vs_nodes s' d) = nm \<and> vs_room (r - 126) s')"
proof -
  have t: "devfs_tree s D es rk" using inv by (simp add: devfs_inv_def)
  obtain A L where mem: "kslab_inv (vs_slab s) L" "L (vfs_node_cache s) = Some X" "vfs_node_cache s \<noteq> NULL" "vs_blocks s A"
      "\<forall>n\<in>D. n \<in> X \<and> device (vs_nodes s n) \<in> A \<and> set (es n) \<subseteq> A \<and> df_child s ` set (es n) \<subseteq> X"
    using inv by (auto simp: devfs_inv_def devfs_mem_def)
  have DX: "D \<subseteq> X" using mem(5) by blast
  have dir: "\<not> not_dir s n" using t n by (simp add: devfs_tree_def)
  obtain d k where heap: "ks_heap k = ks_heap (vs_slab s)" and al:
      "vfs_alloc_node s = (NULL, s\<lparr>vs_slab := k\<rparr>) \<and> kslab_inv k L \<or>
       vfs_alloc_node s = (d, s\<lparr>vs_slab := k, vs_nodes := (vs_nodes s)(d := zero_node)\<rparr>) \<and> d \<noteq> NULL \<and> d \<notin> X \<and>
         kslab_inv k (L(vfs_node_cache s \<mapsto> insert d X))"
    using vfs_alloc_node_cases [OF mem(1-3)] by blast
  from al show ?thesis
  proof (elim disjE conjE)
    assume a: "vfs_alloc_node s = (NULL, s\<lparr>vs_slab := k\<rparr>)" and k: "kslab_inv k L"
    let ?s = "s\<lparr>vs_slab := k\<rparr>"
    have "devfs_tree ?s D es rk" using t by (rule devfs_tree_same [of _ _ _ _ _ UNIV]) (auto simp: df_same_def df_first_def)
    moreover have "devfs_mem ?s D es X" unfolding devfs_mem_def
      by (rule exI [of _ A], rule exI [of _ L]) (use mem k heap in \<open>simp add: vs_blocks_def df_child_def [abs_def]\<close>)
    moreover have "devfs_mkdir ops n nm perm s = Some (- 1, ?s)"
      using dir devfs_finddir_lookup [OF t n] no a by (simp add: devfs_mkdir_def)
    ultimately show ?thesis by (auto simp: devfs_inv_def)
  next
    assume a: "vfs_alloc_node s = (d, s\<lparr>vs_slab := k, vs_nodes := (vs_nodes s)(d := zero_node)\<rparr>)"
      and d: "d \<noteq> NULL" "d \<notin> X" and k: "kslab_inv k (L(vfs_node_cache s \<mapsto> insert d X))"
    from devfs_mkdir_new [OF t n no len room mem(2-5) heap a d k] d(2) show ?thesis by blast
  qed
qed


section \<open>Registration\<close>

text \<open>Following a path from a directory.\<close>

fun devfs_walk :: "'a devfs_scheme \<Rightarrow> u64 \<Rightarrow> string list \<Rightarrow> u64 option" where
  "devfs_walk s n [] = Some n"
| "devfs_walk s n (t # ts) = do { (m, _) \<leftarrow> devfs_finddir n t s; if m = NULL then Some NULL else devfs_walk s m ts }"

text \<open>From \<open>s\<close> to \<open>s'\<close> the directories only get more entries; those beside \<open>cd\<close> that are not below it keep theirs, and
  all nodes but \<open>dn\<close> stay the same.\<close>

definition df_grows ::
  "'a devfs_scheme \<Rightarrow> u64 set \<Rightarrow> (u64 \<Rightarrow> u64 list) \<Rightarrow> (u64 \<Rightarrow> nat) \<Rightarrow> u64 set \<Rightarrow> u64 \<Rightarrow> u64
     \<Rightarrow> 'a devfs_scheme \<Rightarrow> u64 set \<Rightarrow> (u64 \<Rightarrow> u64 list) \<Rightarrow> bool" where
  "df_grows s D es rk X cd dn s' D' es' \<longleftrightarrow>
     D \<subseteq> D' \<and> devfs_root_node s' = devfs_root_node s \<and>
     (\<forall>m\<in>D. (\<exists>p. es' m = p @ es m) \<and> (m \<noteq> cd \<longrightarrow> rk m \<le> rk cd \<longrightarrow> es' m = es m) \<and> (\<forall>e\<in>set (es m). df_child s' e = df_child s e)) \<and>
     (\<forall>x\<in>X. x \<noteq> dn \<longrightarrow> vs_nodes s' x = vs_nodes s x)"

text \<open>The device is at the path, or a part of the path is not a directory.\<close>

definition df_placed :: "'a devfs_scheme \<Rightarrow> u64 \<Rightarrow> string list \<Rightarrow> u64 \<Rightarrow> bool" where
  "df_placed s n toks dn \<longleftrightarrow>
     devfs_walk s n toks = Some dn \<or>
     (\<exists>k m. 0 < k \<and> k < length toks \<and> devfs_walk s n (take k toks) = Some m \<and> (m = NULL \<or> vn_type (vs_nodes s m) \<noteq> VFS_DIRECTORY))"

lemma df_placed_step:
  assumes "devfs_finddir n t s = Some (m, s)" and "m \<noteq> NULL" and "df_placed s m toks dn"
  shows "df_placed s n (t # toks) dn"
proof (cases "devfs_walk s m toks = Some dn")
  case True
  then show ?thesis using assms(1,2) by (simp add: df_placed_def)
next
  case False
  then obtain k m' where k: "0 < k" "k < length toks" "devfs_walk s m (take k toks) = Some m'"
      "m' = NULL \<or> vn_type (vs_nodes s m') \<noteq> VFS_DIRECTORY"
    using assms(3) by (auto simp: df_placed_def)
  then show ?thesis unfolding df_placed_def using assms(1,2) by (intro disjI2 exI [of _ "Suc k"] exI [of _ m']) simp
qed

lemma df_placed_blocked:
  assumes "devfs_finddir n t s = Some (m, s)" and "m = NULL \<or> vn_type (vs_nodes s m) \<noteq> VFS_DIRECTORY" and "ts \<noteq> []"
  shows "df_placed s n (t # ts) dn"
  unfolding df_placed_def using assms by (intro disjI2 exI [of _ 1] exI [of _ m]) (auto simp: Suc_lessI)

text \<open>Descending into the child \<open>m\<close>: what happens below it does not change the way to it.\<close>

lemma df_descend:
  assumes inv: "devfs_inv s D es rk X" and cd: "cd \<in> D" and m: "m = df_lookup s (es cd) prev" "m \<noteq> NULL" "m \<in> D" "rk cd < rk m"
    and dn: "dn \<notin> df_child s ` set (es cd)"
    and g: "df_grows s D es rk X m dn s' D' es'" and t': "devfs_tree s' D' es' rk'" and pl: "df_placed s' m toks dn"
  shows "df_placed s' cd (prev # toks) dn" "df_grows s D es rk X cd dn s' D' es'"
proof -
  have X: "df_child s ` set (es cd) \<subseteq> X" using inv cd by (auto simp: devfs_inv_def devfs_mem_def)
  have "es' cd = es cd" using g cd m(4) by (auto simp: df_grows_def)
  moreover have "df_lookup s' (es cd) prev = df_lookup s (es cd) prev"
  proof (rule df_lookup_cong)
    fix e assume e: "e \<in> set (es cd)"
    then have "df_child s e \<in> X" "df_child s e \<noteq> dn" using X dn by auto
    then show "df_child s' e = df_child s e \<and> vn_name (vs_nodes s' (df_child s e)) = vn_name (vs_nodes s (df_child s e))"
      using g cd e by (simp add: df_grows_def)
  qed
  moreover have "cd \<in> D'" using g cd by (auto simp: df_grows_def)
  ultimately have "devfs_finddir cd prev s' = Some (m, s')" using devfs_finddir_lookup [OF t'] m(1) by simp
  then show "df_placed s' cd (prev # toks) dn" using m(2) pl by (rule df_placed_step)
  show "df_grows s D es rk X cd dn s' D' es'" using g m(4) by (auto simp: df_grows_def)
qed

text \<open>The last step: the device becomes the first entry of the directory.\<close>

lemma devfs_register_last:
  assumes inv: "devfs_inv s D es rk X" and cd: "cd \<in> D" and dn: "dn \<in> X" "dn \<noteq> NULL" "dn \<notin> D" "vn_type (vs_nodes s dn) \<noteq> VFS_DIRECTORY"
      "\<And>m. m \<in> D \<Longrightarrow> dn \<notin> df_child s ` set (es m)"
    and len: "length prev \<le> 255" and room: "vs_room r s" "128 \<le> r"
  shows "\<exists>s' es'. devfs_register_loop ops cd prev [] dn s = Some s' \<and> devfs_inv s' D es' rk X \<and>
    df_grows s D es rk X cd dn s' D es' \<and> df_placed s' cd [prev] dn"
proof -
  have t: "devfs_tree s D es rk" using inv by (simp add: devfs_inv_def)
  obtain A L where mem: "kslab_inv (vs_slab s) L" "L (vfs_node_cache s) = Some X" "vfs_node_cache s \<noteq> NULL" "vs_blocks s A"
      "\<forall>n\<in>D. n \<in> X \<and> device (vs_nodes s n) \<in> A \<and> set (es n) \<subseteq> A \<and> df_child s ` set (es n) \<subseteq> X"
    using inv by (auto simp: devfs_inv_def devfs_mem_def)
  define nd where "nd = (vs_nodes s dn)\<lparr>vn_name := prev, inode := devfs_inode_counter s\<rparr>"
  define s1 where "s1 = s\<lparr>devfs_inode_counter := devfs_inode_counter s + 1, vs_nodes := (vs_nodes s)(dn := nd)\<rparr>"
  have "vs_blocks s1 A" "vs_room r s1" "kslab_inv (vs_slab s1) L" using mem room by (simp_all add: s1_def vs_blocks_def vs_room_def)
  from vs_malloc_16 [OF this(1,2) room(2) this(3)] obtain e k where e: "vs_malloc 16 s1 = Some (e, s1\<lparr>vs_slab := k\<rparr>)"
      "e \<noteq> NULL" "e \<notin> A" "heap_blocks (ks_heap k) (insert e A)" "kslab_inv k L" by blast
  have fresh: "e \<notin> set (es m)" if "m \<in> D" for m using mem(5) that e(3) by blast
  let ?s = "s1\<lparr>vs_slab := k\<rparr>" and ?es = "es(cd := e # es cd)"
  define s' where "s' = df_link (device (vs_nodes ?s cd)) e dn ?s"
  have "df_same s ?s D UNIV" by (auto simp: df_same_def df_first_def s1_def nd_def)
  from devfs_tree_same [OF t this] have "devfs_tree ?s D es rk" by simp
  from devfs_tree_link [OF this cd e(2) fresh dn(2)] have t': "devfs_tree s' D ?es rk" using dn(4) by (simp add: s'_def s1_def nd_def)
  have st: "vs_nodes s' = (vs_nodes s)(dn := nd)" "df_child s' = (df_child s)(e := dn)" "vs_slab s' = k" "vfs_node_cache s' = vfs_node_cache s"
      "devfs_root_node s' = devfs_root_node s"
    by (auto simp: s'_def s1_def df_link_def df_child_def)
  have in_X: "df_child s x \<in> X" if "m \<in> D" "x \<in> set (es m)" for m x using mem(5) that by blast
  have "devfs_mem s' D ?es X" unfolding devfs_mem_def
    by (rule exI [of _ "insert e A"], rule exI [of _ L]) (use e mem cd dn(1,3) in_X in \<open>auto simp: st vs_blocks_def nd_def\<close>)
  then have "devfs_inv s' D ?es rk X" using t' by (simp add: devfs_inv_def)
  moreover have "df_grows s D es rk X cd dn s' D ?es" using fresh by (auto simp: df_grows_def st)
  moreover have "df_placed s' cd [prev] dn"
    using devfs_finddir_lookup [OF t' cd] dn(2) by (simp add: df_placed_def df_lookup_def st nd_def)
  moreover have "devfs_register_loop ops cd prev [] dn s = Some s'"
    using e(1,2) len by (simp add: next_inode_def upd_node_def DEVFS_ENTRY_SIZE_def s'_def s1_def nd_def)
  ultimately show ?thesis by blast
qed


lemma df_grows_refl: "df_grows s D es rk X cd dn (s\<lparr>vs_slab := k\<rparr>) D es"
  by (simp add: df_grows_def df_child_def)

text \<open>Growth after a new directory \<open>d\<close> was linked into \<open>cd\<close>.\<close>

lemma df_grows_mkdir:
  assumes g: "df_grows s1 (insert d D) (es(d := [], cd := e # es cd)) (rk(d := k)) (insert d X) cd dn s' D' es'"
    and s1: "vs_nodes s1 = (vs_nodes s)(d := vs_nodes s1 d)" "df_child s1 = (df_child s)(e := d)" "devfs_root_node s1 = devfs_root_node s"
    and d: "d \<notin> X" "D \<subseteq> X" and e: "\<forall>m\<in>D. e \<notin> set (es m)" and cd: "cd \<in> D"
  shows "df_grows s D es rk X cd dn s' D' es'"
proof -
  have x: "vs_nodes s1 x = vs_nodes s x" if "x \<in> X" for x using that d(1) s1(1) by (metis fun_upd_other)
  have ne: "m \<noteq> d" if "m \<in> D" for m using that d by blast
  have ch: "df_child s1 x = df_child s x" if "m \<in> D" "x \<in> set (es m)" for m x using that e s1(2) by auto
  have "(\<exists>p. es' m = p @ es m) \<and> (m \<noteq> cd \<longrightarrow> rk m \<le> rk cd \<longrightarrow> es' m = es m) \<and> (\<forall>x\<in>set (es m). df_child s' x = df_child s x)" if m: "m \<in> D" for m
  proof -
    let ?es = "es(d := [], cd := e # es cd)"
    have g': "\<exists>p. es' m = p @ ?es m" "m \<noteq> cd \<Longrightarrow> (rk(d := k)) m \<le> (rk(d := k)) cd \<Longrightarrow> es' m = ?es m" "\<forall>x\<in>set (?es m). df_child s' x = df_child s1 x"
      using g m by (auto simp: df_grows_def)
    have "set (es m) \<subseteq> set (?es m)" using ne [OF m] by auto
    then have "\<forall>x\<in>set (es m). df_child s' x = df_child s x" using g'(3) ch [OF m] by auto
    moreover have "\<exists>p. es' m = p @ es m"
    proof (cases "m = cd")
      case True
      then obtain p where "es' m = p @ e # es m" using g'(1) by auto
      then show ?thesis by (intro exI [of _ "p @ [e]"]) simp
    qed (use g'(1) ne [OF m] in simp)
    ultimately show ?thesis using g'(2) ne [OF m] ne [OF cd] by simp
  qed
  then show ?thesis using g s1(3) x by (auto simp: df_grows_def)
qed

text \<open>The loop, from any directory.\<close>

lemma devfs_register_loop_inv:
  assumes "devfs_inv s D es rk X" and "cd \<in> D" and "dn \<in> X" "dn \<noteq> NULL" "dn \<notin> D" "vn_type (vs_nodes s dn) \<noteq> VFS_DIRECTORY"
      "\<And>m. m \<in> D \<Longrightarrow> dn \<notin> df_child s ` set (es m)"
    and "\<forall>t\<in>set (prev # ts). length t \<le> 255" and "vs_room r s" and "256 * Suc (length ts) \<le> r"
  shows "\<exists>s' D' es' rk' X'. devfs_register_loop ops cd prev ts dn s = Some s' \<and> devfs_inv s' D' es' rk' X' \<and>
    df_grows s D es rk X cd dn s' D' es' \<and> df_placed s' cd (prev # ts) dn"
  using assms
proof (induction ts arbitrary: cd prev s D es rk X r)
  case Nil
  then show ?case using devfs_register_last [OF Nil.prems(1-7), of prev r ops] by fastforce
next
  case (Cons t ts)
  note inv = Cons.prems(1) and cd = Cons.prems(2)
  have t: "devfs_tree s D es rk" using inv by (simp add: devfs_inv_def)
  have DX: "D \<subseteq> X" using inv by (auto simp: devfs_inv_def devfs_mem_def)
  define m where "m = df_lookup s (es cd) prev"
  have find: "devfs_finddir cd prev s = Some (m, s)" using devfs_finddir_lookup [OF t cd] by (simp add: m_def)
  have room: "256 * Suc (length ts) \<le> r" "256 \<le> r" "256 * Suc (length ts) \<le> r - 126" using Cons.prems(10) by simp_all
  consider "m \<noteq> NULL" "vn_type (vs_nodes s m) = VFS_DIRECTORY" | "m \<noteq> NULL" "vn_type (vs_nodes s m) \<noteq> VFS_DIRECTORY" | "m = NULL" by blast
  then show ?case
  proof cases
    case 1
    then have m: "m \<in> D" "rk cd < rk m" using df_lookup_dir [OF t cd, of prev] by (simp_all add: m_def)
    obtain s' D' es' rk' X' where s': "devfs_register_loop ops m t ts dn s = Some s'" "devfs_inv s' D' es' rk' X'"
        "df_grows s D es rk X m dn s' D' es'" "df_placed s' m (t # ts) dn"
      using Cons.IH [OF inv m(1) Cons.prems(3-7) _ Cons.prems(9) room(1), of t] Cons.prems(8) by auto
    have "devfs_tree s' D' es' rk'" using s'(2) by (simp add: devfs_inv_def)
    from df_descend [OF inv cd m_def 1(1) m Cons.prems(7) [OF cd] s'(3) this s'(4)]
    have "df_placed s' cd (prev # t # ts) dn" "df_grows s D es rk X cd dn s' D' es'" .
    then show ?thesis using find 1 s'(1,2) by auto
  next
    case 2
    then have "devfs_register_loop ops cd prev (t # ts) dn s = Some s" using find by simp
    moreover have "df_placed s cd (prev # t # ts) dn" using df_placed_blocked [OF find] 2 by simp
    moreover have "df_grows s D es rk X cd dn s D es" by (simp add: df_grows_def)
    ultimately show ?thesis using inv by blast
  next
    case 3
    then have no: "df_lookup s (es cd) prev = NULL" by (simp add: m_def)
    have "length prev \<le> 255" using Cons.prems(8) by simp
    from devfs_mkdir_inv [OF inv cd no this Cons.prems(9) room(2), of ops 0] show ?thesis
    proof (elim disjE exE conjE)
      fix k assume mk: "devfs_mkdir ops cd prev 0 s = Some (- 1, s\<lparr>vs_slab := k\<rparr>)" and inv1: "devfs_inv (s\<lparr>vs_slab := k\<rparr>) D es rk X"
      let ?s = "s\<lparr>vs_slab := k\<rparr>"
      have "df_child ?s = df_child s" by (auto simp: df_child_def)
      then have "df_lookup ?s (es cd) prev = NULL" using no by (auto simp: df_lookup_def split: option.splits)
      then have f: "devfs_finddir cd prev ?s = Some (NULL, ?s)" using devfs_finddir_lookup [of ?s D es rk cd prev] inv1 cd by (simp add: devfs_inv_def)
      then have "devfs_register_loop ops cd prev (t # ts) dn s = Some ?s" using find 3 mk by simp
      moreover have "df_placed ?s cd (prev # t # ts) dn" by (rule df_placed_blocked [OF f]) simp_all
      ultimately show ?thesis using inv1 df_grows_refl by blast
    next
      fix s1 d e
      let ?D = "insert d D" and ?es = "es(d := [], cd := e # es cd)" and ?rk = "rk(d := Suc (rk cd))"
      assume mk: "devfs_mkdir ops cd prev 0 s = Some (0, s1)" and d: "d \<notin> X" and root: "devfs_root_node s1 = devfs_root_node s"
        and inv1: "devfs_inv s1 ?D ?es ?rk (insert d X)" and nodes: "vs_nodes s1 = (vs_nodes s)(d := vs_nodes s1 d)"
        and ch: "df_child s1 = (df_child s)(e := d)" and e: "\<forall>m\<in>D. e \<notin> set (es m)" and nm: "vn_name (vs_nodes s1 d) = prev"
        and room1: "vs_room (r - 126) s1"
      have t1: "devfs_tree s1 ?D ?es ?rk" using inv1 by (simp add: devfs_inv_def)
      have ne: "cd \<noteq> d" "dn \<noteq> d" using cd DX d Cons.prems(3) by auto
      have d1: "d \<noteq> NULL" "vn_type (vs_nodes s1 d) = VFS_DIRECTORY" using t1 by (auto simp: devfs_tree_def not_dir_def)
      have look: "d = df_lookup s1 (?es cd) prev" using nm by (simp add: df_lookup_def ch)
      have f: "devfs_finddir cd prev s1 = Some (d, s1)" using devfs_finddir_lookup [OF t1, of cd prev] cd look by simp
      have dn1: "dn \<notin> df_child s1 ` set (?es m)" if "m \<in> ?D" for m
        using that Cons.prems(7) [of m] Cons.prems(7) [OF cd] ne(2) by (auto simp: ch split: if_splits)
      have dn2: "vn_type (vs_nodes s1 dn) \<noteq> VFS_DIRECTORY" using Cons.prems(6) ne(2) nodes by (metis fun_upd_other)
      obtain s' D' es' rk' X' where s': "devfs_register_loop ops d t ts dn s1 = Some s'" "devfs_inv s' D' es' rk' X'"
          "df_grows s1 ?D ?es ?rk (insert d X) d dn s' D' es'" "df_placed s' d (t # ts) dn"
      proof -
        have "d \<in> ?D" "dn \<in> insert d X" "dn \<notin> ?D" "\<forall>t\<in>set (t # ts). length t \<le> 255" using Cons.prems(3,5,8) ne(2) by simp_all
        from Cons.IH [OF inv1 this(1,2) Cons.prems(4) this(3) dn2 dn1 this(4) room1 room(3)] show thesis using that by blast
      qed
      have c: "cd \<in> ?D" "?rk cd < ?rk d" "d \<in> ?D" using cd ne by simp_all
      have "devfs_tree s' D' es' rk'" using s'(2) by (simp add: devfs_inv_def)
      from df_descend [OF inv1 c(1) look d1(1) c(3,2) dn1 [OF c(1)] s'(3) this s'(4)]
      have p: "df_placed s' cd (prev # t # ts) dn" "df_grows s1 ?D ?es ?rk (insert d X) cd dn s' D' es'" .
      have "df_grows s D es rk X cd dn s' D' es'" by (rule df_grows_mkdir [OF p(2) nodes ch root d DX e cd])
      moreover have "devfs_register_loop ops cd prev (t # ts) dn s = Some s'" using find 3 mk f d1 s'(1) by simp
      ultimately show ?thesis using s'(2) p(1) by blast
    qed
  qed
qed


lemma slash_tokens_length: "t \<in> set (slash_tokens p) \<Longrightarrow> length t \<le> length p"
proof (induction p rule: slash_tokens.induct)
  case (1 p)
  let ?q = "dropWhile (\<lambda>c. c = CHR ''/'') p"
  have q: "length ?q \<le> length p" by (rule length_dropWhile_le)
  have "?q \<noteq> []" using "1.prems" by (subst (asm) slash_tokens.simps) (auto simp: Let_def split: if_splits)
  with "1.prems" have "t = takeWhile (\<lambda>c. c \<noteq> CHR ''/'') ?q \<or> t \<in> set (slash_tokens (tl (dropWhile (\<lambda>c. c \<noteq> CHR ''/'') ?q)))"
    by (subst (asm) slash_tokens.simps) (auto simp: Let_def split: if_splits)
  then show ?case
  proof
    assume "t = takeWhile (\<lambda>c. c \<noteq> CHR ''/'') ?q"
    then show ?thesis using q length_takeWhile_le [of "\<lambda>c. c \<noteq> CHR ''/''" ?q] by simp
  next
    assume "t \<in> set (slash_tokens (tl (dropWhile (\<lambda>c. c \<noteq> CHR ''/'') ?q)))"
    from "1.IH" [OF refl \<open>?q \<noteq> []\<close> this] show ?thesis using q length_dropWhile_le [of "\<lambda>c. c \<noteq> CHR ''/''" ?q] by simp
  qed
qed

text \<open>Mounting for the first time: an empty tree with the new root.\<close>

lemma devfs_mount_inv:
  assumes mem: "devfs_mem s {} es X" and "devfs_root_node s = NULL" and room: "vs_room r s" "128 \<le> r"
    and ok: "fst (vfs_alloc_node s) \<noteq> NULL"
  shows "\<exists>root s'. devfs_mount ops source target data s = Some (root, s') \<and> root \<notin> X \<and> devfs_root_node s' = root \<and>
    devfs_inv s' {root} (\<lambda>_. []) (\<lambda>_. 0) (insert root X) \<and> vs_room (r - 63) s'"
proof -
  obtain A L where m: "kslab_inv (vs_slab s) L" "L (vfs_node_cache s) = Some X" "vfs_node_cache s \<noteq> NULL" "vs_blocks s A"
    using mem by (auto simp: devfs_mem_def)
  obtain d k where heap: "ks_heap k = ks_heap (vs_slab s)" and
      al: "vfs_alloc_node s = (d, s\<lparr>vs_slab := k, vs_nodes := (vs_nodes s)(d := zero_node)\<rparr>)" "d \<noteq> NULL" "d \<notin> X"
      and k: "kslab_inv k (L(vfs_node_cache s \<mapsto> insert d X))"
    using vfs_alloc_node_cases [OF m(1-3)] ok by auto
  let ?L = "L(vfs_node_cache s \<mapsto> insert d X)"
  define nd where "nd = zero_node\<lparr>vn_name := ''dev'', inode := devfs_inode_counter s, vn_type := VFS_DIRECTORY, vn_ops := ops\<rparr>"
  define s1 where "s1 = s\<lparr>vs_slab := k, devfs_inode_counter := devfs_inode_counter s + 1, vs_nodes := (vs_nodes s)(d := nd)\<rparr>"
  have "vs_blocks s1 A" "vs_room r s1" "kslab_inv (vs_slab s1) ?L" using m(4) room(1) heap k by (simp_all add: s1_def vs_blocks_def vs_room_def)
  from vs_malloc_16 [OF this(1,2) room(2) this(3)] obtain dd k1 where dd: "vs_malloc 16 s1 = Some (dd, s1\<lparr>vs_slab := k1\<rparr>)"
      "dd \<noteq> NULL" "heap_blocks (ks_heap k1) (insert dd A)" "kh_room (ks_heap k1) (r - 63)" "kslab_inv k1 ?L" by blast
  define s' where "s' = s1\<lparr>vs_slab := k1, df_dirs := (df_dirs s)(dd := \<lparr>dd_node = d, dd_children = NULL\<rparr>),
      vs_nodes := (vs_nodes s)(d := nd\<lparr>device := dd\<rparr>), devfs_root_node := d\<rparr>"
  have "devfs_mem s' {d} (\<lambda>_. []) (insert d X)" unfolding devfs_mem_def
    by (rule exI [of _ "insert dd A"], rule exI [of _ ?L]) (use dd m(3) in \<open>simp add: s'_def s1_def vs_blocks_def nd_def\<close>)
  moreover have "devfs_tree s' {d} (\<lambda>_. []) (\<lambda>_. 0)" using al(2) dd(2) by (simp add: devfs_tree_def s'_def s1_def nd_def not_dir_def df_first_def)
  moreover have "devfs_mount ops source target data s = Some (d, s')"
  proof -
    have "upd_node d (\<lambda>n. n\<lparr>vn_name := ''dev'', inode := devfs_inode_counter s, vn_type := VFS_DIRECTORY, vn_ops := ops\<rparr>)
        (s\<lparr>vs_slab := k, vs_nodes := (vs_nodes s)(d := zero_node), devfs_inode_counter := devfs_inode_counter s + 1\<rparr>) = s1"
      by (simp add: upd_node_def s1_def nd_def)
    moreover have "(upd_node d (\<lambda>n. n\<lparr>device := dd\<rparr>)
        (s1\<lparr>vs_slab := k1, df_dirs := (df_dirs s1)(dd := \<lparr>dd_node = d, dd_children = NULL\<rparr>)\<rparr>))\<lparr>devfs_root_node := d\<rparr> = s'"
      by (simp add: upd_node_def s'_def s1_def)
    ultimately show ?thesis
      using assms(2) al(1,2) dd(1,2) by (simp add: devfs_mount_def next_inode_def DEVFS_DIR_DATA_SIZE_def)
  qed
  ultimately show ?thesis using al(3) dd(4) by (intro exI [of _ d] exI [of _ s']) (simp add: devfs_inv_def s'_def vs_room_def)
qed

section \<open>Properties\<close>

text \<open>C13: Registering a device in a well-formed device tree that is mounted, with room on the heap for the entries: the call
  returns and the tree is well-formed again; every directory keeps the entries it had; and either the path
  leads to the device, or a proper prefix of the path leads to something that is not a directory (an
  existing device, or nothing because no node was left for a new directory).\<close>

theorem devfs_register_device_correct:
  assumes "devfs_inv s D es rk X" and "devfs_root_node s \<in> D" and "dn \<in> X" "dn \<noteq> NULL" "dn \<notin> D" "vn_type (vs_nodes s dn) \<noteq> VFS_DIRECTORY"
      "\<And>m. m \<in> D \<Longrightarrow> dn \<notin> df_child s ` set (es m)"
    and "slash_tokens (take 255 path) = toks" and "toks \<noteq> []" and "vs_room r s" and "256 * length toks \<le> r"
  shows "\<exists>s' D' es' rk' X'. devfs_register_device ops path dn s = Some s' \<and> devfs_inv s' D' es' rk' X' \<and> D \<subseteq> D' \<and>
    devfs_root_node s' = devfs_root_node s \<and> (\<forall>m\<in>D. \<exists>p. es' m = p @ es m) \<and>
    (devfs_walk s' (devfs_root_node s) toks = Some dn \<or>
     (\<exists>k m. 0 < k \<and> k < length toks \<and> devfs_walk s' (devfs_root_node s) (take k toks) = Some m \<and>
        (m = NULL \<or> vn_type (vs_nodes s' m) \<noteq> VFS_DIRECTORY)))"
proof -
  obtain prev ts where toks: "toks = prev # ts" using assms(9) by (cases toks) auto
  have "\<forall>t\<in>set (prev # ts). length t \<le> 255" using slash_tokens_length [of _ "take 255 path"] assms(8) toks by fastforce
  moreover have "256 * Suc (length ts) \<le> r" using assms(11) toks by simp
  ultimately obtain s' D' es' rk' X' where s': "devfs_register_loop ops (devfs_root_node s) prev ts dn s = Some s'" "devfs_inv s' D' es' rk' X'"
      "df_grows s D es rk X (devfs_root_node s) dn s' D' es'" "df_placed s' (devfs_root_node s) toks dn"
    using devfs_register_loop_inv [OF assms(1-7) _ assms(10), of prev ts ops] toks by blast
  have "devfs_root_node s \<noteq> NULL" using assms(1,2) by (auto simp: devfs_inv_def devfs_tree_def)
  then have "devfs_register_device ops path dn s = Some s'" using s'(1) assms(4,8) toks by (simp add: devfs_register_device_def)
  then show ?thesis using s'(2-4) unfolding df_grows_def df_placed_def by blast
qed


text \<open>A machine with two live nodes, the root of an empty device tree and a character device.\<close>

definition devfs_slab_1 :: "u64 \<times> kslab" where
  "devfs_slab_1 = kmem_cache_alloc 65576 kslab_example"

definition devfs_slab_2 :: "u64 \<times> kslab" where
  "devfs_slab_2 = kmem_cache_alloc 65576 (snd devfs_slab_1)"

definition devfs_heap :: "u64 \<times> kheap" where
  "devfs_heap = the (khmalloc vfs_example_heap 16)"

definition devfs_example :: devfs where
  "devfs_example = user.extend (user_example\<lparr>vs_slab := (snd devfs_slab_2)\<lparr>ks_heap := snd devfs_heap\<rparr>, vfs_node_cache := 65576,
     vs_nodes := (\<lambda>_. zero_node\<lparr>vn_type := VFS_CHAR_DEVICE\<rparr>)(fst devfs_slab_1 := zero_node\<lparr>vn_type := VFS_DIRECTORY, device := fst devfs_heap\<rparr>)\<rparr>)
     (devfs.fields (\<lambda>_. \<lparr>de_next = 0, de_node = 0\<rparr>) (\<lambda>_. \<lparr>dd_node = fst devfs_slab_1, dd_children = 0\<rparr>) (fst devfs_slab_1) 1000)"

lemma devfs_slab_ok: "fst devfs_slab_1 \<noteq> NULL" "fst devfs_slab_2 \<noteq> NULL"
  by code_simp+

lemma devfs_slab_inv:
  "kslab_inv (snd devfs_slab_2) [65576 \<mapsto> {fst devfs_slab_2, fst devfs_slab_1}]" "fst devfs_slab_2 \<noteq> fst devfs_slab_1"
proof -
  obtain a k where a: "kmem_cache_alloc 65576 kslab_example = (a, k)" by fastforce
  obtain b k' where b: "kmem_cache_alloc 65576 k = (b, k')" by fastforce
  have nz: "a \<noteq> NULL" "b \<noteq> NULL" using devfs_slab_ok a b by (simp_all add: devfs_slab_1_def devfs_slab_2_def)
  have "kslab_inv k [65576 \<mapsto> {a}]" using slab.alloc_rep [OF kslab_example_one _ a, of "{}"] nz(1) by simp
  then have "(\<forall>(c' :: u64) X'. [65576 \<mapsto> {a}] c' = Some X' \<longrightarrow> b \<notin> X') \<and> kslab_inv k' ([65576 \<mapsto> {a}](65576 \<mapsto> insert b {a}))"
    using slab.alloc_rep [OF _ _ b, of "[65576 \<mapsto> {a}]" "{a}"] nz(2) by auto
  then have "b \<notin> {a}" "kslab_inv k' [65576 \<mapsto> {b, a}]" by (metis fun_upd_same, metis fun_upd_upd)
  then show "kslab_inv (snd devfs_slab_2) [65576 \<mapsto> {fst devfs_slab_2, fst devfs_slab_1}]" "fst devfs_slab_2 \<noteq> fst devfs_slab_1"
    using a b by (simp_all add: devfs_slab_1_def devfs_slab_2_def)
qed

lemma devfs_heap_inv: "fst devfs_heap \<noteq> NULL" "heap_blocks (snd devfs_heap) {fst devfs_heap}" "kh_room (snd devfs_heap) 8129"
proof -
  have blocks: "heap_blocks vfs_example_heap {}" using vfs_example_blocks by (simp add: vs_blocks_def vfs_example_def)
  have "kh_room vfs_example_heap 8192" using vfs_example_room by (simp add: vs_room_def vfs_example_def)
  then obtain p h where p: "khmalloc vfs_example_heap 16 = Some (p, h)" "p \<noteq> NULL" "kh_room h 8129"
    using khmalloc_room [of vfs_example_heap 8192 16] by auto
  then have "heap_blocks h {p}" using heap.malloc_rep [OF blocks, of 16] by auto
  then show "fst devfs_heap \<noteq> NULL" "heap_blocks (snd devfs_heap) {fst devfs_heap}" "kh_room (snd devfs_heap) 8129"
    using p by (simp_all add: devfs_heap_def)
qed

lemma devfs_example_inv:
  "devfs_inv devfs_example {fst devfs_slab_1} (\<lambda>_. []) (\<lambda>_. 0) {fst devfs_slab_2, fst devfs_slab_1}"
  "devfs_root_node devfs_example = fst devfs_slab_1" "vs_room 8129 devfs_example" "vn_type (vs_nodes devfs_example (fst devfs_slab_2)) = VFS_CHAR_DEVICE"
proof -
  have sel: "vs_slab devfs_example = (snd devfs_slab_2)\<lparr>ks_heap := snd devfs_heap\<rparr>" "vfs_node_cache devfs_example = 65576"
      "vs_nodes devfs_example = (\<lambda>_. zero_node\<lparr>vn_type := VFS_CHAR_DEVICE\<rparr>)(fst devfs_slab_1 := zero_node\<lparr>vn_type := VFS_DIRECTORY, device := fst devfs_heap\<rparr>)"
      "df_dirs devfs_example = (\<lambda>_. \<lparr>dd_node = fst devfs_slab_1, dd_children = 0\<rparr>)" "devfs_root_node devfs_example = fst devfs_slab_1"
    by (simp_all add: devfs_example_def user.defs devfs.defs)
  have "devfs_mem devfs_example {fst devfs_slab_1} (\<lambda>_. []) {fst devfs_slab_2, fst devfs_slab_1}" unfolding devfs_mem_def
    by (rule exI [of _ "{fst devfs_heap}"], rule exI [of _ "[65576 \<mapsto> {fst devfs_slab_2, fst devfs_slab_1}]"])
      (use devfs_slab_inv(1) devfs_heap_inv(2) in \<open>simp add: sel vs_blocks_def\<close>)
  then show "devfs_inv devfs_example {fst devfs_slab_1} (\<lambda>_. []) (\<lambda>_. 0) {fst devfs_slab_2, fst devfs_slab_1}"
    using devfs_slab_ok(1) devfs_heap_inv(1) by (simp add: devfs_inv_def devfs_tree_def not_dir_def df_first_def sel)
  show "devfs_root_node devfs_example = fst devfs_slab_1" "vs_room 8129 devfs_example" "vn_type (vs_nodes devfs_example (fst devfs_slab_2)) = VFS_CHAR_DEVICE"
    using devfs_heap_inv(3) devfs_slab_inv(2) by (simp_all add: sel vs_room_def)
qed

theorem devfs_register_device_correct_witness:
  "\<exists>s'. devfs_register_device 0x100 ''null'' (fst devfs_slab_2) devfs_example = Some s' \<and>
     devfs_walk s' (fst devfs_slab_1) [''null''] = Some (fst devfs_slab_2)"
proof -
  have toks: "slash_tokens (take 255 ''null'') = [''null'']" by code_simp
  show ?thesis
    using devfs_register_device_correct [OF devfs_example_inv(1), of "fst devfs_slab_2" "''null''" "[''null'']" 8129 "0x100"]
      devfs_example_inv(2-4) devfs_slab_ok(2) devfs_slab_inv(2) toks
    by fastforce
qed

end
