(* ===== verification/Kalloc.thy ===== *)
theory Kalloc
  imports Sched
begin

text \<open>
  What the rest of the kernel relies on when it calls \<open>kmalloc\<close> and \<open>kfree\<close> (\<open>krnl/mm.c\<close>) for objects of up to 2048
  bytes: a new object was not live, and releasing a live object ends its life only.  The contract is
  a locale over the exact set of live objects, so a client that holds the set it started with has given back
  everything it took; the interpretation discharges it for \<open>k_kmalloc\<close> and \<open>k_kfree\<close>.

  \<open>kfree\<close> tells the allocators apart by a magic number in front of the object, so the contract needs that no header
  of the buddy pool lies in a page of a slab; \<open>headers_apart\<close> says so, and that no header lies in a free
  page, from which new slabs are made.  The headers are a store of their own here; in memory the payload of an object
  may look like a header in front of the next one (\<open>kfree_misled\<close> in \<open>Mm\<close>), which this condition excludes.
\<close>

section \<open>The contract\<close>

locale small_allocator =
  fixes malloc :: "u64 \<Rightarrow> 's \<Rightarrow> u64 \<times> 's" and mfree :: "u64 \<Rightarrow> 's \<Rightarrow> 's" and holds :: "'s \<Rightarrow> u64 set \<Rightarrow> bool"
  assumes malloc_holds: "holds s A \<Longrightarrow> n \<noteq> 0 \<Longrightarrow> n \<le> 2048 \<Longrightarrow> malloc n s = (p, s') \<Longrightarrow>
      p = NULL \<and> holds s' A \<or> p \<noteq> NULL \<and> p \<notin> A \<and> holds s' (insert p A)"
    and mfree_holds: "holds s A \<Longrightarrow> p \<in> A \<Longrightarrow> holds (mfree p s) (A - {p})"
    and mfree_NULL: "mfree NULL s = s"
    and holds_NULL: "holds s A \<Longrightarrow> NULL \<notin> A"
begin

lemma mfree_new: "holds s (insert p A) \<Longrightarrow> p \<notin> A \<Longrightarrow> holds (mfree p s) A"
  using mfree_holds [of s "insert p A" p] by simp

end

section \<open>Headers apart from slabs\<close>

definition headers_apart :: "kslab \<Rightarrow> kbuddy \<Rightarrow> bool" where
  "headers_apart k b \<longleftrightarrow>
     (\<forall>a. sl_magic k a = SLAB_MAGIC \<longrightarrow> (\<forall>x\<in>region a 4096. bb_magic b x \<noteq> BUDDY_MAGIC)) \<and>
     (\<forall>q<unat (total_pages (ks_pmm k)). \<not> page_used (ks_pmm k) (ks_mem k) q \<longrightarrow>
        (\<forall>x\<in>region (phys_to_virt (ks_pmm k) (of_nat (q * 4096))) 4096. bb_magic b x \<noteq> BUDDY_MAGIC))"

lemma headers_apart_cong:
  "sl_magic k' = sl_magic k \<Longrightarrow> ks_pmm k' = ks_pmm k \<Longrightarrow> ks_mem k' = ks_mem k \<Longrightarrow> headers_apart k' b = headers_apart k b"
  by (simp add: headers_apart_def)

lemma slab_list_same:
  "sl_magic (slab_list_add c l a s) = sl_magic s" "ks_pmm (slab_list_add c l a s) = ks_pmm s" "ks_mem (slab_list_add c l a s) = ks_mem s"
  "sl_magic (slab_list_remove c l a s) = sl_magic s" "ks_pmm (slab_list_remove c l a s) = ks_pmm s" "ks_mem (slab_list_remove c l a s) = ks_mem s"
  by (simp_all add: slab_list_add_def slab_list_remove_def split: prod.split)

lemma headers_apart_page:
  assumes pg: "pages_ok s" and one: "kc_pages_per_slab (ks_caches s c) = 1" and ap: "headers_apart s b"
    and alloc: "allocate_slab_page c s = (a, s')"
  shows "headers_apart s' b"
proof -
  obtain phys p m where pa: "pmm_alloc (ks_pmm s) (ks_mem s) 1 = (phys, p, m)" by (metis prod_cases3)
  have pinv: "pmm_inv (ks_pmm s) (ks_mem s)" using pg by (simp add: pages_ok_def)
  note laws = pmm_alloc_laws [OF pinv pa] and par = pmm_alloc_params [OF pa]
  have v: "phys_to_virt p = phys_to_virt (ks_pmm s)" using par by (simp add: phys_to_virt_def fun_eq_iff)
  have free: "bb_magic b x \<noteq> BUDDY_MAGIC"
    if "q < unat (total_pages p)" "\<not> page_used p m q" "x \<in> region (phys_to_virt p (of_nat (q * 4096))) 4096" for q x
  proof -
    have "q < unat (total_pages (ks_pmm s))" using that(1) par by simp
    moreover from this have "\<not> page_used (ks_pmm s) (ks_mem s) q" using laws(2) [of q] that(2) by blast
    ultimately show ?thesis using ap that(3) unfolding headers_apart_def v by blast
  qed
  show ?thesis
  proof (cases "phys = NULL")
    case True
    then have "s' = s\<lparr>ks_pmm := p, ks_mem := m\<rparr>" using alloc one pa by (auto simp: allocate_slab_page_def Let_def)
    then show ?thesis using ap free by (simp add: headers_apart_def)
  next
    case False
    then have a: "a = phys_to_virt p phys" and s': "sl_magic s' = (sl_magic s)(a := SLAB_MAGIC)" "ks_pmm s' = p" "ks_mem s' = m"
      using alloc one pa by (auto simp: allocate_slab_page_def Let_def)
    obtain q where q: "phys = of_nat (q * 4096)" "q < unat (total_pages (ks_pmm s))" "\<not> page_used (ks_pmm s) (ks_mem s) q"
      by (rule pmm_alloc_page [OF pinv pa False], rule that; assumption)
    have "bb_magic b x \<noteq> BUDDY_MAGIC" if "x \<in> region a 4096" for x
      using ap that q unfolding headers_apart_def a v q(1) by blast
    then show ?thesis using ap free unfolding headers_apart_def s' by auto
  qed
qed

lemma headers_apart_alloc:
  assumes pg: "pages_ok s" and one: "kc_pages_per_slab (ks_caches s c) = 1" and ap: "headers_apart s b"
    and alloc: "kmem_cache_alloc c s = (x, s')"
  shows "headers_apart s' b"
proof -
  have move: "headers_apart (move_slab c l l' a t) b = headers_apart t b" for l l' a t
    by (rule headers_apart_cong) (simp_all add: move_slab_def slab_list_same)
  have pop: "headers_apart (pop_object a t) b = headers_apart t b" for a t
    by (rule headers_apart_cong) (simp_all add: pop_object_def)
  have add: "headers_apart (slab_list_add c l a t) b = headers_apart t b" for l a t
    by (rule headers_apart_cong) (simp_all add: slab_list_same)
  show ?thesis
  proof (cases "c = NULL")
    case True
    then show ?thesis using alloc ap by (simp add: kmem_cache_alloc_def)
  next
    case False
    obtain a t where t: "slab_for_alloc c s = (a, t)" by fastforce
    obtain b' t' where t': "allocate_slab_page c s = (b', t')" by fastforce
    have "headers_apart t b" using t t' ap headers_apart_page [OF pg one ap t']
      by (auto simp: slab_for_alloc_eq move add split: if_splits)
    then show ?thesis using alloc by (auto simp: kmem_cache_alloc_eq [OF False t] move pop split: if_splits)
  qed
qed

lemma headers_apart_free: "headers_apart (kmem_cache_free c x s) b = headers_apart s b"
  by (rule headers_apart_cong) (simp_all add: kmem_cache_free_def slab_list_same Let_def)

text \<open>The header that \<open>kfree\<close> looks for in front of an object would lie in its slab.\<close>

lemma object_header:
  assumes k: "kslab_inv s L" and x: "L c = Some X" "x \<in> X" and ap: "headers_apart s b"
  shows "bb_magic b (x - 24) \<noteq> BUDDY_MAGIC"
proof -
  obtain H F where hf: "pages_ok s" "slabs_ok s (dom L) H F" and X: "X = live_objs (ks_caches s c) (cache_slabs H c) F"
    using k x(1) unfolding kslab_inv_def by (metis domI option.inject)
  then obtain a l where a: "a \<in> set (H (c, l))" "x \<in> slab_objs (ks_caches s c) a"
    using x(2) by (auto simp: live_objs_def cache_slabs_mem)
  have ok: "slab_ok s c a (F a)" "cache_ok (ks_caches s c)" using hf(2) x(1) a(1) by (auto simp: slabs_ok_def)
  obtain i where i: "i < unat (kc_objects_per_slab (ks_caches s c))" "x = a + 48 + of_nat i * kc_object_size (ks_caches s c)"
    using a(2) by (auto simp: slab_objs_def slab_obj_def)
  let ?n = "unat (kc_objects_per_slab (ks_caches s c))" and ?z = "unat (kc_object_size (ks_caches s c))"
  have "i * ?z \<le> ?n * ?z" using i(1) by (intro mult_le_mono) simp_all
  moreover have "?n * ?z \<le> 4048" using ok(2) by (simp add: cache_ok_def)
  ultimately have "24 + i * ?z < 4096" by linarith
  moreover have "x - 24 = a + of_nat (24 + i * ?z)" by (simp add: i(2) algebra_simps)
  ultimately have "x - 24 \<in> region a 4096" by (simp only: region_mem)
  moreover have "sl_magic s a = SLAB_MAGIC" using ok(1) by (simp add: slab_ok_def)
  ultimately show ?thesis using ap by (simp add: headers_apart_def)
qed

section \<open>The interpretation\<close>

text \<open>\<open>A\<close> is the set of all live objects of the slab caches, not a part of it.\<close>

definition k_holds :: "'a kernel_scheme \<Rightarrow> u64 set \<Rightarrow> bool" where
  "k_holds s A \<longleftrightarrow> headers_apart (vs_slab s) (k_buddy s) \<and>
     (\<exists>L T F. mm_inv (mm_of s) L T F \<and> A = \<Union> (ran L))"

lemma mm_of_put_mm [simp]: "mm_of (put_mm m s) = m"
  by (simp add: mm_of_def put_mm_def)

lemma live_mem: "y \<in> \<Union> (ran L) \<longleftrightarrow> (\<exists>c X. L c = Some X \<and> y \<in> X)"
  unfolding ran_def by blast

lemma live_insert:
  assumes "L c = Some X"
  shows "\<Union> (ran (L(c \<mapsto> insert p X))) = insert p (\<Union> (ran L))"
proof (rule set_eqI)
  fix y
  have "(\<exists>d Y. (L(c \<mapsto> insert p X)) d = Some Y \<and> y \<in> Y) \<longleftrightarrow> y = p \<or> (\<exists>d Y. L d = Some Y \<and> y \<in> Y)"
    using assms by (auto simp: fun_upd_apply) (metis option.inject)
  then show "y \<in> \<Union> (ran (L(c \<mapsto> insert p X))) \<longleftrightarrow> y \<in> insert p (\<Union> (ran L))"
    unfolding live_mem insert_iff .
qed

lemma live_remove:
  assumes inv: "kslab_inv s L" and x: "L c = Some X" "p \<in> X"
  shows "\<Union> (ran (L(c \<mapsto> X - {p}))) = \<Union> (ran L) - {p}"
proof (rule set_eqI)
  fix y
  have "d = c" if "L d = Some Y" "p \<in> Y" for d Y
    using live_object_slab [OF inv that] live_object_slab [OF inv x] by simp
  then have "(\<exists>d Y. (L(c \<mapsto> X - {p})) d = Some Y \<and> y \<in> Y) \<longleftrightarrow> (\<exists>d Y. L d = Some Y \<and> y \<in> Y) \<and> y \<noteq> p"
    using x(1) by (auto simp: fun_upd_apply) (metis option.inject)
  then show "y \<in> \<Union> (ran (L(c \<mapsto> X - {p}))) \<longleftrightarrow> y \<in> \<Union> (ran L) - {p}"
    unfolding live_mem Diff_iff by simp
qed

lemma k_holds_malloc:
  assumes h: "k_holds s A" and n: "n \<noteq> 0" "n \<le> 2048" and alloc: "k_kmalloc n s = (p, s')"
  shows "p = NULL \<and> k_holds s' A \<or> p \<noteq> NULL \<and> p \<notin> A \<and> k_holds s' (insert p A)"
proof -
  obtain L T F where inv: "mm_inv (mm_of s) L T F" and A: "A = \<Union> (ran L)" and ap: "headers_apart (vs_slab s) (k_buddy s)"
    using h by (auto simp: k_holds_def)
  let ?i = "size_class n"
  note small = kmalloc_small [OF n, of "mm_of s"]
  obtain m where m: "slab_kmalloc ?i (mm_of s) = (p, m)" "s' = put_mm m s"
    using alloc small by (auto simp: k_kmalloc_def split: prod.splits)
  obtain k where k: "kmem_cache_alloc (kmallocs (mm_of s) ?i) (vs_slab s) = (p, k)" "m = (mm_of s)\<lparr>mm_slab := k\<rparr>"
    using m(1) by (auto simp: slab_kmalloc_def mm_of_def split: prod.splits)
  have kinv: "kslab_inv (vs_slab s) L" and dom: "kmallocs (mm_of s) ?i \<in> dom L"
    using inv small by (auto simp: mm_inv_def mm_of_def)
  then have "pages_ok (vs_slab s)" "kc_pages_per_slab (ks_caches (vs_slab s) (kmallocs (mm_of s) ?i)) = 1"
    unfolding kslab_inv_def slabs_ok_def cache_ok_def by blast+
  from headers_apart_alloc [OF this ap k(1)] have ap': "headers_apart (vs_slab s') (k_buddy s')"
    by (simp add: m(2) k(2) put_mm_def mm_of_def)
  from slab_kmalloc_inv [OF inv _ m(1)] small
  consider "p = NULL" "mm_inv m L T F"
    | X where "L (kmallocs (mm_of s) ?i) = Some X" "p \<noteq> NULL" "\<forall>c' X'. L c' = Some X' \<longrightarrow> p \<notin> X'"
        "mm_inv m (L(kmallocs (mm_of s) ?i \<mapsto> insert p X)) T F" by blast
  then show ?thesis
  proof cases
    case 1
    then show ?thesis using ap' A by (auto simp: k_holds_def m(2))
  next
    case (2 X)
    let ?L = "L(kmallocs (mm_of s) ?i \<mapsto> insert p X)"
    have "\<Union> (ran ?L) = insert p A" unfolding A using 2(1) by (rule live_insert)
    moreover have "p \<notin> A" using 2(3) A by (auto simp: ran_def)
    ultimately show ?thesis using ap' 2(2,4) unfolding k_holds_def m(2) mm_of_put_mm by metis
  qed
qed

lemma k_holds_free:
  assumes h: "k_holds s A" and p: "p \<in> A"
  shows "k_holds (k_kfree p s) (A - {p})"
proof -
  obtain L T F where inv: "mm_inv (mm_of s) L T F" and A: "A = \<Union> (ran L)" and ap: "headers_apart (vs_slab s) (k_buddy s)"
    using h by (auto simp: k_holds_def)
  obtain c X where x: "L c = Some X" "p \<in> X" using p A by (auto simp: ran_def)
  have k: "kslab_inv (mm_slab (mm_of s)) L" using inv by (simp add: mm_inv_def)
  have hd: "bb_magic (mm_buddy (mm_of s)) (p - 24) \<noteq> BUDDY_MAGIC"
    using object_header [OF k x, of "k_buddy s"] ap by (simp add: mm_of_def)
  note slab = live_object_slab [OF k x]
  have "kfree p (mm_of s) = (mm_of s)\<lparr>mm_slab := kmem_cache_free c p (mm_slab (mm_of s))\<rparr>"
    using live_object_not_NULL [OF k x] hd slab by (simp add: kfree_def BUDDY_BLOCK_SIZE_def)
  then have "vs_slab (k_kfree p s) = kmem_cache_free c p (vs_slab s)" "k_buddy (k_kfree p s) = k_buddy s"
    by (simp_all add: k_kfree_def put_mm_def mm_of_def)
  then have "headers_apart (vs_slab (k_kfree p s)) (k_buddy (k_kfree p s))" using ap headers_apart_free by simp
  moreover have "mm_inv (mm_of (k_kfree p s)) (L(c \<mapsto> X - {p})) T F"
    using kfree_slab_object [OF inv x hd] by (simp add: k_kfree_def)
  moreover have "A - {p} = \<Union> (ran (L(c \<mapsto> X - {p})))" unfolding A using live_remove [OF k x] by simp
  ultimately show ?thesis unfolding k_holds_def by blast
qed

interpretation small: small_allocator k_kmalloc k_kfree k_holds
proof
  fix s :: "'a kernel_scheme" and A n p s'
  show "k_holds s A \<Longrightarrow> n \<noteq> 0 \<Longrightarrow> n \<le> 2048 \<Longrightarrow> k_kmalloc n s = (p, s') \<Longrightarrow>
      p = NULL \<and> k_holds s' A \<or> p \<noteq> NULL \<and> p \<notin> A \<and> k_holds s' (insert p A)"
    by (rule k_holds_malloc)
  show "k_holds s A \<Longrightarrow> p \<in> A \<Longrightarrow> k_holds (k_kfree p s) (A - {p})" by (rule k_holds_free)
  show "k_kfree NULL s = s" by (simp add: k_kfree_def kfree_def put_mm_def mm_of_def)
  show "k_holds s A \<Longrightarrow> NULL \<notin> A"
    using live_object_not_NULL by (fastforce simp: k_holds_def mm_inv_def ran_def)
qed

text \<open>The operations change the allocators only.\<close>

definition alloc_only :: "'a kernel_scheme \<Rightarrow> 'a kernel_scheme \<Rightarrow> bool" where
  "alloc_only s s' \<longleftrightarrow> (\<exists>m. s' = put_mm m s)"

lemma alloc_only_malloc: "k_kmalloc n s = (p, s') \<Longrightarrow> alloc_only s s'"
  by (auto simp: alloc_only_def k_kmalloc_def split: prod.splits)

lemma alloc_only_free: "alloc_only s (k_kfree p s)"
  by (auto simp: alloc_only_def k_kfree_def)

section \<open>Running out of memory\<close>

text \<open>What a client does to the allocator: \<open>k\<close> requests of up to 2048 bytes, and releases of live objects in between.
  Memory runs out within \<open>k\<close> requests if one of them fails.\<close>

inductive small_run :: "nat \<Rightarrow> mm \<Rightarrow> mm \<Rightarrow> bool" where
  start: "small_run 0 m m"
| request: "small_run k m m' \<Longrightarrow> n \<noteq> 0 \<Longrightarrow> n \<le> 2048 \<Longrightarrow> small_run (Suc k) m (snd (kmalloc n m'))"
| release: "small_run k m m' \<Longrightarrow> mm_inv m' L T F \<Longrightarrow> p \<in> \<Union> (ran L) \<Longrightarrow> small_run k m (kfree p m')"

definition runs :: "nat \<Rightarrow> 'a kernel_scheme \<Rightarrow> 'a kernel_scheme \<Rightarrow> bool" where
  "runs k s s' \<longleftrightarrow> (\<exists>j\<le>k. small_run j (mm_of s) (mm_of s'))"

definition runs_out :: "nat \<Rightarrow> 'a kernel_scheme \<Rightarrow> bool" where
  "runs_out k s \<longleftrightarrow> (\<exists>j m n. j < k \<and> small_run j (mm_of s) m \<and> n \<noteq> 0 \<and> n \<le> 2048 \<and> fst (kmalloc n m) = NULL)"

lemma small_run_trans: "small_run k m' m'' \<Longrightarrow> small_run j m m' \<Longrightarrow> small_run (j + k) m m''"
  by (induction rule: small_run.induct) (auto intro: small_run.intros)

lemma runs_same: "mm_of s' = mm_of s \<Longrightarrow> runs 0 s s'"
  using small_run.start by (auto simp: runs_def)

lemma runs_trans: "runs j s t \<Longrightarrow> runs k t u \<Longrightarrow> runs (j + k) s u"
  unfolding runs_def by (meson add_mono small_run_trans)

lemma runs_mono: "runs j s t \<Longrightarrow> j \<le> k \<Longrightarrow> runs k s t"
  unfolding runs_def using le_trans by blast

lemma runs_malloc: "k_kmalloc n s = (p, s') \<Longrightarrow> n \<noteq> 0 \<Longrightarrow> n \<le> 2048 \<Longrightarrow> runs 1 s s'"
  using small_run.request [OF small_run.start, of n "mm_of s"] unfolding runs_def k_kmalloc_def
  by (fastforce split: prod.splits)

lemma runs_free: "k_holds s A \<Longrightarrow> p = NULL \<or> p \<in> A \<Longrightarrow> runs 0 s (k_kfree p s)"
  using small_run.release [OF small_run.start] small.mfree_NULL [of s] runs_same [of s s]
  unfolding runs_def k_holds_def by (fastforce simp: k_kfree_def)

lemma runs_out_now: "k_kmalloc n s = (NULL, s') \<Longrightarrow> n \<noteq> 0 \<Longrightarrow> n \<le> 2048 \<Longrightarrow> runs_out 1 s"
  unfolding runs_out_def k_kmalloc_def using small_run.start by (fastforce split: prod.splits)

lemma runs_out_later: "runs j s t \<Longrightarrow> runs_out k t \<Longrightarrow> runs_out (j + k) s"
proof -
  assume "runs j s t" "runs_out k t"
  then obtain i i' m n where r: "i \<le> j" "small_run i (mm_of s) (mm_of t)" "i' < k" "small_run i' (mm_of t) m" "n \<noteq> 0" "n \<le> 2048" "fst (kmalloc n m) = NULL"
    by (auto simp: runs_def runs_out_def)
  then have "i + i' < j + k" "small_run (i + i') (mm_of s) m" using small_run_trans by (blast intro: add_le_less_mono)+
  then show ?thesis using r(5,6,7) unfolding runs_out_def by blast
qed

lemma runs_out_mono: "runs_out j s \<Longrightarrow> j \<le> k \<Longrightarrow> runs_out k s"
  unfolding runs_out_def using less_le_trans by blast

section \<open>Enough pages\<close>

text \<open>Every request takes at most one page, so memory does not run out while pages are left.  (Page 0 has to be in use: its
  address is the value that means failure.)\<close>

definition free_set :: "pmm \<Rightarrow> memory \<Rightarrow> nat set" where
  "free_set p m = {q. q < unat (total_pages p) \<and> \<not> page_used p m q}"

definition pages_left :: "kslab \<Rightarrow> nat \<Rightarrow> bool" where
  "pages_left s k \<longleftrightarrow> page_used (ks_pmm s) (ks_mem s) 0 \<and> k \<le> card (free_set (ks_pmm s) (ks_mem s))"

lemma pmm_alloc_left:
  assumes inv: "pmm_inv s m" and zero: "page_used s m 0" and q: "q \<in> free_set s m" and alloc: "pmm_alloc s m 1 = (r, s', m')"
  shows "r \<noteq> NULL" and "page_used s' m' 0" and "card (free_set s' m') = card (free_set s m) - 1"
proof -
  let ?T = "unat (total_pages s)"
  let ?scan = "pmm_scan s m 1 (last_scanned_bit s) 0 ?T 0 0"
  have qT: "q < ?T" "\<not> page_used s m q" using q by (simp_all add: free_set_def)
  have T: "?T \<le> 2 ^ 52" and last: "last_scanned_bit s < total_pages s"
    using inv qT by (auto simp: pmm_inv_def)
  have "free_run (page_used s m) q (unat (1 :: u64))" using qT(2) by (auto simp: free_run_def less_Suc_eq_le dest: le_antisym)
  then obtain w where scan: "?scan = Some w"
    using pmm_scan_None [OF T last one_neq_zero, of m q] qT(1) by (cases ?scan) auto
  note found = pmm_alloc_Some [OF inv one_neq_zero scan alloc]
  have w: "unat w < ?T" "\<not> page_used s m (unat w)" using found(2,3) by (auto simp: free_run_def)
  then have w0: "0 < unat w" using zero by (cases "unat w") auto
  have "unat (of_nat (unat w * 4096) :: u64) = unat w * 4096" using w(1) T by (intro unat_of_nat_u64) simp
  then have "unat r \<noteq> 0" using w0 found(1) by simp
  then show "r \<noteq> NULL" by auto
  show "page_used s' m' 0" using found(4) [of 0] zero qT(1) by simp
  have "total_pages s' = total_pages s" using pmm_alloc_params [OF alloc] by simp
  then have "free_set s' m' = free_set s m - {unat w}" using found(4) by (auto simp: free_set_def)
  moreover have "unat w \<in> free_set s m" using w by (simp add: free_set_def)
  ultimately show "card (free_set s' m') = card (free_set s m) - 1" by (simp add: free_set_def)
qed

lemma allocate_slab_page_left:
  assumes pg: "pages_ok s" and one: "kc_pages_per_slab (ks_caches s c) = 1" and left: "pages_left s (Suc k)"
    and alloc: "allocate_slab_page c s = (a, s')"
  shows "a \<noteq> NULL \<and> pages_left s' k"
proof -
  obtain r p m where pa: "pmm_alloc (ks_pmm s) (ks_mem s) 1 = (r, p, m)" by (metis prod_cases3)
  have inv: "pmm_inv (ks_pmm s) (ks_mem s)" and fit: "unat (hhdm_offset (ks_pmm s)) + unat (total_pages (ks_pmm s)) * 4096 \<le> 2 ^ 64"
    using pg by (simp_all add: pages_ok_def)
  have "free_set (ks_pmm s) (ks_mem s) \<noteq> {}" "page_used (ks_pmm s) (ks_mem s) 0" using left by (auto simp: pages_left_def)
  then obtain q where q: "q \<in> free_set (ks_pmm s) (ks_mem s)" and zero: "page_used (ks_pmm s) (ks_mem s) 0" by blast
  note found = pmm_alloc_left [OF inv zero q pa]
  obtain w where w: "r = of_nat (w * 4096)" "w < unat (total_pages (ks_pmm s))" "0 < w" "hhdm_offset p = hhdm_offset (ks_pmm s)"
    by (rule pmm_alloc_page [OF inv pa found(1)])
  have lt: "unat (hhdm_offset (ks_pmm s)) + w * 4096 < 2 ^ 64" using fit w(2) by linarith
  have "unat r = w * 4096" unfolding w(1) using lt by (intro unat_of_nat_u64) linarith
  then have "unat (hhdm_offset p + r) = unat (hhdm_offset (ks_pmm s)) + w * 4096" using lt w(4) by (subst unat_add_u64) simp_all
  then have "unat (phys_to_virt p r) \<noteq> 0" using w(3) by (simp add: phys_to_virt_def add.commute)
  then have "phys_to_virt p r \<noteq> NULL" by auto
  moreover have "ks_pmm s' = p" "ks_mem s' = m" "a = phys_to_virt p r"
    using alloc pa one found(1) by (auto simp: allocate_slab_page_def Let_def)
  ultimately show ?thesis using found(2,3) left by (auto simp: pages_left_def)
qed

lemma pages_left_cong: "ks_pmm s' = ks_pmm s \<Longrightarrow> ks_mem s' = ks_mem s \<Longrightarrow> pages_left s' k = pages_left s k"
  by (simp add: pages_left_def)

lemma pages_left_mono: "pages_left s k \<Longrightarrow> j \<le> k \<Longrightarrow> pages_left s j"
  by (simp add: pages_left_def)

lemma kmem_cache_alloc_left:
  assumes inv: "kslab_inv s L" and c: "c \<in> dom L" and left: "pages_left s (Suc k)" and alloc: "kmem_cache_alloc c s = (x, s')"
  shows "x \<noteq> NULL \<and> pages_left s' k"
proof -
  obtain H F where pg: "pages_ok s" and lists: "slab_lists s (dom L) H" and ok: "slabs_ok s (dom L) H F"
    using inv unfolding kslab_inv_def by blast
  have "c \<noteq> NULL" using lists c by (auto simp: slab_lists_def)
  have one: "kc_pages_per_slab (ks_caches s c) = 1" using ok c unfolding slabs_ok_def cache_ok_def by blast
  obtain b u where b: "allocate_slab_page c s = (b, u)" by fastforce
  note page = allocate_slab_page_left [OF pg one left b]
  obtain a t where get: "slab_for_alloc c s = (a, t)" by fastforce
  have a: "a \<noteq> NULL" and t: "pages_left t k"
    using get page b pages_left_mono [OF left, of k] slab_list_same
    unfolding slab_for_alloc_eq move_slab_def by (auto simp: pages_left_def split: if_splits)
  obtain H1 F1 where t1: "slabs_ok t (dom L) H1 F1" and a1: "a \<in> set (H1 (c, Partial))"
    by (rule slab_for_alloc_ok [OF pg lists ok c get]) (use a in blast)
  note aok = slabs_okD [OF t1 c a1]
  obtain y fs where fs: "F1 a = y # fs" using aok(3) by (cases "F1 a") auto
  note al = alloc [unfolded kmem_cache_alloc_eq [OF \<open>c \<noteq> NULL\<close> get]]
  have "x \<noteq> NULL" using al a aok(2) fs by (auto simp: slab_ok_def)
  moreover have "ks_pmm s' = ks_pmm t" "ks_mem s' = ks_mem t" using al a slab_list_same by (auto simp: move_slab_def pop_object_def)
  ultimately show ?thesis using t pages_left_cong by blast
qed

definition mm_holds :: "mm \<Rightarrow> bool" where
  "mm_holds m \<longleftrightarrow> headers_apart (mm_slab m) (mm_buddy m) \<and> (\<exists>L T F. mm_inv m L T F)"

lemma k_holds_mm: "(\<exists>A. k_holds s A) \<longleftrightarrow> mm_holds (mm_of s)"
  by (auto simp add: k_holds_def mm_holds_def mm_of_def)

lemma mm_holds_request:
  assumes h: "mm_holds m" and n: "n \<noteq> 0" "n \<le> 2048" and left: "pages_left (mm_slab m) (Suc k)" and alloc: "kmalloc n m = (p, m')"
  shows "p \<noteq> NULL \<and> mm_holds m' \<and> pages_left (mm_slab m') k"
proof -
  obtain L T F where inv: "mm_inv m L T F" using h by (auto simp: mm_holds_def)
  note small = kmalloc_small [OF n, of m]
  obtain x where x: "kmem_cache_alloc (kmallocs m (size_class n)) (mm_slab m) = (p, x)" "m' = m\<lparr>mm_slab := x\<rparr>"
    using alloc small by (auto simp: slab_kmalloc_def split: prod.splits)
  have "kslab_inv (mm_slab m) L" "kmallocs m (size_class n) \<in> dom L" using inv small by (auto simp: mm_inv_def)
  from kmem_cache_alloc_left [OF this left x(1)] have "p \<noteq> NULL \<and> pages_left (mm_slab m') k" by (simp add: x(2))
  moreover have "mm_holds m'"
  proof -
    obtain s :: kernel where s: "mm_of s = m" using mm_of_put_mm by blast
    obtain A where "k_holds s A" using h k_holds_mm [of s] by (auto simp: s)
    moreover have "k_kmalloc n s = (p, put_mm m' s)" using alloc by (simp add: k_kmalloc_def s)
    ultimately have "\<exists>A. k_holds (put_mm m' s) A" using k_holds_malloc [OF _ n] by blast
    then show ?thesis by (simp add: k_holds_mm)
  qed
  ultimately show ?thesis by blast
qed

lemma mm_holds_release:
  assumes h: "mm_holds m" and inv: "mm_inv m L T F" and p: "p \<in> \<Union> (ran L)" and left: "pages_left (mm_slab m) k"
  shows "mm_holds (kfree p m) \<and> pages_left (mm_slab (kfree p m)) k"
proof -
  obtain c X where x: "L c = Some X" "p \<in> X" using p by (auto simp: ran_def)
  have ks: "kslab_inv (mm_slab m) L" using inv by (simp add: mm_inv_def)
  have hd: "bb_magic (mm_buddy m) (p - 24) \<noteq> BUDDY_MAGIC" using object_header [OF ks x] h by (simp add: mm_holds_def)
  have "kfree p m = m\<lparr>mm_slab := kmem_cache_free c p (mm_slab m)\<rparr>"
    using live_object_not_NULL [OF ks x] hd live_object_slab [OF ks x] by (simp add: kfree_def BUDDY_BLOCK_SIZE_def)
  moreover have "pages_left (kmem_cache_free c p (mm_slab m)) k"
    using left slab_list_same by (simp add: kmem_cache_free_def pages_left_def Let_def)
  ultimately show ?thesis
    using kfree_slab_object [OF inv x hd] h headers_apart_free by (auto simp: mm_holds_def)
qed

lemma small_run_left:
  "small_run j m m' \<Longrightarrow> mm_holds m \<Longrightarrow> pages_left (mm_slab m) (j + k) \<Longrightarrow> mm_holds m' \<and> pages_left (mm_slab m') k"
proof (induction arbitrary: k rule: small_run.induct)
  case (request j m m' n)
  obtain p m'' where p: "kmalloc n m' = (p, m'')" by fastforce
  have "mm_holds m' \<and> pages_left (mm_slab m') (Suc k)" using request.IH [of "Suc k"] request.prems by simp
  then show ?case using mm_holds_request [OF _ request.hyps(2,3) _ p, of k] p by simp
qed (auto dest: mm_holds_release)

lemma enough_pages:
  assumes "k_holds s A" and "pages_left (vs_slab s) k"
  shows "\<not> runs_out k s"
proof
  assume "runs_out k s"
  then obtain j m n where r: "j < k" "small_run j (mm_of s) m" "n \<noteq> 0" "n \<le> 2048" "fst (kmalloc n m) = NULL" by (auto simp: runs_out_def)
  have "mm_holds (mm_of s)" "mm_slab (mm_of s) = vs_slab s" using assms(1) by (auto simp: k_holds_def mm_holds_def mm_of_def)
  moreover obtain i where "k = j + Suc i" using r(1) by (metis add_Suc_right less_iff_Suc_add)
  ultimately have "mm_holds m \<and> pages_left (mm_slab m) (Suc i)" using small_run_left [OF r(2), of "Suc i"] assms(2) by simp
  then show False using mm_holds_request [OF _ r(3,4), of m i] r(5) by (cases "kmalloc n m") auto
qed

end
