(* ===== verification/Printf.thy ===== *)
theory Printf
  imports Cstring "HOL-Library.Monad_Syntax"
begin

text \<open>
  \<open>krnl/printf.c\<close>: formatted output.  A format is the string up to its terminating zero; the variable arguments are the
  slots of eight bytes that \<open>va_arg\<close> takes one after the other, and a string argument is read from memory.
  \<open>put\<close> is called for every character of the output, in order.  The text is computed from the memory at the call; the
  code calls \<open>put\<close> while it reads the arguments, which makes a difference only for a \<open>put\<close> that writes to the
  format or to a string argument.

  The theorem relates the interpreter of formats to a specification of what the directives of a format
  print.
\<close>

section \<open>Numbers\<close>

definition hex_digits :: string where "hex_digits = ''0123456789abcdef''"

text \<open>The array \<open>temp\<close> holds the digits from the last one on.  A base of zero traps in the division.\<close>

partial_function (option) lldtoa_loop :: "u64 \<Rightarrow> u64 \<Rightarrow> string \<Rightarrow> string option" where
  "lldtoa_loop base val temp =
     (if base = 0 then None
      else if 0 < val then lldtoa_loop base (val div base) (temp @ [hex_digits ! unat (val mod base)])
      else Some temp)"

definition lldtoa :: "u64 \<Rightarrow> u64 \<Rightarrow> string option" where
  "lldtoa val base =
     (if val = 0 then Some ''0''
      else do { temp \<leftarrow> lldtoa_loop base val []; Some (map (\<lambda>j. temp ! (length temp - j - 1)) [0..<length temp]) })"

definition itoa :: "u32 \<Rightarrow> u64 \<Rightarrow> string option" where
  "itoa val base = lldtoa (scast (if sint val < 0 then - val else val)) base"

definition btoa :: "bool \<Rightarrow> string" where
  "btoa val = (if val then ''true'' else ''false'')"

text \<open>The result is a constant; the text it assembles is a local array.\<close>

definition vfprintf_zero_padding :: "u64 \<Rightarrow> u8 \<Rightarrow> string \<Rightarrow> int" where
  "vfprintf_zero_padding v v_width buffer = 16"

section \<open>Directives\<close>

text \<open>The length modifiers: \<open>is_l\<close> and \<open>is_ll\<close>.\<close>

datatype length_mod = LM_none | LM_l | LM_ll

record conv_spec =
  is_left_justify :: bool
  is_fill_to_zero :: bool
  cs_width :: u32
  cs_length :: length_mod

fun vf_flags :: "string \<Rightarrow> bool \<Rightarrow> bool \<times> string" where
  "vf_flags [] left = (left, [])"
| "vf_flags (c # p) left =
     (if c = CHR ''-'' then vf_flags p True else if c = CHR '' '' then vf_flags p left else (left, c # p))"

definition is_digit :: "char \<Rightarrow> bool" where
  "is_digit c \<longleftrightarrow> of_char CHR ''0'' \<le> (of_char c :: nat) \<and> of_char c \<le> (of_char CHR ''9'' :: nat)"

fun vf_width :: "string \<Rightarrow> u32 \<Rightarrow> u32 \<times> string" where
  "vf_width [] width = (width, [])"
| "vf_width (c # p) width =
     (if is_digit c then vf_width p (width * 10 + (of_char c - of_char CHR ''0'')) else (width, c # p))"

fun vf_length :: "string \<Rightarrow> length_mod \<times> string" where
  "vf_length (c # d # p) =
     (if c = CHR ''l'' then if d = CHR ''l'' then (LM_ll, p) else (LM_l, d # p) else (LM_none, c # d # p))"
| "vf_length [c] = (if c = CHR ''l'' then (LM_l, []) else (LM_none, [c]))"
| "vf_length [] = (LM_none, [])"

text \<open>What stands between the percent sign and the letter of the conversion.\<close>

definition vf_spec :: "string \<Rightarrow> conv_spec \<times> string" where
  "vf_spec p =
     (let (left, p) = vf_flags p False;
          zero = (p \<noteq> [] \<and> hd p = CHR ''0'' \<and> \<not> left);
          p = (if zero then tl p else p);
          (width, p) = vf_width p 0;
          (lm, p) = vf_length p
      in (\<lparr>is_left_justify = left, is_fill_to_zero = zero, cs_width = width, cs_length = lm\<rparr>, p))"

text \<open>The characters that fill a field, and a number in its field.\<close>

definition padding :: "u32 \<Rightarrow> string \<Rightarrow> char \<Rightarrow> string" where
  "padding width s c =
     (let len = of_nat (length s) :: u32 in if sint len < sint width then replicate (nat (sint (width - len))) c else [])"

definition put_number :: "conv_spec \<Rightarrow> u32 \<Rightarrow> string \<Rightarrow> string" where
  "put_number sp width s =
     (if is_left_justify sp then [] else padding width s (if is_fill_to_zero sp then CHR ''0'' else CHR '' ''))
     @ s @ (if is_left_justify sp then padding width s CHR '' '' else [])"

definition put_string :: "conv_spec \<Rightarrow> string \<Rightarrow> string" where
  "put_string sp s =
     (if is_left_justify sp then padding (cs_width sp) s CHR '' '' else [])
     @ s @ (if is_left_justify sp then [] else padding (cs_width sp) s CHR '' '')"

definition conv_signed :: "length_mod \<Rightarrow> u64 \<Rightarrow> (string \<times> string) option" where
  "conv_signed lm a =
     (if lm = LM_none
      then let val = ucast a :: u32; neg = sint val < 0; val = (if neg then - val else val)
           in map_option (Pair (if neg then ''-'' else [])) (itoa val 10)
      else let neg = sint a < 0; val = (if neg then - a else a)
           in map_option (Pair (if neg then ''-'' else [])) (lldtoa val 10))"

definition conv_unsigned :: "length_mod \<Rightarrow> u64 \<Rightarrow> u64 \<Rightarrow> string option" where
  "conv_unsigned lm base a = lldtoa (if lm = LM_none then ucast (ucast a :: u32) else a) base"

text \<open>A string argument up to its terminating zero.\<close>

partial_function (option) get_str :: "memory \<Rightarrow> u64 \<Rightarrow> string option" where
  "get_str m a = (if m a = 0 then Some [] else do { cs \<leftarrow> get_str m (a + 1); Some (char_of (unat (m a)) # cs) })"

text \<open>The text of one conversion and the number of arguments it takes.\<close>

definition convert :: "memory \<Rightarrow> conv_spec \<Rightarrow> char \<Rightarrow> u64 \<Rightarrow> (string \<times> nat) option" where
  "convert m sp k a =
     (let width = cs_width sp; lm = cs_length sp in
      if k = CHR ''i'' \<or> k = CHR ''d''
      then do { (sign, s) \<leftarrow> conv_signed lm a; Some (sign @ put_number sp width s, 1) }
      else if k = CHR ''u'' then do { s \<leftarrow> conv_unsigned lm 10 a; Some (put_number sp width s, 1) }
      else if k = CHR ''x''
      then do {
        s \<leftarrow> conv_unsigned lm 16 a;
        Some (put_number sp (if width = 0 \<and> is_fill_to_zero sp then if lm = LM_none then 8 else 16 else width) s, 1)
      }
      else if k = CHR ''p''
      then do { s \<leftarrow> lldtoa a 16; Some (put_number sp (if 0 < sint width then width else 16) s, 1) }
      else if k = CHR ''s''
      then do { s \<leftarrow> (if a = NULL then Some ''(null)'' else get_str m a); Some (put_string sp s, 1) }
      else if k = CHR ''c'' then Some ([char_of (unat (ucast a :: u8))], 1)
      else if k = CHR ''%'' then Some (''%'', 0)
      else Some (''%'' @ (case lm of LM_none \<Rightarrow> [] | LM_l \<Rightarrow> ''l'' | LM_ll \<Rightarrow> ''ll'') @ [k], 0))"

lemma length_vf_flags: "length (snd (vf_flags p left)) \<le> length p"
  by (induction p left rule: vf_flags.induct) auto

lemma length_vf_width: "length (snd (vf_width p w)) \<le> length p"
  by (induction p w rule: vf_width.induct) auto

lemma length_vf_length: "length (snd (vf_length p)) \<le> length p"
  by (induction p rule: vf_length.induct) auto

lemma length_vf_spec: "vf_spec p = (sp, q) \<Longrightarrow> length q \<le> length p"
proof -
  assume sp: "vf_spec p = (sp, q)"
  obtain left p1 where p1: "vf_flags p False = (left, p1)" by fastforce
  define p2 where "p2 = (if p1 \<noteq> [] \<and> hd p1 = CHR ''0'' \<and> \<not> left then tl p1 else p1)"
  obtain width p3 where p3: "vf_width p2 0 = (width, p3)" by fastforce
  have "q = snd (vf_length p3)" using sp by (simp add: vf_spec_def p1 p2_def [symmetric] p3 split: prod.splits)
  moreover have "length p1 \<le> length p" using length_vf_flags [of p False] p1 by simp
  moreover have "length p2 \<le> length p1" by (simp add: p2_def)
  moreover have "length p3 \<le> length p2" using length_vf_width [of p2 0] p3 by simp
  ultimately show ?thesis using length_vf_length [of p3] by simp
qed

text \<open>All output of a format; \<open>i\<close> counts the arguments that were taken.\<close>

function vf_out :: "memory \<Rightarrow> (nat \<Rightarrow> u64) \<Rightarrow> nat \<Rightarrow> string \<Rightarrow> string option" where
  "vf_out m args i [] = Some []"
| "vf_out m args i (c # p) =
     (if c \<noteq> CHR ''%'' then map_option ((#) c) (vf_out m args i p)
      else
        case vf_spec p of
          (sp, []) \<Rightarrow> Some (''%'' @ (case cs_length sp of LM_none \<Rightarrow> [] | LM_l \<Rightarrow> ''l'' | LM_ll \<Rightarrow> ''ll''))
        | (sp, k # p) \<Rightarrow> do {
            (text, n) \<leftarrow> convert m sp k (args i);
            rest \<leftarrow> vf_out m args (i + n) p;
            Some (text @ rest)
          })"
  by pat_completeness auto
termination
  by (relation "measure (\<lambda>(m, args, i, p). length p)") (auto dest!: length_vf_spec [OF sym])

definition vfprintf ::
  "(char \<Rightarrow> 's \<Rightarrow> 's) option \<Rightarrow> string option \<Rightarrow> (nat \<Rightarrow> u64) \<Rightarrow> memory \<Rightarrow> 's \<Rightarrow> (int \<times> 's) option" where
  "vfprintf put format args m s =
     (if format = None \<or> put = None then Some (- 1, s)
      else do {
        text \<leftarrow> vf_out m args 0 (the format);
        Some (sint (of_nat (length text) :: u32), fold (the put) text s)
      })"

text \<open>\<open>snprintf\<close> of \<open>krnl/cstdlib.c\<close> prints into a buffer.\<close>

record snprintf_ctx =
  sx_buffer :: u64
  sx_size :: u64
  sx_pos :: u64

definition snprintf_putc :: "char \<Rightarrow> snprintf_ctx \<times> memory \<Rightarrow> snprintf_ctx \<times> memory" where
  "snprintf_putc c xm =
     (let (x, m) = xm in
      if sx_pos x < sx_size x - 1
      then (x\<lparr>sx_pos := sx_pos x + 1\<rparr>, m(sx_buffer x + sx_pos x := of_char c, sx_buffer x + (sx_pos x + 1) := 0))
      else (x, m))"

definition snprintf :: "u64 \<Rightarrow> u64 \<Rightarrow> string option \<Rightarrow> (nat \<Rightarrow> u64) \<Rightarrow> memory \<Rightarrow> (int \<times> memory) option" where
  "snprintf buffer sz fmt args m = do {
     (_, x, m) \<leftarrow> vfprintf (Some snprintf_putc) fmt args m (\<lparr>sx_buffer = buffer, sx_size = sz, sx_pos = 0\<rparr>, m);
     Some (sint (ucast (sx_pos x) :: u32), m)
   }"

section \<open>What a format prints\<close>

definition numeral_in :: "nat \<Rightarrow> nat \<Rightarrow> string" where
  "numeral_in b n = map ((!) hex_digits) (digits b n)"

text \<open>A format as a sequence of plain texts and conversions, and the string that stands for it.\<close>

datatype directive = Text string | Dir conv_spec char

definition spec_text :: "conv_spec \<Rightarrow> string" where
  "spec_text sp =
     (if is_left_justify sp then ''-'' else []) @ (if is_fill_to_zero sp then ''0'' else []) @
     (if cs_width sp = 0 then [] else numeral_in 10 (unat (cs_width sp))) @
     (case cs_length sp of LM_none \<Rightarrow> [] | LM_l \<Rightarrow> ''l'' | LM_ll \<Rightarrow> ''ll'')"

primrec directive_text :: "directive \<Rightarrow> string" where
  "directive_text (Text s) = s"
| "directive_text (Dir sp k) = ''%'' @ spec_text sp @ [k]"

definition in_field :: "conv_spec \<Rightarrow> nat \<Rightarrow> string \<Rightarrow> string" where
  "in_field sp w s =
     (if is_left_justify sp then s @ replicate (w - length s) CHR '' ''
      else replicate (w - length s) (if is_fill_to_zero sp then CHR ''0'' else CHR '' '') @ s)"

definition arg_signed :: "length_mod \<Rightarrow> u64 \<Rightarrow> int" where
  "arg_signed lm a = (if lm = LM_none then sint (ucast a :: u32) else sint a)"

definition arg_unsigned :: "length_mod \<Rightarrow> u64 \<Rightarrow> nat" where
  "arg_unsigned lm a = (if lm = LM_none then unat (ucast a :: u32) else unat a)"

definition arg_string :: "memory \<Rightarrow> u64 \<Rightarrow> string" where
  "arg_string m a = (if a = NULL then ''(null)'' else the (get_str m a))"

text \<open>Numbers stand in fields of the given width, a sign in front of the field; strings stand on the other side of theirs.\<close>

definition printed :: "memory \<Rightarrow> conv_spec \<Rightarrow> char \<Rightarrow> u64 \<Rightarrow> string" where
  "printed m sp k a =
     (let w = unat (cs_width sp); lm = cs_length sp in
      if k = CHR ''i'' \<or> k = CHR ''d''
      then (if arg_signed lm a < 0 then ''-'' else []) @ in_field sp w (numeral_in 10 (nat \<bar>arg_signed lm a\<bar>))
      else if k = CHR ''u'' then in_field sp w (numeral_in 10 (arg_unsigned lm a))
      else if k = CHR ''x''
      then in_field sp (if w = 0 \<and> is_fill_to_zero sp then if lm = LM_none then 8 else 16 else w) (numeral_in 16 (arg_unsigned lm a))
      else if k = CHR ''p'' then in_field sp (if w = 0 then 16 else w) (numeral_in 16 (unat a))
      else if k = CHR ''s''
      then in_field (sp\<lparr>is_left_justify := \<not> is_left_justify sp, is_fill_to_zero := False\<rparr>) w (arg_string m a)
      else if k = CHR ''c'' then [char_of (unat (ucast a :: u8))]
      else ''%'')"

definition takes :: "char \<Rightarrow> nat" where
  "takes k = (if k = CHR ''%'' then 0 else 1)"

fun printed_all :: "memory \<Rightarrow> (nat \<Rightarrow> u64) \<Rightarrow> nat \<Rightarrow> directive list \<Rightarrow> string" where
  "printed_all m args i [] = []"
| "printed_all m args i (Text s # ds) = s @ printed_all m args i ds"
| "printed_all m args i (Dir sp k # ds) = printed m sp k (args i) @ printed_all m args (i + takes k) ds"

text \<open>The smallest \<open>int\<close> has no absolute value, and a string has an end.\<close>

definition dir_ok :: "memory \<Rightarrow> conv_spec \<Rightarrow> char \<Rightarrow> u64 \<Rightarrow> bool" where
  "dir_ok m sp k a \<longleftrightarrow>
     k \<in> set ''diuxpsc%'' \<and> \<not> (is_left_justify sp \<and> is_fill_to_zero sp) \<and> unat (cs_width sp) < 2 ^ 31 \<and>
     (k \<in> set ''di'' \<and> cs_length sp = LM_none \<longrightarrow> (ucast a :: u32) \<noteq> 0x80000000) \<and>
     (k = CHR ''s'' \<and> a \<noteq> NULL \<longrightarrow> (\<exists>s. get_str m a = Some s \<and> length s < 2 ^ 31))"

fun format_ok :: "memory \<Rightarrow> (nat \<Rightarrow> u64) \<Rightarrow> nat \<Rightarrow> directive list \<Rightarrow> bool" where
  "format_ok m args i [] \<longleftrightarrow> True"
| "format_ok m args i (Text s # ds) \<longleftrightarrow> CHR ''%'' \<notin> set s \<and> format_ok m args i ds"
| "format_ok m args i (Dir sp k # ds) \<longleftrightarrow> dir_ok m sp k (args i) \<and> format_ok m args (i + takes k) ds"

subsection \<open>Numerals\<close>

lemma lldtoa_loop_digits:
  "2 \<le> unat base \<Longrightarrow> 0 < unat val \<Longrightarrow> lldtoa_loop base val temp = Some (temp @ rev (numeral_in (unat base) (unat val)))"
proof (induction "unat val" arbitrary: val temp rule: less_induct)
  case less
  let ?b = "unat base" and ?n = "unat val"
  have ne: "base \<noteq> 0" and pos: "0 < val" using less.prems by (auto simp: word_less_unat)
  have step: "lldtoa_loop base val temp = lldtoa_loop base (val div base) (temp @ [hex_digits ! (?n mod ?b)])"
    using ne pos by (subst lldtoa_loop.simps) (simp add: unat_mod)
  show ?case
  proof (cases "?n < ?b")
    case True
    then have "val div base = 0" by (simp add: word_unat_eq_iff unat_div)
    then have "lldtoa_loop base (val div base) t = Some t" for t using ne by (subst lldtoa_loop.simps) simp
    then show ?thesis using True step by (simp add: numeral_in_def digits.simps [of ?b ?n])
  next
    case False
    have lt: "unat (val div base) < unat val" and gt: "0 < unat (val div base)"
      using False less.prems by (simp_all add: unat_div div_greater_zero_iff)
    show ?thesis unfolding step less.hyps [OF lt less.prems(1) gt]
      using False less.prems by (simp add: numeral_in_def digits.simps [of ?b ?n] unat_div)
  qed
qed

lemma lldtoa_digits: "2 \<le> unat base \<Longrightarrow> lldtoa val base = Some (numeral_in (unat base) (unat val))"
proof (cases "val = 0")
  case True
  then show "2 \<le> unat base \<Longrightarrow> ?thesis" by (simp add: lldtoa_def numeral_in_def digits.simps [of "unat base" 0] hex_digits_def)
next
  case False
  assume b: "2 \<le> unat base"
  have rev: "map (\<lambda>j. t ! (length t - j - 1)) [0..<length t] = rev t" for t :: string
    by (rule nth_equalityI) (auto simp: rev_nth)
  have "0 < unat val" using False by (simp add: unat_gt_0)
  then show ?thesis using False by (simp add: lldtoa_def lldtoa_loop_digits [OF b] rev [simplified])
qed

lemma hex_digit_code: "d < 10 \<Longrightarrow> of_char (hex_digits ! d) = (of_char CHR ''0'' + of_nat d :: u32) \<and> is_digit (hex_digits ! d)"
proof -
  assume "d < 10"
  then have "d \<in> {0, 1, 2, 3, 4, 5, 6, 7, 8, 9}" by auto
  then show ?thesis by (auto simp: hex_digits_def is_digit_def)
qed

lemma hd_digits: "2 \<le> b \<Longrightarrow> 0 < n \<Longrightarrow> hd (digits b n) \<noteq> 0"
proof (induction b n rule: digits.induct)
  case (1 b n)
  then show ?case by (cases "n < b") (simp_all add: digits.simps [of b n] div_greater_zero_iff)
qed

lemma vf_width_digits:
  "(\<And>d. d \<in> set ds \<Longrightarrow> d < 10) \<Longrightarrow>
     vf_width (map ((!) hex_digits) ds @ p) w = vf_width p (foldl (\<lambda>w d. w * 10 + of_nat d) w ds)"
proof (induction ds arbitrary: w)
  case (Cons d ds)
  then show ?case using hex_digit_code [of d] by simp
qed simp

lemma foldl_of_nat: "foldl (\<lambda>w d. w * 10 + of_nat d) (of_nat v) ds = (of_nat (foldl (\<lambda>v d. v * 10 + d) v ds) :: u32)"
proof (induction ds arbitrary: v)
  case (Cons d ds)
  then show ?case using Cons.IH [of "v * 10 + d"] by simp
qed simp

lemma vf_width_numeral: "vf_width (numeral_in 10 (unat w) @ p) 0 = vf_width p w"
  using vf_width_digits [of "digits 10 (unat w)" p 0] digits_less [of 10 _ "unat w"]
    foldl_of_nat [of 0 "digits 10 (unat w)"] of_digits_digits [of 10 "unat w"]
  by (simp add: numeral_in_def of_digits_def)

subsection \<open>Reading a directive back\<close>

lemma vf_flags_stop: "p \<noteq> [] \<Longrightarrow> hd p \<noteq> CHR ''-'' \<Longrightarrow> hd p \<noteq> CHR '' '' \<Longrightarrow> vf_flags p left = (left, p)"
  by (cases p) auto

lemma vf_width_stop: "p \<noteq> [] \<Longrightarrow> \<not> is_digit (hd p) \<Longrightarrow> vf_width p w = (w, p)"
  by (cases p) auto

lemma vf_length_text:
  "k \<noteq> CHR ''l'' \<Longrightarrow> vf_length ((case lm of LM_none \<Rightarrow> [] | LM_l \<Rightarrow> ''l'' | LM_ll \<Rightarrow> ''ll'') @ k # p) = (lm, k # p)"
  by (cases lm; cases p) auto

lemma numeral_in_hd:
  assumes "0 < n"
  shows "numeral_in 10 n \<noteq> []" and "is_digit (hd (numeral_in 10 n))" and "hd (numeral_in 10 n) \<noteq> CHR ''0''"
proof -
  let ?d = "hd (digits 10 n)"
  have "?d < 10" "?d \<noteq> 0" using digits_less [of 10 ?d n] hd_digits [of 10 n] assms by simp_all
  then have "?d \<in> {1, 2, 3, 4, 5, 6, 7, 8, 9}" by auto
  then show "is_digit (hd (numeral_in 10 n))" "hd (numeral_in 10 n) \<noteq> CHR ''0''"
    by (auto simp: numeral_in_def hd_map hex_digits_def is_digit_def)
qed (simp add: numeral_in_def)

lemma not_digit: "is_digit c \<Longrightarrow> c \<noteq> CHR ''-'' \<and> c \<noteq> CHR '' ''"
  by (auto simp: is_digit_def)

lemma vf_spec_text:
  assumes k: "k \<in> set ''diuxpsc%''" and z: "\<not> (is_left_justify sp \<and> is_fill_to_zero sp)"
  shows "vf_spec (spec_text sp @ k # p) = (sp, k # p)"
proof -
  let ?l = "(case cs_length sp of LM_none \<Rightarrow> [] | LM_l \<Rightarrow> ''l'' | LM_ll \<Rightarrow> ''ll'') @ k # p"
  let ?w = "(if cs_width sp = 0 then [] else numeral_in 10 (unat (cs_width sp))) @ ?l"
  let ?z = "(if is_fill_to_zero sp then ''0'' else []) @ ?w"
  have l: "?l \<noteq> []" "\<not> is_digit (hd ?l)" "hd ?l \<noteq> CHR ''-''" "hd ?l \<noteq> CHR '' ''" "hd ?l \<noteq> CHR ''0''"
    using k by (auto simp: is_digit_def split: length_mod.split)
  have len: "vf_length ?l = (cs_length sp, k # p)" by (rule vf_length_text) (use k in auto)
  have width: "vf_width ?w 0 = (cs_width sp, ?l)"
    using vf_width_stop [OF l(1,2)] by (simp add: vf_width_numeral)
  have w: "?w \<noteq> []" "hd ?w \<noteq> CHR ''0''" "hd ?w \<noteq> CHR ''-''" "hd ?w \<noteq> CHR '' ''"
    using l numeral_in_hd [of "unat (cs_width sp)"] not_digit by (auto simp: unat_gt_0)
  have "?z \<noteq> []" "hd ?z \<noteq> CHR ''-''" "hd ?z \<noteq> CHR '' ''" using w by auto
  then have "vf_flags ((if b then ''-'' else []) @ ?z) False = (b, ?z)" for b using vf_flags_stop [of ?z b] by (cases b) simp_all
  moreover have "spec_text sp @ k # p = (if is_left_justify sp then ''-'' else []) @ ?z" by (simp add: spec_text_def)
  ultimately have flags: "vf_flags (spec_text sp @ k # p) False = (is_left_justify sp, ?z)" by metis
  have zero: "(?z \<noteq> [] \<and> hd ?z = CHR ''0'' \<and> \<not> is_left_justify sp) = is_fill_to_zero sp"
    using w z by auto
  have tl: "(if is_fill_to_zero sp then tl ?z else ?z) = ?w" by simp
  show ?thesis unfolding vf_spec_def flags Let_def prod.case zero tl width len by simp
qed

subsection \<open>Fields\<close>

lemma sint_small: "unat (x :: u32) < 2 ^ 31 \<Longrightarrow> sint x = int (unat x)"
proof -
  assume "unat x < 2 ^ 31"
  then have "int (unat x) < int (2 ^ 31)" unfolding of_nat_less_iff .
  then have "int (unat x) < 2 ^ 31" by (simp only: of_nat_power of_nat_numeral)
  then have "signed_take_bit 31 (int (unat x)) = int (unat x)" by (intro signed_take_bit_int_eq_self) linarith+
  then show ?thesis by (simp add: sint_uint)
qed

lemma padding_replicate:
  assumes w: "unat w < 2 ^ 31" and s: "length s < 2 ^ 31"
  shows "padding w s c = replicate (unat w - length s) c"
proof -
  let ?l = "of_nat (length s) :: u32"
  have l: "unat ?l = length s" using s by simp
  then have sl: "sint ?l = int (length s)" using sint_small [of ?l] s by simp
  note sw = sint_small [OF w]
  show ?thesis
  proof (cases "length s < unat w")
    case True
    then have d: "unat (w - ?l) = unat w - length s" using l unat_sub_le [of ?l w] by (simp add: word_le_unat)
    then have "sint (w - ?l) = int (unat w - length s)" using sint_small [of "w - ?l"] w by simp
    moreover have "sint ?l < sint w" using True unfolding sl sw by linarith
    ultimately show ?thesis by (simp add: padding_def Let_def)
  next
    case False
    then have "\<not> sint ?l < sint w" unfolding sl sw by linarith
    then show ?thesis using False by (simp add: padding_def Let_def)
  qed
qed

lemma put_number_field: "unat w < 2 ^ 31 \<Longrightarrow> length s < 2 ^ 31 \<Longrightarrow> put_number sp w s = in_field sp (unat w) s"
  by (simp add: put_number_def in_field_def padding_replicate)

lemma put_string_field:
  "unat (cs_width sp) < 2 ^ 31 \<Longrightarrow> length s < 2 ^ 31 \<Longrightarrow>
     put_string sp s = in_field (sp\<lparr>is_left_justify := \<not> is_left_justify sp, is_fill_to_zero := False\<rparr>) (unat (cs_width sp)) s"
  by (simp add: put_string_def in_field_def padding_replicate)

lemma length_numeral_in: "2 \<le> b \<Longrightarrow> length (numeral_in b (unat (x :: u64))) < 2 ^ 31"
  using length_digits_u64 [of b x] by (simp add: numeral_in_def)

lemma number_field:
  "unat w < 2 ^ 31 \<Longrightarrow> 2 \<le> b \<Longrightarrow> \<exists>x :: u64. unat x = n \<Longrightarrow> put_number sp w (numeral_in b n) = in_field sp (unat w) (numeral_in b n)"
  using put_number_field length_numeral_in by blast

subsection \<open>Conversions\<close>

lemma conv_unsigned_digits: "2 \<le> unat base \<Longrightarrow> conv_unsigned lm base a = Some (numeral_in (unat base) (arg_unsigned lm a))"
  by (simp add: conv_unsigned_def arg_unsigned_def lldtoa_digits)

lemma unat_neg: "sint (x :: 'a :: len word) < 0 \<Longrightarrow> int (unat (- x)) = - sint x"
proof -
  assume neg: "sint x < 0"
  have "- sint x \<le> 2 ^ (LENGTH('a) - 1)" using sint_ge [of x] by simp
  also have "\<dots> < (2 :: int) ^ LENGTH('a)" by (intro power_strict_increasing) simp_all
  finally have "take_bit LENGTH('a) (- sint x) = - sint x" using neg by (intro take_bit_int_eq_self) simp_all
  moreover have "- x = word_of_int (- sint x)" by simp
  ultimately have "uint (- x) = - sint x" by (metis uint_word_of_int_eq)
  then show ?thesis by simp
qed

lemma unat_pos: "0 \<le> sint (x :: 'a :: len word) \<Longrightarrow> int (unat x) = sint x"
proof -
  assume pos: "0 \<le> sint x"
  have "sint x < 2 ^ (LENGTH('a) - 1)" by (rule sint_lt)
  also have "\<dots> < (2 :: int) ^ LENGTH('a)" by (intro power_strict_increasing) simp_all
  finally have "take_bit LENGTH('a) (sint x) = sint x" using pos by (intro take_bit_int_eq_self) simp_all
  moreover have "x = word_of_int (sint x)" by simp
  ultimately have "uint x = sint x" by (metis uint_word_of_int_eq)
  then show ?thesis by simp
qed

lemma abs_val: "int (unat (if sint x < 0 then - x else x)) = \<bar>sint (x :: 'a :: len word)\<bar>"
  using unat_neg [of x] unat_pos [of x] by auto

lemma abs_val_nat: "unat (if sint x < 0 then - x else x) = nat \<bar>sint (x :: 'a :: len word)\<bar>"
  using abs_val [of x] by (metis nat_int)

lemma itoa_digits: "unat x < 2 ^ 31 \<Longrightarrow> itoa x 10 = Some (numeral_in 10 (unat x))"
proof -
  assume x: "unat x < 2 ^ 31"
  have s: "\<not> sint x < 0" unfolding sint_small [OF x] by simp
  have "x = of_nat (unat x)" by simp
  then have "(scast x :: u64) = of_nat (unat x)" using scast_of_nat_u32 [OF x] by simp
  then have "unat (scast x :: u64) = unat x" using unat_ucast_u32_u64 [of x] unat_of_nat_u64 [of "unat x"] x by simp
  then show ?thesis using s by (simp add: itoa_def lldtoa_digits)
qed

lemma conv_signed_digits:
  assumes "lm = LM_none \<Longrightarrow> (ucast a :: u32) \<noteq> 0x80000000"
  shows "conv_signed lm a = Some (if arg_signed lm a < 0 then ''-'' else [], numeral_in 10 (nat \<bar>arg_signed lm a\<bar>))"
proof (cases "lm = LM_none")
  case True
  let ?x = "ucast a :: u32"
  let ?v = "if sint ?x < 0 then - ?x else ?x"
  have "\<bar>sint ?x\<bar> \<noteq> 2 ^ 31"
  proof
    assume "\<bar>sint ?x\<bar> = 2 ^ 31"
    then have "sint ?x = - (2 ^ 31)" using sint_lt [of ?x] by simp
    moreover have "?x = word_of_int (sint ?x)" by simp
    ultimately have "?x = word_of_int (- (2 ^ 31))" by (simp only:)
    then show False using assms True by simp
  qed
  moreover have "\<bar>sint ?x\<bar> \<le> 2 ^ 31" using sint_lt [of ?x] sint_ge [of ?x] by simp
  ultimately have "\<bar>sint ?x\<bar> < 2 ^ 31" by linarith
  then have "unat ?v < 2 ^ 31" unfolding abs_val_nat by (subst nat_less_iff) simp_all
  then show ?thesis using True by (simp only: conv_signed_def Let_def itoa_digits arg_signed_def abs_val_nat if_True option.map simp_thms)
next
  case False
  moreover have "lldtoa (if sint a < 0 then - a else a) 10 = Some (numeral_in 10 (nat \<bar>sint a\<bar>))"
    using lldtoa_digits [of 10 "if sint a < 0 then - a else a"] by (simp only: abs_val_nat) simp
  ultimately show ?thesis by (simp only: conv_signed_def Let_def arg_signed_def if_False option.map simp_thms)
qed

lemma arg_unsigned_u64: "\<exists>x :: u64. unat x = arg_unsigned lm a"
  by (intro exI [of _ "if lm = LM_none then ucast (ucast a :: u32) else a"]) (simp add: arg_unsigned_def)

lemma arg_signed_u64: "\<exists>x :: u64. unat x = nat \<bar>arg_signed lm a\<bar>"
proof (cases "lm = LM_none")
  case True
  let ?x = "ucast a :: u32"
  have "unat (ucast (if sint ?x < 0 then - ?x else ?x) :: u64) = nat \<bar>sint ?x\<bar>"
    unfolding unat_ucast_u32_u64 by (rule abs_val_nat)
  then show ?thesis using True by (simp only: arg_signed_def if_True simp_thms) blast
next
  case False
  then show ?thesis using abs_val_nat [of a] by (simp only: arg_signed_def if_False) blast
qed

lemma convert_printed:
  assumes ok: "dir_ok m sp k a"
  shows "convert m sp k a = Some (printed m sp k a, takes k)"
proof -
  let ?w = "cs_width sp" and ?lm = "cs_length sp"
  have w: "unat ?w < 2 ^ 31" and k: "k \<in> set ''diuxpsc%''" using ok by (simp_all add: dir_ok_def)
  note fields = number_field [OF w _ arg_signed_u64] number_field [OF w _ arg_unsigned_u64]
  have x: "put_number sp (if ?w = 0 \<and> is_fill_to_zero sp then if ?lm = LM_none then 8 else 16 else ?w) (numeral_in 16 (arg_unsigned ?lm a)) =
      in_field sp (if unat ?w = 0 \<and> is_fill_to_zero sp then if ?lm = LM_none then 8 else 16 else unat ?w) (numeral_in 16 (arg_unsigned ?lm a))"
    using number_field [of _ 16, OF _ _ arg_unsigned_u64, of _ sp ?lm a] w by (simp add: unat_eq_0)
  have p: "put_number sp (if 0 < sint ?w then ?w else 16) (numeral_in 16 (unat a)) =
      in_field sp (if unat ?w = 0 then 16 else unat ?w) (numeral_in 16 (unat a))"
    using number_field [of _ 16, OF _ _ exI [of _ a, OF refl], of _ sp] w sint_small [OF w] unat_gt_0 [of ?w]
    by (simp only: of_nat_0_less_iff) (auto simp: unat_eq_0)
  consider "k = CHR ''d''" | "k = CHR ''i''" | "k = CHR ''u''" | "k = CHR ''x''" | "k = CHR ''p''" | "k = CHR ''s''"
    | "k = CHR ''c''" | "k = CHR ''%''" using k by auto
  then show ?thesis
  proof cases
    case 6
    have "(if a = NULL then Some ''(null)'' else get_str m a) = Some (arg_string m a) \<and> length (arg_string m a) < 2 ^ 31"
      using ok 6 by (auto simp: dir_ok_def arg_string_def)
    then show ?thesis using 6 put_string_field [OF w] by (simp add: convert_def printed_def takes_def Let_def)
  next
    case 4
    then show ?thesis using x by (simp add: convert_def printed_def takes_def Let_def conv_unsigned_digits)
  next
    case 5
    then show ?thesis using p by (simp add: convert_def printed_def takes_def Let_def lldtoa_digits)
  qed (use ok in \<open>simp_all add: convert_def printed_def takes_def Let_def conv_signed_digits conv_unsigned_digits fields dir_ok_def\<close>)
qed

lemma vf_out_text: "CHR ''%'' \<notin> set s \<Longrightarrow> vf_out m args i (s @ p) = map_option ((@) s) (vf_out m args i p)"
proof (induction s)
  case Nil
  show ?case by (simp add: option.map_ident)
next
  case (Cons c s)
  then show ?case by (auto simp: option.map_comp comp_def)
qed

lemma vf_out_printed: "format_ok m args i ds \<Longrightarrow> vf_out m args i (concat (map directive_text ds)) = Some (printed_all m args i ds)"
proof (induction m args i ds rule: format_ok.induct)
  case (3 m args i sp k ds)
  then have ok: "dir_ok m sp k (args i)" by simp
  then have "vf_spec (spec_text sp @ k # concat (map directive_text ds)) = (sp, k # concat (map directive_text ds))"
    by (intro vf_spec_text) (simp_all add: dir_ok_def)
  then show ?case using 3 convert_printed [OF ok] by simp
qed (simp_all add: vf_out_text)

text \<open>C18: A format that is written as a sequence of plain texts and conversions prints the texts and, for every conversion, the argument that
  is its turn: decimal and hexadecimal numbers without leading zeros in a field of the given width, strings and
  characters as they are.  \<open>put\<close> is called for exactly these characters in order, and their number is the result.
  (A sign stands in front of the field, and strings on the side opposite to the one the flag asks for.)\<close>

theorem vfprintf_correct:
  assumes "format_ok m args 0 ds"
  shows "vfprintf (Some put) (Some (concat (map directive_text ds))) args m s =
    Some (sint (of_nat (length (printed_all m args 0 ds)) :: u32), fold put (printed_all m args 0 ds) s)"
  using vf_out_printed [OF assms] by (simp add: vfprintf_def)

definition format_example :: "directive list" where
  "format_example =
     [Text ''id='', Dir \<lparr>is_left_justify = True, is_fill_to_zero = False, cs_width = 5, cs_length = LM_none\<rparr> CHR ''d'',
      Text ''|'', Dir \<lparr>is_left_justify = False, is_fill_to_zero = True, cs_width = 10, cs_length = LM_l\<rparr> CHR ''x'']"

lemmas numeral_in_eval = numeral_in_def digits.simps [of "numeral b" "numeral n" for b n] digits.simps [of "numeral b" "Suc 0" for b]

lemma format_example_text: "concat (map directive_text format_example) = ''id=%-5d|%010lx''"
  by code_simp

lemma format_example_printed: "printed_all (\<lambda>_. 0) (\<lambda>i. if i = 0 then 0xFFFFFFF9 else 0xBEEF) 0 format_example = ''id=-7    |000000beef''"
proof -
  have "numeral_in 10 7 = ''7''" "numeral_in 16 48879 = ''beef''" by (simp_all add: numeral_in_eval hex_digits_def)
  moreover have "replicate 4 CHR '' '' = ''    ''" "replicate 6 CHR ''0'' = ''000000''" by (simp_all add: eval_nat_numeral)
  moreover have "sint (ucast (0xFFFFFFF9 :: u64) :: u32) = - 7" by code_simp
  ultimately show ?thesis
    by (simp add: format_example_def printed_def arg_signed_def arg_unsigned_def in_field_def takes_def Let_def)
qed

lemma format_example_ok: "format_ok (\<lambda>_. 0) (\<lambda>i. if i = 0 then 0xFFFFFFF9 else 0xBEEF) 0 format_example"
  by (simp add: format_example_def dir_ok_def takes_def)

theorem vfprintf_correct_witness:
  "vfprintf (Some (\<lambda>c out. out @ [c])) (Some ''id=%-5d|%010lx'') (\<lambda>i. if i = 0 then 0xFFFFFFF9 else 0xBEEF) (\<lambda>_. 0) [] =
     Some (20, ''id=-7    |000000beef'')"
  using vfprintf_correct [OF format_example_ok, of "\<lambda>c out. out @ [c]" "[]"]
  unfolding format_example_text format_example_printed by simp

text \<open>The smallest \<open>int\<close> is printed as a number of 64 bits.\<close>

lemma vf_out_int_min: "vf_out m (\<lambda>_. 0x80000000) 0 ''%d'' = Some ''-18446744071562067968''"
proof -
  have "vf_spec ''d'' = (\<lparr>is_left_justify = False, is_fill_to_zero = False, cs_width = 0, cs_length = LM_none\<rparr>, ''d'')" by code_simp
  moreover have "itoa (- 0x80000000) 10 = Some (numeral_in 10 18446744071562067968)"
  proof -
    have "(scast (if sint (- 0x80000000 :: u32) < 0 then - (- 0x80000000) else - 0x80000000 :: u32) :: u64) = 0xFFFFFFFF80000000" by code_simp
    then show ?thesis by (simp add: itoa_def lldtoa_digits)
  qed
  moreover have "numeral_in 10 18446744071562067968 = ''18446744071562067968''" by (simp add: numeral_in_eval hex_digits_def)
  ultimately show ?thesis by (simp add: convert_def conv_signed_def put_number_def padding_def Let_def)
qed

text \<open>\<open>snprintf\<close> writes as much of the text as fits, with a zero behind it, and nothing outside of the buffer.  (Of an
  empty text it writes nothing, not even the zero.)\<close>

definition printed_into :: "u64 \<Rightarrow> string \<Rightarrow> memory \<Rightarrow> memory" where
  "printed_into b t m =
     (\<lambda>a. if unat (a - b) < length t then of_char (t ! unat (a - b)) else if t \<noteq> [] \<and> a = b + of_nat (length t) then 0 else m a)"

lemma printed_into_snoc:
  assumes "length t + 1 < 2 ^ 64"
  shows "(printed_into b t m)(b + of_nat (length t) := of_char c, b + of_nat (length t + 1) := 0) = printed_into b (t @ [c]) m"
proof
  fix a
  have at: "a = b + of_nat k \<longleftrightarrow> unat (a - b) = k" if "k < 2 ^ 64" for k
    using that unat_diff_eq_iff [of k a b] by auto
  show "((printed_into b t m)(b + of_nat (length t) := of_char c, b + of_nat (length t + 1) := 0)) a = printed_into b (t @ [c]) m a"
    using assms at [of "length t"] at [of "length t + 1"] by (auto simp: printed_into_def nth_append)
qed

lemma snprintf_fold:
  assumes "sz \<noteq> 0"
  shows "fold snprintf_putc t (\<lparr>sx_buffer = b, sx_size = sz, sx_pos = 0\<rparr>, m) =
    (\<lparr>sx_buffer = b, sx_size = sz, sx_pos = of_nat (min (length t) (unat (sz - 1)))\<rparr>, printed_into b (take (unat (sz - 1)) t) m)"
proof (induction t rule: rev_induct)
  case Nil
  show ?case by (simp add: printed_into_def)
next
  case (snoc c t)
  let ?z = "unat (sz - 1)"
  have "0 < unat sz" using assms by (simp add: unat_gt_0)
  moreover from this have "?z = unat sz - 1" by (subst unat_sub_le) (simp_all add: word_le_unat)
  ultimately have z: "?z < 2 ^ 64 - 1" using unat_u64_bound [of sz] by linarith
  show ?case
  proof (cases "length t < ?z")
    case True
    have u: "unat (of_nat (length t) :: u64) = length t" using True z by (intro unat_of_nat_u64) simp
    have "(of_nat (length t) :: u64) < sz - 1" unfolding word_less_unat u by (rule True)
    moreover have "length t + 1 < 2 ^ 64" using True z by simp
    ultimately show ?thesis using True snoc printed_into_snoc [of t b m c] by (simp add: snprintf_putc_def add.commute)
  next
    case False
    have "(of_nat (min (length t) ?z) :: u64) = sz - 1" using False by simp
    then show ?thesis using False snoc by (simp add: snprintf_putc_def)
  qed
qed

lemma snprintf_text:
  assumes "sz \<noteq> 0" and "vf_out m args 0 fmt = Some t"
  shows "snprintf b sz (Some fmt) args m =
    Some (sint (ucast (of_nat (min (length t) (unat (sz - 1))) :: u64) :: u32), printed_into b (take (unat (sz - 1)) t) m)"
  using assms snprintf_fold [OF assms(1)] by (simp add: snprintf_def vfprintf_def)

end
