(* ===== verification/Moscfg.thy ===== *)
theory Moscfg
  imports Devfs Kalloc Printf "HOL-Library.Sublist"
begin

text \<open>
  \<open>krnl/util/moscfg.c\<close>: configuration files, lines of the form \<open>NAME: type = value\<close>.

  A pointer into the buffer is the text from there to the end of the part that is examined; a zero byte
  follows the buffer, so the unbounded \<open>skip_ws\<close> stops there.  Entries, copied texts and arrays are typed stores.
\<close>

section \<open>State\<close>

datatype cfg_value = CFG_INT u32 | CFG_STR u64 | CFG_ARRAY u64 u32

record cfg_entry =
  ce_name :: u64
  ce_value :: cfg_value
  ce_next :: u64

record cfg =
  cf_entries :: u64
  cf_count :: u32

record cfg_state = devfs +
  cfg_text :: "u64 \<Rightarrow> string"
  cfg_items :: "u64 \<Rightarrow> u32 list"
  cfg_entry_at :: "u64 \<Rightarrow> cfg_entry"
  cfg_at :: "u64 \<Rightarrow> cfg"

definition CFG_ENTRY_SIZE :: u64 where "CFG_ENTRY_SIZE = 40"
definition CFG_SIZE :: u64 where "CFG_SIZE = 16"

section \<open>Texts\<close>

definition kstrndup :: "string \<Rightarrow> 'a cfg_state_scheme \<Rightarrow> u64 \<times> 'a cfg_state_scheme" where
  "kstrndup t s =
     (let (p, s) = k_kmalloc (of_nat (length t + 1)) s
      in if p = NULL then (NULL, s) else (p, s\<lparr>cfg_text := (cfg_text s)(p := t)\<rparr>))"

text \<open>The characters before the first zero.\<close>

definition c_text :: "string \<Rightarrow> string" where
  "c_text t = takeWhile (\<lambda>c. c \<noteq> CHR 0x00) t"

definition kstrdup :: "string \<Rightarrow> 'a cfg_state_scheme \<Rightarrow> u64 \<times> 'a cfg_state_scheme" where
  "kstrdup t s = kstrndup (c_text t) s"

definition skip_ws :: "string \<Rightarrow> string" where
  "skip_ws p = dropWhile (\<lambda>c. c = CHR '' '' \<or> c = CHR 0x09 \<or> c = CHR 0x0D) p"

definition skip_to_eol :: "string \<Rightarrow> string" where
  "skip_to_eol p = dropWhile (\<lambda>c. c \<noteq> CHR 0x00 \<and> c \<noteq> CHR 0x0A) p"

definition blank :: "char \<Rightarrow> bool" where
  "blank c \<longleftrightarrow> c = CHR '' '' \<or> c = CHR 0x09"

definition trim :: "string \<Rightarrow> string" where
  "trim s = rev (dropWhile blank (rev (dropWhile blank s)))"

section \<open>Values\<close>

definition char_range :: "char \<Rightarrow> char \<Rightarrow> char \<Rightarrow> bool" where
  "char_range lo hi c \<longleftrightarrow> of_char lo \<le> (of_char c :: nat) \<and> of_char c \<le> (of_char hi :: nat)"

definition hex_val :: "char \<Rightarrow> u32 option" where
  "hex_val c =
     (if char_range CHR ''0'' CHR ''9'' c then Some (of_char c - of_char CHR ''0'')
      else if char_range CHR ''a'' CHR ''f'' c then Some (of_char c - of_char CHR ''a'' + 10)
      else if char_range CHR ''A'' CHR ''F'' c then Some (of_char c - of_char CHR ''A'' + 10)
      else None)"

definition oct_val :: "char \<Rightarrow> u32 option" where
  "oct_val c = (if char_range CHR ''0'' CHR ''7'' c then Some (of_char c - of_char CHR ''0'') else None)"

definition dec_val :: "char \<Rightarrow> u32 option" where
  "dec_val c = (if char_range CHR ''0'' CHR ''9'' c then Some (of_char c - of_char CHR ''0'') else None)"

fun digit_loop :: "(char \<Rightarrow> u32 option) \<Rightarrow> u32 \<Rightarrow> u32 \<Rightarrow> string \<Rightarrow> u32 option" where
  "digit_loop dig base val [] = Some val"
| "digit_loop dig base val (c # s) =
     (case dig c of None \<Rightarrow> None | Some d \<Rightarrow> digit_loop dig base (val * base + d) s)"

text \<open>Hexadecimal after \<open>0x\<close>, octal after \<open>0\<close>, decimal otherwise.\<close>

definition parse_digits :: "string \<Rightarrow> u32 option" where
  "parse_digits s =
     (if 1 < length s \<and> s ! 0 = CHR ''0'' \<and> (s ! 1 = CHR ''x'' \<or> s ! 1 = CHR ''X'')
      then if drop 2 s = [] then None else digit_loop hex_val 16 0 (drop 2 s)
      else if hd s = CHR ''0'' \<and> 1 < length s then digit_loop oct_val 8 0 (tl s)
      else digit_loop dec_val 10 0 s)"

definition parse_int :: "string \<Rightarrow> u32 option" where
  "parse_int s =
     (let s = trim s in
      if s = [] then None
      else
        let neg = (hd s = CHR ''-'');
            s = (if hd s = CHR ''-'' \<or> hd s = CHR ''+'' then tl s else s)
        in if s = [] then None else map_option (\<lambda>val. if neg then - val else val) (parse_digits s))"

text \<open>The numbers between the commas; a comma at the end starts no number.\<close>

fun array_loop :: "string \<Rightarrow> u32 list option" where
  "array_loop s =
     (if s = [] then Some []
      else
        case parse_int (takeWhile (\<lambda>c. c \<noteq> CHR '','') s) of
          None \<Rightarrow> None
        | Some v \<Rightarrow> map_option ((#) v) (array_loop (tl (dropWhile (\<lambda>c. c \<noteq> CHR '','') s))))"

declare array_loop.simps [simp del]

definition array_cap :: "string \<Rightarrow> u32" where
  "array_cap s = 1 + of_nat (length (filter (\<lambda>c. c = CHR '','') s))"

text \<open>The text between the brackets; the closing one may be missing.\<close>

definition array_body :: "string \<Rightarrow> string option" where
  "array_body s =
     (let s = trim s in
      if s = [] \<or> hd s \<noteq> CHR ''['' then None
      else let s = tl s in Some (if s \<noteq> [] \<and> last s = CHR '']'' then butlast s else s))"

definition parse_array :: "string \<Rightarrow> 'a cfg_state_scheme \<Rightarrow> (u64 \<times> u32) option \<times> 'a cfg_state_scheme" where
  "parse_array s st =
     (case array_body s of
        None \<Rightarrow> (None, st)
      | Some s \<Rightarrow>
          let (items, st) = k_kmalloc (ucast (array_cap s) * 4) st
          in if items = NULL then (None, st)
             else
               case array_loop s of
                 None \<Rightarrow> (None, k_kfree items st)
               | Some vs \<Rightarrow> (Some (items, of_nat (length vs)), st\<lparr>cfg_items := (cfg_items st)(items := vs)\<rparr>))"

definition str_body :: "string \<Rightarrow> string" where
  "str_body s =
     (let s = trim s
      in if 2 \<le> length s \<and> hd s = CHR 0x22 \<and> last s = CHR 0x22 then butlast (tl s) else s)"

definition parse_str_value :: "string \<Rightarrow> 'a cfg_state_scheme \<Rightarrow> u64 \<times> 'a cfg_state_scheme" where
  "parse_str_value s st = kstrndup (str_body s) st"

section \<open>Entries\<close>

definition upd_entry :: "u64 \<Rightarrow> (cfg_entry \<Rightarrow> cfg_entry) \<Rightarrow> 'a cfg_state_scheme \<Rightarrow> 'a cfg_state_scheme" where
  "upd_entry e f s = s\<lparr>cfg_entry_at := (cfg_entry_at s)(e := f (cfg_entry_at s e))\<rparr>"

definition cfg_entry_alloc :: "'a cfg_state_scheme \<Rightarrow> u64 \<times> 'a cfg_state_scheme" where
  "cfg_entry_alloc s =
     (let (e, s) = k_kmalloc CFG_ENTRY_SIZE s
      in if e = NULL then (NULL, s)
         else (e, upd_entry e (\<lambda>_. \<lparr>ce_name = NULL, ce_value = CFG_INT 0, ce_next = NULL\<rparr>) s))"

definition cfg_entry_free :: "u64 \<Rightarrow> 'a cfg_state_scheme \<Rightarrow> 'a cfg_state_scheme" where
  "cfg_entry_free e s =
     (if e = NULL then s
      else
        let s = k_kfree (ce_name (cfg_entry_at s e)) s;
            s = (case ce_value (cfg_entry_at s e) of
                   CFG_INT _ \<Rightarrow> s
                 | CFG_STR p \<Rightarrow> k_kfree p s
                 | CFG_ARRAY items _ \<Rightarrow> k_kfree items s)
        in k_kfree e s)"

text \<open>A line split into its name, its type and the text of its value.\<close>

definition split_line :: "string \<Rightarrow> (string \<times> string \<times> string) option" where
  "split_line line =
     (let line = skip_ws line in
      if line = [] then None
      else
        let nm = takeWhile (\<lambda>c. c \<noteq> CHR '':'' \<and> \<not> blank c) line;
            line = dropWhile (\<lambda>c. c \<noteq> CHR '':'' \<and> \<not> blank c) line
        in if line = [] \<or> nm = [] then None
           else
             let line = skip_ws line
             in if line = [] \<or> hd line \<noteq> CHR '':'' then None
                else
                  let line = skip_ws (tl line);
                      ty = takeWhile (\<lambda>c. c \<noteq> CHR ''='' \<and> \<not> blank c) line;
                      line = skip_ws (dropWhile (\<lambda>c. c \<noteq> CHR ''='' \<and> \<not> blank c) line)
                  in if line = [] \<or> hd line \<noteq> CHR ''='' then None else Some (nm, ty, tl line))"

definition parse_value :: "u64 \<Rightarrow> string \<Rightarrow> string \<Rightarrow> 'a cfg_state_scheme \<Rightarrow> u64 \<times> 'a cfg_state_scheme" where
  "parse_value e ty val s =
     (if ty = ''int''
      then
        case parse_int val of
          None \<Rightarrow> (NULL, cfg_entry_free e (upd_entry e (\<lambda>r. r\<lparr>ce_value := CFG_INT 0\<rparr>) s))
        | Some v \<Rightarrow> (e, upd_entry e (\<lambda>r. r\<lparr>ce_value := CFG_INT v\<rparr>) s)
      else if ty = ''str''
      then
        let (p, s) = parse_str_value val s;
            s = upd_entry e (\<lambda>r. r\<lparr>ce_value := CFG_STR p\<rparr>) s
        in if p = NULL then (NULL, cfg_entry_free e s) else (e, s)
      else if ty = ''array''
      then
        case parse_array val s of
          (None, s) \<Rightarrow> (NULL, cfg_entry_free e (upd_entry e (\<lambda>r. r\<lparr>ce_value := CFG_ARRAY NULL 0\<rparr>) s))
        | (Some (items, n), s) \<Rightarrow> (e, upd_entry e (\<lambda>r. r\<lparr>ce_value := CFG_ARRAY items n\<rparr>) s)
      else (NULL, cfg_entry_free e s))"

definition parse_line :: "string \<Rightarrow> 'a cfg_state_scheme \<Rightarrow> u64 \<times> 'a cfg_state_scheme" where
  "parse_line line s =
     (case split_line line of
        None \<Rightarrow> (NULL, s)
      | Some (nm, ty, val) \<Rightarrow>
          let (e, s) = cfg_entry_alloc s
          in if e = NULL then (NULL, s)
             else
               let (p, s) = kstrndup nm s
               in if p = NULL then (NULL, k_kfree e s)
                  else parse_value e ty val (upd_entry e (\<lambda>r. r\<lparr>ce_name := p\<rparr>) s))"

section \<open>Files\<close>

definition upd_cfg :: "u64 \<Rightarrow> (cfg \<Rightarrow> cfg) \<Rightarrow> 'a cfg_state_scheme \<Rightarrow> 'a cfg_state_scheme" where
  "upd_cfg c f s = s\<lparr>cfg_at := (cfg_at s)(c := f (cfg_at s c))\<rparr>"

text \<open>The new entry becomes the last of the list.\<close>

definition append_entry :: "u64 \<Rightarrow> u64 \<Rightarrow> u64 \<Rightarrow> 'a cfg_state_scheme \<Rightarrow> 'a cfg_state_scheme" where
  "append_entry c last_e e s =
     (let s = upd_entry e (\<lambda>r. r\<lparr>ce_next := NULL\<rparr>) s;
          s = (if last_e = NULL then upd_cfg c (\<lambda>r. r\<lparr>cf_entries := e\<rparr>) s
               else upd_entry last_e (\<lambda>r. r\<lparr>ce_next := e\<rparr>) s)
      in upd_cfg c (\<lambda>r. r\<lparr>cf_count := cf_count r + 1\<rparr>) s)"

definition line_text :: "string \<Rightarrow> string" where
  "line_text p = takeWhile (\<lambda>c. c \<noteq> CHR ''#'' \<and> c \<noteq> CHR '';'') (takeWhile (\<lambda>c. c \<noteq> CHR 0x0A) p)"

lemma length_skip_to_eol: "p \<noteq> [] \<Longrightarrow> hd p \<noteq> CHR 0x00 \<Longrightarrow> hd p \<noteq> CHR 0x0A \<Longrightarrow> length (skip_to_eol p) < length p"
  using length_dropWhile_le [of "\<lambda>c. c \<noteq> CHR 0x00 \<and> c \<noteq> CHR 0x0A" "tl p"]
  by (cases p) (auto simp: skip_to_eol_def less_Suc_eq_le)

lemma length_skip_ws: "length (skip_ws p) \<le> length p"
  by (simp add: skip_ws_def length_dropWhile_le)

function buf_loop :: "u64 \<Rightarrow> u64 \<Rightarrow> string \<Rightarrow> 'a cfg_state_scheme \<Rightarrow> 'a cfg_state_scheme" where
  "buf_loop c last_e p s =
     (let p = skip_ws p in
      if p = [] then s
      else if hd p = CHR 0x0A then buf_loop c last_e (tl p) s
      else if hd p = CHR ''#'' \<or> hd p = CHR '';'' then buf_loop c last_e (skip_to_eol p) s
      else
        let (e, s) = parse_line (line_text p) s;
            next_p = tl (dropWhile (\<lambda>c. c \<noteq> CHR 0x0A) p)
        in if e \<noteq> NULL then buf_loop c e next_p (append_entry c last_e e s) else buf_loop c last_e next_p s)"
  by pat_completeness auto
termination
proof (relation "measure (\<lambda>(c, last_e, p, s). length p)", goal_cases)
  case (2 c last_e p s x)
  then show ?case using length_skip_ws [of p] by (cases "skip_ws p") auto
next
  case (3 c last_e p s x)
  then show ?case using length_skip_ws [of p] length_skip_to_eol [of x] by auto
next
  case (4 c last_e p s x)
  then show ?case using length_skip_ws [of p] length_tl_dropWhile [of x "\<lambda>c. c \<noteq> CHR 0x0A"] by simp
next
  case (5 c last_e p s x)
  then show ?case using length_skip_ws [of p] length_tl_dropWhile [of x "\<lambda>c. c \<noteq> CHR 0x0A"] by simp
qed simp

declare buf_loop.simps [simp del]

definition cfg_parse_buf :: "string \<Rightarrow> 'a cfg_state_scheme \<Rightarrow> u64 \<times> 'a cfg_state_scheme" where
  "cfg_parse_buf buf s =
     (let (c, s) = k_kmalloc CFG_SIZE s
      in if c = NULL then (NULL, s)
         else (c, buf_loop c NULL buf (upd_cfg c (\<lambda>_. \<lparr>cf_entries = NULL, cf_count = 0\<rparr>) s)))"

text \<open>The bytes read into the buffer are the text.\<close>

definition cfg_parse_file ::
  "'a cfg_state_scheme driver_code \<Rightarrow> string option \<Rightarrow> 'a cfg_state_scheme \<Rightarrow> (u64 \<times> 'a cfg_state_scheme) option" where
  "cfg_parse_file code path s = do {
     (node, s) \<leftarrow> kopen code (thread_cred s) path s;
     if node = NULL then Some (NULL, s)
     else do {
       let sz = vn_size (vs_nodes s node);
       let (buf, s) = k_kmalloc (ucast (sz + 1)) s;
       if buf = NULL then do { s \<leftarrow> kclose code node s; Some (NULL, s) }
       else do {
         (got, s) \<leftarrow> vfs_read code node 0 sz buf s;
         s \<leftarrow> kclose code node s;
         let s = set_mem ((k_mem s)(buf + ucast got := 0)) s;
         let text = map (\<lambda>b. char_of (unat b)) (load_bytes (k_mem s) buf (unat got));
         let (c, s) = cfg_parse_buf text s;
         Some (c, k_kfree buf s)
       }
     }
   }"

partial_function (option) destroy_loop :: "u64 \<Rightarrow> 'a cfg_state_scheme \<Rightarrow> 'a cfg_state_scheme option" where
  "destroy_loop e s = (if e = NULL then Some s else destroy_loop (ce_next (cfg_entry_at s e)) (cfg_entry_free e s))"

definition cfg_destroy :: "u64 \<Rightarrow> 'a cfg_state_scheme \<Rightarrow> 'a cfg_state_scheme option" where
  "cfg_destroy c s =
     (if c = NULL then Some s
      else map_option (k_kfree c) (destroy_loop (cf_entries (cfg_at s c)) s))"

partial_function (option) get_loop :: "'a cfg_state_scheme \<Rightarrow> string \<Rightarrow> u64 \<Rightarrow> u64 option" where
  "get_loop s nm e =
     (if e = NULL then Some NULL
      else if c_text (cfg_text s (ce_name (cfg_entry_at s e))) = nm then Some e
      else get_loop s nm (ce_next (cfg_entry_at s e)))"

definition cfg_get :: "'a cfg_state_scheme \<Rightarrow> u64 \<Rightarrow> string \<Rightarrow> u64 option" where
  "cfg_get s c nm = get_loop s nm (cf_entries (cfg_at s c))"

definition cfg_get_int :: "'a cfg_state_scheme \<Rightarrow> u64 \<Rightarrow> string \<Rightarrow> u32 \<Rightarrow> u32 option" where
  "cfg_get_int s c nm fallback =
     map_option (\<lambda>e. if e = NULL then fallback else case ce_value (cfg_entry_at s e) of CFG_INT i \<Rightarrow> i | _ \<Rightarrow> fallback) (cfg_get s c nm)"

definition cfg_get_str :: "'a cfg_state_scheme \<Rightarrow> u64 \<Rightarrow> string \<Rightarrow> u64 \<Rightarrow> u64 option" where
  "cfg_get_str s c nm fallback =
     map_option (\<lambda>e. if e = NULL then fallback else case ce_value (cfg_entry_at s e) of CFG_STR p \<Rightarrow> p | _ \<Rightarrow> fallback) (cfg_get s c nm)"

definition cfg_get_array :: "'a cfg_state_scheme \<Rightarrow> u64 \<Rightarrow> string \<Rightarrow> (u64 \<times> u32) option option" where
  "cfg_get_array s c nm =
     map_option (\<lambda>e. if e = NULL then None else case ce_value (cfg_entry_at s e) of CFG_ARRAY items n \<Rightarrow> Some (items, n) | _ \<Rightarrow> None)
       (cfg_get s c nm)"

section \<open>What a text says\<close>

datatype setting = SInt u32 | SStr string | SArray "u32 list"

definition value_setting :: "string \<Rightarrow> string \<Rightarrow> setting option" where
  "value_setting ty val =
     (if ty = ''int'' then map_option SInt (parse_int val)
      else if ty = ''str'' then Some (SStr (str_body val))
      else if ty = ''array'' then map_option SArray (Option.bind (array_body val) array_loop)
      else None)"

definition line_setting :: "string \<Rightarrow> (string \<times> setting) option" where
  "line_setting line = do { (nm, ty, val) \<leftarrow> split_line line; v \<leftarrow> value_setting ty val; Some (nm, v) }"

function settings :: "string \<Rightarrow> (string \<times> setting) list" where
  "settings p =
     (let p = skip_ws p in
      if p = [] then []
      else if hd p = CHR 0x0A then settings (tl p)
      else if hd p = CHR ''#'' \<or> hd p = CHR '';'' then settings (skip_to_eol p)
      else (case line_setting (line_text p) of None \<Rightarrow> [] | Some x \<Rightarrow> [x]) @ settings (tl (dropWhile (\<lambda>c. c \<noteq> CHR 0x0A) p)))"
  by pat_completeness auto
termination
proof (relation "measure length", goal_cases)
  case (2 p x)
  then show ?case using length_skip_ws [of p] by (cases "skip_ws p") auto
next
  case (3 p x)
  then show ?case using length_skip_ws [of p] length_skip_to_eol [of x] by auto
next
  case (4 p x)
  then show ?case using length_skip_ws [of p] length_tl_dropWhile [of x "\<lambda>c. c \<noteq> CHR 0x0A"] by simp
qed simp

declare settings.simps [simp del]

text \<open>The first setting with the name.\<close>

definition setting_of :: "(string \<times> setting) list \<Rightarrow> string \<Rightarrow> setting option" where
  "setting_of xs nm = map_option snd (find (\<lambda>x. c_text (fst x) = nm) xs)"

section \<open>Memory\<close>

named_theorems cfg_frame \<open>what the operations keep\<close>

lemma k_holds_cfg [cfg_frame, simp]:
  "k_holds (s\<lparr>cfg_text := t\<rparr>) = k_holds s" "k_holds (s\<lparr>cfg_items := i\<rparr>) = k_holds s"
  "k_holds (s\<lparr>cfg_entry_at := h\<rparr>) = k_holds s" "k_holds (s\<lparr>cfg_at := j\<rparr>) = k_holds s"
  "k_holds (upd_entry e f s) = k_holds s" "k_holds (upd_cfg c g s) = k_holds s"
  by (simp_all add: k_holds_def mm_of_def fun_eq_iff upd_entry_def upd_cfg_def)

lemma mm_of_cfg [cfg_frame, simp]:
  "mm_of (s\<lparr>cfg_text := t\<rparr>) = mm_of s" "mm_of (s\<lparr>cfg_items := i\<rparr>) = mm_of s" "mm_of (upd_entry e f s) = mm_of s" "mm_of (upd_cfg c g s) = mm_of s"
  by (simp_all add: mm_of_def upd_entry_def upd_cfg_def)

lemma runs_cfg [simp]:
  "runs k s (t\<lparr>cfg_text := x\<rparr>) = runs k s t" "runs k s (t\<lparr>cfg_items := y\<rparr>) = runs k s t" "runs k s (upd_entry e f t) = runs k s t"
  "runs k (upd_entry e f s) t = runs k s t" "runs_out k (upd_entry e f s) = runs_out k s" "runs_out k (upd_cfg c g s) = runs_out k s"
  by (simp_all add: runs_def runs_out_def)

definition same_cfg :: "'a cfg_state_scheme \<Rightarrow> 'a cfg_state_scheme \<Rightarrow> bool" where
  "same_cfg s s' \<longleftrightarrow> cfg_text s' = cfg_text s \<and> cfg_items s' = cfg_items s \<and> cfg_entry_at s' = cfg_entry_at s \<and> cfg_at s' = cfg_at s"

lemma same_cfg_malloc: "k_kmalloc n s = (p, s') \<Longrightarrow> same_cfg s s'"
  by (auto simp: same_cfg_def k_kmalloc_def put_mm_def split: prod.splits)

lemma same_cfg_free: "same_cfg s (k_kfree p s)"
  by (simp add: same_cfg_def k_kfree_def put_mm_def)

lemma same_cfg_trans: "same_cfg s t \<Longrightarrow> same_cfg t u \<Longrightarrow> same_cfg s u"
  by (simp add: same_cfg_def)

lemma malloc_cases:
  assumes "k_holds s A" and "n \<noteq> 0" and "n \<le> 2048" and "k_kmalloc n s = (p, s')"
  obtains (none) "p = NULL" "k_holds s' A" "same_cfg s s'" "runs 1 s s'" "runs_out 1 s"
    | (object) "p \<noteq> NULL" "p \<notin> A" "k_holds s' (insert p A)" "same_cfg s s'" "runs 1 s s'"
  using small.malloc_holds [OF assms] same_cfg_malloc [OF assms(4)] runs_malloc [OF assms(4,2,3)] runs_out_now [of n s s'] assms(2-4) by blast

lemma small_size: "n < 2048 \<Longrightarrow> (of_nat (n + 1) :: u64) \<noteq> 0 \<and> (of_nat (n + 1) :: u64) \<le> 2048"
proof -
  assume n: "n < 2048"
  then have "unat (of_nat (n + 1) :: u64) = n + 1" by (intro unat_of_nat_u64) simp
  then show ?thesis using n by (auto simp: word_le_unat simp flip: unat_eq_0)
qed

lemma kstrndup_cases:
  assumes "k_holds s A" and "length t < 2048" and "kstrndup t s = (p, s')"
  obtains (none) "p = NULL" "k_holds s' A" "same_cfg s s'" "runs 1 s s'" "runs_out 1 s"
    | (copy) s1 where "p \<noteq> NULL" "p \<notin> A" "k_holds s1 (insert p A)" "same_cfg s s1" "s' = s1\<lparr>cfg_text := (cfg_text s)(p := t)\<rparr>" "runs 1 s s'"
proof -
  obtain q s1 where q: "k_kmalloc (of_nat (length t + 1)) s = (q, s1)" by fastforce
  from small_size [OF assms(2)] have n: "(of_nat (length t + 1) :: u64) \<noteq> 0" "(of_nat (length t + 1) :: u64) \<le> 2048" by blast+
  show thesis
  proof (rule malloc_cases [OF assms(1) n q], goal_cases)
    case 1
    then show thesis using assms(3) q by (intro that(1)) (simp_all add: kstrndup_def)
  next
    case 2
    then have "cfg_text s1 = cfg_text s" by (simp add: same_cfg_def)
    then show thesis using assms(3) q 2 by (intro that(2) [of s1]) (auto simp: kstrndup_def)
  qed
qed

text \<open>The objects an entry consists of.\<close>

definition value_ptrs :: "cfg_value \<Rightarrow> u64 list" where
  "value_ptrs v = (case v of CFG_INT _ \<Rightarrow> [] | CFG_STR p \<Rightarrow> [p] | CFG_ARRAY p _ \<Rightarrow> [p])"

definition entry_ptrs :: "'a cfg_state_scheme \<Rightarrow> u64 \<Rightarrow> u64 list" where
  "entry_ptrs s e = e # ce_name (cfg_entry_at s e) # value_ptrs (ce_value (cfg_entry_at s e))"

lemma entry_free_holds:
  assumes h: "k_holds s (A \<union> set (removeAll NULL (entry_ptrs s e)))" and e: "e \<noteq> NULL"
    and d: "distinct (removeAll NULL (entry_ptrs s e))" and fresh: "A \<inter> set (entry_ptrs s e) = {}"
  shows "k_holds (cfg_entry_free e s) A" and "same_cfg s (cfg_entry_free e s)" and "runs 0 s (cfg_entry_free e s)"
proof -
  let ?n = "ce_name (cfg_entry_at s e)" and ?v = "ce_value (cfg_entry_at s e)"
  have free: "k_holds (k_kfree p t) (B - {p}) \<and> runs 0 t (k_kfree p t)" if "k_holds t B" "p \<noteq> NULL \<Longrightarrow> p \<in> B" for t :: "'a cfg_state_scheme" and p B
    using that small.mfree_holds [of t B p] small.mfree_NULL [of t] small.holds_NULL [of t B] runs_free [of t B p] by (cases "p = NULL") auto
  have at: "cfg_entry_at (k_kfree p t) = cfg_entry_at t" for p and t :: "'a cfg_state_scheme"
    using same_cfg_free [of t p] by (simp add: same_cfg_def)
  let ?B = "A \<union> set (removeAll NULL (entry_ptrs s e))"
  have 1: "k_holds (k_kfree ?n s) (?B - {?n}) \<and> runs 0 s (k_kfree ?n s)" by (rule free [OF h]) (use e in \<open>auto simp: entry_ptrs_def\<close>)
  define s2 where "s2 = (case ?v of CFG_INT _ \<Rightarrow> k_kfree ?n s | CFG_STR p \<Rightarrow> k_kfree p (k_kfree ?n s) | CFG_ARRAY p _ \<Rightarrow> k_kfree p (k_kfree ?n s))"
  have 2: "k_holds s2 (?B - {?n} - set (value_ptrs ?v)) \<and> runs 0 s s2"
  proof (cases ?v)
    case (CFG_STR p)
    have "k_holds (k_kfree p (k_kfree ?n s)) (?B - {?n} - {p}) \<and> runs 0 (k_kfree ?n s) (k_kfree p (k_kfree ?n s))"
      by (rule free [OF conjunct1 [OF 1]]) (use d CFG_STR in \<open>auto simp: entry_ptrs_def value_ptrs_def split: if_splits\<close>)
    then show ?thesis using runs_trans [OF conjunct2 [OF 1]] by (fastforce simp: s2_def CFG_STR value_ptrs_def)
  next
    case (CFG_ARRAY p x)
    have "k_holds (k_kfree p (k_kfree ?n s)) (?B - {?n} - {p}) \<and> runs 0 (k_kfree ?n s) (k_kfree p (k_kfree ?n s))"
      by (rule free [OF conjunct1 [OF 1]]) (use d CFG_ARRAY in \<open>auto simp: entry_ptrs_def value_ptrs_def split: if_splits\<close>)
    then show ?thesis using runs_trans [OF conjunct2 [OF 1]] by (fastforce simp: s2_def CFG_ARRAY value_ptrs_def)
  qed (use 1 in \<open>simp add: s2_def value_ptrs_def\<close>)
  have eq: "cfg_entry_free e s = k_kfree e s2" using e by (simp add: cfg_entry_free_def s2_def at Let_def)
  have 3: "k_holds (k_kfree e s2) (?B - {?n} - set (value_ptrs ?v) - {e}) \<and> runs 0 s2 (k_kfree e s2)"
    by (rule free [OF conjunct1 [OF 2]]) (use d e in \<open>auto simp: entry_ptrs_def split: if_splits\<close>)
  moreover have "?B - {?n} - set (value_ptrs ?v) - {e} = A" using fresh by (auto simp: entry_ptrs_def)
  ultimately show "k_holds (cfg_entry_free e s) A" by (simp add: eq)
  show "runs 0 s (cfg_entry_free e s)" using runs_trans [OF conjunct2 [OF 2] conjunct2 [OF 3]] by (simp add: eq)
  have "same_cfg s s2" using same_cfg_free same_cfg_trans by (simp add: s2_def split: cfg_value.split) blast
  then show "same_cfg s (cfg_entry_free e s)" unfolding eq by (rule same_cfg_trans) (rule same_cfg_free)
qed

text \<open>The value of an entry is the setting.\<close>

fun value_is :: "'a cfg_state_scheme \<Rightarrow> cfg_value \<Rightarrow> setting \<Rightarrow> bool" where
  "value_is s (CFG_INT i) (SInt v) \<longleftrightarrow> i = v"
| "value_is s (CFG_STR p) (SStr t) \<longleftrightarrow> cfg_text s p = t"
| "value_is s (CFG_ARRAY p n) (SArray vs) \<longleftrightarrow> cfg_items s p = vs \<and> n = of_nat (length vs)"
| "value_is s _ _ \<longleftrightarrow> False"

definition entry_is :: "'a cfg_state_scheme \<Rightarrow> u64 \<Rightarrow> string \<times> setting \<Rightarrow> bool" where
  "entry_is s e x \<longleftrightarrow> cfg_text s (ce_name (cfg_entry_at s e)) = fst x \<and> value_is s (ce_value (cfg_entry_at s e)) (snd x)"

text \<open>The objects in \<open>A\<close> are left alone.\<close>

definition cfg_keeps :: "u64 set \<Rightarrow> 'a cfg_state_scheme \<Rightarrow> 'a cfg_state_scheme \<Rightarrow> bool" where
  "cfg_keeps A s s' \<longleftrightarrow> cfg_at s' = cfg_at s \<and>
     (\<forall>a\<in>A. cfg_text s' a = cfg_text s a \<and> cfg_items s' a = cfg_items s a \<and> cfg_entry_at s' a = cfg_entry_at s a)"

lemma cfg_keeps_same: "same_cfg s s' \<Longrightarrow> cfg_keeps A s s'"
  by (simp add: same_cfg_def cfg_keeps_def)

lemma cfg_keeps_refl: "cfg_keeps A s s"
  by (simp add: cfg_keeps_def)

lemma cfg_keeps_trans: "cfg_keeps A s t \<Longrightarrow> cfg_keeps A t u \<Longrightarrow> cfg_keeps A s u"
  by (simp add: cfg_keeps_def)

lemma cfg_keeps_mono: "cfg_keeps B s t \<Longrightarrow> A \<subseteq> B \<Longrightarrow> cfg_keeps A s t"
  by (auto simp: cfg_keeps_def)

lemma cfg_keeps_entry: "e \<notin> A \<Longrightarrow> cfg_keeps A s (upd_entry e f s)"
  by (auto simp: cfg_keeps_def upd_entry_def)

lemma cfg_keeps_text: "p \<notin> A \<Longrightarrow> cfg_keeps A s (s\<lparr>cfg_text := (cfg_text s)(p := t)\<rparr>)"
  by (auto simp: cfg_keeps_def)

lemma cfg_keeps_items: "p \<notin> A \<Longrightarrow> cfg_keeps A s (s\<lparr>cfg_items := (cfg_items s)(p := t)\<rparr>)"
  by (auto simp: cfg_keeps_def)

subsection \<open>Lengths\<close>

lemma length_trim: "length (trim s) \<le> length s"
  using length_dropWhile_le [of blank "rev (dropWhile blank s)"] length_dropWhile_le [of blank s] by (simp add: trim_def)

lemma length_str_body: "length (str_body s) \<le> length s"
  using length_trim [of s] by (auto simp: str_body_def Let_def)

lemma length_array_body: "array_body s = Some b \<Longrightarrow> length b \<le> length s"
  using length_trim [of s] by (auto simp: array_body_def Let_def split: if_splits)

lemma split_line_length: "split_line line = Some (nm, ty, val) \<Longrightarrow> length nm \<le> length line \<and> length val \<le> length line"
proof -
  assume sp: "split_line line = Some (nm, ty, val)"
  define l1 where "l1 = skip_ws line"
  define l2 where "l2 = dropWhile (\<lambda>c. c \<noteq> CHR '':'' \<and> \<not> blank c) l1"
  define l3 where "l3 = skip_ws (tl (skip_ws l2))"
  define l4 where "l4 = skip_ws (dropWhile (\<lambda>c. c \<noteq> CHR ''='' \<and> \<not> blank c) l3)"
  have "nm = takeWhile (\<lambda>c. c \<noteq> CHR '':'' \<and> \<not> blank c) l1" "val = tl l4"
    using sp by (auto simp: split_line_def Let_def l1_def l2_def l3_def l4_def split: if_splits)
  moreover have "length l1 \<le> length line" by (simp add: l1_def length_skip_ws)
  moreover have "length l2 \<le> length l1" by (simp add: l2_def length_dropWhile_le)
  moreover have "length l3 \<le> length l2" using length_skip_ws [of l2] length_skip_ws [of "tl (skip_ws l2)"] by (simp add: l3_def)
  moreover have "length l4 \<le> length l3"
    using length_skip_ws [of "dropWhile (\<lambda>c. c \<noteq> CHR ''='' \<and> \<not> blank c) l3"] length_dropWhile_le [of "\<lambda>c. c \<noteq> CHR ''='' \<and> \<not> blank c" l3]
    by (simp add: l4_def)
  ultimately show ?thesis using length_takeWhile_le [of "\<lambda>c. c \<noteq> CHR '':'' \<and> \<not> blank c" l1] by simp
qed

lemma array_cap_size:
  assumes "length b < 500"
  shows "(ucast (array_cap b) * 4 :: u64) \<noteq> 0 \<and> (ucast (array_cap b) * 4 :: u64) \<le> 2048"
proof -
  let ?n = "length (filter (\<lambda>c. c = CHR '','') b)"
  have n: "?n < 500" using length_filter_le [of "\<lambda>c. c = CHR '','' " b] assms by linarith
  have "array_cap b = of_nat (1 + ?n)" by (simp add: array_cap_def)
  moreover have "unat (of_nat (1 + ?n) :: u32) = 1 + ?n" using n by (intro unat_of_nat_u32) simp
  ultimately have "unat (array_cap b) = 1 + ?n" by simp
  then have "unat (ucast (array_cap b) :: u64) = 1 + ?n" by (simp only: unat_ucast_u32_u64)
  then have "unat (ucast (array_cap b) * 4 :: u64) = (1 + ?n) * 4" using n unat_mult_u64 [of "ucast (array_cap b)" 4] by simp
  then show ?thesis using n by (auto simp: word_le_unat simp flip: unat_eq_0)
qed

subsection \<open>One line\<close>

text \<open>An entry that has its name and no value yet, beside the objects in \<open>A\<close>; and one that has its value.\<close>

definition fresh_entry :: "u64 set \<Rightarrow> u64 \<Rightarrow> u64 \<Rightarrow> 'a cfg_state_scheme \<Rightarrow> bool" where
  "fresh_entry A e p s \<longleftrightarrow> k_holds s (insert e (insert p A)) \<and> e \<noteq> NULL \<and> p \<noteq> NULL \<and> e \<noteq> p \<and> e \<notin> A \<and> p \<notin> A \<and>
     cfg_entry_at s e = \<lparr>ce_name = p, ce_value = CFG_INT 0, ce_next = NULL\<rparr>"

definition full_entry :: "u64 set \<Rightarrow> u64 \<Rightarrow> string \<Rightarrow> setting \<Rightarrow> 'a cfg_state_scheme \<Rightarrow> bool" where
  "full_entry A e nm v s \<longleftrightarrow> entry_is s e (nm, v) \<and> distinct (entry_ptrs s e) \<and> NULL \<notin> set (entry_ptrs s e) \<and>
     A \<inter> set (entry_ptrs s e) = {} \<and> k_holds s (A \<union> set (entry_ptrs s e))"

lemma fresh_entry_fail:
  assumes fresh: "fresh_entry A e p s" and t: "k_holds t (insert e (insert p A))" "cfg_keeps A s t" "runs k s t"
    and ptrs: "entry_ptrs t e = e # p # qs" "set qs \<subseteq> {NULL}"
  shows "cfg_keeps A s (cfg_entry_free e t) \<and> k_holds (cfg_entry_free e t) A \<and> runs k s (cfg_entry_free e t)"
proof -
  have ptr: "e \<noteq> NULL" "p \<noteq> NULL" "e \<noteq> p" "e \<notin> A" "p \<notin> A" using fresh by (simp_all add: fresh_entry_def)
  have qs: "removeAll NULL qs = []" using ptrs(2) by (induction qs) auto
  have "NULL \<notin> A" using small.holds_NULL [OF t(1)] by simp
  then have "A \<inter> set (entry_ptrs t e) = {}" using ptrs ptr by auto
  moreover have "k_holds t (A \<union> set (removeAll NULL (entry_ptrs t e)))"
    using t(1) ptrs(1) qs ptr by (simp add: insert_commute)
  moreover have "distinct (removeAll NULL (entry_ptrs t e))" using ptrs(1) qs ptr by simp
  ultimately have "k_holds (cfg_entry_free e t) A" "same_cfg t (cfg_entry_free e t)" "runs 0 t (cfg_entry_free e t)"
    using entry_free_holds [of t A e] ptr(1) by simp_all
  then show ?thesis using cfg_keeps_trans [OF t(2) cfg_keeps_same] runs_trans [OF t(3)] by fastforce
qed

lemma upd_value_ptrs:
  "cfg_entry_at t e = \<lparr>ce_name = p, ce_value = CFG_INT 0, ce_next = NULL\<rparr> \<Longrightarrow>
     entry_ptrs (upd_entry e (\<lambda>r. r\<lparr>ce_value := v\<rparr>) t) e = e # p # value_ptrs v"
  by (simp add: entry_ptrs_def upd_entry_def)

lemma parse_value_int:
  assumes fresh: "fresh_entry A e p s" and nm: "cfg_text s p = nm" and parse: "parse_value e ''int'' val s = (r, s')"
  shows "cfg_keeps A s s' \<and> runs 1 s s' \<and> (r = NULL \<and> k_holds s' A \<and> (value_setting ''int'' val = None \<or> runs_out 1 s) \<or>
    r = e \<and> (\<exists>v. value_setting ''int'' val = Some v \<and> full_entry A e nm v s'))"
proof -
  have ent: "cfg_entry_at s e = \<lparr>ce_name = p, ce_value = CFG_INT 0, ce_next = NULL\<rparr>" and h: "k_holds s (insert e (insert p A))"
    and ptr: "e \<noteq> NULL" "p \<noteq> NULL" "e \<noteq> p" "e \<notin> A" "p \<notin> A" using fresh by (simp_all add: fresh_entry_def)
  let ?t = "\<lambda>v. upd_entry e (\<lambda>r. r\<lparr>ce_value := v\<rparr>) s"
  have k: "cfg_keeps A s (?t v)" for v by (rule cfg_keeps_entry [OF ptr(4)])
  have pt: "entry_ptrs (?t (CFG_INT i)) e = e # p # []" for i using upd_value_ptrs [OF ent] by (simp add: value_ptrs_def)
  have rn: "runs 1 s (?t v)" for v using runs_mono [OF runs_same [OF refl, of s]] by simp
  show ?thesis
  proof (cases "parse_int val")
    case None
    then have "r = NULL" "s' = cfg_entry_free e (?t (CFG_INT 0))" using parse by (simp_all add: parse_value_def)
    then show ?thesis using fresh_entry_fail [OF fresh, of "?t (CFG_INT 0)", OF _ k rn pt] h None by (simp add: value_setting_def)
  next
    case (Some v)
    then have r: "r = e" "s' = ?t (CFG_INT v)" using parse by (auto simp: parse_value_def)
    have "full_entry A e nm (SInt v) (?t (CFG_INT v))"
      using pt [of v] h ptr nm unfolding full_entry_def by (simp add: entry_is_def upd_entry_def ent insert_commute)
    then show ?thesis using r k rn Some by (simp add: value_setting_def)
  qed
qed

lemma parse_value_str:
  assumes fresh: "fresh_entry A e p s" and nm: "cfg_text s p = nm" and val: "length val < 500"
    and parse: "parse_value e ''str'' val s = (r, s')"
  shows "cfg_keeps A s s' \<and> runs 1 s s' \<and> (r = NULL \<and> k_holds s' A \<and> (value_setting ''str'' val = None \<or> runs_out 1 s) \<or>
    r = e \<and> (\<exists>v. value_setting ''str'' val = Some v \<and> full_entry A e nm v s'))"
proof -
  have ent: "cfg_entry_at s e = \<lparr>ce_name = p, ce_value = CFG_INT 0, ce_next = NULL\<rparr>" and h: "k_holds s (insert e (insert p A))"
    and ptr: "e \<noteq> NULL" "p \<noteq> NULL" "e \<noteq> p" "e \<notin> A" "p \<notin> A" using fresh by (simp_all add: fresh_entry_def)
  obtain q t where q: "kstrndup (str_body val) s = (q, t)" by fastforce
  let ?t = "upd_entry e (\<lambda>r. r\<lparr>ce_value := CFG_STR q\<rparr>) t"
  have len: "length (str_body val) < 2048" using length_str_body [of val] val by simp
  show ?thesis
  proof (rule kstrndup_cases [OF h len q], goal_cases)
    case 1
    have "cfg_entry_at t e = \<lparr>ce_name = p, ce_value = CFG_INT 0, ce_next = NULL\<rparr>" using 1 ent by (simp add: same_cfg_def)
    from upd_value_ptrs [OF this] have pt: "entry_ptrs ?t e = e # p # [NULL]" using 1 by (simp add: value_ptrs_def)
    have k: "cfg_keeps A s ?t" by (rule cfg_keeps_trans [OF cfg_keeps_same [OF 1(3)] cfg_keeps_entry [OF ptr(4)]])
    have "r = NULL" "s' = cfg_entry_free e ?t" using parse q 1(1) by (simp_all add: parse_value_def parse_str_value_def)
    then show ?thesis using fresh_entry_fail [OF fresh _ k _ pt, of 1] 1 by simp
  next
    case (2 s1)
    have at: "cfg_entry_at t = cfg_entry_at s" "cfg_text t = (cfg_text s)(q := str_body val)" using 2 by (simp_all add: same_cfg_def)
    have r: "r = e" "s' = ?t" using parse q 2(1) by (auto simp: parse_value_def parse_str_value_def)
    have pt: "entry_ptrs ?t e = [e, p, q]" using upd_value_ptrs [of t e p] ent at by (simp add: value_ptrs_def)
    have "cfg_keeps A s1 t" using 2(2,4,5) cfg_keeps_text [of q A s1] by (simp add: same_cfg_def)
    then have k: "cfg_keeps A s ?t" by (rule cfg_keeps_trans [OF cfg_keeps_trans [OF cfg_keeps_same [OF 2(4)]] cfg_keeps_entry [OF ptr(4)]])
    have "full_entry A e nm (SStr (str_body val)) ?t"
      using pt 2 ptr nm ent at unfolding full_entry_def by (auto simp: entry_is_def upd_entry_def insert_commute)
    then show ?thesis using r k 2(6) by (simp add: value_setting_def)
  qed
qed

lemma parse_array_cases:
  assumes h: "k_holds s A" and val: "length val < 500" and pa: "parse_array val s = (x, t)"
  obtains (none) "x = None" "k_holds t A" "same_cfg s t" "runs 1 s t" "Option.bind (array_body val) array_loop = None \<or> runs_out 1 s"
    | (items) q vs t1 where "x = Some (q, of_nat (length vs))" "Option.bind (array_body val) array_loop = Some vs" "q \<noteq> NULL" "q \<notin> A"
        "k_holds t1 (insert q A)" "same_cfg s t1" "t = t1\<lparr>cfg_items := (cfg_items s)(q := vs)\<rparr>" "runs 1 s t"
proof (cases "array_body val")
  case None
  then show thesis using pa h runs_mono [OF runs_same [OF refl, of s]] by (intro that(1)) (simp_all add: parse_array_def same_cfg_def)
next
  case (Some b)
  obtain q t1 where q: "k_kmalloc (ucast (array_cap b) * 4) s = (q, t1)" by fastforce
  have "length b < 500" using length_array_body [OF Some] val by simp
  from array_cap_size [OF this] have sz: "(ucast (array_cap b) * 4 :: u64) \<noteq> 0" "(ucast (array_cap b) * 4 :: u64) \<le> 2048" by blast+
  show thesis
  proof (rule malloc_cases [OF h sz q], goal_cases)
    case 1
    then show thesis using pa Some q by (intro that(1)) (simp_all add: parse_array_def)
  next
    case 2
    show thesis
    proof (cases "array_loop b")
      case None
      then have "x = None" "t = k_kfree q t1" using pa Some q 2 by (simp_all add: parse_array_def)
      moreover have "runs (1 + 0) s (k_kfree q t1)" by (rule runs_trans [OF 2(5) runs_free [OF 2(3)]]) simp
      ultimately show thesis using small.mfree_new [OF 2(3,2)] same_cfg_trans [OF 2(4) same_cfg_free] \<open>array_body val = Some b\<close> None
        by (intro that(1)) simp_all
    next
      case (Some vs)
      then have "x = Some (q, of_nat (length vs))" "t = t1\<lparr>cfg_items := (cfg_items s)(q := vs)\<rparr>"
        using pa \<open>array_body val = Some b\<close> q 2 by (simp_all add: parse_array_def same_cfg_def)
      then show thesis using 2 Some \<open>array_body val = Some b\<close> by (intro that(2) [of q vs t1]) simp_all
    qed
  qed
qed

lemma parse_value_array:
  assumes fresh: "fresh_entry A e p s" and nm: "cfg_text s p = nm" and val: "length val < 500"
    and parse: "parse_value e ''array'' val s = (r, s')"
  shows "cfg_keeps A s s' \<and> runs 1 s s' \<and> (r = NULL \<and> k_holds s' A \<and> (value_setting ''array'' val = None \<or> runs_out 1 s) \<or>
    r = e \<and> (\<exists>v. value_setting ''array'' val = Some v \<and> full_entry A e nm v s'))"
proof -
  have ent: "cfg_entry_at s e = \<lparr>ce_name = p, ce_value = CFG_INT 0, ce_next = NULL\<rparr>" and h: "k_holds s (insert e (insert p A))"
    and ptr: "e \<noteq> NULL" "p \<noteq> NULL" "e \<noteq> p" "e \<notin> A" "p \<notin> A" using fresh by (simp_all add: fresh_entry_def)
  obtain x t where pa: "parse_array val s = (x, t)" by fastforce
  show ?thesis
  proof (rule parse_array_cases [OF h val pa], goal_cases)
    case 1
    let ?t = "upd_entry e (\<lambda>r. r\<lparr>ce_value := CFG_ARRAY NULL 0\<rparr>) t"
    have pt: "entry_ptrs ?t e = e # p # [NULL]" using upd_value_ptrs [of t e p] ent 1(3) by (simp add: same_cfg_def value_ptrs_def)
    have k: "cfg_keeps A s ?t" by (rule cfg_keeps_trans [OF cfg_keeps_same [OF 1(3)] cfg_keeps_entry [OF ptr(4)]])
    have "r = NULL" "s' = cfg_entry_free e ?t" using parse pa 1(1) by (simp_all add: parse_value_def)
    then show ?thesis using fresh_entry_fail [OF fresh _ k _ pt, of 1] 1 by (auto simp: value_setting_def)
  next
    case (2 q vs t1)
    let ?t = "upd_entry e (\<lambda>r. r\<lparr>ce_value := CFG_ARRAY q (of_nat (length vs))\<rparr>) t"
    have r: "r = e" "s' = ?t" using parse pa 2(1) by (auto simp: parse_value_def)
    have at: "cfg_entry_at t = cfg_entry_at s" "cfg_text t = cfg_text s" "cfg_items t = (cfg_items s)(q := vs)"
      using 2(6,7) by (simp_all add: same_cfg_def)
    have pt: "entry_ptrs ?t e = [e, p, q]" using upd_value_ptrs [of t e p] ent at by (simp add: value_ptrs_def)
    have "cfg_keeps A t1 t" using 2 cfg_keeps_items [of q A t1] by (simp add: same_cfg_def)
    then have k: "cfg_keeps A s ?t" by (rule cfg_keeps_trans [OF cfg_keeps_trans [OF cfg_keeps_same [OF 2(6)]] cfg_keeps_entry [OF ptr(4)]])
    have "full_entry A e nm (SArray vs) ?t"
      using pt 2 ptr nm ent at unfolding full_entry_def by (auto simp: entry_is_def upd_entry_def insert_commute)
    then show ?thesis using r k 2(2,8) by (simp add: value_setting_def)
  qed
qed

lemma parse_value_holds:
  assumes fresh: "fresh_entry A e p s" and nm: "cfg_text s p = nm" and val: "length val < 500"
    and parse: "parse_value e ty val s = (r, s')"
  shows "cfg_keeps A s s' \<and> runs 1 s s' \<and> (r = NULL \<and> k_holds s' A \<and> (value_setting ty val = None \<or> runs_out 1 s) \<or>
    r = e \<and> (\<exists>v. value_setting ty val = Some v \<and> full_entry A e nm v s'))"
proof -
  consider (int) "ty = ''int''" | (str) "ty = ''str''" | (arr) "ty = ''array''" | (other) "ty \<noteq> ''int''" "ty \<noteq> ''str''" "ty \<noteq> ''array''" by blast
  then show ?thesis
  proof cases
    case other
    then have "r = NULL" "s' = cfg_entry_free e s" using parse by (simp_all add: parse_value_def)
    then show ?thesis
      using fresh_entry_fail [OF fresh _ cfg_keeps_refl runs_mono [OF runs_same [OF refl]], of 1 "[]"] fresh other
      by (simp add: entry_ptrs_def fresh_entry_def value_ptrs_def value_setting_def)
  next
    case int
    show ?thesis using parse unfolding int by (rule parse_value_int [OF fresh nm])
  next
    case str
    show ?thesis using parse unfolding str by (rule parse_value_str [OF fresh nm val])
  next
    case arr
    show ?thesis using parse unfolding arr by (rule parse_value_array [OF fresh nm val])
  qed
qed

lemma parse_line_holds:
  assumes h: "k_holds s A" and len: "length line < 500" and parse: "parse_line line s = (e, s')"
  shows "cfg_keeps A s s' \<and> runs 3 s s' \<and> (e = NULL \<and> k_holds s' A \<and> (line_setting line = None \<or> runs_out 3 s) \<or>
    e \<noteq> NULL \<and> (\<exists>nm v. line_setting line = Some (nm, v) \<and> full_entry A e nm v s'))"
proof (cases "split_line line")
  case None
  then show ?thesis using parse h cfg_keeps_refl runs_mono [OF runs_same [OF refl, of s]] by (simp add: parse_line_def line_setting_def)
next
  case (Some x)
  obtain nm ty val where x: "split_line line = Some (nm, ty, val)" using Some by (cases x) auto
  have len': "length nm < 2048" "length val < 500" using split_line_length [OF x] len by simp_all
  obtain e1 s1 where e1: "k_kmalloc CFG_ENTRY_SIZE s = (e1, s1)" by fastforce
  have sz: "CFG_ENTRY_SIZE \<noteq> 0" "CFG_ENTRY_SIZE \<le> 2048" by (simp_all add: CFG_ENTRY_SIZE_def)
  let ?s2 = "upd_entry e1 (\<lambda>_. \<lparr>ce_name = NULL, ce_value = CFG_INT 0, ce_next = NULL\<rparr>) s1"
  show ?thesis
  proof (rule malloc_cases [OF h sz e1], goal_cases)
    case 1
    then show ?thesis using parse x e1 cfg_keeps_same runs_mono [of 1 s s1 3] runs_out_mono [of 1 s 3] by (simp add: parse_line_def cfg_entry_alloc_def)
  next
    case entry: 2
    have alloc: "cfg_entry_alloc s = (e1, ?s2)" using e1 entry by (simp add: cfg_entry_alloc_def)
    have h2: "k_holds ?s2 (insert e1 A)" using entry by simp
    have k2: "cfg_keeps A s ?s2" by (rule cfg_keeps_trans [OF cfg_keeps_same [OF entry(4)] cfg_keeps_entry [OF entry(2)]])
    have r2: "runs 1 s ?s2" using entry(5) by simp
    obtain p s3 where p: "kstrndup nm ?s2 = (p, s3)" by fastforce
    show ?thesis
    proof (rule kstrndup_cases [OF h2 len'(1) p], goal_cases)
      case 1
      then have "e = NULL" "s' = k_kfree e1 s3" using parse x alloc entry p by (simp_all add: parse_line_def)
      moreover have "runs (1 + 1 + 0) s (k_kfree e1 s3)"
        by (rule runs_trans [OF runs_trans [OF r2 1(4)] runs_free [OF 1(2)]]) simp
      ultimately show ?thesis
        using small.mfree_new [OF 1(2) entry(2)] cfg_keeps_trans [OF k2 cfg_keeps_same [OF same_cfg_trans [OF 1(3) same_cfg_free]]]
          runs_out_later [OF r2 1(5)] runs_mono [of "1 + 1 + 0" s _ 3] runs_out_mono [of "1 + 1" s 3] by simp
    next
      case (2 s4)
      let ?s5 = "upd_entry e1 (\<lambda>r. r\<lparr>ce_name := p\<rparr>) s3"
      have "cfg_entry_at s3 e1 = \<lparr>ce_name = NULL, ce_value = CFG_INT 0, ce_next = NULL\<rparr>" "cfg_text s3 p = nm"
        using 2(4,5) by (simp_all add: same_cfg_def upd_entry_def)
      then have fresh: "fresh_entry A e1 p ?s5" and nm: "cfg_text ?s5 p = nm"
        using 2 entry by (auto simp: fresh_entry_def upd_entry_def insert_commute)
      have r5: "runs (1 + 1) s ?s5" using runs_trans [OF r2 2(6)] by simp
      have "cfg_keeps A s4 s3" using 2 cfg_keeps_text [of p A s4] by (simp add: same_cfg_def)
      then have k5: "cfg_keeps A s ?s5"
        by (intro cfg_keeps_trans [OF _ cfg_keeps_entry [OF entry(2)]] cfg_keeps_trans [OF cfg_keeps_trans [OF k2 cfg_keeps_same [OF 2(4)]]])
      have "parse_value e1 ty val ?s5 = (e, s')" using parse x alloc entry p 2 by (simp add: parse_line_def)
      from parse_value_holds [OF fresh nm len'(2) this] show ?thesis
        using cfg_keeps_trans [OF k5] runs_trans [OF r5, of 1 s'] runs_out_later [OF r5, of 1] entry(1) x
        by (auto simp: line_setting_def numeral_3_eq_3 numeral_2_eq_2)
    qed
  qed
qed

subsection \<open>The list of entries\<close>

abbreviation next_entry :: "'a cfg_state_scheme \<Rightarrow> u64 \<Rightarrow> u64" where
  "next_entry s e \<equiv> ce_next (cfg_entry_at s e)"

definition list_ptrs :: "'a cfg_state_scheme \<Rightarrow> u64 list \<Rightarrow> u64 list" where
  "list_ptrs s es = concat (map (entry_ptrs s) es)"

definition cfg_links :: "u64 set \<Rightarrow> u64 \<Rightarrow> u64 list \<Rightarrow> (string \<times> setting) list \<Rightarrow> 'a cfg_state_scheme \<Rightarrow> bool" where
  "cfg_links A c es xs s \<longleftrightarrow> distinct (list_ptrs s es) \<and> A \<inter> set (list_ptrs s es) = {} \<and>
     list_all2 (entry_is s) es xs \<and> elist (next_entry s) (cf_entries (cfg_at s c)) es \<and> cf_count (cfg_at s c) = of_nat (length es)"

text \<open>The live objects are those of \<open>A\<close> and those of the entries, and no others.\<close>

definition cfg_rep :: "u64 set \<Rightarrow> u64 \<Rightarrow> u64 list \<Rightarrow> (string \<times> setting) list \<Rightarrow> 'a cfg_state_scheme \<Rightarrow> bool" where
  "cfg_rep A c es xs s \<longleftrightarrow> k_holds s (A \<union> set (list_ptrs s es)) \<and> cfg_links A c es xs s"

lemma set_list_ptrs: "set (list_ptrs s es) = (\<Union>e\<in>set es. set (entry_ptrs s e))"
  by (auto simp: list_ptrs_def)

lemma cfg_keeps_entry_ptrs: "cfg_keeps B s s' \<Longrightarrow> e \<in> B \<Longrightarrow> entry_ptrs s' e = entry_ptrs s e"
  by (simp add: cfg_keeps_def entry_ptrs_def)

lemma cfg_keeps_list_ptrs: "cfg_keeps B s s' \<Longrightarrow> set es \<subseteq> B \<Longrightarrow> list_ptrs s' es = list_ptrs s es"
  unfolding list_ptrs_def by (rule arg_cong [where f = concat], rule map_cong [OF refl]) (rule cfg_keeps_entry_ptrs, blast+)

lemma cfg_keeps_entry_is:
  assumes "cfg_keeps B s s'" and "set (entry_ptrs s e) \<subseteq> B"
  shows "entry_is s' e x = entry_is s e x"
proof -
  have e: "cfg_entry_at s' e = cfg_entry_at s e" "cfg_text s' (ce_name (cfg_entry_at s e)) = cfg_text s (ce_name (cfg_entry_at s e))"
    using assms by (auto simp: cfg_keeps_def entry_ptrs_def)
  have "value_is s' v y = value_is s v y" if "set (value_ptrs v) \<subseteq> B" for v y
    using assms(1) that by (cases "(s, v, y)" rule: value_is.cases) (auto simp: cfg_keeps_def value_ptrs_def)
  then show ?thesis using assms(2) e by (simp add: entry_is_def entry_ptrs_def)
qed

lemma cfg_links_keeps:
  assumes rep: "cfg_links A c es xs s" and keeps: "cfg_keeps (A \<union> set (list_ptrs s es)) s s'"
  shows "cfg_links A c es xs s'" and "list_ptrs s' es = list_ptrs s es"
proof -
  have sub: "set (entry_ptrs s e) \<subseteq> A \<union> set (list_ptrs s es)" if "e \<in> set es" for e using that by (auto simp: set_list_ptrs)
  have mem: "set es \<subseteq> A \<union> set (list_ptrs s es)" by (auto simp: set_list_ptrs entry_ptrs_def)
  show pt: "list_ptrs s' es = list_ptrs s es" by (rule cfg_keeps_list_ptrs [OF keeps mem])
  have "list_all2 (entry_is s') es xs = list_all2 (entry_is s) es xs"
    by (rule list.rel_cong) (use cfg_keeps_entry_is [OF keeps sub] in auto)
  moreover have "elist (next_entry s') p es = elist (next_entry s) p es" for p
    by (rule elist_cong) (use keeps mem in \<open>auto simp: cfg_keeps_def\<close>)
  ultimately show "cfg_links A c es xs s'" using rep keeps by (simp add: cfg_links_def pt cfg_keeps_def)
qed

lemma cfg_rep_keeps:
  "cfg_rep A c es xs s \<Longrightarrow> cfg_keeps (A \<union> set (list_ptrs s es)) s s' \<Longrightarrow> k_holds s' (A \<union> set (list_ptrs s es)) \<Longrightarrow> cfg_rep A c es xs s'"
  using cfg_links_keeps [of A c es xs s s'] by (simp add: cfg_rep_def)

text \<open>Changing the links keeps what the entries say.\<close>

definition relinked_cfg :: "'a cfg_state_scheme \<Rightarrow> 'a cfg_state_scheme \<Rightarrow> bool" where
  "relinked_cfg s s' \<longleftrightarrow> cfg_text s' = cfg_text s \<and> cfg_items s' = cfg_items s \<and> k_holds s' = k_holds s \<and>
     (\<forall>e. ce_name (cfg_entry_at s' e) = ce_name (cfg_entry_at s e) \<and> ce_value (cfg_entry_at s' e) = ce_value (cfg_entry_at s e))"

lemma relinked_same:
  assumes "relinked_cfg s s'"
  shows "entry_ptrs s' e = entry_ptrs s e" "entry_is s' = entry_is s" "list_ptrs s' es = list_ptrs s es"
proof -
  have "value_is s' v y = value_is s v y" for v y
    using assms by (cases "(s, v, y)" rule: value_is.cases) (auto simp: relinked_cfg_def)
  then show "entry_is s' = entry_is s" using assms by (simp add: relinked_cfg_def entry_is_def fun_eq_iff)
  have "entry_ptrs s' = entry_ptrs s" using assms by (simp add: relinked_cfg_def entry_ptrs_def fun_eq_iff)
  then show "entry_ptrs s' e = entry_ptrs s e" "list_ptrs s' es = list_ptrs s es" by (simp_all add: list_ptrs_def)
qed

lemma relinked_append: "relinked_cfg s (append_entry c last_e e s)"
  by (simp add: relinked_cfg_def append_entry_def upd_entry_def upd_cfg_def Let_def)

lemma elist_snoc:
  assumes "elist nx p es" and "distinct es" and "x \<notin> set es" and "x \<noteq> NULL"
  shows "elist ((nx(x := NULL))(last es := x)) p (es @ [x]) \<or> es = []"
  using assms
proof (induction es arbitrary: p)
  case (Cons e es)
  show ?case
  proof (cases "es = []")
    case True
    then show ?thesis using Cons.prems by auto
  next
    case False
    then have "last es \<noteq> e" using Cons.prems(2) by auto
    then show ?thesis using Cons False by auto
  qed
qed simp

lemma append_entry_rep:
  assumes rep: "cfg_links A c es xs s" and full: "full_entry (A \<union> set (list_ptrs s es)) e nm v s"
    and l: "last_e = (if es = [] then NULL else last es)"
  shows "cfg_rep A c (es @ [e]) (xs @ [(nm, v)]) (append_entry c last_e e s)"
proof -
  let ?s = "append_entry c last_e e s"
  note same = relinked_same [OF relinked_append [of s c last_e e]]
  have e: "e \<noteq> NULL" "e \<notin> set es" and pt: "distinct (entry_ptrs s e)" "(A \<union> set (list_ptrs s es)) \<inter> set (entry_ptrs s e) = {}"
    using full by (auto simp: full_entry_def set_list_ptrs entry_ptrs_def)
  have sub: "set es \<subseteq> set (list_ptrs s es)" by (auto simp: set_list_ptrs entry_ptrs_def)
  have d: "distinct es"
  proof -
    have "distinct (concat (map (entry_ptrs s) zs)) \<Longrightarrow> distinct zs" for zs
      by (induction zs) (auto simp: entry_ptrs_def)
    then show ?thesis using rep by (simp add: cfg_links_def list_ptrs_def)
  qed
  have el: "elist (next_entry s) (cf_entries (cfg_at s c)) es" using rep by (simp add: cfg_links_def)
  have list: "elist (next_entry ?s) (cf_entries (cfg_at ?s c)) (es @ [e])"
  proof (cases "es = []")
    case True
    then show ?thesis using l e by (simp add: append_entry_def upd_entry_def upd_cfg_def)
  next
    case False
    then have le: "last_e = last es" "last es \<in> set es" using l by simp_all
    then have "last_e \<noteq> NULL" "last_e \<noteq> e" using elist_NULL [OF el] e by auto
    then have "next_entry ?s = (next_entry s)(e := NULL, last es := e)" "cf_entries (cfg_at ?s c) = cf_entries (cfg_at s c)"
      using le by (auto simp: append_entry_def upd_entry_def upd_cfg_def fun_eq_iff)
    then show ?thesis using elist_snoc [OF el d e(2,1)] False by simp
  qed
  have ptrs: "list_ptrs s (es @ [e]) = list_ptrs s es @ entry_ptrs s e" by (simp add: list_ptrs_def)
  have "k_holds ?s (A \<union> set (list_ptrs ?s (es @ [e])))"
    using full unfolding same ptrs by (simp add: full_entry_def Un_assoc append_entry_def Let_def)
  moreover have "list_all2 (entry_is ?s) (es @ [e]) (xs @ [(nm, v)])"
    using rep full unfolding same by (simp add: cfg_links_def full_entry_def list_all2_appendI)
  moreover have "cf_count (cfg_at ?s c) = of_nat (length (es @ [e]))"
    using rep by (simp add: cfg_links_def append_entry_def upd_entry_def upd_cfg_def Let_def)
  ultimately show ?thesis using list pt rep unfolding cfg_rep_def cfg_links_def same ptrs by auto
qed

text \<open>Lines are shorter than 500 characters.\<close>

definition short_lines :: "string \<Rightarrow> bool" where
  "short_lines p \<longleftrightarrow> (\<forall>line. sublist line p \<and> CHR 0x0A \<notin> set line \<longrightarrow> length line < 500)"

lemma short_lines_suffix: "short_lines p \<Longrightarrow> suffix q p \<Longrightarrow> short_lines q"
  unfolding short_lines_def by (meson suffix_imp_sublist sublist_order.order_trans)

lemma short_line_text: "short_lines p \<Longrightarrow> length (line_text p) < 500"
proof -
  assume sh: "short_lines p"
  let ?l = "takeWhile (\<lambda>c. c \<noteq> CHR 0x0A) p"
  have "sublist ?l p" by (intro prefix_imp_sublist takeWhile_is_prefix)
  moreover have "CHR 0x0A \<notin> set ?l" by (auto dest: set_takeWhileD)
  ultimately have "length ?l < 500" using sh by (simp add: short_lines_def)
  then show ?thesis using length_takeWhile_le [of "\<lambda>c. c \<noteq> CHR ''#'' \<and> c \<noteq> CHR '';''" ?l] by (simp add: line_text_def)
qed

text \<open>The lines of a text.\<close>

definition line_count :: "string \<Rightarrow> nat" where
  "line_count p = (if p = [] then 0 else Suc (length (filter (\<lambda>c. c = CHR 0x0A) p)))"

lemma line_count_suffix: "suffix q p \<Longrightarrow> line_count q \<le> line_count p"
  by (auto simp: line_count_def suffix_def)

lemma line_count_next:
  assumes "p \<noteq> []"
  shows "Suc (line_count (tl (dropWhile (\<lambda>c. c \<noteq> CHR 0x0A) p))) \<le> line_count p"
proof -
  let ?nl = "\<lambda>xs. length (filter (\<lambda>c. c = CHR 0x0A) xs)"
  obtain t d where d: "dropWhile (\<lambda>c. c \<noteq> CHR 0x0A) p = d" "p = t @ d" by (metis takeWhile_dropWhile_id)
  have le: "line_count xs \<le> Suc (?nl xs)" for xs by (simp add: line_count_def)
  have p: "line_count p = Suc (?nl t + ?nl d)" using assms d(2) by (simp add: line_count_def)
  show ?thesis
  proof (cases d)
    case Nil
    then show ?thesis unfolding d(1) p by (simp add: line_count_def)
  next
    case (Cons c d')
    then have "c = CHR 0x0A" using hd_dropWhile [of "\<lambda>c. c \<noteq> CHR 0x0A" p] d(1) by simp
    then show ?thesis unfolding d(1) p using Cons le [of d'] by simp
  qed
qed

lemma buf_loop_rep:
  assumes "cfg_rep A c es xs s" and "last_e = (if es = [] then NULL else last es)" and "short_lines p"
  shows "\<exists>es' ys. subseq ys (settings p) \<and> (ys = settings p \<or> runs_out (3 * line_count p) s) \<and> cfg_rep A c es' (xs @ ys) (buf_loop c last_e p s)"
  using assms
proof (induction c last_e p s arbitrary: es xs rule: buf_loop.induct)
  case (1 c last_e p s)
  let ?p = "skip_ws p" and ?n = "tl (dropWhile (\<lambda>c. c \<noteq> CHR 0x0A) (skip_ws p))"
  have sp: "suffix ?p p" by (simp add: skip_ws_def suffix_dropWhile)
  note sh = short_lines_suffix [OF 1(7) sp]
  have shorter: "runs_out (3 * line_count q) s \<Longrightarrow> suffix q ?p \<Longrightarrow> runs_out (3 * line_count p) s" for q
    using line_count_suffix [OF suffix_order.order_trans [OF _ sp], of q] by (auto elim: runs_out_mono)
  have sn: "short_lines ?n" using suffix_order.order_trans [OF suffix_tl suffix_dropWhile] by (rule short_lines_suffix [OF sh])
  obtain e s1 where e: "parse_line (line_text ?p) s = (e, s1)" by fastforce
  note step = buf_loop.simps [of c last_e p s] and sett = settings.simps [of p]
  consider (nil) "?p = []" | (nl) "?p \<noteq> []" "hd ?p = CHR 0x0A"
    | (comment) "?p \<noteq> []" "hd ?p \<noteq> CHR 0x0A" "hd ?p = CHR ''#'' \<or> hd ?p = CHR '';''"
    | (line) "?p \<noteq> []" "hd ?p \<noteq> CHR 0x0A" "\<not> (hd ?p = CHR ''#'' \<or> hd ?p = CHR '';'')" by blast
  then show ?case
  proof cases
    case nil
    then show ?thesis using 1(5) step sett by (intro exI [of _ es] exI [of _ "[]"]) simp
  next
    case nl
    have "short_lines (tl ?p)" by (rule short_lines_suffix [OF sh suffix_tl])
    from 1(1) [OF refl nl 1(5,6) this] show ?thesis using step sett nl shorter [of "tl ?p", OF _ suffix_tl] by auto
  next
    case comment
    have "short_lines (skip_to_eol ?p)" unfolding skip_to_eol_def by (rule short_lines_suffix [OF sh suffix_dropWhile])
    moreover have "suffix (skip_to_eol ?p) ?p" by (simp add: skip_to_eol_def suffix_dropWhile)
    ultimately show ?thesis using 1(2) [OF refl comment 1(5,6)] step sett comment shorter by auto
  next
    case line
    let ?B = "A \<union> set (list_ptrs s es)"
    have h: "k_holds s ?B" using 1(5) by (simp add: cfg_rep_def)
    note pl = parse_line_holds [OF h short_line_text [OF sh] e]
    have n: "3 + 3 * line_count ?n \<le> 3 * line_count p"
      using line_count_next [OF line(1)] line_count_suffix [OF sp] by simp
    have later: "runs_out (3 * line_count p) s" if "runs_out (3 * line_count ?n) s2" "mm_of s2 = mm_of s1" for s2
    proof -
      have "runs_out (3 * line_count ?n) s1" using that by (simp add: runs_out_def)
      from runs_out_mono [OF runs_out_later [OF conjunct1 [OF conjunct2 [OF pl]] this] n] show ?thesis .
    qed
    from pl consider (fail) "cfg_keeps ?B s s1" "e = NULL" "k_holds s1 ?B" "line_setting (line_text ?p) = None \<or> runs_out 3 s"
      | (ok) nm v where "cfg_keeps ?B s s1" "e \<noteq> NULL" "line_setting (line_text ?p) = Some (nm, v)" "full_entry ?B e nm v s1" by blast
    then show ?thesis
    proof cases
      case fail
      have rep: "cfg_rep A c es xs s1" by (rule cfg_rep_keeps [OF 1(5) fail(1,3)])
      obtain es' ys where ih: "subseq ys (settings ?n)" "ys = settings ?n \<or> runs_out (3 * line_count ?n) s1" "cfg_rep A c es' (xs @ ys) (buf_loop c last_e ?n s1)"
        using 1(4) [OF refl line e [symmetric] refl refl _ rep 1(6) sn] fail(2) by auto
      let ?x = "case line_setting (line_text ?p) of None \<Rightarrow> [] | Some x \<Rightarrow> [x]"
      have "settings p = ?x @ settings ?n" "buf_loop c last_e p s = buf_loop c last_e ?n s1"
        using step sett line e fail(2) by (simp_all add: Let_def)
      moreover have "runs_out (3 * line_count p) s" if "runs_out 3 s" using that n by (elim runs_out_mono) simp
      ultimately show ?thesis using ih fail(4) later [OF _ refl] by (intro exI [of _ es'] exI [of _ ys]) (auto intro: list_emb_append2)
    next
      case (ok nm v)
      have links: "cfg_links A c es xs s" using 1(5) by (simp add: cfg_rep_def)
      note cfg_links_keeps [OF links ok(1)]
      then have rep: "cfg_rep A c (es @ [e]) (xs @ [(nm, v)]) (append_entry c last_e e s1)"
        using append_entry_rep [of A c es xs s1] ok(4) 1(6) by simp
      let ?s = "append_entry c last_e e s1"
      have mm: "mm_of ?s = mm_of s1" by (simp add: append_entry_def Let_def)
      obtain es' ys where ih: "subseq ys (settings ?n)" "ys = settings ?n \<or> runs_out (3 * line_count ?n) ?s"
        "cfg_rep A c es' (xs @ (nm, v) # ys) (buf_loop c e ?n ?s)"
        using 1(3) [OF refl line e [symmetric] refl refl ok(2) rep _ sn] by auto
      have "settings p = (nm, v) # settings ?n" "buf_loop c last_e p s = buf_loop c e ?n ?s" using step sett line e ok(2,3) by simp_all
      then show ?thesis using ih later [OF _ mm] by (intro exI [of _ es'] exI [of _ "(nm, v) # ys"]) auto
    qed
  qed
qed

subsection \<open>Looking up and destroying\<close>

lemma get_loop_elist:
  "elist (next_entry s) p es \<Longrightarrow> get_loop s nm p =
     Some (case find (\<lambda>e. c_text (cfg_text s (ce_name (cfg_entry_at s e))) = nm) es of None \<Rightarrow> NULL | Some e \<Rightarrow> e)"
  by (induction es arbitrary: p) (subst get_loop.simps, simp)+

lemma find_entries:
  "list_all2 (entry_is s) es xs \<Longrightarrow>
     rel_option (entry_is s) (find (\<lambda>e. c_text (cfg_text s (ce_name (cfg_entry_at s e))) = nm) es) (find (\<lambda>x. c_text (fst x) = nm) xs)"
  by (induction rule: list_all2_induct) (auto simp: entry_is_def)

lemma cfg_get_rep:
  assumes "cfg_rep A c es xs s"
  shows "\<exists>e. cfg_get s c nm = Some e \<and>
    (case setting_of xs nm of None \<Rightarrow> e = NULL | Some v \<Rightarrow> e \<noteq> NULL \<and> value_is s (ce_value (cfg_entry_at s e)) v)"
proof -
  let ?f = "find (\<lambda>e. c_text (cfg_text s (ce_name (cfg_entry_at s e))) = nm) es"
  have el: "elist (next_entry s) (cf_entries (cfg_at s c)) es" and r: "list_all2 (entry_is s) es xs" using assms by (simp_all add: cfg_rep_def cfg_links_def)
  have nz: "e \<noteq> NULL" if "?f = Some e" for e using that elist_NULL [OF el] by (auto simp: find_Some_iff in_set_conv_nth)
  have "cfg_get s c nm = Some (case ?f of None \<Rightarrow> NULL | Some e \<Rightarrow> e)" using get_loop_elist [OF el] by (simp add: cfg_get_def)
  then show ?thesis using find_entries [OF r, of nm] nz
    by (cases ?f; cases "find (\<lambda>x. c_text (fst x) = nm) xs") (auto simp: setting_of_def entry_is_def)
qed

lemma cfg_get_cases:
  assumes "cfg_rep A c es xs s"
  obtains (none) "setting_of xs nm = None" "cfg_get s c nm = Some NULL"
    | (int) e v where "setting_of xs nm = Some (SInt v)" "cfg_get s c nm = Some e" "e \<noteq> NULL" "ce_value (cfg_entry_at s e) = CFG_INT v"
    | (str) e p where "setting_of xs nm = Some (SStr (cfg_text s p))" "cfg_get s c nm = Some e" "e \<noteq> NULL" "ce_value (cfg_entry_at s e) = CFG_STR p"
    | (arr) e p where "setting_of xs nm = Some (SArray (cfg_items s p))" "cfg_get s c nm = Some e" "e \<noteq> NULL"
        "ce_value (cfg_entry_at s e) = CFG_ARRAY p (of_nat (length (cfg_items s p)))"
proof -
  obtain e where e: "cfg_get s c nm = Some e"
    "case setting_of xs nm of None \<Rightarrow> e = NULL | Some v \<Rightarrow> e \<noteq> NULL \<and> value_is s (ce_value (cfg_entry_at s e)) v"
    using cfg_get_rep [OF assms] by blast
  show thesis
  proof (cases "setting_of xs nm")
    case None
    then show thesis using e that(1) by simp
  next
    case (Some v)
    then have "e \<noteq> NULL" "value_is s (ce_value (cfg_entry_at s e)) v" using e(2) by simp_all
    then show thesis using Some e(1) that(2-4)
      by (cases "(s, ce_value (cfg_entry_at s e), v)" rule: value_is.cases) auto
  qed
qed

lemma cfg_get_int_rep:
  "cfg_rep A c es xs s \<Longrightarrow> cfg_get_int s c nm d = Some (case setting_of xs nm of Some (SInt v) \<Rightarrow> v | _ \<Rightarrow> d)"
  by (rule cfg_get_cases [of A c es xs s nm]) (simp_all add: cfg_get_int_def)

lemma cfg_get_str_rep:
  "cfg_rep A c es xs s \<Longrightarrow> \<exists>p. cfg_get_str s c nm d = Some p \<and> (case setting_of xs nm of Some (SStr t) \<Rightarrow> cfg_text s p = t | _ \<Rightarrow> p = d)"
  by (rule cfg_get_cases [of A c es xs s nm]) (simp_all add: cfg_get_str_def)

lemma cfg_get_array_rep:
  "cfg_rep A c es xs s \<Longrightarrow> \<exists>r. cfg_get_array s c nm = Some r \<and>
     (case setting_of xs nm of Some (SArray vs) \<Rightarrow> \<exists>p. r = Some (p, of_nat (length vs)) \<and> cfg_items s p = vs | _ \<Rightarrow> r = None)"
  by (rule cfg_get_cases [of A c es xs s nm]) (auto simp: cfg_get_array_def)

lemma destroy_loop_rep:
  assumes "elist (next_entry s) p es" and "k_holds s (A \<union> set (list_ptrs s es))" and "distinct (list_ptrs s es)"
    and "A \<inter> set (list_ptrs s es) = {}"
  shows "\<exists>s'. destroy_loop p s = Some s' \<and> k_holds s' A"
  using assms
proof (induction es arbitrary: p s)
  case Nil
  then show ?case by (subst destroy_loop.simps) (simp add: list_ptrs_def)
next
  case (Cons e es)
  let ?A = "A \<union> set (list_ptrs s es)" and ?s = "cfg_entry_free e s"
  have p: "p = e" "e \<noteq> NULL" and el: "elist (next_entry s) (next_entry s e) es" using Cons.prems(1) by simp_all
  have nz: "NULL \<notin> set (list_ptrs s (e # es))" using small.holds_NULL [OF Cons.prems(2)] by blast
  then have rm: "removeAll NULL (entry_ptrs s e) = entry_ptrs s e" by (simp add: list_ptrs_def removeAll_id)
  have pt: "list_ptrs s (e # es) = entry_ptrs s e @ list_ptrs s es" by (simp add: list_ptrs_def)
  have "k_holds s (?A \<union> set (entry_ptrs s e))" using Cons.prems(2) by (simp add: pt Un_ac)
  moreover have "distinct (entry_ptrs s e)" "?A \<inter> set (entry_ptrs s e) = {}" using Cons.prems(3,4) by (auto simp: pt)
  ultimately have free: "k_holds ?s ?A" "same_cfg s ?s" using entry_free_holds [of s ?A e] p rm by simp_all
  then have at: "cfg_entry_at ?s = cfg_entry_at s" by (simp add: same_cfg_def)
  then have pt': "list_ptrs ?s es = list_ptrs s es" by (simp add: list_ptrs_def entry_ptrs_def cong: map_cong)
  have "elist (next_entry ?s) (next_entry s e) es" "distinct (list_ptrs ?s es)" "A \<inter> set (list_ptrs ?s es) = {}"
    using el at Cons.prems(3,4) pt pt' by auto
  then obtain s' where s': "destroy_loop (next_entry s e) ?s = Some s'" "k_holds s' A" using Cons.IH [of ?s "next_entry s e"] free(1) pt' by auto
  moreover have "destroy_loop p s = destroy_loop (next_entry s e) ?s" using p by (subst destroy_loop.simps) simp
  ultimately show ?case by (simp only:) blast
qed

lemma cfg_destroy_rep:
  assumes rep: "cfg_rep (insert c A) c es xs s" and c: "c \<noteq> NULL" "c \<notin> A"
  shows "\<exists>s'. cfg_destroy c s = Some s' \<and> k_holds s' A"
proof -
  obtain s' where "destroy_loop (cf_entries (cfg_at s c)) s = Some s'" "k_holds s' (insert c A)"
    using destroy_loop_rep [of s "cf_entries (cfg_at s c)" es "insert c A"] rep by (auto simp: cfg_rep_def cfg_links_def)
  then show ?thesis using small.mfree_new [of s' c A] c by (simp add: cfg_destroy_def)
qed

lemma cfg_parse_buf_rep:
  assumes h: "k_holds s A" and sh: "short_lines buf" and parse: "cfg_parse_buf buf s = (c, s')"
  shows "c = NULL \<and> k_holds s' A \<and> runs_out 1 s \<or>
    c \<noteq> NULL \<and> c \<notin> A \<and> (\<exists>es xs. subseq xs (settings buf) \<and> (xs = settings buf \<or> runs_out (1 + 3 * line_count buf) s) \<and> cfg_rep (insert c A) c es xs s')"
proof -
  obtain c1 s1 where c1: "k_kmalloc CFG_SIZE s = (c1, s1)" by fastforce
  have sz: "CFG_SIZE \<noteq> 0" "CFG_SIZE \<le> 2048" by (simp_all add: CFG_SIZE_def)
  show ?thesis
  proof (rule malloc_cases [OF h sz c1], goal_cases)
    case 1
    then show ?thesis using parse c1 by (simp add: cfg_parse_buf_def)
  next
    case 2
    let ?s = "upd_cfg c1 (\<lambda>_. \<lparr>cf_entries = NULL, cf_count = 0\<rparr>) s1"
    have "cfg_rep (insert c1 A) c1 [] [] ?s" using 2 by (simp add: cfg_rep_def cfg_links_def list_ptrs_def upd_cfg_def)
    from buf_loop_rep [OF this _ sh, of NULL] obtain es xs where "subseq xs (settings buf)" "xs = settings buf \<or> runs_out (3 * line_count buf) s1"
        "cfg_rep (insert c1 A) c1 es xs (buf_loop c1 NULL buf ?s)" by auto
    moreover have "c = c1" "s' = buf_loop c1 NULL buf ?s" using parse c1 2(1) by (auto simp: cfg_parse_buf_def)
    ultimately show ?thesis using 2(1,2) runs_out_later [OF 2(5)] by blast
  qed
qed

section \<open>Printing settings\<close>

definition int_text :: "u32 \<Rightarrow> string" where
  "int_text v = (if sint v < 0 then ''-'' else []) @ numeral_in 10 (nat \<bar>sint v\<bar>)"

fun commas :: "string list \<Rightarrow> string" where
  "commas [] = []"
| "commas [t] = t"
| "commas (t # ts) = t @ '','' @ commas ts"

fun value_text :: "setting \<Rightarrow> string" where
  "value_text (SInt v) = ''int = '' @ int_text v"
| "value_text (SStr t) = ''str = '' @ [CHR 0x22] @ t @ [CHR 0x22]"
| "value_text (SArray vs) = ''array = ['' @ commas (map int_text vs) @ '']''"

definition setting_text :: "string \<times> setting \<Rightarrow> string" where
  "setting_text x = fst x @ '': '' @ value_text (snd x) @ [CHR 0x0A]"

text \<open>Names without separators, strings without line ends and comment signs.\<close>

definition plain_char :: "char \<Rightarrow> bool" where
  "plain_char c \<longleftrightarrow> c \<noteq> CHR 0x0A \<and> c \<noteq> CHR ''#'' \<and> c \<noteq> CHR '';''"

definition name_char :: "char \<Rightarrow> bool" where
  "name_char c \<longleftrightarrow> plain_char c \<and> c \<noteq> CHR '':'' \<and> \<not> blank c \<and> c \<noteq> CHR 0x0D"

definition setting_ok :: "string \<times> setting \<Rightarrow> bool" where
  "setting_ok x \<longleftrightarrow> fst x \<noteq> [] \<and> list_all name_char (fst x) \<and> (case snd x of SStr t \<Rightarrow> list_all plain_char t | _ \<Rightarrow> True)"

lemma trim_space: "x \<noteq> [] \<Longrightarrow> \<not> blank (hd x) \<Longrightarrow> \<not> blank (last x) \<Longrightarrow> trim x = x \<and> trim ('' '' @ x) = x"
proof -
  assume x: "x \<noteq> []" "\<not> blank (hd x)" "\<not> blank (last x)"
  have "dropWhile blank x = x" "dropWhile blank (rev x) = rev x" using x by (simp_all add: dropWhile_eq_self_iff hd_rev)
  then show ?thesis by (simp add: trim_def blank_def)
qed

lemma numeral_in_digits: "c \<in> set (numeral_in 10 n) \<Longrightarrow> is_digit c"
  using hex_digit_code digits_less [of 10 _ n] by (auto simp: numeral_in_def)

lemma digit_not: "is_digit c \<Longrightarrow> c \<noteq> CHR '','' \<and> \<not> blank c \<and> plain_char c \<and> c \<noteq> CHR '']'' \<and> c \<noteq> CHR ''+'' \<and> c \<noteq> CHR ''-''"
  by (auto simp: is_digit_def blank_def plain_char_def)

lemma numeral_in_ne [simp]: "numeral_in 10 n \<noteq> []"
  by (simp add: numeral_in_def)

lemma digit_loop_digits:
  "(\<And>d. d \<in> set ds \<Longrightarrow> d < 10) \<Longrightarrow> digit_loop dec_val 10 w (map ((!) hex_digits) ds) = Some (foldl (\<lambda>w d. w * 10 + of_nat d) w ds)"
proof (induction ds arbitrary: w)
  case (Cons d ds)
  have "dec_val (hex_digits ! d) = Some (of_nat d)"
    using hex_digit_code [of d] Cons.prems [of d] by (simp add: dec_val_def char_range_def is_digit_def)
  then show ?case using Cons by simp
qed simp

lemma digit_loop_numeral: "digit_loop dec_val 10 0 (numeral_in 10 n) = Some (of_nat n)"
  using digit_loop_digits [of "digits 10 n" 0] digits_less [of 10 _ n] foldl_of_nat [of 0 "digits 10 n"] of_digits_digits [of 10 n]
  by (simp add: numeral_in_def of_digits_def)

lemma int_text_ends: "int_text v \<noteq> [] \<and> \<not> blank (hd (int_text v)) \<and> \<not> blank (last (int_text v))"
proof -
  let ?n = "numeral_in 10 (nat \<bar>sint v\<bar>)"
  have h: "is_digit (hd ?n)" by (rule numeral_in_digits [OF hd_in_set]) simp
  have l: "is_digit (last ?n)" by (rule numeral_in_digits [OF last_in_set]) simp
  show ?thesis using digit_not [OF h] digit_not [OF l] by (auto simp: int_text_def blank_def)
qed

lemma parse_digits_numeral: "parse_digits (numeral_in 10 n) = Some (of_nat n)"
proof -
  let ?s = "numeral_in 10 n"
  have "hd ?s \<noteq> CHR ''0'' \<or> length ?s = 1"
  proof (cases "n = 0")
    case True
    then show ?thesis by (simp add: numeral_in_def digits.simps [of 10 0])
  qed (use numeral_in_hd(3) [of n] in simp)
  then show ?thesis by (auto simp: parse_digits_def digit_loop_numeral hd_conv_nth)
qed

lemma parse_int_text: "trim t = int_text v \<Longrightarrow> parse_int t = Some v"
proof -
  assume t: "trim t = int_text v"
  let ?n = "nat \<bar>sint v\<bar>"
  have hd: "hd (numeral_in 10 n) \<noteq> CHR ''-''" "hd (numeral_in 10 n) \<noteq> CHR ''+''" for n
    using numeral_in_digits [of "hd (numeral_in 10 n)" n] digit_not by simp_all
  have "(of_nat ?n :: u32) = of_int \<bar>sint v\<bar>" by (rule of_nat_nat) simp
  then have "(if sint v < 0 then - of_nat ?n else of_nat ?n) = v" by (cases "sint v < 0") simp_all
  moreover have "parse_int t = map_option (\<lambda>x. if sint v < 0 then - x else x) (parse_digits (numeral_in 10 ?n))"
    using hd by (cases "sint v < 0") (simp_all add: parse_int_def t int_text_def)
  ultimately show ?thesis by (simp add: parse_digits_numeral)
qed

lemma int_text_chars: "c \<in> set (int_text v) \<Longrightarrow> c \<noteq> CHR '','' \<and> \<not> blank c \<and> plain_char c \<and> c \<noteq> CHR '']''"
  using numeral_in_digits digit_not by (fastforce simp: int_text_def blank_def plain_char_def split: if_splits)

lemma array_loop_commas: "array_loop (commas (map int_text vs)) = Some vs"
proof (induction vs rule: induct_list012)
  case 1
  then show ?case by (subst array_loop.simps) simp
next
  case (2 v)
  have tw: "takeWhile (\<lambda>c. c \<noteq> CHR '','') (int_text v) = int_text v" "dropWhile (\<lambda>c. c \<noteq> CHR '','') (int_text v) = []"
    using int_text_chars by (auto simp: takeWhile_eq_all_conv dropWhile_eq_Nil_conv)
  have "parse_int (int_text v) = Some v" using trim_space int_text_ends by (intro parse_int_text) simp
  moreover have "array_loop [] = Some []" by (subst array_loop.simps) simp
  moreover have "commas (map int_text [v]) = int_text v" by simp
  ultimately show ?case using int_text_ends [of v] by (simp only: array_loop.simps [of "int_text v"] tw) simp
next
  case (3 v w vs)
  let ?r = "commas (map int_text (w # vs))"
  have "takeWhile (\<lambda>c. c \<noteq> CHR '','') (int_text v @ CHR '','' # ?r) = int_text v"
    "dropWhile (\<lambda>c. c \<noteq> CHR '','') (int_text v @ CHR '','' # ?r) = CHR '','' # ?r"
    using int_text_chars by (auto simp: takeWhile_append dropWhile_append)
  moreover have "parse_int (int_text v) = Some v" using trim_space int_text_ends by (intro parse_int_text) simp
  moreover have "commas (map int_text (v # w # vs)) = int_text v @ CHR '','' # ?r" by simp
  ultimately show ?case using 3(2) by (subst array_loop.simps) simp
qed

lemma value_setting_text:
  "\<exists>ty val. value_text v = ty @ '' = '' @ val \<and> ty \<noteq> [] \<and> list_all name_char ty \<and> CHR ''='' \<notin> set ty \<and> value_setting ty ('' '' @ val) = Some v"
proof (cases v)
  case (SInt x)
  have "parse_int ('' '' @ int_text x) = Some x" using trim_space int_text_ends by (intro parse_int_text) blast
  then show ?thesis by (intro exI [of _ "''int''"] exI [of _ "int_text x"]) (simp add: SInt value_setting_def name_char_def blank_def plain_char_def)
next
  case (SStr t)
  let ?q = "[CHR 0x22] @ t @ [CHR 0x22]"
  have "trim ('' '' @ ?q) = ?q" using trim_space [of ?q] by (simp add: blank_def)
  then have "str_body ('' '' @ ?q) = t" by (simp add: str_body_def butlast_append)
  then show ?thesis by (intro exI [of _ "''str''"] exI [of _ ?q]) (simp add: SStr value_setting_def name_char_def blank_def plain_char_def)
next
  case (SArray vs)
  let ?b = "''['' @ commas (map int_text vs) @ '']''"
  have "trim ('' '' @ ?b) = ?b" using trim_space [of ?b] by (simp add: blank_def)
  then have "array_body ('' '' @ ?b) = Some (commas (map int_text vs))" by (simp add: array_body_def butlast_append)
  then show ?thesis
    by (intro exI [of _ "''array''"] exI [of _ ?b]) (simp add: SArray value_setting_def name_char_def blank_def plain_char_def array_loop_commas)
qed

lemma takeWhile_stop: "list_all P xs \<Longrightarrow> \<not> P y \<Longrightarrow> takeWhile P (xs @ y # ys) = xs \<and> dropWhile P (xs @ y # ys) = y # ys"
  by (induction xs) auto

lemma skip_ws_name: "x \<noteq> [] \<Longrightarrow> list_all name_char x \<Longrightarrow> skip_ws (x @ y) = x @ y"
  by (cases x) (auto simp: skip_ws_def name_char_def blank_def)

lemma split_line_text:
  assumes nm: "nm \<noteq> []" "list_all name_char nm" and ty: "ty \<noteq> []" "list_all name_char ty" "CHR ''='' \<notin> set ty"
  shows "split_line (nm @ '': '' @ ty @ '' = '' @ val) = Some (nm, ty, '' '' @ val)"
proof -
  let ?r = "ty @ '' = '' @ val"
  have 1: "takeWhile (\<lambda>c. c \<noteq> CHR '':'' \<and> \<not> blank c) (nm @ CHR '':'' # CHR '' '' # ?r) = nm \<and>
      dropWhile (\<lambda>c. c \<noteq> CHR '':'' \<and> \<not> blank c) (nm @ CHR '':'' # CHR '' '' # ?r) = CHR '':'' # CHR '' '' # ?r"
    by (rule takeWhile_stop) (use nm in \<open>auto simp: list_all_iff name_char_def\<close>)
  have 2: "takeWhile (\<lambda>c. c \<noteq> CHR ''='' \<and> \<not> blank c) (ty @ CHR '' '' # CHR ''='' # CHR '' '' # val) = ty \<and>
      dropWhile (\<lambda>c. c \<noteq> CHR ''='' \<and> \<not> blank c) (ty @ CHR '' '' # CHR ''='' # CHR '' '' # val) = CHR '' '' # CHR ''='' # CHR '' '' # val"
    by (rule takeWhile_stop) (use ty in \<open>auto simp: list_all_iff name_char_def blank_def\<close>)
  have 3: "skip_ws (CHR '' '' # x) = skip_ws x" "skip_ws (CHR '':'' # x) = CHR '':'' # x" "skip_ws (CHR ''='' # x) = CHR ''='' # x" for x
    by (simp_all add: skip_ws_def)
  show ?thesis using nm(1) skip_ws_name [OF nm] skip_ws_name [OF ty(1,2)] 1 2 by (simp add: split_line_def 3 Let_def)
qed

lemma value_text_plain: "(case v of SStr t \<Rightarrow> list_all plain_char t | _ \<Rightarrow> True) \<Longrightarrow> list_all plain_char (value_text v)"
proof -
  have c: "list_all plain_char (commas ts)" if "\<forall>t\<in>set ts. list_all plain_char t" for ts
    using that by (induction ts rule: commas.induct) (auto simp: plain_char_def)
  have i: "list_all plain_char (int_text x)" for x using int_text_chars by (auto simp: list_all_iff)
  assume "case v of SStr t \<Rightarrow> list_all plain_char t | _ \<Rightarrow> True"
  then show ?thesis using i c [of "map int_text vs" for vs] by (cases v) (simp_all add: plain_char_def)
qed

lemma settings_text:
  assumes "setting_ok x"
  shows "settings (setting_text x @ p) = x # settings p"
proof -
  obtain nm v where x: "x = (nm, v)" by fastforce
  have nm: "nm \<noteq> []" "list_all name_char nm" and pl: "list_all plain_char (value_text v)"
    using assms value_text_plain by (auto simp: setting_ok_def x)
  obtain ty val where t: "value_text v = ty @ '' = '' @ val" "ty \<noteq> []" "list_all name_char ty" "CHR ''='' \<notin> set ty"
    "value_setting ty ('' '' @ val) = Some v" using value_setting_text by blast
  let ?l = "nm @ '': '' @ value_text v"
  have line: "line_setting ?l = Some x" using split_line_text [OF nm t(2-4)] t(1,5) by (simp add: line_setting_def x)
  have lp: "list_all plain_char ?l" using nm(2) pl by (auto simp: list_all_iff name_char_def plain_char_def)
  have tx: "setting_text x @ p = ?l @ CHR 0x0A # p" by (simp add: setting_text_def x)
  have ws: "skip_ws (?l @ q) = ?l @ q" for q using skip_ws_name [OF nm, of "'': '' @ value_text v @ q"] by simp
  have hd: "?l @ q \<noteq> []" "hd (?l @ q) \<noteq> CHR 0x0A" "hd (?l @ q) \<noteq> CHR ''#''" "hd (?l @ q) \<noteq> CHR '';''" for q
    using nm by (cases nm; simp add: name_char_def plain_char_def)+
  have nl: "takeWhile (\<lambda>c. c \<noteq> CHR 0x0A) (?l @ CHR 0x0A # p) = ?l \<and> dropWhile (\<lambda>c. c \<noteq> CHR 0x0A) (?l @ CHR 0x0A # p) = CHR 0x0A # p"
    by (rule takeWhile_stop) (use lp in \<open>auto simp: list_all_iff plain_char_def\<close>)
  have "takeWhile (\<lambda>c. c \<noteq> CHR ''#'' \<and> c \<noteq> CHR '';'') ?l = ?l"
    unfolding takeWhile_eq_all_conv using lp by (auto simp: list_all_iff plain_char_def)
  then have lt: "line_text (?l @ CHR 0x0A # p) = ?l" using nl by (simp only: line_text_def)
  have "settings (?l @ CHR 0x0A # p) = [x] @ settings p"
    by (subst settings.simps, unfold ws Let_def) (simp only: hd lt line conjunct2 [OF nl] if_False option.case list.sel simp_thms)
  then show ?thesis unfolding tx by simp
qed

lemma settings_concat: "list_all setting_ok xs \<Longrightarrow> settings (concat (map setting_text xs)) = xs"
proof (induction xs)
  case Nil
  then show ?case by (subst settings.simps) (simp add: skip_ws_def)
next
  case (Cons x xs)
  then show ?case using settings_text [of x "concat (map setting_text xs)"] by simp
qed

section \<open>Properties\<close>

text \<open>C19: \<open>cfg_parse_buf\<close> of any text with lines of less than 500 characters fails, and the live objects of the slab caches are
  exactly those of before, or it returns a configuration whose entries are settings of the text in their order.  It
  returns one when a page of memory is free, and all settings are there when three more pages are free for every line.
  \<open>cfg_get_int\<close>, \<open>cfg_get_str\<close> and \<open>cfg_get_array\<close> then return the first setting of that name and the default otherwise, and
  \<open>cfg_destroy\<close> ends with exactly the live objects from before the call, so everything that was taken is given back.  The
  hypothesis \<open>k_holds\<close> includes that no header of the buddy pool lies in a slab or a free page (\<open>headers_apart\<close>).\<close>

theorem cfg_parse_buf_correct:
  assumes "k_holds s A" and "short_lines buf" and "cfg_parse_buf buf s = (c, s')"
  shows "c = NULL \<and> k_holds s' A \<and> \<not> pages_left (vs_slab s) 1 \<or>
    c \<noteq> NULL \<and> (\<exists>xs. subseq xs (settings buf) \<and> (pages_left (vs_slab s) (1 + 3 * line_count buf) \<longrightarrow> xs = settings buf) \<and> cf_count (cfg_at s' c) = of_nat (length xs) \<and>
      (\<forall>nm d. cfg_get_int s' c nm d = Some (case setting_of xs nm of Some (SInt v) \<Rightarrow> v | _ \<Rightarrow> d)) \<and>
      (\<forall>nm d. \<exists>p. cfg_get_str s' c nm d = Some p \<and> (case setting_of xs nm of Some (SStr t) \<Rightarrow> cfg_text s' p = t | _ \<Rightarrow> p = d)) \<and>
      (\<forall>nm. \<exists>r. cfg_get_array s' c nm = Some r \<and>
         (case setting_of xs nm of Some (SArray vs) \<Rightarrow> \<exists>p. r = Some (p, of_nat (length vs)) \<and> cfg_items s' p = vs | _ \<Rightarrow> r = None)) \<and>
      (\<exists>s''. cfg_destroy c s' = Some s'' \<and> k_holds s'' A))"
proof -
  from cfg_parse_buf_rep [OF assms] consider "c = NULL" "k_holds s' A" "\<not> pages_left (vs_slab s) 1"
    | es xs where "c \<noteq> NULL" "c \<notin> A" "subseq xs (settings buf)" "cfg_rep (insert c A) c es xs s'"
        "pages_left (vs_slab s) (1 + 3 * line_count buf) \<longrightarrow> xs = settings buf"
    using enough_pages [OF assms(1)] by blast
  then show ?thesis
  proof cases
    case (2 es xs)
    have "length es = length xs" using 2(4) by (auto simp: cfg_rep_def cfg_links_def dest: list_all2_lengthD)
    then have "cf_count (cfg_at s' c) = of_nat (length xs)" using 2(4) by (simp add: cfg_rep_def cfg_links_def)
    then show ?thesis
      using 2(1,3,5) cfg_get_int_rep [OF 2(4)] cfg_get_str_rep [OF 2(4)] cfg_get_array_rep [OF 2(4)] cfg_destroy_rep [OF 2(4,1,2)] by blast
  qed simp
qed

definition cfg_example :: cfg_state where
  "cfg_example = devfs.extend (devfs_example\<lparr>vs_slab := mm_slab mm_example, k_buddy := kbuddy_example, k_mallocs := kmallocs mm_example\<rparr>)
     (cfg_state.fields (\<lambda>_. []) (\<lambda>_. []) (\<lambda>_. \<lparr>ce_name = 0, ce_value = CFG_INT 0, ce_next = 0\<rparr>) (\<lambda>_. \<lparr>cf_entries = 0, cf_count = 0\<rparr>))"

lemma mm_example_apart: "headers_apart (mm_slab mm_example) kbuddy_example"
proof -
  have magic: "bb_magic kbuddy_example x = BUDDY_MAGIC \<longleftrightarrow> x = 65536" for x
    by (simp add: kbuddy_example_def buddy_list_add_def put_free_header_def kbuddy_boot_def BUDDY_MAGIC_def Let_def split: prod.split)
  have "(65536 :: u64) \<notin> region (of_nat (q * 4096)) 4096" if "q < 16" for q
  proof
    assume "(65536 :: u64) \<in> region (of_nat (q * 4096)) 4096"
    then obtain i where i: "i < 4096" "(65536 :: u64) = of_nat (q * 4096) + of_nat i" by (rule region_memE)
    then have "(of_nat 65536 :: u64) = of_nat (q * 4096 + i)" by simp
    then have "65536 = q * 4096 + i" using of_nat_u64_inject [of 65536 "q * 4096 + i"] i(1) that by simp
    then show False using i(1) that by linarith
  qed
  then show ?thesis
    by (auto simp: headers_apart_def magic mm_example_def kslab_example_def SLAB_MAGIC_def phys_to_virt_def pmm_example_def pmm_boot_def)
qed

lemma cfg_example_holds: "k_holds cfg_example {}"
proof -
  have "mm_of cfg_example = mm_example" by (simp add: mm_of_def cfg_example_def devfs.defs cfg_state.defs mm_example_def)
  moreover have "vs_slab cfg_example = mm_slab mm_example" "k_buddy cfg_example = kbuddy_example"
    by (simp_all add: cfg_example_def devfs.defs cfg_state.defs)
  moreover have "{} = \<Union> (ran [65576 \<mapsto> {} :: u64 set])" by simp
  ultimately show ?thesis using mm_example_inv mm_example_apart unfolding k_holds_def by metis
qed

lemma cfg_example_pages: "pages_left (vs_slab cfg_example) 15"
proof -
  have "vs_slab cfg_example = mm_slab mm_example" by (simp add: cfg_example_def devfs.defs cfg_state.defs)
  then have eq: "ks_pmm (vs_slab cfg_example) = pmm_example" "ks_mem (vs_slab cfg_example) = pmm_example_memory"
    by (simp_all add: mm_example_def kslab_example_def)
  have "free_set pmm_example pmm_example_memory = {1..<16}"
    using page_used_example by (auto simp: free_set_def pmm_example_def pmm_boot_def Suc_le_eq)
  then show ?thesis using page_used_example [of 0] by (simp add: pages_left_def eq)
qed

lemma cfg_example_text:
  defines "x \<equiv> (''DEPTH'', SInt 32)"
  shows "setting_ok x" "short_lines (setting_text x)" "line_count (setting_text x) = 2" "setting_of [x] ''DEPTH'' = Some (SInt 32)"
proof -
  have "numeral_in 10 32 = ''32''" by (simp add: numeral_in_eval hex_digits_def)
  then have len: "length (setting_text x) = 16" "line_count (setting_text x) = 2"
    by (simp_all add: x_def setting_text_def int_text_def line_count_def)
  from len(1) show "short_lines (setting_text x)" unfolding short_lines_def using sublist_length_le by fastforce
  show "line_count (setting_text x) = 2" by (rule len(2))
qed (simp_all add: x_def setting_ok_def name_char_def plain_char_def blank_def setting_of_def c_text_def)

theorem cfg_parse_buf_correct_witness:
  "\<exists>c s'. cfg_parse_buf (setting_text (''DEPTH'', SInt 32)) cfg_example = (c, s') \<and> c \<noteq> NULL \<and>
     cf_count (cfg_at s' c) = 1 \<and> cfg_get_int s' c ''DEPTH'' 8 = Some 32 \<and> (\<exists>s''. cfg_destroy c s' = Some s'' \<and> k_holds s'' {})"
proof -
  let ?x = "(''DEPTH'', SInt 32)"
  have st: "settings (setting_text ?x) = [?x]" using settings_concat [of "[?x]"] cfg_example_text(1) by simp
  obtain c s' where p: "cfg_parse_buf (setting_text ?x) cfg_example = (c, s')" by fastforce
  have "pages_left (vs_slab cfg_example) 1" "pages_left (vs_slab cfg_example) (1 + 3 * line_count (setting_text ?x))"
    using cfg_example_pages by (auto simp: cfg_example_text(3) elim: pages_left_mono)
  then show ?thesis
    using cfg_parse_buf_correct [OF cfg_example_holds cfg_example_text(2) p] p cfg_example_text(4) unfolding st by auto
qed

text \<open>C20: Printing settings and parsing the text gives them back.  A file of any settings (names, signed numbers, quoted strings, arrays of
  numbers), printed one per line, is parsed into a configuration from which the lookups return the values that
  were printed, the first one for every name, if there are free pages for it.\<close>

theorem cfg_print_roundtrip:
  assumes "k_holds s A" and "list_all setting_ok xs" and "short_lines (concat (map setting_text xs))"
    and "pages_left (vs_slab s) (1 + 3 * line_count (concat (map setting_text xs)))"
  shows "\<exists>c s'. cfg_parse_buf (concat (map setting_text xs)) s = (c, s') \<and> c \<noteq> NULL \<and>
    cfg_get_int s' c nm d = Some (case setting_of xs nm of Some (SInt v) \<Rightarrow> v | _ \<Rightarrow> d) \<and>
    (\<exists>p. cfg_get_str s' c nm p0 = Some p \<and> (case setting_of xs nm of Some (SStr t) \<Rightarrow> cfg_text s' p = t | _ \<Rightarrow> p = p0)) \<and>
    (\<exists>r. cfg_get_array s' c nm = Some r \<and>
      (case setting_of xs nm of Some (SArray vs) \<Rightarrow> \<exists>p. r = Some (p, of_nat (length vs)) \<and> cfg_items s' p = vs | _ \<Rightarrow> r = None))"
proof -
  let ?t = "concat (map setting_text xs)"
  obtain c s' where p: "cfg_parse_buf ?t s = (c, s')" by fastforce
  have st: "settings ?t = xs" by (rule settings_concat [OF assms(2)])
  have "\<not> runs_out (1 + 3 * line_count ?t) s" by (rule enough_pages [OF assms(1,4)])
  then have "\<not> runs_out 1 s" "\<not> runs_out (1 + 3 * line_count ?t) s" using runs_out_mono [of 1 s "1 + 3 * line_count ?t"] by auto
  then obtain es where c: "c \<noteq> NULL" and rep: "cfg_rep (insert c A) c es xs s'"
    using cfg_parse_buf_rep [OF assms(1,3) p] unfolding st by blast
  show ?thesis using p c cfg_get_int_rep [OF rep] cfg_get_str_rep [OF rep] cfg_get_array_rep [OF rep] by blast
qed

theorem cfg_print_roundtrip_witness:
  "\<exists>c s'. cfg_parse_buf (setting_text (''DEPTH'', SInt 32)) cfg_example = (c, s') \<and> c \<noteq> NULL \<and>
     cfg_get_int s' c ''DEPTH'' 8 = Some 32 \<and> cfg_get_str s' c ''DEPTH'' 7 = Some 7 \<and> cfg_get_array s' c ''DEPTH'' = Some None"
  using cfg_print_roundtrip [OF cfg_example_holds, of "[(''DEPTH'', SInt 32)]" "''DEPTH''" 8 7] cfg_example_text cfg_example_pages
    pages_left_mono [OF cfg_example_pages, of 7]
  by auto

end
