(* ===== verification/Tty.thy ===== *)
theory Tty
  imports Video Moscfg RingBuffer
begin

text \<open>
  \<open>krnl/tty.c\<close> and \<open>krnl/dev/tty_dev.c\<close>: terminals on a frame buffer, with escape sequences, and the device \<open>tty\<close>.

  The terminals are an array; a pointer to one is its index.  The function pointers of a terminal are
  set together by \<open>tty_init\<close>; \<open>tt_ops\<close> says that they are set.  Of \<open>ansi_buf\<close> the model keeps the characters in use, the first
  \<open>ansi_buf_idx\<close> ones.  \<open>font6x8\<close> is the built-in font.  \<open>None\<close> is an access through a null pointer, a division by
  zero or a loop without end.
\<close>

section \<open>State\<close>

record tty =
  tt_flags :: u64
  cursor_col :: u64
  cursor_row :: u64
  fg_color :: u32
  bg_color :: u32
  tt_pwd :: "(u64 \<times> string) option"
  tt_cwd :: u64
  tt_font :: "psf_font option"
  tt_fb :: "framebuffer option"
  fb_x :: u64
  fb_y :: u64
  tt_ops :: bool
  freezed :: bool
  input_buffer :: ring_buffer
  ansi_state :: nat
  ansi_buf :: string
  ansi_pallet :: "nat \<Rightarrow> u32"
  fg_color_index :: u64
  bg_color_index :: u64

record tty_state = cfg_state +
  tty_array :: "nat \<Rightarrow> tty"
  active_tty :: "nat option"
  tty_cfg :: u64
  default_ansi_pallet :: "nat \<Rightarrow> u32"

definition TTY_MAX :: nat where "TTY_MAX = 8"

definition ANSI_BUF_SIZE :: nat where "ANSI_BUF_SIZE = 32"

definition char_w :: "tty \<Rightarrow> u32" where
  "char_w t = (case tt_font t of Some f \<Rightarrow> pf_width f | None \<Rightarrow> 6)"

definition char_h :: "tty \<Rightarrow> u32" where
  "char_h t = (case tt_font t of Some f \<Rightarrow> pf_height f | None \<Rightarrow> 8)"

definition reset_colors :: "tty \<Rightarrow> tty" where
  "reset_colors t = t\<lparr>fg_color := ansi_pallet t (unat (fg_color_index t)), bg_color := ansi_pallet t (unat (bg_color_index t))\<rparr>"

section \<open>Clearing and scrolling\<close>

definition tty_clear_impl :: "tty \<times> memory \<Rightarrow> int \<times> tty \<times> memory" where
  "tty_clear_impl tm =
     (let (t, m) = tm in
      if tt_fb t = None then (- 1, t, m)
      else (0, t\<lparr>fb_x := 0, fb_y := 0\<rparr>, snd (vid_fb_clear (tt_fb t) (bg_color t) m)))"

definition tty_scroll_impl :: "u32 \<Rightarrow> tty \<times> memory \<Rightarrow> int \<times> tty \<times> memory" where
  "tty_scroll_impl lines tm =
     (let (t, m) = tm in
      case tt_fb t of
        None \<Rightarrow> (- 1, t, m)
      | Some f \<Rightarrow>
          if fb_buffer f = NULL then (- 1, t, m)
          else
            let pixels_to_scroll = lines * char_h t
            in if fb_height f \<le> ucast pixels_to_scroll
               then (0, snd (tty_clear_impl (t, m)))
               else
                 let rows_to_copy = ucast (fb_height f - ucast pixels_to_scroll) :: u32;
                     m = snd (memmove m (fb_buffer f) (fb_buffer f + 4 * (ucast pixels_to_scroll * (fb_pitch f div 4)))
                           (ucast rows_to_copy * fb_pitch f));
                     m = clear_rows f (unat rows_to_copy) (bg_color t) m
                 in (0, t\<lparr>fb_y := (if ucast pixels_to_scroll \<le> fb_y t then fb_y t - ucast pixels_to_scroll else 0)\<rparr>, m))"

section \<open>Escape sequences\<close>

fun ansi_number :: "string \<Rightarrow> u32 \<Rightarrow> u32 \<times> string" where
  "ansi_number [] val = (val, [])"
| "ansi_number (c # p) val =
     (if is_digit c then ansi_number p (val * 10 + (of_char c - of_char CHR ''0'')) else (val, c # p))"

text \<open>The loop that collects the arguments; a character that is neither a digit nor a semicolon would stop it.\<close>

partial_function (option) ansi_args :: "string \<Rightarrow> u32 list \<Rightarrow> u32 list option" where
  "ansi_args p args =
     (if p = [] then Some args
      else
        let (val, p) = ansi_number p 0;
            args = (if length args < 16 then args @ [val] else args);
            p = (if p \<noteq> [] \<and> hd p = CHR '';'' then tl p else p)
        in ansi_args p args)"

definition apply_sgr :: "u32 \<Rightarrow> tty \<Rightarrow> tty" where
  "apply_sgr val t =
     (let v = sint val; colors = ansi_pallet t in
      if v = 0 then reset_colors t
      else if 30 \<le> v \<and> v \<le> 37 then t\<lparr>fg_color := colors (nat (v - 30) * 2)\<rparr>
      else if 40 \<le> v \<and> v \<le> 47 then t\<lparr>bg_color := colors (nat (v - 40) * 2)\<rparr>
      else if 90 \<le> v \<and> v \<le> 97 then t\<lparr>fg_color := colors (nat (v - 90) * 2 + 1)\<rparr>
      else if 100 \<le> v \<and> v \<le> 107 then t\<lparr>bg_color := colors (nat (v - 100) * 2 + 1)\<rparr>
      else t)"

definition ansi_sgr :: "tty \<Rightarrow> tty option" where
  "ansi_sgr t = do {
     args \<leftarrow> ansi_args (ansi_buf t) [];
     let args = (if args = [] then [0] else args);
     Some (fold apply_sgr args t)
   }"

definition ansi_position :: "tty \<Rightarrow> tty" where
  "ansi_position t =
     (let p = ansi_buf t;
          (arg1, arg2) =
            (if p = [] then (1, 1)
             else
               let (arg1, p) = ansi_number p 0
               in if p \<noteq> [] \<and> hd p = CHR '';'' then (arg1, fst (ansi_number (tl p) 0)) else (arg1, 1));
          arg1 = (if sint arg1 < 1 then 1 else arg1);
          arg2 = (if sint arg2 < 1 then 1 else arg2)
      in t\<lparr>fb_y := ucast ((arg1 - 1) * char_h t), fb_x := ucast ((arg2 - 1) * char_w t)\<rparr>)"

definition tty_handle_ansi_c :: "char \<Rightarrow> tty \<times> memory \<Rightarrow> (tty \<times> memory) option" where
  "tty_handle_ansi_c c tm =
     (let (t, m) = tm in
      if ansi_state t = 1
      then Some (if c = CHR ''['' then t\<lparr>ansi_state := 2, ansi_buf := []\<rparr> else t\<lparr>ansi_state := 0\<rparr>, m)
      else if ansi_state t = 2
      then
        if is_digit c \<or> c = CHR '';''
        then Some (if length (ansi_buf t) < ANSI_BUF_SIZE - 1 then t\<lparr>ansi_buf := ansi_buf t @ [c]\<rparr> else t, m)
        else
          let t = t\<lparr>ansi_state := 0\<rparr>
          in if c = CHR ''m'' then map_option (\<lambda>t. (t, m)) (ansi_sgr t)
             else if c = CHR ''J''
             then Some (if ansi_buf t \<noteq> [] \<and> hd (ansi_buf t) = CHR ''2'' \<and> tt_ops t then snd (tty_clear_impl (t, m)) else (t, m))
             else if c = CHR ''H'' \<or> c = CHR ''f'' then Some (ansi_position t, m)
             else Some (t, m)
      else Some (t, m))"

section \<open>Characters\<close>

definition draw_char :: "(nat \<Rightarrow> u8) \<Rightarrow> char \<Rightarrow> tty \<times> memory \<Rightarrow> memory" where
  "draw_char font6x8 c tm =
     (let (t, m) = tm in
      if tt_font t \<noteq> None
      then snd (vid_fb_drawchar_psf (tt_fb t) (tt_font t) (fb_x t) (fb_y t) (scast (of_char c :: u8)) (fg_color t) (bg_color t) m)
      else snd (vid_fb_drawchar font6x8 (tt_fb t) (fb_x t) (fb_y t) (of_char c) (fg_color t) (bg_color t) m))"

text \<open>The end of \<open>putchar\<close>: below the last line the screen scrolls.\<close>

definition put_end :: "tty \<times> memory \<Rightarrow> (tty \<times> memory) option" where
  "put_end tm =
     (let (t, m) = tm in
      case tt_fb t of
        None \<Rightarrow> None
      | Some f \<Rightarrow>
          Some (if fb_height f < fb_y t + ucast (char_h t)
                then if tt_ops t then snd (tty_scroll_impl 1 (t, m)) else (t\<lparr>fb_y := 0\<rparr>, m)
                else (t, m)))"

definition put_backspace :: "(nat \<Rightarrow> u8) \<Rightarrow> tty \<times> memory \<Rightarrow> (tty \<times> memory) option" where
  "put_backspace font6x8 tm =
     (let (t, m) = tm; w = ucast (char_w t); h = ucast (char_h t) in
      do {
        t \<leftarrow> (if w \<le> fb_x t then Some (t\<lparr>fb_x := fb_x t - w\<rparr>)
              else if h \<le> fb_y t
              then
                case tt_fb t of
                  None \<Rightarrow> None
                | Some f \<Rightarrow> if w = 0 then None else Some (t\<lparr>fb_y := fb_y t - h, fb_x := fb_width f div w * w - w\<rparr>)
              else Some (t\<lparr>fb_x := 0\<rparr>));
        Some (t, draw_char font6x8 CHR '' '' (t, m))
      })"

definition put_glyph :: "(nat \<Rightarrow> u8) \<Rightarrow> char \<Rightarrow> tty \<times> memory \<Rightarrow> tty \<times> memory" where
  "put_glyph font6x8 c tm =
     (let (t, m) = tm; w = ucast (char_w t) in
      case tt_fb t of
        None \<Rightarrow> (t, m)
      | Some f \<Rightarrow>
          let m = draw_char font6x8 c (t, m);
              t = t\<lparr>fb_x := fb_x t + w\<rparr>
          in (if fb_width f < fb_x t + w then t\<lparr>fb_x := 0, fb_y := fb_y t + ucast (char_h t)\<rparr> else t, m))"

text \<open>A character that is not part of an escape sequence; a tab is four spaces.\<close>

definition put_plain :: "(nat \<Rightarrow> u8) \<Rightarrow> char \<Rightarrow> tty \<times> memory \<Rightarrow> (tty \<times> memory) option" where
  "put_plain font6x8 c tm =
     (if c = CHR 0x0A then put_end ((fst tm)\<lparr>fb_x := 0, fb_y := fb_y (fst tm) + ucast (char_h (fst tm))\<rparr>, snd tm)
      else if c = CHR 0x08 then Option.bind (put_backspace font6x8 tm) put_end
      else put_end (put_glyph font6x8 c tm))"

fun put_spaces :: "(nat \<Rightarrow> u8) \<Rightarrow> nat \<Rightarrow> tty \<times> memory \<Rightarrow> (tty \<times> memory) option" where
  "put_spaces font6x8 0 tm = Some tm"
| "put_spaces font6x8 (Suc n) tm = Option.bind (put_plain font6x8 CHR '' '' tm) (put_spaces font6x8 n)"

definition tty_putchar_impl :: "(nat \<Rightarrow> u8) \<Rightarrow> char \<Rightarrow> tty \<times> memory \<Rightarrow> (tty \<times> memory) option" where
  "tty_putchar_impl font6x8 c tm =
     (let (t, m) = tm in
      if c = CHR 0x1B then Some (t\<lparr>ansi_state := 1\<rparr>, m)
      else if ansi_state t \<noteq> 0 then tty_handle_ansi_c c (t, m)
      else if c = CHR 0x09 then Option.bind (put_spaces font6x8 4 (t, m)) put_end
      else put_plain font6x8 c (t, m))"

fun tty_puts_loop :: "(nat \<Rightarrow> u8) \<Rightarrow> string \<Rightarrow> tty \<times> memory \<Rightarrow> (tty \<times> memory) option" where
  "tty_puts_loop font6x8 [] tm = Some tm"
| "tty_puts_loop font6x8 (c # str) tm = Option.bind (tty_putchar_impl font6x8 c tm) (tty_puts_loop font6x8 str)"

section \<open>Terminals\<close>

definition upd_tty :: "nat \<Rightarrow> (tty \<Rightarrow> tty) \<Rightarrow> 'a tty_state_scheme \<Rightarrow> 'a tty_state_scheme" where
  "upd_tty i f s = s\<lparr>tty_array := (tty_array s)(i := f (tty_array s i))\<rparr>"

text \<open>What a routine above did to the terminal and to memory.\<close>

definition put_tty :: "nat \<Rightarrow> tty \<times> memory \<Rightarrow> 'a tty_state_scheme \<Rightarrow> 'a tty_state_scheme" where
  "put_tty i tm s = upd_tty i (\<lambda>_. fst tm) (set_mem (snd tm) s)"

definition tty_putchar :: "(nat \<Rightarrow> u8) \<Rightarrow> nat \<Rightarrow> char \<Rightarrow> 'a tty_state_scheme \<Rightarrow> 'a tty_state_scheme option" where
  "tty_putchar font6x8 i c s = map_option (\<lambda>tm. put_tty i tm s) (tty_putchar_impl font6x8 c (tty_array s i, k_mem s))"

definition tty_puts_impl :: "(nat \<Rightarrow> u8) \<Rightarrow> nat option \<Rightarrow> string option \<Rightarrow> 'a tty_state_scheme \<Rightarrow> (int \<times> 'a tty_state_scheme) option" where
  "tty_puts_impl font6x8 tty str s =
     (if tty = None \<or> str = None \<or> \<not> tt_ops (tty_array s (the tty)) then Some (- 1, s)
      else map_option (\<lambda>tm. (0, put_tty (the tty) tm s)) (tty_puts_loop font6x8 (the str) (tty_array s (the tty), k_mem s)))"

definition tty_vprintf_impl ::
  "(nat \<Rightarrow> u8) \<Rightarrow> nat \<Rightarrow> string option \<Rightarrow> (nat \<Rightarrow> u64) \<Rightarrow> 'a tty_state_scheme \<Rightarrow> (int \<times> 'a tty_state_scheme) option" where
  "tty_vprintf_impl font6x8 i fmt args s = do {
     (n, r) \<leftarrow> vfprintf (if tt_ops (tty_array s i) then Some (\<lambda>c r. Option.bind r (tty_putchar font6x8 i c)) else None) fmt args (k_mem s) (Some s);
     map_option (Pair n) r
   }"

text \<open>The variadic forms drop the count: they return no value.\<close>

definition tty_printf_impl ::
  "(nat \<Rightarrow> u8) \<Rightarrow> nat \<Rightarrow> string option \<Rightarrow> (nat \<Rightarrow> u64) \<Rightarrow> 'a tty_state_scheme \<Rightarrow> 'a tty_state_scheme option" where
  "tty_printf_impl font6x8 i fmt args s = map_option snd (tty_vprintf_impl font6x8 i fmt args s)"

definition tty_printf ::
  "(nat \<Rightarrow> u8) \<Rightarrow> string option \<Rightarrow> (nat \<Rightarrow> u64) \<Rightarrow> 'a tty_state_scheme \<Rightarrow> 'a tty_state_scheme option" where
  "tty_printf font6x8 fmt args s = do { i \<leftarrow> active_tty s; tty_printf_impl font6x8 i fmt args s }"

text \<open>Input.  \<open>sp\<close> is the address of the local variable \<open>c\<close>; a round of the loops around \<open>sched_yield\<close>.\<close>

definition tty_push_char_impl :: "u64 \<Rightarrow> nat \<Rightarrow> char \<Rightarrow> 'a tty_state_scheme \<Rightarrow> int io \<times> 'a tty_state_scheme" where
  "tty_push_char_impl sp i c s =
     (if \<not> tt_ops (tty_array s i) then (Done (- 1), s)
      else
        let (n, rb, m) = ring_buffer_write ((k_mem s)(sp := of_char c)) (Some (input_buffer (tty_array s i))) sp 1;
            s = upd_tty i (\<lambda>t. t\<lparr>input_buffer := the rb\<rparr>) (set_mem m s)
        in (if n = 0 then Yield else Done 0, s))"

definition tty_getchar_impl :: "u64 \<Rightarrow> nat \<Rightarrow> 'a tty_state_scheme \<Rightarrow> int io \<times> 'a tty_state_scheme" where
  "tty_getchar_impl sp i s =
     (let (n, rb, m) = ring_buffer_read (k_mem s) (Some (input_buffer (tty_array s i))) sp 1;
          s = upd_tty i (\<lambda>t. t\<lparr>input_buffer := the rb\<rparr>) (set_mem m s)
      in (if n = 0 then Yield else Done (uint (m sp)), s))"

definition tty_cd_impl ::
  "'a tty_state_scheme driver_code \<Rightarrow> nat option \<Rightarrow> string option \<Rightarrow> 'a tty_state_scheme \<Rightarrow> (int \<times> 'a tty_state_scheme) option" where
  "tty_cd_impl code tty path s =
     (if tty = None \<or> path = None then Some (- 1, s)
      else do {
        let i = the tty;
        (r, s) \<leftarrow> vfs_resolve_path (map_option snd (tt_pwd (tty_array s i))) path s;
        case r of
          None \<Rightarrow> Some (- 1, s)
        | Some (abs_path, str) \<Rightarrow> do {
            (target, s) \<leftarrow> kopen code (thread_cred s) (Some str) s;
            if target = NULL \<or> vn_type (vs_nodes s target) \<noteq> VFS_DIRECTORY then Some (- 1, vs_mfree abs_path s)
            else
              let s = (case tt_pwd (tty_array s i) of None \<Rightarrow> s | Some (pwd, _) \<Rightarrow> vs_mfree pwd s)
              in Some (0, upd_tty i (\<lambda>t. t\<lparr>tt_pwd := Some (abs_path, str), tt_cwd := target\<rparr>) s)
          }
      })"

text \<open>\<open>out\<close> is what the variable of the caller holds.\<close>

definition tty_get :: "u64 \<Rightarrow> nat option \<Rightarrow> 'a tty_state_scheme \<Rightarrow> int \<times> nat option" where
  "tty_get index out s =
     (if sint index = - 1 then (0, active_tty s)
      else if int TTY_MAX \<le> sint index \<or> sint index < 0 then (- 1, out)
      else (0, Some (nat (sint index))))"

definition tty_set_active :: "u64 \<Rightarrow> 'a tty_state_scheme \<Rightarrow> int \<times> 'a tty_state_scheme" where
  "tty_set_active index s =
     (if int TTY_MAX \<le> sint index \<or> sint index < 0 then (- 1, s)
      else (0, s\<lparr>active_tty := Some (nat (sint index))\<rparr>))"

section \<open>Initialisation\<close>

definition ANSI_NUM_BLACK :: nat where "ANSI_NUM_BLACK = 0"
definition ANSI_NUM_WHITE_BOLD :: nat where "ANSI_NUM_WHITE_BOLD = 15"

definition FRAMEBUFFER_SIZE :: u64 where "FRAMEBUFFER_SIZE = 48"
definition PSF_FONT_SIZE :: u64 where "PSF_FONT_SIZE = 32"

text \<open>The fields that \<open>tty_init\<close> sets before its first allocation, and after it.\<close>

definition init_fields :: "tty \<Rightarrow> tty" where
  "init_fields t = t\<lparr>tt_flags := 0, cursor_col := 0, cursor_row := 0, fg_color_index := of_nat ANSI_NUM_WHITE_BOLD,
     bg_color_index := of_nat ANSI_NUM_BLACK, tt_pwd := None, tt_font := None, tt_ops := True, tt_cwd := NULL\<rparr>"

definition init_input :: "nat \<Rightarrow> 'a tty_state_scheme \<Rightarrow> int \<times> 'a tty_state_scheme" where
  "init_input i s =
     (let (r, rb, p, m) = ring_buffer_init (ks_pmm (vs_slab s)) (k_mem s)
            (Some \<lparr>rb_buffer = NULL, rb_capacity = 0, rb_head = 0, rb_tail = 0, rb_count = 0\<rparr>) 0x1000
      in (r, upd_tty i (\<lambda>t. t\<lparr>input_buffer := the rb\<rparr>) (s\<lparr>vs_slab := (vs_slab s)\<lparr>ks_pmm := p, ks_mem := m\<rparr>\<rparr>)))"

definition tty_init :: "nat option \<Rightarrow> framebuffer option \<Rightarrow> 'a tty_state_scheme \<Rightarrow> (int \<times> 'a tty_state_scheme) option" where
  "tty_init tty fb s =
     (case tty of
        None \<Rightarrow> Some (- 1, s)
      | Some i \<Rightarrow> do {
          let s = s\<lparr>tty_array := (\<lambda>j. if j < TTY_MAX then (tty_array s j)\<lparr>tt_cwd := NULL\<rparr> else tty_array s j)\<rparr>;
          let s = upd_tty i init_fields s;
          (pwd, s) \<leftarrow> vs_malloc 2 s;
          if pwd = NULL then Some (- 1, s)
          else do {
            let s = upd_tty i (\<lambda>t. t\<lparr>tt_pwd := Some (pwd, ''/''), freezed := False, ansi_state := 0, ansi_buf := []\<rparr>) s;
            let (r, s) = init_input i s;
            if r \<noteq> 0 then Some (- 1, s)
            else do {
              let s = upd_tty i (\<lambda>t. reset_colors (t\<lparr>ansi_pallet := default_ansi_pallet s\<rparr>)) s;
              let (p, s) = k_kmalloc FRAMEBUFFER_SIZE s;
              if p = NULL then None
              else do {
                f \<leftarrow> fb;
                let s = upd_tty i (\<lambda>t. t\<lparr>tt_fb := Some (f\<lparr>fb_swap := fb_buffer f\<rparr>), fb_x := 0, fb_y := 0\<rparr>) s;
                if fb_buffer f = NULL then Some (- 1, s)
                else Some (0, put_tty i (snd (tty_clear_impl (tty_array s i, k_mem s))) s)
              }
            }
          }
        })"

definition tty_load_pallet :: "nat option \<Rightarrow> (nat \<Rightarrow> u32) option \<Rightarrow> 'a tty_state_scheme \<Rightarrow> int \<times> 'a tty_state_scheme" where
  "tty_load_pallet tty pallet s =
     (case tty of
        None \<Rightarrow> (- 1, s)
      | Some i \<Rightarrow>
          (0, upd_tty i (\<lambda>t. reset_colors (t\<lparr>ansi_pallet := (case pallet of None \<Rightarrow> default_ansi_pallet s | Some p \<Rightarrow> p)\<rparr>)) s))"

definition tty_load_font ::
  "'a tty_state_scheme driver_code \<Rightarrow> string \<Rightarrow> 'a tty_state_scheme \<Rightarrow> (psf_font option \<times> 'a tty_state_scheme) option" where
  "tty_load_font code path s = do {
     (node, s) \<leftarrow> kopen code (thread_cred s) (Some path) s;
     if node = NULL then Some (None, s)
     else do {
       let sz = vn_size (vs_nodes s node);
       let (font_buf, s) = k_kmalloc (ucast sz) s;
       if font_buf = NULL then do { s \<leftarrow> kclose code node s; Some (None, s) }
       else do {
         (_, s) \<leftarrow> vfs_read code node 0 sz font_buf s;
         let (font, s) = k_kmalloc PSF_FONT_SIZE s;
         let blank_font = \<lparr>pf_version = 0, pf_width = 0, pf_height = 0, pf_bytesperglyph = 0, pf_numglyph = 0, pf_glyphs = 0\<rparr>;
         let (r, f) = psf_init_font (if font = NULL then None else Some blank_font) font_buf (k_mem s);
         if r = 0 then do { s \<leftarrow> kclose code node s; Some (f, s) }
         else do { s \<leftarrow> kclose code node (k_kfree font_buf (k_kfree font s)); Some (None, s) }
       }
     }
   }"

definition pallet_names :: "string list" where
  "pallet_names = [''BLACK'', ''BLACK_BOLD'', ''RED'', ''RED_BOLD'', ''GREEN'', ''GREEN_BOLD'', ''YELLOW'', ''YELLOW_BOLD'',
     ''BLUE'', ''BLUE_BOLD'', ''MAGENTA'', ''MAGENTA_BOLD'', ''CYAN'', ''CYAN_BOLD'', ''WHITE'', ''WHITE_BOLD'']"

text \<open>The colours of a configuration go to the terminal or, without one, to the default palette.\<close>

fun load_colors :: "u64 \<Rightarrow> nat option \<Rightarrow> nat \<Rightarrow> string list \<Rightarrow> 'a tty_state_scheme \<Rightarrow> 'a tty_state_scheme option" where
  "load_colors cfg tty k [] s = Some s"
| "load_colors cfg tty k (nm # nms) s = do {
     v \<leftarrow> cfg_get_int s cfg nm (default_ansi_pallet s k);
     load_colors cfg tty (Suc k) nms
       (case tty of
          None \<Rightarrow> s\<lparr>default_ansi_pallet := (default_ansi_pallet s)(k := v)\<rparr>
        | Some i \<Rightarrow> upd_tty i (\<lambda>t. t\<lparr>ansi_pallet := (ansi_pallet t)(k := v)\<rparr>) s)
   }"

definition load_pal ::
  "'a tty_state_scheme driver_code \<Rightarrow> nat option \<Rightarrow> string \<Rightarrow> 'a tty_state_scheme \<Rightarrow> 'a tty_state_scheme option" where
  "load_pal code tty path s = do {
     (pal_cfg, s) \<leftarrow> cfg_parse_file code (Some path) s;
     if pal_cfg = NULL then Some s
     else do {
       s \<leftarrow> load_colors pal_cfg tty 0 pallet_names s;
       cfg_destroy pal_cfg (case tty of None \<Rightarrow> s | Some i \<Rightarrow> upd_tty i reset_colors s)
     }
   }"

definition tty_load_cfg ::
  "'a tty_state_scheme driver_code \<Rightarrow> nat option \<Rightarrow> string \<Rightarrow> 'a tty_state_scheme \<Rightarrow> (int \<times> 'a tty_state_scheme) option" where
  "tty_load_cfg code tty path s = do {
     (cfg, s) \<leftarrow> cfg_parse_file code (Some path) s;
     if cfg = NULL then Some (- 1, s)
     else do {
       font_path \<leftarrow> cfg_get_str s cfg ''FONT'' NULL;
       s \<leftarrow> (if font_path = NULL then Some s
             else do {
               (font, s) \<leftarrow> tty_load_font code (c_text (cfg_text s font_path)) s;
               Some (if font = None \<or> tty = None then s else upd_tty (the tty) (\<lambda>t. t\<lparr>tt_font := font\<rparr>) s)
             });
       pal_path \<leftarrow> cfg_get_str s cfg ''PAL'' NULL;
       s \<leftarrow> (if pal_path = NULL then Some s else load_pal code tty (c_text (cfg_text s pal_path)) s);
       Some (0, s\<lparr>tty_cfg := cfg\<rparr>)
     }
   }"

section \<open>The device\<close>

fun dev_tty_write_loop :: "(nat \<Rightarrow> u8) \<Rightarrow> nat \<Rightarrow> u64 \<Rightarrow> nat \<Rightarrow> 'a tty_state_scheme \<Rightarrow> 'a tty_state_scheme option" where
  "dev_tty_write_loop font6x8 i buffer 0 s = Some s"
| "dev_tty_write_loop font6x8 i buffer (Suc n) s = do {
     b \<leftarrow> vload s buffer;
     s \<leftarrow> tty_putchar font6x8 i (char_of (unat b)) s;
     dev_tty_write_loop font6x8 i (buffer + 1) n s
   }"

definition dev_tty_write :: "(nat \<Rightarrow> u8) \<Rightarrow> u64 \<Rightarrow> u32 \<Rightarrow> u32 \<Rightarrow> u64 \<Rightarrow> 'a tty_state_scheme \<Rightarrow> (u32 \<times> 'a tty_state_scheme) option" where
  "dev_tty_write font6x8 node offset sz buffer s =
     (case active_tty s of
        None \<Rightarrow> Some (0, s)
      | Some i \<Rightarrow> map_option (Pair sz) (dev_tty_write_loop font6x8 i buffer (unat sz) s))"

text \<open>The loop of \<open>dev_tty_read\<close> until it waits for a key or has all bytes; the first component is \<open>bytes_read\<close>.\<close>

fun dev_tty_read_loop :: "u64 \<Rightarrow> nat \<Rightarrow> u64 \<Rightarrow> nat \<Rightarrow> u32 \<Rightarrow> 'a tty_state_scheme \<Rightarrow> (u32 \<times> u32 io \<times> 'a tty_state_scheme) option" where
  "dev_tty_read_loop sp i buffer 0 bytes_read s = Some (bytes_read, Done bytes_read, s)"
| "dev_tty_read_loop sp i buffer (Suc n) bytes_read s =
     (case tty_getchar_impl sp i s of
        (Yield, s) \<Rightarrow> Some (bytes_read, Yield, s)
      | (Done c, s) \<Rightarrow> do {
          s \<leftarrow> vstore (buffer + ucast bytes_read) (of_int c) s;
          dev_tty_read_loop sp i buffer n (bytes_read + 1) s
        })"

definition dev_tty_read :: "u64 \<Rightarrow> u64 \<Rightarrow> u32 \<Rightarrow> u32 \<Rightarrow> u64 \<Rightarrow> 'a tty_state_scheme \<Rightarrow> (u32 \<times> u32 io \<times> 'a tty_state_scheme) option" where
  "dev_tty_read sp node offset sz buffer s =
     (case active_tty s of None \<Rightarrow> Some (0, Done 0, s) | Some i \<Rightarrow> dev_tty_read_loop sp i buffer (unat sz) 0 s)"

definition TTY_IOCTL_CLEAR_SCREEN :: u32 where "TTY_IOCTL_CLEAR_SCREEN = 0"
definition TTY_IOCTL_MAP_FRAMEBUFFER :: u32 where "TTY_IOCTL_MAP_FRAMEBUFFER = 0x10000"
definition VMM_FLAG_NO_CACHE :: u64 where "VMM_FLAG_NO_CACHE = push_bit 4 1"

definition FB_PAGE :: u64 where
  "FB_PAGE = VMM_FLAG_PRESENT OR VMM_FLAG_WRITE OR VMM_FLAG_USER OR VMM_FLAG_NO_CACHE OR VMM_FLAG_NO_FREE"

text \<open>The pages of the frame buffer in the active address space.\<close>

definition map_framebuffer :: "framebuffer \<Rightarrow> u64 \<Rightarrow> 'a kernel_scheme \<Rightarrow> 'a kernel_scheme" where
  "map_framebuffer f user_virt s =
     (let num_pages = (fb_pitch f * fb_height f + 4095) div 4096;
          active_ctx = vmm_get_active_context (vmm_of s)
      in fold (\<lambda>i s. k_vmm_map active_ctx (user_virt + of_nat i * 4096)
              (vmm_virt_to_phys (vmm_get_kernel_context (vmm_of s)) (fb_buffer f + of_nat i * 4096) (vmm_of s)) FB_PAGE s)
           [0..<unat num_pages] s)"

text \<open>\<open>struct tty_fb_info\<close> in memory.\<close>

definition fb_info :: "framebuffer \<Rightarrow> u64 \<Rightarrow> u8 list" where
  "fb_info f buffer =
     le_bytes 8 buffer @ le_bytes 4 (ucast (fb_width f) :: u32) @ le_bytes 4 (ucast (fb_height f) :: u32) @
     le_bytes 4 (ucast (fb_pitch f) :: u32) @ [ucast (fb_bpp f)]"

definition dev_tty_ioctl :: "u64 \<Rightarrow> u32 \<Rightarrow> u64 \<Rightarrow> 'a tty_state_scheme \<Rightarrow> (int \<times> 'a tty_state_scheme) option" where
  "dev_tty_ioctl node request arg s =
     (case active_tty s of
        None \<Rightarrow> Some (- 1, s)
      | Some i \<Rightarrow>
          if request = TTY_IOCTL_CLEAR_SCREEN then Some (0, put_tty i (snd (tty_clear_impl (tty_array s i, k_mem s))) s)
          else if request = TTY_IOCTL_MAP_FRAMEBUFFER
          then
            if arg = NULL then Some (0, s)
            else do {
              f \<leftarrow> tt_fb (tty_array s i);
              s \<leftarrow> vwrite arg (fb_info f 0xA0000000) (map_framebuffer f 0xA0000000 s);
              Some (0, s)
            }
          else Some (- 1, s))"

text \<open>\<open>tty_ops\<close> and \<open>dir_ops\<close> are the addresses of the tables of operations.\<close>

definition dev_tty_init :: "u64 \<Rightarrow> u64 \<Rightarrow> 'a devfs_scheme \<Rightarrow> 'a devfs_scheme option" where
  "dev_tty_init tty_ops dir_ops s =
     (let (node, s) = vfs_alloc_node s
      in if node = NULL then Some s
         else devfs_register_device dir_ops ''tty'' node (upd_node node (\<lambda>n. n\<lparr>vn_type := VFS_CHAR_DEVICE, vn_ops := tty_ops\<rparr>) s))"

section \<open>Output is total and stays on the screen\<close>

text \<open>The frame buffer of a terminal fits the address space, a character fits the screen, and the buffer of the
  escape sequence holds digits and semicolons within its bounds.\<close>

definition ansi_char :: "char \<Rightarrow> bool" where
  "ansi_char c \<longleftrightarrow> is_digit c \<or> c = CHR '';''"

definition tty_ok :: "framebuffer \<Rightarrow> tty \<Rightarrow> bool" where
  "tty_ok f t \<longleftrightarrow> tt_fb t = Some f \<and> fb_ok f \<and> fb_buffer f \<noteq> NULL \<and>
     unat (fb_buffer f) + unat (fb_height f) * unat (fb_pitch f) \<le> 2 ^ 64 \<and>
     0 < unat (char_w t) \<and> unat (char_w t) \<le> unat (fb_width f) \<and> unat (char_h t) \<le> unat (fb_height f) \<and>
     tt_ops t \<and> ansi_state t \<le> 2 \<and> length (ansi_buf t) < ANSI_BUF_SIZE \<and> list_all ansi_char (ansi_buf t)"

text \<open>The cursor is where a whole character fits; after a line feed it may be just below the last line.\<close>

definition on_screen :: "framebuffer \<Rightarrow> nat \<Rightarrow> tty \<Rightarrow> bool" where
  "on_screen f below t \<longleftrightarrow> ansi_state t = 0 \<and> unat (fb_x t) + unat (char_w t) \<le> unat (fb_width f) \<and>
     unat (fb_y t) + below * unat (char_h t) \<le> unat (fb_height f)"

definition same_outside :: "framebuffer \<Rightarrow> memory \<Rightarrow> memory \<Rightarrow> bool" where
  "same_outside f m m' \<longleftrightarrow> (\<forall>a. a \<notin> fb_area f \<longrightarrow> m' a = m a)"

text \<open>An operation returns, keeps the terminal well-formed and writes to the screen only; and it takes \<open>P\<close> to \<open>Q\<close>.\<close>

definition draws :: "framebuffer \<Rightarrow> (tty \<Rightarrow> bool) \<Rightarrow> (tty \<Rightarrow> bool) \<Rightarrow> (tty \<times> memory \<Rightarrow> (tty \<times> memory) option) \<Rightarrow> bool" where
  "draws f P Q g \<longleftrightarrow> (\<forall>t m. tty_ok f t \<longrightarrow>
     (\<exists>t' m'. g (t, m) = Some (t', m') \<and> tty_ok f t' \<and> (P t \<longrightarrow> Q t') \<and> same_outside f m m'))"

lemma drawsI:
  assumes "\<And>t m. tty_ok f t \<Longrightarrow> \<exists>t' m'. g (t, m) = Some (t', m') \<and> tty_ok f t' \<and> (P t \<longrightarrow> Q t') \<and> same_outside f m m'"
  shows "draws f P Q g"
  using assms unfolding draws_def by blast

lemma drawsE:
  assumes "draws f P Q g" and "tty_ok f t"
  obtains t' m' where "g (t, m) = Some (t', m')" "tty_ok f t'" "P t \<longrightarrow> Q t'" "same_outside f m m'"
  using assms unfolding draws_def by blast

lemma same_outside_refl [simp]: "same_outside f m m"
  by (simp add: same_outside_def)

lemma same_outside_trans: "same_outside f m m' \<Longrightarrow> same_outside f m' m'' \<Longrightarrow> same_outside f m m''"
  by (simp add: same_outside_def)

lemma only_area_outside: "only_area f g \<Longrightarrow> same_outside f m (g m)"
  by (simp add: only_area_def same_outside_def)

lemma draws_bind: "draws f P Q g \<Longrightarrow> draws f Q R h \<Longrightarrow> draws f P R (\<lambda>tm. Option.bind (g tm) h)"
proof (rule drawsI)
  fix t m assume g: "draws f P Q g" and h: "draws f Q R h" and "tty_ok f t"
  then obtain t1 m1 where 1: "g (t, m) = Some (t1, m1)" "tty_ok f t1" "P t \<longrightarrow> Q t1" "same_outside f m m1" by (elim drawsE)
  obtain t2 m2 where 2: "h (t1, m1) = Some (t2, m2)" "tty_ok f t2" "Q t1 \<longrightarrow> R t2" "same_outside f m1 m2" using drawsE [OF h 1(2)] .
  show "\<exists>t' m'. Option.bind (g (t, m)) h = Some (t', m') \<and> tty_ok f t' \<and> (P t \<longrightarrow> R t') \<and> same_outside f m m'"
    using 1 2 same_outside_trans by auto
qed

lemma char_size_simps [simp]:
  "char_w (t\<lparr>fb_x := x\<rparr>) = char_w t" "char_w (t\<lparr>fb_y := x\<rparr>) = char_w t" "char_w (t\<lparr>ansi_state := k\<rparr>) = char_w t"
  "char_w (t\<lparr>ansi_buf := b\<rparr>) = char_w t" "char_w (t\<lparr>fg_color := c\<rparr>) = char_w t" "char_w (t\<lparr>bg_color := c\<rparr>) = char_w t"
  "char_h (t\<lparr>fb_x := x\<rparr>) = char_h t" "char_h (t\<lparr>fb_y := x\<rparr>) = char_h t" "char_h (t\<lparr>ansi_state := k\<rparr>) = char_h t"
  "char_h (t\<lparr>ansi_buf := b\<rparr>) = char_h t" "char_h (t\<lparr>fg_color := c\<rparr>) = char_h t" "char_h (t\<lparr>bg_color := c\<rparr>) = char_h t"
  by (simp_all add: char_w_def char_h_def)

lemma tty_ok_simps [simp]:
  "tty_ok f (t\<lparr>fb_x := x\<rparr>) = tty_ok f t" "tty_ok f (t\<lparr>fb_y := x\<rparr>) = tty_ok f t"
  "tty_ok f (t\<lparr>fg_color := c\<rparr>) = tty_ok f t" "tty_ok f (t\<lparr>bg_color := c\<rparr>) = tty_ok f t"
  by (simp_all add: tty_ok_def)

lemma tty_ok_fb: "tty_ok f t \<Longrightarrow> tt_fb t = Some f \<and> fb_ok f \<and> fb_buffer f \<noteq> NULL \<and> tt_ops t"
  by (simp add: tty_ok_def)

text \<open>The sizes are far from the bounds of a word.\<close>

lemma tty_ok_bounds:
  assumes "tty_ok f t"
  shows "unat (fb_height f) < 2 ^ 62" and "unat (fb_width f) < 2 ^ 62"
    and "unat (char_h t) \<le> unat (fb_height f)" and "unat (char_w t) \<le> unat (fb_width f)"
proof -
  show "unat (char_h t) \<le> unat (fb_height f)" "unat (char_w t) \<le> unat (fb_width f)" using assms by (simp_all add: tty_ok_def)
  have ok: "4 * unat (fb_width f) \<le> unat (fb_pitch f)" "unat (fb_height f) * unat (fb_pitch f) < 2 ^ 64" "1 \<le> unat (fb_width f)"
    using assms by (auto simp: tty_ok_def fb_ok_def)
  have "unat (fb_height f) * 4 \<le> unat (fb_height f) * unat (fb_pitch f)" using ok by (intro mult_le_mono) auto
  from le_less_trans [OF this ok(2)] show "unat (fb_height f) < 2 ^ 62" by simp
  from le_less_trans [OF ok(1) unat_u64_bound] show "unat (fb_width f) < 2 ^ 62" by simp
qed

lemma tty_clear_draws: "draws f (\<lambda>t. ansi_state t = 0) (on_screen f 1) (\<lambda>tm. Some (snd (tty_clear_impl tm)))"
proof (rule drawsI)
  fix t m assume t: "tty_ok f t"
  have "same_outside f m (clear_rows f 0 (bg_color t) m)"
    using t by (intro only_area_outside clear_rows_area) (simp add: tty_ok_fb)
  moreover have "on_screen f 1 (t\<lparr>fb_x := 0, fb_y := 0\<rparr>)" if "ansi_state t = 0"
    using t that by (simp add: on_screen_def tty_ok_def)
  ultimately show "\<exists>t' m'. Some (snd (tty_clear_impl (t, m))) = Some (t', m') \<and> tty_ok f t' \<and>
      (ansi_state t = 0 \<longrightarrow> on_screen f 1 t') \<and> same_outside f m m'"
    using t tty_ok_fb [OF t] by (simp add: tty_clear_impl_def vid_fb_clear_def no_buffer_def)
qed

text \<open>The copy of scrolling stays within the buffer.\<close>

lemma scroll_copy:
  assumes t: "tty_ok f t" and k: "unat k < unat (fb_height f)" and r: "unat r \<le> unat (fb_height f) - unat k"
  shows "same_outside f m (snd (memmove m (fb_buffer f) (fb_buffer f + 4 * (k * (fb_pitch f div 4))) (r * fb_pitch f)))"
proof -
  let ?h = "unat (fb_height f)" and ?p = "unat (fb_pitch f)"
  have fit: "unat (fb_buffer f) + ?h * ?p \<le> 2 ^ 64" "?h * ?p < 2 ^ 64" using t by (simp_all add: tty_ok_def fb_ok_def)
  have rp: "unat r * ?p \<le> (?h - unat k) * ?p" by (intro mult_le_mono r le_refl)
  have kp: "unat k * ?p + (?h - unat k) * ?p = ?h * ?p" using k by (simp flip: add_mult_distrib)
  have n: "unat (r * fb_pitch f) = unat r * ?p" using rp kp fit(2) by (intro unat_mult_u64) linarith
  have q: "4 * (unat k * (?p div 4)) \<le> unat k * ?p" by (simp flip: mult.left_commute [of "unat k"])
  have d: "unat (fb_pitch f div 4) = ?p div 4" by (simp add: unat_div)
  have "4 * (k * (fb_pitch f div 4)) = of_nat (4 * (unat k * (?p div 4)))" by (simp add: d flip: d)
  then have o': "unat (4 * (k * (fb_pitch f div 4))) = 4 * (unat k * (?p div 4))" using q kp fit(2) by (simp only: unat_of_nat_u64)
  have src: "unat (fb_buffer f + 4 * (k * (fb_pitch f div 4))) \<le> unat (fb_buffer f) + unat k * ?p"
    using o' q mod_less_eq_dividend [of "unat (fb_buffer f) + unat (4 * (k * (fb_pitch f div 4)))" "2 ^ LENGTH(64)"]
    unfolding unat_word_ariths(1) by linarith
  have "memmove m (fb_buffer f) (fb_buffer f + 4 * (k * (fb_pitch f div 4))) (r * fb_pitch f) =
      (fb_buffer f, copied m (fb_buffer f) (fb_buffer f + 4 * (k * (fb_pitch f div 4))) (unat (r * fb_pitch f)))"
    using src n rp kp fit(1) by (intro memmove_copied) linarith+
  moreover have "region (fb_buffer f) (unat (r * fb_pitch f)) \<subseteq> fb_area f"
    using n rp kp unfolding fb_area_def by (intro region_mono) linarith
  moreover from this have "copied m d s (unat (r * fb_pitch f)) a = m a" if "a \<notin> fb_area f" "d = fb_buffer f" for a d s
    using that by (intro copied_other) (auto simp: order_less_imp_le)
  ultimately show ?thesis by (simp add: same_outside_def)
qed

lemma unat_ucast_u64_u32_le: "unat (ucast (x :: u64) :: u32) \<le> unat x"
  by (simp add: unsigned_ucast_eq)

lemma tty_scroll_draws: "draws f (on_screen f 0) (on_screen f 1) (\<lambda>tm. Some (snd (tty_scroll_impl 1 tm)))"
proof (rule drawsI)
  fix t m assume t: "tty_ok f t"
  note fb = tty_ok_fb [OF t]
  show "\<exists>t' m'. Some (snd (tty_scroll_impl 1 (t, m))) = Some (t', m') \<and> tty_ok f t' \<and> (on_screen f 0 t \<longrightarrow> on_screen f 1 t') \<and> same_outside f m m'"
  proof (cases "fb_height f \<le> ucast (char_h t)")
    case True
    obtain t' m' where "Some (snd (tty_clear_impl (t, m))) = Some (t', m')" "tty_ok f t'" "ansi_state t = 0 \<longrightarrow> on_screen f 1 t'" "same_outside f m m'"
      using drawsE [OF tty_clear_draws t] .
    then show ?thesis using True fb by (auto simp: tty_scroll_impl_def on_screen_def [of f 0])
  next
    case False
    let ?r = "ucast (fb_height f - ucast (char_h t)) :: u32"
    let ?m1 = "snd (memmove m (fb_buffer f) (fb_buffer f + 4 * (ucast (char_h t) * (fb_pitch f div 4))) (ucast ?r * fb_pitch f))"
    have h: "unat (char_h t) < unat (fb_height f)" using False by (simp add: word_le_unat)
    have "unat (fb_height f - ucast (char_h t)) = unat (fb_height f) - unat (char_h t)" using h by (simp add: unat_sub_le word_le_unat)
    then have "unat ?r \<le> unat (fb_height f) - unat (char_h t)" using unat_ucast_u64_u32_le by metis
    then have "same_outside f m ?m1" using h by (intro scroll_copy [OF t]) simp_all
    moreover have "same_outside f ?m1 (clear_rows f (unat ?r) (bg_color t) ?m1)" using fb by (intro only_area_outside clear_rows_area) simp
    ultimately have m: "same_outside f m (clear_rows f (unat ?r) (bg_color t) ?m1)" by (rule same_outside_trans)
    have "on_screen f 1 (t\<lparr>fb_y := (if ucast (char_h t) \<le> fb_y t then fb_y t - ucast (char_h t) else 0)\<rparr>)" if "on_screen f 0 t"
      using that h by (simp add: on_screen_def unat_sub_le word_le_unat)
    then show ?thesis using False fb t m by (simp add: tty_scroll_impl_def Let_def)
  qed
qed

lemma put_end_draws: "draws f (on_screen f 0) (on_screen f 1) put_end"
proof (rule drawsI)
  fix t m assume t: "tty_ok f t"
  obtain t' m' where s: "Some (snd (tty_scroll_impl 1 (t, m))) = Some (t', m')" "tty_ok f t'" "on_screen f 0 t \<longrightarrow> on_screen f 1 t'" "same_outside f m m'"
    using drawsE [OF tty_scroll_draws t] .
  have "on_screen f 1 t" if "on_screen f 0 t" "\<not> fb_height f < fb_y t + ucast (char_h t)"
  proof -
    have "unat (fb_y t) + unat (char_h t) < 2 ^ 64" using that(1) tty_ok_bounds(1,3) [OF t] by (simp add: on_screen_def)
    then show ?thesis using that by (simp add: on_screen_def word_less_unat unat_add_u64 not_less)
  qed
  then show "\<exists>t' m'. put_end (t, m) = Some (t', m') \<and> tty_ok f t' \<and> (on_screen f 0 t \<longrightarrow> on_screen f 1 t') \<and> same_outside f m m'"
    using s t tty_ok_fb [OF t] by (auto simp: put_end_def)
qed

lemma draw_char_area: "tty_ok f t \<Longrightarrow> same_outside f m (draw_char font c (t, m))"
  using tty_ok_fb [of f t] only_area_outside [OF draw_glyph_area]
  by (auto simp: draw_char_def vid_fb_drawchar_psf_def vid_fb_drawchar_def no_buffer_def Let_def split: option.split)

lemma line_feed_draws:
  "draws f (on_screen f 1) (on_screen f 0) (\<lambda>tm. Some ((fst tm)\<lparr>fb_x := 0, fb_y := fb_y (fst tm) + ucast (char_h (fst tm))\<rparr>, snd tm))"
proof (rule drawsI)
  fix t m assume t: "tty_ok f t"
  have "unat (fb_y t + ucast (char_h t)) = unat (fb_y t) + unat (char_h t)" if "on_screen f 1 t"
    using that tty_ok_bounds(1) [OF t] by (simp add: on_screen_def unat_add_u64)
  then have "on_screen f 1 t \<Longrightarrow> on_screen f 0 (t\<lparr>fb_x := 0, fb_y := fb_y t + ucast (char_h t)\<rparr>)"
    using t by (simp add: on_screen_def tty_ok_def)
  then show "\<exists>t' m'. Some ((fst (t, m))\<lparr>fb_x := 0, fb_y := fb_y (fst (t, m)) + ucast (char_h (fst (t, m)))\<rparr>, snd (t, m)) = Some (t', m') \<and>
      tty_ok f t' \<and> (on_screen f 1 t \<longrightarrow> on_screen f 0 t') \<and> same_outside f m m'"
    using t by simp
qed

text \<open>The last column where a character fits.\<close>

lemma last_column:
  assumes "0 < unat w" and "unat w \<le> unat (b :: u64)"
  shows "unat (b div w * w - w) + unat w \<le> unat b"
proof -
  have q: "unat (b div w) = unat b div unat w" by (rule unat_div)
  have le: "unat b div unat w * unat w \<le> unat b" by simp
  then have m: "unat (b div w * w) = unat b div unat w * unat w"
    using unat_u64_bound [of b] by (subst unat_mult_u64) (simp_all only: q)
  have "1 \<le> unat b div unat w" using assms div_greater_zero_iff [of "unat b" "unat w"] by linarith
  then have "unat w \<le> unat b div unat w * unat w" using mult_le_mono1 [of 1 _ "unat w"] by simp
  then show ?thesis using m le by (simp add: unat_sub_le word_le_unat)
qed

lemma put_backspace_draws: "draws f (on_screen f 1) (on_screen f 1) (put_backspace font)"
proof (rule drawsI)
  fix t m assume t: "tty_ok f t"
  let ?w = "ucast (char_w t) :: u64" and ?h = "ucast (char_h t) :: u64"
  define t' where "t' = (if ?w \<le> fb_x t then t\<lparr>fb_x := fb_x t - ?w\<rparr>
    else if ?h \<le> fb_y t then t\<lparr>fb_y := fb_y t - ?h, fb_x := fb_width f div ?w * ?w - ?w\<rparr> else t\<lparr>fb_x := 0\<rparr>)"
  have w: "0 < unat ?w" "unat ?w \<le> unat (fb_width f)" and nz: "?w \<noteq> 0"
    using t by (auto simp: tty_ok_def simp flip: unat_gt_0)
  have "put_backspace font (t, m) = Some (t', draw_char font CHR '' '' (t', m))"
    using tty_ok_fb [OF t] nz by (simp add: put_backspace_def t'_def Let_def)
  moreover have ok: "tty_ok f t'" using t by (simp add: t'_def)
  moreover have "on_screen f 1 t'" if "on_screen f 1 t"
    using that w last_column [OF w] by (auto simp: on_screen_def t'_def unat_sub_le word_le_unat)
  ultimately show "\<exists>t' m'. put_backspace font (t, m) = Some (t', m') \<and> tty_ok f t' \<and> (on_screen f 1 t \<longrightarrow> on_screen f 1 t') \<and> same_outside f m m'"
    using draw_char_area [OF ok] by blast
qed

lemma put_glyph_draws: "draws f (on_screen f 1) (on_screen f 0) (\<lambda>tm. Some (put_glyph font c tm))"
proof (rule drawsI)
  fix t m assume t: "tty_ok f t"
  let ?w = "ucast (char_w t) :: u64" and ?h = "ucast (char_h t) :: u64"
  define t' where "t' = (if fb_width f < fb_x t + ?w + ?w then t\<lparr>fb_x := 0, fb_y := fb_y t + ?h\<rparr> else t\<lparr>fb_x := fb_x t + ?w\<rparr>)"
  have "put_glyph font c (t, m) = (t', draw_char font c (t, m))"
    using tty_ok_fb [OF t] by (simp add: put_glyph_def t'_def Let_def)
  moreover have "on_screen f 0 t'" if on: "on_screen f 1 t"
  proof -
    note b = tty_ok_bounds [OF t]
    have "unat (fb_y t + ?h) = unat (fb_y t) + unat (char_h t)" using on b by (simp add: on_screen_def unat_add_u64)
    moreover have x: "unat (fb_x t + ?w) = unat (fb_x t) + unat (char_w t)" using on b by (simp add: on_screen_def unat_add_u64)
    moreover have "unat (fb_x t + ?w + ?w) = unat (fb_x t) + unat (char_w t) + unat (char_w t)"
      using on b x by (subst unat_add_u64) (simp_all add: on_screen_def)
    ultimately show ?thesis using on t by (simp add: on_screen_def tty_ok_def t'_def word_less_unat)
  qed
  ultimately show "\<exists>t' m'. Some (put_glyph font c (t, m)) = Some (t', m') \<and> tty_ok f t' \<and> (on_screen f 1 t \<longrightarrow> on_screen f 0 t') \<and> same_outside f m m'"
    using t draw_char_area [OF t] by (simp add: t'_def)
qed

lemma ansi_number_rest:
  "list_all ansi_char p \<Longrightarrow> list_all ansi_char (snd (ansi_number p v)) \<and> length (snd (ansi_number p v)) \<le> length p \<and>
     (snd (ansi_number p v) = [] \<or> hd (snd (ansi_number p v)) = CHR '';'')"
proof (induction p arbitrary: v)
  case (Cons c p)
  then show ?case using Cons.IH [of "v * 10 + (of_char c - of_char CHR ''0'')"] by (auto simp: ansi_char_def le_SucI)
qed simp

text \<open>The arguments of a sequence of digits and semicolons are collected.\<close>

lemma ansi_args_ends: "list_all ansi_char p \<Longrightarrow> \<exists>r. ansi_args p args = Some r"
proof (induction "length p" arbitrary: p args rule: less_induct)
  case less
  show ?case
  proof (cases "p = []")
    case True
    then show ?thesis by (subst ansi_args.simps) simp
  next
    case False
    obtain v q where q: "ansi_number p 0 = (v, q)" by fastforce
    let ?q = "if q \<noteq> [] \<and> hd q = CHR '';'' then tl q else q"
    have "list_all ansi_char q" "length q \<le> length p" "q = [] \<or> hd q = CHR '';''" using ansi_number_rest [OF less.prems, of 0] q by auto
    then have "length ?q < length p" "list_all ansi_char ?q" using False by (cases q; auto)+
    then obtain r where "ansi_args ?q (if length args < 16 then args @ [v] else args) = Some r" using less.hyps by blast
    then show ?thesis using False q by (subst ansi_args.simps) (auto simp: Let_def)
  qed
qed

lemma apply_sgr_ok: "tty_ok f (apply_sgr v t) = tty_ok f t"
  by (simp add: apply_sgr_def reset_colors_def Let_def)

lemma fold_sgr_ok: "tty_ok f (fold apply_sgr vs t) = tty_ok f t"
  by (induction vs arbitrary: t) (simp_all add: apply_sgr_ok)

text \<open>An escape sequence.\<close>

lemma ansi_draws: "draws f (\<lambda>_. False) Q (tty_handle_ansi_c c)"
proof (rule drawsI)
  fix t m assume t: "tty_ok f t"
  let ?t = "t\<lparr>ansi_state := 0\<rparr>"
  have t0: "tty_ok f ?t" using t by (simp add: tty_ok_def)
  have ends: "list_all ansi_char (ansi_buf t)" "length (ansi_buf t) < ANSI_BUF_SIZE" using t by (simp_all add: tty_ok_def)
  have 1: "tty_ok f (t\<lparr>ansi_state := 2, ansi_buf := []\<rparr>)" using t by (simp add: tty_ok_def ANSI_BUF_SIZE_def)
  have 2: "tty_ok f (t\<lparr>ansi_buf := ansi_buf t @ [c]\<rparr>)" if "is_digit c \<or> c = CHR '';''" "length (ansi_buf t) < ANSI_BUF_SIZE - 1"
    using t that by (simp add: tty_ok_def ansi_char_def)
  obtain t2 where sgr: "ansi_sgr ?t = Some t2" "tty_ok f t2"
    using ansi_args_ends [OF ends(1), of "[]"] t0 by (auto simp: ansi_sgr_def fold_sgr_ok apply_sgr_ok)
  obtain t3 m3 where clr: "Some (snd (tty_clear_impl (?t, m))) = Some (t3, m3)" "tty_ok f t3" "same_outside f m m3"
    using drawsE [OF tty_clear_draws t0] .
  have pos: "tty_ok f (ansi_position ?t)" using t0 by (simp add: ansi_position_def Let_def split: prod.split)
  let ?goal = "\<exists>t' m'. tty_handle_ansi_c c (t, m) = Some (t', m') \<and> tty_ok f t' \<and> (False \<longrightarrow> Q t') \<and> same_outside f m m'"
  consider "ansi_state t = 1" | "ansi_state t = 2" "is_digit c \<or> c = CHR '';''"
    | "ansi_state t = 2" "\<not> (is_digit c \<or> c = CHR '';'')" | "ansi_state t \<noteq> 1" "ansi_state t \<noteq> 2" by blast
  then show ?goal
  proof cases
    case 1
    with \<open>tty_ok f (t\<lparr>ansi_state := 2, ansi_buf := []\<rparr>)\<close> t0 show ?thesis by (simp add: tty_handle_ansi_c_def)
  next
    case 3
    then have "tty_handle_ansi_c c (t, m) =
       (if c = CHR ''m'' then Some (t2, m)
        else if c = CHR ''J'' then Some (if ansi_buf t \<noteq> [] \<and> hd (ansi_buf t) = CHR ''2'' \<and> tt_ops t then (t3, m3) else (?t, m))
        else if c = CHR ''H'' \<or> c = CHR ''f'' then Some (ansi_position ?t, m) else Some (?t, m))"
      using sgr(1) clr(1) by (simp add: tty_handle_ansi_c_def Let_def)
    then show ?thesis using sgr(2) clr(2,3) pos t0 by simp
  qed (use 2 t in \<open>simp_all add: tty_handle_ansi_c_def\<close>)
qed

lemma put_plain_draws: "draws f (on_screen f 1) (on_screen f 1) (put_plain font c)"
proof -
  have "put_plain font c =
     (if c = CHR 0x0A then (\<lambda>tm. Option.bind (Some ((fst tm)\<lparr>fb_x := 0, fb_y := fb_y (fst tm) + ucast (char_h (fst tm))\<rparr>, snd tm)) put_end)
      else if c = CHR 0x08 then (\<lambda>tm. Option.bind (put_backspace font tm) put_end)
      else (\<lambda>tm. Option.bind (Some (put_glyph font c tm)) put_end))"
    by (auto simp: put_plain_def fun_eq_iff)
  moreover have "draws f (on_screen f 1) (on_screen f 0) (put_backspace font)"
    using put_backspace_draws unfolding draws_def on_screen_def by fastforce
  then have "draws f (on_screen f 1) (on_screen f 1) (\<lambda>tm. Option.bind (put_backspace font tm) put_end)" by (rule draws_bind [OF _ put_end_draws])
  ultimately show ?thesis
    using draws_bind [OF line_feed_draws put_end_draws] draws_bind [OF put_glyph_draws put_end_draws] by simp
qed

lemma put_end_rests: "draws f (on_screen f 1) (on_screen f 1) put_end"
  using put_end_draws unfolding draws_def on_screen_def by fastforce

lemma put_spaces_draws: "draws f (on_screen f 1) (on_screen f 1) (put_spaces font n)"
proof (induction n)
  case 0
  show ?case by (rule drawsI) simp
next
  case (Suc n)
  have "put_spaces font (Suc n) = (\<lambda>tm. Option.bind (put_plain font CHR '' '' tm) (put_spaces font n))" by (simp add: fun_eq_iff)
  then show ?case using draws_bind [OF put_plain_draws Suc] by simp
qed

lemma tty_putchar_draws: "draws f (\<lambda>t. c \<noteq> CHR 0x1B \<and> on_screen f 1 t) (on_screen f 1) (tty_putchar_impl font c)"
proof (rule drawsI)
  fix t m assume t: "tty_ok f t"
  obtain t1 m1 where 1: "tty_handle_ansi_c c (t, m) = Some (t1, m1)" "tty_ok f t1" "same_outside f m m1"
    using drawsE [OF ansi_draws t] .
  obtain t2 m2 where 2: "Option.bind (put_spaces font 4 (t, m)) put_end = Some (t2, m2)" "tty_ok f t2" "on_screen f 1 t \<longrightarrow> on_screen f 1 t2" "same_outside f m m2"
    using drawsE [OF draws_bind [OF put_spaces_draws put_end_rests] t] .
  obtain t3 m3 where 3: "put_plain font c (t, m) = Some (t3, m3)" "tty_ok f t3" "on_screen f 1 t \<longrightarrow> on_screen f 1 t3" "same_outside f m m3"
    using drawsE [OF put_plain_draws t] .
  have "on_screen f 1 t \<Longrightarrow> ansi_state t = 0" by (simp add: on_screen_def)
  moreover have "tty_ok f (t\<lparr>ansi_state := 1\<rparr>)" using t by (simp add: tty_ok_def)
  ultimately show "\<exists>t' m'. tty_putchar_impl font c (t, m) = Some (t', m') \<and> tty_ok f t' \<and>
      (c \<noteq> CHR 0x1B \<and> on_screen f 1 t \<longrightarrow> on_screen f 1 t') \<and> same_outside f m m'"
    using 1 2 3 by (auto simp: tty_putchar_impl_def)
qed

text \<open>C21: The output of a terminal is total, keeps the terminal well-formed, and is safe for the rest of memory.  Whatever string is printed,
  with whatever escape sequences, complete or not, \<open>tty_puts_loop\<close> returns; the buffer of the escape sequence stays within
  its bounds and the state machine in its states; and no byte outside the frame buffer changes.  Without escape
  characters the cursor stays where a whole character fits the screen.\<close>

theorem tty_puts_well_formed:
  assumes "tty_ok f t"
  shows "\<exists>t' m'. tty_puts_loop font6x8 str (t, m) = Some (t', m') \<and> tty_ok f t' \<and>
    (\<forall>a. a \<notin> fb_area f \<longrightarrow> m' a = m a) \<and> (CHR 0x1B \<notin> set str \<and> on_screen f 1 t \<longrightarrow> on_screen f 1 t')"
  using assms
proof (induction str arbitrary: t m)
  case (Cons c str)
  obtain t1 m1 where 1: "tty_putchar_impl font6x8 c (t, m) = Some (t1, m1)" "tty_ok f t1"
    "c \<noteq> CHR 0x1B \<and> on_screen f 1 t \<longrightarrow> on_screen f 1 t1" "same_outside f m m1"
    using drawsE [OF tty_putchar_draws Cons.prems] .
  then show ?case using Cons.IH [OF 1(2), of m1] by (fastforce simp: same_outside_def)
qed simp

definition tty_example :: "framebuffer \<times> tty" where
  "tty_example =
     (let f = \<lparr>fb_width = 12, fb_height = 16, fb_pitch = 48, fb_bpp = 32, fb_buffer = 0x1000, fb_swap = 0x1000\<rparr>
      in (f, \<lparr>tt_flags = 0, cursor_col = 0, cursor_row = 0, fg_color = 0xFFFFFF, bg_color = 0, tt_pwd = None, tt_cwd = 0, tt_font = None,
            tt_fb = Some f, fb_x = 6, fb_y = 8, tt_ops = True, freezed = False,
            input_buffer = \<lparr>rb_buffer = 0, rb_capacity = 0, rb_head = 0, rb_tail = 0, rb_count = 0\<rparr>,
            ansi_state = 0, ansi_buf = [], ansi_pallet = (\<lambda>i. of_nat i), fg_color_index = 15, bg_color_index = 0\<rparr>))"

theorem tty_puts_well_formed_witness:
  "\<exists>t' m'. tty_puts_loop (\<lambda>i. of_nat i) ''ab'' (snd tty_example, \<lambda>a. ucast a) = Some (t', m') \<and> tty_ok (fst tty_example) t' \<and>
     m' 0x2000 = ucast (0x2000 :: u64) \<and> on_screen (fst tty_example) 1 t'"
proof -
  have ok: "tty_ok (fst tty_example) (snd tty_example)"
    by (simp add: tty_ok_def tty_example_def Let_def fb_ok_def char_w_def char_h_def ANSI_BUF_SIZE_def)
  have on: "on_screen (fst tty_example) 1 (snd tty_example)" by (simp add: on_screen_def tty_example_def Let_def char_w_def char_h_def)
  have out: "0x2000 \<notin> fb_area (fst tty_example)" by (simp add: fb_area_def region_iff tty_example_def Let_def)
  show ?thesis using tty_puts_well_formed [OF ok, of "\<lambda>i. of_nat i" "''ab''" "\<lambda>a. ucast a"] on out by fastforce
qed

end
