(* ===== verification/Devices.thy ===== *)
theory Devices
  imports Tty
begin

text \<open>
  The devices of \<open>krnl/dev\<close>: \<open>null.c\<close>, \<open>zero.c\<close>, \<open>random.c\<close>, \<open>ramdisk.c\<close>, \<open>fbdev.c\<close> and \<open>input.c\<close>.

  The structures behind a node's \<open>device\<close> pointer are typed stores.  Buffers are accessed through the page tables
  that are active; the events of input devices are bytes in a ring buffer, which addresses the memory directly.  The addresses of the tables of
  operations are arguments.  A loop around \<open>sched_yield\<close> is modelled one round at a time.
\<close>

section \<open>State\<close>

record ramdisk =
  rd_base :: u64
  rd_size :: u64

record fbdev =
  fd_base :: u64
  fd_size :: u64
  fd_info :: framebuffer

record devices = tty_state +
  ramdisks :: "u64 \<Rightarrow> ramdisk"
  fbdevs :: "u64 \<Rightarrow> fbdev"
  ramdisk_counter :: u32
  fbdev_counter :: u32
  rand_state :: u32
  mouse_rb :: ring_buffer
  kbd_rb :: ring_buffer
  kbd_led_state :: u8

definition RAMDISK_SIZE :: u64 where "RAMDISK_SIZE = 16"
definition FBDEV_SIZE :: u64 where "FBDEV_SIZE = 64"

definition no_ops :: "'s vfs_operations" where
  "no_ops = \<lparr>op_read = None, op_write = None, op_open = None, op_close = None, op_readdir = None, op_finddir = None, op_create = None,
     op_mkdir = None, op_rmdir = None, op_unlink = None, op_rename = None, op_stat = None, op_ioctl = None\<rparr>"

text \<open>A new node of the type, with its table of operations and its size, registered under the path.\<close>

definition dev_register ::
  "u64 \<Rightarrow> u64 \<Rightarrow> vfs_node_type \<Rightarrow> u32 \<Rightarrow> string \<Rightarrow> 'a devfs_scheme \<Rightarrow> 'a devfs_scheme option" where
  "dev_register dir_ops ops ty sz path s =
     (let (node, s) = vfs_alloc_node s
      in if node = NULL then Some s
         else devfs_register_device dir_ops path node (upd_node node (\<lambda>n. n\<lparr>vn_type := ty, vn_ops := ops, vn_size := sz\<rparr>) s))"

section \<open>Null, zero, random\<close>

definition null_read :: "u64 \<Rightarrow> u32 \<Rightarrow> u32 \<Rightarrow> u64 \<Rightarrow> 's \<Rightarrow> (u32 \<times> 's) option" where
  "null_read node offset sz buffer s = Some (0, s)"

definition null_write :: "u64 \<Rightarrow> u32 \<Rightarrow> u32 \<Rightarrow> u64 \<Rightarrow> 's \<Rightarrow> (u32 \<times> 's) option" where
  "null_write node offset sz buffer s = Some (sz, s)"

definition null_ops :: "'s vfs_operations" where
  "null_ops = no_ops\<lparr>op_read := Some null_read, op_write := Some null_write\<rparr>"

definition dev_null_init :: "u64 \<Rightarrow> u64 \<Rightarrow> 'a devfs_scheme \<Rightarrow> 'a devfs_scheme option" where
  "dev_null_init dir_ops ops s = dev_register dir_ops ops VFS_CHAR_DEVICE 2048 ''null'' s"

definition zero_read :: "u64 \<Rightarrow> u32 \<Rightarrow> u32 \<Rightarrow> u64 \<Rightarrow> 'a kernel_scheme \<Rightarrow> (u32 \<times> 'a kernel_scheme) option" where
  "zero_read node offset sz buffer s = map_option (Pair sz) (vfill (unat sz) buffer 0 s)"

definition zero_write :: "u64 \<Rightarrow> u32 \<Rightarrow> u32 \<Rightarrow> u64 \<Rightarrow> 's \<Rightarrow> (u32 \<times> 's) option" where
  "zero_write node offset sz buffer s = Some (sz, s)"

definition zero_ops :: "'a kernel_scheme vfs_operations" where
  "zero_ops = no_ops\<lparr>op_read := Some zero_read, op_write := Some zero_write\<rparr>"

definition dev_zero_init :: "u64 \<Rightarrow> u64 \<Rightarrow> 'a devfs_scheme \<Rightarrow> 'a devfs_scheme option" where
  "dev_zero_init dir_ops ops s = dev_register dir_ops ops VFS_CHAR_DEVICE 2048 ''zero'' s"

definition rand_byte :: "'a devices_scheme \<Rightarrow> u8 \<times> 'a devices_scheme" where
  "rand_byte s =
     (let r = rand_state s * 1103515245 + 12345
      in (ucast (drop_bit 16 r AND 0xFF), s\<lparr>rand_state := r\<rparr>))"

fun random_loop :: "nat \<Rightarrow> u64 \<Rightarrow> 'a devices_scheme \<Rightarrow> 'a devices_scheme option" where
  "random_loop 0 buffer s = Some s"
| "random_loop (Suc n) buffer s =
     (let (b, s) = rand_byte s in Option.bind (vstore buffer b s) (random_loop n (buffer + 1)))"

definition random_read :: "u64 \<Rightarrow> u32 \<Rightarrow> u32 \<Rightarrow> u64 \<Rightarrow> 'a devices_scheme \<Rightarrow> (u32 \<times> 'a devices_scheme) option" where
  "random_read node offset sz buffer s = map_option (Pair sz) (random_loop (unat sz) buffer s)"

definition null_write_proxy :: "u64 \<Rightarrow> u32 \<Rightarrow> u32 \<Rightarrow> u64 \<Rightarrow> 's \<Rightarrow> (u32 \<times> 's) option" where
  "null_write_proxy node offset sz buffer s = Some (sz, s)"

definition random_ops :: "'a devices_scheme vfs_operations" where
  "random_ops = no_ops\<lparr>op_read := Some random_read, op_write := Some null_write_proxy\<rparr>"

definition dev_random_init :: "u64 \<Rightarrow> u64 \<Rightarrow> 'a devfs_scheme \<Rightarrow> 'a devfs_scheme option" where
  "dev_random_init dir_ops ops s = do {
     s \<leftarrow> dev_register dir_ops ops VFS_CHAR_DEVICE 2048 ''random'' s;
     dev_register dir_ops ops VFS_CHAR_DEVICE 2048 ''urandom'' s
   }"

section \<open>Memory as a device\<close>

text \<open>The part of a device of \<open>sz\<close> bytes that a request covers; \<open>offset + size\<close> wraps in 32 bits.\<close>

definition clip :: "u64 \<Rightarrow> u32 \<Rightarrow> u32 \<Rightarrow> u32" where
  "clip limit offset sz = (if limit < ucast (offset + sz) then ucast (limit - ucast offset) else sz)"

definition ramdisk_read :: "u64 \<Rightarrow> u32 \<Rightarrow> u32 \<Rightarrow> u64 \<Rightarrow> 'a devices_scheme \<Rightarrow> (u32 \<times> 'a devices_scheme) option" where
  "ramdisk_read node offset sz buffer s =
     (let ram0 = ramdisks s (device (vs_nodes s node))
      in if rd_size ram0 \<le> ucast offset then Some (0, s)
         else
           let sz = clip (rd_size ram0) offset sz
           in map_option (Pair sz) (vcopy (unat sz) buffer (rd_base ram0 + ucast offset) s))"

definition ramdisk_ops :: "'a devices_scheme vfs_operations" where
  "ramdisk_ops = no_ops\<lparr>op_read := Some ramdisk_read\<rparr>"

text \<open>The name of the node: the prefix and the number; \<open>m\<close> is the memory that \<open>snprintf\<close> may read.\<close>

definition numbered_name :: "string \<Rightarrow> u32 \<Rightarrow> memory \<Rightarrow> string option" where
  "numbered_name pre k m = map_option (take 255) (vf_out m (\<lambda>_. ucast k) 0 (pre @ ''%u''))"

definition dev_ramdisk_init ::
  "u64 \<Rightarrow> u64 \<Rightarrow> u64 \<Rightarrow> u64 \<Rightarrow> 'a devices_scheme \<Rightarrow> (u64 \<times> 'a devices_scheme) option" where
  "dev_ramdisk_init dir_ops ops base sz s =
     (let (rd, s) = k_kmalloc RAMDISK_SIZE s
      in if rd = NULL then Some (NULL, s)
         else
           let s = s\<lparr>ramdisks := (ramdisks s)(rd := \<lparr>rd_base = base, rd_size = sz\<rparr>)\<rparr>;
               (node, s) = vfs_alloc_node s
           in if node = NULL then Some (NULL, s)
              else do {
                nm \<leftarrow> numbered_name ''ram'' (ramdisk_counter s) (k_mem s);
                let s = s\<lparr>ramdisk_counter := ramdisk_counter s + 1\<rparr>;
                let s = upd_node node (\<lambda>n. n\<lparr>vn_name := nm, vn_type := VFS_BLOCK_DEVICE, vn_ops := ops, vn_size := ucast sz, device := rd\<rparr>) s;
                s \<leftarrow> devfs_register_device dir_ops nm node s;
                Some (node, s)
              })"

definition fbdev_read :: "u64 \<Rightarrow> u32 \<Rightarrow> u32 \<Rightarrow> u64 \<Rightarrow> 'a devices_scheme \<Rightarrow> (u32 \<times> 'a devices_scheme) option" where
  "fbdev_read node offset sz buffer s =
     (let fb = fbdevs s (device (vs_nodes s node))
      in if fd_size fb \<le> ucast offset then Some (0, s)
         else
           let sz = clip (fd_size fb) offset sz
           in map_option (Pair sz) (vcopy (unat sz) buffer (fd_base fb + ucast offset) s))"

definition fbdev_write :: "u64 \<Rightarrow> u32 \<Rightarrow> u32 \<Rightarrow> u64 \<Rightarrow> 'a devices_scheme \<Rightarrow> (u32 \<times> 'a devices_scheme) option" where
  "fbdev_write node offset sz buffer s =
     (let fb = fbdevs s (device (vs_nodes s node))
      in if fd_size fb \<le> ucast offset then Some (0, s)
         else
           let sz = clip (fd_size fb) offset sz
           in map_option (Pair sz) (vcopy (unat sz) (fd_base fb + ucast offset) buffer s))"

definition FBDEV_IOCTL_MAP :: u32 where "FBDEV_IOCTL_MAP = 0x1002"

definition fbdev_ioctl :: "u64 \<Rightarrow> u32 \<Rightarrow> u64 \<Rightarrow> 'a devices_scheme \<Rightarrow> (int \<times> 'a devices_scheme) option" where
  "fbdev_ioctl node request arg s =
     (if request = FBDEV_IOCTL_MAP \<and> arg \<noteq> NULL
      then
        let f = fd_info (fbdevs s (device (vs_nodes s node)))
        in map_option (Pair 0) (vwrite arg (fb_info f 0xA0000000) (map_framebuffer f 0xA0000000 s))
      else Some (- 1, s))"

definition fbdev_ops :: "'a devices_scheme vfs_operations" where
  "fbdev_ops = no_ops\<lparr>op_read := Some fbdev_read, op_write := Some fbdev_write, op_ioctl := Some fbdev_ioctl\<rparr>"

definition dev_fb_init ::
  "u64 \<Rightarrow> u64 \<Rightarrow> framebuffer \<Rightarrow> 'a devices_scheme \<Rightarrow> (u64 \<times> 'a devices_scheme) option" where
  "dev_fb_init dir_ops ops info s =
     (let (fb, s) = k_kmalloc FBDEV_SIZE s
      in if fb = NULL then Some (NULL, s)
         else
           let sz = fb_width info * fb_height info * ucast (fb_bpp info div 8);
               s = s\<lparr>fbdevs := (fbdevs s)(fb := \<lparr>fd_base = fb_buffer info, fd_size = sz, fd_info = info\<rparr>)\<rparr>;
               (node, s) = vfs_alloc_node s
           in if node = NULL then Some (NULL, s)
              else do {
                nm \<leftarrow> numbered_name ''fb'' (fbdev_counter s) (k_mem s);
                let s = s\<lparr>fbdev_counter := fbdev_counter s + 1\<rparr>;
                let s = upd_node node (\<lambda>n. n\<lparr>vn_name := nm, vn_type := VFS_BLOCK_DEVICE, vn_ops := ops, vn_size := ucast sz, device := fb\<rparr>) s;
                s \<leftarrow> devfs_register_device dir_ops nm node s;
                Some (node, s)
              })"

section \<open>Input\<close>

definition EV_SYN :: u16 where "EV_SYN = 0"
definition EV_KEY :: u16 where "EV_KEY = 1"
definition EV_REL :: u16 where "EV_REL = 2"

text \<open>\<open>struct input_event\<close> in memory, 24 bytes; the time is zero.\<close>

definition INPUT_EVENT_SIZE :: u64 where "INPUT_EVENT_SIZE = 24"

definition event_bytes :: "u16 \<Rightarrow> u16 \<Rightarrow> u32 \<Rightarrow> u8 list" where
  "event_bytes ty code v = replicate 16 0 @ le_bytes 2 ty @ le_bytes 2 code @ le_bytes 4 v"

text \<open>\<open>sp\<close> is the address of the local variable \<open>ev\<close>.\<close>

definition report_event :: "u64 \<Rightarrow> u16 \<Rightarrow> u16 \<Rightarrow> u32 \<Rightarrow> ring_buffer \<Rightarrow> memory \<Rightarrow> ring_buffer \<times> memory" where
  "report_event sp ty code v rb m =
     (let m = fold (\<lambda>i m. m(sp + of_nat i := event_bytes ty code v ! i)) [0..<24] m;
          (_, rb, m) = ring_buffer_write m (Some rb) sp INPUT_EVENT_SIZE
      in (the rb, m))"

definition report_mouse :: "u64 \<Rightarrow> u16 \<Rightarrow> u16 \<Rightarrow> u32 \<Rightarrow> 'a devices_scheme \<Rightarrow> 'a devices_scheme" where
  "report_mouse sp ty code v s =
     (let (rb, m) = report_event sp ty code v (mouse_rb s) (k_mem s) in set_mem m (s\<lparr>mouse_rb := rb\<rparr>))"

definition report_kbd :: "u64 \<Rightarrow> u16 \<Rightarrow> u16 \<Rightarrow> u32 \<Rightarrow> 'a devices_scheme \<Rightarrow> 'a devices_scheme" where
  "report_kbd sp ty code v s =
     (let (rb, m) = report_event sp ty code v (kbd_rb s) (k_mem s) in set_mem m (s\<lparr>kbd_rb := rb\<rparr>))"

definition input_report_key_mouse :: "u64 \<Rightarrow> u16 \<Rightarrow> u32 \<Rightarrow> 'a devices_scheme \<Rightarrow> 'a devices_scheme" where
  "input_report_key_mouse sp code v s = report_mouse sp EV_KEY code v s"

definition input_report_rel_mouse :: "u64 \<Rightarrow> u16 \<Rightarrow> u32 \<Rightarrow> 'a devices_scheme \<Rightarrow> 'a devices_scheme" where
  "input_report_rel_mouse sp code v s = report_mouse sp EV_REL code v s"

definition input_sync_mouse :: "u64 \<Rightarrow> 'a devices_scheme \<Rightarrow> 'a devices_scheme" where
  "input_sync_mouse sp s = report_mouse sp EV_SYN 0 0 s"

definition input_report_key_kbd :: "u64 \<Rightarrow> u16 \<Rightarrow> u32 \<Rightarrow> 'a devices_scheme \<Rightarrow> 'a devices_scheme" where
  "input_report_key_kbd sp code v s =
     (let s = (if v = 1
               then s\<lparr>kbd_led_state := kbd_led_state s XOR (if code = 0x53 then 1 else 0) XOR (if code = 0x39 then 2 else 0)
                        XOR (if code = 0x47 then 4 else 0)\<rparr>
               else s)
      in report_kbd sp EV_KEY code v s)"

definition input_get_kbd_leds :: "'a devices_scheme \<Rightarrow> u8" where
  "input_get_kbd_leds s = kbd_led_state s"

definition input_sync_kbd :: "u64 \<Rightarrow> 'a devices_scheme \<Rightarrow> 'a devices_scheme" where
  "input_sync_kbd sp s = report_kbd sp EV_SYN 0 0 s"

text \<open>A round of the reading loops; the ring buffer of the result replaces the one that was read.\<close>

definition input_read :: "ring_buffer \<Rightarrow> u32 \<Rightarrow> u64 \<Rightarrow> memory \<Rightarrow> u32 io \<times> ring_buffer \<times> memory" where
  "input_read rb sz buffer m =
     (let av = ring_buffer_available (Some rb)
      in if av = 0 then (Yield, rb, m)
         else
           let sz = (if av < ucast sz then ucast av else sz);
               (n, rb, m) = ring_buffer_read m (Some rb) buffer (ucast sz)
           in (Done (ucast n), the rb, m))"

definition input_read_mouse :: "u64 \<Rightarrow> u32 \<Rightarrow> u32 \<Rightarrow> u64 \<Rightarrow> 'a devices_scheme \<Rightarrow> u32 io \<times> 'a devices_scheme" where
  "input_read_mouse node offset sz buffer s =
     (let (r, rb, m) = input_read (mouse_rb s) sz buffer (k_mem s) in (r, set_mem m (s\<lparr>mouse_rb := rb\<rparr>)))"

definition input_read_kbd :: "u64 \<Rightarrow> u32 \<Rightarrow> u32 \<Rightarrow> u64 \<Rightarrow> 'a devices_scheme \<Rightarrow> u32 io \<times> 'a devices_scheme" where
  "input_read_kbd node offset sz buffer s =
     (let (r, rb, m) = input_read (kbd_rb s) sz buffer (k_mem s) in (r, set_mem m (s\<lparr>kbd_rb := rb\<rparr>)))"

text \<open>The ring buffers of 256 events; the result of their initialisation is ignored.\<close>

definition init_events :: "'a kernel_scheme \<Rightarrow> ring_buffer \<Rightarrow> ring_buffer \<times> 'a kernel_scheme" where
  "init_events s rb =
     (let (_, rb, p, m) = ring_buffer_init (ks_pmm (vs_slab s)) (k_mem s) (Some rb) (INPUT_EVENT_SIZE * 256)
      in (the rb, s\<lparr>vs_slab := (vs_slab s)\<lparr>ks_pmm := p, ks_mem := m\<rparr>\<rparr>))"

definition input_init :: "u64 \<Rightarrow> u64 \<Rightarrow> u64 \<Rightarrow> 'a devices_scheme \<Rightarrow> 'a devices_scheme option" where
  "input_init dir_ops mouse_ops kbd_ops s =
     (let (rb, s) = init_events s (mouse_rb s); s = s\<lparr>mouse_rb := rb\<rparr>;
          (rb, s) = init_events s (kbd_rb s); s = s\<lparr>kbd_rb := rb\<rparr>
      in do {
        s \<leftarrow> dev_register dir_ops mouse_ops VFS_CHAR_DEVICE 0 ''input/mouse'' s;
        dev_register dir_ops kbd_ops VFS_CHAR_DEVICE 0 ''input/kbd'' s
      })"

section \<open>The part of a device that a request covers\<close>

text \<open>When \<open>offset + size\<close> fits into 32 bits, the part that is copied lies within the device; when the sum wraps, a
  request may go beyond its end.\<close>

lemma clip_within:
  assumes "ucast offset < limit" "unat offset + unat sz < 2 ^ 32"
  shows "unat offset + unat (clip limit offset sz) \<le> unat limit"
proof (cases "limit < ucast (offset + sz)")
  case True
  have sum: "unat (offset + sz) = unat offset + unat sz"
    using assms(2) by (simp add: unat_word_ariths)
  have off: "unat (ucast offset :: u64) = unat offset"
    by simp
  have "unat (limit - ucast offset) = unat limit - unat offset"
    using assms(1) off by (simp add: unat_sub word_le_nat_alt word_less_nat_alt)
  moreover have "unat (ucast (limit - ucast offset) :: u32) \<le> unat (limit - ucast offset)"
    by (simp add: unsigned_ucast_eq take_bit_nat_less_eq_self)
  moreover have "unat offset < unat limit"
    using assms(1) off by (simp add: word_less_nat_alt)
  ultimately show ?thesis
    using True by (simp add: clip_def)
next
  case False
  have "unat (ucast (offset + sz) :: u64) = unat offset + unat sz"
    using assms(2) by (simp add: unat_word_ariths)
  moreover have "clip limit offset sz = sz"
    by (simp only: clip_def False if_False)
  moreover have "(ucast (offset + sz) :: u64) \<le> limit"
    using False by (simp only: not_less)
  ultimately show ?thesis
    by (simp only: word_le_nat_alt)
qed

lemma clip_wraps: "clip 4096 1 0xFFFFFFFF = 0xFFFFFFFF"
  by (simp add: clip_def)

end
