(* ===== verification/Ext2.thy ===== *)
theory Ext2
  imports Ext2fmt Devices
begin

text \<open>
  \<open>krnl/fs/ext2.c\<close>, the file system ext2 on a block device: allocation of blocks and inodes in bitmaps, the map from
  the blocks of a file to those of the disk with up to three levels of tables, reading and writing, directories,
  and the operations of the file system layer.

  \<open>D\<close> are the drivers of block devices by the address of their operations.  A buffer that the code allocates, and a
  structure it reads or writes, is the list of its bytes; the allocator is still called for it, because
  it may fail.  File systems and the data of nodes are stores by address.  \<open>None\<close> is an access outside
  a buffer, a division by zero, a page fault or a loop without end.
\<close>

section \<open>State\<close>

record ext2_fs =
  block_node :: u64
  e2_sb :: "u8 list"
  block_size :: u32
  inodes_per_group :: u32
  inode_size :: u32
  groups_count :: u32
  bgdt_block :: u32
  pointers_per_block :: u32
  node_cache :: "nat \<Rightarrow> u32 \<times> u64"

record ext2_node_data =
  nd_fs :: u64
  nd_ino :: u32
  nd_inode :: ext2_inode

text \<open>\<open>e2_mount_data\<close> is the field \<open>block_node\<close> of \<open>ext2_mount_data_t\<close>.\<close>

record ext2 = devices +
  e2_fs :: "u64 \<Rightarrow> ext2_fs"
  e2_nodes :: "u64 \<Rightarrow> ext2_node_data"
  e2_mount_data :: "u64 \<Rightarrow> u64"

definition EXT2_NODE_CACHE_SIZE :: u32 where "EXT2_NODE_CACHE_SIZE = 64"
definition EXT2_FS_SIZE :: u64 where "EXT2_FS_SIZE = 2080"
definition EXT2_NODE_DATA_SIZE :: u64 where "EXT2_NODE_DATA_SIZE = 144"

definition upd_fs :: "u64 \<Rightarrow> (ext2_fs \<Rightarrow> ext2_fs) \<Rightarrow> 'a ext2_scheme \<Rightarrow> 'a ext2_scheme" where
  "upd_fs fs f s = s\<lparr>e2_fs := (e2_fs s)(fs := f (e2_fs s fs))\<rparr>"

definition upd_nd :: "u64 \<Rightarrow> (ext2_node_data \<Rightarrow> ext2_node_data) \<Rightarrow> 'a ext2_scheme \<Rightarrow> 'a ext2_scheme" where
  "upd_nd nd f s = s\<lparr>e2_nodes := (e2_nodes s)(nd := f (e2_nodes s nd))\<rparr>"

definition set_inode :: "u64 \<Rightarrow> ext2_inode \<Rightarrow> 'a ext2_scheme \<Rightarrow> 'a ext2_scheme" where
  "set_inode nd i s = upd_nd nd (\<lambda>r. r\<lparr>nd_inode := i\<rparr>) s"

definition udiv :: "u32 \<Rightarrow> u32 \<Rightarrow> u32 option" where
  "udiv a b = (if b = 0 then None else Some (a div b))"

definition umod :: "u32 \<Rightarrow> u32 \<Rightarrow> u32 option" where
  "umod a b = (if b = 0 then None else Some (a mod b))"

section \<open>Block devices\<close>

text \<open>What a driver puts into a buffer, as many bytes as it returns; and what it takes from one.\<close>

record 's blockdev =
  bd_read :: "(u64 \<Rightarrow> u32 \<Rightarrow> u32 \<Rightarrow> 's \<Rightarrow> (u8 list \<times> 's) option) option"
  bd_write :: "(u64 \<Rightarrow> u32 \<Rightarrow> u8 list \<Rightarrow> 's \<Rightarrow> (u32 \<times> 's) option) option"

text \<open>The driver of the file system layer as such a device; \<open>buf\<close> is the address of the buffer.\<close>

definition blockdev_of :: "u64 \<Rightarrow> 'a kernel_scheme vfs_operations \<Rightarrow> 'a kernel_scheme blockdev" where
  "blockdev_of buf ops = \<lparr>
     bd_read = map_option (\<lambda>rd node offset sz s. do { (n, s) \<leftarrow> rd node offset sz buf s; bs \<leftarrow> vread s buf (unat n); Some (bs, s) }) (op_read ops),
     bd_write = map_option (\<lambda>wr node offset bs s. do { s \<leftarrow> vwrite buf bs s; wr node offset (of_nat (length bs)) buf s }) (op_write ops)\<rparr>"

definition dev_read ::
  "(u64 \<Rightarrow> 'a ext2_scheme blockdev) \<Rightarrow> u64 \<Rightarrow> u64 \<Rightarrow> u32 \<Rightarrow> 'a ext2_scheme \<Rightarrow> (u8 list \<times> 'a ext2_scheme) option" where
  "dev_read D fs offset sz s =
     (let bn = block_node (e2_fs s fs);
          ops = vn_ops (vs_nodes s bn)
      in case (if ops = NULL then None else bd_read (D ops)) of
           None \<Rightarrow> Some ([], s)
         | Some rd \<Rightarrow> rd bn (ucast offset) sz s)"

definition read_bytes ::
  "(u64 \<Rightarrow> 'a ext2_scheme blockdev) \<Rightarrow> u64 \<Rightarrow> u64 \<Rightarrow> u32 \<Rightarrow> u8 list \<Rightarrow> 'a ext2_scheme \<Rightarrow> (u32 \<times> u8 list \<times> 'a ext2_scheme) option" where
  "read_bytes D fs offset sz buf s = do {
     (bs, s) \<leftarrow> dev_read D fs offset sz s;
     buf \<leftarrow> put_at 0 bs buf;
     Some (of_nat (length bs), buf, s)
   }"

definition block_offset :: "ext2_fs \<Rightarrow> u32 \<Rightarrow> u64" where
  "block_offset f block_no = ucast block_no * ucast (block_size f)"

definition read_block ::
  "(u64 \<Rightarrow> 'a ext2_scheme blockdev) \<Rightarrow> u64 \<Rightarrow> u32 \<Rightarrow> u8 list \<Rightarrow> 'a ext2_scheme \<Rightarrow> (u32 \<times> u8 list \<times> 'a ext2_scheme) option" where
  "read_block D fs block_no buf s =
     (let bs = block_size (e2_fs s fs)
      in if block_no = 0 then Some (bs, replicate (unat bs) 0, s)
         else read_bytes D fs (block_offset (e2_fs s fs) block_no) bs buf s)"

definition write_bytes ::
  "(u64 \<Rightarrow> 'a ext2_scheme blockdev) \<Rightarrow> u64 \<Rightarrow> u64 \<Rightarrow> u8 list \<Rightarrow> 'a ext2_scheme \<Rightarrow> (u32 \<times> 'a ext2_scheme) option" where
  "write_bytes D fs offset buf s =
     (let bn = block_node (e2_fs s fs);
          ops = vn_ops (vs_nodes s bn)
      in case (if ops = NULL then None else bd_write (D ops)) of
           None \<Rightarrow> Some (0, s)
         | Some wr \<Rightarrow> wr bn (ucast offset) buf s)"

definition write_block ::
  "(u64 \<Rightarrow> 'a ext2_scheme blockdev) \<Rightarrow> u64 \<Rightarrow> u32 \<Rightarrow> u8 list \<Rightarrow> 'a ext2_scheme \<Rightarrow> (u32 \<times> 'a ext2_scheme) option" where
  "write_block D fs block_no buf s =
     (if block_no = 0 then Some (0, s) else write_bytes D fs (block_offset (e2_fs s fs) block_no) buf s)"

text \<open>A buffer of one block from \<open>kmalloc\<close>: its address and what the memory holds there.\<close>

definition block_buf :: "u64 \<Rightarrow> 'a ext2_scheme \<Rightarrow> u64 \<times> u8 list \<times> 'a ext2_scheme" where
  "block_buf fs s =
     (let bs = block_size (e2_fs s fs); (p, s) = k_kmalloc (ucast bs) s in (p, load_bytes (k_mem s) p (unat bs), s))"

definition zero_block :: "u64 \<Rightarrow> 'a ext2_scheme \<Rightarrow> u8 list" where
  "zero_block fs s = replicate (unat (block_size (e2_fs s fs))) 0"

section \<open>Group descriptors and inodes\<close>

definition gd_offset :: "ext2_fs \<Rightarrow> u32 \<Rightarrow> u64" where
  "gd_offset f grp = ucast (bgdt_block f) * ucast (block_size f) + ucast grp * ucast GROUP_DESC_SIZE"

definition read_group_desc ::
  "(u64 \<Rightarrow> 'a ext2_scheme blockdev) \<Rightarrow> u64 \<Rightarrow> u32 \<Rightarrow> 'a ext2_scheme \<Rightarrow> (ext2_group_desc option \<times> 'a ext2_scheme) option" where
  "read_group_desc D fs grp s = do {
     (n, bs, s) \<leftarrow> read_bytes D fs (gd_offset (e2_fs s fs) grp) GROUP_DESC_SIZE (replicate 32 0) s;
     Some (if n = GROUP_DESC_SIZE then Some (gd_of bs) else None, s)
   }"

definition write_group_desc ::
  "(u64 \<Rightarrow> 'a ext2_scheme blockdev) \<Rightarrow> u64 \<Rightarrow> u32 \<Rightarrow> ext2_group_desc \<Rightarrow> 'a ext2_scheme \<Rightarrow> (bool \<times> 'a ext2_scheme) option" where
  "write_group_desc D fs grp gd s = do {
     (n, s) \<leftarrow> write_bytes D fs (gd_offset (e2_fs s fs) grp) (gd_bytes gd) s;
     Some (n = GROUP_DESC_SIZE, s)
   }"

text \<open>The offset of an inode, or nothing when its group cannot be read.\<close>

definition inode_offset ::
  "(u64 \<Rightarrow> 'a ext2_scheme blockdev) \<Rightarrow> u64 \<Rightarrow> u32 \<Rightarrow> 'a ext2_scheme \<Rightarrow> (u64 option \<times> 'a ext2_scheme) option" where
  "inode_offset D fs ino s = do {
     let f = e2_fs s fs;
     grp \<leftarrow> udiv (ino - 1) (inodes_per_group f);
     index \<leftarrow> umod (ino - 1) (inodes_per_group f);
     (gd, s) \<leftarrow> read_group_desc D fs grp s;
     Some (map_option (\<lambda>gd. ucast (bg_inode_table gd) * ucast (block_size f) + ucast index * ucast (inode_size f)) gd, s)
   }"

text \<open>\<open>old\<close> is what the structure held before: a short read changes a part of it.\<close>

definition read_inode ::
  "(u64 \<Rightarrow> 'a ext2_scheme blockdev) \<Rightarrow> u64 \<Rightarrow> u32 \<Rightarrow> ext2_inode \<Rightarrow> 'a ext2_scheme \<Rightarrow> (bool \<times> ext2_inode \<times> 'a ext2_scheme) option" where
  "read_inode D fs ino old s =
     (if ino = 0 then Some (False, old, s)
      else do {
        (offset, s) \<leftarrow> inode_offset D fs ino s;
        case offset of
          None \<Rightarrow> Some (False, old, s)
        | Some offset \<Rightarrow> do {
            (n, bs, s) \<leftarrow> read_bytes D fs offset INODE_SIZE (inode_bytes old) s;
            Some (n = INODE_SIZE, inode_of bs, s)
          }
      })"

definition write_inode ::
  "(u64 \<Rightarrow> 'a ext2_scheme blockdev) \<Rightarrow> u64 \<Rightarrow> u32 \<Rightarrow> ext2_inode \<Rightarrow> 'a ext2_scheme \<Rightarrow> (bool \<times> 'a ext2_scheme) option" where
  "write_inode D fs ino i s =
     (if ino = 0 then Some (False, s)
      else do {
        (offset, s) \<leftarrow> inode_offset D fs ino s;
        case offset of
          None \<Rightarrow> Some (False, s)
        | Some offset \<Rightarrow> do {
            (n, s) \<leftarrow> write_bytes D fs offset (inode_bytes i) s;
            Some (n = INODE_SIZE, s)
          }
      })"

definition ext2_now :: u32 where "ext2_now = 0"

definition flush_superblock :: "(u64 \<Rightarrow> 'a ext2_scheme blockdev) \<Rightarrow> u64 \<Rightarrow> 'a ext2_scheme \<Rightarrow> 'a ext2_scheme option" where
  "flush_superblock D fs s = map_option snd (write_bytes D fs EXT2_SUPERBLOCK_OFFSET (e2_sb (e2_fs s fs)) s)"

section \<open>Allocation\<close>

text \<open>The body of the loop once a clear bit is found.\<close>

definition take_block ::
  "(u64 \<Rightarrow> 'a ext2_scheme blockdev) \<Rightarrow> u64 \<Rightarrow> u32 \<Rightarrow> ext2_group_desc \<Rightarrow> nat \<Rightarrow> u8 list \<Rightarrow> 'a ext2_scheme \<Rightarrow> (u32 \<times> 'a ext2_scheme) option" where
  "take_block D fs grp gd i bm s = do {
     bm \<leftarrow> set_bit_at i bm;
     (_, s) \<leftarrow> write_block D fs (bg_block_bitmap gd) bm s;
     let sb = e2_sb (e2_fs s fs);
     let block_no = s_first_data_block sb + grp * s_blocks_per_group sb + of_nat i;
     (_, s) \<leftarrow> write_group_desc D fs grp (gd\<lparr>bg_free_blocks_count := bg_free_blocks_count gd - 1\<rparr>) s;
     let s = upd_fs fs (\<lambda>f. f\<lparr>e2_sb := set_free_blocks (s_free_blocks_count (e2_sb f) - 1) (e2_sb f)\<rparr>) s;
     s \<leftarrow> flush_superblock D fs s;
     (_, s) \<leftarrow> write_block D fs block_no (zero_block fs s) s;
     Some (block_no, s)
   }"

fun alloc_block_loop ::
  "(u64 \<Rightarrow> 'a ext2_scheme blockdev) \<Rightarrow> u64 \<Rightarrow> u32 \<Rightarrow> nat \<Rightarrow> u32 \<Rightarrow> u8 list \<Rightarrow> 'a ext2_scheme \<Rightarrow> (u32 \<times> 'a ext2_scheme) option" where
  "alloc_block_loop D fs preferred_group 0 g bm s = Some (0, s)"
| "alloc_block_loop D fs preferred_group (Suc n) g bm s = do {
     grp \<leftarrow> umod (preferred_group + g) (groups_count (e2_fs s fs));
     (gd, s) \<leftarrow> read_group_desc D fs grp s;
     case gd of
       None \<Rightarrow> alloc_block_loop D fs preferred_group n (g + 1) bm s
     | Some gd \<Rightarrow>
         if bg_free_blocks_count gd = 0 then alloc_block_loop D fs preferred_group n (g + 1) bm s
         else do {
           (_, bm, s) \<leftarrow> read_block D fs (bg_block_bitmap gd) bm s;
           let sb = e2_sb (e2_fs s fs);
           let last_group_blocks = s_blocks_count sb - grp * s_blocks_per_group sb;
           let blocks_in_group = min last_group_blocks (s_blocks_per_group sb);
           i \<leftarrow> find_clear bm (unat blocks_in_group) 0;
           if i < unat blocks_in_group then take_block D fs grp gd i bm s
           else alloc_block_loop D fs preferred_group n (g + 1) bm s
         }
   }"

definition alloc_block :: "(u64 \<Rightarrow> 'a ext2_scheme blockdev) \<Rightarrow> u64 \<Rightarrow> u32 \<Rightarrow> 'a ext2_scheme \<Rightarrow> (u32 \<times> 'a ext2_scheme) option" where
  "alloc_block D fs preferred_group s =
     (let (p, bm, s) = block_buf fs s
      in if p = NULL then Some (0, s)
         else do {
           (b, s) \<leftarrow> alloc_block_loop D fs preferred_group (unat (groups_count (e2_fs s fs))) 0 bm s;
           Some (b, k_kfree p s)
         })"

definition free_block :: "(u64 \<Rightarrow> 'a ext2_scheme blockdev) \<Rightarrow> u64 \<Rightarrow> u32 \<Rightarrow> 'a ext2_scheme \<Rightarrow> 'a ext2_scheme option" where
  "free_block D fs block_no s =
     (if block_no = 0 then Some s
      else do {
        let sb = e2_sb (e2_fs s fs);
        grp \<leftarrow> udiv (block_no - s_first_data_block sb) (s_blocks_per_group sb);
        index \<leftarrow> umod (block_no - s_first_data_block sb) (s_blocks_per_group sb);
        (gd, s) \<leftarrow> read_group_desc D fs grp s;
        case gd of
          None \<Rightarrow> Some s
        | Some gd \<Rightarrow>
            let (p, bm, s) = block_buf fs s
            in if p = NULL then Some s
               else do {
                 (_, bm, s) \<leftarrow> read_block D fs (bg_block_bitmap gd) bm s;
                 bm \<leftarrow> clear_bit_at (unat index) bm;
                 (_, s) \<leftarrow> write_block D fs (bg_block_bitmap gd) bm s;
                 let s = k_kfree p s;
                 (_, s) \<leftarrow> write_group_desc D fs grp (gd\<lparr>bg_free_blocks_count := bg_free_blocks_count gd + 1\<rparr>) s;
                 let s = upd_fs fs (\<lambda>f. f\<lparr>e2_sb := set_free_blocks (s_free_blocks_count (e2_sb f) + 1) (e2_sb f)\<rparr>) s;
                 flush_superblock D fs s
               }
      })"

definition take_inode ::
  "(u64 \<Rightarrow> 'a ext2_scheme blockdev) \<Rightarrow> u64 \<Rightarrow> bool \<Rightarrow> u32 \<Rightarrow> ext2_group_desc \<Rightarrow> nat \<Rightarrow> u8 list \<Rightarrow> 'a ext2_scheme \<Rightarrow> (u32 \<times> 'a ext2_scheme) option" where
  "take_inode D fs is_dir grp gd i bm s = do {
     bm \<leftarrow> set_bit_at i bm;
     (_, s) \<leftarrow> write_block D fs (bg_inode_bitmap gd) bm s;
     let ino = grp * inodes_per_group (e2_fs s fs) + of_nat i + 1;
     let gd = gd\<lparr>bg_free_inodes_count := bg_free_inodes_count gd - 1\<rparr>;
     let gd = (if is_dir then gd\<lparr>bg_used_dirs_count := bg_used_dirs_count gd + 1\<rparr> else gd);
     (_, s) \<leftarrow> write_group_desc D fs grp gd s;
     let s = upd_fs fs (\<lambda>f. f\<lparr>e2_sb := set_free_inodes (s_free_inodes_count (e2_sb f) - 1) (e2_sb f)\<rparr>) s;
     s \<leftarrow> flush_superblock D fs s;
     (_, s) \<leftarrow> write_inode D fs ino zero_inode s;
     Some (ino, s)
   }"

fun alloc_inode_loop ::
  "(u64 \<Rightarrow> 'a ext2_scheme blockdev) \<Rightarrow> u64 \<Rightarrow> bool \<Rightarrow> nat \<Rightarrow> u32 \<Rightarrow> u8 list \<Rightarrow> 'a ext2_scheme \<Rightarrow> (u32 \<times> 'a ext2_scheme) option" where
  "alloc_inode_loop D fs is_dir 0 grp bm s = Some (0, s)"
| "alloc_inode_loop D fs is_dir (Suc n) grp bm s = do {
     (gd, s) \<leftarrow> read_group_desc D fs grp s;
     case gd of
       None \<Rightarrow> alloc_inode_loop D fs is_dir n (grp + 1) bm s
     | Some gd \<Rightarrow>
         if bg_free_inodes_count gd = 0 then alloc_inode_loop D fs is_dir n (grp + 1) bm s
         else do {
           (_, bm, s) \<leftarrow> read_block D fs (bg_inode_bitmap gd) bm s;
           let ipg = unat (inodes_per_group (e2_fs s fs));
           i \<leftarrow> find_clear bm ipg 0;
           if i < ipg then take_inode D fs is_dir grp gd i bm s
           else alloc_inode_loop D fs is_dir n (grp + 1) bm s
         }
   }"

definition alloc_inode :: "(u64 \<Rightarrow> 'a ext2_scheme blockdev) \<Rightarrow> u64 \<Rightarrow> bool \<Rightarrow> 'a ext2_scheme \<Rightarrow> (u32 \<times> 'a ext2_scheme) option" where
  "alloc_inode D fs is_dir s =
     (let (p, bm, s) = block_buf fs s
      in if p = NULL then Some (0, s)
         else do {
           (ino, s) \<leftarrow> alloc_inode_loop D fs is_dir (unat (groups_count (e2_fs s fs))) 0 bm s;
           Some (ino, k_kfree p s)
         })"

definition free_inode :: "(u64 \<Rightarrow> 'a ext2_scheme blockdev) \<Rightarrow> u64 \<Rightarrow> u32 \<Rightarrow> bool \<Rightarrow> 'a ext2_scheme \<Rightarrow> 'a ext2_scheme option" where
  "free_inode D fs ino is_dir s =
     (if ino = 0 then Some s
      else do {
        grp \<leftarrow> udiv (ino - 1) (inodes_per_group (e2_fs s fs));
        index \<leftarrow> umod (ino - 1) (inodes_per_group (e2_fs s fs));
        (gd, s) \<leftarrow> read_group_desc D fs grp s;
        case gd of
          None \<Rightarrow> Some s
        | Some gd \<Rightarrow>
            let (p, bm, s) = block_buf fs s
            in if p = NULL then Some s
               else do {
                 (_, bm, s) \<leftarrow> read_block D fs (bg_inode_bitmap gd) bm s;
                 bm \<leftarrow> clear_bit_at (unat index) bm;
                 (_, s) \<leftarrow> write_block D fs (bg_inode_bitmap gd) bm s;
                 let s = k_kfree p s;
                 let gd = gd\<lparr>bg_free_inodes_count := bg_free_inodes_count gd + 1\<rparr>;
                 let gd = (if is_dir \<and> 0 < bg_used_dirs_count gd then gd\<lparr>bg_used_dirs_count := bg_used_dirs_count gd - 1\<rparr> else gd);
                 (_, s) \<leftarrow> write_group_desc D fs grp gd s;
                 let s = upd_fs fs (\<lambda>f. f\<lparr>e2_sb := set_free_inodes (s_free_inodes_count (e2_sb f) + 1) (e2_sb f)\<rparr>) s;
                 flush_superblock D fs s
               }
      })"

section \<open>The blocks of a file\<close>

definition add_blocks :: "u64 \<Rightarrow> 'a ext2_scheme \<Rightarrow> ext2_inode \<Rightarrow> ext2_inode" where
  "add_blocks fs s i = i\<lparr>i_blocks := i_blocks i + block_size (e2_fs s fs) div 512\<rparr>"

text \<open>A table that the inode refers to, made when it is missing: the inode and the buffer, or nothing when there is no
  free block.\<close>

definition ensure_top ::
  "(u64 \<Rightarrow> 'a ext2_scheme blockdev) \<Rightarrow> u64 \<Rightarrow> nat \<Rightarrow> u32 \<Rightarrow> ext2_inode \<Rightarrow> u8 list \<Rightarrow> 'a ext2_scheme
     \<Rightarrow> ((ext2_inode \<times> u8 list) option \<times> 'a ext2_scheme) option" where
  "ensure_top D fs k preferred_group i buf s =
     (if i_block i ! k \<noteq> 0 then Some (Some (i, buf), s)
      else do {
        (b, s) \<leftarrow> alloc_block D fs preferred_group s;
        if b = 0 then Some (None, s)
        else do {
          let buf = zero_block fs s;
          (_, s) \<leftarrow> write_block D fs b buf s;
          Some (Some (add_blocks fs s (i\<lparr>i_block := (i_block i)[k := b]\<rparr>), buf), s)
        }
      })"

text \<open>A table that another table in block \<open>tab\<close> with the contents \<open>buf\<close> refers to.  The code for two levels gives up
  when there is no memory for a block of zeros (\<open>strict\<close>), the code for three goes on without writing it.\<close>

definition ensure_sub ::
  "(u64 \<Rightarrow> 'a ext2_scheme blockdev) \<Rightarrow> u64 \<Rightarrow> bool \<Rightarrow> u32 \<Rightarrow> nat \<Rightarrow> u32 \<Rightarrow> ext2_inode \<Rightarrow> u8 list \<Rightarrow> 'a ext2_scheme
     \<Rightarrow> ((u32 \<times> ext2_inode \<times> u8 list) option \<times> 'a ext2_scheme) option" where
  "ensure_sub D fs strict tab idx preferred_group i buf s = do {
     old \<leftarrow> tab_get buf idx;
     if old \<noteq> 0 then Some (Some (old, i, buf), s)
     else do {
       (b, s) \<leftarrow> alloc_block D fs preferred_group s;
       if b = 0 then Some (None, s)
       else
         let (zero, _, s) = block_buf fs s
         in if zero = NULL \<and> strict then Some (None, s)
            else do {
              s \<leftarrow> (if zero = NULL then Some s
                    else do { (_, s) \<leftarrow> write_block D fs b (zero_block fs s) s; Some (k_kfree zero s) });
              buf \<leftarrow> tab_set idx b buf;
              (_, s) \<leftarrow> write_block D fs tab buf s;
              Some (Some (b, add_blocks fs s i, buf), s)
            }
     }
   }"

text \<open>The last level: entry \<open>idx\<close> of the table in block \<open>tab\<close>.\<close>

definition set_last ::
  "(u64 \<Rightarrow> 'a ext2_scheme blockdev) \<Rightarrow> u64 \<Rightarrow> u32 \<Rightarrow> nat \<Rightarrow> u32 \<Rightarrow> u8 list \<Rightarrow> 'a ext2_scheme \<Rightarrow> 'a ext2_scheme option" where
  "set_last D fs tab idx phys_block buf s = do {
     (_, buf, s) \<leftarrow> read_block D fs tab buf s;
     buf \<leftarrow> tab_set idx phys_block buf;
     map_option snd (write_block D fs tab buf s)
   }"

definition set_ind ::
  "(u64 \<Rightarrow> 'a ext2_scheme blockdev) \<Rightarrow> u64 \<Rightarrow> ext2_inode \<Rightarrow> u32 \<Rightarrow> u32 \<Rightarrow> u32 \<Rightarrow> u8 list \<Rightarrow> 'a ext2_scheme
     \<Rightarrow> (bool \<times> ext2_inode \<times> 'a ext2_scheme) option" where
  "set_ind D fs i n phys_block preferred_group buf s = do {
     (r, s) \<leftarrow> ensure_top D fs EXT2_IND_BLOCK preferred_group i buf s;
     case r of
       None \<Rightarrow> Some (False, i, s)
     | Some (i, buf) \<Rightarrow> do {
         s \<leftarrow> set_last D fs (i_block i ! EXT2_IND_BLOCK) (unat n) phys_block buf s;
         Some (True, i, s)
       }
   }"

definition set_dind ::
  "(u64 \<Rightarrow> 'a ext2_scheme blockdev) \<Rightarrow> u64 \<Rightarrow> ext2_inode \<Rightarrow> u32 \<Rightarrow> u32 \<Rightarrow> u32 \<Rightarrow> u8 list \<Rightarrow> 'a ext2_scheme
     \<Rightarrow> (bool \<times> ext2_inode \<times> 'a ext2_scheme) option" where
  "set_dind D fs i n phys_block preferred_group buf s = do {
     let ppb = pointers_per_block (e2_fs s fs);
     (r, s) \<leftarrow> ensure_top D fs EXT2_DIND_BLOCK preferred_group i buf s;
     case r of
       None \<Rightarrow> Some (False, i, s)
     | Some (i, buf) \<Rightarrow> do {
         (_, buf, s) \<leftarrow> read_block D fs (i_block i ! EXT2_DIND_BLOCK) buf s;
         dind_idx \<leftarrow> udiv n ppb;
         (r, s) \<leftarrow> ensure_sub D fs True (i_block i ! EXT2_DIND_BLOCK) (unat dind_idx) preferred_group i buf s;
         case r of
           None \<Rightarrow> Some (False, i, s)
         | Some (ind_block, i, buf) \<Rightarrow> do {
             idx \<leftarrow> umod n ppb;
             s \<leftarrow> set_last D fs ind_block (unat idx) phys_block buf s;
             Some (True, i, s)
           }
       }
   }"

definition set_tind ::
  "(u64 \<Rightarrow> 'a ext2_scheme blockdev) \<Rightarrow> u64 \<Rightarrow> ext2_inode \<Rightarrow> u32 \<Rightarrow> u32 \<Rightarrow> u32 \<Rightarrow> u8 list \<Rightarrow> 'a ext2_scheme
     \<Rightarrow> (bool \<times> ext2_inode \<times> 'a ext2_scheme) option" where
  "set_tind D fs i n phys_block preferred_group buf s = do {
     let ppb = pointers_per_block (e2_fs s fs);
     (r, s) \<leftarrow> ensure_top D fs EXT2_TIND_BLOCK preferred_group i buf s;
     case r of
       None \<Rightarrow> Some (False, i, s)
     | Some (i, buf) \<Rightarrow> do {
         (_, buf, s) \<leftarrow> read_block D fs (i_block i ! EXT2_TIND_BLOCK) buf s;
         ti \<leftarrow> udiv n (ppb * ppb);
         (r, s) \<leftarrow> ensure_sub D fs False (i_block i ! EXT2_TIND_BLOCK) (unat ti) preferred_group i buf s;
         case r of
           None \<Rightarrow> Some (False, i, s)
         | Some (dind_block, i, buf) \<Rightarrow> do {
             (_, buf, s) \<leftarrow> read_block D fs dind_block buf s;
             d \<leftarrow> udiv n ppb;
             di \<leftarrow> umod d ppb;
             (r, s) \<leftarrow> ensure_sub D fs False dind_block (unat di) preferred_group i buf s;
             case r of
               None \<Rightarrow> Some (False, i, s)
             | Some (ind_block, i, buf) \<Rightarrow> do {
                 idx \<leftarrow> umod n ppb;
                 s \<leftarrow> set_last D fs ind_block (unat idx) phys_block buf s;
                 Some (True, i, s)
               }
           }
       }
   }"

definition inode_set_block ::
  "(u64 \<Rightarrow> 'a ext2_scheme blockdev) \<Rightarrow> u64 \<Rightarrow> ext2_inode \<Rightarrow> u32 \<Rightarrow> u32 \<Rightarrow> u32 \<Rightarrow> 'a ext2_scheme
     \<Rightarrow> (bool \<times> ext2_inode \<times> 'a ext2_scheme) option" where
  "inode_set_block D fs i n phys_block preferred_group s =
     (let ppb = pointers_per_block (e2_fs s fs)
      in if n < EXT2_NDIR_BLOCKS then Some (True, i\<lparr>i_block := (i_block i)[unat n := phys_block]\<rparr>, s)
         else
           let n = n - EXT2_NDIR_BLOCKS;
               (p, buf, s) = block_buf fs s
           in if p = NULL then Some (False, i, s)
              else do {
                (ok, i, s) \<leftarrow>
                  (if n < ppb then set_ind D fs i n phys_block preferred_group buf s
                   else if n - ppb < ppb * ppb then set_dind D fs i (n - ppb) phys_block preferred_group buf s
                   else set_tind D fs i (n - ppb - ppb * ppb) phys_block preferred_group buf s);
                Some (ok, i, k_kfree p s)
              })"

text \<open>The loops over the entries of a table that are not zero.\<close>

fun for_table :: "nat \<Rightarrow> nat \<Rightarrow> u8 list \<Rightarrow> (u32 \<Rightarrow> 't \<Rightarrow> 't option) \<Rightarrow> 't \<Rightarrow> 't option" where
  "for_table 0 i buf f t = Some t"
| "for_table (Suc n) i buf f t = do {
     b \<leftarrow> tab_get buf i;
     t \<leftarrow> (if b \<noteq> 0 then f b t else Some t);
     for_table n (Suc i) buf f t
   }"

text \<open>All blocks of a table in block \<open>b\<close>, then the table: with one level, and with the buffers for the levels below it.\<close>

definition free_ind :: "(u64 \<Rightarrow> 'a ext2_scheme blockdev) \<Rightarrow> u64 \<Rightarrow> u32 \<Rightarrow> u8 list \<times> 'a ext2_scheme \<Rightarrow> (u8 list \<times> 'a ext2_scheme) option" where
  "free_ind D fs b = (\<lambda>(buf, s). do {
     (_, buf, s) \<leftarrow> read_block D fs b buf s;
     s \<leftarrow> for_table (unat (pointers_per_block (e2_fs s fs))) 0 buf (free_block D fs) s;
     s \<leftarrow> free_block D fs b s;
     Some (buf, s)
   })"

definition free_dind ::
  "(u64 \<Rightarrow> 'a ext2_scheme blockdev) \<Rightarrow> u64 \<Rightarrow> u32 \<Rightarrow> u8 list \<times> u8 list \<times> 'a ext2_scheme \<Rightarrow> (u8 list \<times> u8 list \<times> 'a ext2_scheme) option" where
  "free_dind D fs b = (\<lambda>(buf, t). do {
     (_, buf, s) \<leftarrow> read_block D fs b buf (snd t);
     (buf2, s) \<leftarrow> for_table (unat (pointers_per_block (e2_fs s fs))) 0 buf (free_ind D fs) (fst t, s);
     s \<leftarrow> free_block D fs b s;
     Some (buf, buf2, s)
   })"

definition free_tind ::
  "(u64 \<Rightarrow> 'a ext2_scheme blockdev) \<Rightarrow> u64 \<Rightarrow> u32 \<Rightarrow> u8 list \<times> u8 list \<times> u8 list \<times> 'a ext2_scheme
     \<Rightarrow> (u8 list \<times> u8 list \<times> u8 list \<times> 'a ext2_scheme) option" where
  "free_tind D fs b = (\<lambda>(buf, buf2, buf3, s). do {
     (_, buf, s) \<leftarrow> read_block D fs b buf s;
     t \<leftarrow> for_table (unat (pointers_per_block (e2_fs s fs))) 0 buf (free_dind D fs) (buf2, buf3, s);
     s \<leftarrow> free_block D fs b (snd (snd t));
     Some (buf, fst t, fst (snd t), s)
   })"

fun free_direct :: "(u64 \<Rightarrow> 'a ext2_scheme blockdev) \<Rightarrow> u64 \<Rightarrow> nat list \<Rightarrow> ext2_inode \<Rightarrow> 'a ext2_scheme \<Rightarrow> (ext2_inode \<times> 'a ext2_scheme) option" where
  "free_direct D fs [] i s = Some (i, s)"
| "free_direct D fs (k # ks) i s =
     (if i_block i ! k \<noteq> 0
      then Option.bind (free_block D fs (i_block i ! k) s) (free_direct D fs ks (i\<lparr>i_block := (i_block i)[k := 0]\<rparr>))
      else free_direct D fs ks i s)"

text \<open>\<open>if (inode->i_block[k]) { ...; inode->i_block[k] = 0; }\<close>\<close>

definition free_top ::
  "nat \<Rightarrow> (u32 \<Rightarrow> 't \<Rightarrow> 't option) \<Rightarrow> ext2_inode \<Rightarrow> 't \<Rightarrow> (ext2_inode \<times> 't) option" where
  "free_top k f i t =
     (if i_block i ! k \<noteq> 0 then map_option (Pair (i\<lparr>i_block := (i_block i)[k := 0]\<rparr>)) (f (i_block i ! k) t) else Some (i, t))"

definition inode_free_blocks ::
  "(u64 \<Rightarrow> 'a ext2_scheme blockdev) \<Rightarrow> u64 \<Rightarrow> ext2_inode \<Rightarrow> 'a ext2_scheme \<Rightarrow> (ext2_inode \<times> 'a ext2_scheme) option" where
  "inode_free_blocks D fs i s =
     (let (p, buf, s) = block_buf fs s;
          (p2, buf2, s) = block_buf fs s;
          (p3, buf3, s) = block_buf fs s
      in if p = NULL \<or> p2 = NULL \<or> p3 = NULL then Some (i, k_kfree p3 (k_kfree p2 (k_kfree p s)))
         else do {
           (i, s) \<leftarrow> free_direct D fs [0..<12] i s;
           (i, buf, s) \<leftarrow> free_top EXT2_IND_BLOCK (free_ind D fs) i (buf, s);
           (i, buf, buf2, s) \<leftarrow> free_top EXT2_DIND_BLOCK (free_dind D fs) i (buf, buf2, s);
           (i, buf, buf2, buf3, s) \<leftarrow> free_top EXT2_TIND_BLOCK (free_tind D fs) i (buf, buf2, buf3, s);
           Some (i\<lparr>i_blocks := 0\<rparr>, k_kfree p3 (k_kfree p2 (k_kfree p s)))
         })"

text \<open>The entry of the table in block \<open>tab\<close>, which is zero when there is no table; the buffer holds the table then.\<close>

definition get_entry ::
  "(u64 \<Rightarrow> 'a ext2_scheme blockdev) \<Rightarrow> u64 \<Rightarrow> u32 \<Rightarrow> u32 \<Rightarrow> u8 list \<Rightarrow> 'a ext2_scheme \<Rightarrow> (u32 \<times> u8 list \<times> 'a ext2_scheme) option" where
  "get_entry D fs tab idx buf s =
     (if tab = 0 then Some (0, buf, s)
      else do {
        (_, buf, s) \<leftarrow> read_block D fs tab buf s;
        b \<leftarrow> tab_get buf (unat idx);
        Some (b, buf, s)
      })"

text \<open>The walk down from the entry \<open>tab\<close> of the inode, with a buffer that is only allocated when there is a table.\<close>

fun get_path :: "(u64 \<Rightarrow> 'a ext2_scheme blockdev) \<Rightarrow> u64 \<Rightarrow> u32 \<Rightarrow> u32 list \<Rightarrow> u8 list \<Rightarrow> 'a ext2_scheme \<Rightarrow> (u32 \<times> 'a ext2_scheme) option" where
  "get_path D fs tab [] buf s = Some (tab, s)"
| "get_path D fs tab (idx # is) buf s = do {
     (b, buf, s) \<leftarrow> get_entry D fs tab idx buf s;
     get_path D fs b is buf s
   }"

definition get_from ::
  "(u64 \<Rightarrow> 'a ext2_scheme blockdev) \<Rightarrow> u64 \<Rightarrow> u32 \<Rightarrow> u32 list \<Rightarrow> 'a ext2_scheme \<Rightarrow> (u32 \<times> 'a ext2_scheme) option" where
  "get_from D fs tab is s =
     (if tab = 0 then Some (0, s)
      else
        let (p, buf, s) = block_buf fs s
        in if p = NULL then Some (0, s)
           else map_option (\<lambda>(b, s). (b, k_kfree p s)) (get_path D fs tab is buf s))"

definition inode_get_block ::
  "(u64 \<Rightarrow> 'a ext2_scheme blockdev) \<Rightarrow> u64 \<Rightarrow> ext2_inode \<Rightarrow> u32 \<Rightarrow> 'a ext2_scheme \<Rightarrow> (u32 \<times> 'a ext2_scheme) option" where
  "inode_get_block D fs i n s =
     (let ppb = pointers_per_block (e2_fs s fs)
      in if n < EXT2_NDIR_BLOCKS then Some (i_block i ! unat n, s)
         else
           let n = n - EXT2_NDIR_BLOCKS
           in if n < ppb then get_from D fs (i_block i ! EXT2_IND_BLOCK) [n] s
              else if n - ppb < ppb * ppb
              then
                let n = n - ppb
                in get_from D fs (i_block i ! EXT2_DIND_BLOCK) [n div ppb, n mod ppb] s
              else
                let n = n - ppb - ppb * ppb
                in if i_block i ! EXT2_TIND_BLOCK \<noteq> 0 \<and> ppb * ppb = 0 then None
                   else get_from D fs (i_block i ! EXT2_TIND_BLOCK) [n div (ppb * ppb), n div ppb mod ppb, n mod ppb] s)"

section \<open>Reading and writing\<close>

text \<open>The data of a node; the code does not survive \<open>node->device == NULL\<close>.\<close>

definition has_data :: "u64 \<Rightarrow> 'a vfs_state_scheme \<Rightarrow> unit option" where
  "has_data node s = (if device (vs_nodes s node) = NULL then None else Some ())"

definition node_data :: "u64 \<Rightarrow> 'a ext2_scheme \<Rightarrow> ext2_node_data" where
  "node_data node s = e2_nodes s (device (vs_nodes s node))"

definition node_fs :: "u64 \<Rightarrow> 'a ext2_scheme \<Rightarrow> u64" where
  "node_fs node s = nd_fs (node_data node s)"

definition node_inode :: "u64 \<Rightarrow> 'a ext2_scheme \<Rightarrow> ext2_inode" where
  "node_inode node s = nd_inode (node_data node s)"

definition put_inode :: "u64 \<Rightarrow> ext2_inode \<Rightarrow> 'a ext2_scheme \<Rightarrow> 'a ext2_scheme" where
  "put_inode node i s = set_inode (device (vs_nodes s node)) i s"

partial_function (option) ext2_read_loop ::
  "(u64 \<Rightarrow> 'a ext2_scheme blockdev) \<Rightarrow> u64 \<Rightarrow> u32 \<Rightarrow> u32 \<Rightarrow> u64 \<Rightarrow> u32 \<Rightarrow> 'a ext2_scheme \<Rightarrow> (u32 \<times> 'a ext2_scheme) option" where
  "ext2_read_loop D node offset sz buffer bytes_read s =
     (if sz \<le> bytes_read then Some (bytes_read, s)
      else do {
        let fs = node_fs node s;
        let bs = block_size (e2_fs s fs);
        logical_block \<leftarrow> udiv (offset + bytes_read) bs;
        block_off \<leftarrow> umod (offset + bytes_read) bs;
        let to_copy = min (bs - block_off) (sz - bytes_read);
        (disk_block, s) \<leftarrow> inode_get_block D fs (node_inode node s) logical_block s;
        if disk_block = 0
        then do {
          s \<leftarrow> vfill (unat to_copy) (buffer + ucast bytes_read) 0 s;
          ext2_read_loop D node offset sz buffer (bytes_read + to_copy) s
        }
        else do {
          (got, s) \<leftarrow> dev_read D fs (ucast disk_block * ucast bs + ucast block_off) to_copy s;
          s \<leftarrow> vwrite (buffer + ucast bytes_read) got s;
          if got = [] then Some (bytes_read, s)
          else ext2_read_loop D node offset sz buffer (bytes_read + of_nat (length got)) s
        }
      })"

definition ext2_read ::
  "(u64 \<Rightarrow> 'a ext2_scheme blockdev) \<Rightarrow> u64 \<Rightarrow> u32 \<Rightarrow> u32 \<Rightarrow> u64 \<Rightarrow> 'a ext2_scheme \<Rightarrow> (u32 \<times> 'a ext2_scheme) option" where
  "ext2_read D node offset sz buffer s =
     (if device (vs_nodes s node) = NULL then Some (0, s)
      else
        let file_size = i_size (node_inode node s)
        in if file_size \<le> offset then Some (0, s)
           else ext2_read_loop D node offset (if file_size < offset + sz then file_size - offset else sz) buffer 0 s)"

text \<open>The block for the next bytes, allocated when there is none: zero when the loop is left.\<close>

definition block_for_write ::
  "(u64 \<Rightarrow> 'a ext2_scheme blockdev) \<Rightarrow> u64 \<Rightarrow> u32 \<Rightarrow> u32 \<Rightarrow> 'a ext2_scheme \<Rightarrow> (u32 \<times> 'a ext2_scheme) option" where
  "block_for_write D node preferred_group logical_block s = do {
     let fs = node_fs node s;
     (disk_block, s) \<leftarrow> inode_get_block D fs (node_inode node s) logical_block s;
     if disk_block \<noteq> 0 then Some (disk_block, s)
     else do {
       (disk_block, s) \<leftarrow> alloc_block D fs preferred_group s;
       if disk_block = 0 then Some (0, s)
       else do {
         (ok, i, s) \<leftarrow> inode_set_block D fs (node_inode node s) logical_block disk_block preferred_group s;
         if ok then Some (disk_block, put_inode node (add_blocks fs s i) s) else Some (0, put_inode node i s)
       }
     }
   }"

partial_function (option) ext2_write_loop ::
  "(u64 \<Rightarrow> 'a ext2_scheme blockdev) \<Rightarrow> u64 \<Rightarrow> u32 \<Rightarrow> u32 \<Rightarrow> u32 \<Rightarrow> u64 \<Rightarrow> u32 \<Rightarrow> 'a ext2_scheme \<Rightarrow> (u32 \<times> 'a ext2_scheme) option" where
  "ext2_write_loop D node preferred_group offset sz buffer bytes_written s =
     (if sz \<le> bytes_written then Some (bytes_written, s)
      else do {
        let fs = node_fs node s;
        let bs = block_size (e2_fs s fs);
        logical_block \<leftarrow> udiv (offset + bytes_written) bs;
        block_off \<leftarrow> umod (offset + bytes_written) bs;
        let to_write = min (bs - block_off) (sz - bytes_written);
        (disk_block, s) \<leftarrow> block_for_write D node preferred_group logical_block s;
        if disk_block = 0 then Some (bytes_written, s)
        else if block_off \<noteq> 0 \<or> to_write \<noteq> bs
        then
          let (tmp, buf, s) = block_buf fs s
          in if tmp = NULL then Some (bytes_written, s)
             else do {
               (_, buf, s) \<leftarrow> read_block D fs disk_block buf s;
               vs \<leftarrow> vread s (buffer + ucast bytes_written) (unat to_write);
               buf \<leftarrow> put_at (unat block_off) vs buf;
               (_, s) \<leftarrow> write_block D fs disk_block buf s;
               ext2_write_loop D node preferred_group offset sz buffer (bytes_written + to_write) (k_kfree tmp s)
             }
        else do {
          vs \<leftarrow> vread s (buffer + ucast bytes_written) (unat bs);
          (_, s) \<leftarrow> write_block D fs disk_block vs s;
          ext2_write_loop D node preferred_group offset sz buffer (bytes_written + to_write) s
        }
      })"

text \<open>\<open>i_mtime = i_ctime = now\<close>, and the inode goes to the disk.\<close>

definition touch_inode :: "(u64 \<Rightarrow> 'a ext2_scheme blockdev) \<Rightarrow> u64 \<Rightarrow> 'a ext2_scheme \<Rightarrow> 'a ext2_scheme option" where
  "touch_inode D node s = do {
     let i = (node_inode node s)\<lparr>i_mtime := ext2_now, i_ctime := ext2_now\<rparr>;
     map_option snd (write_inode D (node_fs node s) (nd_ino (node_data node s)) i (put_inode node i s))
   }"

definition ext2_write ::
  "(u64 \<Rightarrow> 'a ext2_scheme blockdev) \<Rightarrow> u64 \<Rightarrow> u32 \<Rightarrow> u32 \<Rightarrow> u64 \<Rightarrow> 'a ext2_scheme \<Rightarrow> (u32 \<times> 'a ext2_scheme) option" where
  "ext2_write D node offset sz buffer s =
     (if device (vs_nodes s node) = NULL \<or> vn_type (vs_nodes s node) \<noteq> VFS_FILE then Some (0, s)
      else if sz = 0 then Some (0, s)
      else do {
        preferred_group \<leftarrow> udiv (nd_ino (node_data node s) - 1) (inodes_per_group (e2_fs s (node_fs node s)));
        (bytes_written, s) \<leftarrow> ext2_write_loop D node preferred_group offset sz buffer 0 s;
        let end_pos = offset + bytes_written;
        let s = (if i_size (node_inode node s) < end_pos
                 then upd_node node (\<lambda>n. n\<lparr>vn_size := end_pos\<rparr>) (put_inode node ((node_inode node s)\<lparr>i_size := end_pos\<rparr>) s)
                 else s);
        s \<leftarrow> touch_inode D node s;
        Some (bytes_written, s)
      })"

section \<open>Directories\<close>

partial_function (option) dirent_blocks ::
  "(u64 \<Rightarrow> 'a ext2_scheme blockdev) \<Rightarrow> u64 \<Rightarrow> (ext2_dirent \<Rightarrow> u8 list \<Rightarrow> 'c \<Rightarrow> (bool \<times> 'c) option) \<Rightarrow> u32 \<Rightarrow> u32 \<Rightarrow> u32
     \<Rightarrow> u8 list \<Rightarrow> 'c \<Rightarrow> 'a ext2_scheme \<Rightarrow> ('c \<times> 'a ext2_scheme) option" where
  "dirent_blocks D node cb tot visited logical buf ctx s =
     (if tot \<le> visited then Some (ctx, s)
      else do {
        let fs = node_fs node s;
        let bs = block_size (e2_fs s fs);
        (disk_block, s) \<leftarrow> inode_get_block D fs (node_inode node s) logical s;
        if disk_block = 0 then dirent_blocks D node cb tot (visited + bs) (logical + 1) buf ctx s
        else do {
          (_, buf, s) \<leftarrow> read_block D fs disk_block buf s;
          (stop, ctx) \<leftarrow> dirent_scan cb buf visited tot 0 ctx;
          if stop then Some (ctx, s) else dirent_blocks D node cb tot (visited + bs) (logical + 1) buf ctx s
        }
      })"

definition foreach_dirent ::
  "(u64 \<Rightarrow> 'a ext2_scheme blockdev) \<Rightarrow> u64 \<Rightarrow> (ext2_dirent \<Rightarrow> u8 list \<Rightarrow> 'c \<Rightarrow> (bool \<times> 'c) option) \<Rightarrow> 'c \<Rightarrow> 'a ext2_scheme
     \<Rightarrow> ('c \<times> 'a ext2_scheme) option" where
  "foreach_dirent D node cb ctx s =
     Option.bind (has_data node s) (\<lambda>_. let (p, buf, s) = block_buf (node_fs node s) s
      in if p = NULL then Some (ctx, s)
         else map_option (\<lambda>(ctx, s). (ctx, k_kfree p s)) (dirent_blocks D node cb (i_size (node_inode node s)) 0 0 buf ctx s))"

text \<open>The search for room in the blocks of a directory: was the entry written, and how many blocks there are.\<close>

partial_function (option) append_loop ::
  "(u64 \<Rightarrow> 'a ext2_scheme blockdev) \<Rightarrow> u64 \<Rightarrow> u32 \<Rightarrow> u8 list \<Rightarrow> u8 \<Rightarrow> u32 \<Rightarrow> u32 \<Rightarrow> u32 \<Rightarrow> u8 list \<Rightarrow> 'a ext2_scheme
     \<Rightarrow> (bool \<times> u32 \<times> 'a ext2_scheme) option" where
  "append_loop D dir ino nm ft tot visited logical buf s =
     (if tot \<le> visited then Some (False, logical, s)
      else do {
        let fs = node_fs dir s;
        let bs = block_size (e2_fs s fs);
        (disk_block, s) \<leftarrow> inode_get_block D fs (node_inode dir s) logical s;
        if disk_block = 0 then append_loop D dir ino nm ft tot (visited + bs) (logical + 1) buf s
        else do {
          (_, buf, s) \<leftarrow> read_block D fs disk_block buf s;
          r \<leftarrow> append_scan ino nm ft buf 0;
          case r of
            Some buf \<Rightarrow> do { (_, s) \<leftarrow> write_block D fs disk_block buf s; Some (True, logical, s) }
          | None \<Rightarrow> append_loop D dir ino nm ft tot (visited + bs) (logical + 1) buf s
        }
      })"

text \<open>A new block with the entry as its only one.\<close>

definition append_block ::
  "(u64 \<Rightarrow> 'a ext2_scheme blockdev) \<Rightarrow> u64 \<Rightarrow> u32 \<Rightarrow> u8 list \<Rightarrow> u8 \<Rightarrow> u32 \<Rightarrow> u32 \<Rightarrow> 'a ext2_scheme \<Rightarrow> (bool \<times> 'a ext2_scheme) option" where
  "append_block D dir ino nm ft preferred_group logical s = do {
     let fs = node_fs dir s;
     let bs = block_size (e2_fs s fs);
     (new_block, s) \<leftarrow> alloc_block D fs preferred_group s;
     if new_block = 0 then Some (False, s)
     else do {
       (ok, i, s) \<leftarrow> inode_set_block D fs (node_inode dir s) logical new_block preferred_group s;
       if \<not> ok then map_option (Pair False) (free_block D fs new_block (put_inode dir i s))
       else do {
         let i = (add_blocks fs s i)\<lparr>i_size := i_size i + bs\<rparr>;
         let s = upd_node dir (\<lambda>n. n\<lparr>vn_size := i_size i\<rparr>) (put_inode dir i s);
         buf \<leftarrow> put_entry 0 \<lparr>de_inode = ino, rec_len = ucast bs, name_len = of_nat (length nm), file_type = ft\<rparr> nm (zero_block fs s);
         (_, s) \<leftarrow> write_block D fs new_block buf s;
         Some (True, s)
       }
     }
   }"

definition dir_append_entry ::
  "(u64 \<Rightarrow> 'a ext2_scheme blockdev) \<Rightarrow> u64 \<Rightarrow> u32 \<Rightarrow> string \<Rightarrow> u8 \<Rightarrow> 'a ext2_scheme \<Rightarrow> (int \<times> 'a ext2_scheme) option" where
  "dir_append_entry D dir ino nm ft s =
     Option.bind (has_data dir s) (\<lambda>_. let (p, buf, s) = block_buf (node_fs dir s) s
      in if p = NULL then Some (- 1, s)
         else do {
           preferred_group \<leftarrow> udiv (nd_ino (node_data dir s) - 1) (inodes_per_group (e2_fs s (node_fs dir s)));
           (put, logical, s) \<leftarrow> append_loop D dir ino (name_bytes nm) ft (i_size (node_inode dir s)) 0 0 buf s;
           (put, s) \<leftarrow> (if put then Some (True, s) else append_block D dir ino (name_bytes nm) ft preferred_group logical s);
           let s = k_kfree p s;
           if put then map_option (Pair 0) (touch_inode D dir s) else Some (- 1, s)
         })"

partial_function (option) remove_entry_loop ::
  "(u64 \<Rightarrow> 'a ext2_scheme blockdev) \<Rightarrow> u64 \<Rightarrow> u8 list \<Rightarrow> u32 \<Rightarrow> u32 \<Rightarrow> u32 \<Rightarrow> u8 list \<Rightarrow> 'a ext2_scheme
     \<Rightarrow> (u32 option \<times> 'a ext2_scheme) option" where
  "remove_entry_loop D dir nm tot visited logical buf s =
     (if tot \<le> visited then Some (None, s)
      else do {
        let fs = node_fs dir s;
        let bs = block_size (e2_fs s fs);
        (disk_block, s) \<leftarrow> inode_get_block D fs (node_inode dir s) logical s;
        if disk_block = 0 then remove_entry_loop D dir nm tot (visited + bs) (logical + 1) buf s
        else do {
          (_, buf, s) \<leftarrow> read_block D fs disk_block buf s;
          r \<leftarrow> remove_scan nm buf None 0;
          case r of
            Some (ino, buf) \<Rightarrow> do { (_, s) \<leftarrow> write_block D fs disk_block buf s; Some (Some ino, s) }
          | None \<Rightarrow> remove_entry_loop D dir nm tot (visited + bs) (logical + 1) buf s
        }
      })"

text \<open>The inode of the entry that was removed, or nothing for the result -1.\<close>

definition dir_remove_entry ::
  "(u64 \<Rightarrow> 'a ext2_scheme blockdev) \<Rightarrow> u64 \<Rightarrow> string \<Rightarrow> 'a ext2_scheme \<Rightarrow> (u32 option \<times> 'a ext2_scheme) option" where
  "dir_remove_entry D dir nm s =
     Option.bind (has_data dir s) (\<lambda>_. let (p, buf, s) = block_buf (node_fs dir s) s
      in if p = NULL then Some (None, s)
         else do {
           (r, s) \<leftarrow> remove_entry_loop D dir (name_bytes nm) (i_size (node_inode dir s)) 0 0 buf s;
           let s = k_kfree p s;
           if r = None then Some (None, s) else map_option (Pair r) (touch_inode D dir s)
         })"

partial_function (option) empty_loop ::
  "(u64 \<Rightarrow> 'a ext2_scheme blockdev) \<Rightarrow> u64 \<Rightarrow> u32 \<Rightarrow> u32 \<Rightarrow> u32 \<Rightarrow> u8 list \<Rightarrow> 'a ext2_scheme \<Rightarrow> (bool \<times> 'a ext2_scheme) option" where
  "empty_loop D dir tot v logical buf s =
     (if tot \<le> v then Some (True, s)
      else do {
        let fs = node_fs dir s;
        let bs = block_size (e2_fs s fs);
        (disk_block, s) \<leftarrow> inode_get_block D fs (node_inode dir s) logical s;
        if disk_block = 0 then empty_loop D dir tot (v + bs) (logical + 1) buf s
        else do {
          (_, buf, s) \<leftarrow> read_block D fs disk_block buf s;
          e \<leftarrow> empty_scan buf 0;
          if e then empty_loop D dir tot (v + bs) (logical + 1) buf s else Some (False, s)
        }
      })"

definition dir_is_empty :: "(u64 \<Rightarrow> 'a ext2_scheme blockdev) \<Rightarrow> u64 \<Rightarrow> 'a ext2_scheme \<Rightarrow> (bool \<times> 'a ext2_scheme) option" where
  "dir_is_empty D dir s =
     Option.bind (has_data dir s) (\<lambda>_. let (p, buf, s) = block_buf (node_fs dir s) s
      in if p = NULL then Some (False, s)
         else map_option (\<lambda>(e, s). (e, k_kfree p s)) (empty_loop D dir (i_size (node_inode dir s)) 0 0 buf s))"

section \<open>Nodes\<close>

definition cache_slot :: "u32 \<Rightarrow> nat" where
  "cache_slot ino = unat (ino mod EXT2_NODE_CACHE_SIZE)"

definition set_cache :: "u64 \<Rightarrow> nat \<Rightarrow> u32 \<times> u64 \<Rightarrow> 'a ext2_scheme \<Rightarrow> 'a ext2_scheme" where
  "set_cache fs slot e s = upd_fs fs (\<lambda>f. f\<lparr>node_cache := (node_cache f)(slot := e)\<rparr>) s"

definition ext2_cache_lookup ::
  "(u64 \<Rightarrow> 'a ext2_scheme blockdev) \<Rightarrow> u64 \<Rightarrow> u32 \<Rightarrow> 'a ext2_scheme \<Rightarrow> (u64 \<times> 'a ext2_scheme) option" where
  "ext2_cache_lookup D fs ino s =
     (let (cino, node) = node_cache (e2_fs s fs) (cache_slot ino)
      in if cino = ino \<and> node \<noteq> NULL
         then
           let nd = device (vs_nodes s node)
           in if nd \<noteq> NULL \<and> nd_ino (e2_nodes s nd) = ino
              then do {
                (_, i, s) \<leftarrow> read_inode D fs ino (nd_inode (e2_nodes s nd)) s;
                let s = set_inode nd i s;
                Some (node, upd_node node (\<lambda>n. n\<lparr>vn_size := i_size i\<rparr>) s)
              }
              else Some (NULL, s)
         else Some (NULL, s))"

text \<open>\<open>if (node->device) { kfree(node->device); node->device = NULL; }\<close>\<close>

definition drop_device :: "u64 \<Rightarrow> 'a kernel_scheme \<Rightarrow> 'a kernel_scheme" where
  "drop_device node s =
     (if device (vs_nodes s node) \<noteq> NULL
      then upd_node node (\<lambda>n. n\<lparr>device := NULL\<rparr>) (k_kfree (device (vs_nodes s node)) s) else s)"

definition ext2_cache_insert :: "u64 \<Rightarrow> u32 \<Rightarrow> u64 \<Rightarrow> 'a ext2_scheme \<Rightarrow> 'a ext2_scheme" where
  "ext2_cache_insert fs ino node s =
     (let slot = cache_slot ino;
          (cino, old) = node_cache (e2_fs s fs) slot;
          s = (if old \<noteq> NULL \<and> cino \<noteq> ino then vfs_free_node old (drop_device old s) else s)
      in set_cache fs slot (ino, node) s)"

definition ext2_cache_remove :: "u64 \<Rightarrow> u32 \<Rightarrow> 'a ext2_scheme \<Rightarrow> 'a ext2_scheme" where
  "ext2_cache_remove fs ino s =
     (let (cino, node) = node_cache (e2_fs s fs) (cache_slot ino)
      in if cino = ino \<and> node \<noteq> NULL then set_cache fs (cache_slot ino) (0, NULL) s else s)"

definition node_type_of :: "u16 \<Rightarrow> vfs_node_type" where
  "node_type_of mode =
     (let fmt = mode AND 0xF000
      in if fmt = EXT2_S_IFREG then VFS_FILE
         else if fmt = EXT2_S_IFDIR then VFS_DIRECTORY
         else if fmt = EXT2_S_IFLNK then VFS_SYMLINK
         else if fmt = EXT2_S_IFBLK then VFS_BLOCK_DEVICE
         else if fmt = EXT2_S_IFCHR then VFS_CHAR_DEVICE
         else VFS_UNKNOWN)"

text \<open>\<open>ops\<close> is the address of the table of operations.\<close>

definition fill_node :: "u64 \<Rightarrow> u32 \<Rightarrow> u32 \<Rightarrow> ext2_inode \<Rightarrow> vfs_node \<Rightarrow> vfs_node" where
  "fill_node ops bs ino i n = n\<lparr>vn_type := node_type_of (i_mode i), inode := ino, vn_mask := ucast (i_mode i AND 0x0FFF),
     vn_uid := ucast (i_uid i), vn_gid := ucast (i_gid i), vn_size := i_size i, vn_atime := ucast (i_atime i),
     vn_mtime := ucast (i_mtime i), vn_ctime := ucast (i_ctime i), blksize := ucast bs, vn_blocks := ucast (i_blocks i), vn_ops := ops\<rparr>"

definition ext2_make_node ::
  "(u64 \<Rightarrow> 'a ext2_scheme blockdev) \<Rightarrow> u64 \<Rightarrow> u64 \<Rightarrow> u32 \<Rightarrow> 'a ext2_scheme \<Rightarrow> (u64 \<times> 'a ext2_scheme) option" where
  "ext2_make_node D ops fs ino s = do {
     (cached, s) \<leftarrow> ext2_cache_lookup D fs ino s;
     if cached \<noteq> NULL then Some (cached, s)
     else do {
       (ok, i, s) \<leftarrow> read_inode D fs ino zero_inode s;
       if \<not> ok then Some (NULL, s)
       else
         let (node, s) = vfs_alloc_node s
         in if node = NULL then Some (NULL, s)
            else
              let s = upd_node node (fill_node ops (block_size (e2_fs s fs)) ino i) s;
                  (nd, s) = k_kmalloc EXT2_NODE_DATA_SIZE s
              in if nd = NULL then Some (NULL, vfs_free_node node s)
                 else
                   let s = s\<lparr>e2_nodes := (e2_nodes s)(nd := \<lparr>nd_fs = fs, nd_ino = ino, nd_inode = i\<rparr>)\<rparr>;
                       s = upd_node node (\<lambda>n. n\<lparr>device := nd\<rparr>) s
                   in Some (node, if node_type_of (i_mode i) = VFS_DIRECTORY then ext2_cache_insert fs ino node s else s)
     }
   }"

section \<open>Operations\<close>

text \<open>\<open>!node->device || node->type != VFS_DIRECTORY\<close>\<close>

definition no_dir :: "u64 \<Rightarrow> 'a vfs_state_scheme \<Rightarrow> bool" where
  "no_dir node s \<longleftrightarrow> device (vs_nodes s node) = NULL \<or> vn_type (vs_nodes s node) \<noteq> VFS_DIRECTORY"

text \<open>The search for a name.\<close>

definition find_entry_named ::
  "(u64 \<Rightarrow> 'a ext2_scheme blockdev) \<Rightarrow> u64 \<Rightarrow> string \<Rightarrow> 'a ext2_scheme \<Rightarrow> ((u32 \<times> u8) option \<times> 'a ext2_scheme) option" where
  "find_entry_named D node nm s =
     map_option (\<lambda>(fc, s). (fc_found fc, s)) (foreach_dirent D node finddir_cb \<lparr>fc_name = name_bytes nm, fc_found = None\<rparr> s)"

text \<open>The name of a directory entry as a string ends at the first zero byte.\<close>

definition string_of :: "u8 list \<Rightarrow> string" where
  "string_of bs = map (\<lambda>b. char_of (unat b)) (takeWhile (\<lambda>b. b \<noteq> 0) bs)"

definition ext2_readdir ::
  "(u64 \<Rightarrow> 'a ext2_scheme blockdev) \<Rightarrow> u64 \<Rightarrow> u32 \<Rightarrow> 'a ext2_scheme \<Rightarrow> (dirent option \<times> 'a ext2_scheme) option" where
  "ext2_readdir D node index s =
     (if no_dir node s then Some (None, s)
      else do {
        (rc, s) \<leftarrow> foreach_dirent D node readdir_cb \<lparr>target_index = index, rc_current = 0, rc_result = None\<rparr> s;
        Some (map_option (\<lambda>(nm, ino). \<lparr>d_name = string_of nm, d_ino = ino\<rparr>) (rc_result rc), s)
      })"

definition ext2_finddir ::
  "(u64 \<Rightarrow> 'a ext2_scheme blockdev) \<Rightarrow> u64 \<Rightarrow> u64 \<Rightarrow> string \<Rightarrow> 'a ext2_scheme \<Rightarrow> (u64 \<times> 'a ext2_scheme) option" where
  "ext2_finddir D ops node nm s =
     (if no_dir node s then Some (NULL, s)
      else do {
        let fs = node_fs node s;
        (found, s) \<leftarrow> find_entry_named D node nm s;
        case found of None \<Rightarrow> Some (NULL, s) | Some (ino, _) \<Rightarrow> ext2_make_node D ops fs ino s
      })"

text \<open>A new inode with the mode.\<close>

definition new_inode :: "u16 \<Rightarrow> u16 \<Rightarrow> ext2_inode" where
  "new_inode mode links = zero_inode\<lparr>i_mode := mode, i_links_count := links, i_atime := ext2_now, i_ctime := ext2_now, i_mtime := ext2_now\<rparr>"

definition ext2_create ::
  "(u64 \<Rightarrow> 'a ext2_scheme blockdev) \<Rightarrow> u64 \<Rightarrow> string \<Rightarrow> u16 \<Rightarrow> 'a ext2_scheme \<Rightarrow> (int \<times> 'a ext2_scheme) option" where
  "ext2_create D dir nm permission s =
     (if no_dir dir s then Some (- 1, s)
      else do {
        let fs = node_fs dir s;
        (found, s) \<leftarrow> find_entry_named D dir nm s;
        if found \<noteq> None then Some (- 1, s)
        else do {
          (ino, s) \<leftarrow> alloc_inode D fs False s;
          if ino = 0 then Some (- 1, s)
          else do {
            (_, s) \<leftarrow> write_inode D fs ino (new_inode (EXT2_S_IFREG OR (permission AND 0x0FFF)) 1) s;
            (r, s) \<leftarrow> dir_append_entry D dir ino nm EXT2_FT_REG_FILE s;
            if r \<noteq> 0 then map_option (Pair (- 1)) (free_inode D fs ino False s) else Some (0, s)
          }
        }
      })"

text \<open>The entries of a new directory; its node is not kept.\<close>

definition fill_directory ::
  "(u64 \<Rightarrow> 'a ext2_scheme blockdev) \<Rightarrow> u64 \<Rightarrow> u64 \<Rightarrow> u32 \<Rightarrow> u32 \<Rightarrow> 'a ext2_scheme \<Rightarrow> 'a ext2_scheme option" where
  "fill_directory D fs new_node ino parent s = do {
     (_, s) \<leftarrow> dir_append_entry D new_node ino ''.'' EXT2_FT_DIR s;
     (_, s) \<leftarrow> dir_append_entry D new_node parent ''..'' EXT2_FT_DIR s;
     (_, s) \<leftarrow> write_inode D fs ino (node_inode new_node s) s;
     let s = ext2_cache_remove fs ino s;
     let s = k_kfree (device (vs_nodes s new_node)) s;
     let s = upd_node new_node (\<lambda>n. n\<lparr>device := NULL\<rparr>) s;
     Some (vfs_free_node new_node s)
   }"

definition ext2_mkdir ::
  "(u64 \<Rightarrow> 'a ext2_scheme blockdev) \<Rightarrow> u64 \<Rightarrow> u64 \<Rightarrow> string \<Rightarrow> u16 \<Rightarrow> 'a ext2_scheme \<Rightarrow> (int \<times> 'a ext2_scheme) option" where
  "ext2_mkdir D ops dir nm permission s =
     (if no_dir dir s then Some (- 1, s)
      else do {
        let fs = node_fs dir s;
        let nd = device (vs_nodes s dir);
        (found, s) \<leftarrow> find_entry_named D dir nm s;
        if found \<noteq> None then Some (- 1, s)
        else do {
          (ino, s) \<leftarrow> alloc_inode D fs True s;
          if ino = 0 then Some (- 1, s)
          else do {
            (_, s) \<leftarrow> write_inode D fs ino (new_inode (EXT2_S_IFDIR OR (permission AND 0x0FFF)) 2) s;
            (new_node, s) \<leftarrow> ext2_make_node D ops fs ino s;
            if new_node = NULL then map_option (Pair (- 1)) (free_inode D fs ino True s)
            else do {
              s \<leftarrow> fill_directory D fs new_node ino (nd_ino (e2_nodes s nd)) s;
              (r, s) \<leftarrow> dir_append_entry D dir ino nm EXT2_FT_DIR s;
              if r \<noteq> 0 then map_option (Pair (- 1)) (free_inode D fs ino True s)
              else do {
                let i = nd_inode (e2_nodes s nd);
                let i = i\<lparr>i_links_count := i_links_count i + 1\<rparr>;
                (_, s) \<leftarrow> write_inode D fs (nd_ino (e2_nodes s nd)) i (set_inode nd i s);
                Some (0, upd_node dir (\<lambda>n. n\<lparr>vn_mask := ucast (i_mode i AND 0x0FFF)\<rparr>) s)
              }
            }
          }
        }
      })"

text \<open>One link less; without a link, the blocks and the inode are freed.  \<open>dir_of\<close> says from the inode whether it is a
  directory.  The second result is whether the inode was freed.\<close>

definition drop_link ::
  "(u64 \<Rightarrow> 'a ext2_scheme blockdev) \<Rightarrow> u64 \<Rightarrow> u32 \<Rightarrow> (ext2_inode \<Rightarrow> bool) \<Rightarrow> 'a ext2_scheme \<Rightarrow> (bool \<times> 'a ext2_scheme) option" where
  "drop_link D fs ino dir_of s = do {
     (ok, i, s) \<leftarrow> read_inode D fs ino zero_inode s;
     if \<not> ok then Some (False, s)
     else do {
       let i = (if 0 < i_links_count i then i\<lparr>i_links_count := i_links_count i - 1\<rparr> else i);
       if i_links_count i = 0
       then do {
         (i, s) \<leftarrow> inode_free_blocks D fs i s;
         let i = i\<lparr>i_dtime := ext2_now\<rparr>;
         (_, s) \<leftarrow> write_inode D fs ino i s;
         s \<leftarrow> free_inode D fs ino (dir_of i) s;
         Some (True, s)
       }
       else do { (_, s) \<leftarrow> write_inode D fs ino i s; Some (False, s) }
     }
   }"

definition ext2_unlink ::
  "(u64 \<Rightarrow> 'a ext2_scheme blockdev) \<Rightarrow> u64 \<Rightarrow> string \<Rightarrow> 'a ext2_scheme \<Rightarrow> (int \<times> 'a ext2_scheme) option" where
  "ext2_unlink D dir nm s =
     (if no_dir dir s then Some (- 1, s)
      else do {
        let fs = node_fs dir s;
        (r, s) \<leftarrow> dir_remove_entry D dir nm s;
        case r of
          None \<Rightarrow> Some (- 1, s)
        | Some target_ino \<Rightarrow> do {
            (freed, s) \<leftarrow> drop_link D fs target_ino (\<lambda>_. False) s;
            let (cino, cn) = node_cache (e2_fs s fs) (cache_slot target_ino);
            Some (0, if freed \<and> cino = target_ino \<and> cn \<noteq> NULL
                     then vfs_free_node cn (drop_device cn (set_cache fs (cache_slot target_ino) (0, NULL) s)) else s)
          }
      })"

definition ext2_rmdir ::
  "(u64 \<Rightarrow> 'a ext2_scheme blockdev) \<Rightarrow> u64 \<Rightarrow> u64 \<Rightarrow> string \<Rightarrow> 'a ext2_scheme \<Rightarrow> (int \<times> 'a ext2_scheme) option" where
  "ext2_rmdir D ops dir nm s =
     (if no_dir dir s then Some (- 1, s)
      else do {
        let fs = node_fs dir s;
        let nd = device (vs_nodes s dir);
        (found, s) \<leftarrow> find_entry_named D dir nm s;
        case found of
          None \<Rightarrow> Some (- 1, s)
        | Some (target_ino, ft) \<Rightarrow>
            if ft \<noteq> EXT2_FT_DIR then Some (- 1, s)
            else do {
              (target, s) \<leftarrow> ext2_make_node D ops fs target_ino s;
              if target = NULL then Some (- 1, s)
              else do {
                (empty, s) \<leftarrow> dir_is_empty D target s;
                if \<not> empty then Some (- 1, s)
                else do {
                  let s = vfs_free_node target (drop_device target (ext2_cache_remove fs target_ino s));
                  (_, s) \<leftarrow> dir_remove_entry D dir nm s;
                  (ok, i, s) \<leftarrow> read_inode D fs target_ino zero_inode s;
                  s \<leftarrow> (if ok
                        then do {
                          (i, s) \<leftarrow> inode_free_blocks D fs i s;
                          (_, s) \<leftarrow> write_inode D fs target_ino (i\<lparr>i_dtime := ext2_now, i_links_count := 0\<rparr>) s;
                          free_inode D fs target_ino True s
                        }
                        else Some s);
                  let i = nd_inode (e2_nodes s nd);
                  let i = (if 0 < i_links_count i then i\<lparr>i_links_count := i_links_count i - 1\<rparr> else i);
                  (_, s) \<leftarrow> write_inode D fs (nd_ino (e2_nodes s nd)) i (set_inode nd i s);
                  Some (0, s)
                }
              }
            }
      })"

definition ext2_rename ::
  "(u64 \<Rightarrow> 'a ext2_scheme blockdev) \<Rightarrow> u64 \<Rightarrow> string \<Rightarrow> string \<Rightarrow> 'a ext2_scheme \<Rightarrow> (int \<times> 'a ext2_scheme) option" where
  "ext2_rename D dir old_name new_name s =
     (if no_dir dir s then Some (- 1, s)
      else do {
        (found, s) \<leftarrow> find_entry_named D dir old_name s;
        case found of
          None \<Rightarrow> Some (- 1, s)
        | Some (ino, ft) \<Rightarrow> do {
            (r, s) \<leftarrow> dir_remove_entry D dir old_name s;
            if r = None then Some (- 1, s)
            else do {
              (victim, s) \<leftarrow> find_entry_named D dir new_name s;
              s \<leftarrow> (case victim of
                      None \<Rightarrow> Some s
                    | Some (victim_ino, _) \<Rightarrow> do {
                        let fs = node_fs dir s;
                        (_, s) \<leftarrow> dir_remove_entry D dir new_name s;
                        (_, s) \<leftarrow> drop_link D fs victim_ino (\<lambda>i. i_mode i AND 0xF000 = EXT2_S_IFDIR) s;
                        Some s
                      });
              dir_append_entry D dir ino new_name ft s
            }
          }
      })"

definition ext2_readlink ::
  "(u64 \<Rightarrow> 'a ext2_scheme blockdev) \<Rightarrow> u64 \<Rightarrow> u64 \<Rightarrow> u64 \<Rightarrow> 'a ext2_scheme \<Rightarrow> (int \<times> 'a ext2_scheme) option" where
  "ext2_readlink D node buffer sz s =
     (if device (vs_nodes s node) = NULL then Some (- 1, s)
      else
        let i = node_inode node s;
            link_len = i_size i
        in if link_len = 0 \<or> sz = 0 then Some (0, s)
           else if link_len \<le> 60
           then do {
             let n = (if ucast link_len < sz then link_len else ucast (sz - 1));
             s \<leftarrow> vwrite buffer (take (unat n) (concat (map (le_bytes 4) (i_block i)))) s;
             s \<leftarrow> vstore (buffer + ucast n) 0 s;
             Some (sint n, s)
           }
           else do {
             let n = (if link_len < ucast (sz - 1) then link_len else ucast (sz - 1));
             (got, s) \<leftarrow> ext2_read D node 0 n buffer s;
             s \<leftarrow> vstore (buffer + ucast got) 0 s;
             Some (sint got, s)
           })"

definition ext2_stat :: "u64 \<Rightarrow> stat \<Rightarrow> 'a ext2_scheme \<Rightarrow> (stat \<times> 'a ext2_scheme) option" where
  "ext2_stat node st s =
     (if device (vs_nodes s node) = NULL then Some (st, s)
      else
        let nd = node_data node s;
            i = nd_inode nd
        in Some (\<lparr>st_ino = ucast (nd_ino nd), st_mode = ucast (i_mode i), st_nlink = ucast (i_links_count i), st_uid = ucast (i_uid i),
             st_gid = ucast (i_gid i), st_size = ucast (i_size i), st_blksize = ucast (block_size (e2_fs s (nd_fs nd))),
             st_blocks = ucast (i_blocks i), st_atime = ucast (i_atime i), st_mtime = ucast (i_mtime i), st_ctime = ucast (i_ctime i)\<rparr>, s))"

definition ext2_close :: "u64 \<Rightarrow> 'a kernel_scheme \<Rightarrow> 'a kernel_scheme option" where
  "ext2_close node s =
     Some (if node = NULL \<or> vn_type (vs_nodes s node) = VFS_DIRECTORY then s else drop_device node s)"

definition ext2_ops :: "(u64 \<Rightarrow> 'a ext2_scheme blockdev) \<Rightarrow> u64 \<Rightarrow> 'a ext2_scheme vfs_operations" where
  "ext2_ops D ops = no_ops\<lparr>op_read := Some (ext2_read D), op_write := Some (ext2_write D), op_close := Some ext2_close,
     op_readdir := Some (ext2_readdir D), op_finddir := Some (ext2_finddir D ops), op_create := Some (ext2_create D),
     op_mkdir := Some (ext2_mkdir D ops), op_rmdir := Some (ext2_rmdir D ops), op_unlink := Some (ext2_unlink D),
     op_rename := Some (ext2_rename D), op_stat := Some ext2_stat\<rparr>"

section \<open>Mounting\<close>

definition zero_fs :: ext2_fs where
  "zero_fs = \<lparr>block_node = NULL, e2_sb = replicate 1024 0, block_size = 0, inodes_per_group = 0, inode_size = 0, groups_count = 0,
     bgdt_block = 0, pointers_per_block = 0, node_cache = (\<lambda>_. (0, NULL))\<rparr>"

text \<open>The fields that are computed from the superblock; a shift by 32 bits or more is undefined.\<close>

definition fs_of_superblock :: "ext2_fs \<Rightarrow> ext2_fs option" where
  "fs_of_superblock f = do {
     let sb = e2_sb f;
     bs \<leftarrow> (if s_log_block_size sb < 32 then Some (push_bit (unat (s_log_block_size sb)) 1024) else None);
     groups \<leftarrow> udiv (s_blocks_count sb + s_blocks_per_group sb - 1) (s_blocks_per_group sb);
     Some (f\<lparr>block_size := bs, inodes_per_group := s_inodes_per_group sb,
       inode_size := (if 1 \<le> s_rev_level sb then ucast (s_inode_size sb) else 128), pointers_per_block := bs div 4,
       bgdt_block := (if bs = 1024 then 2 else 1), groups_count := groups\<rparr>)
   }"

definition mount_root ::
  "(u64 \<Rightarrow> 'a ext2_scheme blockdev) \<Rightarrow> u64 \<Rightarrow> u64 \<Rightarrow> 'a ext2_scheme \<Rightarrow> (u64 \<times> 'a ext2_scheme) option" where
  "mount_root D ops fs s = do {
     f \<leftarrow> fs_of_superblock (e2_fs s fs);
     (root, s) \<leftarrow> ext2_make_node D ops fs EXT2_ROOT_INO (upd_fs fs (\<lambda>_. f) s);
     if root = NULL then Some (NULL, k_kfree fs s)
     else Some (root, upd_node root (\<lambda>n. n\<lparr>vn_name := ''/''\<rparr>) (ext2_cache_remove fs EXT2_ROOT_INO s))
   }"

definition ext2_mount ::
  "(u64 \<Rightarrow> 'a ext2_scheme blockdev) \<Rightarrow> 'a ext2_scheme driver_code \<Rightarrow> cred option \<Rightarrow> u64 \<Rightarrow> string option \<Rightarrow> string \<Rightarrow> u64 \<Rightarrow> 'a ext2_scheme
     \<Rightarrow> (u64 \<times> 'a ext2_scheme) option" where
  "ext2_mount D C thread ops source target data s = do {
     (bn, s) \<leftarrow> (if source = None then Some (NULL, s) else kopen C thread source s);
     if bn = NULL \<and> data = NULL then Some (NULL, s)
     else
       let bn = (if bn = NULL then e2_mount_data s data else bn);
           bops = vn_ops (vs_nodes s bn)
       in case (if bn = NULL \<or> bops = NULL then None else bd_read (D bops)) of
            None \<Rightarrow> Some (NULL, s)
          | Some rd \<Rightarrow>
              let (fs, s) = k_kmalloc EXT2_FS_SIZE s
              in if fs = NULL then Some (NULL, s)
                 else do {
                   (got, s) \<leftarrow> rd bn (ucast EXT2_SUPERBLOCK_OFFSET) EXT2_SUPERBLOCK_SIZE (upd_fs fs (\<lambda>_. zero_fs\<lparr>block_node := bn\<rparr>) s);
                   sb \<leftarrow> put_at 0 got (replicate 1024 0);
                   let s = upd_fs fs (\<lambda>f. f\<lparr>e2_sb := sb\<rparr>) s;
                   if length got < 1024 \<or> s_magic sb \<noteq> EXT2_SUPER_MAGIC then Some (NULL, k_kfree fs s)
                   else mount_root D ops fs s
                 }
   }"

text \<open>\<open>mount\<close> is the address of \<open>ext2_mount\<close>.\<close>

definition ext2fs_init :: "u64 \<Rightarrow> 'a vfs_state_scheme \<Rightarrow> 'a vfs_state_scheme option" where
  "ext2fs_init mount s = vfs_register_fs ''ext2'' 0 mount s"

end
