(* ===== verification/Ext2file.thy ===== *)
theory Ext2file
  imports Ext2
begin

text \<open>
  What \<open>ext2_read\<close> and the search in directories return, on a block device that holds an image of bytes and for
  files whose blocks are all direct, that is, of at most twelve blocks.
\<close>

section \<open>Bytes of a file\<close>

text \<open>A device that returns the bytes of its image, fewer at its end, and changes nothing.\<close>

definition reads_image :: "(u64 \<Rightarrow> 'a ext2_scheme blockdev) \<Rightarrow> u8 list \<Rightarrow> u64 \<Rightarrow> 'a ext2_scheme \<Rightarrow> bool" where
  "reads_image D img fs s \<longleftrightarrow>
     (let bn = block_node (e2_fs s fs);
          ops = vn_ops (vs_nodes s bn)
      in length img \<le> 2 ^ 32 \<and> ops \<noteq> NULL \<and>
         (\<exists>rd. bd_read (D ops) = Some rd \<and> (\<forall>offset sz t. rd bn offset sz t = Some (take (unat sz) (drop (unat offset) img), t))))"

text \<open>A block of the image; block 0 stands for a hole.\<close>

definition image_block :: "u8 list \<Rightarrow> nat \<Rightarrow> u32 \<Rightarrow> u8 list" where
  "image_block img bs b = (if b = 0 then replicate bs 0 else take bs (drop (unat b * bs) img))"

definition file_bytes :: "u8 list \<Rightarrow> nat \<Rightarrow> ext2_inode \<Rightarrow> u8 list" where
  "file_bytes img bs i = take (unat (i_size i)) (concat (map (image_block img bs) (take 12 (i_block i))))"

definition direct_file :: "u8 list \<Rightarrow> nat \<Rightarrow> ext2_inode \<Rightarrow> bool" where
  "direct_file img bs i \<longleftrightarrow> 0 < bs \<and> length (i_block i) = 15 \<and> unat (i_size i) \<le> 12 * bs \<and>
     (\<forall>b\<in>set (take 12 (i_block i)). b \<noteq> 0 \<longrightarrow> (unat b + 1) * bs \<le> length img)"

lemma length_image_block:
  assumes "direct_file img bs i" "b \<in> set (take 12 (i_block i))"
  shows "length (image_block img bs b) = bs"
  using assms by (auto simp: direct_file_def image_block_def)

text \<open>Bytes inside one of several blocks of the same length.\<close>

lemma concat_slice:
  assumes "\<And>b. b \<in> set bl \<Longrightarrow> length b = n" "k < length bl" "j + t \<le> n"
  shows "take t (drop (k * n + j) (concat bl)) = take t (drop j (bl ! k))"
proof -
  have len: "length (concat xs) = length xs * n" if "set xs \<subseteq> set bl" for xs
    using that assms(1) by (induction xs) auto
  have "length (concat (take k bl)) = k * n"
    using len [of "take k bl"] set_take_subset [of k bl] assms(2) by simp
  moreover have "concat bl = concat (take k bl) @ bl ! k @ concat (drop (Suc k) bl)"
    using id_take_nth_drop [OF assms(2)] by (metis concat.simps(2) concat_append)
  ultimately have "drop (k * n + j) (concat bl) = drop j (bl ! k @ concat (drop (Suc k) bl))"
    by simp
  then show ?thesis
    using assms by (simp add: nth_mem)
qed

text \<open>The packed structures: a group descriptor and an inode are read back as they were written.\<close>

lemma gd_roundtrip: "length (bg_rest gd) = 14 \<Longrightarrow> gd_of (gd_bytes gd) = gd"
  by (simp add: gd_of_def gd_bytes_def le_at_def le_word_bytes)

lemma inode_roundtrip:
  assumes "length (i_block i) = 15" "length (i_rest i) = 28"
  shows "inode_of (inode_bytes i) = i"
proof -
  let ?tab = "concat (map (le_bytes 4) (i_block i))"
  define front where "front = take 40 (inode_bytes i)"
  have len: "length ?tab = 60"
    using assms(1) by (simp add: length_concat o_def sum_list_triv)
  have front: "length front = 40" "inode_bytes i = front @ ?tab @ i_rest i"
    by (simp_all add: front_def inode_bytes_def)
  have blocks: "le_at 4 (40 + 4 * k) (inode_bytes i) = i_block i ! k" if "k < 15" for k
  proof -
    have "take 4 (drop (k * 4 + 0) ?tab) = take 4 (drop 0 (map (le_bytes 4) (i_block i) ! k))"
      using that assms(1) by (intro concat_slice) auto
    moreover have "take 4 (drop (4 * k) (?tab @ i_rest i)) = take 4 (drop (4 * k) ?tab)"
      using that len by simp
    ultimately show ?thesis
      using that assms(1) front len by (simp add: le_at_def le_word_bytes mult.commute)
  qed
  have "i_block (inode_of (inode_bytes i)) = i_block i"
    using assms(1) blocks by (intro nth_equalityI) (simp_all add: inode_of_def)
  moreover have "i_rest (inode_of (inode_bytes i)) = i_rest i"
    using front len assms(2) by (simp add: inode_of_def)
  moreover have "i_mode (inode_of (inode_bytes i)) = i_mode i" "i_uid (inode_of (inode_bytes i)) = i_uid i"
      "i_size (inode_of (inode_bytes i)) = i_size i" "i_atime (inode_of (inode_bytes i)) = i_atime i"
      "i_ctime (inode_of (inode_bytes i)) = i_ctime i" "i_mtime (inode_of (inode_bytes i)) = i_mtime i"
      "i_dtime (inode_of (inode_bytes i)) = i_dtime i" "i_gid (inode_of (inode_bytes i)) = i_gid i"
      "i_links_count (inode_of (inode_bytes i)) = i_links_count i" "i_blocks (inode_of (inode_bytes i)) = i_blocks i"
      "i_flags (inode_of (inode_bytes i)) = i_flags i" "i_osd1 (inode_of (inode_bytes i)) = i_osd1 i"
    by (simp_all add: inode_of_def inode_bytes_def le_at_def le_word_bytes)
  ultimately show ?thesis
    by (intro ext2_inode.equality) simp_all
qed

lemma file_slice:
  assumes "direct_file img bs i" "p + t \<le> unat (i_size i)" "p mod bs + t \<le> bs" "0 < t"
  shows "take t (drop p (file_bytes img bs i)) = take t (drop (p mod bs) (image_block img bs (i_block i ! (p div bs))))"
    and "p div bs < 12"
proof -
  have bs: "0 < bs" and len: "length (i_block i) = 15" and size: "unat (i_size i) \<le> 12 * bs"
    using assms(1) by (simp_all add: direct_file_def)
  have "p < 12 * bs"
    using assms(2,4) size by linarith
  then show k: "p div bs < 12"
    using bs by (simp add: less_mult_imp_div_less)
  let ?bl = "map (image_block img bs) (take 12 (i_block i))"
  have "length b = bs" if "b \<in> set ?bl" for b
    using that length_image_block [OF assms(1)] by auto
  moreover have "p div bs < length ?bl"
    using k len by simp
  ultimately have "take t (drop (p div bs * bs + p mod bs) (concat ?bl)) = take t (drop (p mod bs) (?bl ! (p div bs)))"
    using assms(3) by (rule concat_slice)
  moreover have "take t (drop p (file_bytes img bs i)) = take t (drop p (concat ?bl))"
    using assms(2) by (simp add: file_bytes_def drop_take)
  ultimately show "take t (drop p (file_bytes img bs i)) = take t (drop (p mod bs) (image_block img bs (i_block i ! (p div bs))))"
    using k len by simp
qed

lemma length_file_bytes:
  assumes "direct_file img bs i"
  shows "length (file_bytes img bs i) = unat (i_size i)"
proof -
  have "length (concat (map (image_block img bs) bl)) = length bl * bs" if "set bl \<subseteq> set (take 12 (i_block i))" for bl
    using that length_image_block [OF assms] by (induction bl) auto
  from this [of "take 12 (i_block i)"] show ?thesis
    using assms by (simp add: file_bytes_def direct_file_def)
qed

section \<open>Writing to memory\<close>

lemma vwrite_append: "vwrite a (xs @ ys) s = Option.bind (vwrite a xs s) (vwrite (a + of_nat (length xs)) ys)"
proof (induction xs arbitrary: a s)
  case (Cons x xs)
  then show ?case
    by (cases "vstore a x s") (simp_all add: algebra_simps)
qed simp

lemma vfill_vwrite: "vfill n a b s = vwrite a (replicate n b) s"
proof (induction n arbitrary: a s)
  case (Suc n)
  then show ?case
    by (cases "vstore a b s") simp_all
qed simp

lemma set_mem_set_mem [simp]: "set_mem m (set_mem m' s) = set_mem m s"
  by (simp add: set_mem_def)

lemma vwrite_set_mem: "vwrite a bs s = Some s' \<Longrightarrow> \<exists>m. s' = set_mem m s"
proof (induction bs arbitrary: a s)
  case Nil
  then show ?case
    by (intro exI [of _ "k_mem s"]) (simp add: set_mem_def k_mem_def)
next
  case (Cons b bs)
  obtain s1 where s1: "vstore a b s = Some s1" "vwrite (a + 1) bs s1 = Some s'"
    using Cons.prems by (cases "vstore a b s") auto
  obtain m1 where "s1 = set_mem m1 s"
    using s1(1) by (auto simp: vstore_def)
  then show ?case
    using Cons.IH [OF s1(2)] by auto
qed

text \<open>The tables of nodes and file systems are not in the byte memory.\<close>

lemma set_mem_tables [simp]:
  "vs_nodes (set_mem m s) = vs_nodes s" "e2_fs (set_mem m t) = e2_fs t" "e2_nodes (set_mem m t) = e2_nodes t"
  by (simp_all add: set_mem_def)

lemma set_mem_ext2 [simp]:
  "node_data node (set_mem m s) = node_data node s" "node_fs node (set_mem m s) = node_fs node s"
  "node_inode node (set_mem m s) = node_inode node s" "reads_image D img fs (set_mem m s) = reads_image D img fs s"
  by (simp_all add: node_data_def node_fs_def node_inode_def reads_image_def)

section \<open>Reading\<close>

lemma dev_read_image:
  "reads_image D img fs s \<Longrightarrow> dev_read D fs offset sz s = Some (take (unat sz) (drop (unat (ucast offset :: u32)) img), s)"
  by (auto simp: reads_image_def dev_read_def Let_def)

lemma get_direct: "n < 12 \<Longrightarrow> inode_get_block D fs i (of_nat n) s = Some (i_block i ! n, s)"
  by (simp add: inode_get_block_def EXT2_NDIR_BLOCKS_def word_less_nat_alt unat_of_nat)

text \<open>The offset of a byte of a block on the device.\<close>

lemma unat_block_offset:
  assumes "(unat b + 1) * unat bs \<le> 2 ^ 32" "unat j < unat (bs :: u32)"
  shows "unat (ucast (ucast (b :: u32) * ucast bs + ucast (j :: u32) :: u64) :: u32) = unat b * unat bs + unat j"
proof -
  have less: "unat b * unat bs + unat j < 2 ^ 32"
    using assms by (simp add: algebra_simps)
  then have "unat (ucast b * ucast bs + ucast j :: u64) = unat b * unat bs + unat j"
    by (simp add: unat_word_ariths)
  then show ?thesis
    using less by (simp add: unsigned_ucast_eq take_bit_nat_eq_self)
qed

text \<open>One round of the loop: the bytes it takes from a block are those of the file at the position it has reached.\<close>

lemma read_round:
  assumes dev: "reads_image D img (node_fs node s) s"
    and fil: "direct_file img (unat (block_size (e2_fs s (node_fs node s)))) (node_inode node s)"
    and pos: "unat offset + unat sz \<le> unat (i_size (node_inode node s))" and r: "r < sz"
    and bs: "bs = block_size (e2_fs s (node_fs node s))" and t: "t = min (bs - (offset + r) mod bs) (sz - r)"
  shows "0 < unat t" "unat r + unat t \<le> unat sz"
    "ext2_read_loop D node offset sz buffer r s =
      Option.bind (vwrite (buffer + ucast r) (take (unat t) (drop (unat offset + unat r) (file_bytes img (unat bs) (node_inode node s)))) s)
        (ext2_read_loop D node offset sz buffer (r + t))"
proof -
  let ?i = "node_inode node s"
  let ?p = "unat offset + unat r"
  define lb where "lb = ?p div unat bs"
  have bs0: "0 < unat bs" "bs \<noteq> 0"
    using fil by (auto simp: direct_file_def bs)
  have "unat r < unat sz"
    using r by (simp add: word_less_nat_alt)
  then have "?p < 2 ^ 32"
    using pos unat_u32_bound [of "i_size ?i"] by linarith
  then have p: "unat (offset + r) = ?p"
    by (simp add: unat_word_ariths)
  have bo: "unat ((offset + r) mod bs) = ?p mod unat bs"
    by (simp add: unat_mod p)
  have rt: "unat (bs - (offset + r) mod bs) = unat bs - ?p mod unat bs" "unat (sz - r) = unat sz - unat r"
    using bs0(1) bo r by (simp_all add: unat_sub_le word_le_nat_alt word_less_nat_alt less_imp_le)
  have t_nat: "unat t = min (unat bs - ?p mod unat bs) (unat sz - unat r)"
    using rt by (simp add: t min_def word_le_nat_alt)
  have less: "?p mod unat bs < unat bs" "unat r < unat sz"
    using bs0(1) r by (simp_all add: word_less_nat_alt)
  show t0: "0 < unat t" and "unat r + unat t \<le> unat sz"
    using t_nat less by simp_all
  have sl: "take (unat t) (drop ?p (file_bytes img (unat bs) ?i)) = take (unat t) (drop (?p mod unat bs) (image_block img (unat bs) (i_block ?i ! lb)))"
      and lb: "lb < 12"
    using file_slice [OF fil, of ?p "unat t"] t0 t_nat less pos by (auto simp: bs lb_def)
  have div: "udiv (offset + r) bs = Some (of_nat lb)" "umod (offset + r) bs = Some ((offset + r) mod bs)"
  proof -
    have "unat ((offset + r) div bs) = lb"
      by (simp add: unat_div p lb_def)
    then have "(offset + r) div bs = of_nat lb"
      by (metis of_nat_unat ucast_id)
    then show "udiv (offset + r) bs = Some (of_nat lb)" "umod (offset + r) bs = Some ((offset + r) mod bs)"
      using bs0(2) by (simp_all add: udiv_def umod_def)
  qed
  have nr: "\<not> sz \<le> r"
    using r by simp
  define b where "b = i_block ?i ! lb"
  have bt: "unat t + ?p mod unat bs \<le> unat bs"
    using t_nat less by simp
  show "ext2_read_loop D node offset sz buffer r s =
      Option.bind (vwrite (buffer + ucast r) (take (unat t) (drop ?p (file_bytes img (unat bs) ?i))) s)
        (ext2_read_loop D node offset sz buffer (r + t))"
  proof (cases "b = 0")
    case True
    then have "take (unat t) (drop ?p (file_bytes img (unat bs) ?i)) = replicate (unat t) 0"
      using sl bt by (simp add: b_def image_block_def)
    then show ?thesis
      using nr True div t get_direct [OF lb, of D "node_fs node s" ?i s]
      by (subst ext2_read_loop.simps) (simp add: Let_def b_def vfill_vwrite flip: bs)
  next
    case False
    have "b \<in> set (take 12 (i_block ?i))"
      using lb fil by (auto simp: b_def direct_file_def in_set_conv_nth intro!: exI [of _ lb])
    then have img: "(unat b + 1) * unat bs \<le> length img"
      using fil False by (auto simp: direct_file_def bs)
    then have off: "unat (ucast (ucast b * ucast bs + ucast ((offset + r) mod bs) :: u64) :: u32) = unat b * unat bs + ?p mod unat bs"
      using dev less(1) by (subst unat_block_offset) (auto simp: reads_image_def Let_def bo)
    define got where "got = take (unat t) (drop (?p mod unat bs) (image_block img (unat bs) b))"
    have "take (unat t) (drop (unat b * unat bs + ?p mod unat bs) img) = got"
      using False bt by (simp add: got_def image_block_def drop_take add.commute min_def)
    then have rd: "dev_read D (node_fs node s) (ucast b * ucast bs + ucast ((offset + r) mod bs)) t s = Some (got, s)"
      by (simp add: dev_read_image [OF dev] off)
    have "length got = unat t"
      using img bt False by (simp add: got_def image_block_def)
    then have got: "got \<noteq> []" "of_nat (length got) = t"
      using t0 by auto
    show ?thesis
      using nr False div t get_direct [OF lb, of D "node_fs node s" ?i s] rd got sl
      by (subst ext2_read_loop.simps) (simp add: Let_def b_def got_def flip: bs)
  qed
qed

lemma read_loop:
  assumes "reads_image D img (node_fs node s) s" "direct_file img (unat (block_size (e2_fs s (node_fs node s)))) (node_inode node s)"
    "unat offset + unat sz \<le> unat (i_size (node_inode node s))" "r \<le> sz"
  shows "ext2_read_loop D node offset sz buffer r s =
    map_option (Pair sz) (vwrite (buffer + ucast r) (take (unat sz - unat r) (drop (unat offset + unat r)
      (file_bytes img (unat (block_size (e2_fs s (node_fs node s)))) (node_inode node s)))) s)"
  using assms
proof (induction "unat sz - unat r" arbitrary: r s rule: less_induct)
  case less
  define F where "F = file_bytes img (unat (block_size (e2_fs s (node_fs node s)))) (node_inode node s)"
  show ?case
  proof (cases "r = sz")
    case True
    then show ?thesis
      by (subst ext2_read_loop.simps) simp
  next
    case False
    then have r: "r < sz"
      using less.prems(4) by simp
    define t where "t = min (block_size (e2_fs s (node_fs node s)) - (offset + r) mod block_size (e2_fs s (node_fs node s))) (sz - r)"
    define part where "part = take (unat t) (drop (unat offset + unat r) F)"
    note round = read_round [OF less.prems(1-3) r refl t_def]
    have small: "unat r + unat t < 2 ^ 32"
      using round(2) unat_u32_bound [of sz] by linarith
    then have sum: "unat (r + t) = unat r + unat t"
      by (simp add: unat_word_ariths)
    have addr: "buffer + ucast (r + t) = buffer + ucast r + of_nat (unat t)"
    proof -
      have "unat (ucast (r + t) :: u64) = unat (ucast r + of_nat (unat t) :: u64)"
        using sum small by (simp add: unat_word_ariths)
      then have "(ucast (r + t) :: u64) = ucast r + of_nat (unat t)"
        by (simp only: word_unat_eq_iff)
      then show ?thesis
        by (simp only: add.assoc)
    qed
    have rest: "take (unat sz - unat r) (drop (unat offset + unat r) F) =
        part @ take (unat sz - unat (r + t)) (drop (unat offset + unat (r + t)) F)"
    proof -
      have "unat sz - unat r = unat t + (unat sz - unat (r + t))"
        using round(2) sum by simp
      then show ?thesis
        by (simp only: take_add drop_drop part_def sum) (simp add: ac_simps)
    qed
    have len: "length part = unat t"
      using length_file_bytes [OF less.prems(2)] less.prems(3) round(2) by (simp add: part_def F_def)
    show ?thesis
    proof (cases "vwrite (buffer + ucast r) part s")
      case None
      then show ?thesis
        using round(3) [of buffer] by (simp add: rest vwrite_append flip: F_def part_def)
    next
      case (Some s1)
      obtain m where s1: "s1 = set_mem m s"
        using vwrite_set_mem [OF Some] by blast
      have "ext2_read_loop D node offset sz buffer (r + t) s1 =
          map_option (Pair sz) (vwrite (buffer + ucast (r + t)) (take (unat sz - unat (r + t)) (drop (unat offset + unat (r + t)) F)) s1)"
        using less.hyps [of "r + t" s1] less.prems round(1,2) r sum
        by (simp add: s1 F_def word_le_nat_alt word_less_nat_alt)
      then show ?thesis
        using Some round(3) [of buffer] by (simp add: rest vwrite_append len addr flip: F_def part_def)
    qed
  qed
qed

text \<open>C16: reading a file of at most twelve blocks on a device that returns the bytes of its image.  The call returns, and its
  effect is to write to the buffer the part of the file's bytes that the offset and the size denote, cut at the
  end of the file; the result is the number of these bytes, and a page fault at the buffer is the only
  failure.  The sum of offset and size must fit into 32 bits.\<close>

theorem ext2_read_correct:
  assumes "device (vs_nodes s node) \<noteq> NULL" "reads_image D img (node_fs node s) s"
    "direct_file img (unat (block_size (e2_fs s (node_fs node s)))) (node_inode node s)" "unat offset + unat sz < 2 ^ 32"
  shows "ext2_read D node offset sz buffer s =
    (let part = take (unat sz) (drop (unat offset) (file_bytes img (unat (block_size (e2_fs s (node_fs node s)))) (node_inode node s)))
     in map_option (Pair (of_nat (length part))) (vwrite buffer part s))"
proof -
  let ?F = "file_bytes img (unat (block_size (e2_fs s (node_fs node s)))) (node_inode node s)"
  define n where "n = i_size (node_inode node s)"
  have len: "length ?F = unat n"
    using length_file_bytes [OF assms(3)] by (simp add: n_def)
  show ?thesis
  proof (cases "n \<le> offset")
    case True
    then have "drop (unat offset) ?F = []"
      using len by (simp add: word_le_nat_alt)
    then show ?thesis
      using True assms(1) by (simp add: ext2_read_def n_def)
  next
    case False
    have sum: "unat (offset + sz) = unat offset + unat sz"
      using assms(4) by (simp add: unat_word_ariths)
    define k where "k = (if n < offset + sz then n - offset else sz)"
    have less: "unat offset < unat n"
      using False by (simp add: word_le_nat_alt)
    have k: "unat k = min (unat sz) (unat n - unat offset)"
      using False less sum by (auto simp: k_def word_less_nat_alt unat_sub_le)
    have "ext2_read D node offset sz buffer s = ext2_read_loop D node offset k buffer 0 s"
      using False assms(1) by (simp add: ext2_read_def k_def n_def)
    also have "\<dots> = map_option (Pair k) (vwrite buffer (take (unat k) (drop (unat offset) ?F)) s)"
      using read_loop [OF assms(2,3), of offset k 0 buffer] k less by (simp add: n_def)
    also have "take (unat k) (drop (unat offset) ?F) = take (unat sz) (drop (unat offset) ?F)"
      using k len by (simp add: min_def)
    also have "k = of_nat (length (take (unat sz) (drop (unat offset) ?F)))"
    proof -
      have "length (take (unat sz) (drop (unat offset) ?F)) = unat k"
        using k len by (simp add: min.commute)
      then show ?thesis
        by simp
    qed
    finally show ?thesis
      by (simp add: Let_def)
  qed
qed

section \<open>Searching a directory\<close>

text \<open>The entries of the blocks of a directory, one list per block.\<close>

definition directory :: "u8 list \<Rightarrow> nat \<Rightarrow> ext2_inode \<Rightarrow> (ext2_dirent \<times> u8 list) list list \<Rightarrow> bool" where
  "directory img bs i dss \<longleftrightarrow> direct_file img bs i \<and> unat (i_size i) = length dss * bs \<and>
     (\<forall>j<length dss. i_block i ! j \<noteq> 0 \<and> dents (image_block img bs (i_block i ! j)) (dss ! j))"

lemma directory_blocks:
  assumes "directory img bs i dss" "j < length dss"
  shows "j < 12" "i_block i ! j \<in> set (take 12 (i_block i))" "(unat (i_block i ! j) + 1) * bs \<le> length img"
    "length (image_block img bs (i_block i ! j)) = bs"
proof -
  have fil: "direct_file img bs i" and "length dss * bs \<le> 12 * bs" and bs: "0 < bs" and b: "i_block i ! j \<noteq> 0"
    using assms by (auto simp: directory_def direct_file_def)
  then show j: "j < 12"
    using assms(2) by simp
  have "length (i_block i) = 15"
    using fil by (simp add: direct_file_def)
  with j show mem: "i_block i ! j \<in> set (take 12 (i_block i))"
    by (auto simp: in_set_conv_nth intro!: exI [of _ j])
  then show "(unat (i_block i ! j) + 1) * bs \<le> length img"
    using fil b by (simp add: direct_file_def)
  show "length (image_block img bs (i_block i ! j)) = bs"
    using fil mem by (rule length_image_block)
qed

lemma read_block_image:
  assumes "reads_image D img fs s" "bs = unat (block_size (e2_fs s fs))" "b \<noteq> 0" "(unat b + 1) * bs \<le> length img" "0 < bs" "length buf = bs"
  shows "\<exists>n. read_block D fs b buf s = Some (n, image_block img bs b, s)"
proof -
  have "(unat b + 1) * unat (block_size (e2_fs s fs)) \<le> 2 ^ 32"
    using assms(1,2,4) by (auto simp: reads_image_def Let_def)
  from unat_block_offset [OF this, of 0]
  have off: "unat (ucast (block_offset (e2_fs s fs) b) :: u32) = unat b * bs"
    using assms(2,5) by (simp add: block_offset_def)
  have "length (take bs (drop (unat b * bs) img)) = length buf"
    using assms(4,6) by simp
  then have "put_at 0 (take bs (drop (unat b * bs) img)) buf = Some (image_block img bs b)"
    using assms(3) by (simp add: put_at_def overlay_def image_block_def)
  then show ?thesis
    using assms(2,3) by (simp add: read_block_def read_bytes_def Let_def dev_read_image [OF assms(1)] off)
qed

definition find_result :: "finddir_ctx \<Rightarrow> (u32 \<times> u8 list \<times> u8) list \<Rightarrow> finddir_ctx" where
  "find_result fc es =
     (case find (\<lambda>(_, n, _). n = fc_name fc) es of None \<Rightarrow> fc | Some (ino, n, ft) \<Rightarrow> fc\<lparr>fc_found := Some (ino, ft)\<rparr>)"

lemma dirent_blocks_find:
  assumes dev: "reads_image D img (node_fs node s) s" and bs: "bs = unat (block_size (e2_fs s (node_fs node s)))"
    and dir: "directory img bs (node_inode node s) dss" and "j \<le> length dss" "length buf = bs"
  shows "dirent_blocks D node finddir_cb (i_size (node_inode node s)) (of_nat (j * bs)) (of_nat j) buf fc s =
    Some (find_result fc (concat (map in_use (drop j dss))), s)"
  using assms(4,5)
proof (induction "length dss - j" arbitrary: j buf)
  case 0
  then have "j = length dss"
    by simp
  moreover have "i_size (node_inode node s) = of_nat (length dss * bs)"
    using dir by (metis directory_def of_nat_unat ucast_id)
  ultimately show ?case
    by (subst dirent_blocks.simps) (simp add: find_result_def)
next
  case (Suc k)
  let ?i = "node_inode node s"
  have j: "j < length dss"
    using Suc.hyps(2) by simp
  note blocks = directory_blocks [OF dir j]
  have size: "unat (i_size ?i) = length dss * bs" and b0: "i_block ?i ! j \<noteq> 0" and bs0: "0 < bs"
      and d: "dents (image_block img bs (i_block ?i ! j)) (dss ! j)"
    using dir j by (auto simp: directory_def direct_file_def)
  have le: "j * bs + bs \<le> unat (i_size ?i)"
    using mult_le_mono1 [of "Suc j" "length dss" bs] j size by simp
  then have small: "j * bs + bs < 2 ^ 32"
    using unat_u32_bound [of "i_size ?i"] by linarith
  then have vis: "unat (of_nat (j * bs) :: u32) = j * bs"
    using bs0 by (intro unat_of_nat_u32) linarith
  have go: "\<not> i_size ?i \<le> of_nat (j * bs)"
    using vis le bs0 by (simp only: word_le_nat_alt)
  obtain n where rb: "read_block D (node_fs node s) (i_block ?i ! j) buf s = Some (n, image_block img bs (i_block ?i ! j), s)"
    using read_block_image [OF dev bs b0 blocks(3) bs0 Suc.prems(2)] by blast
  have scan: "dirent_scan finddir_cb (image_block img bs (i_block ?i ! j)) (of_nat (j * bs)) (i_size ?i) 0 fc =
      Some (case find (\<lambda>(_, n, _). n = fc_name fc) (in_use (dss ! j)) of None \<Rightarrow> (False, fc)
        | Some (ino, n, ft) \<Rightarrow> (True, fc\<lparr>fc_found := Some (ino, ft)\<rparr>))"
    using finddir_scan_dents [of 0 "image_block img bs (i_block ?i ! j)" "dss ! j" "of_nat (j * bs)" "i_size ?i" fc] d vis le blocks(4)
    by simp
  have step: "dirent_blocks D node finddir_cb (i_size ?i) (of_nat (j * bs)) (of_nat j) buf fc s =
      (case find (\<lambda>(_, n, _). n = fc_name fc) (in_use (dss ! j)) of
         Some (ino, n, ft) \<Rightarrow> Some (fc\<lparr>fc_found := Some (ino, ft)\<rparr>, s)
       | None \<Rightarrow> dirent_blocks D node finddir_cb (i_size ?i) (of_nat (Suc j * bs)) (of_nat (Suc j)) (image_block img bs (i_block ?i ! j)) fc s)"
  proof -
    have "of_nat (j * bs) + block_size (e2_fs s (node_fs node s)) = (of_nat (Suc j * bs) :: u32)" "of_nat j + 1 = (of_nat (Suc j) :: u32)"
      by (simp_all add: bs algebra_simps)
    then show ?thesis
      using go get_direct [OF blocks(1), of D "node_fs node s" ?i s] b0 rb scan
      by (subst dirent_blocks.simps) (simp add: Let_def ac_simps split: option.split)
  qed
  have rest: "concat (map in_use (drop j dss)) = in_use (dss ! j) @ concat (map in_use (drop (Suc j) dss))"
    using Cons_nth_drop_Suc [OF j] by (metis concat.simps(2) list.simps(9))
  have "dirent_blocks D node finddir_cb (i_size ?i) (of_nat (Suc j * bs)) (of_nat (Suc j)) (image_block img bs (i_block ?i ! j)) fc s =
      Some (find_result fc (concat (map in_use (drop (Suc j) dss))), s)"
    using Suc.hyps(1) [of "Suc j" "image_block img bs (i_block ?i ! j)"] Suc.hyps(2) j blocks(4) by linarith
  then show ?case
    unfolding step rest by (simp only: find_result_def find_append split: option.split) simp
qed

lemma block_buf_tables:
  assumes "block_buf fs s = (p, buf, s')"
  shows "vs_nodes s' = vs_nodes s" "e2_fs s' = e2_fs s" "e2_nodes s' = e2_nodes s" "length buf = unat (block_size (e2_fs s fs))"
  using assms by (auto simp: block_buf_def k_kmalloc_def put_mm_def Let_def split: prod.splits)

text \<open>C17: the search for a name in a directory of at most twelve blocks, on a device that returns the bytes of its image.  It
  returns, and finds the first entry in use with that name over all blocks of the directory, or nothing when
  there is none; its only effect on the state is to allocate and free the buffer.  Without memory for
  the buffer it finds nothing.\<close>

theorem find_entry_named_correct:
  assumes "device (vs_nodes s node) \<noteq> NULL" "reads_image D img (node_fs node s) s"
    "directory img (unat (block_size (e2_fs s (node_fs node s)))) (node_inode node s) dss"
  shows "find_entry_named D node nm s =
    (let (p, _, s') = block_buf (node_fs node s) s
     in if p = NULL then Some (None, s')
        else Some (map_option (\<lambda>(ino, _, ft). (ino, ft)) (find (\<lambda>(_, n, _). n = name_bytes nm) (concat (map in_use dss))), k_kfree p s'))"
proof -
  let ?fc = "\<lparr>fc_name = name_bytes nm, fc_found = None\<rparr>"
  obtain p buf s' where buf: "block_buf (node_fs node s) s = (p, buf, s')"
    by (cases "block_buf (node_fs node s) s")
  note tab = block_buf_tables [OF buf]
  have same: "node_fs node s' = node_fs node s" "node_inode node s' = node_inode node s"
    by (simp_all add: node_fs_def node_inode_def node_data_def tab)
  have "reads_image D img (node_fs node s') s'"
    using assms(2) by (simp add: reads_image_def tab same)
  then have "dirent_blocks D node finddir_cb (i_size (node_inode node s')) (of_nat (0 * unat (block_size (e2_fs s' (node_fs node s'))))) (of_nat 0) buf ?fc s' =
      Some (find_result ?fc (concat (map in_use (drop 0 dss))), s')"
    using assms(3) tab(2,4) same by (intro dirent_blocks_find) simp_all
  then have "foreach_dirent D node finddir_cb ?fc s =
      Some (if p = NULL then (?fc, s') else (find_result ?fc (concat (map in_use dss)), k_kfree p s'))"
    using assms(1) buf by (simp add: foreach_dirent_def has_data_def)
  then show ?thesis
    using buf by (auto simp: find_entry_named_def find_result_def split: option.split)
qed

section \<open>An example\<close>

text \<open>A disk of three blocks of 36 bytes: the second holds a directory, the third the bytes 0 to 35 of a file.\<close>

definition image_example :: "u8 list" where
  "image_example = replicate 36 0 @ dir_example @ map of_nat [0..<36]"

definition dev_example :: "u64 \<Rightarrow> 'a ext2_scheme blockdev" where
  "dev_example ops = \<lparr>bd_read = Some (\<lambda>node offset sz t. Some (take (unat sz) (drop (unat offset) image_example), t)), bd_write = None\<rparr>"

definition inode_example :: "u32 \<Rightarrow> u32 \<Rightarrow> ext2_inode" where
  "inode_example b sz = zero_inode\<lparr>i_size := sz, i_block := b # replicate 14 0\<rparr>"

definition ext2_example :: "ext2_inode \<Rightarrow> 'a ext2_scheme \<Rightarrow> 'a ext2_scheme" where
  "ext2_example i s = s\<lparr>vs_nodes := (\<lambda>_. zero_node\<lparr>device := 0x3000, vn_ops := 0x4000\<rparr>),
     e2_fs := (\<lambda>_. zero_fs\<lparr>block_node := 0x5000, block_size := 36\<rparr>),
     e2_nodes := (\<lambda>_. \<lparr>nd_fs = 0x6000, nd_ino = 5, nd_inode = i\<rparr>)\<rparr>"

lemma ext2_example_simps:
  "node_fs node (ext2_example i s) = 0x6000" "node_inode node (ext2_example i s) = i"
  "device (vs_nodes (ext2_example i s) node) = 0x3000" "block_size (e2_fs (ext2_example i s) fs) = 36"
  "reads_image dev_example image_example fs (ext2_example i s)"
  by (simp_all add: ext2_example_def node_fs_def node_inode_def node_data_def reads_image_def dev_example_def image_example_def
      length_dir_example)

lemma inode_example_direct:
  assumes "unat sz \<le> 432" "unat b < 3"
  shows "direct_file image_example 36 (inode_example b sz)"
  using assms by (auto simp: direct_file_def inode_example_def image_example_def length_dir_example numeral_eq_Suc)

theorem ext2_read_correct_witness:
  "\<forall>s. ext2_read dev_example 0x1000 30 10 0x7000 (ext2_example (inode_example 2 34) s) =
     map_option (Pair 4) (vwrite 0x7000 [30, 31, 32, 33] (ext2_example (inode_example 2 34) s))"
proof
  fix s :: "'a ext2_scheme"
  have "take 10 (drop 30 (file_bytes image_example 36 (inode_example 2 34))) = [30, 31, 32, 33]"
    by code_simp
  moreover have "direct_file image_example 36 (inode_example 2 34)"
    by (rule inode_example_direct) simp_all
  ultimately show "ext2_read dev_example 0x1000 30 10 0x7000 (ext2_example (inode_example 2 34) s) =
     map_option (Pair 4) (vwrite 0x7000 [30, 31, 32, 33] (ext2_example (inode_example 2 34) s))"
    using ext2_read_correct [where s = "ext2_example (inode_example 2 34) s" and node = "0x1000" and D = dev_example and
        img = image_example and offset = "30" and sz = "10" and buffer = "0x7000"]
    by (simp add: ext2_example_simps)
qed

theorem find_entry_named_correct_witness:
  "\<forall>s. find_entry_named dev_example 0x1000 ''..'' (ext2_example (inode_example 1 36) s) =
     (let (p, _, s') = block_buf 0x6000 (ext2_example (inode_example 1 36) s)
      in if p = NULL then Some (None, s') else Some (Some (2, 2), k_kfree p s'))"
proof
  fix s :: "'a ext2_scheme"
  have "image_block image_example 36 1 = dir_example"
    by (simp add: image_block_def image_example_def length_dir_example)
  then have "directory image_example 36 (inode_example 1 36) [dents_example]"
    using inode_example_direct [of 36 1] dents_example by (simp add: directory_def inode_example_def)
  moreover have "find (\<lambda>(_, n, _). n = name_bytes ''..'') (concat (map in_use [dents_example])) = Some (2, [46, 46], 2)"
    by code_simp
  ultimately show "find_entry_named dev_example 0x1000 ''..'' (ext2_example (inode_example 1 36) s) =
     (let (p, _, s') = block_buf 0x6000 (ext2_example (inode_example 1 36) s)
      in if p = NULL then Some (None, s') else Some (Some (2, 2), k_kfree p s'))"
    using find_entry_named_correct [where s = "ext2_example (inode_example 1 36) s" and node = "0x1000" and D = dev_example and
        img = image_example and dss = "[dents_example]" and nm = "''..''"]
    by (simp add: ext2_example_simps split: prod.split)
qed

end
