(* ===== verification/Tarfs.thy ===== *)
theory Tarfs
  imports Ext2
begin

text \<open>
  \<open>krnl/fs/tarfs.c\<close>, a read-only file system on an archive in the format of \<open>tar\<close>: mounting reads the headers one after
  the other and builds the tree of directories and files, whose contents stay in the archive.

  The structures of directories, entries and files are stores by address.  A header is the list of its 512
  bytes.  \<open>C\<close> are the drivers, and \<open>sp\<close> is the address of the header on the stack.  \<open>None\<close> is a null pointer
  that is dereferenced, a string without an end, or a loop without one; also a file that is used as a directory,
  which the code does when an archive has a member below a file.
\<close>

section \<open>State\<close>

record tar_dir_entry =
  te_next :: u64
  te_node :: u64

record tar_file_data =
  source_node :: u64
  data_offset :: u64

record tarfs = ext2 +
  tar_children :: "u64 \<Rightarrow> u64"
  tar_entries :: "u64 \<Rightarrow> tar_dir_entry"
  tar_files :: "u64 \<Rightarrow> tar_file_data"
  tar_mount_data :: "u64 \<Rightarrow> u64"
  tar_inode_counter :: u32

definition TAR_DIR_ENTRY_SIZE :: u64 where "TAR_DIR_ENTRY_SIZE = 16"
definition TAR_DIR_DATA_SIZE :: u64 where "TAR_DIR_DATA_SIZE = 8"
definition TAR_FILE_DATA_SIZE :: u64 where "TAR_FILE_DATA_SIZE = 16"

section \<open>Headers\<close>

definition octal_to_int :: "u8 list \<Rightarrow> u32" where
  "octal_to_int cs = fold (\<lambda>c n. if 48 \<le> c \<and> c \<le> 55 then n * 8 + (ucast c - 48) else n) cs 0"

definition tar_filename :: "u8 list \<Rightarrow> u8 list" where "tar_filename h = take 100 h"
definition tar_size :: "u8 list \<Rightarrow> u32" where "tar_size h = octal_to_int (take 11 (drop 124 h))"
definition tar_typeflag :: "u8 list \<Rightarrow> u8" where "tar_typeflag h = h ! 156"
definition tar_prefix :: "u8 list \<Rightarrow> u8 list" where "tar_prefix h = take 155 (drop 345 h)"

text \<open>The full name of a member.  The code copies a prefix of 155 characters without a terminating zero.\<close>

definition tar_name :: "u8 list \<Rightarrow> string option" where
  "tar_name h =
     (if hd (tar_prefix h) = 0 then Some (string_of (tar_filename h))
      else if 0 \<in> set (tar_prefix h)
      then Some (take 255 (string_of (tar_prefix h) @ ''/'' @ string_of (tar_filename h)))
      else None)"

text \<open>The step to the next header, in 32 bits.\<close>

definition tar_step :: "u32 \<Rightarrow> u32" where
  "tar_step sz = 512 + (sz + 511) div 512 * 512"

section \<open>Operations of the file system layer\<close>

definition tarfs_read ::
  "'a tarfs_scheme driver_code \<Rightarrow> u64 \<Rightarrow> u32 \<Rightarrow> u32 \<Rightarrow> u64 \<Rightarrow> 'a tarfs_scheme \<Rightarrow> (u32 \<times> 'a tarfs_scheme) option" where
  "tarfs_read C node offset sz buffer s =
     (let n = vs_nodes s node;
          fd = tar_files s (device n)
      in if vn_type n \<noteq> VFS_FILE \<or> device n = NULL then Some (0, s)
         else if vn_size n \<le> offset then Some (0, s)
         else
           let sz = (if vn_size n < offset + sz then vn_size n - offset else sz)
           in case node_op C op_read (source_node fd) s of
                None \<Rightarrow> Some (0, s)
              | Some rd \<Rightarrow> rd (source_node fd) (ucast (data_offset fd + ucast offset)) sz buffer s)"

definition tar_next :: "'a tarfs_scheme \<Rightarrow> u64 \<Rightarrow> u64" where
  "tar_next s e = te_next (tar_entries s e)"

definition tar_child :: "'a tarfs_scheme \<Rightarrow> u64 \<Rightarrow> u64" where
  "tar_child s e = te_node (tar_entries s e)"

definition tarfs_readdir :: "u64 \<Rightarrow> u32 \<Rightarrow> 'a tarfs_scheme \<Rightarrow> (dirent option \<times> 'a tarfs_scheme) option" where
  "tarfs_readdir node index s =
     (if not_dir s node then Some (None, s)
      else
        let entry = dir_skip (tar_next s) (unat index) (tar_children s (device (vs_nodes s node)));
            n = vs_nodes s (tar_child s entry)
        in Some (if entry = NULL then None else Some \<lparr>d_name = take 255 (vn_name n), d_ino = inode n\<rparr>, s))"

definition tarfs_finddir :: "u64 \<Rightarrow> string \<Rightarrow> 'a tarfs_scheme \<Rightarrow> (u64 \<times> 'a tarfs_scheme) option" where
  "tarfs_finddir node nm s =
     (if not_dir s node then Some (NULL, s)
      else map_option (\<lambda>n. (n, s)) (dir_find (tar_next s) (tar_child s) (\<lambda>n. vn_name (vs_nodes s n)) nm (tar_children s (device (vs_nodes s node)))))"

definition tarfs_ops :: "'a tarfs_scheme driver_code \<Rightarrow> 'a tarfs_scheme vfs_operations" where
  "tarfs_ops C = no_ops\<lparr>op_read := Some (tarfs_read C), op_readdir := Some tarfs_readdir, op_finddir := Some tarfs_finddir\<rparr>"

section \<open>Mounting\<close>

definition tar_inode :: "'a tarfs_scheme \<Rightarrow> u32 \<times> 'a tarfs_scheme" where
  "tar_inode s = (tar_inode_counter s, s\<lparr>tar_inode_counter := tar_inode_counter s + 1\<rparr>)"

definition create_dir_node :: "u64 \<Rightarrow> string \<Rightarrow> 'a tarfs_scheme \<Rightarrow> (u64 \<times> 'a tarfs_scheme) option" where
  "create_dir_node ops nm s =
     (let (n, s) = vfs_alloc_node s
      in if n = NULL then Some (NULL, s)
         else do {
           let (ino, s) = tar_inode s;
           let s = upd_node n (\<lambda>r. r\<lparr>vn_name := take 255 nm, inode := ino, vn_type := VFS_DIRECTORY, vn_ops := ops\<rparr>) s;
           (dd, s) \<leftarrow> vs_malloc TAR_DIR_DATA_SIZE s;
           if dd = NULL then Some (n, s)
           else Some (n, upd_node n (\<lambda>r. r\<lparr>device := dd\<rparr>) (s\<lparr>tar_children := (tar_children s)(dd := NULL)\<rparr>))
         })"

text \<open>A new entry in front of those of the directory data \<open>dd\<close>.\<close>

definition tar_link :: "u64 \<Rightarrow> u64 \<Rightarrow> 'a tarfs_scheme \<Rightarrow> 'a tarfs_scheme option" where
  "tar_link dd node s = do {
     (entry, s) \<leftarrow> vs_malloc TAR_DIR_ENTRY_SIZE s;
     if entry = NULL then None
     else
       let s = s\<lparr>tar_entries := (tar_entries s)(entry := \<lparr>te_next = tar_children s dd, te_node = node\<rparr>)\<rparr>
       in Some (s\<lparr>tar_children := (tar_children s)(dd := entry)\<rparr>)
   }"

lemma next_token_shorter [termination_simp]: "p \<noteq> [] \<Longrightarrow> length (dropWhile P (tl (dropWhile Q p))) < length p"
  using length_dropWhile_le [of P "tl (dropWhile Q p)"] length_dropWhile_le [of Q p] by (cases p) (auto simp: less_Suc_eq_le)

fun dir_walk :: "u64 \<Rightarrow> u64 \<Rightarrow> string \<Rightarrow> 'a tarfs_scheme \<Rightarrow> (u64 \<times> 'a tarfs_scheme) option" where
  "dir_walk ops cnode p s =
     (if p = [] then Some (cnode, s)
      else
        let token = takeWhile (\<lambda>c. c \<noteq> CHR ''/'') p
        in case tarfs_finddir cnode token s of
             None \<Rightarrow> None
           | Some (nxt, s) \<Rightarrow>
               case (if nxt \<noteq> NULL then Some (nxt, s)
                     else do {
                       (nxt, s) \<leftarrow> create_dir_node ops token s;
                       if nxt = NULL then Some (NULL, s)
                       else if not_dir s cnode then None
                       else map_option (Pair nxt) (tar_link (device (vs_nodes s cnode)) nxt s)
                     }) of
                 None \<Rightarrow> None
               | Some (nxt, s) \<Rightarrow>
                   if nxt = NULL then Some (NULL, s)
                   else if CHR ''/'' \<in> set p
                   then dir_walk ops nxt (dropWhile (\<lambda>c. c = CHR ''/'') (tl (dropWhile (\<lambda>c. c \<noteq> CHR ''/'') p))) s
                   else Some (nxt, s))"

declare dir_walk.simps [simp del]

text \<open>\<open>temp_path\<close> holds 255 characters; its trailing slashes are cut off.\<close>

definition tarfs_get_or_create_dir :: "u64 \<Rightarrow> u64 \<Rightarrow> string \<Rightarrow> 'a tarfs_scheme \<Rightarrow> (u64 \<times> 'a tarfs_scheme) option" where
  "tarfs_get_or_create_dir ops root path s =
     dir_walk ops root (rev (dropWhile (\<lambda>c. c = CHR ''/'') (rev (take 255 path)))) s"

text \<open>A member that is a file: its directory, and its name of at most 127 characters.\<close>

definition tar_split :: "string \<Rightarrow> string option \<times> string" where
  "tar_split fn =
     (if CHR ''/'' \<in> set fn
      then
        let nm = rev (takeWhile (\<lambda>c. c \<noteq> CHR ''/'') (rev fn))
        in (Some (take (length fn - length nm - 1) fn), take 127 nm)
      else (None, take 127 fn))"

definition tar_add_file :: "u64 \<Rightarrow> u64 \<Rightarrow> u64 \<Rightarrow> string \<Rightarrow> u32 \<Rightarrow> u64 \<Rightarrow> 'a tarfs_scheme \<Rightarrow> 'a tarfs_scheme option" where
  "tar_add_file ops source root fn sz offset s = do {
     let (path, nm) = tar_split fn;
     (parent, s) \<leftarrow> (case path of None \<Rightarrow> Some (root, s) | Some path \<Rightarrow> tarfs_get_or_create_dir ops root path s);
     let (file_n, s) = vfs_alloc_node s;
     if file_n = NULL then None
     else do {
       let (ino, s) = tar_inode s;
       let s = upd_node file_n (\<lambda>r. r\<lparr>vn_name := nm, inode := ino, vn_type := VFS_FILE, vn_size := sz, vn_ops := ops\<rparr>) s;
       (fd, s) \<leftarrow> vs_malloc TAR_FILE_DATA_SIZE s;
       let s = (if fd \<noteq> NULL then s\<lparr>tar_files := (tar_files s)(fd := \<lparr>source_node = source, data_offset = offset + 512\<rparr>)\<rparr> else s);
       let s = upd_node file_n (\<lambda>r. r\<lparr>device := fd\<rparr>) s;
       if parent = NULL \<or> device (vs_nodes s parent) = NULL then Some s
       else if vn_type (vs_nodes s parent) \<noteq> VFS_DIRECTORY then None
       else tar_link (device (vs_nodes s parent)) file_n s
     }
   }"

partial_function (option) tar_members ::
  "'a tarfs_scheme blockdev \<Rightarrow> u64 \<Rightarrow> u64 \<Rightarrow> u64 \<Rightarrow> u64 \<Rightarrow> 'a tarfs_scheme \<Rightarrow> 'a tarfs_scheme option" where
  "tar_members dev ops source root offset s = do {
     rd \<leftarrow> bd_read dev;
     (h, s) \<leftarrow> rd source (ucast offset) 512 s;
     if length h < 512 \<or> hd h = 0 then Some s
     else do {
       let sz = tar_size h;
       fn \<leftarrow> tar_name h;
       s \<leftarrow> (if tar_typeflag h = 53 \<or> last fn = CHR ''/'' then map_option snd (tarfs_get_or_create_dir ops root fn s)
             else tar_add_file ops source root fn sz offset s);
       tar_members dev ops source root (offset + ucast (tar_step sz)) s
     }
   }"

definition tarfs_mount ::
  "'a tarfs_scheme driver_code \<Rightarrow> u64 \<Rightarrow> cred option \<Rightarrow> u64 \<Rightarrow> string option \<Rightarrow> string \<Rightarrow> u64 \<Rightarrow> 'a tarfs_scheme
     \<Rightarrow> (u64 \<times> 'a tarfs_scheme) option" where
  "tarfs_mount C sp thread ops source target data s =
     (if source = None then Some (NULL, s)
      else do {
        (sn, s) \<leftarrow> kopen C thread source s;
        let sn = (if sn = NULL \<and> data \<noteq> NULL then tar_mount_data s data else sn);
        case node_op C op_read sn s of
          None \<Rightarrow> Some (NULL, s)
        | Some _ \<Rightarrow> do {
            (root, s) \<leftarrow> create_dir_node ops ''/'' s;
            if root = NULL then Some (NULL, s)
            else do {
              s \<leftarrow> tar_members (blockdev_of sp (ops_at C (vn_ops (vs_nodes s sn)))) ops sn root 0 s;
              Some (root, s)
            }
          }
      })"

text \<open>\<open>mount\<close> is the address of \<open>tarfs_mount\<close>.\<close>

definition tarfs_init :: "u64 \<Rightarrow> 'a vfs_state_scheme \<Rightarrow> 'a vfs_state_scheme option" where
  "tarfs_init mount s = vfs_register_fs ''tarfs'' 0 mount s"

section \<open>Sizes\<close>

text \<open>The digits of a number in base eight, padded with zeros in front, read back as the number.\<close>

definition octal_digits :: "nat list \<Rightarrow> u8 list" where
  "octal_digits ds = map (\<lambda>d. of_nat (48 + d)) ds"

lemma octal_to_int_digits:
  assumes "\<forall>d\<in>set ds. d < 8"
  shows "octal_to_int (octal_digits ds) = of_nat (of_digits 8 ds)"
  using assms
proof (induction ds rule: rev_induct)
  case Nil
  then show ?case
    by (simp add: octal_to_int_def octal_digits_def of_digits_def)
next
  case (snoc d ds)
  have "d \<in> {0, 1, 2, 3, 4, 5, 6, 7}"
    using snoc.prems by auto
  then have d: "48 \<le> (of_nat (48 + d) :: u8)" "(of_nat (48 + d) :: u8) \<le> 55" "ucast (of_nat (48 + d) :: u8) - 48 = (of_nat d :: u32)"
    by auto
  have "octal_to_int (octal_digits (ds @ [d])) = octal_to_int (octal_digits ds) * 8 + of_nat d"
    using d by (simp add: octal_to_int_def octal_digits_def)
  then show ?case
    using snoc by (simp add: algebra_simps)
qed

text \<open>The next header lies behind the data of the member, at a multiple of 512 bytes, when the size leaves room in 32 bits; a
  member of \<open>2^32 - 1023\<close> bytes makes the loop of \<open>tarfs_mount\<close> read its header again and again.\<close>

lemma tar_step_next:
  assumes "unat sz + 1023 \<le> 2 ^ 32 - 1"
  shows "unat (tar_step sz) = 512 + (unat sz + 511) div 512 * 512" "unat sz + 512 \<le> unat (tar_step sz)"
proof -
  have le: "(unat sz + 511) div 512 * 512 \<le> unat sz + 511"
    by (rule div_times_less_eq_dividend)
  have "unat (sz + 511) = unat sz + 511"
    using assms by (simp add: unat_word_ariths)
  then have "unat ((sz + 511) div 512 * 512) = (unat sz + 511) div 512 * 512"
    using le assms by (simp add: unat_word_ariths unat_div)
  then show step: "unat (tar_step sz) = 512 + (unat sz + 511) div 512 * 512"
    using le assms by (simp add: tar_step_def unat_word_ariths)
  have "unat sz + 511 < (unat sz + 511) div 512 * 512 + 512"
    using div_mult_mod_eq [of "unat sz + 511" 512] mod_less_divisor [of 512 "unat sz + 511"] by linarith
  then show "unat sz + 512 \<le> unat (tar_step sz)"
    using step by linarith
qed

lemma tar_step_stuck: "tar_step (- 1023) = 0"
  by (simp add: tar_step_def)

end
