(* ===== verification/Procfs.thy ===== *)
theory Procfs
  imports Tarfs Rtc
begin

text \<open>
  \<open>krnl/fs/procfs.c\<close>, a file system in memory: a tree of directories with lists of entries, and files whose contents are blocks
  of the heap.  The addresses of the tables of operations are arguments; so are the strings of the build and
  the name of the processor, which come from a generated header and from the processor.  \<open>C\<close> are the drivers
  that a path is resolved with, \<open>regs\<close> the registers of the clock.
\<close>

section \<open>State\<close>

record procfs_entry =
  pe_next :: u64
  pe_node :: u64

record procfs_dir_data =
  pd_node :: u64
  pd_children :: u64
  child_count :: u32

record procfs_file_data =
  pf_data :: u64
  pf_size :: u64
  pf_capacity :: u64

record procfs = tarfs +
  proc_entries :: "u64 \<Rightarrow> procfs_entry"
  proc_dirs :: "u64 \<Rightarrow> procfs_dir_data"
  proc_files :: "u64 \<Rightarrow> procfs_file_data"
  procfs_root_node :: u64
  procfs_inode_counter :: u32
  start_time :: u64

record procfs_tables =
  dir_ops_at :: u64
  file_ops_at :: u64
  uptime_ops_at :: u64
  mem_ops_at :: u64

definition PROCFS_ENTRY_SIZE :: u64 where "PROCFS_ENTRY_SIZE = 16"
definition PROCFS_DIR_DATA_SIZE :: u64 where "PROCFS_DIR_DATA_SIZE = 24"
definition PROCFS_FILE_DATA_SIZE :: u64 where "PROCFS_FILE_DATA_SIZE = 24"

definition upd_dir :: "u64 \<Rightarrow> (procfs_dir_data \<Rightarrow> procfs_dir_data) \<Rightarrow> 'a procfs_scheme \<Rightarrow> 'a procfs_scheme" where
  "upd_dir d f s = s\<lparr>proc_dirs := (proc_dirs s)(d := f (proc_dirs s d))\<rparr>"

definition upd_file :: "u64 \<Rightarrow> (procfs_file_data \<Rightarrow> procfs_file_data) \<Rightarrow> 'a procfs_scheme \<Rightarrow> 'a procfs_scheme" where
  "upd_file d f s = s\<lparr>proc_files := (proc_files s)(d := f (proc_files s d))\<rparr>"

section \<open>Directories\<close>

definition proc_next :: "'a procfs_scheme \<Rightarrow> u64 \<Rightarrow> u64" where
  "proc_next s e = pe_next (proc_entries s e)"

definition proc_child :: "'a procfs_scheme \<Rightarrow> u64 \<Rightarrow> u64" where
  "proc_child s e = pe_node (proc_entries s e)"

definition proc_first :: "'a procfs_scheme \<Rightarrow> u64 \<Rightarrow> u64" where
  "proc_first s node = pd_children (proc_dirs s (device (vs_nodes s node)))"

definition procfs_dir_finddir :: "u64 \<Rightarrow> string \<Rightarrow> 'a procfs_scheme \<Rightarrow> (u64 \<times> 'a procfs_scheme) option" where
  "procfs_dir_finddir node nm s =
     (if node = NULL \<or> not_dir s node then Some (NULL, s)
      else map_option (\<lambda>n. (n, s)) (dir_find (proc_next s) (proc_child s) (\<lambda>n. vn_name (vs_nodes s n)) nm (proc_first s node)))"

definition procfs_dir_readdir :: "u64 \<Rightarrow> u32 \<Rightarrow> 'a procfs_scheme \<Rightarrow> (dirent option \<times> 'a procfs_scheme) option" where
  "procfs_dir_readdir node index s =
     (if node = NULL \<or> not_dir s node then Some (None, s)
      else
        let entry = dir_skip (proc_next s) (unat index) (proc_first s node);
            n = vs_nodes s (proc_child s entry)
        in Some (if entry = NULL then None else Some \<lparr>d_name = take 255 (vn_name n), d_ino = inode n\<rparr>, s))"

definition stat_of :: "u32 \<Rightarrow> u32 \<Rightarrow> u32 \<Rightarrow> stat" where
  "stat_of ino mode sz = \<lparr>st_ino = ucast ino, st_mode = mode, st_nlink = 0, st_uid = 0, st_gid = 0, st_size = ucast sz, st_blksize = 0,
     st_blocks = 0, st_atime = 0, st_mtime = 0, st_ctime = 0\<rparr>"

definition procfs_dir_stat :: "u64 \<Rightarrow> stat \<Rightarrow> 'a vfs_state_scheme \<Rightarrow> (stat \<times> 'a vfs_state_scheme) option" where
  "procfs_dir_stat node st s = Some (if node = NULL then st else stat_of (inode (vs_nodes s node)) 0x416D 0, s)"

section \<open>Files\<close>

definition procfs_file_read :: "u64 \<Rightarrow> u32 \<Rightarrow> u32 \<Rightarrow> u64 \<Rightarrow> 'a procfs_scheme \<Rightarrow> (u32 \<times> 'a procfs_scheme) option" where
  "procfs_file_read node offset sz buffer s =
     (if node = NULL \<or> device (vs_nodes s node) = NULL \<or> buffer = NULL then Some (0, s)
      else
        let fdata = proc_files s (device (vs_nodes s node))
        in if pf_size fdata \<le> ucast offset then Some (0, s)
           else
             let remaining = ucast (pf_size fdata - ucast offset);
                 to_read = min sz remaining
             in map_option (Pair to_read) (vcopy (unat to_read) buffer (pf_data fdata + ucast offset) s))"

text \<open>\<open>snprintf\<close> into the contents of the file.\<close>

definition print_file :: "u64 \<Rightarrow> string \<Rightarrow> (nat \<Rightarrow> u64) \<Rightarrow> 'a procfs_scheme \<Rightarrow> 'a procfs_scheme option" where
  "print_file node fmt args s =
     (let fdata = proc_files s (device (vs_nodes s node))
      in map_option (\<lambda>(_, m). set_mem m s) (snprintf (pf_data fdata) (pf_size fdata) (Some fmt) args (k_mem s)))"

definition procfs_file_read_uptime ::
  "(u8 \<Rightarrow> u8) \<Rightarrow> u64 \<Rightarrow> u32 \<Rightarrow> u32 \<Rightarrow> u64 \<Rightarrow> 'a procfs_scheme \<Rightarrow> (u32 \<times> 'a procfs_scheme) option" where
  "procfs_file_read_uptime regs node offset sz buffer s =
     (if node = NULL \<or> device (vs_nodes s node) = NULL \<or> buffer = NULL then Some (0, s)
      else do {
        now \<leftarrow> rtc_get_unix_time regs;
        s \<leftarrow> print_file node ''%llu'' (\<lambda>_. now - start_time s) s;
        procfs_file_read node offset sz buffer s
      })"

definition procfs_file_read_mem :: "u64 \<Rightarrow> u32 \<Rightarrow> u32 \<Rightarrow> u64 \<Rightarrow> 'a procfs_scheme \<Rightarrow> (u32 \<times> 'a procfs_scheme) option" where
  "procfs_file_read_mem node offset sz buffer s =
     (if node = NULL \<or> device (vs_nodes s node) = NULL \<or> buffer = NULL then Some (0, s)
      else do {
        let p = ks_pmm (vs_slab s);
        let free = (usable_pages p - used_pages p) * PAGE_SIZE div (1024 * 1024);
        let all = usable_pages p * PAGE_SIZE div (1024 * 1024);
        s \<leftarrow> print_file node ''%llu MB / %llu MB'' (\<lambda>k. if k = 0 then free else all) s;
        procfs_file_read node offset sz buffer s
      })"

definition procfs_file_write :: "u64 \<Rightarrow> u32 \<Rightarrow> u32 \<Rightarrow> u64 \<Rightarrow> 'a procfs_scheme \<Rightarrow> (u32 \<times> 'a procfs_scheme) option" where
  "procfs_file_write node offset sz buffer s =
     (if node = NULL \<or> device (vs_nodes s node) = NULL \<or> buffer = NULL then Some (0, s)
      else
        let d = device (vs_nodes s node);
            needed = ucast (offset + sz) :: u64
        in Option.bind
             (if pf_capacity (proc_files s d) < needed
              then do {
                (new_buf, s) \<leftarrow> vs_malloc (needed * 2) s;
                if new_buf = NULL then Some (False, s)
                else do {
                  let old = proc_files s d;
                  s \<leftarrow> (if pf_data old \<noteq> NULL
                        then map_option (vs_mfree (pf_data old)) (vcopy (unat (pf_size old)) new_buf (pf_data old) s)
                        else Some s);
                  Some (True, upd_file d (\<lambda>r. r\<lparr>pf_data := new_buf, pf_capacity := needed * 2\<rparr>) s)
                }
              }
              else Some (True, s))
             (\<lambda>(ok, s).
                if \<not> ok then Some (0, s)
                else do {
                  s \<leftarrow> vcopy (unat sz) (pf_data (proc_files s d) + ucast offset) buffer s;
                  let s = upd_file d (\<lambda>r. r\<lparr>pf_size := max (pf_size r) needed\<rparr>) s;
                  Some (sz, upd_node node (\<lambda>n. n\<lparr>vn_size := ucast (pf_size (proc_files s d))\<rparr>) s)
                }))"

definition procfs_file_stat :: "u64 \<Rightarrow> stat \<Rightarrow> 'a vfs_state_scheme \<Rightarrow> (stat \<times> 'a vfs_state_scheme) option" where
  "procfs_file_stat node st s =
     Some (if node = NULL then st else stat_of (inode (vs_nodes s node)) 0x8124 (vn_size (vs_nodes s node)), s)"

section \<open>Tables of operations\<close>

definition procfs_dir_ops :: "'a procfs_scheme vfs_operations" where
  "procfs_dir_ops = no_ops\<lparr>op_readdir := Some procfs_dir_readdir, op_finddir := Some procfs_dir_finddir, op_stat := Some procfs_dir_stat\<rparr>"

definition procfs_file_ops :: "'a procfs_scheme vfs_operations" where
  "procfs_file_ops = no_ops\<lparr>op_read := Some procfs_file_read, op_stat := Some procfs_file_stat\<rparr>"

definition procfs_file_ops_uptime :: "(u8 \<Rightarrow> u8) \<Rightarrow> 'a procfs_scheme vfs_operations" where
  "procfs_file_ops_uptime regs = no_ops\<lparr>op_read := Some (procfs_file_read_uptime regs), op_stat := Some procfs_file_stat\<rparr>"

definition procfs_file_ops_mem :: "'a procfs_scheme vfs_operations" where
  "procfs_file_ops_mem = no_ops\<lparr>op_read := Some procfs_file_read_mem, op_stat := Some procfs_file_stat\<rparr>"

section \<open>Nodes\<close>

definition proc_node :: "string \<Rightarrow> vfs_node_type \<Rightarrow> u32 \<Rightarrow> u32 \<Rightarrow> u64 \<Rightarrow> u64 \<times> 'a procfs_scheme \<Rightarrow> 'a procfs_scheme" where
  "proc_node nm ty flags sz ops ns =
     (let (node, s) = ns;
          ino = procfs_inode_counter s
      in upd_node node (\<lambda>n. n\<lparr>vn_name := take 255 nm, inode := ino, vn_type := ty, vn_flags := flags, vn_size := sz, vn_ops := ops\<rparr>)
           (s\<lparr>procfs_inode_counter := ino + 1\<rparr>))"

definition procfs_alloc_dir :: "procfs_tables \<Rightarrow> string \<Rightarrow> 'a procfs_scheme \<Rightarrow> (u64 \<times> 'a procfs_scheme) option" where
  "procfs_alloc_dir T nm s =
     (let (node, s) = vfs_alloc_node s
      in if node = NULL then Some (NULL, s)
         else do {
           let s = proc_node nm VFS_DIRECTORY 2 0 (dir_ops_at T) (node, s);
           (ddata, s) \<leftarrow> vs_malloc PROCFS_DIR_DATA_SIZE s;
           if ddata = NULL then Some (NULL, vfs_free_node node s)
           else
             let s = upd_dir ddata (\<lambda>_. \<lparr>pd_node = node, pd_children = NULL, child_count = 0\<rparr>) s
             in Some (node, upd_node node (\<lambda>n. n\<lparr>device := ddata\<rparr>) s)
         })"

definition procfs_alloc_file :: "procfs_tables \<Rightarrow> string \<Rightarrow> u64 \<Rightarrow> u64 \<Rightarrow> 'a procfs_scheme \<Rightarrow> (u64 \<times> 'a procfs_scheme) option" where
  "procfs_alloc_file T nm buf buf_size s =
     (let (node, s) = vfs_alloc_node s
      in if node = NULL then Some (NULL, s)
         else do {
           let s = proc_node nm VFS_FILE 1 (ucast buf_size) (file_ops_at T) (node, s);
           (fdata, s) \<leftarrow> vs_malloc PROCFS_FILE_DATA_SIZE s;
           if fdata = NULL then Some (NULL, vfs_free_node node s)
           else do {
             let s = upd_file fdata (\<lambda>_. \<lparr>pf_data = NULL, pf_size = 0, pf_capacity = 0\<rparr>) s;
             if buf \<noteq> NULL \<and> 0 < buf_size
             then do {
               let cap = max 64 buf_size;
               (d, s) \<leftarrow> vs_malloc cap s;
               let s = upd_file fdata (\<lambda>r. r\<lparr>pf_data := d\<rparr>) s;
               if d = NULL then Some (NULL, vfs_free_node node (vs_mfree fdata s))
               else do {
                 s \<leftarrow> vcopy (unat buf_size) d buf s;
                 let s = upd_file fdata (\<lambda>r. r\<lparr>pf_size := buf_size, pf_capacity := cap\<rparr>) s;
                 Some (node, upd_node node (\<lambda>n. n\<lparr>device := fdata\<rparr>) s)
               }
             }
             else Some (node, upd_node node (\<lambda>n. n\<lparr>device := fdata\<rparr>) s)
           }
         })"

definition procfs_add_child :: "u64 \<Rightarrow> u64 \<Rightarrow> 'a procfs_scheme \<Rightarrow> (int \<times> 'a procfs_scheme) option" where
  "procfs_add_child parent child s =
     (if parent = NULL \<or> child = NULL \<or> not_dir s parent then Some (- 1, s)
      else do {
        let dir = device (vs_nodes s parent);
        old \<leftarrow> dir_find (proc_next s) (proc_child s) (\<lambda>n. vn_name (vs_nodes s n)) (vn_name (vs_nodes s child)) (proc_first s parent);
        if old \<noteq> NULL then Some (- 1, s)
        else do {
          (entry, s) \<leftarrow> vs_malloc PROCFS_ENTRY_SIZE s;
          if entry = NULL then Some (- 1, s)
          else
            let s = s\<lparr>proc_entries := (proc_entries s)(entry := \<lparr>pe_next = pd_children (proc_dirs s dir), pe_node = child\<rparr>)\<rparr>
            in Some (0, upd_dir dir (\<lambda>d. d\<lparr>pd_children := entry, child_count := child_count d + 1\<rparr>) s)
        }
      })"

section \<open>Paths\<close>

fun proc_walk :: "'a procfs_scheme driver_code \<Rightarrow> string list \<Rightarrow> u64 \<Rightarrow> 'a procfs_scheme \<Rightarrow> (u64 \<times> 'a procfs_scheme) option" where
  "proc_walk C [] node s = Some (node, s)"
| "proc_walk C (t # ts) node s =
     (case (if vn_type (vs_nodes s node) \<noteq> VFS_DIRECTORY then None else node_op C op_finddir node s) of
        None \<Rightarrow> Some (NULL, s)
      | Some f \<Rightarrow> do {
          (nxt, s) \<leftarrow> f node t s;
          if nxt = NULL then Some (NULL, s) else proc_walk C ts nxt s
        })"

definition procfs_resolve_path :: "'a procfs_scheme driver_code \<Rightarrow> string option \<Rightarrow> 'a procfs_scheme \<Rightarrow> (u64 \<times> 'a procfs_scheme) option" where
  "procfs_resolve_path C path s =
     (if procfs_root_node s = NULL then Some (NULL, s)
      else
        case path of
          None \<Rightarrow> Some (procfs_root_node s, s)
        | Some p \<Rightarrow> if p = [] \<or> p = ''/'' then Some (procfs_root_node s, s) else proc_walk C (slash_tokens (take 255 p)) (procfs_root_node s) s)"

definition procfs_create_dir ::
  "'a procfs_scheme driver_code \<Rightarrow> procfs_tables \<Rightarrow> string option \<Rightarrow> string option \<Rightarrow> 'a procfs_scheme \<Rightarrow> (u64 \<times> 'a procfs_scheme) option" where
  "procfs_create_dir C T path nm s =
     (case nm of
        None \<Rightarrow> Some (NULL, s)
      | Some nm \<Rightarrow> do {
          (parent, s) \<leftarrow> procfs_resolve_path C path s;
          if parent = NULL \<or> vn_type (vs_nodes s parent) \<noteq> VFS_DIRECTORY then Some (NULL, s)
          else do {
            (dir_node, s) \<leftarrow> procfs_alloc_dir T nm s;
            if dir_node = NULL then Some (NULL, s)
            else do {
              (r, s) \<leftarrow> procfs_add_child parent dir_node s;
              if r = 0 then Some (dir_node, s)
              else
                let d = device (vs_nodes s dir_node);
                    s = (if d \<noteq> NULL then vs_mfree d s else s)
                in Some (NULL, vfs_free_node dir_node s)
            }
          }
        })"

text \<open>The contents and the data of a file are freed.\<close>

definition free_file_data :: "u64 \<Rightarrow> 'a procfs_scheme \<Rightarrow> 'a procfs_scheme" where
  "free_file_data d s =
     (let s = (if pf_data (proc_files s d) \<noteq> NULL then vs_mfree (pf_data (proc_files s d)) s else s) in vs_mfree d s)"

definition procfs_create_file ::
  "'a procfs_scheme driver_code \<Rightarrow> procfs_tables \<Rightarrow> string option \<Rightarrow> string option \<Rightarrow> u64 \<Rightarrow> u64 \<Rightarrow> 'a procfs_scheme
     \<Rightarrow> (u64 \<times> 'a procfs_scheme) option" where
  "procfs_create_file C T path nm buf buf_size s =
     (case nm of
        None \<Rightarrow> Some (NULL, s)
      | Some nm \<Rightarrow> do {
          (parent, s) \<leftarrow> procfs_resolve_path C path s;
          if parent = NULL \<or> vn_type (vs_nodes s parent) \<noteq> VFS_DIRECTORY then Some (NULL, s)
          else do {
            (file_node, s) \<leftarrow> procfs_alloc_file T nm buf buf_size s;
            if file_node = NULL then Some (NULL, s)
            else do {
              (r, s) \<leftarrow> procfs_add_child parent file_node s;
              if r = 0 then Some (file_node, s)
              else
                let d = device (vs_nodes s file_node);
                    s = (if d \<noteq> NULL then free_file_data d s else s)
                in Some (NULL, vfs_free_node file_node s)
            }
          }
        })"

definition procfs_update_file :: "u64 \<Rightarrow> u64 \<Rightarrow> u64 \<Rightarrow> 'a procfs_scheme \<Rightarrow> (int \<times> 'a procfs_scheme) option" where
  "procfs_update_file node buf buf_size s =
     (let d = device (vs_nodes s node)
      in if node = NULL \<or> vn_type (vs_nodes s node) \<noteq> VFS_FILE \<or> d = NULL then Some (- 1, s)
         else
           Option.bind
             (if pf_capacity (proc_files s d) < buf_size
              then do {
                (new_buf, s) \<leftarrow> vs_malloc buf_size s;
                if new_buf = NULL then Some (False, s)
                else
                  let s = (if pf_data (proc_files s d) \<noteq> NULL then vs_mfree (pf_data (proc_files s d)) s else s)
                  in Some (True, upd_file d (\<lambda>r. r\<lparr>pf_data := new_buf, pf_capacity := buf_size\<rparr>) s)
              }
              else Some (True, s))
             (\<lambda>(ok, s).
                if \<not> ok then Some (- 1, s)
                else do {
                  s \<leftarrow> (if buf \<noteq> NULL \<and> 0 < buf_size then vcopy (unat buf_size) (pf_data (proc_files s d)) buf s else Some s);
                  Some (0, upd_node node (\<lambda>n. n\<lparr>vn_size := ucast buf_size\<rparr>) (upd_file d (\<lambda>r. r\<lparr>pf_size := buf_size\<rparr>) s))
                }))"

text \<open>The entry is taken out of the list of the directory \<open>dir\<close>, behind \<open>prev\<close>, and freed with its node.\<close>

definition unlink_entry :: "u64 \<Rightarrow> u64 \<Rightarrow> u64 \<Rightarrow> 'a procfs_scheme \<Rightarrow> 'a procfs_scheme" where
  "unlink_entry dir prev entry s =
     (let nxt = proc_next s entry;
          s = (if prev \<noteq> NULL then s\<lparr>proc_entries := (proc_entries s)(prev := (proc_entries s prev)\<lparr>pe_next := nxt\<rparr>)\<rparr>
               else upd_dir dir (\<lambda>d. d\<lparr>pd_children := nxt\<rparr>) s);
          s = vs_mfree entry (vfs_free_node (proc_child s entry) s)
      in upd_dir dir (\<lambda>d. d\<lparr>child_count := child_count d - 1\<rparr>) s)"

definition remove_found :: "u64 \<Rightarrow> u64 \<Rightarrow> u64 \<Rightarrow> 'a procfs_scheme \<Rightarrow> int \<times> 'a procfs_scheme" where
  "remove_found dir prev entry s =
     (let n = vs_nodes s (proc_child s entry);
          d = device n
      in if vn_type n = VFS_DIRECTORY \<and> d \<noteq> NULL \<and> 0 < child_count (proc_dirs s d) then (- 1, s)
         else
           let s = (if vn_type n = VFS_DIRECTORY \<and> d \<noteq> NULL then vs_mfree d s else s);
               s = (if vn_type n = VFS_FILE \<and> d \<noteq> NULL then free_file_data d s else s)
           in (0, unlink_entry dir prev entry s))"

partial_function (option) proc_remove_loop :: "u64 \<Rightarrow> string \<Rightarrow> u64 \<Rightarrow> u64 \<Rightarrow> 'a procfs_scheme \<Rightarrow> (int \<times> 'a procfs_scheme) option" where
  "proc_remove_loop dir nm prev entry s =
     (if entry = NULL then Some (- 1, s)
      else if vn_name (vs_nodes s (proc_child s entry)) = nm then Some (remove_found dir prev entry s)
      else proc_remove_loop dir nm entry (proc_next s entry) s)"

definition procfs_remove ::
  "'a procfs_scheme driver_code \<Rightarrow> string option \<Rightarrow> string option \<Rightarrow> 'a procfs_scheme \<Rightarrow> (int \<times> 'a procfs_scheme) option" where
  "procfs_remove C path nm s =
     (case nm of
        None \<Rightarrow> Some (- 1, s)
      | Some nm \<Rightarrow> do {
          (parent, s) \<leftarrow> procfs_resolve_path C path s;
          if parent = NULL \<or> not_dir s parent then Some (- 1, s)
          else proc_remove_loop (device (vs_nodes s parent)) nm NULL (proc_first s parent) s
        })"

section \<open>Initialisation\<close>

definition procfs_mount_cb :: "procfs_tables \<Rightarrow> string option \<Rightarrow> string \<Rightarrow> u64 \<Rightarrow> 'a procfs_scheme \<Rightarrow> (u64 \<times> 'a procfs_scheme) option" where
  "procfs_mount_cb T source target data s =
     (if procfs_root_node s \<noteq> NULL then Some (procfs_root_node s, s)
      else do {
        (root, s) \<leftarrow> procfs_alloc_dir T ''proc'' s;
        Some (root, s\<lparr>procfs_root_node := root\<rparr>)
      })"

definition procfs_init :: "u64 \<Rightarrow> 'a vfs_state_scheme \<Rightarrow> 'a vfs_state_scheme option" where
  "procfs_init mount s = vfs_register_fs ''procfs'' 0 mount s"

text \<open>A file of the root with a string that is first copied to a block of its own.\<close>

definition setup_text ::
  "'a procfs_scheme driver_code \<Rightarrow> procfs_tables \<Rightarrow> string \<Rightarrow> string \<Rightarrow> 'a procfs_scheme \<Rightarrow> 'a procfs_scheme option" where
  "setup_text C T nm str s = do {
     (p, s) \<leftarrow> vs_malloc (of_nat (length str) + 1) s;
     if p = NULL then Some s
     else do {
       s \<leftarrow> vwrite p (str_bytes str) s;
       map_option snd (procfs_create_file C T (Some []) (Some nm) p (of_nat (length str)) s)
     }
   }"

text \<open>A file with a formatted text: \<open>len\<close> is the length given to the file, or that of the string; \<open>ops\<close> the table it gets.\<close>

definition setup_print ::
  "'a procfs_scheme driver_code \<Rightarrow> procfs_tables \<Rightarrow> string \<Rightarrow> u64 \<Rightarrow> string \<Rightarrow> u64 option \<Rightarrow> u64 option \<Rightarrow> u64 \<Rightarrow> 'a procfs_scheme \<Rightarrow> 'a procfs_scheme option" where
  "setup_print C T nm bufsize fmt arg len ops s = do {
     (p, s) \<leftarrow> vs_malloc bufsize s;
     if p = NULL then Some s
     else do {
       arg \<leftarrow> arg;
       (_, m) \<leftarrow> snprintf p bufsize (Some fmt) (\<lambda>_. arg) (k_mem s);
       let s = set_mem m s;
       str \<leftarrow> read_cstr s p;
       (node, s) \<leftarrow> procfs_create_file C T (Some []) (Some nm) p (case len of Some n \<Rightarrow> n | None \<Rightarrow> of_nat (length str)) s;
       Some (if node \<noteq> NULL then upd_node node (\<lambda>n. n\<lparr>vn_ops := ops\<rparr>) s else s)
     }
   }"

record build_info =
  OS_NAME :: string
  OS_VERSION :: string
  OS_KRNL_NAME :: string
  OS_KRNL_VERSION :: string
  BUILD_NUMBER :: u64
  BUILD_DATE :: string
  brand_string :: string

definition procfs_setup ::
  "'a procfs_scheme driver_code \<Rightarrow> procfs_tables \<Rightarrow> build_info \<Rightarrow> (u8 \<Rightarrow> u8) \<Rightarrow> 'a procfs_scheme \<Rightarrow> 'a procfs_scheme option" where
  "procfs_setup C T B regs s = do {
     s \<leftarrow> setup_text C T ''os-name'' (OS_NAME B) s;
     s \<leftarrow> setup_text C T ''os-version'' (OS_VERSION B) s;
     s \<leftarrow> setup_text C T ''krnl-name'' (OS_KRNL_NAME B) s;
     s \<leftarrow> setup_text C T ''krnl-version'' (OS_KRNL_VERSION B) s;
     s \<leftarrow> setup_print C T ''os-build-number'' 16 ''%u'' (Some (BUILD_NUMBER B)) None (file_ops_at T) s;
     s \<leftarrow> setup_text C T ''os-build-date'' (BUILD_DATE B) s;
     s \<leftarrow> setup_print C T ''uptime'' 18 ''%llu'' (rtc_get_unix_time regs) None (uptime_ops_at T) s;
     s \<leftarrow> setup_text C T ''cpuname'' (brand_string B) s;
     setup_print C T ''mem'' 64 ''0 / 0'' (Some 0) (Some 64) (mem_ops_at T) s
   }"

section \<open>Lists of entries\<close>

text \<open>The directory with data \<open>d\<close> has the entries \<open>es\<close>.\<close>

definition proc_dir :: "'a procfs_scheme \<Rightarrow> u64 \<Rightarrow> u64 list \<Rightarrow> bool" where
  "proc_dir s d es \<longleftrightarrow> elist (proc_next s) (pd_children (proc_dirs s d)) es \<and> distinct es \<and> child_count (proc_dirs s d) = of_nat (length es)"

definition entry_name :: "'a procfs_scheme \<Rightarrow> u64 \<Rightarrow> string" where
  "entry_name s e = vn_name (vs_nodes s (proc_child s e))"

text \<open>The allocators do not change the tables.\<close>

lemma alloc_tables [simp]:
  "vs_nodes (vs_mfree p t) = vs_nodes t" "vs_nodes (vfs_free_node n t) = vs_nodes t"
  "proc_dirs (vs_mfree p s) = proc_dirs s" "proc_entries (vs_mfree p s) = proc_entries s" "proc_files (vs_mfree p s) = proc_files s"
  "proc_dirs (vfs_free_node n s) = proc_dirs s" "proc_entries (vfs_free_node n s) = proc_entries s" "proc_files (vfs_free_node n s) = proc_files s"
  by (simp_all add: vs_mfree_def vfs_free_node_def)

lemma malloc_tables:
  assumes "vs_malloc n s = Some (p, s')"
  shows "vs_nodes s' = vs_nodes s" "proc_dirs s' = proc_dirs s" "proc_entries s' = proc_entries s"
  using assms by (auto simp: vs_malloc_def)

text \<open>A child whose name is new is entered in front; one whose name the directory has is refused.\<close>

lemma procfs_add_child_new:
  assumes "proc_dir s (device (vs_nodes s parent)) es" "parent \<noteq> NULL" "child \<noteq> NULL" "\<not> not_dir s parent"
    "vn_name (vs_nodes s child) \<notin> entry_name s ` set es" "vs_malloc PROCFS_ENTRY_SIZE s = Some (e, s1)" "e \<noteq> NULL" "e \<notin> set es"
  shows "\<exists>s'. procfs_add_child parent child s = Some (0, s') \<and> proc_dir s' (device (vs_nodes s parent)) (e # es) \<and>
    proc_child s' e = child \<and> (\<forall>x\<in>set es. proc_child s' x = proc_child s x)"
proof -
  let ?d = "device (vs_nodes s parent)"
  note tab = malloc_tables [OF assms(6)]
  have list: "elist (proc_next s) (pd_children (proc_dirs s ?d)) es"
    using assms(1) by (simp add: proc_dir_def)
  have "find (\<lambda>x. vn_name (vs_nodes s (proc_child s x)) = vn_name (vs_nodes s child)) es = None"
    using assms(5) by (force simp: find_None_iff entry_name_def)
  then have none: "dir_find (proc_next s) (proc_child s) (\<lambda>n. vn_name (vs_nodes s n)) (vn_name (vs_nodes s child)) (pd_children (proc_dirs s ?d)) = Some NULL"
    by (simp add: dir_find_elist [OF list])
  define s' where "s' = upd_dir ?d (\<lambda>d. d\<lparr>pd_children := e, child_count := child_count d + 1\<rparr>)
      (s1\<lparr>proc_entries := (proc_entries s1)(e := \<lparr>pe_next = pd_children (proc_dirs s1 ?d), pe_node = child\<rparr>)\<rparr>)"
  have "procfs_add_child parent child s = Some (0, s')"
    using assms(2-4,6,7) none by (simp add: procfs_add_child_def proc_first_def s'_def Let_def)
  moreover have "proc_next s' = (proc_next s)(e := pd_children (proc_dirs s ?d))"
    by (auto simp: s'_def upd_dir_def proc_next_def tab)
  then have "proc_dir s' ?d (e # es)"
    using elist_push [OF list assms(7,8)] assms(1,8) by (simp add: proc_dir_def s'_def upd_dir_def tab)
  moreover have "proc_child s' e = child" "\<forall>x\<in>set es. proc_child s' x = proc_child s x"
    using assms(8) by (auto simp: s'_def upd_dir_def proc_child_def tab)
  ultimately show ?thesis
    by blast
qed

lemma procfs_add_child_exists:
  assumes "proc_dir s (device (vs_nodes s parent)) es" "parent \<noteq> NULL" "child \<noteq> NULL" "\<not> not_dir s parent"
    "vn_name (vs_nodes s child) \<in> entry_name s ` set es" "\<forall>x\<in>set es. proc_child s x \<noteq> NULL"
  shows "procfs_add_child parent child s = Some (- 1, s)"
proof -
  let ?d = "device (vs_nodes s parent)"
  have list: "elist (proc_next s) (pd_children (proc_dirs s ?d)) es"
    using assms(1) by (simp add: proc_dir_def)
  obtain x where x: "find (\<lambda>x. vn_name (vs_nodes s (proc_child s x)) = vn_name (vs_nodes s child)) es = Some x" "x \<in> set es"
  proof (cases "find (\<lambda>x. vn_name (vs_nodes s (proc_child s x)) = vn_name (vs_nodes s child)) es")
    case None
    then show ?thesis
      using assms(5) by (force simp: find_None_iff entry_name_def)
  next
    case (Some x)
    then show ?thesis
      by (metis find_Some_iff nth_mem that)
  qed
  then show ?thesis
    using assms(2-4,6) by (simp add: procfs_add_child_def proc_first_def dir_find_elist [OF list])
qed

text \<open>Removing: the first entry with the name leaves the list, the others keep their order.\<close>

lemma elist_unlink:
  assumes "elist nx p (xs @ [y, x] @ ys)" "distinct (xs @ [y, x] @ ys)"
  shows "elist (nx(y := nx x)) p (xs @ [y] @ ys)"
  using assms
proof (induction xs arbitrary: p)
  case Nil
  have "elist (nx(y := nx x)) (nx x) ys \<longleftrightarrow> elist nx (nx x) ys"
    by (rule elist_cong) (use Nil.prems(2) in auto)
  then show ?case
    using Nil.prems by (simp add: fun_upd_def)
qed simp

lemma proc_remove_loop_step:
  assumes "elist (proc_next s) (proc_next s y) (xs @ e # ys)" "\<forall>x\<in>set xs. entry_name s x \<noteq> nm" "entry_name s e = nm"
  shows "proc_remove_loop d nm y (proc_next s y) s = Some (remove_found d (last (y # xs)) e s)"
  using assms
proof (induction xs arbitrary: y)
  case Nil
  then show ?case
    by (subst proc_remove_loop.simps) (simp add: entry_name_def)
next
  case (Cons x xs)
  then have x: "proc_next s y = x" "x \<noteq> NULL" "entry_name s x \<noteq> nm"
    by simp_all
  then have "proc_remove_loop d nm y (proc_next s y) s = proc_remove_loop d nm x (proc_next s x) s"
    by (subst proc_remove_loop.simps) (simp add: entry_name_def)
  also have "\<dots> = Some (remove_found d (last (x # xs)) e s)"
    using Cons x by (intro Cons.IH) simp_all
  finally show ?case
    by simp
qed

lemma proc_remove_loop_found:
  assumes "elist (proc_next s) p (xs @ e # ys)" "\<forall>x\<in>set xs. entry_name s x \<noteq> nm" "entry_name s e = nm"
  shows "proc_remove_loop d nm NULL p s = Some (remove_found d (if xs = [] then NULL else last xs) e s)"
proof (cases xs)
  case Nil
  then show ?thesis
    using assms by (subst proc_remove_loop.simps) (simp add: entry_name_def)
next
  case (Cons x zs)
  then have "proc_remove_loop d nm NULL p s = proc_remove_loop d nm x (proc_next s x) s"
    using assms by (subst proc_remove_loop.simps) (simp add: entry_name_def)
  also have "\<dots> = Some (remove_found d (last (x # zs)) e s)"
    using assms Cons by (intro proc_remove_loop_step [of s x zs e ys]) simp_all
  finally show ?thesis
    using Cons by simp
qed

lemma proc_remove_loop_correct:
  assumes "proc_dir s d (xs @ e # ys)" "\<forall>x\<in>set xs. entry_name s x \<noteq> nm" "entry_name s e = nm"
    "vn_type (vs_nodes s (proc_child s e)) = VFS_DIRECTORY \<longrightarrow>
      device (vs_nodes s (proc_child s e)) \<noteq> d \<and> child_count (proc_dirs s (device (vs_nodes s (proc_child s e)))) = 0"
  shows "\<exists>s'. proc_remove_loop d nm NULL (pd_children (proc_dirs s d)) s = Some (0, s') \<and> proc_dir s' d (xs @ ys) \<and>
    (\<forall>x\<in>set (xs @ ys). proc_child s' x = proc_child s x) \<and> vs_nodes s' = vs_nodes s"
proof -
  have list: "elist (proc_next s) (pd_children (proc_dirs s d)) (xs @ e # ys)" and dist: "distinct (xs @ e # ys)"
    using assms(1) by (simp_all add: proc_dir_def)
  define prev where "prev = (if xs = [] then NULL else last xs)"
  obtain t where t: "remove_found d prev e s = (0, unlink_entry d prev e t)" "vs_nodes t = vs_nodes s" "proc_dirs t = proc_dirs s" "proc_entries t = proc_entries s"
    using assms(4) by (auto simp: remove_found_def Let_def free_file_data_def)
  have same: "proc_next t = proc_next s" "proc_child t = proc_child s"
    by (auto simp: proc_next_def proc_child_def t)
  define s' where "s' = unlink_entry d prev e t"
  have loop: "proc_remove_loop d nm NULL (pd_children (proc_dirs s d)) s = Some (0, s')"
    using proc_remove_loop_found [OF list assms(2,3)] t(1) by (simp add: prev_def s'_def)
  have count: "child_count (proc_dirs s' d) = of_nat (length (xs @ ys))"
    using assms(1) by (simp add: s'_def unlink_entry_def upd_dir_def t proc_dir_def Let_def)
  have child: "proc_child s' x = proc_child s x" for x
    by (simp add: s'_def unlink_entry_def upd_dir_def proc_child_def t Let_def)
  have "elist (proc_next s') (pd_children (proc_dirs s' d)) (xs @ ys)"
  proof (cases "xs = []")
    case True
    then have "proc_next s' = proc_next s" "pd_children (proc_dirs s' d) = proc_next s e"
      by (auto simp: s'_def unlink_entry_def upd_dir_def prev_def proc_next_def t Let_def)
    then show ?thesis
      using list True by simp
  next
    case False
    then obtain zs y where xs: "xs = zs @ [y]"
      by (metis rev_exhaust)
    have y: "y \<noteq> NULL"
      using elist_NULL [OF list] xs by auto
    have "proc_next s' = (proc_next s)(y := proc_next s e)" "pd_children (proc_dirs s' d) = pd_children (proc_dirs s d)"
      using xs y by (auto simp: s'_def unlink_entry_def upd_dir_def prev_def proc_next_def t Let_def)
    then show ?thesis
      using elist_unlink [of "proc_next s" _ zs y e ys] list dist xs by simp
  qed
  then have "proc_dir s' d (xs @ ys)"
    using dist count by (simp add: proc_dir_def)
  moreover have "vs_nodes s' = vs_nodes s"
    by (simp add: s'_def unlink_entry_def upd_dir_def t Let_def)
  ultimately show ?thesis
    using loop child by blast
qed

end
