(* ===== verification/Cmdline.thy ===== *)
theory Cmdline
  imports Prelude
begin

text \<open>
  The line editor and the splitting of a line into arguments of \<open>krnl/util/cmdline.c\<close>, on the characters of the line before
  the terminating zero.  The commands themselves (\<open>execute_cmd\<close>) print what other components return and are not
  modelled; what they answer is an argument.
\<close>

section \<open>Arguments\<close>

definition CMDLINE_BUFSIZE :: nat where "CMDLINE_BUFSIZE = 1024"
definition CMDLINE_MAXARGS :: nat where "CMDLINE_MAXARGS = 64"

definition isspace :: "char \<Rightarrow> bool" where
  "isspace c \<longleftrightarrow> c = CHR '' '' \<or> c = CHR 0x09"

text \<open>The next argument and the rest of the line.  A quoted argument ends at the next quote, another one at a space; the
  character behind it is replaced by the terminating zero.\<close>

definition next_arg :: "string \<Rightarrow> string \<times> string" where
  "next_arg p =
     (if hd p = CHR 0x22
      then (takeWhile (\<lambda>c. c \<noteq> CHR 0x22) (tl p), tl (dropWhile (\<lambda>c. c \<noteq> CHR 0x22) (tl p)))
      else (takeWhile (\<lambda>c. \<not> isspace c) p, tl (dropWhile (\<lambda>c. \<not> isspace c) p)))"

lemma next_arg_shorter: "p \<noteq> [] \<Longrightarrow> length (snd (next_arg p)) < length p"
  using length_dropWhile_le [of "\<lambda>c. c \<noteq> CHR 0x22" "tl p"] length_dropWhile_le [of "\<lambda>c. \<not> isspace c" p]
  by (cases p) (auto simp: next_arg_def)

function parse_args :: "string list \<Rightarrow> string \<Rightarrow> string list" where
  "parse_args args p =
     (if p = [] \<or> CMDLINE_MAXARGS \<le> length args then args
      else
        let p = dropWhile isspace p
        in if p = [] then args else parse_args (args @ [fst (next_arg p)]) (snd (next_arg p)))"
  by auto
termination
proof (relation "measure (\<lambda>(args, p). length p)", simp, goal_cases)
  case (1 args p q)
  then have "length (snd (next_arg q)) < length q"
    by (intro next_arg_shorter) simp
  also have "length q \<le> length p"
    using 1 by (simp add: length_dropWhile_le)
  finally show ?case
    by simp
qed

declare parse_args.simps [simp del]

definition parse_and_execute :: "(string list \<Rightarrow> 's \<Rightarrow> int \<times> 's) \<Rightarrow> string \<Rightarrow> 's \<Rightarrow> int \<times> 's" where
  "parse_and_execute execute_cmd line s = execute_cmd (parse_args [] line) s"

section \<open>Editing\<close>

text \<open>What a key does to the line: nothing and no output, the line is complete, it loses its last character, or it gets one
  more.  A key is the \<open>int\<close> that the terminal returns.\<close>

datatype key_result = Ignored | Execute | Erased string | Typed string

definition line_key :: "int \<Rightarrow> string \<Rightarrow> key_result" where
  "line_key c buf =
     (if c = 0 \<or> c = -1 then Ignored
      else if c = 0x0D \<or> c = 0x0A then Execute
      else if c = 0x08 \<or> c = 0x7F then (if 0 < length buf then Erased (butlast buf) else Ignored)
      else if length buf + 1 < CMDLINE_BUFSIZE then Typed (buf @ [char_of c]) else Ignored)"

text \<open>The loop of \<open>cmdline_run\<close> over the keys that the terminal returns, with the output to the terminal and the prompt as
  arguments.  It ends when a command answers 1.\<close>

fun cmdline_loop ::
  "(string list \<Rightarrow> 's \<Rightarrow> int \<times> 's) \<Rightarrow> (char \<Rightarrow> 's \<Rightarrow> 's) \<Rightarrow> (string \<Rightarrow> 's \<Rightarrow> 's) \<Rightarrow> ('s \<Rightarrow> 's) \<Rightarrow> int list \<Rightarrow> string \<Rightarrow> 's \<Rightarrow> string \<times> 's"
where
  "cmdline_loop execute_cmd putchar puts prompt [] buf s = (buf, s)"
| "cmdline_loop execute_cmd putchar puts prompt (c # cs) buf s =
     (case line_key c buf of
        Ignored \<Rightarrow> cmdline_loop execute_cmd putchar puts prompt cs buf s
      | Erased line \<Rightarrow> cmdline_loop execute_cmd putchar puts prompt cs line (puts [CHR 0x08, CHR 0x08, CHR ''[''] s)
      | Typed line \<Rightarrow> cmdline_loop execute_cmd putchar puts prompt cs line
          (putchar (CHR ''['') (putchar (char_of c) (putchar (CHR 0x08) s)))
      | Execute \<Rightarrow>
          let s = putchar (CHR 0x0A) s;
              (r, s) = (if 0 < length buf then parse_and_execute execute_cmd buf s else (0, s))
          in if r = 1 then (buf, s) else cmdline_loop execute_cmd putchar puts prompt cs [] (prompt s))"

definition cmdline_run ::
  "(string list \<Rightarrow> 's \<Rightarrow> int \<times> 's) \<Rightarrow> (char \<Rightarrow> 's \<Rightarrow> 's) \<Rightarrow> (string \<Rightarrow> 's \<Rightarrow> 's) \<Rightarrow> ('s \<Rightarrow> 's) \<Rightarrow> int list \<Rightarrow> 's \<Rightarrow> string \<times> 's"
where
  "cmdline_run execute_cmd putchar puts prompt keys s = cmdline_loop execute_cmd putchar puts prompt keys [] (prompt s)"

section \<open>Correctness\<close>

text \<open>The line never outgrows its buffer, which has room for the terminating zero.\<close>

lemma cmdline_loop_bound:
  "length buf < CMDLINE_BUFSIZE \<Longrightarrow> length (fst (cmdline_loop f putchar puts prompt cs buf s)) < CMDLINE_BUFSIZE"
proof (induction cs arbitrary: buf s)
  case (Cons c cs)
  have "0 < CMDLINE_BUFSIZE"
    by (simp add: CMDLINE_BUFSIZE_def)
  then show ?case
    using Cons by (auto simp: line_key_def Let_def split: key_result.split prod.split)
qed simp

lemma cmdline_run_bound: "length (fst (cmdline_run f putchar puts prompt keys s)) < CMDLINE_BUFSIZE"
  unfolding cmdline_run_def by (rule cmdline_loop_bound) (simp add: CMDLINE_BUFSIZE_def)

text \<open>Never more arguments than the array has room for.\<close>

lemma parse_args_length: "length args \<le> CMDLINE_MAXARGS \<Longrightarrow> length (parse_args args p) \<le> CMDLINE_MAXARGS"
proof (induction args p rule: parse_args.induct)
  case (1 args p)
  show ?case
    using 1 by (subst parse_args.simps) (auto simp: Let_def)
qed

text \<open>Arguments written with quotes around them and a space behind are split into these arguments.\<close>

definition quoted :: "string \<Rightarrow> string" where
  "quoted w = [CHR 0x22] @ w @ [CHR 0x22, CHR '' '']"

lemma parse_args_quoted:
  assumes "\<forall>w\<in>set ws. CHR 0x22 \<notin> set w" "length args + length ws \<le> CMDLINE_MAXARGS" "lead = [] \<or> lead = '' ''"
  shows "parse_args args (lead @ concat (map quoted ws)) = args @ ws"
  using assms
proof (induction ws arbitrary: args lead)
  case Nil
  then show ?case
    by (subst parse_args.simps) (auto simp: isspace_def)
next
  case (Cons w ws)
  let ?p = "[CHR 0x22] @ w @ [CHR 0x22] @ '' '' @ concat (map quoted ws)"
  have w: "\<forall>c\<in>set w. c \<noteq> CHR 0x22"
    using Cons.prems(1) by auto
  have line: "lead @ concat (map quoted (w # ws)) = lead @ ?p"
    by (simp add: quoted_def)
  have drop: "dropWhile isspace (lead @ ?p) = ?p"
    using Cons.prems(3) by (auto simp: isspace_def)
  have arg: "next_arg ?p = (w, '' '' @ concat (map quoted ws))"
    using w by (simp add: next_arg_def takeWhile_append2 dropWhile_append2)
  have "parse_args args (lead @ ?p) = parse_args (args @ [w]) ('' '' @ concat (map quoted ws))"
    using Cons.prems(2) drop arg by (subst parse_args.simps) (simp add: Let_def)
  also have "\<dots> = (args @ [w]) @ ws"
    using Cons.prems by (intro Cons.IH) auto
  finally show ?case
    by (simp only: line) simp
qed

end
