(* ===== verification/Spec2Isabelle.thy ===== *)
theory Spec2Isabelle
  imports Cstring RingBuffer Kheap Vmm Sha256 Klist Hashmap Kbuddy Mm Vfs Rtc Sched Socket Exec Syscall Ext2file Procfs Cmdline
begin

text \<open>
  A verification library for munt3os, a kernel for x86-64 written in C (\<open>src/krnl\<close>).

  \<^bold>\<open>The program.\<close>  The boot loader passes a memory map to the page allocator (\<open>mem/pmm.c\<close>); on top of it
  stand the page tables (\<open>mem/vmm.c\<close>), a first-fit heap (\<open>mem/kheap.c\<close>), object caches
  (\<open>mem/kslab.c\<close>) and a buddy pool (\<open>mem/kbuddy.c\<close>), which the general allocator (\<open>mm.c\<close>) puts behind
  \<open>kmalloc\<close>.  The file system layer (\<open>fs/vfs.c\<close>) resolves paths and dispatches to drivers; the scheduler
  (\<open>task/sched.c\<close>) keeps the threads in one circular list and switches between them at every
  timer interrupt; the sockets (\<open>net/socket.c\<close>) connect threads; the system calls
  (\<open>api/syscall.c\<close>) give user programs access to all of it.  Lists, hash maps, ring buffers and SHA-256
  (\<open>util\<close>) and the C library (\<open>cstdlib.c\<close>) serve everyone.

  \<^bold>\<open>The theories\<close>, with the files they model:

  \<^item> \<open>Prelude\<close>: types of machine words, facts on words, lists and folds that the others share.
  \<^item> \<open>Cmem\<close>, \<open>Cstring\<close>: \<open>cstdlib.c\<close>; memory is a function from 64-bit addresses to bytes.  The word-wise
    \<open>memcpy_fast\<close> equals the byte-wise copy, \<open>memmove\<close> is right for every overlap, the printed
    digits of a number read back as the number.
  \<^item> \<open>Pmm\<close>: \<open>mem/pmm.c\<close>; the bitmap lives in memory, the static variables are a record.  Allocation hands
    out free pages only and conserves the counters; the scan finds a run on one side of its
    cursor; freeing and initialisation keep and establish the invariant.
  \<^item> \<open>Vmm\<close>: \<open>mem/vmm.c\<close>; a page table is the address of its page, its entries are a store of cells beside the byte
    memory, and a table reached by a path of indices is reached by one path only.  Mapping and
    unmapping change the translation of one page.
  \<^item> \<open>Kheap\<close>: \<open>mem/kheap.c\<close>; the block headers are a store of records, the heap is represented by the list of
    its blocks, without gaps and without adjacent free blocks.  A request that succeeds adds exactly one block
    to those in use and a release takes exactly one away.
  \<^item> \<open>Dll\<close>: intrusive doubly linked lists, several in one store, with a locale for the operations on
    them that \<open>Kslab\<close>, \<open>Kbuddy\<close> and \<open>Klist\<close> rely on.
  \<^item> \<open>Kslab\<close>: \<open>mem/kslab.c\<close>; the live objects of every cache are an abstract map, which allocation and
    release change by one object; every slab is on the list its free objects demand, but for caches
    with one object per slab.
  \<^item> \<open>Kbuddy\<close>: \<open>mem/kbuddy.c\<close>; the pool is cut into aligned blocks, disjoint and without a gap, and no two
    free blocks are buddies of the same order.
  \<^item> \<open>Mm\<close>: \<open>mm.c\<close>; what \<open>kmalloc\<close> returns was not live and is large enough (but for sizes so large that the
    sum with the header wraps); \<open>kfree\<close> gives back live memory to its allocator, unless a slab object has
    the magic number of the buddy allocator in front of it.
  \<^item> \<open>RingBuffer\<close>, \<open>Klist\<close>, \<open>Hashmap\<close>, \<open>Sha256\<close>: \<open>util\<close>; each refines its mathematical counterpart: a bounded queue, a
    sequence, a map from strings, the hash of the padded message.
  \<^item> \<open>Vfs\<close>: \<open>fs/vfs.c\<close>; the drivers are an argument, a record of functions for every address of a table of
    operations.  Path resolution computes the canonical path of a path that fits its buffers, and exactly the result
    is in use afterwards in addition (\<open>heap_blocks\<close> is the exact set of blocks in use); opening looks
    up the components of that path and checks the right to read.
  \<^item> \<open>Rtc\<close>: \<open>hw/rtc.c\<close>; the clock registers are a function.  The result is the number of seconds since 1970.
  \<^item> \<open>Sched\<close>: \<open>task/sched.c\<close> and \<open>task/sched.h\<close>; the record \<open>kernel\<close> joins the file system layer, the allocators, the page
    tables and the threads.  The operations are the steps of a transition system; for kernel threads,
    all on the page tables of the kernel, its invariant holds in every state reached by steps that create
    threads only when there is room: one circular list, distinct ids, every thread with its own
    two blocks of the pool.  Every running thread gets its turn; waiting for a child reaps it and
    gives back exactly its memory.
  \<^item> \<open>Socket\<close>: \<open>net/socket.c\<close>; connecting puts a client into the queue of a listening socket, accepting takes the
    first one out and connects it with a new socket.
  \<^item> \<open>Umem\<close>, \<open>Exec\<close>: \<open>task/elf.c\<close> and \<open>task/exec.c\<close>; the kernel's accesses to user memory go through the page tables that are
    active.  The arguments of a new program can be read back from the registers it starts with.
  \<^item> \<open>Syscall\<close>: \<open>api/syscall.c\<close>; all calls and the dispatcher.  Bad descriptors and unknown numbers are refused
    without effect; the calls on memory end for every argument.
  \<^item> \<open>Fsdir\<close>, \<open>Devfs\<close>: \<open>fs/devfs.c\<close>; directories in memory as lists of entries, and the tree of devices.  After a registration
    the path leads to the device and every directory keeps its entries.
  \<^item> \<open>Kalloc\<close>: the contract of \<open>kmalloc\<close> and \<open>kfree\<close> for small objects over the exact set of live objects, a locale interpreted
    on the kernel's state; requests succeed while pages are left.
  \<^item> \<open>Printf\<close>: \<open>printf.c\<close>; the text of a format as a list of characters that goes to an output function.  It is the text a
    reference definition gives for the texts and conversions the format consists of.
  \<^item> \<open>Moscfg\<close>: \<open>util/moscfg.c\<close>; the entries are a linked list of records whose strings and arrays are stores of their
    own.  Parsing refines the list of settings of the text; when it fails, and after the configuration is
    destroyed, exactly the objects from before are live.
  \<^item> \<open>Video\<close>, \<open>Tty\<close>: \<open>hw/video.c\<close>, \<open>font/psf.c\<close>, \<open>tty.c\<close>, \<open>dev/tty_dev.c\<close>; drawing into the frame buffer and the terminal with its escape
    sequences.  Output returns for every string and writes inside the frame buffer only.
  \<^item> \<open>Devices\<close>: \<open>dev/null.c\<close>, \<open>dev/zero.c\<close>, \<open>dev/random.c\<close>, \<open>dev/ramdisk.c\<close>, \<open>dev/fbdev.c\<close>, \<open>dev/input.c\<close>; the operations and the
    registration of the devices.
  \<^item> \<open>Ext2fmt\<close>, \<open>Ext2\<close>, \<open>Ext2file\<close>: \<open>fs/ext2.h\<close> and \<open>fs/ext2.c\<close>; the structures on the disk as lists of bytes, bitmaps, tables of blocks and
    directory blocks, and the operations on a block device, which is an argument.  A directory block
    refines a map from names; reading returns the bytes of the file and a search the entry of the name,
    for files of at most twelve blocks, whose block numbers are all in the inode.
  \<^item> \<open>Tarfs\<close>, \<open>Procfs\<close>: \<open>fs/tarfs.c\<close> and \<open>fs/procfs.c\<close>; a tree built from an archive, and one that the kernel fills with files.
    Sizes in headers are read back, and entering and removing a file change the list of entries by one.
  \<^item> \<open>Cmdline\<close>: the line editor of \<open>util/cmdline.c\<close>; the commands and the terminal are arguments.  The line stays inside its
    buffer, and quoted arguments come back as they were written.

  \<^bold>\<open>Conventions.\<close>  Integers have the width of the source and wrap.  Operations pass the state explicitly; C
  structures that the code links by pointers are stores from addresses to records, beside the
  byte memory, and \<open>NULL\<close> is 0.  A loop that is not bounded by its own counter is a
  \<open>partial_function\<close> with option result: \<open>None\<close> is a loop without end, and the theorems on such
  operations state that there is a result; no definition needs fuel.  A loop that waits for
  another thread is modelled one round at a time.  Locales state what one component needs of
  another (queues, linked lists, allocators, maps); each is interpreted on the definitions of the
  component that provides it.

  \<^bold>\<open>Not modelled\<close>, with the reason: the assembly stubs, interrupt descriptor tables, port and memory-mapped
  input and output, log output; the device drivers (USB, SATA, PCI, ACPI, PS/2, serial line), which are
  sequences of accesses to device registers; the bitmap of the built-in font; the commands of the command line
  (\<open>execute_cmd\<close> of \<open>util/cmdline.c\<close>), which print what the modelled components return; the main program, a sequence of
  calls of the initialisations.  What the theorems on ext2 do not cover: files with tables of blocks,
  whose operations are modelled, and writing.
\<close>

end
